(* ===== verification/Ally_Prelude.thy ===== *)
theory Ally_Prelude
  imports Complex_Main "HOL-Library.AList"
begin

text \<open>
  Shared vocabulary of the development: Python values, exceptions as values, the string
  operations the code uses, dictionaries as association lists, and the generic lemmas the
  components share.

  Strings are lists of characters, read as Python strings whose code points are below 256
  (Latin-1): \<open>length\<close> counts code points as \<open>len\<close> does, and \<open>utf8_len\<close> counts
  the bytes of the UTF-8 encoding. Floating-point numbers are idealised as exact rationals,
  with the infinities and NaN kept as separate values.
\<close>

named_theorems res_simps "unfolding of the result combinators"
named_theorems tab_simps "selectors and updates on table rows"

section \<open>Exceptions as values\<close>

text \<open>
  One constructor per exception class the modelled code raises or catches. A message is kept
  where the code turns it into user-visible output or a status code.
\<close>

datatype exn =
    ValueError
  | TypeError
  | KeyError
  | IndexError
  | OverflowError
  | RuntimeError
  | PermissionError
  | OSError
  | DatabaseError
  | AuthorizationDenied
  | CapacityExceeded
  | AdmissionDenied
  | CapabilityDisabled
  | ToolError string
  | PCAgentError string
  | UploadFailure int
  | ProtocolViolation int string
  | HTTPException int
  | LLMGatewayError string
  | HistoryUnavailable
  | HistoryInputError
  | ModelInferenceRejected
  | ArtifactSizeExceeded
  | ActivityError bool
  | WebSocketDisconnect int
  | TimeoutError
  | CancelledError
  | RecursionError
  | AttributeError
  | HTTPError

type_synonym 'a res = "exn + 'a"

fun bindR :: "'a res \<Rightarrow> ('a \<Rightarrow> 'b res) \<Rightarrow> 'b res" where
  "bindR (Inl e) f = Inl e"
| "bindR (Inr x) f = f x"

definition guardR :: "bool \<Rightarrow> exn \<Rightarrow> unit res" where
  "guardR b e = (if b then Inr () else Inl e)"

fun is_ok :: "'a res \<Rightarrow> bool" where
  "is_ok (Inl e) = False"
| "is_ok (Inr x) = True"

lemma bindR_Inr [simp]: "bindR m f = Inr y \<longleftrightarrow> (\<exists>x. m = Inr x \<and> f x = Inr y)"
  by (cases m) auto

lemma bindR_Inl [simp]: "bindR m f = Inl e \<longleftrightarrow> m = Inl e \<or> (\<exists>x. m = Inr x \<and> f x = Inl e)"
  by (cases m) auto

lemma guardR_Inr [simp]: "guardR b e = Inr u \<longleftrightarrow> b"
  by (simp add: guardR_def)

lemma guardR_Inl [simp]: "guardR b e = Inl e' \<longleftrightarrow> \<not> b \<and> e' = e"
  by (auto simp: guardR_def)

lemma is_ok_iff: "is_ok r \<longleftrightarrow> (\<exists>x. r = Inr x)"
  by (cases r) auto

lemma not_is_ok_iff: "\<not> is_ok r \<longleftrightarrow> (\<exists>e. r = Inl e)"
  by (cases r) auto

section \<open>Strings\<close>

definition code :: "char \<Rightarrow> nat" where
  "code c = of_char c"

definition py_space :: "char \<Rightarrow> bool" where
  "py_space c = (let n = code c in 9 \<le> n \<and> n \<le> 13 \<or> 28 \<le> n \<and> n \<le> 32 \<or> n = 133 \<or> n = 160)"

definition lstrip :: "string \<Rightarrow> string" where
  "lstrip s = dropWhile py_space s"

definition rstrip :: "string \<Rightarrow> string" where
  "rstrip s = rev (dropWhile py_space (rev s))"

definition strip :: "string \<Rightarrow> string" where
  "strip s = rstrip (lstrip s)"

text \<open>\<open>str.strip(chars)\<close> with an explicit character set.\<close>

definition strip_chars :: "(char \<Rightarrow> bool) \<Rightarrow> string \<Rightarrow> string" where
  "strip_chars p s = rev (dropWhile p (rev (dropWhile p s)))"

definition lower_char :: "char \<Rightarrow> char" where
  "lower_char c = (let n = code c in
     if 65 \<le> n \<and> n \<le> 90 \<or> 192 \<le> n \<and> n \<le> 222 \<and> n \<noteq> 215 then char_of (n + 32) else c)"

definition lower :: "string \<Rightarrow> string" where
  "lower s = map lower_char s"

definition utf8_len :: "string \<Rightarrow> nat" where
  "utf8_len s = sum_list (map (\<lambda>c. if code c < 128 then 1 else 2) s)"

definition starts_with :: "string \<Rightarrow> string \<Rightarrow> bool" where
  "starts_with s p = (take (length p) s = p)"

definition ends_with :: "string \<Rightarrow> string \<Rightarrow> bool" where
  "ends_with s p = starts_with (rev s) (rev p)"

fun occurs_in :: "string \<Rightarrow> string \<Rightarrow> bool" where
  "occurs_in p [] = (p = [])"
| "occurs_in p (c # s) = (starts_with (c # s) p \<or> occurs_in p s)"

text \<open>\<open>str.split(sep)\<close> for a one-character separator, and \<open>sep.join\<close>.\<close>

fun split_on :: "char \<Rightarrow> string \<Rightarrow> string list" where
  "split_on d [] = [[]]"
| "split_on d (c # s) = (if c = d then [] # split_on d s
     else (case split_on d s of [] \<Rightarrow> [[c]] | w # ws \<Rightarrow> (c # w) # ws))"

fun join_with :: "string \<Rightarrow> string list \<Rightarrow> string" where
  "join_with d [] = []"
| "join_with d [w] = w"
| "join_with d (w # v # ws) = w @ d @ join_with d (v # ws)"

lemma dropWhile_length: "length (dropWhile p s) \<le> length s"
  by (rule length_dropWhile_le)

lemma strip_length: "length (strip s) \<le> length s"
  unfolding strip_def rstrip_def lstrip_def
  by (metis (no_types) dropWhile_length le_trans length_rev)

lemma strip_Nil [simp]: "strip [] = []"
  by (simp add: strip_def rstrip_def lstrip_def)

lemma set_strip: "set (strip s) \<subseteq> set s"
  unfolding strip_def rstrip_def lstrip_def
  by (auto dest!: set_dropWhileD)

lemma strip_eq_Nil: "strip s = [] \<longleftrightarrow> (\<forall>c \<in> set s. py_space c)"
proof -
  have "strip s = [] \<longleftrightarrow> (\<forall>c \<in> set (dropWhile py_space s). py_space c)"
    by (simp add: strip_def rstrip_def lstrip_def)
  moreover have "(\<forall>c \<in> set (dropWhile py_space s). py_space c) \<longleftrightarrow> (\<forall>c \<in> set s. py_space c)"
    by (induction s) auto
  ultimately show ?thesis by simp
qed

lemma hd_rev_dropWhile_rev: "dropWhile p (rev s) \<noteq> [] \<Longrightarrow> \<not> p (last (rev (dropWhile p (rev s))))"
  by (simp add: last_rev hd_dropWhile)

lemma strip_nonspace_id:
  assumes "s \<noteq> []" "\<not> py_space (hd s)" "\<not> py_space (last s)"
  shows "strip s = s"
proof -
  have l: "lstrip s = s" using assms by (cases s) (auto simp: lstrip_def)
  have "rev s \<noteq> []" and "\<not> py_space (hd (rev s))" using assms by (auto simp: hd_rev)
  then have "dropWhile py_space (rev s) = rev s" by (cases "rev s") auto
  then show ?thesis by (simp add: strip_def l rstrip_def)
qed

lemma split_on_not_Nil [simp]: "split_on d s \<noteq> []"
  by (induction s) (auto split: list.splits)

lemma join_split: "join_with [d] (split_on d s) = s"
proof (induction s)
  case Nil then show ?case by simp
next
  case (Cons c s)
  show ?case
  proof (cases "split_on d s")
    case Nil then show ?thesis by simp
  next
    case (Cons w ws)
    with Cons.IH show ?thesis by (cases ws) auto
  qed
qed

lemma split_on_no_sep: "w \<in> set (split_on d s) \<Longrightarrow> d \<notin> set w"
  by (induction s arbitrary: w) (auto split: list.splits if_splits)

lemma utf8_len_ge: "length s \<le> utf8_len s"
  by (induction s) (auto simp: utf8_len_def)

lemma utf8_len_le: "utf8_len s \<le> 2 * length s"
  by (induction s) (auto simp: utf8_len_def)

lemma utf8_len_append [simp]: "utf8_len (s @ t) = utf8_len s + utf8_len t"
  by (simp add: utf8_len_def)

section \<open>Python values\<close>

datatype pyfloat = Fin rat | PosInf | NegInf | NaN

datatype pyval =
    PNone
  | PBool bool
  | PInt int
  | PFloat pyfloat
  | PStr string
  | PList "pyval list"
  | PDict "(string \<times> pyval) list"

type_synonym dict = "(string \<times> pyval) list"

text \<open>What the decoder \<open>json.loads\<close> does with a text: it yields a value, raises \<open>JSONDecodeError\<close>, or
  raises something else (nesting beyond the recursion limit, an integer literal of too many digits).\<close>

datatype json_result = JValue pyval | JDecodeError | JRaises exn

fun truthy :: "pyval \<Rightarrow> bool" where
  "truthy PNone = False"
| "truthy (PBool b) = b"
| "truthy (PInt i) = (i \<noteq> 0)"
| "truthy (PFloat (Fin r)) = (r \<noteq> 0)"
| "truthy (PFloat _) = True"
| "truthy (PStr s) = (s \<noteq> [])"
| "truthy (PList xs) = (xs \<noteq> [])"
| "truthy (PDict d) = (d \<noteq> [])"

text \<open>
  \<open>math.isfinite\<close> converts its argument: an integer that does not fit a double raises
  \<open>OverflowError\<close>. The largest double is \<open>2^1024 - 2^971\<close>; integers round to it up to
  (excluded) \<open>2^1024 - 2^970\<close>.
\<close>

definition fits_double :: "int \<Rightarrow> bool" where
  "fits_double i = (\<bar>i\<bar> < 2 ^ 1024 - 2 ^ 970)"

fun is_finite_num :: "pyval \<Rightarrow> bool res" where
  "is_finite_num (PInt i) = (if fits_double i then Inr True else Inl OverflowError)"
| "is_finite_num (PFloat (Fin r)) = Inr True"
| "is_finite_num (PFloat _) = Inr False"
| "is_finite_num (PBool b) = Inr True"
| "is_finite_num _ = Inl TypeError"

fun num_of :: "pyval \<Rightarrow> rat" where
  "num_of (PInt i) = of_int i"
| "num_of (PFloat (Fin r)) = r"
| "num_of (PBool b) = (if b then 1 else 0)"
| "num_of _ = 0"

definition dget :: "dict \<Rightarrow> string \<Rightarrow> pyval" where
  "dget d k = (case map_of d k of None \<Rightarrow> PNone | Some v \<Rightarrow> v)"

definition dget_or :: "dict \<Rightarrow> string \<Rightarrow> pyval \<Rightarrow> pyval" where
  "dget_or d k v0 = (case map_of d k of None \<Rightarrow> v0 | Some v \<Rightarrow> v)"

definition dset :: "string \<Rightarrow> pyval \<Rightarrow> dict \<Rightarrow> dict" where
  "dset k v d = AList.update k v d"

definition keys :: "('k \<times> 'v) list \<Rightarrow> 'k list" where
  "keys d = map fst d"

lemma map_of_dset [simp]: "map_of (dset k v d) = (map_of d)(k \<mapsto> v)"
  by (simp add: dset_def update_conv')

lemma update_fresh: "k \<notin> fst ` set al \<Longrightarrow> AList.update k v al = al @ [(k, v)]"
  by (induction al) auto

lemma set_keys_dset [simp]: "set (keys (dset k v d)) = insert k (set (keys d))"
  by (simp add: keys_def dset_def dom_update)

lemma dget_dset [simp]: "dget (dset k v d) k' = (if k' = k then v else dget d k')"
  by (simp add: dget_def)

section \<open>Lists and tables\<close>

text \<open>
  A database table is a list of rows. \<open>UPDATE ... SET f WHERE p\<close> is \<open>upd_where p f\<close>,
  the row count is \<open>count_where p\<close>, \<open>DELETE ... WHERE p\<close> is \<open>del_where p\<close> and a
  one-row \<open>SELECT\<close> is the library's \<open>find\<close>.
\<close>

definition upd_where :: "('r \<Rightarrow> bool) \<Rightarrow> ('r \<Rightarrow> 'r) \<Rightarrow> 'r list \<Rightarrow> 'r list" where
  "upd_where p f rs = map (\<lambda>r. if p r then f r else r) rs"

definition count_where :: "('r \<Rightarrow> bool) \<Rightarrow> 'r list \<Rightarrow> nat" where
  "count_where p rs = length (filter p rs)"

definition del_where :: "('r \<Rightarrow> bool) \<Rightarrow> 'r list \<Rightarrow> 'r list" where
  "del_where p rs = filter (\<lambda>r. \<not> p r) rs"

lemma set_upd_where [tab_simps]: "set (upd_where p f rs) = (\<lambda>r. if p r then f r else r) ` set rs"
  by (simp add: upd_where_def)

lemma ball_upd_where [simp]:
  "(\<forall>r \<in> set (upd_where p f rs). P r) = (\<forall>r \<in> set rs. P (if p r then f r else r))"
  by (auto simp: upd_where_def)

lemma bex_upd_where [simp]:
  "(\<exists>r \<in> set (upd_where p f rs). P r) = (\<exists>r \<in> set rs. P (if p r then f r else r))"
  by (auto simp: upd_where_def)

lemma mem_upd_where: "r \<in> set (upd_where p f rs) \<longleftrightarrow> (\<exists>q \<in> set rs. r = (if p q then f q else q))"
  by (auto simp: upd_where_def)

lemma upd_whereI: "q \<in> set rs \<Longrightarrow> (if p q then f q else q) \<in> set (upd_where p f rs)"
  by (auto simp: upd_where_def)

lemma set_del_where [tab_simps]: "set (del_where p rs) = {r \<in> set rs. \<not> p r}"
  by (auto simp: del_where_def)

lemma length_upd_where [simp]: "length (upd_where p f rs) = length rs"
  by (simp add: upd_where_def)

lemma map_upd_where:
  assumes "\<And>r. g (f r) = g r"
  shows "map g (upd_where p f rs) = map g rs"
  using assms by (simp add: upd_where_def)

lemma count_where_pos: "count_where p rs \<noteq> 0 \<longleftrightarrow> (\<exists>r \<in> set rs. p r)"
  by (auto simp: count_where_def filter_empty_conv)

lemma count_where_zero: "count_where p rs = 0 \<longleftrightarrow> (\<forall>r \<in> set rs. \<not> p r)"
  by (auto simp: count_where_def filter_empty_conv)

lemma count_where_upd_id:
  assumes "\<And>r. q (f r) = q r"
  shows "count_where q (upd_where p f rs) = count_where q rs"
  unfolding count_where_def upd_where_def
  by (induction rs) (auto simp: assms)

lemma count_where_Cons: "count_where p (r # rs) = (if p r then 1 else 0) + count_where p rs"
  by (simp add: count_where_def)

lemma count_where_append: "count_where p (rs @ qs) = count_where p rs + count_where p qs"
  by (simp add: count_where_def)

lemma count_where_del_le: "count_where p (del_where q rs) \<le> count_where p rs"
  by (induction rs) (auto simp: count_where_def del_where_def)

lemma find_SomeD: "find p rs = Some r \<Longrightarrow> r \<in> set rs \<and> p r"
  by (metis find_Some_iff nth_mem)

lemma find_NoneD: "find p rs = None \<Longrightarrow> r \<in> set rs \<Longrightarrow> \<not> p r"
  by (simp add: find_None_iff)

lemma not_in_imageI: "(\<And>r. r \<in> A \<Longrightarrow> f r \<noteq> y) \<Longrightarrow> y \<notin> f ` A"
  by (metis imageE)

lemma find_ex: "r \<in> set rs \<Longrightarrow> p r \<Longrightarrow> \<exists>r'. find p rs = Some r'"
  by (metis find_NoneD option.exhaust)

lemma distinct_map_eq:
  "distinct (map f rs) \<Longrightarrow> r \<in> set rs \<Longrightarrow> q \<in> set rs \<Longrightarrow> f r = f q \<Longrightarrow> r = q"
  by (auto simp: distinct_map inj_on_def)

lemma count_where_unique:
  assumes "distinct (map f rs)" "\<And>r q. p r \<Longrightarrow> p q \<Longrightarrow> f r = f q"
  shows "count_where p rs \<le> 1"
  using assms
proof (induction rs)
  case Nil then show ?case by (simp add: count_where_def)
next
  case (Cons r rs)
  show ?case
  proof (cases "p r")
    case True
    have "\<not> p q" if q: "q \<in> set rs" for q
    proof
      assume "p q"
      with True Cons.prems(2) have "f r = f q" by blast
      with q have "f r \<in> f ` set rs" by simp
      with Cons.prems(1) show False by simp
    qed
    then have "count_where p rs = 0" by (simp add: count_where_zero)
    with True show ?thesis by (simp add: count_where_Cons)
  next
    case False
    have "distinct (map f rs)" using Cons.prems(1) by simp
    then have "count_where p rs \<le> 1" using Cons.prems(2) by (rule Cons.IH)
    with False show ?thesis by (simp add: count_where_Cons)
  qed
qed

lemma find_upd_where:
  assumes "\<And>r. g (f r) = g r"
  shows "find (\<lambda>r. g r = k) (upd_where p f rs) =
    map_option (\<lambda>r. if p r then f r else r) (find (\<lambda>r. g r = k) rs)"
  using assms by (induction rs) (auto simp: upd_where_def)

lemma filter_upd_where_other:
  assumes "\<And>r. q r \<Longrightarrow> \<not> p r" "\<And>r. p r \<Longrightarrow> \<not> q (f r)"
  shows "filter q (upd_where p f rs) = filter q rs"
  using assms by (induction rs) (auto simp: upd_where_def)

lemma find_append: "find p (rs @ qs) = (case find p rs of None \<Rightarrow> find p qs | Some r \<Rightarrow> Some r)"
  by (induction rs) auto

lemma find_cong_unique:
  "distinct (map g rs) \<Longrightarrow> find (\<lambda>r. g r = k) rs = Some r \<longleftrightarrow> r \<in> set rs \<and> g r = k"
proof (induction rs)
  case (Cons q rs)
  then show ?case by (cases "g q = k") (auto simp: image_iff)
qed simp

lemma count_where_one:
  assumes "distinct (map f rs)" "r \<in> set rs" "p r" "\<And>r q. p r \<Longrightarrow> p q \<Longrightarrow> f r = f q"
  shows "count_where p rs = 1"
proof -
  have "count_where p rs \<le> 1" using assms(1,4) by (rule count_where_unique)
  moreover have "count_where p rs \<noteq> 0" using assms(2,3) count_where_pos by blast
  ultimately show ?thesis by linarith
qed

lemma count_where_one_unique:
  assumes "count_where p rs = 1" "r \<in> set rs" "p r" "q \<in> set rs" "p q"
  shows "r = q"
proof -
  from assms(1) obtain x where "filter p rs = [x]"
    by (auto simp: count_where_def length_Suc_conv)
  then have *: "set (filter p rs) = {x}" by (metis list.simps(15) set_empty2)
  have "r \<in> set (filter p rs)" "q \<in> set (filter p rs)" using assms(2-) by simp_all
  then show ?thesis unfolding * by simp
qed

lemma count_where_one_ex: "count_where p rs = 1 \<Longrightarrow> \<exists>r \<in> set rs. p r"
  using count_where_pos[of p rs] by simp

section \<open>Transaction systems\<close>

text \<open>
  Several components are a state changed only by operations that either commit a new state or
  raise and leave the old one. \<open>run_all\<close> executes a schedule of such operations and
  \<open>accepted\<close> lists the ones that committed.
\<close>

definition commit :: "('op \<Rightarrow> 's \<Rightarrow> 's res) \<Rightarrow> 'op \<Rightarrow> 's \<Rightarrow> 's" where
  "commit run p s = (case run p s of Inl e \<Rightarrow> s | Inr t \<Rightarrow> t)"

definition run_all :: "('op \<Rightarrow> 's \<Rightarrow> 's res) \<Rightarrow> 'op list \<Rightarrow> 's \<Rightarrow> 's" where
  "run_all run ps s = fold (commit run) ps s"

fun accepted :: "('op \<Rightarrow> 's \<Rightarrow> 's res) \<Rightarrow> 'op list \<Rightarrow> 's \<Rightarrow> 'op list" where
  "accepted run [] s = []"
| "accepted run (p # ps) s =
     (case run p s of Inl e \<Rightarrow> accepted run ps s | Inr t \<Rightarrow> p # accepted run ps t)"

lemma run_all_simps [simp]:
  "run_all run [] s = s" "run_all run (p # ps) s = run_all run ps (commit run p s)"
  by (simp_all add: run_all_def)

locale tx_system =
  fixes run :: "'op \<Rightarrow> 's \<Rightarrow> 's res"
    and inv :: "'s \<Rightarrow> bool"
  assumes inv_run: "inv s \<Longrightarrow> run p s = Inr t \<Longrightarrow> inv t"
begin

lemma inv_commit: "inv s \<Longrightarrow> inv (commit run p s)"
  by (auto simp: commit_def inv_run split: sum.splits)

lemma inv_run_all: "inv s \<Longrightarrow> inv (run_all run ps s)"
  by (induction ps arbitrary: s) (auto intro: inv_commit)

lemma stable_run_all:
  assumes step: "\<And>p s t. inv s \<Longrightarrow> Q s \<Longrightarrow> run p s = Inr t \<Longrightarrow> Q t"
    and init: "inv s" "Q s"
  shows "Q (run_all run ps s)"
  using init
proof (induction ps arbitrary: s)
  case (Cons p ps)
  have "inv (commit run p s)" using Cons.prems(1) by (rule inv_commit)
  moreover have "Q (commit run p s)"
    using Cons.prems step by (auto simp: commit_def split: sum.splits)
  ultimately show ?case using Cons.IH by simp
qed simp

end

text \<open>A system whose operations implement an abstract one through an abstraction function.\<close>

locale tx_refinement = tx_system run inv
  for run :: "'op \<Rightarrow> 's \<Rightarrow> 's res" and inv :: "'s \<Rightarrow> bool" +
  fixes abs_of :: "'s \<Rightarrow> 'a"
    and spec :: "'op \<Rightarrow> 'a \<Rightarrow> 'a"
  assumes sim: "inv s \<Longrightarrow> run p s = Inr t \<Longrightarrow> abs_of t = spec p (abs_of s)"
begin

lemma abs_run_all: "inv s \<Longrightarrow> abs_of (run_all run ps s) = fold spec (accepted run ps s) (abs_of s)"
proof (induction ps arbitrary: s)
  case (Cons p ps)
  show ?case
  proof (cases "run p s")
    case (Inl e)
    with Cons show ?thesis by (simp add: commit_def)
  next
    case (Inr t)
    with Cons.prems have "inv t" by (rule inv_run)
    with Cons.IH have "abs_of (run_all run ps t) = fold spec (accepted run ps t) (abs_of t)" .
    with Inr sim[OF Cons.prems Inr] show ?thesis by (simp add: commit_def)
  qed
qed simp

end

end
