(* ===== verification/Auth_Principal.thy ===== *)
theory Auth_Principal
  imports Ally_Prelude
begin

text \<open>
  Credential identities and authorization rules of \<open>services/auth/principal.py\<close>: the known
  scopes, scope validation, \<open>Principal\<close> with its constructor check, \<open>require\<close> and the
  tool authorization table.
\<close>

definition KNOWN_SCOPES :: "string set" where
  "KNOWN_SCOPES = {''documents:ingest'', ''documents:read'', ''chat:use'', ''chat:history'',
     ''tools:read'', ''tools:write'', ''pc:connect'', ''pc:execute'', ''accounts:manage''}"

definition DEFAULT_SCOPES :: "string set" where
  "DEFAULT_SCOPES = {''documents:ingest'', ''documents:read'', ''chat:use'', ''chat:history''}"

definition LEGACY_SCOPES :: "string set" where
  "LEGACY_SCOPES = KNOWN_SCOPES - {''accounts:manage''}"

text \<open>The argument of \<open>validate_scopes\<close>: one bare string, or a collection of strings.\<close>

datatype scopes_arg = ScopeStr string | ScopeColl "string list"

fun validate_scopes :: "scopes_arg \<Rightarrow> string set res" where
  "validate_scopes (ScopeStr s) = Inl ValueError"
| "validate_scopes (ScopeColl xs) =
     (if list_all (\<lambda>s. s \<in> KNOWN_SCOPES) xs then Inr (set xs) else Inl ValueError)"

record principal =
  tenant_id :: string
  credential_id :: string
  scopes :: "string set"

definition mk_principal :: "string \<Rightarrow> string \<Rightarrow> scopes_arg \<Rightarrow> principal res" where
  "mk_principal tenant cred ss =
     (if strip tenant = [] \<or> strip cred = [] then Inl ValueError
      else bindR (validate_scopes ss)
        (\<lambda>v. Inr \<lparr>tenant_id = tenant, credential_id = cred, scopes = v\<rparr>))"

definition require :: "principal \<Rightarrow> string list \<Rightarrow> unit res" where
  "require p ss = guardR (list_all (\<lambda>s. s \<in> scopes p) ss) AuthorizationDenied"

definition local_pc_actions :: "string list" where
  "local_pc_actions = [''open_app'', ''list_windows'', ''focus_window'', ''close_window'',
     ''read_file'', ''write_file'', ''list_directory'', ''run_command'', ''move_mouse'',
     ''move_mouse_to_corner'', ''click'', ''type_text'', ''press_key'']"

definition TOOL_SCOPES :: "(string \<times> (string \<times> string) list) list" where
  "TOOL_SCOPES =
    [(''jira'', [(''create_ticket'', ''tools:write''), (''search_tickets'', ''tools:read''),
        (''get_ticket'', ''tools:read''), (''add_comment'', ''tools:write'')]),
     (''drive'', [(''search_files'', ''tools:read''), (''get_file'', ''tools:read''),
        (''create_file'', ''tools:write'')]),
     (''calendar'', [(''list_events'', ''tools:read''), (''create_event'', ''tools:write''),
        (''delete_event'', ''tools:write'')]),
     (''local_pc'', map (\<lambda>a. (a, ''pc:execute'')) local_pc_actions)]"

definition required_scope :: "string \<Rightarrow> string \<Rightarrow> string option" where
  "required_scope tool act =
     (case map_of TOOL_SCOPES tool of None \<Rightarrow> None | Some acts \<Rightarrow> map_of acts act)"

definition authorize_tool :: "principal option \<Rightarrow> string \<Rightarrow> string \<Rightarrow> string \<Rightarrow> unit res" where
  "authorize_tool p tenant tool act =
     (case p of None \<Rightarrow> Inl AuthorizationDenied
      | Some q \<Rightarrow>
         (case required_scope tool act of None \<Rightarrow> Inl AuthorizationDenied
          | Some r \<Rightarrow> if tenant_id q \<noteq> tenant then Inl AuthorizationDenied else require q [r]))"

section \<open>Lemmas\<close>

lemma validate_scopes_Inr:
  "validate_scopes a = Inr v \<longleftrightarrow> (\<exists>xs. a = ScopeColl xs \<and> v = set xs \<and> set xs \<subseteq> KNOWN_SCOPES)"
  by (cases a) (auto simp: list_all_iff)

lemma validate_scopes_Inl: "validate_scopes a = Inl e \<Longrightarrow> e = ValueError"
  by (cases a) (auto split: if_splits)

lemma mk_principal_Inr:
  "mk_principal t c a = Inr p \<longleftrightarrow> strip t \<noteq> [] \<and> strip c \<noteq> [] \<and>
     validate_scopes a = Inr (scopes p) \<and> tenant_id p = t \<and> credential_id p = c"
  by (cases p) (auto simp: mk_principal_def)

lemma require_Inr [simp]: "require p ss = Inr u \<longleftrightarrow> set ss \<subseteq> scopes p"
  by (auto simp: require_def list_all_iff)

lemma require_Inl: "require p ss = Inl e \<Longrightarrow> e = AuthorizationDenied"
  by (simp add: require_def)

lemma required_scope_known: "required_scope tool act = Some r \<Longrightarrow> r \<in> {''tools:read'', ''tools:write'', ''pc:execute''}"
  unfolding required_scope_def TOOL_SCOPES_def local_pc_actions_def
  by (simp split: if_splits)

lemma authorize_tool_Inr:
  "authorize_tool p t tool act = Inr () \<longleftrightarrow>
     (\<exists>q r. p = Some q \<and> tenant_id q = t \<and> required_scope tool act = Some r \<and> r \<in> scopes q)"
  by (auto simp: authorize_tool_def split: option.splits)

lemma authorize_tool_Inl: "authorize_tool p t tool act = Inl e \<Longrightarrow> e = AuthorizationDenied"
  by (auto simp: authorize_tool_def dest: require_Inl split: option.splits if_splits)

section \<open>Properties\<close>

text \<open>Tool authorization fails closed: it succeeds exactly for a credential of the same tenant
  holding the scope that the table requires for a known action, the required scope is never an
  administrative one, and every other outcome is \<open>AuthorizationDenied\<close>.\<close>

lemma authorize_tool_exact:
  "(authorize_tool p t tool act = Inr () \<longleftrightarrow>
     (\<exists>q r. p = Some q \<and> tenant_id q = t \<and> required_scope tool act = Some r \<and>
        r \<in> scopes q \<and> r \<in> LEGACY_SCOPES)) \<and>
   (authorize_tool p t tool act \<noteq> Inr () \<longrightarrow> authorize_tool p t tool act = Inl AuthorizationDenied)"
proof -
  have r: "r \<in> LEGACY_SCOPES" if "required_scope tool act = Some r" for r
    using required_scope_known[OF that] by (auto simp: LEGACY_SCOPES_def KNOWN_SCOPES_def)
  then have "authorize_tool p t tool act = Inr () \<longleftrightarrow>
     (\<exists>q r. p = Some q \<and> tenant_id q = t \<and> required_scope tool act = Some r \<and>
        r \<in> scopes q \<and> r \<in> LEGACY_SCOPES)"
    unfolding authorize_tool_Inr by blast
  moreover have "authorize_tool p t tool act = Inl AuthorizationDenied" if "authorize_tool p t tool act \<noteq> Inr ()"
    using that authorize_tool_Inl[of p t tool act] by (cases "authorize_tool p t tool act") auto
  ultimately show ?thesis by blast
qed

lemma authorize_tool_exact_witness:
  "authorize_tool (Some \<lparr>tenant_id = ''a'', credential_id = ''k'', scopes = {''tools:read''}\<rparr>)
     ''a'' ''jira'' ''create_ticket'' = Inl AuthorizationDenied"
proof -
  have "authorize_tool (Some \<lparr>tenant_id = ''a'', credential_id = ''k'', scopes = {''tools:read''}\<rparr>)
     ''a'' ''jira'' ''create_ticket'' \<noteq> Inr ()" by code_simp
  then show ?thesis using conjunct2[OF authorize_tool_exact] by blast
qed

end
