(* ===== verification/Chunking.thy ===== *)
theory Chunking
  imports Ally_Prelude "HOL-Library.Sublist"
begin

text \<open>
  Page extraction and chunking of \<open>workflows/activities.py\<close>: grouping OCR lines and
  Unstructured elements into pages, splitting page text into sentences, packing sentences
  into bounded overlapping chunks, and \<open>_chunk_pages_sync\<close>.
\<close>

abbreviation newline :: char where "newline \<equiv> CHR 0x0A"
abbreviation blank :: char where "blank \<equiv> CHR '' ''"

section \<open>Grouping text by page\<close>

text \<open>\<open>pages.setdefault(page_number, []).append(text)\<close>\<close>

definition page_append :: "int \<Rightarrow> string \<Rightarrow> (int \<times> string list) list \<Rightarrow> (int \<times> string list) list" where
  "page_append p t pages = (case map_of pages p of
      None \<Rightarrow> pages @ [(p, [t])]
    | Some ts \<Rightarrow> AList.update p (ts @ [t]) pages)"

record page =
  page_number :: int
  page_text :: string

definition render_pages :: "string \<Rightarrow> (int \<times> string list) list \<Rightarrow> page list" where
  "render_pages sep pages =
     map (\<lambda>(p, ts). \<lparr>page_number = p, page_text = join_with sep ts\<rparr>) (sort_key fst pages)"

text \<open>A Textract block: the three keys the code reads, absent keys being \<open>None\<close>.\<close>

record block =
  block_type :: "string option"
  block_page :: "int option"
  block_text :: "string option"

definition block_page_of :: "block \<Rightarrow> int" where
  "block_page_of b = (case block_page b of None \<Rightarrow> 1 | Some p \<Rightarrow> p)"

definition block_text_of :: "block \<Rightarrow> string" where
  "block_text_of b = (case block_text b of None \<Rightarrow> [] | Some t \<Rightarrow> t)"

fun collect_lines :: "block list \<Rightarrow> (int \<times> string list) list \<Rightarrow> (int \<times> string list) list" where
  "collect_lines [] pages = pages"
| "collect_lines (b # bs) pages = collect_lines bs
     (if block_type b = Some ''LINE'' then page_append (block_page_of b) (block_text_of b) pages
      else pages)"

definition blocks_to_pages :: "block list \<Rightarrow> page list" where
  "blocks_to_pages bs = render_pages [newline] (collect_lines bs [])"

text \<open>
  Unstructured elements: their page metadata and their text; elements without a page number
  inherit the last known one, which starts at 1.
\<close>

record element =
  el_page :: "int option"
  el_text :: string

fun collect_elements ::
  "int \<Rightarrow> element list \<Rightarrow> (int \<times> string list) list \<Rightarrow> (int \<times> string list) list" where
  "collect_elements lp [] pages = pages"
| "collect_elements lp (e # es) pages =
     (let p = (case el_page e of None \<Rightarrow> lp | Some q \<Rightarrow> q); t = strip (el_text e)
      in collect_elements p es (if t \<noteq> [] then page_append p t pages else pages))"

definition elements_to_pages :: "element list \<Rightarrow> page list" where
  "elements_to_pages es = render_pages [newline, newline] (collect_elements 1 es [])"

section \<open>Sentences\<close>

text \<open>\<open>text.split("\n\n")\<close>\<close>

fun split_paragraphs :: "string \<Rightarrow> string list" where
  "split_paragraphs [] = [[]]"
| "split_paragraphs [c] = [[c]]"
| "split_paragraphs (c # d # s) =
     (if c = newline \<and> d = newline then [] # split_paragraphs s
      else (case split_paragraphs (d # s) of [] \<Rightarrow> [[c]] | w # ws \<Rightarrow> (c # w) # ws))"

definition sentence_end :: "char \<Rightarrow> bool" where
  "sentence_end c = (c = CHR ''.'' \<or> c = CHR ''!'' \<or> c = CHR ''?'')"

text \<open>
  \<open>re.split(r"(?<=[.!?])\s+", line)\<close>: the flag says whether the character before the
  current position is one of the three terminators; a separator is then a maximal run of
  white space.
\<close>

function split_boundaries :: "bool \<Rightarrow> string \<Rightarrow> string list" where
  "split_boundaries b [] = [[]]"
| "split_boundaries b (c # s) =
     (if b \<and> py_space c then [] # split_boundaries False (dropWhile py_space s)
      else (case split_boundaries (sentence_end c) s of [] \<Rightarrow> [[c]] | w # ws \<Rightarrow> (c # w) # ws))"
  by pat_completeness auto
termination
  by (relation "measure (\<lambda>(b, s). length s)") (auto simp: le_imp_less_Suc length_dropWhile_le)

definition nonblank :: "string list \<Rightarrow> string list" where
  "nonblank ss = filter (\<lambda>s. s \<noteq> []) (map strip ss)"

definition paragraph_sentences :: "string \<Rightarrow> string list" where
  "paragraph_sentences p =
     concat (map (\<lambda>line. nonblank (split_boundaries False line)) (nonblank (split_on newline p)))"

definition split_into_sentences :: "string \<Rightarrow> string list" where
  "split_into_sentences text =
     (let paragraphs = nonblank (split_paragraphs text);
          paragraphs' = (if paragraphs = [] then (if strip text \<noteq> [] then [strip text] else [])
                         else paragraphs)
      in concat (map paragraph_sentences paragraphs'))"

section \<open>Packing\<close>

definition piece_len :: "string list \<Rightarrow> int" where
  "piece_len ss = sum_list (map (\<lambda>s. int (length s) + 1) ss)"

text \<open>The loop of \<open>build_overlap\<close> over \<open>reversed(current)\<close>.\<close>

fun overlap_loop :: "int \<Rightarrow> int \<Rightarrow> string list \<Rightarrow> string list \<Rightarrow> string list" where
  "overlap_loop budget n [] acc = acc"
| "overlap_loop budget n (s # rs) acc =
     (if n + int (length s) + 1 > budget then acc
      else overlap_loop budget (n + int (length s) + 1) rs (s # acc))"

definition build_overlap :: "string list \<Rightarrow> int \<Rightarrow> string list" where
  "build_overlap current budget = overlap_loop budget 0 (rev current) []"

definition join_words :: "string list \<Rightarrow> string" where
  "join_words ws = join_with [blank] ws"

definition flush :: "string list \<Rightarrow> string list" where
  "flush current = (if current \<noteq> [] then [join_words current] else [])"

text \<open>Hard-wrapping one oversized sentence on its words: the chunks it emits.\<close>

fun wrap_words :: "int \<Rightarrow> string list \<Rightarrow> int \<Rightarrow> string list \<Rightarrow> string list" where
  "wrap_words m piece n [] = flush piece"
| "wrap_words m piece n (w # ws) =
     (if piece \<noteq> [] \<and> n + int (length w) + 1 > m
      then join_words piece # wrap_words m [w] (int (length w) + 1) ws
      else wrap_words m (piece @ [w]) (n + int (length w) + 1) ws)"

text \<open>The main loop: \<open>current\<close> and \<open>current_len\<close> are arguments, chunks are emitted in order.\<close>

fun pack_loop :: "int \<Rightarrow> int \<Rightarrow> string list \<Rightarrow> int \<Rightarrow> string list \<Rightarrow> string list" where
  "pack_loop m ov current n [] = flush current"
| "pack_loop m ov current n (s # ss) =
     (let k = int (length s) + 1 in
      if k > m then flush current @ wrap_words m [] 0 (split_on blank s) @ pack_loop m ov [] 0 ss
      else if current \<noteq> [] \<and> n + k > m then
        (let over = build_overlap current (min ov (m - k))
         in join_words current # pack_loop m ov (over @ [s]) (piece_len over + k) ss)
      else pack_loop m ov (current @ [s]) (n + k) ss)"

definition pack_sentences :: "string list \<Rightarrow> int \<Rightarrow> int \<Rightarrow> string list" where
  "pack_sentences ss max_chars overlap_chars = pack_loop max_chars overlap_chars [] 0 ss"

record text_chunk =
  chunk_text :: string
  chunk_page :: int

definition chunk_page_sync :: "int \<Rightarrow> int \<Rightarrow> page \<Rightarrow> text_chunk list" where
  "chunk_page_sync m ov p =
     map (\<lambda>t. \<lparr>chunk_text = t, chunk_page = page_number p\<rparr>)
       (nonblank (pack_sentences (split_into_sentences (page_text p)) m ov))"

definition chunk_pages_sync :: "page list \<Rightarrow> int \<Rightarrow> int \<Rightarrow> text_chunk list" where
  "chunk_pages_sync pages m ov = concat (map (chunk_page_sync m ov) pages)"

section \<open>Lemmas: visible text\<close>

definition visible :: "string \<Rightarrow> string" where
  "visible s = filter (\<lambda>c. \<not> py_space c) s"

lemma visible_simps [simp]:
  "visible [] = []" "visible (s @ t) = visible s @ visible t"
  "visible (c # s) = (if py_space c then visible s else c # visible s)"
  by (simp_all add: visible_def)

lemma visible_dropWhile: "visible (dropWhile py_space s) = visible s"
  by (induction s) auto

lemma visible_rev: "visible (rev s) = rev (visible s)"
  by (simp add: visible_def rev_filter)

lemma visible_strip [simp]: "visible (strip s) = visible s"
  by (simp add: strip_def rstrip_def lstrip_def visible_rev visible_dropWhile)

lemma visible_concat: "visible (concat ss) = concat (map visible ss)"
  by (induction ss) auto

lemma visible_nonblank: "concat (map visible (nonblank ss)) = concat (map visible ss)"
  unfolding nonblank_def
proof (induction ss)
  case (Cons s ss)
  show ?case
  proof (cases "strip s = []")
    case True
    then have "visible s = []" using visible_strip[of s] by simp
    with True Cons show ?thesis by simp
  next
    case False
    with Cons show ?thesis by simp
  qed
qed simp

lemma space_newline [simp]: "py_space newline" and space_blank [simp]: "py_space blank"
  by (simp_all add: py_space_def code_def)

lemma visible_split_on:
  assumes "py_space d"
  shows "concat (map visible (split_on d s)) = visible s"
proof (induction s)
  case (Cons c s)
  then show ?case using assms by (cases "split_on d s") auto
qed simp

lemma split_paragraphs_not_Nil [simp]: "split_paragraphs s \<noteq> []"
  by (induction s rule: split_paragraphs.induct) (auto split: list.splits)

lemma visible_split_paragraphs: "concat (map visible (split_paragraphs s)) = visible s"
proof (induction s rule: split_paragraphs.induct)
  case (3 c d s)
  then show ?case by (cases "split_paragraphs (d # s)") auto
qed auto

lemma split_boundaries_not_Nil [simp]: "split_boundaries b s \<noteq> []"
  by (cases s) (auto split: list.splits)

lemma visible_split_boundaries: "concat (map visible (split_boundaries b s)) = visible s"
proof (induction b s rule: split_boundaries.induct)
  case (2 b c s)
  show ?case
  proof (cases "b \<and> py_space c")
    case True
    with 2(1) show ?thesis by (simp add: visible_dropWhile)
  next
    case False
    then have "concat (map visible (split_boundaries (sentence_end c) s)) = visible s" by (rule 2(2))
    moreover obtain w ws where "split_boundaries (sentence_end c) s = w # ws"
      by (cases "split_boundaries (sentence_end c) s") auto
    ultimately show ?thesis using False by auto
  qed
qed simp

section \<open>The splitter interface\<close>

text \<open>
  What every text splitter of the pipeline promises its caller: the pieces, read in order,
  carry exactly the visible characters of the input. Blank pieces may be dropped and pieces
  split further without losing that.
\<close>

locale splitter =
  fixes cut :: "string \<Rightarrow> string list"
  assumes keeps: "concat (map visible (cut s)) = visible s"
begin

lemma keeps_nonblank: "concat (map visible (nonblank (cut s))) = visible s"
  by (simp add: visible_nonblank keeps)

lemma keeps_map: "concat (map visible (concat (map cut xs))) = concat (map visible xs)"
  by (induction xs) (auto simp: keeps)

lemma keeps_map_nonblank:
  "concat (map visible (concat (map (\<lambda>x. nonblank (cut x)) xs))) = concat (map visible xs)"
  by (induction xs) (auto simp: keeps_nonblank)

lemma piece_sublist:
  assumes "xs @ p @ ys = cut s"
  shows "sublist (concat (map visible p)) (visible s)"
  unfolding keeps[of s, symmetric] assms[symmetric] by simp

end

interpretation sp_lines: splitter "split_on newline"
  by unfold_locales (simp add: visible_split_on)

interpretation sp_words: splitter "split_on blank"
  by unfold_locales (simp add: visible_split_on)

interpretation sp_paragraphs: splitter split_paragraphs
  by unfold_locales (rule visible_split_paragraphs)

interpretation sp_boundaries: splitter "split_boundaries b"
  by unfold_locales (rule visible_split_boundaries)

interpretation sp_paragraph: splitter paragraph_sentences
  by unfold_locales
    (simp add: paragraph_sentences_def sp_boundaries.keeps_map_nonblank sp_lines.keeps_nonblank)

lemma visible_sentences: "concat (map visible (split_into_sentences t)) = visible t"
proof (cases "nonblank (split_paragraphs t) = []")
  case True
  then have "visible t = []" using sp_paragraphs.keeps_nonblank[of t] by simp
  then show ?thesis using True by (simp add: split_into_sentences_def sp_paragraph.keeps_map Let_def)
next
  case False
  then show ?thesis
    by (simp add: split_into_sentences_def Let_def sp_paragraph.keeps_map sp_paragraphs.keeps_nonblank)
qed

interpretation sp_sentences: splitter split_into_sentences
  by unfold_locales (rule visible_sentences)

lemma nonblank_ends:
  assumes "s \<in> set (nonblank ss)"
  shows "s \<noteq> [] \<and> \<not> py_space (hd s) \<and> \<not> py_space (last s)"
proof -
  obtain t where s: "s = strip t" "s \<noteq> []" using assms by (auto simp: nonblank_def)
  let ?l = "dropWhile py_space t"
  have "?l \<noteq> []"
  proof
    assume "?l = []"
    then have "strip t = []" by (simp only: strip_def lstrip_def rstrip_def) simp
    with s show False by simp
  qed
  then have h: "\<not> py_space (hd ?l)" by (rule hd_dropWhile)
  have r: "strip t = rev (dropWhile py_space (rev ?l))"
    by (simp add: strip_def lstrip_def rstrip_def)
  have "\<not> py_space (last (strip t))" using s unfolding r by (simp add: last_rev hd_dropWhile)
  moreover have "\<exists>u. ?l = strip t @ u"
    unfolding r by (metis rev_append rev_rev_ident takeWhile_dropWhile_id)
  ultimately show ?thesis using h s by (metis hd_append2)
qed

lemma sentence_ends:
  "s \<in> set (split_into_sentences t) \<Longrightarrow> s \<noteq> [] \<and> \<not> py_space (hd s) \<and> \<not> py_space (last s)"
  by (auto simp: split_into_sentences_def paragraph_sentences_def Let_def dest: nonblank_ends split: if_splits)

lemma dropWhile_prefix_keep: "s \<noteq> [] \<Longrightarrow> \<not> p (hd s) \<Longrightarrow> \<exists>a'. dropWhile p (a @ s @ b) = a' @ s @ b"
  by (induction a) (auto intro: exI[of _ "[]"] simp: dropWhile_append3 neq_Nil_conv)

lemma sublist_strip:
  assumes "sublist s c" "s \<noteq> []" "\<not> py_space (hd s)" "\<not> py_space (last s)"
  shows "sublist s (strip c)"
proof -
  obtain a b where c: "c = a @ s @ b" using assms(1) by (auto simp: sublist_def)
  obtain a' where l: "lstrip c = a' @ s @ b"
    unfolding lstrip_def c using dropWhile_prefix_keep[of s py_space, OF assms(2,3)] by blast
  have "\<exists>b'. dropWhile py_space (rev b @ rev s @ rev a') = b' @ rev s @ rev a'"
    by (rule dropWhile_prefix_keep) (use assms in \<open>auto simp: hd_rev\<close>)
  then obtain b' where "dropWhile py_space (rev (lstrip c)) = b' @ rev s @ rev a'" by (auto simp: l)
  then have "strip c = a' @ s @ rev b'" by (simp add: strip_def rstrip_def)
  then show ?thesis by (auto simp: sublist_def)
qed

section \<open>Lemmas: packing\<close>

lemma piece_len_simps [simp]:
  "piece_len [] = 0" "piece_len (s # ss) = int (length s) + 1 + piece_len ss"
  "piece_len (ss @ ts) = piece_len ss + piece_len ts"
  by (simp_all add: piece_len_def)

lemma piece_len_nonneg [simp]: "0 \<le> piece_len ss"
  by (induction ss) auto

lemma join_words_len: "ws \<noteq> [] \<Longrightarrow> int (length (join_words ws)) + 1 = piece_len ws"
  unfolding join_words_def by (induction "[blank]" ws rule: join_with.induct) auto

lemma visible_join_words: "visible (join_words ws) = concat (map visible ws)"
  unfolding join_words_def by (induction "[blank]" ws rule: join_with.induct) auto

lemma join_words_sublist: "w \<in> set ws \<Longrightarrow> sublist w (join_words ws)"
  unfolding join_words_def
proof (induction "[blank]" ws rule: join_with.induct)
  case (3 v u ws)
  have *: "sublist w (join_with [blank] (v # u # ws))" if "sublist w (join_with [blank] (u # ws))"
    using that sublist_append_leftI[of "join_with [blank] (u # ws)" "v @ [blank]"]
    by (auto intro: sublist_order.order_trans)
  show ?case
  proof (cases "w = v")
    case True then show ?thesis by simp
  next
    case False
    then show ?thesis using 3 * by auto
  qed
qed auto

lemma flush_cases: "c \<in> set (flush cur) \<longleftrightarrow> cur \<noteq> [] \<and> c = join_words cur"
  by (auto simp: flush_def)

lemma visible_flush: "concat (map visible (flush cur)) = concat (map visible cur)"
  by (simp add: flush_def visible_join_words)

text \<open>\<open>build_overlap\<close> is the longest suffix of the flushed chunk that fits the budget.\<close>

lemma overlap_loop_acc: "overlap_loop b n rs acc = overlap_loop b n rs [] @ acc"
proof (induction rs arbitrary: n acc)
  case (Cons s rs)
  show ?case
    using Cons[of "n + int (length s) + 1" "s # acc"] Cons[of "n + int (length s) + 1" "[s]"] by simp
qed simp

lemma overlap_loop_suffix: "suffix (overlap_loop b n (rev ss) []) ss"
proof (induction ss arbitrary: n rule: rev_induct)
  case (snoc s ss)
  then show ?case
    by (simp add: overlap_loop_acc[where acc = "[s]"])
qed simp

lemma overlap_loop_len: "overlap_loop b n rs [] \<noteq> [] \<Longrightarrow> n + piece_len (overlap_loop b n rs []) \<le> b"
proof (induction rs arbitrary: n)
  case (Cons s rs)
  let ?n = "n + int (length s) + 1"
  let ?o = "overlap_loop b ?n rs []"
  show ?case
  proof (cases "?n > b")
    case False
    then have eq: "overlap_loop b n (s # rs) [] = ?o @ [s]"
      by (simp add: overlap_loop_acc[where acc = "[s]"])
    show ?thesis
    proof (cases "?o = []")
      case True with False eq show ?thesis by simp
    next
      case oFalse: False
      then have "?n + piece_len ?o \<le> b" by (rule Cons.IH)
      then show ?thesis using eq by simp
    qed
  qed (use Cons.prems in simp)
qed simp

lemma overlap_loop_maximal:
  "suffix ts ss \<Longrightarrow> n + piece_len ts \<le> b \<Longrightarrow> suffix ts (overlap_loop b n (rev ss) [])"
proof (induction ss arbitrary: ts n rule: rev_induct)
  case (snoc s ss)
  show ?case
  proof (cases ts rule: rev_cases)
    case Nil then show ?thesis by simp
  next
    case (snoc us u)
    with snoc.prems(1) have u: "u = s" and us: "suffix us ss"
      by (auto simp: suffix_def)
    have len: "n + int (length s) + 1 + piece_len us \<le> b"
      using snoc.prems(2) snoc u by simp
    then have "\<not> n + int (length s) + 1 > b" using piece_len_nonneg[of us] by linarith
    then have eq: "overlap_loop b n (rev (ss @ [s])) [] = overlap_loop b (n + int (length s) + 1) (rev ss) [] @ [s]"
      by (simp add: overlap_loop_acc[where acc = "[s]"])
    have "suffix us (overlap_loop b (n + int (length s) + 1) (rev ss) [])"
      using us len by (rule snoc.IH)
    then show ?thesis unfolding eq snoc u by simp
  qed
qed simp

lemma build_overlap_len: "piece_len (build_overlap cur b) \<le> max 0 b"
  using overlap_loop_len[of b 0 "rev cur"] unfolding build_overlap_def by fastforce

lemma build_overlap_suffix: "suffix (build_overlap cur b) cur"
  unfolding build_overlap_def by (rule overlap_loop_suffix)

lemma build_overlap_zero: "b \<le> 0 \<Longrightarrow> build_overlap cur b = []"
  unfolding build_overlap_def by (cases "rev cur") auto

text \<open>A chunk is short, or one word that is itself too long.\<close>

lemma wrap_words_bound:
  assumes "c \<in> set (wrap_words m piece n ws)" "n = piece_len piece"
    "piece = [] \<or> n \<le> m \<or> (\<exists>w. piece = [w] \<and> w \<in> W)" "set ws \<subseteq> W"
  shows "int (length c) < m \<or> c \<in> W"
  using assms
proof (induction m piece n ws rule: wrap_words.induct)
  case (1 m piece n)
  then have c: "piece \<noteq> []" "c = join_words piece" by (auto simp: flush_cases)
  then have "int (length c) + 1 = n" using join_words_len 1 by simp
  then show ?case using 1 c by (auto simp: join_words_def)
next
  case (2 m piece n w ws)
  show ?case
  proof (cases "piece \<noteq> [] \<and> n + int (length w) + 1 > m")
    case True
    have "int (length (join_words piece)) + 1 = n" using True 2(4) join_words_len by simp
    then have j: "int (length (join_words piece)) < m \<or> join_words piece \<in> W"
      using True 2(5) by (auto simp: join_words_def)
    from True 2(3) have "c = join_words piece \<or> c \<in> set (wrap_words m [w] (int (length w) + 1) ws)"
      by simp
    then show ?thesis
    proof
      assume "c \<in> set (wrap_words m [w] (int (length w) + 1) ws)"
      then show ?thesis by (rule 2(1)[OF True]) (use 2(6) in auto)
    qed (use j in simp)
  next
    case False
    from False 2(3) have "c \<in> set (wrap_words m (piece @ [w]) (n + int (length w) + 1) ws)" by auto
    then show ?thesis by (rule 2(2)[OF False]) (use False 2(4,6) in auto)
  qed
qed

lemma pack_loop_bound:
  assumes "c \<in> set (pack_loop m ov cur n ss)" "n = piece_len cur" "n \<le> m \<or> cur = []"
  shows "int (length c) < m \<or> (\<exists>s \<in> set ss. m \<le> int (length s) \<and> c \<in> set (split_on blank s))"
  using assms
proof (induction m ov cur n ss rule: pack_loop.induct)
  case (1 m ov cur n)
  then show ?case using join_words_len[of cur] by (auto simp: flush_cases)
next
  case (2 m ov cur n s ss)
  let ?k = "int (length s) + 1"
  have j: "cur \<noteq> [] \<Longrightarrow> int (length (join_words cur)) < m"
    using 2(5,6) join_words_len[of cur] by auto
  consider (long) "?k > m" | (flush) "\<not> ?k > m" "cur \<noteq> [] \<and> n + ?k > m"
    | (add) "\<not> ?k > m" "\<not> (cur \<noteq> [] \<and> n + ?k > m)" by blast
  then show ?case
  proof cases
    case long
    with 2(4) have "c \<in> set (flush cur) \<or> c \<in> set (wrap_words m [] 0 (split_on blank s))
        \<or> c \<in> set (pack_loop m ov [] 0 ss)" by auto
    moreover have "int (length c) < m \<or> c \<in> set (split_on blank s)"
      if "c \<in> set (wrap_words m [] 0 (split_on blank s))"
      using that by (rule wrap_words_bound) (auto simp: wrap_words.simps)
    moreover have "int (length c) < m \<or> (\<exists>s \<in> set ss. m \<le> int (length s) \<and> c \<in> set (split_on blank s))"
      if "c \<in> set (pack_loop m ov [] 0 ss)"
      using that by (rule 2(1)[OF refl long]) simp_all
    ultimately show ?thesis using long j by (auto simp: flush_cases)
  next
    case flush
    let ?o = "build_overlap cur (min ov (m - ?k))"
    have len: "piece_len ?o + ?k \<le> m"
      using build_overlap_len[of cur "min ov (m - ?k)"] flush(1) by linarith
    from 2(4) flush have "c = join_words cur \<or> c \<in> set (pack_loop m ov (?o @ [s]) (piece_len ?o + ?k) ss)"
      by (simp add: Let_def)
    moreover have "int (length c) < m \<or> (\<exists>s \<in> set ss. m \<le> int (length s) \<and> c \<in> set (split_on blank s))"
      if "c \<in> set (pack_loop m ov (?o @ [s]) (piece_len ?o + ?k) ss)"
      using that by (rule 2(2)[OF refl flush refl]) (use len in simp_all)
    ultimately show ?thesis using flush j by auto
  next
    case add
    with 2(4) have "c \<in> set (pack_loop m ov (cur @ [s]) (n + ?k) ss)" by (auto simp: Let_def)
    then have "int (length c) < m \<or> (\<exists>s \<in> set ss. m \<le> int (length s) \<and> c \<in> set (split_on blank s))"
      by (rule 2(3)[OF refl add]) (use add 2(5) in auto)
    then show ?thesis by auto
  qed
qed

lemma wrap_words_covers:
  "w \<in> set piece \<union> set ws \<Longrightarrow> \<exists>c \<in> set (wrap_words m piece n ws). sublist w c"
proof (induction m piece n ws rule: wrap_words.induct)
  case (1 m piece n)
  then show ?case by (auto simp: flush_def intro: join_words_sublist)
next
  case (2 m piece n v ws)
  then show ?case
    by (cases "piece \<noteq> [] \<and> n + int (length v) + 1 > m") (auto intro: join_words_sublist)
qed

lemma pack_loop_covers_current:
  "s \<in> set cur \<Longrightarrow> \<exists>c \<in> set (pack_loop m ov cur n ss). sublist s c"
proof (induction ss arbitrary: cur n)
  case Nil
  then show ?case by (auto simp: flush_def intro: join_words_sublist)
next
  case (Cons t ss)
  have j: "sublist s (join_words cur)" using Cons.prems by (rule join_words_sublist)
  have add: "\<exists>c \<in> set (pack_loop m ov (cur @ [t]) (n + (int (length t) + 1)) ss). sublist s c"
    by (rule Cons.IH) (use Cons.prems in simp)
  show ?case using j add Cons.prems by (auto simp: Let_def flush_def)
qed

lemma pack_loop_covers:
  "s \<in> set ss \<Longrightarrow> int (length s) < m \<Longrightarrow> \<exists>c \<in> set (pack_loop m ov cur n ss). sublist s c"
proof (induction m ov cur n ss rule: pack_loop.induct)
  case (2 m ov cur n t ss)
  let ?k = "int (length t) + 1"
  show ?case
  proof (cases "s = t")
    case True
    then have k: "\<not> ?k > m" using 2(5) by simp
    have "\<exists>c \<in> set (pack_loop m ov (xs @ [t]) l ss). sublist s c" for xs l
      by (rule pack_loop_covers_current) (simp add: True)
    then show ?thesis using k by (simp add: Let_def)
  next
    case False
    with 2(4) have s: "s \<in> set ss" by simp
    show ?thesis using 2(1)[OF refl _ s 2(5)] 2(2)[OF refl _ _ refl s 2(5)] 2(3)[OF refl _ _ s 2(5)]
      by (auto simp: Let_def)
  qed
qed simp

lemma wrap_words_visible: "concat (map visible (wrap_words m piece n ws)) = concat (map visible (piece @ ws))"
  by (induction m piece n ws rule: wrap_words.induct)
    (auto simp: visible_flush visible_join_words)

lemma pack_loop_visible:
  "ov \<le> 0 \<Longrightarrow> concat (map visible (pack_loop m ov cur n ss)) = concat (map visible (cur @ ss))"
proof (induction m ov cur n ss rule: pack_loop.induct)
  case (1 m ov cur n) then show ?case by (simp add: visible_flush)
next
  case (2 m ov cur n s ss)
  have w: "concat (map visible (split_on blank s)) = visible s" by (rule visible_split_on) simp
  have "min ov (m - (int (length s) + 1)) \<le> 0" using 2(4) by simp
  then show ?case
    using 2 w by (auto simp: Let_def visible_flush visible_join_words wrap_words_visible build_overlap_zero)
qed

text \<open>No chunk invents text: its visible characters are a contiguous part of the input's.\<close>

lemma sublist_concat_middle: "sublist (concat (map f q)) (concat (map f (p @ q @ r)))"
  by simp

lemma wrap_words_part:
  "c \<in> set (wrap_words m piece n ws) \<Longrightarrow> suffix piece pre \<Longrightarrow>
   sublist (visible c) (concat (map visible (pre @ ws)))"
proof (induction m piece n ws arbitrary: pre rule: wrap_words.induct)
  case (1 m piece n)
  then show ?case by (auto simp: flush_cases visible_join_words suffix_def)
next
  case (2 m piece n w ws)
  have suf: "suffix [w] (pre @ [w])" "suffix (piece @ [w]) (pre @ [w])"
    using 2(4) by (auto simp: suffix_def)
  show ?case
  proof (cases "piece \<noteq> [] \<and> n + int (length w) + 1 > m")
    case True
    from True 2(3) have "c = join_words piece \<or> c \<in> set (wrap_words m [w] (int (length w) + 1) ws)"
      by simp
    then show ?thesis
    proof
      assume "c = join_words piece"
      then show ?thesis using 2(4) by (auto simp: visible_join_words suffix_def)
    next
      assume "c \<in> set (wrap_words m [w] (int (length w) + 1) ws)"
      from 2(1)[OF True this suf(1)] show ?thesis by simp
    qed
  next
    case False
    from False 2(3) have "c \<in> set (wrap_words m (piece @ [w]) (n + int (length w) + 1) ws)" by auto
    from 2(2)[OF False this suf(2)] show ?thesis by simp
  qed
qed

lemma pack_loop_part:
  "c \<in> set (pack_loop m ov cur n ss) \<Longrightarrow> suffix cur pre \<Longrightarrow>
   sublist (visible c) (concat (map visible (pre @ ss)))"
proof (induction m ov cur n ss arbitrary: pre rule: pack_loop.induct)
  case (1 m ov cur n)
  then show ?case by (auto simp: flush_cases visible_join_words suffix_def)
next
  case (2 m ov cur n s ss)
  note IH = 2(1-3)
  let ?k = "int (length s) + 1" and ?o = "build_overlap cur (min ov (m - (int (length s) + 1)))"
  have cur: "sublist (visible (join_words cur)) (concat (map visible (pre @ s # ss)))"
    using 2(5) by (auto simp: visible_join_words suffix_def)
  have suf: "suffix [] (pre @ [s])" "suffix (?o @ [s]) (pre @ [s])" "suffix (cur @ [s]) (pre @ [s])"
    using 2(5) build_overlap_suffix[of cur] by (auto intro: suffix_order.trans)
  consider (long) "?k > m" | (flush) "\<not> ?k > m" "cur \<noteq> [] \<and> n + ?k > m"
    | (add) "\<not> ?k > m" "\<not> (cur \<noteq> [] \<and> n + ?k > m)" by blast
  then show ?case
  proof cases
    case long
    with 2(4) consider "c = join_words cur" | "c \<in> set (wrap_words m [] 0 (split_on blank s))"
      | "c \<in> set (pack_loop m ov [] 0 ss)" by (auto simp: flush_cases)
    then show ?thesis
    proof cases
      case 2
      then have "sublist (visible c) (visible s)"
        using wrap_words_part[of c m "[]" 0 "split_on blank s" "[]"] by (simp add: sp_words.keeps)
      then show ?thesis by (auto intro: sublist_order.order_trans)
    next
      case 3
      from IH(1)[OF refl long this suf(1)] show ?thesis by simp
    qed (use cur in simp)
  next
    case flush
    with 2(4) consider "c = join_words cur"
      | "c \<in> set (pack_loop m ov (?o @ [s]) (piece_len ?o + ?k) ss)" by (auto simp: Let_def)
    then show ?thesis
    proof cases
      case 2
      from IH(2)[OF refl flush refl this suf(2)] show ?thesis by simp
    qed (use cur in simp)
  next
    case add
    with 2(4) have "c \<in> set (pack_loop m ov (cur @ [s]) (n + ?k) ss)" by (auto simp: Let_def)
    from IH(3)[OF refl add this suf(3)] show ?thesis by simp
  qed
qed

section \<open>Lemmas: pages\<close>

lemma map_of_page_append: "map_of (page_append p t pages) q =
   (if q = p then Some ((case map_of pages p of None \<Rightarrow> [] | Some ts \<Rightarrow> ts) @ [t]) else map_of pages q)"
proof (cases "map_of pages p")
  case None
  then show ?thesis by (simp add: page_append_def map_add_def split: option.splits)
next
  case (Some ts)
  then show ?thesis by (simp add: page_append_def update_conv')
qed

lemma distinct_page_append: "distinct (map fst pages) \<Longrightarrow> distinct (map fst (page_append p t pages))"
  by (auto simp: page_append_def map_of_eq_None_iff split: option.splits intro: distinct_update)

lemma distinct_collect_lines: "distinct (map fst pages) \<Longrightarrow> distinct (map fst (collect_lines bs pages))"
  by (induction bs pages rule: collect_lines.induct) (simp_all add: distinct_page_append)

lemma distinct_collect_elements:
  "distinct (map fst pages) \<Longrightarrow> distinct (map fst (collect_elements l es pages))"
  by (induction l es pages rule: collect_elements.induct) (simp_all add: Let_def distinct_page_append)

definition lines_of_page :: "block list \<Rightarrow> int \<Rightarrow> string list" where
  "lines_of_page bs p =
     map block_text_of (filter (\<lambda>b. block_type b = Some ''LINE'' \<and> block_page_of b = p) bs)"

definition some_page :: "'a list option \<Rightarrow> 'a list" where
  "some_page x = (case x of None \<Rightarrow> [] | Some ts \<Rightarrow> ts)"

lemma some_page_simps [simp]: "some_page None = []" "some_page (Some ts) = ts"
  by (simp_all add: some_page_def)

lemma collect_lines_map_of:
  "map_of (collect_lines bs pages) p =
     (if lines_of_page bs p = [] then map_of pages p
      else Some (some_page (map_of pages p) @ lines_of_page bs p))"
  by (induction bs pages rule: collect_lines.induct)
    (auto simp: lines_of_page_def map_of_page_append some_page_def split: option.splits)

text \<open>The page an element belongs to: its own number, or the nearest earlier one.\<close>

fun assign_pages :: "int \<Rightarrow> element list \<Rightarrow> (int \<times> string) list" where
  "assign_pages lp [] = []"
| "assign_pages lp (e # es) = (let p = (case el_page e of None \<Rightarrow> lp | Some q \<Rightarrow> q)
     in (p, strip (el_text e)) # assign_pages p es)"

definition texts_of_page :: "(int \<times> string) list \<Rightarrow> int \<Rightarrow> string list" where
  "texts_of_page xs p = map snd (filter (\<lambda>(q, t). q = p \<and> t \<noteq> []) xs)"

lemma texts_of_page_simps [simp]:
  "texts_of_page [] p = []"
  "texts_of_page ((q, t) # xs) p = (if q = p \<and> t \<noteq> [] then [t] else []) @ texts_of_page xs p"
  by (simp_all add: texts_of_page_def)

lemma collect_elements_map_of:
  "map_of (collect_elements l es pages) p =
     (if texts_of_page (assign_pages l es) p = [] then map_of pages p
      else Some (some_page (map_of pages p) @ texts_of_page (assign_pages l es) p))"
  by (induction l es pages rule: collect_elements.induct)
    (auto simp: Let_def map_of_page_append some_page_def split: option.splits)

lemma render_pages_sorted:
  assumes "distinct (map fst pages)"
  shows "sorted_wrt (<) (map page_number (render_pages sep pages))"
proof -
  have eq: "map page_number (render_pages sep pages) = map fst (sort_key fst pages)"
    by (simp add: render_pages_def split_def comp_def)
  have "distinct (map fst (sort_key fst pages))"
    using assms by (simp add: distinct_map)
  then show ?thesis unfolding eq by (simp add: strict_sorted_iff)
qed

lemma render_pages_mem:
  assumes "distinct (map fst pages)"
  shows "P \<in> set (render_pages sep pages) \<longleftrightarrow>
    (\<exists>ts. map_of pages (page_number P) = Some ts \<and> page_text P = join_with sep ts)"
  using assms by (cases P) (auto simp: render_pages_def image_iff Bex_def)

section \<open>Properties\<close>

lemma chunk_mem:
  "c \<in> set (chunk_pages_sync pages m ov) \<longleftrightarrow> (\<exists>p \<in> set pages. chunk_page c = page_number p \<and>
     chunk_text c \<in> set (nonblank (pack_sentences (split_into_sentences (page_text p)) m ov)))"
  by (cases c) (auto simp: chunk_pages_sync_def chunk_page_sync_def)

lemma nonblank_mem: "t \<in> set (nonblank ss) \<longleftrightarrow> t \<noteq> [] \<and> (\<exists>s \<in> set ss. t = strip s)"
  by (auto simp: nonblank_def)

text \<open>C36 Every chunk of a document is non-empty, belongs to one of its pages, and is shorter than
  \<open>max_chars\<close> unless it is a single blank-delimited word of a sentence that is itself at least
  \<open>max_chars\<close> long: no chunk exceeds the budget because of packing, overlap or wrapping.\<close>

theorem chunk_bound:
  assumes "c \<in> set (chunk_pages_sync pages m ov)"
  shows "\<exists>p \<in> set pages. chunk_page c = page_number p \<and> chunk_text c \<noteq> [] \<and>
    (int (length (chunk_text c)) < m \<or>
     (\<exists>s \<in> set (split_into_sentences (page_text p)). m \<le> int (length s) \<and>
        (\<exists>w \<in> set (split_on blank s). chunk_text c = strip w)))"
proof -
  obtain p t where p: "p \<in> set pages" "chunk_page c = page_number p"
    and t: "t \<in> set (pack_sentences (split_into_sentences (page_text p)) m ov)"
      "chunk_text c \<noteq> []" "chunk_text c = strip t"
    using assms by (auto simp: chunk_mem nonblank_mem)
  have "int (length t) < m \<or> (\<exists>s \<in> set (split_into_sentences (page_text p)). m \<le> int (length s) \<and>
      t \<in> set (split_on blank s))"
    using t(1) unfolding pack_sentences_def by (rule pack_loop_bound) simp_all
  then show ?thesis using p t strip_length[of t] by fastforce
qed

definition demo_pages :: "page list" where
  "demo_pages = [\<lparr>page_number = 1, page_text = ''Hi. Go on. Abcdefghijkl mn''\<rparr>]"

theorem chunk_bound_witness:
  "\<exists>c. c \<in> set (chunk_pages_sync demo_pages 8 3) \<and> (\<exists>p \<in> set demo_pages. chunk_text c \<noteq> [])"
proof -
  have "\<lparr>chunk_text = ''Hi.'', chunk_page = 1\<rparr> \<in> set (chunk_pages_sync demo_pages 8 3)" by code_simp
  from this chunk_bound[OF this] show ?thesis by blast
qed

text \<open>No sentence is lost: every sentence of a page that fits the budget occurs unbroken in
  some chunk carrying that page's number, whatever the overlap.\<close>

lemma chunk_covers_sentences:
  assumes "p \<in> set pages" "s \<in> set (split_into_sentences (page_text p))" "int (length s) < m"
  shows "\<exists>c \<in> set (chunk_pages_sync pages m ov). chunk_page c = page_number p \<and> sublist s (chunk_text c)"
proof -
  obtain t where t: "t \<in> set (pack_sentences (split_into_sentences (page_text p)) m ov)" "sublist s t"
    using pack_loop_covers[OF assms(2,3)] unfolding pack_sentences_def by blast
  have ends: "s \<noteq> []" "\<not> py_space (hd s)" "\<not> py_space (last s)" using sentence_ends[OF assms(2)] by auto
  have s: "sublist s (strip t)" using sublist_strip[OF t(2) ends] .
  then have "strip t \<noteq> []" using ends by auto
  then have "\<lparr>chunk_text = strip t, chunk_page = page_number p\<rparr> \<in> set (chunk_pages_sync pages m ov)"
    using assms(1) t by (auto simp: chunk_mem nonblank_mem)
  with s show ?thesis by (intro bexI) auto
qed

lemma chunk_covers_sentences_witness:
  "\<exists>c \<in> set (chunk_pages_sync demo_pages 8 3). sublist ''Go on.'' (chunk_text c)"
proof -
  have "\<exists>c \<in> set (chunk_pages_sync demo_pages 8 3).
      chunk_page c = page_number \<lparr>page_number = 1, page_text = ''Hi. Go on. Abcdefghijkl mn''\<rparr> \<and>
      sublist ''Go on.'' (chunk_text c)"
    by (rule chunk_covers_sentences) (simp add: demo_pages_def, code_simp, simp)
  then show ?thesis by blast
qed

lemma chunk_contiguous:
  assumes "c \<in> set (chunk_pages_sync pages m ov)"
  shows "\<exists>p \<in> set pages. chunk_page c = page_number p \<and>
    sublist (visible (chunk_text c)) (visible (page_text p))"
proof -
  obtain p t where p: "p \<in> set pages" "chunk_page c = page_number p"
    and t: "t \<in> set (pack_sentences (split_into_sentences (page_text p)) m ov)" "chunk_text c = strip t"
    using assms by (auto simp: chunk_mem nonblank_mem)
  have "sublist (visible t) (concat (map visible ([] @ split_into_sentences (page_text p))))"
    using t(1) unfolding pack_sentences_def by (rule pack_loop_part) simp
  then show ?thesis using p t by (auto simp: visible_sentences)
qed

lemma chunk_page_visible:
  assumes "ov \<le> 0"
  shows "concat (map (\<lambda>c. visible (chunk_text c)) (chunk_page_sync m ov p)) = visible (page_text p)"
proof -
  have "map (\<lambda>c. visible (chunk_text c)) (chunk_page_sync m ov p) =
      map visible (nonblank (pack_sentences (split_into_sentences (page_text p)) m ov))"
    by (simp add: chunk_page_sync_def)
  then show ?thesis
    using pack_loop_visible[OF assms, of m "[]" 0] visible_sentences
    by (simp add: visible_nonblank pack_sentences_def)
qed

text \<open>C37 Chunks never invent or reorder text: the visible characters of a chunk are a contiguous
  part of those of its page, and with no overlap the chunks together carry exactly the visible
  characters of the pages, in order.\<close>

theorem chunk_text_preserved:
  "(\<forall>c \<in> set (chunk_pages_sync pages m ov). \<exists>p \<in> set pages. chunk_page c = page_number p \<and>
      sublist (visible (chunk_text c)) (visible (page_text p))) \<and>
   (ov \<le> 0 \<longrightarrow> concat (map (\<lambda>c. visible (chunk_text c)) (chunk_pages_sync pages m ov)) =
      concat (map (\<lambda>p. visible (page_text p)) pages))"
proof (intro conjI ballI impI)
  show "concat (map (\<lambda>c. visible (chunk_text c)) (chunk_pages_sync pages m ov)) =
      concat (map (\<lambda>p. visible (page_text p)) pages)" if "ov \<le> 0"
    unfolding chunk_pages_sync_def using chunk_page_visible[OF that] by (induction pages) auto
qed (rule chunk_contiguous)

theorem chunk_text_preserved_witness:
  "concat (map (\<lambda>c. visible (chunk_text c)) (chunk_pages_sync demo_pages 8 0)) =
   ''Hi.Goon.Abcdefghijklmn''"
proof -
  have "visible ''Hi. Go on. Abcdefghijkl mn'' = ''Hi.Goon.Abcdefghijklmn''" by code_simp
  then show ?thesis
    using conjunct2[OF chunk_text_preserved[of demo_pages 8 0]] by (simp add: demo_pages_def)
qed

text \<open>OCR lines are grouped by page without loss: the pages come out with strictly increasing
  numbers, and page \<open>p\<close> is present exactly when some LINE block lies on it, its text being that
  page's lines in reading order joined by newlines.\<close>

lemma blocks_to_pages_correct:
  "sorted_wrt (<) (map page_number (blocks_to_pages bs)) \<and>
   (P \<in> set (blocks_to_pages bs) \<longleftrightarrow> lines_of_page bs (page_number P) \<noteq> [] \<and>
      page_text P = join_with [newline] (lines_of_page bs (page_number P)))"
  unfolding blocks_to_pages_def
  by (auto simp: render_pages_sorted render_pages_mem distinct_collect_lines collect_lines_map_of)

text \<open>Unstructured elements: an element without a page number belongs to the page of the nearest
  earlier numbered element (page 1 before any), blank elements are dropped, and every page's
  text is its elements in order, pages in strictly increasing order.\<close>

lemma elements_to_pages_correct:
  "sorted_wrt (<) (map page_number (elements_to_pages es)) \<and>
   (P \<in> set (elements_to_pages es) \<longleftrightarrow>
      texts_of_page (assign_pages 1 es) (page_number P) \<noteq> [] \<and>
      page_text P = join_with [newline, newline] (texts_of_page (assign_pages 1 es) (page_number P)))"
  unfolding elements_to_pages_def
  by (auto simp: render_pages_sorted render_pages_mem distinct_collect_elements collect_elements_map_of)

end
