(* ===== verification/Ingestion_Db.thy ===== *)
theory Ingestion_Db
  imports Chunking "HOL-Library.List_Lexorder" "HOL-Library.Product_Lexorder" "HOL-Library.Char_ord"
begin

text \<open>
  The durable ingestion state of \<open>workflows/activities.py\<close>: documents, attempts, versions,
  staged chunks, tombstones and external jobs, with one definition per SQL transaction.

  A transaction is a function \<open>db \<Rightarrow> db res\<close>: \<open>Inl e\<close> is the raised exception after the
  rollback, so the caller keeps the old database. Row locks and PostgreSQL's constraints make
  the transactions atomic; unique and check constraints of the migrations that a statement can
  violate are branches that give \<open>DatabaseError\<close>. Identifiers are strings in canonical form and
  \<open>NOW()\<close> is an argument. Columns that are only written (\<open>updated_at\<close>, \<open>created_at\<close>) are left
  out.
\<close>

section \<open>Tables\<close>

datatype doc_status = DQueued | DProcessing | DIndexed | DFailed | DSuperseded | DDeleted
datatype att_status = AQueued | AProcessing | AIndexed | AFailed | ACancelled
datatype ver_status = VStaged | VActive | VSuperseded | VFailed

record doc_row =
  d_id :: string
  d_tenant :: string
  d_filename :: string
  d_ref :: string
  d_sha :: string
  d_status :: doc_status
  d_active :: "string option"

record att_row =
  a_id :: string
  a_doc :: string
  a_tenant :: string
  a_workflow :: string
  a_number :: int
  a_status :: att_status
  a_stage :: "string option"
  a_error :: "string option"
  a_started :: "int option"
  a_finished :: "int option"

record ver_row =
  v_id :: string
  v_doc :: string
  v_tenant :: string
  v_attempt :: string
  v_number :: int
  v_sha :: string
  v_ref :: string
  v_status :: ver_status
  v_chunks :: int
  v_activated :: "int option"

record vchunk_row =
  c_tenant :: string
  c_doc :: string
  c_version :: string
  c_filename :: string
  c_page :: int
  c_index :: int
  c_text :: string

record legacy_row =
  l_tenant :: string
  l_filename :: string
  l_version :: "string option"
  l_page :: int
  l_index :: int
  l_text :: string

record tomb_row =
  t_doc :: string
  t_tenant :: string
  t_reason :: string

record job_row =
  j_version :: string
  j_token :: string
  j_job :: string
  j_status :: string
  j_completed :: "int option"

record db =
  docs :: "doc_row list"
  atts :: "att_row list"
  vers :: "ver_row list"
  vchunks :: "vchunk_row list"
  legacy :: "legacy_row list"
  tombs :: "tomb_row list"
  jobs :: "job_row list"

definition empty_db :: db where
  "empty_db = \<lparr>docs = [], atts = [], vers = [], vchunks = [], legacy = [], tombs = [], jobs = []\<rparr>"

section \<open>Registration\<close>

record ident =
  i_doc :: string
  i_att :: string
  i_ver :: string
  i_ref :: string
  i_sha :: string
  i_filename :: string
  i_tenant :: string
  i_workflow :: string

definition hex_char :: "char \<Rightarrow> bool" where
  "hex_char c = (let n = code c in 48 \<le> n \<and> n \<le> 57 \<or> 97 \<le> n \<and> n \<le> 102)"

definition sha_ok :: "string \<Rightarrow> bool" where
  "sha_ok s = (length s = 64 \<and> list_all hex_char s)"

definition requeue :: "doc_status \<Rightarrow> doc_status" where
  "requeue s = (if s = DIndexed \<or> s = DFailed then DQueued else s)"

definition upsert_document :: "ident \<Rightarrow> db \<Rightarrow> db res" where
  "upsert_document i s =
     (if \<not> sha_ok (i_sha i) then Inl DatabaseError
      else (case find (\<lambda>d. d_id d = i_doc i) (docs s) of
        None \<Rightarrow> Inr (s\<lparr>docs := docs s @ [\<lparr>d_id = i_doc i, d_tenant = i_tenant i,
          d_filename = i_filename i, d_ref = i_ref i, d_sha = i_sha i, d_status = DQueued,
          d_active = None\<rparr>]\<rparr>)
      | Some d \<Rightarrow>
          if d_tenant d = i_tenant i \<and> d_filename d = i_filename i \<and> d_status d \<noteq> DDeleted
          then Inr (s\<lparr>docs := upd_where (\<lambda>d. d_id d = i_doc i)
            (\<lambda>d. d\<lparr>d_ref := i_ref i, d_sha := i_sha i, d_status := requeue (d_status d)\<rparr>) (docs s)\<rparr>)
          else Inl ValueError))"

definition next_number :: "int list \<Rightarrow> int" where
  "next_number ns = foldr max ns 0 + 1"

definition ensure_attempt :: "ident \<Rightarrow> db \<Rightarrow> db res" where
  "ensure_attempt i s =
     (case find (\<lambda>a. a_workflow a = i_workflow i) (atts s) of
        Some a \<Rightarrow>
          if a_id a \<noteq> i_att i \<or> a_doc a \<noteq> i_doc i \<or> a_tenant a \<noteq> i_tenant i
          then Inl ValueError else Inr s
      | None \<Rightarrow>
          if \<exists>a \<in> set (atts s). a_id a = i_att i then Inl DatabaseError
          else Inr (s\<lparr>atts := atts s @ [\<lparr>a_id = i_att i, a_doc = i_doc i, a_tenant = i_tenant i,
            a_workflow = i_workflow i,
            a_number = next_number (map a_number
              (filter (\<lambda>a. a_doc a = i_doc i \<and> a_tenant a = i_tenant i) (atts s))),
            a_status = AQueued, a_stage = None, a_error = None, a_started = None,
            a_finished = None\<rparr>]\<rparr>))"

definition ensure_version :: "ident \<Rightarrow> db \<Rightarrow> db res" where
  "ensure_version i s =
     (case find (\<lambda>v. v_id v = i_ver i) (vers s) of
        Some v \<Rightarrow>
          if v_doc v = i_doc i \<and> v_tenant v = i_tenant i \<and> v_attempt v = i_att i \<and>
             v_sha v = i_sha i \<and> v_ref v = i_ref i
          then Inr s else Inl ValueError
      | None \<Rightarrow> Inr (s\<lparr>vers := vers s @ [\<lparr>v_id = i_ver i, v_doc = i_doc i, v_tenant = i_tenant i,
            v_attempt = i_att i,
            v_number = next_number (map v_number
              (filter (\<lambda>v. v_doc v = i_doc i \<and> v_tenant v = i_tenant i) (vers s))),
            v_sha = i_sha i, v_ref = i_ref i, v_status = VStaged, v_chunks = 0,
            v_activated = None\<rparr>]\<rparr>))"

definition register_ingestion_sync :: "ident \<Rightarrow> db \<Rightarrow> db res" where
  "register_ingestion_sync i s =
     bindR (upsert_document i s) (\<lambda>s. bindR (ensure_attempt i s) (ensure_version i))"

section \<open>Stages and terminal states\<close>

definition allowed_stages :: "string list" where
  "allowed_stages = [''detecting'', ''extracting'', ''chunking'', ''persisting'', ''indexing'']"

definition att_open :: "att_row \<Rightarrow> bool" where
  "att_open a = (a_status a = AQueued \<or> a_status a = AProcessing)"

definition att_key :: "string \<Rightarrow> string \<Rightarrow> string \<Rightarrow> att_row \<Rightarrow> bool" where
  "att_key att doc tenant a = (a_id a = att \<and> a_doc a = doc \<and> a_tenant a = tenant)"

definition ver_key :: "string \<Rightarrow> string \<Rightarrow> string \<Rightarrow> ver_row \<Rightarrow> bool" where
  "ver_key ver doc tenant v = (v_id v = ver \<and> v_doc v = doc \<and> v_tenant v = tenant)"

definition doc_key :: "string \<Rightarrow> string \<Rightarrow> doc_row \<Rightarrow> bool" where
  "doc_key doc tenant d = (d_id d = doc \<and> d_tenant d = tenant)"

text \<open>\<open>COALESCE(column, NOW())\<close>\<close>

definition coalesce :: "'a option \<Rightarrow> 'a \<Rightarrow> 'a option" where
  "coalesce x y = (case x of None \<Rightarrow> Some y | Some z \<Rightarrow> Some z)"

text \<open>\<open>UPDATE ... WHERE p\<close> followed by the check \<open>rowcount == 1\<close>.\<close>

definition upd_one :: "('r \<Rightarrow> bool) \<Rightarrow> ('r \<Rightarrow> 'r) \<Rightarrow> 'r list \<Rightarrow> 'r list res" where
  "upd_one p f rs = (if count_where p rs = 1 then Inr (upd_where p f rs) else Inl ValueError)"

definition update_ingestion_stage_sync ::
  "string \<Rightarrow> string \<Rightarrow> string \<Rightarrow> string \<Rightarrow> int \<Rightarrow> db \<Rightarrow> db res" where
  "update_ingestion_stage_sync doc att tenant stage now s =
     (if stage \<notin> set allowed_stages then Inl ValueError
      else bindR (upd_one (\<lambda>a. att_key att doc tenant a \<and> att_open a)
             (\<lambda>a. a\<lparr>a_status := AProcessing, a_stage := Some stage,
                    a_started := coalesce (a_started a) now\<rparr>) (atts s))
        (\<lambda>as. bindR (upd_one (\<lambda>d. doc_key doc tenant d \<and> (d_status d = DQueued \<or> d_status d = DProcessing))
             (\<lambda>d. d\<lparr>d_status := DProcessing\<rparr>) (docs s))
        (\<lambda>ds. Inr (s\<lparr>atts := as, docs := ds\<rparr>))))"

text \<open>\<open>re.fullmatch(r"[a-z0-9_]{1,64}", s)\<close>\<close>

definition code_char :: "char \<Rightarrow> bool" where
  "code_char c = (let n = code c in 97 \<le> n \<and> n \<le> 122 \<or> 48 \<le> n \<and> n \<le> 57 \<or> n = 95)"

definition code_ok :: "string \<Rightarrow> bool" where
  "code_ok s = (1 \<le> length s \<and> length s \<le> 64 \<and> list_all code_char s)"

definition safe_code :: "string option \<Rightarrow> string option" where
  "safe_code e = (case e of None \<Rightarrow> None | Some s \<Rightarrow> if s \<noteq> [] \<and> code_ok s then Some s else None)"

fun terminal_status :: "string \<Rightarrow> att_status option" where
  "terminal_status s = (if s = ''indexed'' then Some AIndexed else if s = ''failed'' then Some AFailed
     else if s = ''cancelled'' then Some ACancelled else None)"

text \<open>Failing or cancelling: the staged version fails with its document, an active one is kept.\<close>

definition fail_version :: "string \<Rightarrow> string \<Rightarrow> string \<Rightarrow> att_status \<Rightarrow> db \<Rightarrow> db res" where
  "fail_version doc ver tenant st s =
     (if count_where (\<lambda>v. ver_key ver doc tenant v \<and> v_status v = VStaged) (vers s) \<noteq> 1
      then (if \<exists>v \<in> set (vers s). ver_key ver doc tenant v \<and> v_status v = VActive \<and>
               (\<exists>d \<in> set (docs s). d_id d = v_doc v \<and> d_tenant d = v_tenant v \<and> d_active d = Some (v_id v))
            then Inr s else Inl ValueError)
      else bindR (upd_one (\<lambda>d. doc_key doc tenant d \<and> d_status d = DProcessing)
             (\<lambda>d. d\<lparr>d_status := (if st = AFailed then DFailed else DQueued)\<rparr>) (docs s))
        (\<lambda>ds. Inr (s\<lparr>vers := upd_where (\<lambda>v. ver_key ver doc tenant v \<and> v_status v = VStaged)
             (\<lambda>v. v\<lparr>v_status := VFailed\<rparr>) (vers s), docs := ds\<rparr>)))"

definition finish_ingestion_attempt_sync ::
  "string \<Rightarrow> string \<Rightarrow> string \<Rightarrow> string \<Rightarrow> string \<Rightarrow> string option \<Rightarrow> int \<Rightarrow> db \<Rightarrow> db res" where
  "finish_ingestion_attempt_sync doc att ver tenant status err now s =
     (case terminal_status status of None \<Rightarrow> Inl ValueError
      | Some st \<Rightarrow>
        (if count_where (\<lambda>a. att_key att doc tenant a \<and> att_open a) (atts s) \<noteq> 1
         then (if \<exists>a \<in> set (atts s). att_key att doc tenant a \<and> a_status a = st \<and> a_error a = safe_code err
               then Inr s else Inl ValueError)
         else (let s' = s\<lparr>atts := upd_where (\<lambda>a. att_key att doc tenant a \<and> att_open a)
                 (\<lambda>a. a\<lparr>a_status := st, a_error := safe_code err, a_stage := Some status,
                        a_finished := Some now\<rparr>) (atts s)\<rparr>
               in if st = AFailed \<or> st = ACancelled then fail_version doc ver tenant st s' else Inr s')))"

section \<open>Activation, deletion and reconciliation\<close>

definition activate_version_tx :: "string \<Rightarrow> string \<Rightarrow> string \<Rightarrow> int \<Rightarrow> db \<Rightarrow> db res" where
  "activate_version_tx doc ver tenant now s =
     (case find (doc_key doc tenant) (docs s) of None \<Rightarrow> Inl ValueError
      | Some d \<Rightarrow>
        if d_status d = DDeleted then Inl ValueError
        else (case find (ver_key ver doc tenant) (vers s) of None \<Rightarrow> Inl ValueError
          | Some v \<Rightarrow>
            if v_status v \<noteq> VStaged \<and> v_status v \<noteq> VActive then Inl ValueError
            else if d_active d = Some ver then Inr s
            else (let vs = (case d_active d of None \<Rightarrow> vers s
                     | Some prev \<Rightarrow> upd_where (\<lambda>w. ver_key prev doc tenant w \<and> v_status w = VActive)
                          (\<lambda>w. w\<lparr>v_status := VSuperseded\<rparr>) (vers s))
              in bindR (upd_one (\<lambda>w. ver_key ver doc tenant w \<and> (v_status w = VStaged \<or> v_status w = VActive))
                   (\<lambda>w. w\<lparr>v_status := VActive, v_activated := coalesce (v_activated w) now\<rparr>) vs)
                (\<lambda>vs. bindR (upd_one (\<lambda>d. doc_key doc tenant d \<and> d_status d \<noteq> DDeleted)
                   (\<lambda>d. d\<lparr>d_active := Some ver, d_status := DIndexed\<rparr>) (docs s))
                (\<lambda>ds. Inr (s\<lparr>vers := vs, docs := ds\<rparr>))))))"

definition safe_reason :: "string \<Rightarrow> string" where
  "safe_reason r = (if code_ok r then r else ''user_deleted'')"

definition upsert_tomb :: "string \<Rightarrow> string \<Rightarrow> string \<Rightarrow> tomb_row list \<Rightarrow> tomb_row list res" where
  "upsert_tomb doc tenant reason ts =
     (case find (\<lambda>t. t_doc t = doc) ts of
        None \<Rightarrow> Inr (ts @ [\<lparr>t_doc = doc, t_tenant = tenant, t_reason = reason\<rparr>])
      | Some t \<Rightarrow> if t_tenant t = tenant
          then Inr (upd_where (\<lambda>t. t_doc t = doc) (\<lambda>t. t\<lparr>t_tenant := tenant, t_reason := reason\<rparr>) ts)
          else Inl ValueError)"

definition tombstone_tx :: "string \<Rightarrow> string \<Rightarrow> string \<Rightarrow> db \<Rightarrow> db res" where
  "tombstone_tx doc tenant reason s =
     (case find (doc_key doc tenant) (docs s) of None \<Rightarrow> Inl ValueError
      | Some d \<Rightarrow>
        (let s' = (if d_status d \<noteq> DDeleted
             then s\<lparr>vers := upd_where (\<lambda>v. v_doc v = doc \<and> v_tenant v = tenant \<and> v_status v = VActive)
                     (\<lambda>v. v\<lparr>v_status := VSuperseded\<rparr>) (vers s),
                   docs := upd_where (\<lambda>d. doc_key doc tenant d \<and> d_status d \<noteq> DDeleted)
                     (\<lambda>d. d\<lparr>d_status := DDeleted, d_active := None\<rparr>) (docs s)\<rparr>
             else s)
         in bindR (upsert_tomb doc tenant reason (tombs s'))
           (\<lambda>ts. Inr (s'\<lparr>tombs := ts,
              legacy := del_where (\<lambda>r. l_tenant r = tenant \<and> l_filename r = d_filename d \<and> l_version r = None)
                (legacy s')\<rparr>))))"

text \<open>
  The vector index and the lexical index are reached through two functions of a store \<open>'x\<close>:
  the store after the call, and whether it returned (\<open>True\<close>) or raised (\<open>False\<close>).
\<close>

record rec_call =
  rc_tenant :: string
  rc_doc :: string
  rc_active :: "string option"
  rc_filename :: string
  rc_deleted :: bool
  rc_delete_legacy :: bool

definition tombstone_document_sync ::
  "(rec_call \<Rightarrow> 'x \<Rightarrow> 'x \<times> bool) \<Rightarrow> ('x \<Rightarrow> 'x \<times> bool) \<Rightarrow> string \<Rightarrow> string \<Rightarrow> string \<Rightarrow>
   db \<times> 'x \<Rightarrow> (db \<times> 'x) \<times> bool res" where
  "tombstone_document_sync reconcile rebuild doc tenant reason st =
     (case st of (s, x) \<Rightarrow>
      (case tombstone_tx doc tenant reason s of Inl e \<Rightarrow> ((s, x), Inl e)
       | Inr s' \<Rightarrow>
         (let f = (case find (doc_key doc tenant) (docs s) of None \<Rightarrow> [] | Some d \<Rightarrow> d_filename d);
              (x1, ok1) = reconcile \<lparr>rc_tenant = tenant, rc_doc = doc, rc_active = None, rc_filename = f,
                            rc_deleted = True, rc_delete_legacy = False\<rparr> x
          in if \<not> ok1 then ((s', x1), Inl RuntimeError)
             else (case rebuild x1 of (x2, ok2) \<Rightarrow>
               ((s', x2), if ok2 then Inr True else Inl RuntimeError)))))"

definition tombstone_ingestion_document ::
  "(rec_call \<Rightarrow> 'x \<Rightarrow> 'x \<times> bool) \<Rightarrow> ('x \<Rightarrow> 'x \<times> bool) \<Rightarrow> string \<Rightarrow> string \<Rightarrow> string \<Rightarrow>
   db \<times> 'x \<Rightarrow> (db \<times> 'x) \<times> bool res" where
  "tombstone_ingestion_document reconcile rebuild doc tenant reason st =
     tombstone_document_sync reconcile rebuild doc tenant (safe_reason reason) st"

definition activate_ingestion_version_sync ::
  "(string \<Rightarrow> string \<Rightarrow> string \<Rightarrow> string \<Rightarrow> 'x \<Rightarrow> 'x \<times> bool) \<Rightarrow> ('x \<Rightarrow> 'x \<times> bool) \<Rightarrow>
   string \<Rightarrow> string \<Rightarrow> string \<Rightarrow> int \<Rightarrow> db \<times> 'x \<Rightarrow> (db \<times> 'x) \<times> bool res" where
  "activate_ingestion_version_sync activate rebuild doc ver tenant now st =
     (case st of (s, x) \<Rightarrow>
      (case activate_version_tx doc ver tenant now s of Inl e \<Rightarrow> ((s, x), Inl e)
       | Inr s' \<Rightarrow>
         (let f = (case find (doc_key doc tenant) (docs s) of None \<Rightarrow> [] | Some d \<Rightarrow> d_filename d);
              (x1, ok1) = activate tenant doc ver f x
          in if \<not> ok1 then ((s', x1), Inl RuntimeError)
             else (case rebuild x1 of (x2, ok2) \<Rightarrow>
               ((s', x2), if ok2 then Inr True else Inl RuntimeError)))))"

definition reconcile_call :: "doc_row \<Rightarrow> rec_call" where
  "reconcile_call d = \<lparr>rc_tenant = d_tenant d, rc_doc = d_id d, rc_active = d_active d,
     rc_filename = d_filename d, rc_deleted = (d_status d = DDeleted),
     rc_delete_legacy = (d_active d \<noteq> None)\<rparr>"

fun reconcile_loop ::
  "(rec_call \<Rightarrow> 'x \<Rightarrow> 'x \<times> bool) \<Rightarrow> doc_row list \<Rightarrow> nat \<Rightarrow> nat \<Rightarrow> 'x \<Rightarrow> 'x \<times> nat \<times> nat" where
  "reconcile_loop reconcile [] n k x = (x, n, k)"
| "reconcile_loop reconcile (d # ds) n k x =
     (case reconcile (reconcile_call d) x of (x', ok) \<Rightarrow>
        if ok then reconcile_loop reconcile ds (n + 1) k x' else reconcile_loop reconcile ds n (k + 1) x')"

text \<open>The attempts that reconciliation repairs: the version they produced is active.\<close>

definition repairable :: "db \<Rightarrow> att_row \<Rightarrow> bool" where
  "repairable s a =
     ((\<exists>v \<in> set (vers s). v_attempt v = a_id a \<and> v_status v = VActive \<and>
        (\<exists>d \<in> set (docs s). d_id d = v_doc v \<and> d_tenant d = v_tenant v \<and> d_active d = Some (v_id v))) \<and>
      (a_status a = AProcessing \<or> a_status a = AFailed) \<and>
      (a_error a = None \<or> a_error a = Some ''workflow_activity_failed''))"

definition repair_tx :: "int \<Rightarrow> db \<Rightarrow> db" where
  "repair_tx now s = s\<lparr>atts := upd_where (repairable s)
     (\<lambda>a. a\<lparr>a_status := AIndexed, a_stage := Some ''indexed'', a_error := None,
            a_finished := coalesce (a_finished a) now\<rparr>) (atts s)\<rparr>"

definition reconcile_ingestion_indexes_sync ::
  "(rec_call \<Rightarrow> 'x \<Rightarrow> 'x \<times> bool) \<Rightarrow> ('x \<Rightarrow> 'x \<times> bool) \<Rightarrow> int \<Rightarrow> db \<times> 'x \<Rightarrow> (db \<times> 'x) \<times> nat res" where
  "reconcile_ingestion_indexes_sync reconcile rebuild now st =
     (case st of (s, x) \<Rightarrow>
      (case reconcile_loop reconcile (sort_key (\<lambda>d. (d_tenant d, d_id d)) (docs s)) 0 0 x of
        (x1, n, k) \<Rightarrow>
        (case rebuild x1 of (x2, ok) \<Rightarrow>
          if \<not> ok then ((s, x2), Inl RuntimeError)
          else if k \<noteq> 0 then ((s, x2), Inl RuntimeError)
          else ((repair_tx now s, x2), Inr n))))"

section \<open>Chunks\<close>

definition vchunk_conflict :: "vchunk_row \<Rightarrow> vchunk_row \<Rightarrow> bool" where
  "vchunk_conflict r q = (c_tenant q = c_tenant r \<and> c_version q = c_version r \<and>
     c_page q = c_page r \<and> c_index q = c_index r)"

definition upsert_vchunk :: "vchunk_row \<Rightarrow> vchunk_row list \<Rightarrow> vchunk_row list" where
  "upsert_vchunk r rs =
     (if \<exists>q \<in> set rs. vchunk_conflict r q
      then upd_where (vchunk_conflict r) (\<lambda>q. q\<lparr>c_text := c_text r, c_filename := c_filename r\<rparr>) rs
      else rs @ [r])"

definition vchunk_of :: "string \<Rightarrow> string \<Rightarrow> string \<Rightarrow> string \<Rightarrow> int \<Rightarrow> text_chunk \<Rightarrow> vchunk_row" where
  "vchunk_of tenant doc ver filename idx c = \<lparr>c_tenant = tenant, c_doc = doc, c_version = ver,
     c_filename = filename, c_page = chunk_page c, c_index = idx, c_text = chunk_text c\<rparr>"

fun insert_vchunks ::
  "db \<Rightarrow> string \<Rightarrow> string \<Rightarrow> string \<Rightarrow> string \<Rightarrow> int \<Rightarrow> text_chunk list \<Rightarrow> vchunk_row list \<Rightarrow> vchunk_row list res"
where
  "insert_vchunks s tenant doc ver filename idx [] rs = Inr rs"
| "insert_vchunks s tenant doc ver filename idx (c # cs) rs =
     (if chunk_page c \<le> 0 \<or> \<not> (\<exists>v \<in> set (vers s). ver_key ver doc tenant v) then Inl DatabaseError
      else insert_vchunks s tenant doc ver filename (idx + 1) cs
             (upsert_vchunk (vchunk_of tenant doc ver filename idx c) rs))"

definition persist_version_chunks_tx ::
  "text_chunk list \<Rightarrow> string \<Rightarrow> string \<Rightarrow> string \<Rightarrow> string \<Rightarrow> db \<Rightarrow> db res" where
  "persist_version_chunks_tx chunks filename tenant doc ver s =
     bindR (insert_vchunks s tenant doc ver filename 0 chunks
       (del_where (\<lambda>r. c_tenant r = tenant \<and> c_doc r = doc \<and> c_version r = ver) (vchunks s)))
     (\<lambda>cs. bindR (upd_one (\<lambda>v. ver_key ver doc tenant v \<and> v_status v = VStaged)
        (\<lambda>v. v\<lparr>v_chunks := int (length chunks)\<rparr>) (vers s))
     (\<lambda>vs. Inr (s\<lparr>vchunks := cs, vers := vs\<rparr>)))"

definition legacy_conflict :: "legacy_row \<Rightarrow> legacy_row \<Rightarrow> bool" where
  "legacy_conflict r q = (l_tenant q = l_tenant r \<and> l_filename q = l_filename r \<and>
     l_page q = l_page r \<and> l_index q = l_index r)"

fun insert_legacy :: "string \<Rightarrow> string \<Rightarrow> int \<Rightarrow> text_chunk list \<Rightarrow> legacy_row list \<Rightarrow> legacy_row list" where
  "insert_legacy tenant filename idx [] rs = rs"
| "insert_legacy tenant filename idx (c # cs) rs =
     (let r = \<lparr>l_tenant = tenant, l_filename = filename, l_version = None, l_page = chunk_page c,
               l_index = idx, l_text = chunk_text c\<rparr>
      in insert_legacy tenant filename (idx + 1) cs
           (if \<exists>q \<in> set rs. legacy_conflict r q
            then upd_where (legacy_conflict r) (\<lambda>q. q\<lparr>l_text := l_text r\<rparr>) rs else rs @ [r]))"

text \<open>\<open>_persist_chunks_sync\<close>: the artifact identity selects the versioned tables.\<close>

definition persist_chunks_sync ::
  "text_chunk list \<Rightarrow> string \<Rightarrow> string \<Rightarrow> (string \<times> string) option \<Rightarrow> db \<Rightarrow> db res" where
  "persist_chunks_sync chunks filename tenant identity s =
     (case identity of
        Some (doc, ver) \<Rightarrow> persist_version_chunks_tx chunks filename tenant doc ver s
      | None \<Rightarrow> Inr (s\<lparr>legacy := insert_legacy tenant filename 0 chunks
           (del_where (\<lambda>r. l_tenant r = tenant \<and> l_filename r = filename) (legacy s))\<rparr>))"

section \<open>Artifact expiry and external jobs\<close>

definition expired_join :: "db \<Rightarrow> int \<Rightarrow> string list \<Rightarrow> att_row \<Rightarrow> (string \<times> string \<times> string) list" where
  "expired_join s before live a =
     (if (a_status a = AFailed \<or> a_status a = ACancelled) \<and>
         (case a_finished a of None \<Rightarrow> False | Some t \<Rightarrow> t < before) \<and> a_workflow a \<notin> set live
      then concat (map (\<lambda>d. if d_id d = a_doc a \<and> d_tenant d = a_tenant a
          then map (\<lambda>v. (d_tenant d, d_id d, v_id v))
            (filter (\<lambda>v. v_attempt v = a_id a \<and> v_doc v = a_doc a \<and> v_tenant v = a_tenant a \<and>
               v_status v = VFailed \<and> d_active d \<noteq> Some (v_id v)) (vers s))
          else []) (docs s))
      else [])"

definition expired_artifact_identities_sync :: "int \<Rightarrow> string list \<Rightarrow> db \<Rightarrow> (string \<times> string \<times> string) list" where
  "expired_artifact_identities_sync before live s =
     remdups (concat (map (expired_join s before live) (atts s)))"

definition artifact_stages :: "string list" where
  "artifact_stages = [''pages'', ''chunks'']"

text \<open>\<open>store.delete\<close> over both stages of every selected identity, with the count of deletions.\<close>

definition janitor_ingestion_artifacts ::
  "((string \<times> string \<times> string) \<times> string \<Rightarrow> 'x \<Rightarrow> 'x) \<Rightarrow> int \<Rightarrow> string list \<Rightarrow> db \<Rightarrow> 'x \<Rightarrow> 'x \<times> nat" where
  "janitor_ingestion_artifacts del before live s x =
     (let targets = List.product (expired_artifact_identities_sync before live s) artifact_stages
      in (fold del targets x, length targets))"

definition get_textract_job_sync :: "string \<Rightarrow> db \<Rightarrow> string option" where
  "get_textract_job_sync ver s = map_option j_job (find (\<lambda>j. j_version j = ver) (jobs s))"

definition job_statuses :: "string list" where
  "job_statuses = [''started'', ''in_progress'', ''succeeded'', ''failed'']"

definition save_textract_job_sync :: "string \<Rightarrow> string \<Rightarrow> string \<Rightarrow> string \<Rightarrow> db \<Rightarrow> db res" where
  "save_textract_job_sync ver token job status s =
     (if status \<notin> set job_statuses then Inl DatabaseError
      else (case find (\<lambda>j. j_version j = ver) (jobs s) of
        Some j \<Rightarrow> if j_token j = token \<and> j_job j = job then Inr s else Inl ValueError
      | None \<Rightarrow>
          if (\<exists>j \<in> set (jobs s). j_token j = token) \<or> \<not> (\<exists>v \<in> set (vers s). v_id v = ver)
          then Inl DatabaseError
          else Inr (s\<lparr>jobs := jobs s @ [\<lparr>j_version = ver, j_token = token, j_job = job,
                 j_status = status, j_completed = None\<rparr>]\<rparr>)))"

definition set_textract_job_status_sync :: "string \<Rightarrow> string \<Rightarrow> string \<Rightarrow> int \<Rightarrow> db \<Rightarrow> db res" where
  "set_textract_job_status_sync ver job status now s =
     (if status \<notin> {''in_progress'', ''succeeded'', ''failed''} then Inl ValueError
      else if count_where (\<lambda>j. j_version j = ver \<and> j_job j = job \<and> j_status j \<noteq> status) (jobs s) = 0
      then (if \<exists>j \<in> set (jobs s). j_version j = ver \<and> j_job j = job \<and> j_status j = status
            then Inr s else Inl ValueError)
      else Inr (s\<lparr>jobs := upd_where (\<lambda>j. j_version j = ver \<and> j_job j = job \<and> j_status j \<noteq> status)
        (\<lambda>j. j\<lparr>j_status := status,
               j_completed := (if status = ''succeeded'' \<or> status = ''failed'' then Some now
                               else j_completed j)\<rparr>) (jobs s)\<rparr>))"

end
