(* ===== verification/Ingestion_Inv.thy ===== *)
theory Ingestion_Inv
  imports Ingestion_Db
begin

text \<open>
  The invariant of the ingestion database, its preservation by every transaction, and the
  refinement of the transactions to an abstract publication state: per document, whether it
  exists, which version is published, and whether it is deleted.
\<close>

section \<open>Operations and reachable databases\<close>

datatype db_op =
    OpRegister ident
  | OpStage string string string string int
  | OpFinish string string string string string "string option" int
  | OpActivate string string string int
  | OpTombstone string string string
  | OpRepair int
  | OpPersist "text_chunk list" string string "(string \<times> string) option"
  | OpSaveJob string string string string
  | OpSetJob string string string int

fun run_op :: "db_op \<Rightarrow> db \<Rightarrow> db res" where
  "run_op (OpRegister i) s = register_ingestion_sync i s"
| "run_op (OpStage doc att tenant stage now) s = update_ingestion_stage_sync doc att tenant stage now s"
| "run_op (OpFinish doc att ver tenant status err now) s =
     finish_ingestion_attempt_sync doc att ver tenant status err now s"
| "run_op (OpActivate doc ver tenant now) s = activate_version_tx doc ver tenant now s"
| "run_op (OpTombstone doc tenant reason) s = tombstone_tx doc tenant (safe_reason reason) s"
| "run_op (OpRepair now) s = Inr (repair_tx now s)"
| "run_op (OpPersist chunks filename tenant identity) s = persist_chunks_sync chunks filename tenant identity s"
| "run_op (OpSaveJob ver token job status) s = save_textract_job_sync ver token job status s"
| "run_op (OpSetJob ver job status now) s = set_textract_job_status_sync ver job status now s"

inductive db_reach :: "db \<Rightarrow> bool" where
  init: "db_reach empty_db"
| step: "db_reach s \<Longrightarrow> run_op p s = Inr t \<Longrightarrow> db_reach t"

section \<open>The invariant\<close>

definition doc_skel :: "doc_row \<Rightarrow> string \<times> string \<times> string" where
  "doc_skel d = (d_id d, d_tenant d, d_filename d)"

definition att_skel :: "att_row \<Rightarrow> string \<times> string \<times> string \<times> string \<times> int" where
  "att_skel a = (a_id a, a_doc a, a_tenant a, a_workflow a, a_number a)"

definition ver_skel :: "ver_row \<Rightarrow> string \<times> string \<times> string \<times> string \<times> int" where
  "ver_skel v = (v_id v, v_doc v, v_tenant v, v_attempt v, v_number v)"

definition keys_ok :: "db \<Rightarrow> bool" where
  "keys_ok s =
     (distinct (map d_id (docs s)) \<and> distinct (map a_id (atts s)) \<and>
      distinct (map a_workflow (atts s)) \<and> distinct (map v_id (vers s)) \<and>
      distinct (map (\<lambda>a. (a_doc a, a_number a)) (atts s)) \<and>
      distinct (map (\<lambda>v. (v_doc v, v_number v)) (vers s)) \<and>
      (\<forall>a \<in> set (atts s). \<exists>d \<in> set (docs s). d_id d = a_doc a \<and> d_tenant d = a_tenant a) \<and>
      (\<forall>v \<in> set (vers s). \<exists>a \<in> set (atts s). a_id a = v_attempt v \<and> a_doc a = v_doc v \<and> a_tenant a = v_tenant v))"

definition doc_ok :: "ver_row list \<Rightarrow> doc_row \<Rightarrow> bool" where
  "doc_ok vs d =
     ((\<forall>v \<in> set vs. v_doc v = d_id d \<longrightarrow> (v_status v = VActive \<longleftrightarrow> d_active d = Some (v_id v))) \<and>
      (\<forall>x. d_active d = Some x \<longrightarrow> (\<exists>v \<in> set vs. v_id v = x \<and> v_doc v = d_id d)) \<and>
      (d_status d = DDeleted \<longrightarrow> d_active d = None) \<and>
      (d_status d = DIndexed \<longrightarrow> d_active d \<noteq> None))"

definition active_ok :: "db \<Rightarrow> bool" where
  "active_ok s = (\<forall>d \<in> set (docs s). doc_ok (vers s) d)"

definition att_ok :: "db \<Rightarrow> bool" where
  "att_ok s = (\<forall>a \<in> set (atts s). att_open a \<longleftrightarrow> a_finished a = None)"

definition chunk_key :: "vchunk_row \<Rightarrow> string \<times> string \<times> int \<times> int" where
  "chunk_key r = (c_tenant r, c_version r, c_page r, c_index r)"

definition chunks_ok :: "db \<Rightarrow> bool" where
  "chunks_ok s =
     (distinct (map chunk_key (vchunks s)) \<and>
      (\<forall>r \<in> set (vchunks s). \<exists>v \<in> set (vers s). ver_key (c_version r) (c_doc r) (c_tenant r) v))"

definition jobs_ok :: "db \<Rightarrow> bool" where
  "jobs_ok s = (distinct (map j_version (jobs s)) \<and> distinct (map j_token (jobs s)))"

definition db_inv :: "db \<Rightarrow> bool" where
  "db_inv s = (keys_ok s \<and> active_ok s \<and> att_ok s \<and> chunks_ok s \<and> jobs_ok s)"

lemma db_inv_empty: "db_inv empty_db"
  by (simp add: db_inv_def keys_ok_def active_ok_def att_ok_def chunks_ok_def jobs_ok_def empty_db_def)

section \<open>Updates that keep the keys\<close>

definition same_skel :: "db \<Rightarrow> db \<Rightarrow> bool" where
  "same_skel s t = (map doc_skel (docs t) = map doc_skel (docs s) \<and>
     map att_skel (atts t) = map att_skel (atts s) \<and> map ver_skel (vers t) = map ver_skel (vers s))"

lemma map_proj_eq:
  assumes "map f xs = map f ys" "\<And>x. g x = h (f x)"
  shows "map g xs = map g ys"
proof -
  have "map g zs = map h (map f zs)" for zs using assms(2) by simp
  then show ?thesis using assms(1) by metis
qed

lemma ex_proj_eq:
  assumes "map f xs = map f ys" "\<And>x. P x = Q (f x)"
  shows "(\<exists>x \<in> set xs. P x) = (\<exists>x \<in> set ys. P x)"
proof -
  have "(\<exists>x \<in> set zs. P x) = (\<exists>y \<in> set (map f zs). Q y)" for zs using assms(2) by simp
  then show ?thesis using assms(1) by metis
qed

lemma all_proj_eq:
  assumes "map f xs = map f ys" "\<And>x. P x = Q (f x)"
  shows "(\<forall>x \<in> set xs. P x) = (\<forall>x \<in> set ys. P x)"
proof -
  have "(\<forall>x \<in> set zs. P x) = (\<forall>y \<in> set (map f zs). Q y)" for zs using assms(2) by simp
  then show ?thesis using assms(1) by metis
qed

lemma keys_ok_skel:
  assumes "same_skel s t" "keys_ok s"
  shows "keys_ok t"
proof -
  have d: "map doc_skel (docs t) = map doc_skel (docs s)"
    and a: "map att_skel (atts t) = map att_skel (atts s)"
    and v: "map ver_skel (vers t) = map ver_skel (vers s)" using assms(1) by (simp_all add: same_skel_def)
  have 1: "map d_id (docs t) = map d_id (docs s)"
    by (rule map_proj_eq[OF d, where h = fst]) (simp add: doc_skel_def)
  have 2: "map a_id (atts t) = map a_id (atts s)"
    by (rule map_proj_eq[OF a, where h = fst]) (simp add: att_skel_def)
  have 3: "map a_workflow (atts t) = map a_workflow (atts s)"
    by (rule map_proj_eq[OF a, where h = "\<lambda>(i, d, t, w, n). w"]) (simp add: att_skel_def)
  have 4: "map v_id (vers t) = map v_id (vers s)"
    by (rule map_proj_eq[OF v, where h = fst]) (simp add: ver_skel_def)
  have 5: "map (\<lambda>a. (a_doc a, a_number a)) (atts t) = map (\<lambda>a. (a_doc a, a_number a)) (atts s)"
    by (rule map_proj_eq[OF a, where h = "\<lambda>(i, d, t, w, n). (d, n)"]) (simp add: att_skel_def)
  have 6: "map (\<lambda>v. (v_doc v, v_number v)) (vers t) = map (\<lambda>v. (v_doc v, v_number v)) (vers s)"
    by (rule map_proj_eq[OF v, where h = "\<lambda>(i, d, t, w, n). (d, n)"]) (simp add: ver_skel_def)
  have 7: "(\<exists>d \<in> set (docs t). d_id d = x \<and> d_tenant d = y) = (\<exists>d \<in> set (docs s). d_id d = x \<and> d_tenant d = y)" for x y
    by (rule ex_proj_eq[OF d, where Q = "\<lambda>(i, u, f). i = x \<and> u = y"]) (simp add: doc_skel_def)
  have 8: "(\<exists>a \<in> set (atts t). a_id a = x \<and> a_doc a = y \<and> a_tenant a = z) =
      (\<exists>a \<in> set (atts s). a_id a = x \<and> a_doc a = y \<and> a_tenant a = z)" for x y z
    by (rule ex_proj_eq[OF a, where Q = "\<lambda>(i, d, t, w, n). i = x \<and> d = y \<and> t = z"]) (simp add: att_skel_def)
  have 9: "(\<forall>a \<in> set (atts t). P (a_doc a) (a_tenant a)) = (\<forall>a \<in> set (atts s). P (a_doc a) (a_tenant a))" for P
    by (rule all_proj_eq[OF a, where Q = "\<lambda>(i, d, t, w, n). P d t"]) (simp add: att_skel_def)
  have 10: "(\<forall>v \<in> set (vers t). P (v_attempt v) (v_doc v) (v_tenant v)) =
      (\<forall>v \<in> set (vers s). P (v_attempt v) (v_doc v) (v_tenant v))" for P
    by (rule all_proj_eq[OF v, where Q = "\<lambda>(i, d, t, w, n). P w d t"]) (simp add: ver_skel_def)
  show ?thesis using assms(2) unfolding keys_ok_def 1 2 3 4 5 6 7 8
    using 9[of "\<lambda>x y. \<exists>d \<in> set (docs s). d_id d = x \<and> d_tenant d = y"]
      10[of "\<lambda>x y z. \<exists>a \<in> set (atts s). a_id a = x \<and> a_doc a = y \<and> a_tenant a = z"] by blast
qed

lemma upd_one_Inr: "upd_one p f rs = Inr qs \<longleftrightarrow> count_where p rs = 1 \<and> qs = upd_where p f rs"
  by (auto simp: upd_one_def)

lemmas skel_simps = doc_skel_def att_skel_def ver_skel_def

lemma map_skel_upd [simp]:
  "(\<And>d. doc_skel (f d) = doc_skel d) \<Longrightarrow> map doc_skel (upd_where p f ds) = map doc_skel ds"
  "(\<And>a. att_skel (g a) = att_skel a) \<Longrightarrow> map att_skel (upd_where q g as) = map att_skel as"
  "(\<And>v. ver_skel (h v) = ver_skel v) \<Longrightarrow> map ver_skel (upd_where r h vs) = map ver_skel vs"
  by (simp_all add: map_upd_where)

text \<open>What an operation other than registration does: keys stay, chunks keep their versions.\<close>

lemma owner_skel:
  assumes "same_skel s t"
  shows "(\<exists>v \<in> set (vers t). ver_key x y z v) = (\<exists>v \<in> set (vers s). ver_key x y z v)"
proof -
  have v: "map ver_skel (vers t) = map ver_skel (vers s)" using assms(1) by (simp add: same_skel_def)
  show ?thesis
    by (rule ex_proj_eq[OF v, where Q = "\<lambda>(i, d, t, w, n). i = x \<and> d = y \<and> t = z"])
      (simp add: ver_skel_def ver_key_def)
qed

lemma chunks_ok_skel:
  assumes "same_skel s t" "chunks_ok s" "vchunks t = vchunks s"
  shows "chunks_ok t"
  using assms owner_skel[OF assms(1)] by (simp add: chunks_ok_def)

lemma db_invI_skel:
  assumes "db_inv s" "same_skel s t" "active_ok t" "att_ok t" "vchunks t = vchunks s" "jobs t = jobs s"
  shows "db_inv t"
  using assms keys_ok_skel chunks_ok_skel by (auto simp: db_inv_def jobs_ok_def)

section \<open>Preservation, operation by operation\<close>

lemma ver_tenant:
  assumes "keys_ok s" "v \<in> set (vers s)" "d \<in> set (docs s)" "v_doc v = d_id d"
  shows "v_tenant v = d_tenant d"
proof -
  obtain a where a: "a \<in> set (atts s)" "a_doc a = v_doc v" "a_tenant a = v_tenant v"
    using assms by (auto simp: keys_ok_def)
  obtain e where e: "e \<in> set (docs s)" "d_id e = a_doc a" "d_tenant e = a_tenant a"
    using assms(1) a(1) by (auto simp: keys_ok_def)
  have "e = d" using assms a e distinct_map_eq[of d_id "docs s" e d] by (simp add: keys_ok_def)
  then show ?thesis using a e by simp
qed

lemma doc_unique: "keys_ok s \<Longrightarrow> d \<in> set (docs s) \<Longrightarrow> e \<in> set (docs s) \<Longrightarrow> d_id d = d_id e \<Longrightarrow> d = e"
  using distinct_map_eq[of d_id "docs s"] by (simp add: keys_ok_def)

lemma ver_unique: "keys_ok s \<Longrightarrow> v \<in> set (vers s) \<Longrightarrow> w \<in> set (vers s) \<Longrightarrow> v_id v = v_id w \<Longrightarrow> v = w"
  using distinct_map_eq[of v_id "vers s"] by (simp add: keys_ok_def)

lemma doc_ok_status:
  "doc_ok vs d \<Longrightarrow> st \<noteq> DDeleted \<Longrightarrow> st \<noteq> DIndexed \<Longrightarrow> doc_ok vs (d\<lparr>d_status := st\<rparr>)"
  by (simp add: doc_ok_def)

lemma doc_ok_vers:
  assumes "\<And>v. v_id (f v) = v_id v \<and> v_doc (f v) = v_doc v"
    "\<And>v. p v \<Longrightarrow> (v_status (f v) = VActive) = (v_status v = VActive)"
  shows "doc_ok (upd_where p f vs) d = doc_ok vs d"
proof -
  have "(v_doc (if p v then f v else v) = d_id d \<longrightarrow>
         (v_status (if p v then f v else v) = VActive) = (d_active d = Some (v_id (if p v then f v else v)))) =
      (v_doc v = d_id d \<longrightarrow> (v_status v = VActive) = (d_active d = Some (v_id v)))"
    "(v_id (if p v then f v else v) = x \<and> v_doc (if p v then f v else v) = d_id d) = (v_id v = x \<and> v_doc v = d_id d)" for v x
    using assms[of v] by auto
  then show ?thesis by (simp only: doc_ok_def ball_upd_where bex_upd_where)
qed

lemma doc_ok_other:
  assumes "\<And>v. v \<in> set vs \<Longrightarrow> v_doc v = d_id e \<Longrightarrow> H v = v" "\<And>v. v_doc (H v) = v_doc v"
    "doc_ok vs e"
  shows "doc_ok (map H vs) e"
proof -
  have "v_status (H v) = VActive \<longleftrightarrow> d_active e = Some (v_id (H v))"
    if "v \<in> set vs" "v_doc (H v) = d_id e" for v
    using that assms by (simp add: doc_ok_def)
  moreover have "\<exists>v \<in> set (map H vs). v_id v = x \<and> v_doc v = d_id e" if x: "d_active e = Some x" for x
  proof -
    obtain v where v: "v \<in> set vs" "v_id v = x" "v_doc v = d_id e"
      using assms(3) x by (auto simp: doc_ok_def)
    then have "H v = v" by (simp add: assms(1))
    then show ?thesis using v by force
  qed
  ultimately show ?thesis using assms(3) by (simp add: doc_ok_def)
qed

lemma active_ok_docs:
  assumes "\<And>d. d \<in> set (docs s) \<Longrightarrow> doc_ok (vers s) d \<Longrightarrow> doc_ok vs (if p d then f d else d)" "active_ok s"
    "docs t = upd_where p f (docs s)" "vers t = vs"
  shows "active_ok t"
  using assms by (simp add: active_ok_def)

lemma stage_inv:
  assumes "db_inv s" "update_ingestion_stage_sync doc att tenant stage now s = Inr t"
  shows "db_inv t"
proof (rule db_invI_skel[OF assms(1)])
  from assms(2) have t: "t = s\<lparr>atts := upd_where (\<lambda>a. att_key att doc tenant a \<and> att_open a)
        (\<lambda>a. a\<lparr>a_status := AProcessing, a_stage := Some stage, a_started := coalesce (a_started a) now\<rparr>) (atts s),
      docs := upd_where (\<lambda>d. doc_key doc tenant d \<and> (d_status d = DQueued \<or> d_status d = DProcessing))
        (\<lambda>d. d\<lparr>d_status := DProcessing\<rparr>) (docs s)\<rparr>"
    by (auto simp: update_ingestion_stage_sync_def upd_one_Inr split: if_splits)
  show "same_skel s t" by (simp add: t same_skel_def skel_simps)
  show "active_ok t"
    by (rule active_ok_docs[where s = s]) (use assms in \<open>auto simp: t db_inv_def doc_ok_status\<close>)
  show "att_ok t" using assms(1) by (auto simp: t db_inv_def att_ok_def att_open_def)
qed (use assms(2) in \<open>auto simp: update_ingestion_stage_sync_def split: if_splits\<close>)

lemma fail_version_cases:
  assumes "fail_version doc ver tenant st s = Inr t"
  obtains "t = s" | "count_where (\<lambda>v. ver_key ver doc tenant v \<and> v_status v = VStaged) (vers s) = 1"
    "count_where (\<lambda>d. doc_key doc tenant d \<and> d_status d = DProcessing) (docs s) = 1"
    "t = s\<lparr>vers := upd_where (\<lambda>v. ver_key ver doc tenant v \<and> v_status v = VStaged)
             (\<lambda>v. v\<lparr>v_status := VFailed\<rparr>) (vers s),
           docs := upd_where (\<lambda>d. doc_key doc tenant d \<and> d_status d = DProcessing)
             (\<lambda>d. d\<lparr>d_status := (if st = AFailed then DFailed else DQueued)\<rparr>) (docs s)\<rparr>"
  using assms by (auto simp: fail_version_def upd_one_Inr split: if_splits)

lemma fail_version_inv:
  assumes "db_inv s" "fail_version doc ver tenant st s = Inr t"
  shows "db_inv t"
  using assms(2)
proof (cases rule: fail_version_cases)
  case 2
  show ?thesis
  proof (rule db_invI_skel[OF assms(1)])
    show "same_skel s t" by (simp add: 2 same_skel_def skel_simps)
    have "doc_ok (vers t) d = doc_ok (vers s) d" for d unfolding 2(3)
      by (simp, rule doc_ok_vers) auto
    note eq = this
    have docs: "docs t = upd_where (\<lambda>d. doc_key doc tenant d \<and> d_status d = DProcessing)
        (\<lambda>d. d\<lparr>d_status := (if st = AFailed then DFailed else DQueued)\<rparr>) (docs s)" by (simp add: 2(3))
    have act: "active_ok s" using assms(1) by (simp add: db_inv_def)
    show "active_ok t"
      by (rule active_ok_docs[OF _ act docs refl]) (simp add: eq doc_ok_status)
    show "att_ok t" using assms(1) by (simp add: 2(3) db_inv_def att_ok_def)
  qed (simp_all add: 2)
qed (use assms in simp)

lemma finish_cases:
  assumes "finish_ingestion_attempt_sync doc att ver tenant status err now s = Inr t"
  obtains "t = s"
  | st s' where "terminal_status status = Some st"
    "s' = s\<lparr>atts := upd_where (\<lambda>a. att_key att doc tenant a \<and> att_open a)
        (\<lambda>a. a\<lparr>a_status := st, a_error := safe_code err, a_stage := Some status, a_finished := Some now\<rparr>) (atts s)\<rparr>"
    "t = s' \<or> (st = AFailed \<or> st = ACancelled) \<and> fail_version doc ver tenant st s' = Inr t"
proof (cases "terminal_status status")
  case None
  with assms show ?thesis by (simp add: finish_ingestion_attempt_sync_def del: terminal_status.simps)
next
  case (Some st)
  show ?thesis
  proof (cases "count_where (\<lambda>a. att_key att doc tenant a \<and> att_open a) (atts s) = 1")
    case False
    with Some assms have "t = s"
      by (simp add: finish_ingestion_attempt_sync_def del: terminal_status.simps split: if_splits)
    then show ?thesis by (rule that(1))
  next
    case True
    then show ?thesis using Some assms
      by (intro that(2)[OF Some refl])
        (simp add: finish_ingestion_attempt_sync_def Let_def del: terminal_status.simps split: if_splits)
  qed
qed

lemma terminal_not_open: "terminal_status x = Some st \<Longrightarrow> st \<noteq> AQueued \<and> st \<noteq> AProcessing"
  by (auto split: if_splits)

lemma finish_inv:
  assumes "db_inv s" "finish_ingestion_attempt_sync doc att ver tenant status err now s = Inr t"
  shows "db_inv t"
  using assms(2)
proof (cases rule: finish_cases)
  case (2 st s')
  have "db_inv s'"
  proof (rule db_invI_skel[OF assms(1)])
    show "same_skel s s'" by (simp add: 2(2) same_skel_def skel_simps)
    show "att_ok s'" using assms(1) terminal_not_open[OF 2(1)]
      by (auto simp: 2(2) db_inv_def att_ok_def att_open_def)
    show "active_ok s'" using assms(1) by (simp add: 2(2) db_inv_def active_ok_def)
  qed (simp_all add: 2(2))
  then show ?thesis using 2(3) fail_version_inv by blast
qed (use assms in simp)

lemma repair_inv: "db_inv s \<Longrightarrow> db_inv (repair_tx now s)"
proof (rule db_invI_skel)
  assume inv: "db_inv s"
  show "same_skel s (repair_tx now s)" by (simp add: repair_tx_def same_skel_def skel_simps)
  show "active_ok (repair_tx now s)" using inv by (simp add: repair_tx_def db_inv_def active_ok_def)
  show "att_ok (repair_tx now s)" using inv
    by (auto simp: repair_tx_def db_inv_def att_ok_def att_open_def coalesce_def split: option.splits)
qed (simp_all add: repair_tx_def)

lemma activate_cases:
  assumes "activate_version_tx doc ver tenant now s = Inr t"
  obtains d v where "find (doc_key doc tenant) (docs s) = Some d" "d_status d \<noteq> DDeleted"
    "find (ver_key ver doc tenant) (vers s) = Some v" "v_status v = VStaged \<or> v_status v = VActive"
    "d_active d = Some ver" "t = s"
  | d v vs where "find (doc_key doc tenant) (docs s) = Some d" "d_status d \<noteq> DDeleted"
    "find (ver_key ver doc tenant) (vers s) = Some v" "v_status v = VStaged \<or> v_status v = VActive"
    "d_active d \<noteq> Some ver"
    "vs = (case d_active d of None \<Rightarrow> vers s
       | Some prev \<Rightarrow> upd_where (\<lambda>w. ver_key prev doc tenant w \<and> v_status w = VActive)
            (\<lambda>w. w\<lparr>v_status := VSuperseded\<rparr>) (vers s))"
    "t = s\<lparr>vers := upd_where (\<lambda>w. ver_key ver doc tenant w \<and> (v_status w = VStaged \<or> v_status w = VActive))
             (\<lambda>w. w\<lparr>v_status := VActive, v_activated := coalesce (v_activated w) now\<rparr>) vs,
           docs := upd_where (\<lambda>d. doc_key doc tenant d \<and> d_status d \<noteq> DDeleted)
             (\<lambda>d. d\<lparr>d_active := Some ver, d_status := DIndexed\<rparr>) (docs s)\<rparr>"
proof (cases "find (doc_key doc tenant) (docs s)")
  case None
  with assms show ?thesis by (simp add: activate_version_tx_def)
next
  case (Some d)
  note d = this
  show ?thesis
  proof (cases "find (ver_key ver doc tenant) (vers s)")
    case None
    with assms d show ?thesis by (simp add: activate_version_tx_def split: if_splits)
  next
    case (Some v)
    have ok: "d_status d \<noteq> DDeleted" "v_status v = VStaged \<or> v_status v = VActive"
      using assms d Some by (auto simp: activate_version_tx_def split: if_splits)
    show ?thesis
    proof (cases "d_active d = Some ver")
      case True
      have "t = s" using assms d Some ok True by (auto simp: activate_version_tx_def)
      then show ?thesis using that(1) d Some ok True by blast
    next
      case False
      show ?thesis
        by (rule that(2)[OF d ok(1) Some ok(2) False refl])
          (use assms d Some ok False in \<open>auto simp: activate_version_tx_def upd_one_Inr\<close>)
    qed
  qed
qed

lemma activate_inv:
  assumes "db_inv s" "activate_version_tx doc ver tenant now s = Inr t"
  shows "db_inv t"
  using assms(2)
proof (cases rule: activate_cases)
  case (2 d v vs)
  have keys: "keys_ok s" and act: "active_ok s" and att: "att_ok s" using assms(1) by (simp_all add: db_inv_def)
  have d: "d \<in> set (docs s)" "d_id d = doc" "d_tenant d = tenant"
    using find_SomeD[OF 2(1)] by (auto simp: doc_key_def)
  have v: "v \<in> set (vers s)" "v_id v = ver" "v_doc v = doc" "v_tenant v = tenant"
    using find_SomeD[OF 2(3)] by (auto simp: ver_key_def)
  define F where "F w = (if (case d_active d of None \<Rightarrow> False | Some prev \<Rightarrow> ver_key prev doc tenant w) \<and> v_status w = VActive
      then w\<lparr>v_status := VSuperseded\<rparr> else w)" for w
  define G where "G w = (if ver_key ver doc tenant w \<and> (v_status w = VStaged \<or> v_status w = VActive)
      then w\<lparr>v_status := VActive, v_activated := coalesce (v_activated w) now\<rparr> else w)" for w
  have vs: "vs = map F (vers s)" unfolding 2(6) F_def
    by (cases "d_active d") (auto simp: upd_where_def)
  have vt: "vers t = map (\<lambda>w. G (F w)) (vers s)" unfolding 2(7) vs G_def by (simp add: upd_where_def)
  have same [simp]: "v_id (F w) = v_id w" "v_doc (F w) = v_doc w" "v_id (G w) = v_id w" "v_doc (G w) = v_doc w"
    "ver_skel (F w) = ver_skel w" "ver_skel (G w) = ver_skel w" for w
    by (simp_all add: F_def G_def ver_skel_def)
  show ?thesis
  proof (rule db_invI_skel[OF assms(1)])
    have "map ver_skel (vers t) = map ver_skel (vers s)" by (simp add: vt)
    then show "same_skel s t" by (simp add: 2(7) same_skel_def doc_skel_def)
    have other: "doc_ok (vers t) e" if e: "e \<in> set (docs s)" "d_id e \<noteq> doc" for e
    proof -
      have "G (F w) = w" if "v_doc w = d_id e" for w
        using that e(2) by (auto simp: F_def G_def ver_key_def split: option.splits)
      moreover have "doc_ok (vers s) e" using act e(1) by (simp add: active_ok_def)
      ultimately show ?thesis unfolding vt by (intro doc_ok_other) simp_all
    qed
    have status: "(v_status (G (F w)) = VActive) = (ver = v_id w)"
      if w: "w \<in> set (vers s)" "v_doc w = doc" for w
    proof -
      have ten: "v_tenant w = tenant" using ver_tenant[OF keys w(1) d(1)] w d by simp
      have old: "(v_status w = VActive) = (d_active d = Some (v_id w))"
        using act d w by (simp add: active_ok_def doc_ok_def)
      show ?thesis
      proof (cases "v_id w = ver")
        case True
        then have "w = v" using ver_unique[OF keys w(1) v(1)] v by simp
        then have "F w = w" "v_status w = VStaged" using 2(4,5) old True by (auto simp: F_def)
        then show ?thesis using True w(2) ten by (simp add: G_def ver_key_def)
      next
        case False
        have "v_status (F w) \<noteq> VActive"
          using old w(2) ten by (cases "d_active d") (auto simp: F_def ver_key_def)
        moreover have "G (F w) = F w" using False by (simp add: G_def ver_key_def)
        ultimately show ?thesis using False by simp
      qed
    qed
    have self: "doc_ok (vers t) (d\<lparr>d_active := Some ver, d_status := DIndexed\<rparr>)"
      using status v d by (auto simp: doc_ok_def vt)
    show "active_ok t" unfolding active_ok_def
    proof
      fix e assume "e \<in> set (docs t)"
      then obtain e0 where e0: "e0 \<in> set (docs s)"
        "e = (if doc_key doc tenant e0 \<and> d_status e0 \<noteq> DDeleted then e0\<lparr>d_active := Some ver, d_status := DIndexed\<rparr> else e0)"
        unfolding 2(7) by (auto simp: mem_upd_where)
      show "doc_ok (vers t) e"
      proof (cases "d_id e0 = doc")
        case True
        then have "e0 = d" using doc_unique[OF keys e0(1) d(1)] d by simp
        then show ?thesis using self e0(2) d 2(2) by (simp add: doc_key_def)
      next
        case False
        then show ?thesis using other[OF e0(1)] e0(2) by (simp add: doc_key_def)
      qed
    qed
    show "att_ok t" using att by (simp add: 2(7) att_ok_def)
  qed (simp_all add: 2(7))
qed (use assms in simp)

lemma tombstone_cases:
  assumes "tombstone_tx doc tenant reason s = Inr t"
  obtains d ts where "find (doc_key doc tenant) (docs s) = Some d" "d_status d = DDeleted"
    "t = s\<lparr>tombs := ts, legacy := del_where (\<lambda>r. l_tenant r = tenant \<and> l_filename r = d_filename d \<and> l_version r = None) (legacy s)\<rparr>"
  | d ts where "find (doc_key doc tenant) (docs s) = Some d" "d_status d \<noteq> DDeleted"
    "t = s\<lparr>vers := upd_where (\<lambda>v. v_doc v = doc \<and> v_tenant v = tenant \<and> v_status v = VActive)
             (\<lambda>v. v\<lparr>v_status := VSuperseded\<rparr>) (vers s),
           docs := upd_where (\<lambda>d. doc_key doc tenant d \<and> d_status d \<noteq> DDeleted)
             (\<lambda>d. d\<lparr>d_status := DDeleted, d_active := None\<rparr>) (docs s),
           tombs := ts,
           legacy := del_where (\<lambda>r. l_tenant r = tenant \<and> l_filename r = d_filename d \<and> l_version r = None) (legacy s)\<rparr>"
proof (cases "find (doc_key doc tenant) (docs s)")
  case None
  with assms show ?thesis by (simp add: tombstone_tx_def)
next
  case (Some d)
  show ?thesis
  proof (cases "d_status d = DDeleted")
    case True
    then show ?thesis using assms Some by (auto simp: tombstone_tx_def Let_def intro: that(1))
  next
    case False
    then show ?thesis using assms Some by (auto simp: tombstone_tx_def Let_def intro: that(2))
  qed
qed

lemma tombstone_inv:
  assumes "db_inv s" "tombstone_tx doc tenant reason s = Inr t"
  shows "db_inv t"
  using assms(2)
proof (cases rule: tombstone_cases)
  case (1 d ts)
  show ?thesis using assms(1)
    by (simp add: 1(3) db_inv_def keys_ok_def active_ok_def att_ok_def chunks_ok_def jobs_ok_def)
next
  case (2 d ts)
  have keys: "keys_ok s" and act: "active_ok s" and att: "att_ok s" using assms(1) by (simp_all add: db_inv_def)
  let ?G = "\<lambda>v. if v_doc v = doc \<and> v_tenant v = tenant \<and> v_status v = VActive then v\<lparr>v_status := VSuperseded\<rparr> else v"
  have vt: "vers t = map ?G (vers s)" by (simp add: 2(3) upd_where_def)
  show ?thesis
  proof (rule db_invI_skel[OF assms(1)])
    show "same_skel s t" by (simp add: 2(3) same_skel_def skel_simps)
    show "active_ok t" unfolding active_ok_def
    proof
      fix e assume "e \<in> set (docs t)"
      then obtain e0 where e0: "e0 \<in> set (docs s)"
        "e = (if doc_key doc tenant e0 \<and> d_status e0 \<noteq> DDeleted then e0\<lparr>d_status := DDeleted, d_active := None\<rparr> else e0)"
        unfolding 2(3) by (auto simp: mem_upd_where)
      have ok: "doc_ok (vers s) e0" using act e0(1) by (simp add: active_ok_def)
      have ten: "v_tenant v = d_tenant e0" if "v \<in> set (vers s)" "v_doc v = d_id e0" for v
        using ver_tenant[OF keys that(1) e0(1) that(2)] .
      show "doc_ok (vers t) e"
      proof (cases "doc_key doc tenant e0")
        case True
        then show ?thesis using ok ten e0(2)
          by (cases "d_status e0 = DDeleted") (auto simp: doc_ok_def vt doc_key_def)
      next
        case False
        have "?G v = v" if "v \<in> set (vers s)" "v_doc v = d_id e0" for v
          using ten[OF that] that False by (auto simp: doc_key_def)
        then have "doc_ok (map ?G (vers s)) e0" by (intro doc_ok_other[OF _ _ ok]) auto
        then show ?thesis using False e0(2) by (simp add: vt)
      qed
    qed
    show "att_ok t" using att by (simp add: 2(3) att_ok_def)
  qed (simp_all add: 2(3))
qed

subsection \<open>Registration\<close>

lemma next_number_greater: "n \<in> set ns \<Longrightarrow> n < next_number ns"
proof -
  have "n \<in> set ns \<Longrightarrow> n \<le> foldr max ns 0" by (induction ns) auto
  then show "n \<in> set ns \<Longrightarrow> n < next_number ns" by (simp add: next_number_def)
qed

definition has_doc :: "ident \<Rightarrow> db \<Rightarrow> bool" where
  "has_doc i s = (\<exists>d \<in> set (docs s). d_id d = i_doc i \<and> d_tenant d = i_tenant i)"

definition has_att :: "ident \<Rightarrow> db \<Rightarrow> bool" where
  "has_att i s = (\<exists>a \<in> set (atts s). a_id a = i_att i \<and> a_doc a = i_doc i \<and> a_tenant a = i_tenant i)"

lemma keys_ok_add_att:
  assumes "keys_ok s" "a_id a \<notin> a_id ` set (atts s)" "a_workflow a \<notin> a_workflow ` set (atts s)"
    "(a_doc a, a_number a) \<notin> (\<lambda>a. (a_doc a, a_number a)) ` set (atts s)"
    "\<exists>d \<in> set (docs s). d_id d = a_doc a \<and> d_tenant d = a_tenant a"
  shows "keys_ok (s\<lparr>atts := atts s @ [a]\<rparr>)"
proof -
  have "\<exists>b \<in> set (atts s @ [a]). a_id b = v_attempt v \<and> a_doc b = v_doc v \<and> a_tenant b = v_tenant v"
    if "v \<in> set (vers s)" for v
    using assms(1) that by (fastforce simp: keys_ok_def)
  then show ?thesis using assms by (simp add: keys_ok_def)
qed

lemma keys_ok_add_ver:
  assumes "keys_ok s" "v_id v \<notin> v_id ` set (vers s)"
    "(v_doc v, v_number v) \<notin> (\<lambda>v. (v_doc v, v_number v)) ` set (vers s)"
    "\<exists>a \<in> set (atts s). a_id a = v_attempt v \<and> a_doc a = v_doc v \<and> a_tenant a = v_tenant v"
  shows "keys_ok (s\<lparr>vers := vers s @ [v]\<rparr>)"
  using assms by (simp add: keys_ok_def)

lemma upsert_cases:
  assumes "upsert_document i s = Inr t"
  obtains "find (\<lambda>d. d_id d = i_doc i) (docs s) = None"
    "t = s\<lparr>docs := docs s @ [\<lparr>d_id = i_doc i, d_tenant = i_tenant i, d_filename = i_filename i,
       d_ref = i_ref i, d_sha = i_sha i, d_status = DQueued, d_active = None\<rparr>]\<rparr>"
  | d where "find (\<lambda>d. d_id d = i_doc i) (docs s) = Some d" "d_tenant d = i_tenant i"
    "d_filename d = i_filename i" "d_status d \<noteq> DDeleted"
    "t = s\<lparr>docs := upd_where (\<lambda>d. d_id d = i_doc i)
            (\<lambda>d. d\<lparr>d_ref := i_ref i, d_sha := i_sha i, d_status := requeue (d_status d)\<rparr>) (docs s)\<rparr>"
  using assms by (auto simp: upsert_document_def split: if_splits option.splits)

lemma upsert_inv:
  assumes "db_inv s" "upsert_document i s = Inr t"
  shows "db_inv t \<and> has_doc i t"
  using assms(2)
proof (cases rule: upsert_cases)
  case 1
  have new: "d_id d \<noteq> i_doc i" if "d \<in> set (docs s)" for d using find_NoneD[OF 1(1) that] .
  have keys: "keys_ok s" using assms(1) by (simp add: db_inv_def)
  have nov: "v_doc v \<noteq> i_doc i" if v: "v \<in> set (vers s)" for v
  proof -
    obtain a where "a \<in> set (atts s)" "a_doc a = v_doc v" using keys v by (auto simp: keys_ok_def)
    then obtain d where "d \<in> set (docs s)" "d_id d = v_doc v" using keys by (auto simp: keys_ok_def)
    then show ?thesis using new by metis
  qed
  have "i_doc i \<notin> d_id ` set (docs s)" using new by (rule not_in_imageI)
  then have "keys_ok t" using keys by (simp add: 1(2) keys_ok_def)
  moreover have "active_ok t" using assms(1) nov by (simp add: 1(2) db_inv_def active_ok_def doc_ok_def)
  ultimately show ?thesis using assms(1)
    by (simp add: 1(2) db_inv_def att_ok_def chunks_ok_def jobs_ok_def has_doc_def)
next
  case (2 d)
  have "db_inv t"
  proof (rule db_invI_skel[OF assms(1)])
    show "same_skel s t" by (simp add: 2(5) same_skel_def skel_simps)
    have docs: "docs t = upd_where (\<lambda>d. d_id d = i_doc i)
        (\<lambda>d. d\<lparr>d_ref := i_ref i, d_sha := i_sha i, d_status := requeue (d_status d)\<rparr>) (docs s)"
      and vers: "vers t = vers s" by (simp_all add: 2(5))
    have act: "active_ok s" using assms(1) by (simp add: db_inv_def)
    show "active_ok t"
      by (rule active_ok_docs[OF _ act docs vers]) (auto simp: doc_ok_def requeue_def)
    show "att_ok t" using assms(1) by (simp add: 2(5) db_inv_def att_ok_def)
  qed (simp_all add: 2(5))
  moreover have "has_doc i t" using find_SomeD[OF 2(1)] 2(2)
    by (auto simp: 2(5) has_doc_def)
  ultimately show ?thesis by simp
qed

lemma ensure_attempt_cases:
  assumes "ensure_attempt i s = Inr t"
  obtains "t = s" "has_att i s"
  | n where "find (\<lambda>a. a_workflow a = i_workflow i) (atts s) = None" "\<forall>a \<in> set (atts s). a_id a \<noteq> i_att i"
    "n = next_number (map a_number (filter (\<lambda>a. a_doc a = i_doc i \<and> a_tenant a = i_tenant i) (atts s)))"
    "t = s\<lparr>atts := atts s @ [\<lparr>a_id = i_att i, a_doc = i_doc i, a_tenant = i_tenant i,
            a_workflow = i_workflow i, a_number = n, a_status = AQueued, a_stage = None,
            a_error = None, a_started = None, a_finished = None\<rparr>]\<rparr>"
proof (cases "find (\<lambda>a. a_workflow a = i_workflow i) (atts s)")
  case (Some a)
  with assms have "t = s" "a_id a = i_att i" "a_doc a = i_doc i" "a_tenant a = i_tenant i"
    by (auto simp: ensure_attempt_def split: if_splits)
  moreover have "a \<in> set (atts s)" using find_SomeD[OF Some] by simp
  ultimately have "t = s" "has_att i s" by (auto simp: has_att_def)
  then show ?thesis by (rule that(1))
next
  case None
  then show ?thesis using assms by (intro that(2)[OF None _ refl]) (auto simp: ensure_attempt_def split: if_splits)
qed

lemma ensure_attempt_inv:
  assumes "db_inv s" "has_doc i s" "ensure_attempt i s = Inr t"
  shows "db_inv t \<and> has_att i t \<and> docs t = docs s \<and> vers t = vers s"
  using assms(3)
proof (cases rule: ensure_attempt_cases)
  case (2 n)
  have keys: "keys_ok s" using assms(1) by (simp add: db_inv_def)
  have "(a_doc a, a_number a) \<noteq> (i_doc i, n)" if a: "a \<in> set (atts s)" for a
  proof
    assume eq: "(a_doc a, a_number a) = (i_doc i, n)"
    obtain e where e: "e \<in> set (docs s)" "d_id e = a_doc a" "d_tenant e = a_tenant a"
      using keys a by (auto simp: keys_ok_def)
    obtain d where d: "d \<in> set (docs s)" "d_id d = i_doc i" "d_tenant d = i_tenant i"
      using assms(2) by (auto simp: has_doc_def)
    have "e = d" using doc_unique[OF keys e(1) d(1)] e d eq by simp
    then have "a_tenant a = i_tenant i" using d e by simp
    then have "a_number a < n" unfolding 2(3) using a eq by (intro next_number_greater) auto
    then show False using eq by simp
  qed
  then have num: "(i_doc i, n) \<notin> (\<lambda>a. (a_doc a, a_number a)) ` set (atts s)" by (rule not_in_imageI)
  have wf: "i_workflow i \<notin> a_workflow ` set (atts s)" using find_NoneD[OF 2(1)] by (rule not_in_imageI)
  have ids: "i_att i \<notin> a_id ` set (atts s)" using 2(2) by (intro not_in_imageI) simp
  have "keys_ok t" unfolding 2(4)
    by (rule keys_ok_add_att[OF keys]) (use num wf ids assms(2) in \<open>simp_all add: has_doc_def\<close>)
  moreover have "att_ok t" using assms(1) by (simp add: 2(4) db_inv_def att_ok_def att_open_def)
  ultimately show ?thesis using assms(1)
    by (simp add: 2(4) db_inv_def active_ok_def chunks_ok_def jobs_ok_def has_att_def)
qed (use assms in simp)

lemma ensure_version_cases:
  assumes "ensure_version i s = Inr t"
  obtains "t = s"
  | n where "find (\<lambda>v. v_id v = i_ver i) (vers s) = None"
    "n = next_number (map v_number (filter (\<lambda>v. v_doc v = i_doc i \<and> v_tenant v = i_tenant i) (vers s)))"
    "t = s\<lparr>vers := vers s @ [\<lparr>v_id = i_ver i, v_doc = i_doc i, v_tenant = i_tenant i,
            v_attempt = i_att i, v_number = n, v_sha = i_sha i, v_ref = i_ref i,
            v_status = VStaged, v_chunks = 0, v_activated = None\<rparr>]\<rparr>"
  using assms by (auto simp: ensure_version_def split: option.splits if_splits)

lemma ensure_version_inv:
  assumes "db_inv s" "has_att i s" "ensure_version i s = Inr t"
  shows "db_inv t"
  using assms(3)
proof (cases rule: ensure_version_cases)
  case (2 n)
  have keys: "keys_ok s" using assms(1) by (simp add: db_inv_def)
  obtain d where d: "d \<in> set (docs s)" "d_id d = i_doc i" "d_tenant d = i_tenant i"
    using assms(2) keys by (auto simp: has_att_def keys_ok_def)
  have new: "v_id v \<noteq> i_ver i" if "v \<in> set (vers s)" for v using find_NoneD[OF 2(1) that] .
  have "(v_doc v, v_number v) \<noteq> (i_doc i, n)" if v: "v \<in> set (vers s)" for v
  proof
    assume eq: "(v_doc v, v_number v) = (i_doc i, n)"
    have "v_tenant v = i_tenant i" using ver_tenant[OF keys v d(1)] d eq by simp
    then have "v_number v < n" unfolding 2(2) using v eq by (intro next_number_greater) auto
    then show False using eq by simp
  qed
  then have num: "(i_doc i, n) \<notin> (\<lambda>v. (v_doc v, v_number v)) ` set (vers s)" by (rule not_in_imageI)
  have ids: "i_ver i \<notin> v_id ` set (vers s)" using new by (rule not_in_imageI)
  have "keys_ok t" unfolding 2(3)
    by (rule keys_ok_add_ver[OF keys]) (use num ids assms(2) in \<open>simp_all add: has_att_def\<close>)
  moreover have "active_ok t" unfolding active_ok_def
  proof
    fix e assume "e \<in> set (docs t)"
    then have "doc_ok (vers s) e" using assms(1) by (simp add: 2(3) db_inv_def active_ok_def)
    then show "doc_ok (vers t) e" using new by (force simp: 2(3) doc_ok_def)
  qed
  ultimately show ?thesis using assms(1)
    by (auto simp: 2(3) db_inv_def att_ok_def chunks_ok_def jobs_ok_def)
qed (use assms in simp)

lemma register_inv:
  assumes "db_inv s" "register_ingestion_sync i s = Inr t"
  shows "db_inv t"
proof -
  obtain s1 s2 where s: "upsert_document i s = Inr s1" "ensure_attempt i s1 = Inr s2" "ensure_version i s2 = Inr t"
    using assms(2) by (auto simp: register_ingestion_sync_def)
  have "db_inv s1 \<and> has_doc i s1" by (rule upsert_inv[OF assms(1) s(1)])
  then have "db_inv s2 \<and> has_att i s2" using ensure_attempt_inv[OF _ _ s(2)] by blast
  then show ?thesis using ensure_version_inv[OF _ _ s(3)] by blast
qed

subsection \<open>Chunks and jobs\<close>

lemma upsert_vchunk_keys:
  assumes "distinct (map chunk_key rs)"
  shows "distinct (map chunk_key (upsert_vchunk r rs))"
proof (cases "\<exists>q \<in> set rs. vchunk_conflict r q")
  case True
  then show ?thesis using assms by (simp add: upsert_vchunk_def map_upd_where chunk_key_def)
next
  case False
  then have "chunk_key r \<notin> chunk_key ` set rs" by (auto simp: chunk_key_def vchunk_conflict_def)
  then show ?thesis using False assms by (simp add: upsert_vchunk_def)
qed

lemma upsert_vchunk_owner:
  assumes "\<forall>q \<in> set rs. P (c_version q) (c_doc q) (c_tenant q)" "P (c_version r) (c_doc r) (c_tenant r)"
  shows "\<forall>q \<in> set (upsert_vchunk r rs). P (c_version q) (c_doc q) (c_tenant q)"
  using assms by (simp add: upsert_vchunk_def)

lemma insert_vchunks_ok:
  assumes "insert_vchunks s tenant doc ver filename idx cs rs = Inr qs" "distinct (map chunk_key rs)"
    "\<forall>r \<in> set rs. \<exists>v \<in> set (vers s). ver_key (c_version r) (c_doc r) (c_tenant r) v"
  shows "distinct (map chunk_key qs) \<and>
    (\<forall>r \<in> set qs. \<exists>v \<in> set (vers s). ver_key (c_version r) (c_doc r) (c_tenant r) v)"
  using assms
proof (induction cs arbitrary: idx rs)
  case (Cons c cs)
  let ?r = "vchunk_of tenant doc ver filename idx c"
  from Cons.prems(1) have ok: "\<exists>v \<in> set (vers s). ver_key ver doc tenant v"
    and step: "insert_vchunks s tenant doc ver filename (idx + 1) cs (upsert_vchunk ?r rs) = Inr qs"
    by (auto split: if_splits)
  have "\<forall>q \<in> set (upsert_vchunk ?r rs). \<exists>v \<in> set (vers s). ver_key (c_version q) (c_doc q) (c_tenant q) v"
    by (rule upsert_vchunk_owner[OF Cons.prems(3)]) (use ok in \<open>simp add: vchunk_of_def\<close>)
  then show ?case using Cons.IH[OF step upsert_vchunk_keys[OF Cons.prems(2)]] by blast
qed simp

lemma distinct_map_del: "distinct (map f rs) \<Longrightarrow> distinct (map f (del_where p rs))"
  by (simp add: del_where_def distinct_map_filter)

lemma persist_inv:
  assumes "db_inv s" "persist_chunks_sync chunks filename tenant identity s = Inr t"
  shows "db_inv t"
proof (cases identity)
  case None
  then show ?thesis using assms
    by (auto simp: persist_chunks_sync_def db_inv_def keys_ok_def active_ok_def att_ok_def chunks_ok_def jobs_ok_def)
next
  case (Some dv)
  obtain doc ver where dv: "dv = (doc, ver)" by (cases dv)
  let ?rs = "del_where (\<lambda>r. c_tenant r = tenant \<and> c_doc r = doc \<and> c_version r = ver) (vchunks s)"
  let ?p = "\<lambda>v. ver_key ver doc tenant v \<and> v_status v = VStaged"
  obtain cs where cs: "insert_vchunks s tenant doc ver filename 0 chunks ?rs = Inr cs"
    and t: "t = s\<lparr>vchunks := cs, vers := upd_where ?p (\<lambda>v. v\<lparr>v_chunks := int (length chunks)\<rparr>) (vers s)\<rparr>"
    using assms(2) Some dv by (auto simp: persist_chunks_sync_def persist_version_chunks_tx_def upd_one_Inr)
  have chunks: "chunks_ok s" using assms(1) by (simp add: db_inv_def)
  have "distinct (map chunk_key cs) \<and>
      (\<forall>r \<in> set cs. \<exists>v \<in> set (vers s). ver_key (c_version r) (c_doc r) (c_tenant r) v)"
    by (rule insert_vchunks_ok[OF cs])
      (use chunks in \<open>auto simp: chunks_ok_def distinct_map_del set_del_where\<close>)
  moreover have skel: "same_skel s t" by (simp add: t same_skel_def skel_simps)
  moreover have "vchunks t = cs" by (simp add: t)
  ultimately have "chunks_ok t" using owner_skel[OF skel] by (simp add: chunks_ok_def)
  moreover have "keys_ok t" using keys_ok_skel[OF skel] assms(1) by (simp add: db_inv_def)
  moreover have "doc_ok (vers t) d = doc_ok (vers s) d" for d unfolding t
    by (simp, rule doc_ok_vers) auto
  then have "active_ok t" using assms(1) by (simp add: t db_inv_def active_ok_def)
  ultimately show ?thesis using assms(1) by (simp add: t db_inv_def att_ok_def jobs_ok_def)
qed

lemma db_inv_jobs: "db_inv s \<Longrightarrow> jobs_ok (s\<lparr>jobs := js\<rparr>) \<Longrightarrow> db_inv (s\<lparr>jobs := js\<rparr>)"
  by (simp add: db_inv_def keys_ok_def active_ok_def att_ok_def chunks_ok_def)

lemma save_job_inv:
  assumes "db_inv s" "save_textract_job_sync ver token job status s = Inr t"
  shows "db_inv t"
proof (cases "find (\<lambda>j. j_version j = ver) (jobs s)")
  case None
  have new: "ver \<notin> j_version ` set (jobs s)" using find_NoneD[OF None] by (rule not_in_imageI)
  from None have tok: "token \<notin> j_token ` set (jobs s)"
    and t: "t = s\<lparr>jobs := jobs s @ [\<lparr>j_version = ver, j_token = token, j_job = job, j_status = status, j_completed = None\<rparr>]\<rparr>"
    using assms(2) by (auto simp: save_textract_job_sync_def split: if_splits)
  show ?thesis unfolding t
    by (rule db_inv_jobs[OF assms(1)]) (use assms(1) new tok in \<open>simp add: db_inv_def jobs_ok_def\<close>)
next
  case (Some j)
  then show ?thesis using assms by (auto simp: save_textract_job_sync_def split: if_splits)
qed

lemma set_job_cases:
  assumes "set_textract_job_status_sync ver job status now s = Inr t"
  obtains "t = s"
  | "t = s\<lparr>jobs := upd_where (\<lambda>j. j_version j = ver \<and> j_job j = job \<and> j_status j \<noteq> status)
        (\<lambda>j. j\<lparr>j_status := status, j_completed :=
          (if status = ''succeeded'' \<or> status = ''failed'' then Some now else j_completed j)\<rparr>) (jobs s)\<rparr>"
  using assms unfolding set_textract_job_status_sync_def
  by (simp only: split: if_splits) simp_all

lemma set_job_inv:
  assumes "db_inv s" "set_textract_job_status_sync ver job status now s = Inr t"
  shows "db_inv t"
  using assms(2)
proof (cases rule: set_job_cases)
  case 2
  show ?thesis unfolding 2
    by (rule db_inv_jobs[OF assms(1)])
      (use assms(1) in \<open>simp add: db_inv_def jobs_ok_def map_upd_where\<close>)
qed (use assms(1) in simp)

lemma run_op_inv: "db_inv s \<Longrightarrow> run_op p s = Inr t \<Longrightarrow> db_inv t"
  by (cases p; simp only: run_op.simps sum.inject)
    (blast intro: register_inv stage_inv finish_inv activate_inv tombstone_inv repair_inv persist_inv
       save_job_inv set_job_inv)+

interpretation idb: tx_system run_op db_inv
  by unfold_locales (rule run_op_inv)

lemma db_reach_inv: "db_reach s \<Longrightarrow> db_inv s"
  by (induction rule: db_reach.induct) (auto intro: db_inv_empty run_op_inv)

end
