(* ===== verification/Ingestion_Props.thy ===== *)
theory Ingestion_Props
  imports Ingestion_Inv
begin

text \<open>
  What the ingestion transactions achieve: the publication refinement, permanence of deletion,
  exact effect of activation, registration, chunk persistence and job correlation, and the
  safety of the artifact janitor.
\<close>

section \<open>The abstract publication state\<close>

datatype pub = Absent | Live "string option" | Deleted

definition pub_of :: "doc_row \<Rightarrow> pub" where
  "pub_of d = (if d_status d = DDeleted then Deleted else Live (d_active d))"

definition abs_db :: "db \<Rightarrow> string \<Rightarrow> pub" where
  "abs_db s doc = (case find (\<lambda>d. d_id d = doc) (docs s) of None \<Rightarrow> Absent | Some d \<Rightarrow> pub_of d)"

fun spec_op :: "db_op \<Rightarrow> (string \<Rightarrow> pub) \<Rightarrow> (string \<Rightarrow> pub)" where
  "spec_op (OpRegister i) A = (if A (i_doc i) = Absent then A(i_doc i := Live None) else A)"
| "spec_op (OpActivate doc ver tenant now) A = A(doc := Live (Some ver))"
| "spec_op (OpTombstone doc tenant reason) A = A(doc := Deleted)"
| "spec_op _ A = A"

lemma abs_db_live:
  "abs_db s doc = Live x \<longleftrightarrow>
     (\<exists>d. find (\<lambda>d. d_id d = doc) (docs s) = Some d \<and> d_status d \<noteq> DDeleted \<and> d_active d = x)"
  by (auto simp: abs_db_def pub_of_def split: option.splits)

lemma abs_db_docs: "docs t = docs s \<Longrightarrow> abs_db t = abs_db s"
  by (simp add: abs_db_def fun_eq_iff)

lemma abs_db_upd:
  assumes "docs t = upd_where p f (docs s)" "\<And>d. d_id (f d) = d_id d"
    "\<And>d. d \<in> set (docs s) \<Longrightarrow> p d \<Longrightarrow> pub_of (f d) = pub_of d"
  shows "abs_db t = abs_db s"
proof
  fix doc
  show "abs_db t doc = abs_db s doc"
  proof (cases "find (\<lambda>d. d_id d = doc) (docs s)")
    case None
    then show ?thesis by (simp add: abs_db_def assms(1) find_upd_where[of d_id f, OF assms(2)])
  next
    case (Some d)
    then have "pub_of (if p d then f d else d) = pub_of d" using assms(3) find_SomeD by fastforce
    then show ?thesis using Some by (simp add: abs_db_def assms(1) find_upd_where[of d_id f, OF assms(2)])
  qed
qed

lemma find_doc_key:
  assumes "keys_ok s" "find (doc_key doc tenant) (docs s) = Some d"
  shows "find (\<lambda>d. d_id d = doc) (docs s) = Some d"
  using assms find_SomeD[OF assms(2)] find_cong_unique[of d_id "docs s" doc d]
  by (simp add: keys_ok_def doc_key_def)

lemma abs_db_set:
  assumes "keys_ok s" "find (doc_key doc tenant) (docs s) = Some d" "d_status d \<noteq> DDeleted"
    "docs t = upd_where (\<lambda>d. doc_key doc tenant d \<and> d_status d \<noteq> DDeleted) f (docs s)"
    "\<And>d. d_id (f d) = d_id d" "pub_of (f d) = x"
  shows "abs_db t = (abs_db s)(doc := x)"
proof
  fix e
  have d: "d_id d = doc" "doc_key doc tenant d" using find_SomeD[OF assms(2)] by (auto simp: doc_key_def)
  show "abs_db t e = ((abs_db s)(doc := x)) e"
  proof (cases "e = doc")
    case True
    then show ?thesis using d assms(3,6) find_doc_key[OF assms(1,2)]
      by (simp add: abs_db_def assms(4) find_upd_where[of d_id f, OF assms(5)])
  next
    case False
    then show ?thesis
      using find_SomeD[of "\<lambda>d. d_id d = e" "docs s"]
      by (cases "find (\<lambda>d. d_id d = e) (docs s)")
        (auto simp: abs_db_def assms(4) find_upd_where[of d_id f, OF assms(5)] doc_key_def)
  qed
qed

lemma sim_register:
  assumes "db_inv s" "register_ingestion_sync i s = Inr t"
  shows "abs_db t = spec_op (OpRegister i) (abs_db s)"
proof -
  obtain s1 s2 where s: "upsert_document i s = Inr s1" "ensure_attempt i s1 = Inr s2" "ensure_version i s2 = Inr t"
    using assms(2) by (auto simp: register_ingestion_sync_def)
  have "docs s2 = docs s1" using s(2) by (cases rule: ensure_attempt_cases) simp_all
  moreover have "docs t = docs s2" using s(3) by (cases rule: ensure_version_cases) simp_all
  ultimately have t: "abs_db t = abs_db s1" by (intro abs_db_docs) simp
  show ?thesis using s(1)
  proof (cases rule: upsert_cases)
    case 1
    then show ?thesis unfolding t by (auto simp: abs_db_def fun_eq_iff find_append pub_of_def split: option.splits)
  next
    case (2 d)
    have "docs s1 = upd_where (\<lambda>d. d_id d = i_doc i)
        (\<lambda>d. d\<lparr>d_ref := i_ref i, d_sha := i_sha i, d_status := requeue (d_status d)\<rparr>) (docs s)"
      by (simp add: 2(5))
    then have "abs_db s1 = abs_db s" by (rule abs_db_upd) (auto simp: pub_of_def requeue_def)
    moreover have "abs_db s (i_doc i) \<noteq> Absent" using 2(1) by (simp add: abs_db_def pub_of_def)
    ultimately show ?thesis unfolding t by simp
  qed
qed

lemma stage_docs:
  "update_ingestion_stage_sync doc att tenant stage now s = Inr t \<Longrightarrow>
   docs t = upd_where (\<lambda>d. doc_key doc tenant d \<and> (d_status d = DQueued \<or> d_status d = DProcessing))
     (\<lambda>d. d\<lparr>d_status := DProcessing\<rparr>) (docs s)"
  by (auto simp: update_ingestion_stage_sync_def upd_one_Inr split: if_splits)

lemma sim_fail:
  assumes "fail_version doc ver tenant st s = Inr t"
  shows "abs_db t = abs_db s"
  using assms
proof (cases rule: fail_version_cases)
  case 2
  have "docs t = upd_where (\<lambda>d. doc_key doc tenant d \<and> d_status d = DProcessing)
      (\<lambda>d. d\<lparr>d_status := (if st = AFailed then DFailed else DQueued)\<rparr>) (docs s)" by (simp add: 2(3))
  then show ?thesis by (rule abs_db_upd) (auto simp: pub_of_def)
qed simp

lemma sim_finish:
  assumes "finish_ingestion_attempt_sync doc att ver tenant status err now s = Inr t"
  shows "abs_db t = abs_db s"
  using assms
proof (cases rule: finish_cases)
  case (2 st s')
  have "abs_db s' = abs_db s" by (rule abs_db_docs) (simp add: 2(2))
  then show ?thesis using 2(3) sim_fail by metis
qed simp

lemma sim_activate:
  assumes "db_inv s" "activate_version_tx doc ver tenant now s = Inr t"
  shows "abs_db t = (abs_db s)(doc := Live (Some ver))"
  using assms(2)
proof (cases rule: activate_cases)
  case (1 d v)
  have "find (\<lambda>d. d_id d = doc) (docs s) = Some d"
    using assms(1) 1(1) by (intro find_doc_key) (simp_all add: db_inv_def)
  then have "abs_db s doc = Live (Some ver)" using 1(2,5) by (simp add: abs_db_def pub_of_def)
  then show ?thesis using 1(6) by auto
next
  case (2 d v vs)
  have "keys_ok s" using assms(1) by (simp add: db_inv_def)
  moreover have "docs t = upd_where (\<lambda>d. doc_key doc tenant d \<and> d_status d \<noteq> DDeleted)
      (\<lambda>d. d\<lparr>d_active := Some ver, d_status := DIndexed\<rparr>) (docs s)" by (simp add: 2(7))
  ultimately show ?thesis by (rule abs_db_set[OF _ 2(1,2)]) (simp_all add: pub_of_def)
qed

lemma sim_tombstone:
  assumes "db_inv s" "tombstone_tx doc tenant reason s = Inr t"
  shows "abs_db t = (abs_db s)(doc := Deleted)"
  using assms(2)
proof (cases rule: tombstone_cases)
  case (1 d ts)
  have "find (\<lambda>d. d_id d = doc) (docs s) = Some d"
    using assms(1) 1(1) by (intro find_doc_key) (simp_all add: db_inv_def)
  then have "abs_db s doc = Deleted" using 1(2) by (simp add: abs_db_def pub_of_def)
  moreover have "abs_db t = abs_db s" by (rule abs_db_docs) (simp add: 1(3))
  ultimately show ?thesis by auto
next
  case (2 d ts)
  have "keys_ok s" using assms(1) by (simp add: db_inv_def)
  moreover have "docs t = upd_where (\<lambda>d. doc_key doc tenant d \<and> d_status d \<noteq> DDeleted)
      (\<lambda>d. d\<lparr>d_status := DDeleted, d_active := None\<rparr>) (docs s)" by (simp add: 2(3))
  ultimately show ?thesis by (rule abs_db_set[OF _ 2(1,2)]) (simp_all add: pub_of_def)
qed

lemma persist_docs: "persist_chunks_sync chunks filename tenant identity s = Inr t \<Longrightarrow> docs t = docs s"
  by (auto simp: persist_chunks_sync_def persist_version_chunks_tx_def split: option.splits)

lemma save_job_docs: "save_textract_job_sync ver token job status s = Inr t \<Longrightarrow> docs t = docs s"
  by (auto simp: save_textract_job_sync_def split: option.splits if_splits)

lemma set_job_docs: "set_textract_job_status_sync ver job status now s = Inr t \<Longrightarrow> docs t = docs s"
  unfolding set_textract_job_status_sync_def by (simp only: split: if_splits) auto

lemma run_op_sim: "db_inv s \<Longrightarrow> run_op p s = Inr t \<Longrightarrow> abs_db t = spec_op p (abs_db s)"
proof (cases p)
  case (OpStage doc att tenant stage now)
  assume "run_op p s = Inr t"
  then have "abs_db t = abs_db s" unfolding OpStage run_op.simps
    by (intro abs_db_upd[OF stage_docs]) (auto simp: pub_of_def)
  then show ?thesis by (simp add: OpStage)
next
  case (OpRepair now)
  assume "run_op p s = Inr t"
  then show ?thesis unfolding OpRepair by (auto intro: abs_db_docs simp: repair_tx_def)
qed (simp_all only: run_op.simps spec_op.simps sim_register sim_finish sim_activate sim_tombstone
      abs_db_docs[OF persist_docs] abs_db_docs[OF save_job_docs] abs_db_docs[OF set_job_docs])

interpretation pubs: tx_refinement run_op db_inv abs_db spec_op
  by unfold_locales (rule run_op_sim)

lemma abs_empty: "abs_db empty_db = (\<lambda>_. Absent)"
  by (simp add: abs_db_def empty_db_def fun_eq_iff)

lemma spec_deleted_stable: "db_inv s \<Longrightarrow> abs_db s doc = Deleted \<Longrightarrow> run_op p s = Inr t \<Longrightarrow> abs_db t doc = Deleted"
proof -
  assume inv: "db_inv s" and del: "abs_db s doc = Deleted" and run: "run_op p s = Inr t"
  have t: "abs_db t = spec_op p (abs_db s)" using run_op_sim[OF inv run] .
  show ?thesis
  proof (cases p)
    case (OpActivate doc' ver tenant now)
    have "doc' \<noteq> doc"
    proof
      assume "doc' = doc"
      with run obtain d where d: "find (doc_key doc tenant) (docs s) = Some d" "d_status d \<noteq> DDeleted"
        unfolding OpActivate run_op.simps by (auto elim: activate_cases)
      have "find (\<lambda>d. d_id d = doc) (docs s) = Some d"
        using inv d(1) by (intro find_doc_key) (simp_all add: db_inv_def)
      with del d(2) show False by (simp add: abs_db_def pub_of_def)
    qed
    then show ?thesis using t del by (simp add: OpActivate)
  qed (use t del in auto)
qed

text \<open>Publication states in the order in which a document passes through them; versions that replace each other are level.\<close>

instantiation pub :: preorder
begin

fun pub_rank :: "pub \<Rightarrow> nat" where
  "pub_rank Absent = 0"
| "pub_rank (Live None) = 1"
| "pub_rank (Live (Some v)) = 2"
| "pub_rank Deleted = 3"

definition less_eq_pub :: "pub \<Rightarrow> pub \<Rightarrow> bool" where
  "less_eq_pub x y = (pub_rank x \<le> pub_rank y)"

definition less_pub :: "pub \<Rightarrow> pub \<Rightarrow> bool" where
  "less_pub x y = (pub_rank x < pub_rank y)"

instance
  by intro_classes (auto simp: less_eq_pub_def less_pub_def)

end

fun_cases pub_rank_topE: "pub_rank x = 3"

lemma deleted_top: "Deleted \<le> x \<Longrightarrow> x = Deleted"
proof -
  have "pub_rank x \<le> 3" by (cases x rule: pub_rank.cases) simp_all
  moreover assume "Deleted \<le> x"
  ultimately have "pub_rank x = 3" by (simp add: less_eq_pub_def)
  then show ?thesis by (rule pub_rank_topE)
qed

lemma publication_progress:
  assumes "db_inv s" "run_op p s = Inr t"
  shows "abs_db s doc \<le> abs_db t doc"
proof (cases "abs_db s doc = Deleted")
  case True
  then show ?thesis using spec_deleted_stable[OF assms(1) _ assms(2)] by simp
next
  case False
  then have "abs_db s doc \<le> spec_op p (abs_db s) doc"
    by (cases p; cases "abs_db s doc" rule: pub_rank.cases) (auto simp: less_eq_pub_def)
  then show ?thesis using run_op_sim[OF assms] by simp
qed

lemma publication_progresses: "db_inv s \<Longrightarrow> abs_db s doc \<le> abs_db (run_all run_op ops s) doc"
proof (induction ops arbitrary: s)
  case (Cons p ops)
  have inv: "db_inv (commit run_op p s)" using Cons.prems run_op_inv by (auto simp: commit_def split: sum.split)
  have "abs_db s doc \<le> abs_db (commit run_op p s) doc"
    using publication_progress[OF Cons.prems] by (auto simp: commit_def split: sum.split)
  also have "\<dots> \<le> abs_db (run_all run_op ops (commit run_op p s)) doc" by (rule Cons.IH[OF inv])
  finally show ?case by simp
qed simp

section \<open>Functional lemmas\<close>

lemma upsert_again:
  assumes "upsert_document i s = Inr t"
  shows "upsert_document i t = Inr t"
proof -
  have sha: "sha_ok (i_sha i)" using assms by (simp add: upsert_document_def split: if_splits)
  show ?thesis using assms
  proof (cases rule: upsert_cases)
    case 1
    let ?new = "\<lparr>d_id = i_doc i, d_tenant = i_tenant i, d_filename = i_filename i,
       d_ref = i_ref i, d_sha = i_sha i, d_status = DQueued, d_active = None\<rparr>"
    have "find (\<lambda>d. d_id d = i_doc i) (docs t) = Some ?new" by (simp add: 1 find_append)
    moreover have "upd_where (\<lambda>d. d_id d = i_doc i)
        (\<lambda>d. d\<lparr>d_ref := i_ref i, d_sha := i_sha i, d_status := requeue (d_status d)\<rparr>) (docs t) = docs t"
      using find_NoneD[OF 1(1)] by (auto simp: 1(2) upd_where_def requeue_def intro: map_idI)
    ultimately show ?thesis using sha by (simp add: upsert_document_def 1(2))
  next
    case (2 d)
    let ?f = "\<lambda>d. d\<lparr>d_ref := i_ref i, d_sha := i_sha i, d_status := requeue (d_status d)\<rparr>"
    have docs: "docs t = upd_where (\<lambda>d. d_id d = i_doc i) ?f (docs s)" by (simp add: 2(5))
    have d: "d_id d = i_doc i" using find_SomeD[OF 2(1)] by simp
    have "find (\<lambda>d. d_id d = i_doc i) (docs t) = Some (?f d)"
      unfolding docs using 2(1) d by (subst find_upd_where[of d_id]) simp_all
    moreover have "upd_where (\<lambda>d. d_id d = i_doc i) ?f (docs t) = docs t"
      by (auto simp: docs upd_where_def requeue_def)
    moreover have "d_status (?f d) \<noteq> DDeleted" using 2(4) by (simp add: requeue_def)
    ultimately show ?thesis using sha 2(2,3) by (simp add: upsert_document_def 2(5))
  qed
qed

lemma ensure_attempt_again:
  assumes "ensure_attempt i s = Inr t" "atts u = atts t"
  shows "ensure_attempt i u = Inr u"
  using assms(1)
proof (cases rule: ensure_attempt_cases)
  case 1
  have "ensure_attempt i s = Inr s" using assms(1) 1(1) by simp
  then obtain a where "find (\<lambda>a. a_workflow a = i_workflow i) (atts s) = Some a"
    "a_id a = i_att i" "a_doc a = i_doc i" "a_tenant a = i_tenant i"
    by (auto simp: ensure_attempt_def dest: arg_cong[where f = atts] split: option.splits if_splits)
  then show ?thesis using assms(2) 1(1) by (simp add: ensure_attempt_def)
next
  case (2 n)
  then show ?thesis by (simp add: ensure_attempt_def assms(2) find_append)
qed

lemma ensure_version_again:
  assumes "ensure_version i s = Inr t"
  shows "ensure_version i t = Inr t"
  using assms
proof (cases rule: ensure_version_cases)
  case (2 n)
  then show ?thesis by (simp add: ensure_version_def find_append)
qed (use assms in simp)

lemma insert_vchunks_exact:
  assumes "insert_vchunks s tenant doc ver filename idx cs rs = Inr qs"
    "\<And>q. q \<in> set rs \<Longrightarrow> c_tenant q = tenant \<Longrightarrow> c_version q = ver \<Longrightarrow> c_index q < idx"
  shows "qs = rs @ map2 (vchunk_of tenant doc ver filename) [idx..idx + int (length cs) - 1] cs"
  using assms
proof (induction cs arbitrary: idx rs)
  case (Cons c cs)
  let ?r = "vchunk_of tenant doc ver filename idx c"
  have "\<not> (\<exists>q \<in> set rs. vchunk_conflict ?r q)"
    using Cons.prems(2) by (fastforce simp: vchunk_conflict_def vchunk_of_def)
  then have ups: "upsert_vchunk ?r rs = rs @ [?r]" by (simp add: upsert_vchunk_def)
  have step: "insert_vchunks s tenant doc ver filename (idx + 1) cs (rs @ [?r]) = Inr qs"
    using Cons.prems(1) ups by (auto split: if_splits)
  have "qs = (rs @ [?r]) @ map2 (vchunk_of tenant doc ver filename) [idx + 1..idx + 1 + int (length cs) - 1] cs"
  proof (rule Cons.IH[OF step])
    fix q assume "q \<in> set (rs @ [?r])" "c_tenant q = tenant" "c_version q = ver"
    then consider "q \<in> set rs" | "q = ?r" by auto
    then show "c_index q < idx + 1"
      using Cons.prems(2)[of q] \<open>c_tenant q = tenant\<close> \<open>c_version q = ver\<close>
      by cases (auto simp: vchunk_of_def)
  qed
  moreover have "[idx..idx + int (length (c # cs)) - 1] = idx # [idx + 1..idx + 1 + int (length cs) - 1]"
    by (subst upto_rec1) (simp_all add: algebra_simps)
  ultimately show ?case by simp
qed simp

lemma expired_mem:
  "(tenant, doc, ver) \<in> set (expired_artifact_identities_sync before live s) \<longleftrightarrow>
    (\<exists>a \<in> set (atts s). \<exists>d \<in> set (docs s). \<exists>v \<in> set (vers s).
      (a_status a = AFailed \<or> a_status a = ACancelled) \<and> (\<exists>x. a_finished a = Some x \<and> x < before) \<and>
      a_workflow a \<notin> set live \<and> d_id d = a_doc a \<and> d_tenant d = a_tenant a \<and> v_attempt v = a_id a \<and>
      v_doc v = a_doc a \<and> v_tenant v = a_tenant a \<and> v_status v = VFailed \<and> d_active d \<noteq> Some (v_id v) \<and>
      tenant = d_tenant d \<and> doc = d_id d \<and> ver = v_id v)"
  unfolding expired_artifact_identities_sync_def expired_join_def
  by (fastforce split: option.splits if_splits)

lemma get_job_stable:
  assumes "get_textract_job_sync ver s = Some job" "run_op p s = Inr t"
  shows "get_textract_job_sync ver t = Some job"
proof -
  have eq: "get_textract_job_sync ver t = get_textract_job_sync ver s" if "jobs t = jobs s"
    using that by (simp add: get_textract_job_sync_def)
  show ?thesis
  proof (cases p)
    case (OpSaveJob v token j status)
    have "jobs t = jobs s \<or> (\<exists>r. jobs t = jobs s @ [r])"
      using assms(2) unfolding OpSaveJob run_op.simps save_textract_job_sync_def
      by (auto split: option.splits if_splits)
    then show ?thesis using assms(1) by (auto simp: get_textract_job_sync_def find_append)
  next
    case (OpSetJob v j status now)
    from assms(2) have "set_textract_job_status_sync v j status now s = Inr t" by (simp add: OpSetJob)
    then show ?thesis
    proof (cases rule: set_job_cases)
      case 2
      obtain r where "find (\<lambda>j. j_version j = ver) (jobs s) = Some r" "j_job r = job"
        using assms(1) by (auto simp: get_textract_job_sync_def)
      then show ?thesis unfolding 2
        by (simp add: get_textract_job_sync_def find_upd_where[of j_version])
    qed (use assms(1) in simp)
  next
    case (OpRegister i)
    obtain s1 s2 where s: "upsert_document i s = Inr s1" "ensure_attempt i s1 = Inr s2" "ensure_version i s2 = Inr t"
      using assms(2) unfolding OpRegister by (auto simp: register_ingestion_sync_def)
    have "jobs s1 = jobs s" using s(1) by (cases rule: upsert_cases) simp_all
    moreover have "jobs s2 = jobs s1" using s(2) by (cases rule: ensure_attempt_cases) simp_all
    moreover have "jobs t = jobs s2" using s(3) by (cases rule: ensure_version_cases) simp_all
    ultimately show ?thesis using eq assms(1) by simp
  next
    case (OpFinish doc att ver' tenant status err now)
    from assms(2) have "finish_ingestion_attempt_sync doc att ver' tenant status err now s = Inr t"
      by (simp add: OpFinish)
    then have "jobs t = jobs s"
      by (cases rule: finish_cases) (auto elim: fail_version_cases)
    then show ?thesis using eq assms(1) by simp
  next
    case (OpActivate doc ver' tenant now)
    from assms(2) have "activate_version_tx doc ver' tenant now s = Inr t" by (simp add: OpActivate)
    then have "jobs t = jobs s" by (cases rule: activate_cases) simp_all
    then show ?thesis using eq assms(1) by simp
  next
    case (OpTombstone doc tenant reason)
    from assms(2) have "tombstone_tx doc tenant (safe_reason reason) s = Inr t" by (simp add: OpTombstone)
    then have "jobs t = jobs s" by (cases rule: tombstone_cases) simp_all
    then show ?thesis using eq assms(1) by simp
  next
    case (OpPersist chunks filename tenant identity)
    then have "jobs t = jobs s" using assms(2)
      by (auto simp: persist_chunks_sync_def persist_version_chunks_tx_def split: option.splits)
    then show ?thesis using eq assms(1) by simp
  next
    case (OpStage doc att tenant stage now)
    then have "jobs t = jobs s" using assms(2)
      by (auto simp: update_ingestion_stage_sync_def split: if_splits)
    then show ?thesis using eq assms(1) by simp
  next
    case (OpRepair now)
    then have "jobs t = jobs s" using assms(2) by (auto simp: repair_tx_def)
    then show ?thesis using eq assms(1) by simp
  qed
qed

section \<open>Properties\<close>

lemma ingestion_invariant_aux: "db_inv (run_all run_op ops empty_db)"
  by (rule idb.inv_run_all[OF db_inv_empty])

text \<open>C2 The ingestion database invariant: after any schedule of registration, stage, finish,
  activation, deletion, repair, chunk and job transactions, in any order and with any failures,
  identifiers are unique and referentially intact, a version is active exactly when its
  document's pointer names it, deleted documents publish nothing, indexed ones publish
  something, attempts are finished exactly when terminal, and chunks belong to real versions.\<close>

theorem ingestion_invariant: "db_inv (run_all run_op ops empty_db)"
  by (rule ingestion_invariant_aux)

text \<open>C1 Publication refinement: seen through the abstraction that keeps, per document, absent,
  deleted or live with its published version, every schedule of transactions acts as the
  abstract specification run on the transactions that committed. Only registration creates
  a document, only activation changes what is published, only deletion removes it; stages,
  failures, cancellations, retries, chunk writes, job records and repairs never do.\<close>

theorem publication_refinement:
  "abs_db (run_all run_op ops empty_db) = fold spec_op (accepted run_op ops empty_db) (\<lambda>_. Absent)"
  using pubs.abs_run_all[OF db_inv_empty] by (simp add: abs_empty)

text \<open>C20 Deletion is permanent: once a document is deleted, no later schedule of transactions,
  whatever re-registrations, retries or late activations it holds, publishes it again, and none
  of its versions is active.\<close>

theorem deletion_permanent:
  assumes "abs_db (run_all run_op ops empty_db) doc = Deleted"
  shows "abs_db (run_all run_op (ops @ later) empty_db) doc = Deleted \<and>
    (\<forall>v \<in> set (vers (run_all run_op (ops @ later) empty_db)). v_doc v = doc \<longrightarrow> v_status v \<noteq> VActive)"
proof -
  let ?s = "run_all run_op ops empty_db" and ?t = "run_all run_op (ops @ later) empty_db"
  have s: "db_inv ?s" by (rule ingestion_invariant_aux)
  have eq: "?t = run_all run_op later ?s" by (simp add: run_all_def)
  have t: "abs_db ?t doc = Deleted" unfolding eq
    using publication_progresses[OF s, of doc later] assms by (simp add: deleted_top)
  have inv: "db_inv ?t" by (rule ingestion_invariant_aux)
  obtain d where d: "find (\<lambda>d. d_id d = doc) (docs ?t) = Some d" "d_status d = DDeleted"
    using t by (auto simp: abs_db_def pub_of_def split: option.splits if_splits)
  then have "d \<in> set (docs ?t)" "d_id d = doc" using find_SomeD[OF d(1)] by auto
  then have "doc_ok (vers ?t) d" "d_id d = doc" using inv by (auto simp: db_inv_def active_ok_def)
  then show ?thesis using t d(2) by (auto simp: doc_ok_def)
qed

definition demo_ident :: ident where
  "demo_ident = \<lparr>i_doc = ''d'', i_att = ''a'', i_ver = ''v'', i_ref = ''r'', i_sha = replicate 64 CHR ''0'',
     i_filename = ''f'', i_tenant = ''t'', i_workflow = ''w''\<rparr>"

theorem deletion_permanent_witness:
  "abs_db (run_all run_op ([OpRegister demo_ident, OpActivate ''d'' ''v'' ''t'' 5, OpTombstone ''d'' ''t'' ''gone''] @
     [OpRegister demo_ident, OpActivate ''d'' ''v'' ''t'' 9]) empty_db) ''d'' = Deleted"
proof -
  have "abs_db (run_all run_op [OpRegister demo_ident, OpActivate ''d'' ''v'' ''t'' 5, OpTombstone ''d'' ''t'' ''gone'']
      empty_db) ''d'' = Deleted" by code_simp
  then show ?thesis by (rule conjunct1[OF deletion_permanent])
qed

text \<open>Activation replaces the published version atomically: on success the chosen version
  becomes the only active one of its document, which is marked indexed and points to it, the
  previously published version is superseded, and no other document or version changes.\<close>

lemma activation_effect:
  assumes "db_inv s" "activate_version_tx doc ver tenant now s = Inr t"
  shows "(\<exists>d \<in> set (docs t). doc_key doc tenant d \<and> d_active d = Some ver \<and> d_status d \<noteq> DDeleted) \<and>
    (\<forall>v \<in> set (vers t). v_doc v = doc \<longrightarrow> (v_status v = VActive \<longleftrightarrow> v_id v = ver)) \<and>
    filter (\<lambda>d. d_id d \<noteq> doc) (docs t) = filter (\<lambda>d. d_id d \<noteq> doc) (docs s) \<and>
    filter (\<lambda>v. v_doc v \<noteq> doc) (vers t) = filter (\<lambda>v. v_doc v \<noteq> doc) (vers s) \<and>
    atts t = atts s \<and> vchunks t = vchunks s"
proof -
  have inv: "db_inv t" by (rule activate_inv[OF assms])
  obtain d where d: "find (\<lambda>d. d_id d = doc) (docs t) = Some d" "d_active d = Some ver" "d_status d \<noteq> DDeleted"
    using abs_db_live[of t doc "Some ver"] by (auto simp: sim_activate[OF assms])
  have dm: "d \<in> set (docs t)" "d_id d = doc" using find_SomeD[OF d(1)] by auto
  have ok: "doc_ok (vers t) d" using inv dm(1) by (auto simp: db_inv_def active_ok_def)
  have tenant: "d_tenant d = tenant"
  proof -
    obtain d0 where d0: "find (doc_key doc tenant) (docs s) = Some d0"
      using assms(2) by (auto elim: activate_cases)
    have skel: "map doc_skel (docs t) = map doc_skel (docs s)"
      using assms(2) by (cases rule: activate_cases) (simp_all add: skel_simps)
    have "(\<exists>e \<in> set (docs t). doc_key doc tenant e) = (\<exists>e \<in> set (docs s). doc_key doc tenant e)"
      by (rule ex_proj_eq[OF skel, where Q = "\<lambda>(i, u, f). i = doc \<and> u = tenant"])
        (simp add: doc_skel_def doc_key_def)
    then obtain e where "e \<in> set (docs t)" "d_id e = doc" "d_tenant e = tenant"
      using find_SomeD[OF d0] by (auto simp: doc_key_def)
    moreover have "e = d" using doc_unique[of t e d] inv calculation dm by (simp add: db_inv_def)
    ultimately show ?thesis by simp
  qed
  have frame: "filter (\<lambda>d. d_id d \<noteq> doc) (docs t) = filter (\<lambda>d. d_id d \<noteq> doc) (docs s) \<and>
    filter (\<lambda>v. v_doc v \<noteq> doc) (vers t) = filter (\<lambda>v. v_doc v \<noteq> doc) (vers s) \<and>
    atts t = atts s \<and> vchunks t = vchunks s"
    using assms(2)
  proof (cases rule: activate_cases)
    case (2 d v vs)
    have "filter (\<lambda>d. d_id d \<noteq> doc) (docs t) = filter (\<lambda>d. d_id d \<noteq> doc) (docs s)"
      by (simp add: 2(7), rule filter_upd_where_other) (auto simp: doc_key_def)
    moreover have "filter (\<lambda>v. v_doc v \<noteq> doc) (vers t) = filter (\<lambda>v. v_doc v \<noteq> doc) vs"
      by (simp add: 2(7), rule filter_upd_where_other) (auto simp: ver_key_def)
    moreover have "filter (\<lambda>v. v_doc v \<noteq> doc) vs = filter (\<lambda>v. v_doc v \<noteq> doc) (vers s)"
    proof (cases "d_active d")
      case None
      then show ?thesis by (simp add: 2(6))
    next
      case (Some prev)
      then show ?thesis by (simp add: 2(6), intro filter_upd_where_other) (auto simp: ver_key_def)
    qed
    ultimately show ?thesis by (simp add: 2(7))
  qed simp
  show ?thesis using d dm tenant ok frame by (auto simp: doc_key_def doc_ok_def)
qed

lemma activation_effect_witness:
  "\<exists>s t. activate_version_tx ''d'' ''v'' ''t'' 5 s = Inr t \<and>
     (\<exists>d \<in> set (docs t). doc_key ''d'' ''t'' d \<and> d_active d = Some ''v'')"
proof -
  let ?s = "run_all run_op [OpRegister demo_ident] empty_db"
  have "is_ok (activate_version_tx ''d'' ''v'' ''t'' 5 ?s)" by code_simp
  then obtain t where t: "activate_version_tx ''d'' ''v'' ''t'' 5 ?s = Inr t" by (auto simp: is_ok_iff)
  from activation_effect[OF ingestion_invariant_aux t] t show ?thesis by blast
qed

text \<open>Failing or cancelling an open attempt whose version is still staged succeeds exactly when
  its document is in the processing state; a document that is still queued (no stage reached) or
  was meanwhile indexed or failed by another attempt makes the transaction raise and roll back,
  leaving the attempt open. In no case does the published version change.\<close>

lemma finish_staged_exact:
  assumes "db_inv s" "a \<in> set (atts s)" "att_key att doc tenant a" "att_open a"
    "v \<in> set (vers s)" "ver_key ver doc tenant v" "v_status v = VStaged"
    "d \<in> set (docs s)" "doc_key doc tenant d"
    "status = ''failed'' \<or> status = ''cancelled''"
  shows "(is_ok (finish_ingestion_attempt_sync doc att ver tenant status err now s) \<longleftrightarrow> d_status d = DProcessing) \<and>
    abs_db (commit (finish_ingestion_attempt_sync doc att ver tenant status err) now s) = abs_db s"
proof -
  have keys: "keys_ok s" using assms(1) by (simp add: db_inv_def)
  have ca: "count_where (\<lambda>a. att_key att doc tenant a \<and> att_open a) (atts s) = 1"
    by (rule count_where_one[of a_id _ a]) (use keys assms in \<open>auto simp: keys_ok_def att_key_def\<close>)
  have cv: "count_where (\<lambda>v. ver_key ver doc tenant v \<and> v_status v = VStaged) (vers s) = 1"
    by (rule count_where_one[of v_id _ v]) (use keys assms in \<open>auto simp: keys_ok_def ver_key_def\<close>)
  have cd: "count_where (\<lambda>d. doc_key doc tenant d \<and> d_status d = DProcessing) (docs s) = 1 \<longleftrightarrow> d_status d = DProcessing"
  proof
    assume "count_where (\<lambda>d. doc_key doc tenant d \<and> d_status d = DProcessing) (docs s) = 1"
    then obtain e where "e \<in> set (docs s)" "doc_key doc tenant e" "d_status e = DProcessing"
      using count_where_one_ex by blast
    moreover have "e = d" using doc_unique[OF keys calculation(1) assms(8)] calculation assms(9)
      by (simp add: doc_key_def)
    ultimately show "d_status d = DProcessing" by simp
  next
    assume "d_status d = DProcessing"
    then show "count_where (\<lambda>d. doc_key doc tenant d \<and> d_status d = DProcessing) (docs s) = 1"
      by (intro count_where_one[of d_id _ d]) (use keys assms in \<open>auto simp: keys_ok_def doc_key_def\<close>)
  qed
  have "is_ok (finish_ingestion_attempt_sync doc att ver tenant status err now s) \<longleftrightarrow> d_status d = DProcessing"
    using assms(10) ca cv cd
    by (auto simp: finish_ingestion_attempt_sync_def fail_version_def Let_def upd_one_def)
  moreover have "abs_db (commit (finish_ingestion_attempt_sync doc att ver tenant status err) now s) = abs_db s"
    by (auto simp: commit_def sim_finish split: sum.splits)
  ultimately show ?thesis by blast
qed

definition demo_db :: db where
  "demo_db = run_all run_op [OpRegister demo_ident] empty_db"

definition demo_processing :: db where
  "demo_processing = run_all run_op [OpStage ''d'' ''a'' ''t'' ''detecting'' 1] demo_db"

lemma demo_db_inv: "db_inv demo_db"
  unfolding demo_db_def by (rule ingestion_invariant_aux)

lemma finish_staged_exact_witness:
  "\<not> is_ok (finish_ingestion_attempt_sync ''d'' ''a'' ''v'' ''t'' ''failed'' (Some ''boom'') 7 demo_db)"
proof -
  have "(is_ok (finish_ingestion_attempt_sync ''d'' ''a'' ''v'' ''t'' ''failed'' (Some ''boom'') 7 demo_db) \<longleftrightarrow>
      d_status (hd (docs demo_db)) = DProcessing) \<and>
    abs_db (commit (finish_ingestion_attempt_sync ''d'' ''a'' ''v'' ''t'' ''failed'' (Some ''boom'')) 7 demo_db) = abs_db demo_db"
    by (rule finish_staged_exact[where a = "hd (atts demo_db)" and v = "hd (vers demo_db)"])
      (rule demo_db_inv, code_simp+)
  moreover have "d_status (hd (docs demo_db)) = DQueued" by code_simp
  ultimately show ?thesis by simp
qed

text \<open>Registration is idempotent: repeating a registration that committed commits again and
  changes nothing, so a retried activity neither creates a second attempt or version nor moves
  the numbers already allotted.\<close>

lemma register_idempotent:
  assumes "register_ingestion_sync i s = Inr t"
  shows "register_ingestion_sync i t = Inr t"
proof -
  obtain s1 s2 where s: "upsert_document i s = Inr s1" "ensure_attempt i s1 = Inr s2" "ensure_version i s2 = Inr t"
    using assms by (auto simp: register_ingestion_sync_def)
  have d2: "docs s2 = docs s1" using s(2) by (cases rule: ensure_attempt_cases) simp_all
  have dt: "docs t = docs s2" "atts t = atts s2" using s(3) by (cases rule: ensure_version_cases; simp)+
  have "upsert_document i t = Inr t"
  proof -
    have "bindR (upsert_document i u) (\<lambda>v. Inr (docs v)) = bindR (upsert_document i s1) (\<lambda>v. Inr (docs v))"
      if "docs u = docs s1" for u
      using that by (auto simp: upsert_document_def split: option.splits)
    moreover have "u\<lparr>docs := docs s1\<rparr> = u" if "docs u = docs s1" for u :: db using that by simp
    ultimately show ?thesis using upsert_again[OF s(1)] d2 dt
      by (auto simp: upsert_document_def split: option.splits if_splits)
  qed
  moreover have "ensure_attempt i t = Inr t" by (rule ensure_attempt_again[OF s(2) dt(2)])
  moreover have "ensure_version i t = Inr t" by (rule ensure_version_again[OF s(3)])
  ultimately show ?thesis by (simp add: register_ingestion_sync_def)
qed

lemma register_idempotent_witness:
  "register_ingestion_sync demo_ident demo_db = Inr demo_db"
proof -
  have "is_ok (register_ingestion_sync demo_ident empty_db)" by code_simp
  then obtain t where t: "register_ingestion_sync demo_ident empty_db = Inr t" by (auto simp: is_ok_iff)
  then have "demo_db = t" by (simp add: demo_db_def commit_def)
  with register_idempotent[OF t] show ?thesis by simp
qed

text \<open>Persisting the chunks of a staged version replaces exactly that version's rows: afterwards
  they are the given chunks in order, indexed from 0, the recorded count is their number, and
  the rows of every other version are untouched.\<close>

lemma persist_exact:
  assumes "db_inv s" "persist_chunks_sync chunks filename tenant (Some (doc, ver)) s = Inr t"
  shows "filter (\<lambda>r. c_version r = ver) (vchunks t) =
      map2 (vchunk_of tenant doc ver filename) [0..int (length chunks) - 1] chunks \<and>
    filter (\<lambda>r. c_version r \<noteq> ver) (vchunks t) = filter (\<lambda>r. c_version r \<noteq> ver) (vchunks s) \<and>
    (\<exists>v \<in> set (vers t). ver_key ver doc tenant v \<and> v_chunks v = int (length chunks))"
proof -
  let ?rs = "del_where (\<lambda>r. c_tenant r = tenant \<and> c_doc r = doc \<and> c_version r = ver) (vchunks s)"
  let ?p = "\<lambda>v. ver_key ver doc tenant v \<and> v_status v = VStaged"
  let ?new = "map2 (vchunk_of tenant doc ver filename) [0..int (length chunks) - 1] chunks"
  obtain cs where cs: "insert_vchunks s tenant doc ver filename 0 chunks ?rs = Inr cs"
    and one: "count_where ?p (vers s) = 1"
    and t: "t = s\<lparr>vchunks := cs, vers := upd_where ?p (\<lambda>v. v\<lparr>v_chunks := int (length chunks)\<rparr>) (vers s)\<rparr>"
    using assms(2) by (auto simp: persist_chunks_sync_def persist_version_chunks_tx_def upd_one_Inr)
  obtain v where v: "v \<in> set (vers s)" "ver_key ver doc tenant v" "v_status v = VStaged"
    using count_where_one_ex[OF one] by blast
  have owner: "c_tenant r = tenant \<and> c_doc r = doc" if r: "r \<in> set (vchunks s)" "c_version r = ver" for r
  proof -
    obtain w where "w \<in> set (vers s)" "ver_key (c_version r) (c_doc r) (c_tenant r) w"
      using assms(1) r(1) by (auto simp: db_inv_def chunks_ok_def)
    moreover have "w = v" using ver_unique[of s w v] assms(1) calculation v r(2)
      by (simp add: db_inv_def ver_key_def)
    ultimately show ?thesis using v(2) by (simp add: ver_key_def)
  qed
  have rs: "?rs = filter (\<lambda>r. c_version r \<noteq> ver) (vchunks s)"
    unfolding del_where_def using owner by (auto intro!: filter_cong)
  have "cs = ?rs @ map2 (vchunk_of tenant doc ver filename) [0..0 + int (length chunks) - 1] chunks"
    by (rule insert_vchunks_exact[OF cs]) (simp add: rs)
  then have cs': "cs = filter (\<lambda>r. c_version r \<noteq> ver) (vchunks s) @ ?new" by (simp add: rs)
  have new: "c_version r = ver" if "r \<in> set ?new" for r using that by (auto simp: vchunk_of_def)
  have "filter (\<lambda>r. c_version r = ver) ?new = ?new" using new by (intro filter_True) simp
  moreover have "filter (\<lambda>r. c_version r \<noteq> ver) ?new = []" using new by (intro filter_False) simp
  moreover have "\<exists>v \<in> set (vers t). ver_key ver doc tenant v \<and> v_chunks v = int (length chunks)"
    using v by (auto simp: t ver_key_def)
  ultimately show ?thesis by (simp add: t cs')
qed

lemma persist_exact_witness:
  "\<exists>t. persist_chunks_sync [\<lparr>chunk_text = ''x'', chunk_page = 1\<rparr>] ''f'' ''t'' (Some (''d'', ''v'')) demo_db = Inr t \<and>
     length (filter (\<lambda>r. c_version r = ''v'') (vchunks t)) = 1"
proof -
  have "is_ok (persist_chunks_sync [\<lparr>chunk_text = ''x'', chunk_page = 1\<rparr>] ''f'' ''t'' (Some (''d'', ''v'')) demo_db)"
    by code_simp
  then obtain t where t: "persist_chunks_sync [\<lparr>chunk_text = ''x'', chunk_page = 1\<rparr>] ''f'' ''t'' (Some (''d'', ''v'')) demo_db = Inr t"
    by (auto simp: is_ok_iff)
  from persist_exact[OF demo_db_inv t] t show ?thesis by simp
qed

text \<open>The artifact janitor only ever deletes artifacts of versions that failed, that no document
  publishes, and whose attempt ended before the cut-off under a workflow that is not running.\<close>

lemma janitor_safe:
  assumes "db_inv s" "(tenant, doc, ver) \<in> set (expired_artifact_identities_sync before live s)"
  shows "abs_db s doc \<noteq> Live (Some ver) \<and>
    (\<exists>v \<in> set (vers s). ver_key ver doc tenant v \<and> v_status v = VFailed \<and>
      (\<exists>a \<in> set (atts s). a_id a = v_attempt v \<and> \<not> att_open a \<and> a_workflow a \<notin> set live \<and>
        (\<exists>x < before. a_finished a = Some x)))"
proof -
  obtain a d v where m: "a \<in> set (atts s)" "d \<in> set (docs s)" "v \<in> set (vers s)"
      "a_status a = AFailed \<or> a_status a = ACancelled" "\<exists>x. a_finished a = Some x \<and> x < before"
      "a_workflow a \<notin> set live" "d_id d = a_doc a" "d_tenant d = a_tenant a" "v_attempt v = a_id a"
      "v_doc v = a_doc a" "v_tenant v = a_tenant a" "v_status v = VFailed" "d_active d \<noteq> Some (v_id v)"
      "tenant = d_tenant d" "doc = d_id d" "ver = v_id v"
    using assms(2) unfolding expired_mem by blast
  have "find (\<lambda>e. d_id e = doc) (docs s) = Some d"
    using assms(1) m(2,15) by (simp add: find_cong_unique db_inv_def keys_ok_def)
  then have "abs_db s doc \<noteq> Live (Some ver)" using m(13,16) by (simp add: abs_db_live)
  moreover have "ver_key ver doc tenant v" using m by (simp add: ver_key_def)
  moreover have "\<not> att_open a" using m(4) by (auto simp: att_open_def)
  ultimately show ?thesis using m by (intro conjI bexI[of _ v] bexI[of _ a]) auto
qed

lemma janitor_safe_witness:
  "\<exists>s. (''t'', ''d'', ''v'') \<in> set (expired_artifact_identities_sync 10 [''other''] s) \<and>
     abs_db s ''d'' \<noteq> Live (Some ''v'')"
proof -
  let ?s = "run_all run_op [OpRegister demo_ident, OpStage ''d'' ''a'' ''t'' ''detecting'' 1,
      OpFinish ''d'' ''a'' ''v'' ''t'' ''failed'' None 7] empty_db"
  have m: "(''t'', ''d'', ''v'') \<in> set (expired_artifact_identities_sync 10 [''other''] ?s)" by code_simp
  show ?thesis using janitor_safe[OF ingestion_invariant_aux m] m by blast
qed

lemma get_job_run_all:
  "get_textract_job_sync ver s = Some job \<Longrightarrow> get_textract_job_sync ver (run_all run_op ops s) = Some job"
proof (induction ops arbitrary: s)
  case (Cons p ops)
  have "get_textract_job_sync ver (commit run_op p s) = Some job"
    using Cons.prems get_job_stable[OF Cons.prems, of p] by (simp add: commit_def split: sum.split)
  then show ?case using Cons.IH by simp
qed simp

text \<open>External OCR jobs are started once per version: after a job is saved for a version, every
  later schedule of transactions still reports that job, and saving a different job or request
  token for the version is rejected.\<close>

lemma job_correlation_stable:
  assumes "save_textract_job_sync ver token job status s = Inr s1" "get_textract_job_sync ver s = None"
  shows "get_textract_job_sync ver (run_all run_op ops s1) = Some job \<and>
    (job' \<noteq> job \<longrightarrow> \<not> is_ok (save_textract_job_sync ver token' job' status' (run_all run_op ops s1)))"
proof -
  have "get_textract_job_sync ver s1 = Some job"
    using assms by (auto simp: save_textract_job_sync_def get_textract_job_sync_def find_append split: if_splits option.splits)
  then have g: "get_textract_job_sync ver (run_all run_op ops s1) = Some job" by (rule get_job_run_all)
  then obtain j where "find (\<lambda>j. j_version j = ver) (jobs (run_all run_op ops s1)) = Some j" "j_job j = job"
    by (auto simp: get_textract_job_sync_def)
  with g show ?thesis by (auto simp: save_textract_job_sync_def)
qed

lemma job_correlation_stable_witness:
  "\<exists>s1. save_textract_job_sync ''v'' ''tok'' ''job'' ''started'' demo_db = Inr s1 \<and>
     \<not> is_ok (save_textract_job_sync ''v'' ''tok'' ''job2'' ''started'' s1)"
proof -
  have ok: "is_ok (save_textract_job_sync ''v'' ''tok'' ''job'' ''started'' demo_db)"
    and none: "get_textract_job_sync ''v'' demo_db = None" by code_simp+
  then obtain s1 where s1: "save_textract_job_sync ''v'' ''tok'' ''job'' ''started'' demo_db = Inr s1"
    by (auto simp: is_ok_iff)
  have "(''job2'' :: string) \<noteq> ''job''" by simp
  with job_correlation_stable[OF s1 none, of "[]"] s1 show ?thesis by fastforce
qed

end
