(* ===== verification/Ingestion_Workflow.thy ===== *)
theory Ingestion_Workflow
  imports Ingestion_Props
begin

text \<open>
  The Temporal workflow \<open>IngestDocumentWorkflow.run\<close> of \<open>workflows/ingestion_workflow.py\<close>.

  \<open>workflow.execute_activity\<close> (scheduling, retries, timeouts) belongs to Temporal: it is the
  parameter \<open>exec\<close>, which maps an activity, its arguments and the outside state to a new state
  and either the activity's value or the exception that reached the workflow. The digest of the
  version id and \<open>workflow.patched\<close> are parameters too.
\<close>

section \<open>Exceptions and their causes\<close>

text \<open>
  An exception is an index into a heap of exception objects, whose \<open>cause\<close> attribute and
  \<open>__cause__\<close> point to others; the links may form a cycle.
\<close>

datatype exc_kind = AsyncCancelled | TemporalCancelled | OtherError

record exc_obj =
  e_kind :: exc_kind
  e_cause :: "nat option"
  e_dunder :: "nat option"

definition is_cancel_kind :: "exc_kind \<Rightarrow> bool" where
  "is_cancel_kind k = (k = AsyncCancelled \<or> k = TemporalCancelled)"

definition next_cause :: "exc_obj \<Rightarrow> nat option" where
  "next_cause o1 = (case e_cause o1 of Some c \<Rightarrow> Some c | None \<Rightarrow> e_dunder o1)"

function cancel_loop :: "exc_obj list \<Rightarrow> nat list \<Rightarrow> nat option \<Rightarrow> bool" where
  "cancel_loop h visited None = False"
| "cancel_loop h visited (Some i) =
     (if i \<in> set visited \<or> length h \<le> i then False
      else if is_cancel_kind (e_kind (h ! i)) then True
      else cancel_loop h (i # visited) (next_cause (h ! i)))"
  by pat_completeness auto
termination
proof (relation "measure (\<lambda>(h, visited, p). card ({..<length h} - set visited))", goal_cases)
  case (2 h visited i)
  have "{..<length h} - set (i # visited) = ({..<length h} - set visited) - {i}" by auto
  moreover have "i \<in> {..<length h} - set visited" using 2(1) by simp
  ultimately have "card ({..<length h} - set (i # visited)) < card ({..<length h} - set visited)"
    by (metis card_Diff1_less finite_Diff finite_lessThan)
  then show ?case by simp
qed simp

type_synonym wf_error = "exc_obj list \<times> nat"

definition is_cancellation_failure :: "wf_error \<Rightarrow> bool" where
  "is_cancellation_failure e = (case e of (h, i) \<Rightarrow> cancel_loop h [] (Some i))"

definition root_kind :: "wf_error \<Rightarrow> exc_kind" where
  "root_kind e = (case e of (h, i) \<Rightarrow> if i < length h then e_kind (h ! i) else OtherError)"

text \<open>\<open>asyncio.CancelledError\<close> is not an \<open>Exception\<close>; Temporal's is.\<close>

definition is_exception :: "wf_error \<Rightarrow> bool" where
  "is_exception e = (root_kind e \<noteq> AsyncCancelled)"

section \<open>Workflow computations\<close>

datatype act = RegisterIngestion | UpdateStage | FinishAttempt | DetectType | ExtractTextract
  | ExtractUnstructured | ChunkPages | PersistChunks | EmbedIndex | ActivateVersion | CleanupArtifacts

type_synonym 's executor = "act \<Rightarrow> pyval list \<Rightarrow> 's \<Rightarrow> 's \<times> (wf_error + pyval)"
type_synonym ('s, 'a) wf = "'s \<Rightarrow> 's \<times> (wf_error + 'a)"

definition wret :: "'a \<Rightarrow> ('s, 'a) wf" where
  "wret x s = (s, Inr x)"

definition wbind :: "('s, 'a) wf \<Rightarrow> ('a \<Rightarrow> ('s, 'b) wf) \<Rightarrow> ('s, 'b) wf" where
  "wbind m f s = (case m s of (s', Inl e) \<Rightarrow> (s', Inl e) | (s', Inr x) \<Rightarrow> f x s')"

text \<open>\<open>try: m except Exception: log\<close> and \<open>try: m except ...: h; raise\<close>\<close>

definition wlog :: "('s, unit) wf \<Rightarrow> ('s, unit) wf" where
  "wlog m s = (case m s of (s', Inl e) \<Rightarrow> if is_exception e then (s', Inr ()) else (s', Inl e)
     | (s', Inr x) \<Rightarrow> (s', Inr x))"

definition wrescue :: "('s, 'a) wf \<Rightarrow> (wf_error \<Rightarrow> ('s, unit) wf) \<Rightarrow> ('s, 'a) wf" where
  "wrescue m h s = (case m s of
       (s', Inl e) \<Rightarrow> (case h e s' of (s'', Inl e') \<Rightarrow> (s'', Inl e') | (s'', Inr x) \<Rightarrow> (s'', Inl e))
     | (s', Inr x) \<Rightarrow> (s', Inr x))"

definition wdo :: "('s, pyval) wf \<Rightarrow> ('s, unit) wf" where
  "wdo m = wbind m (\<lambda>_. wret ())"

definition wwhen :: "bool \<Rightarrow> ('s, unit) wf \<Rightarrow> ('s, unit) wf" where
  "wwhen b m = (if b then m else wret ())"

section \<open>The ingestion workflow\<close>

record wf_args =
  w_file :: string
  w_filename :: string
  w_tenant :: string
  w_doc :: "string option"
  w_sha :: "string option"
  w_att :: "string option"
  w_ver :: "string option"
  w_workflow :: string
  w_patched :: bool

definition given :: "string option \<Rightarrow> bool" where
  "given x = (case x of None \<Rightarrow> False | Some s \<Rightarrow> s \<noteq> [])"

definition pstr :: "string option \<Rightarrow> pyval" where
  "pstr x = (case x of None \<Rightarrow> PNone | Some s \<Rightarrow> PStr s)"

definition registers :: "wf_args \<Rightarrow> bool" where
  "registers w = (given (w_doc w) \<and> given (w_sha w) \<and> given (w_att w) \<and> given (w_ver w))"

definition artifact_identity :: "wf_args \<Rightarrow> pyval" where
  "artifact_identity w = (if w_patched w \<and> given (w_doc w) \<and> given (w_ver w)
     then PDict [(''tenant_id'', PStr (w_tenant w)), (''document_id'', pstr (w_doc w)), (''version_id'', pstr (w_ver w))]
     else PNone)"

definition register_step :: "'s executor \<Rightarrow> wf_args \<Rightarrow> ('s, unit) wf" where
  "register_step exec w = wwhen (registers w)
     (wdo (exec RegisterIngestion [pstr (w_doc w), pstr (w_att w), pstr (w_ver w), PStr (w_file w),
        pstr (w_sha w), PStr (w_filename w), PStr (w_tenant w), PStr (w_workflow w)]))"

definition record_stage :: "'s executor \<Rightarrow> wf_args \<Rightarrow> string \<Rightarrow> ('s, unit) wf" where
  "record_stage exec w stage = wwhen (w_patched w \<and> given (w_doc w) \<and> given (w_att w))
     (wdo (exec UpdateStage [pstr (w_doc w), pstr (w_att w), PStr (w_tenant w), PStr stage]))"

definition finish :: "'s executor \<Rightarrow> wf_args \<Rightarrow> string \<Rightarrow> string option \<Rightarrow> ('s, unit) wf" where
  "finish exec w status err = wwhen (w_patched w \<and> given (w_doc w) \<and> given (w_att w) \<and> given (w_ver w))
     (wdo (exec FinishAttempt [pstr (w_doc w), pstr (w_att w), pstr (w_ver w), PStr (w_tenant w),
        PStr status, pstr err]))"

definition textract_args :: "(string \<Rightarrow> string) \<Rightarrow> wf_args \<Rightarrow> pyval list" where
  "textract_args sha w = PStr (w_file w) #
     (if given (w_ver w)
      then PStr (sha (the (w_ver w))) # (if w_patched w then pstr (w_ver w) #
             (if artifact_identity w \<noteq> PNone then [artifact_identity w] else []) else [])
      else [])"

definition extract_step :: "(string \<Rightarrow> string) \<Rightarrow> 's executor \<Rightarrow> wf_args \<Rightarrow> pyval \<Rightarrow> ('s, pyval) wf" where
  "extract_step sha exec w doc_type =
     (if doc_type = PStr ''scanned'' then exec ExtractTextract (textract_args sha w)
      else exec ExtractUnstructured (PStr (w_file w) #
        (if artifact_identity w \<noteq> PNone then [artifact_identity w] else [])))"

definition with_identity :: "wf_args \<Rightarrow> pyval list \<Rightarrow> pyval list \<Rightarrow> pyval list" where
  "with_identity w xs ys = (if artifact_identity w \<noteq> PNone then xs @ [artifact_identity w] else ys)"

definition num_chunks :: "pyval \<Rightarrow> pyval" where
  "num_chunks c = (case c of PDict d \<Rightarrow> dget d ''item_count'' | PList xs \<Rightarrow> PInt (int (length xs)) | _ \<Rightarrow> PNone)"

definition summary :: "wf_args \<Rightarrow> pyval \<Rightarrow> pyval \<Rightarrow> pyval \<Rightarrow> pyval" where
  "summary w chunks stored indexed =
     PDict ([(''filename'', PStr (w_filename w)), (''tenant_id'', PStr (w_tenant w)),
        (''num_chunks'', num_chunks chunks), (''stored'', stored), (''indexed'', indexed)]
       @ (case w_doc w of None \<Rightarrow> [] | Some d \<Rightarrow> [(''document_id'', PStr d)])
       @ (case w_sha w of None \<Rightarrow> [] | Some h \<Rightarrow> [(''content_sha256'', PStr h)]))"

definition body :: "(string \<Rightarrow> string) \<Rightarrow> 's executor \<Rightarrow> wf_args \<Rightarrow> ('s, pyval) wf" where
  "body sha exec w =
     wbind (record_stage exec w ''detecting'') (\<lambda>_.
     wbind (exec DetectType [PStr (w_file w), PStr (w_filename w)]) (\<lambda>doc_type.
     wbind (record_stage exec w ''extracting'') (\<lambda>_.
     wbind (extract_step sha exec w doc_type) (\<lambda>extracted.
     wbind (record_stage exec w ''chunking'') (\<lambda>_.
     wbind (exec ChunkPages (with_identity w [extracted, PInt 1500, PInt 200] [extracted])) (\<lambda>chunks.
     wbind (record_stage exec w ''persisting'') (\<lambda>_.
     wbind (exec PersistChunks (with_identity w [chunks, PStr (w_filename w), PStr (w_tenant w)]
              [chunks, PStr (w_filename w), PStr (w_tenant w)])) (\<lambda>stored.
     wbind (record_stage exec w ''indexing'') (\<lambda>_.
     wbind (exec EmbedIndex (with_identity w [chunks, PStr (w_filename w), PStr (w_tenant w)]
              [chunks, PStr (w_filename w), PStr (w_tenant w)])) (\<lambda>indexed.
     wbind (wwhen (artifact_identity w \<noteq> PNone)
              (wdo (exec ActivateVersion [pstr (w_doc w), pstr (w_ver w), PStr (w_tenant w)]))) (\<lambda>_.
     wbind (finish exec w ''indexed'' None) (\<lambda>_.
     wbind (wwhen (artifact_identity w \<noteq> PNone) (wlog (wdo (exec CleanupArtifacts [artifact_identity w])))) (\<lambda>_.
     wret (summary w chunks stored indexed))))))))))))))"

text \<open>The two \<open>except\<close> clauses: a cancellation itself, or any other exception.\<close>

definition failure_status :: "wf_error \<Rightarrow> string \<times> string" where
  "failure_status e =
     (if is_cancel_kind (root_kind e) \<or> is_cancellation_failure e then (''cancelled'', ''workflow_cancelled'')
      else (''failed'', ''workflow_activity_failed''))"

definition report_failure :: "'s executor \<Rightarrow> wf_args \<Rightarrow> wf_error \<Rightarrow> ('s, unit) wf" where
  "report_failure exec w e =
     wlog (finish exec w (fst (failure_status e)) (Some (snd (failure_status e))))"

definition run_workflow :: "(string \<Rightarrow> string) \<Rightarrow> 's executor \<Rightarrow> wf_args \<Rightarrow> ('s, pyval) wf" where
  "run_workflow sha exec w =
     wbind (register_step exec w) (\<lambda>_. wrescue (body sha exec w) (report_failure exec w))"

section \<open>The cause chain\<close>

inductive chain :: "exc_obj list \<Rightarrow> nat \<Rightarrow> nat \<Rightarrow> bool" for h where
  here: "i < length h \<Longrightarrow> chain h i i"
| step: "i < length h \<Longrightarrow> next_cause (h ! i) = Some j \<Longrightarrow> chain h j k \<Longrightarrow> chain h i k"

lemma cancel_loop_sound: "cancel_loop h vis (Some i) \<Longrightarrow> \<exists>k. chain h i k \<and> is_cancel_kind (e_kind (h ! k))"
proof (induction h vis "Some i" arbitrary: i rule: cancel_loop.induct)
  case (2 h vis i)
  then have i: "i \<notin> set vis" "i < length h" by (auto split: if_splits)
  show ?case
  proof (cases "is_cancel_kind (e_kind (h ! i))")
    case True
    then show ?thesis using i chain.here by blast
  next
    case False
    with 2(2) i have loop: "cancel_loop h (i # vis) (next_cause (h ! i))" by simp
    then obtain j where j: "next_cause (h ! i) = Some j" by (cases "next_cause (h ! i)") auto
    with loop have "\<exists>k. chain h j k \<and> is_cancel_kind (e_kind (h ! k))"
      using 2(1)[OF _ False j] i by auto
    then show ?thesis using chain.step[OF i(2) j] by blast
  qed
qed

text \<open>Nodes already visited are not on the way of a shortest chain, so the guard loses nothing.\<close>

primrec follow :: "exc_obj list \<Rightarrow> nat \<Rightarrow> nat \<Rightarrow> nat option" where
  "follow h i 0 = (if i < length h then Some i else None)"
| "follow h i (Suc n) = (case follow h i n of None \<Rightarrow> None
     | Some j \<Rightarrow> (case next_cause (h ! j) of None \<Rightarrow> None | Some k \<Rightarrow> if k < length h then Some k else None))"

lemma follow_front:
  "i < length h \<Longrightarrow> follow h i (Suc n) =
     (case next_cause (h ! i) of None \<Rightarrow> None | Some j \<Rightarrow> if j < length h then follow h j n else None)"
proof (induction n)
  case 0 then show ?case by (auto split: option.splits)
next
  case (Suc n)
  show ?case unfolding follow.simps(2)[of h i "Suc n"] Suc.IH[OF Suc.prems]
    by (auto split: option.splits)
qed

lemma chain_length: "chain h i k \<Longrightarrow> i < length h \<and> k < length h"
  by (induction rule: chain.induct) auto

lemma chain_follow: "chain h i k \<Longrightarrow> \<exists>n. follow h i n = Some k"
proof (induction rule: chain.induct)
  case (here i)
  then show ?case by (intro exI[of _ 0]) simp
next
  case (step i j k)
  then obtain n where "follow h j n = Some k" by blast
  moreover have "j < length h" using chain_length[OF step(3)] by simp
  ultimately have "follow h i (Suc n) = Some k" using follow_front[OF step(1)] step(2) by simp
  then show ?case by blast
qed

lemma follow_add: "follow h i m = Some j \<Longrightarrow> follow h i (m + n) = follow h j n"
proof (induction n)
  case 0
  have "j < length h" using 0
    by (cases m) (auto split: option.splits if_splits)
  with 0 show ?case by simp
next
  case (Suc n)
  then show ?case by simp
qed

text \<open>The loop with the nodes visited so far: it succeeds if a cancellation is reachable without
  repeating a node or passing through a visited one.\<close>

lemma cancel_loop_complete:
  assumes "follow h i n = Some k" "is_cancel_kind (e_kind (h ! k))"
    "\<forall>m m'. m < m' \<longrightarrow> m' \<le> n \<longrightarrow> follow h i m \<noteq> follow h i m'"
    "\<forall>m \<le> n. \<forall>j. follow h i m = Some j \<longrightarrow> j \<notin> set vis"
  shows "cancel_loop h vis (Some i)"
  using assms
proof (induction n arbitrary: i vis)
  case 0
  then show ?case by (auto split: if_splits)
next
  case (Suc n)
  have i: "i < length h"
  proof (rule ccontr)
    assume "\<not> i < length h"
    then have "follow h i m = None" for m by (induction m) auto
    with Suc.prems(1) show False by simp
  qed
  obtain j where j: "next_cause (h ! i) = Some j" "j < length h" "follow h j n = Some k"
    using Suc.prems(1) unfolding follow_front[OF i] by (auto split: option.splits if_splits)
  have f: "follow h i (Suc m) = follow h j m" for m unfolding follow_front[OF i] using j by simp
  have f0: "follow h i 0 = Some i" using i by simp
  have iv: "i \<notin> set vis" using Suc.prems(4) f0 by blast
  have rest: "cancel_loop h (i # vis) (Some j)"
  proof (rule Suc.IH)
    show "follow h j n = Some k" by (rule j(3))
    show "is_cancel_kind (e_kind (h ! k))" by (rule Suc.prems(2))
    show "\<forall>m m'. m < m' \<longrightarrow> m' \<le> n \<longrightarrow> follow h j m \<noteq> follow h j m'"
      using Suc.prems(3) unfolding f[symmetric] by (metis Suc_le_mono Suc_mono)
    show "\<forall>m \<le> n. \<forall>l. follow h j m = Some l \<longrightarrow> l \<notin> set (i # vis)"
    proof (intro allI impI)
      fix m l assume m: "m \<le> n" "follow h j m = Some l"
      then have l: "follow h i (Suc m) = Some l" using f by simp
      have "follow h i 0 \<noteq> follow h i (Suc m)" using Suc.prems(3) m(1) by blast
      then have "l \<noteq> i" using l f0 by auto
      moreover have "l \<notin> set vis" using Suc.prems(4) l m(1) by blast
      ultimately show "l \<notin> set (i # vis)" by simp
    qed
  qed
  show ?case using iv i rest j(1) by (subst cancel_loop.simps) (simp del: cancel_loop.simps)
qed

lemma cancel_loop_iff:
  "cancel_loop h [] (Some i) \<longleftrightarrow> (\<exists>k. chain h i k \<and> is_cancel_kind (e_kind (h ! k)))"
proof
  assume "\<exists>k. chain h i k \<and> is_cancel_kind (e_kind (h ! k))"
  then obtain k where k: "chain h i k" "is_cancel_kind (e_kind (h ! k))" by blast
  define n where "n = (LEAST n. follow h i n = Some k)"
  have n: "follow h i n = Some k" unfolding n_def using chain_follow[OF k(1)] by (rule LeastI_ex)
  have least: "follow h i m \<noteq> Some k" if "m < n" for m using that unfolding n_def by (rule not_less_Least)
  have dist: "follow h i m \<noteq> follow h i m'" if m: "m < m'" "m' \<le> n" for m m'
  proof
    assume eq: "follow h i m = follow h i m'"
    have "\<exists>j. follow h i m' = Some j"
    proof (rule ccontr)
      assume "\<nexists>j. follow h i m' = Some j"
      then have none: "follow h i m' = None" by (cases "follow h i m'") auto
      have "follow h i (m' + d) = None" for d using none by (induction d) auto
      from this[of "n - m'"] m n show False by simp
    qed
    then obtain j where j: "follow h i m' = Some j" by blast
    have "follow h i (m + (n - m')) = follow h i (m' + (n - m'))"
      using follow_add[OF j] follow_add[of h i m j] eq j by simp
    then have "follow h i (m + (n - m')) = Some k" using m n by simp
    moreover have "m + (n - m') < n" using m by simp
    ultimately show False using least by blast
  qed
  show "cancel_loop h [] (Some i)"
    by (rule cancel_loop_complete[OF n k(2)]) (use dist in auto)
qed (blast dest: cancel_loop_sound)

section \<open>The activities a computation calls\<close>

text \<open>An executor that records the calls, named by the activity and its stage or status.\<close>

type_synonym call_name = "act \<times> string"

definition call_name :: "act \<Rightarrow> pyval list \<Rightarrow> call_name" where
  "call_name a args = (a, (case (if a = UpdateStage then drop 3 args else if a = FinishAttempt then drop 4 args else []) of
     PStr s # _ \<Rightarrow> s | _ \<Rightarrow> []))"

definition traced :: "'s executor \<Rightarrow> ('s \<times> call_name list) executor" where
  "traced exec a args st = (case st of (s, tr) \<Rightarrow>
     (case exec a args s of (s', r) \<Rightarrow> ((s', tr @ [call_name a args]), r)))"

text \<open>A computation calls a prefix of one of the given sequences, a whole one when it succeeds.\<close>

definition follows :: "('s \<times> call_name list, 'a) wf \<Rightarrow> call_name list set \<Rightarrow> bool" where
  "follows m N = (\<forall>s tr. \<exists>ns \<in> N. \<exists>k s' r. m (s, tr) = ((s', tr @ take k ns), r) \<and> k \<le> length ns \<and>
     (case r of Inl e \<Rightarrow> True | Inr x \<Rightarrow> k = length ns))"

lemma followsD1: "follows m {ns} \<Longrightarrow> \<exists>k s' r. m (s, tr) = ((s', tr @ take k ns), r) \<and> k \<le> length ns \<and>
     (case r of Inl e \<Rightarrow> True | Inr x \<Rightarrow> k = length ns)"
  unfolding follows_def by blast

lemma followsD: "follows m N \<Longrightarrow> \<exists>ns \<in> N. \<exists>k s' r. m (s, tr) = ((s', tr @ take k ns), r) \<and> k \<le> length ns \<and>
     (case r of Inl e \<Rightarrow> True | Inr x \<Rightarrow> k = length ns)"
  by (simp add: follows_def)

lemma follows_ret: "follows (wret x) {[]}"
  by (simp add: follows_def wret_def)

lemma follows_exec: "follows (traced exec a args) {[call_name a args]}"
  unfolding follows_def
proof (intro allI)
  fix s tr
  obtain s' r where "exec a args s = (s', r)" by (cases "exec a args s")
  then have "traced exec a args (s, tr) = ((s', tr @ take 1 [call_name a args]), r)"
    by (simp add: traced_def)
  then show "\<exists>ns \<in> {[call_name a args]}. \<exists>k s' r. traced exec a args (s, tr) = ((s', tr @ take k ns), r) \<and>
      k \<le> length ns \<and> (case r of Inl e \<Rightarrow> True | Inr x \<Rightarrow> k = length ns)"
    by (intro bexI[of _ "[call_name a args]"] exI[of _ "1::nat"] exI[of _ s'] exI[of _ r])
      (auto split: sum.splits)
qed

lemma follows_bind:
  assumes m: "follows m {ns}" and f: "\<And>x. follows (f x) M" and ne: "M \<noteq> {}"
  shows "follows (wbind m f) ((@) ns ` M)"
  unfolding follows_def
proof (intro allI)
  fix s tr
  obtain k s' r where 1: "m (s, tr) = ((s', tr @ take k ns), r)" "k \<le> length ns"
      "case r of Inl e \<Rightarrow> True | Inr x \<Rightarrow> k = length ns"
    using m unfolding follows_def by blast
  show "\<exists>ns' \<in> (@) ns ` M. \<exists>k s' r. wbind m f (s, tr) = ((s', tr @ take k ns'), r) \<and> k \<le> length ns' \<and>
     (case r of Inl e \<Rightarrow> True | Inr x \<Rightarrow> k = length ns')"
  proof (cases r)
    case (Inl e)
    obtain ms where "ms \<in> M" using ne by blast
    then show ?thesis using 1 Inl
      by (intro bexI[of _ "ns @ ms"] exI[of _ k] exI[of _ s'] exI[of _ "Inl e"]) (auto simp: wbind_def)
  next
    case (Inr x)
    obtain ms j s2 r2 where 2: "ms \<in> M" "f x (s', tr @ ns) = ((s2, (tr @ ns) @ take j ms), r2)" "j \<le> length ms"
        "case r2 of Inl e \<Rightarrow> True | Inr x \<Rightarrow> j = length ms"
      using f[of x] unfolding follows_def by blast
    then show ?thesis using 1 Inr
      by (intro bexI[of _ "ns @ ms"] exI[of _ "length ns + j"] exI[of _ s2] exI[of _ r2])
        (auto simp: wbind_def split: sum.splits)
  qed
qed

lemma follows_mono: "follows m A \<Longrightarrow> A \<subseteq> B \<Longrightarrow> follows m B"
  unfolding follows_def by blast

lemma follows_do: "follows m {ns} \<Longrightarrow> follows (wdo m) {ns}"
  unfolding wdo_def using follows_bind[OF _ follows_ret, of m ns] by simp

lemma follows_when: "follows m {ns} \<Longrightarrow> follows (wwhen b m) {if b then ns else []}"
  by (simp add: wwhen_def follows_ret)

lemma follows_log_exec: "follows (wlog (wdo (traced exec a args))) {[call_name a args]}"
  unfolding follows_def
proof (intro allI)
  fix s tr
  obtain s' r where e: "exec a args s = (s', r)" by (cases "exec a args s")
  have "\<exists>r'. wlog (wdo (traced exec a args)) (s, tr) = ((s', tr @ [call_name a args]), r')"
    using e by (cases r) (auto simp: wlog_def wdo_def wbind_def traced_def wret_def)
  then obtain r' where "wlog (wdo (traced exec a args)) (s, tr) = ((s', tr @ take 1 [call_name a args]), r')" by auto
  then show "\<exists>ns \<in> {[call_name a args]}. \<exists>k s' r. wlog (wdo (traced exec a args)) (s, tr) = ((s', tr @ take k ns), r) \<and>
      k \<le> length ns \<and> (case r of Inl e \<Rightarrow> True | Inr x \<Rightarrow> k = length ns)"
    by (intro bexI[of _ "[call_name a args]"] exI[of _ "1::nat"] exI[of _ s'] exI[of _ r'])
      (auto split: sum.splits)
qed

definition reg_names :: "wf_args \<Rightarrow> call_name list" where
  "reg_names w = (if registers w then [(RegisterIngestion, [])] else [])"

definition stage_names :: "wf_args \<Rightarrow> string \<Rightarrow> call_name list" where
  "stage_names w st = (if w_patched w \<and> given (w_doc w) \<and> given (w_att w) then [(UpdateStage, st)] else [])"

definition finish_names :: "wf_args \<Rightarrow> string \<Rightarrow> call_name list" where
  "finish_names w st = (if w_patched w \<and> given (w_doc w) \<and> given (w_att w) \<and> given (w_ver w)
     then [(FinishAttempt, st)] else [])"

definition main_names :: "wf_args \<Rightarrow> act \<Rightarrow> call_name list" where
  "main_names w extract =
     stage_names w ''detecting'' @ [(DetectType, [])] @
     stage_names w ''extracting'' @ [(extract, [])] @
     stage_names w ''chunking'' @ [(ChunkPages, [])] @
     stage_names w ''persisting'' @ [(PersistChunks, [])] @
     stage_names w ''indexing'' @ [(EmbedIndex, [])] @
     (if artifact_identity w \<noteq> PNone then [(ActivateVersion, [])] else []) @
     finish_names w ''indexed'' @
     (if artifact_identity w \<noteq> PNone then [(CleanupArtifacts, [])] else [])"

lemma follows_when_exec:
  "call_name a args = n \<Longrightarrow> follows (wwhen b (wdo (traced exec a args))) {if b then [n] else []}"
  using follows_when[OF follows_do[OF follows_exec[of exec a args]], of b] by (cases b) simp_all

lemma follows_stage: "follows (record_stage (traced exec) w st) {stage_names w st}"
  unfolding record_stage_def stage_names_def
  by (rule follows_when_exec) (simp add: call_name_def)

lemma follows_finish: "follows (finish (traced exec) w st err) {finish_names w st}"
  unfolding finish_def finish_names_def
  by (rule follows_when_exec) (simp add: call_name_def)

lemma follows_register: "follows (register_step (traced exec) w) {reg_names w}"
  unfolding register_step_def reg_names_def
  by (rule follows_when_exec) (simp add: call_name_def)

lemma follows_plain:
  "a \<noteq> UpdateStage \<Longrightarrow> a \<noteq> FinishAttempt \<Longrightarrow> follows (traced exec a args) {[(a, [])]}"
  using follows_exec[of exec a args] by (simp add: call_name_def)

lemma follows_activate:
  "follows (wwhen b (wdo (traced exec ActivateVersion args))) {if b then [(ActivateVersion, [])] else []}"
  by (rule follows_when, rule follows_do, rule follows_plain) simp_all

lemma follows_cleanup:
  "follows (wwhen b (wlog (wdo (traced exec CleanupArtifacts args)))) {if b then [(CleanupArtifacts, [])] else []}"
  using follows_when[OF follows_log_exec[of exec CleanupArtifacts args], of b] by (cases b) (simp_all add: call_name_def)

lemma follows_bind1:
  "follows m {ns} \<Longrightarrow> (\<And>x. follows (f x) {ms}) \<Longrightarrow> follows (wbind m f) {ns @ ms}"
  using follows_bind[of m ns f "{ms}"] by simp

lemma follows_body:
  "follows (body sha (traced exec) w) {main_names w ExtractTextract, main_names w ExtractUnstructured}"
proof -
  have tail: "follows (wbind (extract_step sha (traced exec) w doc_type) f)
      ((\<lambda>e. (e, []) # ms) ` {ExtractTextract, ExtractUnstructured})"
    if f: "\<And>x. follows (f x) {ms}" for doc_type f ms
  proof -
    have "\<exists>e \<in> {ExtractTextract, ExtractUnstructured}. follows (extract_step sha (traced exec) w doc_type) {[(e, [])]}"
      by (auto simp: extract_step_def intro: follows_plain)
    then obtain e where e: "e \<in> {ExtractTextract, ExtractUnstructured}"
      "follows (extract_step sha (traced exec) w doc_type) {[(e, [])]}" by blast
    have "follows (wbind (extract_step sha (traced exec) w doc_type) f) {[(e, [])] @ ms}"
      by (rule follows_bind1[OF e(2) f])
    then show ?thesis by (rule follows_mono) (use e(1) in auto)
  qed
  have rest: "\<And>extracted. follows (wbind (record_stage (traced exec) w ''chunking'') (\<lambda>_.
     wbind (traced exec ChunkPages (with_identity w [extracted, PInt 1500, PInt 200] [extracted])) (\<lambda>chunks.
     wbind (record_stage (traced exec) w ''persisting'') (\<lambda>_.
     wbind (traced exec PersistChunks (with_identity w [chunks, PStr (w_filename w), PStr (w_tenant w)]
              [chunks, PStr (w_filename w), PStr (w_tenant w)])) (\<lambda>stored.
     wbind (record_stage (traced exec) w ''indexing'') (\<lambda>_.
     wbind (traced exec EmbedIndex (with_identity w [chunks, PStr (w_filename w), PStr (w_tenant w)]
              [chunks, PStr (w_filename w), PStr (w_tenant w)])) (\<lambda>indexed.
     wbind (wwhen (artifact_identity w \<noteq> PNone)
              (wdo (traced exec ActivateVersion [pstr (w_doc w), pstr (w_ver w), PStr (w_tenant w)]))) (\<lambda>_.
     wbind (finish (traced exec) w ''indexed'' None) (\<lambda>_.
     wbind (wwhen (artifact_identity w \<noteq> PNone) (wlog (wdo (traced exec CleanupArtifacts [artifact_identity w])))) (\<lambda>_.
     wret (summary w chunks stored indexed))))))))))) {stage_names w ''chunking'' @ [(ChunkPages, [])] @
     stage_names w ''persisting'' @ [(PersistChunks, [])] @
     stage_names w ''indexing'' @ [(EmbedIndex, [])] @
     (if artifact_identity w \<noteq> PNone then [(ActivateVersion, [])] else []) @
     finish_names w ''indexed'' @
     (if artifact_identity w \<noteq> PNone then [(CleanupArtifacts, [])] else []) @ []}"
    by (intro follows_bind1 follows_stage follows_finish follows_activate follows_cleanup follows_ret
        follows_plain) simp_all
  have "follows (body sha (traced exec) w) ((@) (stage_names w ''detecting'') ` (@) [(DetectType, [])] `
      (@) (stage_names w ''extracting'') ` (\<lambda>e. (e, []) # stage_names w ''chunking'' @ [(ChunkPages, [])] @
     stage_names w ''persisting'' @ [(PersistChunks, [])] @
     stage_names w ''indexing'' @ [(EmbedIndex, [])] @
     (if artifact_identity w \<noteq> PNone then [(ActivateVersion, [])] else []) @
     finish_names w ''indexed'' @
     (if artifact_identity w \<noteq> PNone then [(CleanupArtifacts, [])] else []) @ []) ` {ExtractTextract, ExtractUnstructured})"
    unfolding body_def
    by (intro follows_bind follows_stage tail rest follows_plain) simp_all
  then show ?thesis by (rule follows_mono) (auto simp: main_names_def)
qed

section \<open>Activities on the database\<close>

text \<open>
  The executor whose database activities are the transactions of \<open>Ingestion_Db\<close>. The
  remaining activities, the artifact reader, the two indexes and the clock are parameters on
  the rest \<open>'x\<close> of the outside world.
\<close>

record 'x world =
  ext :: "act \<Rightarrow> pyval list \<Rightarrow> 'x \<Rightarrow> 'x \<times> (wf_error + pyval)"
  load_chunks :: "pyval \<Rightarrow> 'x \<Rightarrow> text_chunk list option"
  vec_activate :: "string \<Rightarrow> string \<Rightarrow> string \<Rightarrow> string \<Rightarrow> 'x \<Rightarrow> 'x \<times> bool"
  rebuild_bm25 :: "'x \<Rightarrow> 'x \<times> bool"
  clock :: "'x \<Rightarrow> int"

definition raised :: wf_error where
  "raised = ([\<lparr>e_kind = OtherError, e_cause = None, e_dunder = None\<rparr>], 0)"

definition tx_act :: "db_op \<Rightarrow> db \<times> 'x \<Rightarrow> (db \<times> 'x) \<times> (wf_error + pyval)" where
  "tx_act p st = (case st of (s, x) \<Rightarrow>
     (case run_op p s of Inl e \<Rightarrow> ((s, x), Inl raised) | Inr t \<Rightarrow> ((t, x), Inr (PBool True))))"

definition str_of :: "pyval \<Rightarrow> string" where
  "str_of v = (case v of PStr s \<Rightarrow> s | _ \<Rightarrow> [])"

definition opt_str :: "pyval \<Rightarrow> string option" where
  "opt_str v = (case v of PStr s \<Rightarrow> Some s | _ \<Rightarrow> None)"

text \<open>\<open>persist_chunks\<close>: an artifact identity requires an artifact reference and conversely.\<close>

definition persist_act :: "'x world \<Rightarrow> pyval list \<Rightarrow> db \<times> 'x \<Rightarrow> (db \<times> 'x) \<times> (wf_error + pyval)" where
  "persist_act W args st =
     (let chunks = args ! 0; filename = str_of (args ! 1); tenant = str_of (args ! 2);
          identity = (if length args = 4 then args ! 3 else PNone);
          is_ref = (case chunks of PDict d \<Rightarrow> True | _ \<Rightarrow> False)
      in if (identity \<noteq> PNone) \<noteq> is_ref then (st, Inl raised)
         else (case load_chunks W chunks (snd st) of None \<Rightarrow> (st, Inl raised)
           | Some cs \<Rightarrow> tx_act (OpPersist cs filename tenant
               (case identity of PDict d \<Rightarrow> Some (str_of (dget d ''document_id''), str_of (dget d ''version_id''))
                | _ \<Rightarrow> None)) st))"

definition db_exec :: "'x world \<Rightarrow> (db \<times> 'x) executor" where
  "db_exec W a args st =
     (case a of
        RegisterIngestion \<Rightarrow> tx_act (OpRegister \<lparr>i_doc = str_of (args ! 0), i_att = str_of (args ! 1),
          i_ver = str_of (args ! 2), i_ref = str_of (args ! 3), i_sha = str_of (args ! 4),
          i_filename = str_of (args ! 5), i_tenant = str_of (args ! 6), i_workflow = str_of (args ! 7)\<rparr>) st
      | UpdateStage \<Rightarrow> tx_act (OpStage (str_of (args ! 0)) (str_of (args ! 1)) (str_of (args ! 2))
          (str_of (args ! 3)) (clock W (snd st))) st
      | FinishAttempt \<Rightarrow> tx_act (OpFinish (str_of (args ! 0)) (str_of (args ! 1)) (str_of (args ! 2))
          (str_of (args ! 3)) (str_of (args ! 4)) (opt_str (args ! 5)) (clock W (snd st))) st
      | PersistChunks \<Rightarrow> persist_act W args st
      | ActivateVersion \<Rightarrow>
          (case activate_ingestion_version_sync (vec_activate W) (rebuild_bm25 W) (str_of (args ! 0))
             (str_of (args ! 1)) (str_of (args ! 2)) (clock W (snd st)) st of
            (st', Inl e) \<Rightarrow> (st', Inl raised) | (st', Inr b) \<Rightarrow> (st', Inr (PBool b)))
      | _ \<Rightarrow> (case ext W a args (snd st) of (x', r) \<Rightarrow> ((fst st, x'), r)))"

lemma tx_act_inv:
  "db_inv (fst st) \<Longrightarrow> tx_act p st = (st', r) \<Longrightarrow> db_inv (fst st') \<and>
    (abs_db (fst st') = (case r of Inl e \<Rightarrow> abs_db (fst st) | Inr v \<Rightarrow> spec_op p (abs_db (fst st))))"
  by (cases st) (auto simp: tx_act_def run_op_inv run_op_sim split: sum.splits)

lemma activate_act_inv:
  assumes "db_inv s" "activate_ingestion_version_sync act reb doc ver tenant now (s, x) = ((s', x'), r)"
  shows "db_inv s' \<and> (abs_db s' = abs_db s \<or> abs_db s' = (abs_db s)(doc := Live (Some ver))) \<and>
    (is_ok r \<longrightarrow> abs_db s' = (abs_db s)(doc := Live (Some ver)))"
proof (cases "activate_version_tx doc ver tenant now s")
  case (Inl e)
  then show ?thesis using assms by (auto simp: activate_ingestion_version_sync_def)
next
  case (Inr t)
  then have "s' = t" using assms(2)
    by (auto simp: activate_ingestion_version_sync_def Let_def split: prod.splits if_splits)
  then show ?thesis using activate_inv[OF assms(1) Inr] sim_activate[OF assms(1) Inr] by simp
qed

text \<open>
  How computations treat the publication state: \<open>pres R m\<close> says that whatever \<open>m\<close> does and
  however it ends, the invariant is kept and the states before and after are related by \<open>R\<close>.
\<close>

definition pres :: "((string \<Rightarrow> pub) \<Rightarrow> (string \<Rightarrow> pub) \<Rightarrow> bool) \<Rightarrow> (db \<times> 'x, 'a) wf \<Rightarrow> bool" where
  "pres R m = (\<forall>st. db_inv (fst st) \<longrightarrow> db_inv (fst (fst (m st))) \<and> R (abs_db (fst st)) (abs_db (fst (fst (m st)))))"

lemma presD: "pres R m \<Longrightarrow> db_inv (fst st) \<Longrightarrow> m st = (st', r) \<Longrightarrow>
    db_inv (fst st') \<and> R (abs_db (fst st)) (abs_db (fst st'))"
  unfolding pres_def by (metis fst_conv)

lemma presI: "(\<And>st st' r. db_inv (fst st) \<Longrightarrow> m st = (st', r) \<Longrightarrow>
    db_inv (fst st') \<and> R (abs_db (fst st)) (abs_db (fst st'))) \<Longrightarrow> pres R m"
  unfolding pres_def by (metis prod.collapse)

locale publication_frame =
  fixes R :: "(string \<Rightarrow> pub) \<Rightarrow> (string \<Rightarrow> pub) \<Rightarrow> bool"
  assumes refl_R: "R A A"
    and trans_R: "R A B \<Longrightarrow> R B C \<Longrightarrow> R A C"
begin

lemma pres_ret: "pres R (wret x)"
  by (simp add: pres_def wret_def refl_R)

lemma pres_bind:
  assumes "pres R m" "\<And>x. pres R (f x)"
  shows "pres R (wbind m f)"
proof (rule presI)
  fix st st' r assume st: "db_inv (fst st)" and run: "wbind m f st = (st', r)"
  obtain st1 r1 where m: "m st = (st1, r1)" by (cases "m st")
  note 1 = presD[OF assms(1) st m]
  show "db_inv (fst st') \<and> R (abs_db (fst st)) (abs_db (fst st'))"
  proof (cases r1)
    case (Inl e)
    then show ?thesis using run m 1 by (simp add: wbind_def)
  next
    case (Inr x)
    then have "f x st1 = (st', r)" using run m by (simp add: wbind_def)
    from presD[OF assms(2) _ this] 1 show ?thesis using trans_R by blast
  qed
qed

lemma pres_when: "pres R m \<Longrightarrow> pres R (wwhen b m)"
  by (simp add: wwhen_def pres_ret)

lemma pres_do: "pres R m \<Longrightarrow> pres R (wdo m)"
  unfolding wdo_def by (rule pres_bind) (simp_all add: pres_ret)

lemma pres_log:
  assumes "pres R m"
  shows "pres R (wlog m)"
proof (rule presI)
  fix st st' r assume st: "db_inv (fst st)" and run: "wlog m st = (st', r)"
  obtain st1 r1 where m: "m st = (st1, r1)" by (cases "m st")
  have "st' = st1" using run m by (auto simp: wlog_def split: sum.splits if_splits)
  then show "db_inv (fst st') \<and> R (abs_db (fst st)) (abs_db (fst st'))"
    using presD[OF assms st m] by simp
qed

lemma pres_rescue:
  assumes "pres R m" "\<And>e. pres R (h e)"
  shows "pres R (wrescue m h)"
proof (rule presI)
  fix st st' r assume st: "db_inv (fst st)" and run: "wrescue m h st = (st', r)"
  obtain st1 r1 where m: "m st = (st1, r1)" by (cases "m st")
  note 1 = presD[OF assms(1) st m]
  show "db_inv (fst st') \<and> R (abs_db (fst st)) (abs_db (fst st'))"
  proof (cases r1)
    case (Inr x)
    then show ?thesis using run m 1 by (simp add: wrescue_def)
  next
    case (Inl e)
    obtain st2 r2 where h: "h e st1 = (st2, r2)" by (cases "h e st1")
    then have "st' = st2" using run m Inl by (auto simp: wrescue_def split: sum.splits)
    moreover have "db_inv (fst st2) \<and> R (abs_db (fst st1)) (abs_db (fst st2))"
      using presD[OF assms(2) _ h] 1 by blast
    ultimately show ?thesis using 1 trans_R by blast
  qed
qed

lemma pres_raise: "pres R (\<lambda>st. (st, Inl e))"
  by (simp add: pres_def refl_R)

lemma pres_pointI:
  assumes "\<And>s x. \<exists>m. pres R m \<and> M (s, x) = m (s, x)"
  shows "pres R M"
  unfolding pres_def
proof (intro allI impI)
  fix st :: "db \<times> 'a" assume st: "db_inv (fst st)"
  obtain m where m: "pres R m" "M (fst st, snd st) = m (fst st, snd st)" using assms by blast
  from m(2) have "M st = m st" by simp
  then show "db_inv (fst (fst (M st))) \<and> R (abs_db (fst st)) (abs_db (fst (fst (M st))))"
    using m(1) st unfolding pres_def by metis
qed

lemma pres_ext: "pres R (\<lambda>st. case f (snd st) of (x', r) \<Rightarrow> ((fst st, x'), r))"
  by (auto simp: pres_def refl_R split: prod.splits)

lemma pres_tx:
  assumes "\<And>A. R A (spec_op p A)"
  shows "pres R (tx_act p)"
proof (rule presI)
  fix st st' r assume "db_inv (fst st)" "tx_act p st = (st', r)"
  from tx_act_inv[OF this] assms show "db_inv (fst st') \<and> R (abs_db (fst st)) (abs_db (fst st'))"
    by (cases r) (simp_all add: refl_R)
qed

end

text \<open>
  \<open>(=)\<close>: nothing published changes; \<open>only doc ver\<close>: at most the document \<open>doc\<close> changes, by
  being created or by publishing \<open>ver\<close>.
\<close>

definition only :: "string \<Rightarrow> string \<Rightarrow> (string \<Rightarrow> pub) \<Rightarrow> (string \<Rightarrow> pub) \<Rightarrow> bool" where
  "only doc ver A B = ((\<forall>e. e \<noteq> doc \<longrightarrow> B e = A e) \<and>
     (B doc = A doc \<or> A doc = Absent \<and> B doc = Live None \<or> B doc = Live (Some ver)))"

interpretation quiet: publication_frame "(=)"
  by unfold_locales simp_all

interpretation own: publication_frame "only doc ver"
  by unfold_locales (auto simp: only_def)

lemma pres_weaken: "pres (=) m \<Longrightarrow> pres (only doc ver) m"
  by (simp add: pres_def own.refl_R)

lemma quiet_persist: "pres (=) (persist_act W args)"
proof (rule quiet.pres_pointI)
  fix s x
  show "\<exists>m. pres (=) m \<and> persist_act W args (s, x) = m (s, x)"
  proof (cases "load_chunks W (args ! 0) x")
    case None
    then show ?thesis
      by (intro exI[of _ "\<lambda>st. (st, Inl raised)"]) (simp add: quiet.pres_raise persist_act_def Let_def)
  next
    case (Some cs)
    then consider "persist_act W args (s, x) = ((s, x), Inl raised)"
      | f t i where "persist_act W args (s, x) = tx_act (OpPersist cs f t i) (s, x)"
      unfolding persist_act_def Let_def by fastforce
    then show ?thesis
    proof cases
      case 1
      then show ?thesis by (intro exI[of _ "\<lambda>st. (st, Inl raised)"]) (simp add: quiet.pres_raise)
    next
      case (2 f t i)
      then show ?thesis by (intro exI[of _ "tx_act (OpPersist cs f t i)"]) (simp add: quiet.pres_tx)
    qed
  qed
qed

lemma quiet_exec:
  assumes "a \<notin> {RegisterIngestion, ActivateVersion}"
  shows "pres (=) (db_exec W a args)"
proof -
  have ext: "pres (=) (db_exec W b args)" if "b \<notin> {RegisterIngestion, ActivateVersion, UpdateStage, FinishAttempt, PersistChunks}" for b
  proof -
    have "db_exec W b args = (\<lambda>st. case ext W b args (snd st) of (x', r) \<Rightarrow> ((fst st, x'), r))"
      using that by (cases b) (auto simp: db_exec_def)
    then show ?thesis using quiet.pres_ext[of "ext W b args"] by simp
  qed
  have "pres (=) (db_exec W UpdateStage args)"
  proof (rule quiet.pres_pointI)
    fix s x
    let ?m = "tx_act (OpStage (str_of (args ! 0)) (str_of (args ! 1)) (str_of (args ! 2)) (str_of (args ! 3)) (clock W x))"
    show "\<exists>m. pres (=) m \<and> db_exec W UpdateStage args (s, x) = m (s, x)"
      by (rule exI[of _ ?m]) (simp add: quiet.pres_tx db_exec_def)
  qed
  moreover have "pres (=) (db_exec W FinishAttempt args)"
  proof (rule quiet.pres_pointI)
    fix s x
    let ?m = "tx_act (OpFinish (str_of (args ! 0)) (str_of (args ! 1)) (str_of (args ! 2)) (str_of (args ! 3))
      (str_of (args ! 4)) (opt_str (args ! 5)) (clock W x))"
    show "\<exists>m. pres (=) m \<and> db_exec W FinishAttempt args (s, x) = m (s, x)"
      by (rule exI[of _ ?m]) (simp add: quiet.pres_tx db_exec_def)
  qed
  moreover have "pres (=) (db_exec W PersistChunks args)"
  proof -
    have "db_exec W PersistChunks args = persist_act W args" by (simp add: db_exec_def fun_eq_iff)
    then show ?thesis by (simp add: quiet_persist)
  qed
  ultimately show ?thesis using assms ext[of a] by blast
qed

lemma register_only:
  assumes "w_doc w = Some doc"
  shows "pres (only doc ver) (register_step (db_exec W) w)"
proof -
  have "pres (only doc ver) (db_exec W RegisterIngestion (PStr doc # args))" for args
  proof (rule own.pres_pointI)
    fix s x
    let ?a = "PStr doc # args"
    let ?m = "tx_act (OpRegister \<lparr>i_doc = str_of (?a ! 0), i_att = str_of (?a ! 1),
          i_ver = str_of (?a ! 2), i_ref = str_of (?a ! 3), i_sha = str_of (?a ! 4),
          i_filename = str_of (?a ! 5), i_tenant = str_of (?a ! 6), i_workflow = str_of (?a ! 7)\<rparr>)"
    have "pres (only doc ver) ?m" by (rule own.pres_tx) (simp add: only_def str_of_def)
    moreover have "db_exec W RegisterIngestion ?a (s, x) = ?m (s, x)" by (simp add: db_exec_def)
    ultimately show "\<exists>m. pres (only doc ver) m \<and> db_exec W RegisterIngestion ?a (s, x) = m (s, x)" by blast
  qed
  then show ?thesis unfolding register_step_def
    by (intro own.pres_when own.pres_do) (simp add: pstr_def assms)
qed

lemma activate_exec_run:
  assumes "db_inv (fst st)" "db_exec W ActivateVersion [PStr doc, PStr ver, PStr tenant] st = (st', r)"
  shows "db_inv (fst st') \<and> (abs_db (fst st') = abs_db (fst st) \<or> abs_db (fst st') = (abs_db (fst st))(doc := Live (Some ver))) \<and>
    (case r of Inl e \<Rightarrow> True | Inr v \<Rightarrow> abs_db (fst st') = (abs_db (fst st))(doc := Live (Some ver)))"
proof -
  obtain s x where st: "st = (s, x)" by (cases st)
  obtain s1 x1 r1 where a: "activate_ingestion_version_sync (vec_activate W) (rebuild_bm25 W) doc ver tenant (clock W x) (s, x) = ((s1, x1), r1)"
    by (metis prod.collapse)
  have "st' = (s1, x1)" "is_ok r1 = (case r of Inl e \<Rightarrow> False | Inr v \<Rightarrow> True)"
    using assms(2) a by (auto simp: st db_exec_def str_of_def split: sum.splits)
  then show ?thesis using activate_act_inv[OF _ a] assms(1) st by (auto split: sum.splits)
qed

lemma activate_only: "pres (only doc ver) (db_exec W ActivateVersion [PStr doc, PStr ver, PStr tenant])"
proof (rule presI)
  fix st st' r assume "db_inv (fst st)" "db_exec W ActivateVersion [PStr doc, PStr ver, PStr tenant] st = (st', r)"
  from activate_exec_run[OF this]
  show "db_inv (fst st') \<and> only doc ver (abs_db (fst st)) (abs_db (fst st'))"
    by (auto simp: only_def)
qed

text \<open>\<open>ends Q m\<close>: when \<open>m\<close> succeeds, the publication state satisfies \<open>Q\<close>.\<close>

definition ends :: "((string \<Rightarrow> pub) \<Rightarrow> bool) \<Rightarrow> (db \<times> 'x, 'a) wf \<Rightarrow> bool" where
  "ends Q m = (\<forall>st st' y. db_inv (fst st) \<longrightarrow> m st = (st', Inr y) \<longrightarrow> Q (abs_db (fst st')))"

lemma endsD: "ends Q m \<Longrightarrow> db_inv (fst st) \<Longrightarrow> m st = (st', Inr y) \<Longrightarrow> Q (abs_db (fst st'))"
  unfolding ends_def by blast

lemma ends_right:
  assumes "pres (=) m" "\<And>x. ends Q (f x)"
  shows "ends Q (wbind m f)"
  unfolding ends_def
proof (intro allI impI)
  fix st st' y assume st: "db_inv (fst st)" and run: "wbind m f st = (st', Inr y)"
  obtain st1 x where m: "m st = (st1, Inr x)" "f x st1 = (st', Inr y)"
    using run by (auto simp: wbind_def split: prod.splits sum.splits)
  then show "Q (abs_db (fst st'))" using presD[OF assms(1) st m(1)] endsD[OF assms(2) _ m(2)] by blast
qed

lemma ends_left:
  assumes "ends Q m" "pres R m" "\<And>x. pres (=) (f x)"
  shows "ends Q (wbind m f)"
  unfolding ends_def
proof (intro allI impI)
  fix st st' y assume st: "db_inv (fst st)" and run: "wbind m f st = (st', Inr y)"
  obtain st1 x where m: "m st = (st1, Inr x)" "f x st1 = (st', Inr y)"
    using run by (auto simp: wbind_def split: prod.splits sum.splits)
  have inv: "db_inv (fst st1)" using presD[OF assms(2) st m(1)] by simp
  have "Q (abs_db (fst st1))" using endsD[OF assms(1) st m(1)] .
  then show "Q (abs_db (fst st'))" using presD[OF assms(3) inv m(2)] by simp
qed

lemma ends_activate: "ends (\<lambda>A. A doc = Live (Some ver)) (wdo (db_exec W ActivateVersion [PStr doc, PStr ver, PStr tenant]))"
  unfolding ends_def
proof (intro allI impI)
  fix st st' y assume st: "db_inv (fst st)"
    and run: "wdo (db_exec W ActivateVersion [PStr doc, PStr ver, PStr tenant]) st = (st', Inr y)"
  obtain v where "db_exec W ActivateVersion [PStr doc, PStr ver, PStr tenant] st = (st', Inr v)"
    using run by (auto simp: wdo_def wbind_def wret_def split: prod.splits sum.splits)
  from activate_exec_run[OF st this] show "abs_db (fst st') doc = Live (Some ver)" by simp
qed

lemma quiet_stage: "pres (=) (record_stage (db_exec W) w st)"
  unfolding record_stage_def by (intro quiet.pres_when quiet.pres_do quiet_exec) simp

lemma quiet_finish: "pres (=) (finish (db_exec W) w st e)"
  unfolding finish_def by (intro quiet.pres_when quiet.pres_do quiet_exec) simp

lemma quiet_extract: "pres (=) (extract_step sha (db_exec W) w t)"
  unfolding extract_step_def by (auto intro: quiet_exec)

lemma quiet_report: "pres (=) (report_failure (db_exec W) w e)"
  unfolding report_failure_def by (intro quiet.pres_log quiet_finish)

lemma quiet_cleanup: "pres (=) (wwhen b (wlog (wdo (db_exec W CleanupArtifacts args))))"
  by (intro quiet.pres_when quiet.pres_log quiet.pres_do quiet_exec) simp

lemma body_only:
  assumes "w_doc w = Some doc" "w_ver w = Some ver"
  shows "pres (only doc ver) (body sha (db_exec W) w)"
proof -
  have act: "pres (only doc ver) (wwhen b (wdo (db_exec W ActivateVersion [pstr (w_doc w), pstr (w_ver w), PStr (w_tenant w)])))" for b
    by (intro own.pres_when own.pres_do) (simp add: assms pstr_def activate_only)
  show ?thesis unfolding body_def
    by (intro own.pres_bind act own.pres_ret pres_weaken[OF quiet_stage] pres_weaken[OF quiet_finish]
        pres_weaken[OF quiet_extract] pres_weaken[OF quiet_cleanup] pres_weaken[OF quiet_exec]) simp_all
qed

lemma body_ends:
  assumes "w_doc w = Some doc" "w_ver w = Some ver" "artifact_identity w \<noteq> PNone"
  shows "ends (\<lambda>A. A doc = Live (Some ver)) (body sha (db_exec W) w)"
proof -
  have act: "ends (\<lambda>A. A doc = Live (Some ver)) (wwhen (artifact_identity w \<noteq> PNone)
      (wdo (db_exec W ActivateVersion [pstr (w_doc w), pstr (w_ver w), PStr (w_tenant w)])))"
    "pres (only doc ver) (wwhen (artifact_identity w \<noteq> PNone)
      (wdo (db_exec W ActivateVersion [pstr (w_doc w), pstr (w_ver w), PStr (w_tenant w)])))"
    using assms ends_activate by (simp_all add: wwhen_def pstr_def own.pres_do activate_only)
  have tail: "ends (\<lambda>A. A doc = Live (Some ver)) (wbind (wwhen (artifact_identity w \<noteq> PNone)
      (wdo (db_exec W ActivateVersion [pstr (w_doc w), pstr (w_ver w), PStr (w_tenant w)])))
     (\<lambda>_. wbind (finish (db_exec W) w ''indexed'' None) (\<lambda>_.
     wbind (wwhen (artifact_identity w \<noteq> PNone) (wlog (wdo (db_exec W CleanupArtifacts [artifact_identity w])))) (\<lambda>_.
     wret v))))" for v
    by (rule ends_left[OF act]) (intro quiet.pres_bind quiet_finish quiet_cleanup quiet.pres_ret)
  show ?thesis unfolding body_def
    by (intro ends_right tail quiet_stage quiet_extract quiet_exec) simp_all
qed

lemma report_run:
  "\<exists>s' r. report_failure (traced exec) w e (s, tr) = ((s', tr @ finish_names w (fst (failure_status e))), r) \<and>
     (\<forall>e'. r = Inl e' \<longrightarrow> root_kind e' = AsyncCancelled)"
proof (cases "w_patched w \<and> given (w_doc w) \<and> given (w_att w) \<and> given (w_ver w)")
  case False
  then show ?thesis by (auto simp: report_failure_def finish_def wwhen_def wlog_def wret_def finish_names_def)
next
  case True
  let ?args = "[pstr (w_doc w), pstr (w_att w), pstr (w_ver w), PStr (w_tenant w),
      PStr (fst (failure_status e)), pstr (Some (snd (failure_status e)))]"
  obtain s' r where run: "exec FinishAttempt ?args s = (s', r)" by (cases "exec FinishAttempt ?args s")
  have name: "call_name FinishAttempt ?args = (FinishAttempt, fst (failure_status e))" by (simp add: call_name_def)
  have "report_failure (traced exec) w e (s, tr) =
      ((s', tr @ [(FinishAttempt, fst (failure_status e))]),
       case r of Inl e' \<Rightarrow> if is_exception e' then Inr () else Inl e' | Inr v \<Rightarrow> Inr ())"
    using True run name
    by (cases r) (simp_all add: report_failure_def finish_def wwhen_def wlog_def wdo_def wbind_def wret_def traced_def)
  then show ?thesis using True by (auto simp: finish_names_def is_exception_def split: sum.splits)
qed

section \<open>Properties\<close>

text \<open>Recognising a wrapped cancellation terminates and is exact for every exception graph, cyclic
  ones included: a failure counts as a cancellation exactly when some exception on its chain of
  causes is one.\<close>

lemma cancellation_exact:
  "is_cancellation_failure (h, i) \<longleftrightarrow> (\<exists>k. chain h i k \<and> is_cancel_kind (e_kind (h ! k)))"
  by (simp add: is_cancellation_failure_def cancel_loop_iff del: cancel_loop.simps)

text \<open>Order and failure reporting of the ingestion workflow: a successful run calls exactly
  registration, then detect, extract, chunk, persist and embed each after its stage record, then
  activation, the indexed mark and the cleanup, in that order. A run that fails in registration
  stops there; one that fails later has called a prefix of that sequence followed by exactly one
  report, as cancelled when the failure is a cancellation and as failed otherwise, and re-raises
  the failure unless the report is itself interrupted by a cancellation.\<close>

lemma workflow_calls:
  assumes "run_workflow sha (traced exec) w (s, []) = ((s', tr), r)"
  shows "case r of
      Inr v \<Rightarrow> \<exists>e \<in> {ExtractTextract, ExtractUnstructured}. tr = reg_names w @ main_names w e
    | Inl err \<Rightarrow> (\<exists>k. tr = take k (reg_names w)) \<or>
        (\<exists>e \<in> {ExtractTextract, ExtractUnstructured}. \<exists>k \<le> length (main_names w e). \<exists>err0.
           tr = reg_names w @ take k (main_names w e) @ finish_names w (fst (failure_status err0)) \<and>
           (err = err0 \<or> root_kind err = AsyncCancelled))"
proof -
  obtain k1 s1 r1 where 1: "register_step (traced exec) w (s, []) = ((s1, take k1 (reg_names w)), r1)"
      "case r1 of Inl e \<Rightarrow> True | Inr x \<Rightarrow> k1 = length (reg_names w)"
    using followsD1[OF follows_register[of exec w], of s "[]"] by auto
  show ?thesis
  proof (cases r1)
    case (Inl e)
    then show ?thesis using assms 1 by (auto simp: run_workflow_def wbind_def)
  next
    case (Inr u)
    then have reg: "register_step (traced exec) w (s, []) = ((s1, reg_names w), Inr u)" using 1 by simp
    obtain e k2 s2 r2 where e: "e \<in> {ExtractTextract, ExtractUnstructured}" and
      2: "body sha (traced exec) w (s1, reg_names w) = ((s2, reg_names w @ take k2 (main_names w e)), r2)"
      "k2 \<le> length (main_names w e)" "case r2 of Inl e \<Rightarrow> True | Inr x \<Rightarrow> k2 = length (main_names w e)"
      using followsD[OF follows_body[of sha exec w], of s1 "reg_names w"] by auto
    show ?thesis
    proof (cases r2)
      case (Inr v)
      then have "tr = reg_names w @ main_names w e" "r = Inr v"
        using assms reg 2 by (auto simp: run_workflow_def wbind_def wrescue_def)
      then show ?thesis using e by auto
    next
      case (Inl err0)
      let ?tr = "reg_names w @ take k2 (main_names w e)" and ?st = "fst (failure_status err0)"
      obtain s3 r3 where 3: "report_failure (traced exec) w err0 (s2, ?tr) = ((s3, ?tr @ finish_names w ?st), r3)"
          "\<forall>e'. r3 = Inl e' \<longrightarrow> root_kind e' = AsyncCancelled"
        using report_run[of exec w err0 s2 ?tr] by blast
      have run: "run_workflow sha (traced exec) w (s, []) =
          ((s3, ?tr @ finish_names w ?st), case r3 of Inl e' \<Rightarrow> Inl e' | Inr x \<Rightarrow> Inl err0)"
        using reg 2 Inl 3(1) by (simp add: run_workflow_def wbind_def wrescue_def split: sum.splits)
      then have t: "tr = ?tr @ finish_names w ?st" and r: "r = (case r3 of Inl e' \<Rightarrow> Inl e' | Inr x \<Rightarrow> Inl err0)"
        using assms by simp_all
      obtain err1 where err1: "r = Inl err1" "err1 = err0 \<or> root_kind err1 = AsyncCancelled"
        using r 3(2) by (cases r3) auto
      have "tr = reg_names w @ take k2 (main_names w e) @ finish_names w (fst (failure_status err0))"
        using t by simp
      then show ?thesis using e 2(2) err1(2) unfolding err1(1) sum.case by blast
    qed
  qed
qed

text \<open>A run in which persisting fails with a wrapped cancellation.\<close>

definition demo_args :: wf_args where
  "demo_args = \<lparr>w_file = ''f'', w_filename = ''f'', w_tenant = ''t'', w_doc = Some ''d'', w_sha = Some ''s'',
     w_att = Some ''a'', w_ver = Some ''v'', w_workflow = ''w'', w_patched = True\<rparr>"

definition demo_exec :: "unit executor" where
  "demo_exec a args s = ((), if a = PersistChunks
     then Inl ([\<lparr>e_kind = OtherError, e_cause = Some 1, e_dunder = None\<rparr>,
                \<lparr>e_kind = TemporalCancelled, e_cause = Some 0, e_dunder = None\<rparr>], 0)
     else Inr PNone)"

lemma workflow_calls_witness:
  "\<exists>tr. snd (fst (run_workflow id (traced demo_exec) demo_args ((), []))) = tr \<and>
     last tr = (FinishAttempt, ''cancelled'') \<and> (ActivateVersion, []) \<notin> set tr"
proof -
  let ?res = "run_workflow id (traced demo_exec) demo_args ((), [])"
  have st: "snd (fst ?res) = [(RegisterIngestion, []), (UpdateStage, ''detecting''), (DetectType, []),
     (UpdateStage, ''extracting''), (ExtractUnstructured, []), (UpdateStage, ''chunking''), (ChunkPages, []),
     (UpdateStage, ''persisting''), (PersistChunks, []), (FinishAttempt, ''cancelled'')]" by code_simp
  have "?res = ((fst (fst ?res), snd (fst ?res)), snd ?res)" by (simp only: prod.collapse)
  from workflow_calls[OF this] show ?thesis unfolding st by simp
qed

text \<open>C3 The workflow on the real transactions: whatever the outside world does, a run keeps the
  database invariant, touches the publication state of no other document, and leaves its own
  document as it was, newly created, or publishing this version; a run that succeeds leaves the
  version published.\<close>

theorem workflow_publishes:
  assumes "db_inv s" "w_doc w = Some doc" "w_ver w = Some ver" "doc \<noteq> []" "ver \<noteq> []" "w_patched w"
    "run_workflow sha (db_exec W) w (s, x) = ((s', x'), r)"
  shows "db_inv s' \<and> only doc ver (abs_db s) (abs_db s') \<and>
    (case r of Inl e \<Rightarrow> True | Inr v \<Rightarrow> abs_db s' doc = Live (Some ver))"
proof -
  have id: "artifact_identity w \<noteq> PNone" using assms by (simp add: artifact_identity_def given_def)
  have "pres (only doc ver) (run_workflow sha (db_exec W) w)"
    unfolding run_workflow_def
    by (intro own.pres_bind own.pres_rescue register_only[OF assms(2)] body_only[OF assms(2,3)]
        pres_weaken[OF quiet_report])
  from presD[OF this _ assms(7)] assms(1) have 1: "db_inv s' \<and> only doc ver (abs_db s) (abs_db s')" by simp
  have "abs_db s' doc = Live (Some ver)" if r: "r = Inr v" for v
  proof -
    obtain st1 u where reg: "register_step (db_exec W) w (s, x) = (st1, Inr u)"
      and rest: "wrescue (body sha (db_exec W) w) (report_failure (db_exec W) w) st1 = ((s', x'), r)"
      using assms(7) r by (auto simp: run_workflow_def wbind_def split: prod.splits sum.splits)
    have b: "body sha (db_exec W) w st1 = ((s', x'), Inr v)"
      using rest r by (auto simp: wrescue_def split: prod.splits sum.splits)
    have "db_inv (fst st1)" using presD[OF register_only[OF assms(2)] _ reg] assms(1) by simp
    from endsD[OF body_ends[OF assms(2,3) id] this b] show ?thesis by simp
  qed
  with 1 show ?thesis by (cases r) auto
qed

definition demo_world :: "unit world" where
  "demo_world = \<lparr>ext = (\<lambda>a args x. (x, Inr (PDict [(''item_count'', PInt 1)]))),
     load_chunks = (\<lambda>v x. Some [\<lparr>chunk_text = ''x'', chunk_page = 1\<rparr>]),
     vec_activate = (\<lambda>t d v f x. (x, True)), rebuild_bm25 = (\<lambda>x. (x, True)), clock = (\<lambda>x. 7)\<rparr>"

theorem workflow_publishes_witness:
  "abs_db (fst (fst (run_workflow id (db_exec demo_world) (demo_args\<lparr>w_sha := Some (replicate 64 CHR ''0'')\<rparr>)
     (empty_db, ())))) ''d'' = Live (Some ''v'')"
proof -
  let ?w = "demo_args\<lparr>w_sha := Some (replicate 64 CHR ''0'')\<rparr>"
  let ?res = "run_workflow id (db_exec demo_world) ?w (empty_db, ())"
  have ok: "case snd ?res of Inl e \<Rightarrow> False | Inr v \<Rightarrow> True" by code_simp
  have "?res = ((fst (fst ?res), snd (fst ?res)), snd ?res)" by (simp only: prod.collapse)
  from workflow_publishes[OF db_inv_empty _ _ _ _ _ this, of "''d''" "''v''"] ok
  show ?thesis by (auto simp: demo_args_def split: sum.splits)
qed

end
