(* ===== verification/Rate_Window.thy ===== *)
theory Rate_Window
  imports Ally_Prelude
begin

text \<open>
  The in-memory sliding-window limiters: \<open>PairingAdmission\<close> of \<open>services/auth/admission.py\<close>
  and the attempt bookkeeping of \<open>WebSocketSecurity\<close> in \<open>services/api/websocket/security.py\<close>.

  An ordered dictionary of deques is an association list in insertion order; \<open>time.monotonic()\<close>
  is an argument. Reading \<open>[-1]\<close> of an empty deque raises \<open>IndexError\<close>.
\<close>

type_synonym window = "(string \<times> rat list) list"

section \<open>Operations on the table of attempts\<close>

text \<open>\<open>while attempts and next(iter(attempts.values()))[-1] <= now - 60: popitem(last=False)\<close>\<close>

fun expire :: "rat \<Rightarrow> window \<Rightarrow> window res" where
  "expire now [] = Inr []"
| "expire now ((h, ts) # w) =
     (if ts = [] then Inl IndexError
      else if last ts \<le> now - 60 then expire now w else Inr ((h, ts) # w))"

definition prune :: "rat \<Rightarrow> rat list \<Rightarrow> rat list" where
  "prune now ts = dropWhile (\<lambda>t. t \<le> now - 60) ts"

text \<open>\<open>self.attempts[host] = deque()\<close> for a new host, and \<open>attempts.append(now); move_to_end(host)\<close>.\<close>

definition put :: "string \<Rightarrow> rat list \<Rightarrow> window \<Rightarrow> window" where
  "put h ts w = AList.update h ts w"

definition touch :: "string \<Rightarrow> rat list \<Rightarrow> window \<Rightarrow> window" where
  "touch h ts w = AList.delete h w @ [(h, ts)]"

record limits =
  max_clients :: nat
  per_minute :: nat
  max_inflight :: nat

record admission =
  attempts :: window
  inflight :: nat

section \<open>\<open>PairingAdmission.admit\<close>\<close>

text \<open>Entering the context: the state after it and whether it raised.\<close>

definition admit_enter :: "limits \<Rightarrow> string \<Rightarrow> rat \<Rightarrow> admission \<Rightarrow> admission \<times> unit res" where
  "admit_enter L h now st =
     (case expire now (attempts st) of
        Inl e \<Rightarrow> (st, Inl e)
      | Inr w \<Rightarrow>
        if map_of w h = None \<and> length w \<ge> max_clients L
        then (st\<lparr>attempts := w\<rparr>, Inl AdmissionDenied)
        else (let ts = prune now (case map_of w h of None \<Rightarrow> [] | Some ts \<Rightarrow> ts) in
          if length ts \<ge> per_minute L \<or> inflight st \<ge> max_inflight L
          then (st\<lparr>attempts := (if ts = [] then AList.delete h w else put h ts w)\<rparr>, Inl AdmissionDenied)
          else (st\<lparr>attempts := touch h (ts @ [now]) w, inflight := inflight st + 1\<rparr>, Inr ())))"

text \<open>Leaving it, normally or by an exception.\<close>

definition admit_exit :: "admission \<Rightarrow> admission" where
  "admit_exit st = st\<lparr>inflight := inflight st - 1\<rparr>"

section \<open>\<open>WebSocketSecurity._allow_attempt\<close>\<close>

definition allow_attempt :: "limits \<Rightarrow> string \<Rightarrow> rat \<Rightarrow> window \<Rightarrow> window \<times> bool res" where
  "allow_attempt L h now w0 =
     (case expire now w0 of
        Inl e \<Rightarrow> (w0, Inl e)
      | Inr w \<Rightarrow>
        if map_of w h = None \<and> length w \<ge> max_clients L then (w, Inr False)
        else (let ts = prune now (case map_of w h of None \<Rightarrow> [] | Some ts \<Rightarrow> ts) in
          if length ts \<ge> per_minute L then (put h ts w, Inr False)
          else (touch h (ts @ [now]) w, Inr True)))"

section \<open>Well-formed tables\<close>

definition lookup :: "window \<Rightarrow> string \<Rightarrow> rat list" where
  "lookup w h = (case map_of w h of None \<Rightarrow> [] | Some ts \<Rightarrow> ts)"

definition recent :: "rat \<Rightarrow> rat list \<Rightarrow> rat list" where
  "recent now ts = filter (\<lambda>t. now - 60 < t) ts"

text \<open>
  Distinct hosts, at most \<open>c\<close> of them; every deque non-empty, sorted, within the limit and not
  ahead of the clock; hosts in the order of their last attempt.
\<close>

definition entry_ok :: "limits \<Rightarrow> rat \<Rightarrow> rat list \<Rightarrow> bool" where
  "entry_ok L now ts = (ts \<noteq> [] \<and> sorted ts \<and> length ts \<le> per_minute L \<and> last ts \<le> now)"

definition window_ok :: "limits \<Rightarrow> rat \<Rightarrow> window \<Rightarrow> bool" where
  "window_ok L now w =
     (1 \<le> per_minute L \<and> distinct (map fst w) \<and> length w \<le> max_clients L \<and>
      (\<forall>p \<in> set w. entry_ok L now (snd p)) \<and>
      sorted (map (last \<circ> snd) w))"

lemma prune_Nil [simp]: "prune now [] = []" and recent_Nil [simp]: "recent now [] = []"
  by (simp_all add: prune_def recent_def)

lemma length_filter_imp: "(\<And>x. P x \<Longrightarrow> Q x) \<Longrightarrow> length (filter P xs) \<le> length (filter Q xs)"
  by (induction xs) auto

lemma prune_recent: "sorted ts \<Longrightarrow> prune now ts = recent now ts"
  unfolding prune_def recent_def
proof (induction ts)
  case (Cons a ts)
  show ?case
  proof (cases "a \<le> now - 60")
    case False
    then have "\<forall>t \<in> set ts. now - 60 < t" using Cons.prems by auto
    then have "filter (\<lambda>t. now - 60 < t) ts = ts" by (simp add: filter_id_conv)
    then show ?thesis using False by simp
  qed (use Cons in auto)
qed simp

lemma sorted_le_last: "sorted ts \<Longrightarrow> t \<in> set ts \<Longrightarrow> t \<le> last (ts :: rat list)"
  by (induction ts) (auto split: if_splits)

lemma recent_last_empty: "sorted ts \<Longrightarrow> last ts \<le> now - 60 \<Longrightarrow> recent now ts = []"
  using sorted_le_last[of ts] by (fastforce simp: recent_def filter_empty_conv)

lemma recent_idem: "now \<le> later \<Longrightarrow> recent later (recent now ts) = recent later ts"
  unfolding recent_def by (auto intro: filter_cong)

lemma expire_suffix: "expire now w = Inr w' \<Longrightarrow> \<exists>u. w = u @ w' \<and> (\<forall>p \<in> set u. last (snd p) \<le> now - 60)"
proof (induction w)
  case (Cons p w)
  obtain h ts where p: "p = (h, ts)" by (cases p)
  show ?case
  proof (cases "ts \<noteq> [] \<and> last ts \<le> now - 60")
    case True
    with Cons.prems p have "expire now w = Inr w'" by simp
    from Cons.IH[OF this] obtain u where "w = u @ w'" "\<forall>p \<in> set u. last (snd p) \<le> now - 60" by blast
    with True p show ?thesis by (intro exI[of _ "p # u"]) auto
  next
    case False
    with Cons.prems p have "w' = p # w" by (auto split: if_splits)
    then show ?thesis by auto
  qed
qed simp

lemma expire_ok: "\<forall>p \<in> set w. snd p \<noteq> [] \<Longrightarrow> \<exists>w'. expire now w = Inr w'"
  by (induction now w rule: expire.induct) auto

lemma lookup_append: "lookup (u @ w) h = (if h \<in> fst ` set u then lookup u h else lookup w h)"
proof (cases "map_of u h")
  case None
  then have "h \<notin> fst ` set u" by (simp add: map_of_eq_None_iff)
  with None show ?thesis by (simp add: lookup_def map_add_def)
next
  case (Some ts)
  then have "h \<in> fst ` set u" by (force dest: map_of_SomeD)
  with Some show ?thesis by (simp add: lookup_def map_add_def)
qed

lemma expire_window:
  assumes ok: "window_ok L T w" and T: "T \<le> now" and ex: "expire now w = Inr w'"
  shows "window_ok L now w' \<and> (\<forall>h. recent now (lookup w' h) = recent now (lookup w h))"
proof -
  obtain u where u: "w = u @ w'" "\<forall>p \<in> set u. last (snd p) \<le> now - 60"
    using expire_suffix[OF ex] by blast
  have dist: "distinct (map fst (u @ w'))" using ok u by (simp add: window_ok_def)
  have "recent now (lookup w' h) = recent now (lookup w h)" for h
  proof (cases "h \<in> fst ` set u")
    case True
    then obtain ts where ts: "map_of u h = Some ts" by (metis map_of_eq_None_iff not_None_eq)
    then have m: "(h, ts) \<in> set u" by (rule map_of_SomeD)
    then have "sorted ts" using ok u(1) by (force simp: window_ok_def entry_ok_def)
    moreover have "last ts \<le> now - 60" using m u(2) by force
    ultimately have "recent now ts = []" by (rule recent_last_empty)
    moreover have "lookup w h = ts" using lookup_append[of u w' h] True ts u(1) by (simp add: lookup_def)
    moreover have "map_of w' h = None"
      using True dist by (auto simp: map_of_eq_None_iff)
    ultimately show ?thesis by (simp add: lookup_def recent_def)
  next
    case False
    then show ?thesis using lookup_append[of u w' h] u(1) by simp
  qed
  moreover have "entry_ok L now (snd p)" if "p \<in> set w'" for p
    using ok u(1) T that by (auto simp: window_ok_def entry_ok_def intro: order_trans)
  then have "window_ok L now w'" using ok u(1)
    by (simp add: window_ok_def sorted_append)
  ultimately show ?thesis by blast
qed

lemma lookup_Some: "map_of w h = Some ts \<Longrightarrow> lookup w h = ts \<and> (h, ts) \<in> set w"
  by (simp add: lookup_def map_of_SomeD)

lemma recent_suffix_last: "sorted ts \<Longrightarrow> recent now ts \<noteq> [] \<Longrightarrow> last (recent now ts) = last ts"
proof -
  assume "sorted ts" "recent now ts \<noteq> []"
  then have "prune now ts \<noteq> []" "recent now ts = prune now ts" by (simp_all add: prune_recent)
  moreover have "ts = takeWhile (\<lambda>t. t \<le> now - 60) ts @ prune now ts" by (simp add: prune_def)
  ultimately show ?thesis by (metis last_appendR)
qed

lemma entry_recent:
  assumes "entry_ok L now ts" "recent now ts \<noteq> []"
  shows "entry_ok L now (recent now ts)"
  using assms recent_suffix_last[of ts now]
  by (auto simp: entry_ok_def recent_def intro: le_trans[OF length_filter_le] sorted_wrt_filter)

lemma recent_recent: "recent now (recent now ts) = recent now ts"
  by (rule recent_idem) simp

lemma put_ok:
  assumes "window_ok L now w" "map_of w h = Some ts" "recent now ts \<noteq> []"
  shows "window_ok L now (put h (recent now ts) w) \<and>
    (\<forall>h'. recent now (lookup (put h (recent now ts) w) h') = recent now (lookup w h'))"
proof -
  have m: "(h, ts) \<in> set w" and e: "entry_ok L now ts"
    using assms(1,2) by (auto simp: window_ok_def dest: map_of_SomeD)
  have l: "last (recent now ts) = last ts"
    using recent_suffix_last e assms(3) by (simp add: entry_ok_def)
  have keys: "map fst (put h (recent now ts) w) = map fst w"
    unfolding put_def using m by (simp add: update_keys image_iff) force
  have lasts: "map (last \<circ> snd) (AList.update h xs v) = map (last \<circ> snd) v"
    if "map_of v h = Some ts" "last xs = last ts" for xs v
    using that by (induction v) (auto split: if_splits)
  have "entry_ok L now (snd p)" if "p \<in> set (put h (recent now ts) w)" for p
  proof (cases "p \<in> set w")
    case True
    then show ?thesis using assms(1) by (simp add: window_ok_def)
  next
    case False
    have "set (AList.update h xs v) \<subseteq> insert (h, xs) (set v)" for xs :: "rat list" and v
      by (induction v) auto
    then have "p = (h, recent now ts)" using that False by (auto simp: put_def)
    then show ?thesis using entry_recent[OF e assms(3)] by simp
  qed
  then have "window_ok L now (put h (recent now ts) w)"
    using assms(1) keys lasts[OF assms(2) l] length_map[of fst]
    by (simp add: window_ok_def put_def) (metis length_map)
  moreover have "recent now (lookup (put h (recent now ts) w) h') = recent now (lookup w h')" for h'
    using assms(2) by (simp add: lookup_def put_def update_conv' recent_recent)
  ultimately show ?thesis by blast
qed

lemma touch_ok:
  assumes "window_ok L now w" "\<not> (map_of w h = None \<and> length w \<ge> max_clients L)"
    "length (recent now (lookup w h)) < per_minute L"
  shows "window_ok L now (touch h (recent now (lookup w h) @ [now]) w) \<and>
    (\<forall>h'. recent now (lookup (touch h (recent now (lookup w h) @ [now]) w) h') =
       recent now (lookup w h') @ (if h' = h then [now] else []))"
proof -
  let ?ts = "recent now (lookup w h)"
  let ?w = "AList.delete h w"
  have sub: "set ?w \<subseteq> set w" by (auto simp: AList.delete_eq)
  have len: "length ?w + 1 \<le> max_clients L"
  proof (cases "map_of w h")
    case None
    then have "h \<notin> fst ` set w" by (simp add: map_of_eq_None_iff)
    then have "?w = w" unfolding AList.delete_eq by (intro filter_True) force
    then show ?thesis using assms(2) None by simp
  next
    case (Some ts)
    then have "length ?w < length w"
      unfolding AList.delete_eq by (intro length_filter_less[of "(h, ts)"]) (auto dest: map_of_SomeD)
    then show ?thesis using assms(1) by (simp add: window_ok_def)
  qed
  have "entry_ok L now (?ts @ [now])"
  proof -
    have "sorted (lookup w h)"
    proof (cases "map_of w h")
      case None then show ?thesis by (simp add: lookup_def)
    next
      case (Some ts)
      then show ?thesis using assms(1) lookup_Some[OF Some] by (force simp: window_ok_def entry_ok_def)
    qed
    moreover have "\<forall>t \<in> set ?ts. t \<le> now"
    proof (cases "map_of w h")
      case None then show ?thesis by (simp add: lookup_def recent_def)
    next
      case (Some ts)
      then have "entry_ok L now ts" "lookup w h = ts"
        using assms(1) lookup_Some[OF Some] by (auto simp: window_ok_def)
      then show ?thesis using sorted_le_last[of ts] by (auto simp: entry_ok_def recent_def intro: order_trans)
    qed
    ultimately show ?thesis using assms(3)
      by (auto simp: entry_ok_def sorted_append recent_def intro: sorted_wrt_filter)
  qed
  moreover have "sorted (map (last \<circ> snd) (?w @ [(h, ?ts @ [now])]))"
  proof -
    have "sorted (map (last \<circ> snd) ?w)"
      using assms(1) unfolding AList.delete_eq window_ok_def by (intro sorted_filter) simp
    moreover have "\<forall>p \<in> set ?w. last (snd p) \<le> now"
      using sub assms(1) by (auto simp: window_ok_def entry_ok_def)
    ultimately show ?thesis by (simp add: sorted_append)
  qed
  moreover have "distinct (map fst (?w @ [(h, ?ts @ [now])]))"
    using assms(1) by (auto simp: window_ok_def AList.delete_eq distinct_map_filter)
  ultimately have "window_ok L now (touch h (?ts @ [now]) w)"
    using assms(1) sub len by (auto simp: window_ok_def touch_def)
  moreover have "lookup (touch h xs w) h' = (if h' = h then xs else lookup w h')" for xs h'
    by (cases "map_of w h'") (auto simp: touch_def lookup_def map_add_def delete_conv')
  ultimately show ?thesis by (simp add: recent_recent) (auto simp: recent_def)
qed

section \<open>The limiter contract\<close>

lemma window_ok_sorted: "window_ok L now w \<Longrightarrow> map_of w h = Some ts \<Longrightarrow> sorted ts"
  by (force simp: window_ok_def entry_ok_def dest: map_of_SomeD)

lemma window_prune: "window_ok L now w \<Longrightarrow>
    prune now (case map_of w h of None \<Rightarrow> [] | Some ts \<Rightarrow> ts) = recent now (lookup w h)"
  by (cases "map_of w h") (simp_all add: lookup_def prune_recent window_ok_sorted)

lemma window_put:
  assumes "window_ok L now w" "recent now (lookup w h) \<noteq> []"
  shows "window_ok L now (put h (recent now (lookup w h)) w) \<and>
    (\<forall>h'. recent now (lookup (put h (recent now (lookup w h)) w) h') = recent now (lookup w h'))"
proof (cases "map_of w h")
  case None
  then show ?thesis using assms(2) by (simp add: lookup_def recent_def)
next
  case (Some ts)
  then show ?thesis using put_ok[OF assms(1) Some] assms(2) by (simp add: lookup_def)
qed

lemma expire_total: "window_ok L T w \<Longrightarrow> \<exists>w'. expire now w = Inr w'"
  by (rule expire_ok) (auto simp: window_ok_def entry_ok_def)

lemma allow_attempt_step:
  assumes "window_ok L T w" "T \<le> now"
  shows "\<exists>w' ok. allow_attempt L h now w = (w', Inr ok) \<and> window_ok L now w' \<and>
    (\<forall>h'. recent now (lookup w' h') = recent now (lookup w h') @ (if ok \<and> h' = h then [now] else []))"
proof -
  obtain v where v: "expire now w = Inr v" using expire_total[OF assms(1)] by blast
  note v_ok = expire_window[OF assms v]
  let ?ts = "recent now (lookup v h)"
  consider (full) "map_of v h = None \<and> length v \<ge> max_clients L"
    | (deny) "\<not> (map_of v h = None \<and> length v \<ge> max_clients L)" "length ?ts \<ge> per_minute L"
    | (grant) "\<not> (map_of v h = None \<and> length v \<ge> max_clients L)" "length ?ts < per_minute L"
    by linarith
  then show ?thesis
  proof cases
    case full
    then show ?thesis using v v_ok by (intro exI[of _ v] exI[of _ False]) (simp add: allow_attempt_def)
  next
    case deny
    then have ne: "?ts \<noteq> []" using v_ok by (auto simp: window_ok_def)
    then show ?thesis using v v_ok deny window_put[of L now v h] window_prune[of L now v h]
      by (intro exI[of _ "put h ?ts v"] exI[of _ False]) (auto simp: allow_attempt_def Let_def)
  next
    case grant
    then show ?thesis using v v_ok touch_ok[of L now v h] window_prune[of L now v h]
      by (intro exI[of _ "touch h (?ts @ [now]) v"] exI[of _ True]) (auto simp: allow_attempt_def Let_def)
  qed
qed

lemma delete_absent_ok:
  assumes "window_ok L now w" "recent now (lookup w h) = []"
  shows "window_ok L now (AList.delete h w) \<and>
    (\<forall>h'. recent now (lookup (AList.delete h w) h') = recent now (lookup w h'))"
proof -
  have "window_ok L now (AList.delete h w)"
    using assms(1) unfolding window_ok_def AList.delete_eq
    by (auto simp: distinct_map_filter intro: sorted_filter le_trans[OF length_filter_le])
  moreover have "recent now (lookup (AList.delete h w) h') = recent now (lookup w h')" for h'
    using assms(2) by (cases "h' = h") (auto simp: lookup_def delete_conv' recent_def)
  ultimately show ?thesis by blast
qed

lemma admit_enter_step:
  assumes "window_ok L T (attempts st)" "T \<le> now"
  shows "\<exists>st' r. admit_enter L h now st = (st', r) \<and> (r = Inr () \<or> r = Inl AdmissionDenied) \<and>
    window_ok L now (attempts st') \<and>
    inflight st' = inflight st + (if r = Inr () then 1 else 0) \<and> (r = Inr () \<longrightarrow> inflight st < max_inflight L) \<and>
    (\<forall>h'. recent now (lookup (attempts st') h') =
       recent now (lookup (attempts st) h') @ (if r = Inr () \<and> h' = h then [now] else []))"
proof -
  obtain v where v: "expire now (attempts st) = Inr v" using expire_total[OF assms(1)] by blast
  note v_ok = expire_window[OF assms v]
  let ?ts = "recent now (lookup v h)"
  consider (full) "map_of v h = None \<and> length v \<ge> max_clients L"
    | (deny) "\<not> (map_of v h = None \<and> length v \<ge> max_clients L)"
        "length ?ts \<ge> per_minute L \<or> inflight st \<ge> max_inflight L"
    | (grant) "\<not> (map_of v h = None \<and> length v \<ge> max_clients L)" "length ?ts < per_minute L"
        "inflight st < max_inflight L"
    by linarith
  then show ?thesis
  proof cases
    case full
    then show ?thesis using v v_ok
      by (intro exI[of _ "st\<lparr>attempts := v\<rparr>"] exI[of _ "Inl AdmissionDenied"]) (simp add: admit_enter_def)
  next
    case deny
    let ?w = "if ?ts = [] then AList.delete h v else put h ?ts v"
    have "admit_enter L h now st = (st\<lparr>attempts := ?w\<rparr>, Inl AdmissionDenied)"
      using v v_ok deny window_prune[of L now v h] by (auto simp: admit_enter_def Let_def)
    moreover have "window_ok L now ?w \<and> (\<forall>h'. recent now (lookup ?w h') = recent now (lookup v h'))"
      using v_ok window_put[of L now v h] delete_absent_ok[of L now v h] by simp
    ultimately show ?thesis using v_ok
      by (intro exI[of _ "st\<lparr>attempts := ?w\<rparr>"] exI[of _ "Inl AdmissionDenied"]) simp
  next
    case grant
    let ?w = "touch h (?ts @ [now]) v"
    have "admit_enter L h now st = (st\<lparr>attempts := ?w, inflight := inflight st + 1\<rparr>, Inr ())"
      using v v_ok grant window_prune[of L now v h] by (auto simp: admit_enter_def Let_def)
    then show ?thesis using v_ok grant touch_ok[of L now v h]
      by (intro exI[of _ "st\<lparr>attempts := ?w, inflight := inflight st + 1\<rparr>"] exI[of _ "Inr ()"]) simp
  qed
qed

text \<open>A schedule of attempts of hosts at times, and the ones that were let through.\<close>

fun grants :: "(string \<Rightarrow> rat \<Rightarrow> 's \<Rightarrow> 's \<times> bool) \<Rightarrow> (string \<times> rat) list \<Rightarrow> 's \<Rightarrow> (string \<times> rat) list \<times> 's" where
  "grants attempt [] s = ([], s)"
| "grants attempt ((h, t) # evs) s =
     (case attempt h t s of (s', ok) \<Rightarrow>
        (case grants attempt evs s' of (gs, s'') \<Rightarrow> ((if ok then [(h, t)] else []) @ gs, s'')))"

definition times_of :: "string \<Rightarrow> (string \<times> rat) list \<Rightarrow> rat list" where
  "times_of h evs = map snd (filter (\<lambda>e. fst e = h) evs)"

text \<open>
  The contract of a limiter: the table stays well-formed, and the attempts of the last minute
  that it remembers are exactly those it let through.
\<close>

locale sliding_window =
  fixes attempt :: "string \<Rightarrow> rat \<Rightarrow> 's \<Rightarrow> 's \<times> bool"
    and win :: "'s \<Rightarrow> window"
    and L :: limits
  assumes step: "window_ok L T (win s) \<Longrightarrow> T \<le> now \<Longrightarrow> attempt h now s = (s', ok) \<Longrightarrow>
    window_ok L now (win s') \<and>
    (\<forall>h'. recent now (lookup (win s') h') = recent now (lookup (win s) h') @ (if ok \<and> h' = h then [now] else []))"
begin

lemma lookup_bound: "window_ok L now (win s) \<Longrightarrow> length (lookup (win s) h) \<le> per_minute L"
  by (cases "map_of (win s) h") (auto simp: lookup_def window_ok_def entry_ok_def dest!: map_of_SomeD)

text \<open>\<open>G\<close> are the attempts let through so far; every window up to now holds at most the limit.\<close>

definition tracks :: "rat \<Rightarrow> 's \<Rightarrow> (string \<times> rat) list \<Rightarrow> bool" where
  "tracks T s G = (window_ok L T (win s) \<and> (\<forall>e \<in> set G. snd e \<le> T) \<and>
     (\<forall>h. recent T (lookup (win s) h) = recent T (times_of h G)) \<and>
     (\<forall>h t. length (filter (\<lambda>x. t - 60 < x \<and> x \<le> t) (times_of h G)) \<le> per_minute L))"

lemma tracks_step:
  assumes "tracks T s G" "T \<le> now" "attempt h now s = (s', ok)"
  shows "tracks now s' (G @ (if ok then [(h, now)] else []))"
proof -
  let ?G = "G @ (if ok then [(h, now)] else [])"
  have w: "window_ok L T (win s)" and le: "\<forall>e \<in> set G. snd e \<le> T"
    and rec: "\<And>h. recent T (lookup (win s) h) = recent T (times_of h G)"
    and bnd: "\<And>h t. length (filter (\<lambda>x. t - 60 < x \<and> x \<le> t) (times_of h G)) \<le> per_minute L"
    using assms(1) by (auto simp: tracks_def)
  have w': "window_ok L now (win s')"
    and st: "\<And>h'. recent now (lookup (win s') h') = recent now (lookup (win s) h') @ (if ok \<and> h' = h then [now] else [])"
    using step[OF w assms(2,3)] by auto
  have times: "times_of h' ?G = times_of h' G @ (if ok \<and> h' = h then [now] else [])" for h'
    by (simp add: times_of_def)
  have rec': "recent now (lookup (win s') h') = recent now (times_of h' ?G)" for h'
  proof -
    have "recent now (lookup (win s) h') = recent now (times_of h' G)"
      using rec[of h'] recent_idem[OF assms(2)] by metis
    then show ?thesis unfolding st times by (simp add: recent_def)
  qed
  have bnd': "length (filter (\<lambda>x. t - 60 < x \<and> x \<le> t) (times_of h' ?G)) \<le> per_minute L" for h' t
  proof (cases "t < now \<or> \<not> (ok \<and> h' = h)")
    case True
    then have "filter (\<lambda>x. t - 60 < x \<and> x \<le> t) (times_of h' ?G) = filter (\<lambda>x. t - 60 < x \<and> x \<le> t) (times_of h' G)"
      unfolding times by auto
    then show ?thesis using bnd by simp
  next
    case False
    have "length (filter (\<lambda>x. t - 60 < x \<and> x \<le> t) (times_of h' ?G)) \<le> length (filter (\<lambda>x. now - 60 < x) (times_of h' ?G))"
      by (rule length_filter_imp) (use False in auto)
    also have "\<dots> = length (recent now (lookup (win s') h'))" unfolding rec' by (simp add: recent_def)
    also have "\<dots> \<le> length (lookup (win s') h')" by (simp add: recent_def)
    also have "\<dots> \<le> per_minute L" by (rule lookup_bound[OF w'])
    finally show ?thesis .
  qed
  have "\<forall>e \<in> set ?G. snd e \<le> now" using le assms(2) by (auto intro: order_trans)
  then show ?thesis using w' rec' bnd' by (simp add: tracks_def)
qed

lemma tracks_grants:
  "tracks T s G \<Longrightarrow> sorted (T # map snd evs) \<Longrightarrow> grants attempt evs s = (gs, s') \<Longrightarrow>
   \<exists>T'. tracks T' s' (G @ gs)"
proof (induction evs arbitrary: T s G gs)
  case Nil
  then show ?case by auto
next
  case (Cons e evs)
  obtain h t where e: "e = (h, t)" by (cases e)
  obtain s1 ok where a: "attempt h t s = (s1, ok)" by (cases "attempt h t s")
  obtain gs1 s2 where g: "grants attempt evs s1 = (gs1, s2)" by (cases "grants attempt evs s1")
  have gs: "gs = (if ok then [(h, t)] else []) @ gs1" "s' = s2" using Cons.prems(3) e a g by auto
  have "tracks t s1 (G @ (if ok then [(h, t)] else []))"
    by (rule tracks_step[OF Cons.prems(1) _ a]) (use Cons.prems(2) e in simp)
  from Cons.IH[OF this _ g[folded gs(2)]] Cons.prems(2) e gs show ?case by simp
qed

lemma rate_bound:
  assumes "window_ok L T (win s)" "win s = []" "sorted (T # map snd evs)" "grants attempt evs s = (gs, s')"
  shows "length (filter (\<lambda>x. t - 60 < x \<and> x \<le> t) (times_of h gs)) \<le> per_minute L \<and> length (win s') \<le> max_clients L"
proof -
  have "tracks T s []" using assms(1,2) by (simp add: tracks_def times_of_def recent_def lookup_def)
  from tracks_grants[OF this assms(3,4)] obtain T' where "tracks T' s' gs" by auto
  then show ?thesis by (auto simp: tracks_def window_ok_def)
qed

end

definition ws_attempt :: "limits \<Rightarrow> string \<Rightarrow> rat \<Rightarrow> window \<Rightarrow> window \<times> bool" where
  "ws_attempt L h now w = (case allow_attempt L h now w of (w', Inr ok) \<Rightarrow> (w', ok) | (w', Inl e) \<Rightarrow> (w', False))"

definition pairing_attempt :: "limits \<Rightarrow> string \<Rightarrow> rat \<Rightarrow> admission \<Rightarrow> admission \<times> bool" where
  "pairing_attempt L h now st = (case admit_enter L h now st of (st', r) \<Rightarrow> (st', is_ok r))"

interpretation ws_win: sliding_window "ws_attempt L" "\<lambda>w. w" L
proof unfold_locales
  fix T s now h s' ok
  assume "window_ok L T s" "T \<le> now" and a: "ws_attempt L h now s = (s', ok)"
  from allow_attempt_step[OF this(1,2), of h] a
  show "window_ok L now s' \<and> (\<forall>h'. recent now (lookup s' h') =
      recent now (lookup s h') @ (if ok \<and> h' = h then [now] else []))"
    by (auto simp: ws_attempt_def)
qed

interpretation pair_win: sliding_window "pairing_attempt L" attempts L
proof unfold_locales
  fix T s now h s' ok
  assume "window_ok L T (attempts s)" "T \<le> now" and a: "pairing_attempt L h now s = (s', ok)"
  from admit_enter_step[OF this(1,2), of h] a
  show "window_ok L now (attempts s') \<and> (\<forall>h'. recent now (lookup (attempts s') h') =
      recent now (lookup (attempts s) h') @ (if ok \<and> h' = h then [now] else []))"
    by (auto simp: pairing_attempt_def)
qed

section \<open>Properties\<close>

text \<open>Rate limiting is exact and never crashes. For both limiters, over any schedule of attempts
  with a monotone clock starting from an empty table: in every 60-second window, each host is let
  through at most the configured number of times, and no more hosts than configured are tracked;
  and on every well-formed table the lookups of the code cannot raise \<open>IndexError\<close>.\<close>

lemma rate_limits:
  assumes "1 \<le> per_minute L" "sorted (map snd evs)"
  shows "length (filter (\<lambda>x. t - 60 < x \<and> x \<le> t) (times_of h (fst (grants (ws_attempt L) evs [])))) \<le> per_minute L \<and>
    length (snd (grants (ws_attempt L) evs [])) \<le> max_clients L \<and>
    length (filter (\<lambda>x. t - 60 < x \<and> x \<le> t)
      (times_of h (fst (grants (pairing_attempt L) evs \<lparr>attempts = [], inflight = n\<rparr>)))) \<le> per_minute L \<and>
    length (attempts (snd (grants (pairing_attempt L) evs \<lparr>attempts = [], inflight = n\<rparr>))) \<le> max_clients L \<and>
    (window_ok L T w \<and> T \<le> now \<longrightarrow> is_ok (snd (allow_attempt L h now w)) \<and>
       snd (admit_enter L h now \<lparr>attempts = w, inflight = n\<rparr>) \<noteq> Inl IndexError)"
proof -
  define T0 where "T0 = (if evs = [] then 0 else snd (hd evs))"
  have T0: "sorted (T0 # map snd evs)" using assms(2) by (cases evs) (auto simp: T0_def)
  have e: "window_ok L T0 []" using assms(1) by (simp add: window_ok_def)
  have ws: "length (filter (\<lambda>x. t - 60 < x \<and> x \<le> t) (times_of h (fst (grants (ws_attempt L) evs [])))) \<le> per_minute L \<and>
      length (snd (grants (ws_attempt L) evs [])) \<le> max_clients L"
    using ws_win.rate_bound[OF e refl T0, of "fst (grants (ws_attempt L) evs [])" "snd (grants (ws_attempt L) evs [])"]
    by simp
  have pa: "length (filter (\<lambda>x. t - 60 < x \<and> x \<le> t)
      (times_of h (fst (grants (pairing_attempt L) evs \<lparr>attempts = [], inflight = n\<rparr>)))) \<le> per_minute L \<and>
      length (attempts (snd (grants (pairing_attempt L) evs \<lparr>attempts = [], inflight = n\<rparr>))) \<le> max_clients L"
    using pair_win.rate_bound[of L T0 "\<lparr>attempts = [], inflight = n\<rparr>" evs
        "fst (grants (pairing_attempt L) evs \<lparr>attempts = [], inflight = n\<rparr>)"
        "snd (grants (pairing_attempt L) evs \<lparr>attempts = [], inflight = n\<rparr>)"] e T0
    by simp
  have "is_ok (snd (allow_attempt L h now w)) \<and> snd (admit_enter L h now \<lparr>attempts = w, inflight = n\<rparr>) \<noteq> Inl IndexError"
    if "window_ok L T w" "T \<le> now"
    using allow_attempt_step[OF that, of h] admit_enter_step[of L T "\<lparr>attempts = w, inflight = n\<rparr>" now h] that by auto
  with ws pa show ?thesis by blast
qed

definition demo_limits :: limits where
  "demo_limits = \<lparr>max_clients = 2, per_minute = 2, max_inflight = 1\<rparr>"

lemma rate_limits_witness:
  "fst (grants (ws_attempt demo_limits) [(''a'', 0), (''a'', 1), (''a'', 2), (''a'', 61)] []) =
     [(''a'', 0), (''a'', 1), (''a'', 61)] \<and>
   length (filter (\<lambda>x. 61 - 60 < x \<and> x \<le> (61::rat)) (times_of ''a''
     (fst (grants (ws_attempt demo_limits) [(''a'', 0), (''a'', 1), (''a'', 2), (''a'', 61)] [])))) \<le> 2"
proof -
  have g: "fst (grants (ws_attempt demo_limits) [(''a'', 0), (''a'', 1), (''a'', 2), (''a'', 61)] []) =
     [(''a'', 0), (''a'', 1), (''a'', 61)]" by code_simp
  have l: "1 \<le> per_minute demo_limits" "per_minute demo_limits = 2" by (simp_all add: demo_limits_def)
  have s: "sorted (map snd [(''a'' :: string, 0 :: rat), (''a'', 1), (''a'', 2), (''a'', 61)])" by simp
  from conjunct1[OF rate_limits[OF l(1) s, where h = "''a''" and t = 61]] g l(2) show ?thesis by simp
qed

end
