(* ===== verification/Auth_Store.thy ===== *)
theory Auth_Store
  imports Auth_Principal "HOL-Library.List_Lexorder" "HOL-Library.Char_ord"
begin

text \<open>
  The authentication database: API keys (\<open>services/auth/api_keys.py\<close>), WebSocket tickets
  (\<open>services/auth/tickets.py\<close>) and companion enrolment (\<open>services/auth/devices.py\<close>), with the
  request dependencies of \<open>services/auth/dependencies.py\<close>.

  \<open>h\<close> is the digest \<open>hash_key\<close>/\<open>ticket_hash\<close>; random tokens and identifiers are arguments, and
  inserting one that is taken is the unique violation \<open>DatabaseError\<close>. \<open>NOW()\<close> is an argument.
  An operation returns the database after it and its result; a raised exception has rolled
  back unless the code committed before raising.
\<close>

section \<open>Identifiers\<close>

text \<open>\<open>str(UUID(s))\<close>: \<open>urn:\<close>, \<open>uuid:\<close>, braces and hyphens are removed, then \<open>int(hex, 16)\<close>.\<close>

function remove_all :: "string \<Rightarrow> string \<Rightarrow> string" where
  "remove_all p [] = []"
| "remove_all p (c # s) = (if p \<noteq> [] \<and> starts_with (c # s) p
     then remove_all p (drop (length p) (c # s)) else c # remove_all p s)"
  by pat_completeness auto
termination by (relation "measure (\<lambda>(p, s). length s)") auto

definition hexval :: "char \<Rightarrow> nat option" where
  "hexval c = (let n = code c in
     if 48 \<le> n \<and> n \<le> 57 then Some (n - 48)
     else if 97 \<le> n \<and> n \<le> 102 then Some (n - 87)
     else if 65 \<le> n \<and> n \<le> 70 then Some (n - 55) else None)"

fun hex_digits :: "bool \<Rightarrow> nat \<Rightarrow> string \<Rightarrow> nat option" where
  "hex_digits ok acc [] = (if ok then Some acc else None)"
| "hex_digits ok acc (c # s) =
     (if c = CHR ''_'' then (if ok then hex_digits False acc s else None)
      else (case hexval c of None \<Rightarrow> None | Some d \<Rightarrow> hex_digits True (16 * acc + d) s))"

definition int16 :: "string \<Rightarrow> nat option" where
  "int16 t = (let s = strip t; s = (if take 1 s = ''+'' then drop 1 s else s);
      s = (if take 2 s = ''0x'' \<or> take 2 s = ''0X''
           then (let r = drop 2 s in if take 1 r = ''_'' then drop 1 r else r) else s)
    in hex_digits False 0 s)"

definition hex_char_of :: "nat \<Rightarrow> char" where
  "hex_char_of d = char_of (if d < 10 then 48 + d else 87 + d)"

definition hex32 :: "nat \<Rightarrow> string" where
  "hex32 n = map (\<lambda>i. hex_char_of (n div 16 ^ (31 - i) mod 16)) [0..<32]"

definition hyphenate :: "string \<Rightarrow> string" where
  "hyphenate s = take 8 s @ ''-'' @ take 4 (drop 8 s) @ ''-'' @ take 4 (drop 12 s) @ ''-'' @
     take 4 (drop 16 s) @ ''-'' @ drop 20 s"

definition uuid_str :: "string \<Rightarrow> string option" where
  "uuid_str s = (let x = filter (\<lambda>c. c \<noteq> CHR ''-'') (strip_chars (\<lambda>c. c = CHR ''{'' \<or> c = CHR ''}'')
        (remove_all ''uuid:'' (remove_all ''urn:'' s)))
    in if length x \<noteq> 32 then None else map_option (hyphenate \<circ> hex32) (int16 x))"

section \<open>Tables\<close>

record tenant_row =
  tn_id :: string
  tn_name :: string

record key_row =
  k_id :: string
  k_tenant :: string
  k_hash :: string
  k_scopes :: "string list"
  k_revoked :: "int option"

record ticket_row =
  wt_hash :: string
  wt_cred :: string
  wt_tenant :: string
  wt_audience :: string
  wt_expires :: int

record pairing_row =
  p_tenant :: string
  p_hash :: string
  p_expires :: int

record device_row =
  dv_id :: string
  dv_tenant :: string
  dv_cred :: string
  dv_revoked :: "int option"

record adb =
  tenants :: "tenant_row list"
  api_keys :: "key_row list"
  tickets :: "ticket_row list"
  pairings :: "pairing_row list"
  devices :: "device_row list"

definition empty_adb :: adb where
  "empty_adb = \<lparr>tenants = [], api_keys = [], tickets = [], pairings = [], devices = []\<rparr>"

record ticket_settings =
  ticket_ttl :: int
  max_tickets :: nat
  max_per_credential :: nat

section \<open>API keys\<close>

definition API_KEY_PREFIX :: string where
  "API_KEY_PREFIX = ''ally_''"

definition generate_api_key :: "(string \<Rightarrow> string) \<Rightarrow> string \<Rightarrow> string \<times> string" where
  "generate_api_key h tok = (API_KEY_PREFIX @ tok, h (API_KEY_PREFIX @ tok))"

definition key_principal :: "key_row \<Rightarrow> principal res" where
  "key_principal k = mk_principal (k_tenant k) (k_id k) (ScopeColl (k_scopes k))"

definition resolve_principal :: "(string \<Rightarrow> string) \<Rightarrow> string option \<Rightarrow> adb \<Rightarrow> principal option res" where
  "resolve_principal h raw s =
     (case raw of None \<Rightarrow> Inr None
      | Some r \<Rightarrow> if r = [] \<or> length r > 256 then Inr None
          else (case find (\<lambda>k. k_hash k = h r \<and> k_revoked k = None) (api_keys s) of
              None \<Rightarrow> Inr None
            | Some k \<Rightarrow> bindR (key_principal k) (\<lambda>p. Inr (Some p))))"

definition resolve_tenant :: "(string \<Rightarrow> string) \<Rightarrow> string option \<Rightarrow> adb \<Rightarrow> string option res" where
  "resolve_tenant h raw s =
     bindR (resolve_principal h raw s) (\<lambda>p. Inr (map_option tenant_id p))"

definition insert_key :: "key_row \<Rightarrow> adb \<Rightarrow> adb res" where
  "insert_key k s =
     (if (\<exists>q \<in> set (api_keys s). k_id q = k_id k \<or> k_hash q = k_hash k) \<or>
         \<not> set (k_scopes k) \<subseteq> KNOWN_SCOPES then Inl DatabaseError
      else Inr (s\<lparr>api_keys := api_keys s @ [k]\<rparr>))"

definition upsert_tenant :: "string \<Rightarrow> string \<Rightarrow> adb \<Rightarrow> (adb \<times> string) res" where
  "upsert_tenant new_id name s =
     (case find (\<lambda>t. tn_name t = name) (tenants s) of
        Some t \<Rightarrow> Inr (s, tn_id t)
      | None \<Rightarrow> if \<exists>t \<in> set (tenants s). tn_id t = new_id then Inl DatabaseError
          else Inr (s\<lparr>tenants := tenants s @ [\<lparr>tn_id = new_id, tn_name = name\<rparr>]\<rparr>, new_id))"

definition create_tenant_with_key ::
  "(string \<Rightarrow> string) \<Rightarrow> string \<Rightarrow> scopes_arg option \<Rightarrow> string \<Rightarrow> string \<Rightarrow> string \<Rightarrow> adb \<Rightarrow> adb \<times> (string \<times> string) res" where
  "create_tenant_with_key h name ss new_tenant new_cred tok s =
     (case validate_scopes (case ss of None \<Rightarrow> ScopeColl (sorted_list_of_set DEFAULT_SCOPES) | Some a \<Rightarrow> a) of
        Inl e \<Rightarrow> (s, Inl e)
      | Inr granted \<Rightarrow>
          (case upsert_tenant new_tenant name s of Inl e \<Rightarrow> (s, Inl e)
           | Inr (s1, tenant) \<Rightarrow>
              (case generate_api_key h tok of (raw, kh) \<Rightarrow>
                (case insert_key \<lparr>k_id = new_cred, k_tenant = tenant, k_hash = kh,
                        k_scopes = sorted_list_of_set granted, k_revoked = None\<rparr> s1 of
                   Inl e \<Rightarrow> (s, Inl e) | Inr s2 \<Rightarrow> (s2, Inr (tenant, raw))))))"

definition revoke_api_key :: "(string \<Rightarrow> string) \<Rightarrow> string \<Rightarrow> int \<Rightarrow> adb \<Rightarrow> adb \<times> bool" where
  "revoke_api_key h raw now s =
     (s\<lparr>api_keys := upd_where (\<lambda>k. k_hash k = h raw \<and> k_revoked k = None)
          (\<lambda>k. k\<lparr>k_revoked := Some now\<rparr>) (api_keys s)\<rparr>,
      count_where (\<lambda>k. k_hash k = h raw \<and> k_revoked k = None) (api_keys s) > 0)"

section \<open>Request dependencies\<close>

text \<open>\<open>authenticate_key\<close>: a store failure or an invalid row is 503, an unknown key is \<open>None\<close>.\<close>

definition authenticate_key :: "(string option \<Rightarrow> principal option res) \<Rightarrow> string option \<Rightarrow> principal option res" where
  "authenticate_key resolve raw = (case resolve raw of
       Inl e \<Rightarrow> Inl (if e = DatabaseError \<or> e = ValueError then HTTPException 503 else e)
     | Inr p \<Rightarrow> Inr p)"

definition get_current_principal :: "(string option \<Rightarrow> principal option res) \<Rightarrow> string option \<Rightarrow> principal res" where
  "get_current_principal resolve raw = bindR (authenticate_key resolve raw)
     (\<lambda>p. case p of None \<Rightarrow> Inl (HTTPException 401) | Some q \<Rightarrow> Inr q)"

definition get_ingestion_tenant :: "(string option \<Rightarrow> principal option res) \<Rightarrow> string option \<Rightarrow> string res" where
  "get_ingestion_tenant resolve raw = bindR (get_current_principal resolve raw)
     (\<lambda>p. case require p [''documents:ingest''] of Inl e \<Rightarrow> Inl (HTTPException 403) | Inr u \<Rightarrow> Inr (tenant_id p))"

definition get_current_tenant :: "(string option \<Rightarrow> principal option res) \<Rightarrow> string option \<Rightarrow> string res" where
  "get_current_tenant resolve raw = bindR (get_current_principal resolve raw) (\<lambda>p. Inr (tenant_id p))"

definition get_current_tenant_ws :: "(string option \<Rightarrow> principal option res) \<Rightarrow> string option \<Rightarrow> string option res" where
  "get_current_tenant_ws resolve raw = bindR (authenticate_key resolve raw) (\<lambda>p. Inr (map_option tenant_id p))"

section \<open>WebSocket tickets\<close>

definition AUDIENCE_SCOPE :: "string \<Rightarrow> string res" where
  "AUDIENCE_SCOPE a = (if a = ''chat'' then Inr ''chat:use''
     else if a = ''pc-agent'' then Inr ''pc:connect'' else Inl KeyError)"

definition active_key :: "string \<Rightarrow> string \<Rightarrow> key_row \<Rightarrow> bool" where
  "active_key cred tenant k = (k_id k = cred \<and> k_tenant k = tenant \<and> k_revoked k = None)"

definition issue_ticket ::
  "ticket_settings \<Rightarrow> (string \<Rightarrow> string) \<Rightarrow> principal \<Rightarrow> string \<Rightarrow> string \<Rightarrow> int \<Rightarrow> adb \<Rightarrow> adb res" where
  "issue_ticket S h p audience tok now s =
     bindR (AUDIENCE_SCOPE audience) (\<lambda>scope.
     bindR (require p [scope]) (\<lambda>_.
     (case find (active_key (credential_id p) (tenant_id p)) (api_keys s) of
        None \<Rightarrow> Inl AuthorizationDenied
      | Some k \<Rightarrow>
        bindR (key_principal k) (\<lambda>current.
        bindR (require current [scope]) (\<lambda>_.
        (let ts = del_where (\<lambda>t. wt_expires t \<le> now) (tickets s) in
         if length ts \<ge> max_tickets S \<or>
            count_where (\<lambda>t. wt_cred t = credential_id p) ts \<ge> max_per_credential S
         then Inl CapacityExceeded
         else if \<exists>t \<in> set ts. wt_hash t = h tok then Inl DatabaseError
         else Inr (s\<lparr>tickets := ts @ [\<lparr>wt_hash = h tok, wt_cred = credential_id p,
                wt_tenant = tenant_id p, wt_audience = audience,
                wt_expires = now + ticket_ttl S\<rparr>]\<rparr>)))))))"

definition redeemable :: "adb \<Rightarrow> string \<Rightarrow> string \<Rightarrow> int \<Rightarrow> ticket_row \<Rightarrow> bool" where
  "redeemable s th audience now t = (wt_hash t = th \<and> wt_audience t = audience \<and> wt_expires t > now \<and>
     (\<exists>k \<in> set (api_keys s). active_key (wt_cred t) (wt_tenant t) k))"

definition consume_ticket ::
  "(string \<Rightarrow> string) \<Rightarrow> string \<Rightarrow> string \<Rightarrow> int \<Rightarrow> adb \<Rightarrow> adb \<times> principal option res" where
  "consume_ticket h tok audience now s =
     (if \<not> (32 \<le> length tok \<and> length tok \<le> 128) then (s, Inr None)
      else (case find (redeemable s (h tok) audience now) (tickets s) of
        None \<Rightarrow> (s, Inr None)
      | Some t \<Rightarrow>
          (case find (active_key (wt_cred t) (wt_tenant t)) (api_keys s) of
            None \<Rightarrow> (s, Inr None)
          | Some k \<Rightarrow>
            (case key_principal k of Inl e \<Rightarrow> (s, Inl e)
             | Inr p \<Rightarrow>
                (s\<lparr>tickets := del_where (redeemable s (h tok) audience now) (tickets s)\<rparr>,
                 bindR (AUDIENCE_SCOPE audience) (\<lambda>scope.
                 bindR (require p [scope]) (\<lambda>_. Inr (Some p))))))))"

section \<open>Companion devices\<close>

definition PAIRING_TTL_SECONDS :: int where "PAIRING_TTL_SECONDS = 120"
definition MAX_PENDING_PAIRINGS :: nat where "MAX_PENDING_PAIRINGS = 4096"
definition DEVICE_SCOPES :: "string list" where "DEVICE_SCOPES = [''pc:connect'']"

record paired_device =
  pd_tenant :: string
  pd_cred :: string
  pd_device :: string

definition put_pairing :: "pairing_row \<Rightarrow> pairing_row list \<Rightarrow> pairing_row list res" where
  "put_pairing r ps =
     (if \<exists>p \<in> set ps. p_tenant p \<noteq> p_tenant r \<and> p_hash p = p_hash r then Inl DatabaseError
      else if \<exists>p \<in> set ps. p_tenant p = p_tenant r
      then Inr (upd_where (\<lambda>p. p_tenant p = p_tenant r) (\<lambda>p. r) ps) else Inr (ps @ [r]))"

definition issue_pairing :: "(string \<Rightarrow> string) \<Rightarrow> string \<Rightarrow> string \<Rightarrow> int \<Rightarrow> adb \<Rightarrow> adb res" where
  "issue_pairing h tenant tok now s =
     (case uuid_str tenant of None \<Rightarrow> Inl ValueError
      | Some tid \<Rightarrow>
        if \<not> (\<exists>t \<in> set (tenants s). tn_id t = tid) then Inl AuthorizationDenied
        else (let ps = del_where (\<lambda>p. p_expires p \<le> now) (pairings s) in
          if length ps \<ge> MAX_PENDING_PAIRINGS then Inl CapacityExceeded
          else bindR (put_pairing \<lparr>p_tenant = tid, p_hash = h tok, p_expires = now + PAIRING_TTL_SECONDS\<rparr> ps)
            (\<lambda>ps. Inr (s\<lparr>pairings := ps\<rparr>))))"

definition revoke_devices :: "string \<Rightarrow> int \<Rightarrow> adb \<Rightarrow> adb" where
  "revoke_devices tenant now s =
     (let keys = upd_where (\<lambda>k. k_revoked k = None \<and> (\<exists>d \<in> set (devices s). dv_tenant d = tenant \<and>
              dv_cred d = k_id k \<and> dv_revoked d = None)) (\<lambda>k. k\<lparr>k_revoked := Some now\<rparr>) (api_keys s)
      in s\<lparr>api_keys := keys,
           devices := upd_where (\<lambda>d. dv_tenant d = tenant \<and> dv_revoked d = None)
             (\<lambda>d. d\<lparr>dv_revoked := Some now\<rparr>) (devices s)\<rparr>)"

definition insert_device :: "device_row \<Rightarrow> adb \<Rightarrow> adb res" where
  "insert_device d s =
     (if (\<exists>e \<in> set (devices s). dv_id e = dv_id d \<or> dv_cred e = dv_cred d \<or>
            dv_tenant e = dv_tenant d \<and> dv_revoked e = None)
      then Inl DatabaseError else Inr (s\<lparr>devices := devices s @ [d]\<rparr>))"

definition redeem_tx ::
  "(string \<Rightarrow> string) \<Rightarrow> string \<Rightarrow> string \<Rightarrow> string \<Rightarrow> string \<Rightarrow> int \<Rightarrow> adb \<Rightarrow> adb res" where
  "redeem_tx h tok new_device new_cred key_tok now s =
     (if \<not> (32 \<le> length tok \<and> length tok \<le> 128) then Inl AuthorizationDenied
      else (case find (\<lambda>p. p_hash p = h tok) (pairings s) of None \<Rightarrow> Inl AuthorizationDenied
        | Some p \<Rightarrow>
          if count_where (\<lambda>q. p_tenant q = p_tenant p \<and> p_hash q = h tok \<and> p_expires q > now) (pairings s) = 0
          then Inl AuthorizationDenied
          else (let s1 = revoke_devices (p_tenant p) now (s\<lparr>pairings := del_where
                     (\<lambda>q. p_tenant q = p_tenant p \<and> p_hash q = h tok \<and> p_expires q > now) (pairings s)\<rparr>)
            in bindR (insert_key \<lparr>k_id = new_cred, k_tenant = p_tenant p,
                   k_hash = snd (generate_api_key h key_tok), k_scopes = DEVICE_SCOPES, k_revoked = None\<rparr> s1)
               (insert_device \<lparr>dv_id = new_device, dv_tenant = p_tenant p, dv_cred = new_cred, dv_revoked = None\<rparr>))))"

definition redeem ::
  "(string \<Rightarrow> string) \<Rightarrow> string \<Rightarrow> string \<Rightarrow> string \<Rightarrow> string \<Rightarrow> int \<Rightarrow> adb \<Rightarrow> adb \<times> (string \<times> string) res" where
  "redeem h tok new_device new_cred key_tok now s =
     (case redeem_tx h tok new_device new_cred key_tok now s of
        Inl e \<Rightarrow> (s, Inl e) | Inr t \<Rightarrow> (t, Inr (new_device, fst (generate_api_key h key_tok))))"

definition revoke_tenant_devices :: "string \<Rightarrow> int \<Rightarrow> adb \<Rightarrow> adb res" where
  "revoke_tenant_devices tenant now s =
     (case uuid_str tenant of None \<Rightarrow> Inl ValueError
      | Some tid \<Rightarrow>
        if \<not> (\<exists>t \<in> set (tenants s). tn_id t = tid) then Inl AuthorizationDenied
        else (let s1 = revoke_devices tid now s
              in Inr (s1\<lparr>pairings := del_where (\<lambda>p. p_tenant p = tid) (pairings s1)\<rparr>)))"

definition require_active :: "paired_device \<Rightarrow> adb \<Rightarrow> unit res" where
  "require_active pd s =
     guardR (\<exists>d \<in> set (devices s). \<exists>k \<in> set (api_keys s).
        k_id k = dv_cred d \<and> k_tenant k = dv_tenant d \<and> dv_id d = pd_device pd \<and>
        dv_tenant d = pd_tenant pd \<and> dv_cred d = pd_cred pd \<and> dv_revoked d = None \<and>
        k_revoked k = None \<and> k_scopes k = DEVICE_SCOPES) AuthorizationDenied"

definition bind_device :: "principal \<Rightarrow> string \<Rightarrow> adb \<Rightarrow> paired_device res" where
  "bind_device p device s =
     (if scopes p \<noteq> set DEVICE_SCOPES then Inl AuthorizationDenied
      else (case uuid_str device of None \<Rightarrow> Inl AuthorizationDenied
        | Some did \<Rightarrow>
          (let pd = \<lparr>pd_tenant = tenant_id p, pd_cred = credential_id p, pd_device = did\<rparr>
           in bindR (require_active pd s) (\<lambda>_. Inr pd))))"

end
