(* ===== verification/Auth_Inv.thy ===== *)
theory Auth_Inv
  imports Auth_Store
begin

text \<open>
  The invariant of the authentication database under every schedule of its operations, and what
  follows for credentials, tickets and devices: revocation is permanent, tickets are single-use
  and bounded, a tenant has one active device.
\<close>

section \<open>Operations\<close>

datatype auth_op =
    ACreate string "scopes_arg option" string string string
  | ARevokeKey string int
  | AIssue principal string string int
  | AConsume string string int
  | AIssuePairing string string int
  | ARedeem string string string string int
  | ARevokeDevices string int

fun run_auth :: "ticket_settings \<Rightarrow> (string \<Rightarrow> string) \<Rightarrow> auth_op \<Rightarrow> adb \<Rightarrow> adb res" where
  "run_auth S h (ACreate name ss tid cred tok) s =
     (case create_tenant_with_key h name ss tid cred tok s of (t, Inl e) \<Rightarrow> Inl e | (t, Inr x) \<Rightarrow> Inr t)"
| "run_auth S h (ARevokeKey raw now) s = Inr (fst (revoke_api_key h raw now s))"
| "run_auth S h (AIssue p a tok now) s = issue_ticket S h p a tok now s"
| "run_auth S h (AConsume tok a now) s = Inr (fst (consume_ticket h tok a now s))"
| "run_auth S h (AIssuePairing tenant tok now) s = issue_pairing h tenant tok now s"
| "run_auth S h (ARedeem tok dev cred ktok now) s = redeem_tx h tok dev cred ktok now s"
| "run_auth S h (ARevokeDevices tenant now) s = revoke_tenant_devices tenant now s"

section \<open>How keys, tickets and devices move\<close>

abbreviation revoke_at :: "int \<Rightarrow> key_row \<Rightarrow> key_row" where
  "revoke_at now k \<equiv> k\<lparr>k_revoked := Some now\<rparr>"

definition keys_step :: "adb \<Rightarrow> adb \<Rightarrow> bool" where
  "keys_step s t = (\<exists>p now xs. api_keys t = upd_where p (revoke_at now) (api_keys s) @ xs)"

lemma upd_where_False [simp]: "upd_where (\<lambda>r. False) f rs = rs"
  by (simp add: upd_where_def)

lemma keys_step_same: "api_keys t = api_keys s \<Longrightarrow> keys_step s t"
  unfolding keys_step_def by (intro exI[of _ "\<lambda>k. False"] exI[of _ 0] exI[of _ "[]"]) simp

lemma keys_step_append: "api_keys t = api_keys s @ xs \<Longrightarrow> keys_step s t"
  unfolding keys_step_def by (intro exI[of _ "\<lambda>k. False"] exI[of _ 0] exI[of _ xs]) simp

lemma keys_step_upd: "api_keys t = upd_where p (revoke_at now) (api_keys s) \<Longrightarrow> keys_step s t"
  unfolding keys_step_def by (intro exI[of _ p] exI[of _ now] exI[of _ "[]"]) simp

lemma insert_key_Inr: "insert_key k s = Inr t \<longleftrightarrow>
    (\<forall>q \<in> set (api_keys s). k_id q \<noteq> k_id k \<and> k_hash q \<noteq> k_hash k) \<and> set (k_scopes k) \<subseteq> KNOWN_SCOPES \<and>
    t = s\<lparr>api_keys := api_keys s @ [k]\<rparr>"
  by (auto simp: insert_key_def)

lemma insert_device_Inr: "insert_device d s = Inr t \<longleftrightarrow>
    (\<forall>e \<in> set (devices s). dv_id e \<noteq> dv_id d \<and> dv_cred e \<noteq> dv_cred d \<and>
       (dv_tenant e = dv_tenant d \<longrightarrow> dv_revoked e \<noteq> None)) \<and>
    t = s\<lparr>devices := devices s @ [d]\<rparr>"
  by (auto simp: insert_device_def)

lemma create_cases:
  assumes "create_tenant_with_key h name ss tid cred tok s = (t, Inr x)"
  obtains ts tenant granted where "granted \<subseteq> KNOWN_SCOPES"
    "insert_key \<lparr>k_id = cred, k_tenant = tenant, k_hash = snd (generate_api_key h tok),
       k_scopes = sorted_list_of_set granted, k_revoked = None\<rparr> (s\<lparr>tenants := ts\<rparr>) = Inr t"
proof -
  obtain granted where g: "validate_scopes (case ss of None \<Rightarrow> ScopeColl (sorted_list_of_set DEFAULT_SCOPES) | Some a \<Rightarrow> a) = Inr granted"
    using assms by (cases "validate_scopes (case ss of None \<Rightarrow> ScopeColl (sorted_list_of_set DEFAULT_SCOPES) | Some a \<Rightarrow> a)")
      (simp_all add: create_tenant_with_key_def)
  obtain s1 tenant where u: "upsert_tenant tid name s = Inr (s1, tenant)"
    using assms g by (cases "upsert_tenant tid name s") (auto simp: create_tenant_with_key_def)
  have s1: "s1 = s\<lparr>tenants := tenants s1\<rparr>"
    using u by (auto simp: upsert_tenant_def split: option.splits if_splits)
  have "insert_key \<lparr>k_id = cred, k_tenant = tenant, k_hash = snd (generate_api_key h tok),
       k_scopes = sorted_list_of_set granted, k_revoked = None\<rparr> s1 = Inr t"
    using assms g u by (simp add: create_tenant_with_key_def generate_api_key_def split: sum.splits)
  moreover have "granted \<subseteq> KNOWN_SCOPES" using g by (auto simp: validate_scopes_Inr)
  ultimately show ?thesis using that s1 by metis
qed

lemma issue_cases:
  assumes "issue_ticket S h p a tok now s = Inr t"
  obtains k ts where "k \<in> set (api_keys s)" "active_key (credential_id p) (tenant_id p) k"
    "ts = del_where (\<lambda>t. wt_expires t \<le> now) (tickets s)" "length ts < max_tickets S"
    "count_where (\<lambda>t. wt_cred t = credential_id p) ts < max_per_credential S"
    "\<forall>t \<in> set ts. wt_hash t \<noteq> h tok"
    "t = s\<lparr>tickets := ts @ [\<lparr>wt_hash = h tok, wt_cred = credential_id p, wt_tenant = tenant_id p,
       wt_audience = a, wt_expires = now + ticket_ttl S\<rparr>]\<rparr>"
proof -
  obtain k where k: "find (active_key (credential_id p) (tenant_id p)) (api_keys s) = Some k"
    using assms by (auto simp: issue_ticket_def split: option.splits)
  then show ?thesis using assms find_SomeD[OF k]
    by (intro that[of k]) (auto simp: issue_ticket_def Let_def split: if_splits)
qed

lemma consume_cases:
  obtains "fst (consume_ticket h tok a now s) = s" "\<And>p. snd (consume_ticket h tok a now s) \<noteq> Inr (Some p)"
  | k p tk where "fst (consume_ticket h tok a now s) = s\<lparr>tickets := del_where (redeemable s (h tok) a now) (tickets s)\<rparr>"
    "tk \<in> set (tickets s)" "redeemable s (h tok) a now tk" "k \<in> set (api_keys s)"
    "active_key (wt_cred tk) (wt_tenant tk) k" "key_principal k = Inr p"
    "\<And>q. snd (consume_ticket h tok a now s) = Inr (Some q) \<Longrightarrow>
       q = p \<and> (\<exists>sc. AUDIENCE_SCOPE a = Inr sc \<and> sc \<in> scopes p)"
proof (cases "32 \<le> length tok \<and> length tok \<le> 128")
  case False
  then show ?thesis by (intro that(1)) (auto simp: consume_ticket_def)
next
  case len: True
  show ?thesis
  proof (cases "find (redeemable s (h tok) a now) (tickets s)")
    case None
    then show ?thesis using len by (intro that(1)) (auto simp: consume_ticket_def)
  next
    case (Some tk)
    note tk = find_SomeD[OF Some]
    then obtain k where k: "find (active_key (wt_cred tk) (wt_tenant tk)) (api_keys s) = Some k"
      using find_ex[of _ "api_keys s" "active_key (wt_cred tk) (wt_tenant tk)"] by (auto simp: redeemable_def)
    show ?thesis
    proof (cases "key_principal k")
      case (Inl e)
      then show ?thesis using len Some k by (intro that(1)) (auto simp: consume_ticket_def)
    next
      case (Inr p)
      show ?thesis
        by (rule that(2)[of tk k p]) (use len Some k Inr tk find_SomeD[OF k] in \<open>auto simp: consume_ticket_def\<close>)
    qed
  qed
qed

lemma redeem_cases:
  assumes "redeem_tx h tok dev cred ktok now s = Inr t"
  obtains p s1 s2 where "p \<in> set (pairings s)" "p_hash p = h tok"
    "s1 = revoke_devices (p_tenant p) now (s\<lparr>pairings := del_where
       (\<lambda>q. p_tenant q = p_tenant p \<and> p_hash q = h tok \<and> p_expires q > now) (pairings s)\<rparr>)"
    "insert_key \<lparr>k_id = cred, k_tenant = p_tenant p, k_hash = snd (generate_api_key h ktok),
       k_scopes = DEVICE_SCOPES, k_revoked = None\<rparr> s1 = Inr s2"
    "insert_device \<lparr>dv_id = dev, dv_tenant = p_tenant p, dv_cred = cred, dv_revoked = None\<rparr> s2 = Inr t"
proof -
  obtain p where p: "find (\<lambda>p. p_hash p = h tok) (pairings s) = Some p"
    using assms by (auto simp: redeem_tx_def split: if_splits option.splits)
  then show ?thesis using assms find_SomeD[OF p]
    by (auto simp: redeem_tx_def Let_def split: if_splits intro: that[of p])
qed

lemma keys_step_run:
  assumes "run_auth S h x s = Inr t"
  shows "keys_step s t"
proof (cases x)
  case (ACreate name ss tid cred tok)
  then obtain r where "create_tenant_with_key h name ss tid cred tok s = (t, Inr r)"
    using assms by (auto split: prod.splits sum.splits)
  then show ?thesis by (rule create_cases) (auto simp: insert_key_Inr intro: keys_step_append)
next
  case (ARevokeKey raw now)
  then show ?thesis using assms by (auto simp: revoke_api_key_def intro: keys_step_upd)
next
  case (AIssue p a tok now)
  then show ?thesis using assms by (auto elim!: issue_cases intro: keys_step_same)
next
  case (AConsume tok a now)
  then have "t = fst (consume_ticket h tok a now s)" using assms by simp
  then show ?thesis by (cases rule: consume_cases[of h tok a now s]) (auto intro: keys_step_same)
next
  case (AIssuePairing tenant tok now)
  then show ?thesis using assms
    by (auto simp: issue_pairing_def Let_def split: option.splits if_splits intro!: keys_step_same)
next
  case (ARedeem tok dev cred ktok now)
  then have "redeem_tx h tok dev cred ktok now s = Inr t" using assms by simp
  then show ?thesis
    by (rule redeem_cases)
      (auto simp: insert_key_Inr insert_device_Inr revoke_devices_def Let_def keys_step_def)
next
  case (ARevokeDevices tenant now)
  then show ?thesis using assms
    by (auto simp: revoke_tenant_devices_def revoke_devices_def Let_def split: option.splits if_splits
        intro: keys_step_upd)
qed

lemma keys_step_mem:
  assumes "keys_step s t" "k \<in> set (api_keys s)"
  shows "\<exists>k' \<in> set (api_keys t). k_id k' = k_id k \<and> k_hash k' = k_hash k \<and> k_tenant k' = k_tenant k \<and>
    k_scopes k' = k_scopes k \<and> (k_revoked k \<noteq> None \<longrightarrow> k_revoked k' \<noteq> None)"
proof -
  obtain p now xs where t: "api_keys t = upd_where p (revoke_at now) (api_keys s) @ xs"
    using assms(1) by (auto simp: keys_step_def)
  have "(if p k then revoke_at now k else k) \<in> set (api_keys t)"
    unfolding t using upd_whereI[OF assms(2), of p "revoke_at now"] by simp
  then show ?thesis by (rule rev_bexI) simp
qed

lemma dead_key_step:
  assumes "keys_step s t" "\<exists>k \<in> set (api_keys s). P (k_id k) (k_hash k) \<and> k_revoked k \<noteq> None"
  shows "\<exists>k \<in> set (api_keys t). P (k_id k) (k_hash k) \<and> k_revoked k \<noteq> None"
proof -
  obtain k where k: "k \<in> set (api_keys s)" "P (k_id k) (k_hash k)" "k_revoked k \<noteq> None"
    using assms(2) by blast
  from keys_step_mem[OF assms(1) k(1)] k(2,3) show ?thesis by metis
qed

section \<open>The invariant\<close>

definition keys_inv :: "adb \<Rightarrow> bool" where
  "keys_inv s = (distinct (map k_id (api_keys s)) \<and> distinct (map k_hash (api_keys s)) \<and>
     (\<forall>k \<in> set (api_keys s). set (k_scopes k) \<subseteq> KNOWN_SCOPES))"

definition tickets_inv :: "ticket_settings \<Rightarrow> adb \<Rightarrow> bool" where
  "tickets_inv S s = (distinct (map wt_hash (tickets s)) \<and> length (tickets s) \<le> max_tickets S \<and>
     (\<forall>c. count_where (\<lambda>t. wt_cred t = c) (tickets s) \<le> max_per_credential S))"

definition devices_inv :: "adb \<Rightarrow> bool" where
  "devices_inv s = (distinct (map dv_id (devices s)) \<and> distinct (map dv_cred (devices s)) \<and>
     (\<forall>t. count_where (\<lambda>d. dv_tenant d = t \<and> dv_revoked d = None) (devices s) \<le> 1) \<and>
     (\<forall>d \<in> set (devices s). \<exists>k \<in> set (api_keys s). k_id k = dv_cred d \<and>
        (dv_revoked d \<noteq> None \<longrightarrow> k_revoked k \<noteq> None)))"

definition pairings_inv :: "adb \<Rightarrow> bool" where
  "pairings_inv s = (distinct (map p_tenant (pairings s)) \<and> length (pairings s) \<le> MAX_PENDING_PAIRINGS)"

definition auth_inv :: "ticket_settings \<Rightarrow> adb \<Rightarrow> bool" where
  "auth_inv S s = (keys_inv s \<and> tickets_inv S s \<and> devices_inv s \<and> pairings_inv s)"

lemma auth_inv_empty: "auth_inv S empty_adb"
  by (simp add: auth_inv_def keys_inv_def tickets_inv_def devices_inv_def pairings_inv_def empty_adb_def count_where_def)

lemma tickets_inv_del:
  assumes "tickets_inv S s" "tickets t = del_where p (tickets s)"
  shows "tickets_inv S t"
proof -
  have "length (del_where p (tickets s)) \<le> length (tickets s)" by (simp add: del_where_def)
  moreover have "count_where (\<lambda>t. wt_cred t = c) (del_where p (tickets s)) \<le> max_per_credential S" for c
    using count_where_del_le assms(1) le_trans unfolding tickets_inv_def by blast
  moreover have "distinct (map wt_hash (del_where p (tickets s)))"
    using assms(1) by (simp add: tickets_inv_def del_where_def distinct_map_filter)
  ultimately show ?thesis using assms by (auto simp: tickets_inv_def)
qed

lemma devices_inv_keys:
  assumes "devices_inv s" "devices t = devices s" "keys_step s t"
  shows "devices_inv t"
proof -
  have "\<exists>k \<in> set (api_keys t). k_id k = dv_cred d \<and> (dv_revoked d \<noteq> None \<longrightarrow> k_revoked k \<noteq> None)"
    if d: "d \<in> set (devices s)" for d
  proof -
    obtain k where k: "k \<in> set (api_keys s)" "k_id k = dv_cred d" "dv_revoked d \<noteq> None \<longrightarrow> k_revoked k \<noteq> None"
      using assms(1) d by (auto simp: devices_inv_def)
    from keys_step_mem[OF assms(3) k(1)] k(2,3) show ?thesis by force
  qed
  then show ?thesis using assms(1,2) by (simp add: devices_inv_def)
qed

lemma keys_inv_insert:
  assumes "keys_inv s" "insert_key k s = Inr t"
  shows "keys_inv t"
  using assms by (auto simp: keys_inv_def insert_key_Inr)

lemma keys_inv_upd: "keys_inv s \<Longrightarrow> api_keys t = upd_where p (revoke_at now) (api_keys s) \<Longrightarrow> keys_inv t"
  by (simp add: keys_inv_def map_upd_where)

lemma keys_inv_cong: "api_keys t = api_keys s \<Longrightarrow> keys_inv t = keys_inv s"
  by (simp add: keys_inv_def)

lemma revoke_devices_inv:
  assumes "keys_inv s" "devices_inv s"
  shows "keys_inv (revoke_devices tenant now s) \<and> devices_inv (revoke_devices tenant now s) \<and>
    tickets (revoke_devices tenant now s) = tickets s \<and> pairings (revoke_devices tenant now s) = pairings s \<and>
    (\<forall>d \<in> set (devices (revoke_devices tenant now s)). dv_tenant d = tenant \<longrightarrow> dv_revoked d \<noteq> None)"
proof -
  let ?t = "revoke_devices tenant now s"
  let ?p = "\<lambda>k. k_revoked k = None \<and> (\<exists>d \<in> set (devices s). dv_tenant d = tenant \<and> dv_cred d = k_id k \<and> dv_revoked d = None)"
  let ?q = "\<lambda>d. dv_tenant d = tenant \<and> dv_revoked d = None"
  let ?f = "\<lambda>d. d\<lparr>dv_revoked := Some now\<rparr>"
  have k: "api_keys ?t = upd_where ?p (revoke_at now) (api_keys s)"
    and d: "devices ?t = upd_where ?q ?f (devices s)"
    by (simp_all add: revoke_devices_def Let_def)
  have "count_where (\<lambda>d. dv_tenant d = x \<and> dv_revoked d = None) (upd_where ?q ?f ds)
      \<le> count_where (\<lambda>d. dv_tenant d = x \<and> dv_revoked d = None) ds" for x ds
    by (induction ds) (auto simp: count_where_def upd_where_def)
  then have one: "count_where (\<lambda>d. dv_tenant d = x \<and> dv_revoked d = None) (devices ?t) \<le> 1" for x
    using assms(2) le_trans unfolding d devices_inv_def by blast
  have "\<exists>k \<in> set (api_keys ?t). k_id k = dv_cred e \<and> (dv_revoked e \<noteq> None \<longrightarrow> k_revoked k \<noteq> None)"
    if e: "e \<in> set (devices ?t)" for e
  proof -
    obtain e0 where e0: "e0 \<in> set (devices s)" "e = (if ?q e0 then ?f e0 else e0)"
      using e unfolding d by (auto simp: mem_upd_where)
    obtain k0 where k0: "k0 \<in> set (api_keys s)" "k_id k0 = dv_cred e0" "dv_revoked e0 \<noteq> None \<longrightarrow> k_revoked k0 \<noteq> None"
      using assms(2) e0(1) by (auto simp: devices_inv_def)
    define k1 where "k1 = (if ?p k0 then revoke_at now k0 else k0)"
    have "k1 \<in> set (api_keys ?t)" unfolding k k1_def by (rule upd_whereI[OF k0(1)])
    moreover have "k_id k1 = dv_cred e" using k0(2) e0(2) by (simp add: k1_def)
    moreover have "dv_revoked e \<noteq> None \<longrightarrow> k_revoked k1 \<noteq> None"
    proof (cases "?q e0")
      case True
      then have "?p k0 \<or> k_revoked k0 \<noteq> None" using e0(1) k0(2) by metis
      then show ?thesis by (auto simp: k1_def)
    next
      case False
      then have "e = e0" using e0(2) by simp
      then show ?thesis using k0(3) by (simp add: k1_def)
    qed
    ultimately show ?thesis by (intro bexI[of _ k1]) simp
  qed
  then have "devices_inv ?t" using one assms(2) by (simp add: devices_inv_def d map_upd_where)
  moreover have "\<forall>d \<in> set (devices ?t). dv_tenant d = tenant \<longrightarrow> dv_revoked d \<noteq> None"
    unfolding d by simp
  moreover have "tickets ?t = tickets s" "pairings ?t = pairings s"
    by (simp_all add: revoke_devices_def Let_def)
  moreover have "keys_inv ?t" by (rule keys_inv_upd[OF assms(1) k])
  ultimately show ?thesis by blast
qed

lemma auth_step_inv:
  assumes inv: "auth_inv S s" and run: "run_auth S h x s = Inr t"
  shows "auth_inv S t"
proof -
  have k: "keys_inv s" and tk: "tickets_inv S s" and d: "devices_inv s" and p: "pairings_inv s"
    using inv by (simp_all add: auth_inv_def)
  have step: "keys_step s t" by (rule keys_step_run[OF run])
  show ?thesis
  proof (cases x)
    case (ACreate name ss tid cred tok)
    then obtain r where "create_tenant_with_key h name ss tid cred tok s = (t, Inr r)"
      using run by (auto split: prod.splits sum.splits)
    then obtain ts kr where ins: "insert_key kr (s\<lparr>tenants := ts\<rparr>) = Inr t" by (rule create_cases)
    have "keys_inv t" by (rule keys_inv_insert[OF _ ins]) (use k in \<open>simp add: keys_inv_def\<close>)
    moreover have "devices t = devices s" "tickets t = tickets s" "pairings t = pairings s"
      using ins by (auto simp: insert_key_Inr)
    ultimately show ?thesis using tk p devices_inv_keys[OF d _ step]
      by (simp add: auth_inv_def tickets_inv_def pairings_inv_def)
  next
    case (ARevokeKey raw now)
    then have t: "t = fst (revoke_api_key h raw now s)" using run by simp
    have "keys_inv t" by (rule keys_inv_upd[OF k]) (simp add: t revoke_api_key_def)
    then show ?thesis using tk p devices_inv_keys[OF d _ step]
      by (simp add: t revoke_api_key_def auth_inv_def tickets_inv_def pairings_inv_def)
  next
    case (AIssue pr a tok now)
    then have "issue_ticket S h pr a tok now s = Inr t" using run by simp
    then obtain kr ts where i: "ts = del_where (\<lambda>t. wt_expires t \<le> now) (tickets s)" "length ts < max_tickets S"
      "count_where (\<lambda>t. wt_cred t = credential_id pr) ts < max_per_credential S" "\<forall>t \<in> set ts. wt_hash t \<noteq> h tok"
      "t = s\<lparr>tickets := ts @ [\<lparr>wt_hash = h tok, wt_cred = credential_id pr, wt_tenant = tenant_id pr,
         wt_audience = a, wt_expires = now + ticket_ttl S\<rparr>]\<rparr>"
      by (rule issue_cases)
    have "tickets_inv S (s\<lparr>tickets := ts\<rparr>)" by (rule tickets_inv_del[OF tk]) (simp add: i(1))
    then have "tickets_inv S t" using i(2-4)
      by (auto simp: i(5) tickets_inv_def count_where_append count_where_Cons count_where_def)
    then show ?thesis using k p d by (simp add: i(5) auth_inv_def keys_inv_def devices_inv_def pairings_inv_def)
  next
    case (AConsume tok a now)
    then have t: "t = fst (consume_ticket h tok a now s)" using run by simp
    have "t = s \<or> (\<exists>q. t = s\<lparr>tickets := del_where q (tickets s)\<rparr>)"
      unfolding t by (cases rule: consume_cases[of h tok a now s]) auto
    then show ?thesis
    proof
      assume "\<exists>q. t = s\<lparr>tickets := del_where q (tickets s)\<rparr>"
      then obtain q where q: "t = s\<lparr>tickets := del_where q (tickets s)\<rparr>" by blast
      have "tickets_inv S t" by (rule tickets_inv_del[OF tk]) (simp add: q)
      then show ?thesis using k p d by (simp add: q auth_inv_def keys_inv_def devices_inv_def pairings_inv_def)
    qed (use inv in simp)
  next
    case (AIssuePairing tenant tok now)
    then obtain tid ps qs where ps: "ps = del_where (\<lambda>p. p_expires p \<le> now) (pairings s)"
      "length ps < MAX_PENDING_PAIRINGS"
      "put_pairing \<lparr>p_tenant = tid, p_hash = h tok, p_expires = now + PAIRING_TTL_SECONDS\<rparr> ps = Inr qs"
      "t = s\<lparr>pairings := qs\<rparr>"
      using run by (auto simp: issue_pairing_def Let_def split: option.splits if_splits)
    have dist: "distinct (map p_tenant ps)" using p by (simp add: ps(1) pairings_inv_def del_where_def distinct_map_filter)
    have "distinct (map p_tenant qs) \<and> length qs \<le> MAX_PENDING_PAIRINGS"
    proof (cases "\<exists>p \<in> set ps. p_tenant p = tid")
      case True
      then have "qs = upd_where (\<lambda>p. p_tenant p = tid) (\<lambda>p. \<lparr>p_tenant = tid, p_hash = h tok, p_expires = now + PAIRING_TTL_SECONDS\<rparr>) ps"
        using ps(3) by (auto simp: put_pairing_def split: if_splits)
      moreover from this have "map p_tenant qs = map p_tenant ps" by (simp add: upd_where_def)
      ultimately show ?thesis using dist ps(2) by simp
    next
      case False
      then have "qs = ps @ [\<lparr>p_tenant = tid, p_hash = h tok, p_expires = now + PAIRING_TTL_SECONDS\<rparr>]"
        using ps(3) by (auto simp: put_pairing_def split: if_splits)
      then show ?thesis using dist ps(2) False by auto
    qed
    then show ?thesis using k tk d by (simp add: ps(4) auth_inv_def keys_inv_def tickets_inv_def devices_inv_def pairings_inv_def)
  next
    case (ARedeem tok dev cred ktok now)
    then have "redeem_tx h tok dev cred ktok now s = Inr t" using run by simp
    then obtain pr s1 s2 where "pr \<in> set (pairings s)" "p_hash pr = h tok" and r: "s1 = revoke_devices (p_tenant pr) now (s\<lparr>pairings := del_where
        (\<lambda>q. p_tenant q = p_tenant pr \<and> p_hash q = h tok \<and> p_expires q > now) (pairings s)\<rparr>)"
      "insert_key \<lparr>k_id = cred, k_tenant = p_tenant pr, k_hash = snd (generate_api_key h ktok),
         k_scopes = DEVICE_SCOPES, k_revoked = None\<rparr> s1 = Inr s2"
      "insert_device \<lparr>dv_id = dev, dv_tenant = p_tenant pr, dv_cred = cred, dv_revoked = None\<rparr> s2 = Inr t"
      by (rule redeem_cases)
    let ?s0 = "s\<lparr>pairings := del_where (\<lambda>q. p_tenant q = p_tenant pr \<and> p_hash q = h tok \<and> p_expires q > now) (pairings s)\<rparr>"
    have "keys_inv ?s0" "devices_inv ?s0" using k d by (simp_all add: keys_inv_def devices_inv_def)
    note rev = revoke_devices_inv[OF this, of "p_tenant pr" now, folded r(1)]
    have k2: "keys_inv s2" using keys_inv_insert[OF _ r(2)] rev by blast
    have s2: "s2 = s1\<lparr>api_keys := api_keys s1 @ [\<lparr>k_id = cred, k_tenant = p_tenant pr,
        k_hash = snd (generate_api_key h ktok), k_scopes = DEVICE_SCOPES, k_revoked = None\<rparr>]\<rparr>"
      and t: "t = s2\<lparr>devices := devices s2 @ [\<lparr>dv_id = dev, dv_tenant = p_tenant pr, dv_cred = cred, dv_revoked = None\<rparr>]\<rparr>"
      and fresh: "\<forall>e \<in> set (devices s1). dv_id e \<noteq> dev \<and> dv_cred e \<noteq> cred"
      using r(2,3) by (auto simp: insert_key_Inr insert_device_Inr)
    have d1: "devices_inv s1" and dead: "\<forall>e \<in> set (devices s1). dv_tenant e = p_tenant pr \<longrightarrow> dv_revoked e \<noteq> None"
      using rev by auto
    have none: "count_where (\<lambda>d. dv_tenant d = p_tenant pr \<and> dv_revoked d = None) (devices s1) = 0"
      using dead by (auto simp: count_where_zero)
    have "devices_inv t" unfolding devices_inv_def
    proof (intro conjI)
      show "distinct (map dv_id (devices t))" "distinct (map dv_cred (devices t))"
        using d1 fresh by (auto simp: t s2 devices_inv_def)
      show "\<forall>x. count_where (\<lambda>d. dv_tenant d = x \<and> dv_revoked d = None) (devices t) \<le> 1"
        using d1 none by (auto simp: t s2 devices_inv_def count_where_append count_where_Cons count_where_def)
      show "\<forall>d \<in> set (devices t). \<exists>k \<in> set (api_keys t). k_id k = dv_cred d \<and> (dv_revoked d \<noteq> None \<longrightarrow> k_revoked k \<noteq> None)"
        using d1 by (auto simp: t s2 devices_inv_def)
    qed
    moreover have "keys_inv t" using k2 by (simp add: t keys_inv_def)
    moreover have "pairings_inv t" using p rev
      by (auto simp: t s2 pairings_inv_def del_where_def distinct_map_filter intro: le_trans[OF length_filter_le])
    moreover have "tickets_inv S t" using tk rev by (simp add: t s2 tickets_inv_def)
    ultimately show ?thesis by (simp add: auth_inv_def)
  next
    case (ARevokeDevices tenant now)
    then obtain tid where t: "t = (revoke_devices tid now s)\<lparr>pairings := del_where (\<lambda>p. p_tenant p = tid) (pairings (revoke_devices tid now s))\<rparr>"
      using run by (auto simp: revoke_tenant_devices_def Let_def split: option.splits if_splits)
    note rev = revoke_devices_inv[OF k d, of tid now]
    have "keys_inv t" "devices_inv t" "tickets_inv S t"
      using rev tk by (simp_all add: t keys_inv_def devices_inv_def tickets_inv_def)
    moreover have "pairings_inv t" using p rev
      by (auto simp: t pairings_inv_def del_where_def distinct_map_filter intro: le_trans[OF length_filter_le])
    ultimately show ?thesis by (simp add: auth_inv_def)
  qed
qed

interpretation adb: tx_system "run_auth S h" "auth_inv S"
  by unfold_locales (rule auth_step_inv)

section \<open>Properties\<close>

lemma auth_run_inv: "auth_inv S (run_all (run_auth S h) ops empty_adb)"
  by (rule adb.inv_run_all[OF auth_inv_empty])

text \<open>C22 The authentication database invariant: after any schedule of key creation and revocation,
  ticket issuance and consumption, and device pairing, redemption and revocation, key ids and
  hashes are unique and grant only known scopes, outstanding tickets never exceed the total and
  per-credential quotas, every tenant has at most one active companion device, the credential
  of a revoked device is revoked, and pending pairings stay bounded with one per tenant.\<close>

theorem auth_invariant: "auth_inv S (run_all (run_auth S h) ops empty_adb)"
  by (rule auth_run_inv)

lemma dead_hash_run:
  "\<exists>k \<in> set (api_keys s). P (k_id k) (k_hash k) \<and> k_revoked k \<noteq> None \<Longrightarrow>
   \<exists>k \<in> set (api_keys (run_all (run_auth S h) ops s)). P (k_id k) (k_hash k) \<and> k_revoked k \<noteq> None"
proof (induction ops arbitrary: s)
  case (Cons x ops)
  have "\<exists>k \<in> set (api_keys (commit (run_auth S h) x s)). P (k_id k) (k_hash k) \<and> k_revoked k \<noteq> None"
  proof (cases "run_auth S h x s")
    case (Inl e)
    then show ?thesis using Cons.prems by (simp add: commit_def)
  next
    case (Inr t)
    then show ?thesis using dead_key_step[OF keys_step_run[OF Inr] Cons.prems] by (simp add: commit_def)
  qed
  from Cons.IH[OF this] show ?case by simp
qed simp

lemma no_active_hash:
  assumes "keys_inv s" "k \<in> set (api_keys s)" "k_hash k = x" "k_revoked k \<noteq> None"
  shows "find (\<lambda>k. k_hash k = x \<and> k_revoked k = None) (api_keys s) = None"
proof -
  have "\<not> (k_hash q = x \<and> k_revoked q = None)" if "q \<in> set (api_keys s)" for q
    using distinct_map_eq[of k_hash "api_keys s" q k] assms that by (auto simp: keys_inv_def)
  then show ?thesis by (simp add: find_None_iff)
qed

lemma no_active_id:
  assumes "keys_inv s" "k \<in> set (api_keys s)" "k_id k = c" "k_revoked k \<noteq> None" "q \<in> set (api_keys s)" "k_id q = c"
  shows "k_revoked q \<noteq> None"
  using distinct_map_eq[of k_id "api_keys s" q k] assms by (simp add: keys_inv_def)

text \<open>C23 Revocation is permanent: once an API key is revoked, no later schedule of operations lets it
  authenticate a request, redeem a ticket issued to its credential, or act as a paired device.\<close>

theorem revocation_permanent:
  assumes "k \<in> set (api_keys (run_all (run_auth S h) ops empty_adb))" "k_revoked k \<noteq> None"
  shows "(h raw = k_hash k \<longrightarrow>
      resolve_principal h (Some raw) (run_all (run_auth S h) (ops @ later) empty_adb) = Inr None) \<and>
    (snd (consume_ticket h tok aud now (run_all (run_auth S h) (ops @ later) empty_adb)) = Inr (Some p) \<longrightarrow>
      credential_id p \<noteq> k_id k) \<and>
    (pd_cred pd = k_id k \<longrightarrow>
      require_active pd (run_all (run_auth S h) (ops @ later) empty_adb) = Inl AuthorizationDenied)"
proof -
  define t where "t = run_all (run_auth S h) (ops @ later) empty_adb"
  have t: "t = run_all (run_auth S h) later (run_all (run_auth S h) ops empty_adb)"
    by (simp add: t_def run_all_def)
  have inv: "keys_inv t" using auth_run_inv unfolding t_def auth_inv_def by blast
  have "\<exists>k' \<in> set (api_keys t). (k_id k' = k_id k \<and> k_hash k' = k_hash k) \<and> k_revoked k' \<noteq> None"
    unfolding t by (rule dead_hash_run) (use assms in blast)
  then obtain k' where k': "k' \<in> set (api_keys t)" "k_id k' = k_id k" "k_hash k' = k_hash k" "k_revoked k' \<noteq> None"
    by blast
  have "resolve_principal h (Some raw) t = Inr None" if "h raw = k_hash k"
    using no_active_hash[OF inv k'(1,3,4)] that by (simp add: resolve_principal_def)
  moreover have "credential_id p \<noteq> k_id k" if "snd (consume_ticket h tok aud now t) = Inr (Some p)"
  proof (cases rule: consume_cases[of h tok aud now t])
    case 1
    then show ?thesis using that by blast
  next
    case (2 q p' tk)
    then have "p = p'" using that by blast
    moreover have "credential_id p' = k_id q" using 2(6) by (simp add: key_principal_def mk_principal_Inr)
    moreover have "k_revoked q = None" using 2(5) by (simp add: active_key_def)
    ultimately show ?thesis using no_active_id[OF inv k'(1,2,4) 2(4)] by auto
  qed
  moreover have "require_active pd t = Inl AuthorizationDenied" if "pd_cred pd = k_id k"
    using no_active_id[OF inv k'(1,2,4)] that unfolding require_active_def guardR_def by auto
  ultimately show ?thesis unfolding t_def by blast
qed

definition demo_S :: ticket_settings where
  "demo_S = \<lparr>ticket_ttl = 30, max_tickets = 4, max_per_credential = 2\<rparr>"

definition demo_ops :: "auth_op list" where
  "demo_ops = [ACreate ''acme'' None ''t'' ''c'' ''secret'', ARevokeKey ''ally_secret'' 5]"

theorem revocation_permanent_witness:
  "resolve_principal id (Some ''ally_secret'') (run_all (run_auth demo_S id) (demo_ops @ []) empty_adb) = Inr None"
proof -
  let ?s = "run_all (run_auth demo_S id) demo_ops empty_adb"
  have n: "api_keys ?s \<noteq> []" and r: "k_revoked (hd (api_keys ?s)) \<noteq> None"
    and x: "id ''ally_secret'' = k_hash (hd (api_keys ?s))" by code_simp+
  have "hd (api_keys ?s) \<in> set (api_keys ?s)" using n by simp
  from conjunct1[OF revocation_permanent[OF this r]] x show ?thesis by blast
qed

text \<open>C11 Tickets are single-use and confer exactly the current authority: a redeemed ticket yields
  the principal of a live key with that key's present scopes, including the scope of the
  audience; the same token is then rejected by every later consumption, at any time and for any
  audience, unless a ticket with the same digest has been issued in between.\<close>

theorem ticket_single_use:
  assumes "auth_inv S s" "consume_ticket h tok aud now s = (s', Inr (Some p))"
    "\<forall>q a tok' n. AIssue q a tok' n \<in> set ops \<longrightarrow> h tok' \<noteq> h tok"
  shows "(\<exists>k \<in> set (api_keys s). k_revoked k = None \<and> credential_id p = k_id k \<and> tenant_id p = k_tenant k \<and>
      scopes p = set (k_scopes k) \<and> (\<exists>sc. AUDIENCE_SCOPE aud = Inr sc \<and> sc \<in> scopes p)) \<and>
    snd (consume_ticket h tok aud' now' (run_all (run_auth S h) ops s')) = Inr None"
proof -
  have c: "fst (consume_ticket h tok aud now s) = s'" "snd (consume_ticket h tok aud now s) = Inr (Some p)"
    using assms(2) by simp_all
  have gone_step: "\<forall>x \<in> set (tickets u). wt_hash x \<noteq> h tok"
    if g1: "\<forall>x \<in> set (tickets v). wt_hash x \<noteq> h tok" and g2: "run_auth S h y v = Inr u"
      and g3: "\<forall>q a tok' n. y = AIssue q a tok' n \<longrightarrow> h tok' \<noteq> h tok" for u v y
  proof (cases y)
    case (ACreate name ss tid cred tk)
    then obtain r where "create_tenant_with_key h name ss tid cred tk v = (u, Inr r)"
      using g2 by (auto split: prod.splits sum.splits)
    then show ?thesis by (rule create_cases) (use g1 in \<open>auto simp: insert_key_Inr\<close>)
  next
    case (AIssue q a tok' n)
    have "issue_ticket S h q a tok' n v = Inr u" using g2 AIssue by simp
    then show ?thesis by (rule issue_cases) (use g1 g3 AIssue in \<open>auto simp: set_del_where\<close>)
  next
    case (AConsume tok' a n)
    then have "u = fst (consume_ticket h tok' a n v)" using g2 by simp
    then show ?thesis using g1
      by (cases rule: consume_cases[of h tok' a n v]) (auto simp: set_del_where)
  next
    case (ARedeem tok' dev cred ktok n)
    have "redeem_tx h tok' dev cred ktok n v = Inr u" using g2 ARedeem by simp
    then show ?thesis by (rule redeem_cases)
      (use g1 in \<open>auto simp: insert_key_Inr insert_device_Inr revoke_devices_def Let_def\<close>)
  qed (use g1 g2 in \<open>auto simp: revoke_api_key_def issue_pairing_def revoke_tenant_devices_def
      revoke_devices_def Let_def split: option.splits if_splits\<close>)
  have gone_run: "\<forall>x \<in> set (tickets v). wt_hash x \<noteq> h tok \<Longrightarrow>
      \<forall>q a tok' n. AIssue q a tok' n \<in> set zs \<longrightarrow> h tok' \<noteq> h tok \<Longrightarrow>
      \<forall>x \<in> set (tickets (run_all (run_auth S h) zs v)). wt_hash x \<noteq> h tok" for zs v
  proof (induction zs arbitrary: v)
    case (Cons z zs)
    have z: "\<forall>q a tok' n. z = AIssue q a tok' n \<longrightarrow> h tok' \<noteq> h tok" using Cons.prems(2) by auto
    have "\<forall>x \<in> set (tickets (commit (run_auth S h) z v)). wt_hash x \<noteq> h tok"
    proof (cases "run_auth S h z v")
      case (Inl e)
      then show ?thesis using Cons.prems(1) by (simp add: commit_def)
    next
      case (Inr u)
      then show ?thesis using gone_step[OF Cons.prems(1) Inr z] by (simp add: commit_def)
    qed
    moreover have "\<forall>q a tok' n. AIssue q a tok' n \<in> set zs \<longrightarrow> h tok' \<noteq> h tok" using Cons.prems(2) by auto
    ultimately show ?case unfolding run_all_simps by (rule Cons.IH)
  qed simp
  show ?thesis
  proof (cases rule: consume_cases[of h tok aud now s])
    case 1
    then show ?thesis using c by blast
  next
    case (2 k p' tk)
    have p: "p = p'" "\<exists>sc. AUDIENCE_SCOPE aud = Inr sc \<and> sc \<in> scopes p'" using 2(7)[OF c(2)] by auto
    have "credential_id p = k_id k \<and> tenant_id p = k_tenant k \<and> scopes p = set (k_scopes k)"
      using 2(6) p(1) unfolding key_principal_def mk_principal_Inr validate_scopes_Inr by blast
    moreover have "k_revoked k = None" using 2(5) by (simp add: active_key_def)
    ultimately have auth: "\<exists>k \<in> set (api_keys s). k_revoked k = None \<and> credential_id p = k_id k \<and>
      tenant_id p = k_tenant k \<and> scopes p = set (k_scopes k) \<and> (\<exists>sc. AUDIENCE_SCOPE aud = Inr sc \<and> sc \<in> scopes p)"
      using 2(4) p by blast
    have s': "tickets s' = del_where (redeemable s (h tok) aud now) (tickets s)" using 2(1) c(1) by simp
    have "\<forall>x \<in> set (tickets s'). wt_hash x \<noteq> h tok"
    proof
      fix x assume x: "x \<in> set (tickets s')"
      show "wt_hash x \<noteq> h tok"
      proof
        assume "wt_hash x = h tok"
        moreover have "wt_hash tk = h tok" using 2(3) by (simp add: redeemable_def)
        moreover have "distinct (map wt_hash (tickets s))" using assms(1) by (simp add: auth_inv_def tickets_inv_def)
        ultimately have "x = tk" using distinct_map_eq[of wt_hash "tickets s" x tk] x 2(2) s'
          by (simp add: set_del_where)
        then show False using x 2(3) s' by (simp add: set_del_where)
      qed
    qed
    from gone_run[OF this assms(3)]
    have "find (redeemable u (h tok) aud' now') (tickets (run_all (run_auth S h) ops s')) = None" for u
      by (auto simp: find_None_iff redeemable_def)
    then have "snd (consume_ticket h tok aud' now' (run_all (run_auth S h) ops s')) = Inr None"
      by (simp add: consume_ticket_def)
    then show ?thesis using auth by blast
  qed
qed

theorem ticket_single_use_witness:
  "\<exists>s s' p. consume_ticket id (replicate 40 CHR ''x'') ''chat'' 6 s = (s', Inr (Some p)) \<and>
     snd (consume_ticket id (replicate 40 CHR ''x'') ''chat'' 7 s') = Inr None"
proof -
  let ?tok = "replicate 40 CHR ''x''"
  let ?p = "\<lparr>tenant_id = ''t'', credential_id = ''c'', scopes = {''chat:use''}\<rparr>"
  let ?s = "run_all (run_auth demo_S id) [ACreate ''acme'' None ''t'' ''c'' ''secret'', AIssue ?p ''chat'' ?tok 5] empty_adb"
  let ?r = "consume_ticket id ?tok ''chat'' 6 ?s"
  have "case snd ?r of Inr (Some q) \<Rightarrow> True | _ \<Rightarrow> False" by code_simp
  then obtain q where q: "snd ?r = Inr (Some q)" by (auto split: sum.splits option.splits)
  then have r: "?r = (fst ?r, Inr (Some q))" by (metis prod.collapse)
  have "snd (consume_ticket id ?tok ''chat'' 7 (run_all (run_auth demo_S id) [] (fst ?r))) = Inr None"
    by (rule conjunct2[OF ticket_single_use[OF auth_run_inv r]]) simp
  with r show ?thesis unfolding run_all_simps by blast
qed

text \<open>Redeeming a pairing token replaces the tenant's device for good: the new device is active,
  and whatever device of that tenant was active before is refused from then on by every later
  schedule of operations.\<close>

lemma redeem_replaces_device:
  assumes "auth_inv S s" "redeem h tok dev cred ktok now s = (t, Inr enrol)"
    "require_active old s = Inr ()"
    "\<exists>d \<in> set (devices t). dv_id d = dev \<and> dv_tenant d = pd_tenant old"
  shows "require_active \<lparr>pd_tenant = pd_tenant old, pd_cred = cred, pd_device = dev\<rparr> t = Inr () \<and>
    require_active old (run_all (run_auth S h) ops t) = Inl AuthorizationDenied"
proof -
  have tx: "redeem_tx h tok dev cred ktok now s = Inr t"
    using assms(2) by (auto simp: redeem_def split: sum.splits)
  have run: "run_auth S h (ARedeem tok dev cred ktok now) s = Inr t" using tx by simp
  have inv_t: "auth_inv S t" by (rule auth_step_inv[OF assms(1) run])
  obtain p s1 s2 where "p \<in> set (pairings s)" "p_hash p = h tok"
    and r: "s1 = revoke_devices (p_tenant p) now (s\<lparr>pairings := del_where
       (\<lambda>q. p_tenant q = p_tenant p \<and> p_hash q = h tok \<and> p_expires q > now) (pairings s)\<rparr>)"
    "insert_key \<lparr>k_id = cred, k_tenant = p_tenant p, k_hash = snd (generate_api_key h ktok),
       k_scopes = DEVICE_SCOPES, k_revoked = None\<rparr> s1 = Inr s2"
    "insert_device \<lparr>dv_id = dev, dv_tenant = p_tenant p, dv_cred = cred, dv_revoked = None\<rparr> s2 = Inr t"
    using tx by (rule redeem_cases)
  have dt: "devices t = devices s1 @ [\<lparr>dv_id = dev, dv_tenant = p_tenant p, dv_cred = cred, dv_revoked = None\<rparr>]"
    and kt: "api_keys t = api_keys s1 @ [\<lparr>k_id = cred, k_tenant = p_tenant p, k_hash = snd (generate_api_key h ktok),
       k_scopes = DEVICE_SCOPES, k_revoked = None\<rparr>]"
    using r(2,3) by (auto simp: insert_key_Inr insert_device_Inr)
  have ten: "p_tenant p = pd_tenant old"
  proof -
    have "distinct (map dv_id (devices t))" using inv_t by (simp add: auth_inv_def devices_inv_def)
    then show ?thesis using assms(4) unfolding dt by auto
  qed
  have "require_active \<lparr>pd_tenant = pd_tenant old, pd_cred = cred, pd_device = dev\<rparr> t = Inr ()"
    by (simp add: require_active_def guardR_def dt kt ten)
  moreover have "\<exists>k \<in> set (api_keys t). k_id k = pd_cred old \<and> k_revoked k \<noteq> None"
  proof -
    obtain d k where d: "d \<in> set (devices s)" "k \<in> set (api_keys s)" "k_id k = dv_cred d"
        "dv_tenant d = pd_tenant old" "dv_cred d = pd_cred old" "dv_revoked d = None" "k_revoked k = None"
      using assms(3) unfolding require_active_def by auto
    have "\<exists>k \<in> set (api_keys s1). k_id k = pd_cred old \<and> k_revoked k \<noteq> None"
      using d ten unfolding r(1) revoke_devices_def Let_def by (auto simp: intro!: bexI[of _ k] bexI[of _ d])
    then show ?thesis by (auto simp: kt)
  qed
  then have "\<exists>k \<in> set (api_keys (run_all (run_auth S h) ops t)). k_id k = pd_cred old \<and> k_revoked k \<noteq> None"
    by (rule dead_hash_run)
  then obtain k where k: "k \<in> set (api_keys (run_all (run_auth S h) ops t))" "k_id k = pd_cred old" "k_revoked k \<noteq> None"
    by blast
  have "keys_inv (run_all (run_auth S h) ops t)" using adb.inv_run_all[OF inv_t] by (simp add: auth_inv_def)
  from no_active_id[OF this k]
  have "require_active old (run_all (run_auth S h) ops t) = Inl AuthorizationDenied"
    unfolding require_active_def guardR_def by auto
  ultimately show ?thesis by blast
qed

lemma redeem_replaces_device_witness:
  "\<exists>s t old x. require_active old s = Inr () \<and>
     redeem id (replicate 40 CHR ''y'') ''d2'' ''c2'' ''k2'' 9 s = (t, Inr x) \<and>
     require_active old t = Inl AuthorizationDenied"
proof -
  let ?s = "\<lparr>tenants = [\<lparr>tn_id = ''t'', tn_name = ''acme''\<rparr>],
     api_keys = [\<lparr>k_id = ''c1'', k_tenant = ''t'', k_hash = ''h1'', k_scopes = DEVICE_SCOPES, k_revoked = None\<rparr>],
     tickets = [], pairings = [\<lparr>p_tenant = ''t'', p_hash = replicate 40 CHR ''y'', p_expires = 20\<rparr>],
     devices = [\<lparr>dv_id = ''d1'', dv_tenant = ''t'', dv_cred = ''c1'', dv_revoked = None\<rparr>]\<rparr>"
  let ?old = "\<lparr>pd_tenant = ''t'', pd_cred = ''c1'', pd_device = ''d1''\<rparr>"
  let ?r = "redeem id (replicate 40 CHR ''y'') ''d2'' ''c2'' ''k2'' 9 ?s"
  have i: "auth_inv demo_S ?s"
    by (simp add: auth_inv_def keys_inv_def tickets_inv_def devices_inv_def pairings_inv_def count_where_def
        DEVICE_SCOPES_def KNOWN_SCOPES_def MAX_PENDING_PAIRINGS_def)
  have a: "require_active ?old ?s = Inr ()" by code_simp
  have "is_ok (snd ?r)" by code_simp
  then obtain x where "snd ?r = Inr x" by (auto simp: is_ok_iff)
  then have r: "?r = (fst ?r, Inr x)" by (metis prod.collapse)
  have d: "\<exists>d \<in> set (devices (fst ?r)). dv_id d = ''d2'' \<and> dv_tenant d = pd_tenant ?old" by code_simp
  have "require_active ?old (run_all (run_auth demo_S id) [] (fst ?r)) = Inl AuthorizationDenied"
    by (rule conjunct2[OF redeem_replaces_device[OF i r a d]]) 
  then have e: "require_active ?old (fst ?r) = Inl AuthorizationDenied" unfolding run_all_simps .
  show ?thesis by (intro exI[of _ ?s] exI[of _ "fst ?r"] exI[of _ ?old] exI[of _ x] conjI a r e)
qed

end
