(* ===== verification/Ws_Security.thy ===== *)
theory Ws_Security
  imports Auth_Inv Rate_Window
begin

text \<open>
  Admission of WebSocket connections (\<open>services/api/websocket/security.py\<close>). A connection passes
  through the awaits of \<open>WebSocketSecurity.session\<close>: the attempt is counted and the transport
  checked, the credential is looked up in the database by a worker thread, the event loop resumes
  and admits the socket, the socket is accepted, and the session ends. Each of these is an event,
  and any interleaving of the events of several connections with the other operations on the
  authentication tables is a schedule. Sockets are numbers; hashes and clock readings are arguments.
\<close>

section \<open>Requests and settings\<close>

record ws_settings =
  s_limits :: limits
  s_require_tls :: bool
  s_origins :: "string list"
  s_query_keys :: bool
  s_max_connections :: nat
  s_max_per_tenant :: nat
  s_message_max :: nat

record ws_request =
  r_host :: "string option"
  r_scheme :: string
  r_origin :: "string option"
  r_ticket :: "string option"
  r_header_key :: "string option"
  r_query_key :: "string option"

datatype auth_method = ByTicket string | ByKey "string option"

definition given_count :: "'a option list \<Rightarrow> nat" where
  "given_count xs = length (filter (\<lambda>x. x \<noteq> None) xs)"

text \<open>\<open>_authenticate\<close> up to the database call.\<close>

definition precheck :: "ws_settings \<Rightarrow> ws_request \<Rightarrow> auth_method res" where
  "precheck S r =
     (if s_require_tls S \<and> r_scheme r \<noteq> ''wss'' then Inl (ProtocolViolation 1008 ''TLS is required'')
      else if \<exists>g \<in> set_option (r_origin r). g \<notin> set (s_origins S)
      then Inl (ProtocolViolation 1008 ''Origin is not allowed'')
      else if given_count [r_ticket r, r_header_key r, r_query_key r] > 1
      then Inl (ProtocolViolation 1008 ''Use exactly one authentication method'')
      else if r_query_key r \<noteq> None \<and> \<not> s_query_keys S
      then Inl (ProtocolViolation 1008 ''Query-string API keys are disabled'')
      else (case r_ticket r of Some t \<Rightarrow> Inr (ByTicket t)
        | None \<Rightarrow> Inr (ByKey (case r_header_key r of Some k \<Rightarrow> if k = [] then r_query_key r else Some k
                               | None \<Rightarrow> r_query_key r))))"

text \<open>The database call; \<open>ok\<close> is whether the store answered.\<close>

definition auth_db ::
  "(string \<Rightarrow> string) \<Rightarrow> bool \<Rightarrow> auth_method \<Rightarrow> string \<Rightarrow> int \<Rightarrow> adb \<Rightarrow> adb \<times> principal option res" where
  "auth_db h ok m aud now db =
     (case m of
        ByTicket t \<Rightarrow> if ok then consume_ticket h t aud now db else (db, Inl DatabaseError)
      | ByKey k \<Rightarrow> (db, authenticate_key (\<lambda>k. if ok then resolve_principal h k db else Inl DatabaseError) k))"

text \<open>The rest of \<open>_authenticate\<close>, with its two \<open>except\<close> clauses.\<close>

definition violation :: "exn \<Rightarrow> exn" where
  "violation e = (case e of
       AuthorizationDenied \<Rightarrow> ProtocolViolation 1008 ''Credential is not permitted for this socket''
     | ValueError \<Rightarrow> ProtocolViolation 1008 ''Credential is not permitted for this socket''
     | HTTPException c \<Rightarrow> ProtocolViolation 1013 ''Authentication is temporarily unavailable''
     | DatabaseError \<Rightarrow> ProtocolViolation 1013 ''Authentication is temporarily unavailable''
     | _ \<Rightarrow> e)"

definition authorize_socket :: "string \<Rightarrow> principal option res \<Rightarrow> principal option res" where
  "authorize_socket aud r =
     (case bindR r (\<lambda>p. case p of None \<Rightarrow> Inr None
          | Some q \<Rightarrow> bindR (AUDIENCE_SCOPE aud) (\<lambda>sc. bindR (require q [sc]) (\<lambda>_. Inr (Some q)))) of
        Inl e \<Rightarrow> Inl (violation e) | Inr p \<Rightarrow> Inr p)"

section \<open>Messages\<close>

text \<open>
  What \<open>websocket.receive()\<close> produced within the idle timeout. The decoder \<open>json.loads\<close> is an
  argument.
\<close>

datatype ws_frame = IdleTimeout | Disconnected int | TextFrame string | OtherFrame

definition receive_text :: "ws_settings \<Rightarrow> ws_frame \<Rightarrow> string res" where
  "receive_text S f = (case f of
       IdleTimeout \<Rightarrow> Inl (ProtocolViolation 1001 ''Connection idle timeout'')
     | Disconnected c \<Rightarrow> Inl (WebSocketDisconnect c)
     | OtherFrame \<Rightarrow> Inl (ProtocolViolation 1003 ''Text messages are required'')
     | TextFrame t \<Rightarrow> if utf8_len t > s_message_max S then Inl (ProtocolViolation 1009 ''Message exceeds size limit'')
         else Inr t)"

definition receive_json :: "(string \<Rightarrow> json_result) \<Rightarrow> ws_settings \<Rightarrow> ws_frame \<Rightarrow> dict res" where
  "receive_json loads S f = bindR (receive_text S f) (\<lambda>t. case loads t of
       JDecodeError \<Rightarrow> Inl (ProtocolViolation 1003 ''Invalid JSON message'')
     | JRaises e \<Rightarrow> Inl e
     | JValue v \<Rightarrow> (case v of PDict d \<Rightarrow> Inr d | _ \<Rightarrow> Inl (ProtocolViolation 1003 ''JSON object required'')))"

text \<open>\<open>send_json\<close>, given what the transport did: \<open>None\<close> is a timeout.\<close>

definition send_json :: "unit res option \<Rightarrow> unit res" where
  "send_json r = (case r of None \<Rightarrow> Inl (ProtocolViolation 1013 ''Client send timeout'') | Some x \<Rightarrow> x)"

section \<open>Connections\<close>

datatype phase =
    Authenticating auth_method string
  | Authenticated string "principal option res"
  | Opening string principal
  | Open string principal

datatype outcome = Closed int | Raised exn | Ready | Finished

text \<open>How the body of a session ends: it returns, raises, or outlives its lifetime.\<close>

datatype ending = Returned | Raising exn | Expired

definition session_exit :: "ending \<Rightarrow> outcome" where
  "session_exit e = (case e of Returned \<Rightarrow> Closed 1000 | Expired \<Rightarrow> Closed 1008
     | Raising x \<Rightarrow> (case x of ProtocolViolation c m \<Rightarrow> Closed c | WebSocketDisconnect c \<Rightarrow> Finished | _ \<Rightarrow> Raised x))"

record ws_sys =
  win :: window
  auth_inflight :: nat
  conns :: "(nat \<times> phase) list"
  active :: "(nat \<times> string) list"
  closing :: bool
  outcomes :: "(nat \<times> outcome) list"
  db :: adb

definition note_outcome :: "nat \<Rightarrow> outcome \<Rightarrow> ws_sys \<Rightarrow> ws_sys" where
  "note_outcome i r s = s\<lparr>outcomes := outcomes s @ [(i, r)]\<rparr>"

definition drop_conn :: "nat \<Rightarrow> ws_sys \<Rightarrow> ws_sys" where
  "drop_conn i s = s\<lparr>conns := filter (\<lambda>c. fst c \<noteq> i) (conns s), active := filter (\<lambda>c. fst c \<noteq> i) (active s)\<rparr>"

definition set_phase :: "nat \<Rightarrow> phase \<Rightarrow> ws_sys \<Rightarrow> ws_sys" where
  "set_phase i ph s = s\<lparr>conns := map (\<lambda>c. if fst c = i then (i, ph) else c) (conns s)\<rparr>"

text \<open>\<open>except ProtocolViolation\<close>: the socket is closed with its code; other exceptions propagate.\<close>

definition refuse :: "nat \<Rightarrow> exn \<Rightarrow> ws_sys \<Rightarrow> ws_sys" where
  "refuse i e s = note_outcome i (case e of ProtocolViolation c m \<Rightarrow> Closed c | _ \<Rightarrow> Raised e) (drop_conn i s)"

text \<open>\<open>authenticate\<close> up to the database call.\<close>

definition ws_connect :: "ws_settings \<Rightarrow> nat \<Rightarrow> ws_request \<Rightarrow> string \<Rightarrow> rat \<Rightarrow> ws_sys \<Rightarrow> ws_sys" where
  "ws_connect S i r aud now s =
     (case allow_attempt (s_limits S) (case r_host r of None \<Rightarrow> ''unknown'' | Some h \<Rightarrow> h) now (win s) of
        (w, Inl e) \<Rightarrow> refuse i e (s\<lparr>win := w\<rparr>)
      | (w, Inr ok) \<Rightarrow>
          if \<not> ok \<or> auth_inflight s \<ge> max_inflight (s_limits S)
          then refuse i (ProtocolViolation 1013 ''Authentication rate limit reached'') (s\<lparr>win := w\<rparr>)
          else (case precheck S r of
              Inl e \<Rightarrow> refuse i e (s\<lparr>win := w\<rparr>)
            | Inr m \<Rightarrow> s\<lparr>win := w, auth_inflight := auth_inflight s + 1,
                conns := conns s @ [(i, Authenticating m aud)]\<rparr>))"

text \<open>\<open>session\<close> from the end of \<open>authenticate\<close> to \<open>websocket.accept()\<close>.\<close>

definition tenant_count :: "string \<Rightarrow> (nat \<times> string) list \<Rightarrow> nat" where
  "tenant_count t xs = count_where (\<lambda>c. snd c = t) xs"

definition ws_admit :: "ws_settings \<Rightarrow> nat \<Rightarrow> string \<Rightarrow> principal option res \<Rightarrow> ws_sys \<Rightarrow> ws_sys" where
  "ws_admit S i aud r s0 =
     (let s = s0\<lparr>auth_inflight := auth_inflight s0 - 1\<rparr> in
      case authorize_socket aud r of
        Inl e \<Rightarrow> refuse i e s
      | Inr None \<Rightarrow> refuse i (ProtocolViolation 1008 ''Missing or invalid credential'') s
      | Inr (Some p) \<Rightarrow>
          if closing s \<or> length (active s) \<ge> s_max_connections S \<or>
             tenant_count (tenant_id p) (active s) \<ge> s_max_per_tenant S
          then refuse i (ProtocolViolation 1013 ''Connection limit reached'') s
          else set_phase i (Opening aud p) (s\<lparr>active := active s @ [(i, tenant_id p)]\<rparr>))"

section \<open>Events\<close>

datatype ws_event =
    Connect nat ws_request string rat
  | Lookup nat bool int
  | Resume nat
  | Accepted nat bool
  | SessionEnd nat ending
  | Shutdown
  | AuthOp auth_op

fun ws_step :: "ws_settings \<Rightarrow> ticket_settings \<Rightarrow> (string \<Rightarrow> string) \<Rightarrow> ws_event \<Rightarrow> ws_sys \<Rightarrow> ws_sys" where
  "ws_step S T h (Connect i r aud now) s =
     (if map_of (conns s) i \<noteq> None then s else ws_connect S i r aud now s)"
| "ws_step S T h (Lookup i ok now) s =
     (case map_of (conns s) i of
        Some (Authenticating m aud) \<Rightarrow>
          (case auth_db h ok m aud now (db s) of (d, r) \<Rightarrow> set_phase i (Authenticated aud r) (s\<lparr>db := d\<rparr>))
      | _ \<Rightarrow> s)"
| "ws_step S T h (Resume i) s =
     (case map_of (conns s) i of Some (Authenticated aud r) \<Rightarrow> ws_admit S i aud r s | _ \<Rightarrow> s)"
| "ws_step S T h (Accepted i ok) s =
     (case map_of (conns s) i of
        Some (Opening aud p) \<Rightarrow>
          if ok then note_outcome i Ready (set_phase i (Open aud p) s) else note_outcome i Finished (drop_conn i s)
      | _ \<Rightarrow> s)"
| "ws_step S T h (SessionEnd i e) s =
     (case map_of (conns s) i of Some (Open aud p) \<Rightarrow> note_outcome i (session_exit e) (drop_conn i s) | _ \<Rightarrow> s)"
| "ws_step S T h Shutdown s = s\<lparr>closing := True\<rparr>"
| "ws_step S T h (AuthOp p) s = s\<lparr>db := commit (run_auth T h) p (db s)\<rparr>"

definition ws_init :: "adb \<Rightarrow> ws_sys" where
  "ws_init d = \<lparr>win = [], auth_inflight = 0, conns = [], active = [], closing = False, outcomes = [], db = d\<rparr>"

section \<open>The invariant\<close>

text \<open>
  The authority of a socket is that of a row of the key table, which no operation removes and
  whose scopes no operation changes.
\<close>

definition backed :: "adb \<Rightarrow> principal \<Rightarrow> bool" where
  "backed d p = (\<exists>k \<in> set (api_keys d). k_id k = credential_id p \<and> k_tenant k = tenant_id p \<and>
     set (k_scopes k) = scopes p)"

definition socket_ok :: "adb \<Rightarrow> string \<Rightarrow> principal \<Rightarrow> bool" where
  "socket_ok d aud p = (backed d p \<and> (\<exists>sc. AUDIENCE_SCOPE aud = Inr sc \<and> sc \<in> scopes p))"

fun phase_ok :: "adb \<Rightarrow> phase \<Rightarrow> bool" where
  "phase_ok d (Authenticating m aud) = True"
| "phase_ok d (Authenticated aud r) = (case r of Inr (Some p) \<Rightarrow> backed d p | _ \<Rightarrow> True)"
| "phase_ok d (Opening aud p) = socket_ok d aud p"
| "phase_ok d (Open aud p) = socket_ok d aud p"

fun socket_tenant :: "phase \<Rightarrow> string option" where
  "socket_tenant (Opening aud p) = Some (tenant_id p)"
| "socket_tenant (Open aud p) = Some (tenant_id p)"
| "socket_tenant _ = None"

definition waiting :: "(nat \<times> phase) list \<Rightarrow> nat" where
  "waiting cs = count_where (\<lambda>c. socket_tenant (snd c) = None) cs"

definition conns_ok :: "ws_sys \<Rightarrow> bool" where
  "conns_ok s = (distinct (map fst (conns s)) \<and> distinct (map fst (active s)) \<and>
     (\<forall>i t. (i, t) \<in> set (active s) \<longleftrightarrow> (\<exists>ph. (i, ph) \<in> set (conns s) \<and> socket_tenant ph = Some t)))"

definition ws_inv :: "ws_settings \<Rightarrow> ticket_settings \<Rightarrow> ws_sys \<Rightarrow> bool" where
  "ws_inv S T s = (conns_ok s \<and> auth_inv T (db s) \<and> (\<forall>c \<in> set (conns s). phase_ok (db s) (snd c)) \<and>
     auth_inflight s = waiting (conns s) \<and> waiting (conns s) \<le> max_inflight (s_limits S) \<and>
     length (active s) \<le> s_max_connections S \<and>
     (\<forall>t. tenant_count t (active s) \<le> s_max_per_tenant S))"

lemma backed_mono: "keys_step d d' \<Longrightarrow> backed d p \<Longrightarrow> backed d' p"
  unfolding backed_def using keys_step_mem by metis

lemma phase_ok_mono: "keys_step d d' \<Longrightarrow> phase_ok d ph \<Longrightarrow> phase_ok d' ph"
  by (cases ph) (auto simp: socket_ok_def backed_mono split: sum.splits option.splits)

lemma key_principal_backed:
  assumes "key_principal k = Inr p" "k \<in> set (api_keys d)"
  shows "backed d p"
proof -
  have "set (k_scopes k) = scopes p" "k_tenant k = tenant_id p" "k_id k = credential_id p"
    using assms(1) unfolding key_principal_def mk_principal_Inr validate_scopes_Inr by auto
  then show ?thesis using assms(2) by (auto simp: backed_def)
qed

lemma auth_db_backed:
  assumes "auth_db h ok m aud now d = (d', Inr (Some p))"
  shows "backed d' p"
proof (cases m)
  case (ByTicket t)
  then have c: "consume_ticket h t aud now d = (d', Inr (Some p))" "ok"
    using assms by (auto simp: auth_db_def split: if_splits)
  then show ?thesis
    by (cases rule: consume_cases[of h t aud now d]) (auto intro: key_principal_backed)
next
  case (ByKey k)
  then have "d' = d" "resolve_principal h k d = Inr (Some p)"
    using assms by (auto simp: auth_db_def authenticate_key_def split: sum.splits if_splits)
  then show ?thesis
    by (auto simp: resolve_principal_def key_principal_backed dest!: find_SomeD
        split: option.splits if_splits)
qed

lemma auth_db_db: "fst (auth_db h ok m aud now d) = d \<or>
    (\<exists>t. fst (auth_db h ok m aud now d) = commit (run_auth T h) (AConsume t aud now) d)"
  by (cases m) (auto simp: auth_db_def commit_def)

section \<open>Every event keeps the invariant\<close>

lemma waiting_drop:
  assumes "distinct (map fst cs)" "(i, ph) \<in> set cs"
  shows "waiting cs = waiting (filter (\<lambda>c. fst c \<noteq> i) cs) + (if socket_tenant ph = None then 1 else 0)"
  using assms
proof (induction cs)
  case (Cons c cs)
  show ?case
  proof (cases "fst c = i")
    case True
    then have "\<forall>c' \<in> set cs. fst c' \<noteq> i" using Cons.prems(1) by (auto simp: image_iff)
    then have "filter (\<lambda>c. fst c \<noteq> i) cs = cs" by (simp add: filter_id_conv)
    moreover have "c = (i, ph)" using Cons.prems True by (cases c) (auto simp: image_iff)
    ultimately show ?thesis by (simp add: waiting_def count_where_Cons)
  next
    case False
    then have "(i, ph) \<in> set cs" using Cons.prems(2) by auto
    with Cons.IH Cons.prems(1) have
      "waiting cs = waiting (filter (\<lambda>c. fst c \<noteq> i) cs) + (if socket_tenant ph = None then 1 else 0)" by simp
    then show ?thesis using False by (simp add: waiting_def count_where_Cons)
  qed
qed simp

lemma waiting_set:
  assumes "distinct (map fst cs)" "(i, ph) \<in> set cs"
  shows "waiting (map (\<lambda>c. if fst c = i then (i, q) else c) cs) + (if socket_tenant ph = None then 1 else 0) =
    waiting cs + (if socket_tenant q = None then 1 else 0)"
  using assms
proof (induction cs)
  case (Cons c cs)
  show ?case
  proof (cases "fst c = i")
    case True
    then have "\<forall>c' \<in> set cs. fst c' \<noteq> i" using Cons.prems(1) by (auto simp: image_iff)
    then have "map (\<lambda>c. if fst c = i then (i, q) else c) cs = cs" by (simp add: map_idI)
    moreover have "c = (i, ph)" using Cons.prems True by (cases c) (auto simp: image_iff)
    ultimately show ?thesis by (simp add: waiting_def count_where_Cons)
  next
    case False
    then have "(i, ph) \<in> set cs" using Cons.prems(2) by auto
    with Cons.IH Cons.prems(1) have
      "waiting (map (\<lambda>c. if fst c = i then (i, q) else c) cs) + (if socket_tenant ph = None then 1 else 0) =
        waiting cs + (if socket_tenant q = None then 1 else 0)" by simp
    then show ?thesis using False by (simp add: waiting_def count_where_Cons)
  qed
qed simp

lemma set_set_phase: "set (map (\<lambda>c. if fst c = i then (i, q) else c) cs) =
    {c \<in> set cs. fst c \<noteq> i} \<union> (if i \<in> fst ` set cs then {(i, q)} else {})"
  by (force simp: image_iff)

lemma map_fst_set_phase: "map fst (map (\<lambda>c. if fst c = i then (i, q) else c) cs) = map fst cs"
  by (induction cs) auto

lemma conn_mem: "map_of (conns s) i = Some ph \<Longrightarrow> (i, ph) \<in> set (conns s)"
  by (rule map_of_SomeD)

lemma conns_ok_unique: "conns_ok s \<Longrightarrow> (i, p) \<in> set (conns s) \<Longrightarrow> (i, q) \<in> set (conns s) \<Longrightarrow> p = q"
  unfolding conns_ok_def by (metis eq_key_imp_eq_value)

lemma conns_ok_drop: "conns_ok s \<Longrightarrow> conns_ok (drop_conn i s)"
  by (auto simp: conns_ok_def drop_conn_def distinct_map_filter)

lemma conns_ok_set:
  assumes "conns_ok s" "(i, ph) \<in> set (conns s)" "socket_tenant q = socket_tenant ph"
  shows "conns_ok (set_phase i q s)"
proof -
  have i: "i \<in> fst ` set (conns s)" using assms(2) by force
  have "(j, t) \<in> set (active s) \<longleftrightarrow> (\<exists>p. (j, p) \<in> set (conns (set_phase i q s)) \<and> socket_tenant p = Some t)" for j t
  proof (cases "j = i")
    case True
    have "(i, t) \<in> set (active s) \<longleftrightarrow> socket_tenant ph = Some t"
      using assms(1,2) conns_ok_unique[OF assms(1,2)] unfolding conns_ok_def by metis
    then show ?thesis using True i assms(3) by (simp add: set_phase_def set_set_phase del: set_map)
  next
    case False
    then show ?thesis using assms(1) i by (simp add: conns_ok_def set_phase_def set_set_phase del: set_map)
  qed
  then show ?thesis using assms(1)
    by (simp add: conns_ok_def set_phase_def map_fst_set_phase del: map_map set_map)
qed

lemma conns_ok_admit:
  assumes "conns_ok s" "(i, ph) \<in> set (conns s)" "socket_tenant ph = None"
  shows "conns_ok (set_phase i (Opening aud p) (s\<lparr>active := active s @ [(i, tenant_id p)]\<rparr>))"
proof -
  have i: "i \<in> fst ` set (conns s)" using assms(2) by force
  have no: "(i, t) \<notin> set (active s)" for t
    using assms(1,3) conns_ok_unique[OF assms(1,2)] unfolding conns_ok_def by (metis option.distinct(1))
  then have "i \<notin> set (map fst (active s))" by force
  moreover have "(j, t) \<in> set (active s @ [(i, tenant_id p)]) \<longleftrightarrow>
      (\<exists>q. (j, q) \<in> set (map (\<lambda>c. if fst c = i then (i, Opening aud p) else c) (conns s)) \<and> socket_tenant q = Some t)" for j t
    using no i assms(1) by (cases "j = i") (auto simp: conns_ok_def set_set_phase simp del: set_map)
  ultimately show ?thesis using assms(1)
    by (simp add: conns_ok_def set_phase_def map_fst_set_phase del: map_map set_map)
qed

lemma tenant_count_append: "tenant_count t (xs @ [(i, u)]) = tenant_count t xs + (if u = t then 1 else 0)"
  by (simp add: tenant_count_def count_where_append count_where_def)

lemma drop_conn_absent:
  assumes "conns_ok s" "i \<notin> fst ` set (conns s)"
  shows "drop_conn i s = s"
proof -
  have "\<forall>c \<in> set (conns s). fst c \<noteq> i" using assms(2) by force
  moreover have "\<forall>c \<in> set (active s). fst c \<noteq> i"
    using assms unfolding conns_ok_def by (metis fst_conv image_eqI prod.collapse)
  ultimately show ?thesis by (simp add: drop_conn_def filter_id_conv)
qed

lemma ws_inv_refuse:
  assumes "ws_inv S T (s\<lparr>auth_inflight := waiting (conns s)\<rparr>)" "(i, ph) \<in> set (conns s)" "socket_tenant ph = None"
    "auth_inflight s = waiting (conns s) - 1"
  shows "ws_inv S T (refuse i e s)"
proof -
  have c: "conns_ok (s\<lparr>auth_inflight := waiting (conns s)\<rparr>)" using assms(1) by (simp add: ws_inv_def)
  then have c': "conns_ok s" by (simp add: conns_ok_def)
  have w: "waiting (conns s) = waiting (filter (\<lambda>c. fst c \<noteq> i) (conns s)) + 1"
    using waiting_drop[OF _ assms(2)] c' assms(3) by (simp add: conns_ok_def)
  have l: "length (filter (\<lambda>c. fst c \<noteq> i) (active s)) \<le> s_max_connections S"
    using assms(1) le_trans[OF length_filter_le] by (fastforce simp: ws_inv_def)
  have t: "tenant_count t (filter (\<lambda>c. fst c \<noteq> i) (active s)) \<le> s_max_per_tenant S" for t
    using assms(1) le_trans[OF count_where_del_le[of "\<lambda>c. snd c = t" "\<lambda>c. fst c = i" "active s"]]
    unfolding ws_inv_def tenant_count_def del_where_def by auto
  have "conns_ok (drop_conn i s)" by (rule conns_ok_drop[OF c'])
  then have "ws_inv S T (drop_conn i s)" using assms w l t unfolding ws_inv_def
    by (simp add: drop_conn_def)
  then show ?thesis by (simp add: ws_inv_def conns_ok_def refuse_def note_outcome_def)
qed

lemma ws_inv_upd:
  assumes "ws_inv S T s" "(i, ph) \<in> set (conns s)" "socket_tenant q = socket_tenant ph" "phase_ok (db s) q"
  shows "ws_inv S T (set_phase i q s)"
proof -
  have c: "conns_ok s" using assms(1) by (simp add: ws_inv_def)
  have "conns_ok (set_phase i q s)" by (rule conns_ok_set[OF c assms(2,3)])
  moreover have "waiting (conns (set_phase i q s)) = waiting (conns s)"
    using waiting_set[OF _ assms(2), of q] c assms(3) by (simp add: conns_ok_def set_phase_def)
  moreover have "\<forall>c \<in> set (conns (set_phase i q s)). phase_ok (db s) (snd c)"
    using assms(1,4) by (auto simp: ws_inv_def set_phase_def set_set_phase simp del: set_map split: if_splits)
  ultimately show ?thesis using assms(1) by (simp add: ws_inv_def set_phase_def)
qed

lemma ws_inv_drop_open:
  assumes "ws_inv S T s" "(i, ph) \<in> set (conns s)" "socket_tenant ph \<noteq> None"
  shows "ws_inv S T (note_outcome j r (drop_conn i s))"
proof -
  have c: "conns_ok s" using assms(1) by (simp add: ws_inv_def)
  have w: "waiting (conns s) = waiting (filter (\<lambda>c. fst c \<noteq> i) (conns s))"
    using waiting_drop[OF _ assms(2)] c assms(3) by (simp add: conns_ok_def)
  have l: "length (filter (\<lambda>c. fst c \<noteq> i) (active s)) \<le> s_max_connections S"
    using assms(1) le_trans[OF length_filter_le] by (fastforce simp: ws_inv_def)
  have t: "tenant_count t (filter (\<lambda>c. fst c \<noteq> i) (active s)) \<le> s_max_per_tenant S" for t
    using assms(1) le_trans[OF count_where_del_le[of "\<lambda>c. snd c = t" "\<lambda>c. fst c = i" "active s"]]
    unfolding ws_inv_def tenant_count_def del_where_def by auto
  have "conns_ok (drop_conn i s)" by (rule conns_ok_drop[OF c])
  then have "ws_inv S T (drop_conn i s)" using assms w l t unfolding ws_inv_def
    by (simp add: drop_conn_def)
  then show ?thesis by (simp add: ws_inv_def conns_ok_def note_outcome_def)
qed

lemma ws_inv_admit:
  assumes inv: "ws_inv S T s" and i: "(i, Authenticated aud r) \<in> set (conns s)"
  shows "ws_inv S T (ws_admit S i aud r s)"
proof -
  let ?s = "s\<lparr>auth_inflight := auth_inflight s - 1\<rparr>"
  have ref: "ws_inv S T (refuse i e ?s)" for e
    by (rule ws_inv_refuse[where ph = "Authenticated aud r"]) (use inv i in \<open>simp_all add: ws_inv_def conns_ok_def\<close>)
  show ?thesis
  proof (cases "authorize_socket aud r")
    case (Inl e)
    then show ?thesis using ref by (simp add: ws_admit_def)
  next
    case (Inr x)
    show ?thesis
    proof (cases x)
      case None
      then show ?thesis using Inr ref by (simp add: ws_admit_def)
    next
      case (Some p)
      let ?t = "?s\<lparr>active := active s @ [(i, tenant_id p)]\<rparr>"
      have a: "r = Inr (Some p)" "\<exists>sc. AUDIENCE_SCOPE aud = Inr sc \<and> sc \<in> scopes p"
        using Inr Some unfolding authorize_socket_def
        by (auto split: sum.splits option.splits)
      have ph: "phase_ok (db s) (Opening aud p)" using inv i a by (auto simp: ws_inv_def socket_ok_def)
      show ?thesis
      proof (cases "closing s \<or> length (active s) \<ge> s_max_connections S \<or>
          tenant_count (tenant_id p) (active s) \<ge> s_max_per_tenant S")
        case True
        then show ?thesis using Inr Some ref by (simp add: ws_admit_def)
      next
        case False
        have c: "conns_ok s" using inv by (simp add: ws_inv_def)
        have "conns_ok (set_phase i (Opening aud p) (s\<lparr>active := active s @ [(i, tenant_id p)]\<rparr>))"
          by (rule conns_ok_admit[OF c i]) simp
        then have "conns_ok (set_phase i (Opening aud p) ?t)" by (simp add: conns_ok_def set_phase_def)
        moreover have "waiting (conns (set_phase i (Opening aud p) ?t)) + 1 = waiting (conns s)"
          using waiting_set[OF _ i, of "Opening aud p"] c by (simp add: conns_ok_def set_phase_def)
        moreover have "\<forall>c \<in> set (conns (set_phase i (Opening aud p) ?t)). phase_ok (db s) (snd c)"
          using inv ph by (auto simp: ws_inv_def set_phase_def set_set_phase simp del: set_map phase_ok.simps split: if_splits)
        moreover have "tenant_count t (active s @ [(i, tenant_id p)]) \<le> s_max_per_tenant S" for t
          using inv False by (cases "t = tenant_id p") (simp_all add: ws_inv_def tenant_count_append)
        ultimately have "ws_inv S T (set_phase i (Opening aud p) ?t)" using inv False
          by (simp add: ws_inv_def set_phase_def)
        then show ?thesis using False Inr Some by (simp add: ws_admit_def Let_def)
      qed
    qed
  qed
qed

lemma ws_inv_connect:
  assumes inv: "ws_inv S T s" and i: "map_of (conns s) i = None"
  shows "ws_inv S T (ws_connect S i r aud now s)"
proof -
  have c: "conns_ok s" using inv by (simp add: ws_inv_def)
  have no: "i \<notin> fst ` set (conns s)" using i by (simp add: map_of_eq_None_iff)
  have ref: "ws_inv S T (refuse i e (s\<lparr>win := w\<rparr>))" for e w
  proof -
    have "conns_ok (s\<lparr>win := w\<rparr>)" using c by (simp add: conns_ok_def)
    from drop_conn_absent[OF this] no have "drop_conn i (s\<lparr>win := w\<rparr>) = s\<lparr>win := w\<rparr>" by simp
    then show ?thesis using inv by (simp add: refuse_def note_outcome_def ws_inv_def conns_ok_def)
  qed
  have new: "ws_inv S T (s\<lparr>win := w, auth_inflight := auth_inflight s + 1,
      conns := conns s @ [(i, Authenticating m aud)]\<rparr>)"
    if lim: "auth_inflight s < max_inflight (s_limits S)" for w m
  proof -
    have "waiting (conns s @ [(i, Authenticating m aud)]) = waiting (conns s) + 1"
      by (simp add: waiting_def count_where_append count_where_def)
    moreover have "conns_ok (s\<lparr>win := w, auth_inflight := auth_inflight s + 1,
        conns := conns s @ [(i, Authenticating m aud)]\<rparr>)"
      using c no by (auto simp: conns_ok_def)
    ultimately show ?thesis using inv lim by (simp add: ws_inv_def)
  qed
  show ?thesis unfolding ws_connect_def using ref new
    by (auto split: prod.splits sum.splits simp del: not_le simp: not_le[symmetric])
qed

lemma ws_inv_db:
  assumes "ws_inv S T s" "d = commit (run_auth T h) p (db s)"
  shows "ws_inv S T (s\<lparr>db := d\<rparr>)"
proof -
  have "auth_inv T d" using assms adb.inv_commit by (simp add: ws_inv_def)
  moreover have "keys_step (db s) d" unfolding assms(2) commit_def
    by (auto split: sum.splits intro: keys_step_run keys_step_same)
  ultimately show ?thesis using assms(1) phase_ok_mono by (auto simp: ws_inv_def conns_ok_def)
qed

lemma ws_step_inv: "ws_inv S T s \<Longrightarrow> ws_inv S T (ws_step S T h ev s)"
proof (cases ev)
  case (Connect i r aud now)
  assume inv: "ws_inv S T s"
  show ?thesis by (cases "map_of (conns s) i") (simp_all add: Connect inv ws_inv_connect[OF inv])
next
  case (Lookup i ok now)
  assume inv: "ws_inv S T s"
  show ?thesis
  proof (cases "\<exists>m aud. map_of (conns s) i = Some (Authenticating m aud)")
    case True
    then obtain m aud where m: "map_of (conns s) i = Some (Authenticating m aud)" by blast
    obtain d r where d: "auth_db h ok m aud now (db s) = (d, r)" by (cases "auth_db h ok m aud now (db s)")
    have "ws_inv S T (s\<lparr>db := d\<rparr>)"
    proof (cases "d = db s")
      case False
      then obtain t where "d = commit (run_auth T h) (AConsume t aud now) (db s)"
        using auth_db_db[where h = h and ok = ok and m = m and aud = aud and now = now and d = "db s" and T = T] d by auto
      with inv show ?thesis by (rule ws_inv_db)
    qed (use inv in simp)
    then have "ws_inv S T (set_phase i (Authenticated aud r) (s\<lparr>db := d\<rparr>))"
      by (rule ws_inv_upd[where ph = "Authenticating m aud"])
        (use m conn_mem auth_db_backed d in \<open>auto split: sum.splits option.splits\<close>)
    then show ?thesis using Lookup m d by simp
  qed (use inv Lookup in \<open>auto split: option.splits phase.splits\<close>)
next
  case (Accepted i ok)
  assume inv: "ws_inv S T s"
  show ?thesis
  proof (cases "\<exists>aud p. map_of (conns s) i = Some (Opening aud p)")
    case True
    then obtain aud p where m: "map_of (conns s) i = Some (Opening aud p)" by blast
    have o: "ws_inv S T (set_phase i (Open aud p) s)"
      by (rule ws_inv_upd[OF inv conn_mem[OF m]]) (use inv conn_mem[OF m] in \<open>auto simp: ws_inv_def\<close>)
    show ?thesis
    proof (cases ok)
      case True
      then show ?thesis using o Accepted m by (simp add: note_outcome_def ws_inv_def conns_ok_def)
    next
      case False
      then show ?thesis using Accepted m ws_inv_drop_open[OF inv conn_mem[OF m]] by simp
    qed
  qed (use inv Accepted in \<open>auto split: option.splits phase.splits\<close>)
next
  case (SessionEnd i e)
  assume inv: "ws_inv S T s"
  then show ?thesis using SessionEnd
    by (auto split: option.splits phase.splits dest!: conn_mem intro!: ws_inv_drop_open)
next
  case (Resume i)
  assume inv: "ws_inv S T s"
  then show ?thesis using Resume
    by (auto split: option.splits phase.splits dest!: conn_mem intro: ws_inv_admit)
next
  case (AuthOp p)
  assume inv: "ws_inv S T s"
  then show ?thesis using AuthOp ws_inv_db by auto
qed (simp add: ws_inv_def conns_ok_def)

interpretation ws: tx_system "\<lambda>ev s. Inr (ws_step S T h ev s)" "ws_inv S T"
  by unfold_locales (auto intro: ws_step_inv)

lemma ws_inv_init: "auth_inv T d \<Longrightarrow> ws_inv S T (ws_init d)"
  by (simp add: ws_inv_def ws_init_def conns_ok_def waiting_def tenant_count_def count_where_def)

definition ws_run ::
  "ws_settings \<Rightarrow> ticket_settings \<Rightarrow> (string \<Rightarrow> string) \<Rightarrow> ws_event list \<Rightarrow> ws_sys \<Rightarrow> ws_sys" where
  "ws_run S T h evs s = run_all (\<lambda>ev s. Inr (ws_step S T h ev s)) evs s"

section \<open>Properties\<close>

text \<open>C26 WebSocket admission: under every interleaving of connection attempts, credential look-ups,
  acceptances, disconnections, shutdown and other operations on the authentication tables, at most
  the configured number of sockets is admitted in total and per tenant, no more look-ups run than
  configured, and every admitted socket acts for the tenant, credential and scopes of a row of the
  key table that carries the scope of its audience.\<close>

theorem ws_admission:
  assumes "auth_inv T d" "s = ws_run S T h evs (ws_init d)"
  shows "length (active s) \<le> s_max_connections S \<and>
    count_where (\<lambda>c. snd c = t) (active s) \<le> s_max_per_tenant S \<and>
    auth_inflight s \<le> max_inflight (s_limits S) \<and>
    ((i, ten) \<in> set (active s) \<longleftrightarrow>
      (\<exists>aud p. ((i, Opening aud p) \<in> set (conns s) \<or> (i, Open aud p) \<in> set (conns s)) \<and> tenant_id p = ten)) \<and>
    ((i, Open aud p) \<in> set (conns s) \<longrightarrow>
      (\<exists>sc. AUDIENCE_SCOPE aud = Inr sc \<and> sc \<in> scopes p) \<and>
      (\<exists>k \<in> set (api_keys (db s)). k_id k = credential_id p \<and> k_tenant k = tenant_id p \<and>
         set (k_scopes k) = scopes p))"
proof -
  have inv: "ws_inv S T s" unfolding assms(2) ws_run_def by (rule ws.inv_run_all[OF ws_inv_init[OF assms(1)]])
  have "(i, ten) \<in> set (active s) \<longleftrightarrow> (\<exists>ph. (i, ph) \<in> set (conns s) \<and> socket_tenant ph = Some ten)"
    using inv by (simp add: ws_inv_def conns_ok_def)
  also have "\<dots> \<longleftrightarrow> (\<exists>aud p. ((i, Opening aud p) \<in> set (conns s) \<or> (i, Open aud p) \<in> set (conns s)) \<and> tenant_id p = ten)"
    (is "?l \<longleftrightarrow> ?r")
  proof
    assume ?l
    then obtain ph where "(i, ph) \<in> set (conns s)" "socket_tenant ph = Some ten" by blast
    then show ?r by (cases ph) auto
  qed force
  finally have 1: "(i, ten) \<in> set (active s) \<longleftrightarrow>
      (\<exists>aud p. ((i, Opening aud p) \<in> set (conns s) \<or> (i, Open aud p) \<in> set (conns s)) \<and> tenant_id p = ten)" .
  have "phase_ok (db s) (Open aud p)" if "(i, Open aud p) \<in> set (conns s)"
    using inv that unfolding ws_inv_def by fastforce
  then have 2: "(i, Open aud p) \<in> set (conns s) \<longrightarrow>
      (\<exists>sc. AUDIENCE_SCOPE aud = Inr sc \<and> sc \<in> scopes p) \<and>
      (\<exists>k \<in> set (api_keys (db s)). k_id k = credential_id p \<and> k_tenant k = tenant_id p \<and>
         set (k_scopes k) = scopes p)"
    by (auto simp: socket_ok_def backed_def)
  show ?thesis using inv 1 2 by (simp add: ws_inv_def tenant_count_def)
qed

definition demo_ws :: ws_settings where
  "demo_ws = \<lparr>s_limits = \<lparr>max_clients = 4, per_minute = 4, max_inflight = 1\<rparr>, s_require_tls = True,
     s_origins = [], s_query_keys = False, s_max_connections = 2, s_max_per_tenant = 1, s_message_max = 100\<rparr>"

definition demo_request :: ws_request where
  "demo_request = \<lparr>r_host = Some ''h'', r_scheme = ''wss'', r_origin = None, r_ticket = None,
     r_header_key = Some ''ally_secret'', r_query_key = None\<rparr>"

definition demo_events :: "ws_event list" where
  "demo_events = [AuthOp (ACreate ''acme'' None ''t'' ''c'' ''secret''), Connect 1 demo_request ''chat'' 0,
     Lookup 1 True 0, Resume 1, Accepted 1 True, Connect 2 demo_request ''chat'' 1, Lookup 2 True 1, Resume 2]"

theorem ws_admission_witness:
  "active (ws_run demo_ws demo_S id demo_events (ws_init empty_adb)) = [(1, ''t'')] \<and>
   outcomes (ws_run demo_ws demo_S id demo_events (ws_init empty_adb)) = [(1, Ready), (2, Closed 1013)] \<and>
   length (active (ws_run demo_ws demo_S id demo_events (ws_init empty_adb))) \<le> s_max_connections demo_ws"
proof -
  have "active (ws_run demo_ws demo_S id demo_events (ws_init empty_adb)) = [(1, ''t'')]" by code_simp
  moreover have "outcomes (ws_run demo_ws demo_S id demo_events (ws_init empty_adb)) = [(1, Ready), (2, Closed 1013)]"
    by code_simp
  ultimately show ?thesis using ws_admission[OF auth_inv_empty refl] by blast
qed

text \<open>Shutdown is final: once the manager is closing, no schedule of events admits a socket that
  was not admitted before.\<close>

lemma ws_shutdown_final:
  assumes "closing s"
  shows "closing (ws_run S T h evs s) \<and> set (active (ws_run S T h evs s)) \<subseteq> set (active s)"
proof -
  have step: "closing (ws_step S T h ev u) \<and> set (active (ws_step S T h ev u)) \<subseteq> set (active u)"
    if "closing u" for ev u
  proof -
    have r: "closing (refuse i e v) = closing v \<and> set (active (refuse i e v)) \<subseteq> set (active v)" for i e v
      by (auto simp: refuse_def note_outcome_def drop_conn_def)
    have "closing (ws_admit S i aud x u) \<and> set (active (ws_admit S i aud x u)) \<subseteq> set (active u)" for i aud x
    proof -
      let ?u = "u\<lparr>auth_inflight := auth_inflight u - 1\<rparr>"
      have "closing (refuse i e ?u) \<and> set (active (refuse i e ?u)) \<subseteq> set (active u)" for e
        using r[of i e ?u] that by simp
      then show ?thesis using that by (cases "authorize_socket aud x")
        (auto simp: ws_admit_def Let_def split: option.splits)
    qed
    moreover have "closing (ws_connect S i q aud now u) \<and> set (active (ws_connect S i q aud now u)) \<subseteq> set (active u)"
      for i q aud now
    proof -
      have "closing (refuse i e (u\<lparr>win := w\<rparr>)) \<and> set (active (refuse i e (u\<lparr>win := w\<rparr>))) \<subseteq> set (active u)" for e w
        using r[of i e "u\<lparr>win := w\<rparr>"] that by simp
      then show ?thesis using that by (auto simp: ws_connect_def split: prod.splits sum.splits)
    qed
    ultimately show ?thesis using that
      by (cases ev) (auto simp: set_phase_def note_outcome_def drop_conn_def
          split: option.splits phase.splits prod.splits)
  qed
  have "closing (run_all (\<lambda>ev s. Inr (ws_step S T h ev s)) evs v) \<and>
      set (active (run_all (\<lambda>ev s. Inr (ws_step S T h ev s)) evs v)) \<subseteq> set (active v)" if "closing v" for v
    using that
  proof (induction evs arbitrary: v)
    case (Cons ev evs)
    from Cons.IH[OF conjunct1[OF step[OF Cons.prems]]] step[OF Cons.prems, of ev]
    show ?case by (auto simp: commit_def)
  qed simp
  then show ?thesis using assms unfolding ws_run_def by blast
qed

lemma ws_shutdown_final_witness:
  "active (ws_run demo_ws demo_S id demo_events ((ws_init empty_adb)\<lparr>closing := True\<rparr>)) = []"
proof -
  have "closing ((ws_init empty_adb)\<lparr>closing := True\<rparr>)" by simp
  from ws_shutdown_final[OF this, of demo_ws demo_S id demo_events] show ?thesis by (simp add: ws_init_def)
qed

end
