(* ===== verification/Pc_Bridge.thy ===== *)
theory Pc_Bridge
  imports Auth_Inv
begin

text \<open>
  The bridge to the companion agents (\<open>services/agent/pc_agent_bridge.py\<close>), in the configuration
  of the shared instance, which verifies devices against the authentication tables. Every
  coroutine of the bridge is cut at its awaits, and a schedule interleaves the pieces of any number
  of registrations, results and commands with disconnections, shutdown and operations on the
  authentication tables.

  Connections, calls and futures are objects: a connection is an index into a heap of connections
  and a call owns the future it awaits. Socket identities are numbers.
\<close>

section \<open>Objects\<close>

datatype fut = Pending | Value dict | Failed exn | Cancelled

datatype call_phase = Queued | Checking | Verified bool | Sending | Awaiting | Finished "dict res"

record bconn =
  bc_ws :: nat
  bc_caps :: "(string \<times> pyval) list"
  bc_device :: paired_device
  bc_pending :: "(string \<times> nat) list"

record call =
  cl_tenant :: string
  cl_conn :: nat
  cl_req :: string
  cl_cap :: string
  cl_action :: string
  cl_params :: dict
  cl_fut :: fut
  cl_phase :: call_phase

datatype reg_phase = RegChecking | RegVerified bool | RegDone "unit res"

record registration =
  rg_tenant :: string
  rg_ws :: nat
  rg_caps :: pyval
  rg_device :: paired_device
  rg_phase :: reg_phase

datatype res_phase = ResChecking | ResVerified bool | ResDone

record reply =
  rs_tenant :: string
  rs_conn :: nat
  rs_req :: string
  rs_call :: nat
  rs_msg :: dict
  rs_phase :: res_phase

record bsys =
  conns :: "bconn list"
  registry :: "(string \<times> nat) list"
  closing :: bool
  calls :: "call list"
  regs :: "registration list"
  replies :: "reply list"
  received :: "(string \<times> nat \<times> dict) list"
  wire :: "nat list"
  closed_sockets :: "(nat \<times> int) list"
  adb_of :: adb

definition bridge_init :: "adb \<Rightarrow> bsys" where
  "bridge_init d = \<lparr>conns = [], registry = [], closing = False, calls = [], regs = [], replies = [],
     received = [], wire = [], closed_sockets = [], adb_of = d\<rparr>"

section \<open>Registration\<close>

definition KNOWN_CAPABILITIES :: "string list" where
  "KNOWN_CAPABILITIES = [''open_apps'', ''file_rw'', ''shell_exec'', ''mouse_keyboard_control'']"

definition valid_capabilities :: "pyval \<Rightarrow> (string \<times> pyval) list option" where
  "valid_capabilities v = (case v of
       PDict d \<Rightarrow> if list_all (\<lambda>(k, x). k \<in> set KNOWN_CAPABILITIES \<and> (case x of PBool b \<Rightarrow> True | _ \<Rightarrow> False)) d
         then Some d else None
     | _ \<Rightarrow> None)"

definition fail_calls :: "nat list \<Rightarrow> exn \<Rightarrow> call list \<Rightarrow> call list" where
  "fail_calls ks e cs = map (\<lambda>k. if k \<in> set ks \<and> cl_fut (cs ! k) = Pending then (cs ! k)\<lparr>cl_fut := Failed e\<rparr>
     else cs ! k) [0..<length cs]"

definition fail_pending :: "nat \<Rightarrow> exn \<Rightarrow> bsys \<Rightarrow> bsys" where
  "fail_pending c e s = s\<lparr>calls := fail_calls (map snd (bc_pending (conns s ! c))) e (calls s)\<rparr>"

text \<open>Before the verification, and after it.\<close>

definition register_start :: "string \<Rightarrow> nat \<Rightarrow> pyval \<Rightarrow> paired_device option \<Rightarrow> bsys \<Rightarrow> bsys res" where
  "register_start tenant ws caps dev s =
     (if closing s then Inl (PCAgentError ''PC agent bridge is shutting down'')
      else (case dev of None \<Rightarrow> Inl ValueError
        | Some d \<Rightarrow> if pd_tenant d \<noteq> tenant then Inl ValueError
            else Inr (s\<lparr>regs := regs s @ [\<lparr>rg_tenant = tenant, rg_ws = ws, rg_caps = caps, rg_device = d,
                   rg_phase = RegChecking\<rparr>]\<rparr>)))"

definition install :: "string \<Rightarrow> nat \<Rightarrow> (string \<times> pyval) list \<Rightarrow> paired_device \<Rightarrow> bsys \<Rightarrow> bsys" where
  "install tenant ws caps d s =
     (let new = length (conns s);
          s1 = (case map_of (registry s) tenant of None \<Rightarrow> s
             | Some c \<Rightarrow> (fail_pending c (PCAgentError ''Replaced by a new PC agent connection'') s)
                 \<lparr>closed_sockets := closed_sockets s @ [(bc_ws (conns s ! c), 1000)]\<rparr>)
      in s1\<lparr>conns := conns s1 @ [\<lparr>bc_ws = ws, bc_caps = caps, bc_device = d, bc_pending = []\<rparr>],
            registry := AList.update tenant new (registry s1)\<rparr>)"

definition register_finish :: "registration \<Rightarrow> bool \<Rightarrow> bsys \<Rightarrow> bsys \<times> unit res" where
  "register_finish r v s =
     (if \<not> v then (s, Inl (PCAgentError ''Paired device verification failed''))
      else if closing s then (s, Inl (PCAgentError ''PC agent bridge is shutting down''))
      else (case valid_capabilities (rg_caps r) of None \<Rightarrow> (s, Inl ValueError)
        | Some caps \<Rightarrow> (install (rg_tenant r) (rg_ws r) caps (rg_device r) s, Inr ())))"

definition unregister :: "string \<Rightarrow> nat \<Rightarrow> bsys \<Rightarrow> bsys" where
  "unregister tenant ws s =
     (case map_of (registry s) tenant of None \<Rightarrow> s
      | Some c \<Rightarrow> if bc_ws (conns s ! c) \<noteq> ws then s
          else fail_pending c (PCAgentError ''PC agent disconnected'')
            (s\<lparr>registry := AList.delete tenant (registry s)\<rparr>))"

definition is_connected :: "string \<Rightarrow> bsys \<Rightarrow> bool" where
  "is_connected tenant s = (map_of (registry s) tenant \<noteq> None)"

definition get_capabilities :: "string \<Rightarrow> bsys \<Rightarrow> (string \<times> pyval) list option" where
  "get_capabilities tenant s = map_option (\<lambda>c. bc_caps (conns s ! c)) (map_of (registry s) tenant)"

definition close_bridge :: "bsys \<Rightarrow> bsys" where
  "close_bridge s =
     (if closing s then s
      else (let cs = map snd (registry s);
                s1 = fold (\<lambda>c. fail_pending c (PCAgentError ''PC agent bridge is shutting down'')) cs s
        in s1\<lparr>closing := True, registry := [],
              closed_sockets := closed_sockets s @ map (\<lambda>c. (bc_ws (conns s ! c), 1012)) cs\<rparr>))"

section \<open>Results\<close>

definition set_fut :: "nat \<Rightarrow> fut \<Rightarrow> bsys \<Rightarrow> bsys" where
  "set_fut k f s = s\<lparr>calls := (calls s)[k := (calls s ! k)\<lparr>cl_fut := f\<rparr>]\<rparr>"

definition pop_pending :: "nat \<Rightarrow> string \<Rightarrow> bsys \<Rightarrow> bsys" where
  "pop_pending c r s = s\<lparr>conns := (conns s)[c := (conns s ! c)\<lparr>bc_pending := AList.delete r (bc_pending (conns s ! c))\<rparr>]\<rparr>"

definition result_start :: "string \<Rightarrow> dict \<Rightarrow> nat \<Rightarrow> bsys \<Rightarrow> bsys" where
  "result_start tenant msg ws s0 =
     (let s = s0\<lparr>received := received s0 @ [(tenant, ws, msg)]\<rparr> in
      case map_of (registry s) tenant of None \<Rightarrow> s
      | Some c \<Rightarrow> if bc_ws (conns s ! c) \<noteq> ws then s
          else (case dget msg ''request_id'' of
              PStr r \<Rightarrow> (case map_of (bc_pending (conns s ! c)) r of None \<Rightarrow> s
                | Some k \<Rightarrow> if cl_fut (calls s ! k) \<noteq> Pending then s
                    else s\<lparr>replies := replies s @ [\<lparr>rs_tenant = tenant, rs_conn = c, rs_req = r, rs_call = k,
                           rs_msg = msg, rs_phase = ResChecking\<rparr>]\<rparr>)
            | _ \<Rightarrow> s))"

definition result_finish :: "reply \<Rightarrow> bool \<Rightarrow> bsys \<Rightarrow> bsys" where
  "result_finish r v s =
     (let k = rs_call r; f = cl_fut (calls s ! k) in
      if f \<noteq> Pending then s
      else if \<not> v then set_fut k (Failed (PCAgentError ''Paired device verification failed'')) s
      else if map_of (registry s) (rs_tenant r) \<noteq> Some (rs_conn r)
      then set_fut k (Failed (PCAgentError ''PC agent connection changed before result'')) s
      else set_fut k (Value (rs_msg r)) (pop_pending (rs_conn r) (rs_req r) s))"

section \<open>Commands\<close>

definition send_start ::
  "nat \<Rightarrow> string \<Rightarrow> string \<Rightarrow> string \<Rightarrow> dict \<Rightarrow> pyfloat \<Rightarrow> string \<Rightarrow> bsys \<Rightarrow> bsys res" where
  "send_start M tenant cap act params timeout req s =
     (if closing s then Inl (PCAgentError ''PC agent bridge is shutting down'')
      else if \<not> (case timeout of Fin t \<Rightarrow> t > 0 | _ \<Rightarrow> False) then Inl ValueError
      else (case map_of (registry s) tenant of
          None \<Rightarrow> Inl (PCAgentError ''No PC agent is currently connected'')
        | Some c \<Rightarrow>
          if map_of (bc_caps (conns s ! c)) cap \<noteq> Some (PBool True) then Inl (PCAgentError ''disabled locally'')
          else if length (bc_pending (conns s ! c)) \<ge> M then Inl (PCAgentError ''too many pending commands'')
          else Inr (s\<lparr>calls := calls s @ [\<lparr>cl_tenant = tenant, cl_conn = c, cl_req = req, cl_cap = cap,
                   cl_action = act, cl_params = params, cl_fut = Pending, cl_phase = Queued\<rparr>],
                 conns := (conns s)[c := (conns s ! c)\<lparr>bc_pending :=
                   AList.update req (length (calls s)) (bc_pending (conns s ! c))\<rparr>]\<rparr>)))"

text \<open>The send lock of a connection is held by the call that verifies or sends on it.\<close>

definition holds_lock :: "call \<Rightarrow> bool" where
  "holds_lock cl = (case cl_phase cl of Checking \<Rightarrow> True | Verified b \<Rightarrow> True | Sending \<Rightarrow> True | _ \<Rightarrow> False)"

definition lock_free :: "nat \<Rightarrow> bsys \<Rightarrow> bool" where
  "lock_free c s = (\<not> (\<exists>cl \<in> set (calls s). cl_conn cl = c \<and> holds_lock cl))"

definition set_phase :: "nat \<Rightarrow> call_phase \<Rightarrow> bsys \<Rightarrow> bsys" where
  "set_phase k ph s = s\<lparr>calls := (calls s)[k := (calls s ! k)\<lparr>cl_phase := ph\<rparr>]\<rparr>"

text \<open>The \<open>finally\<close> clause, and what the caller gets.\<close>

definition finish_call :: "nat \<Rightarrow> dict res \<Rightarrow> bsys \<Rightarrow> bsys" where
  "finish_call k r s0 =
     (let cl = calls s0 ! k;
          s = pop_pending (cl_conn cl) (cl_req cl) s0;
          f = (if cl_fut cl = Pending then Cancelled else cl_fut cl)
      in s\<lparr>calls := (calls s)[k := cl\<lparr>cl_fut := f, cl_phase := Finished r\<rparr>]\<rparr>)"

definition command_details :: "dict \<Rightarrow> dict res" where
  "command_details msg =
     (if dget msg ''success'' \<noteq> PBool True then Inl (PCAgentError ''The PC agent declined or failed'')
      else (case dget_or msg ''details'' (PDict []) of PDict d \<Rightarrow> Inr d
        | _ \<Rightarrow> Inl (PCAgentError ''The PC agent returned an invalid result.'')))"

definition send_now :: "nat \<Rightarrow> bool \<Rightarrow> bsys \<Rightarrow> bsys" where
  "send_now k v s =
     (let cl = calls s ! k in
      if \<not> v then finish_call k (Inl (PCAgentError ''Failed to communicate with the PC agent.'')) s
      else if map_of (registry s) (cl_tenant cl) \<noteq> Some (cl_conn cl)
      then finish_call k (Inl (PCAgentError ''PC agent connection changed before command delivery'')) s
      else (set_phase k Sending s)\<lparr>wire := wire s @ [k]\<rparr>)"

definition await_result :: "nat \<Rightarrow> bsys \<Rightarrow> bsys" where
  "await_result k s = (case cl_fut (calls s ! k) of
       Pending \<Rightarrow> s
     | Value m \<Rightarrow> finish_call k (command_details m) s
     | Failed e \<Rightarrow> finish_call k (Inl e) s
     | Cancelled \<Rightarrow> finish_call k (Inl CancelledError) s)"

section \<open>Events\<close>

datatype bevent =
    RegStart string nat pyval "paired_device option"
  | RegVerify nat bool
  | RegFinish nat
  | Unregister string nat
  | CloseBridge
  | ResStart string dict nat
  | ResVerify nat bool
  | ResFinish nat
  | SendStart string string string dict pyfloat string
  | SendLock nat
  | SendVerify nat bool
  | SendNow nat
  | SendDone nat bool
  | SendResult nat
  | SendTimeout nat
  | SendCancel nat
  | BAuth auth_op

definition finished :: "call \<Rightarrow> bool" where
  "finished cl = (case cl_phase cl of Finished r \<Rightarrow> True | _ \<Rightarrow> False)"

text \<open>
  Verifying a device reads the tables, or fails when they cannot be reached. Request identifiers
  are fresh, as those of \<open>uuid4\<close>. An event that is not enabled changes nothing.
\<close>

definition verify_device :: "bool \<Rightarrow> paired_device \<Rightarrow> bsys \<Rightarrow> bool" where
  "verify_device ok d s = (ok \<and> is_ok (require_active d (adb_of s)))"

fun bstep :: "nat \<Rightarrow> ticket_settings \<Rightarrow> (string \<Rightarrow> string) \<Rightarrow> bevent \<Rightarrow> bsys \<Rightarrow> bsys" where
  "bstep M T h (RegStart t ws caps d) s = (case register_start t ws caps d s of Inl e \<Rightarrow> s | Inr u \<Rightarrow> u)"
| "bstep M T h (RegVerify i ok) s =
     (if i < length (regs s) \<and> rg_phase (regs s ! i) = RegChecking
      then s\<lparr>regs := (regs s)[i := (regs s ! i)\<lparr>rg_phase := RegVerified (verify_device ok (rg_device (regs s ! i)) s)\<rparr>]\<rparr>
      else s)"
| "bstep M T h (RegFinish i) s =
     (if i < length (regs s) then (case rg_phase (regs s ! i) of
          RegVerified v \<Rightarrow> (case register_finish (regs s ! i) v s of
            (u, r) \<Rightarrow> u\<lparr>regs := (regs u)[i := (regs u ! i)\<lparr>rg_phase := RegDone r\<rparr>]\<rparr>)
        | _ \<Rightarrow> s) else s)"
| "bstep M T h (Unregister t ws) s = unregister t ws s"
| "bstep M T h CloseBridge s = close_bridge s"
| "bstep M T h (ResStart t msg ws) s = result_start t msg ws s"
| "bstep M T h (ResVerify j ok) s =
     (if j < length (replies s) \<and> rs_phase (replies s ! j) = ResChecking
      then s\<lparr>replies := (replies s)[j := (replies s ! j)\<lparr>rs_phase :=
             ResVerified (verify_device ok (bc_device (conns s ! rs_conn (replies s ! j))) s)\<rparr>]\<rparr>
      else s)"
| "bstep M T h (ResFinish j) s =
     (if j < length (replies s) then (case rs_phase (replies s ! j) of
          ResVerified v \<Rightarrow> (result_finish (replies s ! j) v s)
            \<lparr>replies := (replies s)[j := (replies s ! j)\<lparr>rs_phase := ResDone\<rparr>]\<rparr>
        | _ \<Rightarrow> s) else s)"
| "bstep M T h (SendStart t cap act params timeout req) s =
     (if req \<in> cl_req ` set (calls s) then s
      else (case send_start M t cap act params timeout req s of Inl e \<Rightarrow> s | Inr u \<Rightarrow> u))"
| "bstep M T h (SendLock k) s =
     (if k < length (calls s) \<and> cl_phase (calls s ! k) = Queued \<and> lock_free (cl_conn (calls s ! k)) s
      then set_phase k Checking s else s)"
| "bstep M T h (SendVerify k ok) s =
     (if k < length (calls s) \<and> cl_phase (calls s ! k) = Checking
      then set_phase k (Verified (verify_device ok (bc_device (conns s ! cl_conn (calls s ! k))) s)) s else s)"
| "bstep M T h (SendNow k) s =
     (if k < length (calls s) then (case cl_phase (calls s ! k) of Verified v \<Rightarrow> send_now k v s | _ \<Rightarrow> s) else s)"
| "bstep M T h (SendDone k ok) s =
     (if k < length (calls s) \<and> cl_phase (calls s ! k) = Sending
      then (if ok then set_phase k Awaiting s
            else finish_call k (Inl (PCAgentError ''Failed to communicate with the PC agent.'')) s)
      else s)"
| "bstep M T h (SendResult k) s =
     (if k < length (calls s) \<and> cl_phase (calls s ! k) = Awaiting then await_result k s else s)"
| "bstep M T h (SendTimeout k) s =
     (if k < length (calls s) \<and> \<not> finished (calls s ! k)
      then finish_call k (Inl (PCAgentError ''The PC agent did not respond'')) s else s)"
| "bstep M T h (SendCancel k) s =
     (if k < length (calls s) \<and> \<not> finished (calls s ! k) then finish_call k (Inl CancelledError) s else s)"
| "bstep M T h (BAuth p) s = s\<lparr>adb_of := commit (run_auth T h) p (adb_of s)\<rparr>"

section \<open>The invariant\<close>

definition live :: "call \<Rightarrow> bool" where
  "live cl = (\<not> finished cl \<and> cl_fut cl = Pending)"

definition conn_ok :: "nat \<Rightarrow> bsys \<Rightarrow> nat \<Rightarrow> bool" where
  "conn_ok M s c = (distinct (map fst (bc_pending (conns s ! c))) \<and> length (bc_pending (conns s ! c)) \<le> M \<and>
     (\<forall>(r, k) \<in> set (bc_pending (conns s ! c)). k < length (calls s) \<and> cl_req (calls s ! k) = r \<and>
        cl_conn (calls s ! k) = c))"

definition call_ok :: "bsys \<Rightarrow> nat \<Rightarrow> bool" where
  "call_ok s k = (let cl = calls s ! k; c = cl_conn cl in
     c < length (conns s) \<and> pd_tenant (bc_device (conns s ! c)) = cl_tenant cl \<and>
     map_of (bc_caps (conns s ! c)) (cl_cap cl) = Some (PBool True) \<and>
     (live cl \<longrightarrow> (cl_req cl, k) \<in> set (bc_pending (conns s ! c)) \<and> map_of (registry s) (cl_tenant cl) = Some c) \<and>
     (finished cl \<longrightarrow> cl_fut cl \<noteq> Pending) \<and>
     (\<forall>m. cl_fut cl = Value m \<longrightarrow> dget m ''request_id'' = PStr (cl_req cl) \<and>
        (cl_tenant cl, bc_ws (conns s ! c), m) \<in> set (received s)) \<and>
     (\<forall>d. cl_phase cl = Finished (Inr d) \<longrightarrow> (\<exists>m. cl_fut cl = Value m \<and> command_details m = Inr d)))"

definition reply_ok :: "bsys \<Rightarrow> reply \<Rightarrow> bool" where
  "reply_ok s r = (rs_call r < length (calls s) \<and> cl_req (calls s ! rs_call r) = rs_req r \<and>
     cl_conn (calls s ! rs_call r) = rs_conn r \<and> cl_tenant (calls s ! rs_call r) = rs_tenant r \<and>
     dget (rs_msg r) ''request_id'' = PStr (rs_req r) \<and>
     (rs_tenant r, bc_ws (conns s ! rs_conn r), rs_msg r) \<in> set (received s))"

definition sent :: "call \<Rightarrow> bool" where
  "sent cl = (case cl_phase cl of Queued \<Rightarrow> False | Checking \<Rightarrow> False | Verified v \<Rightarrow> False | _ \<Rightarrow> True)"

definition reg_ok :: "bsys \<Rightarrow> bool" where
  "reg_ok s = (distinct (map fst (registry s)) \<and> (closing s \<longrightarrow> registry s = []) \<and>
     (\<forall>(t, c) \<in> set (registry s). c < length (conns s) \<and> pd_tenant (bc_device (conns s ! c)) = t) \<and>
     (\<forall>r \<in> set (regs s). pd_tenant (rg_device r) = rg_tenant r))"

definition wire_ok :: "bsys \<Rightarrow> bool" where
  "wire_ok s = (distinct (wire s) \<and> (\<forall>k \<in> set (wire s). k < length (calls s) \<and> sent (calls s ! k)))"

definition binv :: "nat \<Rightarrow> bsys \<Rightarrow> bool" where
  "binv M s = (reg_ok s \<and> wire_ok s \<and> distinct (map cl_req (calls s)) \<and> (\<forall>c < length (conns s). conn_ok M s c) \<and>
     (\<forall>k < length (calls s). call_ok s k) \<and> (\<forall>r \<in> set (replies s). reply_ok s r))"

lemma binvD:
  assumes "binv M s"
  shows "reg_ok s" "wire_ok s" "distinct (map cl_req (calls s))" "c < length (conns s) \<Longrightarrow> conn_ok M s c"
    "k < length (calls s) \<Longrightarrow> call_ok s k" "r \<in> set (replies s) \<Longrightarrow> reply_ok s r"
  using assms unfolding binv_def by blast+

lemma registryD:
  assumes "reg_ok s" "map_of (registry s) t = Some c"
  shows "c < length (conns s)" "pd_tenant (bc_device (conns s ! c)) = t" "\<not> closing s"
  using assms map_of_SomeD[OF assms(2)] by (auto simp: reg_ok_def)

text \<open>
  A change that leaves the identity of calls and connections alone: pieces of a call that may move
  are its future and its phase. What remains to check is listed.
\<close>

definition same_ids :: "bsys \<Rightarrow> bsys \<Rightarrow> bool" where
  "same_ids s u = (length (calls u) = length (calls s) \<and> length (conns u) = length (conns s) \<and>
     received u = received s \<and>
     (\<forall>k < length (calls s). cl_tenant (calls u ! k) = cl_tenant (calls s ! k) \<and> cl_conn (calls u ! k) = cl_conn (calls s ! k) \<and>
        cl_req (calls u ! k) = cl_req (calls s ! k) \<and> cl_cap (calls u ! k) = cl_cap (calls s ! k) \<and>
        cl_action (calls u ! k) = cl_action (calls s ! k) \<and> cl_params (calls u ! k) = cl_params (calls s ! k)) \<and>
     (\<forall>c < length (conns s). bc_ws (conns u ! c) = bc_ws (conns s ! c) \<and> bc_caps (conns u ! c) = bc_caps (conns s ! c) \<and>
        bc_device (conns u ! c) = bc_device (conns s ! c)))"

lemma map_req_same: "same_ids s u \<Longrightarrow> map cl_req (calls u) = map cl_req (calls s)"
  by (rule nth_equalityI) (auto simp: same_ids_def)

lemma reply_ok_same: "same_ids s u \<Longrightarrow> \<forall>k < length (calls s). call_ok s k \<Longrightarrow> reply_ok s r \<Longrightarrow> reply_ok u r"
  unfolding same_ids_def reply_ok_def call_ok_def Let_def by metis

section \<open>Moving one call\<close>

lemma call_ok_cong:
  assumes "calls u ! j = calls s ! j" "conns u = conns s" "registry u = registry s" "received u = received s"
  shows "call_ok u j = call_ok s j"
  using assms by (simp add: call_ok_def)

definition same_call :: "call \<Rightarrow> call \<Rightarrow> bool" where
  "same_call a b = (cl_tenant b = cl_tenant a \<and> cl_conn b = cl_conn a \<and> cl_req b = cl_req a \<and>
     cl_cap b = cl_cap a \<and> cl_action b = cl_action a \<and> cl_params b = cl_params a)"

lemma req_inj:
  "distinct (map cl_req cs) \<Longrightarrow> i < length cs \<Longrightarrow> j < length cs \<Longrightarrow> cl_req (cs ! i) = cl_req (cs ! j) \<Longrightarrow> i = j"
  by (metis length_map nth_eq_iff_index_eq nth_map)

lemma in_set_upd: "x \<in> set (xs[i := y]) \<Longrightarrow> x \<in> set xs \<or> x = y"
  by (meson insertE set_update_subset_insert subsetD)

lemma set_delete: "set (AList.delete r xs) = {p \<in> set xs. fst p \<noteq> r}"
  by (induction xs) auto

lemma length_delete: "length (AList.delete r xs) \<le> length xs"
  by (induction xs) auto

lemma distinct_delete_keys: "distinct (map fst xs) \<Longrightarrow> distinct (map fst (AList.delete r xs))"
  by (rule distinct_delete)

lemma map_req_upd: "k < length cs \<Longrightarrow> cl_req b = cl_req (cs ! k) \<Longrightarrow> map cl_req (cs[k := b]) = map cl_req cs"
  by (metis list_update_id map_update)

lemma nth_upd: "cs[k := b] ! j = (if j = k \<and> k < length cs then b else cs ! j)"
  by (cases "k < length cs") (auto simp: nth_list_update list_update_beyond)

lemma same_call_nth:
  assumes "same_call (cs ! k) b"
  shows "cl_req (cs[k := b] ! j) = cl_req (cs ! j)" "cl_conn (cs[k := b] ! j) = cl_conn (cs ! j)"
    "cl_tenant (cs[k := b] ! j) = cl_tenant (cs ! j)"
  using assms by (simp_all add: nth_upd same_call_def)

lemma conn_ok_upd:
  assumes "conn_ok M s c" "same_call (calls s ! k) b"
  shows "conn_ok M (s\<lparr>calls := (calls s)[k := b]\<rparr>) c"
  using assms(1) by (simp add: conn_ok_def same_call_nth[OF assms(2)])

lemma reply_ok_upd:
  assumes "reply_ok s r" "same_call (calls s ! k) b"
  shows "reply_ok (s\<lparr>calls := (calls s)[k := b]\<rparr>) r"
  using assms(1) by (simp add: reply_ok_def same_call_nth[OF assms(2)])

lemma wire_ok_upd:
  assumes "wire_ok s" "sent (calls s ! k) \<longrightarrow> sent b"
  shows "wire_ok (s\<lparr>calls := (calls s)[k := b]\<rparr>)"
  using assms by (auto simp: wire_ok_def nth_upd)

lemma binv_upd:
  assumes inv: "binv M s" and k: "k < length (calls s)" and b: "same_call (calls s ! k) b"
    "sent (calls s ! k) \<longrightarrow> sent b" and ok: "call_ok (s\<lparr>calls := (calls s)[k := b]\<rparr>) k"
  shows "binv M (s\<lparr>calls := (calls s)[k := b]\<rparr>)"
proof -
  let ?u = "s\<lparr>calls := (calls s)[k := b]\<rparr>"
  have "call_ok ?u j" if "j < length (calls s)" for j
    using binvD(5)[OF inv that] ok by (cases "j = k") (auto simp: call_ok_cong[of ?u j s])
  moreover have "reg_ok ?u" using binvD(1)[OF inv] by (simp add: reg_ok_def)
  moreover have "distinct (map cl_req (calls ?u))"
    using binvD(3)[OF inv] map_req_upd[OF k, of b] b(1) by (simp add: same_call_def)
  ultimately show ?thesis
    using inv wire_ok_upd[OF binvD(2)[OF inv] b(2)] conn_ok_upd[OF _ b(1)] reply_ok_upd[OF _ b(1)]
    unfolding binv_def by simp
qed

text \<open>A call that stops waiting leaves the pending table of its connection.\<close>

lemma binv_pop:
  assumes inv: "binv M s" and k: "k < length (calls s)" and b: "same_call (calls s ! k) b"
    "sent (calls s ! k) \<longrightarrow> sent b" and fut: "cl_fut b \<noteq> Pending"
    and val: "\<And>m. cl_fut b = Value m \<Longrightarrow> dget m ''request_id'' = PStr (cl_req b) \<and>
      (cl_tenant b, bc_ws (conns s ! cl_conn b), m) \<in> set (received s)"
    and fin: "\<And>d. cl_phase b = Finished (Inr d) \<Longrightarrow> \<exists>m. cl_fut b = Value m \<and> command_details m = Inr d"
  shows "binv M ((pop_pending (cl_conn (calls s ! k)) (cl_req (calls s ! k)) s)\<lparr>calls := (calls s)[k := b]\<rparr>)"
proof -
  let ?cl = "calls s ! k"
  let ?c = "cl_conn ?cl"
  let ?u = "(pop_pending ?c (cl_req ?cl) s)\<lparr>calls := (calls s)[k := b]\<rparr>"
  note call = binvD(5)[OF inv k]
  have c: "?c < length (conns s)" using call by (simp add: call_ok_def Let_def)
  have conn: "conns ?u ! d = (if d = ?c then (conns s ! ?c)\<lparr>bc_pending := AList.delete (cl_req ?cl) (bc_pending (conns s ! ?c))\<rparr>
      else conns s ! d)" if "d < length (conns s)" for d
    using that c by (simp add: pop_pending_def nth_list_update)
  have len: "length (conns ?u) = length (conns s)" by (simp add: pop_pending_def)
  have "conn_ok M ?u d" if "d < length (conns ?u)" for d
  proof -
    have d: "d < length (conns s)" using that len by simp
    have p: "bc_pending (conns ?u ! d) = (if d = ?c then AList.delete (cl_req ?cl) (bc_pending (conns s ! d))
        else bc_pending (conns s ! d))" using conn[OF d] by simp
    have l: "length (AList.delete (cl_req ?cl) (bc_pending (conns s ! d))) \<le> length (bc_pending (conns s ! d))"
      by (rule length_delete)
    show ?thesis using binvD(4)[OF inv d] l unfolding conn_ok_def p
      by (auto simp: set_delete distinct_delete_keys same_call_nth[OF b(1)])
  qed
  moreover have "call_ok ?u j" if j: "j < length (calls s)" for j
  proof (cases "j = k")
    case True
    have "calls ?u ! k = b" using k by simp
    moreover have "conns ?u ! ?c = (conns s ! ?c)\<lparr>bc_pending := AList.delete (cl_req ?cl) (bc_pending (conns s ! ?c))\<rparr>"
      using conn[OF c] by simp
    ultimately show ?thesis
      using True call c len b(1) fut val fin
      by (simp add: call_ok_def Let_def live_def same_call_def pop_pending_def)
  next
    case False
    let ?d = "cl_conn (calls s ! j)"
    note cj = binvD(5)[OF inv j]
    have d: "?d < length (conns s)" using cj by (simp add: call_ok_def Let_def)
    have ne: "cl_req (calls s ! j) \<noteq> cl_req ?cl" using req_inj[OF binvD(3)[OF inv] j k] False by blast
    have "calls ?u ! j = calls s ! j" using False by simp
    moreover have "received ?u = received s" "registry ?u = registry s" by (simp_all add: pop_pending_def)
    ultimately show ?thesis using cj conn[OF d] len d ne
      by (cases "?d = ?c") (auto simp: call_ok_def Let_def set_delete)
  qed
  moreover have "reg_ok ?u" using binvD(1)[OF inv] 
    by (auto simp: reg_ok_def pop_pending_def nth_upd)
  moreover have "wire_ok ?u" using wire_ok_upd[OF binvD(2)[OF inv] b(2)] by (simp add: wire_ok_def pop_pending_def)
  moreover have "distinct (map cl_req (calls ?u))"
    using binvD(3)[OF inv] map_req_upd[OF k, of b] b(1) by (simp add: same_call_def)
  moreover have "reply_ok ?u r" if "r \<in> set (replies s)" for r
  proof -
    note r = binvD(6)[OF inv that]
    then have i: "rs_call r < length (calls s)" by (simp add: reply_ok_def)
    have "cl_conn (calls s ! rs_call r) < length (conns s)" using binvD(5)[OF inv i] by (simp add: call_ok_def Let_def)
    then have "rs_conn r < length (conns s)" using r by (simp add: reply_ok_def)
    then have "bc_ws (conns ?u ! rs_conn r) = bc_ws (conns s ! rs_conn r)" using conn[of "rs_conn r"] by simp
    moreover have "received ?u = received s" by (simp add: pop_pending_def)
    ultimately show ?thesis using r by (simp add: reply_ok_def same_call_nth[OF b(1)])
  qed
  ultimately show ?thesis unfolding binv_def by (simp add: pop_pending_def)
qed

lemma binv_finish:
  assumes "binv M s" "k < length (calls s)" "\<And>d. r = Inr d \<Longrightarrow> \<exists>m. cl_fut (calls s ! k) = Value m \<and> command_details m = Inr d"
  shows "binv M (finish_call k r s)"
proof -
  let ?cl = "calls s ! k"
  let ?b = "?cl\<lparr>cl_fut := (if cl_fut ?cl = Pending then Cancelled else cl_fut ?cl), cl_phase := Finished r\<rparr>"
  have "binv M ((pop_pending (cl_conn ?cl) (cl_req ?cl) s)\<lparr>calls := (calls s)[k := ?b]\<rparr>)"
  proof (rule binv_pop[OF assms(1,2)])
    show "same_call ?cl ?b" by (simp add: same_call_def)
    show "sent ?cl \<longrightarrow> sent ?b" by (simp add: sent_def)
    show "cl_fut ?b \<noteq> Pending" by simp
    show "dget m ''request_id'' = PStr (cl_req ?b) \<and> (cl_tenant ?b, bc_ws (conns s ! cl_conn ?b), m) \<in> set (received s)"
      if "cl_fut ?b = Value m" for m
      using that binvD(5)[OF assms(1,2)] by (auto simp: call_ok_def Let_def split: if_splits)
    show "\<exists>m. cl_fut ?b = Value m \<and> command_details m = Inr d" if "cl_phase ?b = Finished (Inr d)" for d
      using that assms(3) by auto
  qed
  moreover have "finish_call k r s = (pop_pending (cl_conn ?cl) (cl_req ?cl) s)\<lparr>calls := (calls s)[k := ?b]\<rparr>"
    by (simp add: finish_call_def Let_def pop_pending_def)
  ultimately show ?thesis by simp
qed

section \<open>Failing the calls of connections that go away\<close>

definition failed :: "exn \<Rightarrow> call \<Rightarrow> call" where
  "failed e cl = (if cl_fut cl = Pending then cl\<lparr>cl_fut := Failed e\<rparr> else cl)"

lemma failed_same: "same_call cl (failed e cl)" "sent (failed e cl) = sent cl" "finished (failed e cl) = finished cl"
    "\<not> live (failed e cl)" "cl_fut (failed e cl) \<noteq> Pending"
    "cl_fut (failed e cl) = Value m \<longleftrightarrow> cl_fut cl = Value m" "cl_phase (failed e cl) = cl_phase cl"
  by (auto simp: failed_def same_call_def sent_def finished_def live_def)

lemma binv_fail:
  assumes inv: "binv M s" and reg: "reg_ok u"
    and calls: "length (calls u) = length (calls s)"
      "\<And>k. k < length (calls s) \<Longrightarrow> calls u ! k = (if k \<in> K then failed e (calls s ! k) else calls s ! k)"
    and conns: "conns u = conns s @ new" "\<And>c. c \<in> set new \<Longrightarrow> bc_pending c = []"
    and rest: "wire u = wire s" "replies u = replies s" "received u = received s"
    and K: "\<And>c r k. c \<in> C \<Longrightarrow> (r, k) \<in> set (bc_pending (conns s ! c)) \<Longrightarrow> k \<in> K"
    and keep: "\<And>t c. map_of (registry s) t = Some c \<Longrightarrow> c \<notin> C \<Longrightarrow> map_of (registry u) t = Some c"
  shows "binv M u"
proof -
  have req: "cl_req (calls u ! k) = cl_req (calls s ! k)" "cl_conn (calls u ! k) = cl_conn (calls s ! k)"
      "cl_tenant (calls u ! k) = cl_tenant (calls s ! k)" "cl_cap (calls u ! k) = cl_cap (calls s ! k)"
      "sent (calls u ! k) = sent (calls s ! k)"
    if "k < length (calls s)" for k
    using calls(2)[OF that] failed_same(1)[where e = e and cl = "calls s ! k"] failed_same(2)[where e = e and cl = "calls s ! k"] by (auto simp: same_call_def)
  have old: "conns u ! c = conns s ! c" if "c < length (conns s)" for c
    using that conns(1) by (simp add: nth_append)
  have "conn_ok M u c" if "c < length (conns u)" for c
  proof (cases "c < length (conns s)")
    case True
    show ?thesis using binvD(4)[OF inv True] old[OF True] calls(1) req unfolding conn_ok_def by fastforce
  next
    case False
    then have "conns u ! c \<in> set new" using that conns(1) by (simp add: nth_append)
    then show ?thesis using conns(2) by (simp add: conn_ok_def)
  qed
  moreover have "call_ok u k" if k: "k < length (calls s)" for k
  proof -
    let ?c = "cl_conn (calls s ! k)"
    note ck = binvD(5)[OF inv k]
    then have c: "?c < length (conns s)" by (simp add: call_ok_def Let_def)
    have l: "k \<notin> K \<and> ?c \<notin> C \<and> live (calls s ! k)" if "live (calls u ! k)"
    proof -
      have 1: "k \<notin> K" "live (calls s ! k)" using that calls(2)[OF k] failed_same(4) by (auto split: if_splits)
      then have "(cl_req (calls s ! k), k) \<in> set (bc_pending (conns s ! ?c))" using ck by (simp add: call_ok_def Let_def)
      then have "?c \<notin> C" using K 1(1) by blast
      with 1 show ?thesis by blast
    qed
    have f: "finished (calls u ! k) = finished (calls s ! k)" "cl_phase (calls u ! k) = cl_phase (calls s ! k)"
      "cl_fut (calls u ! k) = Value m \<longleftrightarrow> cl_fut (calls s ! k) = Value m"
      "finished (calls s ! k) \<longrightarrow> cl_fut (calls u ! k) \<noteq> Pending" for m
      using calls(2)[OF k] failed_same ck by (auto simp: call_ok_def Let_def)
    have reg: "map_of (registry u) (cl_tenant (calls u ! k)) = Some ?c" "(cl_req (calls u ! k), k) \<in> set (bc_pending (conns u ! ?c))"
      if "live (calls u ! k)"
      using l[OF that] ck keep req[OF k] old[OF c] by (simp_all add: call_ok_def Let_def)
    show ?thesis using ck f reg req[OF k] old[OF c] c conns(1) rest(3)
      unfolding call_ok_def Let_def by simp
  qed
  moreover have "wire_ok u" using binvD(2)[OF inv] rest(1) calls(1) req(5) by (auto simp: wire_ok_def)
  moreover have "distinct (map cl_req (calls u))"
  proof -
    have "map cl_req (calls u) = map cl_req (calls s)"
      by (rule nth_equalityI) (use calls(1) req(1) in simp_all)
    then show ?thesis using binvD(3)[OF inv] by simp
  qed
  moreover have "reply_ok u r" if "r \<in> set (replies s)" for r
  proof -
    note r = binvD(6)[OF inv that]
    then have i: "rs_call r < length (calls s)" by (simp add: reply_ok_def)
    have "cl_conn (calls s ! rs_call r) < length (conns s)" using binvD(5)[OF inv i] by (simp add: call_ok_def Let_def)
    then have "rs_conn r < length (conns s)" using r by (simp add: reply_ok_def)
    then show ?thesis using r old req[OF i] calls(1) rest(3) by (simp add: reply_ok_def)
  qed
  ultimately show ?thesis using reg calls(1) rest(2) unfolding binv_def by simp
qed

lemma fail_calls_nth: "k < length cs \<Longrightarrow> fail_calls ks e cs ! k = (if k \<in> set ks then failed e (cs ! k) else cs ! k)"
  by (auto simp: fail_calls_def failed_def)

lemma length_fail_calls [simp]: "length (fail_calls ks e cs) = length cs"
  by (simp add: fail_calls_def)

lemma failed_failed [simp]: "failed e (failed e cl) = failed e cl"
  by (simp add: failed_def)

lemma fail_pending_simps [simp]:
  "conns (fail_pending c e s) = conns s" "registry (fail_pending c e s) = registry s"
  "closing (fail_pending c e s) = closing s" "regs (fail_pending c e s) = regs s"
  "replies (fail_pending c e s) = replies s" "received (fail_pending c e s) = received s"
  "wire (fail_pending c e s) = wire s" "adb_of (fail_pending c e s) = adb_of s"
  "closed_sockets (fail_pending c e s) = closed_sockets s"
  "length (calls (fail_pending c e s)) = length (calls s)"
  by (simp_all add: fail_pending_def)

lemma fail_pending_nth: "k < length (calls s) \<Longrightarrow> calls (fail_pending c e s) ! k =
    (if k \<in> snd ` set (bc_pending (conns s ! c)) then failed e (calls s ! k) else calls s ! k)"
  by (simp add: fail_pending_def fail_calls_nth)

lemma fold_fail_simps [simp]:
  "conns (fold (\<lambda>c. fail_pending c e) cs s) = conns s" "registry (fold (\<lambda>c. fail_pending c e) cs s) = registry s"
  "regs (fold (\<lambda>c. fail_pending c e) cs s) = regs s" "replies (fold (\<lambda>c. fail_pending c e) cs s) = replies s"
  "received (fold (\<lambda>c. fail_pending c e) cs s) = received s" "wire (fold (\<lambda>c. fail_pending c e) cs s) = wire s"
  "adb_of (fold (\<lambda>c. fail_pending c e) cs s) = adb_of s"
  "length (calls (fold (\<lambda>c. fail_pending c e) cs s)) = length (calls s)"
  by (induction cs arbitrary: s) simp_all

lemma fold_fail_nth: "k < length (calls s) \<Longrightarrow> calls (fold (\<lambda>c. fail_pending c e) cs s) ! k =
    (if \<exists>c \<in> set cs. k \<in> snd ` set (bc_pending (conns s ! c)) then failed e (calls s ! k) else calls s ! k)"
  by (induction cs arbitrary: s) (auto simp: fail_pending_nth)

lemma binv_install:
  assumes inv: "binv M s" and "\<not> closing s" "pd_tenant d = t"
  shows "binv M (install t ws caps d s)"
proof -
  define C where "C = set_option (map_of (registry s) t)"
  define K where "K = {k. \<exists>c \<in> C. k \<in> snd ` set (bc_pending (conns s ! c))}"
  define e where "e = PCAgentError ''Replaced by a new PC agent connection''"
  let ?u = "install t ws caps d s"
  let ?new = "\<lparr>bc_ws = ws, bc_caps = caps, bc_device = d, bc_pending = []\<rparr>"
  have u: "conns ?u = conns s @ [?new]" "registry ?u = AList.update t (length (conns s)) (registry s)"
    "closing ?u = closing s" "regs ?u = regs s" "wire ?u = wire s" "replies ?u = replies s" "received ?u = received s"
    "length (calls ?u) = length (calls s)"
    by (simp_all add: install_def Let_def split: option.splits)
  have un: "calls ?u ! k = (if k \<in> K then failed e (calls s ! k) else calls s ! k)" if "k < length (calls s)" for k
    using that by (auto simp: install_def Let_def K_def C_def e_def fail_pending_nth split: option.splits)
  have reg: "reg_ok ?u"
  proof -
    have "c < length (conns ?u) \<and> pd_tenant (bc_device (conns ?u ! c)) = a" if m: "(a, c) \<in> set (registry ?u)" for a c
    proof -
      have "(a, c) \<in> set (registry s) \<or> (a = t \<and> c = length (conns s))"
      proof -
        have "distinct (map fst (registry ?u))" using binvD(1)[OF inv] u(2) by (simp add: reg_ok_def distinct_update)
        then have "map_of (registry ?u) a = Some c" using m by simp
        then show ?thesis using u(2) by (auto simp: update_conv' map_of_SomeD split: if_splits)
      qed
      then show ?thesis using binvD(1)[OF inv] assms(3) u(1) by (auto simp: reg_ok_def nth_append)
    qed
    then show ?thesis using binvD(1)[OF inv] assms(2) u by (auto simp: reg_ok_def distinct_update)
  qed
  show ?thesis
  proof (rule binv_fail[OF inv reg u(8) un u(1) _ u(5,6,7)])
    show "k \<in> K" if "c \<in> C" "(r, k) \<in> set (bc_pending (conns s ! c))" for c r k
      using that unfolding K_def by force
    show "map_of (registry ?u) a = Some c" if "map_of (registry s) a = Some c" "c \<notin> C" for a c
      using that u(2) by (cases "a = t") (auto simp: C_def update_conv')
  qed simp_all
qed

lemma binv_unregister:
  assumes inv: "binv M s"
  shows "binv M (unregister t ws s)"
proof (cases "map_of (registry s) t")
  case None
  then show ?thesis using inv by (simp add: unregister_def)
next
  case (Some c)
  show ?thesis
  proof (cases "bc_ws (conns s ! c) = ws")
    case False
    then show ?thesis using inv Some by (simp add: unregister_def)
  next
    case True
    define e where "e = PCAgentError ''PC agent disconnected''"
    let ?u = "fail_pending c e (s\<lparr>registry := AList.delete t (registry s)\<rparr>)"
    have u: "unregister t ws s = ?u" using Some True by (simp add: unregister_def e_def)
    have reg: "reg_ok ?u" using binvD(1)[OF inv] by (auto simp: reg_ok_def set_delete distinct_delete_keys)
    have "binv M ?u"
    proof (rule binv_fail[OF inv reg, where K = "snd ` set (bc_pending (conns s ! c))" and e = e and new = "[]" and C = "{c}"])
      show "calls ?u ! k = (if k \<in> snd ` set (bc_pending (conns s ! c)) then failed e (calls s ! k) else calls s ! k)"
        if "k < length (calls s)" for k
        using that fail_pending_nth[of k "s\<lparr>registry := AList.delete t (registry s)\<rparr>" c e] by simp
      show "k \<in> snd ` set (bc_pending (conns s ! c))" if "c' \<in> {c}" "(r, k) \<in> set (bc_pending (conns s ! c'))" for c' r k
        using that by force
      show "map_of (registry ?u) a = Some c'" if "map_of (registry s) a = Some c'" "c' \<notin> {c}" for a c'
        using that Some by (cases "a = t") (auto simp: delete_conv')
    qed simp_all
    then show ?thesis using u by simp
  qed
qed

lemma binv_close:
  assumes inv: "binv M s"
  shows "binv M (close_bridge s)"
proof (cases "closing s")
  case True
  then show ?thesis using inv by (simp add: close_bridge_def)
next
  case False
  define e where "e = PCAgentError ''PC agent bridge is shutting down''"
  let ?cs = "map snd (registry s)"
  let ?K = "{k. \<exists>c \<in> set ?cs. k \<in> snd ` set (bc_pending (conns s ! c))}"
  let ?u = "close_bridge s"
  have reg: "reg_ok ?u" using binvD(1)[OF inv] False by (simp add: reg_ok_def close_bridge_def Let_def)
  show ?thesis
  proof (rule binv_fail[OF inv reg, where K = ?K and e = e and new = "[]" and C = "set ?cs"])
    show "calls ?u ! k = (if k \<in> ?K then failed e (calls s ! k) else calls s ! k)" if "k < length (calls s)" for k
      using fold_fail_nth[OF that, of e ?cs] False by (simp add: close_bridge_def Let_def e_def)
    show "k \<in> ?K" if "c \<in> set ?cs" "(r, k) \<in> set (bc_pending (conns s ! c))" for c r k
      using that by (simp del: set_map) force
    show "map_of (registry ?u) a = Some c" if "map_of (registry s) a = Some c" "c \<notin> set ?cs" for a c
      using that map_of_SomeD[OF that(1)] by force
  qed (use False in \<open>simp_all add: close_bridge_def Let_def\<close>)
qed

section \<open>Every event keeps the invariant\<close>

lemma binv_phase:
  assumes inv: "binv M s" and k: "k < length (calls s)" and "\<not> finished (calls s ! k)"
    "\<And>r. ph \<noteq> Finished r" "sent (calls s ! k) \<longrightarrow> ph \<in> {Sending, Awaiting}"
  shows "binv M (set_phase k ph s)"
  unfolding set_phase_def
proof (rule binv_upd[OF inv k])
  let ?b = "(calls s ! k)\<lparr>cl_phase := ph\<rparr>"
  show "same_call (calls s ! k) ?b" by (simp add: same_call_def)
  show "sent (calls s ! k) \<longrightarrow> sent ?b" using assms(5) by (auto simp: sent_def)
  have f: "\<not> finished ?b" using assms(4) by (auto simp: finished_def split: call_phase.splits)
  then have "live ?b = live (calls s ! k)" using assms(3) by (simp add: live_def)
  then show "call_ok (s\<lparr>calls := (calls s)[k := ?b]\<rparr>) k"
    using binvD(5)[OF inv k] k f assms(4) by (simp add: call_ok_def Let_def)
qed

lemma binv_set_fut:
  assumes inv: "binv M s" and k: "k < length (calls s)" and p: "cl_fut (calls s ! k) = Pending"
  shows "binv M (set_fut k (Failed e) s)"
  unfolding set_fut_def
proof (rule binv_upd[OF inv k])
  let ?b = "(calls s ! k)\<lparr>cl_fut := Failed e\<rparr>"
  show "same_call (calls s ! k) ?b" by (simp add: same_call_def)
  show "sent (calls s ! k) \<longrightarrow> sent ?b" by (simp add: sent_def)
  have "\<forall>d. cl_phase (calls s ! k) \<noteq> Finished (Inr d)"
    using binvD(5)[OF inv k] p by (auto simp: call_ok_def Let_def finished_def)
  then show "call_ok (s\<lparr>calls := (calls s)[k := ?b]\<rparr>) k"
    using binvD(5)[OF inv k] k by (simp add: call_ok_def Let_def live_def)
qed

lemma binv_result_finish:
  assumes inv: "binv M s" and r: "r \<in> set (replies s)"
  shows "binv M (result_finish r v s)"
proof -
  let ?k = "rs_call r"
  note ro = binvD(6)[OF inv r]
  then have k: "?k < length (calls s)" by (simp add: reply_ok_def)
  let ?b = "(calls s ! ?k)\<lparr>cl_fut := Value (rs_msg r)\<rparr>"
  have "binv M ((pop_pending (cl_conn (calls s ! ?k)) (cl_req (calls s ! ?k)) s)\<lparr>calls := (calls s)[?k := ?b]\<rparr>)"
    if p: "cl_fut (calls s ! ?k) = Pending"
  proof (rule binv_pop[OF inv k])
    show "same_call (calls s ! ?k) ?b" by (simp add: same_call_def)
    show "sent (calls s ! ?k) \<longrightarrow> sent ?b" by (simp add: sent_def)
    show "cl_fut ?b \<noteq> Pending" by simp
    show "dget m ''request_id'' = PStr (cl_req ?b) \<and> (cl_tenant ?b, bc_ws (conns s ! cl_conn ?b), m) \<in> set (received s)"
      if "cl_fut ?b = Value m" for m
      using that ro by (auto simp: reply_ok_def)
    show "\<exists>m. cl_fut ?b = Value m \<and> command_details m = Inr d" if "cl_phase ?b = Finished (Inr d)" for d
      using that p binvD(5)[OF inv k] by (auto simp: call_ok_def Let_def finished_def)
  qed
  moreover have "set_fut ?k (Value (rs_msg r)) (pop_pending (rs_conn r) (rs_req r) s) =
      (pop_pending (cl_conn (calls s ! ?k)) (cl_req (calls s ! ?k)) s)\<lparr>calls := (calls s)[?k := ?b]\<rparr>"
    using ro by (simp add: reply_ok_def set_fut_def pop_pending_def)
  ultimately show ?thesis using inv binv_set_fut[OF inv k] by (simp add: result_finish_def Let_def)
qed

lemma binv_send_start:
  assumes inv: "binv M s" and req: "req \<notin> cl_req ` set (calls s)"
    and u: "send_start M t cap act params timeout req s = Inr u"
  shows "binv M u"
proof -
  obtain c where c: "map_of (registry s) t = Some c" "map_of (bc_caps (conns s ! c)) cap = Some (PBool True)"
    "length (bc_pending (conns s ! c)) < M"
    and u': "u = s\<lparr>calls := calls s @ [\<lparr>cl_tenant = t, cl_conn = c, cl_req = req, cl_cap = cap,
                   cl_action = act, cl_params = params, cl_fut = Pending, cl_phase = Queued\<rparr>],
                 conns := (conns s)[c := (conns s ! c)\<lparr>bc_pending :=
                   AList.update req (length (calls s)) (bc_pending (conns s ! c))\<rparr>]\<rparr>"
    using u by (auto simp: send_start_def split: if_splits option.splits)
  note reg = registryD[OF binvD(1)[OF inv] c(1)]
  have fresh: "req \<notin> fst ` set (bc_pending (conns s ! c))"
    using binvD(4)[OF inv reg(1)] req unfolding conn_ok_def by fastforce
  then have upd: "AList.update req (length (calls s)) (bc_pending (conns s ! c)) =
      bc_pending (conns s ! c) @ [(req, length (calls s))]" by (rule update_fresh)
  let ?n = "length (calls s)"
  have cu: "conns u ! d = (if d = c then (conns s ! c)\<lparr>bc_pending := bc_pending (conns s ! c) @ [(req, ?n)]\<rparr> else conns s ! d)"
    if "d < length (conns s)" for d using that reg(1) u' upd by (simp add: nth_list_update)
  have lu: "length (conns u) = length (conns s)" "length (calls u) = Suc ?n" "registry u = registry s"
    "received u = received s" "wire u = wire s" "replies u = replies s"
    using u' by simp_all
  have old: "calls u ! k = calls s ! k" if "k < ?n" for k using that u' by (simp add: nth_append)
  have new: "calls u ! ?n = \<lparr>cl_tenant = t, cl_conn = c, cl_req = req, cl_cap = cap, cl_action = act,
      cl_params = params, cl_fut = Pending, cl_phase = Queued\<rparr>" using u' by simp
  have "conn_ok M u d" if d: "d < length (conns u)" for d
  proof -
    have d': "d < length (conns s)" using d lu by simp
    note cd = binvD(4)[OF inv d']
    have "\<forall>(r, k) \<in> set (bc_pending (conns s ! d)). k < length (calls u) \<and> cl_req (calls u ! k) = r \<and> cl_conn (calls u ! k) = d"
      using cd old lu unfolding conn_ok_def by fastforce
    then show ?thesis using cd c(3) fresh cu[OF d'] lu new
      by (cases "d = c") (auto simp: conn_ok_def)
  qed
  moreover have "call_ok u k" if k: "k < length (calls u)" for k
  proof (cases "k = ?n")
    case True
    then show ?thesis using new lu cu[OF reg(1)] reg c u'
      by (simp add: call_ok_def Let_def finished_def)
  next
    case False
    then have k': "k < ?n" using k lu by simp
    note ck = binvD(5)[OF inv k']
    then have "cl_conn (calls s ! k) < length (conns s)" by (simp add: call_ok_def Let_def)
    then show ?thesis using ck old[OF k'] cu lu by (cases "cl_conn (calls s ! k) = c") (simp_all add: call_ok_def Let_def)
  qed
  moreover have "reg_ok u" using binvD(1)[OF inv] u' by (auto simp: reg_ok_def nth_upd)
  moreover have "wire_ok u" using binvD(2)[OF inv] lu old by (auto simp: wire_ok_def)
  moreover have "distinct (map cl_req (calls u))" using binvD(3)[OF inv] req u' by simp
  moreover have "reply_ok u r" if "r \<in> set (replies u)" for r
  proof -
    note r = binvD(6)[OF inv, of r]
    then have i: "rs_call r < ?n" using that lu by (simp add: reply_ok_def)
    have "cl_conn (calls s ! rs_call r) < length (conns s)" using binvD(5)[OF inv i] by (simp add: call_ok_def Let_def)
    then have "rs_conn r < length (conns s)" using r that lu by (simp add: reply_ok_def)
    then show ?thesis using r that lu old[OF i] cu[of "rs_conn r"] by (auto simp: reply_ok_def)
  qed
  ultimately show ?thesis unfolding binv_def by blast
qed

lemma binv_result_start:
  assumes inv: "binv M s"
  shows "binv M (result_start t msg ws s)"
proof -
  let ?s = "s\<lparr>received := received s @ [(t, ws, msg)]\<rparr>"
  have s': "binv M ?s"
    using inv by (auto simp: binv_def reg_ok_def wire_ok_def conn_ok_def call_ok_def reply_ok_def Let_def)
  have "binv M (?s\<lparr>replies := replies s @ [\<lparr>rs_tenant = t, rs_conn = c, rs_req = r, rs_call = k, rs_msg = msg,
      rs_phase = ResChecking\<rparr>]\<rparr>)"
    if c: "map_of (registry s) t = Some c" "bc_ws (conns s ! c) = ws" and r: "dget msg ''request_id'' = PStr r"
      "map_of (bc_pending (conns s ! c)) r = Some k" for c r k
  proof -
    note reg = registryD[OF binvD(1)[OF inv] c(1)]
    have k: "k < length (calls s) \<and> cl_req (calls s ! k) = r \<and> cl_conn (calls s ! k) = c"
      using binvD(4)[OF inv reg(1)] map_of_SomeD[OF r(2)] unfolding conn_ok_def by auto
    then have "cl_tenant (calls s ! k) = t" using binvD(5)[OF inv, of k] reg by (simp add: call_ok_def Let_def)
    then have "reply_ok ?s \<lparr>rs_tenant = t, rs_conn = c, rs_req = r, rs_call = k, rs_msg = msg, rs_phase = ResChecking\<rparr>"
      using k c r by (simp add: reply_ok_def)
    then show ?thesis using s'
      by (auto simp: binv_def reg_ok_def wire_ok_def conn_ok_def call_ok_def reply_ok_def Let_def)
  qed
  then show ?thesis using s' unfolding result_start_def Let_def
    by (auto split: option.splits pyval.splits)
qed

lemma binv_replies:
  "binv M s \<Longrightarrow> binv M (s\<lparr>replies := (replies s)[j := (replies s ! j)\<lparr>rs_phase := p\<rparr>]\<rparr>)"
  unfolding binv_def reg_ok_def wire_ok_def conn_ok_def call_ok_def Let_def
  apply (cases "j < length (replies s)")
  subgoal by (auto dest!: in_set_upd simp: reply_ok_def)
  subgoal by (simp add: list_update_beyond reply_ok_def)
  done

lemma binv_regs:
  "binv M s \<Longrightarrow> (\<forall>r \<in> set rs. pd_tenant (rg_device r) = rg_tenant r) \<Longrightarrow> binv M (s\<lparr>regs := rs\<rparr>)"
  by (auto simp: binv_def reg_ok_def wire_ok_def conn_ok_def call_ok_def reply_ok_def Let_def)

lemma in_set_regs:
  "\<forall>r \<in> set rs. pd_tenant (rg_device r) = rg_tenant r \<Longrightarrow>
   \<forall>r \<in> set (rs[i := (rs ! i)\<lparr>rg_phase := p\<rparr>]). pd_tenant (rg_device r) = rg_tenant r"
  by (cases "i < length rs") (auto dest!: in_set_upd simp: list_update_beyond)

lemma binv_send_now:
  assumes inv: "binv M s" and k: "k < length (calls s)" and ph: "cl_phase (calls s ! k) = Verified v"
  shows "binv M (send_now k w s)"
proof -
  have f: "binv M (finish_call k (Inl e) s)" for e by (rule binv_finish[OF inv k]) simp
  have p: "binv M (set_phase k Sending s)"
    by (rule binv_phase[OF inv k]) (use ph in \<open>simp_all add: finished_def sent_def\<close>)
  have "k \<notin> set (wire s)" using binvD(2)[OF inv] ph by (auto simp: wire_ok_def sent_def)
  moreover have "sent (calls (set_phase k Sending s) ! k)" using k by (simp add: set_phase_def sent_def)
  ultimately have "binv M ((set_phase k Sending s)\<lparr>wire := wire s @ [k]\<rparr>)"
    using p k by (auto simp: binv_def reg_ok_def wire_ok_def conn_ok_def call_ok_def reply_ok_def Let_def set_phase_def)
  then show ?thesis using f unfolding send_now_def Let_def by simp
qed

lemma binv_await:
  assumes inv: "binv M s" and k: "k < length (calls s)"
  shows "binv M (await_result k s)"
  using inv binv_finish[OF inv k] by (auto simp: await_result_def split: fut.splits)

lemma binv_adb: "binv M (s\<lparr>adb_of := d\<rparr>) = binv M s"
  by (simp add: binv_def reg_ok_def wire_ok_def conn_ok_def call_ok_def reply_ok_def Let_def)

lemma bstep_inv:
  assumes inv: "binv M s"
  shows "binv M (bstep M T h ev s)"
proof (cases ev)
  case (RegStart t ws caps d)
  then show ?thesis using inv binv_regs[OF inv] binvD(1)[OF inv]
    by (auto simp: register_start_def reg_ok_def split: if_splits option.splits)
next
  case (RegVerify i ok)
  have "binv M (s\<lparr>regs := (regs s)[i := (regs s ! i)\<lparr>rg_phase := p\<rparr>]\<rparr>)" for p
    by (rule binv_regs[OF inv in_set_regs]) (use binvD(1)[OF inv] in \<open>simp add: reg_ok_def\<close>)
  then show ?thesis using RegVerify inv by simp
next
  case (RegFinish i)
  show ?thesis
  proof (cases "i < length (regs s) \<and> (\<exists>v. rg_phase (regs s ! i) = RegVerified v)")
    case True
    then obtain v where i: "i < length (regs s)" "rg_phase (regs s ! i) = RegVerified v" by blast
    let ?r = "regs s ! i"
    have t: "pd_tenant (rg_device ?r) = rg_tenant ?r" using i(1) binvD(1)[OF inv] by (simp add: reg_ok_def)
    obtain u x where u: "register_finish ?r v s = (u, x)" by (cases "register_finish ?r v s")
    have "binv M u" using u inv binv_install[OF inv _ t]
      by (auto simp: register_finish_def split: if_splits option.splits)
    then have "binv M (u\<lparr>regs := (regs u)[i := (regs u ! i)\<lparr>rg_phase := RegDone x\<rparr>]\<rparr>)"
      using binv_regs in_set_regs binvD(1) unfolding reg_ok_def by blast
    then show ?thesis using RegFinish i u by simp
  qed (use RegFinish inv in \<open>auto split: reg_phase.splits\<close>)
next
  case (Unregister t ws)
  then show ?thesis using binv_unregister[OF inv] by simp
next
  case CloseBridge
  then show ?thesis using binv_close[OF inv] by simp
next
  case (ResStart t msg ws)
  then show ?thesis using binv_result_start[OF inv] by simp
next
  case (ResVerify j ok)
  then show ?thesis using binv_replies[OF inv] inv by simp
next
  case (ResFinish j)
  show ?thesis
  proof (cases "j < length (replies s) \<and> (\<exists>v. rs_phase (replies s ! j) = ResVerified v)")
    case True
    then obtain v where j: "j < length (replies s)" "rs_phase (replies s ! j) = ResVerified v" by blast
    let ?u = "result_finish (replies s ! j) v s"
    have "binv M ?u" by (rule binv_result_finish[OF inv]) (use j in simp)
    moreover have "replies ?u = replies s" by (simp add: result_finish_def Let_def set_fut_def pop_pending_def)
    ultimately have "binv M (?u\<lparr>replies := (replies s)[j := (replies s ! j)\<lparr>rs_phase := ResDone\<rparr>]\<rparr>)"
      using binv_replies[of M ?u j ResDone] by simp
    then show ?thesis using ResFinish j by simp
  qed (use ResFinish inv in \<open>auto split: res_phase.splits\<close>)
next
  case (SendStart t cap act params timeout req)
  then show ?thesis using inv binv_send_start[OF inv] by (auto split: sum.splits)
next
  case (SendLock k)
  then show ?thesis using inv binv_phase[OF inv] by (auto simp: finished_def sent_def)
next
  case (SendVerify k ok)
  then show ?thesis using inv binv_phase[OF inv] by (auto simp: finished_def sent_def)
next
  case (SendNow k)
  then show ?thesis using inv binv_send_now[OF inv] by (auto split: call_phase.splits)
next
  case (SendDone k ok)
  then show ?thesis using inv binv_phase[OF inv] binv_finish[OF inv] by (auto simp: finished_def sent_def)
next
  case (SendResult k)
  then show ?thesis using inv binv_await[OF inv] by simp
next
  case (SendTimeout k)
  then show ?thesis using inv binv_finish[OF inv] by auto
next
  case (SendCancel k)
  then show ?thesis using inv binv_finish[OF inv] by auto
next
  case (BAuth p)
  then show ?thesis using inv by (simp add: binv_adb)
qed

interpretation bridge: tx_system "\<lambda>ev s. Inr (bstep M T h ev s)" "binv M"
  by unfold_locales (auto intro: bstep_inv)

definition brun :: "nat \<Rightarrow> ticket_settings \<Rightarrow> (string \<Rightarrow> string) \<Rightarrow> bevent list \<Rightarrow> bsys \<Rightarrow> bsys" where
  "brun M T h evs s = run_all (\<lambda>ev s. Inr (bstep M T h ev s)) evs s"

lemma binv_init: "binv M (bridge_init d)"
  by (simp add: binv_def reg_ok_def wire_ok_def bridge_init_def)

lemma binv_brun: "binv M (brun M T h evs (bridge_init d))"
  unfolding brun_def by (rule bridge.inv_run_all[OF binv_init])

section \<open>Properties\<close>

lemma send_start_phases:
  assumes "send_start M t cap act params timeout req s = Inr u"
  shows "wire u = wire s" "k < length (calls s) \<Longrightarrow> calls u ! k = calls s ! k"
    "length (calls u) = Suc (length (calls s))" "cl_phase (calls u ! length (calls s)) = Queued"
  using assms by (auto simp: send_start_def nth_append split: if_splits option.splits)

lemma finish_call_simps [simp]:
  "wire (finish_call k r s) = wire s" "length (calls (finish_call k r s)) = length (calls s)"
  "cl_phase (calls (finish_call k r s) ! j) = Verified v \<longleftrightarrow> cl_phase (calls s ! j) = Verified v \<and> (j = k \<longrightarrow> \<not> k < length (calls s))"
  by (auto simp: finish_call_def Let_def pop_pending_def nth_upd)

lemma other_phases:
  "wire (install t ws caps d s) = wire s" "wire (unregister t ws s) = wire s" "wire (close_bridge s) = wire s"
  "wire (result_start t msg ws s) = wire s" "wire (result_finish r v s) = wire s"
  "length (calls (install t ws caps d s)) = length (calls s)" "length (calls (unregister t ws s)) = length (calls s)"
  "length (calls (close_bridge s)) = length (calls s)" "length (calls (result_start t msg ws s)) = length (calls s)"
  "length (calls (result_finish r v s)) = length (calls s)"
  by (auto simp: install_def unregister_def close_bridge_def result_start_def result_finish_def Let_def set_fut_def
      pop_pending_def split: option.splits pyval.splits)

lemma failed_phases:
  assumes "k < length (calls s)"
  shows "cl_phase (calls (install t ws caps d s) ! k) = cl_phase (calls s ! k)"
    "cl_phase (calls (unregister t ws s) ! k) = cl_phase (calls s ! k)"
    "cl_phase (calls (close_bridge s) ! k) = cl_phase (calls s ! k)"
    "cl_phase (calls (result_start t msg ws s) ! k) = cl_phase (calls s ! k)"
    "cl_phase (calls (result_finish r v s) ! k) = cl_phase (calls s ! k)"
  using assms by (auto simp: install_def unregister_def close_bridge_def result_start_def result_finish_def Let_def
      set_fut_def pop_pending_def fail_pending_nth fold_fail_nth failed_same nth_upd
      split: option.splits pyval.splits)

lemma wire_step: "wire (bstep M T h ev s) = wire s \<or> (\<exists>k. ev = SendNow k \<and> k < length (calls s) \<and>
    cl_phase (calls s ! k) = Verified True \<and> map_of (registry s) (cl_tenant (calls s ! k)) = Some (cl_conn (calls s ! k)) \<and>
    wire (bstep M T h ev s) = wire s @ [k])"
  by (cases ev) (auto simp: register_start_def register_finish_def send_start_phases other_phases send_now_def Let_def
      set_phase_def await_result_def split: option.splits sum.splits reg_phase.splits res_phase.splits
      call_phase.splits fut.splits prod.splits if_splits)

lemma verified_step:
  assumes "k < length (calls (bstep M T h ev s))" "cl_phase (calls (bstep M T h ev s) ! k) = Verified True"
    "cl_phase (calls s ! k) \<noteq> Verified True \<or> \<not> k < length (calls s)"
  shows "\<exists>ok. ev = SendVerify k ok \<and> k < length (calls s) \<and>
    require_active (bc_device (conns s ! cl_conn (calls s ! k))) (adb_of s) = Inr ()"
proof (cases ev)
  case (SendVerify j ok)
  then show ?thesis using assms by (auto simp: set_phase_def nth_upd verify_device_def is_ok_iff split: if_splits)
next
  case (SendStart t cap act params timeout req)
  then show ?thesis using assms
    by (auto split: if_splits sum.splits simp: send_start_phases less_Suc_eq)
next
  case (RegFinish i)
  then show ?thesis using assms
    by (auto simp: register_finish_def other_phases failed_phases split: if_splits reg_phase.splits option.splits)
qed (use assms in \<open>auto simp: register_start_def other_phases failed_phases send_now_def Let_def
      set_phase_def await_result_def nth_upd split: option.splits res_phase.splits
      call_phase.splits fut.splits if_splits\<close>)

text \<open>C12 Delivery of commands: under every interleaving of registrations, replacements, disconnections,
  results, commands, shutdown and operations on the authentication tables, a step of the bridge
  puts at most one command on a socket, never the same one twice, and only when the bridge is not
  closing, the connection is still the one registered for the tenant of the command, belongs to a
  device of that tenant and reported the capability as enabled, and the device was verified while
  the call held the send lock; a verification succeeds only for a device that is active in the
  tables at that moment.\<close>

theorem bridge_delivery:
  fixes M T h evs ev d k
  defines "s \<equiv> brun M T h evs (bridge_init d)" and "u \<equiv> brun M T h (evs @ [ev]) (bridge_init d)"
  shows "(wire u = wire s \<or> (\<exists>k. wire u = wire s @ [k] \<and> k \<notin> set (wire s) \<and> k < length (calls s) \<and> \<not> closing s \<and>
      (let cl = calls s ! k; c = conns s ! cl_conn cl in
         cl_phase cl = Verified True \<and> map_of (registry s) (cl_tenant cl) = Some (cl_conn cl) \<and>
         pd_tenant (bc_device c) = cl_tenant cl \<and> map_of (bc_caps c) (cl_cap cl) = Some (PBool True)))) \<and>
    (k < length (calls u) \<and> cl_phase (calls u ! k) = Verified True \<longrightarrow>
       k < length (calls s) \<and> (cl_phase (calls s ! k) = Verified True \<or>
         require_active (bc_device (conns s ! cl_conn (calls s ! k))) (adb_of s) = Inr ()))"
proof -
  have u: "u = bstep M T h ev s" by (simp add: u_def s_def brun_def run_all_def commit_def)
  have inv: "binv M s" unfolding s_def by (rule binv_brun)
  have iu: "binv M u" unfolding u_def by (rule binv_brun)
  have "wire u = wire s \<or> (\<exists>k. wire u = wire s @ [k] \<and> k \<notin> set (wire s) \<and> k < length (calls s) \<and> \<not> closing s \<and>
      (let cl = calls s ! k; c = conns s ! cl_conn cl in
         cl_phase cl = Verified True \<and> map_of (registry s) (cl_tenant cl) = Some (cl_conn cl) \<and>
         pd_tenant (bc_device c) = cl_tenant cl \<and> map_of (bc_caps c) (cl_cap cl) = Some (PBool True)))"
    using wire_step[of M T h ev s]
  proof (elim disjE exE conjE)
    fix j assume j: "j < length (calls s)" "cl_phase (calls s ! j) = Verified True"
      "map_of (registry s) (cl_tenant (calls s ! j)) = Some (cl_conn (calls s ! j))" "wire (bstep M T h ev s) = wire s @ [j]"
    have "j \<notin> set (wire s)" using binvD(2)[OF inv] j(2) by (auto simp: wire_ok_def sent_def)
    then show ?thesis using j binvD(5)[OF inv j(1)] registryD(3)[OF binvD(1)[OF inv] j(3)] u
      by (auto simp: call_ok_def Let_def)
  qed (use u in simp)
  moreover have "k < length (calls s) \<and> (cl_phase (calls s ! k) = Verified True \<or>
         require_active (bc_device (conns s ! cl_conn (calls s ! k))) (adb_of s) = Inr ())"
    if "k < length (calls u)" "cl_phase (calls u ! k) = Verified True"
    using verified_step[of k M T h ev s] that u by blast
  ultimately show ?thesis by blast
qed

text \<open>Correlation of results: a command returns details only when its own connection's socket sent,
  for its tenant, a message with the request identifier of this very call and of no other, whose
  \<open>success\<close> is \<open>True\<close> and whose details these are.\<close>

lemma bridge_correlation:
  fixes M T h evs d
  defines "s \<equiv> brun M T h evs (bridge_init d)"
  assumes "k < length (calls s)" "cl_phase (calls s ! k) = Finished (Inr details)"
  shows "\<exists>m. (cl_tenant (calls s ! k), bc_ws (conns s ! cl_conn (calls s ! k)), m) \<in> set (received s) \<and>
    dget m ''request_id'' = PStr (cl_req (calls s ! k)) \<and> dget m ''success'' = PBool True \<and>
    dget_or m ''details'' (PDict []) = PDict details \<and>
    (\<forall>j < length (calls s). cl_req (calls s ! j) = cl_req (calls s ! k) \<longrightarrow> j = k)"
proof -
  have inv: "binv M s" unfolding s_def by (rule binv_brun)
  obtain m where "cl_fut (calls s ! k) = Value m" "command_details m = Inr details"
    using binvD(5)[OF inv assms(2)] assms(3) by (auto simp: call_ok_def Let_def)
  then show ?thesis using binvD(5)[OF inv assms(2)] req_inj[OF binvD(3)[OF inv] _ assms(2)]
    by (intro exI[of _ m]) (auto simp: call_ok_def Let_def command_details_def split: if_splits pyval.splits)
qed

text \<open>C27 No caller is stranded: a command that is still waiting for its result is pending on the
  connection registered for its tenant, at most the configured number is pending on any connection,
  a closing bridge has no connection and no waiting command, so every command of a connection that
  was replaced, disconnected or shut down has its failure at hand; and when the deadline of a
  command passes, it ends with an error unless it had ended before.\<close>

theorem bridge_no_stranded:
  fixes M T h evs d
  defines "s \<equiv> brun M T h evs (bridge_init d)"
  assumes "k < length (calls s)"
  shows "(\<not> finished (calls s ! k) \<and> cl_fut (calls s ! k) = Pending \<longrightarrow>
      \<not> closing s \<and> map_of (registry s) (cl_tenant (calls s ! k)) = Some (cl_conn (calls s ! k)) \<and>
      (cl_req (calls s ! k), k) \<in> set (bc_pending (conns s ! cl_conn (calls s ! k)))) \<and>
    length (bc_pending (conns s ! cl_conn (calls s ! k))) \<le> M \<and>
    (closing s \<longrightarrow> registry s = []) \<and>
    finished (calls (bstep M T h (SendTimeout k) s) ! k) \<and>
    (\<not> finished (calls s ! k) \<longrightarrow>
      \<not> is_ok (case cl_phase (calls (bstep M T h (SendTimeout k) s) ! k) of Finished r \<Rightarrow> r | _ \<Rightarrow> Inr []))"
proof -
  have inv: "binv M s" unfolding s_def by (rule binv_brun)
  note ck = binvD(5)[OF inv assms(2)]
  have c: "cl_conn (calls s ! k) < length (conns s)" using ck by (simp add: call_ok_def Let_def)
  have 1: "\<not> closing s" if "map_of (registry s) (cl_tenant (calls s ! k)) = Some (cl_conn (calls s ! k))"
    using registryD(3)[OF binvD(1)[OF inv] that] .
  have 2: "length (bc_pending (conns s ! cl_conn (calls s ! k))) \<le> M" using binvD(4)[OF inv c] by (simp add: conn_ok_def)
  have 3: "closing s \<longrightarrow> registry s = []" using binvD(1)[OF inv] by (simp add: reg_ok_def)
  have 4: "finished (calls (bstep M T h (SendTimeout k) s) ! k)"
    using assms(2) by (auto simp: finish_call_def Let_def pop_pending_def finished_def)
  have 5: "\<not> is_ok (case cl_phase (calls (bstep M T h (SendTimeout k) s) ! k) of Finished r \<Rightarrow> r | _ \<Rightarrow> Inr [])"
    if "\<not> finished (calls s ! k)" using assms(2) that by (simp add: finish_call_def Let_def pop_pending_def)
  have 6: "\<not> closing s \<and> map_of (registry s) (cl_tenant (calls s ! k)) = Some (cl_conn (calls s ! k)) \<and>
      (cl_req (calls s ! k), k) \<in> set (bc_pending (conns s ! cl_conn (calls s ! k)))"
    if "\<not> finished (calls s ! k) \<and> cl_fut (calls s ! k) = Pending"
    using ck that 1 unfolding call_ok_def Let_def live_def by blast
  show ?thesis using 2 3 4 5 6 by blast
qed

section \<open>A run\<close>

definition demo_adb :: adb where
  "demo_adb = \<lparr>tenants = [\<lparr>tn_id = ''t'', tn_name = ''acme''\<rparr>],
     api_keys = [\<lparr>k_id = ''c1'', k_tenant = ''t'', k_hash = ''h1'', k_scopes = DEVICE_SCOPES, k_revoked = None\<rparr>],
     tickets = [], pairings = [],
     devices = [\<lparr>dv_id = ''d1'', dv_tenant = ''t'', dv_cred = ''c1'', dv_revoked = None\<rparr>]\<rparr>"

definition demo_device :: paired_device where
  "demo_device = \<lparr>pd_tenant = ''t'', pd_cred = ''c1'', pd_device = ''d1''\<rparr>"

definition demo_bevents :: "bevent list" where
  "demo_bevents = [RegStart ''t'' 7 (PDict [(''open_apps'', PBool True)]) (Some demo_device), RegVerify 0 True, RegFinish 0,
     SendStart ''t'' ''open_apps'' ''open_app'' [] (Fin 5) ''r1'', SendLock 0, SendVerify 0 True]"

definition demo_rest :: "bevent list" where
  "demo_rest = [SendNow 0, SendDone 0 True,
     ResStart ''t'' [(''request_id'', PStr ''r1''), (''success'', PBool True)] 7, ResVerify 0 True, ResFinish 0, SendResult 0]"

theorem bridge_delivery_witness:
  "wire (brun 4 demo_S id (demo_bevents @ [SendNow 0]) (bridge_init demo_adb)) = [0] \<and>
   require_active demo_device demo_adb = Inr ()"
proof -
  let ?evs = "butlast demo_bevents" and ?ev = "last demo_bevents"
  let ?s = "brun 4 demo_S id ?evs (bridge_init demo_adb)" and ?u = "brun 4 demo_S id (?evs @ [?ev]) (bridge_init demo_adb)"
  have w: "wire (brun 4 demo_S id (demo_bevents @ [SendNow 0]) (bridge_init demo_adb)) = [0]" by code_simp
  have a: "0 < length (calls ?u) \<and> cl_phase (calls ?u ! 0) = Verified True" by code_simp
  have b: "cl_phase (calls ?s ! 0) = Checking" "bc_device (conns ?s ! cl_conn (calls ?s ! 0)) = demo_device"
    "adb_of ?s = demo_adb" by code_simp+
  from conjunct2[OF bridge_delivery[of 4 demo_S id ?evs ?ev demo_adb 0]] a b w show ?thesis by simp
qed

lemma bridge_correlation_witness:
  "\<exists>m. (''t'', 7, m) \<in> set (received (brun 4 demo_S id (demo_bevents @ demo_rest) (bridge_init demo_adb))) \<and>
     dget m ''request_id'' = PStr ''r1''"
proof -
  let ?s = "brun 4 demo_S id (demo_bevents @ demo_rest) (bridge_init demo_adb)"
  have a: "0 < length (calls ?s)" "cl_phase (calls ?s ! 0) = Finished (Inr [])" by code_simp+
  have b: "cl_tenant (calls ?s ! 0) = ''t''" "bc_ws (conns ?s ! cl_conn (calls ?s ! 0)) = 7" "cl_req (calls ?s ! 0) = ''r1''"
    by code_simp+
  from bridge_correlation[OF a] b show ?thesis by auto
qed

theorem bridge_no_stranded_witness:
  "cl_fut (calls (brun 4 demo_S id (demo_bevents @ [CloseBridge]) (bridge_init demo_adb)) ! 0) \<noteq> Pending \<and>
   registry (brun 4 demo_S id (demo_bevents @ [CloseBridge]) (bridge_init demo_adb)) = []"
proof -
  let ?s = "brun 4 demo_S id (demo_bevents @ [CloseBridge]) (bridge_init demo_adb)"
  have a: "0 < length (calls ?s)" "closing ?s" "\<not> finished (calls ?s ! 0)" by code_simp+
  from bridge_no_stranded[OF a(1)] a(2,3) show ?thesis by blast
qed

end
