(* ===== verification/Text_Match.thy ===== *)
theory Text_Match
  imports Ally_Prelude
begin

text \<open>
  The part of Python's \<open>re\<close> the code searches with: characters, sequences, alternatives, repetition
  and word boundaries. A position in a text is the character before it, if any, and the text after
  it. \<open>rx_ends\<close> computes the positions where a match from a position can end, and is proved to be
  the match relation; \<open>rx_search\<close> is \<open>re.search\<close> as a condition, \<open>rx_full\<close> is \<open>re.fullmatch\<close>.
\<close>

type_synonym position = "char option \<times> string"

section \<open>Character classes\<close>

text \<open>\<open>\w\<close> for Latin-1: letters, digits, underscore, and the superscripts and fractions that
  \<open>str.isalnum\<close> accepts.\<close>

definition is_ascii_letter :: "char \<Rightarrow> bool" where
  "is_ascii_letter c = (let n = code c in 65 \<le> n \<and> n \<le> 90 \<or> 97 \<le> n \<and> n \<le> 122)"

definition is_ascii_digit :: "char \<Rightarrow> bool" where
  "is_ascii_digit c = (let n = code c in 48 \<le> n \<and> n \<le> 57)"

definition word_char :: "char \<Rightarrow> bool" where
  "word_char c = (let n = code c in is_ascii_letter c \<or> is_ascii_digit c \<or> n = 95 \<or>
     n = 170 \<or> n = 178 \<or> n = 179 \<or> n = 181 \<or> n = 185 \<or> n = 186 \<or> n = 188 \<or> n = 189 \<or> n = 190 \<or>
     192 \<le> n \<and> n \<noteq> 215 \<and> n \<noteq> 247)"

definition ident_start :: "char \<Rightarrow> bool" where
  "ident_start c = (is_ascii_letter c \<or> c = CHR ''_'')"

definition ident_char :: "char \<Rightarrow> bool" where
  "ident_char c = (ident_start c \<or> is_ascii_digit c)"

section \<open>Expressions\<close>

datatype rx = RChar "char \<Rightarrow> bool" | REmpty | RSeq rx rx | RAlt rx rx | RStar rx | RBound

definition at_boundary :: "position \<Rightarrow> bool" where
  "at_boundary p = (case p of (a, s) \<Rightarrow>
     (case a of None \<Rightarrow> False | Some c \<Rightarrow> word_char c) \<noteq> (case s of [] \<Rightarrow> False | c # _ \<Rightarrow> word_char c))"

fun star_ends :: "(position \<Rightarrow> position list) \<Rightarrow> string \<Rightarrow> position \<Rightarrow> position list" where
  "star_ends f [] p = [p]"
| "star_ends f (_ # fuel) p =
     p # concat (map (\<lambda>q. if length (snd q) < length (snd p) then star_ends f fuel q else []) (f p))"

fun rx_ends :: "rx \<Rightarrow> position \<Rightarrow> position list" where
  "rx_ends (RChar f) p = (case snd p of [] \<Rightarrow> [] | c # s \<Rightarrow> if f c then [(Some c, s)] else [])"
| "rx_ends REmpty p = [p]"
| "rx_ends (RSeq a b) p = concat (map (rx_ends b) (rx_ends a p))"
| "rx_ends (RAlt a b) p = rx_ends a p @ rx_ends b p"
| "rx_ends (RStar a) p = star_ends (rx_ends a) (snd p) p"
| "rx_ends RBound p = (if at_boundary p then [p] else [])"

fun positions :: "char option \<Rightarrow> string \<Rightarrow> position list" where
  "positions a [] = [(a, [])]"
| "positions a (c # s) = (a, c # s) # positions (Some c) s"

definition rx_search :: "rx \<Rightarrow> string \<Rightarrow> bool" where
  "rx_search r s = list_ex (\<lambda>p. rx_ends r p \<noteq> []) (positions None s)"

definition rx_full :: "rx \<Rightarrow> string \<Rightarrow> bool" where
  "rx_full r s = list_ex (\<lambda>q. snd q = []) (rx_ends r (None, s))"

fun rx_seq :: "rx list \<Rightarrow> rx" where
  "rx_seq [] = REmpty"
| "rx_seq [r] = r"
| "rx_seq (r # rs) = RSeq r (rx_seq rs)"

fun rx_alt :: "rx list \<Rightarrow> rx" where
  "rx_alt [] = RChar (\<lambda>c. False)"
| "rx_alt [r] = r"
| "rx_alt (r # rs) = RAlt r (rx_alt rs)"

definition rx_lit :: "string \<Rightarrow> rx" where
  "rx_lit w = rx_seq (map (\<lambda>c. RChar ((=) c)) w)"

definition rx_plus :: "rx \<Rightarrow> rx" where
  "rx_plus r = RSeq r (RStar r)"

definition rx_opt :: "rx \<Rightarrow> rx" where
  "rx_opt r = RAlt r REmpty"

definition rx_words :: "string list \<Rightarrow> rx" where
  "rx_words ws = rx_seq [RBound, rx_alt (map rx_lit ws), RBound]"

section \<open>The match relation\<close>

inductive rx_match :: "rx \<Rightarrow> position \<Rightarrow> position \<Rightarrow> bool" where
  m_char: "f c \<Longrightarrow> rx_match (RChar f) (a, c # s) (Some c, s)"
| m_empty: "rx_match REmpty p p"
| m_seq: "rx_match a p q \<Longrightarrow> rx_match b q r \<Longrightarrow> rx_match (RSeq a b) p r"
| m_alt1: "rx_match a p q \<Longrightarrow> rx_match (RAlt a b) p q"
| m_alt2: "rx_match b p q \<Longrightarrow> rx_match (RAlt a b) p q"
| m_star0: "rx_match (RStar a) p p"
| m_star: "rx_match a p q \<Longrightarrow> rx_match (RStar a) q r \<Longrightarrow> rx_match (RStar a) p r"
| m_bound: "at_boundary p \<Longrightarrow> rx_match RBound p p"

inductive_cases rx_charE: "rx_match (RChar f) p q"
inductive_cases rx_seqE: "rx_match (RSeq a b) p q"
inductive_cases rx_altE: "rx_match (RAlt a b) p q"
inductive_simps rx_empty_iff: "rx_match REmpty p q"
inductive_simps rx_bound_iff: "rx_match RBound p q"

lemma rx_match_suffix: "rx_match r p q \<Longrightarrow> (\<exists>w. snd p = w @ snd q \<and> (w = [] \<longrightarrow> p = q) \<and>
    (w \<noteq> [] \<longrightarrow> fst q = Some (last w)))"
proof (induction rule: rx_match.induct)
  case (m_seq a p q b r)
  then obtain v w where "snd p = v @ snd q" "v = [] \<longrightarrow> p = q" "v \<noteq> [] \<longrightarrow> fst q = Some (last v)"
    "snd q = w @ snd r" "w = [] \<longrightarrow> q = r" "w \<noteq> [] \<longrightarrow> fst r = Some (last w)" by blast
  then show ?case by (intro exI[of _ "v @ w"]) auto
next
  case (m_star a p q r)
  then obtain v w where "snd p = v @ snd q" "v = [] \<longrightarrow> p = q" "v \<noteq> [] \<longrightarrow> fst q = Some (last v)"
    "snd q = w @ snd r" "w = [] \<longrightarrow> q = r" "w \<noteq> [] \<longrightarrow> fst r = Some (last w)" by blast
  then show ?case by (intro exI[of _ "v @ w"]) auto
qed auto

lemma star_ends_sound:
  assumes "\<And>p q. q \<in> set (f p) \<Longrightarrow> rx_match a p q"
  shows "q \<in> set (star_ends f fuel p) \<Longrightarrow> rx_match (RStar a) p q"
proof (induction fuel arbitrary: p)
  case (Cons c fuel)
  then show ?case by (auto intro: m_star0 m_star assms split: if_splits)
qed (auto intro: m_star0)

text \<open>Repetitions that consume nothing can be skipped, so each counted one shortens the text.\<close>

lemma star_ends_complete:
  assumes f: "\<And>p q. rx_match a p q \<Longrightarrow> q \<in> set (f p)"
  shows "rx_match r p q \<Longrightarrow> r = RStar a \<Longrightarrow> length (snd p) \<le> length fuel \<Longrightarrow> q \<in> set (star_ends f fuel p)"
proof (induction arbitrary: fuel rule: rx_match.induct)
  case (m_star0 b p)
  then show ?case by (cases fuel) auto
next
  case (m_star b p q r)
  obtain w where w: "snd p = w @ snd q" "w = [] \<longrightarrow> p = q" using rx_match_suffix[OF m_star.hyps(1)] by blast
  show ?case
  proof (cases "w = []")
    case True
    then show ?thesis using m_star w by blast
  next
    case False
    then have l: "length (snd q) < length (snd p)" using w by simp
    then obtain c fu where fu: "fuel = c # fu" using m_star.prems(2) by (cases fuel) auto
    have "r \<in> set (star_ends f fu q)" using m_star l fu by simp
    moreover have "q \<in> set (f p)" using f m_star.hyps(1) m_star.prems(1) by blast
    ultimately show ?thesis using fu l by auto
  qed
qed auto

lemma rx_ends_match: "q \<in> set (rx_ends r p) \<longleftrightarrow> rx_match r p q"
proof (induction r arbitrary: p q)
  case (RChar f)
  then show ?case by (cases p) (auto intro: m_char elim!: rx_charE split: list.splits if_splits)
next
  case REmpty
  then show ?case by (auto simp: rx_empty_iff)
next
  case (RSeq a b)
  have "q \<in> set (rx_ends (RSeq a b) p) \<longleftrightarrow> (\<exists>m. m \<in> set (rx_ends a p) \<and> q \<in> set (rx_ends b m))" by auto
  also have "\<dots> \<longleftrightarrow> (\<exists>m. rx_match a p m \<and> rx_match b m q)" unfolding RSeq.IH ..
  also have "\<dots> \<longleftrightarrow> rx_match (RSeq a b) p q" by (blast intro: m_seq elim: rx_seqE)
  finally show ?case .
next
  case (RAlt a b)
  then show ?case by (auto intro: m_alt1 m_alt2 elim!: rx_altE)
next
  case (RStar a)
  show ?case
  proof
    assume "q \<in> set (rx_ends (RStar a) p)"
    then show "rx_match (RStar a) p q" using star_ends_sound[of "rx_ends a" a] RStar.IH by simp
  next
    assume "rx_match (RStar a) p q"
    then show "q \<in> set (rx_ends (RStar a) p)" using star_ends_complete[of a "rx_ends a"] RStar.IH by simp
  qed
next
  case RBound
  then show ?case by (auto simp: rx_bound_iff)
qed

end
