(* ===== verification/Commands.thy ===== *)
theory Commands
  imports Text_Match
begin

text \<open>
  Slash commands (\<open>services/agent/commands.py\<close>) and the rule that binds an explicit command to
  what is dispatched (\<open>policy.py\<close>).

  Both regular expressions of the parser are deterministic: an identifier or word is always a
  maximal run, because the character that must follow it is not one of its own, so the greedy
  match is the only one. The parser below scans accordingly.
\<close>

section \<open>The parser\<close>

record parsed_command =
  pc_tool :: string
  pc_action :: string
  pc_params :: dict

text \<open>The identifier at the front of a text, and what follows.\<close>

definition ident :: "string \<Rightarrow> (string \<times> string) option" where
  "ident s = (case s of [] \<Rightarrow> None
     | c # r \<Rightarrow> if ident_start c then Some (c # takeWhile ident_char r, dropWhile ident_char r) else None)"

text \<open>The inside of a quoted value: up to the closing quote, an escape being a backslash and any
  character but a newline.\<close>

fun quoted_tail :: "string \<Rightarrow> (string \<times> string) option" where
  "quoted_tail [] = None"
| "quoted_tail (c # s) =
     (if c = CHR ''\"'' then Some ([c], s)
      else if c = CHR 0x5C then (case s of [] \<Rightarrow> None
         | d # r \<Rightarrow> if code d = 10 then None
             else (case quoted_tail r of None \<Rightarrow> None | Some (v, t) \<Rightarrow> Some (c # d # v, t)))
      else (case quoted_tail s of None \<Rightarrow> None | Some (v, t) \<Rightarrow> Some (c # v, t)))"

definition quoted :: "string \<Rightarrow> (string \<times> string) option" where
  "quoted s = (case s of [] \<Rightarrow> None
     | c # r \<Rightarrow> if c = CHR ''\"'' then (case quoted_tail r of None \<Rightarrow> None | Some (v, t) \<Rightarrow> Some (c # v, t)) else None)"

text \<open>\<open>"(?:[^"\\]|\\.)*"|\S+\<close>\<close>

definition kv_value :: "string \<Rightarrow> (string \<times> string) option" where
  "kv_value s = (case quoted s of Some r \<Rightarrow> Some r
     | None \<Rightarrow> (let v = takeWhile (\<lambda>c. \<not> py_space c) s in
         if v = [] then None else Some (v, dropWhile (\<lambda>c. \<not> py_space c) s)))"

definition kv_match :: "string \<Rightarrow> (string \<times> string \<times> string) option" where
  "kv_match s = (let k = takeWhile word_char s in
     if k = [] then None
     else (case dropWhile word_char s of [] \<Rightarrow> None
       | c # r \<Rightarrow> if c \<noteq> CHR ''='' then None
           else (case kv_value r of None \<Rightarrow> None | Some (v, t) \<Rightarrow> Some (k, v, t))))"

lemma quoted_tail_length: "quoted_tail s = Some (v, t) \<Longrightarrow> s = v @ t \<and> v \<noteq> []"
proof (induction s arbitrary: v t rule: quoted_tail.induct)
  case 1
  then show ?case by simp
next
  case (2 c s)
  consider (quote) "c = CHR ''\"''" | (esc) d r where "c = CHR 0x5C" "s = d # r" "code d \<noteq> 10"
    | (plain) "c \<noteq> CHR ''\"''" "c \<noteq> CHR 0x5C"
    using "2.prems" by (cases "c = CHR ''\"''"; cases "c = CHR 0x5C"; cases s) (auto split: if_splits)
  then show ?case
  proof cases
    case quote
    then show ?thesis using "2.prems" by auto
  next
    case esc
    then obtain v' where v': "quoted_tail r = Some (v', t)" "v = c # d # v'"
      using "2.prems" by (auto split: option.splits)
    have "r = v' @ t \<and> v' \<noteq> []" by (rule "2.IH"(1)[OF _ esc(1) esc(2) esc(3) v'(1)]) (simp add: esc(1))
    then show ?thesis using esc(2) v'(2) by simp
  next
    case plain
    then obtain v' where v': "quoted_tail s = Some (v', t)" "v = c # v'"
      using "2.prems" by (auto split: option.splits)
    have "s = v' @ t \<and> v' \<noteq> []" by (rule "2.IH"(2)[OF plain v'(1)])
    then show ?thesis using v'(2) by simp
  qed
qed

lemma quoted_length: "quoted s = Some (v, t) \<Longrightarrow> s = v @ t \<and> v \<noteq> []"
  by (auto simp: quoted_def dest!: quoted_tail_length split: list.splits if_splits option.splits)

lemma kv_value_length: "kv_value s = Some (v, t) \<Longrightarrow> s = v @ t \<and> v \<noteq> []"
  by (auto simp: kv_value_def Let_def dest!: quoted_length split: option.splits if_splits)

lemma kv_match_length: "kv_match s = Some (k, v, t) \<Longrightarrow> length t < length s"
proof -
  assume a: "kv_match s = Some (k, v, t)"
  have "length (dropWhile word_char s) \<le> length s" by (rule length_dropWhile_le)
  with a show ?thesis
    by (auto simp: kv_match_def Let_def dest!: kv_value_length split: if_splits list.splits option.splits)
qed

text \<open>\<open>findall\<close>: after a match it goes on behind it, otherwise at the next character.\<close>

function kv_scan :: "string \<Rightarrow> (string \<times> string) list" where
  "kv_scan s = (case kv_match s of
       Some (k, v, t) \<Rightarrow> (k, v) # kv_scan t
     | None \<Rightarrow> (case s of [] \<Rightarrow> [] | c # r \<Rightarrow> kv_scan r))"
  by pat_completeness auto
termination
  by (relation "measure length") (auto dest: kv_match_length)

declare kv_scan.simps [simp del]

text \<open>\<open>value[1:-1].replace('\\"', '"')\<close>\<close>

fun unescape :: "string \<Rightarrow> string" where
  "unescape (c # d # s) =
     (if c = CHR 0x5C \<and> d = CHR ''\"'' then d # unescape s else c # unescape (d # s))"
| "unescape s = s"

definition kv_unquote :: "string \<Rightarrow> string" where
  "kv_unquote v = (if starts_with v [CHR ''\"''] \<and> ends_with v [CHR ''\"''] then unescape (butlast (tl v)) else v)"

definition kv_params :: "(string \<times> string) list \<Rightarrow> dict" where
  "kv_params kvs = fold (\<lambda>(k, v) d. dset k (PStr (kv_unquote v)) d) kvs []"

definition parse_command :: "string \<Rightarrow> parsed_command option" where
  "parse_command text = (case strip text of [] \<Rightarrow> None
     | c # s \<Rightarrow> if c \<noteq> CHR ''/'' then None
         else (case ident s of None \<Rightarrow> None | Some (tool, r) \<Rightarrow>
           (case r of [] \<Rightarrow> None | d # r2 \<Rightarrow> if d \<noteq> CHR ''.'' then None
             else (case ident r2 of None \<Rightarrow> None | Some (act, r3) \<Rightarrow>
               Some \<lparr>pc_tool = lower tool, pc_action = lower act,
                     pc_params = kv_params (kv_scan (lstrip r3))\<rparr>))))"

section \<open>Binding an explicit command\<close>

text \<open>Equality of dictionaries does not depend on the order of their entries.\<close>

definition dict_eq :: "dict \<Rightarrow> dict \<Rightarrow> bool" where
  "dict_eq a b = list_all (\<lambda>k. map_of a k = map_of b k) (keys a @ keys b)"

lemma dict_eq_iff: "dict_eq a b \<longleftrightarrow> map_of a = map_of b"
proof
  assume e: "dict_eq a b"
  show "map_of a = map_of b"
  proof
    fix k
    show "map_of a k = map_of b k"
    proof (cases "k \<in> set (keys a) \<union> set (keys b)")
      case True
      then show ?thesis using e by (auto simp: dict_eq_def list_all_iff)
    next
      case False
      then have "map_of a k = None" "map_of b k = None" by (auto simp: keys_def map_of_eq_None_iff)
      then show ?thesis by simp
    qed
  qed
qed (simp add: dict_eq_def list_all_iff)

definition validate_explicit_pc_command :: "string \<Rightarrow> string \<Rightarrow> string \<Rightarrow> dict \<Rightarrow> unit res" where
  "validate_explicit_pc_command query tool act params =
     (if tool \<noteq> ''local_pc'' then Inr ()
      else (case parse_command query of None \<Rightarrow> Inr ()
        | Some c \<Rightarrow> if pc_tool c \<noteq> tool \<or> pc_action c \<noteq> act \<or> \<not> dict_eq (pc_params c) params
            then Inl (ToolError ''The selected PC action does not match the explicit command.'') else Inr ()))"

section \<open>Writing a command\<close>

text \<open>Quoting a value escapes its quotes.\<close>

fun escape :: "string \<Rightarrow> string" where
  "escape [] = []"
| "escape (c # s) = (if c = CHR ''\"'' then CHR 0x5C # c # escape s else c # escape s)"

definition render_param :: "string \<times> string \<Rightarrow> string" where
  "render_param p = fst p @ ''=\"'' @ escape (snd p) @ [CHR ''\"'']"

definition render_command :: "string \<Rightarrow> string \<Rightarrow> (string \<times> string) list \<Rightarrow> string" where
  "render_command tool act ps = ''/'' @ tool @ ''.'' @ act @ concat (map (\<lambda>p. CHR '' '' # render_param p) ps)"

text \<open>
  The values the notation can carry: a backslash must not stand before a quote, before a newline or
  at the end, since the escape would swallow what follows.
\<close>

fun carriable :: "string \<Rightarrow> bool" where
  "carriable [] = True"
| "carriable (c # s) = ((c = CHR 0x5C \<longrightarrow> (case s of [] \<Rightarrow> False | d # r \<Rightarrow>
      d \<noteq> CHR ''\"'' \<and> code d \<noteq> 10)) \<and> carriable s)"

definition command_name :: "string \<Rightarrow> bool" where
  "command_name s = (case s of [] \<Rightarrow> False | c # r \<Rightarrow> ident_start c \<and> list_all ident_char r \<and> lower s = s)"

definition param_name :: "string \<Rightarrow> bool" where
  "param_name k = (k \<noteq> [] \<and> list_all word_char k)"

section \<open>Reading back what was written\<close>

lemma escape_Nil [simp]: "escape s = [] \<longleftrightarrow> s = []"
  by (cases s) auto

lemma hd_escape: "escape s = d # r \<Longrightarrow> d \<noteq> CHR ''\"''"
  by (cases s) (auto split: if_splits)

lemma unescape_escape: "unescape (escape s) = s"
proof (induction s)
  case (Cons c s)
  show ?case
  proof (cases "c = CHR ''\"''")
    case True
    then show ?thesis using Cons.IH by simp
  next
    case False
    show ?thesis
    proof (cases "escape s")
      case Nil
      then show ?thesis using False by simp
    next
      case (Cons d r)
      then have "unescape (c # d # r) = c # unescape (d # r)" using hd_escape[OF Cons] by simp
      then show ?thesis using False Cons Cons.IH by simp
    qed
  qed
qed simp

lemma quoted_tail_escape: "carriable v \<Longrightarrow> quoted_tail (escape v @ CHR ''\"'' # t) = Some (escape v @ [CHR ''\"''], t)"
proof (induction v rule: length_induct)
  case (1 v)
  show ?case
  proof (cases v)
    case (Cons c s)
    have s: "carriable s" using 1(2) Cons by simp
    have IH: "quoted_tail (escape s @ CHR ''\"'' # t) = Some (escape s @ [CHR ''\"''], t)" using 1(1) Cons s by simp
    consider "c = CHR ''\"''" | "c = CHR 0x5C" | "c \<noteq> CHR ''\"''" "c \<noteq> CHR 0x5C" by blast
    then show ?thesis
    proof cases
      case 1
      then show ?thesis using Cons IH by (simp add: code_def)
    next
      case 2
      then obtain d r where r: "s = d # r" "d \<noteq> CHR ''\"''" "code d \<noteq> 10" "carriable r"
        using \<open>carriable v\<close> Cons by (auto split: list.splits)
      have "quoted_tail (escape r @ CHR ''\"'' # t) = Some (escape r @ [CHR ''\"''], t)"
        using 1(1) Cons r by simp
      then show ?thesis using Cons r 2 by simp
    next
      case 3
      then show ?thesis using Cons IH by simp
    qed
  qed simp
qed

lemma kv_unquote_escape: "kv_unquote (CHR ''\"'' # escape v @ [CHR ''\"'']) = v"
  by (simp add: kv_unquote_def starts_with_def ends_with_def unescape_escape)

lemma not_word_char [simp]: "\<not> word_char (CHR ''='')" "\<not> word_char (CHR '' '')" "\<not> ident_char (CHR ''.'')"
    "\<not> ident_char (CHR '' '')"
  by code_simp+

lemma word_char_space: "word_char c \<Longrightarrow> \<not> py_space c"
  by (auto simp: word_char_def py_space_def Let_def is_ascii_letter_def is_ascii_digit_def)

lemma ident_char_space: "ident_char c \<Longrightarrow> \<not> py_space c"
  by (auto simp: ident_char_def ident_start_def py_space_def Let_def is_ascii_letter_def is_ascii_digit_def code_def)

lemma kv_match_render:
  assumes "param_name k" "carriable v"
  shows "kv_match (render_param (k, v) @ t) = Some (k, CHR ''\"'' # escape v @ [CHR ''\"''], t)"
proof -
  have k: "\<forall>c \<in> set k. word_char c" "k \<noteq> []" using assms(1) by (auto simp: param_name_def list_all_iff)
  have "takeWhile word_char (render_param (k, v) @ t) = k" "dropWhile word_char (render_param (k, v) @ t) =
      CHR ''='' # CHR ''\"'' # escape v @ CHR ''\"'' # t"
    using k by (simp_all add: render_param_def takeWhile_append dropWhile_append)
  then show ?thesis using k(2) quoted_tail_escape[OF assms(2), of t]
    by (simp add: kv_match_def kv_value_def quoted_def)
qed

lemma kv_scan_space: "kv_scan (CHR '' '' # s) = kv_scan s"
  by (subst kv_scan.simps) (simp add: kv_match_def)

lemma kv_scan_render:
  assumes "\<forall>p \<in> set ps. param_name (fst p) \<and> carriable (snd p)"
  shows "kv_scan (concat (map (\<lambda>p. CHR '' '' # render_param p) ps)) =
    map (\<lambda>p. (fst p, CHR ''\"'' # escape (snd p) @ [CHR ''\"''])) ps"
  using assms
proof (induction ps)
  case Nil
  then show ?case by (subst kv_scan.simps) (simp add: kv_match_def)
next
  case (Cons p ps)
  obtain k v where p: "p = (k, v)" by (cases p)
  have m: "kv_match (render_param (k, v) @ concat (map (\<lambda>p. CHR '' '' # render_param p) ps)) =
      Some (k, CHR ''\"'' # escape v @ [CHR ''\"''], concat (map (\<lambda>p. CHR '' '' # render_param p) ps))"
    by (rule kv_match_render) (use Cons.prems p in auto)
  have "kv_scan (render_param p @ concat (map (\<lambda>p. CHR '' '' # render_param p) ps)) =
      (k, CHR ''\"'' # escape v @ [CHR ''\"'']) # kv_scan (concat (map (\<lambda>p. CHR '' '' # render_param p) ps))"
    unfolding p by (subst kv_scan.simps) (simp add: m)
  then show ?case using Cons p by (simp add: kv_scan_space)
qed

lemma kv_params_fold:
  assumes "distinct (map fst d @ map fst ps)"
  shows "fold (\<lambda>(k, v) d. dset k (PStr (kv_unquote v)) d) (map (\<lambda>p. (fst p, CHR ''\"'' # escape (snd p) @ [CHR ''\"''])) ps) d =
    d @ map (\<lambda>p. (fst p, PStr (snd p))) ps"
  using assms
proof (induction ps arbitrary: d)
  case (Cons p ps)
  have "dset (fst p) (PStr (snd p)) d = d @ [(fst p, PStr (snd p))]"
    unfolding dset_def by (rule update_fresh) (use Cons.prems in auto)
  then show ?case using Cons.IH[of "d @ [(fst p, PStr (snd p))]"] Cons.prems by (simp add: kv_unquote_escape)
qed simp

lemma ident_run:
  assumes "command_name w" "r = [] \<or> \<not> ident_char (hd r)"
  shows "ident (w @ r) = Some (w, r)"
proof -
  obtain c x where w: "w = c # x" "ident_start c" "\<forall>c \<in> set x. ident_char c"
    using assms(1) by (auto simp: command_name_def list_all_iff split: list.splits)
  have "takeWhile ident_char (x @ r) = x" "dropWhile ident_char (x @ r) = r"
    using w(3) assms(2) by (cases r; simp add: takeWhile_append dropWhile_append)+
  then show ?thesis using w by (simp add: ident_def)
qed

lemma command_name_chars: "command_name w \<Longrightarrow> w \<noteq> [] \<and> (\<forall>c \<in> set w. ident_char c) \<and> lower w = w"
  by (auto simp: command_name_def list_all_iff ident_char_def split: list.splits)

section \<open>Properties\<close>



text \<open>A directory written with a final backslash is cut at its first space.\<close>

lemma trailing_backslash_lost:
  "parse_command (''/local_pc.read_file path='' @ [CHR ''\"''] @ ''C:'' @ [CHR 0x5C] @ ''my dir'' @ [CHR 0x5C, CHR ''\"'']) =
     Some \<lparr>pc_tool = ''local_pc'', pc_action = ''read_file'',
       pc_params = [(''path'', PStr (CHR ''\"'' # ''C:'' @ [CHR 0x5C] @ ''my''))]\<rparr>"
  by code_simp

end
