(* ===== verification/Tools.thy ===== *)
theory Tools
  imports Auth_Principal Commands
begin

text \<open>
  The tools of the agent: the registry and its descriptions (\<open>services/agent/tools/base.py\<close>,
  \<open>registry.py\<close>), the argument contracts of the cloud tools (\<open>contracts.py\<close>), the vault of connected
  accounts (\<open>connected_accounts.py\<close>) and the Jira, Drive and Calendar tools. Identifiers drawn at
  random and the timestamp parser \<open>datetime.fromisoformat\<close> are arguments; the ciphers of the vault
  are arguments too.
\<close>

section \<open>Formatting\<close>

definition digit_char :: "nat \<Rightarrow> char" where
  "digit_char d = char_of (48 + d)"

fun nat_digits :: "nat \<Rightarrow> string" where
  "nat_digits n = (if n < 10 then [digit_char n] else nat_digits (n div 10) @ [digit_char (n mod 10)])"

declare nat_digits.simps [simp del]

definition int_digits :: "int \<Rightarrow> string" where
  "int_digits i = (if i < 0 then ''-'' @ nat_digits (nat (- i)) else nat_digits (nat i))"

text \<open>\<open>repr\<close> of a string: the quote is a double one exactly when the text has single but no double quotes.\<close>

definition hex2 :: "nat \<Rightarrow> string" where
  "hex2 n = (let d = (\<lambda>k. if k < 10 then char_of (48 + k) else char_of (87 + k)) in [d (n div 16), d (n mod 16)])"

definition repr_char :: "char \<Rightarrow> char \<Rightarrow> string" where
  "repr_char q c = (let n = code c in
     if c = q \<or> n = 92 then [CHR 0x5C, c]
     else if n = 10 then [CHR 0x5C, CHR ''n''] else if n = 13 then [CHR 0x5C, CHR ''r'']
     else if n = 9 then [CHR 0x5C, CHR ''t'']
     else if n < 32 \<or> 127 \<le> n \<and> n < 161 \<or> n = 173 then CHR 0x5C # CHR ''x'' # hex2 n
     else [c])"

definition py_repr :: "string \<Rightarrow> string" where
  "py_repr s = (let q = (if CHR 0x27 \<in> set s \<and> CHR ''\"'' \<notin> set s then CHR ''\"'' else CHR 0x27)
     in q # concat (map (repr_char q) s) @ [q])"

section \<open>Tool results\<close>

record tool_result =
  t_success :: bool
  t_summary :: string
  t_details :: dict

text \<open>\<open>ToolResult.__post_init__\<close>\<close>

definition mk_result :: "bool \<Rightarrow> string \<Rightarrow> dict \<Rightarrow> tool_result" where
  "mk_result ok summary details = \<lparr>t_success = ok,
     t_summary = (if dget details ''mocked'' = PBool True then ''[SIMULATED] '' @ summary else summary),
     t_details = details\<rparr>"

section \<open>Argument contracts\<close>

record field =
  f_name :: string
  f_required :: bool
  f_nullable :: bool
  f_check :: "string \<Rightarrow> bool"

definition req_field :: "string \<Rightarrow> (string \<Rightarrow> bool) \<Rightarrow> field" where
  "req_field n c = \<lparr>f_name = n, f_required = True, f_nullable = False, f_check = c\<rparr>"

definition str_len :: "nat \<Rightarrow> nat \<Rightarrow> string \<Rightarrow> bool" where
  "str_len lo hi s = (lo \<le> length s \<and> length s \<le> hi)"

definition identifier_ok :: "string \<Rightarrow> bool" where
  "identifier_ok s = (str_len 1 128 s \<and> list_all (\<lambda>c. ident_char c \<or> c = CHR ''-'') s)"

text \<open>\<open>^[A-Za-z][A-Za-z0-9_]{0,63}-[A-Za-z0-9]{1,32}$\<close>: the hyphen is the only one.\<close>

definition ticket_key :: "string \<Rightarrow> bool" where
  "ticket_key s = (case split_on CHR ''-'' s of
       [a, b] \<Rightarrow> str_len 1 64 a \<and> is_ascii_letter (hd a) \<and> list_all ident_char (tl a) \<and>
         str_len 1 32 b \<and> list_all (\<lambda>c. is_ascii_letter c \<or> is_ascii_digit c) b
     | _ \<Rightarrow> False)"

text \<open>
  \<open>datetime.fromisoformat\<close> after \<open>Z\<close> is rewritten: \<open>None\<close> when it raises, \<open>Some None\<close> for a time
  without offset, otherwise the instant.
\<close>

definition instant :: "(string \<Rightarrow> rat option option) \<Rightarrow> string \<Rightarrow> bool" where
  "instant stamp s = (str_len 1 64 s \<and> CHR ''T'' \<in> set s \<and> (case stamp s of Some (Some t) \<Rightarrow> True | _ \<Rightarrow> False))"

definition contract :: "(string \<Rightarrow> rat option option) \<Rightarrow> string \<Rightarrow> string \<Rightarrow> field list option" where
  "contract stamp tool act =
     (let opt = (\<lambda>n c. \<lparr>f_name = n, f_required = False, f_nullable = False, f_check = c\<rparr>);
          null = (\<lambda>n. \<lparr>f_name = n, f_required = False, f_nullable = True, f_check = instant stamp\<rparr>);
          search = [req_field ''query'' (str_len 1 2048)];
          get_ticket = [req_field ''ticket_key'' ticket_key]
      in map_of [((''jira'', ''create_ticket''), [req_field ''summary'' (str_len 1 512), opt ''description'' (str_len 0 8192)]),
        ((''jira'', ''search_tickets''), search),
        ((''jira'', ''get_ticket''), get_ticket),
        ((''jira'', ''add_comment''), get_ticket @ [req_field ''comment'' (str_len 1 8192)]),
        ((''drive'', ''search_files''), search),
        ((''drive'', ''get_file''), [req_field ''file_id'' identifier_ok]),
        ((''drive'', ''create_file''), [req_field ''title'' (str_len 1 512), opt ''content'' (str_len 0 16384)]),
        ((''calendar'', ''create_event''), [req_field ''title'' (str_len 1 512), req_field ''start_time'' (instant stamp), null ''end_time'']),
        ((''calendar'', ''list_events''), [null ''start'', null ''end'']),
        ((''calendar'', ''delete_event''), [req_field ''event_id'' identifier_ok])] (tool, act))"

definition field_ok :: "dict \<Rightarrow> field \<Rightarrow> bool" where
  "field_ok d f = (case map_of d (f_name f) of
       None \<Rightarrow> \<not> f_required f
     | Some PNone \<Rightarrow> f_nullable f
     | Some (PStr s) \<Rightarrow> f_check f s \<and> (f_name f \<in> {''description'', ''content''} \<or> strip s \<noteq> [])
     | Some _ \<Rightarrow> False)"

text \<open>\<open>ordered_range\<close>: only instants that were accepted are compared.\<close>

definition ordered :: "(string \<Rightarrow> rat option option) \<Rightarrow> dict \<Rightarrow> string \<Rightarrow> string \<Rightarrow> bool" where
  "ordered stamp d start stop = (case (dget d start, dget d stop) of
       (PStr a, PStr b) \<Rightarrow> (case (stamp a, stamp b) of (Some (Some s), Some (Some e)) \<Rightarrow> s < e | _ \<Rightarrow> True)
     | _ \<Rightarrow> True)"

text \<open>\<open>model_dump(exclude_unset=True, exclude_none=True)\<close>, in the order of the fields.\<close>

definition dump :: "field list \<Rightarrow> dict \<Rightarrow> dict" where
  "dump fs d = concat (map (\<lambda>f. case map_of d (f_name f) of None \<Rightarrow> [] | Some PNone \<Rightarrow> []
     | Some v \<Rightarrow> [(f_name f, v)]) fs)"

definition validate_tool_arguments ::
  "(string \<Rightarrow> rat option option) \<Rightarrow> string \<Rightarrow> string \<Rightarrow> dict \<Rightarrow> dict res" where
  "validate_tool_arguments stamp tool act d =
     (case contract stamp tool act of None \<Rightarrow> Inl (ToolError ''Unknown cloud tool action'')
      | Some fs \<Rightarrow>
          if list_all (\<lambda>k. k \<in> set (map f_name fs)) (keys d) \<and> list_all (field_ok d) fs \<and>
             ordered stamp d ''start_time'' ''end_time'' \<and> ordered stamp d ''start'' ''end''
          then Inr (dump fs d) else Inl (ToolError ''Invalid arguments for the selected tool action''))"

section \<open>The vault of connected accounts\<close>

definition SUPPORTED_PROVIDERS :: "string list" where
  "SUPPORTED_PROVIDERS = [''jira'', ''google_drive'', ''google_calendar'']"

record account =
  ac_tenant :: string
  ac_provider :: string
  ac_access :: string
  ac_refresh :: "string option"
  ac_expires :: "int option"
  ac_scopes :: "string list"

text \<open>A row holds the ciphertexts in the token columns.\<close>

type_synonym vault = "account list"

definition nonempty_opt :: "string option \<Rightarrow> string option" where
  "nonempty_opt x = (case x of Some [] \<Rightarrow> None | _ \<Rightarrow> x)"

text \<open>The key is configured when it is not empty; \<open>enc\<close> and \<open>dec\<close> are Fernet under a key.\<close>

definition save_connected_account ::
  "(string \<Rightarrow> string \<Rightarrow> string) \<Rightarrow> string \<Rightarrow> account \<Rightarrow> vault \<Rightarrow> vault res" where
  "save_connected_account enc key a v =
     (if ac_provider a \<notin> set SUPPORTED_PROVIDERS then Inl ValueError
      else if key = [] then Inl RuntimeError
      else (let row = a\<lparr>ac_access := enc key (ac_access a), ac_refresh := map_option (enc key) (nonempty_opt (ac_refresh a))\<rparr>;
                same = (\<lambda>r. ac_tenant r = ac_tenant a \<and> ac_provider r = ac_provider a)
        in Inr (if \<exists>r \<in> set v. same r then upd_where same (\<lambda>r. row) v else v @ [row])))"

definition get_connected_account ::
  "(string \<Rightarrow> string \<Rightarrow> string option) \<Rightarrow> string \<Rightarrow> string \<Rightarrow> string \<Rightarrow> vault \<Rightarrow> account option res" where
  "get_connected_account dec key tenant provider v =
     (if key = [] then Inl RuntimeError
      else (case find (\<lambda>r. ac_tenant r = tenant \<and> ac_provider r = provider) v of None \<Rightarrow> Inr None
        | Some r \<Rightarrow> (case dec key (ac_access r) of None \<Rightarrow> Inl ValueError
            | Some access \<Rightarrow> (case nonempty_opt (ac_refresh r) of
                None \<Rightarrow> Inr (Some (r\<lparr>ac_access := access, ac_refresh := None\<rparr>))
              | Some x \<Rightarrow> (case dec key x of None \<Rightarrow> Inl ValueError
                  | Some refresh \<Rightarrow> Inr (Some (r\<lparr>ac_access := access, ac_refresh := Some refresh\<rparr>)))))))"

definition disconnect_account :: "string \<Rightarrow> string \<Rightarrow> vault \<Rightarrow> vault \<times> bool" where
  "disconnect_account tenant provider v =
     (let same = (\<lambda>r. ac_tenant r = tenant \<and> ac_provider r = provider)
      in (del_where same v, count_where same v > 0))"

definition list_connected_providers :: "string \<Rightarrow> vault \<Rightarrow> string list" where
  "list_connected_providers tenant v = map ac_provider (filter (\<lambda>r. ac_tenant r = tenant) v)"

section \<open>The cloud tools\<close>

text \<open>
  \<open>acct\<close> answers whether an account is connected, or raises. \<open>rnd\<close> is \<open>uuid4().hex\<close>. Falsy
  checks on arguments that were validated are kept as the code has them.
\<close>

type_synonym accounts = "string \<Rightarrow> string \<Rightarrow> bool res"

definition upper_hex :: "string \<Rightarrow> string" where
  "upper_hex s = map (\<lambda>c. if 97 \<le> code c \<and> code c \<le> 122 then char_of (code c - 32) else c) s"

definition arg :: "dict \<Rightarrow> string \<Rightarrow> string" where
  "arg d k = (case dget d k of PStr s \<Rightarrow> s | _ \<Rightarrow> [])"

definition with_account :: "accounts \<Rightarrow> string \<Rightarrow> string \<Rightarrow> string \<Rightarrow> 'a res \<Rightarrow> 'a res" where
  "with_account acct tenant provider msg r =
     bindR (acct tenant provider) (\<lambda>b. if b then r else Inl (ToolError msg))"

definition JIRA_ACTIONS :: "string list" where
  "JIRA_ACTIONS = [''create_ticket'', ''search_tickets'', ''get_ticket'', ''add_comment'']"

definition DRIVE_ACTIONS :: "string list" where
  "DRIVE_ACTIONS = [''search_files'', ''get_file'', ''create_file'']"

definition CALENDAR_ACTIONS :: "string list" where
  "CALENDAR_ACTIONS = [''create_event'', ''list_events'', ''delete_event'']"

definition unknown_action :: "string \<Rightarrow> string \<Rightarrow> string list \<Rightarrow> string" where
  "unknown_action label act known =
     ''Unknown '' @ label @ '' action '' @ py_repr act @ ''. Known actions: ['' @ join_with '', '' (map py_repr known) @ '']''"

definition jira_execute ::
  "(string \<Rightarrow> rat option option) \<Rightarrow> accounts \<Rightarrow> string \<Rightarrow> string \<Rightarrow> string \<Rightarrow> string \<Rightarrow> dict \<Rightarrow> tool_result res" where
  "jira_execute stamp acct base rnd tenant act params0 =
     bindR (validate_tool_arguments stamp ''jira'' act params0) (\<lambda>params.
     with_account acct tenant ''jira'' ''Jira isn't connected yet.''
     (if act = ''create_ticket'' then
        (if \<not> truthy (dget params ''summary'') then Inl (ToolError ''create_ticket requires a 'summary'.'')
         else (let key = ''MOCK-'' @ upper_hex (take 5 rnd) in Inr (mk_result True
           (''Created Jira ticket '' @ key @ '': '' @ arg params ''summary'')
           [(''mocked'', PBool True), (''ticket_key'', PStr key), (''summary'', dget params ''summary''),
            (''description'', dget_or params ''description'' (PStr [])),
            (''url'', PStr ((if base = [] then ''https://your-domain.atlassian.net'' else base) @ ''/browse/'' @ key))])))
      else if act = ''search_tickets'' then
        Inr (mk_result True (''Found 0 tickets matching '' @ py_repr (arg params ''query'') @
            '' (mocked -- no real Jira connection yet)'')
          [(''mocked'', PBool True), (''query'', dget_or params ''query'' (PStr [])), (''results'', PList [])])
      else if act = ''get_ticket'' then
        (if \<not> truthy (dget params ''ticket_key'') then Inl (ToolError ''get_ticket requires a 'ticket_key'.'')
         else Inr (mk_result True (''Ticket '' @ arg params ''ticket_key'' @ '': (mocked) Example ticket summary'')
           [(''mocked'', PBool True), (''ticket_key'', dget params ''ticket_key''), (''status'', PStr ''Open''),
            (''summary'', PStr ''Example ticket summary'')]))
      else if act = ''add_comment'' then
        (if \<not> truthy (dget params ''ticket_key'') \<or> \<not> truthy (dget params ''comment'')
         then Inl (ToolError ''add_comment requires 'ticket_key' and 'comment'.'')
         else Inr (mk_result True (''Added a comment to '' @ arg params ''ticket_key'')
           [(''mocked'', PBool True), (''ticket_key'', dget params ''ticket_key''), (''comment'', dget params ''comment'')]))
      else Inl (ToolError (unknown_action ''Jira'' act JIRA_ACTIONS))))"

definition drive_execute ::
  "(string \<Rightarrow> rat option option) \<Rightarrow> accounts \<Rightarrow> string \<Rightarrow> string \<Rightarrow> string \<Rightarrow> dict \<Rightarrow> tool_result res" where
  "drive_execute stamp acct rnd tenant act params0 =
     bindR (validate_tool_arguments stamp ''drive'' act params0) (\<lambda>params.
     with_account acct tenant ''google_drive'' ''Google Drive isn't connected yet.''
     (if act = ''search_files'' then
        Inr (mk_result True (''Found 0 files matching '' @ py_repr (arg params ''query'') @
            '' (mocked -- no real Drive connection yet)'')
          [(''mocked'', PBool True), (''query'', dget_or params ''query'' (PStr [])), (''results'', PList [])])
      else if act = ''get_file'' then
        (if \<not> truthy (dget params ''file_id'') then Inl (ToolError ''get_file requires a 'file_id'.'')
         else Inr (mk_result True (''File '' @ arg params ''file_id'' @ '': (mocked) Example Document'')
           [(''mocked'', PBool True), (''file_id'', dget params ''file_id''), (''name'', PStr ''Example Document'')]))
      else if act = ''create_file'' then
        (if \<not> truthy (dget params ''title'') then Inl (ToolError ''create_file requires a 'title'.'')
         else Inr (mk_result True (''Created Drive file '' @ py_repr (arg params ''title''))
           [(''mocked'', PBool True), (''file_id'', PStr (''mock-'' @ take 10 rnd)), (''title'', dget params ''title''),
            (''content_preview'', PStr (take 200 (arg params ''content'')))]))
      else Inl (ToolError (unknown_action ''Drive'' act DRIVE_ACTIONS))))"

definition calendar_execute ::
  "(string \<Rightarrow> rat option option) \<Rightarrow> accounts \<Rightarrow> string \<Rightarrow> string \<Rightarrow> string \<Rightarrow> dict \<Rightarrow> tool_result res" where
  "calendar_execute stamp acct rnd tenant act params0 =
     bindR (validate_tool_arguments stamp ''calendar'' act params0) (\<lambda>params.
     with_account acct tenant ''google_calendar'' ''Google Calendar isn't connected yet.''
     (if act = ''create_event'' then
        (if \<not> truthy (dget params ''title'') \<or> \<not> truthy (dget params ''start_time'')
         then Inl (ToolError ''create_event requires 'title' and 'start_time'.'')
         else Inr (mk_result True (''Created event '' @ py_repr (arg params ''title'') @ '' at '' @ arg params ''start_time'')
           [(''mocked'', PBool True), (''event_id'', PStr (''mock-'' @ take 10 rnd)), (''title'', dget params ''title''),
            (''start_time'', dget params ''start_time''), (''end_time'', dget params ''end_time'')]))
      else if act = ''list_events'' then
        Inr (mk_result True ''No upcoming events found (mocked -- no real Calendar connection yet)''
          [(''mocked'', PBool True), (''start'', dget params ''start''), (''end'', dget params ''end''), (''results'', PList [])])
      else if act = ''delete_event'' then
        (if \<not> truthy (dget params ''event_id'') then Inl (ToolError ''delete_event requires an 'event_id'.'')
         else Inr (mk_result True (''Cancelled event '' @ arg params ''event_id'')
           [(''mocked'', PBool True), (''event_id'', dget params ''event_id'')]))
      else Inl (ToolError (unknown_action ''Calendar'' act CALENDAR_ACTIONS))))"

section \<open>The registry\<close>

record tool =
  t_name :: string
  t_desc :: string
  t_actions :: "string list"
  t_available :: "string \<Rightarrow> bool res"
  t_execute :: "string \<Rightarrow> string \<Rightarrow> dict \<Rightarrow> tool_result res"

type_synonym tool_registry = "(string \<times> tool) list"

definition register_tool :: "tool \<Rightarrow> tool_registry \<Rightarrow> tool_registry" where
  "register_tool t r = AList.update (t_name t) t r"

fun available_for :: "string \<Rightarrow> tool_registry \<Rightarrow> tool list res" where
  "available_for tenant [] = Inr []"
| "available_for tenant ((n, t) # r) = bindR (t_available t tenant) (\<lambda>b.
     bindR (available_for tenant r) (\<lambda>ts. Inr (if b then t # ts else ts)))"

definition tool_line :: "tool \<Rightarrow> string list \<Rightarrow> string" where
  "tool_line t acts = ''- '' @ t_name t @ '': '' @ t_desc t @ '' (actions: '' @ join_with '', '' acts @ '')''"

definition describe_for_classifier :: "tool_registry \<Rightarrow> string \<Rightarrow> string res" where
  "describe_for_classifier r tenant = bindR (available_for tenant r) (\<lambda>ts.
     Inr (if ts = [] then ''(no tools are currently connected for this user)''
          else join_with [CHR 0x0A] (map (\<lambda>t. tool_line t (t_actions t)) ts)))"

definition permitted_actions :: "principal \<Rightarrow> tool \<Rightarrow> string list" where
  "permitted_actions p t = filter (\<lambda>a. is_ok (authorize_tool (Some p) (tenant_id p) (t_name t) a)) (t_actions t)"

fun permitted_lines :: "principal \<Rightarrow> tool_registry \<Rightarrow> string list res" where
  "permitted_lines p [] = Inr []"
| "permitted_lines p ((n, t) # r) =
     (let acts = permitted_actions p t in
      bindR (if acts = [] then Inr False else t_available t (tenant_id p)) (\<lambda>b.
      bindR (permitted_lines p r) (\<lambda>ls. Inr (if b then tool_line t acts # ls else ls))))"

definition describe_for_principal :: "tool_registry \<Rightarrow> principal \<Rightarrow> string res" where
  "describe_for_principal r p = bindR (permitted_lines p r) (\<lambda>ls.
     Inr (if ls = [] then ''(no tools are authorized and connected for this credential)''
          else join_with [CHR 0x0A] ls))"

section \<open>Contracts\<close>

lemma contract_names: "contract stamp tool act = Some fs \<Longrightarrow> distinct (map f_name fs)"
  by (auto simp: contract_def req_field_def Let_def split: if_splits)

lemma contract_text: "contract stamp tool act = Some fs \<Longrightarrow> f \<in> set fs \<Longrightarrow> f_required f \<Longrightarrow>
    f_name f \<notin> {''description'', ''content''} \<and> \<not> f_nullable f"
  by (auto simp: contract_def req_field_def Let_def split: if_splits)

lemma map_of_dump:
  assumes "distinct (map f_name fs)"
  shows "map_of (dump fs d) k = (if k \<in> f_name ` set fs then (case map_of d k of Some PNone \<Rightarrow> None | x \<Rightarrow> x) else None)"
  using assms
proof (induction fs)
  case (Cons f fs)
  have "map_of (dump (f # fs) d) k = map_of ((case map_of d (f_name f) of None \<Rightarrow> [] | Some PNone \<Rightarrow> []
     | Some v \<Rightarrow> [(f_name f, v)]) @ dump fs d) k" by (simp add: dump_def)
  also have "\<dots> = (if k = f_name f then (case map_of d k of Some PNone \<Rightarrow> None | x \<Rightarrow> x) else map_of (dump fs d) k)"
  proof (cases "k = f_name f")
    case True
    then have "map_of (dump fs d) k = None" using Cons by auto
    then show ?thesis using True by (auto simp: map_add_def split: option.splits pyval.splits)
  next
    case False
    then show ?thesis
      by (cases "map_of d (f_name f)"; cases "the (map_of d (f_name f))") (simp_all add: map_add_def split: option.splits)
  qed
  finally show ?case using Cons by auto
qed (simp add: dump_def)

lemma validate_text:
  assumes "validate_tool_arguments stamp tool act d = Inr out"
  shows "\<exists>fs. contract stamp tool act = Some fs \<and> set (keys d) \<subseteq> f_name ` set fs \<and>
    (\<forall>k. map_of out k = (case map_of d k of Some PNone \<Rightarrow> None | x \<Rightarrow> x)) \<and>
    (\<forall>f \<in> set fs. case map_of out (f_name f) of None \<Rightarrow> \<not> f_required f
       | Some v \<Rightarrow> \<exists>s. v = PStr s \<and> f_check f s \<and> (f_required f \<longrightarrow> strip s \<noteq> []))"
proof -
  obtain fs where fs: "contract stamp tool act = Some fs" "set (keys d) \<subseteq> f_name ` set fs"
    "\<forall>f \<in> set fs. field_ok d f" "out = dump fs d"
    using assms by (auto simp: validate_tool_arguments_def list_all_iff split: option.splits if_splits)
  have m: "map_of out k = (case map_of d k of Some PNone \<Rightarrow> None | x \<Rightarrow> x)" for k
  proof (cases "k \<in> f_name ` set fs")
    case True
    then show ?thesis using map_of_dump[OF contract_names[OF fs(1)]] fs(4) by simp
  next
    case False
    then have "k \<notin> set (keys d)" using fs(2) by blast
    then have "map_of d k = None" by (simp add: keys_def map_of_eq_None_iff)
    then show ?thesis using map_of_dump[OF contract_names[OF fs(1)]] fs(4) False by simp
  qed
  have "case map_of out (f_name f) of None \<Rightarrow> \<not> f_required f
       | Some v \<Rightarrow> \<exists>s. v = PStr s \<and> f_check f s \<and> (f_required f \<longrightarrow> strip s \<noteq> [])" if f: "f \<in> set fs" for f
  proof -
    have "field_ok d f" using fs(3) f by blast
    then show ?thesis unfolding m field_ok_def using contract_text[OF fs(1) f]
      by (cases "map_of d (f_name f)") (auto split: pyval.splits)
  qed
  with fs(1,2) m show ?thesis by blast
qed

text \<open>C40 Validated arguments are exact: a request that passes its contract has no field the contract
  does not name, every required field, only strings that satisfy the checks of their field, and is
  passed on unchanged except that explicit nulls are dropped.\<close>

theorem validated_arguments:
  assumes "validate_tool_arguments stamp tool act d = Inr out"
  shows "\<exists>fs. contract stamp tool act = Some fs \<and> set (keys d) \<subseteq> f_name ` set fs \<and>
    (\<forall>k. map_of out k = (case map_of d k of Some PNone \<Rightarrow> None | x \<Rightarrow> x)) \<and>
    (\<forall>f \<in> set fs. case map_of out (f_name f) of None \<Rightarrow> \<not> f_required f
       | Some v \<Rightarrow> \<exists>s. v = PStr s \<and> f_check f s \<and> (f_required f \<longrightarrow> strip s \<noteq> []))"
  using assms by (rule validate_text)

theorem validated_arguments_witness:
  "\<exists>fs. contract (\<lambda>s. None) ''jira'' ''get_ticket'' = Some fs \<and> ''ticket_key'' \<in> f_name ` set fs"
proof -
  have "validate_tool_arguments (\<lambda>s. None) ''jira'' ''get_ticket'' [(''ticket_key'', PStr ''PROJ-12'')] =
      Inr [(''ticket_key'', PStr ''PROJ-12'')]" by code_simp
  from validated_arguments[OF this] show ?thesis by (auto simp: keys_def)
qed

section \<open>The cloud tools\<close>

lemma truthy_arg:
  assumes "validate_tool_arguments stamp tool act d = Inr out" "contract stamp tool act = Some fs"
    "f \<in> set fs" "f_required f" "f_name f = k"
  shows "\<exists>s. dget out k = PStr s \<and> truthy (dget out k)"
proof -
  obtain gs where "contract stamp tool act = Some gs" "\<forall>f \<in> set gs. case map_of out (f_name f) of None \<Rightarrow> \<not> f_required f
       | Some v \<Rightarrow> \<exists>s. v = PStr s \<and> f_check f s \<and> (f_required f \<longrightarrow> strip s \<noteq> [])"
    using validate_text[OF assms(1)] by blast
  then show ?thesis using assms(2-5) by (fastforce simp: dget_def strip_eq_Nil split: option.splits)
qed

text \<open>What a simulated tool answers when it answers.\<close>

definition simulated :: "tool_result res \<Rightarrow> bool" where
  "simulated r = (case r of Inr x \<Rightarrow> t_success x \<and> dget (t_details x) ''mocked'' = PBool True \<and>
     starts_with (t_summary x) ''[SIMULATED] '' | Inl e \<Rightarrow> False)"

lemma simulated_mk: "dget d ''mocked'' = PBool True \<Longrightarrow> simulated (Inr (mk_result True x d))"
  by (simp add: simulated_def mk_result_def starts_with_def)

lemma dget_Cons [simp]: "dget ((k, v) # d) k' = (if k = k' then v else dget d k')"
  by (auto simp: dget_def)

lemma contract_actions: "contract stamp tool act \<noteq> None \<longleftrightarrow>
    tool = ''jira'' \<and> act \<in> set JIRA_ACTIONS \<or> tool = ''drive'' \<and> act \<in> set DRIVE_ACTIONS \<or>
    tool = ''calendar'' \<and> act \<in> set CALENDAR_ACTIONS"
  by (auto simp: contract_def Let_def JIRA_ACTIONS_def DRIVE_ACTIONS_def CALENDAR_ACTIONS_def split: if_splits)

lemma validated_contract: "validate_tool_arguments stamp tool act d = Inr out \<Longrightarrow> contract stamp tool act \<noteq> None"
  by (auto simp: validate_tool_arguments_def split: option.splits)

lemmas validated_actions = contract_actions[THEN iffD1, OF validated_contract]

lemma truthy_field:
  assumes "validate_tool_arguments stamp tool act d = Inr out"
    "case contract stamp tool act of None \<Rightarrow> False | Some fs \<Rightarrow> \<exists>f \<in> set fs. f_required f \<and> f_name f = k"
  shows "truthy (dget out k)"
  using truthy_arg[OF assms(1)] assms(2) by (auto split: option.splits)

lemma with_account_cases: "with_account acct tenant provider msg r = (case acct tenant provider of Inl e \<Rightarrow> Inl e
    | Inr b \<Rightarrow> if b then r else Inl (ToolError msg))"
  by (cases "acct tenant provider") (simp_all add: with_account_def)

lemma jira_simulated:
  assumes v: "validate_tool_arguments stamp ''jira'' act d = Inr out" and a: "acct tenant ''jira'' = Inr True"
  shows "simulated (jira_execute stamp acct base rnd tenant act d)"
proof -
  note t = truthy_field[OF v]
  consider "act = ''create_ticket''" | "act = ''search_tickets''" | "act = ''get_ticket''" | "act = ''add_comment''"
    using validated_actions[OF v] by (auto simp: JIRA_ACTIONS_def)
  then show ?thesis
  proof cases
    case 1
    have "truthy (dget out ''summary'')" by (rule t) (simp add: 1 contract_def req_field_def Let_def)
    then show ?thesis using v a 1 by (simp add: jira_execute_def with_account_cases Let_def simulated_mk)
  next
    case 2
    then show ?thesis using v a by (simp add: jira_execute_def with_account_cases simulated_mk)
  next
    case 3
    have "truthy (dget out ''ticket_key'')" by (rule t) (simp add: 3 contract_def req_field_def Let_def)
    then show ?thesis using v a 3 by (simp add: jira_execute_def with_account_cases simulated_mk)
  next
    case 4
    have "truthy (dget out ''ticket_key'')" "truthy (dget out ''comment'')"
      by (rule t, simp add: 4 contract_def req_field_def Let_def)+
    then show ?thesis using v a 4 by (simp add: jira_execute_def with_account_cases simulated_mk)
  qed
qed

lemma drive_simulated:
  assumes v: "validate_tool_arguments stamp ''drive'' act d = Inr out" and a: "acct tenant ''google_drive'' = Inr True"
  shows "simulated (drive_execute stamp acct rnd tenant act d)"
proof -
  note t = truthy_field[OF v]
  consider "act = ''search_files''" | "act = ''get_file''" | "act = ''create_file''"
    using validated_actions[OF v] by (auto simp: DRIVE_ACTIONS_def)
  then show ?thesis
  proof cases
    case 1
    then show ?thesis using v a by (simp add: drive_execute_def with_account_cases simulated_mk)
  next
    case 2
    have "truthy (dget out ''file_id'')" by (rule t) (simp add: 2 contract_def req_field_def Let_def)
    then show ?thesis using v a 2 by (simp add: drive_execute_def with_account_cases simulated_mk)
  next
    case 3
    have "truthy (dget out ''title'')" by (rule t) (simp add: 3 contract_def req_field_def Let_def)
    then show ?thesis using v a 3 by (simp add: drive_execute_def with_account_cases simulated_mk)
  qed
qed

lemma calendar_simulated:
  assumes v: "validate_tool_arguments stamp ''calendar'' act d = Inr out" and a: "acct tenant ''google_calendar'' = Inr True"
  shows "simulated (calendar_execute stamp acct rnd tenant act d)"
proof -
  note t = truthy_field[OF v]
  consider "act = ''create_event''" | "act = ''list_events''" | "act = ''delete_event''"
    using validated_actions[OF v] by (auto simp: CALENDAR_ACTIONS_def)
  then show ?thesis
  proof cases
    case 1
    have "truthy (dget out ''title'')" "truthy (dget out ''start_time'')"
      by (rule t, simp add: 1 contract_def req_field_def Let_def)+
    then show ?thesis using v a 1 by (simp add: calendar_execute_def with_account_cases simulated_mk)
  next
    case 2
    then show ?thesis using v a by (simp add: calendar_execute_def with_account_cases simulated_mk)
  next
    case 3
    have "truthy (dget out ''event_id'')" by (rule t) (simp add: 3 contract_def req_field_def Let_def)
    then show ?thesis using v a 3 by (simp add: calendar_execute_def with_account_cases simulated_mk)
  qed
qed

text \<open>The cloud tools are fail-closed and never pretend: a call is refused with the contract's error
  when its arguments are invalid, whatever the vault would say; with valid arguments and a connected
  account it always succeeds, so the tools' own checks never fire, and its result is marked as
  simulated in the summary and in the details; without a connected account it fails.\<close>

lemma cloud_tools_exact:
  "(case validate_tool_arguments stamp ''jira'' act d of Inl e \<Rightarrow> jira_execute stamp acct base rnd tenant act d = Inl e
     | Inr out \<Rightarrow> simulated (jira_execute stamp acct base rnd tenant act d) = (acct tenant ''jira'' = Inr True) \<and>
         is_ok (jira_execute stamp acct base rnd tenant act d) = (acct tenant ''jira'' = Inr True)) \<and>
   (case validate_tool_arguments stamp ''drive'' act d of Inl e \<Rightarrow> drive_execute stamp acct rnd tenant act d = Inl e
     | Inr out \<Rightarrow> simulated (drive_execute stamp acct rnd tenant act d) = (acct tenant ''google_drive'' = Inr True) \<and>
         is_ok (drive_execute stamp acct rnd tenant act d) = (acct tenant ''google_drive'' = Inr True)) \<and>
   (case validate_tool_arguments stamp ''calendar'' act d of Inl e \<Rightarrow> calendar_execute stamp acct rnd tenant act d = Inl e
     | Inr out \<Rightarrow> simulated (calendar_execute stamp acct rnd tenant act d) = (acct tenant ''google_calendar'' = Inr True) \<and>
         is_ok (calendar_execute stamp acct rnd tenant act d) = (acct tenant ''google_calendar'' = Inr True))"
proof -
  have s: "simulated r \<Longrightarrow> is_ok r" for r by (cases r) (auto simp: simulated_def)
  have w: "is_ok (with_account acct tenant p m r) \<Longrightarrow> acct tenant p = Inr True" for p m and r :: "tool_result res"
    by (auto simp: with_account_cases split: sum.splits if_splits)
  have j: "is_ok (jira_execute stamp acct base rnd tenant act d) \<Longrightarrow> acct tenant ''jira'' = Inr True"
    by (cases "validate_tool_arguments stamp ''jira'' act d") (auto simp: jira_execute_def intro: w)
  have dr: "is_ok (drive_execute stamp acct rnd tenant act d) \<Longrightarrow> acct tenant ''google_drive'' = Inr True"
    by (cases "validate_tool_arguments stamp ''drive'' act d") (auto simp: drive_execute_def intro: w)
  have c: "is_ok (calendar_execute stamp acct rnd tenant act d) \<Longrightarrow> acct tenant ''google_calendar'' = Inr True"
    by (cases "validate_tool_arguments stamp ''calendar'' act d") (auto simp: calendar_execute_def intro: w)
  have 1: "simulated (jira_execute stamp acct base rnd tenant act d) = (acct tenant ''jira'' = Inr True) \<and>
      is_ok (jira_execute stamp acct base rnd tenant act d) = (acct tenant ''jira'' = Inr True)"
    if "validate_tool_arguments stamp ''jira'' act d = Inr out" for out
    using s j jira_simulated[OF that] by blast
  have 2: "simulated (drive_execute stamp acct rnd tenant act d) = (acct tenant ''google_drive'' = Inr True) \<and>
      is_ok (drive_execute stamp acct rnd tenant act d) = (acct tenant ''google_drive'' = Inr True)"
    if "validate_tool_arguments stamp ''drive'' act d = Inr out" for out
    using s dr drive_simulated[OF that] by blast
  have 3: "simulated (calendar_execute stamp acct rnd tenant act d) = (acct tenant ''google_calendar'' = Inr True) \<and>
      is_ok (calendar_execute stamp acct rnd tenant act d) = (acct tenant ''google_calendar'' = Inr True)"
    if "validate_tool_arguments stamp ''calendar'' act d = Inr out" for out
    using s c calendar_simulated[OF that] by blast
  have "case validate_tool_arguments stamp ''jira'' act d of Inl e \<Rightarrow> jira_execute stamp acct base rnd tenant act d = Inl e
     | Inr out \<Rightarrow> simulated (jira_execute stamp acct base rnd tenant act d) = (acct tenant ''jira'' = Inr True) \<and>
         is_ok (jira_execute stamp acct base rnd tenant act d) = (acct tenant ''jira'' = Inr True)"
    by (cases "validate_tool_arguments stamp ''jira'' act d") (simp_all add: 1, simp add: jira_execute_def)
  moreover have "case validate_tool_arguments stamp ''drive'' act d of Inl e \<Rightarrow> drive_execute stamp acct rnd tenant act d = Inl e
     | Inr out \<Rightarrow> simulated (drive_execute stamp acct rnd tenant act d) = (acct tenant ''google_drive'' = Inr True) \<and>
         is_ok (drive_execute stamp acct rnd tenant act d) = (acct tenant ''google_drive'' = Inr True)"
    by (cases "validate_tool_arguments stamp ''drive'' act d") (simp_all add: 2, simp add: drive_execute_def)
  moreover have "case validate_tool_arguments stamp ''calendar'' act d of Inl e \<Rightarrow> calendar_execute stamp acct rnd tenant act d = Inl e
     | Inr out \<Rightarrow> simulated (calendar_execute stamp acct rnd tenant act d) = (acct tenant ''google_calendar'' = Inr True) \<and>
         is_ok (calendar_execute stamp acct rnd tenant act d) = (acct tenant ''google_calendar'' = Inr True)"
    by (cases "validate_tool_arguments stamp ''calendar'' act d") (simp_all add: 3, simp add: calendar_execute_def)
  ultimately show ?thesis by blast
qed

section \<open>The vault\<close>

lemma find_upd_same:
  assumes "\<And>r. same r \<Longrightarrow> same (f r)" "\<exists>r \<in> set v. same r" "\<And>r. same r \<Longrightarrow> f r = row"
  shows "find same (upd_where same f v) = Some row"
  using assms by (induction v) (auto simp: upd_where_def)

text \<open>The vault round-trips: whatever is saved for a tenant and provider is what is read back for
  them, with an empty refresh token read as absent; no other tenant's or provider's account changes;
  after a disconnection none is left.\<close>

lemma vault_roundtrip:
  assumes "\<And>x. dec key (enc key x) = Some x" "\<And>x. enc key x \<noteq> []"
    "save_connected_account enc key a v = Inr w"
  shows "get_connected_account dec key (ac_tenant a) (ac_provider a) w =
      Inr (Some (a\<lparr>ac_refresh := nonempty_opt (ac_refresh a)\<rparr>)) \<and>
    ((t, p) \<noteq> (ac_tenant a, ac_provider a) \<longrightarrow>
      get_connected_account dec key t p w = get_connected_account dec key t p v) \<and>
    get_connected_account dec key (ac_tenant a) (ac_provider a) (fst (disconnect_account (ac_tenant a) (ac_provider a) w)) = Inr None"
proof -
  let ?same = "\<lambda>r. ac_tenant r = ac_tenant a \<and> ac_provider r = ac_provider a"
  let ?row = "a\<lparr>ac_access := enc key (ac_access a), ac_refresh := map_option (enc key) (nonempty_opt (ac_refresh a))\<rparr>"
  have w: "key \<noteq> []" "w = (if \<exists>r \<in> set v. ?same r then upd_where ?same (\<lambda>r. ?row) v else v @ [?row])"
    using assms(3) by (auto simp: save_connected_account_def Let_def split: if_splits)
  have f: "find ?same w = Some ?row"
  proof (cases "\<exists>r \<in> set v. ?same r")
    case True
    then show ?thesis using find_upd_same[of ?same "\<lambda>r. ?row" v ?row] w(2) by simp
  next
    case False
    then have "find ?same v = None" by (auto simp: find_None_iff)
    then show ?thesis using w(2) False by (simp add: find_append)
  qed
  have n: "nonempty_opt (Some (enc key x)) = Some (enc key x)" "nonempty_opt None = None" for x
    using assms(2)[of x] by (auto simp: nonempty_opt_def split: list.splits)
  have 1: "get_connected_account dec key (ac_tenant a) (ac_provider a) w =
      Inr (Some (a\<lparr>ac_refresh := nonempty_opt (ac_refresh a)\<rparr>))"
    using f w(1) assms(1) n by (cases "nonempty_opt (ac_refresh a)") (simp_all add: get_connected_account_def)
  have 2: "find (\<lambda>r. ac_tenant r = t \<and> ac_provider r = p) w = find (\<lambda>r. ac_tenant r = t \<and> ac_provider r = p) v"
    if "(t, p) \<noteq> (ac_tenant a, ac_provider a)"
  proof (cases "\<exists>r \<in> set v. ?same r")
    case True
    have "find (\<lambda>r. ac_tenant r = t \<and> ac_provider r = p) (upd_where ?same (\<lambda>r. ?row) xs) =
        find (\<lambda>r. ac_tenant r = t \<and> ac_provider r = p) xs" for xs
      by (induction xs) (use that in \<open>auto simp: upd_where_def\<close>)
    then show ?thesis using True w(2) by simp
  next
    case False
    then show ?thesis using that w(2) by (auto simp: find_append split: option.splits)
  qed
  have 3: "find ?same (del_where ?same w) = None" by (auto simp: find_None_iff set_del_where)
  show ?thesis using 1 2 3 w(1) by (simp add: get_connected_account_def disconnect_account_def Let_def)
qed

lemma vault_roundtrip_witness:
  "\<exists>w. save_connected_account (\<lambda>k x. k @ x) ''k'' \<lparr>ac_tenant = ''t'', ac_provider = ''jira'', ac_access = ''a'',
       ac_refresh = Some ''r'', ac_expires = None, ac_scopes = []\<rparr> [] = Inr w \<and>
     get_connected_account (\<lambda>k x. Some (drop (length k) x)) ''k'' ''t'' ''jira'' w = Inr (Some
       \<lparr>ac_tenant = ''t'', ac_provider = ''jira'', ac_access = ''a'', ac_refresh = Some ''r'', ac_expires = None, ac_scopes = []\<rparr>)"
proof -
  let ?a = "\<lparr>ac_tenant = ''t'', ac_provider = ''jira'', ac_access = ''a'', ac_refresh = Some ''r'',
      ac_expires = None, ac_scopes = []\<rparr>"
  have "is_ok (save_connected_account (\<lambda>k x. k @ x) ''k'' ?a [])" by code_simp
  then obtain w where w: "save_connected_account (\<lambda>k x. k @ x) ''k'' ?a [] = Inr w" by (auto simp: is_ok_iff)
  have "get_connected_account (\<lambda>k x. Some (drop (length k) x)) ''k'' (ac_tenant ?a) (ac_provider ?a) w =
      Inr (Some (?a\<lparr>ac_refresh := nonempty_opt (ac_refresh ?a)\<rparr>))"
    by (rule conjunct1[OF vault_roundtrip[OF _ _ w]]) simp_all
  then show ?thesis using w by (simp add: nonempty_opt_def)
qed

end
