(* ===== verification/Pc_Actions.thy ===== *)
theory Pc_Actions
  imports Tools
begin

text \<open>
  Actions on the user's PC: the argument policy the companion enforces
  (\<open>local_agent/action_policy.py\<close>) and the server's tool that sends them
  (\<open>services/agent/tools/local_pc_tool.py\<close>). Whether a path is absolute on the companion's
  platform and how a float prints are arguments.
\<close>

section \<open>The companion's argument policy\<close>

definition MAX_TEXT_CHARS :: nat where "MAX_TEXT_CHARS = 65536"

definition REQUIRED :: "(string \<times> string list) list" where
  "REQUIRED = [(''open_app'', []), (''list_windows'', []), (''focus_window'', [''title'']),
     (''close_window'', [''title'']), (''read_file'', [''path'']), (''write_file'', [''path'', ''content'']),
     (''list_directory'', [''path'']), (''run_command'', [''command'']), (''move_mouse'', [''x'', ''y'']),
     (''move_mouse_to_corner'', [''corner'']), (''click'', []), (''type_text'', [''text'']), (''press_key'', [''key''])]"

definition OPTIONAL :: "(string \<times> string list) list" where
  "OPTIONAL = [(''open_app'', [''app'', ''app_name'', ''name'', ''application'', ''target'', ''url'', ''program'', ''search_query'']),
     (''run_command'', [''cwd'', ''timeout_seconds'']), (''click'', [''button'']), (''move_mouse_to_corner'', [])]"

definition CORNERS :: "string list" where
  "CORNERS = [''top_left'', ''top_right'', ''bottom_left'', ''bottom_right'']"

text \<open>The check of one argument. \<open>math.isfinite\<close> of an integer beyond the doubles raises.\<close>

definition check_arg :: "string \<Rightarrow> pyval \<Rightarrow> unit res" where
  "check_arg k v =
     (if k \<in> {''x'', ''y''} then
        (case v of PInt i \<Rightarrow> guardR (-100000 \<le> i \<and> i \<le> 100000) ValueError | _ \<Rightarrow> Inl ValueError)
      else if k = ''timeout_seconds'' then
        (if (case v of PInt i \<Rightarrow> True | PFloat f \<Rightarrow> True | _ \<Rightarrow> False)
         then bindR (is_finite_num v) (\<lambda>fin. guardR (fin \<and> 0 < num_of v \<and> num_of v \<le> 120) ValueError)
         else Inl ValueError)
      else (case v of
          PStr s \<Rightarrow> guardR (length s \<le> MAX_TEXT_CHARS \<and> (strip s \<noteq> [] \<or> k \<in> {''content'', ''text''})) ValueError
        | _ \<Rightarrow> Inl ValueError))"

fun check_args :: "dict \<Rightarrow> unit res" where
  "check_args [] = Inr ()"
| "check_args ((k, v) # d) = bindR (check_arg k v) (\<lambda>_. check_args d)"

definition validate_action :: "(string \<Rightarrow> bool) \<Rightarrow> string \<Rightarrow> dict \<Rightarrow> unit res" where
  "validate_action absolute act d =
     (case map_of REQUIRED act of None \<Rightarrow> Inl ValueError
      | Some req \<Rightarrow>
        bindR (guardR (list_all (\<lambda>k. k \<in> set (req @ (case map_of OPTIONAL act of None \<Rightarrow> [] | Some o1 \<Rightarrow> o1))) (keys d) \<and>
            list_all (\<lambda>k. k \<in> set (keys d)) req) ValueError) (\<lambda>_.
        bindR (check_args d) (\<lambda>_.
        bindR (guardR (act = ''open_app'' \<longrightarrow> list_ex (\<lambda>p. truthy (snd p)) d) ValueError) (\<lambda>_.
        bindR (guardR (act = ''run_command'' \<longrightarrow> length (arg d ''command'') \<le> 8192 \<and> CHR 0x00 \<notin> set (arg d ''command'')) ValueError) (\<lambda>_.
        bindR (guardR (list_all (\<lambda>k. case map_of d k of Some (PStr p) \<Rightarrow> absolute p | _ \<Rightarrow> True) [''path'', ''cwd'']) ValueError) (\<lambda>_.
        bindR (guardR (act = ''click'' \<longrightarrow> dget_or d ''button'' (PStr ''left'') \<in> PStr ` {''left'', ''right'', ''middle''}) ValueError) (\<lambda>_.
        guardR (act = ''move_mouse_to_corner'' \<longrightarrow> dget d ''corner'' \<in> PStr ` set CORNERS) ValueError)))))))"

section \<open>Numbers written as text\<close>

text \<open>\<open>int(s)\<close>: surrounding whitespace, a sign, digits with single underscores between them, at most
  4300 digits.\<close>

fun digits_ok :: "bool \<Rightarrow> string \<Rightarrow> bool" where
  "digits_ok prev [] = prev"
| "digits_ok prev (c # s) =
     (if is_ascii_digit c then digits_ok True s else if c = CHR ''_'' \<and> prev then digits_ok False s else False)"

definition digits_val :: "string \<Rightarrow> nat" where
  "digits_val s = fold (\<lambda>c n. 10 * n + (code c - 48)) (filter is_ascii_digit s) 0"

definition split_sign :: "string \<Rightarrow> bool \<times> string" where
  "split_sign s = (case s of [] \<Rightarrow> (False, [])
     | c # r \<Rightarrow> if c = CHR ''-'' then (True, r) else if c = CHR ''+'' then (False, r) else (False, s))"

definition py_int :: "string \<Rightarrow> int res" where
  "py_int s = (case split_sign (strip s) of (neg, r) \<Rightarrow>
     if digits_ok False r \<and> length (filter is_ascii_digit r) \<le> 4300
     then Inr (if neg then - int (digits_val r) else int (digits_val r)) else Inl ValueError)"

text \<open>\<open>float(s)\<close>: also a fraction, an exponent, infinities and NaN; values round to the doubles at
  the ends of their range.\<close>

definition to_double :: "rat \<Rightarrow> pyfloat" where
  "to_double r = (if r \<ge> 2 ^ 1024 - 2 ^ 970 then PosInf else if r \<le> - (2 ^ 1024 - 2 ^ 970) then NegInf
     else if \<bar>r\<bar> * 2 ^ 1075 \<le> 1 then Fin 0 else Fin r)"

definition mantissa :: "string \<Rightarrow> rat option" where
  "mantissa m = (case split_on CHR ''.'' m of
       [a] \<Rightarrow> if digits_ok False a then Some (of_nat (digits_val a)) else None
     | [a, b] \<Rightarrow> if (a = [] \<or> digits_ok False a) \<and> (b = [] \<or> digits_ok False b) \<and> a @ b \<noteq> []
         then Some (of_nat (digits_val (a @ b)) / 10 ^ length (filter is_ascii_digit b)) else None
     | _ \<Rightarrow> None)"

definition scale10 :: "rat \<Rightarrow> int \<Rightarrow> rat" where
  "scale10 m e = (if e \<ge> 0 then m * 10 ^ nat e else m / 10 ^ nat (- e))"

definition py_float_str :: "string \<Rightarrow> pyfloat res" where
  "py_float_str s = (case split_sign (strip s) of (neg, r0) \<Rightarrow>
     let r = lower r0;
         m = takeWhile (\<lambda>c. c \<noteq> CHR ''e'') r;
         ex = dropWhile (\<lambda>c. c \<noteq> CHR ''e'') r
     in if r \<in> {''inf'', ''infinity''} then Inr (if neg then NegInf else PosInf)
        else if r = ''nan'' then Inr NaN
        else (case mantissa m of None \<Rightarrow> Inl ValueError
          | Some q \<Rightarrow>
             (case ex of [] \<Rightarrow> Inr (to_double (if neg then - q else q))
              | c # t \<Rightarrow> (case split_sign t of (en, ds) \<Rightarrow>
                  if digits_ok False ds
                  then Inr (to_double (scale10 (if neg then - q else q) (if en then - int (digits_val ds) else int (digits_val ds))))
                  else Inl ValueError))))"

definition py_float :: "pyval \<Rightarrow> pyfloat res" where
  "py_float v = (case v of
       PStr s \<Rightarrow> py_float_str s
     | PInt i \<Rightarrow> if fits_double i then Inr (to_double (of_int i)) else Inl OverflowError
     | PFloat f \<Rightarrow> Inr f
     | _ \<Rightarrow> Inl TypeError)"

section \<open>The server's tool\<close>

definition ACTION_CAPABILITY :: "(string \<times> string) list" where
  "ACTION_CAPABILITY = [(''open_app'', ''open_apps''), (''list_windows'', ''open_apps''), (''focus_window'', ''open_apps''),
     (''close_window'', ''open_apps''), (''read_file'', ''file_rw''), (''write_file'', ''file_rw''),
     (''list_directory'', ''file_rw''), (''run_command'', ''shell_exec''), (''move_mouse'', ''mouse_keyboard_control''),
     (''move_mouse_to_corner'', ''mouse_keyboard_control''), (''click'', ''mouse_keyboard_control''),
     (''type_text'', ''mouse_keyboard_control''), (''press_key'', ''mouse_keyboard_control'')]"

text \<open>Numeric arguments, as \<open>execute\<close> normalises them; \<open>ValueError\<close> and \<open>TypeError\<close> become
  \<open>ToolError\<close>, anything else propagates.\<close>

definition coordinate :: "string \<Rightarrow> dict \<Rightarrow> dict res" where
  "coordinate k d = (case dget d k of
       PInt i \<Rightarrow> Inr d
     | PStr s \<Rightarrow> bindR (py_int s) (\<lambda>i. Inr (dset k (PInt i) d))
     | _ \<Rightarrow> Inl ValueError)"

definition timeout_arg :: "dict \<Rightarrow> dict res" where
  "timeout_arg d = (case map_of d ''timeout_seconds'' of None \<Rightarrow> Inr d
     | Some v \<Rightarrow> if (case v of PStr s \<Rightarrow> True | PInt i \<Rightarrow> True | PFloat f \<Rightarrow> True | _ \<Rightarrow> False)
         then bindR (py_float v) (\<lambda>f. case f of
             Fin t \<Rightarrow> if 0 < t \<and> t \<le> 120 then Inr (dset ''timeout_seconds'' (PFloat f) d) else Inl ValueError
           | _ \<Rightarrow> Inl ValueError)
         else Inl ValueError)"

definition normalize_params :: "string \<Rightarrow> dict \<Rightarrow> dict res" where
  "normalize_params act d =
     (case (if act = ''move_mouse'' then bindR (coordinate ''x'' d) (coordinate ''y'')
            else if act = ''run_command'' then timeout_arg d else Inr d) of
        Inl e \<Rightarrow> Inl (if e = ValueError \<or> e = TypeError then ToolError ''Invalid numeric PC action arguments.'' else e)
      | Inr d' \<Rightarrow> Inr d')"

text \<open>\<open>str(v)\<close> for the values that reach a summary; containers print like their \<open>repr\<close>.\<close>

definition join_comma :: "string list \<Rightarrow> string" where
  "join_comma xs = join_with '', '' xs"

fun pv_repr :: "(pyfloat \<Rightarrow> string) \<Rightarrow> pyval \<Rightarrow> string" where
  "pv_repr fl PNone = ''None''"
| "pv_repr fl (PBool b) = (if b then ''True'' else ''False'')"
| "pv_repr fl (PInt i) = int_digits i"
| "pv_repr fl (PFloat f) = fl f"
| "pv_repr fl (PStr s) = py_repr s"
| "pv_repr fl (PList xs) = ''['' @ join_comma (map (pv_repr fl) xs) @ '']''"
| "pv_repr fl (PDict d) = ''{'' @ join_comma (map (\<lambda>(k, v). py_repr k @ '': '' @ pv_repr fl v) d) @ ''}''"

definition pv_str :: "(pyfloat \<Rightarrow> string) \<Rightarrow> pyval \<Rightarrow> string" where
  "pv_str fl v = (case v of PStr s \<Rightarrow> s | _ \<Rightarrow> pv_repr fl v)"

text \<open>\<open>len(v)\<close> raises for values without a length.\<close>

definition py_len :: "pyval \<Rightarrow> nat res" where
  "py_len v = (case v of PStr s \<Rightarrow> Inr (length s) | PList xs \<Rightarrow> Inr (length xs) | PDict d \<Rightarrow> Inr (length d)
     | _ \<Rightarrow> Inl TypeError)"

definition is_int :: "pyval \<Rightarrow> bool" where
  "is_int v = (case v of PInt i \<Rightarrow> True | _ \<Rightarrow> False)"

definition shell_label :: "string \<Rightarrow> string" where
  "shell_label o1 = (case map_of [(''timed_out'', ''timed out''), (''cancelled'', ''was cancelled''),
      (''output_limit'', ''reached its output limit''), (''startup_failed'', ''could not start''),
      (''runtime_error'', ''encountered an execution error'')] o1 of None \<Rightarrow> ''status is unknown'' | Some l \<Rightarrow> l)"

definition summarize :: "(pyfloat \<Rightarrow> string) \<Rightarrow> string \<Rightarrow> dict \<Rightarrow> dict \<Rightarrow> string res" where
  "summarize fl act params details =
     (if act = ''open_app'' then
        Inr (if dget details ''method'' = PStr ''web_search''
             then ''Opened search result: '' @ pv_str fl (dget_or details ''title'' (PStr ''website'')) @ '' ('' @
                  pv_str fl (dget_or details ''launched'' (PStr ''URL unavailable'')) @ '')''
             else ''Opened '' @ pv_str fl (dget_or params ''app_name'' (PStr ''the application'')))
      else if act = ''run_command'' then
        (let outcome = arg details ''outcome'' in
         Inr ((if outcome = ''exited'' \<and> is_int (dget details ''returncode'')
               then ''Shell exited with code '' @ pv_str fl (dget details ''returncode'') @ ''; requested effects are unverified.''
               else ''Shell '' @ shell_label outcome @ ''; effects may be partial. Inspect the device before retrying.'') @
              (if dget details ''cleanup_confirmed'' \<noteq> PBool True then '' Child-process cleanup is unconfirmed.'' else []) @
              (if dget details ''audit_recorded'' \<noteq> PBool True then '' Terminal audit is missing.'' else [])))
      else if act = ''read_file'' then Inr (''Read '' @ pv_str fl (dget_or params ''path'' (PStr ''the file'')))
      else if act = ''write_file'' then Inr (''Wrote to '' @ pv_str fl (dget_or params ''path'' (PStr ''the file'')))
      else if act = ''list_directory'' then
        bindR (py_len (dget_or details ''entries'' (PList []))) (\<lambda>n.
          Inr (''Listed '' @ pv_str fl (dget_or params ''path'' (PStr ''the directory'')) @ '' ('' @ nat_digits n @ '' entries)''))
      else if act = ''list_windows'' then
        bindR (py_len (dget_or details ''windows'' (PList []))) (\<lambda>n. Inr (''Found '' @ nat_digits n @ '' open window(s)''))
      else Inr (''Completed '' @ act))"

definition shell_success :: "dict \<Rightarrow> bool" where
  "shell_success details = (dget details ''outcome'' = PStr ''exited'' \<and> dget details ''returncode'' = PInt 0 \<and>
     dget details ''cleanup_confirmed'' = PBool True \<and> dget details ''audit_recorded'' = PBool True)"

text \<open>\<open>send\<close> is the bridge: tenant, capability, action and arguments to the details or an error.\<close>

definition local_pc_execute ::
  "(pyfloat \<Rightarrow> string) \<Rightarrow> (string \<Rightarrow> string \<Rightarrow> string \<Rightarrow> dict \<Rightarrow> 's \<Rightarrow> 's \<times> dict res) \<Rightarrow> string \<Rightarrow> string \<Rightarrow> dict \<Rightarrow> 's \<Rightarrow> 's \<times> tool_result res" where
  "local_pc_execute fl send tenant act params0 s =
     (case map_of ACTION_CAPABILITY act of None \<Rightarrow> (s, Inl (ToolError (unknown_action ''local PC'' act local_pc_actions)))
      | Some cap \<Rightarrow>
         (case normalize_params act params0 of Inl e \<Rightarrow> (s, Inl e)
          | Inr params \<Rightarrow>
             (case send tenant cap act params s of
                (s', Inl (PCAgentError m)) \<Rightarrow> (s', Inl (ToolError m))
              | (s', Inl e) \<Rightarrow> (s', Inl e)
              | (s', Inr details) \<Rightarrow> (s', bindR (summarize fl act params details) (\<lambda>summary.
                  Inr (mk_result (act = ''run_command'' \<longrightarrow> shell_success details)
                    (summary @ (if dget details ''truncated'' = PBool True then '' [partial result: output limit reached]'' else []))
                    details))))))"

section \<open>Where the two sides meet\<close>

lemma required_scope_pc: "required_scope ''local_pc'' act = (if act \<in> set local_pc_actions then Some ''pc:execute'' else None)"
  by (simp add: required_scope_def TOOL_SCOPES_def map_of_map_restrict restrict_map_def map_of_eq_None_iff)

lemma pc_names: "map fst ACTION_CAPABILITY = local_pc_actions" "map fst REQUIRED = local_pc_actions"
  by (simp_all add: ACTION_CAPABILITY_def REQUIRED_def local_pc_actions_def)

lemma known_iff: "map_of xs k \<noteq> None \<longleftrightarrow> k \<in> set (map fst xs)"
  by (simp add: map_of_eq_None_iff)

lemma coordinate_Inr: "coordinate k d = Inr e \<Longrightarrow> is_int (dget e k) \<and> (\<forall>k'. k' \<noteq> k \<longrightarrow> map_of e k' = map_of d k')"
  by (auto simp: coordinate_def is_int_def split: pyval.splits)

lemma timeout_Inr: "timeout_arg d = Inr e \<Longrightarrow>
    (\<forall>k'. k' \<noteq> ''timeout_seconds'' \<longrightarrow> map_of e k' = map_of d k') \<and>
    (map_of e ''timeout_seconds'' = None \<or> check_arg ''timeout_seconds'' (dget e ''timeout_seconds'') = Inr ())"
  by (auto simp: timeout_arg_def check_arg_def dget_def intro!: exI[of _ True] split: option.splits if_splits pyval.splits pyfloat.splits)

text \<open>The tables of the tool agree with each other and with the companion: an action is authorized by
  scope exactly when some tool can perform it (a cloud contract exists, or the PC tool maps it to a
  capability, exactly when the companion's policy knows it). What the PC tool sends differs from
  what it was given only in numeric fields, mouse coordinates are integers, and a timeout passes the
  companion's own check.\<close>

lemma pc_tables_agree:
  "(required_scope tool act \<noteq> None) = (contract stamp tool act \<noteq> None \<or> tool = ''local_pc'' \<and> map_of ACTION_CAPABILITY act \<noteq> None) \<and>
   (map_of ACTION_CAPABILITY act \<noteq> None) = (map_of REQUIRED act \<noteq> None) \<and>
   (case normalize_params act d of Inl e \<Rightarrow> True | Inr e \<Rightarrow>
     (\<forall>k. k \<in> {''x'', ''y'', ''timeout_seconds''} \<or> map_of e k = map_of d k) \<and>
     (act \<noteq> ''move_mouse'' \<or> is_int (dget e ''x'') \<and> is_int (dget e ''y'')) \<and>
     (act \<noteq> ''run_command'' \<or> map_of e ''timeout_seconds'' = None \<or>
        check_arg ''timeout_seconds'' (dget e ''timeout_seconds'') = Inr ()))"
proof -
  have 1: "(required_scope tool act \<noteq> None) = (contract stamp tool act \<noteq> None \<or> tool = ''local_pc'' \<and> map_of ACTION_CAPABILITY act \<noteq> None)"
  proof (cases "tool = ''local_pc''")
    case True
    moreover have "contract stamp ''local_pc'' act = None" using contract_actions[of stamp "''local_pc''" act] by auto
    ultimately show ?thesis using known_iff[of ACTION_CAPABILITY act] by (simp add: required_scope_pc pc_names)
  next
    case False
    have "required_scope tool act \<noteq> None \<longleftrightarrow>
        tool = ''jira'' \<and> act \<in> set JIRA_ACTIONS \<or> tool = ''drive'' \<and> act \<in> set DRIVE_ACTIONS \<or>
        tool = ''calendar'' \<and> act \<in> set CALENDAR_ACTIONS"
      using False by (auto simp: required_scope_def TOOL_SCOPES_def JIRA_ACTIONS_def DRIVE_ACTIONS_def
          CALENDAR_ACTIONS_def split: if_splits)
    then show ?thesis using False contract_actions[of stamp tool act] by simp
  qed
  have 2: "(map_of ACTION_CAPABILITY act \<noteq> None) = (map_of REQUIRED act \<noteq> None)"
    unfolding known_iff pc_names ..
  have 3: "(\<forall>k. k \<in> {''x'', ''y'', ''timeout_seconds''} \<or> map_of e k = map_of d k) \<and>
     (act \<noteq> ''move_mouse'' \<or> is_int (dget e ''x'') \<and> is_int (dget e ''y'')) \<and>
     (act \<noteq> ''run_command'' \<or> map_of e ''timeout_seconds'' = None \<or>
        check_arg ''timeout_seconds'' (dget e ''timeout_seconds'') = Inr ())"
    if n: "normalize_params act d = Inr e" for e
  proof (cases "act = ''move_mouse''")
    case True
    then obtain m where m: "coordinate ''x'' d = Inr m" "coordinate ''y'' m = Inr e"
      using n by (auto simp: normalize_params_def split: sum.splits)
    have "dget e ''x'' = dget m ''x''" using coordinate_Inr[OF m(2)] by (simp add: dget_def)
    then show ?thesis using True coordinate_Inr[OF m(1)] coordinate_Inr[OF m(2)] by auto
  next
    case False
    then show ?thesis using n timeout_Inr[of d e]
      by (cases "act = ''run_command''") (auto simp: normalize_params_def split: sum.splits)
  qed
  show ?thesis using 1 2 3 by (cases "normalize_params act d") auto
qed

lemma pc_tables_agree_witness:
  "case normalize_params ''move_mouse'' [(''x'', PInt 3), (''y'', PInt 4)] of Inl e \<Rightarrow> False
   | Inr e \<Rightarrow> is_int (dget e ''x'') \<and> is_int (dget e ''y'')"
proof -
  have n: "normalize_params ''move_mouse'' [(''x'', PInt 3), (''y'', PInt 4)] = Inr [(''x'', PInt 3), (''y'', PInt 4)]"
    by (simp add: normalize_params_def coordinate_def dget_def)
  show ?thesis
    using pc_tables_agree[of "''local_pc''" "''move_mouse''" "\<lambda>s. None" "[(''x'', PInt 3), (''y'', PInt 4)]"] unfolding n by simp
qed

text \<open>Two inputs on which the tool raises something other than \<open>ToolError\<close>: an integer timeout beyond
  the doubles, and a companion that reports a number as its directory entries.\<close>

lemma timeout_overflow:
  assumes "\<not> fits_double i"
  shows "local_pc_execute fl send t ''run_command'' [(''command'', PStr ''dir''), (''timeout_seconds'', PInt i)] s =
     (s, Inl OverflowError)"
  using assms by (simp add: local_pc_execute_def ACTION_CAPABILITY_def normalize_params_def timeout_arg_def py_float_def)

lemma entries_type_error:
  "local_pc_execute fl (\<lambda>t c a p s. (s, Inr [(''entries'', PInt 5)])) t ''list_directory'' [(''path'', PStr ''C:'')] s =
     (s, Inl TypeError)"
  by (simp add: local_pc_execute_def ACTION_CAPABILITY_def normalize_params_def summarize_def dget_or_def py_len_def)

text \<open>The companion's policy raises \<open>OverflowError\<close> on the same integer.\<close>

lemma policy_overflow:
  assumes "\<not> fits_double i"
  shows "validate_action absolute ''run_command'' [(''command'', PStr ''dir''), (''timeout_seconds'', PInt i)] = Inl OverflowError"
proof -
  have "strip ''dir'' \<noteq> []" by code_simp
  with assms show ?thesis
    by (simp add: validate_action_def REQUIRED_def OPTIONAL_def keys_def check_arg_def guardR_def MAX_TEXT_CHARS_def)
qed

lemma too_big_for_double: "\<not> fits_double (10 ^ 400)"
  by (simp add: fits_double_def)

end
