(* ===== verification/Intent.thy ===== *)
theory Intent
  imports Pc_Actions
begin

text \<open>
  How a message becomes an intent: reading the classifier's answer
  (\<open>services/agent/classifier.py\<close>) and the fallbacks for clear requests about the user's PC
  (\<open>services/agent/local_pc_intent.py\<close>). The model's answer and \<open>json.loads\<close> are arguments.
  Case folding is that of Latin-1, where only the sharp s changes length; the micro sign, which
  folds to a letter outside of Latin-1, is left as it is.
\<close>

section \<open>Intents\<close>

text \<open>The fields that come from the model's JSON may hold any value.\<close>

record intent =
  i_kind :: string
  i_tool :: pyval
  i_action :: pyval
  i_params :: pyval
  i_reason :: string

definition plain_intent :: "string \<Rightarrow> string \<Rightarrow> intent" where
  "plain_intent kind why = \<lparr>i_kind = kind, i_tool = PNone, i_action = PNone, i_params = PDict [], i_reason = why\<rparr>"

definition tool_intent :: "string \<Rightarrow> string \<Rightarrow> dict \<Rightarrow> string \<Rightarrow> intent" where
  "tool_intent tool act d why = \<lparr>i_kind = ''tool'', i_tool = PStr tool, i_action = PStr act, i_params = PDict d, i_reason = why\<rparr>"

section \<open>Reading the classifier's answer\<close>

definition starts_ci :: "string \<Rightarrow> string \<Rightarrow> bool" where
  "starts_ci p s = starts_with (lower s) p"

text \<open>What follows the first occurrence of a tag.\<close>

fun after_tag :: "string \<Rightarrow> string \<Rightarrow> string option" where
  "after_tag p [] = None"
| "after_tag p (c # s) = (if starts_ci p (c # s) then Some (drop (length p) (c # s)) else after_tag p s)"

lemma after_tag_length: "after_tag p s = Some r \<Longrightarrow> length r \<le> length s"
  by (induction s) (auto split: if_splits)

text \<open>\<open>_THINK_BLOCK_RE.sub("", raw)\<close>\<close>

function remove_think :: "string \<Rightarrow> string" where
  "remove_think [] = []"
| "remove_think (c # s) =
     (if starts_ci ''<think>'' (c # s) then
        (case after_tag ''</think>'' (drop 7 (c # s)) of None \<Rightarrow> c # remove_think s | Some r \<Rightarrow> remove_think r)
      else c # remove_think s)"
  by pat_completeness auto
termination
  by (relation "measure length") (auto dest!: after_tag_length)

text \<open>The last piece of \<open>re.split("</think>")\<close>\<close>

function after_last :: "string \<Rightarrow> string \<Rightarrow> string" where
  "after_last p s = (if p = [] then s else (case after_tag p s of None \<Rightarrow> s | Some r \<Rightarrow> after_last p r))"
  by pat_completeness auto
termination
proof (relation "measure (length \<circ> snd)")
  fix p s r :: string
  assume "p \<noteq> []" "after_tag p s = Some r"
  then show "((p, r), (p, s)) \<in> measure (length \<circ> snd)"
    by (induction s) (auto split: if_splits dest: after_tag_length simp: Suc_le_eq)
qed simp

declare after_last.simps [simp del]

text \<open>\<open>_THINK_TAG_RE.sub("", cleaned)\<close>\<close>

fun remove_tags :: "nat \<Rightarrow> string \<Rightarrow> string" where
  "remove_tags k [] = []"
| "remove_tags k (c # s) =
     (if k > 0 then remove_tags (k - 1) s
      else if starts_ci ''<think>'' (c # s) then remove_tags 6 s
      else if starts_ci ''</think>'' (c # s) then remove_tags 7 s
      else c # remove_tags 0 s)"

definition clean_answer :: "string \<Rightarrow> string" where
  "clean_answer raw =
     (let c1 = remove_think raw;
          c2 = (if occurs_in ''</think>'' (lower c1) then after_last ''</think>'' c1 else c1);
          c3 = strip (remove_tags 0 c2)
      in if starts_with c3 ''```''
         then (let c4 = strip_chars (\<lambda>c. c = CHR 0x60) c3;
                   c5 = (if starts_with (lower c4) ''json'' then drop 4 c4 else c4)
               in strip c5)
         else c3)"

definition parse_fallback :: intent where
  "parse_fallback = plain_intent ''rag'' ''fallback: classifier output could not be parsed''"

definition KINDS :: "string list" where
  "KINDS = [''rag'', ''tool'', ''conversational'']"

definition parse_intent :: "(string \<Rightarrow> json_result) \<Rightarrow> string \<Rightarrow> intent res" where
  "parse_intent loads raw = (case loads (clean_answer raw) of
       JDecodeError \<Rightarrow> Inr parse_fallback
     | JRaises e \<Rightarrow> if e = ValueError \<or> e = AttributeError then Inr parse_fallback else Inl e
     | JValue (PDict d) \<Rightarrow>
         (case dget d ''kind'' of PStr k \<Rightarrow>
            if k \<in> set KINDS
            then Inr \<lparr>i_kind = k, i_tool = dget d ''tool_name'', i_action = dget d ''action'',
                   i_params = (if truthy (dget d ''params'') then dget d ''params'' else PDict []), i_reason = []\<rparr>
            else Inr parse_fallback
          | _ \<Rightarrow> Inr parse_fallback)
     | JValue _ \<Rightarrow> Inr parse_fallback)"

section \<open>Requests about the user's PC\<close>

definition casefold :: "string \<Rightarrow> string" where
  "casefold s = concat (map (\<lambda>c. if code c = 223 then ''ss'' else [lower_char c]) s)"

definition OPEN_REQUEST_FILLER :: "string list" where
  "OPEN_REQUEST_FILLER = [''about'', ''at'', ''browser'', ''can'', ''command'', ''for'', ''go'', ''in'', ''launch'', ''me'',
     ''open'', ''on'', ''page'', ''please'', ''pls'', ''run'', ''search'', ''shell'', ''show'', ''site'', ''start'', ''the'', ''to'',
     ''using'', ''visit'', ''website'', ''with'', ''you'']"

definition SPECIFIC_WEB_TARGETS :: "string list" where
  "SPECIFIC_WEB_TARGETS = [''channel'', ''clip'', ''episode'', ''movie'', ''playlist'', ''song'', ''video'']"

definition WEB_PLATFORMS :: "string list" where
  "WEB_PLATFORMS = [''youtube'', ''tiktok'', ''twitch'', ''vimeo'', ''instagram'', ''facebook'', ''reddit'', ''google'']"

text \<open>\<open>re.findall(r"[\w@-]+", text)\<close>: the maximal runs of the class.\<close>

definition handle_char :: "char \<Rightarrow> bool" where
  "handle_char c = (word_char c \<or> c = CHR ''@'' \<or> c = CHR ''-'')"

function handle_runs :: "string \<Rightarrow> string list" where
  "handle_runs s = (case dropWhile (\<lambda>c. \<not> handle_char c) s of [] \<Rightarrow> []
     | c # r \<Rightarrow> (c # takeWhile handle_char r) # handle_runs (dropWhile handle_char r))"
  by pat_completeness auto
termination
proof (relation "measure length")
  fix s c r
  assume d: "dropWhile (\<lambda>c. \<not> handle_char c) s = c # r"
  have "length (dropWhile handle_char r) \<le> length r" by (rule length_dropWhile_le)
  moreover have "length (dropWhile (\<lambda>c. \<not> handle_char c) s) \<le> length s" by (rule length_dropWhile_le)
  ultimately show "(dropWhile handle_char r, s) \<in> measure length" using d by simp
qed simp

declare handle_runs.simps [simp del]

definition web_search_phrase :: "string \<Rightarrow> string \<Rightarrow> string option" where
  "web_search_phrase query target =
     (let ws = handle_runs (casefold query);
          ts = handle_runs (casefold target);
          remaining = filter (\<lambda>w. w \<notin> set ts \<and> w \<notin> set OPEN_REQUEST_FILLER) ws
      in if list_ex (\<lambda>w. w \<in> set remaining) SPECIFIC_WEB_TARGETS \<or> length remaining \<ge> 2
         then Some (strip query) else None)"

text \<open>The patterns of \<open>infer_local_pc_intent\<close>.\<close>

definition any_but_newline :: rx where
  "any_but_newline = RStar (RChar (\<lambda>c. code c \<noteq> 10))"

definition spaces :: rx where "spaces = RStar (RChar py_space)"

definition spaced :: "string \<Rightarrow> string \<Rightarrow> rx" where
  "spaced a b = rx_seq [rx_lit a, rx_plus (RChar py_space), rx_lit b]"

definition rx_files :: rx where
  "rx_files = rx_words [''file'', ''files'', ''folder'', ''folders'', ''directories'']"

definition rx_access :: rx where
  "rx_access = rx_words [''can'', ''could'', ''able'', ''access'', ''see'', ''read'']"

definition rx_my_pc :: rx where
  "rx_my_pc = rx_seq [RBound, rx_alt [spaced ''my'' ''pc'', spaced ''my'' ''computer'', spaced ''my'' ''machine'', spaced ''this'' ''pc''], RBound]"

definition rx_move_mouse :: rx where
  "rx_move_mouse = rx_seq [rx_words [''move'', ''put'', ''place''], any_but_newline, rx_words [''mouse'', ''cursor'']]"

definition rx_corner :: rx where
  "rx_corner = rx_seq [RBound, rx_alt [rx_lit ''corner'', rx_seq [rx_lit ''right'', spaces, rx_lit ''most''],
     rx_seq [rx_lit ''left'', spaces, rx_lit ''most'']], RBound]"

definition rx_open :: rx where
  "rx_open = rx_seq [RBound, rx_alt [rx_lit ''open'', rx_lit ''launch'', rx_lit ''visit'', spaced ''go'' ''to'',
     rx_lit ''play'', rx_lit ''watch'', rx_lit ''find'', rx_lit ''search''], RBound]"

definition rx_web_words :: rx where
  "rx_web_words = rx_words [''site'', ''website'', ''browser'', ''channel'', ''video'', ''clip'', ''playlist'']"

definition rx_web_address :: rx where
  "rx_web_address = rx_alt [rx_lit ''http://'', rx_lit ''https://'', rx_lit ''www.'',
     rx_seq [RBound, rx_plus (RChar (\<lambda>c. word_char c \<or> c = CHR ''-'')), rx_lit ''.'',
       rx_alt (map rx_lit [''com'', ''org'', ''net'', ''tv'', ''io'']), RBound]]"

definition corner_intent :: "string \<Rightarrow> intent" where
  "corner_intent normalized =
     tool_intent ''local_pc'' ''move_mouse_to_corner''
       [(''corner'', PStr ((if rx_search (rx_words [''bottom'', ''lower'']) normalized then ''bottom'' else ''top'') @ ''_'' @
          (if rx_search (rx_words [''left'']) normalized then ''left'' else ''right'')))]
       ''natural-language mouse corner request''"

definition infer_local_pc_intent :: "string \<Rightarrow> intent option" where
  "infer_local_pc_intent query =
     (let n = casefold query in
      if rx_search rx_files n \<and> rx_search rx_access n \<and> rx_search rx_my_pc n
      then Some (plain_intent ''conversational'' ''local PC access scope question'')
      else if rx_search rx_move_mouse n \<and> rx_search rx_corner n then Some (corner_intent n)
      else if \<not> rx_search rx_open n then None
      else if \<not> (rx_search rx_web_words n \<or> rx_search (rx_words WEB_PLATFORMS) n \<or> rx_search rx_web_address n) then None
      else (let target = (case find (\<lambda>w. occurs_in w n) WEB_PLATFORMS of Some w \<Rightarrow> w | None \<Rightarrow> strip query)
        in Some (tool_intent ''local_pc'' ''open_app''
             ((''app_name'', PStr target) # (case web_search_phrase query target of None \<Rightarrow> []
                | Some ph \<Rightarrow> if ph = [] then [] else [(''search_query'', PStr ph)]))
             ''natural-language website or media request'')))"

section \<open>What the fallbacks may ask for\<close>

lemma strip_ends: "strip s \<noteq> [] \<Longrightarrow> \<not> py_space (last (strip s))"
  by (simp add: strip_def rstrip_def last_rev hd_dropWhile)

lemma strip_strip_Nil: "strip s \<noteq> [] \<Longrightarrow> strip (strip s) \<noteq> []"
  using strip_ends[of s] by (auto simp: strip_eq_Nil[of "strip s"])

lemma validate_corner:
  "validate_action absolute ''move_mouse_to_corner'' [(''corner'', PStr ((if b then ''bottom'' else ''top'') @ ''_'' @
     (if l then ''left'' else ''right'')))] = Inr ()"
proof -
  have "strip (''top'' @ ''_'' @ ''left'') \<noteq> []" "strip (''top'' @ ''_'' @ ''right'') \<noteq> []"
    "strip (''bottom'' @ ''_'' @ ''left'') \<noteq> []" "strip (''bottom'' @ ''_'' @ ''right'') \<noteq> []" by code_simp+
  then show ?thesis
    by (cases b; cases l) (simp_all add: validate_action_def REQUIRED_def OPTIONAL_def keys_def check_arg_def
      guardR_def MAX_TEXT_CHARS_def CORNERS_def dget_or_def dget_def)
qed

definition usable_text :: "string \<Rightarrow> bool" where
  "usable_text s = (strip s \<noteq> [] \<and> length s \<le> MAX_TEXT_CHARS)"

lemma validate_open_app:
  assumes "usable_text t" "case q of None \<Rightarrow> True | Some ph \<Rightarrow> usable_text ph"
  shows "validate_action absolute ''open_app'' ((''app_name'', PStr t) # (case q of None \<Rightarrow> [] | Some ph \<Rightarrow>
     if ph = [] then [] else [(''search_query'', PStr ph)])) = Inr ()"
proof -
  have "t \<noteq> []" using assms(1) by (auto simp: usable_text_def)
  then show ?thesis using assms
    by (cases q) (auto simp: usable_text_def validate_action_def REQUIRED_def OPTIONAL_def keys_def check_arg_def guardR_def)
qed

lemma platform_usable: "find (\<lambda>w. occurs_in w n) WEB_PLATFORMS = Some w \<Longrightarrow> usable_text w"
proof -
  have "list_all (\<lambda>w. strip w \<noteq> []) WEB_PLATFORMS" by code_simp
  moreover have "list_all (\<lambda>w. length w \<le> MAX_TEXT_CHARS) WEB_PLATFORMS"
    by (simp add: WEB_PLATFORMS_def MAX_TEXT_CHARS_def)
  moreover assume "find (\<lambda>w. occurs_in w n) WEB_PLATFORMS = Some w"
  ultimately show ?thesis by (auto simp: usable_text_def list_all_iff dest!: find_SomeD)
qed

lemma phrase_usable: "usable_text (strip query) \<Longrightarrow>
    (case web_search_phrase query t of None \<Rightarrow> True | Some ph \<Rightarrow> usable_text ph)"
  by (simp add: web_search_phrase_def Let_def)

text \<open>What is inferred without the model is limited and well formed: a non-blank message of
  acceptable length is left to the model, or becomes a conversational turn without parameters, or asks
  the PC tool to move the mouse to a corner or to open an application, with arguments that the
  companion's own policy accepts.\<close>

lemma inferred_requests:
  assumes "infer_local_pc_intent query = Some i" "strip query \<noteq> []" "length query \<le> MAX_TEXT_CHARS"
  shows "i = plain_intent ''conversational'' (i_reason i) \<or>
    (\<exists>act d. i = tool_intent ''local_pc'' act d (i_reason i) \<and>
       act \<in> {''move_mouse_to_corner'', ''open_app''} \<and> validate_action absolute act d = Inr ())"
proof -
  let ?n = "casefold query"
  have u: "usable_text (strip query)"
    using assms(2,3) strip_strip_Nil strip_length[of query] by (auto simp: usable_text_def)
  define t where "t = (case find (\<lambda>w. occurs_in w ?n) WEB_PLATFORMS of Some w \<Rightarrow> w | None \<Rightarrow> strip query)"
  have t: "usable_text t" using platform_usable[of ?n] u by (auto simp: t_def split: option.splits)
  have o1: "validate_action absolute ''open_app'' ((''app_name'', PStr t) # (case web_search_phrase query t of None \<Rightarrow> []
      | Some ph \<Rightarrow> if ph = [] then [] else [(''search_query'', PStr ph)])) = Inr ()"
    by (rule validate_open_app[OF t phrase_usable[OF u]])
  consider (plain) "i = plain_intent ''conversational'' ''local PC access scope question''" | (corner) "i = corner_intent ?n"
    | (app) "i = tool_intent ''local_pc'' ''open_app'' ((''app_name'', PStr t) # (case web_search_phrase query t of None \<Rightarrow> []
      | Some ph \<Rightarrow> if ph = [] then [] else [(''search_query'', PStr ph)])) ''natural-language website or media request''"
    using assms(1) by (auto simp: infer_local_pc_intent_def Let_def t_def split: if_splits)
  then show ?thesis
  proof cases
    case plain
    then show ?thesis by (simp add: plain_intent_def)
  next
    case corner
    then show ?thesis using validate_corner unfolding corner_intent_def tool_intent_def by simp
  next
    case app
    then show ?thesis using o1 unfolding tool_intent_def by simp
  qed
qed

lemma inferred_requests_witness:
  "\<exists>i. infer_local_pc_intent ''open reddit'' = Some i \<and> i_action i = PStr ''open_app''"
proof -
  have i: "infer_local_pc_intent ''open reddit'' \<noteq> None \<and>
      i_kind (the (infer_local_pc_intent ''open reddit'')) = ''tool'' \<and>
      i_action (the (infer_local_pc_intent ''open reddit'')) = PStr ''open_app''" by code_simp
  then obtain i where i: "infer_local_pc_intent ''open reddit'' = Some i" "i_action i = PStr ''open_app''"
    by auto
  have "strip ''open reddit'' \<noteq> []" by code_simp
  from inferred_requests[OF i(1) this, of "\<lambda>p. True"] i show ?thesis by (simp add: MAX_TEXT_CHARS_def)
qed

text \<open>A request for the leftmost corner is sent to the right one: the pattern for the horizontal side
  wants the word \<open>left\<close> alone.\<close>

lemma leftmost_goes_right:
  "map_option i_params (infer_local_pc_intent ''move the mouse to the leftmost corner'') = Some (PDict [(''corner'', PStr ''top_right'')])"
  by code_simp

lemma parse_intent_kind: "parse_intent loads raw = Inr i \<Longrightarrow> i_kind i \<in> set KINDS"
  by (auto simp: parse_intent_def parse_fallback_def plain_intent_def KINDS_def split: json_result.splits if_splits pyval.splits)

lemma parse_intent_error: "parse_intent loads raw = Inl e \<Longrightarrow> loads (clean_answer raw) = JRaises e"
  by (auto simp: parse_intent_def split: json_result.splits if_splits pyval.splits)

end
