(* ===== verification/Agent_Graph.thy ===== *)
theory Agent_Graph
  imports Intent
begin

text \<open>
  One message through the agent (\<open>services/agent/graph.py\<close>): the classify node, the tool node and
  \<open>route_message\<close>, with the classifier that asks the model (\<open>classifier.py\<close>). The model, the JSON
  decoder and the execution of a tool are arguments; executing a tool changes a state of any type, so
  that every call it makes can be observed.
\<close>

section \<open>Asking the model\<close>

definition nl :: string where "nl = [CHR 0x0A]"

definition CLASSIFIER_SYSTEM_PROMPT :: "string \<Rightarrow> string" where
  "CLASSIFIER_SYSTEM_PROMPT tools_block =
     ''You route a user's message to the right handler. Respond with ONLY a '' @
     ''JSON object and nothing else -- no markdown fences, no commentary. Shape:'' @ nl @
     ''{\"kind\": \"rag\" | \"tool\" | \"conversational\", '' @
     ''\"tool_name\": string or null, \"action\": string or null, '' @
     ''\"params\": object}'' @ nl @ nl @
     ''- \"rag\": the user is asking a question likely answerable from the '' @
     ''indexed documents.'' @ nl @
     ''- \"tool\": the user wants an action performed by one of the tools '' @
     ''listed below. Set tool_name to the tool's name and action to one of '' @
     ''its listed actions, with whatever params that action needs.'' @ nl @
     ''- \"conversational\": greetings, small talk, or anything not covered '' @
     ''by the above -- when in doubt between this and \"rag\", prefer \"rag\".'' @ nl @ nl @
     ''Routing rules:'' @ nl @
     ''- If the user asks to do something on their own PC, choose local_pc when it is listed; '' @
     ''do not route that request to rag just because it is not in uploaded documents.'' @ nl @
     ''- For a named video/channel on a known site, use local_pc.open_app, keep the site in '' @
     ''app_name, and set search_query to the full user phrase. Example: 'open ishowspeed WC '' @
     ''final video on youtube' -> app_name='youtube', search_query=the full request.'' @ nl @
     ''- For mouse/cursor requests to a screen corner, use move_mouse_to_corner with a corner '' @
     ''from its description.'' @ nl @
     ''- Questions about what the PC companion can access are conversational questions, not '' @
     ''document retrieval.'' @ nl @
     ''- To open a website or browser, use local_pc.open_app rather than shell. Use '' @
     ''local_pc.run_command only when the user actually needs a Windows shell command.'' @ nl @ nl @
     ''Available tools:'' @ nl @ tools_block"

definition NO_THINK_SUFFIX :: string where "NO_THINK_SUFFIX = nl @ nl @ ''/no_think''"

definition CLASSIFIER_MAX_TOKENS :: nat where "CLASSIFIER_MAX_TOKENS = 1024"

text \<open>A chat message is its role and content.\<close>

type_synonym chat_message = "string \<times> string"

definition llm_classify ::
  "(chat_message list \<Rightarrow> nat \<Rightarrow> string res) \<Rightarrow> (string \<Rightarrow> json_result) \<Rightarrow> string \<Rightarrow> string \<Rightarrow> intent res" where
  "llm_classify ask loads query tools_block =
     bindR (ask [(''system'', CLASSIFIER_SYSTEM_PROMPT tools_block), (''user'', query @ NO_THINK_SUFFIX)] CLASSIFIER_MAX_TOKENS)
       (parse_intent loads)"

definition build_classifier :: "string \<Rightarrow> (string \<Rightarrow> string \<Rightarrow> intent res) \<Rightarrow> (string \<Rightarrow> string \<Rightarrow> intent res) res" where
  "build_classifier name llm = (if name = ''llm'' then Inr llm else Inl RuntimeError)"

section \<open>The classify node\<close>

definition NO_TOOLS :: string where "NO_TOOLS = ''(no tools are authorized for this credential)''"

definition command_intent :: "parsed_command \<Rightarrow> intent" where
  "command_intent c = tool_intent (pc_tool c) (pc_action c) (pc_params c) ''explicit slash command''"

definition tools_block_for :: "(principal \<Rightarrow> string res) \<Rightarrow> principal option \<Rightarrow> string res" where
  "tools_block_for describe p = (case p of None \<Rightarrow> Inr NO_TOOLS
     | Some q \<Rightarrow> if scopes q \<inter> {''tools:read'', ''tools:write'', ''pc:execute''} \<noteq> {} then describe q else Inr NO_TOOLS)"

definition classify_node ::
  "(principal \<Rightarrow> string res) \<Rightarrow> (string \<Rightarrow> string \<Rightarrow> intent res) \<Rightarrow> string \<Rightarrow> principal option \<Rightarrow> intent res" where
  "classify_node describe classify query p =
     (case parse_command query of
        Some c \<Rightarrow> Inr (command_intent c)
      | None \<Rightarrow> bindR (tools_block_for describe p) (\<lambda>tools_block.
          bindR (classify query tools_block) (\<lambda>i.
          Inr (case infer_local_pc_intent query of
                 None \<Rightarrow> i
               | Some l \<Rightarrow> if i_kind l = ''conversational'' \<or> occurs_in ''- local_pc:'' tools_block then l else i))))"

section \<open>The tool node\<close>

datatype node_out = NodeResult tool_result | NodeError string

text \<open>
  \<open>dict(params)\<close>. A list of pairs is accepted; a pair is a list or a string of length two, or a
  dictionary of two keys. Keys that are not strings are written the way JSON writes them.
\<close>

definition key_text :: "(pyfloat \<Rightarrow> string) \<Rightarrow> pyval \<Rightarrow> string res" where
  "key_text fl v = (case v of PStr s \<Rightarrow> Inr s | PInt i \<Rightarrow> Inr (int_digits i) | PNone \<Rightarrow> Inr ''null''
     | PBool b \<Rightarrow> Inr (if b then ''true'' else ''false'') | PFloat f \<Rightarrow> Inr (fl f) | _ \<Rightarrow> Inl TypeError)"

definition pair_of :: "(pyfloat \<Rightarrow> string) \<Rightarrow> pyval \<Rightarrow> (string \<times> pyval) res" where
  "pair_of fl v = (case v of
       PList [k, x] \<Rightarrow> bindR (key_text fl k) (\<lambda>s. Inr (s, x))
     | PStr [a, b] \<Rightarrow> Inr ([a], PStr [b])
     | PDict [(a, _), (b, _)] \<Rightarrow> Inr (a, PStr b)
     | PList _ \<Rightarrow> Inl ValueError | PStr _ \<Rightarrow> Inl ValueError | PDict _ \<Rightarrow> Inl ValueError
     | _ \<Rightarrow> Inl TypeError)"

fun pairs_of :: "(pyfloat \<Rightarrow> string) \<Rightarrow> pyval list \<Rightarrow> dict \<Rightarrow> dict res" where
  "pairs_of fl [] d = Inr d"
| "pairs_of fl (v # vs) d = bindR (pair_of fl v) (\<lambda>(k, x). pairs_of fl vs (dset k x d))"

definition dict_of :: "(pyfloat \<Rightarrow> string) \<Rightarrow> pyval \<Rightarrow> dict res" where
  "dict_of fl v = (case v of PDict d \<Rightarrow> Inr d | PList vs \<Rightarrow> pairs_of fl vs []
     | PStr s \<Rightarrow> if s = [] then Inr [] else Inl ValueError | _ \<Rightarrow> Inl TypeError)"

text \<open>An unhashable value cannot be looked up.\<close>

definition unhashable :: "pyval \<Rightarrow> bool" where
  "unhashable v = (case v of PList _ \<Rightarrow> True | PDict _ \<Rightarrow> True | _ \<Rightarrow> False)"

definition text_of :: "pyval \<Rightarrow> string option" where
  "text_of v = (case v of PStr s \<Rightarrow> Some s | _ \<Rightarrow> None)"

definition authorize_action :: "principal option \<Rightarrow> string \<Rightarrow> string \<Rightarrow> pyval \<Rightarrow> string res" where
  "authorize_action p tenant tool act =
     (if unhashable act then Inl TypeError
      else (case text_of act of None \<Rightarrow> Inl AuthorizationDenied
        | Some a \<Rightarrow> bindR (authorize_tool p tenant tool a) (\<lambda>_. Inr a)))"

text \<open>The text of the denial: from \<open>authorize_tool\<close> itself, or from \<open>Principal.require\<close>.\<close>

definition denial_text :: "principal option \<Rightarrow> string \<Rightarrow> string \<Rightarrow> pyval \<Rightarrow> string" where
  "denial_text p tenant tool act =
     (case (p, text_of act) of
        (Some q, Some a) \<Rightarrow> if tenant_id q \<noteq> tenant \<or> required_scope tool a = None then ''Tool operation is not authorized''
          else ''Credential is not permitted to perform this operation''
      | _ \<Rightarrow> ''Tool operation is not authorized'')"

definition bind_command :: "string \<Rightarrow> string \<Rightarrow> string \<Rightarrow> pyval \<Rightarrow> unit res" where
  "bind_command query tool act v =
     (case v of PDict d \<Rightarrow> validate_explicit_pc_command query tool act d
      | _ \<Rightarrow> if tool = ''local_pc'' \<and> parse_command query \<noteq> None
          then Inl (ToolError ''The selected PC action does not match the explicit command.'') else Inr ())"

definition open_target :: "(pyfloat \<Rightarrow> string) \<Rightarrow> dict \<Rightarrow> string" where
  "open_target fl d =
     (case find (\<lambda>k. truthy (dget d k)) [''app_name'', ''app'', ''name'', ''application'', ''target'', ''url'', ''program'']
      of None \<Rightarrow> [] | Some k \<Rightarrow> pv_str fl (dget d k))"

definition final_params :: "(pyfloat \<Rightarrow> string) \<Rightarrow> string \<Rightarrow> string \<Rightarrow> string \<Rightarrow> dict \<Rightarrow> dict" where
  "final_params fl query tool act d =
     (if tool = ''local_pc'' \<and> act = ''open_app'' \<and> parse_command query = None
      then (case web_search_phrase query (open_target fl d) of None \<Rightarrow> d
        | Some ph \<Rightarrow> if ph = [] then d else dset ''search_query'' (PStr ph) d)
      else d)"

text \<open>What the checks of the tool node leave to execute.\<close>

definition prepare_call ::
  "(pyfloat \<Rightarrow> string) \<Rightarrow> string \<Rightarrow> principal option \<Rightarrow> string \<Rightarrow> string \<Rightarrow> pyval \<Rightarrow> pyval \<Rightarrow> (string \<times> dict) res" where
  "prepare_call fl tenant p query tool act params =
     bindR (authorize_action p tenant tool act) (\<lambda>a.
     bindR (bind_command query tool a params) (\<lambda>_.
     bindR (dict_of fl params) (\<lambda>d. Inr (a, final_params fl query tool a d))))"

text \<open>\<open>except Exception\<close>: a cancellation is not one and goes on. The tools themselves raise no
  \<open>AuthorizationDenied\<close>, so the text of a denial is that of the authorization.\<close>

definition node_error :: "string \<Rightarrow> exn \<Rightarrow> node_out res" where
  "node_error denied e = (case e of
       ToolError m \<Rightarrow> Inr (NodeError m)
     | AuthorizationDenied \<Rightarrow> Inr (NodeError denied)
     | CancelledError \<Rightarrow> Inl CancelledError
     | _ \<Rightarrow> Inr (NodeError ''The requested tool failed unexpectedly. Please try again later.''))"

type_synonym 's executor = "string \<Rightarrow> string \<Rightarrow> string \<Rightarrow> dict \<Rightarrow> 's \<Rightarrow> 's \<times> tool_result res"

definition tool_node ::
  "(pyfloat \<Rightarrow> string) \<Rightarrow> string list \<Rightarrow> 's executor \<Rightarrow> string \<Rightarrow> string \<Rightarrow> principal option \<Rightarrow> intent \<Rightarrow> 's \<Rightarrow> 's \<times> node_out res" where
  "tool_node fl names exec tenant query p i s =
     (if truthy (i_tool i) \<and> unhashable (i_tool i) then (s, Inl TypeError)
      else (case (if truthy (i_tool i) then text_of (i_tool i) else None) of
          None \<Rightarrow> (s, Inr (NodeError (''Unknown tool '' @ pv_repr fl (i_tool i) @ ''.'')))
        | Some tool \<Rightarrow>
            if tool \<notin> set names then (s, Inr (NodeError (''Unknown tool '' @ pv_repr fl (i_tool i) @ ''.'')))
            else if i_action i = PNone then (s, Inr (NodeError (''No action specified for tool '' @ pv_repr fl (i_tool i) @ ''.'')))
            else (case prepare_call fl tenant p query tool (i_action i) (i_params i) of
                Inl e \<Rightarrow> (s, node_error (denial_text p tenant tool (i_action i)) e)
              | Inr (a, d) \<Rightarrow> (case exec tool tenant a d s of
                  (s', Inl e) \<Rightarrow> (s', node_error (denial_text p tenant tool (i_action i)) e)
                | (s', Inr r) \<Rightarrow> (s', Inr (NodeResult r))))))"

section \<open>A message through the graph\<close>

record routed =
  r_intent :: intent
  r_route :: string
  r_tool :: "node_out option"

text \<open>A route without an edge ends the run of the graph with an error.\<close>

definition route_message ::
  "(pyfloat \<Rightarrow> string) \<Rightarrow> string list \<Rightarrow> 's executor \<Rightarrow> (principal \<Rightarrow> string res) \<Rightarrow> (string \<Rightarrow> string \<Rightarrow> intent res) \<Rightarrow>
     string \<Rightarrow> string \<Rightarrow> principal option \<Rightarrow> 's \<Rightarrow> 's \<times> routed res" where
  "route_message fl names exec describe classify tenant query p s =
     (if (case p of None \<Rightarrow> False | Some q \<Rightarrow> tenant_id q \<noteq> tenant) then (s, Inl AuthorizationDenied)
      else (case classify_node describe classify query p of
          Inl e \<Rightarrow> (s, Inl e)
        | Inr i \<Rightarrow>
            if i_kind i = ''tool'' then
              (case tool_node fl names exec tenant query p i s of
                 (s', Inl e) \<Rightarrow> (s', Inl e)
               | (s', Inr out) \<Rightarrow> (s', Inr \<lparr>r_intent = i, r_route = i_kind i, r_tool = Some out\<rparr>))
            else if i_kind i \<in> {''rag'', ''conversational''}
              then (s, Inr \<lparr>r_intent = i, r_route = i_kind i, r_tool = None\<rparr>)
            else (s, Inl KeyError)))"


section \<open>Safety of a tool turn\<close>

lemma authorize_action_Inr: "authorize_action p tenant tool act = Inr a \<Longrightarrow>
    act = PStr a \<and> authorize_tool p tenant tool a = Inr ()"
  by (auto simp: authorize_action_def text_of_def split: if_splits option.splits pyval.splits)

lemma prepare_call_Inr:
  assumes "prepare_call fl tenant p query tool act params = Inr (a, d)"
  shows "act = PStr a \<and> authorize_tool p tenant tool a = Inr () \<and>
    (\<exists>d0. dict_of fl params = Inr d0 \<and> d = final_params fl query tool a d0)"
  using assms by (auto simp: prepare_call_def dest!: authorize_action_Inr)

lemma tool_node_cases:
  obtains (quiet) out where "tool_node fl names exec tenant query p i s = (s, out)"
  | (call) tool a d where "i_tool i = PStr tool" "tool \<in> set names" "i_action i = PStr a"
      "prepare_call fl tenant p query tool (i_action i) (i_params i) = Inr (a, d)"
      "fst (tool_node fl names exec tenant query p i s) = fst (exec tool tenant a d s)"
proof -
  let ?r = "tool_node fl names exec tenant query p i s"
  have q: thesis if "fst ?r = s" using quiet[of "snd ?r"] that by (metis prod.collapse)
  show thesis
  proof (cases "if truthy (i_tool i) then text_of (i_tool i) else None")
    case None
    then show thesis using q by (simp add: tool_node_def)
  next
    case (Some tool)
    then have t: "i_tool i = PStr tool" by (auto simp: text_of_def split: if_splits pyval.splits)
    then have u: "\<not> (truthy (i_tool i) \<and> unhashable (i_tool i))" by (simp add: unhashable_def)
    show thesis
    proof (cases "tool \<notin> set names \<or> i_action i = PNone")
      case True
      then show thesis using q u by (simp only: tool_node_def Some if_False option.case) simp
    next
      case False
      show thesis
      proof (cases "prepare_call fl tenant p query tool (i_action i) (i_params i)")
        case (Inl e)
        then show thesis using q u False by (simp only: tool_node_def Some if_False option.case) simp
      next
        case (Inr ad)
        then obtain a d where ad: "prepare_call fl tenant p query tool (i_action i) (i_params i) = Inr (a, d)" by (cases ad) simp
        have "fst ?r = fst (exec tool tenant a d s)"
          using u False by (simp only: tool_node_def Some if_False option.case ad) (simp split: prod.splits sum.splits)
        then show thesis using call[OF t _ _ ad] False prepare_call_Inr[OF ad] by blast
      qed
    qed
  qed
qed

text \<open>An explicit command's intent carries exactly what was written.\<close>

lemma classify_command: "parse_command query = Some c \<Longrightarrow> classify_node describe classify query p = Inr (command_intent c)"
  by (simp add: classify_node_def)

lemma command_fields: "i_tool (command_intent c) = PStr (pc_tool c)" "i_action (command_intent c) = PStr (pc_action c)"
  "i_params (command_intent c) = PDict (pc_params c)" "i_kind (command_intent c) = ''tool''"
  by (simp_all add: command_intent_def tool_intent_def)

lemma prepare_command:
  assumes "parse_command query = Some c"
    "prepare_call fl tenant p query (pc_tool c) (PStr (pc_action c)) (PDict (pc_params c)) = Inr (a, d)"
  shows "a = pc_action c \<and> d = pc_params c"
  using prepare_call_Inr[OF assms(2)] assms(1) by (auto simp: dict_of_def final_params_def)

text \<open>C21 A message makes at most one tool call, and only an authorized one: the state on which tools act
  is unchanged, or changed by exactly one call, made to a registered tool for the tenant of the
  credential, which holds the scope of the action. A slash command is executed as written, never
  reinterpreted by the model.\<close>

theorem tool_turn_safe:
  "fst (route_message fl names exec describe classify tenant query p s) = s \<or>
   (\<exists>q tool a d r. fst (route_message fl names exec describe classify tenant query p s) = fst (exec tool tenant a d s) \<and>
      tool \<in> set names \<and> p = Some q \<and> tenant_id q = tenant \<and> required_scope tool a = Some r \<and> r \<in> scopes q \<and>
      (case parse_command query of None \<Rightarrow> True
       | Some c \<Rightarrow> tool = pc_tool c \<and> a = pc_action c \<and> d = pc_params c))"
proof (cases "fst (route_message fl names exec describe classify tenant query p s) = s")
  case False
  then obtain i where i: "classify_node describe classify query p = Inr i"
    "fst (route_message fl names exec describe classify tenant query p s) = fst (tool_node fl names exec tenant query p i s)"
    by (auto simp: route_message_def split: if_splits sum.splits prod.splits)
  with False have n: "fst (tool_node fl names exec tenant query p i s) \<noteq> s" by simp
  from tool_node_cases[of fl names exec tenant query p i s] show ?thesis
  proof cases
    case (quiet out)
    then show ?thesis using n by simp
  next
    case (call tool a d)
    obtain q r where q: "p = Some q" "tenant_id q = tenant" "required_scope tool a = Some r" "r \<in> scopes q"
      using prepare_call_Inr[OF call(4)] by (auto simp: authorize_tool_Inr)
    have "case parse_command query of None \<Rightarrow> True | Some c \<Rightarrow> tool = pc_tool c \<and> a = pc_action c \<and> d = pc_params c"
    proof (cases "parse_command query")
      case (Some c)
      then have ic: "i = command_intent c" using i(1) classify_command by simp
      then have "tool = pc_tool c" using call(1) by (simp add: command_fields)
      then show ?thesis using prepare_command[OF Some] call(4) Some by (simp add: ic command_fields)
    qed simp
    with q call(2) i(2)[unfolded call(5)] show ?thesis by (intro disjI2 exI conjI)
  qed
qed simp

section \<open>How a message can end\<close>

lemma node_error_Inl: "node_error m e = Inl x \<Longrightarrow> x = CancelledError"
  by (cases e) (auto simp: node_error_def)

lemma tool_node_Inl:
  assumes "snd (tool_node fl names exec tenant query p i s) = Inl e"
  shows "e = CancelledError \<or> e = TypeError \<and> unhashable (i_tool i)"
proof (cases "truthy (i_tool i) \<and> unhashable (i_tool i)")
  case False
  show ?thesis
  proof (cases "if truthy (i_tool i) then text_of (i_tool i) else None")
    case None
    then show ?thesis using False assms by (simp add: tool_node_def split: if_splits)
  next
    case (Some tool)
    then show ?thesis using False assms
      by (auto simp: tool_node_def split: if_splits prod.splits sum.splits dest: node_error_Inl)
  qed
qed (use assms in \<open>simp add: tool_node_def\<close>)

lemma infer_kind: "infer_local_pc_intent query = Some i \<Longrightarrow> i_kind i \<in> {''tool'', ''conversational''}"
  by (auto simp: infer_local_pc_intent_def Let_def plain_intent_def corner_intent_def tool_intent_def split: if_splits)

lemma llm_kind: "llm_classify ask loads query block = Inr i \<Longrightarrow> i_kind i \<in> set KINDS"
  by (auto simp: llm_classify_def dest: parse_intent_kind)

lemma classify_kind:
  assumes "classify_node describe (llm_classify ask loads) query p = Inr i"
  shows "i_kind i \<in> set KINDS"
proof (cases "parse_command query")
  case (Some c)
  then show ?thesis using assms by (auto simp: classify_command command_fields KINDS_def)
next
  case None
  then obtain b j where j: "llm_classify ask loads query b = Inr j"
    "i = j \<or> infer_local_pc_intent query = Some i"
    using assms by (auto simp: classify_node_def split: option.splits if_splits)
  then show ?thesis using llm_kind[OF j(1)] infer_kind[of query i] by (auto simp: KINDS_def)
qed

lemma route_Inr:
  assumes "snd (route_message fl names exec describe classify tenant query p s) = Inr r"
  shows "r_route r = i_kind (r_intent r) \<and> classify_node describe classify query p = Inr (r_intent r) \<and>
    (r_tool r = None) = (r_route r \<noteq> ''tool'')"
  using assms by (auto simp: route_message_def split: if_splits sum.splits prod.splits)

lemma snd_tool_pair: "tool_node fl names exec tenant query p i s = (s', r) \<Longrightarrow> snd (tool_node fl names exec tenant query p i s) = r"
  by simp

lemma route_Inl:
  assumes "snd (route_message fl names exec describe (llm_classify ask loads) tenant query p s) = Inl e"
  shows "e = AuthorizationDenied \<and> (\<exists>q. p = Some q \<and> tenant_id q \<noteq> tenant) \<or>
    classify_node describe (llm_classify ask loads) query p = Inl e \<or> e = CancelledError \<or>
    e = TypeError \<and> (\<exists>i. classify_node describe (llm_classify ask loads) query p = Inr i \<and> unhashable (i_tool i))"
proof (cases "case p of None \<Rightarrow> False | Some q \<Rightarrow> tenant_id q \<noteq> tenant")
  case True
  then show ?thesis using assms by (auto simp: route_message_def split: option.splits)
next
  case False
  show ?thesis
  proof (cases "classify_node describe (llm_classify ask loads) query p")
    case (Inl x)
    then show ?thesis using False assms by (simp add: route_message_def)
  next
    case (Inr i)
    have "i_kind i \<in> set KINDS" by (rule classify_kind[OF Inr])
    then have "snd (tool_node fl names exec tenant query p i s) = Inl e"
      using assms False Inr by (auto simp: route_message_def KINDS_def split: if_splits prod.splits sum.splits)
    with tool_node_Inl[OF this] Inr show ?thesis by blast
  qed
qed

text \<open>Every routed message has one of the three routes, and an outcome of a tool exactly on the tool
  route. What can go wrong instead is known: a credential of another tenant, an error of the vault or
  of the model while classifying, a cancellation, or a tool name that is no text. A slash command can
  fail only by the first and by cancellation, and consults neither the vault nor the model.\<close>

lemma route_outcomes:
  "(case snd (route_message fl names exec describe (llm_classify ask loads) tenant query p s) of
      Inr r \<Rightarrow> r_route r \<in> set KINDS \<and> r_route r = i_kind (r_intent r) \<and> (r_tool r = None) = (r_route r \<noteq> ''tool'')
    | Inl e \<Rightarrow> e = AuthorizationDenied \<and> (\<exists>q. p = Some q \<and> tenant_id q \<noteq> tenant) \<or> e = CancelledError \<or>
        parse_command query = None \<and>
        (tools_block_for describe p = Inl e \<or>
         (\<exists>block. tools_block_for describe p = Inr block \<and>
           (ask [(''system'', CLASSIFIER_SYSTEM_PROMPT block), (''user'', query @ NO_THINK_SUFFIX)] CLASSIFIER_MAX_TOKENS = Inl e \<or>
            (\<exists>raw. ask [(''system'', CLASSIFIER_SYSTEM_PROMPT block), (''user'', query @ NO_THINK_SUFFIX)] CLASSIFIER_MAX_TOKENS = Inr raw \<and>
               (loads (clean_answer raw) = JRaises e \<or> e = TypeError \<and> (\<exists>i. parse_intent loads raw = Inr i \<and> unhashable (i_tool i))))))))"
proof (cases "snd (route_message fl names exec describe (llm_classify ask loads) tenant query p s)")
  case (Inr r)
  have "r_route r = i_kind (r_intent r) \<and> classify_node describe (llm_classify ask loads) query p = Inr (r_intent r) \<and>
    (r_tool r = None) = (r_route r \<noteq> ''tool'')" by (rule route_Inr[OF Inr])
  with classify_kind[of describe ask loads query p "r_intent r"] show ?thesis unfolding Inr sum.case by metis
next
  case (Inl e)
  note r = route_Inl[OF Inl]
  have u: "\<exists>raw block. tools_block_for describe p = Inr block \<and> parse_command query = None \<and>
      ask [(''system'', CLASSIFIER_SYSTEM_PROMPT block), (''user'', query @ NO_THINK_SUFFIX)] CLASSIFIER_MAX_TOKENS = Inr raw \<and>
      (\<exists>i. parse_intent loads raw = Inr i \<and> unhashable (i_tool i))"
    if i: "classify_node describe (llm_classify ask loads) query p = Inr i" "unhashable (i_tool i)" for i
  proof -
    have n: "parse_command query = None"
      using i by (cases "parse_command query") (auto simp: classify_command command_fields unhashable_def)
    then obtain block j where j: "tools_block_for describe p = Inr block" "llm_classify ask loads query block = Inr j"
      "i = j \<or> infer_local_pc_intent query = Some i"
      using i(1) by (auto simp: classify_node_def split: option.splits if_splits)
    have "\<not> unhashable (i_tool k)" if "infer_local_pc_intent query = Some k" for k
      using that by (auto simp: infer_local_pc_intent_def Let_def plain_intent_def corner_intent_def tool_intent_def
          unhashable_def split: if_splits)
    then have "i = j" using j(3) i(2) by blast
    then show ?thesis using j n i(2) by (auto simp: llm_classify_def)
  qed
  have c: "parse_command query = None \<and> (tools_block_for describe p = Inl e \<or>
      (\<exists>block. tools_block_for describe p = Inr block \<and> llm_classify ask loads query block = Inl e))"
    if "classify_node describe (llm_classify ask loads) query p = Inl e"
    using that by (auto simp: classify_node_def split: option.splits)
  have l: "ask [(''system'', CLASSIFIER_SYSTEM_PROMPT block), (''user'', query @ NO_THINK_SUFFIX)] CLASSIFIER_MAX_TOKENS = Inl e \<or>
      (\<exists>raw. ask [(''system'', CLASSIFIER_SYSTEM_PROMPT block), (''user'', query @ NO_THINK_SUFFIX)] CLASSIFIER_MAX_TOKENS = Inr raw \<and>
        loads (clean_answer raw) = JRaises e)" if "llm_classify ask loads query block = Inl e" for block
    using that by (auto simp: llm_classify_def dest: parse_intent_error)
  from r show ?thesis
  proof (elim disjE conjE exE)
    fix i assume "classify_node describe (llm_classify ask loads) query p = Inr i" "unhashable (i_tool i)" "e = TypeError"
    with u[of i] show ?thesis unfolding Inl sum.case by blast
  next
    assume "classify_node describe (llm_classify ask loads) query p = Inl e"
    with c l show ?thesis unfolding Inl sum.case by blast
  next
    fix q assume "e = AuthorizationDenied" "p = Some q" "tenant_id q \<noteq> tenant"
    then show ?thesis unfolding Inl sum.case by blast
  next
    assume "e = CancelledError"
    then show ?thesis unfolding Inl sum.case by blast
  qed
qed

text \<open>The one input that breaks a turn outside of the guarded part: the model names its tool with a list.\<close>

lemma unhashable_tool_name:
  "route_message fl names exec describe (llm_classify (\<lambda>m k. Inr ''{}'')
      (\<lambda>s. JValue (PDict [(''kind'', PStr ''tool''), (''tool_name'', PList [PStr ''jira''])]))) t ''hello'' None s = (s, Inl TypeError)"
proof -
  have p: "parse_command ''hello'' = None" by code_simp
  have i: "infer_local_pc_intent ''hello'' = None" by code_simp
  show ?thesis
    by (simp add: route_message_def classify_node_def p i tools_block_for_def llm_classify_def parse_intent_def KINDS_def
        tool_node_def unhashable_def)
qed

end
