(* ===== verification/Url.thy ===== *)
theory Url
  imports Pc_Actions
begin

text \<open>
  \<open>urllib.parse.urlsplit\<close> as the code uses it, with the properties of its result. Whether a host in
  brackets is a valid address (\<open>ipaddress\<close>) is an argument. Compatibility normalisation of the network
  location finds nothing to reject in Latin-1 texts.
\<close>

section \<open>Cutting strings\<close>

text \<open>\<open>s.partition(d)\<close> and \<open>s.rpartition(d)\<close>, with \<open>None\<close> when the separator is missing.\<close>

definition before :: "char \<Rightarrow> string \<Rightarrow> string" where
  "before d s = takeWhile (\<lambda>c. c \<noteq> d) s"

definition behind :: "char \<Rightarrow> string \<Rightarrow> string option" where
  "behind d s = (case dropWhile (\<lambda>c. c \<noteq> d) s of [] \<Rightarrow> None | _ # r \<Rightarrow> Some r)"

definition behind_or_empty :: "char \<Rightarrow> string \<Rightarrow> string" where
  "behind_or_empty d s = (case behind d s of None \<Rightarrow> [] | Some r \<Rightarrow> r)"

definition after_final :: "char \<Rightarrow> string \<Rightarrow> string" where
  "after_final d s = rev (takeWhile (\<lambda>c. c \<noteq> d) (rev s))"

definition before_final :: "char \<Rightarrow> string \<Rightarrow> string" where
  "before_final d s = rev (tl (dropWhile (\<lambda>c. c \<noteq> d) (rev s)))"

section \<open>Splitting\<close>

record split_url =
  u_scheme :: string
  u_netloc :: string
  u_path :: string
  u_query :: string
  u_fragment :: string

definition scheme_char :: "char \<Rightarrow> bool" where
  "scheme_char c = (is_ascii_letter c \<or> is_ascii_digit c \<or> c = CHR ''+'' \<or> c = CHR ''-'' \<or> c = CHR ''.'')"

definition url_clean :: "string \<Rightarrow> string" where
  "url_clean s = filter (\<lambda>c. c \<notin> {CHR 0x09, CHR 0x0A, CHR 0x0D}) (dropWhile (\<lambda>c. code c \<le> 32) s)"

definition split_scheme :: "string \<Rightarrow> string \<times> string" where
  "split_scheme u = (let a = before CHR '':'' u in
     case behind CHR '':'' u of
       Some r \<Rightarrow> if a \<noteq> [] \<and> is_ascii_letter (hd a) \<and> list_all scheme_char a then (lower a, r) else ([], u)
     | None \<Rightarrow> ([], u))"

definition net_char :: "char \<Rightarrow> bool" where
  "net_char c = (c \<notin> {CHR ''/'', CHR ''?'', CHR ''#''})"

definition split_netloc :: "string \<Rightarrow> string \<times> string" where
  "split_netloc u = (if starts_with u ''//'' then (takeWhile net_char (drop 2 u), dropWhile net_char (drop 2 u)) else ([], u))"

definition bracketed :: "string \<Rightarrow> string" where
  "bracketed n = before CHR '']'' (behind_or_empty CHR ''['' n)"

definition brackets_ok :: "(string \<Rightarrow> bool) \<Rightarrow> string \<Rightarrow> bool" where
  "brackets_ok ip6 n = ((CHR ''['' \<in> set n) = (CHR '']'' \<in> set n) \<and> (CHR ''['' \<in> set n \<longrightarrow> ip6 (bracketed n)))"

definition urlsplit :: "(string \<Rightarrow> bool) \<Rightarrow> string \<Rightarrow> split_url res" where
  "urlsplit ip6 s = (case split_scheme (url_clean s) of (scheme, u1) \<Rightarrow>
     (case split_netloc u1 of (netloc, u2) \<Rightarrow>
        if \<not> brackets_ok ip6 netloc then Inl ValueError
        else (let u3 = before CHR ''#'' u2 in
          Inr \<lparr>u_scheme = scheme, u_netloc = netloc, u_path = before CHR ''?'' u3,
               u_query = behind_or_empty CHR ''?'' u3, u_fragment = behind_or_empty CHR ''#'' u2\<rparr>)))"

section \<open>Properties of the network location\<close>

definition host_info :: "string \<Rightarrow> string \<times> string" where
  "host_info n = (let h = after_final CHR ''@'' n in
     case behind CHR ''['' h of
       Some b \<Rightarrow> (before CHR '']'' b, behind_or_empty CHR '':'' (behind_or_empty CHR '']'' b))
     | None \<Rightarrow> (before CHR '':'' h, behind_or_empty CHR '':'' h))"

definition url_hostname :: "split_url \<Rightarrow> string option" where
  "url_hostname u = (let h = fst (host_info (u_netloc u)) in
     if h = [] then None
     else Some (lower (before CHR ''%'' h) @ dropWhile (\<lambda>c. c \<noteq> CHR ''%'') h))"

definition url_port :: "split_url \<Rightarrow> nat option res" where
  "url_port u = (let p = snd (host_info (u_netloc u)) in
     if p = [] then Inr None
     else if list_all is_ascii_digit p \<and> length p \<le> 4300 \<and> digits_val p \<le> 65535 then Inr (Some (digits_val p))
     else Inl ValueError)"

definition url_username :: "split_url \<Rightarrow> string option" where
  "url_username u = (if CHR ''@'' \<in> set (u_netloc u)
     then Some (before CHR '':'' (before_final CHR ''@'' (u_netloc u))) else None)"

definition url_password :: "split_url \<Rightarrow> string option" where
  "url_password u = (if CHR ''@'' \<in> set (u_netloc u)
     then behind CHR '':'' (before_final CHR ''@'' (u_netloc u)) else None)"

text \<open>Joining scheme, location and an absolute path.\<close>

definition urlunsplit :: "string \<Rightarrow> string \<Rightarrow> string \<Rightarrow> string" where
  "urlunsplit scheme netloc path = scheme @ ''://'' @ netloc @ path"

section \<open>Lemmas\<close>

lemma all_differ: "d \<notin> set a \<Longrightarrow> takeWhile (\<lambda>c. c \<noteq> d) (a @ b) = a @ takeWhile (\<lambda>c. c \<noteq> d) b"
  "d \<notin> set a \<Longrightarrow> dropWhile (\<lambda>c. c \<noteq> d) (a @ b) = dropWhile (\<lambda>c. c \<noteq> d) b"
  by (induction a) auto

lemma before_append: "d \<notin> set a \<Longrightarrow> before d (a @ d # b) = a"
  by (simp add: before_def all_differ)

lemma before_no: "d \<notin> set a \<Longrightarrow> before d a = a"
  using all_differ(1)[of d a "[]"] by (simp add: before_def)

lemma behind_append: "d \<notin> set a \<Longrightarrow> behind d (a @ d # b) = Some b"
  by (simp add: behind_def all_differ)

lemma behind_no: "d \<notin> set a \<Longrightarrow> behind d a = None"
  by (simp only: behind_def all_differ(2)[of d a "[]", unfolded append_Nil2] dropWhile.simps list.case not_False_eq_True)

lemma after_final_no: "d \<notin> set a \<Longrightarrow> after_final d a = a"
  by (simp only: after_final_def set_rev all_differ(1)[of d "rev a" "[]", unfolded append_Nil2] takeWhile.simps append_Nil2 rev_rev_ident not_False_eq_True)

lemma url_username_None: "url_username u = None \<longleftrightarrow> CHR ''@'' \<notin> set (u_netloc u)"
  by (simp add: url_username_def)

lemma takeWhile_set_net: "\<forall>c \<in> set (takeWhile net_char s). net_char c"
  by (auto dest: set_takeWhileD)

lemma urlsplit_net:
  assumes "urlsplit ip6 s = Inr u"
  shows "\<forall>c \<in> set (u_netloc u). net_char c \<and> c \<notin> {CHR 0x09, CHR 0x0A, CHR 0x0D}" "brackets_ok ip6 (u_netloc u)"
proof -
  obtain scheme u1 netloc u2 where d: "split_scheme (url_clean s) = (scheme, u1)" "split_netloc u1 = (netloc, u2)"
    by (cases "split_scheme (url_clean s)"; cases "split_netloc (snd (split_scheme (url_clean s)))") auto
  then have n: "u_netloc u = netloc" "brackets_ok ip6 netloc" using assms
    by (auto simp: urlsplit_def Let_def split: if_splits)
  have "set u1 \<subseteq> set (url_clean s)"
  proof -
    have "u1 = url_clean s \<or> Some u1 = behind CHR '':'' (url_clean s)" using d(1)
      by (auto simp: split_scheme_def Let_def split: option.splits if_splits)
    moreover have "set r \<subseteq> set (url_clean s)" if "Some r = behind CHR '':'' (url_clean s)" for r
      using that by (auto simp: behind_def split: list.splits dest!: arg_cong[of _ _ set] dest: set_dropWhileD)
    ultimately show ?thesis by auto
  qed
  moreover have "set netloc \<subseteq> set u1" using d(2)
    by (auto simp: split_netloc_def split: if_splits dest!: set_takeWhileD in_set_dropD)
  moreover have "\<forall>c \<in> set (url_clean s). c \<notin> {CHR 0x09, CHR 0x0A, CHR 0x0D}" by (simp add: url_clean_def)
  moreover have "\<forall>c \<in> set netloc. net_char c" using d(2) takeWhile_set_net
    by (auto simp: split_netloc_def split: if_splits)
  ultimately show "\<forall>c \<in> set (u_netloc u). net_char c \<and> c \<notin> {CHR 0x09, CHR 0x0A, CHR 0x0D}" "brackets_ok ip6 (u_netloc u)"
    using n by blast+
qed

text \<open>A written URL is split into what it was written from.\<close>

lemma urlsplit_written:
  assumes scheme: "scheme \<noteq> []" "is_ascii_letter (hd scheme)" "list_all scheme_char scheme" "lower scheme = scheme"
    and netloc: "\<forall>c \<in> set netloc. net_char c \<and> c \<notin> {CHR 0x09, CHR 0x0A, CHR 0x0D}" "brackets_ok ip6 netloc"
    and path: "path = CHR ''/'' # p" "\<forall>c \<in> set path. c \<notin> {CHR 0x09, CHR 0x0A, CHR 0x0D, CHR ''?'', CHR ''#''}"
  shows "urlsplit ip6 (urlunsplit scheme netloc path) =
    Inr \<lparr>u_scheme = scheme, u_netloc = netloc, u_path = path, u_query = [], u_fragment = []\<rparr>"
proof -
  have sc: "\<not> code c \<le> 32" "c \<notin> {CHR 0x09, CHR 0x0A, CHR 0x0D}" "c \<noteq> CHR '':''" if "c \<in> set scheme" for c
  proof -
    have "scheme_char c" using that scheme(3) by (simp add: list_all_iff)
    then show "\<not> code c \<le> 32" "c \<notin> {CHR 0x09, CHR 0x0A, CHR 0x0D}" "c \<noteq> CHR '':''"
      by (auto simp: scheme_char_def is_ascii_letter_def is_ascii_digit_def code_def Let_def)
  qed
  let ?s = "urlunsplit scheme netloc path"
  have "dropWhile (\<lambda>c. code c \<le> 32) ?s = ?s" using scheme(1) sc(1)
    by (cases scheme) (auto simp: urlunsplit_def)
  moreover have "filter (\<lambda>c. c \<notin> {CHR 0x09, CHR 0x0A, CHR 0x0D}) ?s = ?s"
    using sc(2) netloc(1) path(2) by (auto simp: urlunsplit_def intro!: filter_True)
  ultimately have c: "url_clean ?s = ?s" by (simp add: url_clean_def)
  have s: "?s = scheme @ CHR '':'' # (''//'' @ netloc @ path)" by (simp add: urlunsplit_def)
  have b: "before CHR '':'' ?s = scheme" "behind CHR '':'' ?s = Some (''//'' @ netloc @ path)"
    unfolding s by (rule before_append, use sc(3) in blast) (rule behind_append, use sc(3) in blast)
  have sp: "split_scheme ?s = (scheme, ''//'' @ netloc @ path)"
    using scheme by (simp add: split_scheme_def b)
  have p0: "\<not> net_char CHR ''/''" by (simp add: net_char_def)
  have tw: "takeWhile net_char (netloc @ path) = netloc" "dropWhile net_char (netloc @ path) = path"
    using netloc(1) p0 unfolding path(1) by (auto simp: takeWhile_append2 dropWhile_append2)
  have n: "split_netloc (CHR ''/'' # CHR ''/'' # netloc @ path) = (netloc, path)"
    using tw by (simp add: split_netloc_def starts_with_def)
  have q: "before CHR ''#'' path = path" "before CHR ''?'' path = path" "behind CHR ''#'' path = None" "behind CHR ''?'' path = None"
    using path(2) by (auto intro!: before_no behind_no)
  show ?thesis using netloc(2) by (simp add: urlsplit_def c sp n q behind_or_empty_def)
qed

end
