(* ===== verification/Device_Credentials.thy ===== *)
theory Device_Credentials
  imports Url
begin

text \<open>
  The companion's credential (\<open>local_agent/device_credentials.py\<close>) and its enrollment
  (\<open>local_agent/pair.py\<close>). Files are a map from paths to contents; the protection of Windows, the JSON
  encoder and decoder, and the server's answers are arguments.
\<close>

section \<open>The server's address\<close>

definition LOOPBACK :: "string set" where
  "LOOPBACK = {''localhost'', ''127.0.0.1'', ''::1''}"

definition server_url_ok :: "split_url \<Rightarrow> bool" where
  "server_url_ok u = (u_scheme u \<in> {''ws'', ''wss''} \<and> url_hostname u \<noteq> None \<and> url_username u = None \<and>
     url_password u = None \<and> u_query u = [] \<and> u_fragment u = [] \<and> u_path u = ''/ws/pc-agent'' \<and>
     (u_scheme u = ''ws'' \<longrightarrow> url_hostname u \<in> Some ` LOOPBACK))"

definition validate_server_url :: "(string \<Rightarrow> bool) \<Rightarrow> string \<Rightarrow> string res" where
  "validate_server_url ip6 url =
     bindR (urlsplit ip6 url) (\<lambda>u.
     bindR (guardR (server_url_ok u) ValueError) (\<lambda>_.
     bindR (url_port u) (\<lambda>_. Inr (urlunsplit (u_scheme u) (lower (u_netloc u)) (u_path u)))))"

subsection \<open>Lowering a network location\<close>

lemma code_inj: "code c = code d \<longleftrightarrow> c = d"
  by (simp add: code_def)

lemma code_lower_char: "code (lower_char c) =
    (if 65 \<le> code c \<and> code c \<le> 90 \<or> 192 \<le> code c \<and> code c \<le> 222 \<and> code c \<noteq> 215 then code c + 32 else code c)"
  by (simp add: lower_char_def Let_def code_def)

lemma lower_char_idem [simp]: "lower_char (lower_char c) = lower_char c"
  unfolding code_inj[symmetric] by (simp add: code_lower_char)

lemma lower_idem [simp]: "lower (lower s) = lower s"
  by (simp add: lower_def comp_def)

definition caseless :: "char \<Rightarrow> bool" where
  "caseless d = (code d < 65)"

lemma lower_char_caseless: "caseless d \<Longrightarrow> lower_char c = d \<longleftrightarrow> c = d"
  unfolding code_inj[symmetric] caseless_def by (auto simp: code_lower_char)

lemma code_seps: "code CHR ''['' = 91" "code CHR '']'' = 93" "code CHR ''@'' = 64"
  by (simp_all add: code_def)

lemma lower_char_bracket: "lower_char c = CHR ''['' \<longleftrightarrow> c = CHR ''[''" "lower_char c = CHR '']'' \<longleftrightarrow> c = CHR '']''"
  unfolding code_inj[symmetric] code_seps by (auto simp: code_lower_char)

definition keeps :: "char \<Rightarrow> bool" where
  "keeps d = (\<forall>c. lower_char c = d \<longleftrightarrow> c = d)"

lemma keeps_seps: "keeps CHR ''['' \<and> keeps CHR '']'' \<and> keeps CHR '':'' \<and> keeps CHR ''%'' \<and> keeps CHR ''/'' \<and>
    keeps CHR ''?'' \<and> keeps CHR ''#'' \<and> keeps CHR 0x09 \<and> keeps CHR 0x0A \<and> keeps CHR 0x0D"
  using lower_char_caseless lower_char_bracket by (auto simp: keeps_def caseless_def code_def)

lemma keeps_at: "keeps CHR ''@''"
  unfolding keeps_def code_inj[symmetric] code_seps by (auto simp: code_lower_char)

lemma lower_mem: "keeps d \<Longrightarrow> d \<in> set (lower s) \<longleftrightarrow> d \<in> set s"
  unfolding lower_def keeps_def set_map image_iff by metis

lemma lower_drop: "keeps d \<Longrightarrow> dropWhile (\<lambda>c. c \<noteq> d) (lower s) = lower (dropWhile (\<lambda>c. c \<noteq> d) s)"
  by (simp add: lower_def dropWhile_map comp_def keeps_def)

lemma lower_before: "keeps d \<Longrightarrow> before d (lower s) = lower (before d s)"
  by (simp add: before_def lower_def takeWhile_map comp_def keeps_def)

lemma lower_behind: "keeps d \<Longrightarrow> behind d (lower s) = map_option lower (behind d s)"
proof -
  have "(case lower x of [] \<Rightarrow> None | _ # r \<Rightarrow> Some r) = map_option lower (case x of [] \<Rightarrow> None | _ # r \<Rightarrow> Some r)" for x
    by (cases x) (simp_all add: lower_def)
  then show "keeps d \<Longrightarrow> ?thesis" unfolding behind_def by (simp only: lower_drop)
qed

lemma lower_behind_or_empty: "keeps d \<Longrightarrow> behind_or_empty d (lower s) = lower (behind_or_empty d s)"
  by (cases "behind d s") (simp_all add: behind_or_empty_def lower_behind, simp add: lower_def)

lemma lower_after_final: "keeps d \<Longrightarrow> after_final d (lower s) = lower (after_final d s)"
  unfolding after_final_def lower_def rev_map[symmetric] by (simp add: takeWhile_map comp_def keeps_def rev_map)

lemma lower_host_info: "host_info (lower n) = map_prod lower lower (host_info n)"
  using keeps_seps keeps_at
  by (simp add: host_info_def Let_def lower_after_final lower_behind lower_before lower_behind_or_empty split: option.splits)

lemma lower_digits: "list_all is_ascii_digit p \<Longrightarrow> lower p = p"
proof -
  have "lower_char c = c" if "is_ascii_digit c" for c
    using that unfolding code_inj[symmetric] by (simp add: code_lower_char is_ascii_digit_def Let_def)
  then show "list_all is_ascii_digit p \<Longrightarrow> ?thesis" by (simp add: lower_def list_all_iff map_idI)
qed

lemma lower_hostname:
  assumes "u_netloc v = lower (u_netloc u)"
  shows "url_hostname v = map_option lower (url_hostname u)"
proof -
  have k: "keeps CHR ''%''" using keeps_seps by blast
  show ?thesis
    by (simp add: assms url_hostname_def Let_def lower_host_info lower_before[OF k] lower_drop[OF k]) (simp add: lower_def)
qed

lemma lower_port:
  assumes "u_netloc v = lower (u_netloc u)" "url_port u = Inr p"
  shows "url_port v = Inr p"
proof (cases "snd (host_info (u_netloc u)) = []")
  case True
  then show ?thesis using assms by (simp add: url_port_def Let_def lower_host_info) (simp add: lower_def)
next
  case False
  then have "list_all is_ascii_digit (snd (host_info (u_netloc u)))"
    using assms(2) by (auto simp: url_port_def Let_def split: if_splits)
  then have "snd (host_info (u_netloc v)) = snd (host_info (u_netloc u))"
    by (simp add: assms(1) lower_host_info lower_digits)
  then show ?thesis using assms(2) by (simp add: url_port_def)
qed

lemma lower_brackets:
  assumes "\<And>h. ip6 (lower h) = ip6 h" "brackets_ok ip6 n"
  shows "brackets_ok ip6 (lower n)"
  using assms keeps_seps
  by (simp add: brackets_ok_def bracketed_def lower_mem lower_before lower_behind_or_empty)

lemma lower_net: "\<forall>c \<in> set n. net_char c \<and> c \<notin> {CHR 0x09, CHR 0x0A, CHR 0x0D} \<Longrightarrow>
    \<forall>c \<in> set (lower n). net_char c \<and> c \<notin> {CHR 0x09, CHR 0x0A, CHR 0x0D}"
  using keeps_seps by (auto simp: lower_def net_char_def keeps_def)

lemma LOOPBACK_lower: "h \<in> LOOPBACK \<Longrightarrow> lower h = h"
  by (auto simp: LOOPBACK_def lower_def lower_char_def Let_def code_def)

text \<open>The accepted form is a fixed point: an accepted address, as it is stored, is accepted again and
  stored the same way.\<close>

lemma validate_server_url_idem:
  assumes ip: "\<And>h. ip6 (lower h) = ip6 h" and v: "validate_server_url ip6 url = Inr v"
  shows "validate_server_url ip6 v = Inr v"
proof -
  obtain u p where u: "urlsplit ip6 url = Inr u" "server_url_ok u" "url_port u = Inr p"
    "v = urlunsplit (u_scheme u) (lower (u_netloc u)) (u_path u)"
    using v by (auto simp: validate_server_url_def)
  let ?w = "\<lparr>u_scheme = u_scheme u, u_netloc = lower (u_netloc u), u_path = u_path u, u_query = [], u_fragment = []\<rparr>"
  have s: "u_scheme u = ''ws'' \<or> u_scheme u = ''wss''" "u_path u = ''/ws/pc-agent''" using u(2) by (auto simp: server_url_ok_def)
  have sc: "u_scheme u \<noteq> []" "is_ascii_letter (hd (u_scheme u))" "list_all scheme_char (u_scheme u)" "lower (u_scheme u) = u_scheme u"
    using s(1) by (auto simp: is_ascii_letter_def scheme_char_def lower_def lower_char_def Let_def code_def)
  have "urlsplit ip6 v = Inr ?w"
    unfolding u(4)
    by (rule urlsplit_written[OF sc lower_net[OF urlsplit_net(1)[OF u(1)]] lower_brackets[OF ip urlsplit_net(2)[OF u(1)]]])
       (simp_all add: s(2))
  moreover have "server_url_ok ?w"
  proof -
    have h: "url_hostname ?w = map_option lower (url_hostname u)" by (rule lower_hostname) simp
    have "CHR ''@'' \<notin> set (u_netloc u)" using u(2) by (simp add: server_url_ok_def url_username_None)
    then have "url_username ?w = None" "url_password ?w = None"
      by (simp_all add: url_username_None url_password_def lower_mem[OF keeps_at])
    moreover have "url_hostname ?w \<noteq> None" unfolding h using u(2) by (simp add: server_url_ok_def)
    moreover have "u_scheme u = ''ws'' \<longrightarrow> url_hostname ?w \<in> Some ` LOOPBACK"
    proof
      assume "u_scheme u = ''ws''"
      then obtain y where "url_hostname u = Some y" "y \<in> LOOPBACK" using u(2) by (auto simp: server_url_ok_def)
      then have "url_hostname ?w = Some y" unfolding h using LOOPBACK_lower by simp
      with \<open>y \<in> LOOPBACK\<close> show "url_hostname ?w \<in> Some ` LOOPBACK" by (simp only: image_eqI)
    qed
    ultimately show ?thesis using u(2) by (simp add: server_url_ok_def)
  qed
  moreover have "url_port ?w = Inr p" by (rule lower_port[OF _ u(3)]) simp
  ultimately show ?thesis by (simp add: validate_server_url_def u(4))
qed

section \<open>Identifiers\<close>

text \<open>\<open>s.replace(w, "")\<close>: \<open>k\<close> counts the characters still to be skipped.\<close>

fun remove_all :: "string \<Rightarrow> nat \<Rightarrow> string \<Rightarrow> string" where
  "remove_all w k [] = []"
| "remove_all w k (c # s) =
     (if k > 0 then remove_all w (k - 1) s
      else if starts_with (c # s) w then remove_all w (length w - 1) s else c # remove_all w 0 s)"

definition hex_value :: "char \<Rightarrow> nat option" where
  "hex_value c = (let n = code c in
     if 48 \<le> n \<and> n \<le> 57 then Some (n - 48) else if 97 \<le> n \<and> n \<le> 102 then Some (n - 87)
     else if 65 \<le> n \<and> n \<le> 70 then Some (n - 55) else None)"

text \<open>The digits of \<open>int(s, 16)\<close>, with single underscores between them.\<close>

fun hex_number :: "bool \<Rightarrow> int \<Rightarrow> string \<Rightarrow> int option" where
  "hex_number prev n [] = (if prev then Some n else None)"
| "hex_number prev n (c # s) = (case hex_value c of Some d \<Rightarrow> hex_number True (16 * n + int d) s
     | None \<Rightarrow> if c = CHR ''_'' \<and> prev then hex_number False n s else None)"

definition int16 :: "string \<Rightarrow> int option" where
  "int16 s = (case split_sign (strip s) of (neg, r) \<Rightarrow>
     (let px = starts_with (lower r) ''0x'' in
      map_option (\<lambda>n. if neg then - n else n) (hex_number px 0 (if px then drop 2 r else r))))"

fun hex_digits :: "nat \<Rightarrow> int \<Rightarrow> string" where
  "hex_digits 0 n = []"
| "hex_digits (Suc k) n = hex_digits k (n div 16) @ [char_of (nat (if n mod 16 < 10 then 48 + n mod 16 else 87 + n mod 16))]"

definition uuid_text :: "int \<Rightarrow> string" where
  "uuid_text n = (let h = hex_digits 32 n in
     take 8 h @ ''-'' @ take 4 (drop 8 h) @ ''-'' @ take 4 (drop 12 h) @ ''-'' @ take 4 (drop 16 h) @ ''-'' @ drop 20 h)"

text \<open>\<open>str(UUID(s))\<close>\<close>

definition canonical_uuid :: "string \<Rightarrow> string option" where
  "canonical_uuid s =
     (let h = filter (\<lambda>c. c \<noteq> CHR ''-'') (strip_chars (\<lambda>c. c = CHR 0x7B \<or> c = CHR 0x7D) (remove_all ''uuid:'' 0 (remove_all ''urn:'' 0 s)))
      in if length h \<noteq> 32 then None
         else (case int16 h of Some i \<Rightarrow> if i \<ge> 0 then Some (uuid_text i) else None | None \<Rightarrow> None))"

definition uuid_of_value :: "pyval \<Rightarrow> string res" where
  "uuid_of_value v = (case v of PStr s \<Rightarrow> (case canonical_uuid s of Some u \<Rightarrow> Inr u | None \<Rightarrow> Inl ValueError)
     | PNone \<Rightarrow> Inl TypeError | _ \<Rightarrow> Inl AttributeError)"

section \<open>The stored credential\<close>

text \<open>An identifier or key that came from a server may be any value until it is checked.\<close>

record device_credentials =
  dc_url :: string
  dc_device :: pyval
  dc_key :: pyval

text \<open>The path rules of the platform: suffix, absoluteness, and a path under the folder of a file.\<close>

record path_rules =
  pr_suffix :: "string \<Rightarrow> string"
  pr_absolute :: "string \<Rightarrow> bool"
  pr_beside :: "string \<Rightarrow> string \<Rightarrow> string"

definition credentials_path :: "path_rules \<Rightarrow> string \<Rightarrow> dict \<Rightarrow> string res" where
  "credentials_path pr config_path config =
     (case dget_or config ''device_credentials_file'' (PStr ''device-credentials.dpapi'') of
        PStr f \<Rightarrow> if f = [] then Inl ValueError
          else if lower (pr_suffix pr f) \<noteq> ''.dpapi'' then Inl ValueError
          else Inr (if pr_absolute pr f then f else pr_beside pr config_path f)
      | _ \<Rightarrow> Inl ValueError)"

type_synonym files = "string \<Rightarrow> string option"

text \<open>The protection functions exist on Windows only.\<close>

definition protect :: "bool \<Rightarrow> (string \<Rightarrow> string res) \<Rightarrow> string \<Rightarrow> string res" where
  "protect windows f data = (if windows then f data else Inl RuntimeError)"

definition ensure_storage_available :: "bool \<Rightarrow> (string \<Rightarrow> string res) \<Rightarrow> (string \<Rightarrow> string res) \<Rightarrow> unit res" where
  "ensure_storage_available windows enc dec =
     bindR (protect windows enc ''ally-device-storage-check'') (\<lambda>x.
     bindR (protect windows dec x) (\<lambda>y. guardR (y = ''ally-device-storage-check'') RuntimeError))"

definition credential_payload :: "device_credentials \<Rightarrow> pyval" where
  "credential_payload c = PDict [(''version'', PInt 1), (''server_url'', PStr (dc_url c)),
     (''device_id'', dc_device c), (''api_key'', dc_key c)]"

text \<open>\<open>now\<close> are the files when the new one is published: another process may have created the path since
  it was checked, and then publishing without replacement fails.\<close>

definition save_credentials ::
  "(string \<Rightarrow> bool) \<Rightarrow> bool \<Rightarrow> (string \<Rightarrow> string res) \<Rightarrow> (pyval \<Rightarrow> string) \<Rightarrow> string \<Rightarrow> device_credentials \<Rightarrow> bool \<Rightarrow> files \<Rightarrow> files \<Rightarrow> files res" where
  "save_credentials ip6 windows enc dumps path c replace fs now =
     bindR (guardR (fs path = None \<or> replace) OSError) (\<lambda>_.
     bindR (validate_server_url ip6 (dc_url c)) (\<lambda>_.
     bindR (uuid_of_value (dc_device c)) (\<lambda>_.
     bindR (if \<not> truthy (dc_key c) then Inl ValueError else bindR (py_len (dc_key c)) (\<lambda>n. guardR (n \<le> 256) ValueError)) (\<lambda>_.
     bindR (protect windows enc (dumps (credential_payload c))) (\<lambda>protected.
     bindR (guardR (replace \<or> now path = None) OSError) (\<lambda>_.
     Inr (now(path \<mapsto> protected))))))))"

definition url_of_value :: "(string \<Rightarrow> bool) \<Rightarrow> pyval \<Rightarrow> string res" where
  "url_of_value ip6 v = (case v of PStr s \<Rightarrow> validate_server_url ip6 s
     | _ \<Rightarrow> if truthy v then Inl AttributeError else Inl ValueError)"

definition dreq :: "dict \<Rightarrow> string \<Rightarrow> pyval res" where
  "dreq d k = (case map_of d k of None \<Rightarrow> Inl KeyError | Some v \<Rightarrow> Inr v)"

definition checked_key :: "pyval \<Rightarrow> string res" where
  "checked_key v = (case v of PStr s \<Rightarrow> if s = [] \<or> length s > 256 then Inl ValueError else Inr s | _ \<Rightarrow> Inl ValueError)"

definition json_value :: "json_result \<Rightarrow> pyval res" where
  "json_value r = (case r of JValue v \<Rightarrow> Inr v | JDecodeError \<Rightarrow> Inl ValueError | JRaises e \<Rightarrow> Inl e)"

definition load_credentials ::
  "(string \<Rightarrow> bool) \<Rightarrow> bool \<Rightarrow> (string \<Rightarrow> string res) \<Rightarrow> (string \<Rightarrow> json_result) \<Rightarrow> string \<Rightarrow> string \<Rightarrow> files \<Rightarrow> device_credentials res" where
  "load_credentials ip6 windows dec loads path server_url fs =
     bindR (validate_server_url ip6 server_url) (\<lambda>expected.
     bindR (case fs path of None \<Rightarrow> Inl OSError | Some x \<Rightarrow> Inr x) (\<lambda>data.
     bindR (guardR (length data \<le> 16384) ValueError) (\<lambda>_.
     bindR (bindR (protect windows dec data) (\<lambda>x. json_value (loads x))) (\<lambda>payload.
     (case payload of PDict d \<Rightarrow>
        bindR (guardR (dget d ''version'' \<in> {PInt 1, PBool True, PFloat (Fin 1)}) ValueError) (\<lambda>_.
        bindR (bindR (dreq d ''server_url'') (url_of_value ip6)) (\<lambda>url.
        bindR (guardR (url = expected) ValueError) (\<lambda>_.
        bindR (bindR (dreq d ''device_id'') uuid_of_value) (\<lambda>device.
        bindR (bindR (dreq d ''api_key'') checked_key) (\<lambda>key.
        Inr \<lparr>dc_url = expected, dc_device = PStr device, dc_key = PStr key\<rparr>)))))
      | _ \<Rightarrow> Inl ValueError)))))"

section \<open>Enrollment\<close>

definition redeem_endpoint :: "split_url \<Rightarrow> string" where
  "redeem_endpoint u = urlunsplit (if u_scheme u = ''wss'' then ''https'' else ''http'') (u_netloc u) ''/auth/devices/redeem''"

text \<open>The posts that were made, and the result. \<open>post\<close> does not follow redirects.\<close>

definition redeem_device ::
  "(string \<Rightarrow> bool) \<Rightarrow> (string \<Rightarrow> string \<Rightarrow> string res) \<Rightarrow> (string \<Rightarrow> json_result) \<Rightarrow> string \<Rightarrow> string \<Rightarrow> (string \<times> string) list \<times> device_credentials res" where
  "redeem_device ip6 post loads server_url token =
     (case bindR (validate_server_url ip6 server_url) (\<lambda>url. bindR (guardR (32 \<le> length token \<and> length token \<le> 128) ValueError) (\<lambda>_.
        bindR (urlsplit ip6 url) (\<lambda>u. Inr (url, redeem_endpoint u)))) of
        Inl e \<Rightarrow> ([], Inl e)
      | Inr (url, endpoint) \<Rightarrow> ([(endpoint, token)],
          bindR (post endpoint token) (\<lambda>data.
          bindR (guardR (length data \<le> 4096) ValueError) (\<lambda>_.
          bindR (json_value (loads data)) (\<lambda>v. case v of
              PDict d \<Rightarrow> bindR (dreq d ''device_id'') (\<lambda>device. bindR (dreq d ''api_key'') (\<lambda>key.
                Inr \<lparr>dc_url = url, dc_device = device, dc_key = key\<rparr>))
            | _ \<Rightarrow> Inl TypeError)))))"

record pair_env =
  pe_tty :: bool
  pe_config :: "dict res"
  pe_answer :: string
  pe_token :: string
  pe_files :: files
  pe_files_later :: files

text \<open>The posts, the files left behind, and whether enrollment succeeded (exit code 0).\<close>

definition pair_main ::
  "(string \<Rightarrow> bool) \<Rightarrow> path_rules \<Rightarrow> bool \<Rightarrow> (string \<Rightarrow> string res) \<Rightarrow> (string \<Rightarrow> string res) \<Rightarrow> (pyval \<Rightarrow> string) \<Rightarrow> (string \<Rightarrow> json_result) \<Rightarrow>
     (string \<Rightarrow> string \<Rightarrow> string res) \<Rightarrow> string \<Rightarrow> bool \<Rightarrow> pair_env \<Rightarrow> (string \<times> string) list \<times> files res" where
  "pair_main ip6 pr windows enc dec dumps loads post config_path replace pe =
     (case bindR (guardR (pe_tty pe) RuntimeError) (\<lambda>_.
        bindR (pe_config pe) (\<lambda>config.
        bindR (bindR (dreq config ''server_url'') (url_of_value ip6)) (\<lambda>server_url.
        bindR (credentials_path pr config_path config) (\<lambda>path.
        bindR (guardR (pe_files pe path = None \<or> replace) OSError) (\<lambda>_.
        bindR (ensure_storage_available windows enc dec) (\<lambda>_.
        bindR (guardR (pe_answer pe = ''PAIR'') ValueError) (\<lambda>_.
        Inr (server_url, path)))))))) of
        Inl e \<Rightarrow> ([], Inl e)
      | Inr (server_url, path) \<Rightarrow>
          (case redeem_device ip6 post loads server_url (pe_token pe) of
             (posts, Inl e) \<Rightarrow> (posts, Inl e)
           | (posts, Inr enrollment) \<Rightarrow>
               (posts, save_credentials ip6 windows enc dumps path enrollment replace (pe_files pe) (pe_files_later pe))))"

section \<open>Properties\<close>

lemma validate_split:
  assumes "\<And>h. ip6 (lower h) = ip6 h" "validate_server_url ip6 url = Inr v"
  shows "\<exists>u. urlsplit ip6 v = Inr u \<and> server_url_ok u \<and> v = urlunsplit (u_scheme u) (lower (u_netloc u)) (u_path u)"
  using validate_server_url_idem[OF assms] by (auto simp: validate_server_url_def)

text \<open>A saved credential is read back for its server: after a successful save the file holds a credential
  that loads for every address of the same server, with the identifier in canonical form and the same
  key; no other file changes, and without replacement neither the check nor the publication found a
  file in its place.\<close>

lemma credentials_roundtrip:
  assumes "\<And>h. ip6 (lower h) = ip6 h" "loads (dumps (credential_payload c)) = JValue (credential_payload c)"
    "\<And>y. enc (dumps (credential_payload c)) = Inr y \<Longrightarrow> dec y = Inr (dumps (credential_payload c)) \<and> length y \<le> 16384"
    "save_credentials ip6 windows enc dumps path c replace fs now = Inr after" "dc_key c = PStr key"
    "validate_server_url ip6 (dc_url c) = validate_server_url ip6 server_url"
  shows "(\<exists>url device. validate_server_url ip6 server_url = Inr url \<and> validate_server_url ip6 url = Inr url \<and>
      uuid_of_value (dc_device c) = Inr device \<and>
      load_credentials ip6 windows dec loads path server_url after = Inr \<lparr>dc_url = url, dc_device = PStr device, dc_key = PStr key\<rparr>) \<and>
    (\<forall>p. p = path \<or> after p = now p) \<and> (replace \<or> fs path = None \<and> now path = None)"
proof -
  obtain url device y where s: "validate_server_url ip6 server_url = Inr url" "uuid_of_value (dc_device c) = Inr device"
    "windows" "enc (dumps (credential_payload c)) = Inr y" "after = now(path \<mapsto> y)" "key \<noteq> []" "length key \<le> 256"
    "replace \<or> fs path = None \<and> now path = None"
    using assms(4-6) by (auto simp: save_credentials_def protect_def py_len_def split: if_splits)
  have d: "dec y = Inr (dumps (credential_payload c))" "length y \<le> 16384" using assms(3)[OF s(4)] by auto
  have "load_credentials ip6 windows dec loads path server_url after = Inr \<lparr>dc_url = url, dc_device = PStr device, dc_key = PStr key\<rparr>"
    using s d assms(2,5,6)
    by (simp add: load_credentials_def protect_def json_value_def credential_payload_def guardR_def dreq_def
        url_of_value_def checked_key_def)
  then show ?thesis using s(1,2,5,8) validate_server_url_idem[OF assms(1) s(1)] by auto
qed

lemma credentials_roundtrip_witness:
  "load_credentials (\<lambda>h. False) True Inr (\<lambda>x. JValue (credential_payload \<lparr>dc_url = ''ws://localhost/ws/pc-agent'',
       dc_device = PStr ''12345678123456781234567812345678'', dc_key = PStr ''k''\<rparr>)) ''c.dpapi'' ''WS://LocalHost/ws/pc-agent''
     [''c.dpapi'' \<mapsto> ''x''] = Inr \<lparr>dc_url = ''ws://localhost/ws/pc-agent'',
       dc_device = PStr ''12345678-1234-5678-1234-567812345678'', dc_key = PStr ''k''\<rparr>"
proof -
  let ?c = "\<lparr>dc_url = ''ws://localhost/ws/pc-agent'', dc_device = PStr ''12345678123456781234567812345678'', dc_key = PStr ''k''\<rparr>"
  let ?loads = "\<lambda>x. JValue (credential_payload ?c)"
  let ?i = "\<lambda>h :: string. False"
  have v: "validate_server_url ?i ''ws://localhost/ws/pc-agent'' = Inr ''ws://localhost/ws/pc-agent''"
    "validate_server_url ?i ''WS://LocalHost/ws/pc-agent'' = Inr ''ws://localhost/ws/pc-agent''" by code_simp+
  have u: "uuid_of_value (PStr ''12345678123456781234567812345678'') = Inr ''12345678-1234-5678-1234-567812345678''" by code_simp
  have s: "save_credentials ?i True Inr (\<lambda>x. ''x'') ''c.dpapi'' ?c False Map.empty Map.empty = Inr [''c.dpapi'' \<mapsto> ''x'']"
    using v u by (simp add: save_credentials_def protect_def py_len_def guardR_def)
  show ?thesis
    using credentials_roundtrip[OF _ _ _ s, of ?loads Inr "''k''" "''WS://LocalHost/ws/pc-agent''"] v u by auto
qed

text \<open>The enrollment secret is sent at most once, over TLS unless the server is this machine, to the
  redemption endpoint of the configured server, and only after the user agreed in a terminal, storage
  was probed and no credential would be overwritten by accident.\<close>

lemma pairing_secret:
  assumes "\<And>h. ip6 (lower h) = ip6 h" "fst (pair_main ip6 pr windows enc dec dumps loads post config_path replace pe) = posts" "posts \<noteq> []"
  shows "pe_tty pe \<and> pe_answer pe = ''PAIR'' \<and> ensure_storage_available windows enc dec = Inr () \<and>
    (\<exists>config server_url url u path. pe_config pe = Inr config \<and> dget config ''server_url'' = PStr server_url \<and>
       validate_server_url ip6 server_url = Inr url \<and> urlsplit ip6 url = Inr u \<and> posts = [(redeem_endpoint u, pe_token pe)] \<and>
       (u_scheme u = ''wss'' \<or> url_hostname u \<in> Some ` LOOPBACK) \<and>
       credentials_path pr config_path config = Inr path \<and> (replace \<or> pe_files pe path = None))"
proof -
  obtain config url path where m: "pe_tty pe" "pe_config pe = Inr config"
    "bindR (dreq config ''server_url'') (url_of_value ip6) = Inr url" "credentials_path pr config_path config = Inr path"
    "replace \<or> pe_files pe path = None" "ensure_storage_available windows enc dec = Inr ()" "pe_answer pe = ''PAIR''"
    "fst (redeem_device ip6 post loads url (pe_token pe)) = posts"
    using assms(2,3) by (auto simp: pair_main_def split: sum.splits prod.splits)
  obtain server_url where u: "dget config ''server_url'' = PStr server_url" "validate_server_url ip6 server_url = Inr url"
    using m(3) by (auto simp: dreq_def dget_def url_of_value_def split: option.splits pyval.splits if_splits)
  obtain u where w: "urlsplit ip6 url = Inr u" "server_url_ok u" using validate_split[OF assms(1) u(2)] by blast
  have "posts = [(redeem_endpoint u, pe_token pe)]" using m(8) assms(3) w(1) validate_server_url_idem[OF assms(1) u(2)]
    by (auto simp: redeem_device_def split: sum.splits prod.splits)
  moreover have "u_scheme u = ''wss'' \<or> url_hostname u \<in> Some ` LOOPBACK" using w(2) by (auto simp: server_url_ok_def)
  ultimately show ?thesis using m u w by blast
qed

lemma pairing_secret_witness:
  "\<exists>u. urlsplit (\<lambda>h. False) ''wss://a.b/ws/pc-agent'' = Inr u \<and> redeem_endpoint u = ''https://a.b/auth/devices/redeem'' \<and>
     fst (pair_main (\<lambda>h. False) \<lparr>pr_suffix = (\<lambda>f. ''.dpapi''), pr_absolute = (\<lambda>f. False), pr_beside = (\<lambda>c f. f)\<rparr>
       True Inr Inr (\<lambda>v. []) (\<lambda>s. JDecodeError) (\<lambda>e t. Inl OSError) ''config.json'' False
       \<lparr>pe_tty = True, pe_config = Inr [(''server_url'', PStr ''wss://a.b/ws/pc-agent'')], pe_answer = ''PAIR'',
        pe_token = replicate 32 CHR ''t'', pe_files = Map.empty, pe_files_later = Map.empty\<rparr>)
     = [(redeem_endpoint u, replicate 32 CHR ''t'')]"
proof -
  let ?i = "\<lambda>h :: string. False"
  let ?pr = "\<lparr>pr_suffix = (\<lambda>f. ''.dpapi''), pr_absolute = (\<lambda>f. False), pr_beside = (\<lambda>c f. f)\<rparr>"
  let ?pe = "\<lparr>pe_tty = True, pe_config = Inr [(''server_url'', PStr ''wss://a.b/ws/pc-agent'')], pe_answer = ''PAIR'',
        pe_token = replicate 32 CHR ''t'', pe_files = Map.empty, pe_files_later = Map.empty\<rparr>"
  let ?p = "fst (pair_main ?i ?pr True Inr Inr (\<lambda>v. []) (\<lambda>s. JDecodeError) (\<lambda>e t. Inl OSError) ''config.json'' False ?pe)"
  have v: "validate_server_url ?i ''wss://a.b/ws/pc-agent'' = Inr ''wss://a.b/ws/pc-agent''" by code_simp
  have e: "\<exists>u. urlsplit ?i ''wss://a.b/ws/pc-agent'' = Inr u \<and> redeem_endpoint u = ''https://a.b/auth/devices/redeem''"
  proof -
    have "is_ok (bindR (urlsplit ?i ''wss://a.b/ws/pc-agent'') (\<lambda>u. guardR (redeem_endpoint u = ''https://a.b/auth/devices/redeem'') ValueError))"
      by code_simp
    then show ?thesis by (auto simp: is_ok_iff)
  qed
  have n: "?p \<noteq> []"
    by code_simp
  show ?thesis using pairing_secret[OF _ refl n] e v by (auto simp: dget_def)
qed

end
