(* ===== verification/Effects.thy ===== *)
theory Effects
  imports Ally_Prelude
begin

text \<open>
  Actions with a history of events: an action takes the history and extends it, and returns a value or
  an error. What the world answers may depend on the whole history.
\<close>

type_synonym ('e, 'a) act = "'e list \<Rightarrow> 'e list \<times> 'a res"

definition retA :: "'a \<Rightarrow> ('e, 'a) act" where
  "retA x = (\<lambda>t. (t, Inr x))"

definition failA :: "exn \<Rightarrow> ('e, 'a) act" where
  "failA e = (\<lambda>t. (t, Inl e))"

definition bindA :: "('e, 'a) act \<Rightarrow> ('a \<Rightarrow> ('e, 'b) act) \<Rightarrow> ('e, 'b) act" where
  "bindA m f = (\<lambda>t. case m t of (t', Inl e) \<Rightarrow> (t', Inl e) | (t', Inr x) \<Rightarrow> f x t')"

definition liftA :: "'a res \<Rightarrow> ('e, 'a) act" where
  "liftA r = (\<lambda>t. (t, r))"

definition emitA :: "'e \<Rightarrow> ('e, unit) act" where
  "emitA e = (\<lambda>t. (t @ [e], Inr ()))"

text \<open>Ask the world, whose answer depends on the history.\<close>

definition lookA :: "('e list \<Rightarrow> 'a) \<Rightarrow> ('e, 'a) act" where
  "lookA f = (\<lambda>t. (t, Inr (f t)))"

text \<open>Do something that either fails before it happens or happens: the event is recorded either way.\<close>

definition doA :: "'e \<Rightarrow> 'a res \<Rightarrow> ('e, 'a) act" where
  "doA e r = (\<lambda>t. (t @ [e], r))"

text \<open>The subclasses of \<open>OSError\<close>.\<close>

definition os_error :: "exn \<Rightarrow> bool" where
  "os_error e = (e \<in> {OSError, PermissionError, TimeoutError})"

section \<open>What an action adds to the history\<close>

text \<open>\<open>adds m P\<close>: whatever happened before, \<open>m\<close> only appends, and \<open>P\<close> holds of what it appends and
  of its result.\<close>

definition adds :: "('e, 'a) act \<Rightarrow> ('e list \<Rightarrow> 'a res \<Rightarrow> bool) \<Rightarrow> bool" where
  "adds m P = (\<forall>t. \<exists>d. fst (m t) = t @ d \<and> P d (snd (m t)))"

lemma addsD: "adds m P \<Longrightarrow> m t = (t', r) \<Longrightarrow> \<exists>d. t' = t @ d \<and> P d r"
  unfolding adds_def by (metis fst_conv snd_conv)

lemma addsI: "(\<And>t t' r. m t = (t', r) \<Longrightarrow> \<exists>d. t' = t @ d \<and> P d r) \<Longrightarrow> adds m P"
  unfolding adds_def by (metis prod.collapse)

lemma adds_mono: "adds m P \<Longrightarrow> (\<And>d r. P d r \<Longrightarrow> Q d r) \<Longrightarrow> adds m Q"
  unfolding adds_def by metis

lemma adds_retA: "P [] (Inr x) \<Longrightarrow> adds (retA x) P"
  by (simp add: adds_def retA_def)

lemma adds_failA: "P [] (Inl e) \<Longrightarrow> adds (failA e) P"
  by (simp add: adds_def failA_def)

lemma adds_liftA: "P [] r \<Longrightarrow> adds (liftA r) P"
  by (simp add: adds_def liftA_def)

lemma adds_emitA: "P [e] (Inr ()) \<Longrightarrow> adds (emitA e) P"
  by (simp add: adds_def emitA_def)

lemma adds_doA: "P [e] r \<Longrightarrow> adds (doA e r) P"
  by (simp add: adds_def doA_def)

lemma adds_lookA: "(\<And>x. P [] (Inr x)) \<Longrightarrow> adds (lookA f) P"
  by (simp add: adds_def lookA_def)

lemma adds_bindA:
  assumes m: "adds m P"
    and e: "\<And>d e. P d (Inl e) \<Longrightarrow> Q d (Inl e)"
    and f: "\<And>d x. P d (Inr x) \<Longrightarrow> adds (f x) (\<lambda>d' r. Q (d @ d') r)"
  shows "adds (bindA m f) Q"
proof (rule addsI)
  fix t t' r
  assume b: "bindA m f t = (t', r)"
  obtain t1 r1 where m1: "m t = (t1, r1)" by (cases "m t")
  obtain d where d: "t1 = t @ d" "P d r1" using addsD[OF m m1] by blast
  show "\<exists>d. t' = t @ d \<and> Q d r"
  proof (cases r1)
    case (Inl x)
    then show ?thesis using b m1 d e by (auto simp: bindA_def)
  next
    case (Inr x)
    then have "f x t1 = (t', r)" using b m1 by (simp add: bindA_def)
    from addsD[OF f[OF d(2)[unfolded Inr]] this] show ?thesis using d(1) by auto
  qed
qed

lemma bindA_liftA [simp]: "bindA (liftA (Inr x)) f = f x" "bindA (liftA (Inl e)) f = failA e"
  by (simp_all add: bindA_def liftA_def failA_def)

text \<open>Actions that do nothing but look and compute.\<close>

definition silent :: "('e, 'a) act \<Rightarrow> bool" where
  "silent m = adds m (\<lambda>d r. d = [])"

text \<open>At most one event, which satisfies \<open>P\<close>, and exactly one when the action succeeds.\<close>

definition once :: "('e \<Rightarrow> bool) \<Rightarrow> ('e, 'a) act \<Rightarrow> bool" where
  "once P m = adds m (\<lambda>d r. (d = [] \<and> \<not> is_ok r) \<or> (\<exists>e. d = [e] \<and> P e))"

lemma once_failA [intro]: "once P (failA e)"
  unfolding once_def by (rule adds_failA) simp

lemma once_doA [intro]: "P e \<Longrightarrow> once P (doA e r)"
  unfolding once_def by (rule adds_doA) simp

lemma once_mono: "once P m \<Longrightarrow> (\<And>e. P e \<Longrightarrow> Q e) \<Longrightarrow> once Q m"
  unfolding once_def by (erule adds_mono) auto

end
