(* ===== verification/Pc_World.thy ===== *)
theory Pc_World
  imports Effects Device_Credentials
begin

text \<open>
  What the companion does to the PC, as a history of events.
\<close>

text \<open>The approval context of a web result: the search phrase, and the title and address shown.\<close>

type_synonym approval_context = "(string \<times> string \<times> string) option"

datatype pc_event =
    Checked bool
  | Asked string dict approval_context bool
  | Probed string
  | WebSearched string
  | OpenedUrl string
  | OpenedPath string
  | StartedApp string
  | StartedExe string
  | ListedWindows
  | FocusedWindow string
  | ClosedWindow string
  | ReadFile string
  | WroteFile string string
  | ListedFolder string
  | Audited dict
  | RanShell string
  | MovedMouse int int
  | Clicked pyval
  | Typed string
  | Pressed string

type_synonym 'a pc_act = "(pc_event, 'a) act"

end
