(* ===== verification/App_Launcher.thy ===== *)
theory App_Launcher
  imports Pc_World Intent
begin

text \<open>
  Resolving what the user calls an application or a website (\<open>local_agent/app_launcher.py\<close>): the Start
  Menu match, the resolution order, and the web search with the links of its result page. The file
  system, the executables on the path, the Start Menu and the web are arguments, as are the events
  of the HTML parser and the decoding of a query string.
\<close>

section \<open>Similarity of names\<close>

text \<open>
  \<open>difflib.SequenceMatcher(None, a, b)\<close>: the longest matching block, the earliest in \<open>a\<close> and then in
  \<open>b\<close>, found among the characters of \<open>b\<close> that are not popular, and extended by equal characters on
  both sides; then the same to its left and right.
\<close>

definition popular :: "string \<Rightarrow> char \<Rightarrow> bool" where
  "popular b c = (length b \<ge> 200 \<and> length (filter ((=) c) b) > length b div 100 + 1)"

fun common_prefix :: "(char \<Rightarrow> bool) \<Rightarrow> string \<Rightarrow> string \<Rightarrow> nat" where
  "common_prefix p (x # a) (y # b) = (if x = y \<and> \<not> p x then Suc (common_prefix p a b) else 0)"
| "common_prefix p a b = 0"

text \<open>The best block so far is \<open>(i, j, k)\<close>; later ones must be longer.\<close>

definition longest_match :: "(char \<Rightarrow> bool) \<Rightarrow> string \<Rightarrow> string \<Rightarrow> nat \<times> nat \<times> nat" where
  "longest_match p a b =
     fold (\<lambda>(i, j) (bi, bj, bk). let k = common_prefix p (drop i a) (drop j b) in if k > bk then (i, j, k) else (bi, bj, bk))
       (List.product [0..<length a] [0..<length b]) (0, 0, 0)"

definition extend_match :: "string \<Rightarrow> string \<Rightarrow> nat \<times> nat \<times> nat \<Rightarrow> nat \<times> nat \<times> nat" where
  "extend_match a b m = (case m of (i, j, k) \<Rightarrow>
     let l = common_prefix (\<lambda>c. False) (rev (take i a)) (rev (take j b));
         r = common_prefix (\<lambda>c. False) (drop (i + k) a) (drop (j + k) b)
     in (i - l, j - l, k + l + r))"

fun matched :: "nat \<Rightarrow> (char \<Rightarrow> bool) \<Rightarrow> string \<Rightarrow> string \<Rightarrow> nat" where
  "matched 0 p a b = 0"
| "matched (Suc fuel) p a b =
     (case extend_match a b (longest_match p a b) of (i, j, k) \<Rightarrow>
        if k = 0 then 0
        else k + matched fuel p (take i a) (take j b) + matched fuel p (drop (i + k) a) (drop (j + k) b))"

definition similarity :: "string \<Rightarrow> string \<Rightarrow> rat" where
  "similarity a b = (if a = [] \<and> b = [] then 1
     else 2 * of_nat (matched (Suc (length a)) (popular b) a b) / of_nat (length a + length b))"

section \<open>The Start Menu\<close>

record start_app =
  app_name :: string
  app_id :: string

text \<open>What PowerShell printed, already decoded; anything but Windows has no such list.\<close>

definition start_item :: "(pyfloat \<Rightarrow> string) \<Rightarrow> pyval \<Rightarrow> start_app list res" where
  "start_item fl v = (case v of
       PDict d \<Rightarrow> Inr (if truthy (dget d ''Name'') \<and> truthy (dget d ''AppID'')
         then [\<lparr>app_name = pv_str fl (dget d ''Name''), app_id = pv_str fl (dget d ''AppID'')\<rparr>] else [])
     | _ \<Rightarrow> Inl AttributeError)"

fun start_items :: "(pyfloat \<Rightarrow> string) \<Rightarrow> pyval list \<Rightarrow> start_app list res" where
  "start_items fl [] = Inr []"
| "start_items fl (v # vs) = bindR (start_item fl v) (\<lambda>a. bindR (start_items fl vs) (\<lambda>as. Inr (a @ as)))"

definition list_start_apps :: "(pyfloat \<Rightarrow> string) \<Rightarrow> (string \<Rightarrow> json_result) \<Rightarrow> bool \<Rightarrow> string res \<Rightarrow> start_app list res" where
  "list_start_apps fl loads windows stdout =
     (if \<not> windows then Inr []
      else (case stdout of Inl e \<Rightarrow> if os_error e then Inr [] else Inl e
        | Inr text0 \<Rightarrow> let text = strip text0 in
           if text = [] then Inr []
           else (case loads text of JDecodeError \<Rightarrow> Inr [] | JRaises e \<Rightarrow> Inl e
             | JValue (PDict d) \<Rightarrow> start_items fl [PDict d]
             | JValue (PList vs) \<Rightarrow> start_items fl vs
             | JValue (PStr s) \<Rightarrow> if s = [] then Inr [] else Inl AttributeError
             | JValue _ \<Rightarrow> Inl TypeError)))"

definition rx_not_an_app :: rx where
  "rx_not_an_app = rx_seq [RBound, rx_alt (map rx_lit [''runtime'', ''redistributable'', ''uninstall'', ''updater'', ''update'',
     ''setup'', ''installer'', ''helper''] @ [rx_seq [rx_lit ''webview'', rx_opt (rx_lit ''2'')]]), RBound]"

definition whole_word :: "string \<Rightarrow> string \<Rightarrow> bool" where
  "whole_word q name = rx_search (rx_seq [RBound, rx_lit q, RBound]) name"

definition base_rank :: "bool \<Rightarrow> string \<Rightarrow> string \<Rightarrow> nat option" where
  "base_rank exact q name =
     (if name = q then Some 0 else if exact then None
      else if starts_with name q \<or> whole_word q name then Some 1
      else if occurs_in q name then Some 3
      else if similarity q name \<ge> 4 / 5 then Some 4 else None)"

definition app_rank :: "bool \<Rightarrow> string \<Rightarrow> start_app \<Rightarrow> (nat \<times> nat) option" where
  "app_rank exact q a = (let name = casefold (app_name a) in
     map_option (\<lambda>r. (if r > 0 \<and> rx_search rx_not_an_app name then r + 10 else r, length name)) (base_rank exact q name))"

definition ranks_before :: "nat \<times> nat \<Rightarrow> nat \<times> nat \<Rightarrow> bool" where
  "ranks_before x y = (fst x < fst y \<or> fst x = fst y \<and> snd x < snd y)"

fun best_app :: "bool \<Rightarrow> string \<Rightarrow> ((nat \<times> nat) \<times> start_app) option \<Rightarrow> start_app list \<Rightarrow> ((nat \<times> nat) \<times> start_app) option" where
  "best_app exact q best [] = best"
| "best_app exact q best (a # as) =
     best_app exact q (case app_rank exact q a of None \<Rightarrow> best
       | Some r \<Rightarrow> (case best of None \<Rightarrow> Some (r, a) | Some (r0, b) \<Rightarrow> if ranks_before r r0 then Some (r, a) else best)) as"

definition match_app :: "string \<Rightarrow> start_app list \<Rightarrow> bool \<Rightarrow> start_app option" where
  "match_app query apps exact = (let q = strip (casefold query) in
     if q = [] then None else map_option snd (best_app exact q None apps))"

section \<open>Web addresses\<close>

definition has_scheme :: "string \<Rightarrow> bool" where
  "has_scheme s = (starts_with (lower s) ''http://'' \<or> starts_with (lower s) ''https://'')"

definition FILE_EXTENSIONS :: "string list" where
  "FILE_EXTENSIONS = [''exe'', ''lnk'', ''bat'', ''cmd'', ''msc'', ''ps1'', ''msi'', ''txt'', ''md'', ''py'',
     ''json'', ''csv'', ''log'', ''pdf'', ''doc'', ''docx'', ''xls'', ''xlsx'', ''ppt'', ''pptx'',
     ''zip'', ''dll'', ''ini'', ''cfg'', ''yml'', ''yaml'']"

definition rx_domain :: rx where
  "rx_domain = (let label = rx_plus (RChar (\<lambda>c. is_ascii_letter c \<or> is_ascii_digit c \<or> c = CHR ''-'')) in
     rx_seq [rx_opt (rx_lit ''www.''), label, RStar (RSeq (rx_lit ''.'') label), rx_lit ''.'',
       RChar is_ascii_letter, rx_plus (RChar is_ascii_letter),
       rx_opt (RSeq (rx_lit ''/'') (RStar (RChar (\<lambda>c. \<not> py_space c))))])"

text \<open>\<open>$\<close> also matches before a newline at the end.\<close>

definition is_domain :: "string \<Rightarrow> bool" where
  "is_domain s = (rx_full rx_domain (lower s) \<or> ends_with s [CHR 0x0A] \<and> rx_full rx_domain (lower (butlast s)))"

definition looks_like_url :: "string \<Rightarrow> bool" where
  "looks_like_url s =
     (if has_scheme s then True
      else if CHR '' '' \<in> set s \<or> \<not> is_domain s then False
      else lower (after_final CHR ''.'' (before CHR ''/'' s)) \<notin> set FILE_EXTENSIONS)"

definition normalize_url :: "string \<Rightarrow> string" where
  "normalize_url s = (if has_scheme s then s else ''https://'' @ s)"

definition WEB_ALIASES :: "(string \<times> string) list" where
  "WEB_ALIASES = [(''youtube'', ''https://www.youtube.com''), (''gmail'', ''https://mail.google.com''),
     (''google'', ''https://www.google.com''), (''google drive'', ''https://drive.google.com''),
     (''drive'', ''https://drive.google.com''), (''google calendar'', ''https://calendar.google.com''),
     (''calendar'', ''https://calendar.google.com''), (''google maps'', ''https://maps.google.com''),
     (''github'', ''https://github.com''), (''linkedin'', ''https://www.linkedin.com''),
     (''reddit'', ''https://www.reddit.com''), (''stackoverflow'', ''https://stackoverflow.com''),
     (''stack overflow'', ''https://stackoverflow.com''), (''hugging face'', ''https://huggingface.co''),
     (''huggingface'', ''https://huggingface.co''), (''chatgpt'', ''https://chatgpt.com''),
     (''claude'', ''https://claude.ai''), (''twitter'', ''https://x.com''), (''x'', ''https://x.com''),
     (''facebook'', ''https://www.facebook.com''), (''netflix'', ''https://www.netflix.com'')]"

section \<open>The machine\<close>

record launcher =
  l_exists :: "string \<Rightarrow> bool"
  l_which :: "string \<Rightarrow> string option"
  l_apps :: "start_app list res"

text \<open>\<open>target.strip().strip('"').strip("'")\<close>\<close>

definition bare_name :: "string \<Rightarrow> string" where
  "bare_name target = strip_chars ((=) CHR 0x27) (strip_chars ((=) CHR ''\"'') (strip target))"

definition which_found :: "launcher \<Rightarrow> string \<Rightarrow> string option" where
  "which_found l name = (case l_which l name of Some [] \<Rightarrow> None | x \<Rightarrow> x)"

definition needs_web_search :: "launcher \<Rightarrow> string \<Rightarrow> (string \<times> string) list \<Rightarrow> bool res" where
  "needs_web_search l target aliases =
     (let name = bare_name target; key = casefold name in
      if name = [] then Inr False
      else if key \<in> set (map (casefold \<circ> fst) aliases) then Inr False
      else if looks_like_url name \<or> l_exists l name \<or> map_of WEB_ALIASES key \<noteq> None \<or> which_found l name \<noteq> None then Inr False
      else bindR (l_apps l) (\<lambda>apps. Inr (match_app name apps False = None)))"

definition launched :: "string \<Rightarrow> string \<Rightarrow> dict" where
  "launched x how = [(''launched'', PStr x), (''method'', PStr how)]"

definition launch_alias_value :: "launcher \<Rightarrow> string \<Rightarrow> dict pc_act" where
  "launch_alias_value l v =
     (if looks_like_url v then bindA (emitA (OpenedUrl (normalize_url v))) (\<lambda>_. retA (launched (normalize_url v) ''user_alias_url''))
      else if l_exists l v then bindA (emitA (OpenedPath v)) (\<lambda>_. retA (launched v ''user_alias_path''))
      else (case which_found l v of
          Some x \<Rightarrow> bindA (emitA (StartedExe x)) (\<lambda>_. retA (launched x ''user_alias_executable''))
        | None \<Rightarrow> failA ValueError))"

text \<open>Of two aliases that fold to the same key the later one counts.\<close>

definition user_alias :: "(string \<times> string) list \<Rightarrow> string \<Rightarrow> string option" where
  "user_alias aliases key = map_of (rev (map (map_prod casefold id) aliases)) key"

definition launch_known :: "launcher \<Rightarrow> string \<Rightarrow> start_app list \<Rightarrow> dict pc_act" where
  "launch_known l name apps =
     (case match_app name apps True of
        Some a \<Rightarrow> bindA (emitA (StartedApp (app_id a))) (\<lambda>_. retA (launched (app_name a) ''start_menu_app''))
      | None \<Rightarrow>
         (case map_of WEB_ALIASES (casefold name) of
            Some u \<Rightarrow> bindA (emitA (OpenedUrl u)) (\<lambda>_. retA (launched u ''web_alias''))
          | None \<Rightarrow>
             (case which_found l name of
                Some x \<Rightarrow> bindA (emitA (StartedExe x)) (\<lambda>_. retA (launched x ''path_executable''))
              | None \<Rightarrow>
                 (case match_app name apps False of
                    Some a \<Rightarrow> bindA (emitA (StartedApp (app_id a))) (\<lambda>_. retA (launched (app_name a) ''start_menu_app_fuzzy''))
                  | None \<Rightarrow> failA ValueError))))"

definition resolve_and_launch :: "launcher \<Rightarrow> string \<Rightarrow> (string \<times> string) list \<Rightarrow> dict pc_act" where
  "resolve_and_launch l target aliases =
     (let name = bare_name target in
      if name = [] then failA ValueError
      else (case user_alias aliases (casefold name) of
          Some v \<Rightarrow> launch_alias_value l v
        | None \<Rightarrow>
            if looks_like_url name then bindA (emitA (OpenedUrl (normalize_url name))) (\<lambda>_. retA (launched (normalize_url name) ''url''))
            else if l_exists l name then bindA (emitA (OpenedPath name)) (\<lambda>_. retA (launched name ''path''))
            else bindA (liftA (l_apps l)) (launch_known l name)))"

section \<open>Searching the web\<close>

text \<open>\<open>parse_qs(query).get(name, [""])[0]\<close> is \<open>qs\<close>.\<close>

definition plain_web_url :: "split_url \<Rightarrow> bool" where
  "plain_web_url u = (u_scheme u \<in> {''http'', ''https''} \<and> url_hostname u \<noteq> None \<and>
     url_username u = None \<and> url_password u = None)"

definition is_redirect :: "split_url \<Rightarrow> bool" where
  "is_redirect u = ((case url_hostname u of None \<Rightarrow> False | Some h \<Rightarrow> ends_with h ''duckduckgo.com'') \<and> u_path u = ''/l/'')"

definition unwrap_search_url :: "(string \<Rightarrow> bool) \<Rightarrow> (string \<Rightarrow> string \<Rightarrow> string option) \<Rightarrow> string \<Rightarrow> string option res" where
  "unwrap_search_url ip6 qs href0 =
     (let href = (if starts_with href0 ''//'' then ''https:'' @ href0 else href0) in
      bindR (urlsplit ip6 href) (\<lambda>u.
        if is_redirect u
        then (let target = (case qs (u_query u) ''uddg'' of None \<Rightarrow> [] | Some x \<Rightarrow> x) in
          bindR (urlsplit ip6 target) (\<lambda>v. Inr (if plain_web_url v then Some target else None)))
        else Inr (if plain_web_url u then Some href else None)))"

datatype html_event = StartTag string "(string \<times> string option) list" | HtmlData string | EndTag string

record search_state =
  sr_results :: "(string \<times> string) list"
  sr_href :: "string option"
  sr_text :: string

definition search_init :: search_state where
  "search_init = \<lparr>sr_results = [], sr_href = None, sr_text = []\<rparr>"

text \<open>\<open>s.split()\<close>\<close>

function py_words :: "string \<Rightarrow> string list" where
  "py_words s = (case dropWhile py_space s of [] \<Rightarrow> []
     | c # r \<Rightarrow> (c # takeWhile (\<lambda>c. \<not> py_space c) r) # py_words (dropWhile (\<lambda>c. \<not> py_space c) r))"
  by pat_completeness auto
termination
proof (relation "measure length")
  fix s c r
  assume d: "dropWhile py_space s = c # r"
  have "length (dropWhile (\<lambda>c. \<not> py_space c) r) \<le> length r" by (rule length_dropWhile_le)
  moreover have "length (dropWhile py_space s) \<le> length s" by (rule length_dropWhile_le)
  ultimately show "(dropWhile (\<lambda>c. \<not> py_space c) r, s) \<in> measure length" using d by simp
qed simp

declare py_words.simps [simp del]

definition attr :: "(string \<times> string option) list \<Rightarrow> string \<Rightarrow> string" where
  "attr as k = (case map_of (rev as) k of Some (Some v) \<Rightarrow> v | _ \<Rightarrow> [])"

definition html_step :: "(string \<Rightarrow> bool) \<Rightarrow> (string \<Rightarrow> string \<Rightarrow> string option) \<Rightarrow> html_event \<Rightarrow> search_state \<Rightarrow> search_state res" where
  "html_step ip6 qs ev s = (case ev of
       StartTag tag as \<Rightarrow> Inr (if tag = ''a'' \<and> ''result__a'' \<in> set (py_words (attr as ''class'')) \<and> attr as ''href'' \<noteq> []
          then s\<lparr>sr_href := Some (attr as ''href''), sr_text := []\<rparr> else s)
     | HtmlData d \<Rightarrow> Inr (if sr_href s \<noteq> None then s\<lparr>sr_text := sr_text s @ d\<rparr> else s)
     | EndTag tag \<Rightarrow> (case sr_href s of None \<Rightarrow> Inr s
         | Some href \<Rightarrow> if tag \<noteq> ''a'' then Inr s
             else (let title = join_with '' '' (py_words (sr_text s)) in
               bindR (unwrap_search_url ip6 qs href) (\<lambda>url.
                 Inr (s\<lparr>sr_results := sr_results s @ (case url of None \<Rightarrow> []
                       | Some u \<Rightarrow> if title = [] then [] else [(take 512 title, take 2048 u)]),
                     sr_href := None, sr_text := []\<rparr>)))))"

fun html_feed :: "(string \<Rightarrow> bool) \<Rightarrow> (string \<Rightarrow> string \<Rightarrow> string option) \<Rightarrow> html_event list \<Rightarrow> search_state \<Rightarrow> search_state res" where
  "html_feed ip6 qs [] s = Inr s"
| "html_feed ip6 qs (ev # evs) s = bindR (html_step ip6 qs ev s) (html_feed ip6 qs evs)"

definition SEARCH_RESPONSE_LIMIT :: nat where "SEARCH_RESPONSE_LIMIT = 1024 * 1024"

text \<open>\<open>fetch\<close> posts the query and yields the size of the body and the events of the parser; any
  failure of it is reported as one error.\<close>

definition search_web ::
  "(string \<Rightarrow> bool) \<Rightarrow> (string \<Rightarrow> string \<Rightarrow> string option) \<Rightarrow> (string \<Rightarrow> (nat \<times> html_event list) res) \<Rightarrow> string \<Rightarrow> (string \<times> string) option pc_act" where
  "search_web ip6 qs fetch target =
     (let query = strip target in
      if query = [] \<or> length query > 512 then failA ValueError
      else bindA (doA (WebSearched query) (case fetch query of Inl e \<Rightarrow> Inl RuntimeError
            | Inr (n, evs) \<Rightarrow> if n > SEARCH_RESPONSE_LIMIT then Inl RuntimeError else Inr evs)) (\<lambda>evs.
        bindA (liftA (html_feed ip6 qs evs search_init)) (\<lambda>s.
          retA (case sr_results s of [] \<Rightarrow> None | r # _ \<Rightarrow> Some r))))"

definition open_search_result ::
  "(string \<Rightarrow> bool) \<Rightarrow> (string \<Rightarrow> string \<Rightarrow> string option) \<Rightarrow> string \<Rightarrow> string \<times> string \<Rightarrow> dict pc_act" where
  "open_search_result ip6 qs query result =
     bindA (liftA (unwrap_search_url ip6 qs (snd result))) (\<lambda>url.
       (case url of None \<Rightarrow> failA ValueError
        | Some u \<Rightarrow> if strip (fst result) = [] then failA ValueError
            else bindA (emitA (OpenedUrl u)) (\<lambda>_. retA [(''launched'', PStr u), (''title'', PStr (strip (fst result))),
              (''search_query'', PStr query), (''method'', PStr ''web_search'')])))"

section \<open>The best match\<close>

lemma ranks_irrefl: "\<not> ranks_before r r"
  by (simp add: ranks_before_def)

lemma ranks_trans: "ranks_before s r \<Longrightarrow> ranks_before r q \<Longrightarrow> ranks_before s q"
  by (auto simp: ranks_before_def)

lemma best_app_inv:
  assumes "best_app exact q best as = out"
    "case best of None \<Rightarrow> (\<forall>a \<in> A. app_rank exact q a = None)
      | Some (r, b) \<Rightarrow> b \<in> A \<and> app_rank exact q b = Some r \<and> (\<forall>a \<in> A. \<forall>s. app_rank exact q a = Some s \<longrightarrow> \<not> ranks_before s r)"
  shows "case out of None \<Rightarrow> (\<forall>a \<in> A \<union> set as. app_rank exact q a = None)
      | Some (r, b) \<Rightarrow> b \<in> A \<union> set as \<and> app_rank exact q b = Some r \<and>
          (\<forall>a \<in> A \<union> set as. \<forall>s. app_rank exact q a = Some s \<longrightarrow> \<not> ranks_before s r)"
  using assms
proof (induction as arbitrary: best A)
  case Nil
  then show ?case unfolding best_app.simps set_simps Un_empty_right by blast
next
  case (Cons a as)
  let ?next = "case app_rank exact q a of None \<Rightarrow> best
       | Some r \<Rightarrow> (case best of None \<Rightarrow> Some (r, a) | Some (r0, b) \<Rightarrow> if ranks_before r r0 then Some (r, a) else best)"
  have "case ?next of None \<Rightarrow> (\<forall>a \<in> insert a A. app_rank exact q a = None)
      | Some (r, b) \<Rightarrow> b \<in> insert a A \<and> app_rank exact q b = Some r \<and>
          (\<forall>a \<in> insert a A. \<forall>s. app_rank exact q a = Some s \<longrightarrow> \<not> ranks_before s r)"
    using Cons.prems(2)
    by (cases "app_rank exact q a"; cases best)
      (auto simp: ranks_irrefl simp del: split_paired_All split_paired_Ex split: prod.splits dest: ranks_trans)
  moreover have "best_app exact q ?next as = out" using Cons.prems(1) by simp
  ultimately have "case out of None \<Rightarrow> (\<forall>b \<in> insert a A \<union> set as. app_rank exact q b = None)
      | Some (r, b) \<Rightarrow> b \<in> insert a A \<union> set as \<and> app_rank exact q b = Some r \<and>
          (\<forall>c \<in> insert a A \<union> set as. \<forall>s. app_rank exact q c = Some s \<longrightarrow> \<not> ranks_before s r)"
    using Cons.IH by blast
  moreover have "insert a A \<union> set as = A \<union> set (a # as)" by simp
  ultimately show ?case by (simp only:)
qed

lemma match_app_best: "case match_app query apps exact of
    None \<Rightarrow> strip (casefold query) = [] \<or> (\<forall>a \<in> set apps. app_rank exact (strip (casefold query)) a = None)
  | Some a \<Rightarrow> a \<in> set apps \<and> (\<exists>r. app_rank exact (strip (casefold query)) a = Some r \<and>
      (\<forall>b \<in> set apps. \<forall>s. app_rank exact (strip (casefold query)) b = Some s \<longrightarrow> \<not> ranks_before s r))"
proof -
  have "case best_app exact (strip (casefold query)) None apps of None \<Rightarrow> (\<forall>a \<in> {} \<union> set apps. app_rank exact (strip (casefold query)) a = None)
      | Some (r, b) \<Rightarrow> b \<in> {} \<union> set apps \<and> app_rank exact (strip (casefold query)) b = Some r \<and>
          (\<forall>a \<in> {} \<union> set apps. \<forall>s. app_rank exact (strip (casefold query)) a = Some s \<longrightarrow> \<not> ranks_before s r)"
    by (rule best_app_inv[OF refl]) simp
  then show ?thesis by (auto simp: match_app_def Let_def split: option.splits)
qed

lemma match_exact_any: "match_app name apps True = Some a \<Longrightarrow> match_app name apps False \<noteq> None"
proof -
  assume m: "match_app name apps True = Some a"
  let ?q = "strip (casefold name)"
  have a: "a \<in> set apps" "app_rank True ?q a \<noteq> None" using match_app_best[of name apps True] m by auto
  then have "app_rank False ?q a \<noteq> None" by (auto simp: app_rank_def base_rank_def Let_def split: if_splits)
  moreover have "?q \<noteq> []" using m by (auto simp: match_app_def Let_def)
  ultimately show ?thesis using a(1) match_app_best[of name apps False] by (cases "match_app name apps False") auto
qed

section \<open>Searching or launching\<close>

lemma bindA_emit: "bindA (emitA e) (\<lambda>_. retA x) t = (t @ [e], Inr x)"
  by (simp add: bindA_def emitA_def retA_def)

lemma user_alias_None: "key \<notin> set (map (casefold \<circ> fst) aliases) \<longleftrightarrow> user_alias aliases key = None"
  by (simp add: user_alias_def map_of_eq_None_iff image_comp comp_def)

text \<open>The decision to search agrees with what launching would do: for a name that is no alias of the
  user, when no search is needed launching does exactly one thing and succeeds, and when a search is
  needed launching does nothing and fails.\<close>

lemma search_or_launch:
  assumes "needs_web_search l target aliases = Inr b" "bare_name target \<noteq> []"
    "user_alias aliases (casefold (bare_name target)) = None" "l_apps l = Inr apps"
  shows "if b then resolve_and_launch l target aliases t = (t, Inl ValueError)
    else \<exists>e d. resolve_and_launch l target aliases t = (t @ [e], Inr d)"
proof -
  let ?n = "bare_name target"
  have k: "casefold ?n \<notin> set (map (casefold \<circ> fst) aliases)" using assms(3) user_alias_None by blast
  show ?thesis
  proof (cases "looks_like_url ?n \<or> l_exists l ?n")
    case True
    then have "\<not> b" using assms(1,2) k by (auto simp: needs_web_search_def Let_def split: if_splits)
    then show ?thesis using True assms(2,3) by (auto simp: resolve_and_launch_def Let_def bindA_emit)
  next
    case False
    note F = this
    show ?thesis
    proof (cases "map_of WEB_ALIASES (casefold ?n) \<noteq> None \<or> which_found l ?n \<noteq> None")
      case True
      then have "\<not> b" using assms(1,2) k by (auto simp: needs_web_search_def Let_def split: if_splits)
      moreover have "resolve_and_launch l target aliases t = launch_known l ?n apps t"
        using F assms(2-4) by (simp add: resolve_and_launch_def Let_def bindA_def liftA_def)
      ultimately show ?thesis using True by (auto simp: launch_known_def bindA_emit split: option.splits)
    next
      case False
      then have b: "b = (match_app ?n apps False = None)"
        using assms(1,2,4) F k by (auto simp: needs_web_search_def Let_def split: if_splits)
      have "resolve_and_launch l target aliases t = launch_known l ?n apps t"
        using F assms(2-4) by (simp add: resolve_and_launch_def Let_def bindA_def liftA_def)
      then show ?thesis using b False match_exact_any[of ?n apps]
        by (auto simp: launch_known_def bindA_emit failA_def split: option.splits)
    qed
  qed
qed

lemma search_or_launch_witness:
  "\<exists>e d. resolve_and_launch \<lparr>l_exists = (\<lambda>x. False), l_which = (\<lambda>x. None),
     l_apps = Inr [\<lparr>app_name = ''Microsoft Edge'', app_id = ''e''\<rparr>]\<rparr> '' edge'' [] [] = ([e], Inr d)"
proof -
  let ?l = "\<lparr>l_exists = (\<lambda>x. False), l_which = (\<lambda>x. None), l_apps = Inr [\<lparr>app_name = ''Microsoft Edge'', app_id = ''e''\<rparr>]\<rparr>"
  have n: "needs_web_search ?l '' edge'' [] = Inr False" by code_simp
  have b: "bare_name '' edge'' \<noteq> []" by code_simp
  have u: "user_alias [] (casefold (bare_name '' edge'')) = None" by (simp add: user_alias_def)
  have a: "l_apps ?l = Inr [\<lparr>app_name = ''Microsoft Edge'', app_id = ''e''\<rparr>]" by simp
  show ?thesis using search_or_launch[OF n b u a, of "[]"] by simp
qed

text \<open>Every result of the page is a web address without credentials, before it is cut to 2048 characters.\<close>

definition safe_result :: "(string \<Rightarrow> bool) \<Rightarrow> string \<times> string \<Rightarrow> bool" where
  "safe_result ip6 r = (fst r \<noteq> [] \<and> length (fst r) \<le> 512 \<and>
     (\<exists>href u. urlsplit ip6 href = Inr u \<and> plain_web_url u \<and> snd r = take 2048 href))"

lemma unwrap_safe: "unwrap_search_url ip6 qs href = Inr (Some x) \<Longrightarrow> \<exists>u. urlsplit ip6 x = Inr u \<and> plain_web_url u"
  by (auto simp: unwrap_search_url_def Let_def split: if_splits)

lemma html_step_safe:
  assumes "html_step ip6 qs ev s = Inr s'" "\<forall>r \<in> set (sr_results s). safe_result ip6 r"
  shows "\<forall>r \<in> set (sr_results s'). safe_result ip6 r"
proof (cases ev)
  case (EndTag tag)
  show ?thesis
  proof (cases "sr_href s")
    case (Some href)
    show ?thesis
    proof (cases "tag = ''a''")
      case True
      obtain url where u: "unwrap_search_url ip6 qs href = Inr url" "s' = s\<lparr>sr_results := sr_results s @ (case url of None \<Rightarrow> []
           | Some u \<Rightarrow> if join_with '' '' (py_words (sr_text s)) = [] then [] else [(take 512 (join_with '' '' (py_words (sr_text s))), take 2048 u)]),
         sr_href := None, sr_text := []\<rparr>"
        using assms(1) EndTag Some True by (auto simp: html_step_def Let_def)
      show ?thesis using assms(2) u unwrap_safe[of ip6 qs href]
        by (cases url) (auto simp: safe_result_def)
    qed (use assms EndTag Some in \<open>auto simp: html_step_def\<close>)
  qed (use assms EndTag in \<open>auto simp: html_step_def\<close>)
qed (use assms in \<open>auto simp: html_step_def split: if_splits\<close>)

lemma html_feed_safe: "html_feed ip6 qs evs s = Inr s' \<Longrightarrow> \<forall>r \<in> set (sr_results s). safe_result ip6 r \<Longrightarrow>
    \<forall>r \<in> set (sr_results s'). safe_result ip6 r"
proof (induction evs arbitrary: s)
  case (Cons ev evs)
  then obtain s1 where "html_step ip6 qs ev s = Inr s1" "html_feed ip6 qs evs s1 = Inr s'" by auto
  then show ?case using Cons.IH html_step_safe Cons.prems(2) by blast
qed simp

lemma search_web_adds:
  "adds (search_web ip6 qs fetch target) (\<lambda>d r. (d = [] \<or> d = [WebSearched (strip target)]) \<and>
     (\<forall>c. r = Inr (Some c) \<longrightarrow> safe_result ip6 c))"
proof (cases "strip target = [] \<or> length (strip target) > 512")
  case True
  then show ?thesis unfolding search_web_def Let_def by (simp add: adds_failA)
next
  case False
  have s: "safe_result ip6 c" if "html_feed ip6 qs evs search_init = Inr s" "sr_results s = c # rs" for evs s c rs
    using html_feed_safe[OF that(1)] that(2) by (simp add: search_init_def)
  have "adds (bindA (liftA (html_feed ip6 qs evs search_init)) (\<lambda>s. retA (case sr_results s of [] \<Rightarrow> None | r # _ \<Rightarrow> Some r)))
      (\<lambda>d r. ([WebSearched (strip target)] @ d = [WebSearched (strip target)]) \<and> (\<forall>c. r = Inr (Some c) \<longrightarrow> safe_result ip6 c))" for evs
    by (rule adds_bindA[where P = "\<lambda>d r. d = [] \<and> r = html_feed ip6 qs evs search_init"])
       (auto intro!: adds_liftA adds_retA split: list.splits dest: s[OF sym])
  note tail = this
  have "adds (bindA (doA (WebSearched (strip target)) (case fetch (strip target) of Inl e \<Rightarrow> Inl RuntimeError
            | Inr (n, evs) \<Rightarrow> if n > SEARCH_RESPONSE_LIMIT then Inl RuntimeError else Inr evs)) (\<lambda>evs.
        bindA (liftA (html_feed ip6 qs evs search_init)) (\<lambda>s.
          retA (case sr_results s of [] \<Rightarrow> None | r # _ \<Rightarrow> Some r))))
      (\<lambda>d r. (d = [] \<or> d = [WebSearched (strip target)]) \<and> (\<forall>c. r = Inr (Some c) \<longrightarrow> safe_result ip6 c))"
  proof (rule adds_bindA[where P = "\<lambda>d r. d = [WebSearched (strip target)]"])
    fix d :: "pc_event list" and evs :: "html_event list"
    assume d: "d = [WebSearched (strip target)]"
    show "adds (bindA (liftA (html_feed ip6 qs evs search_init)) (\<lambda>s. retA (case sr_results s of [] \<Rightarrow> None | r # _ \<Rightarrow> Some r)))
      (\<lambda>d' r. (d @ d' = [] \<or> d @ d' = [WebSearched (strip target)]) \<and> (\<forall>c. r = Inr (Some c) \<longrightarrow> safe_result ip6 c))"
      by (rule adds_mono[OF tail[of evs]]) (simp add: d)
  qed (rule adds_doA, simp_all)
  then show ?thesis using False unfolding search_web_def Let_def by simp
qed

text \<open>Opening a result does one thing at most: it opens a web address without credentials.\<close>

lemma open_search_result_adds:
  "adds (open_search_result ip6 qs query c) (\<lambda>d r. d = [] \<and> \<not> is_ok r \<or>
     (\<exists>x u. d = [OpenedUrl x] \<and> unwrap_search_url ip6 qs (snd c) = Inr (Some x) \<and> urlsplit ip6 x = Inr u \<and> plain_web_url u))"
proof (rule addsI)
  fix t t' r
  assume o: "open_search_result ip6 qs query c t = (t', r)"
  show "\<exists>d. t' = t @ d \<and> (d = [] \<and> \<not> is_ok r \<or>
     (\<exists>x u. d = [OpenedUrl x] \<and> unwrap_search_url ip6 qs (snd c) = Inr (Some x) \<and> urlsplit ip6 x = Inr u \<and> plain_web_url u))"
  proof (cases "unwrap_search_url ip6 qs (snd c)")
    case (Inl e)
    then show ?thesis using o by (auto simp: open_search_result_def bindA_def liftA_def)
  next
    case (Inr url)
    show ?thesis
    proof (cases url)
      case None
      then show ?thesis using o Inr by (auto simp: open_search_result_def bindA_def liftA_def failA_def)
    next
      case (Some x)
      then show ?thesis using o Inr unwrap_safe[of ip6 qs "snd c" x]
        by (auto simp: open_search_result_def bindA_def liftA_def failA_def emitA_def retA_def split: if_splits)
    qed
  qed
qed

text \<open>The address that is opened need not be the one that was shown: a result that is itself a redirect
  of the search engine is followed once more when it is opened.\<close>

lemma nested_redirect_opens_other:
  fixes qs
  defines "qs \<equiv> \<lambda>q n. Some (if q = ''uddg=1'' then ''https://duckduckgo.com/l/?uddg=2'' else ''https://elsewhere.example/'')"
  shows "unwrap_search_url (\<lambda>h. False) qs ''//duckduckgo.com/l/?uddg=1'' = Inr (Some ''https://duckduckgo.com/l/?uddg=2'') \<and>
    fst (open_search_result (\<lambda>h. False) qs ''q'' (''title'', ''https://duckduckgo.com/l/?uddg=2'') []) = [OpenedUrl ''https://elsewhere.example/'']"
  unfolding qs_def by code_simp

end
