(* ===== verification/Shell_Runner.thy ===== *)
theory Shell_Runner
  imports Pc_Actions
begin

text \<open>
  Bounded execution of an approved shell command (\<open>local_agent/shell_runner.py\<close>). The Windows kernel is
  an argument that answers each call depending on the history of calls; the cancellation flag and the
  monotonic clock are read the same way, so they change only between calls. The layout of the
  foreign structures and the signatures of the functions are not modelled.
\<close>

section \<open>Limits and results\<close>

definition MAX_COMMAND_CHARS :: nat where "MAX_COMMAND_CHARS = 8192"
definition TAIL_BYTES :: nat where "TAIL_BYTES = 4000"
definition MAX_OUTPUT_BYTES :: nat where "MAX_OUTPUT_BYTES = 1024 * 1024"
definition MAX_PROCESSES :: nat where "MAX_PROCESSES = 16"
definition MAX_JOB_MEMORY :: nat where "MAX_JOB_MEMORY = 512 * 1024 * 1024"
definition CLEANUP_SECONDS :: rat where "CLEANUP_SECONDS = 2"
definition POLL_SECONDS :: rat where "POLL_SECONDS = 1 / 100"

datatype outcome = Exited | TimedOut | Cancelled | OutputLimit | StartupFailed | RuntimeFailed

record shell_result =
  s_outcome :: outcome
  s_returncode :: "nat option"
  s_stdout :: string
  s_stderr :: string
  s_stdout_seen :: nat
  s_stderr_seen :: nat
  s_truncated :: bool
  s_started :: bool
  s_cleanup :: bool
  s_duration_ms :: int
  s_error :: "nat option"

definition shell_ended :: "outcome \<Rightarrow> shell_result" where
  "shell_ended out = \<lparr>s_outcome = out, s_returncode = None, s_stdout = [], s_stderr = [], s_stdout_seen = 0,
     s_stderr_seen = 0, s_truncated = False, s_started = False, s_cleanup = True, s_duration_ms = 0, s_error = None\<rparr>"

section \<open>The kernel\<close>

text \<open>Pipe 1 is standard output and pipe 2 standard error. A read is recorded with its bytes.\<close>

datatype kcall =
    CreateJob
  | SetLimits nat nat nat
  | CreatePipe nat
  | KeepPrivate nat
  | OpenNul
  | SizeAttributes
  | InitAttributes
  | SetHandleList
  | SetJobList
  | SystemDirectory
  | CreateProcess string "string option" nat
  | OwnProcess
  | OwnThread
  | ResumeThread
  | PeekPipe nat
  | ReadPipe nat string
  | WaitProcess
  | ExitCode
  | Polled
  | QueryMembers
  | OpenMember nat
  | MemberInJob nat
  | TerminateJob
  | QueryActive
  | WaitMember nat
  | CloseJob

type_synonym history = "kcall list"

text \<open>A failing call has an error code. The errors of this module may come without one.\<close>

type_synonym 'a kres = "nat option + 'a"

record kernel =
  k_fails :: "kcall \<Rightarrow> history \<Rightarrow> nat option"
  k_cancel :: "history \<Rightarrow> bool"
  k_time :: "history \<Rightarrow> rat"
  k_directory :: string
  k_attribute_size :: nat
  k_available :: "nat \<Rightarrow> history \<Rightarrow> nat"
  k_bytes :: "nat \<Rightarrow> history \<Rightarrow> string"
  k_wait :: "history \<Rightarrow> nat"
  k_exit :: "history \<Rightarrow> nat"
  k_members :: "history \<Rightarrow> nat list"
  k_in_job :: "nat \<Rightarrow> history \<Rightarrow> bool"
  k_active :: "history \<Rightarrow> nat"
  k_member_gone :: "nat \<Rightarrow> history \<Rightarrow> bool"

definition kdo :: "kernel \<Rightarrow> kcall \<Rightarrow> history \<Rightarrow> history \<times> unit kres" where
  "kdo k c h = (h @ [c], case k_fails k c h of None \<Rightarrow> Inr () | Some e \<Rightarrow> Inl (Some e))"

primrec kdo_all :: "kernel \<Rightarrow> kcall list \<Rightarrow> history \<Rightarrow> history \<times> unit kres" where
  "kdo_all k [] h = (h, Inr ())"
| "kdo_all k (c # cs) h = (case kdo k c h of (h', Inl e) \<Rightarrow> (h', Inl e) | (h', Inr _) \<Rightarrow> kdo_all k cs h')"

section \<open>Bounded tails\<close>

record tail =
  tl_data :: string
  tl_seen :: nat

definition no_tail :: tail where "no_tail = \<lparr>tl_data = [], tl_seen = 0\<rparr>"

definition final_bytes :: "string \<Rightarrow> string" where
  "final_bytes s = drop (length s - TAIL_BYTES) s"

definition tail_append :: "tail \<Rightarrow> string \<Rightarrow> tail" where
  "tail_append t d = \<lparr>tl_data = (let x = tl_data t @ d in if length x > TAIL_BYTES then final_bytes x else x),
     tl_seen = tl_seen t + length d\<rparr>"

text \<open>One pass over a pipe: at most four reads within the allowance. Error 109 is the end of the pipe.\<close>

primrec drain_loop :: "kernel \<Rightarrow> nat \<Rightarrow> nat \<Rightarrow> nat \<Rightarrow> history \<Rightarrow> tail \<Rightarrow> nat \<Rightarrow> history \<times> tail \<times> nat kres" where
  "drain_loop k p 0 allowance h t n = (h, t, Inr n)"
| "drain_loop k p (Suc i) allowance h t n =
     (if n \<ge> allowance then (h, t, Inr n)
      else (let h1 = h @ [PeekPipe p] in
        case k_fails k (PeekPipe p) h of
          Some e \<Rightarrow> if e = 109 then (h1, t, Inr n) else (h1, t, Inl (Some e))
        | None \<Rightarrow>
            if k_available k p h = 0 then (h1, t, Inr n)
            else (let size = min 8192 (min (k_available k p h) (allowance - n));
                      d = take size (k_bytes k p h1) in
              case k_fails k (ReadPipe p d) h1 of
                Some e \<Rightarrow> (h1 @ [ReadPipe p []], t, Inl (Some e))
              | None \<Rightarrow> drain_loop k p i allowance (h1 @ [ReadPipe p d]) (tail_append t d) (n + length d))))"

definition drain :: "kernel \<Rightarrow> nat \<Rightarrow> nat \<Rightarrow> history \<Rightarrow> tail \<Rightarrow> history \<times> tail \<times> nat kres" where
  "drain k p allowance h t = drain_loop k p 4 allowance h t 0"

record shell_state =
  sh_hist :: history
  sh_out :: tail
  sh_err :: tail

definition seen :: "shell_state \<Rightarrow> nat" where
  "seen s = tl_seen (sh_out s) + tl_seen (sh_err s)"

definition shell_call :: "kernel \<Rightarrow> kcall \<Rightarrow> shell_state \<Rightarrow> shell_state \<times> unit kres" where
  "shell_call k c s = (case kdo k c (sh_hist s) of (h, r) \<Rightarrow> (s\<lparr>sh_hist := h\<rparr>, r))"

text \<open>Both streams, each with what remains of the common limit.\<close>

definition drain_both :: "kernel \<Rightarrow> nat \<Rightarrow> shell_state \<Rightarrow> shell_state \<times> nat kres" where
  "drain_both k limit s =
     (case drain k 1 (limit + 1 - seen s) (sh_hist s) (sh_out s) of
        (h1, t1, Inl e) \<Rightarrow> (s\<lparr>sh_hist := h1, sh_out := t1\<rparr>, Inl e)
      | (h1, t1, Inr n1) \<Rightarrow>
          (let s1 = s\<lparr>sh_hist := h1, sh_out := t1\<rparr> in
           case drain k 2 (limit + 1 - seen s1) h1 (sh_err s) of
             (h2, t2, Inl e) \<Rightarrow> (s1\<lparr>sh_hist := h2, sh_err := t2\<rparr>, Inl e)
           | (h2, t2, Inr n2) \<Rightarrow> (s1\<lparr>sh_hist := h2, sh_err := t2\<rparr>, Inr (n1 + n2))))"

section \<open>Watching the process\<close>

text \<open>The loop may not end in general: it has fuel, and \<open>None\<close> means that it ran out.\<close>

primrec watch :: "kernel \<Rightarrow> rat \<Rightarrow> nat \<Rightarrow> nat \<Rightarrow> shell_state \<Rightarrow> (shell_state \<times> (outcome \<times> nat option) kres) option" where
  "watch k stop limit 0 s = None"
| "watch k stop limit (Suc f) s =
     (if k_cancel k (sh_hist s) then Some (s, Inr (Cancelled, None))
      else if k_time k (sh_hist s) \<ge> stop then Some (s, Inr (TimedOut, None))
      else (case drain_both k limit s of
          (s1, Inl e) \<Rightarrow> Some (s1, Inl e)
        | (s1, Inr n) \<Rightarrow>
            if seen s1 > limit then Some (s1, Inr (OutputLimit, None))
            else (let w = k_wait k (sh_hist s1); s2 = fst (shell_call k WaitProcess s1) in
              if w = 0 then
                (case shell_call k ExitCode s2 of
                   (s3, Inl e) \<Rightarrow> Some (s3, Inl e)
                 | (s3, Inr _) \<Rightarrow> Some (s3, Inr (Exited, Some (k_exit k (sh_hist s2)))))
              else if w \<noteq> 258 then Some (s2, Inl (k_fails k WaitProcess (sh_hist s1)))
              else watch k stop limit f (fst (shell_call k Polled s2)))))"

section \<open>Termination of the whole job\<close>

text \<open>Members are opened while they are inspected; a process that vanished (error 87) is no failure.\<close>

primrec inspect_members :: "kernel \<Rightarrow> nat list \<Rightarrow> history \<Rightarrow> history \<times> bool \<times> nat list" where
  "inspect_members k [] h = (h, True, [])"
| "inspect_members k (pid # pids) h =
     (let h1 = h @ [OpenMember pid] in
      case k_fails k (OpenMember pid) h of
        Some e \<Rightarrow> (case inspect_members k pids h1 of (h2, ok, hs) \<Rightarrow> (h2, ok \<and> e = 87, hs))
      | None \<Rightarrow>
         (let h2 = h1 @ [MemberInJob pid] in
          case inspect_members k pids h2 of (h3, ok, hs) \<Rightarrow>
            (case k_fails k (MemberInJob pid) h1 of
               Some e \<Rightarrow> (h3, False, hs)
             | None \<Rightarrow> (h3, ok, if k_in_job k pid h1 then pid # hs else hs))))"

primrec all_gone :: "kernel \<Rightarrow> nat list \<Rightarrow> history \<Rightarrow> history \<times> bool" where
  "all_gone k [] h = (h, True)"
| "all_gone k (p # ps) h = (if k_member_gone k p h then all_gone k ps (h @ [WaitMember p]) else (h @ [WaitMember p], False))"

primrec confirm :: "kernel \<Rightarrow> rat \<Rightarrow> nat list \<Rightarrow> bool \<Rightarrow> nat \<Rightarrow> history \<Rightarrow> (history \<times> bool) option" where
  "confirm k stop members inspected 0 h = None"
| "confirm k stop members inspected (Suc f) h =
     (if k_time k h \<ge> stop then Some (h, False)
      else (let h1 = h @ [QueryActive] in
        if k_fails k QueryActive h \<noteq> None then Some (h1, False)
        else if k_active k h \<noteq> 0 then confirm k stop members inspected f (h1 @ [Polled])
        else (let h2 = h1 @ [WaitProcess] in
          if k_wait k h1 \<noteq> 0 then confirm k stop members inspected f (h2 @ [Polled])
          else (case all_gone k members h2 of (h3, gone) \<Rightarrow>
            if gone then Some (h3, inspected) else confirm k stop members inspected f (h3 @ [Polled])))))"

definition terminate_and_confirm :: "kernel \<Rightarrow> nat \<Rightarrow> history \<Rightarrow> (history \<times> bool) option" where
  "terminate_and_confirm k fuel h =
     (let h1 = h @ [QueryMembers];
          listed = (k_fails k QueryMembers h = None);
          (h2, ok, members) = inspect_members k (if listed then take MAX_PROCESSES (k_members k h) else []) h1
      in case kdo k TerminateJob h2 of
           (h3, Inl e) \<Rightarrow> Some (h3, False)
         | (h3, Inr _) \<Rightarrow> confirm k (k_time k h3 + CLEANUP_SECONDS) members (listed \<and> ok) fuel h3)"

text \<open>What is left in the pipes once all writers are gone.\<close>

primrec drain_rest :: "kernel \<Rightarrow> nat \<Rightarrow> nat \<Rightarrow> shell_state \<Rightarrow> (shell_state \<times> unit kres) option" where
  "drain_rest k limit 0 s = None"
| "drain_rest k limit (Suc f) s =
     (case drain_both k limit s of
        (s1, Inl e) \<Rightarrow> Some (s1, Inl e)
      | (s1, Inr n) \<Rightarrow> if seen s1 > limit \<or> n = 0 then Some (s1, Inr ()) else drain_rest k limit f s1)"

section \<open>Running a command\<close>

definition job_flags :: nat where "job_flags = 0x2000 + 0x8 + 0x200"

definition setup_calls :: "kcall list" where
  "setup_calls = [CreateJob, SetLimits job_flags MAX_PROCESSES MAX_JOB_MEMORY, CreatePipe 1, KeepPrivate 1,
     CreatePipe 2, KeepPrivate 2, OpenNul, SizeAttributes]"

definition attribute_calls :: "kcall list" where
  "attribute_calls = [InitAttributes, SetHandleList, SetJobList, SystemDirectory]"

text \<open>The size of the attribute list is asked with a call that is expected to fail.\<close>

definition prepare :: "kernel \<Rightarrow> shell_state \<Rightarrow> shell_state \<times> unit kres" where
  "prepare k s =
     (case kdo_all k (butlast setup_calls) (sh_hist s) of
        (h, Inl e) \<Rightarrow> (s\<lparr>sh_hist := h\<rparr>, Inl e)
      | (h, Inr _) \<Rightarrow>
          (let h1 = h @ [SizeAttributes] in
           if k_attribute_size k = 0 \<or> k_attribute_size k > 65536 then (s\<lparr>sh_hist := h1\<rparr>, Inl None)
           else (case kdo_all k attribute_calls h1 of (h2, r) \<Rightarrow> (s\<lparr>sh_hist := h2\<rparr>, r))))"

definition command_line :: "kernel \<Rightarrow> string \<Rightarrow> string" where
  "command_line k command = [CHR ''\"''] @ k_directory k @ CHR 0x5C # ''cmd.exe'' @ ''\" /d /s /c \"'' @ command @ [CHR ''\"'']"

definition process_flags :: nat where "process_flags = 0x4 + 0x08000000 + 0x80000"

text \<open>What the body of the \<open>try\<close> leaves: the state, whether the command was started, whether cleanup
  was confirmed, the exit code once it was read, and the outcome or an error.\<close>

record attempt =
  at_state :: shell_state
  at_started :: bool
  at_cleanup :: bool
  at_code :: "nat option"
  at_end :: "outcome kres"

definition stop_reason :: "kernel \<Rightarrow> history \<Rightarrow> outcome" where
  "stop_reason k h = (if k_cancel k h then Cancelled else TimedOut)"

definition expired :: "kernel \<Rightarrow> rat \<Rightarrow> history \<Rightarrow> bool" where
  "expired k stop h = (k_cancel k h \<or> k_time k h \<ge> stop)"

definition resume_and_watch :: "kernel \<Rightarrow> rat \<Rightarrow> nat \<Rightarrow> nat \<Rightarrow> shell_state \<Rightarrow> (shell_state \<times> bool \<times> (outcome \<times> nat option) kres) option" where
  "resume_and_watch k stop limit fuel s =
     (if expired k stop (sh_hist s) then Some (s, False, Inr (stop_reason k (sh_hist s), None))
      else (case shell_call k ResumeThread s of
          (s1, Inl e) \<Rightarrow> Some (s1, False, Inl e)
        | (s1, Inr _) \<Rightarrow> (case watch k stop limit fuel s1 of None \<Rightarrow> None | Some (s2, r) \<Rightarrow> Some (s2, True, r))))"

definition clean_up :: "kernel \<Rightarrow> nat \<Rightarrow> nat \<Rightarrow> shell_state \<times> bool \<times> (outcome \<times> nat option) kres \<Rightarrow> attempt option" where
  "clean_up k limit fuel x = (case x of (s, started, r) \<Rightarrow>
     (case terminate_and_confirm k fuel (sh_hist s) of None \<Rightarrow> None
      | Some (h, cleanup) \<Rightarrow>
          (let s1 = s\<lparr>sh_hist := h\<rparr> in
           case r of
             Inl e \<Rightarrow> Some \<lparr>at_state = s1, at_started = started, at_cleanup = cleanup, at_code = None, at_end = Inl e\<rparr>
           | Inr (out, rc) \<Rightarrow>
               (case drain_rest k limit fuel s1 of None \<Rightarrow> None
                | Some (s2, Inl e) \<Rightarrow> Some \<lparr>at_state = s2, at_started = started, at_cleanup = cleanup, at_code = rc, at_end = Inl e\<rparr>
                | Some (s2, Inr _) \<Rightarrow> Some \<lparr>at_state = s2, at_started = started, at_cleanup = cleanup,
                    at_code = rc, at_end = Inr (if seen s2 > limit \<and> out = Exited then OutputLimit else out)\<rparr>))))"

definition attempt_shell :: "kernel \<Rightarrow> string \<Rightarrow> string option \<Rightarrow> rat \<Rightarrow> nat \<Rightarrow> nat \<Rightarrow> shell_state \<Rightarrow> attempt option" where
  "attempt_shell k command cwd stop limit fuel s0 =
     (case prepare k s0 of
        (s, Inl e) \<Rightarrow> Some \<lparr>at_state = s, at_started = False, at_cleanup = True, at_code = None, at_end = Inl e\<rparr>
      | (s, Inr _) \<Rightarrow>
          if expired k stop (sh_hist s)
          then Some \<lparr>at_state = s, at_started = False, at_cleanup = True, at_code = None, at_end = Inr (stop_reason k (sh_hist s))\<rparr>
          else (case shell_call k (CreateProcess (command_line k command) cwd process_flags) s of
              (s1, Inl e) \<Rightarrow> Some \<lparr>at_state = s1, at_started = False, at_cleanup = True, at_code = None, at_end = Inl e\<rparr>
            | (s1, Inr _) \<Rightarrow>
                (case kdo_all k [OwnProcess, OwnThread] (sh_hist s1) of
                   (h, Inl e) \<Rightarrow> Some \<lparr>at_state = s1\<lparr>sh_hist := h\<rparr>, at_started = False, at_cleanup = False, at_code = None, at_end = Inl e\<rparr>
                 | (h, Inr _) \<Rightarrow>
                     (case resume_and_watch k stop limit fuel (s1\<lparr>sh_hist := h\<rparr>) of None \<Rightarrow> None
                      | Some x \<Rightarrow> clean_up k limit fuel x))))"

text \<open>Leaving the \<open>with\<close> block closes the handles of the job, which kills what is left in it.\<close>

definition close_job :: "history \<Rightarrow> history" where
  "close_job h = h @ [CloseJob]"

definition shell_init :: shell_state where
  "shell_init = \<lparr>sh_hist = [], sh_out = no_tail, sh_err = no_tail\<rparr>"

definition shell_summary :: "(string \<Rightarrow> string) \<Rightarrow> kernel \<Rightarrow> attempt \<Rightarrow> history \<times> shell_result" where
  "shell_summary decode k a =
     (let s = at_state a; h = close_job (sh_hist s);
          out = (case at_end a of Inl e \<Rightarrow> if at_started a then RuntimeFailed else StartupFailed | Inr o1 \<Rightarrow> o1)
      in (h, \<lparr>s_outcome = out, s_returncode = at_code a, s_stdout = decode (tl_data (sh_out s)), s_stderr = decode (tl_data (sh_err s)),
          s_stdout_seen = tl_seen (sh_out s), s_stderr_seen = tl_seen (sh_err s),
          s_truncated = (tl_seen (sh_out s) > TAIL_BYTES \<or> tl_seen (sh_err s) > TAIL_BYTES \<or> out = OutputLimit),
          s_started = at_started a, s_cleanup = at_cleanup a,
          s_duration_ms = \<lfloor>(k_time k h - k_time k []) * 1000\<rfloor>, s_error = (case at_end a of Inl e \<Rightarrow> e | Inr o1 \<Rightarrow> None)\<rparr>))"

definition valid_shell_request :: "(string \<Rightarrow> bool) \<Rightarrow> string \<Rightarrow> string option \<Rightarrow> rat \<Rightarrow> nat \<Rightarrow> bool" where
  "valid_shell_request absolute command cwd timeout limit =
     (strip command \<noteq> [] \<and> length command \<le> MAX_COMMAND_CHARS \<and> CHR 0x00 \<notin> set command \<and>
      0 < timeout \<and> timeout \<le> 120 \<and> 1 \<le> limit \<and> limit \<le> MAX_OUTPUT_BYTES \<and>
      (case cwd of None \<Rightarrow> True | Some d \<Rightarrow> absolute d))"

definition run_shell ::
  "(string \<Rightarrow> bool) \<Rightarrow> (string \<Rightarrow> string) \<Rightarrow> bool \<Rightarrow> kernel \<Rightarrow> string \<Rightarrow> string option \<Rightarrow> rat \<Rightarrow> rat option \<Rightarrow> nat \<Rightarrow> nat \<Rightarrow>
     (history \<times> shell_result) res option" where
  "run_shell absolute decode windows k command cwd timeout deadline limit fuel =
     (if \<not> valid_shell_request absolute command cwd timeout limit then Some (Inl ValueError)
      else (let began = k_time k [];
                stop = (case deadline of None \<Rightarrow> began + timeout | Some d \<Rightarrow> min (began + timeout) d) in
        if k_cancel k [] then Some (Inr ([], shell_ended Cancelled))
        else if began \<ge> stop then Some (Inr ([], shell_ended TimedOut))
        else if \<not> windows then Some (Inr ([], shell_ended StartupFailed))
        else map_option (\<lambda>a. Inr (shell_summary decode k a)) (attempt_shell k command cwd stop limit fuel shell_init)))"

section \<open>What the tails hold\<close>

definition pipe_bytes :: "nat \<Rightarrow> history \<Rightarrow> string" where
  "pipe_bytes p h = concat (map (\<lambda>c. case c of ReadPipe q d \<Rightarrow> if q = p then d else [] | _ \<Rightarrow> []) h)"

lemma pipe_bytes_append [simp]: "pipe_bytes p (h @ g) = pipe_bytes p h @ pipe_bytes p g"
  by (simp add: pipe_bytes_def)

lemma pipe_bytes_simps [simp]: "pipe_bytes p [] = []"
  "pipe_bytes p (c # h) = (case c of ReadPipe q d \<Rightarrow> if q = p then d else [] | _ \<Rightarrow> []) @ pipe_bytes p h"
  by (simp_all add: pipe_bytes_def)

definition tail_of :: "string \<Rightarrow> tail" where
  "tail_of x = \<lparr>tl_data = final_bytes x, tl_seen = length x\<rparr>"

lemma final_bytes_length: "length (final_bytes x) = min TAIL_BYTES (length x)"
  by (simp add: final_bytes_def)

lemma tail_append_of: "tail_append (tail_of x) d = tail_of (x @ d)"
proof -
  let ?y = "final_bytes x @ d"
  have e: "?y = drop (length x - TAIL_BYTES) (x @ d)" by (simp add: final_bytes_def)
  have "(if length ?y > TAIL_BYTES then final_bytes ?y else ?y) = final_bytes (x @ d)"
  proof (cases "length x \<le> TAIL_BYTES")
    case True
    then show ?thesis unfolding e by (auto simp: final_bytes_def)
  next
    case False
    then have l: "length ?y = TAIL_BYTES + length d" by (simp add: final_bytes_length)
    have "final_bytes ?y = drop (length d) (drop (length x - TAIL_BYTES) (x @ d))"
      using l by (simp only: final_bytes_def[of ?y] e[symmetric]) simp
    also have "\<dots> = final_bytes (x @ d)" using False by (simp add: final_bytes_def add.commute)
    finally show ?thesis using l by (cases d) (simp_all add: final_bytes_def)
  qed
  then show ?thesis by (simp add: tail_append_def tail_of_def Let_def)
qed

definition pipe_event :: "kcall \<Rightarrow> bool" where
  "pipe_event c = (case c of PeekPipe p \<Rightarrow> True | ReadPipe p d \<Rightarrow> True | _ \<Rightarrow> False)"

lemma pipe_event_simps [simp]: "pipe_event (PeekPipe p)" "pipe_event (ReadPipe p d)"
  by (simp_all add: pipe_event_def)

lemma drain_loop_props:
  assumes "drain_loop k p i allowance h t n = (h', t', r)" "t = tail_of (pipe_bytes p h)" "n \<le> allowance"
  shows "\<exists>d. h' = h @ d \<and> list_all pipe_event d \<and> (\<forall>q. q = p \<or> pipe_bytes q d = []) \<and> t' = tail_of (pipe_bytes p h') \<and>
    length (pipe_bytes p d) + n \<le> allowance \<and> (\<forall>m. r = Inr m \<longrightarrow> m = n + length (pipe_bytes p d))"
  using assms
proof (induction i arbitrary: h t n)
  case 0
  then show ?case by auto
next
  case (Suc i)
  let ?h1 = "h @ [PeekPipe p]"
  show ?case
  proof (cases "n \<ge> allowance")
    case True
    then show ?thesis using Suc.prems by (intro exI[of _ "[]"]) auto
  next
    case False
    show ?thesis
    proof (cases "k_fails k (PeekPipe p) h \<noteq> None \<or> k_available k p h = 0")
      case True
      then show ?thesis using Suc.prems False
        by (intro exI[of _ "[PeekPipe p]"]) (auto simp: Let_def split: if_splits option.splits)
    next
      case avail: False
      define D where "D = take (min 8192 (min (k_available k p h) (allowance - n))) (k_bytes k p ?h1)"
      have lD: "length D \<le> allowance - n" by (simp add: D_def)
      have step: "drain_loop k p (Suc i) allowance h t n = (case k_fails k (ReadPipe p D) ?h1 of
          Some e \<Rightarrow> (?h1 @ [ReadPipe p []], t, Inl (Some e))
        | None \<Rightarrow> drain_loop k p i allowance (?h1 @ [ReadPipe p D]) (tail_append t D) (n + length D))"
        using False avail unfolding D_def by (simp add: Let_def)
      show ?thesis
      proof (cases "k_fails k (ReadPipe p D) ?h1")
        case (Some e)
        then have "h' = ?h1 @ [ReadPipe p []]" "t' = t" "r = Inl (Some e)" using Suc.prems(1) step by auto
        then show ?thesis using Suc.prems(2,3) by (intro exI[of _ "[PeekPipe p, ReadPipe p []]"]) simp
      next
        case None
        have r: "drain_loop k p i allowance (?h1 @ [ReadPipe p D]) (tail_append t D) (n + length D) = (h', t', r)"
          using Suc.prems(1) step None by simp
        have t: "tail_append t D = tail_of (pipe_bytes p (?h1 @ [ReadPipe p D]))"
          unfolding Suc.prems(2) tail_append_of by simp
        have n: "n + length D \<le> allowance" using False lD by simp
        obtain d where d: "h' = (?h1 @ [ReadPipe p D]) @ d" "list_all pipe_event d" "\<forall>q. q = p \<or> pipe_bytes q d = []"
          "t' = tail_of (pipe_bytes p h')" "length (pipe_bytes p d) + (n + length D) \<le> allowance"
          "\<forall>m. r = Inr m \<longrightarrow> m = n + length D + length (pipe_bytes p d)"
          using Suc.IH[OF r t n] by blast
        show ?thesis
        proof (intro exI conjI)
          show "h' = h @ (PeekPipe p # ReadPipe p D # d)" using d(1) by simp
          show "list_all pipe_event (PeekPipe p # ReadPipe p D # d)" using d(2) by simp
          show "\<forall>q. q = p \<or> pipe_bytes q (PeekPipe p # ReadPipe p D # d) = []" using d(3) by auto
          show "t' = tail_of (pipe_bytes p h')" by (rule d(4))
          show "length (pipe_bytes p (PeekPipe p # ReadPipe p D # d)) + n \<le> allowance" using d(5) by simp
          show "\<forall>m. r = Inr m \<longrightarrow> m = n + length (pipe_bytes p (PeekPipe p # ReadPipe p D # d))" using d(6) by (simp add: add.assoc)
        qed
      qed
    qed
  qed
qed

text \<open>The tails of a state hold the last bytes of what its history read.\<close>

definition tails_ok :: "nat \<Rightarrow> shell_state \<Rightarrow> bool" where
  "tails_ok limit s = (sh_out s = tail_of (pipe_bytes 1 (sh_hist s)) \<and> sh_err s = tail_of (pipe_bytes 2 (sh_hist s)) \<and> seen s \<le> limit + 1)"

lemma drain_both_props:
  assumes b: "drain_both k limit s = (s', r)" and ok: "tails_ok limit s"
  shows "tails_ok limit s' \<and> (\<exists>d. sh_hist s' = sh_hist s @ d \<and> list_all pipe_event d) \<and> (\<forall>m. r = Inr m \<longrightarrow> seen s' = seen s + m)"
proof -
  obtain h1 t1 r1 where d1: "drain k 1 (limit + 1 - seen s) (sh_hist s) (sh_out s) = (h1, t1, r1)" by (metis prod_cases3)
  from drain_loop_props[OF d1[unfolded drain_def]] ok obtain x where x: "h1 = sh_hist s @ x" "list_all pipe_event x"
    "\<forall>q. q = 1 \<or> pipe_bytes q x = []" "t1 = tail_of (pipe_bytes 1 h1)" "length (pipe_bytes 1 x) \<le> limit + 1 - seen s"
    "\<forall>m. r1 = Inr m \<longrightarrow> m = length (pipe_bytes 1 x)" by (auto simp: tails_ok_def)
  have x2: "pipe_bytes 2 x = []" using spec[OF x(3), of 2] by simp
  let ?s1 = "s\<lparr>sh_hist := h1, sh_out := t1\<rparr>"
  have s1: "seen ?s1 = seen s + length (pipe_bytes 1 x)" using ok x x2 by (simp add: seen_def tails_ok_def tail_of_def)
  have ok1: "tails_ok limit ?s1" using ok x x2 s1 by (auto simp: tails_ok_def)
  show ?thesis
  proof (cases r1)
    case (Inl e)
    then show ?thesis using b d1 ok1 x by (auto simp: drain_both_def)
  next
    case (Inr n1)
    obtain h2 t2 r2 where d2: "drain k 2 (limit + 1 - seen ?s1) h1 (sh_err s) = (h2, t2, r2)" by (metis prod_cases3)
    have "sh_err s = tail_of (pipe_bytes 2 h1)" using ok x x2 by (simp add: tails_ok_def)
    from drain_loop_props[OF d2[unfolded drain_def] this] obtain y where y: "h2 = h1 @ y" "list_all pipe_event y"
      "\<forall>q. q = 2 \<or> pipe_bytes q y = []" "t2 = tail_of (pipe_bytes 2 h2)" "length (pipe_bytes 2 y) \<le> limit + 1 - seen ?s1"
      "\<forall>m. r2 = Inr m \<longrightarrow> m = length (pipe_bytes 2 y)" by auto
    have y1: "pipe_bytes 1 y = []" using spec[OF y(3), of 1] by simp
    let ?s2 = "?s1\<lparr>sh_hist := h2, sh_err := t2\<rparr>"
    have s2: "seen ?s2 = seen ?s1 + length (pipe_bytes 2 y)" using ok1 x y y1 by (simp add: seen_def tails_ok_def tail_of_def)
    have ok2: "tails_ok limit ?s2" using ok1 y y1 s2 by (auto simp: tails_ok_def)
    have "s' = ?s2 \<and> (\<forall>m. r = Inr m \<longrightarrow> (\<exists>m2. r2 = Inr m2 \<and> m = n1 + m2))" using b d1 d2 Inr
      by (cases r2) (auto simp: drain_both_def Let_def)
    then show ?thesis using ok2 s1 s2 x y Inr by auto
  qed
qed

definition watch_event :: "kcall \<Rightarrow> bool" where
  "watch_event c = (pipe_event c \<or> c \<in> {WaitProcess, ExitCode, Polled})"

lemma pipe_watch: "list_all pipe_event d \<Longrightarrow> list_all watch_event d"
  by (auto simp: list_all_iff watch_event_def)

lemma tails_ok_quiet:
  assumes "tails_ok limit s" "\<forall>p. pipe_bytes p d = []"
  shows "tails_ok limit (s\<lparr>sh_hist := sh_hist s @ d\<rparr>)"
  using assms by (auto simp: tails_ok_def seen_def)

lemma shell_call_props: "shell_call k c s = (s', r) \<Longrightarrow> s' = s\<lparr>sh_hist := sh_hist s @ [c]\<rparr>"
  by (auto simp: shell_call_def kdo_def)

lemma fst_shell_call: "fst (shell_call k c s) = s\<lparr>sh_hist := sh_hist s @ [c]\<rparr>"
  by (simp add: shell_call_def kdo_def)

lemma watch_props:
  assumes "watch k stop limit f s = Some (s', r)" "tails_ok limit s"
  shows "tails_ok limit s' \<and> (\<exists>d. sh_hist s' = sh_hist s @ d \<and> list_all watch_event d) \<and>
    (case r of Inl e \<Rightarrow> True
     | Inr (out, rc) \<Rightarrow> out \<in> {Cancelled, TimedOut, OutputLimit, Exited} \<and> (out = Exited) = (rc \<noteq> None) \<and>
         (out = OutputLimit) = (seen s' > limit) \<or> out \<in> {Cancelled, TimedOut} \<and> rc = None)"
  using assms
proof (induction f arbitrary: s)
  case (Suc f)
  show ?case
  proof (cases "k_cancel k (sh_hist s) \<or> k_time k (sh_hist s) \<ge> stop")
    case True
    then show ?thesis using Suc.prems by (auto split: if_splits)
  next
    case False
    obtain s1 r1 where d: "drain_both k limit s = (s1, r1)" by (cases "drain_both k limit s")
    note dp = drain_both_props[OF d Suc.prems(2)]
    then obtain x where x: "sh_hist s1 = sh_hist s @ x" "list_all pipe_event x" by blast
    show ?thesis
    proof (cases "\<exists>e. r1 = Inl e \<or> seen s1 > limit")
      case True
      then show ?thesis using Suc.prems False d dp x pipe_watch by (cases r1) auto
    next
      case run: False
      then obtain n where n: "r1 = Inr n" "seen s1 \<le> limit" by (cases r1) auto
      let ?s2 = "s1\<lparr>sh_hist := sh_hist s1 @ [WaitProcess]\<rparr>"
      have ok2: "tails_ok limit ?s2" using tails_ok_quiet dp by simp
      have w: "list_all watch_event (x @ [WaitProcess])" using pipe_watch[OF x(2)] by (simp add: watch_event_def)
      consider "k_wait k (sh_hist s1) = 0" | "k_wait k (sh_hist s1) \<noteq> 0" "k_wait k (sh_hist s1) \<noteq> 258" | "k_wait k (sh_hist s1) = 258"
        by fastforce
      then show ?thesis
      proof cases
        case 1
        obtain s3 r3 where c: "shell_call k ExitCode ?s2 = (s3, r3)" by (cases "shell_call k ExitCode ?s2")
        have s3: "s3 = ?s2\<lparr>sh_hist := sh_hist ?s2 @ [ExitCode]\<rparr>" by (rule shell_call_props[OF c])
        have ok3: "tails_ok limit s3" unfolding s3 by (rule tails_ok_quiet[OF ok2]) simp
        have "seen s3 \<le> limit" using n(2) s3 by (simp add: seen_def)
        moreover have "\<exists>d. sh_hist s3 = sh_hist s @ d \<and> list_all watch_event d"
          using w x s3 by (intro exI[of _ "x @ [WaitProcess, ExitCode]"]) (auto simp: watch_event_def)
        ultimately show ?thesis using Suc.prems False d n 1 c ok3
          by (cases r3) (auto simp: fst_shell_call)
      next
        case 2
        then show ?thesis using Suc.prems False d n ok2 w x by (auto simp: fst_shell_call)
      next
        case 3
        let ?s3 = "?s2\<lparr>sh_hist := sh_hist ?s2 @ [Polled]\<rparr>"
        have ok3: "tails_ok limit ?s3" by (rule tails_ok_quiet[OF ok2]) simp
        have "watch k stop limit f ?s3 = Some (s', r)"
          using Suc.prems(1) False d n 3 by (simp add: fst_shell_call)
        note ih = Suc.IH[OF this ok3]
        then obtain y where y: "sh_hist s' = sh_hist ?s3 @ y" "list_all watch_event y" by blast
        have "\<exists>d. sh_hist s' = sh_hist s @ d \<and> list_all watch_event d"
          using y w x by (intro exI[of _ "x @ [WaitProcess, Polled] @ y"]) (auto simp: watch_event_def)
        then show ?thesis using ih by blast
      qed
    qed
  qed
qed simp

section \<open>Cleaning up\<close>

definition clean_event :: "kcall \<Rightarrow> bool" where
  "clean_event c = (case c of OpenMember p \<Rightarrow> True | MemberInJob p \<Rightarrow> True | WaitMember p \<Rightarrow> True
     | _ \<Rightarrow> c \<in> {QueryMembers, TerminateJob, QueryActive, WaitProcess, Polled})"

lemma clean_event_simps [simp]: "clean_event (OpenMember p)" "clean_event (MemberInJob p)" "clean_event (WaitMember p)"
  "clean_event QueryMembers" "clean_event TerminateJob" "clean_event QueryActive" "clean_event WaitProcess" "clean_event Polled"
  by (simp_all add: clean_event_def)

lemma clean_quiet: "list_all clean_event d \<Longrightarrow> pipe_bytes p d = []"
  by (induction d) (auto simp: clean_event_def split: kcall.splits)

lemma inspect_members_props: "inspect_members k pids h = (h', ok, hs) \<Longrightarrow> \<exists>d. h' = h @ d \<and> list_all clean_event d"
proof (induction pids arbitrary: h h' ok hs)
  case (Cons pid pids)
  let ?h1 = "h @ [OpenMember pid]"
  let ?h2 = "?h1 @ [MemberInJob pid]"
  obtain h3 ok3 hs3 where a: "inspect_members k pids ?h1 = (h3, ok3, hs3)" by (metis prod_cases3)
  obtain h4 ok4 hs4 where b: "inspect_members k pids ?h2 = (h4, ok4, hs4)" by (metis prod_cases3)
  from Cons.IH[OF a] Cons.IH[OF b] obtain x y where "h3 = ?h1 @ x" "list_all clean_event x" "h4 = ?h2 @ y" "list_all clean_event y" by blast
  moreover have "h' = h3 \<or> h' = h4" using Cons.prems a b by (auto simp: Let_def split: option.splits)
  ultimately show ?case
    by (elim disjE) (auto intro: exI[of _ "OpenMember pid # x"] exI[of _ "OpenMember pid # MemberInJob pid # y"])
qed auto

lemma all_gone_props: "all_gone k ps h = (h', ok) \<Longrightarrow> \<exists>d. h' = h @ d \<and> list_all clean_event d"
proof (induction ps arbitrary: h)
  case (Cons q ps)
  show ?case
  proof (cases "k_member_gone k q h")
    case True
    then obtain d where "h' = (h @ [WaitMember q]) @ d" "list_all clean_event d" using Cons by fastforce
    then show ?thesis by (intro exI[of _ "WaitMember q # d"]) simp
  qed (use Cons.prems in auto)
qed auto

lemma confirm_step:
  assumes "confirm k stop members inspected (Suc f) h = Some (h', b)"
  shows "(\<exists>d. h' = h @ d \<and> list_all clean_event d) \<or>
    (\<exists>d. list_all clean_event d \<and> confirm k stop members inspected f (h @ d) = Some (h', b))"
proof -
  obtain h3 gone where g: "all_gone k members (h @ [QueryActive] @ [WaitProcess]) = (h3, gone)"
    by (cases "all_gone k members (h @ [QueryActive] @ [WaitProcess])")
  then obtain d where d: "h3 = (h @ [QueryActive, WaitProcess]) @ d" "list_all clean_event d" using all_gone_props by fastforce
  from assms g d show ?thesis
    by (auto simp: Let_def split: if_splits
        intro: exI[of _ "QueryActive # WaitProcess # d"] exI[of _ "[QueryActive]"]
          exI[of _ "[QueryActive, Polled]"] exI[of _ "[QueryActive, WaitProcess, Polled]"] exI[of _ "QueryActive # WaitProcess # d @ [Polled]"])
qed

lemma confirm_props: "confirm k stop members inspected f h = Some (h', b) \<Longrightarrow> \<exists>d. h' = h @ d \<and> list_all clean_event d"
proof (induction f arbitrary: h)
  case (Suc f)
  from confirm_step[OF Suc.prems] show ?case
  proof
    assume "\<exists>d. list_all clean_event d \<and> confirm k stop members inspected f (h @ d) = Some (h', b)"
    then obtain d where d: "list_all clean_event d" "confirm k stop members inspected f (h @ d) = Some (h', b)" by blast
    from Suc.IH[OF d(2)] obtain e where "h' = (h @ d) @ e" "list_all clean_event e" by blast
    then show ?thesis using d(1) by (intro exI[of _ "d @ e"]) simp
  qed
qed simp

lemma terminate_props:
  assumes "terminate_and_confirm k fuel h = Some (h', b)"
  shows "\<exists>d. h' = h @ d \<and> list_all clean_event d \<and> TerminateJob \<in> set d"
proof -
  let ?pids = "if k_fails k QueryMembers h = None then take MAX_PROCESSES (k_members k h) else []"
  obtain h2 ok ms where i: "inspect_members k ?pids (h @ [QueryMembers]) = (h2, ok, ms)" by (metis prod_cases3)
  then obtain x where x: "h2 = (h @ [QueryMembers]) @ x" "list_all clean_event x" using inspect_members_props by blast
  show ?thesis
  proof (cases "k_fails k TerminateJob h2")
    case (Some e)
    then show ?thesis using assms i x by (intro exI[of _ "QueryMembers # x @ [TerminateJob]"]) (simp add: terminate_and_confirm_def Let_def kdo_def)
  next
    case None
    let ?h3 = "h2 @ [TerminateJob]"
    have "confirm k (k_time k ?h3 + CLEANUP_SECONDS) ms (k_fails k QueryMembers h = None \<and> ok) fuel ?h3 = Some (h', b)"
      using assms i None by (simp add: terminate_and_confirm_def Let_def kdo_def)
    from confirm_props[OF this] obtain d where "h' = ?h3 @ d" "list_all clean_event d" by blast
    then show ?thesis using x by (intro exI[of _ "QueryMembers # x @ TerminateJob # d"]) simp
  qed
qed

lemma drain_rest_props:
  assumes "drain_rest k limit f s = Some (s', r)" "tails_ok limit s"
  shows "tails_ok limit s' \<and> (\<exists>d. sh_hist s' = sh_hist s @ d \<and> list_all pipe_event d) \<and> seen s \<le> seen s'"
  using assms
proof (induction f arbitrary: s)
  case (Suc f)
  obtain s1 r1 where d: "drain_both k limit s = (s1, r1)" by (cases "drain_both k limit s")
  note dp = drain_both_props[OF d Suc.prems(2)]
  then obtain x where x: "sh_hist s1 = sh_hist s @ x" "list_all pipe_event x" by blast
  have le: "seen s \<le> seen s1" using dp Suc.prems(2) x by (auto simp: tails_ok_def seen_def tail_of_def)
  show ?case
  proof (cases "\<exists>n. r1 = Inr n \<and> \<not> (seen s1 > limit \<or> n = 0)")
    case True
    then have r: "drain_rest k limit f s1 = Some (s', r)" using Suc.prems(1) d by auto
    from Suc.IH[OF r] dp obtain y where "sh_hist s' = sh_hist s1 @ y" "list_all pipe_event y" "tails_ok limit s'" "seen s1 \<le> seen s'" by blast
    then show ?thesis using x le by (auto intro!: exI[of _ "x @ y"])
  next
    case False
    then show ?thesis using Suc.prems d dp le by (auto split: sum.splits if_splits)
  qed
qed simp

section \<open>The whole run\<close>

text \<open>What happens between creating the process and leaving: the command is resumed at most once, and then
  the job is terminated before anything else can happen.\<close>

definition after_creation :: "history \<Rightarrow> bool \<Rightarrow> bool" where
  "after_creation d started = ((\<forall>x f l. CreateProcess x f l \<notin> set d) \<and>
     (started = (ResumeThread \<in> set d) \<or> \<not> started) \<and>
     (ResumeThread \<in> set d \<longrightarrow> (\<exists>a b. d = a @ ResumeThread # b \<and> ResumeThread \<notin> set a \<union> set b \<and> TerminateJob \<in> set b)))"

lemma quiet_events: "list_all watch_event d \<Longrightarrow> c \<in> set d \<Longrightarrow> pipe_event c \<or> c \<in> {WaitProcess, ExitCode, Polled}"
  by (auto simp: list_all_iff watch_event_def)

lemma no_create: "list_all watch_event d \<Longrightarrow> CreateProcess x f l \<notin> set d" "list_all clean_event d \<Longrightarrow> CreateProcess x f l \<notin> set d"
  "list_all pipe_event d \<Longrightarrow> CreateProcess x f l \<notin> set d"
  by (auto simp: list_all_iff watch_event_def clean_event_def pipe_event_def)

lemma no_resume: "list_all watch_event d \<Longrightarrow> ResumeThread \<notin> set d" "list_all clean_event d \<Longrightarrow> ResumeThread \<notin> set d"
  "list_all pipe_event d \<Longrightarrow> ResumeThread \<notin> set d"
  by (auto simp: list_all_iff watch_event_def clean_event_def pipe_event_def)

lemma kdo_all_props: "kdo_all k cs h = (h', r) \<Longrightarrow> (\<exists>n. h' = h @ take n cs) \<and> (r = Inr () \<longrightarrow> h' = h @ cs)"
proof (induction cs arbitrary: h)
  case (Cons c cs)
  show ?case
  proof (cases "k_fails k c h")
    case (Some e)
    then show ?thesis using Cons.prems by (auto simp: kdo_def intro: exI[of _ 1])
  next
    case None
    then have "kdo_all k cs (h @ [c]) = (h', r)" using Cons.prems by (simp add: kdo_def)
    from Cons.IH[OF this] obtain n where "h' = (h @ [c]) @ take n cs" "r = Inr () \<longrightarrow> h' = (h @ [c]) @ cs" by blast
    then show ?thesis by (auto intro!: exI[of _ "Suc n"])
  qed
qed simp

definition preparation :: history where
  "preparation = setup_calls @ attribute_calls"

lemma prepare_props:
  assumes "prepare k shell_init = (s, r)"
  shows "\<exists>n. s = shell_init\<lparr>sh_hist := take n preparation\<rparr>" "r = Inr () \<Longrightarrow> s = shell_init\<lparr>sh_hist := preparation\<rparr>"
proof -
  obtain h r1 where a: "kdo_all k (butlast setup_calls) [] = (h, r1)" by (cases "kdo_all k (butlast setup_calls) []")
  obtain h2 r2 where b: "kdo_all k attribute_calls (h @ [SizeAttributes]) = (h2, r2)" by (cases "kdo_all k attribute_calls (h @ [SizeAttributes])")
  have bl: "butlast setup_calls @ [SizeAttributes] = setup_calls" by (simp add: setup_calls_def)
  have p: "preparation = butlast setup_calls @ SizeAttributes # attribute_calls" by (simp add: preparation_def setup_calls_def)
  have len: "length (butlast setup_calls) = 7" by (simp add: setup_calls_def)
  obtain n where n1: "h = take n (butlast setup_calls)" using conjunct1[OF kdo_all_props[OF a]] by auto
  have "r1 = Inr () \<longrightarrow> h = butlast setup_calls" using conjunct2[OF kdo_all_props[OF a]] by simp
  note n = n1 this
  obtain m where m1: "h2 = h @ SizeAttributes # take m attribute_calls" using conjunct1[OF kdo_all_props[OF b]] by auto
  have "r2 = Inr () \<longrightarrow> h2 = h @ SizeAttributes # attribute_calls" using conjunct2[OF kdo_all_props[OF b]] by simp
  note m = m1 this
  have i: "sh_hist shell_init = []" by (simp add: shell_init_def)
  show "\<exists>n. s = shell_init\<lparr>sh_hist := take n preparation\<rparr>"
  proof (cases r1)
    case (Inl e)
    have "h = take (min n 7) preparation" unfolding n(1) p using len by (simp add: min_def take_butlast)
    then show ?thesis using assms a Inl by (auto simp: prepare_def i)
  next
    case (Inr u)
    then have h: "h = butlast setup_calls" using n by simp
    have "h @ [SizeAttributes] = take 8 preparation" "h2 = take (8 + m) preparation" unfolding m(1) h p using len by simp_all
    then show ?thesis using assms a b Inr by (auto simp: prepare_def i Let_def split: if_splits)
  qed
  show "r = Inr () \<Longrightarrow> s = shell_init\<lparr>sh_hist := preparation\<rparr>"
    using assms a b n m p by (cases r1) (auto simp: prepare_def i Let_def split: if_splits)
qed

lemma preparation_quiet: "c \<in> set (take n preparation) \<Longrightarrow> c \<noteq> CreateProcess x f l" "pipe_bytes p (take n preparation) = []"
proof -
  have "list_all (\<lambda>c. (\<forall>x f l. c \<noteq> CreateProcess x f l) \<and> pipe_bytes p [c] = []) preparation"
    by (simp add: preparation_def setup_calls_def attribute_calls_def)
  then have *: "list_all (\<lambda>c. (\<forall>x f l. c \<noteq> CreateProcess x f l) \<and> pipe_bytes p [c] = []) (take n preparation)"
    unfolding list_all_iff by (blast dest: in_set_takeD)
  then show "c \<in> set (take n preparation) \<Longrightarrow> c \<noteq> CreateProcess x f l" unfolding list_all_iff by blast
  have "list_all (\<lambda>c. pipe_bytes p [c] = []) d \<Longrightarrow> pipe_bytes p d = []" for d
    by (induction d) auto
  moreover have "list_all (\<lambda>c. pipe_bytes p [c] = []) (take n preparation)" using * unfolding list_all_iff by blast
  ultimately show "pipe_bytes p (take n preparation) = []" by blast
qed

lemma init_ok: "tails_ok limit (shell_init\<lparr>sh_hist := take n preparation\<rparr>)"
  using preparation_quiet(2) by (simp add: tails_ok_def shell_init_def no_tail_def tail_of_def final_bytes_def seen_def)

definition end_ok :: "nat \<Rightarrow> nat \<Rightarrow> (outcome \<times> nat option) kres \<Rightarrow> bool" where
  "end_ok limit n r = (case r of Inl e \<Rightarrow> True
     | Inr (out, rc) \<Rightarrow> out \<in> {Cancelled, TimedOut, OutputLimit, Exited} \<and> (out = Exited) = (rc \<noteq> None) \<and>
         (out = OutputLimit \<longrightarrow> n > limit))"

lemma resume_props:
  assumes "resume_and_watch k stop limit fuel s = Some (s', started, r)" "tails_ok limit s"
  shows "tails_ok limit s' \<and> end_ok limit (seen s') r \<and> (\<exists>rc. r = Inr (Exited, rc) \<longrightarrow> started) \<and>
    (\<exists>d. sh_hist s' = sh_hist s @ d \<and> (d = [] \<and> \<not> started \<or> d = [ResumeThread] \<and> \<not> started \<or>
       (\<exists>w. d = ResumeThread # w \<and> list_all watch_event w \<and> started))) \<and>
    (\<not> started \<longrightarrow> (\<forall>out rc. r = Inr (out, rc) \<longrightarrow> out \<in> {Cancelled, TimedOut}))"
proof (cases "expired k stop (sh_hist s)")
  case True
  then have "s' = s" "\<not> started" "r = Inr (stop_reason k (sh_hist s), None)" using assms(1) by (auto simp: resume_and_watch_def)
  then show ?thesis using assms(2) by (auto simp: end_ok_def stop_reason_def split: if_splits)
next
  case False
  obtain s1 r1 where c: "shell_call k ResumeThread s = (s1, r1)" by (cases "shell_call k ResumeThread s")
  have s1: "s1 = s\<lparr>sh_hist := sh_hist s @ [ResumeThread]\<rparr>" by (rule shell_call_props[OF c])
  have ok1: "tails_ok limit s1" unfolding s1 by (rule tails_ok_quiet[OF assms(2)]) simp
  show ?thesis
  proof (cases r1)
    case (Inl e)
    then show ?thesis using assms(1) False c ok1 s1 by (auto simp: resume_and_watch_def end_ok_def)
  next
    case (Inr u)
    then have w: "watch k stop limit fuel s1 = Some (s', r)" "started"
      using assms(1) False c by (auto simp: resume_and_watch_def split: option.splits)
    note wp = watch_props[OF w(1) ok1]
    then have "end_ok limit (seen s') r" by (auto simp: end_ok_def split: sum.splits)
    moreover obtain d where "sh_hist s' = sh_hist s1 @ d" "list_all watch_event d" using wp by blast
    ultimately show ?thesis using wp w(2) s1 by auto
  qed
qed

lemma clean_up_props:
  assumes "clean_up k limit fuel (s, started, r) = Some a" "tails_ok limit s"
  shows "tails_ok limit (at_state a) \<and> at_started a = started \<and> seen s \<le> seen (at_state a) \<and>
    (\<exists>c d. sh_hist (at_state a) = sh_hist s @ c @ d \<and> list_all clean_event c \<and> TerminateJob \<in> set c \<and> list_all pipe_event d) \<and>
    (\<forall>out. at_end a = Inr out \<longrightarrow> (\<exists>o1. r = Inr (o1, at_code a) \<and>
       out = (if seen (at_state a) > limit \<and> o1 = Exited then OutputLimit else o1)))"
proof -
  obtain h b where t: "terminate_and_confirm k fuel (sh_hist s) = Some (h, b)"
    using assms(1) by (auto simp: clean_up_def split: option.splits)
  from terminate_props[OF t] obtain c where c: "h = sh_hist s @ c" "list_all clean_event c" "TerminateJob \<in> set c" by blast
  let ?s1 = "s\<lparr>sh_hist := h\<rparr>"
  have ok1: "tails_ok limit ?s1" unfolding c(1) by (rule tails_ok_quiet[OF assms(2)]) (simp add: clean_quiet[OF c(2)])
  show ?thesis
  proof (cases r)
    case (Inl e)
    then show ?thesis using assms(1) t ok1 c by (auto simp: clean_up_def seen_def intro: exI[of _ c])
  next
    case (Inr x)
    obtain out rc where x: "x = (out, rc)" by (cases x)
    obtain s2 r2 where d: "drain_rest k limit fuel ?s1 = Some (s2, r2)"
      using assms(1) t Inr x by (auto simp: clean_up_def split: option.splits)
    note dp = drain_rest_props[OF d ok1]
    then obtain y where y: "sh_hist s2 = h @ y" "list_all pipe_event y" by auto
    have a: "at_state a = s2" "at_started a = started" "at_code a = rc"
      "at_end a = (case r2 of Inl e \<Rightarrow> Inl e | Inr u \<Rightarrow> Inr (if seen s2 > limit \<and> out = Exited then OutputLimit else out))"
      using assms(1) t Inr x d by (cases r2; auto simp: clean_up_def)+
    have "\<exists>c d. sh_hist (at_state a) = sh_hist s @ c @ d \<and> list_all clean_event c \<and> TerminateJob \<in> set c \<and> list_all pipe_event d"
      using a y c by auto
    moreover have "seen s \<le> seen (at_state a)" using dp a by (simp add: seen_def)
    ultimately show ?thesis using a dp Inr x by (auto split: sum.splits)
  qed
qed

lemma after_creation_run:
  assumes "d = [] \<and> \<not> started \<or> d = [ResumeThread] \<and> \<not> started \<or> (\<exists>w. d = ResumeThread # w \<and> list_all watch_event w \<and> started)"
    "list_all clean_event c" "TerminateJob \<in> set c" "list_all pipe_event y"
  shows "after_creation ([OwnProcess, OwnThread] @ d @ c @ y) started"
proof -
  have "list_all watch_event []" by simp
  then have "\<exists>w. list_all watch_event w \<and> (d = [] \<and> \<not> started \<or> d = ResumeThread # w)" using assms(1) by blast
  then obtain w where w: "list_all watch_event w" "d = [] \<and> \<not> started \<or> d = ResumeThread # w" by blast
  have n: "CreateProcess x f l \<notin> set w \<union> set c \<union> set y" "ResumeThread \<notin> set w \<union> set c \<union> set y" for x f l
    using no_create w(1) assms(2,4) no_resume by auto
  from w(2) show ?thesis
  proof
    assume "d = [] \<and> \<not> started"
    then show ?thesis using n by (auto simp: after_creation_def)
  next
    assume d: "d = ResumeThread # w"
    have "\<exists>a b. [OwnProcess, OwnThread] @ d @ c @ y = a @ ResumeThread # b \<and> ResumeThread \<notin> set a \<union> set b \<and> TerminateJob \<in> set b"
      using n assms(3) by (intro exI[of _ "[OwnProcess, OwnThread]"] exI[of _ "w @ c @ y"]) (simp add: d)
    then show ?thesis using n by (auto simp: after_creation_def d)
  qed
qed

lemma attempt_props:
  assumes "attempt_shell k command cwd stop limit fuel shell_init = Some a"
  shows "tails_ok limit (at_state a) \<and>
    ((\<not> at_started a \<and> (\<forall>x f l. CreateProcess x f l \<notin> set (sh_hist (at_state a)))) \<or>
     (\<exists>d. sh_hist (at_state a) = preparation @ CreateProcess (command_line k command) cwd process_flags # d \<and> after_creation d (at_started a))) \<and>
    (case at_end a of Inl e \<Rightarrow> True | Inr out \<Rightarrow> out \<in> {Cancelled, TimedOut, OutputLimit, Exited} \<and>
       (out = Exited \<longrightarrow> at_code a \<noteq> None \<and> at_started a \<and> seen (at_state a) \<le> limit) \<and>
       (out = OutputLimit \<longrightarrow> seen (at_state a) > limit))"
proof -
  obtain s r where p: "prepare k shell_init = (s, r)" by (cases "prepare k shell_init")
  obtain n where n: "s = shell_init\<lparr>sh_hist := take n preparation\<rparr>" using prepare_props(1)[OF p] by blast
  have okn: "tails_ok limit s" unfolding n by (rule init_ok)
  have quiet: "\<forall>x f l. CreateProcess x f l \<notin> set (sh_hist s)" using preparation_quiet(1) unfolding n by fastforce
  show ?thesis
  proof (cases "(\<exists>e. r = Inl e) \<or> expired k stop (sh_hist s)")
    case True
    then show ?thesis using assms p okn quiet by (cases r) (auto simp: attempt_shell_def stop_reason_def)
  next
    case False
    then have r: "r = Inr ()" by (cases r) auto
    have sp: "sh_hist s = preparation" using prepare_props(2)[OF p r] by simp
    let ?c = "CreateProcess (command_line k command) cwd process_flags"
    obtain s1 r1 where c: "shell_call k ?c s = (s1, r1)" by (cases "shell_call k ?c s")
    have s1: "s1 = s\<lparr>sh_hist := preparation @ [?c]\<rparr>" using shell_call_props[OF c] sp by simp
    have ok1: "tails_ok limit s1" unfolding s1 using tails_ok_quiet[OF okn, of "[?c]"] sp by simp
    obtain h r2 where o: "kdo_all k [OwnProcess, OwnThread] (sh_hist s1) = (h, r2)" by (cases "kdo_all k [OwnProcess, OwnThread] (sh_hist s1)")
    from kdo_all_props[OF o] obtain m where m: "h = sh_hist s1 @ take m [OwnProcess, OwnThread]"
      "r2 = Inr () \<longrightarrow> h = sh_hist s1 @ [OwnProcess, OwnThread]" by blast
    let ?s2 = "s1\<lparr>sh_hist := h\<rparr>"
    have "pipe_bytes p (take m [OwnProcess, OwnThread]) = []" for p by (cases m; cases "m - 1") auto
    then have ok2: "tails_ok limit ?s2" unfolding m(1) by (intro tails_ok_quiet[OF ok1]) simp
    have ac: "after_creation (take m [OwnProcess, OwnThread]) False"
      by (cases m; cases "m - 1") (auto simp: after_creation_def)
    show ?thesis
    proof (cases "(\<exists>e. r1 = Inl e) \<or> (\<exists>e. r2 = Inl e)")
      case True
      have "after_creation [] False" by (simp add: after_creation_def)
      then show ?thesis using True assms p False r c o ok1 ok2 s1 m(1) ac
        by (cases r1; cases r2) (auto simp: attempt_shell_def simp del: kdo_all.simps)
    next
      case run: False
      then have rr: "r1 = Inr ()" "r2 = Inr ()" by (cases r1, auto, cases r2, auto)
      obtain s3 started e where w: "resume_and_watch k stop limit fuel ?s2 = Some (s3, started, e)"
        "clean_up k limit fuel (s3, started, e) = Some a"
        using assms p False r c o rr by (auto simp: attempt_shell_def simp del: kdo_all.simps split: option.splits)
      note wp = resume_props[OF w(1) ok2]
      have ok3: "tails_ok limit s3" using wp by blast
      note cp = clean_up_props[OF w(2) ok3]
      obtain d where d: "sh_hist s3 = h @ d" "d = [] \<and> \<not> started \<or> d = [ResumeThread] \<and> \<not> started \<or>
          (\<exists>w. d = ResumeThread # w \<and> list_all watch_event w \<and> started)" using wp by auto
      obtain x y where xy: "sh_hist (at_state a) = sh_hist s3 @ x @ y" "list_all clean_event x" "TerminateJob \<in> set x" "list_all pipe_event y"
        using cp by (elim conjE exE) (rule that)
      have "sh_hist (at_state a) = preparation @ ?c # ([OwnProcess, OwnThread] @ d @ x @ y)"
        using xy(1) d(1) m(2) rr s1 by simp
      moreover have "after_creation ([OwnProcess, OwnThread] @ d @ x @ y) (at_started a)"
        using after_creation_run[OF d(2) xy(2-4)] cp by simp
      moreover have "case at_end a of Inl e \<Rightarrow> True | Inr out \<Rightarrow> out \<in> {Cancelled, TimedOut, OutputLimit, Exited} \<and>
         (out = Exited \<longrightarrow> at_code a \<noteq> None \<and> at_started a \<and> seen (at_state a) \<le> limit) \<and>
         (out = OutputLimit \<longrightarrow> seen (at_state a) > limit)"
      proof (cases "at_end a")
        case (Inr out)
        then obtain o1 where o1: "e = Inr (o1, at_code a)" "out = (if seen (at_state a) > limit \<and> o1 = Exited then OutputLimit else o1)"
          using cp by blast
        have st: "\<not> started \<longrightarrow> o1 \<in> {Cancelled, TimedOut}" using wp o1(1) by blast
        have "end_ok limit (seen s3) e" using wp by blast
        then show ?thesis using o1 st cp Inr by (auto simp: end_ok_def)
      qed simp
      moreover have "tails_ok limit (at_state a)" using cp by (rule conjunct1)
      ultimately show ?thesis by (intro conjI disjI2 exI)
    qed
  qed
qed

lemma run_shell_cases:
  assumes "run_shell absolute decode windows k command cwd timeout deadline limit fuel = Some (Inr (h, r))"
  obtains (quiet) out where "h = []" "r = shell_ended out" "out \<in> {Cancelled, TimedOut, StartupFailed}"
  | (ran) a stop where "attempt_shell k command cwd stop limit fuel shell_init = Some a" "(h, r) = shell_summary decode k a"
  using assms that by (auto simp: run_shell_def Let_def split: if_splits)

text \<open>A kernel on which everything succeeds, and the command exits with code 7 at once.\<close>

definition quick_kernel :: kernel where
  "quick_kernel = \<lparr>k_fails = (\<lambda>c h. None), k_cancel = (\<lambda>h. False), k_time = (\<lambda>h. 0), k_directory = ''C:'',
     k_attribute_size = 100, k_available = (\<lambda>p h. 0), k_bytes = (\<lambda>p h. []), k_wait = (\<lambda>h. 0), k_exit = (\<lambda>h. 7),
     k_members = (\<lambda>h. []), k_in_job = (\<lambda>p h. False), k_active = (\<lambda>h. 0), k_member_gone = (\<lambda>p h. True)\<rparr>"

lemma quick_simps [simp]: "k_fails quick_kernel c h = None" "k_cancel quick_kernel h = False" "k_time quick_kernel h = 0"
  "k_attribute_size quick_kernel = 100" "k_available quick_kernel p h = 0" "k_wait quick_kernel h = 0" "k_exit quick_kernel h = 7"
  "k_members quick_kernel h = []" "k_active quick_kernel h = 0"
  by (simp_all add: quick_kernel_def)

lemma quick_calls: "kdo_all quick_kernel cs h = (h @ cs, Inr ())" "shell_call quick_kernel c s = (s\<lparr>sh_hist := sh_hist s @ [c]\<rparr>, Inr ())"
  by (induction cs arbitrary: h) (simp_all add: kdo_def shell_call_def)

lemma quick_prepare: "prepare quick_kernel s = (s\<lparr>sh_hist := sh_hist s @ preparation\<rparr>, Inr ())"
proof -
  have "butlast setup_calls @ SizeAttributes # attribute_calls = preparation" by (simp add: setup_calls_def preparation_def)
  then show ?thesis by (simp add: prepare_def quick_calls(1) Let_def)
qed

lemma quick_drain: "\<exists>h. drain_both quick_kernel limit s = (s\<lparr>sh_hist := h\<rparr>, Inr 0)"
proof -
  have d: "\<exists>g. drain quick_kernel p al h t = (g, t, Inr 0)" for p al h t
    by (simp add: drain_def eval_nat_numeral Let_def)
  obtain g where g: "drain quick_kernel 1 (limit + 1 - seen s) (sh_hist s) (sh_out s) = (g, sh_out s, Inr 0)" using d by blast
  obtain g2 where "drain quick_kernel 2 (limit + 1 - seen (s\<lparr>sh_hist := g, sh_out := sh_out s\<rparr>)) g (sh_err s) = (g2, sh_err s, Inr 0)"
    using d by blast
  then show ?thesis using g by (auto simp: drain_both_def Let_def intro!: exI[of _ g2])
qed

lemma quick_watch: "seen s \<le> limit \<Longrightarrow> \<exists>h. watch quick_kernel 1 limit 1 s = Some (s\<lparr>sh_hist := h\<rparr>, Inr (Exited, Some 7))"
  using quick_drain[of limit s] by (auto simp: quick_calls Let_def seen_def eval_nat_numeral)

lemma quick_terminate: "\<exists>h'. terminate_and_confirm quick_kernel 1 h = Some (h', True)"
  by (simp add: terminate_and_confirm_def Let_def kdo_def CLEANUP_SECONDS_def)

lemma quick_rest: "\<exists>h. drain_rest quick_kernel limit 1 s = Some (s\<lparr>sh_hist := h\<rparr>, Inr ())"
  using quick_drain[of limit s] by (auto simp: eval_nat_numeral)

lemma quick_run: "\<exists>h r. run_shell (\<lambda>d. True) id True quick_kernel ''dir'' None 1 None 100 1 = Some (Inr (h, r)) \<and>
    s_outcome r = Exited \<and> s_returncode r = Some 7"
proof -
  define s1 where "s1 = shell_init\<lparr>sh_hist := (preparation @ [CreateProcess (command_line quick_kernel ''dir'') None process_flags]) @ [OwnProcess, OwnThread]\<rparr>"
  have n: "seen (shell_init\<lparr>sh_hist := h\<rparr>) = 0" for h by (simp add: seen_def shell_init_def no_tail_def)
  obtain h2 where w: "watch quick_kernel 1 100 1 (s1\<lparr>sh_hist := sh_hist s1 @ [ResumeThread]\<rparr>) =
      Some (s1\<lparr>sh_hist := h2\<rparr>, Inr (Exited, Some 7))"
  proof -
    have "seen (s1\<lparr>sh_hist := sh_hist s1 @ [ResumeThread]\<rparr>) \<le> 100" by (simp add: s1_def n)
    from quick_watch[OF this] show thesis using that by (auto simp del: watch.simps)
  qed
  obtain h3 where t: "terminate_and_confirm quick_kernel 1 h2 = Some (h3, True)" using quick_terminate by blast
  obtain h4 where r: "drain_rest quick_kernel 100 1 (s1\<lparr>sh_hist := h3\<rparr>) = Some (s1\<lparr>sh_hist := h4\<rparr>, Inr ())"
    using quick_rest[of 100 "s1\<lparr>sh_hist := h3\<rparr>"] by (auto simp del: drain_rest.simps)
  have c: "clean_up quick_kernel 100 1 (s1\<lparr>sh_hist := h2\<rparr>, True, Inr (Exited, Some 7)) =
      Some \<lparr>at_state = s1\<lparr>sh_hist := h4\<rparr>, at_started = True, at_cleanup = True, at_code = Some 7, at_end = Inr Exited\<rparr>"
    using t r by (simp add: clean_up_def Let_def s1_def n del: drain_rest.simps)
  have a: "attempt_shell quick_kernel ''dir'' None 1 100 1 shell_init =
      Some \<lparr>at_state = s1\<lparr>sh_hist := h4\<rparr>, at_started = True, at_cleanup = True, at_code = Some 7, at_end = Inr Exited\<rparr>"
    using w c by (simp add: attempt_shell_def quick_prepare expired_def quick_calls resume_and_watch_def shell_init_def s1_def del: watch.simps kdo_all.simps drain_rest.simps)
  have "strip ''dir'' \<noteq> []" by code_simp
  then show ?thesis using a
    by (simp add: run_shell_def valid_shell_request_def MAX_COMMAND_CHARS_def MAX_OUTPUT_BYTES_def shell_summary_def Let_def)
qed

text \<open>C31 A command runs only inside its job: if a process is created at all, it is the one for the approved
  command, created after the job with its limits was fully set up and suspended; it is resumed at most
  once, after which the whole job is terminated before the run ends, and the handles of the job are
  closed last. A result that is not marked as started comes with no process, or one that was created
  and terminated without being seen to run.\<close>

theorem shell_contained:
  assumes "run_shell absolute decode windows k command cwd timeout deadline limit fuel = Some (Inr (h, r))"
  shows "\<not> s_started r \<and> (\<forall>x f l. CreateProcess x f l \<notin> set h) \<or>
    (\<exists>d. h = preparation @ CreateProcess (command_line k command) cwd process_flags # d @ [CloseJob] \<and> after_creation d (s_started r))"
  using assms
proof (cases rule: run_shell_cases)
  case (quiet out)
  then show ?thesis by (simp add: shell_ended_def)
next
  case (ran a stop)
  have h: "h = sh_hist (at_state a) @ [CloseJob]" "s_started r = at_started a"
    using ran(2) by (simp_all add: shell_summary_def Let_def close_job_def)
  from attempt_props[OF ran(1)] have "\<not> at_started a \<and> (\<forall>x f l. CreateProcess x f l \<notin> set (sh_hist (at_state a))) \<or>
     (\<exists>d. sh_hist (at_state a) = preparation @ CreateProcess (command_line k command) cwd process_flags # d \<and> after_creation d (at_started a))"
    by (elim conjE)
  then show ?thesis unfolding h by auto
qed

theorem shell_contained_witness:
  "\<exists>h r d. run_shell (\<lambda>d. True) id True quick_kernel ''dir'' None 1 None 100 1 = Some (Inr (h, r)) \<and>
     (s_started r \<longrightarrow> h = preparation @ CreateProcess (command_line quick_kernel ''dir'') None process_flags # d @ [CloseJob] \<and>
        TerminateJob \<in> set d)"
proof -
  obtain h r where q: "run_shell (\<lambda>d. True) id True quick_kernel ''dir'' None 1 None 100 1 = Some (Inr (h, r))" "s_outcome r = Exited"
    using quick_run by blast
  have "s_started r \<longrightarrow> (\<exists>d. h = preparation @ CreateProcess (command_line quick_kernel ''dir'') None process_flags # d @ [CloseJob] \<and>
        TerminateJob \<in> set d)"
    using shell_contained[OF q(1)] by (fastforce simp: after_creation_def)
  then show ?thesis using q(1) by blast
qed

text \<open>What a result says about output is exact and bounded: the byte counts are those that were read, the
  texts are the decoded last 4000 bytes, the two streams together never exceed the limit by more than
  one byte, output was cut exactly when the result says so, and an exit is reported only with its
  code, for a started command within the limit.\<close>

lemma shell_output:
  assumes "run_shell absolute decode windows k command cwd timeout deadline limit fuel = Some (Inr (h, r))" "decode [] = []"
  shows "s_stdout_seen r = length (pipe_bytes 1 h) \<and> s_stderr_seen r = length (pipe_bytes 2 h) \<and>
    s_stdout r = decode (final_bytes (pipe_bytes 1 h)) \<and> s_stderr r = decode (final_bytes (pipe_bytes 2 h)) \<and>
    s_stdout_seen r + s_stderr_seen r \<le> limit + 1 \<and>
    s_truncated r = (s_stdout_seen r > TAIL_BYTES \<or> s_stderr_seen r > TAIL_BYTES \<or> s_outcome r = OutputLimit) \<and>
    (s_outcome r = Exited \<longrightarrow> s_returncode r \<noteq> None \<and> s_started r \<and> s_error r = None \<and> s_stdout_seen r + s_stderr_seen r \<le> limit) \<and>
    (s_outcome r = OutputLimit \<longrightarrow> s_stdout_seen r + s_stderr_seen r > limit)"
  using assms(1)
proof (cases rule: run_shell_cases)
  case (quiet out)
  then show ?thesis using assms(2) by (auto simp: shell_ended_def final_bytes_def)
next
  case (ran a stop)
  note ap = attempt_props[OF ran(1)]
  have hb: "pipe_bytes p h = pipe_bytes p (sh_hist (at_state a))" for p
    using ran(2) by (simp add: shell_summary_def Let_def close_job_def)
  have t: "sh_out (at_state a) = tail_of (pipe_bytes 1 h)" "sh_err (at_state a) = tail_of (pipe_bytes 2 h)"
    "seen (at_state a) \<le> limit + 1" using conjunct1[OF ap] by (simp_all add: hb tails_ok_def)
  then have t4: "seen (at_state a) = length (pipe_bytes 1 h) + length (pipe_bytes 2 h)" by (simp add: seen_def tail_of_def)
  have e: "case at_end a of Inl e \<Rightarrow> True | Inr out \<Rightarrow> out \<in> {Cancelled, TimedOut, OutputLimit, Exited} \<and>
       (out = Exited \<longrightarrow> at_code a \<noteq> None \<and> at_started a \<and> seen (at_state a) \<le> limit) \<and>
       (out = OutputLimit \<longrightarrow> seen (at_state a) > limit)" using ap by (elim conjE)
  have o: "s_outcome r = (case at_end a of Inl e \<Rightarrow> if at_started a then RuntimeFailed else StartupFailed | Inr o1 \<Rightarrow> o1)"
    "s_returncode r = at_code a" "s_started r = at_started a" "s_error r = (case at_end a of Inl e \<Rightarrow> e | Inr o1 \<Rightarrow> None)"
    "s_stdout_seen r = length (pipe_bytes 1 h)" "s_stderr_seen r = length (pipe_bytes 2 h)"
    "s_stdout r = decode (final_bytes (pipe_bytes 1 h))" "s_stderr r = decode (final_bytes (pipe_bytes 2 h))"
    "s_truncated r = (s_stdout_seen r > TAIL_BYTES \<or> s_stderr_seen r > TAIL_BYTES \<or> s_outcome r = OutputLimit)"
    using ran(2) t(1,2) by (simp_all add: shell_summary_def Let_def tail_of_def)
  show ?thesis using o t(3) t4 e by (cases "at_end a") auto
qed

lemma shell_output_witness:
  "\<exists>h r. run_shell (\<lambda>d. True) id True quick_kernel ''dir'' None 1 None 100 1 = Some (Inr (h, r)) \<and>
     s_returncode r \<noteq> None \<and> s_started r \<and> s_stdout r = final_bytes (pipe_bytes 1 h)"
proof -
  obtain h r where q: "run_shell (\<lambda>d. True) id True quick_kernel ''dir'' None 1 None 100 1 = Some (Inr (h, r))" "s_outcome r = Exited"
    using quick_run by blast
  have "id [] = []" by simp
  from shell_output[OF q(1) this] q show ?thesis by auto
qed

section \<open>Every run ends\<close>

text \<open>The clock never goes back, and every wait of the loops takes its time.\<close>

definition polls :: "history \<Rightarrow> nat" where
  "polls h = length (filter ((=) Polled) h)"

definition clock_ok :: "kernel \<Rightarrow> bool" where
  "clock_ok k = (\<forall>h d. k_time k (h @ d) \<ge> k_time k h + of_nat (polls d) * POLL_SECONDS)"

lemma clock_mono: "clock_ok k \<Longrightarrow> k_time k h \<le> k_time k (h @ d)"
  unfolding clock_ok_def POLL_SECONDS_def by (smt (verit) add_increasing2 divide_nonneg_nonneg of_nat_0_le_iff order_refl
    mult_nonneg_nonneg order_trans zero_le_one zero_le_numeral)

lemma clock_poll:
  assumes "clock_ok k" "Polled \<in> set d"
  shows "k_time k h + POLL_SECONDS \<le> k_time k (h @ d)"
proof -
  have "filter ((=) Polled) d \<noteq> []" using assms(2) by (auto simp: filter_empty_conv)
  then have "1 \<le> polls d" by (simp add: polls_def Suc_le_eq)
  then have "POLL_SECONDS \<le> of_nat (polls d) * POLL_SECONDS" by (simp add: POLL_SECONDS_def)
  moreover have "k_time k h + of_nat (polls d) * POLL_SECONDS \<le> k_time k (h @ d)" using assms(1) by (simp add: clock_ok_def)
  ultimately show ?thesis by linarith
qed

lemma drain_both_hist: "drain_both k limit s = (s1, r) \<Longrightarrow> \<exists>d. sh_hist s1 = sh_hist s @ d"
proof -
  have l: "\<exists>d. fst (drain_loop k p i al h t n) = h @ d" for p i al h t n
  proof (induction i arbitrary: h t n)
    case (Suc i)
    let ?h1 = "h @ [PeekPipe p]"
    let ?d = "take (min 8192 (min (k_available k p h) (al - n))) (k_bytes k p ?h1)"
    from Suc.IH[of "?h1 @ [ReadPipe p ?d]" "tail_append t ?d" "n + length ?d"]
    show ?case by (auto simp: Let_def split: option.splits)
  qed simp
  assume b: "drain_both k limit s = (s1, r)"
  obtain h1 t1 r1 where d1: "drain k 1 (limit + 1 - seen s) (sh_hist s) (sh_out s) = (h1, t1, r1)" by (metis prod_cases3)
  obtain h2 t2 r2 where d2: "drain k 2 (limit + 1 - seen (s\<lparr>sh_hist := h1, sh_out := t1\<rparr>)) h1 (sh_err s) = (h2, t2, r2)" by (metis prod_cases3)
  obtain x where "h1 = sh_hist s @ x" using l d1 unfolding drain_def by (metis fst_conv)
  moreover obtain y where "h2 = h1 @ y" using l d2 unfolding drain_def by (metis fst_conv)
  ultimately show ?thesis using b d1 d2 by (cases r1; cases r2) (auto simp: drain_both_def Let_def)
qed

lemma watch_ends:
  assumes "clock_ok k" "stop \<le> k_time k (sh_hist s) + of_nat n * POLL_SECONDS" "n < f"
  shows "watch k stop limit f s \<noteq> None"
  using assms(2,3)
proof (induction f arbitrary: s n)
  case (Suc f)
  show ?case
  proof (cases "k_cancel k (sh_hist s) \<or> k_time k (sh_hist s) \<ge> stop")
    case True
    then show ?thesis by auto
  next
    case False
    then obtain m where m: "n = Suc m" using Suc.prems(1) by (cases n) auto
    obtain s1 r1 where d: "drain_both k limit s = (s1, r1)" by (cases "drain_both k limit s")
    obtain x where x: "sh_hist s1 = sh_hist s @ x" using drain_both_hist[OF d] by blast
    let ?s2 = "s1\<lparr>sh_hist := sh_hist s1 @ [WaitProcess]\<rparr>"
    let ?s3 = "?s2\<lparr>sh_hist := sh_hist ?s2 @ [Polled]\<rparr>"
    have "k_time k (sh_hist s) + POLL_SECONDS \<le> k_time k (sh_hist s @ (x @ [WaitProcess, Polled]))"
      by (rule clock_poll[OF assms(1)]) simp
    then have "stop \<le> k_time k (sh_hist ?s3) + of_nat m * POLL_SECONDS"
      using Suc.prems(1) x m by (simp add: algebra_simps)
    then have "watch k stop limit f ?s3 \<noteq> None" using Suc.IH Suc.prems(2) m by simp
    then show ?thesis using False d by (cases r1) (auto simp: Let_def fst_shell_call split: prod.splits sum.splits)
  qed
qed simp

lemma confirm_ends:
  assumes "clock_ok k" "stop \<le> k_time k h + of_nat n * POLL_SECONDS" "n < f"
  shows "confirm k stop members inspected f h \<noteq> None"
  using assms(2,3)
proof (induction f arbitrary: h n)
  case (Suc f)
  show ?case
  proof (cases "k_time k h \<ge> stop")
    case False
    then obtain m where m: "n = Suc m" using Suc.prems(1) by (cases n) auto
    have go: "confirm k stop members inspected f (h @ d) \<noteq> None" if "Polled \<in> set d" for d
    proof -
      have "stop \<le> k_time k (h @ d) + of_nat m * POLL_SECONDS"
        using clock_poll[OF assms(1) that, of h] Suc.prems(1) m by (simp add: algebra_simps)
      then show ?thesis using Suc.IH Suc.prems(2) m by simp
    qed
    obtain h3 gone where g: "all_gone k members (h @ [QueryActive] @ [WaitProcess]) = (h3, gone)"
      by (cases "all_gone k members (h @ [QueryActive] @ [WaitProcess])")
    then obtain d where d: "h3 = (h @ [QueryActive, WaitProcess]) @ d" using all_gone_props by fastforce
    show ?thesis using False g d go[of "[QueryActive, Polled]"] go[of "[QueryActive, WaitProcess, Polled]"]
        go[of "QueryActive # WaitProcess # d @ [Polled]"]
      by (auto simp: Let_def)
  qed simp
qed simp

lemma drain_rest_ends:
  assumes "tails_ok limit s" "limit + 1 - seen s < f"
  shows "drain_rest k limit f s \<noteq> None"
  using assms
proof (induction f arbitrary: s)
  case (Suc f)
  obtain s1 r1 where d: "drain_both k limit s = (s1, r1)" by (cases "drain_both k limit s")
  note dp = drain_both_props[OF d Suc.prems(1)]
  show ?case
  proof (cases "\<exists>n. r1 = Inr n \<and> \<not> (seen s1 > limit \<or> n = 0)")
    case True
    then have "limit + 1 - seen s1 < f" using dp Suc.prems(2) by auto
    then have "drain_rest k limit f s1 \<noteq> None" using Suc.IH dp by blast
    then show ?thesis using d True by auto
  qed (use d in \<open>auto split: sum.splits\<close>)
qed simp

definition SHELL_FUEL :: nat where "SHELL_FUEL = MAX_OUTPUT_BYTES + 2"

text \<open>C32 Every run returns: with a clock on which each wait of the loops takes at least its hundredth of a
  second, the loops end within a fixed number of rounds, whatever the kernel answers.\<close>

theorem shell_terminates:
  assumes "clock_ok k"
  shows "run_shell absolute decode windows k command cwd timeout deadline limit SHELL_FUEL \<noteq> None"
proof (cases "valid_shell_request absolute command cwd timeout limit")
  case True
  then have v: "timeout \<le> 120" "limit \<le> MAX_OUTPUT_BYTES" by (auto simp: valid_shell_request_def)
  have f: "(12000::nat) < SHELL_FUEL" "(200::nat) < SHELL_FUEL" "limit + 1 < SHELL_FUEL"
    using v(2) by (simp_all add: SHELL_FUEL_def MAX_OUTPUT_BYTES_def)
  define stop where "stop = (case deadline of None \<Rightarrow> k_time k [] + timeout | Some d \<Rightarrow> min (k_time k [] + timeout) d)"
  have stop: "stop \<le> k_time k [] + 120" using v(1) by (auto simp: stop_def split: option.splits)
  have w: "resume_and_watch k stop limit SHELL_FUEL s \<noteq> None" for s
  proof -
    have m: "k_time k [] \<le> k_time k (sh_hist t)" for t using clock_mono[OF assms, of "[]"] by simp
    have "(of_nat 12000 :: rat) * POLL_SECONDS = 120" by (simp add: POLL_SECONDS_def)
    then have "stop \<le> k_time k (sh_hist t) + of_nat 12000 * POLL_SECONDS" for t
      using stop m[of t] by linarith
    then have wt: "watch k stop limit SHELL_FUEL t \<noteq> None" for t using watch_ends[OF assms _ f(1)] by blast
    obtain s1 r1 where "shell_call k ResumeThread s = (s1, r1)" by (cases "shell_call k ResumeThread s")
    then show ?thesis using wt[of s1] by (cases r1) (auto simp: resume_and_watch_def)
  qed
  have t: "terminate_and_confirm k SHELL_FUEL h \<noteq> None" for h
  proof -
    have "confirm k (k_time k g + CLEANUP_SECONDS) ms b SHELL_FUEL g \<noteq> None" for g ms b
      by (rule confirm_ends[OF assms _ f(2)]) (simp add: CLEANUP_SECONDS_def POLL_SECONDS_def)
    then show ?thesis unfolding terminate_and_confirm_def Let_def
      by (auto split: prod.splits sum.splits simp del: not_None_eq)
  qed
  have c: "clean_up k limit SHELL_FUEL (s, started, r) \<noteq> None" if "tails_ok limit s" for s started r
  proof -
    obtain h b where tb: "terminate_and_confirm k SHELL_FUEL (sh_hist s) = Some (h, b)" using t by (metis not_None_eq prod.collapse)
    from terminate_props[OF tb] obtain d where d: "h = sh_hist s @ d" "list_all clean_event d" by blast
    have "tails_ok limit (s\<lparr>sh_hist := h\<rparr>)" unfolding d(1) by (rule tails_ok_quiet[OF that]) (simp add: clean_quiet[OF d(2)])
    then have "drain_rest k limit SHELL_FUEL (s\<lparr>sh_hist := h\<rparr>) \<noteq> None" using drain_rest_ends f(3) by (metis diff_le_self le_less_trans)
    then obtain s2 r2 where "drain_rest k limit SHELL_FUEL (s\<lparr>sh_hist := h\<rparr>) = Some (s2, r2)" by (metis not_None_eq prod.collapse)
    then show ?thesis using tb by (cases r; cases r2) (auto simp: clean_up_def Let_def)
  qed
  have "attempt_shell k command cwd stop limit SHELL_FUEL shell_init \<noteq> None"
  proof -
    obtain s r where p: "prepare k shell_init = (s, r)" by (cases "prepare k shell_init")
    obtain n where n: "s = shell_init\<lparr>sh_hist := take n preparation\<rparr>" using prepare_props(1)[OF p] by blast
    have okn: "tails_ok limit s" unfolding n by (rule init_ok)
    let ?c = "CreateProcess (command_line k command) cwd process_flags"
    obtain s1 r1 where c1: "shell_call k ?c s = (s1, r1)" by (cases "shell_call k ?c s")
    have ok1: "tails_ok limit s1" unfolding shell_call_props[OF c1] by (rule tails_ok_quiet[OF okn]) simp
    obtain h r2 where o: "kdo_all k [OwnProcess, OwnThread] (sh_hist s1) = (h, r2)" by (cases "kdo_all k [OwnProcess, OwnThread] (sh_hist s1)")
    from kdo_all_props[OF o] obtain m where m: "h = sh_hist s1 @ take m [OwnProcess, OwnThread]" by blast
    have "pipe_bytes p (take m [OwnProcess, OwnThread]) = []" for p by (cases m; cases "m - 1") auto
    then have ok2: "tails_ok limit (s1\<lparr>sh_hist := h\<rparr>)" unfolding m by (intro tails_ok_quiet[OF ok1]) simp
    obtain s3 started e where rw: "resume_and_watch k stop limit SHELL_FUEL (s1\<lparr>sh_hist := h\<rparr>) = Some (s3, started, e)"
      using w by (metis not_None_eq prod_cases3)
    have "tails_ok limit s3" using resume_props[OF rw ok2] by (rule conjunct1)
    then have "clean_up k limit SHELL_FUEL (s3, started, e) \<noteq> None" by (rule c)
    then show ?thesis using p c1 o rw by (auto simp: attempt_shell_def simp del: kdo_all.simps split: sum.splits)
  qed
  then show ?thesis unfolding run_shell_def Let_def stop_def[symmetric] by auto
qed (simp add: run_shell_def)

theorem shell_terminates_witness:
  "run_shell (\<lambda>d. True) id True (quick_kernel\<lparr>k_wait := (\<lambda>h. 258), k_active := (\<lambda>h. 1), k_time := (\<lambda>h. of_nat (polls h) * POLL_SECONDS)\<rparr>)
     ''dir'' None 30 None 100 SHELL_FUEL \<noteq> None"
  by (rule shell_terminates) (simp add: clock_ok_def polls_def algebra_simps)

end
