(* ===== verification/Local_Approval.thy ===== *)
theory Local_Approval
  imports Pc_World Shell_Runner
begin

text \<open>
  Consent at the companion's terminal (\<open>local_agent/local_approval.py\<close>) and the audit records of a shell
  command (\<open>local_agent/execution_audit.py\<close>). What the user types is an argument.
\<close>

section \<open>Consent\<close>

text \<open>
  One round of the loop on Windows: whether the action was cancelled or expired, and the key that was
  pressed, if any. \<open>None\<close> as a result means that the prompt is still waiting.
\<close>

type_synonym tick = "bool \<times> char option"

definition enter_key :: "char \<Rightarrow> bool" where
  "enter_key c = (c = CHR 0x0D \<or> c = CHR 0x0A)"

fun approval_loop :: "string \<Rightarrow> tick list \<Rightarrow> bool option" where
  "approval_loop v [] = None"
| "approval_loop v ((stop, key) # ts) =
     (if stop then Some False
      else (case key of
          None \<Rightarrow> approval_loop v ts
        | Some c \<Rightarrow>
            if enter_key c then Some (v = ''APPROVE'')
            else if c = CHR 0x03 then Some False
            else if c = CHR 0x08 then approval_loop (butlast v) ts
            else if c \<in> set ''APPROVE'' \<and> length v < 7 then approval_loop (v @ [c]) ts
            else Some False))"

text \<open>Elsewhere a whole line is read, of at most 32 characters.\<close>

definition approval_line :: "string \<Rightarrow> bool" where
  "approval_line line = (rev (dropWhile enter_key (rev (take 32 line))) = ''APPROVE'')"

record terminal =
  tm_tty :: bool
  tm_windows :: bool
  tm_ticks :: "tick list"
  tm_lines :: "(bool \<times> string option res) list"

text \<open>A line may not be there yet, and reading it may fail.\<close>

fun line_loop :: "(bool \<times> string option res) list \<Rightarrow> bool option" where
  "line_loop [] = None"
| "line_loop ((stop, r) # ts) =
     (if stop then Some False
      else (case r of Inl e \<Rightarrow> Some False | Inr None \<Rightarrow> line_loop ts | Inr (Some l) \<Rightarrow> Some (approval_line l)))"

definition approve_locally :: "terminal \<Rightarrow> bool option" where
  "approve_locally tm = (if \<not> tm_tty tm then Some False
     else if tm_windows tm then approval_loop [] (tm_ticks tm) else line_loop (tm_lines tm))"

text \<open>What a sequence of keys leaves in a line editor.\<close>

definition edited :: "string \<Rightarrow> string \<Rightarrow> string" where
  "edited v ks = fold (\<lambda>c v. if c = CHR 0x08 then butlast v else v @ [c]) ks v"

definition keys_of :: "tick list \<Rightarrow> string" where
  "keys_of ts = concat (map (\<lambda>t. case snd t of None \<Rightarrow> [] | Some c \<Rightarrow> [c]) ts)"

lemma approval_loop_True:
  "approval_loop v ts = Some True \<Longrightarrow> \<exists>pre c post. ts = pre @ (False, Some c) # post \<and> enter_key c \<and>
     list_all (\<lambda>t. \<not> fst t) pre \<and> list_all (\<lambda>k. \<not> enter_key k) (keys_of pre) \<and> edited v (keys_of pre) = ''APPROVE''"
proof (induction v ts rule: approval_loop.induct)
  case (2 v stop key ts)
  have go: "\<exists>pre c post. (stop, key) # ts = pre @ (False, Some c) # post \<and> enter_key c \<and> list_all (\<lambda>t. \<not> fst t) pre \<and>
      list_all (\<lambda>k. \<not> enter_key k) (keys_of pre) \<and> edited v (keys_of pre) = ''APPROVE''"
    if e: "\<exists>pre c post. ts = pre @ (False, Some c) # post \<and> enter_key c \<and> list_all (\<lambda>t. \<not> fst t) pre \<and>
      list_all (\<lambda>k. \<not> enter_key k) (keys_of pre) \<and> edited w (keys_of pre) = ''APPROVE''"
      and f: "\<not> stop" "\<And>x. edited v (keys_of [(stop, key)] @ x) = edited w x" "list_all (\<lambda>k. \<not> enter_key k) (keys_of [(stop, key)])" for w
  proof -
    obtain pre c post where p: "ts = pre @ (False, Some c) # post" "enter_key c" "list_all (\<lambda>t. \<not> fst t) pre"
      "list_all (\<lambda>k. \<not> enter_key k) (keys_of pre)" "edited w (keys_of pre) = ''APPROVE''" using e by blast
    have "keys_of ((stop, key) # pre) = keys_of [(stop, key)] @ keys_of pre" by (simp add: keys_of_def)
    then show ?thesis using p f
      by (intro exI[of _ "(stop, key) # pre"] exI[of _ c] exI[of _ post]) (simp add: f(2))
  qed
  have ns: "\<not> stop" using "2.prems" by (simp split: if_splits)
  show ?case
  proof (cases key)
    case None
    show ?thesis by (rule go[of v]) (use 2 ns None in \<open>auto simp: keys_of_def\<close>)
  next
    case (Some c)
    consider "enter_key c" | "c = CHR 0x08" "\<not> enter_key c" | "c \<noteq> CHR 0x08" "c \<noteq> CHR 0x03" "\<not> enter_key c" "c \<in> set ''APPROVE''" "length v < 7"
      using "2.prems" ns Some by (auto split: if_splits)
    then show ?thesis
    proof cases
      case 1
      then show ?thesis using "2.prems" ns Some by (intro exI[of _ "[]"] exI[of _ c] exI[of _ ts]) (simp add: keys_of_def edited_def)
    next
      case 2
      show ?thesis
        by (rule go[of "butlast v"]) (use "2.IH"(2)[OF ns Some] "2.prems" 2 ns Some in \<open>auto simp: keys_of_def edited_def\<close>)
    next
      case 3
      show ?thesis
        by (rule go[of "v @ [c]"]) (use "2.IH"(3)[OF ns Some] "2.prems" 3 ns Some in \<open>auto simp: keys_of_def edited_def\<close>)
    qed
  qed
qed simp

text \<open>Consent needs the word: on Windows the prompt answers yes only in a terminal, and only if the keys
  pressed before the first Enter, with their corrections, spell APPROVE, all of them before the action
  was cancelled or expired.\<close>

lemma consent_needs_word:
  assumes "approve_locally tm = Some True" "tm_windows tm"
  shows "tm_tty tm \<and> (\<exists>pre c post. tm_ticks tm = pre @ (False, Some c) # post \<and> enter_key c \<and>
     list_all (\<lambda>t. \<not> fst t) pre \<and> list_all (\<lambda>k. \<not> enter_key k) (keys_of pre) \<and> edited [] (keys_of pre) = ''APPROVE'')"
  using assms approval_loop_True[of "[]" "tm_ticks tm"] by (auto simp: approve_locally_def split: if_splits)

lemma consent_needs_word_witness:
  "\<exists>pre. edited [] (keys_of pre) = ''APPROVE'' \<and> length pre < 11"
proof -
  let ?tm = "\<lparr>tm_tty = True, tm_windows = True, tm_ticks = map (\<lambda>c. (False, Some c)) (''APR'' @ [CHR 0x08] @ ''PROVE'') @ [(False, None), (False, Some CHR 0x0D)],
    tm_lines = []\<rparr>"
  have "approve_locally ?tm = Some True" by code_simp
  moreover have "tm_windows ?tm" by simp
  ultimately have "tm_tty ?tm \<and> (\<exists>pre c post. tm_ticks ?tm = pre @ (False, Some c) # post \<and> enter_key c \<and>
     list_all (\<lambda>t. \<not> fst t) pre \<and> list_all (\<lambda>k. \<not> enter_key k) (keys_of pre) \<and> edited [] (keys_of pre) = ''APPROVE'')"
    by (rule consent_needs_word)
  then obtain pre c post where p: "tm_ticks ?tm = pre @ (False, Some c) # post"
    "edited [] (keys_of pre) = ''APPROVE''" by (elim conjE exE) simp_all
  have "length (tm_ticks ?tm) = 11" by simp
  then have "length pre < 11" unfolding p(1) by simp
  then show ?thesis using p(2) by blast
qed

section \<open>Audit records\<close>

definition outcome_text :: "outcome \<Rightarrow> string" where
  "outcome_text o1 = (case o1 of Exited \<Rightarrow> ''exited'' | TimedOut \<Rightarrow> ''timed_out'' | Cancelled \<Rightarrow> ''cancelled''
     | OutputLimit \<Rightarrow> ''output_limit'' | StartupFailed \<Rightarrow> ''startup_failed'' | RuntimeFailed \<Rightarrow> ''runtime_error'')"

definition int_or_none :: "nat option \<Rightarrow> pyval" where
  "int_or_none x = (case x of None \<Rightarrow> PNone | Some n \<Rightarrow> PInt (int n))"

definition effect_text :: "shell_result \<Rightarrow> pyval" where
  "effect_text r = PStr (if s_started r then ''not_verified'' else ''not_started'')"

text \<open>The fields that every record of an execution shares, and those of each kind. No record holds the
  command, its folder or its output.\<close>

definition audit_record :: "string \<Rightarrow> string \<Rightarrow> string \<Rightarrow> pyval \<Rightarrow> dict \<Rightarrow> dict" where
  "audit_record event_id execution_id hash timestamp extra =
     [(''event_id'', PStr event_id), (''execution_id'', PStr execution_id), (''timestamp'', timestamp),
      (''action'', PStr ''run_command''), (''command_sha256'', PStr hash)] @ extra"

definition audit_approved :: dict where
  "audit_approved = [(''outcome'', PStr ''approved_for_execution''), (''effect_outcome'', PStr ''not_started'')]"

definition audit_finished :: "shell_result \<Rightarrow> dict" where
  "audit_finished r =
     [(''outcome'', PStr (outcome_text (s_outcome r))), (''process_exit_code'', int_or_none (s_returncode r)),
      (''started'', PBool (s_started r)), (''cleanup_confirmed'', PBool (s_cleanup r)), (''duration_ms'', PInt (s_duration_ms r)),
      (''truncated'', PBool (s_truncated r)), (''stdout_bytes_observed'', PInt (int (s_stdout_seen r))),
      (''stderr_bytes_observed'', PInt (int (s_stderr_seen r))), (''effect_outcome'', effect_text r),
      (''error_code'', int_or_none (s_error r))]"

definition audit_unknown :: dict where
  "audit_unknown = [(''outcome'', PStr ''execution_status_unknown''), (''effect_outcome'', PStr ''unknown''),
     (''cleanup_confirmed'', PBool False)]"

end
