(* ===== verification/Local_Agent.thy ===== *)
theory Local_Agent
  imports App_Launcher Local_Approval "HOL-Library.Char_ord" "HOL-Library.List_Lexorder"
begin

text \<open>
  The companion on the user's PC (\<open>local_agent/agent.py\<close>): the capability, policy, expiry and consent
  checks before every action, the handlers of the actions, the dispatch of a command, and the loop
  that answers the server. The PC is an argument whose answers depend on the history of what was done.
\<close>

section \<open>The PC\<close>

text \<open>Resolving a path yields its components from the root, in the form in which they compare. Other
  programs do not change the file system between resolving a path and using it.\<close>

record pc =
  w_cancel :: "pc_event list \<Rightarrow> bool"
  w_time :: "pc_event list \<Rightarrow> rat"
  w_answer :: "pc_event list \<Rightarrow> string \<Rightarrow> dict \<Rightarrow> approval_context \<Rightarrow> bool"
  w_launcher :: launcher
  w_ip6 :: "string \<Rightarrow> bool"
  w_qs :: "string \<Rightarrow> string \<Rightarrow> string option"
  w_fetch :: "string \<Rightarrow> (nat \<times> html_event list) res"
  w_float :: "pyfloat \<Rightarrow> string"
  w_absolute :: "string \<Rightarrow> bool"
  w_windows :: "pc_event list \<Rightarrow> string list res"
  w_matching :: "pc_event list \<Rightarrow> string \<Rightarrow> string list res"
  w_window_op :: "pc_event list \<Rightarrow> unit res"
  w_resolve :: "string \<Rightarrow> string list res"
  w_show :: "string list \<Rightarrow> string"
  w_read :: "pc_event list \<Rightarrow> string list \<Rightarrow> string res"
  w_write :: "pc_event list \<Rightarrow> string list \<Rightarrow> unit res"
  w_scan :: "pc_event list \<Rightarrow> string list \<Rightarrow> string list res"
  w_gui :: "unit res"
  w_gui_op :: "pc_event list \<Rightarrow> unit res"
  w_size :: "int \<times> int"
  w_audit :: "pc_event list \<Rightarrow> unit res"
  w_shell :: "pc_event list \<Rightarrow> string \<Rightarrow> string option \<Rightarrow> pyval \<Rightarrow> shell_result res"
  w_execution_id :: string

text \<open>The configuration of one command.\<close>

record agent =
  a_caps :: dict
  a_folders :: "string list"
  a_aliases :: "(string \<times> string) list"
  a_deadline :: "rat option"

definition MAX_FILE_CHARS :: nat where "MAX_FILE_CHARS = 8192"
definition MAX_LIST_ENTRIES :: nat where "MAX_LIST_ENTRIES = 200"
definition MAX_LIST_CHARS :: nat where "MAX_LIST_CHARS = 8192"
definition MAX_RESULT_BYTES :: nat where "MAX_RESULT_BYTES = 65536"

definition CAPABILITIES :: "string list" where
  "CAPABILITIES = [''open_apps'', ''file_rw'', ''shell_exec'', ''mouse_keyboard_control'']"

text \<open>Loading the configuration: what is missing is disabled or empty.\<close>

definition setdefault :: "string \<Rightarrow> pyval \<Rightarrow> dict \<Rightarrow> dict" where
  "setdefault k v d = (case map_of d k of None \<Rightarrow> d @ [(k, v)] | Some _ \<Rightarrow> d)"

definition load_config :: "pyval res \<Rightarrow> dict res" where
  "load_config file = bindR file (\<lambda>v. case v of
       PDict d \<Rightarrow>
         (let d1 = setdefault ''capabilities'' (PDict []) d in
          case dget d1 ''capabilities'' of
            PDict caps \<Rightarrow> Inr (setdefault ''app_aliases'' (PDict []) (setdefault ''allowed_folders'' (PList [])
               (dset ''capabilities'' (PDict (fold (\<lambda>c. setdefault c (PBool False)) CAPABILITIES caps)) d1)))
          | _ \<Rightarrow> Inl AttributeError)
     | _ \<Rightarrow> Inl AttributeError)"

section \<open>Checks\<close>

definition execution_allowed :: "pc \<Rightarrow> agent \<Rightarrow> pc_event list \<Rightarrow> bool" where
  "execution_allowed w ag h = (\<not> w_cancel w h \<and> (case a_deadline ag of None \<Rightarrow> True | Some d \<Rightarrow> w_time w h < d))"

definition check_allowed :: "pc \<Rightarrow> agent \<Rightarrow> exn \<Rightarrow> unit pc_act" where
  "check_allowed w ag e = bindA (lookA (execution_allowed w ag)) (\<lambda>b.
     bindA (emitA (Checked b)) (\<lambda>_. if b then retA () else failA e))"

definition enabled :: "agent \<Rightarrow> string \<Rightarrow> bool" where
  "enabled ag cap = (dget (a_caps ag) cap = PBool True)"

definition ask_user :: "pc \<Rightarrow> string \<Rightarrow> dict \<Rightarrow> approval_context \<Rightarrow> unit pc_act" where
  "ask_user w act d ctx = bindA (lookA (\<lambda>h. w_answer w h act d ctx)) (\<lambda>b.
     bindA (emitA (Asked act d ctx b)) (\<lambda>_. if b then retA () else failA PermissionError))"

definition require_cap :: "pc \<Rightarrow> agent \<Rightarrow> string \<Rightarrow> string \<Rightarrow> dict \<Rightarrow> approval_context \<Rightarrow> unit pc_act" where
  "require_cap w ag cap act d ctx =
     (if \<not> enabled ag cap then failA CapabilityDisabled
      else bindA (liftA (validate_action (w_absolute w) act d)) (\<lambda>_.
        bindA (check_allowed w ag PermissionError) (\<lambda>_.
        bindA (ask_user w act d ctx) (\<lambda>_.
        check_allowed w ag PermissionError))))"

section \<open>Applications and windows\<close>

fun bounded_names :: "nat \<Rightarrow> nat \<Rightarrow> string list \<Rightarrow> string list \<times> bool" where
  "bounded_names n chars [] = ([], False)"
| "bounded_names n chars (x # xs) =
     (if n \<ge> MAX_LIST_ENTRIES \<or> chars + length x > MAX_LIST_CHARS then ([], True)
      else (case bounded_names (Suc n) (chars + length x) xs of (ys, t) \<Rightarrow> (x # ys, t)))"

definition APP_PARAM_KEYS :: "string list" where
  "APP_PARAM_KEYS = [''app'', ''app_name'', ''name'', ''application'', ''target'', ''url'', ''program'']"

definition app_target :: "dict \<Rightarrow> pyval" where
  "app_target d = (case find (\<lambda>k. truthy (dget d k)) APP_PARAM_KEYS of None \<Rightarrow> PNone | Some k \<Rightarrow> dget d k)"

text \<open>Whether a search is needed is decided by looking at the PC.\<close>

definition decide_search :: "pc \<Rightarrow> agent \<Rightarrow> string \<Rightarrow> pyval \<Rightarrow> bool pc_act" where
  "decide_search w ag target search_query =
     (if truthy search_query then retA True
      else bindA (emitA (Probed target)) (\<lambda>_. liftA (needs_web_search (w_launcher w) target (a_aliases ag))))"

text \<open>The page found by a search is shown to the user before it is opened.\<close>

definition search_and_open :: "pc \<Rightarrow> agent \<Rightarrow> dict \<Rightarrow> string \<Rightarrow> dict pc_act" where
  "search_and_open w ag d q =
     (if \<not> enabled ag ''open_apps'' then failA CapabilityDisabled
      else bindA (liftA (validate_action (w_absolute w) ''open_app'' d)) (\<lambda>_.
        bindA (check_allowed w ag PermissionError) (\<lambda>_.
        bindA (search_web (w_ip6 w) (w_qs w) (w_fetch w) q) (\<lambda>candidate.
          case candidate of None \<Rightarrow> failA ValueError
          | Some c \<Rightarrow> bindA (require_cap w ag ''open_apps'' ''open_app'' d (Some (q, c))) (\<lambda>_.
              open_search_result (w_ip6 w) (w_qs w) q c)))))"

definition open_app :: "pc \<Rightarrow> agent \<Rightarrow> dict \<Rightarrow> dict pc_act" where
  "open_app w ag d =
     (if \<not> truthy (app_target d) then failA ValueError
      else (let target = pv_str (w_float w) (app_target d); search_query = dget d ''search_query'' in
        bindA (decide_search w ag target search_query) (\<lambda>search.
          if search then search_and_open w ag d (if truthy search_query then pv_str (w_float w) search_query else target)
          else bindA (require_cap w ag ''open_apps'' ''open_app'' d None) (\<lambda>_.
            resolve_and_launch (w_launcher w) target (a_aliases ag)))))"

definition truncated_list :: "string \<Rightarrow> string list \<Rightarrow> bool \<Rightarrow> dict" where
  "truncated_list k xs t = [(k, PList (map PStr xs)), (''truncated'', PBool t)]"

text \<open>An event whose outcome the PC decides.\<close>

definition perform :: "pc_event \<Rightarrow> (pc_event list \<Rightarrow> 'a res) \<Rightarrow> 'a pc_act" where
  "perform e f = bindA (lookA f) (\<lambda>r. doA e r)"

definition list_windows :: "pc \<Rightarrow> agent \<Rightarrow> dict \<Rightarrow> dict pc_act" where
  "list_windows w ag d = bindA (require_cap w ag ''open_apps'' ''list_windows'' d None) (\<lambda>_.
     bindA (perform ListedWindows (w_windows w)) (\<lambda>ts.
       (case bounded_names 0 0 (filter (\<lambda>t. t \<noteq> []) ts) of (xs, t) \<Rightarrow> retA (truncated_list ''windows'' xs t))))"

definition window_action :: "pc \<Rightarrow> agent \<Rightarrow> string \<Rightarrow> string \<Rightarrow> (string \<Rightarrow> pc_event) \<Rightarrow> dict \<Rightarrow> dict pc_act" where
  "window_action w ag act label ev d = bindA (require_cap w ag ''open_apps'' act d None) (\<lambda>_.
     if arg d ''title'' = [] then failA ValueError
     else bindA (bindA (lookA (\<lambda>h. w_matching w h (arg d ''title''))) liftA) (\<lambda>ms. case ms of
         [] \<Rightarrow> failA ValueError
       | m # _ \<Rightarrow> bindA (perform (ev m) (w_window_op w)) (\<lambda>_. retA [(label, PStr m)])))"

definition focus_window :: "pc \<Rightarrow> agent \<Rightarrow> dict \<Rightarrow> dict pc_act" where
  "focus_window w ag d = window_action w ag ''focus_window'' ''focused'' FocusedWindow d"

definition close_window :: "pc \<Rightarrow> agent \<Rightarrow> dict \<Rightarrow> dict pc_act" where
  "close_window w ag d = window_action w ag ''close_window'' ''closed'' ClosedWindow d"

section \<open>Files\<close>

definition inside :: "string list \<Rightarrow> string list \<Rightarrow> bool" where
  "inside folder p = (take (length folder) p = folder)"

fun allowed_loop :: "pc \<Rightarrow> string list \<Rightarrow> string list \<Rightarrow> string list res" where
  "allowed_loop w p [] = Inl ValueError"
| "allowed_loop w p (f # fs) = bindR (w_resolve w f) (\<lambda>r. if inside r p then Inr p else allowed_loop w p fs)"

definition resolve_allowed_path :: "pc \<Rightarrow> string \<Rightarrow> string list \<Rightarrow> string list res" where
  "resolve_allowed_path w raw folders = bindR (w_resolve w raw) (\<lambda>p. allowed_loop w p folders)"

definition with_path :: "pc \<Rightarrow> agent \<Rightarrow> string \<Rightarrow> dict \<Rightarrow> (string list \<Rightarrow> dict pc_act) \<Rightarrow> dict pc_act" where
  "with_path w ag act d f = bindA (require_cap w ag ''file_rw'' act d None) (\<lambda>_.
     bindA (liftA (resolve_allowed_path w (arg d ''path'') (a_folders ag))) f)"

definition read_file :: "pc \<Rightarrow> agent \<Rightarrow> dict \<Rightarrow> dict pc_act" where
  "read_file w ag d = with_path w ag ''read_file'' d (\<lambda>p.
     bindA (perform (ReadFile (w_show w p)) (\<lambda>h. w_read w h p)) (\<lambda>text.
       (let content = take (MAX_FILE_CHARS + 1) text in
        retA [(''path'', PStr (w_show w p)), (''content'', PStr (take MAX_FILE_CHARS content)),
          (''truncated'', PBool (length content > MAX_FILE_CHARS))])))"

definition write_file :: "pc \<Rightarrow> agent \<Rightarrow> dict \<Rightarrow> dict pc_act" where
  "write_file w ag d = with_path w ag ''write_file'' d (\<lambda>p.
     bindA (perform (WroteFile (w_show w p) (arg d ''content'')) (\<lambda>h. w_write w h p)) (\<lambda>_.
       retA [(''path'', PStr (w_show w p)), (''bytes_written'', PInt (int (utf8_len (arg d ''content''))))]))"

definition list_directory :: "pc \<Rightarrow> agent \<Rightarrow> dict \<Rightarrow> dict pc_act" where
  "list_directory w ag d = with_path w ag ''list_directory'' d (\<lambda>p.
     bindA (perform (ListedFolder (w_show w p)) (\<lambda>h. w_scan w h p)) (\<lambda>names.
       (case bounded_names 0 0 names of (xs, t) \<Rightarrow>
          retA ((''path'', PStr (w_show w p)) # truncated_list ''entries'' (sort xs) t))))"

section \<open>Shell commands\<close>

definition append_audit :: "pc \<Rightarrow> dict \<Rightarrow> unit pc_act" where
  "append_audit w extra = perform (Audited extra) (w_audit w)"

text \<open>Run \<open>m\<close>; when it raises, run \<open>g\<close> and raise the same error, unless \<open>g\<close> raises another one.\<close>

definition on_error :: "'a pc_act \<Rightarrow> unit pc_act \<Rightarrow> 'a pc_act" where
  "on_error m g = (\<lambda>h. case m h of (h', Inl e) \<Rightarrow>
       (case g h' of (h2, Inl e2) \<Rightarrow> (h2, Inl (if os_error e2 then e else e2)) | (h2, Inr _) \<Rightarrow> (h2, Inl e))
     | (h', Inr x) \<Rightarrow> (h', Inr x))"

text \<open>Whether an action succeeded; only \<open>OSError\<close> and its subclasses are caught.\<close>

definition attempt_os :: "unit pc_act \<Rightarrow> bool pc_act" where
  "attempt_os m = (\<lambda>h. case m h of (h', Inr _) \<Rightarrow> (h', Inr True)
     | (h', Inl e) \<Rightarrow> (h', if os_error e then Inr False else Inl e))"

definition shell_details :: "string \<Rightarrow> shell_result \<Rightarrow> bool \<Rightarrow> dict" where
  "shell_details execution_id r recorded =
     [(''outcome'', PStr (outcome_text (s_outcome r))), (''returncode'', int_or_none (s_returncode r)),
      (''stdout'', PStr (s_stdout r)), (''stderr'', PStr (s_stderr r)),
      (''stdout_bytes_observed'', PInt (int (s_stdout_seen r))), (''stderr_bytes_observed'', PInt (int (s_stderr_seen r))),
      (''truncated'', PBool (s_truncated r)), (''started'', PBool (s_started r)), (''cleanup_confirmed'', PBool (s_cleanup r)),
      (''duration_ms'', PInt (s_duration_ms r)), (''error_code'', int_or_none (s_error r)),
      (''execution_id'', PStr execution_id), (''effect_outcome'', effect_text r), (''audit_recorded'', PBool recorded)]"

definition run_command :: "pc \<Rightarrow> agent \<Rightarrow> dict \<Rightarrow> dict pc_act" where
  "run_command w ag d = bindA (require_cap w ag ''shell_exec'' ''run_command'' d None) (\<lambda>_.
     (let command = arg d ''command''; cwd = (case dget d ''cwd'' of PStr s \<Rightarrow> Some s | _ \<Rightarrow> None) in
      if command = [] then failA ValueError
      else bindA (append_audit w audit_approved) (\<lambda>_.
        bindA (on_error (perform (RanShell command) (\<lambda>h. w_shell w h command cwd (dget_or d ''timeout_seconds'' (PInt 30))))
                 (append_audit w audit_unknown)) (\<lambda>r.
        bindA (attempt_os (append_audit w (audit_finished r))) (\<lambda>recorded.
        retA (shell_details (w_execution_id w) r recorded))))))"

section \<open>Mouse and keyboard\<close>

definition with_gui :: "pc \<Rightarrow> agent \<Rightarrow> string \<Rightarrow> dict \<Rightarrow> dict pc_act \<Rightarrow> dict pc_act" where
  "with_gui w ag act d m = bindA (require_cap w ag ''mouse_keyboard_control'' act d None) (\<lambda>_.
     bindA (liftA (w_gui w)) (\<lambda>_. m))"

definition int_arg :: "dict \<Rightarrow> string \<Rightarrow> int" where
  "int_arg d k = (case dget d k of PInt i \<Rightarrow> i | _ \<Rightarrow> 0)"

definition move_to :: "pc \<Rightarrow> int \<Rightarrow> int \<Rightarrow> dict \<Rightarrow> dict pc_act" where
  "move_to w x y out = bindA (perform (MovedMouse x y) (w_gui_op w)) (\<lambda>_. retA out)"

definition move_mouse :: "pc \<Rightarrow> agent \<Rightarrow> dict \<Rightarrow> dict pc_act" where
  "move_mouse w ag d = with_gui w ag ''move_mouse'' d
     (if dget d ''x'' = PNone \<or> dget d ''y'' = PNone then failA ValueError
      else move_to w (int_arg d ''x'') (int_arg d ''y'') [(''x'', dget d ''x''), (''y'', dget d ''y'')])"

definition move_mouse_to_corner :: "pc \<Rightarrow> agent \<Rightarrow> dict \<Rightarrow> dict pc_act" where
  "move_mouse_to_corner w ag d = with_gui w ag ''move_mouse_to_corner'' d
     (let corner = arg d ''corner'';
          x = (if ends_with corner ''right'' then fst (w_size w) - 1 else 0);
          y = (if starts_with corner ''bottom'' then snd (w_size w) - 1 else 0)
      in move_to w x y [(''corner'', PStr corner), (''x'', PInt x), (''y'', PInt y)])"

definition click :: "pc \<Rightarrow> agent \<Rightarrow> dict \<Rightarrow> dict pc_act" where
  "click w ag d = with_gui w ag ''click'' d
     (let b = dget_or d ''button'' (PStr ''left'') in
      bindA (perform (Clicked b) (w_gui_op w)) (\<lambda>_. retA [(''button'', b)]))"

definition type_text :: "pc \<Rightarrow> agent \<Rightarrow> dict \<Rightarrow> dict pc_act" where
  "type_text w ag d = with_gui w ag ''type_text'' d
     (bindA (perform (Typed (arg d ''text'')) (w_gui_op w)) (\<lambda>_.
       retA [(''characters_typed'', PInt (int (length (arg d ''text''))))]))"

definition press_key :: "pc \<Rightarrow> agent \<Rightarrow> dict \<Rightarrow> dict pc_act" where
  "press_key w ag d = with_gui w ag ''press_key'' d
     (if arg d ''key'' = [] then failA ValueError
      else bindA (perform (Pressed (arg d ''key'')) (w_gui_op w)) (\<lambda>_. retA [(''key'', PStr (arg d ''key''))]))"

section \<open>Dispatch\<close>

definition HANDLERS :: "(string \<times> (pc \<Rightarrow> agent \<Rightarrow> dict \<Rightarrow> dict pc_act)) list" where
  "HANDLERS = [(''open_app'', open_app), (''list_windows'', list_windows), (''focus_window'', focus_window),
     (''close_window'', close_window), (''read_file'', read_file), (''write_file'', write_file),
     (''list_directory'', list_directory), (''run_command'', run_command), (''move_mouse'', move_mouse),
     (''move_mouse_to_corner'', move_mouse_to_corner), (''click'', click), (''type_text'', type_text),
     (''press_key'', press_key)]"

text \<open>The deadline of a command: at most 120 seconds from now. \<open>wall\<close> is the time of day.\<close>

definition command_deadline :: "rat \<Rightarrow> rat \<Rightarrow> rat option \<Rightarrow> pyval \<Rightarrow> rat option res" where
  "command_deadline now wall own expires_at = (case expires_at of
       PNone \<Rightarrow> Inr own
     | PInt i \<Rightarrow> bindR (is_finite_num (PInt i)) (\<lambda>_. Inr (Some (now + min 120 (of_int i - wall))))
     | PFloat (Fin r) \<Rightarrow> Inr (Some (now + min 120 (r - wall)))
     | _ \<Rightarrow> Inl ValueError)"

definition capability_of :: "string \<Rightarrow> string" where
  "capability_of act = (case map_of ACTION_CAPABILITY act of None \<Rightarrow> [] | Some c \<Rightarrow> c)"

text \<open>Arguments that are no dictionary fail in the first check that looks at them.\<close>

definition handle_command :: "pc \<Rightarrow> agent \<Rightarrow> rat \<Rightarrow> string \<Rightarrow> pyval \<Rightarrow> pyval \<Rightarrow> dict pc_act" where
  "handle_command w ag wall act params expires_at =
     (case map_of HANDLERS act of None \<Rightarrow> failA ValueError
      | Some handler \<Rightarrow>
          bindA (bindA (lookA (\<lambda>h. command_deadline (w_time w h) wall (a_deadline ag) expires_at)) liftA) (\<lambda>deadline.
            (case params of
               PDict d \<Rightarrow> handler w (ag\<lparr>a_deadline := deadline\<rparr>) d
             | _ \<Rightarrow> failA (if act = ''open_app'' then AttributeError
                 else if enabled ag (capability_of act) then ValueError else CapabilityDisabled))))"

section \<open>Events of an action\<close>

definition events_in :: "(pc_event \<Rightarrow> bool) \<Rightarrow> 'a pc_act \<Rightarrow> bool" where
  "events_in P m = adds m (\<lambda>h r. list_all P h)"

named_theorems events_rules "introduction rules for the events of an action"

lemma events_ret [events_rules]: "events_in P (retA x)"
  unfolding events_in_def by (rule adds_retA) simp

lemma events_fail [events_rules]: "events_in P (failA e)"
  unfolding events_in_def by (rule adds_failA) simp

lemma events_lift [events_rules]: "events_in P (liftA r)"
  unfolding events_in_def by (rule adds_liftA) simp

lemma events_look [events_rules]: "events_in P (lookA f)"
  unfolding events_in_def by (rule adds_lookA) simp

lemma events_emit [events_rules]: "P e \<Longrightarrow> events_in P (emitA e)"
  unfolding events_in_def by (rule adds_emitA) simp

lemma events_bind [events_rules]: "events_in P m \<Longrightarrow> (\<And>x. events_in P (f x)) \<Longrightarrow> events_in P (bindA m f)"
  unfolding events_in_def by (rule adds_bindA[where P = "\<lambda>h r. list_all P h"]) (auto elim: adds_mono)

lemma events_perform [events_rules]: "P e \<Longrightarrow> events_in P (perform e f)"
  unfolding perform_def by (intro events_rules) (simp add: events_in_def adds_doA)

lemma events_on_error [events_rules]: "events_in P m \<Longrightarrow> events_in P g \<Longrightarrow> events_in P (on_error m g)"
  unfolding events_in_def
proof (rule addsI)
  fix h h' r
  assume m: "adds m (\<lambda>h r. list_all P h)" and g: "adds g (\<lambda>h r. list_all P h)" and o: "on_error m g h = (h', r)"
  obtain h1 r1 where m1: "m h = (h1, r1)" by (cases "m h")
  obtain h2 r2 where g1: "g h1 = (h2, r2)" by (cases "g h1")
  obtain d where d: "h1 = h @ d" "list_all P d" using addsD[OF m m1] by blast
  obtain e where e: "h2 = h1 @ e" "list_all P e" using addsD[OF g g1] by blast
  show "\<exists>d. h' = h @ d \<and> list_all P d"
    using o m1 g1 d e by (cases r1; cases r2) (auto simp: on_error_def)
qed

lemma events_attempt [events_rules]: "events_in P m \<Longrightarrow> events_in P (attempt_os m)"
  unfolding events_in_def
proof (rule addsI)
  fix h h' r
  assume m: "adds m (\<lambda>h r. list_all P h)" and a: "attempt_os m h = (h', r)"
  obtain h1 r1 where m1: "m h = (h1, r1)" by (cases "m h")
  from addsD[OF m m1] show "\<exists>d. h' = h @ d \<and> list_all P d"
    using a m1 by (cases r1) (auto simp: attempt_os_def)
qed

lemma events_mono: "events_in P m \<Longrightarrow> (\<And>e. P e \<Longrightarrow> Q e) \<Longrightarrow> events_in Q m"
  unfolding events_in_def by (erule adds_mono) (auto simp: list_all_iff)

section \<open>Consent before effects\<close>

text \<open>Checking, asking and looking are not effects on the PC. A web search needs the capability and valid
  arguments but no consent.\<close>

fun effect :: "pc_event \<Rightarrow> bool" where
  "effect (Checked b) = False"
| "effect (Asked act d ctx b) = False"
| "effect (Probed x) = False"
| "effect (WebSearched x) = False"
| "effect e = True"

definition searching :: "pc_event \<Rightarrow> bool" where
  "searching e = (case e of WebSearched q \<Rightarrow> True | _ \<Rightarrow> False)"

definition harmless :: "pc \<Rightarrow> agent \<Rightarrow> string \<Rightarrow> dict \<Rightarrow> pc_event \<Rightarrow> bool" where
  "harmless w ag act d e = (\<not> effect e \<and>
     (searching e \<longrightarrow> act = ''open_app'' \<and> enabled ag ''open_apps'' \<and> validate_action (w_absolute w) act d = Inr ()))"

definition path_allowed :: "pc \<Rightarrow> agent \<Rightarrow> dict \<Rightarrow> string \<Rightarrow> bool" where
  "path_allowed w ag d s = (\<exists>p. s = w_show w p \<and> w_resolve w (arg d ''path'') = Inr p \<and>
     (\<exists>f \<in> set (a_folders ag). \<exists>r. w_resolve w f = Inr r \<and> inside r p))"

text \<open>What each action may do.\<close>

definition permitted :: "pc \<Rightarrow> agent \<Rightarrow> string \<Rightarrow> dict \<Rightarrow> pc_event \<Rightarrow> bool" where
  "permitted w ag act d e = (case e of
       OpenedUrl x \<Rightarrow> act = ''open_app'' | OpenedPath x \<Rightarrow> act = ''open_app'' | StartedApp x \<Rightarrow> act = ''open_app''
     | StartedExe x \<Rightarrow> act = ''open_app'' | ListedWindows \<Rightarrow> act = ''list_windows''
     | FocusedWindow x \<Rightarrow> act = ''focus_window'' | ClosedWindow x \<Rightarrow> act = ''close_window''
     | ReadFile s \<Rightarrow> act = ''read_file'' \<and> path_allowed w ag d s
     | WroteFile s c \<Rightarrow> act = ''write_file'' \<and> path_allowed w ag d s \<and> c = arg d ''content''
     | ListedFolder s \<Rightarrow> act = ''list_directory'' \<and> path_allowed w ag d s
     | Audited x \<Rightarrow> act = ''run_command'' | RanShell c \<Rightarrow> act = ''run_command'' \<and> c = arg d ''command''
     | MovedMouse x y \<Rightarrow> act \<in> {''move_mouse'', ''move_mouse_to_corner''}
     | Clicked b \<Rightarrow> act = ''click'' | Typed s \<Rightarrow> act = ''type_text'' \<and> s = arg d ''text''
     | Pressed s \<Rightarrow> act = ''press_key'' \<and> s = arg d ''key''
     | _ \<Rightarrow> False)"

definition consented :: "pc \<Rightarrow> agent \<Rightarrow> string \<Rightarrow> string \<Rightarrow> dict \<Rightarrow> pc_event list \<Rightarrow> bool" where
  "consented w ag cap act d h = (list_all (harmless w ag act d) h \<or>
     (\<exists>pre ctx post. h = pre @ [Checked True, Asked act d ctx True, Checked True] @ post \<and> list_all (harmless w ag act d) pre \<and>
        enabled ag cap \<and> validate_action (w_absolute w) act d = Inr () \<and> list_all (permitted w ag act d) post))"

lemma check_allowed_adds: "adds (check_allowed w ag e) (\<lambda>h r. h = [Checked True] \<and> r = Inr () \<or> h = [Checked False] \<and> r = Inl e)"
  by (rule addsI) (auto simp: check_allowed_def bindA_def lookA_def emitA_def retA_def failA_def split: if_splits)

lemma ask_user_adds: "adds (ask_user w act d ctx) (\<lambda>h r. h = [Asked act d ctx True] \<and> r = Inr () \<or> h = [Asked act d ctx False] \<and> r = Inl PermissionError)"
  by (rule addsI) (auto simp: ask_user_def bindA_def lookA_def emitA_def retA_def failA_def split: if_splits)

lemma harmless_simps [simp]: "harmless w ag act d (Checked b)" "harmless w ag act d (Asked x y z b)" "harmless w ag act d (Probed x)"
  by (simp_all add: harmless_def searching_def)

lemma require_cap_adds: "adds (require_cap w ag cap act d ctx) (\<lambda>h r. list_all (harmless w ag act d) h \<and>
    (r = Inr () \<longrightarrow> h = [Checked True, Asked act d ctx True, Checked True] \<and> enabled ag cap \<and> validate_action (w_absolute w) act d = Inr ()))"
proof (cases "enabled ag cap \<and> validate_action (w_absolute w) act d = Inr ()")
  case True
  have "adds (bindA (check_allowed w ag PermissionError) (\<lambda>_. bindA (ask_user w act d ctx) (\<lambda>_. check_allowed w ag PermissionError)))
      (\<lambda>h r. list_all (harmless w ag act d) h \<and> (r = Inr () \<longrightarrow> h = [Checked True, Asked act d ctx True, Checked True]))"
    by (rule adds_bindA[OF check_allowed_adds])
      (auto intro!: adds_bindA[OF ask_user_adds] adds_mono[OF check_allowed_adds])
  then show ?thesis using True by (simp add: require_cap_def)
next
  case False
  then show ?thesis
    by (cases "validate_action (w_absolute w) act d") (auto simp: require_cap_def intro!: adds_failA)
qed

lemma consented_require:
  assumes "\<And>u. events_in (permitted w ag act d) (f u)"
  shows "adds (bindA (require_cap w ag cap act d ctx) f) (\<lambda>h r. consented w ag cap act d h)"
proof (rule adds_bindA[OF require_cap_adds])
  fix h and u :: unit
  assume h: "list_all (harmless w ag act d) h \<and> (Inr u = Inr () \<longrightarrow> h = [Checked True, Asked act d ctx True, Checked True] \<and>
      enabled ag cap \<and> validate_action (w_absolute w) act d = Inr ())"
  show "adds (f u) (\<lambda>h' r. consented w ag cap act d (h @ h'))"
    using assms[of u] unfolding events_in_def
    by (rule adds_mono) (use h in \<open>auto simp: consented_def intro!: exI[of _ "[]"]\<close>)
qed (simp add: consented_def)

lemma consented_append:
  assumes h: "list_all (harmless w ag act d) h" and c: "consented w ag cap act d h'"
  shows "consented w ag cap act d (h @ h')"
proof (cases "list_all (harmless w ag act d) h'")
  case True
  then show ?thesis using h by (simp add: consented_def)
next
  case False
  then obtain pre ctx post where "h' = pre @ [Checked True, Asked act d ctx True, Checked True] @ post"
    "list_all (harmless w ag act d) pre" "enabled ag cap" "validate_action (w_absolute w) act d = Inr ()"
    "list_all (permitted w ag act d) post"
    using c unfolding consented_def by blast
  then show ?thesis unfolding consented_def using h
    by (intro disjI2 exI[of _ "h @ pre"] exI[of _ ctx] exI[of _ post]) simp
qed

lemma consented_prefix:
  assumes "adds m (\<lambda>h r. list_all (harmless w ag act d) h)" "\<And>x. adds (f x) (\<lambda>h r. consented w ag cap act d h)"
  shows "adds (bindA m f) (\<lambda>h r. consented w ag cap act d h)"
proof (rule adds_bindA[OF assms(1)])
  fix h x
  assume "list_all (harmless w ag act d) h"
  then show "adds (f x) (\<lambda>h' r. consented w ag cap act d (h @ h'))"
    by (intro adds_mono[OF assms(2)] consented_append)
qed (simp add: consented_def)

lemma consented_fail: "adds (failA e) (\<lambda>h r. consented w ag cap act d h)"
  by (rule adds_failA) (simp add: consented_def)

section \<open>The handlers\<close>

lemma permitted_resolve: "act = ''open_app'' \<Longrightarrow> events_in (permitted w ag act d) (resolve_and_launch l t as)"
  unfolding resolve_and_launch_def launch_alias_value_def launch_known_def Let_def
  by (auto simp: permitted_def split: option.splits intro!: events_rules)

lemma permitted_open_result: "act = ''open_app'' \<Longrightarrow> events_in (permitted w ag act d) (open_search_result ip6 qs q c)"
  unfolding open_search_result_def by (auto simp: permitted_def split: option.splits intro!: events_rules)

lemma consented_search: "adds (search_and_open w ag d q) (\<lambda>h r. consented w ag ''open_apps'' ''open_app'' d h)"
proof (cases "enabled ag ''open_apps'' \<and> validate_action (w_absolute w) ''open_app'' d = Inr ()")
  case True
  then have web: "harmless w ag ''open_app'' d (WebSearched x)" for x by (simp add: harmless_def)
  have "adds (bindA (check_allowed w ag PermissionError) (\<lambda>_.
              bindA (search_web (w_ip6 w) (w_qs w) (w_fetch w) q) (\<lambda>candidate.
                case candidate of None \<Rightarrow> failA ValueError
                | Some c \<Rightarrow> bindA (require_cap w ag ''open_apps'' ''open_app'' d (Some (q, c))) (\<lambda>_.
                    open_search_result (w_ip6 w) (w_qs w) q c))))
    (\<lambda>h r. consented w ag ''open_apps'' ''open_app'' d h)"
  proof (intro consented_prefix)
    show "adds (check_allowed w ag PermissionError) (\<lambda>h r. list_all (harmless w ag ''open_app'' d) h)"
      by (rule adds_mono[OF check_allowed_adds]) auto
    show "adds (search_web (w_ip6 w) (w_qs w) (w_fetch w) q) (\<lambda>h r. list_all (harmless w ag ''open_app'' d) h)"
      by (rule adds_mono[OF search_web_adds]) (auto simp: web)
    show "adds (case candidate of None \<Rightarrow> failA ValueError
                | Some c \<Rightarrow> bindA (require_cap w ag ''open_apps'' ''open_app'' d (Some (q, c))) (\<lambda>_.
                    open_search_result (w_ip6 w) (w_qs w) q c)) (\<lambda>h r. consented w ag ''open_apps'' ''open_app'' d h)" for candidate
      by (cases candidate) (auto intro!: consented_fail consented_require permitted_open_result)
  qed
  then show ?thesis using True by (simp add: search_and_open_def)
next
  case False
  then show ?thesis
    by (cases "validate_action (w_absolute w) ''open_app'' d") (auto simp: search_and_open_def intro: consented_fail)
qed

lemma consented_open_app: "adds (open_app w ag d) (\<lambda>h r. consented w ag ''open_apps'' ''open_app'' d h)"
proof -
  have decide: "adds (decide_search w ag t q) (\<lambda>h r. list_all (harmless w ag ''open_app'' d) h)" for t q
    unfolding decide_search_def events_in_def[symmetric] by (auto intro!: events_rules)
  show ?thesis unfolding open_app_def Let_def
    by (auto intro!: consented_prefix[OF decide] consented_search consented_fail consented_require permitted_resolve)
qed

lemma path_allowed_resolve:
  assumes "resolve_allowed_path w (arg d ''path'') (a_folders ag) = Inr p"
  shows "path_allowed w ag d (w_show w p)"
proof -
  have l: "allowed_loop w q fs = Inr p \<Longrightarrow> p = q \<and> (\<exists>f \<in> set fs. \<exists>r. w_resolve w f = Inr r \<and> inside r q)" for q fs
    by (induction fs) (auto split: if_splits)
  obtain q where q: "w_resolve w (arg d ''path'') = Inr q" "allowed_loop w q (a_folders ag) = Inr p"
    using assms by (auto simp: resolve_allowed_path_def)
  then show ?thesis using l[OF q(2)] unfolding path_allowed_def by blast
qed

lemma consented_with_path:
  assumes "\<And>p. path_allowed w ag d (w_show w p) \<Longrightarrow> events_in (permitted w ag act d) (f p)"
  shows "adds (with_path w ag act d f) (\<lambda>h r. consented w ag ''file_rw'' act d h)"
  unfolding with_path_def
proof (rule consented_require)
  show "events_in (permitted w ag act d) (bindA (liftA (resolve_allowed_path w (arg d ''path'') (a_folders ag))) f)" for u :: unit
    using assms path_allowed_resolve[of w d ag]
    by (cases "resolve_allowed_path w (arg d ''path'') (a_folders ag)")
      (auto simp: bindA_def liftA_def intro: events_fail[unfolded failA_def])
qed

lemma consented_files:
  "adds (read_file w ag d) (\<lambda>h r. consented w ag ''file_rw'' ''read_file'' d h)"
  "adds (write_file w ag d) (\<lambda>h r. consented w ag ''file_rw'' ''write_file'' d h)"
  "adds (list_directory w ag d) (\<lambda>h r. consented w ag ''file_rw'' ''list_directory'' d h)"
  unfolding read_file_def write_file_def list_directory_def Let_def
  by (auto simp: permitted_def intro!: consented_with_path events_rules split: prod.splits)

lemma consented_windows:
  "adds (list_windows w ag d) (\<lambda>h r. consented w ag ''open_apps'' ''list_windows'' d h)"
  "adds (focus_window w ag d) (\<lambda>h r. consented w ag ''open_apps'' ''focus_window'' d h)"
  "adds (close_window w ag d) (\<lambda>h r. consented w ag ''open_apps'' ''close_window'' d h)"
  unfolding list_windows_def focus_window_def close_window_def window_action_def
  by (auto simp: permitted_def intro!: consented_require events_rules split: prod.splits list.splits)

lemma consented_run_command: "adds (run_command w ag d) (\<lambda>h r. consented w ag ''shell_exec'' ''run_command'' d h)"
  unfolding run_command_def append_audit_def Let_def
  by (auto simp: permitted_def intro!: consented_require events_rules)

lemma consented_gui:
  "adds (move_mouse w ag d) (\<lambda>h r. consented w ag ''mouse_keyboard_control'' ''move_mouse'' d h)"
  "adds (move_mouse_to_corner w ag d) (\<lambda>h r. consented w ag ''mouse_keyboard_control'' ''move_mouse_to_corner'' d h)"
  "adds (click w ag d) (\<lambda>h r. consented w ag ''mouse_keyboard_control'' ''click'' d h)"
  "adds (type_text w ag d) (\<lambda>h r. consented w ag ''mouse_keyboard_control'' ''type_text'' d h)"
  "adds (press_key w ag d) (\<lambda>h r. consented w ag ''mouse_keyboard_control'' ''press_key'' d h)"
  unfolding move_mouse_def move_mouse_to_corner_def click_def type_text_def press_key_def with_gui_def move_to_def Let_def
  by (auto simp: permitted_def intro!: consented_require events_rules)

lemmas consented_handlers = consented_open_app consented_files consented_windows consented_run_command consented_gui

lemma handler_consented:
  assumes "map_of HANDLERS act = Some f"
  shows "adds (f w ag d) (\<lambda>h r. consented w ag (capability_of act) act d h)"
proof -
  have "list_all (\<lambda>(a, f). \<forall>w ag d. adds (f w ag d) (\<lambda>h r. consented w ag (capability_of a) a d h)) HANDLERS"
    using consented_handlers by (simp add: HANDLERS_def capability_of_def ACTION_CAPABILITY_def)
  then show ?thesis using map_of_SomeD[OF assms] unfolding list_all_iff by blast
qed

end
