(* ===== verification/Agent_Consent.thy ===== *)
theory Agent_Consent
  imports Local_Agent
begin

text \<open>
  What the companion's checks and answers are worth: every check recorded in the history was the real one
  at that moment, every answer was the user's. With the order of events this gives the guarantee of
  \<open>handle_command\<close>.
\<close>

section \<open>Events and the history before them\<close>

fun trace_ok :: "('e list \<Rightarrow> 'e \<Rightarrow> bool) \<Rightarrow> 'e list \<Rightarrow> 'e list \<Rightarrow> bool" where
  "trace_ok Q t [] = True"
| "trace_ok Q t (e # h) = (Q t e \<and> trace_ok Q (t @ [e]) h)"

lemma trace_ok_append [simp]: "trace_ok Q t (h @ h') \<longleftrightarrow> trace_ok Q t h \<and> trace_ok Q (t @ h) h'"
  by (induction h arbitrary: t) auto

definition at_each :: "('e list \<Rightarrow> 'e \<Rightarrow> bool) \<Rightarrow> ('e, 'a) act \<Rightarrow> bool" where
  "at_each Q m = (\<forall>t. \<exists>h. fst (m t) = t @ h \<and> trace_ok Q t h)"

named_theorems at_rules "introduction rules for events at their place in the history"

lemma at_eachD: "at_each Q m \<Longrightarrow> m t = (t', r) \<Longrightarrow> \<exists>h. t' = t @ h \<and> trace_ok Q t h"
  unfolding at_each_def by (metis fst_conv)

lemma at_simple [at_rules]: "at_each Q (retA x)" "at_each Q (failA e)" "at_each Q (liftA r)" "at_each Q (lookA f)"
  by (simp_all add: at_each_def retA_def failA_def liftA_def lookA_def)

lemma at_emit [at_rules]: "(\<And>t. Q t e) \<Longrightarrow> at_each Q (emitA e)"
  by (simp add: at_each_def emitA_def)

lemma at_perform [at_rules]: "(\<And>t. Q t e) \<Longrightarrow> at_each Q (perform e f)"
  by (simp add: at_each_def perform_def bindA_def lookA_def doA_def)

lemma at_bind [at_rules]:
  assumes "at_each Q m" "\<And>x. at_each Q (f x)"
  shows "at_each Q (bindA m f)"
  unfolding at_each_def
proof
  fix t
  obtain t1 r where m: "m t = (t1, r)" by (cases "m t")
  obtain h where h: "t1 = t @ h" "trace_ok Q t h" using at_eachD[OF assms(1) m] by blast
  show "\<exists>h. fst (bindA m f t) = t @ h \<and> trace_ok Q t h"
  proof (cases r)
    case (Inl e)
    then show ?thesis using m h by (simp add: bindA_def)
  next
    case (Inr x)
    obtain t2 r2 where f: "f x t1 = (t2, r2)" by (cases "f x t1")
    obtain h' where "t2 = t1 @ h'" "trace_ok Q t1 h'" using at_eachD[OF assms(2) f] by blast
    then show ?thesis using m h f Inr by (intro exI[of _ "h @ h'"]) (simp add: bindA_def)
  qed
qed

lemma at_on_error [at_rules]:
  assumes "at_each Q m" "at_each Q g"
  shows "at_each Q (on_error m g)"
  unfolding at_each_def
proof
  fix t
  obtain t1 r where m: "m t = (t1, r)" by (cases "m t")
  obtain t2 r2 where g: "g t1 = (t2, r2)" by (cases "g t1")
  obtain h where h: "t1 = t @ h" "trace_ok Q t h" using at_eachD[OF assms(1) m] by blast
  obtain h' where h': "t2 = t1 @ h'" "trace_ok Q t1 h'" using at_eachD[OF assms(2) g] by blast
  show "\<exists>h. fst (on_error m g t) = t @ h \<and> trace_ok Q t h"
    using m g h h' by (cases r; cases r2) (auto simp: on_error_def intro: exI[of _ h] exI[of _ "h @ h'"])
qed

lemma at_attempt [at_rules]: "at_each Q m \<Longrightarrow> at_each Q (attempt_os m)"
  by (auto simp: at_each_def attempt_os_def split: prod.splits sum.splits) (metis fst_conv)+

lemma at_of_events: "events_in P m \<Longrightarrow> (\<And>t e. P e \<Longrightarrow> Q t e) \<Longrightarrow> at_each Q m"
proof -
  assume e: "events_in P m" and Q: "\<And>t e. P e \<Longrightarrow> Q t e"
  have "list_all P h \<Longrightarrow> trace_ok Q t h" for t h
    using Q by (induction h arbitrary: t) auto
  then show ?thesis using e unfolding events_in_def adds_def at_each_def by blast
qed

section \<open>Honest histories\<close>

definition honest :: "pc \<Rightarrow> agent \<Rightarrow> pc_event list \<Rightarrow> pc_event \<Rightarrow> bool" where
  "honest w ag t e = (case e of Checked b \<Rightarrow> b = execution_allowed w ag t | Asked act d ctx b \<Rightarrow> b = w_answer w t act d ctx | _ \<Rightarrow> True)"

lemma honest_check [at_rules]: "at_each (honest w ag) (check_allowed w ag e)"
  by (simp add: at_each_def check_allowed_def bindA_def lookA_def emitA_def retA_def failA_def honest_def)

lemma honest_ask [at_rules]: "at_each (honest w ag) (ask_user w act d ctx)"
  by (simp add: at_each_def ask_user_def bindA_def lookA_def emitA_def retA_def failA_def honest_def)

lemma honest_require [at_rules]: "at_each (honest w ag) (require_cap w ag cap act d ctx)"
  unfolding require_cap_def by (auto intro!: at_rules)

lemma honest_search [at_rules]: "at_each (honest w ag) (search_web ip6 qs fetch q)"
  by (rule at_of_events[of "\<lambda>e. \<exists>x. e = WebSearched x"])
    (auto simp: events_in_def honest_def intro!: adds_mono[OF search_web_adds])

lemma honest_launch [at_rules]:
  "at_each (honest w ag) (resolve_and_launch l t as)" "at_each (honest w ag) (open_search_result ip6 qs q c)"
  by (rule at_of_events[OF permitted_resolve[OF refl]] at_of_events[OF permitted_open_result[OF refl]],
      auto simp: permitted_def honest_def split: pc_event.splits)+

lemma honest_open_app: "at_each (honest w ag) (open_app w ag d)"
  unfolding open_app_def search_and_open_def decide_search_def Let_def
  by (auto simp: honest_def intro!: at_rules split: option.splits)

lemma honest_files:
  "at_each (honest w ag) (read_file w ag d)" "at_each (honest w ag) (write_file w ag d)" "at_each (honest w ag) (list_directory w ag d)"
  unfolding read_file_def write_file_def list_directory_def with_path_def Let_def
  by (auto simp: honest_def intro!: at_rules split: prod.splits)

lemma honest_windows:
  "at_each (honest w ag) (list_windows w ag d)" "at_each (honest w ag) (focus_window w ag d)" "at_each (honest w ag) (close_window w ag d)"
  unfolding list_windows_def focus_window_def close_window_def window_action_def
  by (auto simp: honest_def intro!: at_rules split: prod.splits list.splits)

lemma honest_run_command: "at_each (honest w ag) (run_command w ag d)"
  unfolding run_command_def append_audit_def Let_def
  by (auto simp: honest_def intro!: at_rules)

lemma honest_gui:
  "at_each (honest w ag) (move_mouse w ag d)" "at_each (honest w ag) (move_mouse_to_corner w ag d)"
  "at_each (honest w ag) (click w ag d)" "at_each (honest w ag) (type_text w ag d)" "at_each (honest w ag) (press_key w ag d)"
  unfolding move_mouse_def move_mouse_to_corner_def click_def type_text_def press_key_def with_gui_def move_to_def Let_def
  by (auto simp: honest_def intro!: at_rules)

lemmas honest_handlers = honest_open_app honest_files honest_windows honest_run_command honest_gui

lemma handler_honest:
  assumes "map_of HANDLERS act = Some f"
  shows "at_each (honest w ag) (f w ag d)"
proof -
  have "list_all (\<lambda>(a, f). \<forall>w ag d. at_each (honest w ag) (f w ag d)) HANDLERS"
    using honest_handlers by (simp add: HANDLERS_def)
  then show ?thesis using map_of_SomeD[OF assms] unfolding list_all_iff by blast
qed

section \<open>The guarantee of a command\<close>

lemma deadline_irrelevant [simp]:
  "enabled (ag\<lparr>a_deadline := x\<rparr>) cap = enabled ag cap"
  "path_allowed w (ag\<lparr>a_deadline := x\<rparr>) d s = path_allowed w ag d s"
  "permitted w (ag\<lparr>a_deadline := x\<rparr>) act d e = permitted w ag act d e"
  "harmless w (ag\<lparr>a_deadline := x\<rparr>) act d e = harmless w ag act d e"
  by (simp_all add: enabled_def path_allowed_def permitted_def harmless_def cong: pc_event.case_cong)

lemma handle_command_run:
  assumes "handle_command w ag wall act (PDict d) expires_at t = (t @ h, r)" "h \<noteq> []"
  obtains f deadline where "map_of HANDLERS act = Some f"
    "command_deadline (w_time w t) wall (a_deadline ag) expires_at = Inr deadline"
    "f w (ag\<lparr>a_deadline := deadline\<rparr>) d t = (t @ h, r)"
  using assms
  by (auto simp: handle_command_def bindA_def lookA_def liftA_def failA_def split: option.splits sum.splits)

lemma harmless_no_effect: "list_all (harmless w ag act d) h \<Longrightarrow> list_all (\<lambda>x. \<not> effect x) h"
  by (auto simp: list_all_iff harmless_def)

lemma require_cap_granted:
  assumes "enabled ag cap" "validate_action (w_absolute w) act d = Inr ()" "\<And>h. execution_allowed w ag h" "\<And>h. w_answer w h act d ctx"
  shows "require_cap w ag cap act d ctx t = (t @ [Checked True, Asked act d ctx True, Checked True], Inr ())"
  using assms by (simp add: require_cap_def check_allowed_def ask_user_def bindA_def lookA_def emitA_def retA_def liftA_def)

text \<open>C6 Whatever a command does to the PC happens after this: its capability is enabled, its arguments are valid, the
  user was shown exactly this action with these arguments and said yes, and right after the answer the command had
  neither expired nor lost its connection. Before that nothing was done. And what it does is what the action is
  for: a file is read, written or listed only inside the allowed folders, the text typed, written or run
  is the one that was shown.\<close>

theorem companion_consent:
  assumes "handle_command w ag wall act (PDict d) expires_at t = (t @ h, r)" "e \<in> set h" "effect e"
  shows "\<exists>deadline pre ctx post. command_deadline (w_time w t) wall (a_deadline ag) expires_at = Inr deadline \<and>
    h = pre @ [Checked True, Asked act d ctx True, Checked True] @ post \<and> e \<in> set post \<and>
    list_all (\<lambda>x. \<not> effect x) pre \<and> w_answer w (t @ pre @ [Checked True]) act d ctx \<and>
    execution_allowed w (ag\<lparr>a_deadline := deadline\<rparr>) (t @ pre @ [Checked True, Asked act d ctx True]) \<and>
    enabled ag (capability_of act) \<and> validate_action (w_absolute w) act d = Inr () \<and> permitted w ag act d e"
proof -
  have "h \<noteq> []" using assms(2) by auto
  from handle_command_run[OF assms(1) this] obtain f deadline where f: "map_of HANDLERS act = Some f"
    "command_deadline (w_time w t) wall (a_deadline ag) expires_at = Inr deadline"
    "f w (ag\<lparr>a_deadline := deadline\<rparr>) d t = (t @ h, r)" by blast
  let ?ag = "ag\<lparr>a_deadline := deadline\<rparr>"
  have c: "consented w ?ag (capability_of act) act d h" using addsD[OF handler_consented[OF f(1)] f(3)] by auto
  have ok: "trace_ok (honest w ?ag) t h" using at_eachD[OF handler_honest[OF f(1)] f(3)] by auto
  have "\<not> list_all (harmless w ?ag act d) h" using assms(2,3) by (auto simp: list_all_iff harmless_def)
  then obtain pre ctx post where h: "h = pre @ [Checked True, Asked act d ctx True, Checked True] @ post"
    "list_all (harmless w ?ag act d) pre" "enabled ag (capability_of act)"
    "validate_action (w_absolute w) act d = Inr ()" "list_all (permitted w ag act d) post"
    using c unfolding consented_def deadline_irrelevant by blast
  have pre: "list_all (\<lambda>x. \<not> effect x) pre" by (rule harmless_no_effect[OF h(2)])
  have e: "e \<in> set post" using assms(2,3) pre h(1) by (auto simp: list_all_iff)
  have "permitted w ag act d e" using e h(5) by (simp add: list_all_iff)
  then show ?thesis using f(2) h pre e ok unfolding h(1)
    by (intro exI[of _ deadline] exI[of _ pre] exI[of _ ctx] exI[of _ post]) (simp add: honest_def)
qed

text \<open>A PC on which everything works, for examples.\<close>

definition easy_pc :: pc where
  "easy_pc = \<lparr>w_cancel = \<lambda>h. False, w_time = \<lambda>h. 0, w_answer = \<lambda>h a d c. True,
     w_launcher = \<lparr>l_exists = \<lambda>x. False, l_which = \<lambda>x. None, l_apps = Inr []\<rparr>,
     w_ip6 = \<lambda>x. False, w_qs = \<lambda>a b. None, w_fetch = \<lambda>q. Inl OSError, w_float = \<lambda>f. [], w_absolute = \<lambda>s. True,
     w_windows = \<lambda>h. Inr [], w_matching = \<lambda>h t. Inr [t], w_window_op = \<lambda>h. Inr (), w_resolve = \<lambda>s. Inr [s],
     w_show = concat, w_read = \<lambda>h p. Inr [], w_write = \<lambda>h p. Inr (), w_scan = \<lambda>h p. Inr [], w_gui = Inr (),
     w_gui_op = \<lambda>h. Inr (), w_size = (0, 0), w_audit = \<lambda>h. Inr (),
     w_shell = \<lambda>h c d t. Inl OSError, w_execution_id = []\<rparr>"

theorem companion_consent_witness:
  "\<exists>deadline pre ctx post. command_deadline 0 0 None (PInt 60) = Inr deadline \<and>
    [Checked True, Asked ''press_key'' [(''key'', PStr ''enter'')] None True, Checked True, Pressed ''enter''] =
      pre @ [Checked True, Asked ''press_key'' [(''key'', PStr ''enter'')] ctx True, Checked True] @ post \<and> Pressed ''enter'' \<in> set post"
proof -
  let ?d = "[(''key'', PStr ''enter'')]"
  let ?ag = "\<lparr>a_caps = [(''mouse_keyboard_control'', PBool True)], a_folders = [], a_aliases = [], a_deadline = None\<rparr>"
  let ?h = "[Checked True, Asked ''press_key'' ?d None True, Checked True, Pressed ''enter'']"
  have s: "strip ''enter'' \<noteq> []" by code_simp
  have v: "validate_action (w_absolute easy_pc) ''press_key'' ?d = Inr ()"
    by (simp add: validate_action_def REQUIRED_def OPTIONAL_def keys_def guardR_def dget_def arg_def check_arg_def MAX_TEXT_CHARS_def s)
  have q: "require_cap easy_pc (?ag\<lparr>a_deadline := Some 60\<rparr>) ''mouse_keyboard_control'' ''press_key'' ?d None [] =
      ([] @ [Checked True, Asked ''press_key'' ?d None True, Checked True], Inr ())"
    by (rule require_cap_granted) (simp_all add: v, simp_all add: enabled_def dget_def execution_allowed_def easy_pc_def)
  have c: "command_deadline 0 0 None (PInt 60) = Inr (Some 60)" by (simp add: command_deadline_def fits_double_def)
  have p: "press_key easy_pc (?ag\<lparr>a_deadline := Some 60\<rparr>) ?d [] = ([] @ ?h, Inr ?d)"
    using q by (simp add: press_key_def with_gui_def bindA_def) (simp add: easy_pc_def liftA_def arg_def dget_def perform_def bindA_def lookA_def doA_def retA_def)
  have m: "map_of HANDLERS ''press_key'' = Some press_key" by (simp add: HANDLERS_def)
  have r: "handle_command easy_pc ?ag 0 ''press_key'' (PDict ?d) (PInt 60) [] = ([] @ ?h, Inr ?d)"
    using p c m by (simp add: handle_command_def bindA_def lookA_def liftA_def) (simp add: easy_pc_def)
  show ?thesis using companion_consent[OF r, of "Pressed ''enter''"] by (auto simp: easy_pc_def)
qed

text \<open>Whether an \<open>open_app\<close> needs a search is decided by looking for the application on the PC, and that happens before
  the capability is looked at: the companion looks even when \<open>open_apps\<close> is disabled.\<close>

lemma probes_when_disabled:
  assumes "\<not> enabled ag ''open_apps''" "truthy (app_target d)" "\<not> truthy (dget d ''search_query'')"
  shows "fst (handle_command w ag wall ''open_app'' (PDict d) PNone t) = t @ [Probed (pv_str (w_float w) (app_target d))]"
proof -
  have m: "map_of HANDLERS ''open_app'' = Some open_app" by (simp add: HANDLERS_def)
  have h: "handle_command w ag wall ''open_app'' (PDict d) PNone t = open_app w ag d t"
    using m by (simp add: handle_command_def command_deadline_def bindA_def lookA_def liftA_def)
  show ?thesis unfolding h using assms
    by (cases "needs_web_search (w_launcher w) (pv_str (w_float w) (app_target d)) (a_aliases ag)")
      (auto simp: open_app_def decide_search_def search_and_open_def require_cap_def emitA_def retA_def failA_def bindA_def liftA_def Let_def)
qed

end
