(* ===== verification/Json.thy ===== *)
theory Json
  imports Device_Credentials
begin

text \<open>
  \<open>json.dumps\<close>: the text of a value, with and without \<open>ensure_ascii\<close>. How \<open>repr\<close> writes a finite
  float is an argument.
\<close>

definition json_unicode :: "char \<Rightarrow> string" where
  "json_unicode c = CHR 0x5C # ''u'' @ hex_digits 4 (int (code c))"

definition json_char :: "bool \<Rightarrow> char \<Rightarrow> string" where
  "json_char ascii c = (let n = code c in
     if n = 34 then [CHR 0x5C, CHR 0x22]
     else if n = 92 then [CHR 0x5C, CHR 0x5C]
     else if n = 10 then CHR 0x5C # ''n''
     else if n = 13 then CHR 0x5C # ''r''
     else if n = 9 then CHR 0x5C # ''t''
     else if n = 12 then CHR 0x5C # ''f''
     else if n = 8 then CHR 0x5C # ''b''
     else if n < 32 \<or> (ascii \<and> n > 126) then json_unicode c
     else [c])"

definition json_string :: "bool \<Rightarrow> string \<Rightarrow> string" where
  "json_string ascii s = [CHR 0x22] @ concat (map (json_char ascii) s) @ [CHR 0x22]"

definition json_float :: "(pyfloat \<Rightarrow> string) \<Rightarrow> pyfloat \<Rightarrow> string" where
  "json_float fl f = (case f of NaN \<Rightarrow> ''NaN'' | PosInf \<Rightarrow> ''Infinity'' | NegInf \<Rightarrow> ''-Infinity'' | Fin r \<Rightarrow> fl f)"

fun json_dumps :: "bool \<Rightarrow> (pyfloat \<Rightarrow> string) \<Rightarrow> pyval \<Rightarrow> string" where
  "json_dumps a fl PNone = ''null''"
| "json_dumps a fl (PBool b) = (if b then ''true'' else ''false'')"
| "json_dumps a fl (PInt i) = int_digits i"
| "json_dumps a fl (PFloat f) = json_float fl f"
| "json_dumps a fl (PStr s) = json_string a s"
| "json_dumps a fl (PList xs) = ''['' @ join_comma (map (json_dumps a fl) xs) @ '']''"
| "json_dumps a fl (PDict d) = ''{'' @ join_comma (map (\<lambda>(k, v). json_string a k @ '': '' @ json_dumps a fl v) d) @ ''}''"

lemma length_hex_digits [simp]: "length (hex_digits k n) = k"
  by (induction k arbitrary: n) auto

lemma json_char_length: "length (json_char a c) \<le> 6"
  by (simp add: json_char_def json_unicode_def Let_def)

lemma json_string_length: "length (json_string a s) \<le> 6 * length s + 2"
proof -
  have "length (concat (map (json_char a) s)) \<le> 6 * length s"
  proof (induction s)
    case (Cons c s)
    then show ?case using json_char_length[of a c] by simp
  qed simp
  then show ?thesis by (simp add: json_string_def)
qed

end
