(* ===== verification/Agent_Loop.thy ===== *)
theory Agent_Loop
  imports Agent_Consent Json
begin

text \<open>
  The loop in which the companion answers the server (\<open>_run_with_disconnect\<close> and \<open>run\<close> of
  \<open>local_agent/agent.py\<close>).
\<close>

section \<open>One message\<close>

text \<open>A message as it arrives: what decoding its text gives, the time of day, whether the connection ends while its
  command runs, and whether the connection still accepts a reply afterwards.\<close>

record incoming =
  m_value :: json_result
  m_wall :: rat
  m_gone :: bool
  m_open :: bool

datatype reaction = Skipped | Sent string | Stopped | Lost | Crashed exn

definition result_message :: "string \<Rightarrow> dict \<Rightarrow> pyval" where
  "result_message rid entries = PDict ([(''type'', PStr ''result''), (''request_id'', PStr rid)] @ entries)"

definition encode_result :: "(pyfloat \<Rightarrow> string) \<Rightarrow> string \<Rightarrow> dict \<Rightarrow> string res" where
  "encode_result fl rid details =
     (let message = json_dumps False fl (result_message rid [(''success'', PBool True), (''details'', PDict details)]) in
      if utf8_len message > MAX_RESULT_BYTES then Inl ValueError else Inr message)"

definition failure_message :: "(pyfloat \<Rightarrow> string) \<Rightarrow> string \<Rightarrow> string" where
  "failure_message fl rid = json_dumps True fl (result_message rid [(''success'', PBool False),
     (''error'', PStr ''Action declined, failed or interrupted. Effects may be partial; inspect the device before retrying.'')])"

text \<open>Nothing is returned when the connection ended first; the command itself runs to its end.\<close>

definition run_with_disconnect :: "pc \<Rightarrow> agent \<Rightarrow> incoming \<Rightarrow> string \<Rightarrow> pyval \<Rightarrow> pyval \<Rightarrow> dict option pc_act" where
  "run_with_disconnect w ag m act params expires_at = (\<lambda>h.
     case handle_command w ag (m_wall m) act params expires_at h of
       (h', r) \<Rightarrow> (h', if m_gone m then Inr None else bindR r (\<lambda>d. Inr (Some d))))"

definition request_id_ok :: "pyval \<Rightarrow> bool" where
  "request_id_ok v = (case v of PStr s \<Rightarrow> 1 \<le> length s \<and> length s \<le> 64 | _ \<Rightarrow> False)"

definition is_number :: "pyval \<Rightarrow> bool" where
  "is_number v = (case v of PInt i \<Rightarrow> True | PFloat f \<Rightarrow> True | _ \<Rightarrow> False)"

text \<open>An action that is no string has no handler; one that is not even hashable raises as well.\<close>

definition dispatch :: "pc \<Rightarrow> agent \<Rightarrow> incoming \<Rightarrow> dict \<Rightarrow> dict option pc_act" where
  "dispatch w ag m d =
     (if \<not> is_number (dget d ''expires_at'') then failA ValueError
      else case dget d ''action'' of
        PStr act \<Rightarrow> run_with_disconnect w ag m act (dget_or d ''params'' (PDict [])) (dget d ''expires_at'')
      | _ \<Rightarrow> (if m_gone m then retA None else failA ValueError))"

definition send_reply :: "incoming \<Rightarrow> string \<Rightarrow> reaction" where
  "send_reply m text = (if m_open m then Sent text else Lost)"

definition answer_command :: "pc \<Rightarrow> agent \<Rightarrow> incoming \<Rightarrow> dict \<Rightarrow> string \<Rightarrow> pc_event list \<Rightarrow> pc_event list \<times> reaction" where
  "answer_command w ag m d rid h = (case dispatch w ag m d h of
       (h', Inr None) \<Rightarrow> (h', Stopped)
     | (h', Inr (Some details)) \<Rightarrow> (h', send_reply m (case encode_result (w_float w) rid details of
           Inr text \<Rightarrow> text | Inl e \<Rightarrow> failure_message (w_float w) rid))
     | (h', Inl e) \<Rightarrow> (h', send_reply m (failure_message (w_float w) rid)))"

definition on_message :: "pc \<Rightarrow> agent \<Rightarrow> incoming \<Rightarrow> pc_event list \<Rightarrow> pc_event list \<times> reaction" where
  "on_message w ag m h = (case m_value m of
       JDecodeError \<Rightarrow> (h, Crashed ValueError)
     | JRaises e \<Rightarrow> (h, Crashed e)
     | JValue (PDict d) \<Rightarrow>
         (if dget d ''type'' \<noteq> PStr ''command'' then (h, Skipped)
          else case dget d ''request_id'' of
            PStr rid \<Rightarrow> (if 1 \<le> length rid \<and> length rid \<le> 64 then answer_command w ag m d rid h else (h, Stopped))
          | _ \<Rightarrow> (h, Stopped))
     | JValue v \<Rightarrow> (h, Crashed AttributeError))"

section \<open>One connection\<close>

datatype session_end = Ended | Dropped | Raised exn

fun session :: "pc \<Rightarrow> agent \<Rightarrow> incoming list \<Rightarrow> session_end \<Rightarrow> pc_event list \<Rightarrow> pc_event list \<times> string list \<times> session_end" where
  "session w ag [] close h = (h, [], close)"
| "session w ag (m # ms) close h = (case on_message w ag m h of
       (h', Skipped) \<Rightarrow> session w ag ms close h'
     | (h', Sent text) \<Rightarrow> (case session w ag ms close h' of (h2, rs, e) \<Rightarrow> (h2, text # rs, e))
     | (h', Stopped) \<Rightarrow> (h', [], Ended)
     | (h', Lost) \<Rightarrow> (h', [], Dropped)
     | (h', Crashed e) \<Rightarrow> (h', [], Raised e))"

section \<open>Reconnecting\<close>

text \<open>A connection attempt: refused, or a session. The loop ends with an error only, otherwise it goes on with the
  next attempt; the pauses between attempts are returned as well.\<close>

datatype attempt = Refused | NoCredentials exn | Connected "incoming list" session_end

fun reconnecting :: "pc \<Rightarrow> agent \<Rightarrow> nat \<Rightarrow> attempt list \<Rightarrow> pc_event list \<Rightarrow> pc_event list \<times> nat list \<times> exn option" where
  "reconnecting w ag backoff [] h = (h, [], None)"
| "reconnecting w ag backoff (Refused # as) h =
     (case reconnecting w ag (min (backoff * 2) 60) as h of (h', ps, e) \<Rightarrow> (h', backoff # ps, e))"
| "reconnecting w ag backoff (NoCredentials e # as) h =
     (if os_error e then (case reconnecting w ag (min (backoff * 2) 60) as h of (h', ps, e) \<Rightarrow> (h', backoff # ps, e))
      else (h, [], Some e))"
| "reconnecting w ag backoff (Connected ms close # as) h =
     (case session w ag ms close h of
        (h1, rs, Ended) \<Rightarrow> reconnecting w ag 1 as h1
      | (h1, rs, Dropped) \<Rightarrow> (case reconnecting w ag (min (1 * 2) 60) as h1 of (h', ps, e) \<Rightarrow> (h', 1 # ps, e))
      | (h1, rs, Raised e) \<Rightarrow>
          (if os_error e then (case reconnecting w ag (min (1 * 2) 60) as h1 of (h', ps, e) \<Rightarrow> (h', 1 # ps, e))
           else (h1, [], Some e)))"

section \<open>Replies\<close>

definition reply_to :: "pyval \<Rightarrow> (pyfloat \<Rightarrow> string) \<Rightarrow> string \<Rightarrow> bool" where
  "reply_to rid fl text = (\<exists>a s entries. rid = PStr s \<and> text = json_dumps a fl (result_message s entries))"

definition the_dict :: "incoming \<Rightarrow> dict" where
  "the_dict m = (case m_value m of JValue (PDict d) \<Rightarrow> d | _ \<Rightarrow> [])"

definition is_command :: "incoming \<Rightarrow> bool" where
  "is_command m = (dget (the_dict m) ''type'' = PStr ''command'')"

definition well_formed :: "incoming \<Rightarrow> bool" where
  "well_formed m = ((\<exists>d. m_value m = JValue (PDict d)) \<and> (is_command m \<longrightarrow> request_id_ok (dget (the_dict m) ''request_id'')))"

lemma failure_message_size: "length rid \<le> 64 \<Longrightarrow> utf8_len (failure_message fl rid) \<le> MAX_RESULT_BYTES"
proof -
  assume l: "length rid \<le> 64"
  let ?e = "''Action declined, failed or interrupted. Effects may be partial; inspect the device before retrying.''"
  have "length (failure_message fl rid) \<le> 1400"
    using json_string_length[of True rid] json_string_length[of True ?e]
      json_string_length[of True "''type''"] json_string_length[of True "''result''"] json_string_length[of True "''request_id''"]
      json_string_length[of True "''success''"] json_string_length[of True "''error''"] l
    by (simp add: failure_message_def result_message_def join_comma_def)
  then show ?thesis using utf8_len_le[of "failure_message fl rid"] by (simp add: MAX_RESULT_BYTES_def)
qed

lemma failure_reply: "reply_to (PStr rid) fl (failure_message fl rid)"
  unfolding reply_to_def failure_message_def by blast

lemma encode_reply: "encode_result fl rid details = Inr text \<Longrightarrow> reply_to (PStr rid) fl text \<and> utf8_len text \<le> MAX_RESULT_BYTES"
  unfolding reply_to_def encode_result_def by (auto simp: Let_def split: if_splits)

lemma answer_command_cases:
  assumes "length rid \<le> 64" "answer_command w ag m d rid h = (h', x)"
  shows "(\<exists>text. x = Sent text \<and> reply_to (PStr rid) (w_float w) text \<and> utf8_len text \<le> MAX_RESULT_BYTES \<and> m_open m)
    \<or> (x = Stopped \<and> m_gone m) \<or> (x = Lost \<and> \<not> m_open m)"
proof -
  have gone: "dispatch w ag m d h = (h1, Inr None) \<Longrightarrow> m_gone m" for h1
    by (auto simp: dispatch_def run_with_disconnect_def retA_def failA_def split: if_splits pyval.splits prod.splits)
  have send: "reply_to (PStr rid) (w_float w) t \<and> utf8_len t \<le> MAX_RESULT_BYTES \<Longrightarrow> ?thesis"
    if "x = send_reply m t" for t
    using that by (auto simp: send_reply_def split: if_splits)
  obtain h1 r where r: "dispatch w ag m d h = (h1, r)" by (cases "dispatch w ag m d h")
  have f: "reply_to (PStr rid) (w_float w) (failure_message (w_float w) rid) \<and>
      utf8_len (failure_message (w_float w) rid) \<le> MAX_RESULT_BYTES"
    using failure_reply failure_message_size[OF assms(1)] by blast
  show ?thesis
  proof (cases r)
    case (Inl e)
    then have "x = send_reply m (failure_message (w_float w) rid)" using assms(2) r by (simp add: answer_command_def)
    then show ?thesis using send f by blast
  next
    case (Inr opt)
    show ?thesis
    proof (cases opt)
      case None
      then show ?thesis using Inr assms(2) r gone by (simp add: answer_command_def)
    next
      case (Some details)
      show ?thesis
      proof (cases "encode_result (w_float w) rid details")
        case (Inl e)
        then have "x = send_reply m (failure_message (w_float w) rid)" using assms(2) r \<open>r = Inr opt\<close> Some
          by (simp add: answer_command_def)
        then show ?thesis using send f by blast
      next
        case (Inr t)
        then have "x = send_reply m t" using assms(2) r \<open>r = Inr opt\<close> Some by (simp add: answer_command_def)
        then show ?thesis using send encode_reply[OF Inr] by blast
      qed
    qed
  qed
qed

definition answers :: "pc \<Rightarrow> incoming \<Rightarrow> string \<Rightarrow> bool" where
  "answers w m t = (reply_to (dget (the_dict m) ''request_id'') (w_float w) t \<and> utf8_len t \<le> MAX_RESULT_BYTES)"

definition interrupted :: "incoming \<Rightarrow> bool" where
  "interrupted m = (\<not> well_formed m \<or> m_gone m \<or> \<not> m_open m)"

lemma on_message_cases:
  assumes "on_message w ag m h = (h', x)"
  shows "(x = Skipped \<and> \<not> is_command m) \<or> (\<exists>t. x = Sent t \<and> is_command m \<and> answers w m t) \<or>
    ((x = Stopped \<or> x = Lost \<or> (\<exists>e. x = Crashed e)) \<and> interrupted m)"
proof (cases "\<exists>d. m_value m = JValue (PDict d)")
  case False
  then show ?thesis using assms
    by (auto simp: on_message_def interrupted_def well_formed_def split: json_result.splits pyval.splits)
next
  case True
  then obtain d where d: "m_value m = JValue (PDict d)" by blast
  then have td: "the_dict m = d" by (simp add: the_dict_def)
  show ?thesis
  proof (cases "is_command m \<and> request_id_ok (dget d ''request_id'')")
    case False
    then show ?thesis using assms d td
      by (auto simp: on_message_def is_command_def request_id_ok_def interrupted_def well_formed_def split: pyval.splits if_splits)
  next
    case True
    then obtain rid where rid: "dget d ''request_id'' = PStr rid" "1 \<le> length rid" "length rid \<le> 64"
      by (auto simp: request_id_ok_def split: pyval.splits)
    then have "answer_command w ag m d rid h = (h', x)"
      using assms d td True by (simp add: on_message_def is_command_def)
    from answer_command_cases[OF rid(3) this] show ?thesis
      using True rid td unfolding answers_def interrupted_def by auto
  qed
qed

text \<open>The loop of the companion answers every command: the replies are those to the commands among the messages it
  got through, one reply each, in order, carrying the request id of the command and small enough for the transport.
  It gets through all messages, unless one is malformed, or the connection ends during a command or refuses the reply.\<close>

lemma agent_answers:
  assumes "session w ag ms close h = (h', rs, e)"
  shows "\<exists>n. list_all2 (answers w) (filter is_command (take n ms)) rs \<and>
    (n = length ms \<and> e = close \<or> n < length ms \<and> interrupted (ms ! n))"
  using assms
proof (induction ms arbitrary: h h' rs)
  case (Cons m ms)
  obtain h1 x where x: "on_message w ag m h = (h1, x)" by (cases "on_message w ag m h")
  show ?case
  proof (cases x)
    case Skipped
    then have "session w ag ms close h1 = (h', rs, e)" "\<not> is_command m"
      using Cons.prems x on_message_cases[OF x] by auto
    from Cons.IH[OF this(1)] this(2) show ?thesis by (elim exE) (rule exI[of _ "Suc _"], auto)
  next
    case (Sent t)
    then obtain rs' where r: "session w ag ms close h1 = (h', rs', e)" "rs = t # rs'"
      using Cons.prems x by (auto split: prod.splits)
    have "is_command m \<and> answers w m t" using Sent on_message_cases[OF x] by auto
    with Cons.IH[OF r(1)] r(2) show ?thesis by (elim exE) (rule exI[of _ "Suc _"], auto)
  qed (use Cons.prems x on_message_cases[OF x] in \<open>auto intro!: exI[of _ 0]\<close>)
qed simp

lemma agent_answers_witness:
  "\<exists>t. answers easy_pc \<lparr>m_value = JValue (PDict [(''type'', PStr ''command''), (''request_id'', PStr ''r'')]), m_wall = 0, m_gone = False, m_open = True\<rparr> t"
proof -
  let ?m = "\<lparr>m_value = JValue (PDict [(''type'', PStr ''command''), (''request_id'', PStr ''r'')]), m_wall = 0, m_gone = False, m_open = True\<rparr>"
  let ?ag = "\<lparr>a_caps = [], a_folders = [], a_aliases = [], a_deadline = None\<rparr>"
  have c: "is_command ?m" "\<not> interrupted ?m"
    by (simp_all add: is_command_def the_dict_def dget_def interrupted_def well_formed_def request_id_ok_def)
  obtain n where "list_all2 (answers easy_pc) (filter is_command (take n [?m])) (fst (snd (session easy_pc ?ag [?m] Ended [])))"
    "n = 1 \<and> snd (snd (session easy_pc ?ag [?m] Ended [])) = Ended \<or> n < 1 \<and> interrupted ([?m] ! n)"
    using agent_answers[of easy_pc ?ag "[?m]" Ended "[]"] by (metis One_nat_def length_Cons list.size(3) prod.collapse)
  then have "list_all2 (answers easy_pc) [?m] (fst (snd (session easy_pc ?ag [?m] Ended [])))"
    using c by auto
  then show ?thesis by (auto simp: list_all2_Cons1)
qed

text \<open>A message that is no JSON object ends the whole companion, not only the connection.\<close>

lemma malformed_message_ends:
  "reconnecting w ag b (Connected [\<lparr>m_value = JValue (PList []), m_wall = 0, m_gone = False, m_open = True\<rparr>] close # as) h
    = (h, [], Some AttributeError)"
  "reconnecting w ag b (Connected [\<lparr>m_value = JDecodeError, m_wall = 0, m_gone = False, m_open = True\<rparr>] close # as) h
    = (h, [], Some ValueError)"
  by (simp_all add: on_message_def os_error_def)

end
