(* ===== verification/State_Res.thy ===== *)
theory State_Res
  imports Ally_Prelude
begin

text \<open>Computations on a state that may raise: the state after an error is kept, as in the code.\<close>

type_synonym ('s, 'a) st = "'s \<Rightarrow> 's \<times> 'a res"

definition retS :: "'a \<Rightarrow> ('s, 'a) st" where "retS x = (\<lambda>s. (s, Inr x))"
definition failS :: "exn \<Rightarrow> ('s, 'a) st" where "failS e = (\<lambda>s. (s, Inl e))"
definition liftS :: "'a res \<Rightarrow> ('s, 'a) st" where "liftS r = (\<lambda>s. (s, r))"
definition readS :: "('s \<Rightarrow> 'a res) \<Rightarrow> ('s, 'a) st" where "readS f = (\<lambda>s. (s, f s))"

definition bindS :: "('s, 'a) st \<Rightarrow> ('a \<Rightarrow> ('s, 'b) st) \<Rightarrow> ('s, 'b) st" where
  "bindS m f = (\<lambda>s. case m s of (s', Inl e) \<Rightarrow> (s', Inl e) | (s', Inr x) \<Rightarrow> f x s')"

definition whenS :: "bool \<Rightarrow> ('s, unit) st \<Rightarrow> ('s, unit) st" where
  "whenS b m = (if b then m else retS ())"

lemma retS_iff [simp]: "retS x s = (s', r) \<longleftrightarrow> s' = s \<and> r = Inr x"
  by (auto simp: retS_def)

lemma failS_iff [simp]: "failS e s = (s', r) \<longleftrightarrow> s' = s \<and> r = Inl e"
  by (auto simp: failS_def)

lemma liftS_iff [simp]: "liftS q s = (s', r) \<longleftrightarrow> s' = s \<and> q = r"
  by (auto simp: liftS_def)

lemma readS_iff [simp]: "readS f s = (s', r) \<longleftrightarrow> s' = s \<and> f s = r"
  by (auto simp: readS_def)

lemma bindS_Inr [simp]: "bindS m f s = (s', Inr y) \<longleftrightarrow> (\<exists>s1 x. m s = (s1, Inr x) \<and> f x s1 = (s', Inr y))"
  by (cases "m s"; cases "snd (m s)") (auto simp: bindS_def)

lemma bindS_Inl: "bindS m f s = (s', Inl e) \<longleftrightarrow>
    m s = (s', Inl e) \<or> (\<exists>s1 x. m s = (s1, Inr x) \<and> f x s1 = (s', Inl e))"
  by (cases "m s"; cases "snd (m s)") (auto simp: bindS_def)

lemma bindS_liftS: "bindS (liftS q) f = (case q of Inl e \<Rightarrow> failS e | Inr x \<Rightarrow> f x)"
  by (cases q) (simp_all add: bindS_def liftS_def failS_def)

lemma bindS_retS [simp]: "bindS (retS x) f = f x"
  by (simp add: bindS_def retS_def)

lemma bindS_cases:
  assumes "bindS m f w = (w', r)"
  obtains (raised) e where "m w = (w', Inl e)" "r = Inl e" | (bound) w1 x where "m w = (w1, Inr x)" "f x w1 = (w', r)"
  using assms by (cases "m w"; cases "snd (m w)") (auto simp: bindS_def)

end
