(* ===== verification/Ranking.thy ===== *)
theory Ranking
  imports Pc_Actions "HOL-Library.Char_ord" "HOL-Library.List_Lexorder" "HOL-Library.Product_Lexorder"
begin

text \<open>
  The ranking stages of retrieval: reciprocal rank fusion (\<open>services/retrieval/fusion.py\<close>), reranking by a
  cross-encoder (\<open>reranker.py\<close>) and maximal marginal relevance (\<open>mmr.py\<close>). A result is a dictionary. The
  models are arguments; scores are exact rationals.
\<close>

text \<open>The items of a list of results that are reachable by a key error: \<open>item[key]\<close>.\<close>

definition dkey :: "dict \<Rightarrow> string \<Rightarrow> pyval res" where
  "dkey d k = (case map_of d k of None \<Rightarrow> Inl KeyError | Some v \<Rightarrow> Inr v)"

fun mapR :: "('a \<Rightarrow> 'b res) \<Rightarrow> 'a list \<Rightarrow> 'b list res" where
  "mapR f [] = Inr []"
| "mapR f (x # xs) = bindR (f x) (\<lambda>y. bindR (mapR f xs) (\<lambda>ys. Inr (y # ys)))"

lemma mapR_length: "mapR f xs = Inr ys \<Longrightarrow> length ys = length xs"
  by (induction xs arbitrary: ys) auto

section \<open>Reciprocal rank fusion\<close>

text \<open>The accumulated scores and payloads: one entry per identifier, in the order of first appearance.\<close>

type_synonym rrf_table = "(string \<times> rat \<times> dict) list"

definition rrf_add :: "int \<Rightarrow> string \<Rightarrow> nat \<times> dict \<Rightarrow> rrf_table \<Rightarrow> rrf_table" where
  "rrf_add k i p t = (case map_of t i of
       None \<Rightarrow> t @ [(i, 1 / of_int (k + int (fst p)), snd p)]
     | Some (s, d) \<Rightarrow> AList.update i (s + 1 / of_int (k + int (fst p)), d) t)"

fun rrf_list :: "(pyfloat \<Rightarrow> string) \<Rightarrow> string \<Rightarrow> int \<Rightarrow> (nat \<times> dict) list \<Rightarrow> rrf_table \<Rightarrow> rrf_table res" where
  "rrf_list fl id_key k [] t = Inr t"
| "rrf_list fl id_key k (p # ps) t =
     (case map_of (snd p) id_key of None \<Rightarrow> Inl ValueError
      | Some v \<Rightarrow> rrf_list fl id_key k ps (rrf_add k (pv_str fl v) p t))"

fun rrf_lists :: "(pyfloat \<Rightarrow> string) \<Rightarrow> string \<Rightarrow> int \<Rightarrow> dict list list \<Rightarrow> rrf_table \<Rightarrow> rrf_table res" where
  "rrf_lists fl id_key k [] t = Inr t"
| "rrf_lists fl id_key k (l # ls) t = bindR (rrf_list fl id_key k (enumerate 1 l) t) (rrf_lists fl id_key k ls)"

definition rrf_entry :: "string \<times> rat \<times> dict \<Rightarrow> dict" where
  "rrf_entry e = (case e of (i, s, d) \<Rightarrow> dset ''rrf_score'' (PFloat (Fin s)) d)"

definition rrf_key :: "(pyfloat \<Rightarrow> string) \<Rightarrow> string \<Rightarrow> dict \<Rightarrow> rat \<times> string" where
  "rrf_key fl id_key d = (- num_of (dget d ''rrf_score''), pv_str fl (dget d id_key))"

definition reciprocal_rank_fusion :: "(pyfloat \<Rightarrow> string) \<Rightarrow> dict list list \<Rightarrow> int \<Rightarrow> string \<Rightarrow> dict list res" where
  "reciprocal_rank_fusion fl ls k id_key =
     (if k \<le> 0 then Inl ValueError
      else bindR (rrf_lists fl id_key k ls []) (\<lambda>t. Inr (sort_key (rrf_key fl id_key) (map rrf_entry t))))"

subsection \<open>What fusion computes\<close>

definition all_ranked :: "dict list list \<Rightarrow> (nat \<times> dict) list" where
  "all_ranked ls = concat (map (enumerate 1) ls)"

definition id_text :: "(pyfloat \<Rightarrow> string) \<Rightarrow> string \<Rightarrow> dict \<Rightarrow> string" where
  "id_text fl id_key d = pv_str fl (dget d id_key)"

text \<open>The distinct elements in the order of their first occurrences.\<close>

definition firsts :: "'a list \<Rightarrow> 'a list" where
  "firsts xs = rev (remdups (rev xs))"

definition rrf_score :: "(pyfloat \<Rightarrow> string) \<Rightarrow> string \<Rightarrow> int \<Rightarrow> (nat \<times> dict) list \<Rightarrow> string \<Rightarrow> rat" where
  "rrf_score fl id_key k ps i = (\<Sum>p\<leftarrow>ps. if id_text fl id_key (snd p) = i then 1 / of_int (k + int (fst p)) else 0)"

definition first_with :: "(pyfloat \<Rightarrow> string) \<Rightarrow> string \<Rightarrow> (nat \<times> dict) list \<Rightarrow> string \<Rightarrow> dict" where
  "first_with fl id_key ps i = (case find (\<lambda>p. id_text fl id_key (snd p) = i) ps of Some p \<Rightarrow> snd p | None \<Rightarrow> [])"

definition rrf_table_of :: "(pyfloat \<Rightarrow> string) \<Rightarrow> string \<Rightarrow> int \<Rightarrow> (nat \<times> dict) list \<Rightarrow> rrf_table" where
  "rrf_table_of fl id_key k ps =
     map (\<lambda>i. (i, rrf_score fl id_key k ps i, first_with fl id_key ps i)) (firsts (map (id_text fl id_key \<circ> snd) ps))"

lemma firsts_snoc: "firsts (xs @ [x]) = (if x \<in> set xs then firsts xs else firsts xs @ [x])"
  by (simp add: firsts_def)

lemma set_firsts [simp]: "set (firsts xs) = set xs" and distinct_firsts [simp]: "distinct (firsts xs)"
  by (simp_all add: firsts_def)

lemma map_of_tabulate: "map_of (map (\<lambda>i. (i, f i)) xs) i = (if i \<in> set xs then Some (f i) else None)"
  by (induction xs) auto

lemma update_tabulate: "i \<in> set xs \<Longrightarrow> distinct xs \<Longrightarrow> AList.update i v (map (\<lambda>j. (j, f j)) xs) = map (\<lambda>j. (j, if j = i then v else f j)) xs"
  by (induction xs) (auto intro!: map_cong)

lemma map_enumerate_snd: "map (\<lambda>p. f (snd p)) (enumerate n l) = map f l"
  by (induction l arbitrary: n) auto

lemma find_snoc: "find P (xs @ [x]) = (case find P xs of None \<Rightarrow> if P x then Some x else None | Some y \<Rightarrow> Some y)"
  by (induction xs) auto

lemma rrf_add_step:
  "rrf_add k (id_text fl id_key (snd p)) p (rrf_table_of fl id_key k ps) = rrf_table_of fl id_key k (ps @ [p])"
proof -
  let ?id = "id_text fl id_key" let ?i = "?id (snd p)" let ?ids = "firsts (map (?id \<circ> snd) ps)"
  have other: "rrf_score fl id_key k (ps @ [p]) j = rrf_score fl id_key k ps j" "first_with fl id_key (ps @ [p]) j = first_with fl id_key ps j"
    if "j \<noteq> ?i" for j
    using that by (auto simp: rrf_score_def first_with_def find_snoc split: option.split)
  have here: "rrf_score fl id_key k (ps @ [p]) ?i = rrf_score fl id_key k ps ?i + 1 / of_int (k + int (fst p))"
    by (simp add: rrf_score_def)
  show ?thesis
  proof (cases "?i \<in> set ?ids")
    case True
    then have "find (\<lambda>p. ?id (snd p) = ?i) ps \<noteq> None" by (simp add: find_None_iff) force
    then obtain q where "find (\<lambda>p. ?id (snd p) = ?i) ps = Some q" by blast
    then have "first_with fl id_key (ps @ [p]) ?i = first_with fl id_key ps ?i" by (simp add: first_with_def find_snoc)
    moreover have "firsts (map (?id \<circ> snd) (ps @ [p])) = ?ids" using True by (simp add: firsts_snoc)
    ultimately show ?thesis using True other here
      by (auto simp: rrf_add_def rrf_table_of_def map_of_tabulate update_tabulate)
  next
    case False
    have N: "?id (snd q) \<noteq> ?i" if "q \<in> set ps" for q
      using False that unfolding set_firsts set_map image_image comp_def by (metis imageI)
    then have "find (\<lambda>p. ?id (snd p) = ?i) ps = None" unfolding find_None_iff by blast
    then have f: "first_with fl id_key (ps @ [p]) ?i = snd p" by (simp add: first_with_def find_snoc)
    have "rrf_score fl id_key k ps ?i = (\<Sum>p\<leftarrow>ps. 0)"
      unfolding rrf_score_def using N by (intro arg_cong[of _ _ sum_list] map_cong) simp_all
    then have s: "rrf_score fl id_key k ps ?i = 0" by simp
    have "firsts (map (?id \<circ> snd) (ps @ [p])) = ?ids @ [?i]" using False by (simp add: firsts_snoc)
    moreover have "map (\<lambda>i. (i, rrf_score fl id_key k (ps @ [p]) i, first_with fl id_key (ps @ [p]) i)) ?ids = rrf_table_of fl id_key k ps"
      unfolding rrf_table_of_def by (rule map_cong[OF refl]) (metis False other)
    ultimately have "rrf_table_of fl id_key k (ps @ [p]) = rrf_table_of fl id_key k ps @ [(?i, 1 / of_int (k + int (fst p)), snd p)]"
      unfolding rrf_table_of_def[of _ _ _ "ps @ [p]"] using f s here by simp
    moreover have "map_of (rrf_table_of fl id_key k ps) ?i = None" using False by (simp add: rrf_table_of_def map_of_tabulate)
    ultimately show ?thesis by (simp add: rrf_add_def)
  qed
qed

definition lacks :: "string \<Rightarrow> dict \<Rightarrow> bool" where
  "lacks id_key d = (map_of d id_key = None)"

lemma rrf_list_table:
  "rrf_list fl id_key k qs (rrf_table_of fl id_key k ps) =
    (if \<exists>q \<in> set qs. lacks id_key (snd q) then Inl ValueError else Inr (rrf_table_of fl id_key k (ps @ qs)))"
proof (induction qs arbitrary: ps)
  case (Cons q qs)
  show ?case
  proof (cases "map_of (snd q) id_key")
    case None
    then show ?thesis by (auto simp: lacks_def)
  next
    case (Some v)
    then have "pv_str fl v = id_text fl id_key (snd q)" by (simp add: id_text_def dget_def)
    then show ?thesis using Some Cons.IH[of "ps @ [q]"] rrf_add_step[of k fl id_key q ps] by (auto simp: lacks_def)
  qed
qed simp

lemma rrf_lists_table:
  "rrf_lists fl id_key k ls (rrf_table_of fl id_key k ps) =
    (if \<exists>l \<in> set ls. \<exists>d \<in> set l. lacks id_key d then Inl ValueError else Inr (rrf_table_of fl id_key k (ps @ all_ranked ls)))"
proof (induction ls arbitrary: ps)
  case (Cons l ls)
  have "(\<exists>q \<in> set (enumerate 1 l). lacks id_key (snd q)) = (\<exists>d \<in> set l. lacks id_key d)"
    using set_map[of snd "enumerate 1 l"] by (auto simp del: set_map)
  then show ?case using Cons.IH[of "ps @ enumerate 1 l"] by (auto simp: rrf_list_table all_ranked_def)
qed (simp add: all_ranked_def)


section \<open>Reranking\<close>

text \<open>The model scores all pairs of the query and a text; the candidates get their scores in place, even when sorting
  them then fails because there were fewer scores. The result is what the list holds afterwards and the value.\<close>

fun add_scores :: "dict list \<Rightarrow> rat list \<Rightarrow> dict list" where
  "add_scores (c # cs) (s # ss) = dset ''rerank_score'' (PFloat (Fin s)) c # add_scores cs ss"
| "add_scores cs ss = cs"

definition rerank_score :: "dict \<Rightarrow> rat" where
  "rerank_score d = num_of (dget d ''rerank_score'')"

text \<open>A stable sort in descending order.\<close>

definition by_rerank_score :: "dict list \<Rightarrow> dict list" where
  "by_rerank_score cs = sort_key (\<lambda>d. - rerank_score d) cs"

definition rerank :: "(string \<Rightarrow> pyval list \<Rightarrow> rat list res) \<Rightarrow> string \<Rightarrow> dict list \<Rightarrow> nat \<Rightarrow> dict list \<times> dict list res" where
  "rerank predict query candidates top_k =
     (if candidates = [] then ([], Inr [])
      else (case bindR (mapR (\<lambda>c. dkey c ''text'') candidates) (predict query) of
          Inl e \<Rightarrow> (candidates, Inl e)
        | Inr scores \<Rightarrow>
            (let scored = add_scores candidates scores in
             if list_all (\<lambda>c. map_of c ''rerank_score'' \<noteq> None) scored
             then (by_rerank_score scored, Inr (take top_k (by_rerank_score scored)))
             else (scored, Inl KeyError))))"

lemma add_scores_length [simp]: "length (add_scores cs ss) = length cs"
  by (induction cs ss rule: add_scores.induct) auto

lemma dget_add_scores:
  "k \<noteq> ''rerank_score'' \<Longrightarrow> map (\<lambda>d. dget d k) (add_scores cs ss) = map (\<lambda>d. dget d k) cs"
  by (induction cs ss rule: add_scores.induct) auto

section \<open>Maximal marginal relevance\<close>

definition dot :: "rat list \<Rightarrow> rat list \<Rightarrow> rat" where
  "dot u v = (\<Sum>(a, b)\<leftarrow>zip u v. a * b)"

text \<open>The first position of a largest element.\<close>

fun argmax :: "rat list \<Rightarrow> nat" where
  "argmax [] = 0"
| "argmax [x] = 0"
| "argmax (x # y # xs) = (let j = argmax (y # xs) in if x \<ge> (y # xs) ! j then 0 else Suc j)"

definition pop_at :: "nat \<Rightarrow> 'a list \<Rightarrow> 'a list" where
  "pop_at i xs = take i xs @ drop (Suc i) xs"

definition marginal :: "rat \<Rightarrow> rat list list \<Rightarrow> rat list \<Rightarrow> nat list \<Rightarrow> nat \<Rightarrow> rat" where
  "marginal lam vs relevance selected i =
     (if selected = [] then relevance ! i
      else lam * relevance ! i - (1 - lam) * Max (set (map (\<lambda>s. dot (vs ! i) (vs ! s)) selected)))"

text \<open>\<open>n\<close> more candidates are wanted.\<close>

primrec mmr_loop :: "rat \<Rightarrow> rat list list \<Rightarrow> rat list \<Rightarrow> nat \<Rightarrow> nat list \<Rightarrow> nat list \<Rightarrow> nat list" where
  "mmr_loop lam vs relevance 0 selected remaining = selected"
| "mmr_loop lam vs relevance (Suc n) selected remaining =
     (if remaining = [] then selected
      else (let best = argmax (map (marginal lam vs relevance selected) remaining) in
        mmr_loop lam vs relevance n (selected @ [remaining ! best]) (pop_at best remaining)))"

definition embeddings_ok :: "rat list \<Rightarrow> rat list list \<Rightarrow> bool" where
  "embeddings_ok q vs = (vs \<noteq> [] \<and> list_all (\<lambda>v. length v = length q) vs)"

definition mmr_select :: "(pyval list \<Rightarrow> rat list list res) \<Rightarrow> rat list \<Rightarrow> dict list \<Rightarrow> int \<Rightarrow> rat \<Rightarrow> dict list res" where
  "mmr_select embedder q candidates top_k lam =
     (if top_k < 0 then Inl ValueError
      else if \<not> (0 \<le> lam \<and> lam \<le> 1) then Inl ValueError
      else if candidates = [] \<or> top_k = 0 then Inr []
      else bindR (bindR (mapR (\<lambda>c. dkey c ''text'') candidates) embedder) (\<lambda>vs.
        if \<not> embeddings_ok q vs then Inl ValueError
        else if length vs < length candidates then Inl IndexError
        else Inr (map (\<lambda>i. candidates ! i)
          (mmr_loop lam vs (map (\<lambda>v. dot v q) vs) (nat top_k) [] [0..<length candidates]))))"

subsection \<open>Greedy choice\<close>

lemma argmax_less: "xs \<noteq> [] \<Longrightarrow> argmax xs < length xs"
  by (induction xs rule: argmax.induct) (auto simp: Let_def)

lemma argmax_max: "i < length xs \<Longrightarrow> xs ! i \<le> xs ! argmax xs \<and> (xs ! i = xs ! argmax xs \<longrightarrow> argmax xs \<le> i)"
proof (induction xs arbitrary: i rule: argmax.induct)
  case (3 x y xs)
  let ?j = "argmax (y # xs)"
  have j: "(y # xs) ! i \<le> (y # xs) ! ?j \<and> ((y # xs) ! i = (y # xs) ! ?j \<longrightarrow> ?j \<le> i)" if "i < length (y # xs)" for i
    using "3.IH" that by blast
  show ?case
  proof (cases i)
    case 0
    then show ?thesis by (auto simp: Let_def)
  next
    case (Suc m)
    then have "m < length (y # xs)" using "3.prems" by simp
    from j[OF this] show ?thesis using Suc by (auto simp: Let_def)
  qed
qed auto

lemma set_pop_at: "i < length xs \<Longrightarrow> distinct xs \<Longrightarrow> set (pop_at i xs) = set xs - {xs ! i} \<and> distinct (pop_at i xs)"
proof -
  assume a: "i < length xs" "distinct xs"
  have "distinct (take i xs @ xs ! i # drop (Suc i) xs)" using a id_take_nth_drop[OF a(1)] by simp
  moreover have "set xs = set (take i xs @ xs ! i # drop (Suc i) xs)" using id_take_nth_drop[OF a(1)] by simp
  ultimately show ?thesis by (auto simp: pop_at_def)
qed

lemma sorted_pop_at:
  assumes "sorted xs"
  shows "sorted (pop_at i xs)"
proof -
  have "sorted (take i xs @ drop i xs)" using assms by simp
  then have "sorted (take i xs)" "\<forall>x \<in> set (take i xs). \<forall>y \<in> set (drop i xs). x \<le> y" unfolding sorted_append by blast+
  moreover have "set (drop (Suc i) xs) \<subseteq> set (drop i xs)" by (rule set_drop_subset_set_drop) simp
  moreover have "sorted (drop (Suc i) xs)" using assms by (rule sorted_wrt_drop)
  ultimately show ?thesis by (auto simp: pop_at_def sorted_append)
qed

definition greedy :: "rat \<Rightarrow> rat list list \<Rightarrow> rat list \<Rightarrow> nat \<Rightarrow> nat list \<Rightarrow> bool" where
  "greedy lam vs relevance n sel = (\<forall>j < length sel. \<forall>i < n. i \<notin> set (take j sel) \<longrightarrow>
     marginal lam vs relevance (take j sel) i \<le> marginal lam vs relevance (take j sel) (sel ! j) \<and>
     (marginal lam vs relevance (take j sel) i = marginal lam vs relevance (take j sel) (sel ! j) \<longrightarrow> sel ! j \<le> i))"

lemma greedy_snoc:
  assumes "greedy lam vs relevance n sel"
    and "\<And>i. i < n \<Longrightarrow> i \<notin> set sel \<Longrightarrow> marginal lam vs relevance sel i \<le> marginal lam vs relevance sel b \<and>
      (marginal lam vs relevance sel i = marginal lam vs relevance sel b \<longrightarrow> b \<le> i)"
  shows "greedy lam vs relevance n (sel @ [b])"
  unfolding greedy_def
proof (intro allI impI)
  fix j i
  assume j: "j < length (sel @ [b])" and i: "i < n" "i \<notin> set (take j (sel @ [b]))"
  show "marginal lam vs relevance (take j (sel @ [b])) i \<le> marginal lam vs relevance (take j (sel @ [b])) ((sel @ [b]) ! j) \<and>
     (marginal lam vs relevance (take j (sel @ [b])) i = marginal lam vs relevance (take j (sel @ [b])) ((sel @ [b]) ! j) \<longrightarrow>
       (sel @ [b]) ! j \<le> i)"
  proof (cases "j < length sel")
    case True
    then show ?thesis using assms(1) i unfolding greedy_def by (simp add: nth_append)
  next
    case False
    then have "j = length sel" using j by simp
    then show ?thesis using assms(2) i by simp
  qed
qed

lemma mmr_loop_greedy:
  assumes "distinct sel" "distinct rem" "sorted rem" "set rem = {..<n} - set sel" "set sel \<subseteq> {..<n}" "greedy lam vs relevance n sel"
  shows "let out = mmr_loop lam vs relevance m sel rem in
    distinct out \<and> set out \<subseteq> {..<n} \<and> length out = length sel + min m (length rem) \<and> greedy lam vs relevance n out"
  using assms
proof (induction m arbitrary: sel rem)
  case (Suc m)
  show ?case
  proof (cases "rem = []")
    case True
    then show ?thesis using Suc.prems by simp
  next
    case False
    let ?f = "marginal lam vs relevance sel"
    let ?b = "argmax (map ?f rem)"
    have b: "?b < length rem" using argmax_less[of "map ?f rem"] False by simp
    have pop: "set (pop_at ?b rem) = set rem - {rem ! ?b}" "distinct (pop_at ?b rem)"
      using set_pop_at[OF b Suc.prems(2)] by auto
    have mem: "rem ! ?b \<in> set rem" using b by simp
    have best: "?f i \<le> ?f (rem ! ?b) \<and> (?f i = ?f (rem ! ?b) \<longrightarrow> rem ! ?b \<le> i)" if "i < n" "i \<notin> set sel" for i
    proof -
      have "i \<in> set rem" using that Suc.prems(4) by simp
      then obtain j where j: "j < length rem" "rem ! j = i" by (auto simp: in_set_conv_nth)
      from argmax_max[of j "map ?f rem"] j b have
        "?f i \<le> ?f (rem ! ?b) \<and> (?f i = ?f (rem ! ?b) \<longrightarrow> ?b \<le> j)" by simp
      then show ?thesis using j b Suc.prems(3) by (auto simp: sorted_iff_nth_mono)
    qed
    have len: "length (pop_at ?b rem) = length rem - 1" using b by (simp add: pop_at_def)
    have "let out = mmr_loop lam vs relevance m (sel @ [rem ! ?b]) (pop_at ?b rem) in
      distinct out \<and> set out \<subseteq> {..<n} \<and> length out = length (sel @ [rem ! ?b]) + min m (length (pop_at ?b rem)) \<and>
      greedy lam vs relevance n out"
    proof (rule Suc.IH)
      show "greedy lam vs relevance n (sel @ [rem ! ?b])" by (rule greedy_snoc[OF Suc.prems(6) best])
    qed (use Suc.prems pop mem sorted_pop_at in auto)
    then show ?thesis using False len b by (auto simp: Let_def)
  qed
qed (simp add: Let_def)

text \<open>Maximal marginal relevance is greedy: the result holds as many different candidates as were wanted, or
  all of them, and each is, among those not yet chosen, one of largest marginal relevance given the earlier
  ones, the first such in the order of the candidates.\<close>

lemma mmr_greedy:
  assumes "mmr_select embedder q candidates top_k lam = Inr out"
  shows "\<exists>vs sel. distinct sel \<and> set sel \<subseteq> {..<length candidates} \<and> out = map (\<lambda>i. candidates ! i) sel \<and>
    length sel = min (nat top_k) (length candidates) \<and>
    (out = [] \<or> bindR (mapR (\<lambda>c. dkey c ''text'') candidates) embedder = Inr vs) \<and>
    greedy lam vs (map (\<lambda>v. dot v q) vs) (length candidates) sel"
proof (cases "candidates = [] \<or> top_k = 0")
  case True
  then show ?thesis using assms by (intro exI[of _ "[]"]) (auto simp: mmr_select_def greedy_def split: if_splits)
next
  case False
  then obtain vs where vs: "bindR (mapR (\<lambda>c. dkey c ''text'') candidates) embedder = Inr vs" "out = map (\<lambda>i. candidates ! i) (mmr_loop lam vs (map (\<lambda>v. dot v q) vs) (nat top_k) [] [0..<length candidates])"
    using assms by (auto simp: mmr_select_def split: if_splits)
  have "let o1 = mmr_loop lam vs (map (\<lambda>v. dot v q) vs) (nat top_k) [] [0..<length candidates] in
    distinct o1 \<and> set o1 \<subseteq> {..<length candidates} \<and> length o1 = length ([]::nat list) + min (nat top_k) (length [0..<length candidates]) \<and>
    greedy lam vs (map (\<lambda>v. dot v q) vs) (length candidates) o1"
    by (rule mmr_loop_greedy) (auto simp: greedy_def)
  then show ?thesis using vs by (intro exI[of _ vs] exI[of _ "mmr_loop lam vs (map (\<lambda>v. dot v q) vs) (nat top_k) [] [0..<length candidates]"])
      (simp add: Let_def)
qed

lemma mmr_greedy_witness:
  "\<exists>sel. length sel = 2 \<and> distinct sel \<and>
    mmr_select (\<lambda>ts. Inr [[1, 0], [1, 0], [0, 1]]) [1, 1 / 2] (map (\<lambda>c. [(''text'', PStr [c])]) ''abc'') 2 (1 / 2)
      = Inr (map (\<lambda>i. map (\<lambda>c. [(''text'', PStr [c])]) ''abc'' ! i) sel) \<and>
    greedy (1 / 2) [[1, 0], [1, 0], [0, 1]] [1, 1, 1 / 2] 3 sel"
proof -
  let ?cs = "map (\<lambda>c. [(''text'', PStr [c])]) ''abc''"
  have r: "mmr_select (\<lambda>ts. Inr [[1, 0], [1, 0], [0, 1]]) [1, 1 / 2] ?cs 2 (1 / 2) = Inr [?cs ! 0, ?cs ! 2]"
    by code_simp
  from mmr_greedy[OF r] obtain vs sel where v: "distinct sel" "[?cs ! 0, ?cs ! 2] = map (\<lambda>i. ?cs ! i) sel"
    "length sel = min (nat 2) (length ?cs)"
    "[?cs ! 0, ?cs ! 2] = [] \<or> bindR (mapR (\<lambda>c. dkey c ''text'') ?cs) (\<lambda>ts. Inr [[1, 0], [1, 0], [0, 1]]) = Inr vs"
    "greedy (1 / 2) vs (map (\<lambda>v. dot v [1, 1 / 2]) vs) (length ?cs) sel"
    by (elim exE conjE)
  have vs: "vs = [[1, 0], [1, 0], [0, 1]]" using v(4) by (auto simp: dkey_def)
  have l: "length sel = 2" "length ?cs = 3" using v(3) by simp_all
  have g: "greedy (1 / 2) [[1, 0], [1, 0], [0, 1]] [1, 1, 1 / 2] 3 sel" using v(5) unfolding vs l(2) by (simp add: dot_def)
  show ?thesis unfolding r v(2) using v(1) l(1) g by blast
qed

end
