(* ===== verification/Vector_Store.thy ===== *)
theory Vector_Store
  imports Ranking State_Res
begin

text \<open>
  Dense retrieval (\<open>services/retrieval/qdrant_store.py\<close>): the collection, indexing of chunks, the search, and the
  reconciliation of what is visible with the published versions. Qdrant is a record of operations on
  a state \<open>'s\<close>; the embedding model is an argument.
\<close>

section \<open>Chunks, points and filters\<close>

definition VECTOR_SIZE :: nat where "VECTOR_SIZE = 768"

record chunk =
  ch_id :: string
  ch_text :: string
  ch_filename :: string
  ch_page :: int
  ch_index :: int
  ch_tenant :: string
  ch_document :: "string option"
  ch_version :: "string option"

datatype qcond = FieldIs string pyval | FieldEmpty string | AnyOf "qcond list"

record qfilter =
  q_must :: "qcond list"
  q_must_not :: "qcond list"

text \<open>A stored point, and one that a search found.\<close>

type_synonym point = "string \<times> rat list \<times> dict"

record scored =
  s_id :: pyval
  s_score :: rat
  s_payload :: pyval

datatype vector_config = NamedVectors "string list" | VectorSize "int option"

record 's vector_db =
  vd_collections :: "'s \<Rightarrow> string list res"
  vd_config :: "string \<Rightarrow> 's \<Rightarrow> vector_config res"
  vd_create :: "string \<Rightarrow> nat \<Rightarrow> ('s, unit) st"
  vd_index_field :: "string \<Rightarrow> string \<Rightarrow> ('s, unit) st"
  vd_upsert :: "string \<Rightarrow> point list \<Rightarrow> ('s, unit) st"
  vd_delete :: "string \<Rightarrow> qfilter \<Rightarrow> ('s, unit) st"
  vd_set_payload :: "string \<Rightarrow> dict \<Rightarrow> qfilter \<Rightarrow> ('s, unit) st"
  vd_query :: "string \<Rightarrow> rat list \<Rightarrow> qfilter \<Rightarrow> nat \<Rightarrow> 's \<Rightarrow> scored list res"

text \<open>Who owns the client: it is borrowed, leased from a store (open or closed) with its own collection, or made
  for this call.\<close>

record client_args =
  cl_borrowed :: bool
  cl_store :: "(bool \<times> string) option"
  cl_default :: string

definition using_client :: "client_args \<Rightarrow> (string \<Rightarrow> ('s, 'a) st) \<Rightarrow> ('s, 'a) st" where
  "using_client a body = (case cl_store a of
       Some (shut, name) \<Rightarrow> if cl_borrowed a then failS ValueError else if shut then failS RuntimeError else body name
     | None \<Rightarrow> body (cl_default a))"

definition collection_name :: "client_args \<Rightarrow> string" where
  "collection_name a = (case cl_store a of Some (shut, name) \<Rightarrow> name | None \<Rightarrow> cl_default a)"

section \<open>Operations\<close>

definition ensure_collection :: "'s vector_db \<Rightarrow> string \<Rightarrow> ('s, unit) st" where
  "ensure_collection db name = bindS (readS (vd_collections db)) (\<lambda>names.
     if name \<in> set names
     then bindS (readS (vd_config db name)) (\<lambda>c. case c of
         NamedVectors ns \<Rightarrow> failS RuntimeError
       | VectorSize n \<Rightarrow> if n \<noteq> Some (int VECTOR_SIZE) then failS RuntimeError else retS ())
     else bindS (vd_create db name VECTOR_SIZE) (\<lambda>_. vd_index_field db name ''tenant_id''))"

definition delete_by_filename :: "'s vector_db \<Rightarrow> client_args \<Rightarrow> string \<Rightarrow> string \<Rightarrow> ('s, unit) st" where
  "delete_by_filename db a tenant filename = using_client a (\<lambda>name. bindS (readS (vd_collections db)) (\<lambda>names.
     if name \<notin> set names then retS ()
     else vd_delete db name \<lparr>q_must = [FieldIs ''tenant_id'' (PStr tenant), FieldIs ''filename'' (PStr filename)], q_must_not = []\<rparr>))"

definition chunk_payload :: "chunk \<Rightarrow> dict" where
  "chunk_payload c = [(''text'', PStr (ch_text c)), (''filename'', PStr (ch_filename c)), (''page_number'', PInt (ch_page c)),
     (''chunk_index'', PInt (ch_index c)), (''tenant_id'', PStr (ch_tenant c))] @
     (case (ch_document c, ch_version c) of
        (Some d, Some v) \<Rightarrow> [(''document_id'', PStr d), (''version_id'', PStr v), (''is_active'', PBool False)]
      | _ \<Rightarrow> [])"

definition index_chunks :: "(string list \<Rightarrow> rat list list res) \<Rightarrow> 's vector_db \<Rightarrow> client_args \<Rightarrow> chunk list \<Rightarrow> ('s, unit) st" where
  "index_chunks embed_texts db a chunks =
     (if chunks = [] then retS ()
      else bindS (liftS (embed_texts (map ch_text chunks))) (\<lambda>vectors.
        if length vectors \<noteq> length chunks then failS RuntimeError
        else if list_ex (\<lambda>v. length v \<noteq> VECTOR_SIZE) vectors then failS RuntimeError
        else using_client a (\<lambda>name. bindS (ensure_collection db name) (\<lambda>_.
          vd_upsert db name (map2 (\<lambda>c v. (ch_id c, v, chunk_payload c)) chunks vectors)))))"

text \<open>What a search may see: points without a version, and those of the active one.\<close>

definition VISIBLE :: qcond where
  "VISIBLE = AnyOf [FieldEmpty ''version_id'', FieldIs ''is_active'' (PBool True)]"

definition search_filter :: "dict \<Rightarrow> string \<Rightarrow> qfilter" where
  "search_filter metadata tenant =
     \<lparr>q_must = map (\<lambda>(k, v). FieldIs k v) metadata @ [FieldIs ''tenant_id'' (PStr tenant), VISIBLE], q_must_not = []\<rparr>"

definition keep_keys :: "string list \<Rightarrow> dict \<Rightarrow> dict" where
  "keep_keys ks d = concat (map (\<lambda>k. case map_of d k of None \<Rightarrow> [] | Some v \<Rightarrow> [(k, v)]) ks)"

definition needed :: "dict \<Rightarrow> string \<Rightarrow> pyval res" where
  "needed d k = (case map_of d k of None \<Rightarrow> Inl RuntimeError | Some v \<Rightarrow> Inr v)"

definition point_result :: "string \<Rightarrow> scored \<Rightarrow> dict res" where
  "point_result tenant p = (case s_payload p of
       PDict d \<Rightarrow>
         bindR (needed d ''text'') (\<lambda>text. bindR (needed d ''filename'') (\<lambda>filename. bindR (needed d ''page_number'') (\<lambda>page.
           (let r = [(''id'', s_id p), (''text'', text), (''filename'', filename), (''page_number'', page),
                     (''chunk_index'', dget_or d ''chunk_index'' (PInt 0)), (''tenant_id'', dget_or d ''tenant_id'' (PStr tenant)),
                     (''score'', PFloat (Fin (s_score p)))] @ keep_keys [''document_id'', ''version_id''] d
            in if dget r ''tenant_id'' \<noteq> PStr tenant then Inl RuntimeError else Inr r))))
     | _ \<Rightarrow> Inl RuntimeError)"

definition dense_search ::
  "(string \<Rightarrow> rat list res) \<Rightarrow> 's vector_db \<Rightarrow> client_args \<Rightarrow> string \<Rightarrow> string \<Rightarrow> int \<Rightarrow> dict \<Rightarrow> ('s, dict list) st" where
  "dense_search embed_query db a query tenant top_k metadata =
     (if top_k \<le> 0 then failS ValueError
      else if strip query = [] then failS ValueError
      else if strip tenant = [] then failS ValueError
      else bindS (liftS (embed_query query)) (\<lambda>vector.
        bindS (using_client a (\<lambda>name. readS (vd_query db name vector (search_filter metadata tenant) (nat top_k)))) (\<lambda>points.
          liftS (mapR (point_result tenant) points))))"

text \<open>The identity of a chunk that its identifier is the name-based UUID of.\<close>

definition chunk_identity :: "string \<Rightarrow> string \<Rightarrow> int \<Rightarrow> int \<Rightarrow> string option \<Rightarrow> string" where
  "chunk_identity tenant filename page idx version =
     tenant @ '':'' @ filename @ '':'' @ int_digits page @ '':'' @ int_digits idx @ (case version of None \<Rightarrow> [] | Some v \<Rightarrow> '':'' @ v)"

definition make_chunk_id :: "(string \<Rightarrow> string) \<Rightarrow> string \<Rightarrow> string \<Rightarrow> int \<Rightarrow> int \<Rightarrow> string option \<Rightarrow> string" where
  "make_chunk_id uuid5 tenant filename page idx version = uuid5 (chunk_identity tenant filename page idx version)"

section \<open>Reconciliation\<close>

definition document_conditions :: "string \<Rightarrow> string \<Rightarrow> qcond list" where
  "document_conditions tenant document = [FieldIs ''tenant_id'' (PStr tenant), FieldIs ''document_id'' (PStr document)]"

definition version_is :: "string option \<Rightarrow> qcond list" where
  "version_is v = (case v of None \<Rightarrow> [] | Some x \<Rightarrow> [FieldIs ''version_id'' (PStr x)])"

definition legacy_filter :: "string \<Rightarrow> string \<Rightarrow> qfilter" where
  "legacy_filter tenant filename =
     \<lparr>q_must = [FieldIs ''tenant_id'' (PStr tenant), FieldIs ''filename'' (PStr filename), FieldEmpty ''version_id''], q_must_not = []\<rparr>"

definition set_visibility :: "'s vector_db \<Rightarrow> string \<Rightarrow> string \<Rightarrow> string \<Rightarrow> string option \<Rightarrow> ('s, unit) st" where
  "set_visibility db name tenant document active =
     bindS (whenS (active \<noteq> None) (vd_set_payload db name [(''is_active'', PBool True)]
         \<lparr>q_must = document_conditions tenant document @ version_is active, q_must_not = []\<rparr>)) (\<lambda>_.
       vd_set_payload db name [(''is_active'', PBool False)]
         \<lparr>q_must = document_conditions tenant document, q_must_not = version_is active\<rparr>)"

definition reconcile_document_version ::
  "'s vector_db \<Rightarrow> client_args \<Rightarrow> string \<Rightarrow> string \<Rightarrow> string option \<Rightarrow> string \<Rightarrow> bool \<Rightarrow> bool \<Rightarrow> ('s, unit) st" where
  "reconcile_document_version db a tenant document active filename deleted delete_legacy =
     using_client a (\<lambda>name. bindS (readS (vd_collections db)) (\<lambda>names.
       if name \<notin> set names then retS ()
       else bindS (if deleted then vd_delete db name \<lparr>q_must = document_conditions tenant document, q_must_not = []\<rparr>
                   else set_visibility db name tenant document active) (\<lambda>_.
         whenS (deleted \<or> delete_legacy) (vd_delete db name (legacy_filter tenant filename)))))"

definition activate_document_version ::
  "'s vector_db \<Rightarrow> client_args \<Rightarrow> string \<Rightarrow> string \<Rightarrow> string \<Rightarrow> string \<Rightarrow> ('s, unit) st" where
  "activate_document_version db a tenant document version filename =
     reconcile_document_version db a tenant document (Some version) filename False True"

section \<open>What Qdrant does\<close>

text \<open>The documented meaning of filters, and of the operations on the points of a collection.\<close>

fun cond_holds :: "dict \<Rightarrow> qcond \<Rightarrow> bool" where
  "cond_holds d (FieldIs k v) = (map_of d k = Some v)"
| "cond_holds d (FieldEmpty k) = (dget d k \<in> {PNone, PList []})"
| "cond_holds d (AnyOf cs) = (\<exists>c \<in> set cs. cond_holds d c)"

definition matches :: "qfilter \<Rightarrow> dict \<Rightarrow> bool" where
  "matches f d = (list_all (cond_holds d) (q_must f) \<and> \<not> list_ex (cond_holds d) (q_must_not f))"

text \<open>\<open>view s name\<close>: the points of a collection, identifier and payload; a collection that does not exist has none.\<close>

definition qdrant_laws :: "'s vector_db \<Rightarrow> ('s \<Rightarrow> string \<Rightarrow> (string \<times> dict) list) \<Rightarrow> bool" where
  "qdrant_laws db view = (
     (\<forall>s names c. vd_collections db s = Inr names \<longrightarrow> c \<notin> set names \<longrightarrow> view s c = []) \<and>
     (\<forall>s s' c f. vd_delete db c f s = (s', Inr ()) \<longrightarrow> view s' c = filter (\<lambda>p. \<not> matches f (snd p)) (view s c)) \<and>
     (\<forall>s s' c u f. vd_set_payload db c u f s = (s', Inr ()) \<longrightarrow>
        view s' c = map (\<lambda>p. if matches f (snd p) then (fst p, fold (\<lambda>(k, v). dset k v) u (snd p)) else p) (view s c)) \<and>
     (\<forall>s c v f n rs. vd_query db c v f n s = Inr rs \<longrightarrow> length rs \<le> n \<and>
        (\<forall>r \<in> set rs. \<exists>p \<in> set (view s c). matches f (snd p) \<and> s_id r = PStr (fst p) \<and> s_payload r = PDict (snd p))))"

section \<open>Searches stay inside the tenant\<close>

lemma mapR_source: "mapR f xs = Inr ys \<Longrightarrow> y \<in> set ys \<Longrightarrow> \<exists>x \<in> set xs. f x = Inr y"
  by (induction xs arbitrary: ys) auto

lemma mapR_all:
  assumes m: "mapR f xs = Inr ys" and P: "\<And>x y. x \<in> set xs \<Longrightarrow> f x = Inr y \<Longrightarrow> P y"
  shows "\<forall>y \<in> set ys. P y"
proof
  fix y
  assume "y \<in> set ys"
  then obtain x where "x \<in> set xs" "f x = Inr y" using mapR_source[OF m] by blast
  then show "P y" by (rule P)
qed

lemma map_of_keep_keys [simp]: "map_of (keep_keys ks d) k = (if k \<in> set ks then map_of d k else None)"
  by (induction ks) (auto simp: keep_keys_def split: option.splits)

lemma needed_Inr [simp]: "needed d k = Inr v \<longleftrightarrow> map_of d k = Some v"
  by (simp add: needed_def split: option.splits)

lemma point_result_Inr:
  assumes "point_result tenant p = Inr r"
  shows "dget r ''tenant_id'' = PStr tenant \<and> dget r ''id'' = s_id p \<and>
    (\<exists>d. s_payload p = PDict d \<and> map_of r ''version_id'' = map_of d ''version_id'' \<and> map_of r ''document_id'' = map_of d ''document_id'' \<and>
      map_of r ''text'' = map_of d ''text'' \<and> map_of r ''filename'' = map_of d ''filename'' \<and> map_of r ''page_number'' = map_of d ''page_number'')"
  using assms
  by (cases "s_payload p") (auto simp: point_result_def Let_def dget_def split: if_splits)

lemma using_client_Inr: "using_client a body s = (s', Inr x) \<Longrightarrow> body (collection_name a) s = (s', Inr x)"
  by (auto simp: using_client_def collection_name_def split: option.splits prod.splits if_splits)

lemma dense_search_Inr:
  assumes "dense_search embed_query db a query tenant top_k metadata s = (s', Inr out)"
  obtains vector points where "embed_query query = Inr vector" "s' = s" "0 < top_k"
    "vd_query db (collection_name a) vector (search_filter metadata tenant) (nat top_k) s = Inr points"
    "mapR (point_result tenant) points = Inr out"
  using assms by (auto simp: dense_search_def split: if_splits dest!: using_client_Inr)

lemma dense_search_tenant:
  "dense_search embed_query db a query tenant top_k metadata s = (s', Inr out) \<Longrightarrow> \<forall>r \<in> set out. dget r ''tenant_id'' = PStr tenant"
  by (elim dense_search_Inr) (rule mapR_all, assumption, use point_result_Inr in blast)

section \<open>Reconciliation publishes exactly one version\<close>

lemma cond_simps [simp]:
  "list_all (cond_holds d) (document_conditions tenant document) =
     (map_of d ''tenant_id'' = Some (PStr tenant) \<and> map_of d ''document_id'' = Some (PStr document))"
  "list_all (cond_holds d) (version_is v) = (case v of None \<Rightarrow> True | Some x \<Rightarrow> map_of d ''version_id'' = Some (PStr x))"
  "list_ex (cond_holds d) (version_is v) = (case v of None \<Rightarrow> False | Some x \<Rightarrow> map_of d ''version_id'' = Some (PStr x))"
  by (auto simp: document_conditions_def version_is_def split: option.splits)

definition of_document :: "string \<Rightarrow> string \<Rightarrow> dict \<Rightarrow> bool" where
  "of_document tenant document d = (map_of d ''tenant_id'' = Some (PStr tenant) \<and> map_of d ''document_id'' = Some (PStr document))"

definition versioned :: "dict \<Rightarrow> bool" where
  "versioned d = (\<not> cond_holds d (FieldEmpty ''version_id''))"

lemma matches_simps [simp]:
  "matches \<lparr>q_must = document_conditions tenant document @ version_is v, q_must_not = []\<rparr> d =
     (of_document tenant document d \<and> (case v of None \<Rightarrow> True | Some x \<Rightarrow> map_of d ''version_id'' = Some (PStr x)))"
  "matches \<lparr>q_must = document_conditions tenant document, q_must_not = version_is v\<rparr> d =
     (of_document tenant document d \<and> (case v of None \<Rightarrow> True | Some x \<Rightarrow> map_of d ''version_id'' \<noteq> Some (PStr x)))"
  "matches \<lparr>q_must = document_conditions tenant document, q_must_not = []\<rparr> d = of_document tenant document d"
  "matches (legacy_filter tenant filename) d =
     (map_of d ''tenant_id'' = Some (PStr tenant) \<and> map_of d ''filename'' = Some (PStr filename) \<and> \<not> versioned d)"
  by (auto simp: matches_def of_document_def versioned_def legacy_filter_def split: option.splits)

definition show_if :: "string \<Rightarrow> string \<Rightarrow> string option \<Rightarrow> string \<times> dict \<Rightarrow> string \<times> dict" where
  "show_if tenant document active p =
     (if of_document tenant document (snd p)
      then (fst p, dset ''is_active'' (PBool (active \<noteq> None \<and> map_of (snd p) ''version_id'' = map_option PStr active)) (snd p)) else p)"

lemma dset_dset: "dset k v (dset k w d) = dset k v d"
  unfolding dset_def by (induction d) auto

lemma of_document_dset [simp]: "of_document tenant document (dset ''is_active'' v d) = of_document tenant document d"
  by (simp add: of_document_def)

lemma set_visibility_view:
  assumes laws: "qdrant_laws db view" and run: "set_visibility db name tenant document active s = (s', Inr ())"
  shows "view s' name = map (show_if tenant document active) (view s name)"
proof -
  have set: "\<And>s s' u f. vd_set_payload db name u f s = (s', Inr ()) \<Longrightarrow>
      view s' name = map (\<lambda>p. if matches f (snd p) then (fst p, fold (\<lambda>(k, v). dset k v) u (snd p)) else p) (view s name)"
    using laws unfolding qdrant_laws_def by blast
  obtain s1 where s1: "whenS (active \<noteq> None) (vd_set_payload db name [(''is_active'', PBool True)]
         \<lparr>q_must = document_conditions tenant document @ version_is active, q_must_not = []\<rparr>) s = (s1, Inr ())"
    and s2: "vd_set_payload db name [(''is_active'', PBool False)]
         \<lparr>q_must = document_conditions tenant document, q_must_not = version_is active\<rparr> s1 = (s', Inr ())"
    using run by (auto simp: set_visibility_def)
  show ?thesis
  proof (cases active)
    case None
    then have "s1 = s" using s1 by (simp add: whenS_def)
    then show ?thesis using set[OF s2] None by (auto simp: show_if_def)
  next
    case (Some x)
    then have "vd_set_payload db name [(''is_active'', PBool True)]
         \<lparr>q_must = document_conditions tenant document @ version_is active, q_must_not = []\<rparr> s = (s1, Inr ())"
      using s1 by (simp add: whenS_def)
    from set[OF this] set[OF s2] Some show ?thesis by (auto simp: show_if_def dset_dset)
  qed
qed

text \<open>The points of a tenant that a search can find, apart from their activity mark.\<close>

definition of_tenant :: "string \<Rightarrow> dict \<Rightarrow> bool" where
  "of_tenant tenant d = (map_of d ''tenant_id'' = Some (PStr tenant))"

definition unmarked :: "string \<times> dict \<Rightarrow> string \<times> dict" where
  "unmarked p = (fst p, filter (\<lambda>x. fst x \<noteq> ''is_active'') (snd p))"

definition visible :: "string \<Rightarrow> (string \<times> dict) list \<Rightarrow> (string \<times> dict) set" where
  "visible tenant ps = {p \<in> set ps. of_tenant tenant (snd p) \<and> cond_holds (snd p) VISIBLE}"

text \<open>Which points should be visible once a document is reconciled.\<close>

definition published ::
  "string \<Rightarrow> string option \<Rightarrow> string \<Rightarrow> bool \<Rightarrow> bool \<Rightarrow> string \<Rightarrow> string \<times> dict \<Rightarrow> bool" where
  "published document active filename deleted delete_legacy tenant p =
     (if of_document tenant document (snd p) \<and> deleted then False
      else if (deleted \<or> delete_legacy) \<and> \<not> versioned (snd p) \<and> map_of (snd p) ''filename'' = Some (PStr filename) then False
      else if of_document tenant document (snd p) \<and> versioned (snd p)
        then active \<noteq> None \<and> map_of (snd p) ''version_id'' = map_option PStr active
      else cond_holds (snd p) VISIBLE)"

lemma map_of_filter_key: "map_of (filter (\<lambda>x. fst x \<noteq> k') d) k = (if k = k' then None else map_of d k)"
  by (induction d) auto

lemma filter_dset: "filter (\<lambda>x. fst x \<noteq> k) (dset k v d) = filter (\<lambda>x. fst x \<noteq> k) d"
  unfolding dset_def by (induction d) auto

lemma unmarked_show_if [simp]: "unmarked (show_if tenant document active p) = unmarked p"
  by (simp add: unmarked_def show_if_def filter_dset)

lemma versioned_dset [simp]: "versioned (dset ''is_active'' v d) = versioned d"
  by (simp add: versioned_def)

lemma show_if_keys [simp]:
  "of_tenant tenant (snd (show_if t document active p)) = of_tenant tenant (snd p)"
  "versioned (snd (show_if t document active p)) = versioned (snd p)"
  "map_of (snd (show_if t document active p)) ''filename'' = map_of (snd p) ''filename''"
  by (simp_all add: show_if_def of_tenant_def)

lemma visible_iff: "cond_holds d VISIBLE = (\<not> versioned d \<or> map_of d ''is_active'' = Some (PBool True))"
  by (auto simp: VISIBLE_def versioned_def)

lemma show_if_visible:
  "cond_holds (snd (show_if tenant document active p)) VISIBLE =
    (if of_document tenant document (snd p) \<and> versioned (snd p)
     then active \<noteq> None \<and> map_of (snd p) ''version_id'' = map_option PStr active else cond_holds (snd p) VISIBLE)"
  by (auto simp: visible_iff show_if_def versioned_def)

lemma reconcile_view:
  assumes laws: "qdrant_laws db view" and run: "reconcile_document_version db a tenant document active filename deleted delete_legacy s = (s1, Inr ())"
  shows "view s1 (collection_name a) = filter (\<lambda>p. \<not> ((deleted \<or> delete_legacy) \<and> matches (legacy_filter tenant filename) (snd p)))
    (if deleted then filter (\<lambda>p. \<not> of_document tenant document (snd p)) (view s (collection_name a))
     else map (show_if tenant document active) (view s (collection_name a)))"
proof -
  let ?c = "collection_name a"
  have del: "\<And>s s' f. vd_delete db ?c f s = (s', Inr ()) \<Longrightarrow> view s' ?c = filter (\<lambda>p. \<not> matches f (snd p)) (view s ?c)"
    and none: "\<And>s names. vd_collections db s = Inr names \<Longrightarrow> ?c \<notin> set names \<Longrightarrow> view s ?c = []"
    using laws unfolding qdrant_laws_def by blast+
  have body: "(\<lambda>name. bindS (readS (vd_collections db)) (\<lambda>names.
       if name \<notin> set names then retS ()
       else bindS (if deleted then vd_delete db name \<lparr>q_must = document_conditions tenant document, q_must_not = []\<rparr>
                   else set_visibility db name tenant document active) (\<lambda>_.
         whenS (deleted \<or> delete_legacy) (vd_delete db name (legacy_filter tenant filename))))) ?c s = (s1, Inr ())"
    using using_client_Inr[OF run[unfolded reconcile_document_version_def]] .
  then obtain names where names: "vd_collections db s = Inr names" by auto
  show ?thesis
  proof (cases "?c \<in> set names")
    case False
    then show ?thesis using body names none[OF names] by auto
  next
    case True
    then obtain s2 where s2: "(if deleted then vd_delete db ?c \<lparr>q_must = document_conditions tenant document, q_must_not = []\<rparr>
                   else set_visibility db ?c tenant document active) s = (s2, Inr ())"
      and s1: "whenS (deleted \<or> delete_legacy) (vd_delete db ?c (legacy_filter tenant filename)) s2 = (s1, Inr ())"
      using body names by auto
    have v2: "view s2 ?c = (if deleted then filter (\<lambda>p. \<not> of_document tenant document (snd p)) (view s ?c)
        else map (show_if tenant document active) (view s ?c))"
      using s2 del set_visibility_view[OF laws] by (auto split: if_splits)
    show ?thesis using s1 del v2 by (cases "deleted \<or> delete_legacy") (auto simp: whenS_def)
  qed
qed

lemma reconcile_publishes_view:
  assumes "qdrant_laws db view" "reconcile_document_version db a tenant document active filename deleted delete_legacy s = (s1, Inr ())"
  shows "unmarked ` visible tenant (view s1 (collection_name a)) =
    unmarked ` {p \<in> set (view s (collection_name a)). of_tenant tenant (snd p) \<and>
      published document active filename deleted delete_legacy tenant p}"
proof (cases deleted)
  case True
  then show ?thesis unfolding reconcile_view[OF assms] visible_def
    by (intro arg_cong[of _ _ "image unmarked"]) (auto simp: published_def of_tenant_def visible_iff)
next
  case False
  let ?show = "show_if tenant document active"
  have "visible tenant (view s1 (collection_name a)) = ?show ` {p \<in> set (view s (collection_name a)). of_tenant tenant (snd p) \<and>
      published document active filename deleted delete_legacy tenant p}"
    unfolding reconcile_view[OF assms] visible_def using False
    by (auto simp: published_def show_if_visible of_tenant_def[symmetric] split: if_splits)
  then show ?thesis by (simp add: image_image)
qed

text \<open>C15 Reconciliation refines publication: if Qdrant does what it documents, then after a document is reconciled the
  points of its tenant that a search can see are exactly the published ones: those of the active version and
  no other version of the document, none of it when it was deleted, no legacy points of the file when
  they are replaced, and everything else as before.\<close>

theorem reconcile_publishes:
  assumes "qdrant_laws db view" "reconcile_document_version db a tenant document active filename deleted delete_legacy s = (s1, Inr ())"
  shows "unmarked ` visible tenant (view s1 (collection_name a)) =
    unmarked ` {p \<in> set (view s (collection_name a)). of_tenant tenant (snd p) \<and>
      published document active filename deleted delete_legacy tenant p}"
  by (rule reconcile_publishes_view[OF assms])

text \<open>A collection kept as a list, for examples.\<close>

definition list_db :: "(string \<times> dict) list vector_db" where
  "list_db = \<lparr>vd_collections = \<lambda>s. Inr [''c''], vd_config = \<lambda>n s. Inr (VectorSize (Some 768)), vd_create = \<lambda>n k. retS (),
     vd_index_field = \<lambda>n k. retS (), vd_upsert = \<lambda>n ps s. (s @ map (\<lambda>(i, v, d). (i, d)) ps, Inr ()),
     vd_delete = \<lambda>n f s. (if n = ''c'' then filter (\<lambda>p. \<not> matches f (snd p)) s else s, Inr ()),
     vd_set_payload = \<lambda>n u f s. (if n = ''c''
        then map (\<lambda>p. if matches f (snd p) then (fst p, fold (\<lambda>(k, v). dset k v) u (snd p)) else p) s else s, Inr ()),
     vd_query = \<lambda>n v f k s. Inr (map (\<lambda>p. \<lparr>s_id = PStr (fst p), s_score = 0, s_payload = PDict (snd p)\<rparr>)
        (take k (if n = ''c'' then filter (\<lambda>p. matches f (snd p)) s else [])))\<rparr>"

lemma list_db_laws: "qdrant_laws list_db (\<lambda>s n. if n = ''c'' then s else [])"
  unfolding qdrant_laws_def list_db_def by (auto dest!: in_set_takeD)

definition in_list :: client_args where
  "in_list = \<lparr>cl_borrowed = True, cl_store = None, cl_default = ''c''\<rparr>"

definition two_versions :: "(string \<times> dict) list" where
  "two_versions = map (\<lambda>(i, v, b). (i, [(''tenant_id'', PStr ''t''), (''document_id'', PStr ''d''), (''version_id'', PStr v), (''is_active'', PBool b),
     (''text'', PStr ''x''), (''filename'', PStr ''f''), (''page_number'', PInt 1)]))
     [(''1'', ''old'', True), (''2'', ''new'', False)]"

theorem reconcile_publishes_witness:
  "fst ` visible ''t'' (fst (reconcile_document_version list_db in_list ''t'' ''d'' (Some ''new'') ''f'' False False two_versions)) = {''2''}"
proof -
  obtain s1 where r: "reconcile_document_version list_db in_list ''t'' ''d'' (Some ''new'') ''f'' False False two_versions = (s1, Inr ())"
    by (simp add: reconcile_document_version_def set_visibility_def using_client_def in_list_def list_db_def whenS_def bindS_def readS_def retS_def)
  have c: "collection_name in_list = ''c''" by (simp add: collection_name_def in_list_def)
  have "unmarked ` visible ''t'' s1 = unmarked ` {p \<in> set two_versions. of_tenant ''t'' (snd p) \<and>
      published ''d'' (Some ''new'') ''f'' False False ''t'' p}"
    using reconcile_publishes[OF list_db_laws r] by (simp add: c)
  then have "fst ` unmarked ` visible ''t'' s1 = fst ` unmarked ` {p \<in> set two_versions. of_tenant ''t'' (snd p) \<and>
      published ''d'' (Some ''new'') ''f'' False False ''t'' p}" by simp
  then have "fst ` visible ''t'' s1 = fst ` {p \<in> set two_versions. of_tenant ''t'' (snd p) \<and>
      published ''d'' (Some ''new'') ''f'' False False ''t'' p}"
    by (simp add: image_image unmarked_def)
  also have "\<dots> = fst ` set (filter (\<lambda>p. of_tenant ''t'' (snd p) \<and> published ''d'' (Some ''new'') ''f'' False False ''t'' p) two_versions)"
    by (simp only: set_filter)
  also have "\<dots> = {''2''}"
    by (simp add: two_versions_def of_tenant_def published_def of_document_def versioned_def dget_def)
  finally show ?thesis unfolding r by simp
qed

section \<open>Retired versions are not found\<close>

lemma found_point:
  assumes laws: "qdrant_laws db view" and search: "dense_search embed_query db a query tenant top_k metadata s = (s', Inr out)"
    and r: "r \<in> set out"
  obtains i d where "(i, d) \<in> visible tenant (view s (collection_name a))" "dget r ''id'' = PStr i"
    "map_of r ''version_id'' = map_of d ''version_id''" "map_of r ''document_id'' = map_of d ''document_id''"
    "\<forall>(k, v) \<in> set metadata. map_of d k = Some v"
proof -
  obtain vector points where q: "vd_query db (collection_name a) vector (search_filter metadata tenant) (nat top_k) s = Inr points"
    "mapR (point_result tenant) points = Inr out"
    using search by (rule dense_search_Inr)
  obtain x where x: "x \<in> set points" "point_result tenant x = Inr r" using mapR_source[OF q(2) r] by blast
  have "\<exists>p \<in> set (view s (collection_name a)). matches (search_filter metadata tenant) (snd p) \<and> s_id x = PStr (fst p) \<and> s_payload x = PDict (snd p)"
    using laws q(1) x(1) unfolding qdrant_laws_def by blast
  then obtain p where p: "p \<in> set (view s (collection_name a))" "matches (search_filter metadata tenant) (snd p)"
    "s_id x = PStr (fst p)" "s_payload x = PDict (snd p)" by blast
  have v: "p \<in> visible tenant (view s (collection_name a))" "\<forall>(k, v) \<in> set metadata. map_of (snd p) k = Some v"
    using p(1,2) by (auto simp: visible_def of_tenant_def matches_def search_filter_def list_all_iff)
  show ?thesis by (rule that[of "fst p" "snd p"]) (use v point_result_Inr[OF x(2)] p(3,4) in simp_all)
qed

text \<open>After a document was reconciled, a search of its tenant finds none of its retired versions: what it finds of the
  document has the active version, and nothing is found once it was deleted. Points without a version
  are legacy ones.\<close>

lemma retired_not_found:
  assumes "qdrant_laws db view" "reconcile_document_version db a tenant document active filename deleted delete_legacy s = (s1, Inr ())"
    and "dense_search embed_query db a query tenant top_k metadata s1 = (s2, Inr out)" "r \<in> set out"
    and "dget r ''document_id'' = PStr document" "dget r ''version_id'' \<notin> {PNone, PList []}"
  shows "\<exists>v. \<not> deleted \<and> active = Some v \<and> dget r ''version_id'' = PStr v"
proof -
  obtain i d where d: "(i, d) \<in> visible tenant (view s1 (collection_name a))"
    "map_of r ''version_id'' = map_of d ''version_id''" "map_of r ''document_id'' = map_of d ''document_id''"
    using found_point[OF assms(1,3,4)] by metis
  have "unmarked (i, d) \<in> unmarked ` {p \<in> set (view s (collection_name a)). of_tenant tenant (snd p) \<and>
      published document active filename deleted delete_legacy tenant p}"
    using imageI[OF d(1), of unmarked] unfolding reconcile_publishes_view[OF assms(1,2)] .
  then obtain p where p: "unmarked (i, d) = unmarked p" "of_tenant tenant (snd p)" "published document active filename deleted delete_legacy tenant p"
    by auto
  have same: "map_of (snd p) k = map_of d k" if "k \<noteq> ''is_active''" for k
    using arg_cong[OF p(1), of "\<lambda>x. map_of (snd x) k"] that by (simp add: unmarked_def map_of_filter_key)
  have "map_of r ''document_id'' = Some (PStr document)" using assms(5) by (simp add: dget_def split: option.splits)
  then have doc: "of_document tenant document (snd p)"
    using p(2) d(3) same[of "''document_id''"] by (simp add: of_document_def of_tenant_def)
  have ver: "map_of (snd p) ''version_id'' = map_of r ''version_id''" using d(2) same[of "''version_id''"] by simp
  then have "versioned (snd p)" using assms(6) by (simp add: versioned_def dget_def)
  then have "\<not> deleted" "active \<noteq> None" "map_of r ''version_id'' = map_option PStr active"
    using p(3) doc ver by (auto simp: published_def split: if_splits)
  then show ?thesis by (auto simp: dget_def)
qed

lemma retired_not_found_witness:
  "\<exists>s1 out r v. reconcile_document_version list_db in_list ''t'' ''d'' (Some ''new'') ''f'' False False two_versions = (s1, Inr ()) \<and>
    dense_search (\<lambda>q. Inr []) list_db in_list ''q'' ''t'' 5 [] s1 = (s1, Inr out) \<and> r \<in> set out \<and> dget r ''version_id'' = PStr v"
proof -
  obtain s1 where s1: "reconcile_document_version list_db in_list ''t'' ''d'' (Some ''new'') ''f'' False False two_versions = (s1, Inr ())"
    "s1 = map (show_if ''t'' ''d'' (Some ''new'')) two_versions"
  proof -
    obtain s1 where r: "reconcile_document_version list_db in_list ''t'' ''d'' (Some ''new'') ''f'' False False two_versions = (s1, Inr ())"
      by (simp add: reconcile_document_version_def set_visibility_def using_client_def in_list_def list_db_def whenS_def bindS_def readS_def retS_def)
    show ?thesis using reconcile_view[OF list_db_laws r] by (intro that[OF r]) (simp add: collection_name_def in_list_def)
  qed
  define r where "r = [(''id'', PStr ''2''), (''text'', PStr ''x''), (''filename'', PStr ''f''), (''page_number'', PInt 1), (''chunk_index'', PInt 0),
    (''tenant_id'', PStr ''t''), (''score'', PFloat (Fin 0)), (''document_id'', PStr ''d''), (''version_id'', PStr ''new'')]"
  have q: "dense_search (\<lambda>q. Inr []) list_db in_list ''q'' ''t'' 5 [] s1 = (s1, Inr [r])"
    unfolding s1(2) r_def by code_simp
  have "\<exists>v. \<not> False \<and> Some ''new'' = Some v \<and> dget r ''version_id'' = PStr v"
    by (rule retired_not_found[OF list_db_laws s1(1) q]) (simp_all add: r_def dget_def)
  then show ?thesis using s1(1) q by auto
qed

section \<open>Chunk identifiers\<close>

lemma digit_char_code: "n < 10 \<Longrightarrow> code (digit_char n) = 48 + n"
  by (simp add: digit_char_def code_def)

lemma digit_char_inj: "m < 10 \<Longrightarrow> n < 10 \<Longrightarrow> digit_char m = digit_char n \<Longrightarrow> m = n"
  by (metis add_left_cancel digit_char_code)

lemma nat_digits_chars: "c \<in> set (nat_digits n) \<Longrightarrow> 48 \<le> code c \<and> code c < 58"
proof (induction n rule: nat_digits.induct)
  case (1 n)
  show ?case
  proof (cases "n < 10")
    case True
    then show ?thesis using "1.prems" by (simp add: nat_digits.simps[of n] digit_char_code)
  next
    case False
    then consider "c \<in> set (nat_digits (n div 10))" | "c = digit_char (n mod 10)"
      using "1.prems" by (auto simp: nat_digits.simps[of n])
    then show ?thesis using "1.IH"[OF False] by cases (simp_all add: digit_char_code)
  qed
qed

lemma nat_digits_not_Nil [simp]: "nat_digits n \<noteq> []" "[] \<noteq> nat_digits n"
  by (simp_all add: nat_digits.simps[of n])

lemma nat_digits_inj: "nat_digits m = nat_digits n \<Longrightarrow> m = n"
proof (induction m arbitrary: n rule: nat_digits.induct)
  case (1 m)
  have l: "last (nat_digits k) = digit_char (k mod 10)" "butlast (nat_digits k) = (if k < 10 then [] else nat_digits (k div 10))" for k
    by (simp_all add: nat_digits.simps[of k])
  have mod: "m mod 10 = n mod 10"
    by (rule digit_char_inj) (use arg_cong[OF "1.prems", of last] l in simp_all)
  have b: "(if m < 10 then [] else nat_digits (m div 10)) = (if n < 10 then [] else nat_digits (n div 10))"
    using arg_cong[OF "1.prems", of butlast] l by simp
  show ?case
  proof (cases "m < 10")
    case True
    then have "n < 10" using b by (auto split: if_splits)
    then show ?thesis using True mod by simp
  next
    case False
    then have "\<not> n < 10" using b by (auto split: if_splits)
    then have "m div 10 = n div 10" using "1.IH"[OF False] b False by simp
    then show ?thesis using mod by (metis div_mult_mod_eq)
  qed
qed

lemma int_digits_inj: "int_digits i = int_digits j \<Longrightarrow> i = j"
proof -
  have no_minus: "nat_digits n \<noteq> CHR ''-'' # xs" for n xs
    using nat_digits_chars[of "CHR ''-''" n] by (auto simp: code_def)
  assume "int_digits i = int_digits j"
  then show ?thesis using nat_digits_inj[of "nat (- i)" "nat (- j)"] nat_digits_inj[of "nat i" "nat j"] no_minus
    by (auto simp: int_digits_def split: if_splits) (metis no_minus)+
qed

lemma int_digits_chars: "CHR '':'' \<notin> set (int_digits i)" "CHR ''-'' \<notin> set (tl (int_digits i))"
proof -
  have n: "CHR '':'' \<notin> set (nat_digits n)" "CHR ''-'' \<notin> set (nat_digits n)" for n
    using nat_digits_chars[of "CHR '':''" n] nat_digits_chars[of "CHR ''-''" n] by (auto simp: code_def)
  show "CHR '':'' \<notin> set (int_digits i)" "CHR ''-'' \<notin> set (tl (int_digits i))"
    using n[of "nat i"] n[of "nat (- i)"] by (auto simp: int_digits_def dest: list.set_sel(2)[OF nat_digits_not_Nil(1)])
qed

lemma split_final: "xs @ c # ys = xs' @ c # ys' \<Longrightarrow> c \<notin> set ys \<Longrightarrow> c \<notin> set ys' \<Longrightarrow> xs = xs' \<and> ys = ys'"
  by (auto simp: append_eq_append_conv2 append_eq_Cons_conv Cons_eq_append_conv)

lemma split_first: "xs @ c # ys = xs' @ c # ys' \<Longrightarrow> c \<notin> set xs \<Longrightarrow> c \<notin> set xs' \<Longrightarrow> xs = xs' \<and> ys = ys'"
  by (auto simp: append_eq_append_conv2 append_eq_Cons_conv Cons_eq_append_conv)

definition version_text :: "string option \<Rightarrow> bool" where
  "version_text v = (case v of None \<Rightarrow> True | Some x \<Rightarrow> CHR '':'' \<notin> set x \<and> CHR ''-'' \<in> set (tl x))"

text \<open>The identity of a chunk determines it: tenants have no colon in their identifiers and versions are UUIDs
  (no colon, and a hyphen inside), so two chunks with the same identity agree in tenant, file, page, index and version.
  File names may hold anything.\<close>

lemma chunk_identity_unique:
  assumes "chunk_identity t f p i v = chunk_identity t' f' p' i' v'"
    and "CHR '':'' \<notin> set t" "CHR '':'' \<notin> set t'" "version_text v" "version_text v'"
  shows "t = t' \<and> f = f' \<and> p = p' \<and> i = i' \<and> v = v'"
proof -
  have 1: "t = t'" and r: "f @ '':'' @ int_digits p @ '':'' @ int_digits i @ (case v of None \<Rightarrow> [] | Some x \<Rightarrow> '':'' @ x) =
      f' @ '':'' @ int_digits p' @ '':'' @ int_digits i' @ (case v' of None \<Rightarrow> [] | Some x \<Rightarrow> '':'' @ x)"
    using split_first[OF _ assms(2,3)] assms(1) unfolding chunk_identity_def append.simps by blast+
  have core: "f = f' \<and> p = p' \<and> i = i'" if "f @ '':'' @ int_digits p @ '':'' @ int_digits i = f' @ '':'' @ int_digits p' @ '':'' @ int_digits i'"
  proof -
    have "(f @ '':'' @ int_digits p) @ CHR '':'' # int_digits i = (f' @ '':'' @ int_digits p') @ CHR '':'' # int_digits i'" using that by simp
    from split_final[OF this int_digits_chars(1) int_digits_chars(1)] have
      a: "f @ CHR '':'' # int_digits p = f' @ CHR '':'' # int_digits p'" "int_digits i = int_digits i'" by simp_all
    from split_final[OF a(1) int_digits_chars(1) int_digits_chars(1)] a(2) show ?thesis using int_digits_inj by blast
  qed
  have mixed: "False" if "X @ CHR '':'' # int_digits k = Y @ CHR '':'' # x" "CHR '':'' \<notin> set x" "CHR ''-'' \<in> set (tl x)" for X Y x k
    using split_final[OF that(1) int_digits_chars(1) that(2)] that(3) int_digits_chars(2) by blast
  have "f = f' \<and> p = p' \<and> i = i' \<and> v = v'"
  proof (cases v)
    case None
    show ?thesis
    proof (cases v')
      case None
      then show ?thesis using core r \<open>v = None\<close> by simp
    next
      case (Some x)
      then show ?thesis using mixed[of "f @ '':'' @ int_digits p" i "f' @ '':'' @ int_digits p' @ '':'' @ int_digits i'" x] r \<open>v = None\<close> assms(5)
        by (simp add: version_text_def)
    qed
  next
    case (Some y)
    show ?thesis
    proof (cases v')
      case None
      then show ?thesis using mixed[of "f' @ '':'' @ int_digits p'" i' "f @ '':'' @ int_digits p @ '':'' @ int_digits i" y] r \<open>v = Some y\<close> assms(4)
        by (simp add: version_text_def)
    next
      case (Some x)
      have "(f @ '':'' @ int_digits p @ '':'' @ int_digits i) @ CHR '':'' # y = (f' @ '':'' @ int_digits p' @ '':'' @ int_digits i') @ CHR '':'' # x"
        using r Some \<open>v = Some y\<close> by simp
      from split_final[OF this] assms(4,5) Some \<open>v = Some y\<close> core show ?thesis by (simp add: version_text_def)
    qed
  qed
  then show ?thesis using 1 by blast
qed

lemma chunk_identity_unique_witness:
  "chunk_identity ''t'' ''a:1'' 2 3 None \<noteq> chunk_identity ''t'' ''a'' 1 2 (Some ''3-4'')"
proof
  assume "chunk_identity ''t'' ''a:1'' 2 3 None = chunk_identity ''t'' ''a'' 1 2 (Some ''3-4'')"
  from chunk_identity_unique[OF this] show False by (simp add: version_text_def)
qed

end
