(* ===== verification/Lexical_Index.thy ===== *)
theory Lexical_Index
  imports Vector_Store Ingestion_Db
begin

text \<open>
  Lexical retrieval (\<open>services/retrieval/bm25_index.py\<close>, \<open>bm25_rebuild_worker.py\<close>, \<open>backfill_index.py\<close>): the
  index over the published chunks of the database, its search, and when it is rebuilt. The scoring of
  \<open>rank_bm25\<close> is an argument: given the tokens of a corpus it yields the scores of all documents for a query.
\<close>

section \<open>The index\<close>

definition alnum :: "char \<Rightarrow> bool" where
  "alnum c = (is_ascii_letter c \<or> is_ascii_digit c)"

fun tokens :: "string \<Rightarrow> string \<Rightarrow> string list" where
  "tokens acc [] = (if acc = [] then [] else [rev acc])"
| "tokens acc (c # s) = (if alnum c then tokens (c # acc) s
     else if acc = [] then tokens [] s else rev acc # tokens [] s)"

definition tokenize :: "string \<Rightarrow> string list" where
  "tokenize s = tokens [] (lower s)"

type_synonym okapi = "string list list \<Rightarrow> (string list \<Rightarrow> rat list) res"

record bm25_index =
  ix_ids :: "string list"
  ix_docs :: "dict list"
  ix_scores :: "(string list \<Rightarrow> rat list) option"

definition empty_index :: bm25_index where
  "empty_index = \<lparr>ix_ids = [], ix_docs = [], ix_scores = None\<rparr>"

definition dstring :: "dict \<Rightarrow> string \<Rightarrow> string res" where
  "dstring d k = bindR (dkey d k) (\<lambda>v. case v of PStr s \<Rightarrow> Inr s | _ \<Rightarrow> Inl AttributeError)"

definition build_index :: "okapi \<Rightarrow> dict list \<Rightarrow> bm25_index res" where
  "build_index okapi ds = bindR (mapR (\<lambda>d. dstring d ''id'') ds) (\<lambda>ids.
     if ds = [] then Inr \<lparr>ix_ids = ids, ix_docs = ds, ix_scores = None\<rparr>
     else bindR (mapR (\<lambda>d. dstring d ''text'') ds) (\<lambda>texts.
       bindR (okapi (map tokenize texts)) (\<lambda>scores. Inr \<lparr>ix_ids = ids, ix_docs = ds, ix_scores = Some scores\<rparr>)))"

text \<open>The tenant always wins over a filter of the caller.\<close>

definition eligible :: "dict \<Rightarrow> string \<Rightarrow> dict \<Rightarrow> bool" where
  "eligible metadata tenant d = list_all (\<lambda>(k, v). dget d k = v) (dset ''tenant_id'' (PStr tenant) metadata)"

definition doc_tokens :: "dict \<Rightarrow> string list" where
  "doc_tokens d = (case dget d ''text'' of PStr s \<Rightarrow> tokenize s | _ \<Rightarrow> [])"

definition hit_key :: "bm25_index \<Rightarrow> rat list \<Rightarrow> nat \<Rightarrow> rat \<times> string" where
  "hit_key ix scores i = (- (scores ! i), ix_ids ix ! i)"

definition is_match :: "bm25_index \<Rightarrow> rat list \<Rightarrow> string list \<Rightarrow> nat \<Rightarrow> bool" where
  "is_match ix scores q i = (scores ! i > 0 \<or> set q \<inter> set (doc_tokens (ix_docs ix ! i)) \<noteq> {})"

definition hit :: "bm25_index \<Rightarrow> rat list \<Rightarrow> nat \<Rightarrow> dict" where
  "hit ix scores i = dset ''score'' (PFloat (Fin (scores ! i))) (ix_docs ix ! i)"

definition ranked :: "bm25_index \<Rightarrow> rat list \<Rightarrow> dict \<Rightarrow> string \<Rightarrow> nat list" where
  "ranked ix scores metadata tenant =
     sort_key (hit_key ix scores) (filter (\<lambda>i. eligible metadata tenant (ix_docs ix ! i)) [0..<length (ix_docs ix)])"

definition search_index :: "bm25_index \<Rightarrow> string \<Rightarrow> string \<Rightarrow> int \<Rightarrow> dict \<Rightarrow> dict list res" where
  "search_index ix query tenant top_k metadata =
     (if top_k \<le> 0 then Inl ValueError
      else if strip tenant = [] then Inl ValueError
      else (case ix_scores ix of None \<Rightarrow> Inr []
        | Some score \<Rightarrow>
            if strip query = [] then Inr []
            else (let q = tokenize query; scores = score q in
              if length scores < length (ix_docs ix) then Inl IndexError
              else Inr (map (hit ix scores) (filter (is_match ix scores q)
                  (take (nat top_k) (ranked ix scores metadata tenant)))))))"

section \<open>Rebuilding\<close>

record corpus_row =
  r_tenant :: string
  r_filename :: string
  r_page :: int
  r_index :: int
  r_text :: string
  r_version :: "string option"

text \<open>The rows of the query: chunks without a version, and those of active versions.\<close>

definition row_key :: "corpus_row \<Rightarrow> string \<times> string \<times> int \<times> int \<times> bool \<times> string" where
  "row_key r = (r_tenant r, r_filename r, r_page r, r_index r, r_version r = None, case r_version r of None \<Rightarrow> [] | Some v \<Rightarrow> v)"

definition corpus_rows :: "db \<Rightarrow> corpus_row list" where
  "corpus_rows s = sort_key row_key
     (map (\<lambda>l. \<lparr>r_tenant = l_tenant l, r_filename = l_filename l, r_page = l_page l, r_index = l_index l,
        r_text = l_text l, r_version = None\<rparr>) (filter (\<lambda>l. l_version l = None) (legacy s)) @
      concat (map (\<lambda>c. map (\<lambda>v. \<lparr>r_tenant = c_tenant c, r_filename = c_filename c, r_page = c_page c, r_index = c_index c,
        r_text = c_text c, r_version = Some (c_version c)\<rparr>)
        (filter (\<lambda>v. ver_key (c_version c) (c_doc c) (c_tenant c) v \<and> v_status v = VActive) (vers s))) (vchunks s)))"

definition row_doc :: "(string \<Rightarrow> string) \<Rightarrow> corpus_row \<Rightarrow> dict" where
  "row_doc uuid5 r = [(''id'', PStr (make_chunk_id uuid5 (r_tenant r) (r_filename r) (r_page r) (r_index r) (r_version r))),
     (''text'', PStr (r_text r)), (''filename'', PStr (r_filename r)), (''page_number'', PInt (r_page r)),
     (''chunk_index'', PInt (r_index r)), (''tenant_id'', PStr (r_tenant r)),
     (''version_id'', case r_version r of None \<Rightarrow> PNone | Some v \<Rightarrow> PStr v)]"

text \<open>The files of the index: the index with its modification time, the time of the last rebuild, and the dirty mark.\<close>

record index_files =
  f_index :: "(bm25_index \<times> nat) option"
  f_rebuilt :: "rat option"
  f_dirty :: bool

definition last_rebuild_at :: "index_files \<Rightarrow> rat" where
  "last_rebuild_at f = (case f_rebuilt f of None \<Rightarrow> 0 | Some t \<Rightarrow> t)"

definition record_rebuild :: "rat \<Rightarrow> index_files \<Rightarrow> index_files" where
  "record_rebuild now f = f\<lparr>f_rebuilt := Some now, f_dirty := False\<rparr>"

definition mark_dirty :: "index_files \<Rightarrow> index_files" where
  "mark_dirty f = f\<lparr>f_dirty := True\<rparr>"

definition save_index :: "bm25_index \<Rightarrow> nat \<Rightarrow> index_files \<Rightarrow> index_files" where
  "save_index ix mtime f = f\<lparr>f_index := Some (ix, mtime)\<rparr>"

definition rebuild_from :: "okapi \<Rightarrow> (string \<Rightarrow> string) \<Rightarrow> rat \<Rightarrow> nat \<Rightarrow> corpus_row list \<Rightarrow> (index_files, bm25_index) st" where
  "rebuild_from okapi uuid5 now mtime rows = bindS (liftS (build_index okapi (map (row_doc uuid5) rows))) (\<lambda>ix f.
     (record_rebuild now (save_index ix mtime f), Inr ix))"

definition rebuild_now :: "okapi \<Rightarrow> (string \<Rightarrow> string) \<Rightarrow> rat \<Rightarrow> nat \<Rightarrow> db \<Rightarrow> (index_files, bm25_index) st" where
  "rebuild_now okapi uuid5 now mtime s = rebuild_from okapi uuid5 now mtime (corpus_rows s)"

definition debounced :: "rat \<Rightarrow> bool \<Rightarrow> rat \<Rightarrow> index_files \<Rightarrow> bool" where
  "debounced min_interval force now f = (\<not> force \<and> now - last_rebuild_at f < min_interval)"

definition rebuild_index_from_postgres ::
  "okapi \<Rightarrow> (string \<Rightarrow> string) \<Rightarrow> rat \<Rightarrow> bool \<Rightarrow> rat \<Rightarrow> nat \<Rightarrow> db \<Rightarrow> (index_files, bm25_index option) st" where
  "rebuild_index_from_postgres okapi uuid5 min_interval force now mtime s = (\<lambda>f.
     if debounced min_interval force now f then (mark_dirty f, Inr None)
     else bindS (rebuild_now okapi uuid5 now mtime s) (\<lambda>ix. retS (Some ix)) f)"

definition flush_if_dirty :: "okapi \<Rightarrow> (string \<Rightarrow> string) \<Rightarrow> rat \<Rightarrow> nat \<Rightarrow> db \<Rightarrow> (index_files, bm25_index option) st" where
  "flush_if_dirty okapi uuid5 now mtime s = (\<lambda>f.
     if f_dirty f then bindS (rebuild_now okapi uuid5 now mtime s) (\<lambda>ix. retS (Some ix)) f else (f, Inr None))"

text \<open>One round of the worker: an error ends the worker, so it is passed on.\<close>

definition run_once :: "okapi \<Rightarrow> (string \<Rightarrow> string) \<Rightarrow> rat \<Rightarrow> nat \<Rightarrow> db \<Rightarrow> (index_files, unit) st" where
  "run_once okapi uuid5 now mtime s = bindS (flush_if_dirty okapi uuid5 now mtime s) (\<lambda>x. retS ())"

text \<open>The backfill of the vector store with the legacy chunks.\<close>

definition backfill_chunks :: "(string \<Rightarrow> string) \<Rightarrow> db \<Rightarrow> chunk list" where
  "backfill_chunks uuid5 s = map (\<lambda>l. \<lparr>ch_id = make_chunk_id uuid5 (l_tenant l) (l_filename l) (l_page l) (l_index l) None,
       ch_text = l_text l, ch_filename = l_filename l, ch_page = l_page l, ch_index = l_index l, ch_tenant = l_tenant l,
       ch_document = None, ch_version = None\<rparr>)
     (sort_key (\<lambda>l. (l_tenant l, l_filename l, l_page l, l_index l)) (legacy s))"

definition backfill ::
  "(string list \<Rightarrow> rat list list res) \<Rightarrow> 's vector_db \<Rightarrow> client_args \<Rightarrow> okapi \<Rightarrow> (string \<Rightarrow> string) \<Rightarrow> rat \<Rightarrow> rat \<Rightarrow> nat \<Rightarrow> db \<Rightarrow>
     's \<times> index_files \<Rightarrow> ('s \<times> index_files) \<times> unit res" where
  "backfill embed_texts vdb a okapi uuid5 min_interval now mtime s = (\<lambda>(v, f).
     case index_chunks embed_texts vdb a (backfill_chunks uuid5 s) v of
       (v', Inl e) \<Rightarrow> ((v', f), Inl e)
     | (v', Inr _) \<Rightarrow> (case rebuild_index_from_postgres okapi uuid5 min_interval True now mtime s f of
         (f', r) \<Rightarrow> ((v', f'), bindR r (\<lambda>_. Inr ()))))"


section \<open>What a search returns\<close>

lemma ranked_set [simp]: "set (ranked ix scores metadata tenant) = {i. i < length (ix_docs ix) \<and> eligible metadata tenant (ix_docs ix ! i)}"
  by (auto simp: ranked_def)

lemma ranked_distinct [simp]: "distinct (ranked ix scores metadata tenant)"
  by (simp add: ranked_def distinct_map)

lemma ranked_sorted: "sorted (map (hit_key ix scores) (ranked ix scores metadata tenant))"
  unfolding ranked_def by (rule sorted_sort_key)

lemma eligible_tenant: "eligible metadata tenant d \<Longrightarrow> dget d ''tenant_id'' = PStr tenant"
proof -
  assume e: "eligible metadata tenant d"
  have "map_of (dset ''tenant_id'' (PStr tenant) metadata) ''tenant_id'' = Some (PStr tenant)" by simp
  from map_of_SomeD[OF this] e show ?thesis unfolding eligible_def list_all_iff by fastforce
qed

lemma search_index_Inr:
  assumes "search_index ix query tenant top_k metadata = Inr out"
  shows "0 < top_k" "out = [] \<or> (\<exists>score. ix_scores ix = Some score \<and>
     length (ix_docs ix) \<le> length (score (tokenize query)) \<and>
     out = map (hit ix (score (tokenize query))) (filter (is_match ix (score (tokenize query)) (tokenize query))
       (take (nat top_k) (ranked ix (score (tokenize query)) metadata tenant))))"
  using assms by (auto simp: search_index_def Let_def split: if_splits option.splits)

lemma ranked_length_le: "length (filter P (take n xs)) \<le> n"
  by (rule order_trans[OF length_filter_le]) simp

lemma search_index_hits:
  assumes "search_index ix query tenant top_k metadata = Inr out"
  shows "length out \<le> nat top_k" "\<And>h. h \<in> set out \<Longrightarrow> \<exists>d \<in> set (ix_docs ix). eligible metadata tenant d \<and> (\<exists>x. h = dset ''score'' x d)"
proof -
  show "length out \<le> nat top_k"
    using search_index_Inr(2)[OF assms] by (auto simp: ranked_length_le)
  fix h assume "h \<in> set out"
  with search_index_Inr(2)[OF assms] obtain score i where i: "h = hit ix score i"
      "i \<in> set (take (nat top_k) (ranked ix score metadata tenant))" by auto
  from set_take_subset[of "nat top_k" "ranked ix score metadata tenant"] i(2)
  have "i < length (ix_docs ix)" "eligible metadata tenant (ix_docs ix ! i)" by auto
  then show "\<exists>d \<in> set (ix_docs ix). eligible metadata tenant d \<and> (\<exists>x. h = dset ''score'' x d)"
    unfolding i(1) hit_def by (auto intro!: bexI[OF _ nth_mem])
qed

lemma search_index_tenant:
  assumes "search_index ix query tenant top_k metadata = Inr out" "h \<in> set out"
  shows "dget h ''tenant_id'' = PStr tenant"
  using search_index_hits(2)[OF assms] by (auto dest: eligible_tenant)

lemma filter_take_rest:
  assumes "distinct xs" "i \<in> set xs" "i \<notin> set (take n xs)" "sorted (map f xs)"
  shows "n < length xs" "\<forall>j \<in> set (take n xs). f j \<le> (f i :: 'b::linorder)"
proof -
  from assms(2) obtain m where m: "m < length xs" "xs ! m = i" by (auto simp: in_set_conv_nth)
  have "\<not> m < n" using assms(3) m by (auto simp: in_set_conv_nth)
  then show "n < length xs" using m by simp
  show "\<forall>j \<in> set (take n xs). f j \<le> f i"
  proof
    fix j assume "j \<in> set (take n xs)"
    then obtain k where "k < n" "k < length xs" "j = xs ! k" by (auto simp: in_set_conv_nth)
    then show "f j \<le> f i" using assms(4) m \<open>\<not> m < n\<close> sorted_nth_mono[of "map f xs" k m] by auto
  qed
qed

definition wanted :: "bm25_index \<Rightarrow> dict \<Rightarrow> string \<Rightarrow> nat \<Rightarrow> bool" where
  "wanted ix metadata tenant i = (i < length (ix_docs ix) \<and> eligible metadata tenant (ix_docs ix ! i))"

text \<open>a successful search with a query yields at most \<open>top_k\<close> hits, best first, each the copy
  with its score of a document of the tenant that satisfies the filter and matches the query. A document of that
  kind that is left out is beaten by \<open>top_k\<close> eligible documents, all at least as good.\<close>

lemma lexical_search_exact:
  assumes "search_index ix query tenant top_k metadata = Inr out" "ix_scores ix = Some score" "strip query \<noteq> []"
    and scores: "scores = score (tokenize query)"
  shows "\<exists>hits. out = map (hit ix scores) hits \<and> length hits \<le> nat top_k \<and> distinct hits \<and> sorted (map (hit_key ix scores) hits) \<and>
       (\<forall>i \<in> set hits. wanted ix metadata tenant i \<and> dget (ix_docs ix ! i) ''tenant_id'' = PStr tenant \<and>
         is_match ix scores (tokenize query) i) \<and>
       (\<forall>i. wanted ix metadata tenant i \<and> is_match ix scores (tokenize query) i \<and> i \<notin> set hits \<longrightarrow>
         (\<exists>js. length js = nat top_k \<and> distinct js \<and>
            (\<forall>j \<in> set js. wanted ix metadata tenant j \<and> hit_key ix scores j \<le> hit_key ix scores i)))"
proof -
  define rs where "rs = ranked ix scores metadata tenant"
  define hits where "hits = filter (is_match ix scores (tokenize query)) (take (nat top_k) rs)"
  have rs: "set rs = {i. wanted ix metadata tenant i}" "distinct rs" "sorted (map (hit_key ix scores) rs)"
    by (simp_all add: rs_def wanted_def ranked_sorted)
  have sub: "set (take (nat top_k) rs) \<subseteq> {i. wanted ix metadata tenant i}"
    using set_take_subset[of "nat top_k" rs] rs(1) by simp
  show ?thesis
  proof (rule exI[of _ hits], intro conjI allI ballI impI)
    show "out = map (hit ix scores) hits"
      using assms by (simp add: search_index_def Let_def hits_def rs_def split: if_splits)
    show "length hits \<le> nat top_k" unfolding hits_def by (rule ranked_length_le)
    show "distinct hits" using rs(2) by (simp add: hits_def)
    have "sorted (map (hit_key ix scores) (take (nat top_k) rs))" using sorted_wrt_take[OF rs(3)] by (simp add: take_map)
    then show "sorted (map (hit_key ix scores) hits)" unfolding hits_def by (rule sorted_filter)
  next
    fix i assume "i \<in> set hits"
    then show "wanted ix metadata tenant i" "is_match ix scores (tokenize query) i" using sub by (auto simp: hits_def)
    then show "dget (ix_docs ix ! i) ''tenant_id'' = PStr tenant" by (auto simp: wanted_def dest: eligible_tenant)
  next
    fix i assume i: "wanted ix metadata tenant i \<and> is_match ix scores (tokenize query) i \<and> i \<notin> set hits"
    then have "i \<in> set rs" "i \<notin> set (take (nat top_k) rs)" using rs(1) by (auto simp: hits_def)
    note r = filter_take_rest[OF rs(2) this rs(3)]
    show "\<exists>js. length js = nat top_k \<and> distinct js \<and>
        (\<forall>j \<in> set js. wanted ix metadata tenant j \<and> hit_key ix scores j \<le> hit_key ix scores i)"
      using r sub rs(2) by (intro exI[of _ "take (nat top_k) rs"]) auto
  qed
qed

lemma lexical_search_exact_witness:
  "\<exists>hits. [[(''text'', PStr ''x y''), (''tenant_id'', PStr ''t''), (''score'', PFloat (Fin 1))]] =
       map (hit \<lparr>ix_ids = [''a'', ''b''], ix_docs = [[(''text'', PStr ''x y''), (''tenant_id'', PStr ''t'')],
        [(''text'', PStr ''x''), (''tenant_id'', PStr ''u'')]], ix_scores = Some (\<lambda>q. [1, 0])\<rparr> [1, 0]) hits"
proof -
  let ?ix = "\<lparr>ix_ids = [''a'', ''b''], ix_docs = [[(''text'', PStr ''x y''), (''tenant_id'', PStr ''t'')],
        [(''text'', PStr ''x''), (''tenant_id'', PStr ''u'')]], ix_scores = Some (\<lambda>q. [1, 0 :: rat])\<rparr>"
  have ne: "strip ''x'' \<noteq> []" "strip ''t'' \<noteq> []" by code_simp+
  have r: "ranked ?ix [1, 0] [] ''t'' = [0]"
    by (simp add: ranked_def eligible_def dset_def dget_def upt_rec)
  have "search_index ?ix ''x'' ''t'' 2 [] = Inr [[(''text'', PStr ''x y''), (''tenant_id'', PStr ''t''), (''score'', PFloat (Fin 1))]]"
    by (simp add: search_index_def Let_def ne r hit_def is_match_def dset_def)
  moreover have "ix_scores ?ix = Some (\<lambda>q. [1, 0])" by simp
  ultimately obtain hits where "[[(''text'', PStr ''x y''), (''tenant_id'', PStr ''t''), (''score'', PFloat (Fin 1))]] = map (hit ?ix [1, 0]) hits"
    by (elim exE[OF lexical_search_exact[OF _ _ ne(1) refl]] conjE) blast
  then show ?thesis by (rule exI)
qed

section \<open>Freshness of the index\<close>

text \<open>
  The world of the rebuilds: the database, the files of the index, and whether a commit to the database has not been
  followed yet by the request for a rebuild that every ingestion makes. The clock, the modification time and the
  interval are those of the run; a failing rebuild leaves the files as the operation left them.
\<close>

record lex_world =
  w_db :: db
  w_files :: index_files
  w_owed :: bool

inductive lex_step :: "okapi \<Rightarrow> (string \<Rightarrow> string) \<Rightarrow> rat \<Rightarrow> lex_world \<Rightarrow> lex_world \<Rightarrow> bool"
  for okapi uuid5 min_interval where
  commit: "lex_step okapi uuid5 min_interval w (w\<lparr>w_db := s, w_owed := True\<rparr>)"
| request: "rebuild_index_from_postgres okapi uuid5 min_interval force now mtime (w_db w) (w_files w) = (f, Inr r) \<Longrightarrow>
    lex_step okapi uuid5 min_interval w (w\<lparr>w_files := f, w_owed := False\<rparr>)"
| request_fails: "rebuild_index_from_postgres okapi uuid5 min_interval force now mtime (w_db w) (w_files w) = (f, Inl e) \<Longrightarrow>
    lex_step okapi uuid5 min_interval w (w\<lparr>w_files := f\<rparr>)"
| flush: "flush_if_dirty okapi uuid5 now mtime (w_db w) (w_files w) = (f, r) \<Longrightarrow>
    lex_step okapi uuid5 min_interval w (w\<lparr>w_files := f\<rparr>)"

inductive lex_reach :: "okapi \<Rightarrow> (string \<Rightarrow> string) \<Rightarrow> rat \<Rightarrow> lex_world \<Rightarrow> bool"
  for okapi uuid5 min_interval where
  start: "w_owed w \<Longrightarrow> lex_reach okapi uuid5 min_interval w"
| step: "lex_reach okapi uuid5 min_interval w \<Longrightarrow> lex_step okapi uuid5 min_interval w w' \<Longrightarrow> lex_reach okapi uuid5 min_interval w'"

definition current :: "okapi \<Rightarrow> (string \<Rightarrow> string) \<Rightarrow> db \<Rightarrow> index_files \<Rightarrow> bool" where
  "current okapi uuid5 s f = (case f_index f of None \<Rightarrow> False
     | Some (ix, m) \<Rightarrow> build_index okapi (map (row_doc uuid5) (corpus_rows s)) = Inr ix)"

lemma rebuild_from_result:
  "rebuild_from okapi uuid5 now mtime rows f = (f', r) \<Longrightarrow>
   (case build_index okapi (map (row_doc uuid5) rows) of Inl e \<Rightarrow> f' = f \<and> r = Inl e
    | Inr ix \<Rightarrow> f' = record_rebuild now (save_index ix mtime f) \<and> r = Inr ix)"
  by (auto simp: rebuild_from_def bindS_def liftS_def split: sum.splits)

lemma rebuild_now_current:
  assumes "rebuild_now okapi uuid5 now mtime s f = (f', r)"
  shows "(\<exists>e. r = Inl e \<and> f' = f) \<or> (\<exists>ix. r = Inr ix \<and> current okapi uuid5 s f' \<and> \<not> f_dirty f')"
  using rebuild_from_result[OF assms[unfolded rebuild_now_def]]
  by (auto simp: current_def record_rebuild_def save_index_def split: sum.splits)

lemma rebuild_request_result:
  assumes "rebuild_index_from_postgres okapi uuid5 min_interval force now mtime s f = (f', r)"
  shows "(\<exists>e. r = Inl e \<and> f' = f) \<or> (f' = mark_dirty f \<and> r = Inr None \<and> \<not> force) \<or>
     (\<exists>ix. r = Inr (Some ix) \<and> current okapi uuid5 s f' \<and> \<not> f_dirty f')"
proof (cases "debounced min_interval force now f")
  case True
  then show ?thesis using assms by (auto simp: rebuild_index_from_postgres_def debounced_def)
next
  case False
  obtain f1 r1 where r1: "rebuild_now okapi uuid5 now mtime s f = (f1, r1)" by force
  show ?thesis using assms rebuild_now_current[OF r1] False r1
    by (auto simp: rebuild_index_from_postgres_def bindS_def retS_def)
qed

lemma flush_result:
  assumes "flush_if_dirty okapi uuid5 now mtime s f = (f', r)"
  shows "(\<exists>e. r = Inl e \<and> f' = f) \<or> (f' = f \<and> r = Inr None \<and> \<not> f_dirty f) \<or>
     (\<exists>ix. r = Inr (Some ix) \<and> current okapi uuid5 s f' \<and> \<not> f_dirty f')"
proof (cases "f_dirty f")
  case True
  obtain f1 r1 where r1: "rebuild_now okapi uuid5 now mtime s f = (f1, r1)" by force
  show ?thesis using assms rebuild_now_current[OF r1] True r1 by (auto simp: flush_if_dirty_def bindS_def retS_def)
next
  case False
  then show ?thesis using assms by (auto simp: flush_if_dirty_def)
qed

definition fresh :: "okapi \<Rightarrow> (string \<Rightarrow> string) \<Rightarrow> lex_world \<Rightarrow> bool" where
  "fresh okapi uuid5 w = (w_owed w \<or> f_dirty (w_files w) \<or> current okapi uuid5 (w_db w) (w_files w))"

lemma fresh_step:
  assumes "lex_step okapi uuid5 min_interval w w'" "fresh okapi uuid5 w"
  shows "fresh okapi uuid5 w'"
  using assms(1)
proof cases
  case (commit s) then show ?thesis by (simp add: fresh_def)
next
  case (request force now mtime f r)
  then show ?thesis using rebuild_request_result[OF request(2)] by (auto simp: fresh_def mark_dirty_def)
next
  case (request_fails force now mtime f e)
  then show ?thesis using assms(2) rebuild_request_result[OF request_fails(2)] by (auto simp: fresh_def)
next
  case (flush now mtime f r)
  then show ?thesis using assms(2) flush_result[OF flush(2)] by (auto simp: fresh_def)
qed

lemma lexical_freshness_facts:
  assumes "lex_reach okapi uuid5 min_interval w" "\<not> w_owed w"
    and "run_once okapi uuid5 now mtime (w_db w) (w_files w) = (f, Inr ())"
  shows "\<not> f_dirty f" "\<exists>ix m. f_index f = Some (ix, m) \<and> build_index okapi (map (row_doc uuid5) (corpus_rows (w_db w))) = Inr ix"
proof -
  have "fresh okapi uuid5 w" using assms(1)
  proof induction
    case (start w) then show ?case by (simp add: fresh_def)
  next
    case (step w w') then show ?case using fresh_step by blast
  qed
  moreover obtain f1 r1 where r1: "flush_if_dirty okapi uuid5 now mtime (w_db w) (w_files w) = (f1, r1)" by force
  ultimately have "\<not> f_dirty f \<and> current okapi uuid5 (w_db w) f"
    using assms(2,3) flush_result[OF r1] by (auto simp: fresh_def run_once_def bindS_def r1 retS_def)
  then show "\<not> f_dirty f" "\<exists>ix m. f_index f = Some (ix, m) \<and> build_index okapi (map (row_doc uuid5) (corpus_rows (w_db w))) = Inr ix"
    by (auto simp: current_def split: option.splits)
qed



text \<open>The invariant needs the operations to run one after another: a rebuild that read its rows before a commit and
  ends after the debounced request of that commit removes the mark, so the next flush skips.\<close>

lemma late_rebuild_unmarks:
  assumes "debounced min_interval False now f" "build_index okapi (map (row_doc uuid5) rows) = Inr ix"
  shows "\<exists>f1. rebuild_index_from_postgres okapi uuid5 min_interval False now mtime s f = (f1, Inr None) \<and> f_dirty f1 \<and>
     (\<exists>f2. rebuild_from okapi uuid5 now' mtime' rows f1 = (f2, Inr ix) \<and>
        flush_if_dirty okapi uuid5 now'' mtime'' s f2 = (f2, Inr None) \<and> f_index f2 = Some (ix, mtime'))"
  using assms by (simp add: rebuild_index_from_postgres_def rebuild_from_def flush_if_dirty_def mark_dirty_def
      record_rebuild_def save_index_def bindS_def liftS_def)

end
