(* ===== verification/Retrieval.thy ===== *)
theory Retrieval
  imports Lexical_Index
begin

text \<open>
  The retrieval pipeline (\<open>services/retrieval/pipeline.py\<close>): the cached lexical index, the two searches, fusion,
  reranking and diversification, with the fallback of every optional stage. The models are arguments
  (\<open>embeddings.py\<close>, \<open>model_runtime.py\<close>); the weight \<open>0.7\<close> of the relevance is the exact rational.
\<close>

section \<open>The cached index\<close>

type_synonym index_cache = "(bm25_index \<times> nat option) option"

definition get_bm25_index :: "index_files \<Rightarrow> (index_cache, bm25_index) st" where
  "get_bm25_index f = (\<lambda>c.
     let mtime = map_option snd (f_index f);
         cached_mtime = (case c of None \<Rightarrow> None | Some (ix, m) \<Rightarrow> m) in
     case c of
       Some (ix, m) \<Rightarrow>
         (if mtime = cached_mtime then (c, Inr ix)
          else (case f_index f of None \<Rightarrow> (c, Inl RuntimeError) | Some (ix', _) \<Rightarrow> (Some (ix', mtime), Inr ix')))
     | None \<Rightarrow> (case f_index f of None \<Rightarrow> (c, Inl RuntimeError) | Some (ix', _) \<Rightarrow> (Some (ix', mtime), Inr ix')))"

section \<open>The models\<close>

record model_runtime =
  m_embed_query :: "string \<Rightarrow> rat list res"
  m_predict :: "string \<Rightarrow> pyval list \<Rightarrow> rat list res"

text \<open>The models of the process, the query embedding a vector store is configured with, the embedding of passages, and the
  models chosen by the application, if any.\<close>

record models =
  default_models :: model_runtime
  store_embed_query :: "string \<Rightarrow> rat list res"
  embed_passages :: "pyval list \<Rightarrow> rat list list res"
  chosen_models :: "model_runtime option"

definition active_models :: "models \<Rightarrow> model_runtime" where
  "active_models m = (case chosen_models m of None \<Rightarrow> default_models m | Some r \<Rightarrow> r)"

definition dense_embedding :: "models \<Rightarrow> client_args \<Rightarrow> string \<Rightarrow> rat list res" where
  "dense_embedding m ca = (case chosen_models m of
       Some r \<Rightarrow> m_embed_query r
     | None \<Rightarrow> if cl_store ca \<noteq> None then store_embed_query m else m_embed_query (default_models m))"

section \<open>The stages\<close>

record retrieve_args =
  top_k :: int
  pool_size :: int
  use_bm25 :: bool
  use_rerank :: bool
  use_mmr :: bool
  metadata_filter :: dict

definition lexical_stage :: "index_files \<Rightarrow> string \<Rightarrow> string \<Rightarrow> retrieve_args \<Rightarrow> (index_cache, dict list) st" where
  "lexical_stage f query tenant a = (\<lambda>c.
     case bindS (get_bm25_index f) (\<lambda>ix. liftS (search_index ix query tenant (pool_size a) (metadata_filter a))) c of
       (c', Inr ds) \<Rightarrow> (c', Inr ds)
     | (c', Inl e) \<Rightarrow> (c', Inr []))"

definition fuse :: "(pyfloat \<Rightarrow> string) \<Rightarrow> dict list \<Rightarrow> dict list \<Rightarrow> dict list res" where
  "fuse fl dense lexical =
     (if dense \<noteq> [] \<and> lexical \<noteq> [] then reciprocal_rank_fusion fl [dense, lexical] 60 ''id''
      else if dense \<noteq> [] then Inr dense else Inr lexical)"

definition rerank_stage :: "models \<Rightarrow> string \<Rightarrow> retrieve_args \<Rightarrow> dict list \<Rightarrow> dict list res" where
  "rerank_stage m query a fused =
     (if use_rerank a \<and> fused \<noteq> [] then
        (case rerank (m_predict (active_models m)) query fused (nat (min (pool_size a) (int (length fused)))) of
           (_, Inr reranked) \<Rightarrow> Inr reranked
         | (fused', Inl e) \<Rightarrow> if e = ModelInferenceRejected then Inl e else Inr (take (nat (pool_size a)) fused'))
      else Inr (take (nat (pool_size a)) fused))"

definition mmr_stage :: "models \<Rightarrow> string \<Rightarrow> retrieve_args \<Rightarrow> dict list \<Rightarrow> dict list res" where
  "mmr_stage m query a reranked =
     (if use_mmr a \<and> reranked \<noteq> [] then
        (case bindR (m_embed_query (active_models m) query) (\<lambda>q. mmr_select (embed_passages m) q reranked (top_k a) (7 / 10)) of
           Inr final \<Rightarrow> Inr final
         | Inl e \<Rightarrow> if e = ModelInferenceRejected then Inl e else Inr (take (nat (top_k a)) reranked))
      else Inr (take (nat (top_k a)) reranked))"

text \<open>The state of a call: the vector store, which a search only reads, and the cached index.\<close>

definition on_store :: "('s, 'a) st \<Rightarrow> ('s \<times> 'c, 'a) st" where
  "on_store m = (\<lambda>(s, c). case m s of (s', r) \<Rightarrow> ((s', c), r))"

definition on_cache :: "('c, 'a) st \<Rightarrow> ('s \<times> 'c, 'a) st" where
  "on_cache m = (\<lambda>(s, c). case m c of (c', r) \<Rightarrow> ((s, c'), r))"

definition request_guard :: "string \<Rightarrow> string \<Rightarrow> retrieve_args \<Rightarrow> bool" where
  "request_guard query tenant a = (strip query \<noteq> [] \<and> strip tenant \<noteq> [] \<and> 0 < top_k a \<and> top_k a \<le> pool_size a)"

definition retrieve ::
  "(pyfloat \<Rightarrow> string) \<Rightarrow> models \<Rightarrow> 's vector_db \<Rightarrow> client_args \<Rightarrow> index_files \<Rightarrow> string \<Rightarrow> string \<Rightarrow> retrieve_args \<Rightarrow>
     ('s \<times> index_cache, dict list) st" where
  "retrieve fl m db ca f query tenant a =
     (if \<not> request_guard query tenant a then failS ValueError
      else bindS (on_store (dense_search (dense_embedding m ca) db ca query tenant (pool_size a) (metadata_filter a))) (\<lambda>dense.
        bindS (if use_bm25 a then bindS (on_cache (lexical_stage f query tenant a)) (\<lambda>lexical. liftS (fuse fl dense lexical))
               else retS dense) (\<lambda>fused.
          liftS (bindR (rerank_stage m query a fused) (mmr_stage m query a)))))"

section \<open>The contract of a search\<close>

text \<open>What the pipeline relies on: a search that succeeds was asked for something, and finds results of the tenant only.\<close>

locale scoped_source =
  fixes search :: "string \<Rightarrow> string \<Rightarrow> int \<Rightarrow> dict \<Rightarrow> dict list res"
  assumes guarded: "search query tenant k metadata = Inr out \<Longrightarrow> 0 < k \<and> strip tenant \<noteq> []"
    and scoped: "search query tenant k metadata = Inr out \<Longrightarrow> r \<in> set out \<Longrightarrow> dget r ''tenant_id'' = PStr tenant"
begin

lemma blank_tenant: "strip tenant = [] \<Longrightarrow> \<exists>e. search query tenant k metadata = Inl e"
  using guarded by (cases "search query tenant k metadata") auto

lemma other_tenant_hidden:
  "search query tenant k metadata = Inr out \<Longrightarrow> dget r ''tenant_id'' = PStr other \<Longrightarrow> other \<noteq> tenant \<Longrightarrow> r \<notin> set out"
  using scoped by fastforce

end

interpretation lexical: scoped_source "search_index ix" for ix
proof
  fix query tenant k metadata out assume s: "search_index ix query tenant k metadata = Inr out"
  then show "0 < k \<and> strip tenant \<noteq> []" by (auto simp: search_index_def split: if_splits)
  fix r assume "r \<in> set out"
  with s show "dget r ''tenant_id'' = PStr tenant" by (rule search_index_tenant)
qed

interpretation dense: scoped_source "\<lambda>query tenant k metadata. snd (dense_search e db ca query tenant k metadata s)" for e db ca s
proof
  fix query tenant k metadata out assume "snd (dense_search e db ca query tenant k metadata s) = Inr out"
  then obtain s' where s': "dense_search e db ca query tenant k metadata s = (s', Inr out)" by (metis prod.collapse)
  then show "0 < k \<and> strip tenant \<noteq> []" by (auto simp: dense_search_def split: if_splits)
  fix r assume "r \<in> set out"
  with dense_search_tenant[OF s'] show "dget r ''tenant_id'' = PStr tenant" by blast
qed

section \<open>What the stages keep\<close>

text \<open>A property of results that the stages do not touch: they only add the two scores.\<close>

locale kept_by_scores =
  fixes P :: "dict \<Rightarrow> bool"
  assumes rrf: "P d \<Longrightarrow> P (dset ''rrf_score'' x d)"
    and rerank: "P d \<Longrightarrow> P (dset ''rerank_score'' x d)"
begin

lemma fusion_keeps:
  assumes "reciprocal_rank_fusion fl ls k id_key = Inr out" "\<And>l d. l \<in> set ls \<Longrightarrow> d \<in> set l \<Longrightarrow> P d" "r \<in> set out"
  shows "P r"
proof -
  have e: "rrf_table_of fl id_key k [] = []" by (simp add: rrf_table_of_def firsts_def)
  have t: "rrf_lists fl id_key k ls [] = Inr (rrf_table_of fl id_key k (all_ranked ls))" and
    out: "out = sort_key (rrf_key fl id_key) (map rrf_entry (rrf_table_of fl id_key k (all_ranked ls)))"
    using assms(1) rrf_lists_table[of fl id_key k ls "[]", unfolded e] by (auto simp: reciprocal_rank_fusion_def split: if_splits)
  from assms(3) out obtain q where q: "q \<in> set (all_ranked ls)"
      "r = rrf_entry (id_text fl id_key (snd q), rrf_score fl id_key k (all_ranked ls) (id_text fl id_key (snd q)),
        first_with fl id_key (all_ranked ls) (id_text fl id_key (snd q)))"
    by (auto simp: rrf_table_of_def)
  have "find (\<lambda>p. id_text fl id_key (snd p) = id_text fl id_key (snd q)) (all_ranked ls) \<noteq> None"
    using q(1) unfolding find_None_iff by blast
  then obtain p where p: "find (\<lambda>p. id_text fl id_key (snd p) = id_text fl id_key (snd q)) (all_ranked ls) = Some p" by blast
  then have "p \<in> set (all_ranked ls)" by (auto simp: find_Some_iff)
  then obtain l where l: "l \<in> set ls" "p \<in> set (enumerate 1 l)" by (auto simp: all_ranked_def)
  then have "snd p \<in> set l" using set_map[of snd "enumerate 1 l"] by (auto simp del: set_map)
  with l(1) have "P (snd p)" by (rule assms(2))
  then show "P r" unfolding q(2) rrf_entry_def by (simp add: first_with_def p rrf)
qed

lemma fuse_keeps:
  assumes "fuse fl dense lexical = Inr out" "\<forall>d \<in> set dense. P d" "\<forall>d \<in> set lexical. P d"
  shows "\<forall>d \<in> set out. P d"
proof (cases "dense \<noteq> [] \<and> lexical \<noteq> []")
  case True
  then have r: "reciprocal_rank_fusion fl [dense, lexical] 60 ''id'' = Inr out" using assms(1) by (simp add: fuse_def)
  have "P d" if "l \<in> set [dense, lexical]" "d \<in> set l" for l d using that assms(2,3) by auto
  then show ?thesis using fusion_keeps[OF r] by blast
next
  case False
  then show ?thesis using assms by (auto simp: fuse_def split: if_splits)
qed

lemma add_scores_keeps: "\<forall>d \<in> set cs. P d \<Longrightarrow> \<forall>d \<in> set (add_scores cs ss). P d"
  by (induction cs ss rule: add_scores.induct) (auto simp: rerank)

lemma rerank_keeps:
  assumes "Ranking.rerank predict query cs k = (cs', r)" "\<forall>d \<in> set cs. P d"
  shows "(\<forall>d \<in> set cs'. P d) \<and> (\<forall>out. r = Inr out \<longrightarrow> (\<forall>d \<in> set out. P d))"
proof -
  have "\<forall>d \<in> set (add_scores cs ss). P d" for ss using assms(2) by (rule add_scores_keeps)
  then show ?thesis using assms
    by (auto simp: rerank_def Let_def by_rerank_score_def dest!: in_set_takeD split: if_splits sum.splits)
qed

lemma rerank_stage_keeps:
  assumes "rerank_stage m query a fused = Inr out" "\<forall>d \<in> set fused. P d"
  shows "\<forall>d \<in> set out. P d"
proof (cases "use_rerank a \<and> fused \<noteq> []")
  case True
  obtain cs' r where c: "Ranking.rerank (m_predict (active_models m)) query fused (nat (min (pool_size a) (int (length fused)))) = (cs', r)"
    by (rule prod.exhaust)
  from assms(1) True c rerank_keeps[OF c assms(2)] show ?thesis
    by (auto simp: rerank_stage_def dest!: in_set_takeD split: sum.splits if_splits)
next
  case False
  then show ?thesis using assms by (auto simp: rerank_stage_def dest!: in_set_takeD)
qed

end

lemma mmr_select_picks:
  assumes "mmr_select embedder q cs k lam = Inr out"
  shows "set out \<subseteq> set cs" "length out \<le> nat k"
proof -
  have "set out \<subseteq> set cs \<and> length out \<le> nat k"
  proof (cases "cs = [] \<or> k = 0")
    case True
    then show ?thesis using assms by (auto simp: mmr_select_def split: if_splits)
  next
    case False
    then obtain vs where vs: "out = map (\<lambda>i. cs ! i) (mmr_loop lam vs (map (\<lambda>v. dot v q) vs) (nat k) [] [0..<length cs])"
      using assms by (auto simp: mmr_select_def split: if_splits)
    have "let o1 = mmr_loop lam vs (map (\<lambda>v. dot v q) vs) (nat k) [] [0..<length cs] in
      distinct o1 \<and> set o1 \<subseteq> {..<length cs} \<and> length o1 = length ([]::nat list) + min (nat k) (length [0..<length cs]) \<and>
      greedy lam vs (map (\<lambda>v. dot v q) vs) (length cs) o1"
      by (rule mmr_loop_greedy) (auto simp: greedy_def)
    then show ?thesis unfolding vs by (auto simp: Let_def)
  qed
  then show "set out \<subseteq> set cs" "length out \<le> nat k" by blast+
qed

lemma mmr_stage_picks:
  assumes "mmr_stage m query a reranked = Inr out"
  shows "set out \<subseteq> set reranked" "length out \<le> nat (top_k a)"
  using assms set_take_subset[of "nat (top_k a)" reranked]
  by (auto simp: mmr_stage_def split: if_splits sum.splits dest: mmr_select_picks)


section \<open>Retrieval\<close>

text \<open>A result carries everything of its source but the two scores of the stages.\<close>

definition carries :: "dict \<Rightarrow> dict \<Rightarrow> bool" where
  "carries d r = (\<forall>k. k \<notin> {''rrf_score'', ''rerank_score''} \<longrightarrow> map_of r k = map_of d k)"

definition from_source :: "dict set \<Rightarrow> dict \<Rightarrow> bool" where
  "from_source D r = (\<exists>d \<in> D. carries d r)"

interpretation sourced: kept_by_scores "from_source D" for D
  by unfold_locales (auto simp: from_source_def carries_def)

lemma lexical_stage_result:
  assumes "lexical_stage f query tenant a c = (c', Inr ds)"
  shows "ds = [] \<or> (\<exists>ix. get_bm25_index f c = (c', Inr ix) \<and> search_index ix query tenant (pool_size a) (metadata_filter a) = Inr ds)"
  using assms by (auto simp: lexical_stage_def bindS_def liftS_def split: prod.splits sum.splits)

lemma retrieve_cases:
  assumes "retrieve fl m db ca f query tenant a (s, c) = ((s', c'), Inr out)"
  obtains dense lexical fused reranked where "request_guard query tenant a"
    "dense_search (dense_embedding m ca) db ca query tenant (pool_size a) (metadata_filter a) s = (s', Inr dense)"
    "lexical = [] \<or> (\<exists>ix. get_bm25_index f c = (c', Inr ix) \<and> search_index ix query tenant (pool_size a) (metadata_filter a) = Inr lexical)"
    "fuse fl dense lexical = Inr fused" "rerank_stage m query a fused = Inr reranked" "mmr_stage m query a reranked = Inr out"
proof -
  have g: "request_guard query tenant a" using assms by (auto simp: retrieve_def split: if_splits)
  obtain s1 r1 where d: "dense_search (dense_embedding m ca) db ca query tenant (pool_size a) (metadata_filter a) s = (s1, r1)"
    by (rule prod.exhaust)
  obtain c2 r2 where l: "lexical_stage f query tenant a c = (c2, r2)" by (rule prod.exhaust)
  from assms g d obtain dense where dense: "r1 = Inr dense" "s1 = s'"
    by (cases r1) (auto simp: retrieve_def bindS_def on_store_def on_cache_def split: prod.splits sum.splits if_splits)
  show ?thesis
  proof (cases "use_bm25 a")
    case True
    obtain lexical where lex: "r2 = Inr lexical" using l by (cases r2) (auto simp: lexical_stage_def split: prod.splits sum.splits)
    have "c2 = c' \<and> (\<exists>fused reranked. fuse fl dense lexical = Inr fused \<and> rerank_stage m query a fused = Inr reranked \<and> mmr_stage m query a reranked = Inr out)"
      using assms g d dense True l lex
      by (cases "fuse fl dense lexical"; cases "rerank_stage m query a (projr (fuse fl dense lexical))")
        (auto simp: retrieve_def bindS_def on_store_def on_cache_def liftS_def)
    then show ?thesis using that g d dense lexical_stage_result[of f query tenant a c c2 lexical] l lex by blast
  next
    case False
    have "\<exists>reranked. rerank_stage m query a dense = Inr reranked \<and> mmr_stage m query a reranked = Inr out"
      using assms g d dense False
      by (cases "rerank_stage m query a dense") (auto simp: retrieve_def bindS_def on_store_def liftS_def retS_def)
    then show ?thesis using that[of dense "[]" dense] g d dense by (auto simp: fuse_def)
  qed
qed

lemma retrieve_scoped_facts:
  assumes "retrieve fl m db ca f query tenant a (s, c) = ((s', c'), Inr out)"
  shows "int (length out) \<le> top_k a"
    "\<forall>r \<in> set out. dget r ''tenant_id'' = PStr tenant \<and>
       (\<exists>d. carries d r \<and>
         ((\<exists>dense. dense_search (dense_embedding m ca) db ca query tenant (pool_size a) (metadata_filter a) s = (s', Inr dense) \<and> d \<in> set dense) \<or>
          (\<exists>ix hits. get_bm25_index f c = (c', Inr ix) \<and> search_index ix query tenant (pool_size a) (metadata_filter a) = Inr hits \<and> d \<in> set hits)))"
proof -
  from assms obtain dense hits fused reranked where g: "request_guard query tenant a"
    and d: "dense_search (dense_embedding m ca) db ca query tenant (pool_size a) (metadata_filter a) s = (s', Inr dense)"
    and l: "hits = [] \<or> (\<exists>ix. get_bm25_index f c = (c', Inr ix) \<and> search_index ix query tenant (pool_size a) (metadata_filter a) = Inr hits)"
    and st: "fuse fl dense hits = Inr fused" "rerank_stage m query a fused = Inr reranked" "mmr_stage m query a reranked = Inr out"
    by (rule retrieve_cases)
  show "int (length out) \<le> top_k a" using mmr_stage_picks(2)[OF st(3)] g by (simp add: request_guard_def le_nat_iff)
  let ?D = "set dense \<union> set hits"
  have refl: "from_source ?D d" if "d \<in> ?D" for d using that by (auto simp: from_source_def carries_def)
  have "\<forall>r \<in> set fused. from_source ?D r" using sourced.fuse_keeps[OF st(1)] refl by blast
  then have "\<forall>r \<in> set reranked. from_source ?D r" by (rule sourced.rerank_stage_keeps[OF st(2)])
  then have src: "from_source ?D r" if "r \<in> set out" for r using that mmr_stage_picks(1)[OF st(3)] by blast
  show "\<forall>r \<in> set out. dget r ''tenant_id'' = PStr tenant \<and>
       (\<exists>d. carries d r \<and>
         ((\<exists>dense. dense_search (dense_embedding m ca) db ca query tenant (pool_size a) (metadata_filter a) s = (s', Inr dense) \<and> d \<in> set dense) \<or>
          (\<exists>ix hits. get_bm25_index f c = (c', Inr ix) \<and> search_index ix query tenant (pool_size a) (metadata_filter a) = Inr hits \<and> d \<in> set hits)))"
  proof
    fix r assume "r \<in> set out"
    from src[OF this] obtain x where x: "x \<in> ?D" "carries x r" unfolding from_source_def by blast
    have "dget x ''tenant_id'' = PStr tenant"
    proof (cases "x \<in> set dense")
      case True
      have "snd (dense_search (dense_embedding m ca) db ca query tenant (pool_size a) (metadata_filter a) s) = Inr dense"
        by (simp add: d)
      from dense.scoped[OF this True] show ?thesis .
    next
      case False
      then show ?thesis using x(1) l lexical.scoped by auto
    qed
    then have "dget r ''tenant_id'' = PStr tenant" using x(2) by (simp add: carries_def dget_def)
    moreover have "(\<exists>dense. dense_search (dense_embedding m ca) db ca query tenant (pool_size a) (metadata_filter a) s = (s', Inr dense) \<and> x \<in> set dense) \<or>
          (\<exists>ix hits. get_bm25_index f c = (c', Inr ix) \<and> search_index ix query tenant (pool_size a) (metadata_filter a) = Inr hits \<and> x \<in> set hits)"
      using x(1) d l by auto
    ultimately show "dget r ''tenant_id'' = PStr tenant \<and>
       (\<exists>d. carries d r \<and>
         ((\<exists>dense. dense_search (dense_embedding m ca) db ca query tenant (pool_size a) (metadata_filter a) s = (s', Inr dense) \<and> d \<in> set dense) \<or>
          (\<exists>ix hits. get_bm25_index f c = (c', Inr ix) \<and> search_index ix query tenant (pool_size a) (metadata_filter a) = Inr hits \<and> d \<in> set hits)))"
      using x(2) by blast
  qed
qed

text \<open>C7 (safety): whatever stages are on and whichever fall back, a retrieval that succeeds yields at most \<open>top_k\<close>
  results, and each is a result of one of the two searches of this call, with only the two scores of fusion and
  reranking added: in particular it belongs to the tenant of the call, whatever the filter of the caller says.\<close>

theorem retrieve_scoped:
  assumes "retrieve fl m db ca f query tenant a (s, c) = ((s', c'), Inr out)"
  shows "int (length out) \<le> top_k a \<and> (\<forall>r \<in> set out. dget r ''tenant_id'' = PStr tenant \<and>
       (\<exists>d. carries d r \<and>
         ((\<exists>dense. dense_search (dense_embedding m ca) db ca query tenant (pool_size a) (metadata_filter a) s = (s', Inr dense) \<and> d \<in> set dense) \<or>
          (\<exists>ix hits. get_bm25_index f c = (c', Inr ix) \<and> search_index ix query tenant (pool_size a) (metadata_filter a) = Inr hits \<and> d \<in> set hits))))"
  using retrieve_scoped_facts[OF assms] by (rule conjI)

text \<open>One point in the store, models that fail on everything but a query, and no lexical index.\<close>

definition failing_models :: models where
  "failing_models = \<lparr>default_models = \<lparr>m_embed_query = \<lambda>q. Inr [1], m_predict = \<lambda>q ts. Inl RuntimeError\<rparr>,
     store_embed_query = \<lambda>q. Inr [1], embed_passages = \<lambda>ts. Inl OSError, chosen_models = None\<rparr>"

definition one_point :: "(string \<times> dict) list" where
  "one_point = [(''1'', [(''text'', PStr ''x''), (''filename'', PStr ''f''), (''page_number'', PInt 1), (''tenant_id'', PStr ''t'')])]"

definition no_files :: index_files where
  "no_files = \<lparr>f_index = None, f_rebuilt = None, f_dirty = False\<rparr>"

definition all_stages :: retrieve_args where
  "all_stages = \<lparr>top_k = 5, pool_size = 20, use_bm25 = True, use_rerank = True, use_mmr = True, metadata_filter = []\<rparr>"

definition one_result :: "dict list" where
  "one_result = [[(''id'', PStr ''1''), (''text'', PStr ''x''), (''filename'', PStr ''f''), (''page_number'', PInt 1),
     (''chunk_index'', PInt 0), (''tenant_id'', PStr ''t''), (''score'', PFloat (Fin 0))]]"

lemma one_point_found: "dense_search (\<lambda>q. Inr [1]) list_db in_list ''q'' ''t'' 20 [] one_point = (one_point, Inr one_result)"
  by code_simp

lemma one_point_retrieved:
  "retrieve (\<lambda>x. []) failing_models list_db in_list no_files ''q'' ''t'' all_stages (one_point, None) = ((one_point, None), Inr one_result)"
proof -
  have g: "request_guard ''q'' ''t'' all_stages" by code_simp
  have l: "lexical_stage no_files ''q'' ''t'' all_stages None = (None, Inr [])"
    by (simp add: lexical_stage_def get_bm25_index_def no_files_def bindS_def)
  have r: "bindR (rerank_stage failing_models ''q'' all_stages one_result) (mmr_stage failing_models ''q'' all_stages) = Inr one_result"
    by (simp add: rerank_stage_def mmr_stage_def failing_models_def active_models_def all_stages_def rerank_def mmr_select_def
        one_result_def dkey_def)
  have f: "fuse (\<lambda>x. []) one_result [] = Inr one_result" by (simp add: fuse_def one_result_def)
  have proj: "dense_embedding failing_models in_list = (\<lambda>q. Inr [1])" "use_bm25 all_stages" "pool_size all_stages = 20" "metadata_filter all_stages = []"
    by (simp_all add: failing_models_def dense_embedding_def in_list_def all_stages_def)
  show ?thesis
    by (simp add: retrieve_def g proj bindS_def on_store_def on_cache_def one_point_found liftS_def f r l)
qed

theorem retrieve_scoped_witness:
  "int (length one_result) \<le> top_k all_stages \<and> dget (one_result ! 0) ''tenant_id'' = PStr ''t''"
proof -
  have "one_result ! 0 \<in> set one_result" by (simp add: one_result_def)
  then show ?thesis using retrieve_scoped[OF one_point_retrieved] by blast
qed

text \<open>(error): a retrieval raises only for a malformed request, when the dense search raises, when the inference
  queue rejects a model call of an enabled stage, or when a lexical document has no identifier to fuse by. Every other
  failure of the lexical index, the reranker or the diversification is a fallback.\<close>

lemma retrieve_errors:
  assumes "retrieve fl m db ca f query tenant a (s, c) = (st, Inl e)"
  shows "(e = ValueError \<and> \<not> request_guard query tenant a) \<or>
    (\<exists>s'. dense_search (dense_embedding m ca) db ca query tenant (pool_size a) (metadata_filter a) s = (s', Inl e)) \<or>
    (e = ModelInferenceRejected \<and> (use_rerank a \<or> use_mmr a)) \<or>
    (e = ValueError \<and> use_bm25 a \<and> (\<exists>ix d. d \<in> set (ix_docs ix) \<and> lacks ''id'' d \<and> (\<exists>c'. get_bm25_index f c = (c', Inr ix))))"
proof (cases "request_guard query tenant a")
  case True
  obtain s1 r1 where d: "dense_search (dense_embedding m ca) db ca query tenant (pool_size a) (metadata_filter a) s = (s1, r1)"
    by (rule prod.exhaust)
  show ?thesis
  proof (cases r1)
    case (Inl e')
    then have "e' = e" using assms True d by (simp add: retrieve_def bindS_def on_store_def)
    then show ?thesis using d Inl by blast
  next
    case (Inr dense)
    have ids: "\<not> lacks ''id'' x" if "x \<in> set dense" for x
    proof -
      obtain points where "mapR (point_result tenant) points = Inr dense" using d Inr by (auto elim: dense_search_Inr)
      from mapR_source[OF this that] obtain p where "point_result tenant p = Inr x" by blast
      then show ?thesis
        by (cases "s_payload p") (auto simp: point_result_def Let_def lacks_def split: if_splits)
    qed
    have stages: "e = ModelInferenceRejected \<and> (use_rerank a \<or> use_mmr a)"
      if "bindR (rerank_stage m query a fused) (mmr_stage m query a) = Inl e" for fused
      using that by (cases "rerank_stage m query a fused")
        (auto simp: rerank_stage_def mmr_stage_def split: if_splits sum.splits prod.splits)
    obtain c2 r2 where l: "lexical_stage f query tenant a c = (c2, r2)" by (rule prod.exhaust)
    show ?thesis
    proof (cases "use_bm25 a")
      case False
      then show ?thesis using assms True d Inr stages[of dense]
        by (simp add: retrieve_def bindS_def on_store_def liftS_def retS_def)
    next
      case on: True
      obtain hits where r2: "r2 = Inr hits" using l by (cases r2) (auto simp: lexical_stage_def split: prod.splits sum.splits)
      show ?thesis
      proof (cases "fuse fl dense hits")
        case (Inr fused)
        then show ?thesis using assms True d \<open>r1 = Inr dense\<close> stages[of fused] on l r2
          by (simp add: retrieve_def bindS_def on_store_def on_cache_def liftS_def)
      next
        case (Inl e')
        have "e' = e" using assms True d \<open>r1 = Inr dense\<close> on l r2 Inl
          by (simp add: retrieve_def bindS_def on_store_def on_cache_def liftS_def)
        have "rrf_table_of fl ''id'' 60 [] = []" by (simp add: rrf_table_of_def firsts_def)
        then have "e' = ValueError" "\<exists>h \<in> set hits. lacks ''id'' h"
          using Inl ids rrf_lists_table[of fl "''id''" 60 "[dense, hits]" "[]"]
          by (auto simp: fuse_def reciprocal_rank_fusion_def split: if_splits)
        then obtain h where h: "h \<in> set hits" "lacks ''id'' h" by blast
        obtain ix where ix: "get_bm25_index f c = (c2, Inr ix)" "search_index ix query tenant (pool_size a) (metadata_filter a) = Inr hits"
          using lexical_stage_result[OF l[unfolded r2]] h(1) by auto
        obtain x d' where "d' \<in> set (ix_docs ix)" "h = dset ''score'' x d'" using search_index_hits(2)[OF ix(2) h(1)] by blast
        then have "d' \<in> set (ix_docs ix)" "lacks ''id'' d'" using h(2) by (simp_all add: lacks_def)
        then show ?thesis using ix(1) on \<open>e' = e\<close> \<open>e' = ValueError\<close> by blast
      qed
    qed
  qed
next
  case False
  then show ?thesis using assms by (simp add: retrieve_def)
qed

lemma retrieve_errors_witness:
  "ValueError = ValueError \<and> \<not> request_guard ''q'' ''t'' (all_stages\<lparr>top_k := 21\<rparr>)"
proof -
  have g: "\<not> request_guard ''q'' ''t'' (all_stages\<lparr>top_k := 21\<rparr>)" by (simp add: request_guard_def all_stages_def)
  have "retrieve (\<lambda>x. []) failing_models list_db in_list no_files ''q'' ''t'' (all_stages\<lparr>top_k := 21\<rparr>) (one_point, None) = ((one_point, None), Inl ValueError)"
    by (simp add: retrieve_def g)
  from retrieve_errors[OF this] g show ?thesis by blast
qed

text \<open>The cache: when the modification time of the file determines its content, the cached index is the one on disk.\<close>

definition cache_ok :: "(nat \<Rightarrow> bm25_index) \<Rightarrow> index_files \<Rightarrow> index_cache \<Rightarrow> bool" where
  "cache_ok content f c = ((\<forall>ix m. f_index f = Some (ix, m) \<longrightarrow> ix = content m) \<and>
     (\<forall>ix m. c = Some (ix, m) \<longrightarrow> (\<exists>k. m = Some k \<and> ix = content k)))"

lemma cached_index_current:
  assumes "cache_ok content f c" "get_bm25_index f c = (c', r)"
  shows "cache_ok content f c'" "r = (case f_index f of None \<Rightarrow> Inl RuntimeError | Some (ix, m) \<Rightarrow> Inr ix)"
  using assms by (auto simp: cache_ok_def get_bm25_index_def Let_def split: option.splits if_splits)

end
