(* ===== verification/Leases.thy ===== *)
theory Leases
  imports State_Res
begin

text \<open>
  Shared resources of the retrieval process: the admission gate of model calls
  (\<open>services/retrieval/model_loading.py\<close>) and the leased client of the vector store
  (\<open>QdrantStore\<close> in \<open>qdrant_store.py\<close>). Each block under the condition variable is one step of the system, so any
  interleaving of the threads is a sequence of steps; \<open>'p\<close> are the threads.
\<close>

section \<open>The gate of model calls\<close>

type_synonym gate_limits = "int \<times> int \<times> rat"

record gate =
  g_active :: int
  g_waiting :: int
  g_rejected :: int
  g_configured :: bool
  g_limits :: gate_limits

definition limits_ok :: "gate_limits \<Rightarrow> bool" where
  "limits_ok l = (case l of (concurrency, max_waiters, timeout) \<Rightarrow> \<not> (concurrency < 1 \<or> max_waiters < 0 \<or> timeout \<le> 0))"

definition new_gate :: "gate_limits \<Rightarrow> gate res" where
  "new_gate l = (if limits_ok l
     then Inr \<lparr>g_active = 0, g_waiting = 0, g_rejected = 0, g_configured = False, g_limits = l\<rparr>
     else Inl ValueError)"

definition configure :: "gate_limits \<Rightarrow> (gate, unit) st" where
  "configure l = (\<lambda>g.
     if \<not> limits_ok l then (g, Inl ValueError)
     else if g_configured g \<and> l = g_limits g then (g, Inr ())
     else if g_configured g then (g, Inl RuntimeError)
     else if g_active g \<noteq> 0 \<or> g_waiting g \<noteq> 0 then (g, Inl RuntimeError)
     else (g\<lparr>g_limits := l, g_configured := True\<rparr>, Inr ()))"

definition snapshot :: "gate \<Rightarrow> int \<times> int \<times> int" where
  "snapshot g = (g_active g, g_waiting g, g_rejected g)"

text \<open>Entering: admitted, told to wait for less than \<open>concurrency\<close> active calls, or rejected.\<close>

datatype admission = Admitted | Queued int | Rejected

definition enter :: "gate \<Rightarrow> gate \<times> admission" where
  "enter g = (case g_limits g of (concurrency, max_waiters, timeout) \<Rightarrow>
     if g_active g \<ge> concurrency then
       (if g_waiting g \<ge> max_waiters then (g\<lparr>g_rejected := g_rejected g + 1\<rparr>, Rejected)
        else (g\<lparr>g_waiting := g_waiting g + 1\<rparr>, Queued concurrency))
     else (g\<lparr>g_active := g_active g + 1\<rparr>, Admitted))"

text \<open>A waiter looks again: it goes on as soon as there is room, and gives up when its time has expired.\<close>

definition settle :: "int \<Rightarrow> bool \<Rightarrow> gate \<Rightarrow> gate \<times> admission" where
  "settle concurrency expired g =
     (if g_active g < concurrency then (g\<lparr>g_waiting := g_waiting g - 1, g_active := g_active g + 1\<rparr>, Admitted)
      else if expired then (g\<lparr>g_waiting := g_waiting g - 1, g_rejected := g_rejected g + 1\<rparr>, Rejected)
      else (g, Queued concurrency))"

definition leave :: "gate \<Rightarrow> gate" where
  "leave g = g\<lparr>g_active := g_active g - 1\<rparr>"

subsection \<open>The threads at the gate\<close>

record 'p gate_world =
  gw_gate :: gate
  gw_queue :: "'p \<rightharpoonup> int"
  gw_inside :: "'p set"

fun placed :: "'p \<Rightarrow> 'p gate_world \<Rightarrow> gate \<times> admission \<Rightarrow> 'p gate_world" where
  "placed p w (g, Admitted) = w\<lparr>gw_gate := g, gw_queue := (gw_queue w)(p := None), gw_inside := insert p (gw_inside w)\<rparr>"
| "placed p w (g, Queued n) = w\<lparr>gw_gate := g, gw_queue := (gw_queue w)(p := Some n)\<rparr>"
| "placed p w (g, Rejected) = w\<lparr>gw_gate := g, gw_queue := (gw_queue w)(p := None)\<rparr>"

inductive gate_step :: "'p gate_world \<Rightarrow> 'p gate_world \<Rightarrow> bool" where
  call: "p \<notin> gw_inside w \<Longrightarrow> p \<notin> dom (gw_queue w) \<Longrightarrow> gate_step w (placed p w (enter (gw_gate w)))"
| look: "gw_queue w p = Some n \<Longrightarrow> gate_step w (placed p w (settle n expired (gw_gate w)))"
| finish: "p \<in> gw_inside w \<Longrightarrow> gate_step w (w\<lparr>gw_gate := leave (gw_gate w), gw_inside := gw_inside w - {p}\<rparr>)"
| configured: "gate_step w (w\<lparr>gw_gate := fst (configure l (gw_gate w))\<rparr>)"

inductive gate_reach :: "'p gate_world \<Rightarrow> bool" where
  start: "new_gate l = Inr g \<Longrightarrow> gate_reach \<lparr>gw_gate = g, gw_queue = (\<lambda>p. None), gw_inside = {}\<rparr>"
| step: "gate_reach w \<Longrightarrow> gate_step w w' \<Longrightarrow> gate_reach w'"

definition gate_inv :: "'p gate_world \<Rightarrow> bool" where
  "gate_inv w = (case g_limits (gw_gate w) of (concurrency, max_waiters, timeout) \<Rightarrow>
     limits_ok (g_limits (gw_gate w)) \<and> finite (gw_inside w) \<and> finite (dom (gw_queue w)) \<and> gw_inside w \<inter> dom (gw_queue w) = {} \<and>
     g_active (gw_gate w) = int (card (gw_inside w)) \<and> g_waiting (gw_gate w) = int (card (dom (gw_queue w))) \<and>
     g_active (gw_gate w) \<le> concurrency \<and> g_waiting (gw_gate w) \<le> max_waiters \<and> ran (gw_queue w) \<subseteq> {concurrency})"

lemma card_dom_upd: "finite (dom m) \<Longrightarrow> p \<notin> dom m \<Longrightarrow> card (dom (m(p \<mapsto> x))) = Suc (card (dom m))"
  by (simp add: card_insert_disjoint)

lemma card_dom_del: "finite (dom m) \<Longrightarrow> p \<in> dom m \<Longrightarrow> int (card (dom (m(p := None)))) = int (card (dom m)) - 1"
  using card_Suc_Diff1[of "dom m" p] by simp

lemma ran_del: "ran (m(p := None)) \<subseteq> ran m"
  by (auto simp: ran_def)

lemma ran_upd: "ran (m(p \<mapsto> x)) \<subseteq> insert x (ran m)"
  by (auto simp: ran_def)

lemma gate_step_inv:
  assumes "gate_step w w'" "gate_inv w"
  shows "gate_inv w'"
proof -
  obtain n k t where l: "g_limits (gw_gate w) = (n, k, t)" by (cases "g_limits (gw_gate w)")
  note inv = assms(2)[unfolded gate_inv_def l prod.case]
  show ?thesis using assms(1)
  proof cases
    case (call p)
    then show ?thesis using inv l ran_upd[of "gw_queue w" p n] card_dom_upd[of "gw_queue w" p n]
      by (auto simp: enter_def gate_inv_def fun_upd_idem domIff)
  next
    case (look p m expired)
    then have m: "m = n" "p \<in> dom (gw_queue w)" "p \<notin> gw_inside w" using inv by (auto intro!: ranI)
    from look m inv l show ?thesis
      using ran_del[of "gw_queue w" p] card_dom_del[of "gw_queue w" p]
      by (auto simp: settle_def gate_inv_def fun_upd_idem)
  next
    case (finish p)
    then show ?thesis using inv l card_Suc_Diff1[of "gw_inside w" p] by (auto simp: leave_def gate_inv_def)
  next
    case (configured lim)
    then show ?thesis using assms(2) by (auto simp: configure_def gate_inv_def limits_ok_def split: prod.splits)
  qed
qed

lemma gate_reach_inv: "gate_reach w \<Longrightarrow> gate_inv w"
proof (induction rule: gate_reach.induct)
  case (start l g) then show ?case by (auto simp: new_gate_def gate_inv_def limits_ok_def split: if_splits prod.splits)
next
  case (step w w') then show ?case using gate_step_inv by blast
qed

text \<open>(bounds): in every interleaving of calls, waits, timeouts, ends and configurations, at most
  \<open>concurrency\<close> calls are inside and at most \<open>max_waiters\<close> wait; the counters are the exact numbers. A new call is rejected
  exactly when both are full, and a waiter that looks while there is room goes on, even if its time has expired.\<close>

lemma gate_bounds:
  assumes "gate_reach w" "g_limits (gw_gate w) = (concurrency, max_waiters, timeout)"
  shows "int (card (gw_inside w)) \<le> concurrency" "int (card (dom (gw_queue w))) \<le> max_waiters"
    "snapshot (gw_gate w) = (int (card (gw_inside w)), int (card (dom (gw_queue w))), g_rejected (gw_gate w))"
    "snd (enter (gw_gate w)) = Rejected \<longleftrightarrow> int (card (gw_inside w)) = concurrency \<and> int (card (dom (gw_queue w))) = max_waiters"
    "\<forall>p n expired. gw_queue w p = Some n \<longrightarrow>
       (snd (settle n expired (gw_gate w)) = Admitted \<longleftrightarrow> int (card (gw_inside w)) < concurrency)"
proof -
  have inv: "gate_inv w" using assms(1) by (rule gate_reach_inv)
  note i = inv[unfolded gate_inv_def assms(2) prod.case]
  show "int (card (gw_inside w)) \<le> concurrency" "int (card (dom (gw_queue w))) \<le> max_waiters" using i by auto
  show "snapshot (gw_gate w) = (int (card (gw_inside w)), int (card (dom (gw_queue w))), g_rejected (gw_gate w))"
    using i by (simp add: snapshot_def)
  show "snd (enter (gw_gate w)) = Rejected \<longleftrightarrow> int (card (gw_inside w)) = concurrency \<and> int (card (dom (gw_queue w))) = max_waiters"
    using i assms(2) by (auto simp: enter_def)
  show "\<forall>p n expired. gw_queue w p = Some n \<longrightarrow>
       (snd (settle n expired (gw_gate w)) = Admitted \<longleftrightarrow> int (card (gw_inside w)) < concurrency)"
  proof (intro allI impI)
    fix p n expired assume "gw_queue w p = Some n"
    then have "n = concurrency" using i ranI[of "gw_queue w" p n] by auto
    then show "snd (settle n expired (gw_gate w)) = Admitted \<longleftrightarrow> int (card (gw_inside w)) < concurrency"
      using i by (simp add: settle_def)
  qed
qed

text \<open>Two calls at a gate for one: the second waits.\<close>

lemma gate_bounds_witness:
  "\<exists>w :: nat gate_world. gate_reach w \<and> gw_inside w = {0} \<and> dom (gw_queue w) = {1} \<and> int (card (gw_inside w)) \<le> 1"
proof -
  let ?g = "\<lparr>g_active = 0, g_waiting = 0, g_rejected = 0, g_configured = False, g_limits = (1, 8, 30)\<rparr>"
  have "gate_reach \<lparr>gw_gate = ?g, gw_queue = (\<lambda>p. None), gw_inside = {} :: nat set\<rparr>"
    by (rule gate_reach.start[of "(1, 8, 30)"]) (simp add: new_gate_def limits_ok_def)
  from gate_reach.step[OF this gate_step.call[of 0]]
  have "gate_reach \<lparr>gw_gate = ?g\<lparr>g_active := 1\<rparr>, gw_queue = (\<lambda>p. None), gw_inside = {0 :: nat}\<rparr>"
    by (simp add: enter_def fun_upd_idem)
  from gate_reach.step[OF this gate_step.call[of 1]]
  have r: "gate_reach \<lparr>gw_gate = ?g\<lparr>g_active := 1, g_waiting := 1\<rparr>, gw_queue = [1 \<mapsto> 1], gw_inside = {0 :: nat}\<rparr>" (is "gate_reach ?w")
    by (simp add: enter_def)
  show ?thesis using gate_bounds(1)[OF r, of 1 8 30] by (intro exI[of _ ?w] conjI r) simp_all
qed

section \<open>Leases\<close>

text \<open>A resource with a count of its users: the body runs between taking and giving back, which also happens when it
  raises.\<close>

definition leased :: "('s \<Rightarrow> 's \<times> ('e + 'c)) \<Rightarrow> ('s \<Rightarrow> 's) \<Rightarrow> ('c \<Rightarrow> 's \<Rightarrow> 's \<times> ('e + 'a)) \<Rightarrow> 's \<Rightarrow> 's \<times> ('e + 'a)" where
  "leased acquire release body = (\<lambda>s. case acquire s of
       (s', Inl e) \<Rightarrow> (s', Inl e)
     | (s', Inr c) \<Rightarrow> (case body c s' of (s2, r) \<Rightarrow> (release s2, r)))"

locale lease_pool =
  fixes acquire :: "'s \<Rightarrow> 's \<times> ('e + 'c)" and release :: "'s \<Rightarrow> 's" and active :: "'s \<Rightarrow> int"
  assumes acquired: "acquire s = (s', Inr c) \<Longrightarrow> active s' = active s + 1"
    and refused: "acquire s = (s', Inl e) \<Longrightarrow> active s' = active s"
    and released: "active (release s) = active s - 1"
begin

lemma balanced:
  assumes "\<And>c s1 s2 r. body c s1 = (s2, r) \<Longrightarrow> active s2 = active s1" "leased acquire release body s = (s', r)"
  shows "active s' = active s"
proof (cases "acquire s")
  case (Pair s1 q)
  show ?thesis
  proof (cases q)
    case (Inl e)
    then show ?thesis using assms(2) Pair refused by (auto simp: leased_def)
  next
    case (Inr c)
    obtain s2 r2 where b: "body c s1 = (s2, r2)" by (rule prod.exhaust)
    have "active s1 = active s + 1" using Pair Inr acquired by blast
    moreover have "active s2 = active s1" using b by (rule assms(1))
    moreover have "s' = release s2" using assms(2) Pair Inr b by (auto simp: leased_def)
    ultimately show ?thesis using released by simp
  qed
qed

end

section \<open>The client of the vector store\<close>

text \<open>Clients are numbers. The argument of \<open>connection\<close> is what the client factory returns if it is called.\<close>

record conn =
  k_client :: "nat option"
  k_active :: int
  k_closed :: bool

definition new_store :: conn where
  "new_store = \<lparr>k_client = None, k_active = 0, k_closed = False\<rparr>"

definition acquire_connection :: "nat res \<Rightarrow> conn \<Rightarrow> conn \<times> nat res" where
  "acquire_connection factory k =
     (if k_closed k then (k, Inl RuntimeError)
      else (case k_client k of
          Some c \<Rightarrow> (k\<lparr>k_active := k_active k + 1\<rparr>, Inr c)
        | None \<Rightarrow> (case factory of Inl e \<Rightarrow> (k, Inl e)
            | Inr c \<Rightarrow> (k\<lparr>k_client := Some c, k_active := k_active k + 1\<rparr>, Inr c))))"

definition release_connection :: "conn \<Rightarrow> conn" where
  "release_connection k = k\<lparr>k_active := k_active k - 1\<rparr>"

interpretation connection: lease_pool "acquire_connection factory" release_connection k_active for factory
  by unfold_locales (auto simp: acquire_connection_def release_connection_def split: if_splits option.splits sum.splits)

text \<open>Closing: whether this call goes on to wait, and, once nobody holds the client, the client to close.\<close>

definition begin_close :: "conn \<Rightarrow> conn \<times> bool" where
  "begin_close k = (if k_closed k then (k, False) else (k\<lparr>k_closed := True\<rparr>, True))"

definition end_close :: "conn \<Rightarrow> (conn \<times> nat option) option" where
  "end_close k = (if k_active k \<noteq> 0 then None else Some (k\<lparr>k_client := None\<rparr>, k_client k))"

text \<open>The threads: who holds which client, whether somebody waits in \<open>close\<close>, how many clients were made, and which were
  closed.\<close>

record 'p conn_world =
  cw_store :: conn
  cw_leases :: "'p \<rightharpoonup> nat"
  cw_closing :: bool
  cw_made :: nat
  cw_shut :: "nat set"

inductive conn_step :: "'p conn_world \<Rightarrow> 'p conn_world \<Rightarrow> bool" where
  lease: "p \<notin> dom (cw_leases w) \<Longrightarrow> acquire_connection (Inr (cw_made w)) (cw_store w) = (k, Inr c) \<Longrightarrow>
    conn_step w (w\<lparr>cw_store := k, cw_leases := (cw_leases w)(p \<mapsto> c), cw_made := max (cw_made w) (Suc c)\<rparr>)"
| refuse: "acquire_connection factory (cw_store w) = (k, Inl e) \<Longrightarrow> conn_step w (w\<lparr>cw_store := k\<rparr>)"
| give_back: "p \<in> dom (cw_leases w) \<Longrightarrow>
    conn_step w (w\<lparr>cw_store := release_connection (cw_store w), cw_leases := (cw_leases w)(p := None)\<rparr>)"
| close: "begin_close (cw_store w) = (k, waits) \<Longrightarrow> conn_step w (w\<lparr>cw_store := k, cw_closing := cw_closing w \<or> waits\<rparr>)"
| closed: "cw_closing w \<Longrightarrow> end_close (cw_store w) = Some (k, c) \<Longrightarrow>
    conn_step w (w\<lparr>cw_store := k, cw_closing := False, cw_shut := cw_shut w \<union> set_option c\<rparr>)"

inductive conn_reach :: "'p conn_world \<Rightarrow> bool" where
  start: "conn_reach \<lparr>cw_store = new_store, cw_leases = (\<lambda>p. None), cw_closing = False, cw_made = 0, cw_shut = {}\<rparr>"
| step: "conn_reach w \<Longrightarrow> conn_step w w' \<Longrightarrow> conn_reach w'"

definition conn_inv :: "'p conn_world \<Rightarrow> bool" where
  "conn_inv w = (finite (dom (cw_leases w)) \<and> k_active (cw_store w) = int (card (dom (cw_leases w))) \<and>
     ran (cw_leases w) \<subseteq> set_option (k_client (cw_store w)) \<and> cw_made w \<le> 1 \<and>
     (k_client (cw_store w) = None \<longrightarrow> cw_made w = 0 \<or> k_closed (cw_store w)) \<and>
     (\<forall>c. k_client (cw_store w) = Some c \<longrightarrow> c < cw_made w \<and> cw_shut w = {}) \<and>
     (cw_shut w \<noteq> {} \<longrightarrow> k_closed (cw_store w)) \<and> (cw_closing w \<longrightarrow> k_closed (cw_store w)))"

lemma conn_step_inv:
  assumes "conn_step w w'" "conn_inv w"
  shows "conn_inv w'"
  using assms(1)
proof cases
  case (lease p k c)
  then show ?thesis using assms(2) ran_upd[of "cw_leases w" p c] card_dom_upd[of "cw_leases w" p c]
    by (auto simp: conn_inv_def acquire_connection_def split: if_splits option.splits)
next
  case (refuse factory k e)
  then show ?thesis using assms(2) by (auto simp: acquire_connection_def split: if_splits option.splits sum.splits)
next
  case (give_back p)
  then show ?thesis using assms(2) ran_del[of "cw_leases w" p] card_dom_del[of "cw_leases w" p]
    by (auto simp: conn_inv_def release_connection_def)
next
  case (close k waits)
  then show ?thesis using assms(2) by (auto simp: conn_inv_def begin_close_def split: if_splits)
next
  case (closed k c)
  then show ?thesis using assms(2)
    by (auto simp: conn_inv_def end_close_def split: if_splits)
qed

lemma conn_reach_inv: "conn_reach w \<Longrightarrow> conn_inv w"
proof (induction rule: conn_reach.induct)
  case start then show ?case by (simp add: conn_inv_def new_store_def)
next
  case (step w w') then show ?case using conn_step_inv by blast
qed

text \<open>(safety): in every interleaving, whoever holds a lease holds the one client of the store, and it is not closed;
  the store never makes a second client. Once closing has begun no lease is given, and the wait of \<open>close\<close> can end as
  soon as the last lease is back.\<close>

lemma leased_client_open:
  assumes "conn_reach w"
  shows "cw_leases w p = Some c \<Longrightarrow> k_client (cw_store w) = Some c \<and> c \<notin> cw_shut w" "cw_made w \<le> 1"
    "cw_closing w \<or> cw_shut w \<noteq> {} \<Longrightarrow> snd (acquire_connection factory (cw_store w)) = Inl RuntimeError"
    "cw_closing w \<and> dom (cw_leases w) = {} \<Longrightarrow> \<exists>k c. end_close (cw_store w) = Some (k, c)"
proof -
  have i: "conn_inv w" using assms by (rule conn_reach_inv)
  show "cw_made w \<le> 1" using i by (simp add: conn_inv_def)
  show "k_client (cw_store w) = Some c \<and> c \<notin> cw_shut w" if "cw_leases w p = Some c"
    using i ranI[of "cw_leases w", OF that] by (auto simp: conn_inv_def)
  show "snd (acquire_connection factory (cw_store w)) = Inl RuntimeError" if "cw_closing w \<or> cw_shut w \<noteq> {}"
    using i that by (auto simp: conn_inv_def acquire_connection_def)
  show "\<exists>k c. end_close (cw_store w) = Some (k, c)" if "cw_closing w \<and> dom (cw_leases w) = {}"
    using i that by (auto simp: conn_inv_def end_close_def)
qed

text \<open>A lease that is held while the store is being closed.\<close>

lemma leased_client_open_witness:
  "\<exists>w :: nat conn_world. conn_reach w \<and> cw_closing w \<and> cw_leases w = [7 \<mapsto> 0] \<and> 0 \<notin> cw_shut w"
proof -
  have "conn_reach \<lparr>cw_store = \<lparr>k_client = Some 0, k_active = 1, k_closed = False\<rparr>, cw_leases = [7 :: nat \<mapsto> 0], cw_closing = False,
      cw_made = 1, cw_shut = {}\<rparr>"
    using conn_reach.step[OF conn_reach.start conn_step.lease[of 7]] by (simp add: acquire_connection_def new_store_def)
  from conn_reach.step[OF this conn_step.close]
  have r: "conn_reach \<lparr>cw_store = \<lparr>k_client = Some 0, k_active = 1, k_closed = True\<rparr>, cw_leases = [7 :: nat \<mapsto> 0], cw_closing = True,
      cw_made = 1, cw_shut = {}\<rparr>" (is "conn_reach ?w") by (simp add: begin_close_def)
  show ?thesis using leased_client_open(1)[OF r, of 7 0] by (intro exI[of _ ?w] conjI r) simp_all
qed

end
