(* ===== verification/Chat_History.thy ===== *)
theory Chat_History
  imports Leases
begin

text \<open>
  Conversation history: the contract of the port (\<open>services/chat/ports.py\<close>), the budgets
  (\<open>services/chat/settings.py\<close>) and the MongoDB adapter (\<open>services/chat/mongo_history.py\<close>). The driver is a record of
  functions on the state of the database; what it is documented to do is a hypothesis of the theorems.
\<close>

section \<open>Budgets and identities\<close>

record history_settings =
  hs_uri :: string
  hs_database :: string
  hs_max_messages :: int
  hs_message_max_bytes :: int
  hs_connect_timeout_ms :: int
  hs_operation_timeout_ms :: int
  hs_max_pool_size :: int

definition MiB8 :: int where "MiB8 = 8 * 1024 * 1024"

text \<open>What the validation of the settings leaves: the ranges of the fields and the bounded retention.\<close>

definition valid_database :: "string \<Rightarrow> bool" where
  "valid_database s = (1 \<le> length s \<and> length s \<le> 63 \<and>
     list_all (\<lambda>c. let n = code c in 65 \<le> n \<and> n \<le> 90 \<or> 97 \<le> n \<and> n \<le> 122 \<or> 48 \<le> n \<and> n \<le> 57 \<or> n = 95 \<or> n = 45) s)"

definition bounded_retention :: "history_settings \<Rightarrow> bool" where
  "bounded_retention S = (hs_max_messages S mod 2 = 0 \<and> hs_max_messages S * hs_message_max_bytes S \<le> MiB8)"

definition settings_ok :: "history_settings \<Rightarrow> bool" where
  "settings_ok S = (2 \<le> hs_max_messages S \<and> hs_max_messages S \<le> 1000 \<and>
     1024 \<le> hs_message_max_bytes S \<and> hs_message_max_bytes S \<le> 262144 \<and>
     100 \<le> hs_connect_timeout_ms S \<and> hs_connect_timeout_ms S \<le> 30000 \<and>
     100 \<le> hs_operation_timeout_ms S \<and> hs_operation_timeout_ms S \<le> 60000 \<and>
     1 \<le> hs_max_pool_size S \<and> hs_max_pool_size S \<le> 128 \<and> valid_database (hs_database S) \<and> bounded_retention S)"

type_synonym conversation = "string \<times> string"

definition identity_ok :: "string \<Rightarrow> bool" where
  "identity_ok s = (strip s \<noteq> [] \<and> length s \<le> 128 \<and> \<not> list_ex (\<lambda>c. code c < 32) s)"

definition validate_identity :: "string \<Rightarrow> string \<Rightarrow> unit res" where
  "validate_identity tenant conv = guardR (identity_ok tenant \<and> identity_ok conv) HistoryInputError"

section \<open>The driver\<close>

datatype slice = LastN int | PageOf int int

text \<open>Errors of the driver, and everything else that is raised inside an operation.\<close>

datatype mongo_error = DuplicateKey | OtherMongo

datatype raised = Mongo mongo_error | Other exn

record update_result =
  acknowledged :: bool
  matched_count :: int

text \<open>\<open>mg_connect\<close>: the client is made and the unique index of the collection created. \<open>mg_push\<close>: a \<open>$push\<close> of messages
  with \<open>$each\<close> and a negative \<open>$slice\<close>, as an upsert or not.\<close>

record 's mongo =
  mg_connect :: "'s \<Rightarrow> 's \<times> (raised + unit)"
  mg_find :: "conversation \<Rightarrow> slice \<Rightarrow> 's \<Rightarrow> 's \<times> (raised + dict option)"
  mg_push :: "conversation \<Rightarrow> pyval list \<Rightarrow> int \<Rightarrow> bool \<Rightarrow> 's \<Rightarrow> 's \<times> (raised + update_result)"
  mg_delete :: "conversation \<Rightarrow> 's \<Rightarrow> 's \<times> (raised + unit)"

section \<open>Operations on the store\<close>

record 's history =
  h_ready :: bool
  h_active :: int
  h_closed :: bool
  h_db :: 's

definition new_history :: "'s \<Rightarrow> 's history" where
  "new_history s = \<lparr>h_ready = False, h_active = 0, h_closed = False, h_db = s\<rparr>"

type_synonym ('s, 'a) raw = "'s \<Rightarrow> 's \<times> (raised + 'a)"

definition begin_operation :: "'s mongo \<Rightarrow> history_settings \<Rightarrow> ('s history, unit) raw" where
  "begin_operation mg S = (\<lambda>h.
     if h_closed h then (h, Inl (Other HistoryUnavailable))
     else if h_active h \<ge> hs_max_pool_size S * 2 then (h, Inl (Other HistoryUnavailable))
     else if h_ready h then (h\<lparr>h_active := h_active h + 1\<rparr>, Inr ())
     else (case mg_connect mg (h_db h) of
         (s, Inl e) \<Rightarrow> (h\<lparr>h_db := s\<rparr>, Inl e)
       | (s, Inr _) \<Rightarrow> (h\<lparr>h_db := s, h_ready := True, h_active := h_active h + 1\<rparr>, Inr ())))"

definition end_operation :: "'s history \<Rightarrow> 's history" where
  "end_operation h = h\<lparr>h_active := h_active h - 1\<rparr>"

interpretation operation: lease_pool "begin_operation mg S" end_operation h_active for mg S
  by unfold_locales (auto simp: begin_operation_def end_operation_def split: if_splits prod.splits sum.splits)

text \<open>Errors of the driver leave the operation as an unconfirmed one.\<close>

fun confirm :: "'h \<times> (raised + 'a) \<Rightarrow> 'h \<times> 'a res" where
  "confirm (h, Inr x) = (h, Inr x)"
| "confirm (h, Inl (Other e)) = (h, Inl e)"
| "confirm (h, Inl (Mongo e)) = (h, Inl HistoryUnavailable)"

definition on_db :: "('s, 'a) raw \<Rightarrow> ('s history, 'a) raw" where
  "on_db m = (\<lambda>h. case m (h_db h) of (s, r) \<Rightarrow> (h\<lparr>h_db := s\<rparr>, r))"

definition history_operation :: "'s mongo \<Rightarrow> history_settings \<Rightarrow> ('s, 'a) raw \<Rightarrow> ('s history, 'a) st" where
  "history_operation mg S body = (\<lambda>h. confirm (leased (begin_operation mg S) end_operation (\<lambda>_. on_db body) h))"

text \<open>\<open>close\<close>: no operation begins any more; the client is taken and closed when all have ended or the time is over.\<close>

definition begin_history_close :: "'s history \<Rightarrow> 's history" where
  "begin_history_close h = h\<lparr>h_closed := True\<rparr>"

definition end_history_close :: "bool \<Rightarrow> 's history \<Rightarrow> ('s history \<times> bool) option" where
  "end_history_close expired h =
     (if h_active h \<noteq> 0 \<and> \<not> expired then None else Some (h\<lparr>h_ready := False\<rparr>, h_ready h))"

definition message_limit :: "history_settings \<Rightarrow> int option \<Rightarrow> bool \<Rightarrow> int res" where
  "message_limit S value pair = (let limit = (case value of None \<Rightarrow> hs_max_messages S | Some v \<Rightarrow> v) in
     if \<not> (1 \<le> limit \<and> limit \<le> 1000) then Inl HistoryInputError
     else if pair \<and> (limit < 2 \<or> limit mod 2 \<noteq> 0 \<or> limit * hs_message_max_bytes S > MiB8) then Inl HistoryInputError
     else Inr limit)"

definition check_content :: "history_settings \<Rightarrow> pyval \<Rightarrow> unit res" where
  "check_content S v = (case v of
       PStr s \<Rightarrow> if int (length s) > hs_message_max_bytes S then Inl HistoryInputError
         else if int (utf8_len s) > hs_message_max_bytes S then Inl HistoryInputError else Inr ()
     | _ \<Rightarrow> Inl HistoryInputError)"

type_synonym chat_message = "string \<times> string"

definition stored_message :: "history_settings \<Rightarrow> pyval \<Rightarrow> chat_message res" where
  "stored_message S m = (case m of
       PDict d \<Rightarrow> (case dget d ''role'' of
           PStr role \<Rightarrow> if role \<noteq> ''user'' \<and> role \<noteq> ''assistant'' then Inl HistoryUnavailable
             else (case (check_content S (dget d ''content''), dget d ''content'') of
                 (Inr _, PStr c) \<Rightarrow> Inr (role, c) | _ \<Rightarrow> Inl HistoryUnavailable)
         | _ \<Rightarrow> Inl HistoryUnavailable)
     | _ \<Rightarrow> Inl HistoryUnavailable)"

fun stored_messages :: "history_settings \<Rightarrow> pyval list \<Rightarrow> chat_message list res" where
  "stored_messages S [] = Inr []"
| "stored_messages S (m # ms) = bindR (stored_message S m) (\<lambda>x. bindR (stored_messages S ms) (\<lambda>xs. Inr (x # xs)))"

definition messages_of :: "history_settings \<Rightarrow> dict option \<Rightarrow> chat_message list res" where
  "messages_of S doc = (case doc of None \<Rightarrow> Inr []
     | Some d \<Rightarrow> (case dget_or d ''messages'' (PList []) of PList raw \<Rightarrow> stored_messages S raw | _ \<Rightarrow> Inl HistoryUnavailable))"

definition get_history ::
  "'s mongo \<Rightarrow> history_settings \<Rightarrow> string \<Rightarrow> string \<Rightarrow> int option \<Rightarrow> ('s history, chat_message list) st" where
  "get_history mg S tenant conv max_messages =
     bindS (liftS (validate_identity tenant conv)) (\<lambda>_.
       bindS (liftS (message_limit S max_messages False)) (\<lambda>limit.
         bindS (history_operation mg S (mg_find mg (tenant, conv) (LastN limit))) (\<lambda>doc.
           liftS (messages_of S doc))))"

definition message_doc :: "chat_message \<Rightarrow> pyval" where
  "message_doc m = PDict [(''role'', PStr (fst m)), (''content'', PStr (snd m))]"

text \<open>A rejected insert did not append, so it is tried once more, without inserting; nothing else is tried again.\<close>

definition push_once :: "'s mongo \<Rightarrow> conversation \<Rightarrow> pyval list \<Rightarrow> int \<Rightarrow> ('s, unit) raw" where
  "push_once mg q ms limit = (\<lambda>s. case mg_push mg q ms limit True s of
       (s', Inl (Mongo DuplicateKey)) \<Rightarrow> (case mg_push mg q ms limit False s' of
           (s2, Inl e) \<Rightarrow> (s2, Inl e)
         | (s2, Inr r) \<Rightarrow> (s2, if \<not> acknowledged r \<or> matched_count r \<noteq> 1 then Inl (Other HistoryUnavailable) else Inr ()))
     | (s', Inl e) \<Rightarrow> (s', Inl e)
     | (s', Inr r) \<Rightarrow> (s', if \<not> acknowledged r then Inl (Other HistoryUnavailable) else Inr ()))"

definition append_messages ::
  "'s mongo \<Rightarrow> history_settings \<Rightarrow> conversation \<Rightarrow> chat_message list \<Rightarrow> int \<Rightarrow> ('s history, unit) st" where
  "append_messages mg S q ms limit =
     (if limit * hs_message_max_bytes S > MiB8 then failS HistoryInputError
      else history_operation mg S (push_once mg q (map message_doc ms) limit))"

definition append_exchange ::
  "'s mongo \<Rightarrow> history_settings \<Rightarrow> string \<Rightarrow> string \<Rightarrow> string \<Rightarrow> string \<Rightarrow> int option \<Rightarrow> ('s history, unit) st" where
  "append_exchange mg S tenant conv user assistant max_messages =
     bindS (liftS (validate_identity tenant conv)) (\<lambda>_.
       bindS (liftS (check_content S (PStr user))) (\<lambda>_.
         bindS (liftS (check_content S (PStr assistant))) (\<lambda>_.
           bindS (liftS (message_limit S max_messages True)) (\<lambda>limit.
             append_messages mg S (tenant, conv) [(''user'', user), (''assistant'', assistant)] limit))))"

definition append_turn ::
  "'s mongo \<Rightarrow> history_settings \<Rightarrow> string \<Rightarrow> string \<Rightarrow> string \<Rightarrow> string \<Rightarrow> int option \<Rightarrow> ('s history, unit) st" where
  "append_turn mg S tenant conv role content max_messages =
     bindS (liftS (validate_identity tenant conv)) (\<lambda>_.
       if role \<noteq> ''user'' \<and> role \<noteq> ''assistant'' then failS HistoryInputError
       else bindS (liftS (check_content S (PStr content))) (\<lambda>_.
         bindS (liftS (message_limit S max_messages False)) (\<lambda>limit.
           append_messages mg S (tenant, conv) [(role, content)] limit)))"

definition get_history_paginated ::
  "'s mongo \<Rightarrow> history_settings \<Rightarrow> string \<Rightarrow> string \<Rightarrow> int \<Rightarrow> int \<Rightarrow> ('s history, chat_message list) st" where
  "get_history_paginated mg S tenant conv page page_size =
     bindS (liftS (validate_identity tenant conv)) (\<lambda>_.
       bindS (liftS (message_limit S (Some page_size) False)) (\<lambda>limit.
         if page < 1 \<or> (page - 1) * limit > 2 ^ 31 - 1 then failS HistoryInputError
         else bindS (history_operation mg S (mg_find mg (tenant, conv) (PageOf ((page - 1) * limit) limit))) (\<lambda>doc.
           liftS (messages_of S doc))))"

definition clear_history :: "'s mongo \<Rightarrow> history_settings \<Rightarrow> string \<Rightarrow> string \<Rightarrow> ('s history, unit) st" where
  "clear_history mg S tenant conv =
     bindS (liftS (validate_identity tenant conv)) (\<lambda>_. history_operation mg S (mg_delete mg (tenant, conv)))"

section \<open>What MongoDB does\<close>

definition last_n :: "nat \<Rightarrow> 'a list \<Rightarrow> 'a list" where
  "last_n n xs = drop (length xs - n) xs"

definition of_doc :: "pyval list option \<Rightarrow> pyval list" where
  "of_doc d = (case d of None \<Rightarrow> [] | Some ms \<Rightarrow> ms)"

definition messages_dict :: "pyval list \<Rightarrow> dict" where
  "messages_dict ms = [(''messages'', PList ms)]"

text \<open>\<open>view s q\<close>: the stored messages of a conversation, if it has a document. A failed write is either done or not done,
  except that a duplicate key rejects it.\<close>

definition mongo_laws :: "'s mongo \<Rightarrow> ('s \<Rightarrow> conversation \<Rightarrow> pyval list option) \<Rightarrow> bool" where
  "mongo_laws mg view = (
     (\<forall>s s' r. mg_connect mg s = (s', r) \<longrightarrow> view s' = view s) \<and>
     (\<forall>q sl s s' r. mg_find mg q sl s = (s', r) \<longrightarrow> view s' = view s) \<and>
     (\<forall>q n s s' d. mg_find mg q (LastN n) s = (s', Inr d) \<longrightarrow> 0 < n \<longrightarrow>
        d = map_option (\<lambda>ms. messages_dict (last_n (nat n) ms)) (view s q)) \<and>
     (\<forall>q ms k up s s' r. mg_push mg q ms k up s = (s', Inr r) \<longrightarrow> 0 < k \<longrightarrow> acknowledged r \<longrightarrow> up \<or> matched_count r = 1 \<longrightarrow>
        view s' = (view s)(q \<mapsto> last_n (nat k) (of_doc (view s q) @ ms))) \<and>
     (\<forall>q ms k up s s' r. mg_push mg q ms k up s = (s', r) \<longrightarrow> 0 < k \<longrightarrow>
        view s' = view s \<or> view s' = (view s)(q \<mapsto> last_n (nat k) (of_doc (view s q) @ ms))) \<and>
     (\<forall>q ms k up s s'. mg_push mg q ms k up s = (s', Inl (Mongo DuplicateKey)) \<longrightarrow> view s' = view s) \<and>
     (\<forall>q s s' r. mg_delete mg q s = (s', r) \<longrightarrow> view s' = view s \<or> view s' = (view s)(q := None)) \<and>
     (\<forall>q s s'. mg_delete mg q s = (s', Inr ()) \<longrightarrow> view s' = (view s)(q := None)))"

lemma mongo_connect: "mongo_laws mg view \<Longrightarrow> mg_connect mg s = (s', r) \<Longrightarrow> view s' = view s"
  unfolding mongo_laws_def by (elim conjE) meson

lemma mongo_find: "mongo_laws mg view \<Longrightarrow> mg_find mg q sl s = (s', r) \<Longrightarrow> view s' = view s"
  unfolding mongo_laws_def by (elim conjE) meson

lemma mongo_find_last: "mongo_laws mg view \<Longrightarrow> mg_find mg q (LastN n) s = (s', Inr d) \<Longrightarrow> 0 < n \<Longrightarrow> d = map_option (\<lambda>ms. messages_dict (last_n (nat n) ms)) (view s q)"
  unfolding mongo_laws_def by (elim conjE) meson

lemma mongo_pushed: "mongo_laws mg view \<Longrightarrow> mg_push mg q ms k up s = (s', Inr r) \<Longrightarrow> 0 < k \<Longrightarrow> acknowledged r \<Longrightarrow> up \<or> matched_count r = 1 \<Longrightarrow>
   view s' = (view s)(q \<mapsto> last_n (nat k) (of_doc (view s q) @ ms))"
  unfolding mongo_laws_def by (elim conjE) meson

lemma mongo_push: "mongo_laws mg view \<Longrightarrow> mg_push mg q ms k up s = (s', r) \<Longrightarrow> 0 < k \<Longrightarrow>
   view s' = view s \<or> view s' = (view s)(q \<mapsto> last_n (nat k) (of_doc (view s q) @ ms))"
  unfolding mongo_laws_def by (elim conjE) meson

lemma mongo_duplicate: "mongo_laws mg view \<Longrightarrow> mg_push mg q ms k up s = (s', Inl (Mongo DuplicateKey)) \<Longrightarrow> view s' = view s"
  unfolding mongo_laws_def by (elim conjE) meson

lemma mongo_delete: "mongo_laws mg view \<Longrightarrow> mg_delete mg q s = (s', r) \<Longrightarrow> view s' = view s \<or> view s' = (view s)(q := None)"
  unfolding mongo_laws_def by (elim conjE) meson

definition kept :: "('s \<Rightarrow> conversation \<Rightarrow> pyval list option) \<Rightarrow> 's history \<Rightarrow> conversation \<Rightarrow> pyval list option" where
  "kept view h = view (h_db h)"

lemma confirm_iff: "confirm x = (h, r) \<longleftrightarrow> fst x = h \<and>
    (case snd x of Inr y \<Rightarrow> r = Inr y | Inl (Other e) \<Rightarrow> r = Inl e | Inl (Mongo e) \<Rightarrow> r = Inl HistoryUnavailable)"
  by (cases x; cases "snd x") (auto split: raised.splits)

lemma history_operation_cases:
  assumes "mongo_laws mg view" "history_operation mg S body h = (h', r)"
  obtains (refused) e where "r = Inl e" "kept view h' = kept view h"
  | (ran) s1 s2 b where "view s1 = kept view h" "body s1 = (s2, b)" "h_db h' = s2" "r = snd (confirm (h, b))"
proof -
  obtain h1 q where q: "begin_operation mg S h = (h1, q)" by (rule prod.exhaust)
  have v: "view (h_db h1) = kept view h"
    using q mongo_connect[OF assms(1)] by (auto simp: begin_operation_def kept_def split: if_splits prod.splits sum.splits)
  show ?thesis
  proof (cases q)
    case (Inl e)
    then have "h' = h1" "\<exists>e'. r = Inl e'" using assms(2) q
      by (auto simp: history_operation_def leased_def confirm_iff split: raised.splits)
    then show ?thesis using refused v by (auto simp: kept_def)
  next
    case (Inr u)
    obtain s2 b where b: "body (h_db h1) = (s2, b)" by (rule prod.exhaust)
    have "h_db h' = s2" "r = snd (confirm (h, b))" using assms(2) q Inr b
      by (auto simp: history_operation_def leased_def confirm_iff on_db_def end_operation_def split: sum.splits raised.splits)
    then show ?thesis using ran[OF v b] by blast
  qed
qed

lemma push_once_effect:
  assumes "mongo_laws mg view" "push_once mg q ms k s = (s', r)" "0 < k"
  shows "view s' = view s \<or> view s' = (view s)(q \<mapsto> last_n (nat k) (of_doc (view s q) @ ms))"
    "r = Inr () \<Longrightarrow> view s' = (view s)(q \<mapsto> last_n (nat k) (of_doc (view s q) @ ms))"
proof -
  obtain s1 r1 where p: "mg_push mg q ms k True s = (s1, r1)" by (rule prod.exhaust)
  note first = mongo_push[OF assms(1) p assms(3)]
  show "view s' = view s \<or> view s' = (view s)(q \<mapsto> last_n (nat k) (of_doc (view s q) @ ms))"
  proof (cases "r1 = Inl (Mongo DuplicateKey)")
    case True
    obtain s2 r2 where p2: "mg_push mg q ms k False s1 = (s2, r2)" by (rule prod.exhaust)
    have "view s1 = view s" using mongo_duplicate[OF assms(1)] p True by blast
    moreover have "s' = s2" using assms(2) p p2 True by (auto simp: push_once_def split: sum.splits)
    ultimately show ?thesis using mongo_push[OF assms(1) p2 assms(3)] by simp
  next
    case False
    then have "s' = s1" using assms(2) p by (auto simp: push_once_def split: sum.splits raised.splits mongo_error.splits)
    then show ?thesis using first by simp
  qed
  assume ok: "r = Inr ()"
  show "view s' = (view s)(q \<mapsto> last_n (nat k) (of_doc (view s q) @ ms))"
  proof (cases r1)
    case (Inr u)
    then have "s' = s1" "acknowledged u" using assms(2) p ok by (auto simp: push_once_def split: if_splits)
    then show ?thesis using mongo_pushed[OF assms(1) p[unfolded Inr] assms(3)] by simp
  next
    case (Inl e)
    then have e: "e = Mongo DuplicateKey" using assms(2) p ok
      by (auto simp: push_once_def split: raised.splits mongo_error.splits)
    obtain s2 r2 where p2: "mg_push mg q ms k False s1 = (s2, r2)" by (rule prod.exhaust)
    have "view s1 = view s" using mongo_duplicate[OF assms(1)] p Inl e by blast
    moreover obtain u where u: "r2 = Inr u" "s' = s2" "acknowledged u" "matched_count u = 1"
      using assms(2) p p2 Inl e ok by (cases r2) (auto simp: push_once_def split: if_splits)
    ultimately show ?thesis using mongo_pushed[OF assms(1) p2[unfolded u(1)] assms(3) u(3)] u by simp
  qed
qed

lemma append_messages_effect:
  assumes "mongo_laws mg view" "append_messages mg S q ms k h = (h', r)" "0 < k"
  shows "kept view h' = kept view h \<or> kept view h' = (kept view h)(q \<mapsto> last_n (nat k) (of_doc (kept view h q) @ map message_doc ms))"
    "r = Inr () \<Longrightarrow> kept view h' = (kept view h)(q \<mapsto> last_n (nat k) (of_doc (kept view h q) @ map message_doc ms))"
proof -
  have "(kept view h' = kept view h \<or> kept view h' = (kept view h)(q \<mapsto> last_n (nat k) (of_doc (kept view h q) @ map message_doc ms))) \<and>
    (r = Inr () \<longrightarrow> kept view h' = (kept view h)(q \<mapsto> last_n (nat k) (of_doc (kept view h q) @ map message_doc ms)))"
  proof (cases "k * hs_message_max_bytes S > MiB8")
    case True
    then show ?thesis using assms(2) by (auto simp: append_messages_def)
  next
    case False
    then have op: "history_operation mg S (push_once mg q (map message_doc ms) k) h = (h', r)"
      using assms(2) by (simp add: append_messages_def)
    show ?thesis using assms(1) op
    proof (cases rule: history_operation_cases)
      case (refused e) then show ?thesis by simp
    next
      case (ran s1 s2 b)
      have "r = Inr () \<Longrightarrow> b = Inr ()" using ran(4) by (cases b; cases "projl b") auto
      moreover have "kept view h' = view s2" by (simp add: kept_def ran(3))
      ultimately show ?thesis using push_once_effect[OF assms(1) ran(2) assms(3)] unfolding ran(1) by metis
    qed
  qed
  then show "kept view h' = kept view h \<or> kept view h' = (kept view h)(q \<mapsto> last_n (nat k) (of_doc (kept view h q) @ map message_doc ms))"
    "r = Inr () \<Longrightarrow> kept view h' = (kept view h)(q \<mapsto> last_n (nat k) (of_doc (kept view h q) @ map message_doc ms))" by blast+
qed

lemma message_limit_Inr:
  assumes "message_limit S value pair = Inr limit"
  shows "1 \<le> limit" "limit \<le> 1000" "pair \<Longrightarrow> limit mod 2 = 0"
    "limit = (case value of None \<Rightarrow> hs_max_messages S | Some v \<Rightarrow> v)"
  using assms by (auto simp: message_limit_def Let_def split: if_splits option.splits)

definition exchange_docs :: "string \<Rightarrow> string \<Rightarrow> pyval list" where
  "exchange_docs user assistant = [message_doc (''user'', user), message_doc (''assistant'', assistant)]"

text \<open>An exchange that was refused by the validation, or appended by the store.\<close>

lemma append_exchange_cases:
  assumes "append_exchange mg S tenant conv user assistant max_messages h = (h', r)"
  obtains (refused) e where "r = Inl e" "h' = h"
  | (tried) limit where "message_limit S max_messages True = Inr limit" "check_content S (PStr user) = Inr ()" "check_content S (PStr assistant) = Inr ()"
      "append_messages mg S (tenant, conv) [(''user'', user), (''assistant'', assistant)] limit h = (h', r)"
proof -
  have "(\<exists>e. r = Inl e \<and> h' = h) \<or> (\<exists>limit. message_limit S max_messages True = Inr limit \<and> check_content S (PStr user) = Inr () \<and>
      check_content S (PStr assistant) = Inr () \<and>
      append_messages mg S (tenant, conv) [(''user'', user), (''assistant'', assistant)] limit h = (h', r))"
    using assms unfolding append_exchange_def bindS_liftS by (auto split: sum.splits)
  then show ?thesis using that by blast
qed

lemma append_at_most_once_facts:
  assumes "mongo_laws mg view" "append_exchange mg S tenant conv user assistant max_messages h = (h', r)"
  shows "kept view h' = kept view h \<or> (\<exists>limit. message_limit S max_messages True = Inr limit \<and>
      kept view h' = (kept view h)((tenant, conv) \<mapsto> last_n (nat limit) (of_doc (kept view h (tenant, conv)) @ exchange_docs user assistant)))"
    "r = Inr () \<Longrightarrow> \<exists>limit. message_limit S max_messages True = Inr limit \<and>
      kept view h' = (kept view h)((tenant, conv) \<mapsto> last_n (nat limit) (of_doc (kept view h (tenant, conv)) @ exchange_docs user assistant))"
proof -
  have "(kept view h' = kept view h \<and> r \<noteq> Inr ()) \<or> (\<exists>limit. message_limit S max_messages True = Inr limit \<and>
      (kept view h' = kept view h \<and> r \<noteq> Inr () \<or>
       kept view h' = (kept view h)((tenant, conv) \<mapsto> last_n (nat limit) (of_doc (kept view h (tenant, conv)) @ exchange_docs user assistant))))"
    using assms(2)
  proof (cases rule: append_exchange_cases)
    case (refused e) then show ?thesis by simp
  next
    case (tried limit)
    have "0 < limit" using message_limit_Inr(1)[OF tried(1)] by simp
    note eff = append_messages_effect[OF assms(1) tried(4) this]
    show ?thesis using tried(1) eff by (intro disjI2 exI[of _ limit]) (auto simp: exchange_docs_def)
  qed
  then show "kept view h' = kept view h \<or> (\<exists>limit. message_limit S max_messages True = Inr limit \<and>
      kept view h' = (kept view h)((tenant, conv) \<mapsto> last_n (nat limit) (of_doc (kept view h (tenant, conv)) @ exchange_docs user assistant)))"
    "r = Inr () \<Longrightarrow> \<exists>limit. message_limit S max_messages True = Inr limit \<and>
      kept view h' = (kept view h)((tenant, conv) \<mapsto> last_n (nat limit) (of_doc (kept view h (tenant, conv)) @ exchange_docs user assistant))"
    by blast+
qed

text \<open>C29 (safety): an exchange is appended at most once and never to another conversation: whatever the driver answers, the
  stored conversations are unchanged, or the one of the call has the two messages at its end, cut to the limit. When
  the call returns, they are there.\<close>

theorem append_at_most_once:
  assumes "mongo_laws mg view" "append_exchange mg S tenant conv user assistant max_messages h = (h', r)"
  shows "(kept view h' = kept view h \<or> (\<exists>limit. message_limit S max_messages True = Inr limit \<and>
      kept view h' = (kept view h)((tenant, conv) \<mapsto> last_n (nat limit) (of_doc (kept view h (tenant, conv)) @ exchange_docs user assistant)))) \<and>
    (r = Inr () \<longrightarrow> (\<exists>limit. message_limit S max_messages True = Inr limit \<and>
      kept view h' = (kept view h)((tenant, conv) \<mapsto> last_n (nat limit) (of_doc (kept view h (tenant, conv)) @ exchange_docs user assistant))))"
  using append_at_most_once_facts[OF assms] by (intro conjI impI)

lemma last_n_last_n: "m \<le> n \<Longrightarrow> last_n m (last_n n xs @ ys) = last_n m (xs @ ys)"
  by (cases "n \<le> length xs") (simp_all add: last_n_def algebra_simps)

lemma last_n_map: "map f (last_n n xs) = last_n n (map f xs)"
  by (simp add: last_n_def drop_map)

lemma stored_messages_append:
  "stored_messages S (xs @ ys) = bindR (stored_messages S xs) (\<lambda>us. bindR (stored_messages S ys) (\<lambda>vs. Inr (us @ vs)))"
proof (induction xs)
  case Nil show ?case by (cases "stored_messages S ys") auto
next
  case (Cons x xs) then show ?case
    by (cases "stored_message S x"; cases "stored_messages S xs"; cases "stored_messages S ys") auto
qed

lemma stored_messages_drop: "stored_messages S xs = Inr us \<Longrightarrow> stored_messages S (drop n xs) = Inr (drop n us) \<and> length us = length xs"
  by (induction xs arbitrary: us n) (auto simp: drop_Cons')

lemma stored_messages_last_n: "stored_messages S xs = Inr us \<Longrightarrow> stored_messages S (last_n n xs) = Inr (last_n n us)"
  using stored_messages_drop[of S xs us] by (simp add: last_n_def)

lemma stored_message_doc:
  assumes "role \<in> {''user'', ''assistant''}" "check_content S (PStr content) = Inr ()"
  shows "stored_message S (message_doc (role, content)) = Inr (role, content)"
  using assms by (auto simp: stored_message_def message_doc_def dget_def)

lemma get_history_result:
  assumes "mongo_laws mg view" "get_history mg S tenant conv max_messages h = (h', r)"
  shows "kept view h' = kept view h"
    "r = Inr ms \<Longrightarrow> \<exists>limit. message_limit S max_messages False = Inr limit \<and>
       stored_messages S (last_n (nat limit) (of_doc (kept view h (tenant, conv)))) = Inr ms"
proof -
  have "kept view h' = kept view h \<and> (r = Inr ms \<longrightarrow> (\<exists>limit. message_limit S max_messages False = Inr limit \<and>
       stored_messages S (last_n (nat limit) (of_doc (kept view h (tenant, conv)))) = Inr ms))"
  proof (cases "validate_identity tenant conv")
    case (Inl e) then show ?thesis using assms(2) by (auto simp: get_history_def bindS_def liftS_def)
  next
    case v: (Inr u)
    show ?thesis
    proof (cases "message_limit S max_messages False")
      case (Inl e) then show ?thesis using assms(2) v by (auto simp: get_history_def bindS_def liftS_def)
    next
      case (Inr limit)
      obtain h1 q where op: "history_operation mg S (mg_find mg (tenant, conv) (LastN limit)) h = (h1, q)" by (rule prod.exhaust)
      have h1: "h' = h1" "r = bindR q (messages_of S)" using assms(2) v Inr op
        by (cases q; simp add: get_history_def bindS_def liftS_def)+
      show ?thesis using assms(1) op
      proof (cases rule: history_operation_cases)
        case (refused e) then show ?thesis using h1 by simp
      next
        case (ran s1 s2 b)
        have k: "kept view h' = kept view h" using mongo_find[OF assms(1) ran(2)] ran(1,3) h1(1) by (simp add: kept_def)
        have "stored_messages S (last_n (nat limit) (of_doc (kept view h (tenant, conv)))) = Inr ms" if ok: "r = Inr ms"
        proof -
          obtain d where b: "b = Inr d" "messages_of S d = Inr ms" using ok h1(2) ran(4) by (cases b; cases "projl b") auto
          have "0 < limit" using message_limit_Inr(1)[OF Inr] by simp
          with mongo_find_last[OF assms(1) ran(2)[unfolded b(1)]]
          have "d = map_option (\<lambda>ms. messages_dict (last_n (nat limit) ms)) (kept view h (tenant, conv))" unfolding ran(1) by simp
          then show ?thesis using b(2)
            by (cases "kept view h (tenant, conv)") (simp_all add: messages_of_def of_doc_def last_n_def messages_dict_def dget_or_def)
        qed
        then show ?thesis using k Inr by blast
      qed
    qed
  qed
  then show "kept view h' = kept view h"
    "r = Inr ms \<Longrightarrow> \<exists>limit. message_limit S max_messages False = Inr limit \<and>
       stored_messages S (last_n (nat limit) (of_doc (kept view h (tenant, conv)))) = Inr ms" by blast+
qed

text \<open>(roundtrip): what is read after an append is what was read before it, the exchange at its end, cut to the limit.\<close>

lemma history_roundtrip:
  assumes "mongo_laws mg view" "get_history mg S tenant conv limit h = (h1, Inr before)"
    and "append_exchange mg S tenant conv user assistant limit h1 = (h2, Inr ())"
    and "get_history mg S tenant conv limit h2 = (h3, Inr later)"
  shows "later = last_n (nat (case limit of None \<Rightarrow> hs_max_messages S | Some n \<Rightarrow> n)) (before @ [(''user'', user), (''assistant'', assistant)])"
proof -
  obtain n where n: "message_limit S limit True = Inr n" "check_content S (PStr user) = Inr ()" "check_content S (PStr assistant) = Inr ()"
      "append_messages mg S (tenant, conv) [(''user'', user), (''assistant'', assistant)] n h1 = (h2, Inr ())"
    using assms(3) by (cases rule: append_exchange_cases) auto
  define N where "N = nat n"
  have lim: "n = (case limit of None \<Rightarrow> hs_max_messages S | Some n \<Rightarrow> n)" "0 < n" using message_limit_Inr(1,4)[OF n(1)] by auto
  have b: "stored_messages S (last_n N (of_doc (kept view h (tenant, conv)))) = Inr before"
    using get_history_result(2)[OF assms(1,2) refl] lim(1) message_limit_Inr(4) by (fastforce simp: N_def)
  have a: "stored_messages S (last_n N (of_doc (kept view h2 (tenant, conv)))) = Inr later"
    using get_history_result(2)[OF assms(1,4) refl] lim(1) message_limit_Inr(4) by (fastforce simp: N_def)
  let ?old = "of_doc (kept view h (tenant, conv))" and ?docs = "exchange_docs user assistant"
  have "kept view h2 (tenant, conv) = Some (last_n N (?old @ ?docs))"
    using append_messages_effect(2)[OF assms(1) n(4) lim(2)] get_history_result(1)[OF assms(1,2)] by (simp add: N_def exchange_docs_def)
  then have "of_doc (kept view h2 (tenant, conv)) = last_n N (?old @ ?docs)" by (simp add: of_doc_def)
  then have "last_n N (of_doc (kept view h2 (tenant, conv))) = last_n N (last_n N ?old @ ?docs)"
    using last_n_last_n[of N N ?old ?docs] last_n_last_n[of N N "?old @ ?docs" "[]"] by simp
  moreover have "stored_messages S (last_n N ?old @ ?docs) = Inr (before @ [(''user'', user), (''assistant'', assistant)])"
    using b n(2,3) by (simp add: stored_messages_append exchange_docs_def stored_message_doc)
  ultimately have "stored_messages S (last_n N (of_doc (kept view h2 (tenant, conv)))) =
      Inr (last_n N (before @ [(''user'', user), (''assistant'', assistant)]))"
    by (simp add: stored_messages_last_n)
  with a have "later = last_n N (before @ [(''user'', user), (''assistant'', assistant)])" by simp
  then show ?thesis using lim(1) by (simp add: N_def)
qed

text \<open>A collection kept as a map that never fails, for examples.\<close>

definition map_mongo :: "(conversation \<rightharpoonup> pyval list) mongo" where
  "map_mongo = \<lparr>mg_connect = \<lambda>s. (s, Inr ()),
     mg_find = \<lambda>q sl s. (s, Inr (map_option (\<lambda>ms. messages_dict (case sl of
        LastN n \<Rightarrow> last_n (nat n) ms | PageOf k n \<Rightarrow> take (nat n) (drop (nat k) ms))) (s q))),
     mg_push = \<lambda>q ms k up s. (if up \<or> s q \<noteq> None then s(q \<mapsto> last_n (nat k) (of_doc (s q) @ ms)) else s,
        Inr \<lparr>acknowledged = True, matched_count = (if s q = None then 0 else 1)\<rparr>),
     mg_delete = \<lambda>q s. (s(q := None), Inr ())\<rparr>"

lemma map_mongo_laws: "mongo_laws map_mongo (\<lambda>s. s)"
  unfolding mongo_laws_def map_mongo_def by (simp split: if_splits)

definition small_history :: history_settings where
  "small_history = \<lparr>hs_uri = ''mongodb://x'', hs_database = ''ally'', hs_max_messages = 2, hs_message_max_bytes = 1024,
     hs_connect_timeout_ms = 2000, hs_operation_timeout_ms = 3000, hs_max_pool_size = 1\<rparr>"

definition ready_history :: "(conversation \<rightharpoonup> pyval list) \<Rightarrow> (conversation \<rightharpoonup> pyval list) history" where
  "ready_history s = \<lparr>h_ready = True, h_active = 0, h_closed = False, h_db = s\<rparr>"

lemma example_identity: "validate_identity ''t'' ''c'' = Inr ()"
  by code_simp

lemma example_append:
  "append_exchange map_mongo small_history ''t'' ''c'' ''hi'' ''yes'' None (ready_history s) =
     (ready_history (s((''t'', ''c'') \<mapsto> last_n 2 (of_doc (s (''t'', ''c'')) @ exchange_docs ''hi'' ''yes''))), Inr ())"
  by (simp add: append_exchange_def bindS_liftS example_identity check_content_def small_history_def utf8_len_def code_def
      message_limit_def Let_def MiB8_def append_messages_def history_operation_def leased_def begin_operation_def end_operation_def
      ready_history_def on_db_def push_once_def map_mongo_def exchange_docs_def)

lemma example_get:
  "get_history map_mongo small_history ''t'' ''c'' None (ready_history s) =
     (ready_history s, stored_messages small_history (last_n 2 (of_doc (s (''t'', ''c'')))))"
  by (cases "s (''t'', ''c'')")
    (simp_all add: get_history_def bindS_liftS example_identity small_history_def message_limit_def Let_def
      history_operation_def leased_def begin_operation_def end_operation_def bindS_def liftS_def
      ready_history_def on_db_def map_mongo_def messages_of_def messages_dict_def dget_or_def of_doc_def last_n_def)

lemma example_stored: "stored_messages small_history (exchange_docs a b) =
    (if check_content small_history (PStr a) = Inr () \<and> check_content small_history (PStr b) = Inr ()
     then Inr [(''user'', a), (''assistant'', b)] else Inl HistoryUnavailable)"
  by (auto simp: exchange_docs_def stored_message_def message_doc_def dget_def split: sum.splits)

theorem append_at_most_once_witness:
  "kept (\<lambda>s. s) (ready_history [(''t'', ''c'') \<mapsto> exchange_docs ''hi'' ''yes'']) (''t'', ''c'') = Some (exchange_docs ''hi'' ''yes'')"
proof -
  from append_at_most_once[OF map_mongo_laws example_append[of "\<lambda>q. None"]]
  have "kept (\<lambda>s. s) (ready_history [(''t'', ''c'') \<mapsto> last_n 2 (of_doc None @ exchange_docs ''hi'' ''yes'')]) (''t'', ''c'') =
      Some (last_n 2 (exchange_docs ''hi'' ''yes''))"
    by (auto simp: message_limit_def small_history_def kept_def ready_history_def of_doc_def MiB8_def)
  then show ?thesis by (simp add: kept_def ready_history_def of_doc_def last_n_def exchange_docs_def)
qed

lemma history_roundtrip_witness:
  "snd (get_history map_mongo small_history ''t'' ''c'' None
     (ready_history [(''t'', ''c'') \<mapsto> last_n 2 (exchange_docs ''no'' ''no'' @ exchange_docs ''hi'' ''yes'')])) = Inr [(''user'', ''hi''), (''assistant'', ''yes'')]"
proof -
  let ?s = "[(''t'', ''c'') \<mapsto> exchange_docs ''no'' ''no'']"
  have c: "check_content small_history (PStr x) = Inr ()" if "x \<in> {''no'', ''hi'', ''yes''}" for x
    using that by (auto simp: check_content_def small_history_def utf8_len_def code_def)
  have l: "last_n 2 (exchange_docs a b) = exchange_docs a b" "last_n 2 (exchange_docs a' b' @ exchange_docs a b) = exchange_docs a b" for a b a' b'
    by (simp_all add: last_n_def exchange_docs_def)
  have g1: "get_history map_mongo small_history ''t'' ''c'' None (ready_history ?s) = (ready_history ?s, Inr [(''user'', ''no''), (''assistant'', ''no'')])"
    by (simp add: example_get of_doc_def l example_stored c)
  let ?s' = "?s((''t'', ''c'') \<mapsto> last_n 2 (of_doc (?s (''t'', ''c'')) @ exchange_docs ''hi'' ''yes''))"
  have g2: "get_history map_mongo small_history ''t'' ''c'' None (ready_history ?s') = (ready_history ?s', Inr [(''user'', ''hi''), (''assistant'', ''yes'')])"
    by (simp add: example_get of_doc_def l example_stored c)
  have "[(''user'', ''hi''), (''assistant'', ''yes'')] =
      last_n (nat (case None of None \<Rightarrow> hs_max_messages small_history | Some n \<Rightarrow> n))
        ([(''user'', ''no''), (''assistant'', ''no'')] @ [(''user'', ''hi''), (''assistant'', ''yes'')])"
    by (rule history_roundtrip[OF map_mongo_laws g1 example_append g2])
  then show ?thesis using g2 by (simp add: of_doc_def)
qed

section \<open>Complete pairs\<close>

definition has_role :: "string \<Rightarrow> pyval \<Rightarrow> bool" where
  "has_role role m = (case m of PDict d \<Rightarrow> dget d ''role'' = PStr role | _ \<Rightarrow> False)"

fun paired :: "pyval list \<Rightarrow> bool" where
  "paired [] = True"
| "paired [m] = False"
| "paired (m # n # ms) = (has_role ''user'' m \<and> has_role ''assistant'' n \<and> paired ms)"

lemma paired_length: "paired ms \<Longrightarrow> even (length ms)"
  by (induction ms rule: paired.induct) auto

lemma paired_append: "paired xs \<Longrightarrow> paired ys \<Longrightarrow> paired (xs @ ys)"
  by (induction xs rule: paired.induct) auto

lemma paired_drop: "even n \<Longrightarrow> paired xs \<Longrightarrow> paired (drop n xs)"
proof (induction xs arbitrary: n rule: paired.induct)
  case (3 m k ms)
  then show ?case by (cases n; cases "n - 1") (auto elim: oddE)
qed auto

lemma paired_last_n: "even n \<Longrightarrow> paired xs \<Longrightarrow> paired (last_n n xs)"
  using paired_length[of xs] by (auto simp: last_n_def intro!: paired_drop)

lemma paired_exchange: "paired (exchange_docs user assistant)"
  by (simp add: exchange_docs_def has_role_def message_doc_def dget_def)

lemma length_last_n: "length (last_n n xs) \<le> n"
  by (simp add: last_n_def)

datatype history_op =
    ReadHistory string string "int option"
  | ReadPage string string int int
  | AppendExchange string string string string "int option"
  | ClearHistory string string

definition run_history_op :: "'s mongo \<Rightarrow> history_settings \<Rightarrow> history_op \<Rightarrow> 's history \<Rightarrow> 's history" where
  "run_history_op mg S op h = (case op of
       ReadHistory t c n \<Rightarrow> fst (get_history mg S t c n h)
     | ReadPage t c p n \<Rightarrow> fst (get_history_paginated mg S t c p n h)
     | AppendExchange t c u a n \<Rightarrow> fst (append_exchange mg S t c u a n h)
     | ClearHistory t c \<Rightarrow> fst (clear_history mg S t c h))"

definition well_paired :: "('s \<Rightarrow> conversation \<Rightarrow> pyval list option) \<Rightarrow> 's history \<Rightarrow> bool" where
  "well_paired view h = (\<forall>q ms. kept view h q = Some ms \<longrightarrow> paired ms \<and> length ms \<le> 1000)"

lemma history_operation_keeps:
  assumes "mongo_laws mg view" "history_operation mg S body h = (h', r)"
    and "\<And>s s' b. body s = (s', b) \<Longrightarrow> view s = kept view h \<Longrightarrow> P (view s')" "P (kept view h)"
  shows "P (kept view h')"
  using assms(1,2)
proof (cases rule: history_operation_cases)
  case (refused e) then show ?thesis using assms(4) by simp
next
  case (ran s1 s2 b) then show ?thesis using assms(3)[OF ran(2,1)] by (simp add: kept_def)
qed

lemma run_history_op_paired:
  assumes laws: "mongo_laws mg view" and w: "well_paired view h"
  shows "well_paired view (run_history_op mg S op h)"
proof (cases op)
  case (ReadHistory t c n)
  then show ?thesis using get_history_result(1)[OF laws, of S t c n h] w
    by (cases "get_history mg S t c n h") (simp add: run_history_op_def well_paired_def)
next
  case (AppendExchange t c u a n)
  obtain h' r where e: "append_exchange mg S t c u a n h = (h', r)" by (rule prod.exhaust)
  have "well_paired view h'" using e
  proof (cases rule: append_exchange_cases)
    case (refused e) then show ?thesis using w by simp
  next
    case (tried k)
    have k: "0 < k" "k \<le> 1000" "k mod 2 = 0" using message_limit_Inr[OF tried(1)] by auto
    have ev: "even (nat k)" using k by (simp add: even_nat_iff) presburger
    let ?new = "last_n (nat k) (of_doc (kept view h (t, c)) @ exchange_docs u a)"
    have "paired (of_doc (kept view h (t, c)))" using w by (cases "kept view h (t, c)") (auto simp: well_paired_def of_doc_def)
    then have "paired ?new" by (intro paired_last_n ev paired_append paired_exchange)
    moreover have "length ?new \<le> 1000" using length_last_n[of "nat k" "of_doc (kept view h (t, c)) @ exchange_docs u a"] k by linarith
    moreover have "kept view h' = kept view h \<or> kept view h' = (kept view h)((t, c) \<mapsto> ?new)"
      using append_messages_effect(1)[OF laws tried(4) k(1)] by (simp add: exchange_docs_def)
    ultimately show ?thesis using w by (auto simp: well_paired_def split: if_splits)
  qed
  then show ?thesis by (simp add: run_history_op_def AppendExchange e)
next
  case (ReadPage t c p n)
  have "well_paired view h'" if "get_history_paginated mg S t c p n h = (h', r)" for h' r
  proof -
    have "h' = h \<or> (\<exists>k l q. history_operation mg S (mg_find mg (t, c) (PageOf k l)) h = (h', q))"
      using that by (auto simp: get_history_paginated_def bindS_liftS bindS_def liftS_def split: sum.splits if_splits prod.splits)
    moreover have "kept view h' = kept view h" if "history_operation mg S (mg_find mg (t, c) (PageOf k l)) h = (h', q)" for k l q
      using history_operation_keeps[OF laws that, of "\<lambda>v. v = kept view h"] mongo_find[OF laws] by metis
    ultimately show ?thesis using w unfolding well_paired_def by metis
  qed
  then show ?thesis by (cases "get_history_paginated mg S t c p n h") (simp add: run_history_op_def ReadPage)
next
  case (ClearHistory t c)
  have "well_paired view h'" if "clear_history mg S t c h = (h', r)" for h' r
  proof -
    have "h' = h \<or> history_operation mg S (mg_delete mg (t, c)) h = (h', r)"
      using that by (auto simp: clear_history_def bindS_liftS split: sum.splits)
    moreover have "kept view h' = kept view h \<or> kept view h' = (kept view h)((t, c) := None)"
      if "history_operation mg S (mg_delete mg (t, c)) h = (h', r)"
      using history_operation_keeps[OF laws that, of "\<lambda>v. v = kept view h \<or> v = (kept view h)((t, c) := None)"] mongo_delete[OF laws] by metis
    ultimately have "kept view h' = kept view h \<or> kept view h' = (kept view h)((t, c) := None)" by auto
    then show ?thesis using w by (auto simp: well_paired_def split: if_splits)
  qed
  then show ?thesis by (cases "clear_history mg S t c h") (simp add: run_history_op_def ClearHistory)
qed

text \<open>(invariant): whatever sequence of reads, pages, exchanges and clearings is run, with whatever limits, and whatever fails
  of it, every stored conversation stays a sequence of complete pairs, a user message and its answer, of at most 1000
  messages.\<close>

lemma history_complete_pairs:
  assumes "mongo_laws mg view" "well_paired view h"
  shows "\<forall>q ms. kept view (fold (run_history_op mg S) ops h) q = Some ms \<longrightarrow> paired ms \<and> length ms \<le> 1000"
proof -
  have "well_paired view (fold (run_history_op mg S) ops h)"
    using assms(2) by (induction ops arbitrary: h) (auto intro: run_history_op_paired[OF assms(1)])
  then show ?thesis by (simp add: well_paired_def)
qed

lemma history_complete_pairs_witness:
  "\<forall>q ms. kept (\<lambda>s. s) (fold (run_history_op map_mongo small_history) [AppendExchange ''t'' ''c'' ''hi'' ''yes'' None, ClearHistory ''t'' ''d'']
      (ready_history (\<lambda>q. None))) q = Some ms \<longrightarrow> paired ms \<and> length ms \<le> 1000"
  by (rule history_complete_pairs[OF map_mongo_laws]) (simp add: well_paired_def kept_def ready_history_def)

section \<open>Capacity and closing\<close>

text \<open>The threads inside an operation, whether somebody waits in \<open>close\<close>, and whether the client was closed while an
  operation still ran. A body may do anything to the database.\<close>

record ('s, 'p) history_world =
  hw_store :: "'s history"
  hw_inside :: "'p set"
  hw_waiting :: nat
  hw_cut :: bool

inductive history_step :: "'s mongo \<Rightarrow> history_settings \<Rightarrow> ('s, 'p) history_world \<Rightarrow> ('s, 'p) history_world \<Rightarrow> bool"
  for mg S where
  begun: "p \<notin> hw_inside w \<Longrightarrow> begin_operation mg S (hw_store w) = (h, Inr ()) \<Longrightarrow>
    history_step mg S w (w\<lparr>hw_store := h, hw_inside := insert p (hw_inside w)\<rparr>)"
| refused: "begin_operation mg S (hw_store w) = (h, Inl e) \<Longrightarrow> history_step mg S w (w\<lparr>hw_store := h\<rparr>)"
| body: "p \<in> hw_inside w \<Longrightarrow> history_step mg S w (w\<lparr>hw_store := (hw_store w)\<lparr>h_db := s\<rparr>\<rparr>)"
| ended: "p \<in> hw_inside w \<Longrightarrow> history_step mg S w (w\<lparr>hw_store := end_operation (hw_store w), hw_inside := hw_inside w - {p}\<rparr>)"
| close: "history_step mg S w (w\<lparr>hw_store := begin_history_close (hw_store w), hw_waiting := Suc (hw_waiting w)\<rparr>)"
| closed: "0 < hw_waiting w \<Longrightarrow> end_history_close expired (hw_store w) = Some (h, client) \<Longrightarrow>
    history_step mg S w (w\<lparr>hw_store := h, hw_waiting := hw_waiting w - 1, hw_cut := hw_cut w \<or> (client \<and> hw_inside w \<noteq> {} \<and> expired)\<rparr>)"

inductive history_reach :: "'s mongo \<Rightarrow> history_settings \<Rightarrow> ('s, 'p) history_world \<Rightarrow> bool" for mg S where
  start: "history_reach mg S \<lparr>hw_store = new_history s, hw_inside = {}, hw_waiting = 0, hw_cut = False\<rparr>"
| step: "history_reach mg S w \<Longrightarrow> history_step mg S w w' \<Longrightarrow> history_reach mg S w'"

definition history_inv :: "history_settings \<Rightarrow> ('s, 'p) history_world \<Rightarrow> bool" where
  "history_inv S w = (finite (hw_inside w) \<and> h_active (hw_store w) = int (card (hw_inside w)) \<and>
     (hw_inside w \<noteq> {} \<longrightarrow> h_active (hw_store w) \<le> hs_max_pool_size S * 2) \<and>
     (hw_inside w \<noteq> {} \<and> \<not> hw_cut w \<longrightarrow> h_ready (hw_store w)) \<and>
     (hw_waiting w \<noteq> 0 \<longrightarrow> h_closed (hw_store w)) \<and> (hw_cut w \<longrightarrow> h_closed (hw_store w)))"

lemma history_step_inv:
  assumes "history_step mg S w w'" "history_inv S w"
  shows "history_inv S w'"
  using assms(1)
proof cases
  case (begun p h)
  then show ?thesis using assms(2)
    by (auto simp: history_inv_def begin_operation_def split: if_splits prod.splits sum.splits)
next
  case (refused h e)
  then show ?thesis using assms(2)
    by (auto simp: history_inv_def begin_operation_def split: if_splits prod.splits sum.splits)
next
  case (body p s)
  then show ?thesis using assms(2) by (auto simp: history_inv_def)
next
  case (ended p)
  then show ?thesis using assms(2) card_Suc_Diff1[of "hw_inside w" p] by (auto simp: history_inv_def end_operation_def)
next
  case close
  then show ?thesis using assms(2) by (auto simp: history_inv_def begin_history_close_def)
next
  case (closed expired h client)
  then show ?thesis using assms(2) by (auto simp: history_inv_def end_history_close_def split: if_splits)
qed

lemma history_reach_inv: "history_reach mg S w \<Longrightarrow> history_inv S w"
proof (induction rule: history_reach.induct)
  case (start s) then show ?case by (simp add: history_inv_def new_history_def)
next
  case (step w w') then show ?case using history_step_inv by blast
qed

text \<open>in every interleaving at most twice the pool size of operations run at once; they have the client of the
  store, unless a closing has run out of time; and once closing has begun none begins.\<close>

lemma history_capacity:
  assumes "history_reach mg S w" "0 \<le> hs_max_pool_size S"
  shows "int (card (hw_inside w)) \<le> hs_max_pool_size S * 2"
    "hw_inside w \<noteq> {} \<Longrightarrow> h_ready (hw_store w) \<or> hw_cut w"
    "hw_waiting w \<noteq> 0 \<or> hw_cut w \<Longrightarrow> begin_operation mg S (hw_store w) = (hw_store w, Inl (Other HistoryUnavailable))"
    "hw_inside w = {} \<Longrightarrow> end_history_close expired (hw_store w) \<noteq> None"
  using history_reach_inv[OF assms(1)] assms(2)
  by (cases "hw_inside w = {}"; auto simp: history_inv_def begin_operation_def end_history_close_def)+

lemma history_capacity_witness:
  "\<exists>w :: (conversation \<rightharpoonup> pyval list, nat) history_world. hw_inside w = {5} \<and> int (card (hw_inside w)) \<le> 2"
proof -
  let ?w = "\<lparr>hw_store = \<lparr>h_ready = True, h_active = 1, h_closed = False, h_db = \<lambda>q. None\<rparr>, hw_inside = {5 :: nat}, hw_waiting = 0, hw_cut = False\<rparr>"
  let ?start = "\<lparr>hw_store = new_history (\<lambda>q. None), hw_inside = {} :: nat set, hw_waiting = 0, hw_cut = False\<rparr>"
  have "begin_operation map_mongo small_history (hw_store ?start) = (hw_store ?w, Inr ())"
    by (simp add: begin_operation_def new_history_def map_mongo_def small_history_def)
  from history_step.begun[of 5 ?start, OF _ this] have "history_step map_mongo small_history ?start ?w" by simp
  from history_reach.step[OF history_reach.start this] have r: "history_reach map_mongo small_history ?w" by simp
  have "0 \<le> hs_max_pool_size small_history" by (simp add: small_history_def)
  from history_capacity(1)[OF r this] show ?thesis by (intro exI[of _ ?w]) (simp add: small_history_def)
qed

end
