(* ===== verification/Llm_Gateway.thy ===== *)
theory Llm_Gateway
  imports State_Res
begin

text \<open>
  The gateway to the chat model (\<open>services/llm_gateway/router.py\<close>): the process-wide functions and the
  application's \<open>LLMGateway\<close>, which run the same steps with different configurations. The router of litellm and the
  circuit breaker of pybreaker are records of functions on their states.
\<close>

section \<open>Configuration\<close>

record gateway_settings =
  qwen_model_name :: string
  qwen_vllm_base_url :: string
  openai_api_key :: string
  llm_fallback_model :: string
  llm_request_timeout :: rat
  llm_max_retries :: int
  breaker_fail_max :: int
  breaker_reset_timeout :: rat

record deployment =
  dp_name :: string
  dp_model :: string
  dp_base :: "string option"
  dp_key :: string
  dp_timeout :: rat

record router_config =
  rc_models :: "deployment list"
  rc_fallbacks :: "(string \<times> string list) list"
  rc_retries :: int
  rc_timeout :: rat

definition FALLBACK_MODEL :: string where "FALLBACK_MODEL = ''openai-fallback''"

definition primary_model :: "gateway_settings \<Rightarrow> string" where
  "primary_model S = (if qwen_model_name S \<noteq> [] then qwen_model_name S else ''qwen-primary'')"

text \<open>The deployments: the self-hosted one, and the hosted one when there is a key for it. The two gateways differ in the
  model they ask of the former.\<close>

definition model_list :: "string \<Rightarrow> gateway_settings \<Rightarrow> deployment list" where
  "model_list served S =
     \<lparr>dp_name = primary_model S, dp_model = ''openai/'' @ served, dp_base = Some (qwen_vllm_base_url S), dp_key = ''not-needed'',
       dp_timeout = llm_request_timeout S\<rparr> #
     (if openai_api_key S \<noteq> [] then
       [\<lparr>dp_name = FALLBACK_MODEL, dp_model = llm_fallback_model S, dp_base = None, dp_key = openai_api_key S,
         dp_timeout = llm_request_timeout S\<rparr>] else [])"

definition router_config :: "string \<Rightarrow> gateway_settings \<Rightarrow> router_config" where
  "router_config served S = \<lparr>rc_models = model_list served S,
     rc_fallbacks = (if openai_api_key S \<noteq> [] then [(primary_model S, [FALLBACK_MODEL])] else []),
     rc_retries = llm_max_retries S, rc_timeout = llm_request_timeout S\<rparr>"

definition process_router_config :: "gateway_settings \<Rightarrow> router_config" where
  "process_router_config S = router_config (qwen_model_name S) S"

definition application_router_config :: "gateway_settings \<Rightarrow> router_config" where
  "application_router_config S = router_config (primary_model S) S"

section \<open>The libraries\<close>

text \<open>A stream is what the iteration over it will do: chunks with the contents of their choices, or an exception.\<close>

datatype stream_event = Chunk "string option list" | Breaks exn

record 'm request =
  rq_model :: string
  rq_messages :: "'m list"
  rq_temperature :: "rat option"
  rq_max_tokens :: "int option"

datatype guarded_call = CircuitOpen | CallRaised exn | Started "stream_event list"

text \<open>\<open>lib_call\<close> is the breaker around a coroutine on the state of the router; \<open>lib_breaker\<close> and \<open>lib_router\<close> are the constructors,
  \<open>lib_tornado\<close> whether the breaker can run coroutines.\<close>

record ('r, 'b, 'm) llm_lib =
  lib_tornado :: bool
  lib_router :: "router_config \<Rightarrow> 'r"
  lib_breaker :: "int \<Rightarrow> rat \<Rightarrow> 'b"
  lib_complete :: "'m request \<Rightarrow> ('r, stream_event list) st"
  lib_call :: "('r option, stream_event list) st \<Rightarrow> 'b \<Rightarrow> 'r option \<Rightarrow> ('b \<times> 'r option) \<times> guarded_call"

record ('r, 'b) gateway =
  gw_router :: "'r option"
  gw_breaker :: "'b option"

definition reset_gateway_state :: "('r, 'b) gateway" where
  "reset_gateway_state = \<lparr>gw_router = None, gw_breaker = None\<rparr>"

section \<open>Streaming\<close>

definition get_router :: "('r, 'b, 'm) llm_lib \<Rightarrow> router_config \<Rightarrow> ('r option, 'r) st" where
  "get_router L C = (\<lambda>r. case r of Some x \<Rightarrow> (r, Inr x) | None \<Rightarrow> (let x = lib_router L C in (Some x, Inr x)))"

definition get_breaker :: "('r, 'b, 'm) llm_lib \<Rightarrow> gateway_settings \<Rightarrow> (('r, 'b) gateway, 'b) st" where
  "get_breaker L S = (\<lambda>g.
     if \<not> lib_tornado L then (g, Inl RuntimeError)
     else (case gw_breaker g of Some b \<Rightarrow> (g, Inr b)
       | None \<Rightarrow> (let b = lib_breaker L (breaker_fail_max S) (breaker_reset_timeout S) in (g\<lparr>gw_breaker := Some b\<rparr>, Inr b))))"

text \<open>What the breaker guards: the request to the router, made of the arguments that are given.\<close>

definition start_stream ::
  "('r, 'b, 'm) llm_lib \<Rightarrow> router_config \<Rightarrow> string \<Rightarrow> 'm list \<Rightarrow> rat option \<Rightarrow> int option \<Rightarrow> ('r option, stream_event list) st" where
  "start_stream L C model messages temperature max_tokens = bindS (get_router L C) (\<lambda>r _.
     case lib_complete L \<lparr>rq_model = model, rq_messages = messages, rq_temperature = temperature, rq_max_tokens = max_tokens\<rparr> r of
       (r', x) \<Rightarrow> (Some r', x))"

definition OPEN_MESSAGE :: string where
  "OPEN_MESSAGE = ''The chat model is temporarily unavailable after repeated failures; please try again shortly.''"

definition FAILED_MESSAGE :: string where
  "FAILED_MESSAGE = ''Chat model request failed; please try again later.''"

definition INTERRUPTED_MESSAGE :: string where
  "INTERRUPTED_MESSAGE = ''Chat model stream interrupted; please try again later.''"

text \<open>The consumer of the deltas may leave after some of them. How the iteration ended:\<close>

datatype ending = Finished | Failed exn | Abandoned

definition chunk_delta :: "string option list \<Rightarrow> string option res" where
  "chunk_delta choices = (case choices of [] \<Rightarrow> Inl IndexError | c # cs \<Rightarrow> Inr c)"

fun deliver :: "nat option \<Rightarrow> stream_event list \<Rightarrow> string list \<times> ending" where
  "deliver k [] = ([], Finished)"
| "deliver k (Breaks e # es) = ([], Failed (LLMGatewayError INTERRUPTED_MESSAGE))"
| "deliver k (Chunk choices # es) = (case chunk_delta choices of
       Inl e \<Rightarrow> ([], Failed (LLMGatewayError INTERRUPTED_MESSAGE))
     | Inr delta \<Rightarrow> (case delta of None \<Rightarrow> deliver k es | Some d \<Rightarrow>
         if d = [] then deliver k es
         else if k = Some 0 \<or> k = Some 1 then ([d], Abandoned)
         else (case deliver (map_option (\<lambda>n. n - 1) k) es of (ds, en) \<Rightarrow> (d # ds, en))))"

text \<open>The result: the deltas, the ending, and how often the stream was closed.\<close>

record streamed =
  sd_deltas :: "string list"
  sd_ending :: ending
  sd_closes :: nat

definition stream_chat_completion ::
  "('r, 'b, 'm) llm_lib \<Rightarrow> gateway_settings \<Rightarrow> router_config \<Rightarrow> nat option \<Rightarrow> 'm list \<Rightarrow> rat option \<Rightarrow> int option \<Rightarrow>
     ('r, 'b) gateway \<Rightarrow> ('r, 'b) gateway \<times> streamed" where
  "stream_chat_completion L S C k messages temperature max_tokens g =
     (case get_breaker L S g of
       (g1, Inl e) \<Rightarrow> (g1, \<lparr>sd_deltas = [], sd_ending = Failed e, sd_closes = 0\<rparr>)
     | (g1, Inr b) \<Rightarrow>
         (case lib_call L (start_stream L C (primary_model S) messages temperature max_tokens) b (gw_router g1) of
           ((b', r'), call) \<Rightarrow>
             (g1\<lparr>gw_breaker := Some b', gw_router := r'\<rparr>,
              (case call of
                 CircuitOpen \<Rightarrow> \<lparr>sd_deltas = [], sd_ending = Failed (LLMGatewayError OPEN_MESSAGE), sd_closes = 0\<rparr>
               | CallRaised e \<Rightarrow> \<lparr>sd_deltas = [], sd_ending = Failed (LLMGatewayError FAILED_MESSAGE), sd_closes = 0\<rparr>
               | Started es \<Rightarrow> (case deliver k es of (ds, en) \<Rightarrow> \<lparr>sd_deltas = ds, sd_ending = en, sd_closes = 1\<rparr>)))))"

definition complete_chat ::
  "('r, 'b, 'm) llm_lib \<Rightarrow> gateway_settings \<Rightarrow> router_config \<Rightarrow> 'm list \<Rightarrow> rat option \<Rightarrow> int option \<Rightarrow> (('r, 'b) gateway, string) st" where
  "complete_chat L S C messages temperature max_tokens = (\<lambda>g.
     case stream_chat_completion L S C None messages temperature max_tokens g of
       (g', sd) \<Rightarrow> (g', (case sd_ending sd of Failed e \<Rightarrow> Inl e | _ \<Rightarrow> Inr (concat (sd_deltas sd)))))"

section \<open>What is delivered\<close>

fun readable :: "stream_event \<Rightarrow> bool" where
  "readable (Chunk choices) = (choices \<noteq> [])"
| "readable (Breaks e) = False"

fun event_text :: "stream_event \<Rightarrow> string" where
  "event_text (Chunk (Some d # cs)) = d"
| "event_text e = []"

text \<open>Reference: the non-empty texts of the events before the first that cannot be read.\<close>

definition texts_of :: "stream_event list \<Rightarrow> string list" where
  "texts_of es = filter (\<lambda>d. d \<noteq> []) (map event_text (takeWhile readable es))"

lemma texts_of_simps [simp]:
  "texts_of [] = []" "texts_of (Breaks e # es) = []" "texts_of (Chunk [] # es) = []"
  "texts_of (Chunk (None # cs) # es) = texts_of es"
  "texts_of (Chunk (Some d # cs) # es) = (if d = [] then texts_of es else d # texts_of es)"
  by (simp_all add: texts_of_def)

lemma texts_of_nonempty: "[] \<notin> set (texts_of es)"
  by (simp add: texts_of_def)

lemma deliver_all:
  "deliver None es = (texts_of es, if list_all readable es then Finished else Failed (LLMGatewayError INTERRUPTED_MESSAGE))"
proof (induction es)
  case (Cons e es)
  show ?case
  proof (cases e)
    case (Chunk choices)
    then show ?thesis using Cons by (cases choices; cases "hd choices") (auto simp: chunk_delta_def)
  qed simp
qed simp

lemma deliver_some:
  assumes "0 < n" "deliver (Some n) es = (ds, en)"
  shows "ds = take n (texts_of es) \<and> (en = Abandoned \<longleftrightarrow> n \<le> length (texts_of es)) \<and> (en \<noteq> Abandoned \<longrightarrow> deliver None es = (ds, en))"
  using assms
proof (induction es arbitrary: n ds en)
  case (Cons e es)
  show ?case
  proof (cases e)
    case (Chunk choices)
    show ?thesis
    proof (cases "choices = [] \<or> hd choices = None \<or> hd choices = Some []")
      case True
      then show ?thesis using Cons.prems Cons.IH[OF Cons.prems(1)] Chunk by (cases choices) (auto simp: chunk_delta_def)
    next
      case False
      then obtain d cs where d: "choices = Some d # cs" "d \<noteq> []" by (cases choices) auto
      show ?thesis
      proof (cases "n = 1")
        case True
        then show ?thesis using Cons.prems Chunk d by (auto simp: chunk_delta_def)
      next
        case n: False
        obtain ds' en' where r: "deliver (Some (n - 1)) es = (ds', en')" by (rule prod.exhaust)
        have "0 < n - 1" using n Cons.prems(1) by simp
        note IH = Cons.IH[OF this r]
        have "ds = d # ds'" "en = en'" using Cons.prems Chunk d n r by (auto simp: chunk_delta_def)
        then show ?thesis using IH Chunk d n Cons.prems(1) by (cases n) (auto simp: chunk_delta_def)
      qed
    qed
  next
    case (Breaks x)
    then show ?thesis using Cons.prems by auto
  qed
qed auto

lemma deliver_texts:
  assumes "deliver k es = (ds, en)" "k \<noteq> Some 0"
  shows "ds = (case k of None \<Rightarrow> texts_of es | Some n \<Rightarrow> take n (texts_of es))"
    "en = Finished \<longrightarrow> list_all readable es \<and> ds = texts_of es" "\<forall>e. en = Failed e \<longrightarrow> e = LLMGatewayError INTERRUPTED_MESSAGE \<and> \<not> list_all readable es"
proof -
  have all: "ds = (case k of None \<Rightarrow> texts_of es | Some n \<Rightarrow> take n (texts_of es)) \<and> (en = Finished \<longrightarrow> list_all readable es \<and> ds = texts_of es) \<and>
      (\<forall>e. en = Failed e \<longrightarrow> e = LLMGatewayError INTERRUPTED_MESSAGE \<and> \<not> list_all readable es)"
  proof (cases k)
    case None
    then show ?thesis using assms by (auto simp: deliver_all split: if_splits)
  next
    case (Some n)
    then have "0 < n" using assms(2) by simp
    note d = deliver_some[OF this assms(1)[unfolded Some]]
    show ?thesis
    proof (cases "en = Abandoned")
      case True
      then show ?thesis using d Some by simp
    next
      case False
      then have "deliver None es = (ds, en)" using d by blast
      then have e: "ds = texts_of es" "en = (if list_all readable es then Finished else Failed (LLMGatewayError INTERRUPTED_MESSAGE))"
        unfolding deliver_all by simp_all
      have "ds = take n (texts_of es)" using d by blast
      then show ?thesis using e(2) Some unfolding e(1) by (simp split: if_splits)
    qed
  qed
  show "ds = (case k of None \<Rightarrow> texts_of es | Some n \<Rightarrow> take n (texts_of es))"
    "en = Finished \<longrightarrow> list_all readable es \<and> ds = texts_of es" "\<forall>e. en = Failed e \<longrightarrow> e = LLMGatewayError INTERRUPTED_MESSAGE \<and> \<not> list_all readable es"
    using all by blast+
qed

lemma gateway_stream_facts:
  assumes "lib_tornado L" "stream_chat_completion L S C k messages temperature max_tokens g = (g', sd)" "k \<noteq> Some 0"
  shows "\<forall>e. sd_ending sd = Failed e \<longrightarrow> e \<in> {LLMGatewayError OPEN_MESSAGE, LLMGatewayError FAILED_MESSAGE, LLMGatewayError INTERRUPTED_MESSAGE}"
    "sd_closes sd = 0 \<and> sd_deltas sd = [] \<and> (\<exists>e. sd_ending sd = Failed e) \<or>
     sd_closes sd = 1 \<and> (\<exists>es. sd_deltas sd = (case k of None \<Rightarrow> texts_of es | Some n \<Rightarrow> take n (texts_of es)) \<and>
       (sd_ending sd = Finished \<longrightarrow> list_all readable es \<and> sd_deltas sd = texts_of es))"
    "[] \<notin> set (sd_deltas sd)"
proof -
  obtain g1 b where b: "get_breaker L S g = (g1, Inr b)"
    using assms(1) by (cases "gw_breaker g") (auto simp: get_breaker_def Let_def)
  obtain b' r' call where c: "lib_call L (start_stream L C (primary_model S) messages temperature max_tokens) b (gw_router g1) = ((b', r'), call)"
    by (metis prod.exhaust)
  have "(\<forall>e. sd_ending sd = Failed e \<longrightarrow> e \<in> {LLMGatewayError OPEN_MESSAGE, LLMGatewayError FAILED_MESSAGE, LLMGatewayError INTERRUPTED_MESSAGE}) \<and>
    (sd_closes sd = 0 \<and> sd_deltas sd = [] \<and> (\<exists>e. sd_ending sd = Failed e) \<or>
     sd_closes sd = 1 \<and> (\<exists>es. sd_deltas sd = (case k of None \<Rightarrow> texts_of es | Some n \<Rightarrow> take n (texts_of es)) \<and>
       (sd_ending sd = Finished \<longrightarrow> list_all readable es \<and> sd_deltas sd = texts_of es))) \<and> [] \<notin> set (sd_deltas sd)"
  proof (cases call)
    case (Started es)
    obtain ds en where d: "deliver k es = (ds, en)" by (rule prod.exhaust)
    have sd: "sd = \<lparr>sd_deltas = ds, sd_ending = en, sd_closes = 1\<rparr>"
      using assms(2) b c Started d by (simp add: stream_chat_completion_def)
    note t = deliver_texts[OF d assms(3)]
    have "[] \<notin> set ds" using t(1) texts_of_nonempty[of es] by (cases k) (auto dest: in_set_takeD)
    then show ?thesis unfolding sd using t by auto
  qed (use assms(2) b c in \<open>auto simp: stream_chat_completion_def\<close>)
  then show "\<forall>e. sd_ending sd = Failed e \<longrightarrow> e \<in> {LLMGatewayError OPEN_MESSAGE, LLMGatewayError FAILED_MESSAGE, LLMGatewayError INTERRUPTED_MESSAGE}"
    "sd_closes sd = 0 \<and> sd_deltas sd = [] \<and> (\<exists>e. sd_ending sd = Failed e) \<or>
     sd_closes sd = 1 \<and> (\<exists>es. sd_deltas sd = (case k of None \<Rightarrow> texts_of es | Some n \<Rightarrow> take n (texts_of es)) \<and>
       (sd_ending sd = Finished \<longrightarrow> list_all readable es \<and> sd_deltas sd = texts_of es))"
    "[] \<notin> set (sd_deltas sd)" by blast+
qed


lemma complete_chat_errors:
  assumes "lib_tornado L" "complete_chat L S C messages temperature max_tokens g = (g', Inl e)"
  shows "\<exists>m. e = LLMGatewayError m"
proof -
  obtain g1 sd where sd: "stream_chat_completion L S C None messages temperature max_tokens g = (g1, sd)" by (rule prod.exhaust)
  from gateway_stream_facts(1)[OF assms(1) sd] assms(2) sd show ?thesis
    by (cases "sd_ending sd") (auto simp: complete_chat_def)
qed

section \<open>An outage fails fast\<close>

text \<open>What pybreaker documents, of a breaker that a number counts the consecutive failures of while it is closed: it calls
  through while closed, opens with the last failure it admits, and rejects without calling until it lets a trial through.\<close>

datatype breaker_view = Closed int | Open | HalfOpen

definition breaker_laws :: "('r, 'b, 'm) llm_lib \<Rightarrow> int \<Rightarrow> ('b \<Rightarrow> breaker_view) \<Rightarrow> bool" where
  "breaker_laws L fail_max view = (
     (\<forall>t. view (lib_breaker L fail_max t) = Closed 0) \<and>
     (\<forall>f b r n r' es. view b = Closed n \<longrightarrow> f r = (r', Inr es) \<longrightarrow>
        (\<exists>b'. lib_call L f b r = ((b', r'), Started es) \<and> view b' = Closed 0)) \<and>
     (\<forall>f b r n r' e. view b = Closed n \<longrightarrow> f r = (r', Inl e) \<longrightarrow> n + 1 < fail_max \<longrightarrow>
        (\<exists>b'. lib_call L f b r = ((b', r'), CallRaised e) \<and> view b' = Closed (n + 1))) \<and>
     (\<forall>f b r n r' e. view b = Closed n \<longrightarrow> f r = (r', Inl e) \<longrightarrow> fail_max \<le> n + 1 \<longrightarrow>
        (\<exists>b'. lib_call L f b r = ((b', r'), CircuitOpen) \<and> view b' = Open)) \<and>
     (\<forall>f b r. view b = Open \<longrightarrow> (\<exists>b'. lib_call L f b r = ((b', r), CircuitOpen) \<and> view b' \<in> {Open, HalfOpen})))"

text \<open>The gateway asked several times, and a router none of whose completions start.\<close>

definition ask_all ::
  "('r, 'b, 'm) llm_lib \<Rightarrow> gateway_settings \<Rightarrow> router_config \<Rightarrow> 'm list list \<Rightarrow> ('r, 'b) gateway \<Rightarrow> ('r, 'b) gateway" where
  "ask_all L S C mss g = fold (\<lambda>ms g. fst (stream_chat_completion L S C None ms (Some (7 / 10)) (Some 1024) g)) mss g"

definition backend_down :: "('r, 'b, 'm) llm_lib \<Rightarrow> bool" where
  "backend_down L = (\<forall>rq r. \<exists>r' e. lib_complete L rq r = (r', Inl e))"

lemma start_stream_down: "backend_down L \<Longrightarrow> \<exists>r' e. start_stream L C model ms t mx r = (Some r', Inl e)"
  unfolding start_stream_def bindS_def get_router_def backend_down_def Let_def
  by (cases r) (auto split: prod.splits, (metis Pair_inject)+)

lemma ask_counts:
  assumes laws: "breaker_laws L (breaker_fail_max S) view" and t: "lib_tornado L" and down: "backend_down L"
    and b: "gw_breaker g = Some b" "view b = Closed n" "n + int (length mss) < breaker_fail_max S"
  shows "\<exists>b'. gw_breaker (ask_all L S C mss g) = Some b' \<and> view b' = Closed (n + int (length mss))"
  using b
proof (induction mss arbitrary: g b n)
  case Nil then show ?case by (simp add: ask_all_def)
next
  case (Cons ms mss)
  let ?f = "start_stream L C (primary_model S) ms (Some (7 / 10)) (Some 1024)"
  obtain r' e where f: "?f (gw_router g) = (Some r', Inl e)" using start_stream_down[OF down] by blast
  have "n + 1 < breaker_fail_max S" using Cons.prems(3) by simp
  then obtain b' where c: "lib_call L ?f b (gw_router g) = ((b', Some r'), CallRaised e)" "view b' = Closed (n + 1)"
    using laws Cons.prems(2) f unfolding breaker_laws_def by meson
  have "fst (stream_chat_completion L S C None ms (Some (7 / 10)) (Some 1024) g) = g\<lparr>gw_breaker := Some b', gw_router := Some r'\<rparr>"
    using t Cons.prems(1) c(1) by (simp add: stream_chat_completion_def get_breaker_def)
  then show ?case
    using Cons.IH[of "g\<lparr>gw_breaker := Some b', gw_router := Some r'\<rparr>" b' "n + 1"] c(2) Cons.prems(3) by (simp add: ask_all_def add.assoc)
qed

lemma ask_last:
  assumes laws: "breaker_laws L (breaker_fail_max S) view" and t: "lib_tornado L" and down: "backend_down L"
    and b: "gw_breaker g = Some b" "view b = Closed n" "breaker_fail_max S \<le> n + 1"
  shows "\<exists>b'. gw_breaker (ask_all L S C [ms] g) = Some b' \<and> view b' = Open"
proof -
  let ?f = "start_stream L C (primary_model S) ms (Some (7 / 10)) (Some 1024)"
  obtain r' e where f: "?f (gw_router g) = (Some r', Inl e)" using start_stream_down[OF down] by blast
  obtain b' where "lib_call L ?f b (gw_router g) = ((b', Some r'), CircuitOpen)" "view b' = Open"
    using laws b(2,3) f unfolding breaker_laws_def by meson
  then show ?thesis using t b(1) by (simp add: ask_all_def stream_chat_completion_def get_breaker_def)
qed

text \<open>(safety): when the backend is down, as many requests as the breaker allows failures open it, and from then on, while it
  is open, a request is answered at once with the message of the open circuit, without a call of the router.\<close>

lemma outage_fails_fast:
  assumes "breaker_laws L (breaker_fail_max S) view" "lib_tornado L" "backend_down L"
    and "int (length mss) = breaker_fail_max S" "mss \<noteq> []" "g = ask_all L S C mss reset_gateway_state"
  shows "\<exists>b. gw_breaker g = Some b \<and> view b = Open \<and>
    (\<forall>k ms t mx. \<exists>b'. stream_chat_completion L S C k ms t mx g =
       (g\<lparr>gw_breaker := Some b'\<rparr>, \<lparr>sd_deltas = [], sd_ending = Failed (LLMGatewayError OPEN_MESSAGE), sd_closes = 0\<rparr>))"
proof -
  obtain front ms where m: "mss = front @ [ms]" using assms(5) by (metis append_butlast_last_id)
  define g0 :: "('a, 'b) gateway" where "g0 = reset_gateway_state\<lparr>gw_breaker := Some (lib_breaker L (breaker_fail_max S) (breaker_reset_timeout S))\<rparr>"
  have same: "stream_chat_completion L S C k x t mx reset_gateway_state = stream_chat_completion L S C k x t mx g0" for k x t mx
    using assms(2) by (simp add: stream_chat_completion_def get_breaker_def reset_gateway_state_def g0_def Let_def)
  have g: "g = ask_all L S C mss g0" using assms(5,6) same by (cases mss) (simp_all add: ask_all_def)
  have v0: "view (lib_breaker L (breaker_fail_max S) (breaker_reset_timeout S)) = Closed 0" using assms(1) by (simp add: breaker_laws_def)
  have len: "int (length front) + 1 = breaker_fail_max S" using assms(4) m by simp
  obtain b1 where b1: "gw_breaker (ask_all L S C front g0) = Some b1" "view b1 = Closed (int (length front))"
    using ask_counts[OF assms(1-3) _ v0, of g0 front C] len by (auto simp: g0_def)
  have "g = ask_all L S C [ms] (ask_all L S C front g0)" using g m by (simp add: ask_all_def)
  then obtain b where b: "gw_breaker g = Some b" "view b = Open"
    using ask_last[OF assms(1-3) b1, of C ms] len by auto
  have "\<exists>b'. stream_chat_completion L S C k ms t mx g =
       (g\<lparr>gw_breaker := Some b'\<rparr>, \<lparr>sd_deltas = [], sd_ending = Failed (LLMGatewayError OPEN_MESSAGE), sd_closes = 0\<rparr>)" for k ms t mx
  proof -
    obtain b' where c: "lib_call L (start_stream L C (primary_model S) ms t mx) b (gw_router g) = ((b', gw_router g), CircuitOpen)"
      using assms(1) b(2) unfolding breaker_laws_def by meson
    show ?thesis using assms(2) b(1) c by (intro exI[of _ b']) (simp add: stream_chat_completion_def get_breaker_def)
  qed
  then show ?thesis using b by blast
qed

text \<open>A router that never starts a stream, behind a breaker that counts and opens at its limit.\<close>

fun counting_call :: "('r, stream_event list) st \<Rightarrow> int \<times> int \<Rightarrow> 'r \<Rightarrow> ((int \<times> int) \<times> 'r) \<times> guarded_call" where
  "counting_call f (limit, n) r =
     (if n < limit then (case f r of
         (r', Inr es) \<Rightarrow> (((limit, 0), r'), Started es)
       | (r', Inl e) \<Rightarrow> (((limit, n + 1), r'), if n + 1 < limit then CallRaised e else CircuitOpen))
      else (((limit, n), r), CircuitOpen))"

definition dead_lib :: "(nat, int \<times> int, 'm) llm_lib" where
  "dead_lib = \<lparr>lib_tornado = True, lib_router = \<lambda>C. 0, lib_breaker = \<lambda>n t. (n, 0), lib_complete = \<lambda>q r. (Suc r, Inl TimeoutError), lib_call = counting_call\<rparr>"

definition two_failures :: gateway_settings where
  "two_failures = \<lparr>qwen_model_name = ''q'', qwen_vllm_base_url = ''http://x'', openai_api_key = [], llm_fallback_model = [],
     llm_request_timeout = 60, llm_max_retries = 2, breaker_fail_max = 2, breaker_reset_timeout = 30\<rparr>"

definition counting_view :: "int \<times> int \<Rightarrow> breaker_view" where
  "counting_view b = (if fst b = 2 \<and> 0 \<le> snd b then if snd b < 2 then Closed (snd b) else Open else HalfOpen)"

lemma counting_view_Closed: "counting_view b = Closed n \<Longrightarrow> b = (2, n) \<and> 0 \<le> n \<and> n < 2"
  by (cases b) (auto simp: counting_view_def split: if_splits)

lemma counting_view_Open: "counting_view b = Open \<Longrightarrow> \<exists>n. b = (2, n) \<and> 2 \<le> n"
  by (cases b) (auto simp: counting_view_def split: if_splits)

lemma dead_lib_laws: "breaker_laws dead_lib 2 counting_view"
  unfolding breaker_laws_def
proof (intro conjI allI impI)
  show "counting_view (lib_breaker dead_lib 2 t) = Closed 0" for t by (simp add: dead_lib_def counting_view_def)
next
  fix f :: "(nat option, stream_event list) st" and b r n r' es assume v: "counting_view b = Closed n" and "f r = (r', Inr es)"
  with counting_view_Closed[OF v] show "\<exists>b'. lib_call dead_lib f b r = ((b', r'), Started es) \<and> counting_view b' = Closed 0"
    by (auto simp: dead_lib_def counting_view_def)
next
  fix f :: "(nat option, stream_event list) st" and b r n r' e assume v: "counting_view b = Closed n" and "f r = (r', Inl e)" "n + 1 < 2"
  with counting_view_Closed[OF v] show "\<exists>b'. lib_call dead_lib f b r = ((b', r'), CallRaised e) \<and> counting_view b' = Closed (n + 1)"
    by (auto simp: dead_lib_def counting_view_def)
next
  fix f :: "(nat option, stream_event list) st" and b r n r' e assume v: "counting_view b = Closed n" and "f r = (r', Inl e)" "2 \<le> n + 1"
  with counting_view_Closed[OF v] show "\<exists>b'. lib_call dead_lib f b r = ((b', r'), CircuitOpen) \<and> counting_view b' = Open"
    by (auto simp: dead_lib_def counting_view_def)
next
  fix f :: "(nat option, stream_event list) st" and b r assume v: "counting_view b = Open"
  from counting_view_Open[OF v] show "\<exists>b'. lib_call dead_lib f b r = ((b', r), CircuitOpen) \<and> counting_view b' \<in> {Open, HalfOpen}"
    by (intro exI[of _ b]) (auto simp: dead_lib_def counting_view_def)
qed


lemma outage_fails_fast_witness:
  "\<exists>b. gw_breaker (ask_all dead_lib two_failures (process_router_config two_failures) [[''hi''], [''ho'']] reset_gateway_state) = Some b \<and>
     counting_view b = Open"
proof -
  have down: "backend_down dead_lib" by (simp add: backend_down_def dead_lib_def)
  have S: "breaker_fail_max two_failures = 2" by (simp add: two_failures_def)
  have T: "lib_tornado dead_lib" by (simp add: dead_lib_def)
  have n: "int (length [[''hi''], [''ho'']]) = breaker_fail_max two_failures" "[[''hi''], [''ho'']] \<noteq> []" by (simp_all add: S)
  have L: "breaker_laws dead_lib (breaker_fail_max two_failures) counting_view" unfolding S by (rule dead_lib_laws)
  show ?thesis using outage_fails_fast[OF L T down n refl, of "process_router_config two_failures"] by blast
qed

text \<open>The two gateways agree but for a missing name of the served model, which only the process-wide one passes on.\<close>

lemma gateways_agree: "process_router_config S = application_router_config S \<longleftrightarrow> qwen_model_name S \<noteq> []"
  by (auto simp: process_router_config_def application_router_config_def router_config_def model_list_def primary_model_def)

end
