(* ===== verification/Chat_Turn.thy ===== *)
theory Chat_Turn
  imports Chat_Prompt Chat_History
begin

text \<open>
  A chat turn (\<open>services/chat/use_cases.py\<close>) and the session around it (\<open>services/api/websocket/chat.py\<close>): history, routing,
  tool, conversational and document turns, streaming, and the acknowledgement of the stored exchange. The
  services a turn calls are a record of functions on a state of their own; what a turn does that is seen outside is its
  log: the frames it sends and the exchanges it hands to the history, with the answer of the store.
\<close>

section \<open>Frames and services\<close>

record source_summary =
  ss_index :: nat
  ss_filename :: pyval
  ss_page :: pyval
  ss_score :: pyval
  ss_text :: pyval

datatype frame =
    Ready string
  | ErrorFrame "string option" string
  | ToolFrame pyval pyval bool string dict bool
  | Sources "source_summary list"
  | Token string
  | Done "source_summary list"

datatype log_entry = Sent frame | Stored string string bool

text \<open>A completion that was started: its deltas and how it ends when it is read to the end.\<close>

record 's services =
  sv_history :: "string \<Rightarrow> string \<Rightarrow> ('s, chat_message list) st"
  sv_append :: "string \<Rightarrow> string \<Rightarrow> string \<Rightarrow> string \<Rightarrow> ('s, unit) st"
  sv_route :: "string \<Rightarrow> string \<Rightarrow> principal \<Rightarrow> ('s, routed) st"
  sv_stream :: "chat_message list \<Rightarrow> 's \<Rightarrow> 's \<times> string list \<times> exn option"
  sv_condense :: "chat_message list \<Rightarrow> string \<Rightarrow> ('s, string) st"
  sv_retrieve :: "string \<Rightarrow> string \<Rightarrow> ('s, dict list) st"
  sv_send :: "frame \<Rightarrow> ('s, unit) st"
  sv_float :: "pyfloat \<Rightarrow> string"

record 's turn_world =
  tw_services :: 's
  tw_log :: "log_entry list"

type_synonym ('s, 'a) turn = "('s turn_world, 'a) st"

definition on_services :: "('s, 'a) st \<Rightarrow> ('s, 'a) turn" where
  "on_services m = (\<lambda>w. case m (tw_services w) of (s, r) \<Rightarrow> (w\<lparr>tw_services := s\<rparr>, r))"

definition log_it :: "log_entry \<Rightarrow> ('s, unit) turn" where
  "log_it e = (\<lambda>w. (w\<lparr>tw_log := tw_log w @ [e]\<rparr>, Inr ()))"

text \<open>A frame is in the log when the transport took it.\<close>

definition send_json :: "'s services \<Rightarrow> frame \<Rightarrow> ('s, unit) turn" where
  "send_json V f = bindS (on_services (sv_send V f)) (\<lambda>_. log_it (Sent f))"

text \<open>\<open>except Exception\<close>: a cancellation passes.\<close>

definition attemptS :: "('w, 'a) st \<Rightarrow> ('w, 'a option) st" where
  "attemptS m = (\<lambda>w. case m w of (w', Inr x) \<Rightarrow> (w', Inr (Some x))
     | (w', Inl e) \<Rightarrow> (w', if e = CancelledError then Inl e else Inr None))"

section \<open>Answers\<close>

definition persist_exchange :: "'s services \<Rightarrow> string \<Rightarrow> string \<Rightarrow> string \<Rightarrow> string \<Rightarrow> ('s, bool) turn" where
  "persist_exchange V tenant conv user assistant =
     bindS (attemptS (on_services (sv_append V tenant conv user assistant))) (\<lambda>r.
       bindS (log_it (Stored user assistant (r \<noteq> None))) (\<lambda>_. retS (r \<noteq> None)))"

definition UNCONFIRMED :: string where
  "UNCONFIRMED = ''The response was produced, but saving this exchange could not be confirmed. It may already be stored; '' @
     ''inspect conversation history before retrying.''"

definition complete_text_turn :: "'s services \<Rightarrow> string \<Rightarrow> string \<Rightarrow> string \<Rightarrow> string \<Rightarrow> source_summary list \<Rightarrow> ('s, unit) turn" where
  "complete_text_turn V tenant conv user assistant citations =
     bindS (persist_exchange V tenant conv user assistant) (\<lambda>saved.
       if saved then send_json V (Done citations)
       else send_json V (ErrorFrame (Some ''history_write_unconfirmed'') UNCONFIRMED))"

fun send_tokens :: "'s services \<Rightarrow> string list \<Rightarrow> ('s, unit) turn" where
  "send_tokens V [] = retS ()"
| "send_tokens V (d # ds) = bindS (send_json V (Token d)) (\<lambda>_. send_tokens V ds)"

text \<open>A failure of the gateway ends the turn with its message; the consumer that cannot send leaves the stream.\<close>

definition stream_answer :: "'s services \<Rightarrow> chat_message list \<Rightarrow> ('s, string option) turn" where
  "stream_answer V messages = (\<lambda>w. case sv_stream V messages (tw_services w) of
     (s, deltas, failure) \<Rightarrow>
       bindS (send_tokens V deltas) (\<lambda>_. case failure of
           None \<Rightarrow> retS (Some (concat deltas))
         | Some (LLMGatewayError m) \<Rightarrow> bindS (send_json V (ErrorFrame None m)) (\<lambda>_. retS None)
         | Some e \<Rightarrow> failS e) (w\<lparr>tw_services := s\<rparr>))"

section \<open>The kinds of turns\<close>

definition UNCONFIRMED_TOOL :: string where
  "UNCONFIRMED_TOOL = '' Conversation saving is unconfirmed. The action may already have run; do not repeat it to repair chat history.''"

definition complete_tool_turn :: "'s services \<Rightarrow> string \<Rightarrow> string \<Rightarrow> string \<Rightarrow> routed \<Rightarrow> ('s, unit) turn" where
  "complete_tool_turn V tenant conv user_query state = (case r_tool state of
       Some (NodeError e) \<Rightarrow>
         send_json V (ErrorFrame None (if e \<noteq> [] then e else ''The requested action did not return a result.''))
     | None \<Rightarrow> send_json V (ErrorFrame None ''The requested action did not return a result.'')
     | Some (NodeResult r) \<Rightarrow>
         bindS (persist_exchange V tenant conv user_query (t_summary r)) (\<lambda>saved.
           send_json V (ToolFrame (i_tool (r_intent state)) (i_action (r_intent state)) (t_success r)
             (if saved then t_summary r else t_summary r @ UNCONFIRMED_TOOL) (t_details r) saved)))"

definition complete_conversational_turn ::
  "'s services \<Rightarrow> string \<Rightarrow> string \<Rightarrow> string \<Rightarrow> chat_message list \<Rightarrow> ('s, unit) turn" where
  "complete_conversational_turn V tenant conv user_query history =
     bindS (send_json V (Sources [])) (\<lambda>_.
       bindS (liftS (build_messages (sv_float V) history [] user_query)) (\<lambda>messages.
         bindS (stream_answer V messages) (\<lambda>answer. case answer of
             None \<Rightarrow> retS ()
           | Some a \<Rightarrow> complete_text_turn V tenant conv user_query a [])))"

definition SOURCE_PREVIEW_CHARS :: nat where "SOURCE_PREVIEW_CHARS = 400"

text \<open>Slicing something else than a string or a list raises.\<close>

definition preview :: "pyval \<Rightarrow> pyval res" where
  "preview v = (case v of PStr s \<Rightarrow> Inr (PStr (take SOURCE_PREVIEW_CHARS s)) | PList xs \<Rightarrow> Inr (PList (take SOURCE_PREVIEW_CHARS xs))
     | _ \<Rightarrow> Inl TypeError)"

definition summarize_source :: "nat \<times> dict \<Rightarrow> source_summary res" where
  "summarize_source p = bindR (dkey (snd p) ''filename'') (\<lambda>filename. bindR (dkey (snd p) ''page_number'') (\<lambda>page.
     bindR (dkey (snd p) ''text'') (\<lambda>content. bindR (preview content) (\<lambda>t.
       Inr \<lparr>ss_index = fst p, ss_filename = filename, ss_page = page, ss_score = dget (snd p) ''score'', ss_text = t\<rparr>))))"

definition complete_rag_turn :: "'s services \<Rightarrow> string \<Rightarrow> string \<Rightarrow> string \<Rightarrow> chat_message list \<Rightarrow> ('s, unit) turn" where
  "complete_rag_turn V tenant conv user_query history =
     bindS (on_services (sv_condense V history user_query)) (\<lambda>retrieval_query.
       bindS (attemptS (on_services (sv_retrieve V retrieval_query tenant))) (\<lambda>found. case found of
           None \<Rightarrow> send_json V (ErrorFrame None ''Search is temporarily unavailable.'')
         | Some sources \<Rightarrow>
             bindS (liftS (mapR summarize_source (enumerate 1 sources))) (\<lambda>summaries.
               bindS (send_json V (Sources summaries)) (\<lambda>_.
                 if sources = [] then
                   bindS (send_json V (Token NO_CONTEXT_MESSAGE)) (\<lambda>_.
                     complete_text_turn V tenant conv user_query NO_CONTEXT_MESSAGE [])
                 else
                   bindS (liftS (build_messages (sv_float V) history sources user_query)) (\<lambda>messages.
                     bindS (stream_answer V messages) (\<lambda>answer. case answer of
                         None \<Rightarrow> retS ()
                       | Some a \<Rightarrow> complete_text_turn V tenant conv user_query a summaries))))))"

section \<open>Turns and sessions\<close>

definition read_history :: "'s services \<Rightarrow> principal \<Rightarrow> string \<Rightarrow> ('s, chat_message list) turn" where
  "read_history V p conv =
     (if ''chat:history'' \<in> scopes p then on_services (sv_history V (tenant_id p) conv) else retS [])"

definition chat_turn :: "'s services \<Rightarrow> principal \<Rightarrow> string \<Rightarrow> string \<Rightarrow> ('s, unit) turn" where
  "chat_turn V p conv user_query =
     bindS (attemptS (read_history V p conv)) (\<lambda>h. case h of
         None \<Rightarrow> send_json V (ErrorFrame None ''Chat history is temporarily unavailable.'')
       | Some history \<Rightarrow>
           bindS (attemptS (on_services (sv_route V (tenant_id p) user_query p))) (\<lambda>state. case state of
               None \<Rightarrow> send_json V (ErrorFrame None ''Could not process that message.'')
             | Some state \<Rightarrow>
                 if r_route state = ''tool'' then complete_tool_turn V (tenant_id p) conv user_query state
                 else if r_route state = ''conversational'' then complete_conversational_turn V (tenant_id p) conv user_query history
                 else if ''documents:read'' \<notin> scopes p then
                   send_json V (ErrorFrame None ''Document retrieval is not permitted.'')
                 else complete_rag_turn V (tenant_id p) conv user_query history))"

text \<open>The messages of the client, and how the connection ends after them.\<close>

fun run_chat :: "'s services \<Rightarrow> principal \<Rightarrow> string \<Rightarrow> string list \<Rightarrow> exn \<Rightarrow> ('s, unit) turn" where
  "run_chat V p conv [] closing = failS closing"
| "run_chat V p conv (q # qs) closing = bindS (chat_turn V p conv q) (\<lambda>_. run_chat V p conv qs closing)"

text \<open>The session: the connection is closed with a policy violation, or ready. \<open>fresh\<close> is the identifier drawn for a new
  conversation.\<close>

datatype session_result = Refused string | Disconnected | Crashed exn

definition handle_chat_session ::
  "'s services \<Rightarrow> principal \<Rightarrow> string option \<Rightarrow> string \<Rightarrow> string list \<Rightarrow> exn \<Rightarrow> 's turn_world \<Rightarrow> 's turn_world \<times> session_result" where
  "handle_chat_session V p supplied fresh qs closing w =
     (let given = (case supplied of None \<Rightarrow> [] | Some c \<Rightarrow> c); conv = (if given \<noteq> [] then given else fresh) in
      if given \<noteq> [] \<and> ''chat:history'' \<notin> scopes p then (w, Refused ''Conversation history access is not permitted'')
      else if validate_identity (tenant_id p) conv \<noteq> Inr () then (w, Refused ''Invalid conversation identity'')
      else (case send_json V (Ready conv) w of
          (w1, Inl e) \<Rightarrow> (w1, Crashed e)
        | (w1, Inr _) \<Rightarrow> (case run_chat V p conv qs closing w1 of
            (w', Inl (WebSocketDisconnect k)) \<Rightarrow> (w', Disconnected)
          | (w', Inl e) \<Rightarrow> (w', Crashed e)
          | (w', Inr u) \<Rightarrow> (w', Disconnected))))"

section \<open>What is seen of a turn\<close>

definition tokens_log :: "string list \<Rightarrow> log_entry list" where
  "tokens_log ds = map (Sent \<circ> Token) ds"

text \<open>The log of a complete turn: an error; a stored tool result and its frame; or the sources and the tokens, ended by
  an error or by the stored answer and its acknowledgement.\<close>

definition final_frame :: "bool \<Rightarrow> source_summary list \<Rightarrow> frame" where
  "final_frame saved cits = (if saved then Done cits else ErrorFrame (Some ''history_write_unconfirmed'') UNCONFIRMED)"

definition complete_trace :: "string \<Rightarrow> log_entry list \<Rightarrow> bool" where
  "complete_trace q l = (
     (\<exists>c m. l = [Sent (ErrorFrame c m)]) \<or>
     (\<exists>t a ok summary d saved. l = [Stored q summary saved,
        Sent (ToolFrame t a ok (if saved then summary else summary @ UNCONFIRMED_TOOL) d saved)]) \<or>
     (\<exists>cits ds m. l = Sent (Sources cits) # tokens_log ds @ [Sent (ErrorFrame None m)]) \<or>
     (\<exists>cits ds saved. l = Sent (Sources cits) # tokens_log ds @ [Stored q (concat ds) saved, Sent (final_frame saved cits)]))"

definition cut_trace :: "string \<Rightarrow> log_entry list \<Rightarrow> bool" where
  "cut_trace q l = (\<exists>rest. complete_trace q (l @ rest))"

lemma complete_traceI:
  "complete_trace q [Sent (ErrorFrame c m)]"
  "complete_trace q [Stored q summary saved, Sent (ToolFrame t a ok (if saved then summary else summary @ UNCONFIRMED_TOOL) d saved)]"
  "complete_trace q (Sent (Sources cits) # tokens_log ds @ [Sent (ErrorFrame None m)])"
  "complete_trace q (Sent (Sources cits) # tokens_log ds @ [Stored q (concat ds) saved, Sent (final_frame saved cits)])"
  unfolding complete_trace_def by blast+

lemma cut_traceI: "complete_trace q (l @ rest) \<Longrightarrow> cut_trace q l"
  by (auto simp: cut_trace_def)

lemma cut_trace_Nil [simp]: "cut_trace q []"
  using cut_traceI[of q "[]" "[Sent (ErrorFrame None [])]"] complete_traceI(1) by simp

lemma cut_trace_tokens: "cut_trace q (Sent (Sources cits) # tokens_log ds)"
  by (rule cut_traceI[of _ _ "[Sent (ErrorFrame None m)]" for m]) (simp add: complete_traceI(3))

definition traced :: "string \<Rightarrow> 'a res \<Rightarrow> log_entry list \<Rightarrow> bool" where
  "traced q r l = (case r of Inl e \<Rightarrow> cut_trace q l | Inr _ \<Rightarrow> complete_trace q l)"

lemma on_services_log: "on_services m w = (w', r) \<Longrightarrow> tw_log w' = tw_log w"
  by (auto simp: on_services_def split: prod.splits)

lemma attemptS_cases:
  assumes "attemptS m w = (w', r)"
  shows "(\<exists>x. m w = (w', Inr x) \<and> r = Inr (Some x)) \<or> (\<exists>e. m w = (w', Inl e) \<and> (r = Inr None \<or> r = Inl e))"
  using assms by (auto simp: attemptS_def split: prod.splits sum.splits if_splits)

lemma attempt_log: "attemptS (on_services m) w = (w', r) \<Longrightarrow> tw_log w' = tw_log w"
  using attemptS_cases[of "on_services m" w w' r] on_services_log by blast

lemma send_json_log:
  assumes "send_json V f w = (w', r)"
  shows "(r = Inr () \<and> tw_log w' = tw_log w @ [Sent f]) \<or> (\<exists>e. r = Inl e \<and> tw_log w' = tw_log w)"
  using assms unfolding send_json_def
proof (cases rule: bindS_cases)
  case (raised e) then show ?thesis using on_services_log by blast
next
  case (bound w1 x) then show ?thesis using on_services_log[OF bound(1)] by (auto simp: log_it_def)
qed

lemma send_error_traced:
  assumes "send_json V (ErrorFrame c m) w = (w', r)"
  shows "\<exists>l. tw_log w' = tw_log w @ l \<and> traced q r l"
  using send_json_log[OF assms] by (auto simp: traced_def complete_traceI)

lemma log_then: "bindS (log_it e) (\<lambda>_. retS x) w = (w\<lparr>tw_log := tw_log w @ [e]\<rparr>, Inr x)"
  by (simp add: bindS_def log_it_def retS_def)

lemma persist_log:
  assumes "persist_exchange V tenant conv u a w = (w', r)"
  shows "(\<exists>e. r = Inl e \<and> tw_log w' = tw_log w) \<or> (\<exists>b. r = Inr b \<and> tw_log w' = tw_log w @ [Stored u a b])"
  using assms unfolding persist_exchange_def
proof (cases rule: bindS_cases)
  case (raised e) then show ?thesis using attempt_log by blast
next
  case (bound w1 x)
  have w: "tw_log w1 = tw_log w" by (rule attempt_log[OF bound(1)])
  from bound(2)[unfolded log_then] have "w' = w1\<lparr>tw_log := tw_log w1 @ [Stored u a (x \<noteq> None)]\<rparr>" "r = Inr (x \<noteq> None)" by simp_all
  then show ?thesis using w by (intro disjI2 exI[of _ "x \<noteq> None"]) simp
qed

lemma complete_text_log:
  assumes "complete_text_turn V tenant conv u a cits w = (w', r)"
  shows "(\<exists>e. r = Inl e \<and> tw_log w' = tw_log w) \<or> (\<exists>e b. r = Inl e \<and> tw_log w' = tw_log w @ [Stored u a b]) \<or>
    (\<exists>b. r = Inr () \<and> tw_log w' = tw_log w @ [Stored u a b, Sent (final_frame b cits)])"
  using assms unfolding complete_text_turn_def
proof (cases rule: bindS_cases)
  case (raised e) then show ?thesis using persist_log by blast
next
  case (bound w1 b)
  have w1: "tw_log w1 = tw_log w @ [Stored u a b]" using persist_log[OF bound(1)] by auto
  have "send_json V (final_frame b cits) w1 = (w', r)" using bound(2) by (simp add: final_frame_def split: if_splits)
  from send_json_log[OF this] show ?thesis using w1 by auto
qed

lemma text_turn_traced:
  assumes "complete_text_turn V tenant conv q (concat ds) cits w = (w', r)" "tw_log w = l0 @ Sent (Sources cits) # tokens_log ds"
  shows "\<exists>l. tw_log w' = l0 @ l \<and> traced q r l"
proof -
  have c: "cut_trace q (Sent (Sources cits) # tokens_log ds @ [Stored q (concat ds) b])" for b
    by (rule cut_traceI[of _ _ "[Sent (final_frame b cits)]"]) (simp add: complete_traceI(4))
  from complete_text_log[OF assms(1)] show ?thesis
  proof (elim disjE exE conjE)
    fix e assume "r = Inl e" "tw_log w' = tw_log w"
    then show ?thesis using assms(2) cut_trace_tokens[of q cits ds] by (simp add: traced_def)
  next
    fix e b assume "r = Inl e" "tw_log w' = tw_log w @ [Stored q (concat ds) b]"
    then show ?thesis using assms(2) c[of b] by (simp add: traced_def)
  next
    fix b assume "r = Inr ()" "tw_log w' = tw_log w @ [Stored q (concat ds) b, Sent (final_frame b cits)]"
    then show ?thesis using assms(2) complete_traceI(4)[of q cits ds b] by (simp add: traced_def)
  qed
qed

lemma send_tokens_log:
  assumes "send_tokens V ds w = (w', r)"
  shows "\<exists>k. tw_log w' = tw_log w @ tokens_log (take k ds) \<and> (r = Inr () \<longrightarrow> tw_log w' = tw_log w @ tokens_log ds)"
  using assms
proof (induction ds arbitrary: w)
  case Nil then show ?case by (auto simp: tokens_log_def)
next
  case (Cons d ds)
  from Cons.prems[simplified] show ?case
  proof (cases rule: bindS_cases)
    case (raised e)
    then show ?thesis using send_json_log[OF raised(1)] by (intro exI[of _ 0]) (auto simp: tokens_log_def)
  next
    case (bound w1 x)
    have w1: "tw_log w1 = tw_log w @ [Sent (Token d)]" using send_json_log[OF bound(1)] by auto
    obtain k where "tw_log w' = tw_log w1 @ tokens_log (take k ds) \<and> (r = Inr () \<longrightarrow> tw_log w' = tw_log w1 @ tokens_log ds)"
      using Cons.IH[OF bound(2)] by blast
    then show ?thesis using w1 by (intro exI[of _ "Suc k"]) (auto simp: tokens_log_def)
  qed
qed

lemma stream_answer_log:
  assumes "stream_answer V messages w = (w', r)"
  shows "\<exists>ds. (tw_log w' = tw_log w @ tokens_log ds \<and> (r = Inr (Some (concat ds)) \<or> (\<exists>e. r = Inl e))) \<or>
    (\<exists>m. tw_log w' = tw_log w @ tokens_log ds @ [Sent (ErrorFrame None m)] \<and> r = Inr None)"
proof -
  obtain s deltas failure where s: "sv_stream V messages (tw_services w) = (s, deltas, failure)" by (metis prod.exhaust)
  let ?ending = "\<lambda>_ :: unit. case failure of None \<Rightarrow> retS (Some (concat deltas))
       | Some (LLMGatewayError m) \<Rightarrow> bindS (send_json V (ErrorFrame None m)) (\<lambda>_. retS None) | Some e \<Rightarrow> failS e"
  have "bindS (send_tokens V deltas) ?ending (w\<lparr>tw_services := s\<rparr>) = (w', r)" using assms s by (simp add: stream_answer_def)
  then show ?thesis
  proof (cases rule: bindS_cases)
    case (raised e)
    then show ?thesis using send_tokens_log[OF raised(1)] by auto
  next
    case (bound w1 u)
    have w1: "tw_log w1 = tw_log w @ tokens_log deltas" using send_tokens_log[OF bound(1)] by auto
    show ?thesis
    proof (cases "\<exists>m. failure = Some (LLMGatewayError m)")
      case True
      then obtain m where "bindS (send_json V (ErrorFrame None m)) (\<lambda>_. retS None) w1 = (w', r)" using bound(2) by auto
      then show ?thesis
      proof (cases rule: bindS_cases)
        case (raised e)
        then show ?thesis using send_json_log[OF raised(1)] w1 by auto
      next
        case (bound w2 x)
        then show ?thesis using send_json_log[OF bound(1)] w1 by auto
      qed
    next
      case False
      then show ?thesis using bound(2) w1 by (auto split: option.splits exn.splits)
    qed
  qed
qed

lemma answered_traced:
  assumes "bindS (stream_answer V messages) (\<lambda>answer. case answer of None \<Rightarrow> retS ()
      | Some a \<Rightarrow> complete_text_turn V tenant conv q a cits) w = (w', r)" "tw_log w = l0 @ [Sent (Sources cits)]"
  shows "\<exists>l. tw_log w' = l0 @ l \<and> traced q r l"
  using assms(1)
proof (cases rule: bindS_cases)
  case (raised e)
  then obtain ds where "tw_log w' = tw_log w @ tokens_log ds" using stream_answer_log[OF raised(1)] by auto
  then show ?thesis using assms(2) raised(2) cut_trace_tokens by (simp add: traced_def)
next
  case (bound w1 answer)
  show ?thesis
  proof (cases answer)
    case None
    then obtain ds m where "tw_log w1 = tw_log w @ tokens_log ds @ [Sent (ErrorFrame None m)]" using stream_answer_log[OF bound(1)] by auto
    then show ?thesis using None bound(2) assms(2) complete_traceI(3) by (simp add: traced_def)
  next
    case (Some a)
    then obtain ds where ds: "tw_log w1 = tw_log w @ tokens_log ds" "a = concat ds" using stream_answer_log[OF bound(1)] by auto
    have "complete_text_turn V tenant conv q (concat ds) cits w1 = (w', r)" using bound(2) Some ds(2) by simp
    then show ?thesis by (rule text_turn_traced) (simp add: ds(1) assms(2))
  qed
qed

lemma tool_turn_traced:
  assumes "complete_tool_turn V tenant conv q state w = (w', r)"
  shows "\<exists>l. tw_log w' = tw_log w @ l \<and> traced q r l"
proof (cases "\<exists>t. r_tool state = Some (NodeResult t)")
  case True
  then obtain t where t: "r_tool state = Some (NodeResult t)" by blast
  from assms[unfolded complete_tool_turn_def t, simplified] show ?thesis
  proof (cases rule: bindS_cases)
    case (raised e)
    then show ?thesis using persist_log[OF raised(1)] by (auto simp: traced_def)
  next
    case (bound w1 b)
    have w1: "tw_log w1 = tw_log w @ [Stored q (t_summary t) b]" using persist_log[OF bound(1)] by auto
    let ?f = "ToolFrame (i_tool (r_intent state)) (i_action (r_intent state)) (t_success t)
             (if b then t_summary t else t_summary t @ UNCONFIRMED_TOOL) (t_details t) b"
    have c: "complete_trace q [Stored q (t_summary t) b, Sent ?f]" by (rule complete_traceI(2))
    have "cut_trace q [Stored q (t_summary t) b]" by (rule cut_traceI[of _ _ "[Sent ?f]"]) (simp add: c)
    then show ?thesis using send_json_log[OF bound(2)] w1 c by (auto simp: traced_def)
  qed
next
  case False
  then obtain c m where "send_json V (ErrorFrame c m) w = (w', r)"
    using assms by (auto simp: complete_tool_turn_def split: option.splits node_out.splits)
  then show ?thesis by (rule send_error_traced)
qed

lemma conversational_turn_traced:
  assumes "complete_conversational_turn V tenant conv q history w = (w', r)"
  shows "\<exists>l. tw_log w' = tw_log w @ l \<and> traced q r l"
  using assms unfolding complete_conversational_turn_def
proof (cases rule: bindS_cases)
  case (raised e)
  then show ?thesis using send_json_log[OF raised(1)] by (auto simp: traced_def)
next
  case (bound w1 u)
  have w1: "tw_log w1 = tw_log w @ [Sent (Sources [])]" using send_json_log[OF bound(1)] by auto
  show ?thesis
  proof (cases "build_messages (sv_float V) history [] q")
    case (Inl e)
    then show ?thesis using bound(2) w1 cut_trace_tokens[of q "[]" "[]"] by (auto simp: bindS_liftS traced_def tokens_log_def)
  next
    case (Inr messages)
    then show ?thesis using answered_traced[OF _ w1] bound(2) by (simp add: bindS_liftS)
  qed
qed

lemma rag_turn_traced:
  assumes "complete_rag_turn V tenant conv q history w = (w', r)"
  shows "\<exists>l. tw_log w' = tw_log w @ l \<and> traced q r l"
  using assms unfolding complete_rag_turn_def
proof (cases rule: bindS_cases)
  case (raised e)
  then show ?thesis using on_services_log[OF raised(1)] by (auto simp: traced_def)
next
  case (bound w1 rq)
  have w1: "tw_log w1 = tw_log w" by (rule on_services_log[OF bound(1)])
  from bound(2) show ?thesis
  proof (cases rule: bindS_cases)
    case (raised e)
    then show ?thesis using attempt_log[OF raised(1)] w1 by (auto simp: traced_def)
  next
    case (bound w2 found)
    have w2: "tw_log w2 = tw_log w" using attempt_log[OF bound(1)] w1 by simp
    show ?thesis
    proof (cases found)
      case None
      then show ?thesis using bound(2) send_error_traced w2 by fastforce
    next
      case (Some sources)
      show ?thesis
      proof (cases "mapR summarize_source (enumerate 1 sources)")
        case (Inl e)
        then show ?thesis using bound(2) Some w2 by (auto simp: bindS_liftS traced_def)
      next
        case (Inr summaries)
        have rest: "bindS (send_json V (Sources summaries)) (\<lambda>_.
                 if sources = [] then
                   bindS (send_json V (Token NO_CONTEXT_MESSAGE)) (\<lambda>_.
                     complete_text_turn V tenant conv q NO_CONTEXT_MESSAGE [])
                 else
                   bindS (liftS (build_messages (sv_float V) history sources q)) (\<lambda>messages.
                     bindS (stream_answer V messages) (\<lambda>answer. case answer of
                         None \<Rightarrow> retS ()
                       | Some a \<Rightarrow> complete_text_turn V tenant conv q a summaries))) w2 = (w', r)"
          using bound(2) Some Inr by (simp add: bindS_liftS)
        then show ?thesis
        proof (cases rule: bindS_cases)
          case (raised e)
          then show ?thesis using send_json_log[OF raised(1)] w2 by (auto simp: traced_def)
        next
          case (bound w3 u)
          have w3: "tw_log w3 = tw_log w @ [Sent (Sources summaries)]" using send_json_log[OF bound(1)] w2 by auto
          show ?thesis
          proof (cases "sources = []")
            case True
            then have none: "summaries = []" using Inr by simp
            have "bindS (send_json V (Token NO_CONTEXT_MESSAGE)) (\<lambda>_. complete_text_turn V tenant conv q NO_CONTEXT_MESSAGE []) w3 = (w', r)"
              using bound(2) True by simp
            then show ?thesis
            proof (cases rule: bindS_cases)
              case (raised e)
              then have "tw_log w' = tw_log w @ [Sent (Sources [])]" using send_json_log[OF raised(1)] w3 none by auto
              then show ?thesis using raised(2) cut_trace_tokens[of q "[]" "[]"] by (simp add: traced_def tokens_log_def)
            next
              case (bound w4 v)
              have "tw_log w4 = tw_log w @ Sent (Sources []) # tokens_log [NO_CONTEXT_MESSAGE]"
                using send_json_log[OF bound(1)] w3 none by (auto simp: tokens_log_def)
              moreover have "complete_text_turn V tenant conv q (concat [NO_CONTEXT_MESSAGE]) [] w4 = (w', r)" using bound(2) by simp
              ultimately show ?thesis using text_turn_traced by blast
            qed
          next
            case False
            show ?thesis
            proof (cases "build_messages (sv_float V) history sources q")
              case (Inl e)
              then show ?thesis using bound(2) False w3 cut_trace_tokens[of q summaries "[]"]
                by (auto simp: bindS_liftS traced_def tokens_log_def)
            next
              case (Inr messages)
              then show ?thesis using answered_traced[OF _ w3] bound(2) False by (simp add: bindS_liftS)
            qed
          qed
        qed
      qed
    qed
  qed
qed

lemma read_history_log: "attemptS (read_history V p conv) w = (w', r) \<Longrightarrow> tw_log w' = tw_log w"
  using attemptS_cases[of "read_history V p conv" w w' r] on_services_log
  by (fastforce simp: read_history_def retS_def split: if_splits)

lemma chat_turn_traced:
  assumes "chat_turn V p conv q w = (w', r)"
  shows "\<exists>l. tw_log w' = tw_log w @ l \<and> traced q r l"
  using assms unfolding chat_turn_def
proof (cases rule: bindS_cases)
  case (raised e)
  then show ?thesis using read_history_log[OF raised(1)] by (auto simp: traced_def)
next
  case (bound w1 h)
  have w1: "tw_log w1 = tw_log w" by (rule read_history_log[OF bound(1)])
  show ?thesis
  proof (cases h)
    case None
    then show ?thesis using bound(2) send_error_traced w1 by fastforce
  next
    case (Some history)
    from bound(2)[unfolded Some option.case] show ?thesis
    proof (cases rule: bindS_cases)
      case (raised e)
      then show ?thesis using attempt_log[OF raised(1)] w1 by (auto simp: traced_def)
    next
      case (bound w2 state)
      have w2: "tw_log w2 = tw_log w" using attempt_log[OF bound(1)] w1 by simp
      show ?thesis
      proof (cases state)
        case None
        then show ?thesis using bound(2) send_error_traced w2 by fastforce
      next
        case (Some st)
        have b: "(if r_route st = ''tool'' then complete_tool_turn V (tenant_id p) conv q st
                 else if r_route st = ''conversational'' then complete_conversational_turn V (tenant_id p) conv q history
                 else if ''documents:read'' \<notin> scopes p then
                   send_json V (ErrorFrame None ''Document retrieval is not permitted.'')
                 else complete_rag_turn V (tenant_id p) conv q history) w2 = (w', r)"
          using bound(2) Some by simp
        have "\<exists>l. tw_log w' = tw_log w2 @ l \<and> traced q r l"
          using b tool_turn_traced conversational_turn_traced send_error_traced rag_turn_traced by (auto split: if_splits)
        then show ?thesis by (simp add: w2)
      qed
    qed
  qed
qed

lemma run_chat_traced:
  assumes "run_chat V p conv qs closing w = (w', r)"
  shows "\<exists>ls l. tw_log w' = tw_log w @ concat ls @ l \<and>
    ((length ls = length qs \<and> list_all2 complete_trace qs ls \<and> l = [] \<and> r = Inl closing) \<or>
     (length ls < length qs \<and> list_all2 complete_trace (take (length ls) qs) ls \<and> cut_trace (qs ! length ls) l \<and> (\<exists>e. r = Inl e)))"
  using assms
proof (induction qs arbitrary: w)
  case Nil
  then show ?case by (intro exI[of _ "[]"]) auto
next
  case (Cons q qs)
  from Cons.prems[simplified] show ?case
  proof (cases rule: bindS_cases)
    case (raised e)
    then obtain l where "tw_log w' = tw_log w @ l" "cut_trace q l" using chat_turn_traced[OF raised(1)] by (auto simp: traced_def)
    then show ?thesis using raised(2) by (intro exI[of _ "[]"] exI[of _ l]) simp
  next
    case (bound w1 u)
    obtain l1 where l1: "tw_log w1 = tw_log w @ l1" "complete_trace q l1" using chat_turn_traced[OF bound(1)] by (auto simp: traced_def)
    obtain ls l where r: "tw_log w' = tw_log w1 @ concat ls @ l"
      "(length ls = length qs \<and> list_all2 complete_trace qs ls \<and> l = [] \<and> r = Inl closing) \<or>
       (length ls < length qs \<and> list_all2 complete_trace (take (length ls) qs) ls \<and> cut_trace (qs ! length ls) l \<and> (\<exists>e. r = Inl e))"
      using Cons.IH[OF bound(2)] by blast
    show ?thesis
      by (rule exI[of _ "l1 # ls"], rule exI[of _ l]) (use r l1 in auto)
  qed
qed

text \<open>C5 (safety): the chat protocol. Whatever the services answer or raise, each message of a session gets exactly one complete
  turn, in order: an error; a tool result after its exchange was handed to the history; or the sources, the tokens, and either an
  error or the answer, stored as the concatenation of the tokens just sent and acknowledged as done exactly when the store
  confirmed it. Only the last turn may be cut short, when the connection or the task ends within it.\<close>

theorem chat_protocol:
  assumes "run_chat V p conv qs closing w = (w', r)"
  shows "\<exists>ls l. tw_log w' = tw_log w @ concat ls @ l \<and>
    ((length ls = length qs \<and> list_all2 complete_trace qs ls \<and> l = [] \<and> r = Inl closing) \<or>
     (length ls < length qs \<and> list_all2 complete_trace (take (length ls) qs) ls \<and> cut_trace (qs ! length ls) l \<and> (\<exists>e. r = Inl e)))"
  by (rule run_chat_traced[OF assms])

section \<open>Whose data a session touches\<close>

text \<open>Two sets of services that answer alike what a session of the principal on the conversation may ask.\<close>

definition alike :: "principal \<Rightarrow> string \<Rightarrow> 's services \<Rightarrow> 's services \<Rightarrow> bool" where
  "alike p conv V V' = (sv_send V' = sv_send V \<and> sv_stream V' = sv_stream V \<and> sv_condense V' = sv_condense V \<and> sv_float V' = sv_float V \<and>
     (\<forall>q. sv_route V' (tenant_id p) q p = sv_route V (tenant_id p) q p) \<and>
     (''chat:history'' \<in> scopes p \<longrightarrow> sv_history V' (tenant_id p) conv = sv_history V (tenant_id p) conv) \<and>
     (\<forall>u a. sv_append V' (tenant_id p) conv u a = sv_append V (tenant_id p) conv u a) \<and>
     (''documents:read'' \<in> scopes p \<longrightarrow> (\<forall>q. sv_retrieve V' q (tenant_id p) = sv_retrieve V q (tenant_id p))))"

lemma alike_parts:
  assumes "alike p conv V V'"
  shows "send_json V' = send_json V" "send_tokens V' = send_tokens V" "stream_answer V' = stream_answer V"
    "persist_exchange V' (tenant_id p) conv = persist_exchange V (tenant_id p) conv" "read_history V' p conv = read_history V p conv"
proof -
  show send: "send_json V' = send_json V" using assms by (simp add: send_json_def[abs_def] alike_def)
  show tok: "send_tokens V' = send_tokens V"
  proof
    fix ds show "send_tokens V' ds = send_tokens V ds" by (induction ds) (simp_all add: send)
  qed
  have st: "sv_stream V' = sv_stream V" using assms by (simp add: alike_def)
  show "stream_answer V' = stream_answer V" by (intro ext) (unfold stream_answer_def send tok st, rule refl)
  show "persist_exchange V' (tenant_id p) conv = persist_exchange V (tenant_id p) conv"
    using assms by (simp add: persist_exchange_def[abs_def] alike_def)
  show "read_history V' p conv = read_history V p conv" using assms by (simp add: read_history_def alike_def)
qed

lemma alike_turns:
  assumes "alike p conv V V'"
  shows "complete_text_turn V' (tenant_id p) conv = complete_text_turn V (tenant_id p) conv"
    "complete_tool_turn V' (tenant_id p) conv = complete_tool_turn V (tenant_id p) conv"
    "complete_conversational_turn V' (tenant_id p) conv = complete_conversational_turn V (tenant_id p) conv"
    "''documents:read'' \<in> scopes p \<Longrightarrow> complete_rag_turn V' (tenant_id p) conv = complete_rag_turn V (tenant_id p) conv"
proof -
  note parts = alike_parts[OF assms]
  have fl: "sv_float V' = sv_float V" using assms by (simp add: alike_def)
  show text_turn: "complete_text_turn V' (tenant_id p) conv = complete_text_turn V (tenant_id p) conv"
    by (intro ext) (unfold complete_text_turn_def parts, rule refl)
  show "complete_tool_turn V' (tenant_id p) conv = complete_tool_turn V (tenant_id p) conv"
    by (intro ext) (unfold complete_tool_turn_def parts, rule refl)
  show "complete_conversational_turn V' (tenant_id p) conv = complete_conversational_turn V (tenant_id p) conv"
    by (intro ext) (unfold complete_conversational_turn_def parts text_turn fl, rule refl)
  show "complete_rag_turn V' (tenant_id p) conv = complete_rag_turn V (tenant_id p) conv" if "''documents:read'' \<in> scopes p"
  proof -
    have c: "sv_condense V' = sv_condense V" and r: "sv_retrieve V' q (tenant_id p) = sv_retrieve V q (tenant_id p)" for q
      using assms that by (simp_all add: alike_def)
    show ?thesis by (intro ext) (unfold complete_rag_turn_def parts text_turn fl c r, rule refl)
  qed
qed

lemma alike_run:
  assumes "alike p conv V V'"
  shows "run_chat V' p conv qs closing = run_chat V p conv qs closing"
proof (induction qs)
  case (Cons q qs)
  have r: "sv_route V' (tenant_id p) q p = sv_route V (tenant_id p) q p" for q using assms by (simp add: alike_def)
  have "chat_turn V' p conv q = chat_turn V p conv q"
  proof (cases "''documents:read'' \<in> scopes p")
    case True
    show ?thesis unfolding chat_turn_def alike_parts[OF assms] alike_turns(1-3)[OF assms] alike_turns(4)[OF assms True] r ..
  next
    case False
    then have d: "(if ''documents:read'' \<notin> scopes p then a else b) = a" for a b :: "('a, unit) turn" by simp
    show ?thesis unfolding chat_turn_def alike_parts[OF assms] alike_turns(1-3)[OF assms] r d ..
  qed
  then show ?case by (simp add: Cons.IH)
qed simp

text \<open>C19 (safety): a session touches its own tenant's data only, and no conversation but its own: it runs the same, frame by
  frame, whatever history, retrieval and routing answer for other tenants and other conversations; whatever
  retrieval answers at all without the scope to read documents; and whatever the history of a conversation named by
  the client is without the scope to read histories, since such a session is refused.\<close>

theorem session_confined:
  assumes "\<And>conv. conv = fresh \<or> (supplied = Some conv \<and> ''chat:history'' \<in> scopes p) \<Longrightarrow> alike p conv V V'"
  shows "handle_chat_session V' p supplied fresh qs closing w = handle_chat_session V p supplied fresh qs closing w"
proof -
  define given where "given = (case supplied of None \<Rightarrow> [] | Some c \<Rightarrow> c)"
  define conv where "conv = (if given \<noteq> [] then given else fresh)"
  show ?thesis
  proof (cases "given \<noteq> [] \<and> ''chat:history'' \<notin> scopes p")
    case True
    then show ?thesis by (simp add: handle_chat_session_def Let_def given_def)
  next
    case False
    then have "conv = fresh \<or> (supplied = Some conv \<and> ''chat:history'' \<in> scopes p)"
      by (auto simp: conv_def given_def split: option.splits)
    then have a: "alike p conv V V'" by (rule assms)
    show ?thesis unfolding handle_chat_session_def given_def[symmetric] Let_def conv_def[symmetric] alike_run[OF a] alike_parts(1)[OF a] ..
  qed
qed

section \<open>Citations\<close>

lemma mapR_nth: "mapR f xs = Inr ys \<Longrightarrow> i < length xs \<Longrightarrow> f (xs ! i) = Inr (ys ! i)"
proof (induction xs arbitrary: ys i)
  case (Cons x xs)
  then show ?case by (cases i) auto
qed simp

text \<open>(functional): the numbers agree: the entry of the sources frame at a position, the line of the context block the
  model is given at that position and the retrieved passage there have the same number, counted from one, and
  the same file, page and text.\<close>

lemma citations_match:
  assumes "mapR summarize_source (enumerate 1 sources) = Inr summaries" "mapR (context_line fl) (enumerate 1 sources) = Inr lines"
    and "build_messages fl history sources q = Inr messages" "i < length sources"
  shows "length summaries = length sources \<and> length lines = length sources \<and>
    snd (last messages) = ''Sources:'' @ nl @ join_with (nl @ nl) lines @ nl @ nl @ ''Question: '' @ q"
    "ss_index (summaries ! i) = i + 1 \<and> ss_score (summaries ! i) = dget (sources ! i) ''score''"
    "\<exists>fname page content. map_of (sources ! i) ''filename'' = Some fname \<and> map_of (sources ! i) ''page_number'' = Some page \<and>
       map_of (sources ! i) ''text'' = Some content \<and> ss_filename (summaries ! i) = fname \<and> ss_page (summaries ! i) = page \<and>
       preview content = Inr (ss_text (summaries ! i)) \<and>
       lines ! i = ''['' @ nat_digits (i + 1) @ ''] ('' @ pv_str fl fname @ '', page '' @ pv_str fl page @ ''): '' @ pv_str fl content"
proof -
  have n: "enumerate 1 sources ! i = (i + 1, sources ! i)" using assms(4) by (simp add: nth_enumerate_eq)
  have s: "summarize_source (i + 1, sources ! i) = Inr (summaries ! i)"
    using mapR_nth[OF assms(1), of i] assms(4) n by simp
  have l: "context_line fl (i + 1, sources ! i) = Inr (lines ! i)"
    using mapR_nth[OF assms(2), of i] assms(4) n by simp
  have "messages = [(''system'', SYSTEM_PROMPT)] @ history @ [(''user'', ''Sources:'' @ nl @ join_with (nl @ nl) lines @ nl @ nl @ ''Question: '' @ q)]"
    using assms(2-4) by (auto simp: build_messages_def build_context_block_def)
  then show "length summaries = length sources \<and> length lines = length sources \<and>
      snd (last messages) = ''Sources:'' @ nl @ join_with (nl @ nl) lines @ nl @ nl @ ''Question: '' @ q"
    using mapR_length[OF assms(1)] mapR_length[OF assms(2)] by simp
  obtain fname page content t where f: "map_of (sources ! i) ''filename'' = Some fname" "map_of (sources ! i) ''page_number'' = Some page"
      "map_of (sources ! i) ''text'' = Some content" "preview content = Inr t"
      "summaries ! i = \<lparr>ss_index = i + 1, ss_filename = fname, ss_page = page, ss_score = dget (sources ! i) ''score'', ss_text = t\<rparr>"
    using s by (auto simp: summarize_source_def dkey_def split: option.splits)
  show "ss_index (summaries ! i) = i + 1 \<and> ss_score (summaries ! i) = dget (sources ! i) ''score''" using f(5) by simp
  have "lines ! i = ''['' @ nat_digits (i + 1) @ ''] ('' @ pv_str fl fname @ '', page '' @ pv_str fl page @ ''): '' @ pv_str fl content"
    using l f by (simp add: context_line_def dkey_def)
  then show "\<exists>fname page content. map_of (sources ! i) ''filename'' = Some fname \<and> map_of (sources ! i) ''page_number'' = Some page \<and>
       map_of (sources ! i) ''text'' = Some content \<and> ss_filename (summaries ! i) = fname \<and> ss_page (summaries ! i) = page \<and>
       preview content = Inr (ss_text (summaries ! i)) \<and>
       lines ! i = ''['' @ nat_digits (i + 1) @ ''] ('' @ pv_str fl fname @ '', page '' @ pv_str fl page @ ''): '' @ pv_str fl content"
    using f by (intro exI[of _ fname] exI[of _ page] exI[of _ content]) simp
qed

section \<open>What an acknowledgement means\<close>

definition keeps :: "('w \<Rightarrow> bool) \<Rightarrow> ('w, 'a) st \<Rightarrow> bool" where
  "keeps I m = (\<forall>w. I w \<longrightarrow> I (fst (m w)))"

lemma keepsD: "keeps I m \<Longrightarrow> m w = (w', r) \<Longrightarrow> I w \<Longrightarrow> I w'"
  unfolding keeps_def by (drule spec[of _ w]) simp

lemma keepsI: "(\<And>w w' r. m w = (w', r) \<Longrightarrow> I w \<Longrightarrow> I w') \<Longrightarrow> keeps I m"
  unfolding keeps_def by (metis prod.collapse)

lemma keeps_bindS:
  assumes "keeps I m" "\<And>x. keeps I (f x)"
  shows "keeps I (bindS m f)"
proof (rule keepsI)
  fix w w' r assume "bindS m f w = (w', r)" "I w"
  then show "I w'"
  proof (cases rule: bindS_cases)
    case (raised e)
    then show ?thesis using keepsD[OF assms(1)] \<open>I w\<close> by simp
  next
    case (bound w1 x)
    then show ?thesis using keepsD[OF assms(1) bound(1) \<open>I w\<close>] keepsD[OF assms(2) bound(2)] by simp
  qed
qed

lemma keeps_pure: "keeps I (retS x)" "keeps I (failS e)" "keeps I (liftS q)"
  by (simp_all add: keeps_def retS_def failS_def liftS_def)

lemma keeps_attempt: "keeps I m \<Longrightarrow> keeps I (attemptS m)"
  by (rule keepsI, drule attemptS_cases) (auto dest: keepsD)

definition log_all :: "(log_entry \<Rightarrow> bool) \<Rightarrow> 's turn_world \<Rightarrow> bool" where
  "log_all P w = (\<forall>e \<in> set (tw_log w). P e)"

lemma keeps_services: "keeps (log_all P) (on_services m)"
  by (rule keepsI, drule on_services_log) (simp add: log_all_def)

lemma keeps_send: "(\<And>f. P (Sent f)) \<Longrightarrow> keeps (log_all P) (send_json V f)"
  unfolding send_json_def by (rule keeps_bindS[OF keeps_services]) (simp add: keeps_def log_all_def log_it_def)

lemma keeps_tokens: "(\<And>f. P (Sent f)) \<Longrightarrow> keeps (log_all P) (send_tokens V ds)"
  by (induction ds) (auto intro!: keeps_bindS keeps_send keeps_pure)

lemma keeps_ending:
  assumes "\<And>f. P (Sent f)"
  shows "keeps (log_all P) (case failure of None \<Rightarrow> retS (Some a)
    | Some (LLMGatewayError m) \<Rightarrow> bindS (send_json V (ErrorFrame None m)) (\<lambda>_. retS None) | Some e \<Rightarrow> failS e)"
proof (cases failure)
  case (Some e)
  then show ?thesis by (cases e) (simp_all add: keeps_pure keeps_bindS keeps_send assms)
qed (simp add: keeps_pure)

lemma keeps_stream:
  assumes "\<And>f. P (Sent f)"
  shows "keeps (log_all P) (stream_answer V messages)"
proof (rule keepsI)
  fix w w' r assume s: "stream_answer V messages w = (w', r)" "log_all P w"
  obtain s' ds failure where v: "sv_stream V messages (tw_services w) = (s', ds, failure)" by (metis prod.exhaust)
  note k = keeps_bindS[OF keeps_tokens[of P, OF assms] keeps_ending[of P, OF assms]]
  have "log_all P (w\<lparr>tw_services := s'\<rparr>)" using s(2) by (simp add: log_all_def)
  then show "log_all P w'" using s(1) unfolding stream_answer_def v prod.case by (rule keepsD[OF k, rotated])
qed

text \<open>Every store that the log shows as confirmed is one that succeeded.\<close>

definition confirmed_by :: "'s services \<Rightarrow> string \<Rightarrow> string \<Rightarrow> log_entry \<Rightarrow> bool" where
  "confirmed_by V tenant conv e = (case e of Stored u a True \<Rightarrow> \<exists>s s'. sv_append V tenant conv u a s = (s', Inr ()) | _ \<Rightarrow> True)"

lemma confirmed_by_simps [simp]: "confirmed_by V tenant conv (Sent f)" "confirmed_by V tenant conv (Stored u a False)"
  by (simp_all add: confirmed_by_def)

lemma keeps_persist:
  assumes "\<And>e. confirmed_by V tenant conv e \<Longrightarrow> P e"
  shows "keeps (log_all P) (persist_exchange V tenant conv u a)"
proof (rule keepsI)
  fix w w' r assume p: "persist_exchange V tenant conv u a w = (w', r)" and I: "log_all P w"
  from p[unfolded persist_exchange_def] show "log_all P w'"
  proof (cases rule: bindS_cases)
    case (raised e)
    then show ?thesis using attempt_log[OF raised(1)] I by (simp add: log_all_def)
  next
    case (bound w1 x)
    have w1: "tw_log w1 = tw_log w" by (rule attempt_log[OF bound(1)])
    have w': "tw_log w' = tw_log w @ [Stored u a (x \<noteq> None)]" using bound(2)[unfolded log_then] w1 by auto
    have "confirmed_by V tenant conv (Stored u a (x \<noteq> None))"
    proof (cases x)
      case (Some y)
      then have "on_services (sv_append V tenant conv u a) w = (w1, Inr ())" using attemptS_cases[OF bound(1)] by auto
      then have "\<exists>s s'. sv_append V tenant conv u a s = (s', Inr ())" by (auto simp: on_services_def split: prod.splits)
      then show ?thesis using Some by (simp add: confirmed_by_def)
    qed simp
    then show ?thesis using I w' assms by (simp add: log_all_def)
  qed
qed

lemma keeps_turn:
  assumes "\<And>e. confirmed_by V (tenant_id p) conv e \<Longrightarrow> P e"
  shows "keeps (log_all P) (chat_turn V p conv q)"
proof -
  let ?I = "log_all P"
  have snd: "keeps ?I (send_json V f)" for f by (rule keeps_send) (simp add: assms)
  have str: "keeps ?I (stream_answer V ms)" for ms by (rule keeps_stream) (simp add: assms)
  note steps = keeps_bindS keeps_pure keeps_attempt keeps_services snd str keeps_persist[of V "tenant_id p" conv P, OF assms]
  have t: "keeps ?I (complete_text_turn V (tenant_id p) conv q a cits)" for a cits
    unfolding complete_text_turn_def by (intro steps) (simp split: if_split, simp add: snd)
  have a: "keeps ?I (case x of None \<Rightarrow> retS () | Some a \<Rightarrow> complete_text_turn V (tenant_id p) conv q a cits)" for x cits
    by (cases x) (simp_all add: keeps_pure t)
  have "keeps ?I (complete_tool_turn V (tenant_id p) conv q st)" for st
    unfolding complete_tool_turn_def by (auto intro!: steps split: option.splits node_out.splits)
  moreover have "keeps ?I (complete_conversational_turn V (tenant_id p) conv q history)" for history
    unfolding complete_conversational_turn_def by (intro steps a)
  moreover have "keeps ?I (complete_rag_turn V (tenant_id p) conv q history)" for history
  proof -
    have "keeps ?I (bindS (liftS (mapR summarize_source (enumerate 1 sources))) (\<lambda>summaries.
               bindS (send_json V (Sources summaries)) (\<lambda>_.
                 if sources = [] then
                   bindS (send_json V (Token NO_CONTEXT_MESSAGE)) (\<lambda>_.
                     complete_text_turn V (tenant_id p) conv q NO_CONTEXT_MESSAGE [])
                 else
                   bindS (liftS (build_messages (sv_float V) history sources q)) (\<lambda>messages.
                     bindS (stream_answer V messages) (\<lambda>answer. case answer of
                         None \<Rightarrow> retS ()
                       | Some a \<Rightarrow> complete_text_turn V (tenant_id p) conv q a summaries)))))" for sources
      by (intro steps) (auto intro!: steps a t)
    then show ?thesis unfolding complete_rag_turn_def
      by (intro keeps_bindS keeps_services keeps_attempt) (simp add: snd split: option.split)
  qed
  moreover have "keeps ?I (read_history V p conv)" unfolding read_history_def by (auto intro!: steps)
  ultimately show ?thesis unfolding chat_turn_def
    by (intro keeps_bindS keeps_attempt) (auto intro!: steps split: option.splits)
qed

lemma keeps_run:
  "(\<And>e. confirmed_by V (tenant_id p) conv e \<Longrightarrow> P e) \<Longrightarrow> keeps (log_all P) (run_chat V p conv qs closing)"
  by (induction qs) (auto intro!: keeps_bindS keeps_turn keeps_pure)

lemma new_entries_confirmed:
  assumes "run_chat V p conv qs closing w = (w', r)" "e \<in> set (tw_log w')" "e \<notin> set (tw_log w)"
  shows "confirmed_by V (tenant_id p) conv e"
proof -
  let ?P = "\<lambda>e. e \<in> set (tw_log w) \<or> confirmed_by V (tenant_id p) conv e"
  have "keeps (log_all ?P) (run_chat V p conv qs closing)" by (rule keeps_run) simp
  then have "log_all ?P w'" by (rule keepsD) (rule assms(1), simp add: log_all_def)
  then show ?thesis using assms(2,3) by (auto simp: log_all_def)
qed

text \<open>The history service of the application: the MongoDB adapter on its part of the state.\<close>

definition stores_in :: "'m mongo \<Rightarrow> history_settings \<Rightarrow> ('s \<Rightarrow> 'm history) \<Rightarrow> 's services \<Rightarrow> bool" where
  "stores_in mg S hist V = (\<forall>t c u a s s' r. sv_append V t c u a s = (s', r) \<longrightarrow> append_exchange mg S t c u a None (hist s) = (hist s', r))"


section \<open>A session at work\<close>

text \<open>A conversation over a history kept as a map, with an answer of two tokens.\<close>

type_synonym example_state = "(conversation \<rightharpoonup> pyval list) history"

definition small_talk :: intent where
  "small_talk = \<lparr>i_kind = ''conversational'', i_tool = PNone, i_action = PNone, i_params = PDict [], i_reason = []\<rparr>"

definition example_services :: "example_state services" where
  "example_services = \<lparr>sv_history = \<lambda>t c. get_history map_mongo small_history t c None,
     sv_append = \<lambda>t c u a. append_exchange map_mongo small_history t c u a None,
     sv_route = \<lambda>t q p s. (s, Inr \<lparr>r_intent = small_talk, r_route = ''conversational'', r_tool = None\<rparr>),
     sv_stream = \<lambda>ms s. (s, [''ye'', ''s''], None), sv_condense = \<lambda>h q s. (s, Inr q),
     sv_retrieve = \<lambda>q t s. (s, Inr []), sv_send = \<lambda>f s. (s, Inr ()), sv_float = \<lambda>x. []\<rparr>"

definition example_user :: principal where
  "example_user = \<lparr>tenant_id = ''t'', credential_id = ''k'', scopes = {}\<rparr>"

definition example_world :: "log_entry list \<Rightarrow> (conversation \<rightharpoonup> pyval list) \<Rightarrow> example_state turn_world" where
  "example_world l s = \<lparr>tw_services = ready_history s, tw_log = l\<rparr>"

abbreviation stored_exchange :: "conversation \<rightharpoonup> pyval list" where
  "stored_exchange \<equiv> [(''t'', ''c'') \<mapsto> last_n 2 (of_doc None @ exchange_docs ''hi'' ''yes'')]"

definition example_log :: "log_entry list" where
  "example_log = [Sent (Sources []), Sent (Token ''ye''), Sent (Token ''s''), Stored ''hi'' ''yes'' True, Sent (Done [])]"

lemma example_send: "send_json example_services f (example_world l s) = (example_world (l @ [Sent f]) s, Inr ())"
  by (simp add: send_json_def on_services_def bindS_def log_it_def example_services_def example_world_def)

lemma example_tokens:
  "send_tokens example_services ds (example_world l s) = (example_world (l @ tokens_log ds) s, Inr ())"
  by (induction ds arbitrary: l) (simp_all add: bindS_def example_send tokens_log_def retS_def)

lemma example_route: "on_services (sv_route example_services t q p) (example_world l s) =
    (example_world l s, Inr \<lparr>r_intent = small_talk, r_route = ''conversational'', r_tool = None\<rparr>)"
  by (simp add: on_services_def example_services_def example_world_def)

lemma example_run:
  "run_chat example_services example_user ''c'' [''hi''] closing (example_world l (\<lambda>q. None)) =
     (example_world (l @ example_log) stored_exchange, Inl closing)"
proof -
  have "stream_answer example_services ms (example_world l s) =
      (example_world (l @ tokens_log [''ye'', ''s'']) s, Inr (Some ''yes''))" for ms l s
  proof -
    have "sv_stream example_services ms (tw_services (example_world l s)) = (tw_services (example_world l s), [''ye'', ''s''], None)"
      by (simp add: example_services_def)
    then show ?thesis unfolding stream_answer_def
      by (simp add: bindS_def example_tokens retS_def del: send_tokens.simps)
  qed
  moreover have "persist_exchange example_services ''t'' ''c'' ''hi'' ''yes'' (example_world l (\<lambda>q. None)) =
      (example_world (l @ [Stored ''hi'' ''yes'' True]) stored_exchange, Inr True)" for l
    using example_append[of "\<lambda>q. None"]
    by (simp add: persist_exchange_def bindS_def attemptS_def on_services_def log_it_def retS_def example_services_def example_world_def)
  ultimately have "complete_conversational_turn example_services ''t'' ''c'' ''hi'' [] (example_world l (\<lambda>q. None)) =
      (example_world (l @ example_log) stored_exchange, Inr ())"
    unfolding complete_conversational_turn_def complete_text_turn_def
    by (simp add: bindS_def liftS_def example_send build_messages_def build_context_block_def tokens_log_def example_log_def split: bool.split)
  then have "chat_turn example_services example_user ''c'' ''hi'' (example_world l (\<lambda>q. None)) =
      (example_world (l @ example_log) stored_exchange, Inr ())"
    unfolding chat_turn_def read_history_def
    by (simp add: bindS_def attemptS_def retS_def example_route) (simp add: example_user_def)
  then show ?thesis by (simp add: bindS_def failS_def)
qed

theorem chat_protocol_witness:
  "\<exists>ls l. example_log = [] @ concat ls @ l \<and>
    ((length ls = length [''hi''] \<and> list_all2 complete_trace [''hi''] ls \<and> l = [] \<and> Inl RuntimeError = (Inl RuntimeError :: unit res)) \<or>
     (length ls < length [''hi''] \<and> list_all2 complete_trace (take (length ls) [''hi'']) ls \<and> cut_trace ([''hi''] ! length ls) l \<and>
       (\<exists>e. Inl RuntimeError = (Inl e :: unit res))))"
  using chat_protocol[OF example_run[of RuntimeError "[]"]] by (simp only: example_world_def turn_world.simps append_Nil)

theorem session_confined_witness:
  "handle_chat_session (example_services\<lparr>sv_history := \<lambda>t c. failS RuntimeError\<rparr>) example_user None ''c'' [''hi''] RuntimeError (example_world [] (\<lambda>q. None)) =
     (example_world (Sent (Ready ''c'') # example_log) stored_exchange, Crashed RuntimeError)"
proof -
  have a: "alike example_user conv example_services (example_services\<lparr>sv_history := \<lambda>t c. failS RuntimeError\<rparr>)" for conv
    by (simp add: alike_def example_user_def)
  have "handle_chat_session example_services example_user None ''c'' [''hi''] RuntimeError (example_world [] (\<lambda>q. None)) =
      (example_world (Sent (Ready ''c'') # example_log) stored_exchange, Crashed RuntimeError)"
    using example_run[of RuntimeError "[Sent (Ready ''c'')]"] example_identity
    by (simp add: handle_chat_session_def Let_def example_send del: run_chat.simps) (simp add: example_user_def)
  then show ?thesis using session_confined[of "''c''" None example_user example_services, OF a] by simp
qed


lemma citations_match_witness:
  "\<exists>text. mapR (context_line (\<lambda>x. [])) (enumerate 1 [[(''filename'', PStr ''f''), (''page_number'', PInt 2), (''text'', PStr ''x'')]]) = Inr [text] \<and>
     text = ''['' @ nat_digits 1 @ ''] (f, page '' @ pv_str (\<lambda>x. []) (PInt 2) @ ''): x''"
proof -
  let ?d = "[(''filename'', PStr ''f''), (''page_number'', PInt 2), (''text'', PStr ''x'')]"
  let ?s = "\<lparr>ss_index = 1, ss_filename = PStr ''f'', ss_page = PInt 2, ss_score = dget ?d ''score'', ss_text = PStr ''x''\<rparr>"
  let ?fl = "\<lambda>x::pyfloat. []::string"
  have s: "mapR summarize_source (enumerate 1 [?d]) = Inr [?s]"
    by (simp add: summarize_source_def dkey_def preview_def SOURCE_PREVIEW_CHARS_def)
  obtain l where l: "mapR (context_line ?fl) (enumerate 1 [?d]) = Inr [l]" by (simp add: context_line_def dkey_def)
  have m: "build_messages ?fl [] [?d] ''q'' = Inr [(''system'', SYSTEM_PROMPT), (''user'', ''Sources:'' @ nl @ l @ nl @ nl @ ''Question: '' @ ''q'')]"
    using l by (simp add: build_messages_def build_context_block_def)
  show ?thesis using citations_match(3)[OF s l m, of 0] l by (simp add: pv_str_def)
qed

end
