(* ===== verification/Json_Load.thy ===== *)
theory Json_Load
  imports Json Vector_Store
begin

text \<open>
  \<open>json.loads\<close>: the scanner of the standard library on texts of the model, and the round trip with \<open>json.dumps\<close>. How a float is
  read, and how deep values may be nested before the interpreter raises, are arguments. An escape of a code point above
  255 is refused, as such characters are not in the strings of the model.
\<close>

section \<open>Scanning\<close>

datatype 'a scan = Got 'a string | Bad | Raised exn

fun thenS :: "'a scan \<Rightarrow> ('a \<Rightarrow> string \<Rightarrow> 'b scan) \<Rightarrow> 'b scan" where
  "thenS (Got x r) f = f x r"
| "thenS Bad f = Bad"
| "thenS (Raised e) f = Raised e"

definition json_ws :: "string \<Rightarrow> string" where
  "json_ws s = dropWhile (\<lambda>c. c \<in> {CHR '' '', CHR 0x09, CHR 0x0A, CHR 0x0D}) s"

definition hex_value :: "char \<Rightarrow> nat option" where
  "hex_value c = (let n = code c in if 48 \<le> n \<and> n \<le> 57 then Some (n - 48) else if 97 \<le> n \<and> n \<le> 102 then Some (n - 87)
     else if 65 \<le> n \<and> n \<le> 70 then Some (n - 55) else None)"

definition hex4 :: "string \<Rightarrow> nat option" where
  "hex4 s = (if length s < 4 then None else
     (case (hex_value (s ! 0), hex_value (s ! 1), hex_value (s ! 2), hex_value (s ! 3)) of
        (Some a, Some b, Some c, Some d) \<Rightarrow> Some (((a * 16 + b) * 16 + c) * 16 + d) | _ \<Rightarrow> None))"

definition simple_escape :: "char \<Rightarrow> char option" where
  "simple_escape c = (if c = CHR 0x22 \<or> c = CHR 0x5C \<or> c = CHR ''/'' then Some c
     else if c = CHR ''b'' then Some (CHR 0x08) else if c = CHR ''f'' then Some (CHR 0x0C)
     else if c = CHR ''n'' then Some (CHR 0x0A) else if c = CHR ''r'' then Some (CHR 0x0D)
     else if c = CHR ''t'' then Some (CHR 0x09) else None)"

text \<open>Behind the opening quote. Control characters are refused.\<close>

function scan_string :: "string \<Rightarrow> string scan" where
  "scan_string [] = Bad"
| "scan_string (c # s) =
     (if c = CHR 0x22 then Got [] s
      else if c = CHR 0x5C then (case s of [] \<Rightarrow> Bad
        | e # t \<Rightarrow>
            if e = CHR ''u'' then (case hex4 t of
                Some k \<Rightarrow> if k < 256 then thenS (scan_string (drop 4 t)) (\<lambda>x r. Got (char_of k # x) r) else Bad
              | None \<Rightarrow> Bad)
            else (case simple_escape e of
                Some x \<Rightarrow> thenS (scan_string t) (\<lambda>xs r. Got (x # xs) r) | None \<Rightarrow> Bad))
      else if code c < 32 then Bad
      else thenS (scan_string s) (\<lambda>x r. Got (c # x) r))"
  by pat_completeness auto
termination by (relation "measure length") auto

text \<open>A number: sign, digits without a superfluous zero, and for a float a fraction or an exponent.\<close>

definition scan_frac :: "string \<Rightarrow> string \<times> string" where
  "scan_frac s = (case s of c # d # r \<Rightarrow>
       if c = CHR ''.'' \<and> is_ascii_digit d then (c # takeWhile is_ascii_digit (d # r), dropWhile is_ascii_digit (d # r)) else ([], s)
     | _ \<Rightarrow> ([], s))"

definition scan_exp :: "string \<Rightarrow> string \<times> string" where
  "scan_exp s = (case s of [] \<Rightarrow> ([], s)
     | c # t \<Rightarrow> if c \<noteq> CHR ''e'' \<and> c \<noteq> CHR ''E'' then ([], s)
         else (let sign = (case t of x # _ \<Rightarrow> if x = CHR ''+'' \<or> x = CHR ''-'' then [x] else [] | [] \<Rightarrow> []);
                   r = drop (length sign) t; ds = takeWhile is_ascii_digit r in
               if ds = [] then ([], s) else (c # sign @ ds, dropWhile is_ascii_digit r)))"

definition int_part :: "string \<Rightarrow> string" where
  "int_part s = (case s of [] \<Rightarrow> [] | c # _ \<Rightarrow> if c = CHR ''0'' then [c] else takeWhile is_ascii_digit s)"

definition scan_number :: "(string \<Rightarrow> pyfloat) \<Rightarrow> string \<Rightarrow> pyval scan" where
  "scan_number fp s = (let neg = starts_with s ''-''; t = (if neg then tl s else s); ds = int_part t; r = drop (length ds) t in
     if ds = [] then Bad
     else case scan_frac r of (fr, r1) \<Rightarrow> case scan_exp r1 of (ex, r2) \<Rightarrow>
       if fr = [] \<and> ex = [] then
         (if length ds > 4300 then Raised ValueError
          else Got (PInt (if neg then - int (digits_val ds) else int (digits_val ds))) r)
       else Got (PFloat (fp ((if neg then ''-'' else []) @ ds @ fr @ ex))) r2)"

text \<open>Values, the items of an array and the members of an object. The fuel bounds the number of calls; the length of the text
  is always enough.\<close>

fun scan_value :: "(string \<Rightarrow> pyfloat) \<Rightarrow> nat \<Rightarrow> nat \<Rightarrow> string \<Rightarrow> pyval scan"
  and scan_items :: "(string \<Rightarrow> pyfloat) \<Rightarrow> nat \<Rightarrow> nat \<Rightarrow> string \<Rightarrow> pyval list scan"
  and scan_members :: "(string \<Rightarrow> pyfloat) \<Rightarrow> nat \<Rightarrow> nat \<Rightarrow> string \<Rightarrow> dict \<Rightarrow> dict scan" where
  "scan_value fp depth 0 s = Bad"
| "scan_value fp depth (Suc n) s = (case s of [] \<Rightarrow> Bad
     | c # r \<Rightarrow>
         if c = CHR 0x22 then thenS (scan_string r) (\<lambda>x r. Got (PStr x) r)
         else if c = CHR ''['' then
           (case depth of 0 \<Rightarrow> Raised RecursionError
            | Suc d \<Rightarrow> if starts_with (json_ws r) '']'' then Got (PList []) (tl (json_ws r))
                else thenS (scan_items fp d n (json_ws r)) (\<lambda>xs r. Got (PList xs) r))
         else if c = CHR ''{'' then
           (case depth of 0 \<Rightarrow> Raised RecursionError
            | Suc d \<Rightarrow> if starts_with (json_ws r) ''}'' then Got (PDict []) (tl (json_ws r))
                else thenS (scan_members fp d n (json_ws r) []) (\<lambda>xs r. Got (PDict xs) r))
         else if starts_with s ''null'' then Got PNone (drop 4 s)
         else if starts_with s ''true'' then Got (PBool True) (drop 4 s)
         else if starts_with s ''false'' then Got (PBool False) (drop 5 s)
         else if starts_with s ''NaN'' then Got (PFloat NaN) (drop 3 s)
         else if starts_with s ''Infinity'' then Got (PFloat PosInf) (drop 8 s)
         else if starts_with s ''-Infinity'' then Got (PFloat NegInf) (drop 9 s)
         else scan_number fp s)"
| "scan_items fp depth 0 s = Bad"
| "scan_items fp depth (Suc n) s = thenS (scan_value fp depth n s) (\<lambda>v r. case json_ws r of
       [] \<Rightarrow> Bad
     | c # t \<Rightarrow> if c = CHR '']'' then Got [v] t
         else if c = CHR '','' then thenS (scan_items fp depth n (json_ws t)) (\<lambda>vs r. Got (v # vs) r)
         else Bad)"
| "scan_members fp depth 0 s d = Bad"
| "scan_members fp depth (Suc n) s d = (case s of [] \<Rightarrow> Bad
     | q # s1 \<Rightarrow> if q \<noteq> CHR 0x22 then Bad
         else thenS (scan_string s1) (\<lambda>k r. case json_ws r of [] \<Rightarrow> Bad
           | c # t \<Rightarrow> if c \<noteq> CHR '':'' then Bad
               else thenS (scan_value fp depth n (json_ws t)) (\<lambda>v r. case json_ws r of [] \<Rightarrow> Bad
                 | c # t \<Rightarrow> if c = CHR ''}'' then Got (dset k v d) t
                     else if c = CHR '','' then scan_members fp depth n (json_ws t) (dset k v d)
                     else Bad)))"

definition json_loads :: "(string \<Rightarrow> pyfloat) \<Rightarrow> nat \<Rightarrow> string \<Rightarrow> json_result" where
  "json_loads fp depth s = (case scan_value fp depth (Suc (length s)) (json_ws s) of
       Got v r \<Rightarrow> if json_ws r = [] then JValue v else JDecodeError
     | Bad \<Rightarrow> JDecodeError
     | Raised e \<Rightarrow> JRaises e)"

section \<open>Digits\<close>

lemma nat_digits_ascii: "list_all is_ascii_digit (nat_digits n)"
  using nat_digits_chars[of _ n] by (fastforce simp: list_all_iff is_ascii_digit_def Let_def)

lemma digits_val_append: "is_ascii_digit c \<Longrightarrow> digits_val (s @ [c]) = 10 * digits_val s + (code c - 48)"
  by (simp add: digits_val_def)

lemma digits_val_nat: "digits_val (nat_digits n) = n"
proof (induction n rule: nat_digits.induct)
  case (1 n)
  have d: "is_ascii_digit (digit_char (n mod 10))" "code (digit_char (n mod 10)) = 48 + n mod 10"
    by (simp_all add: digit_char_code is_ascii_digit_def)
  show ?case
  proof (cases "n < 10")
    case True
    then show ?thesis using d by (simp add: nat_digits.simps[of n] digits_val_def)
  next
    case False
    then have "digits_val (nat_digits n) = 10 * digits_val (nat_digits (n div 10)) + n mod 10"
      using d by (simp add: nat_digits.simps[of n] digits_val_append)
    then show ?thesis using 1 False by simp
  qed
qed

lemma hd_nat_digits: "hd (nat_digits n) = CHR ''0'' \<Longrightarrow> nat_digits n = [CHR ''0'']"
proof (induction n rule: nat_digits.induct)
  case (1 n)
  show ?case
  proof (cases "n < 10")
    case True
    then show ?thesis using "1.prems" by (simp add: nat_digits.simps[of n])
  next
    case False
    then have e: "nat_digits n = nat_digits (n div 10) @ [digit_char (n mod 10)]" by (simp add: nat_digits.simps[of n])
    then have "nat_digits (n div 10) = [CHR ''0'']" using 1 False by simp
    then have "digits_val (nat_digits (n div 10)) = 0" by (simp add: digits_val_def is_ascii_digit_def code_def)
    then show ?thesis using False by (simp add: digits_val_nat)
  qed
qed

section \<open>Reading what was written\<close>

text \<open>What may follow a value without being read as a part of it.\<close>

definition ends_number :: "string \<Rightarrow> bool" where
  "ends_number r = (case r of [] \<Rightarrow> True | c # _ \<Rightarrow> \<not> is_ascii_digit c \<and> c \<notin> {CHR ''.'', CHR ''e'', CHR ''E''})"

lemma takeWhile_digits:
  assumes "list_all is_ascii_digit ds" "ends_number r"
  shows "takeWhile is_ascii_digit (ds @ r) = ds" "dropWhile is_ascii_digit (ds @ r) = r"
proof -
  have "takeWhile is_ascii_digit r = []" "dropWhile is_ascii_digit r = r"
    using assms(2) by (cases r; simp add: ends_number_def)+
  then show "takeWhile is_ascii_digit (ds @ r) = ds" "dropWhile is_ascii_digit (ds @ r) = r"
    using assms(1) by (simp_all add: list_all_iff takeWhile_append2 dropWhile_append2)
qed

lemma scan_nothing: "ends_number r \<Longrightarrow> scan_frac r = ([], r) \<and> scan_exp r = ([], r)"
  by (auto simp: ends_number_def scan_frac_def scan_exp_def split: list.splits)

lemma int_part_digits: "ends_number r \<Longrightarrow> int_part (nat_digits n @ r) = nat_digits n"
proof -
  assume r: "ends_number r"
  obtain c t where c: "nat_digits n = c # t" by (cases "nat_digits n") auto
  then have z: "c = CHR ''0'' \<Longrightarrow> t = []" using hd_nat_digits[of n] by simp
  have "takeWhile is_ascii_digit (c # t @ r) = c # t" using takeWhile_digits(1)[OF nat_digits_ascii r, of n] c by simp
  then show ?thesis unfolding c int_part_def using z by auto
qed

lemma scan_digits:
  assumes "ends_number r" "length (nat_digits n) \<le> 4300"
  shows "scan_number fp (nat_digits n @ r) = Got (PInt (int n)) r"
    "scan_number fp (CHR ''-'' # nat_digits n @ r) = Got (PInt (- int n)) r"
proof -
  obtain c t where c: "nat_digits n = c # t" by (cases "nat_digits n") auto
  have "is_ascii_digit c" using nat_digits_ascii[of n] c by simp
  then have m: "\<not> starts_with (nat_digits n @ r) ''-''" by (auto simp: c starts_with_def is_ascii_digit_def code_def)
  have f: "scan_frac r = ([], r)" "scan_exp r = ([], r)" using scan_nothing[OF assms(1)] by auto
  show "scan_number fp (nat_digits n @ r) = Got (PInt (int n)) r"
    using assms f by (simp add: scan_number_def m int_part_digits digits_val_nat)
  show "scan_number fp (CHR ''-'' # nat_digits n @ r) = Got (PInt (- int n)) r"
    using assms f by (simp add: scan_number_def starts_with_def int_part_digits digits_val_nat)
qed

section \<open>Strings\<close>

lemma hex_value_digit: "k < 16 \<Longrightarrow> hex_value (char_of (nat (if int k < 10 then 48 + int k else 87 + int k))) = Some k"
  by (auto simp: hex_value_def code_def Let_def nat_add_distrib)

lemma hex4_digits: "n < 65536 \<Longrightarrow> hex4 (hex_digits 4 (int n) @ t) = Some n"
proof -
  assume n: "n < 65536"
  define h where "h k = char_of (nat (if int k < 10 then 48 + int k else 87 + int k))" for k :: nat
  have e: "hex_digits 4 (int n) = [h (n div 4096 mod 16), h (n div 256 mod 16), h (n div 16 mod 16), h (n mod 16)]"
  proof -
    have "hex_digits (Suc k) (int m) = hex_digits k (int (m div 16)) @ [h (m mod 16)]" for k m
      by (simp add: h_def zmod_int zdiv_int)
    then have "hex_digits (Suc (Suc (Suc (Suc 0)))) (int n) =
        [h (n div 16 div 16 div 16 mod 16), h (n div 16 div 16 mod 16), h (n div 16 mod 16), h (n mod 16)]" by simp
    moreover have "n div 16 div 16 = n div 256" "n div 256 div 16 = n div 4096" by (simp_all flip: div_mult2_eq)
    ultimately have "hex_digits (Suc (Suc (Suc (Suc 0)))) (int n) = [h (n div 4096 mod 16), h (n div 256 mod 16), h (n div 16 mod 16), h (n mod 16)]"
      by (simp only:)
    moreover have "(4 :: nat) = Suc (Suc (Suc (Suc 0)))" by simp
    ultimately show ?thesis by (simp only:)
  qed
  have v: "hex_value (h (k mod 16)) = Some (k mod 16)" for k unfolding h_def by (rule hex_value_digit) simp
  have "n div 4096 < 16" using n by simp
  then have a: "n div 4096 mod 16 = n div 4096" by simp
  have d: "n div 256 div 16 = n div 4096" "n div 16 div 16 = n div 256" by (simp_all flip: div_mult2_eq)
  have w: "hex_value (h (n div 4096)) = Some (n div 4096)" using v[of "n div 4096"] unfolding a .
  have "((n div 4096 * 16 + n div 256 mod 16) * 16 + n div 16 mod 16) * 16 + n mod 16 = n"
    using div_mult_mod_eq[of "n div 256" 16] div_mult_mod_eq[of "n div 16" 16] div_mult_mod_eq[of n 16] unfolding d by (simp only:)
  then show ?thesis unfolding e hex4_def unfolding a by (simp add: v w)
qed

lemma code_injective: "code c = code d \<Longrightarrow> c = d"
  by (simp add: code_def)

lemma scan_json_char:
  "scan_string (json_char a c @ t) = thenS (scan_string t) (\<lambda>x r. Got (c # x) r)"
proof -
  have n: "code c < 256" by (simp add: code_def)
  show ?thesis
  proof (cases "code c = 34 \<or> code c = 92 \<or> code c = 10 \<or> code c = 13 \<or> code c = 9 \<or> code c = 12 \<or> code c = 8")
    case True
    then have "c \<in> {CHR 0x22, CHR 0x5C, CHR 0x0A, CHR 0x0D, CHR 0x09, CHR 0x0C, CHR 0x08}"
      using code_injective[of c "CHR 0x22"] code_injective[of c "CHR 0x5C"] code_injective[of c "CHR 0x0A"] code_injective[of c "CHR 0x0D"]
        code_injective[of c "CHR 0x09"] code_injective[of c "CHR 0x0C"] code_injective[of c "CHR 0x08"] by (auto simp: code_def)
    then show ?thesis by (auto simp: json_char_def code_def simple_escape_def)
  next
    case False
    then have q: "c \<noteq> CHR 0x22" "c \<noteq> CHR 0x5C" by (auto simp: code_def)
    show ?thesis
    proof (cases "code c < 32 \<or> (a \<and> code c > 126)")
      case True
      then have "json_char a c = json_unicode c" using False by (auto simp: json_char_def Let_def)
      then show ?thesis using hex4_digits[of "code c" t] n
        by (simp add: json_unicode_def drop_append) (simp add: code_def)
    next
      case plain: False
      then have "json_char a c = [c]" using False by (auto simp: json_char_def Let_def)
      then show ?thesis using plain q by simp
    qed
  qed
qed

lemma scan_written_string: "scan_string (concat (map (json_char a) s) @ CHR 0x22 # r) = Got s r"
  by (induction s) (simp_all add: scan_json_char)

section \<open>The round trip\<close>

text \<open>Values without floats, with integers short enough to be read again, and with distinct keys.\<close>

fun plain_json :: "pyval \<Rightarrow> bool" where
  "plain_json (PFloat f) = False"
| "plain_json (PInt i) = (length (nat_digits (nat \<bar>i\<bar>)) \<le> 4300)"
| "plain_json (PList xs) = list_all plain_json xs"
| "plain_json (PDict d) = (distinct (map fst d) \<and> list_all (\<lambda>p. plain_json (snd p)) d)"
| "plain_json _ = True"

fun json_nesting :: "pyval \<Rightarrow> nat" where
  "json_nesting (PList xs) = Suc (fold max (map json_nesting xs) 0)"
| "json_nesting (PDict d) = Suc (fold max (map (\<lambda>p. json_nesting (snd p)) d) 0)"
| "json_nesting _ = 0"

lemma fold_max_le: "fold max xs (m :: nat) \<le> n \<longleftrightarrow> m \<le> n \<and> (\<forall>x \<in> set xs. x \<le> n)"
  by (induction xs arbitrary: m) auto

lemma starts_with_Cons: "starts_with (c # s) [d] \<longleftrightarrow> c = d"
  by (simp add: starts_with_def)

text \<open>The first character of a written value.\<close>

lemma json_dumps_start:
  assumes "plain_json v"
  obtains c t where "json_dumps a fl v = c # t" "c \<notin> {CHR '' '', CHR 0x09, CHR 0x0A, CHR 0x0D, CHR '']'', CHR ''}'', CHR '','', CHR '':''}"
proof -
  have "\<exists>c t. json_dumps a fl v = c # t \<and> c \<notin> {CHR '' '', CHR 0x09, CHR 0x0A, CHR 0x0D, CHR '']'', CHR ''}'', CHR '','', CHR '':''}"
  proof (cases v)
    case (PInt i)
    obtain c t where c: "nat_digits (nat \<bar>i\<bar>) = c # t" by (cases "nat_digits (nat \<bar>i\<bar>)") auto
    then have "is_ascii_digit c" using nat_digits_ascii[of "nat \<bar>i\<bar>"] by simp
    then show ?thesis using c PInt by (cases "i < 0") (auto simp: int_digits_def is_ascii_digit_def code_def)
  qed (use assms in \<open>auto simp: json_string_def\<close>)
  then show ?thesis using that by blast
qed

lemma json_ws_value:
  assumes "plain_json v"
  shows "json_ws (json_dumps a fl v @ r) = json_dumps a fl v @ r"
  by (rule json_dumps_start[OF assms, of a fl]) (simp add: json_ws_def)

lemma scan_value_int:
  assumes "ends_number r" "length (nat_digits (nat \<bar>i\<bar>)) \<le> 4300"
  shows "scan_value fp d (Suc n) (int_digits i @ r) = Got (PInt i) r"
proof -
  obtain c t where c: "nat_digits (nat \<bar>i\<bar>) = c # t" by (cases "nat_digits (nat \<bar>i\<bar>)") auto
  then have dig: "is_ascii_digit c" using nat_digits_ascii[of "nat \<bar>i\<bar>"] by simp
  then have ne: "c \<notin> {CHR 0x22, CHR ''['', CHR ''{'', CHR ''n'', CHR ''t'', CHR ''f'', CHR ''N'', CHR ''I'', CHR ''-''}"
    by (auto simp: is_ascii_digit_def code_def)
  show ?thesis
  proof (cases "i < 0")
    case True
    then have e: "int_digits i = CHR ''-'' # nat_digits (nat \<bar>i\<bar>)" by (simp add: int_digits_def)
    have "scan_number fp (int_digits i @ r) = Got (PInt i) r"
      using scan_digits(2)[OF assms, of fp] True by (simp add: e)
    then show ?thesis using ne by (simp add: e c starts_with_def)
  next
    case False
    then have e: "int_digits i = nat_digits (nat \<bar>i\<bar>)" by (simp add: int_digits_def)
    have "scan_number fp (int_digits i @ r) = Got (PInt i) r"
      using scan_digits(1)[OF assms, of fp] False by (simp add: e)
    then show ?thesis using ne by (simp add: e c starts_with_def)
  qed
qed

lemma json_ws_char: "c \<notin> {CHR '' '', CHR 0x09, CHR 0x0A, CHR 0x0D} \<Longrightarrow> json_ws (c # s) = c # s"
  by (simp add: json_ws_def)

lemma ends_number_char: "ends_number (CHR '','' # s)" "ends_number (CHR '']'' # s)" "ends_number (CHR ''}'' # s)" "ends_number []"
  by (simp_all add: ends_number_def is_ascii_digit_def code_def)

text \<open>What is to be shown of a value.\<close>

definition reads_back :: "(string \<Rightarrow> pyfloat) \<Rightarrow> bool \<Rightarrow> (pyfloat \<Rightarrow> string) \<Rightarrow> pyval \<Rightarrow> bool" where
  "reads_back fp a fl v = (\<forall>d n r. json_nesting v \<le> d \<longrightarrow> length (json_dumps a fl v) < n \<longrightarrow> ends_number r \<longrightarrow>
     scan_value fp d n (json_dumps a fl v @ r) = Got v r)"

lemma reads_backD: "reads_back fp a fl v \<Longrightarrow> json_nesting v \<le> d \<Longrightarrow> length (json_dumps a fl v) < n \<Longrightarrow> ends_number r \<Longrightarrow>
    scan_value fp d n (json_dumps a fl v @ r) = Got v r"
  by (simp add: reads_back_def)

lemma scan_written_items:
  assumes "\<forall>v \<in> set vs. reads_back fp a fl v \<and> plain_json v \<and> json_nesting v \<le> d" "vs \<noteq> []"
    and "Suc (length (join_comma (map (json_dumps a fl) vs))) < n"
  shows "scan_items fp d n (join_comma (map (json_dumps a fl) vs) @ CHR '']'' # r) = Got vs r"
  using assms
proof (induction vs arbitrary: n)
  case (Cons v vs)
  then obtain m where n: "n = Suc m" by (cases n) auto
  show ?case
  proof (cases vs)
    case Nil
    then have "scan_value fp d m (json_dumps a fl v @ CHR '']'' # r) = Got v (CHR '']'' # r)"
      using Cons.prems n by (intro reads_backD ends_number_char) (auto simp: join_comma_def)
    then show ?thesis using Nil by (simp add: n join_comma_def json_ws_char)
  next
    case (Cons w ws)
    let ?rest = "join_comma (map (json_dumps a fl) vs)"
    have j: "join_comma (map (json_dumps a fl) (v # vs)) = json_dumps a fl v @ CHR '','' # CHR '' '' # ?rest"
      by (simp add: join_comma_def Cons)
    have v: "scan_value fp d m (json_dumps a fl v @ CHR '','' # CHR '' '' # ?rest @ CHR '']'' # r) =
        Got v (CHR '','' # CHR '' '' # ?rest @ CHR '']'' # r)"
      using Cons.prems n j by (intro reads_backD ends_number_char) auto
    have w: "json_ws (CHR '' '' # ?rest @ CHR '']'' # r) = ?rest @ CHR '']'' # r"
    proof -
      have "json_ws (json_dumps a fl w @ x) = json_dumps a fl w @ x" for x
        using Cons.prems(1) Cons by (intro json_ws_value) auto
      then have "json_ws (?rest @ CHR '']'' # r) = ?rest @ CHR '']'' # r"
        by (cases ws) (simp_all add: join_comma_def Cons)
      then show ?thesis by (simp add: json_ws_def)
    qed
    have "scan_items fp d m (?rest @ CHR '']'' # r) = Got vs r"
      using Cons.prems n j Cons by (intro Cons.IH) auto
    then show ?thesis unfolding n j scan_items.simps append_assoc append_Cons v by (simp add: w json_ws_char)
  qed
qed simp

lemma scan_written_members:
  assumes "\<forall>p \<in> set ps. reads_back fp a fl (snd p) \<and> plain_json (snd p) \<and> json_nesting (snd p) \<le> d" "ps \<noteq> []"
    and "distinct (map fst (acc @ ps))"
    and "Suc (length (join_comma (map (\<lambda>(k, v). json_string a k @ '': '' @ json_dumps a fl v) ps))) < n"
  shows "scan_members fp d n (join_comma (map (\<lambda>(k, v). json_string a k @ '': '' @ json_dumps a fl v) ps) @ CHR ''}'' # r) acc =
    Got (acc @ ps) r"
  using assms
proof (induction ps arbitrary: n acc)
  case (Cons p ps)
  obtain m where n: "n = Suc m" using Cons.prems(4) by (cases n) auto
  obtain k v where p: "p = (k, v)" by (cases p)
  let ?f = "\<lambda>(k, v). json_string a k @ '': '' @ json_dumps a fl v"
  have fresh: "dset k v acc = acc @ [(k, v)]" unfolding dset_def by (rule update_fresh) (use Cons.prems(3) p in auto)
  have str: "scan_string (concat (map (json_char a) k) @ CHR 0x22 # x) = Got k x" for x by (rule scan_written_string)
  have ws: "json_ws (CHR '' '' # json_dumps a fl v @ x) = json_dumps a fl v @ x" for x
    using json_ws_value[of v a fl x] Cons.prems(1) p by (simp add: json_ws_def)
  have key: "json_string a k @ '': '' @ json_dumps a fl v = CHR 0x22 # concat (map (json_char a) k) @ CHR 0x22 # CHR '':'' # CHR '' '' # json_dumps a fl v"
    by (simp add: json_string_def)
  have rb: "reads_back fp a fl v" "json_nesting v \<le> d" using Cons.prems(1) p by auto
  show ?case
  proof (cases ps)
    case Nil
    have "scan_value fp d m (json_dumps a fl v @ CHR ''}'' # r) = Got v (CHR ''}'' # r)"
      using Cons.prems(4) n p Nil by (intro reads_backD[OF rb] ends_number_char) (simp add: join_comma_def)
    then show ?thesis using Nil by (simp add: n p join_comma_def json_string_def str ws json_ws_char fresh)
  next
    case (Cons q qs)
    define R where "R = join_comma (map ?f ps)"
    have j: "join_comma (map ?f (p # ps)) = CHR 0x22 # concat (map (json_char a) k) @ CHR 0x22 # CHR '':'' # CHR '' '' # json_dumps a fl v @ CHR '','' # CHR '' '' # R"
      using key by (simp add: join_comma_def Cons p R_def)
    have v: "scan_value fp d m (json_dumps a fl v @ CHR '','' # CHR '' '' # R @ CHR ''}'' # r) =
        Got v (CHR '','' # CHR '' '' # R @ CHR ''}'' # r)"
      using Cons.prems(4) n j by (intro reads_backD[OF rb] ends_number_char) simp
    have w: "json_ws (CHR '' '' # R @ CHR ''}'' # r) = R @ CHR ''}'' # r"
      by (cases q; cases qs) (simp_all add: json_ws_def Cons join_comma_def json_string_def R_def)
    have "scan_members fp d m (R @ CHR ''}'' # r) (acc @ [(k, v)]) = Got ((acc @ [(k, v)]) @ ps) r"
      unfolding R_def using Cons.prems n j Cons p by (intro Cons.IH) (auto simp: R_def)
    then show ?thesis unfolding n unfolding j unfolding scan_members.simps append_assoc append_Cons list.case
      by (simp add: str json_ws_char ws v w fresh p)
  qed
qed simp

lemma json_reads_back: "plain_json v \<Longrightarrow> reads_back fp a fl v"
proof (induction v)
  case (PInt i)
  show ?case unfolding reads_back_def
  proof (intro allI impI)
    fix d n :: nat and r assume "length (json_dumps a fl (PInt i)) < n" "ends_number r"
    then show "scan_value fp d n (json_dumps a fl (PInt i) @ r) = Got (PInt i) r"
      using PInt scan_value_int[of r i fp d] by (cases n) (simp_all del: scan_value.simps(2))
  qed
next
  case (PStr s)
  show ?case unfolding reads_back_def
  proof (intro allI impI)
    fix d n :: nat and r assume "length (json_dumps a fl (PStr s)) < n"
    then show "scan_value fp d n (json_dumps a fl (PStr s) @ r) = Got (PStr s) r"
      by (cases n) (simp_all add: json_string_def scan_written_string)
  qed
next
  case (PList vs)
  show ?case unfolding reads_back_def
  proof (intro allI impI)
    fix d n :: nat and r
    assume d: "json_nesting (PList vs) \<le> d" and n: "length (json_dumps a fl (PList vs)) < n" and r: "ends_number r"
    obtain d' m where dm: "d = Suc d'" "n = Suc m" using d n by (cases d; cases n) auto
    show "scan_value fp d n (json_dumps a fl (PList vs) @ r) = Got (PList vs) r"
    proof (cases vs)
      case Nil
      then show ?thesis using dm by (simp add: join_comma_def json_ws_char starts_with_Cons)
    next
      case (Cons w ws)
      let ?items = "join_comma (map (json_dumps a fl) vs)"
      have pj: "plain_json w" using PList.prems Cons by simp
      obtain c t where c: "json_dumps a fl w = c # t" "c \<noteq> CHR '']''" by (rule json_dumps_start[OF pj, of a fl]) auto
      have h: "\<exists>u. ?items @ x = c # u" for x using c by (cases ws) (simp_all add: join_comma_def Cons)
      have ws: "json_ws (?items @ CHR '']'' # r) = ?items @ CHR '']'' # r"
        using json_ws_value[OF pj, of a fl] by (cases ws) (simp_all add: join_comma_def Cons)
      have "scan_items fp d' m (?items @ CHR '']'' # r) = Got vs r"
        using PList d n dm Cons by (intro scan_written_items) (auto simp: list_all_iff fold_max_le)
      then show ?thesis using dm ws h[of "CHR '']'' # r"] c(2) by (auto simp: starts_with_Cons)
    qed
  qed
next
  case (PDict ps)
  show ?case unfolding reads_back_def
  proof (intro allI impI)
    fix d n :: nat and r
    assume d: "json_nesting (PDict ps) \<le> d" and n: "length (json_dumps a fl (PDict ps)) < n" and r: "ends_number r"
    obtain d' m where dm: "d = Suc d'" "n = Suc m" using d n by (cases d; cases n) auto
    show "scan_value fp d n (json_dumps a fl (PDict ps) @ r) = Got (PDict ps) r"
    proof (cases ps)
      case Nil
      then show ?thesis using dm by (simp add: join_comma_def json_ws_char starts_with_Cons)
    next
      case (Cons q qs)
      define R where "R = join_comma (map (\<lambda>(k, v). json_string a k @ '': '' @ json_dumps a fl v) ps)"
      have h: "\<exists>u. R @ x = CHR 0x22 # u" for x
        by (cases q; cases qs) (simp_all add: join_comma_def Cons json_string_def R_def)
      then obtain u where u: "R @ CHR ''}'' # r = CHR 0x22 # u" by blast
      have ws: "json_ws (R @ CHR ''}'' # r) = R @ CHR ''}'' # r" unfolding u by (simp add: json_ws_def)
      have ih: "\<forall>p \<in> set ps. reads_back fp a fl (snd p)"
        using PDict by (auto simp: list_all_iff)
      have "scan_members fp d' m (R @ CHR ''}'' # r) [] = Got ([] @ ps) r"
        unfolding R_def using PDict.prems ih d n dm Cons by (intro scan_written_members) (auto simp: list_all_iff fold_max_le)
      moreover have "json_dumps a fl (PDict ps) @ r = CHR ''{'' # R @ CHR ''}'' # r" by (simp add: R_def)
      moreover have "\<not> starts_with (R @ CHR ''}'' # r) ''}''" unfolding u by (simp add: starts_with_Cons)
      ultimately show ?thesis using ws by (simp add: dm del: json_dumps.simps)
    qed
  qed
next
  case PNone
  have "scan_value fp d (Suc n) (''null'' @ r) = Got PNone r" for d n r by (simp add: starts_with_def)
  then show ?case by (auto simp: reads_back_def gr0_conv_Suc dest!: less_imp_Suc_add simp del: scan_value.simps)
next
  case (PBool b)
  have "scan_value fp d (Suc n) (''true'' @ r) = Got (PBool True) r" "scan_value fp d (Suc n) (''false'' @ r) = Got (PBool False) r" for d n r
    by (simp_all add: starts_with_def)
  then show ?case by (auto simp: reads_back_def gr0_conv_Suc dest!: less_imp_Suc_add simp del: scan_value.simps)
next
  case (PFloat f)
  then show ?case by simp
qed

lemma json_roundtrip:
  assumes "plain_json v" "json_nesting v \<le> depth"
  shows "json_loads fp depth (json_dumps a fl v) = JValue v"
proof -
  have w: "json_ws (json_dumps a fl v) = json_dumps a fl v" using json_ws_value[OF assms(1), of a fl "[]"] by simp
  have "scan_value fp depth (Suc (length (json_dumps a fl v))) (json_dumps a fl v @ []) = Got v []"
    by (intro reads_backD json_reads_back assms ends_number_char) simp
  then have "scan_value fp depth (Suc (length (json_dumps a fl v))) (json_dumps a fl v) = Got v []" by (simp only: append_Nil2)
  then show ?thesis unfolding json_loads_def w by (simp only: scan.case) (simp add: json_ws_def)
qed

end
