(* ===== verification/Percent.thy ===== *)
theory Percent
  imports Url
begin

text \<open>
  Percent-encoding (\<open>urllib.parse.quote\<close> and \<open>unquote\<close>). Bytes are characters. Byte strings that are not the UTF-8 encoding of a
  text of the model (invalid ones, and code points above 255) are decoded by an argument.
\<close>

section \<open>UTF-8\<close>

type_synonym bytes = string

definition ascii :: "char \<Rightarrow> bool" where "ascii c = (code c < 128)"

definition utf8_char :: "char \<Rightarrow> bytes" where
  "utf8_char c = (if ascii c then [c] else [char_of (192 + code c div 64), char_of (128 + code c mod 64)])"

definition utf8 :: "string \<Rightarrow> bytes" where
  "utf8 s = concat (map utf8_char s)"

fun utf8_text :: "bytes \<Rightarrow> string option" where
  "utf8_text [] = Some []"
| "utf8_text (b # bs) =
     (if ascii b then map_option (Cons b) (utf8_text bs)
      else (case bs of [] \<Rightarrow> None
        | d # t \<Rightarrow> if code b \<in> {194, 195} \<and> 128 \<le> code d \<and> code d < 192
            then map_option (Cons (char_of ((code b - 192) * 64 + (code d - 128)))) (utf8_text t) else None))"

definition decode_utf8 :: "(bytes \<Rightarrow> string) \<Rightarrow> bytes \<Rightarrow> string" where
  "decode_utf8 other bs = (case utf8_text bs of Some t \<Rightarrow> t | None \<Rightarrow> other bs)"

section \<open>Quoting\<close>

definition always_safe :: "char \<Rightarrow> bool" where
  "always_safe c = (is_ascii_letter c \<or> is_ascii_digit c \<or> c \<in> {CHR ''_'', CHR ''.'', CHR ''-'', CHR ''~''})"

definition upper_hex :: "nat \<Rightarrow> char" where
  "upper_hex k = (if k < 10 then char_of (48 + k) else char_of (55 + k))"

definition quote_byte :: "string \<Rightarrow> char \<Rightarrow> string" where
  "quote_byte safe b = (if always_safe b \<or> b \<in> set safe then [b]
     else [CHR ''%'', upper_hex (code b div 16), upper_hex (code b mod 16)])"

text \<open>\<open>quote(s, safe)\<close> for a safe string of ASCII characters.\<close>

definition quote :: "string \<Rightarrow> string \<Rightarrow> string" where
  "quote safe s = concat (map (quote_byte safe) (utf8 s))"

definition hex_digit :: "char \<Rightarrow> nat option" where
  "hex_digit c = (let n = code c in if 48 \<le> n \<and> n \<le> 57 then Some (n - 48) else if 97 \<le> n \<and> n \<le> 102 then Some (n - 87)
     else if 65 \<le> n \<and> n \<le> 70 then Some (n - 55) else None)"

text \<open>A percent sign without two hexadecimal digits stays.\<close>

fun unquote_bytes :: "string \<Rightarrow> bytes" where
  "unquote_bytes [] = []"
| "unquote_bytes (c # s) = (case s of
       a # b # t \<Rightarrow> if c = CHR ''%'' then (case (hex_digit a, hex_digit b) of
             (Some x, Some y) \<Rightarrow> char_of (x * 16 + y) # unquote_bytes t | _ \<Rightarrow> c # unquote_bytes s)
           else c # unquote_bytes s
     | _ \<Rightarrow> c # unquote_bytes s)"

text \<open>Each maximal run of ASCII characters is unquoted and decoded.\<close>

function unquote_runs :: "(bytes \<Rightarrow> string) \<Rightarrow> string \<Rightarrow> string" where
  "unquote_runs other [] = []"
| "unquote_runs other (c # s) =
     (if ascii c then decode_utf8 other (unquote_bytes (takeWhile ascii (c # s))) @ unquote_runs other (dropWhile ascii (c # s))
      else c # unquote_runs other s)"
  by pat_completeness auto
termination by (relation "measure (\<lambda>(other, s). length s)") (auto simp: less_Suc_eq_le length_dropWhile_le)

definition unquote :: "(bytes \<Rightarrow> string) \<Rightarrow> string \<Rightarrow> string" where
  "unquote other s = (if CHR ''%'' \<notin> set s then s else unquote_runs other s)"

section \<open>Round trips\<close>

lemma code_less: "code c < 256"
  by (simp add: code_def)

lemma char_of_code [simp]: "char_of (code c) = c"
  by (simp add: code_def)

lemma code_char_of: "n < 256 \<Longrightarrow> code (char_of n) = n"
  by (simp add: code_def)

lemma utf8_text_append: "utf8_text (utf8_char c @ bs) = map_option (Cons c) (utf8_text bs)"
proof (cases "ascii c")
  case False
  define q m where "q = code c div 64" and "m = code c mod 64"
  have "2 \<le> q" using div_le_mono[of 128 "code c" 64] False by (simp add: ascii_def q_def)
  moreover have "q < 4" using less_mult_imp_div_less[of "code c" 4 64] code_less[of c] by (simp add: q_def)
  ultimately have q: "q = 2 \<or> q = 3" by linarith
  have m: "m < 64" by (simp add: m_def)
  have c: "q * 64 + m = code c" by (simp add: q_def m_def)
  have codes: "code (char_of (192 + q)) = 192 + q" "code (char_of (128 + m)) = 128 + m" using q m by (auto simp: code_char_of)
  have "utf8_text (char_of (192 + q) # char_of (128 + m) # bs) = map_option (Cons (char_of (q * 64 + m))) (utf8_text bs)"
    using q m by (auto simp: ascii_def codes)
  then show ?thesis using False by (simp add: utf8_char_def c flip: q_def m_def)
qed (simp add: utf8_char_def)

lemma utf8_text_utf8: "utf8_text (utf8 s) = Some s"
  by (induction s) (simp_all add: utf8_def utf8_text_append)

lemma utf8_length: "length (utf8 s) = utf8_len s"
  by (induction s) (simp_all add: utf8_def utf8_len_def utf8_char_def ascii_def)

lemma hex_upper: "k < 16 \<Longrightarrow> hex_digit (upper_hex k) = Some k"
  by (auto simp: hex_digit_def upper_hex_def code_char_of Let_def)

lemma nibbles: "code b div 16 < 16" "code b mod 16 < 16"
  using code_less[of b] by simp_all

lemma upper_hex_safe: "k < 16 \<Longrightarrow> always_safe (upper_hex k)"
  by (auto simp: always_safe_def upper_hex_def is_ascii_letter_def is_ascii_digit_def code_char_of Let_def)

lemma always_safe_ascii: "always_safe c \<Longrightarrow> ascii c"
  by (auto simp: always_safe_def ascii_def is_ascii_letter_def is_ascii_digit_def code_def Let_def)

text \<open>What a quoted text consists of.\<close>

lemma quote_byte_chars: "c \<in> set (quote_byte safe b) \<Longrightarrow> always_safe c \<or> c \<in> set safe \<or> c = CHR ''%''"
  using upper_hex_safe[OF nibbles(1), of b] upper_hex_safe[OF nibbles(2), of b] by (auto simp: quote_byte_def split: if_splits)

lemma quote_chars: "c \<in> set (quote safe s) \<Longrightarrow> always_safe c \<or> c \<in> set safe \<or> c = CHR ''%''"
  using quote_byte_chars by (fastforce simp: quote_def)

lemma quote_ascii: "list_all ascii safe \<Longrightarrow> list_all ascii (quote safe s)"
  using quote_chars[of _ safe s] always_safe_ascii by (fastforce simp: list_all_iff ascii_def code_def)

lemma unquote_quote_byte:
  assumes "CHR ''%'' \<notin> set safe"
  shows "unquote_bytes (quote_byte safe b @ s) = b # unquote_bytes s"
proof (cases "always_safe b \<or> b \<in> set safe")
  case True
  then have "b \<noteq> CHR ''%''" using assms
    by (auto simp: always_safe_def is_ascii_letter_def is_ascii_digit_def code_def)
  then show ?thesis using True by (auto simp: quote_byte_def split: list.split)
next
  case False
  have "hex_digit (upper_hex (code b div 16)) = Some (code b div 16)" "hex_digit (upper_hex (code b mod 16)) = Some (code b mod 16)"
    by (rule hex_upper, rule nibbles)+
  then show ?thesis using False by (simp add: quote_byte_def)
qed

lemma unquote_bytes_quote: "CHR ''%'' \<notin> set safe \<Longrightarrow> unquote_bytes (concat (map (quote_byte safe) bs)) = bs"
  by (induction bs) (simp_all add: unquote_quote_byte)

lemma quote_unreserved: "CHR ''%'' \<notin> set safe \<Longrightarrow> CHR ''%'' \<notin> set (concat (map (quote_byte safe) bs)) \<Longrightarrow> concat (map (quote_byte safe) bs) = bs"
  by (induction bs) (auto simp: quote_byte_def split: if_splits)

lemma unquote_quote:
  assumes "list_all ascii safe" "CHR ''%'' \<notin> set safe"
  shows "unquote other (quote safe s) = s"
proof (cases "CHR ''%'' \<in> set (quote safe s)")
  case False
  let ?q = "quote safe s"
  have q: "?q = utf8 s" using quote_unreserved[OF assms(2)] False by (simp add: quote_def)
  have "list_all ascii (utf8 s)" using quote_ascii[OF assms(1), of s] q by simp
  moreover have "utf8_text bs = Some bs" if "list_all ascii bs" for bs using that by (induction bs) auto
  ultimately have "utf8_text (utf8 s) = Some (utf8 s)" by blast
  then show ?thesis using False q by (simp add: unquote_def utf8_text_utf8)
next
  case True
  have a: "takeWhile ascii (quote safe s) = quote safe s" "dropWhile ascii (quote safe s) = []"
    using quote_ascii[OF assms(1), of s] by (simp_all add: list_all_iff)
  obtain c t where q: "quote safe s = c # t" using True by (cases "quote safe s") auto
  have c: "ascii c" using quote_ascii[OF assms(1), of s] q by simp
  have "unquote_runs other (quote safe s) = decode_utf8 other (unquote_bytes (quote safe s))"
    by (simp only: q unquote_runs.simps c if_True a[unfolded q] append_Nil2)
  then show ?thesis using True unquote_bytes_quote[OF assms(2)]
    by (simp add: unquote_def quote_def decode_utf8_def utf8_text_utf8)
qed

end
