(* ===== verification/Artifacts.thy ===== *)
theory Artifacts
  imports Percent Json_Load State_Res "HOL-Library.Sublist"
begin

text \<open>
  The store of the JSON artifacts that ingestion activities hand to each other (\<open>services/ingestion/artifacts.py\<close>): keys, bounded
  writing and reading, the local and the S3 backend. Files are compressed texts on a POSIX file system; its paths are lists of
  components. The S3 client is a record of functions on a state of its own, and resolving of paths, the sizes of compressed texts
  and the operating system's failures are arguments.
\<close>

section \<open>Keys and references\<close>

type_synonym path = "string list"
type_synonym identity = "(string \<times> string) list"

definition ARTIFACT_STAGES :: "string list" where "ARTIFACT_STAGES = [''pages'', ''chunks'']"

definition part_ok :: "string option \<Rightarrow> bool" where
  "part_ok p = (case p of None \<Rightarrow> False
     | Some v \<Rightarrow> v \<noteq> [] \<and> CHR ''/'' \<notin> set v \<and> CHR 0x5C \<notin> set v \<and> v \<noteq> ''.'' \<and> v \<noteq> ''..'')"

definition artifact_path :: "string \<Rightarrow> string \<Rightarrow> string \<Rightarrow> string \<Rightarrow> path" where
  "artifact_path tenant document version stage =
     [''tenants'', tenant, ''documents'', document, ''versions'', version, ''artifacts'', stage @ ''.json.gz'']"

definition artifact_key :: "identity \<Rightarrow> string \<Rightarrow> string res" where
  "artifact_key identity stage =
     (if stage \<notin> set ARTIFACT_STAGES then Inl ValueError
      else (case (map_of identity ''tenant_id'', map_of identity ''document_id'', map_of identity ''version_id'') of
          (Some t, Some d, Some v) \<Rightarrow>
            if part_ok (Some t) \<and> part_ok (Some d) \<and> part_ok (Some v)
            then Inr (join_with ''/'' (artifact_path t d v stage)) else Inl ValueError
        | _ \<Rightarrow> Inl ValueError))"

section \<open>The store and its world\<close>

datatype file_content = Gzip string | Broken

record artifact_store =
  as_backend :: string
  as_bucket :: string
  as_region :: string
  as_dir :: path
  as_max :: int

definition new_artifact_store :: "string \<Rightarrow> string \<Rightarrow> string \<Rightarrow> path \<Rightarrow> int \<Rightarrow> artifact_store res" where
  "new_artifact_store backend bucket region dir max_bytes =
     (if backend \<notin> {''local'', ''s3''} \<or> (backend = ''s3'' \<and> bucket = []) then Inl ValueError
      else Inr \<lparr>as_backend = backend, as_bucket = bucket, as_region = region, as_dir = dir, as_max = max_bytes\<rparr>)"

text \<open>The client of the object store. The length is the one \<open>head_object\<close> reports, 0 when it reports none.\<close>

record 's s3_lib =
  s3_upload :: "string \<Rightarrow> string \<Rightarrow> file_content \<Rightarrow> ('s, unit) st"
  s3_head :: "string \<Rightarrow> string \<Rightarrow> ('s, int) st"
  s3_download :: "string \<Rightarrow> string \<Rightarrow> ('s, file_content) st"
  s3_delete :: "string \<Rightarrow> string \<Rightarrow> ('s, unit) st"

datatype os_step = MakeDirs | MakeTemp | WriteTemp | StatTemp | ReplaceTarget | RemoveTemp | StatSource | OpenSource | UnlinkTarget

record 's art_env =
  e_fault :: "os_step \<Rightarrow> exn option"
  e_resolve :: "path \<Rightarrow> path"
  e_temp :: path
  e_size :: "file_content \<Rightarrow> int"
  e_cut :: "string \<Rightarrow> string list"
  e_repr :: "pyfloat \<Rightarrow> string"
  e_float :: "string \<Rightarrow> pyfloat"
  e_depth :: nat
  e_ip6 :: "string \<Rightarrow> bool"
  e_other :: "bytes \<Rightarrow> string"
  e_s3 :: "'s s3_lib"

record 's art_world =
  aw_files :: "path \<rightharpoonup> file_content"
  aw_s3 :: 's

definition os_step :: "'s art_env \<Rightarrow> os_step \<Rightarrow> (('s art_world), unit) st" where
  "os_step E k = (case e_fault E k of None \<Rightarrow> retS () | Some e \<Rightarrow> failS e)"

definition set_file :: "path \<Rightarrow> file_content option \<Rightarrow> ('s art_world, unit) st" where
  "set_file p c = (\<lambda>w. (w\<lparr>aw_files := (aw_files w)(p := c)\<rparr>, Inr ()))"

definition on_s3 :: "('s, 'a) st \<Rightarrow> ('s art_world, 'a) st" where
  "on_s3 m = (\<lambda>w. case m (aw_s3 w) of (s, r) \<Rightarrow> (w\<lparr>aw_s3 := s\<rparr>, r))"

text \<open>\<open>try: m finally: g\<close>: an exception of \<open>g\<close> wins.\<close>

definition finallyS :: "('w, 'a) st \<Rightarrow> ('w, unit) st \<Rightarrow> ('w, 'a) st" where
  "finallyS m g = (\<lambda>w. case m w of (w', r) \<Rightarrow> (case g w' of (w'', Inl e) \<Rightarrow> (w'', Inl e) | (w'', Inr _) \<Rightarrow> (w'', r)))"

definition artifacts_root :: "artifact_store \<Rightarrow> path" where
  "artifacts_root A = as_dir A @ [''artifacts'']"

definition path_text :: "path \<Rightarrow> string" where
  "path_text p = CHR ''/'' # join_with ''/'' p"

text \<open>\<open>Path(s)\<close> of an absolute path: empty and single-dot components vanish.\<close>

definition text_path :: "string \<Rightarrow> path" where
  "text_path s = filter (\<lambda>c. c \<noteq> [] \<and> c \<noteq> ''.'') (split_on CHR ''/'' s)"

definition reference :: "'s art_env \<Rightarrow> artifact_store \<Rightarrow> identity \<Rightarrow> string \<Rightarrow> string res" where
  "reference E A identity stage = bindR (artifact_key identity stage) (\<lambda>key. Inr
     (if as_backend A = ''s3'' then ''s3://'' @ as_bucket A @ ''/'' @ quote ''/'' key
      else ''file://'' @ quote ''/'' (path_text (e_resolve E (artifacts_root A @ split_on CHR ''/'' key)))))"

section \<open>Bounded writing and reading\<close>

fun bounded_write :: "int \<Rightarrow> int \<Rightarrow> string list \<Rightarrow> int res" where
  "bounded_write limit written [] = Inr written"
| "bounded_write limit written (p # ps) = (let n = written + int (utf8_len p) in
     if n > limit then Inl ArtifactSizeExceeded else bounded_write limit n ps)"

definition bounded_read :: "int \<Rightarrow> string \<Rightarrow> string res" where
  "bounded_read limit t = (let v = take (nat (limit + 1)) t in
     if int (utf8_len v) > limit then Inl ArtifactSizeExceeded else Inr v)"

text \<open>Text mode reads every line end as a line feed.\<close>

fun universal_newlines :: "string \<Rightarrow> string" where
  "universal_newlines [] = []"
| "universal_newlines (c # s) = (if c = CHR 0x0D
     then CHR 0x0A # (case s of d # t \<Rightarrow> if d = CHR 0x0A then universal_newlines t else universal_newlines s | [] \<Rightarrow> [])
     else c # universal_newlines s)"

section \<open>Writing an artifact\<close>

definition remove_temp :: "'s art_env \<Rightarrow> path \<Rightarrow> ('s art_world, unit) st" where
  "remove_temp E p = (\<lambda>w. if aw_files w p = None then (w, Inr ())
     else bindS (os_step E RemoveTemp) (\<lambda>_. set_file p None) w)"

definition write_temp :: "'s art_env \<Rightarrow> artifact_store \<Rightarrow> pyval \<Rightarrow> ('s art_world, unit) st" where
  "write_temp E A payload = (let text = json_dumps False (e_repr E) payload in
     bindS (os_step E WriteTemp) (\<lambda>_.
     bindS (liftS (bounded_write (as_max A) 0 (e_cut E text))) (\<lambda>_.
     bindS (set_file (e_temp E) (Some (Gzip text))) (\<lambda>_.
     bindS (os_step E StatTemp) (\<lambda>_.
     if e_size E (Gzip text) > as_max A then failS ArtifactSizeExceeded else retS ())))))"

definition publish_temp :: "'s art_env \<Rightarrow> artifact_store \<Rightarrow> string \<Rightarrow> ('s art_world, unit) st" where
  "publish_temp E A key = (\<lambda>w. (case aw_files w (e_temp E) of
       None \<Rightarrow> failS OSError
     | Some c \<Rightarrow>
         if as_backend A = ''s3'' then on_s3 (s3_upload (e_s3 E) (as_bucket A) key c)
         else bindS (os_step E ReplaceTarget) (\<lambda>_.
           bindS (set_file (e_resolve E (artifacts_root A @ split_on CHR ''/'' key)) (Some c)) (\<lambda>_. set_file (e_temp E) None))) w)"

definition put_json :: "'s art_env \<Rightarrow> artifact_store \<Rightarrow> identity \<Rightarrow> string \<Rightarrow> pyval \<Rightarrow> ('s art_world, string) st" where
  "put_json E A identity stage payload =
     bindS (liftS (artifact_key identity stage)) (\<lambda>key.
     bindS (os_step E MakeDirs) (\<lambda>_.
     bindS (os_step E MakeTemp) (\<lambda>_.
     bindS (set_file (e_temp E) (Some Broken)) (\<lambda>_.
       finallyS (bindS (write_temp E A payload) (\<lambda>_. bindS (publish_temp E A key) (\<lambda>_. liftS (reference E A identity stage))))
         (remove_temp E (e_temp E))))))"

section \<open>Reading and deleting\<close>

definition download_s3 :: "'s art_env \<Rightarrow> artifact_store \<Rightarrow> string \<Rightarrow> ('s art_world, unit) st" where
  "download_s3 E A key =
     bindS (on_s3 (s3_head (e_s3 E) (as_bucket A) key)) (\<lambda>n.
     if n > as_max A then failS ArtifactSizeExceeded
     else bindS (os_step E MakeTemp) (\<lambda>_.
       bindS (set_file (e_temp E) (Some Broken)) (\<lambda>_. (\<lambda>w.
         case on_s3 (s3_download (e_s3 E) (as_bucket A) key) w of
           (w', Inr c) \<Rightarrow> set_file (e_temp E) (Some c) w'
         | (w', Inl e) \<Rightarrow> bindS (remove_temp E (e_temp E)) (\<lambda>_. failS e) w'))))"

definition read_source :: "'s art_env \<Rightarrow> artifact_store \<Rightarrow> path \<Rightarrow> ('s art_world, pyval) st" where
  "read_source E A p =
     bindS (os_step E StatSource) (\<lambda>_. \<lambda>w. (case aw_files w p of
         None \<Rightarrow> (w, Inl OSError)
       | Some c \<Rightarrow>
           if e_size E c > as_max A then (w, Inl ArtifactSizeExceeded)
           else bindS (os_step E OpenSource) (\<lambda>_. (case c of
               Broken \<Rightarrow> failS OSError
             | Gzip t \<Rightarrow> bindS (liftS (bounded_read (as_max A) (universal_newlines t))) (\<lambda>v.
                 (case json_loads (e_float E) (e_depth E) v of
                    JValue x \<Rightarrow> retS x | JDecodeError \<Rightarrow> failS ValueError | JRaises e \<Rightarrow> failS e)))) w))"

definition safe_key :: "string \<Rightarrow> bool" where
  "safe_key key = (starts_with key ''tenants/'' \<and> ''..'' \<notin> set (split_on CHR ''/'' key))"

definition get_json :: "'s art_env \<Rightarrow> artifact_store \<Rightarrow> string \<Rightarrow> ('s art_world, pyval) st" where
  "get_json E A ref =
     bindS (liftS (urlsplit (e_ip6 E) ref)) (\<lambda>u.
     if u_scheme u = ''s3'' then
       (if u_netloc u \<noteq> as_bucket A then failS ValueError
        else (let key = unquote (e_other E) (dropWhile (\<lambda>c. c = CHR ''/'') (u_path u)) in
          if \<not> safe_key key then failS ValueError
          else bindS (download_s3 E A key) (\<lambda>_. finallyS (read_source E A (e_temp E)) (remove_temp E (e_temp E)))))
     else if u_scheme u = ''file'' then
       (let source = e_resolve E (text_path (unquote (e_other E) (u_path u))) in
        if prefix (e_resolve E (artifacts_root A)) source then read_source E A source else failS ValueError)
     else failS ValueError)"

definition delete_artifact :: "'s art_env \<Rightarrow> artifact_store \<Rightarrow> identity \<Rightarrow> string \<Rightarrow> ('s art_world, unit) st" where
  "delete_artifact E A identity stage =
     bindS (liftS (artifact_key identity stage)) (\<lambda>key.
     if as_backend A = ''s3'' then on_s3 (s3_delete (e_s3 E) (as_bucket A) key)
     else bindS (os_step E UnlinkTarget) (\<lambda>_. set_file (e_resolve E (artifacts_root A @ split_on CHR ''/'' key)) None))"

section \<open>Keys\<close>

lemma split_on_nonempty: "split_on d s \<noteq> []"
  by (induction s) (auto split: list.splits)

lemma split_on_plain: "d \<notin> set s \<Longrightarrow> split_on d s = [s]"
  by (induction s) auto

lemma split_on_append: "d \<notin> set a \<Longrightarrow> split_on d (a @ d # b) = a # split_on d b"
  by (induction a) (auto split: list.splits)

lemma split_join: "parts \<noteq> [] \<Longrightarrow> \<forall>p \<in> set parts. d \<notin> set p \<Longrightarrow> split_on d (join_with [d] parts) = parts"
proof (induction parts)
  case (Cons p ps)
  then show ?case by (cases ps) (simp_all add: split_on_plain split_on_append)
qed simp

lemma part_okE:
  assumes "part_ok (Some v)"
  shows "v \<noteq> []" "CHR ''/'' \<notin> set v" "v \<noteq> ''.''" "v \<noteq> ''..''"
  using assms by (simp_all add: part_ok_def)

text \<open>What a key is made of.\<close>

definition component_ok :: "string \<Rightarrow> bool" where
  "component_ok c = (c \<noteq> [] \<and> CHR ''/'' \<notin> set c \<and> c \<noteq> ''.'' \<and> c \<noteq> ''..'')"

lemma artifact_keyE:
  assumes "artifact_key identity stage = Inr key"
  obtains t d v where "map_of identity ''tenant_id'' = Some t" "map_of identity ''document_id'' = Some d" "map_of identity ''version_id'' = Some v"
    "stage = ''pages'' \<or> stage = ''chunks''" "key = join_with ''/'' (artifact_path t d v stage)" "\<forall>c \<in> set (artifact_path t d v stage). component_ok c"
proof -
  obtain t d v where k: "map_of identity ''tenant_id'' = Some t" "map_of identity ''document_id'' = Some d" "map_of identity ''version_id'' = Some v"
      "stage = ''pages'' \<or> stage = ''chunks''" "key = join_with ''/'' (artifact_path t d v stage)"
      "part_ok (Some t)" "part_ok (Some d)" "part_ok (Some v)"
    using assms by (auto simp: artifact_key_def ARTIFACT_STAGES_def split: if_splits option.splits)
  have "\<forall>c \<in> set (artifact_path t d v stage). component_ok c"
    using k(4) part_okE[OF k(6)] part_okE[OF k(7)] part_okE[OF k(8)] by (auto simp: artifact_path_def component_ok_def)
  then show ?thesis using that k by blast
qed

lemma key_components:
  assumes "artifact_key identity stage = Inr key"
  shows "\<exists>t d v. split_on CHR ''/'' key = artifact_path t d v stage \<and> map_of identity ''tenant_id'' = Some t \<and>
    map_of identity ''document_id'' = Some d \<and> map_of identity ''version_id'' = Some v"
    "\<forall>c \<in> set (split_on CHR ''/'' key). component_ok c" "starts_with key ''tenants/''"
    "key = join_with ''/'' (split_on CHR ''/'' key)"
proof -
  obtain t d v where k: "map_of identity ''tenant_id'' = Some t" "map_of identity ''document_id'' = Some d" "map_of identity ''version_id'' = Some v"
    "stage = ''pages'' \<or> stage = ''chunks''" "key = join_with ''/'' (artifact_path t d v stage)" "\<forall>c \<in> set (artifact_path t d v stage). component_ok c"
    using artifact_keyE[OF assms] by blast
  have s: "split_on CHR ''/'' key = artifact_path t d v stage" unfolding k(5)
    by (rule split_join) (use k(6) in \<open>auto simp: artifact_path_def component_ok_def\<close>)
  show "\<exists>t d v. split_on CHR ''/'' key = artifact_path t d v stage \<and> map_of identity ''tenant_id'' = Some t \<and>
      map_of identity ''document_id'' = Some d \<and> map_of identity ''version_id'' = Some v"
    using s k by blast
  show "\<forall>c \<in> set (split_on CHR ''/'' key). component_ok c" unfolding s by (rule k(6))
  show "starts_with key ''tenants/''" unfolding k(5) by (simp add: artifact_path_def starts_with_def)
  show "key = join_with ''/'' (split_on CHR ''/'' key)" unfolding s by (rule k(5))
qed

text \<open>Different artifacts have different keys.\<close>

lemma artifact_key_inj:
  assumes "artifact_key identity stage = Inr key" "artifact_key identity' stage' = Inr key"
  shows "stage' = stage \<and> map_of identity' ''tenant_id'' = map_of identity ''tenant_id'' \<and>
    map_of identity' ''document_id'' = map_of identity ''document_id'' \<and> map_of identity' ''version_id'' = map_of identity ''version_id''"
  using key_components(1)[OF assms(1)] key_components(1)[OF assms(2)] by (auto simp: artifact_path_def)

section \<open>Texts of artifacts\<close>

lemma bounded_write_Inr: "bounded_write limit n ps = Inr m \<Longrightarrow> m = n + int (utf8_len (concat ps)) \<and> (ps \<noteq> [] \<longrightarrow> m \<le> limit)"
proof (induction ps arbitrary: n)
  case (Cons p ps)
  then have "m = n + int (utf8_len p) + int (utf8_len (concat ps))" "n + int (utf8_len p) \<le> limit" "ps \<noteq> [] \<longrightarrow> m \<le> limit"
    by (auto simp: Let_def split: if_splits)
  then show ?case by (cases ps) (auto simp: utf8_len_def)
qed (simp add: utf8_len_def)

text \<open>The incremental check is the check of the whole text, wherever the encoder cuts it.\<close>

lemma bounded_write_whole:
  assumes "concat ps \<noteq> []"
  shows "bounded_write limit 0 ps = (if int (utf8_len (concat ps)) \<le> limit then Inr (int (utf8_len (concat ps))) else Inl ArtifactSizeExceeded)"
proof -
  have "bounded_write limit n ps = (if n + int (utf8_len (concat ps)) \<le> limit then Inr (n + int (utf8_len (concat ps))) else Inl ArtifactSizeExceeded)"
    if "ps \<noteq> []" for n ps using that
  proof (induction ps arbitrary: n)
    case (Cons p ps)
    show ?case
    proof (cases ps)
      case Nil
      then show ?thesis by (simp add: Let_def)
    next
      case (Cons q qs)
      then show ?thesis using Cons.IH[of "n + int (utf8_len p)"] by (auto simp: Let_def)
    qed
  qed simp
  moreover have "ps \<noteq> []" using assms by auto
  ultimately show ?thesis by simp
qed

lemma bounded_read_fits: "int (utf8_len t) \<le> limit \<Longrightarrow> bounded_read limit t = Inr t"
  using utf8_len_ge[of t] by (simp add: bounded_read_def)

lemma bounded_read_Inr: "bounded_read limit t = Inr v \<Longrightarrow> v = t \<and> int (utf8_len v) \<le> limit"
proof -
  assume r: "bounded_read limit t = Inr v"
  then have v: "v = take (nat (limit + 1)) t" "int (utf8_len v) \<le> limit" by (auto simp: bounded_read_def Let_def split: if_splits)
  then have "int (length v) \<le> limit" using utf8_len_ge[of v] by linarith
  then have "length v < nat (limit + 1)" by simp
  then have "length t < nat (limit + 1)" using v(1) by (auto simp: min_def split: if_splits)
  then show ?thesis using v by simp
qed

lemma universal_newlines_plain: "CHR 0x0D \<notin> set t \<Longrightarrow> universal_newlines t = t"
  by (induction t rule: universal_newlines.induct) auto

lemma json_string_no_return: "CHR 0x0D \<notin> set (json_string a s)"
proof -
  have "CHR 0x0D \<notin> set (json_char a c)" for c
  proof (cases "code c = 13")
    case False
    have d: "CHR 0x0D \<noteq> char_of (nat (if m < 10 then 48 + m else 87 + m))" if "0 \<le> m" "m < 16" for m :: int
    proof -
      have "nat (if m < 10 then 48 + m else 87 + m) < 256" "13 < nat (if m < 10 then 48 + m else 87 + m)" using that by auto
      then have "13 < code (char_of (nat (if m < 10 then 48 + m else 87 + m)))" by (simp only: code_char_of)
      moreover have "code (CHR 0x0D) = 13" by (simp add: code_def)
      ultimately show ?thesis by (metis less_irrefl)
    qed
    have h: "CHR 0x0D \<notin> set (hex_digits k n)" for k n
    proof (induction k arbitrary: n)
      case (Suc k)
      have "CHR 0x0D \<noteq> char_of (nat (if n mod 16 < 10 then 48 + n mod 16 else 87 + n mod 16))" by (rule d) simp_all
      then show ?case using Suc.IH[of "n div 16"] unfolding hex_digits.simps set_append by (simp only: Un_iff list.set insert_iff empty_iff simp_thms)
    qed simp
    have c: "c \<noteq> CHR 0x0D" using False by (auto simp: code_def)
    have "CHR 0x0D \<notin> set (json_unicode c)" using h by (simp only: json_unicode_def list.set set_append) simp
    then show ?thesis using c by (simp add: json_char_def Let_def del: json_unicode_def)
  qed (simp add: json_char_def)
  then show ?thesis by (auto simp: json_string_def)
qed

lemma set_join_comma: "set (join_comma ts) \<subseteq> {CHR '','', CHR '' ''} \<union> (\<Union>t \<in> set ts. set t)"
  unfolding join_comma_def by (induction "'', ''" ts rule: join_with.induct) auto

lemma json_no_return: "plain_json v \<Longrightarrow> CHR 0x0D \<notin> set (json_dumps a fl v)"
proof (induction v)
  case (PInt i)
  have "CHR 0x0D \<notin> set (nat_digits n)" for n using nat_digits_chars[of "CHR 0x0D" n] by (auto simp: code_def)
  then show ?case by (simp add: int_digits_def)
next
  case (PList xs)
  then show ?case using set_join_comma[of "map (json_dumps a fl) xs"] by (auto simp: list_all_iff)
next
  case (PDict d)
  let ?f = "\<lambda>(k, v). json_string a k @ '': '' @ json_dumps a fl v"
  have "CHR 0x0D \<notin> set (?f p)" if "p \<in> set d" for p
  proof -
    obtain k v where p: "p = (k, v)" by (cases p)
    have "plain_json v" using PDict.prems that p by (auto simp: list_all_iff)
    then have "CHR 0x0D \<notin> set (json_dumps a fl v)" using PDict.IH[OF that] p by simp
    then show ?thesis using json_string_no_return[of a k] by (simp add: p)
  qed
  then have "CHR 0x0D \<notin> (\<Union>t \<in> set (map ?f d). set t)" by auto
  then have "CHR 0x0D \<notin> set (join_comma (map ?f d))" using set_join_comma[of "map ?f d"] by blast
  then show ?case by simp
qed (simp_all add: json_string_no_return)

section \<open>What the operations do to the world\<close>

definition s3_laws :: "'s s3_lib \<Rightarrow> (file_content \<Rightarrow> int) \<Rightarrow> ('s \<Rightarrow> (string \<times> string) \<rightharpoonup> file_content) \<Rightarrow> bool" where
  "s3_laws L sizes view = (
     (\<forall>b k c s s' r. s3_upload L b k c s = (s', r) \<longrightarrow>
        view s' = (view s)((b, k) \<mapsto> c) \<or> (view s' = view s \<and> r \<noteq> Inr ())) \<and>
     (\<forall>b k s s' r. s3_head L b k s = (s', r) \<longrightarrow> view s' = view s \<and> (\<forall>n. r = Inr n \<longrightarrow> map_option sizes (view s (b, k)) = Some n)) \<and>
     (\<forall>b k s s' r. s3_download L b k s = (s', r) \<longrightarrow> view s' = view s \<and> (\<forall>c. r = Inr c \<longrightarrow> view s (b, k) = Some c)) \<and>
     (\<forall>b k s s' r. s3_delete L b k s = (s', r) \<longrightarrow> view s' = (view s)((b, k) := None) \<or> (view s' = view s \<and> r \<noteq> Inr ())))"

lemma s3_lawsD:
  assumes "s3_laws L sizes view"
  shows "s3_upload L b k c s = (s', r) \<Longrightarrow> view s' = (view s)((b, k) \<mapsto> c) \<or> (view s' = view s \<and> r \<noteq> Inr ())"
    "s3_head L b k s = (s', r1) \<Longrightarrow> view s' = view s \<and> (\<forall>n. r1 = Inr n \<longrightarrow> map_option sizes (view s (b, k)) = Some n)"
    "s3_download L b k s = (s', r2) \<Longrightarrow> view s' = view s \<and> (\<forall>c. r2 = Inr c \<longrightarrow> view s (b, k) = Some c)"
    "s3_delete L b k s = (s', r) \<Longrightarrow> view s' = (view s)((b, k) := None) \<or> (view s' = view s \<and> r \<noteq> Inr ())"
proof -
  note l = assms[unfolded s3_laws_def]
  show "s3_upload L b k c s = (s', r) \<Longrightarrow> view s' = (view s)((b, k) \<mapsto> c) \<or> (view s' = view s \<and> r \<noteq> Inr ())"
    using conjunct1[OF l] by blast
  show "s3_head L b k s = (s', r1) \<Longrightarrow> view s' = view s \<and> (\<forall>n. r1 = Inr n \<longrightarrow> map_option sizes (view s (b, k)) = Some n)"
    using conjunct1[OF conjunct2[OF l]] by blast
  show "s3_download L b k s = (s', r2) \<Longrightarrow> view s' = view s \<and> (\<forall>c. r2 = Inr c \<longrightarrow> view s (b, k) = Some c)"
    using conjunct1[OF conjunct2[OF conjunct2[OF l]]] by blast
  show "s3_delete L b k s = (s', r) \<Longrightarrow> view s' = (view s)((b, k) := None) \<or> (view s' = view s \<and> r \<noteq> Inr ())"
    using conjunct2[OF conjunct2[OF conjunct2[OF l]]] by blast
qed

text \<open>Where an artifact is, and what it holds.\<close>

definition artifact_file :: "'s art_env \<Rightarrow> artifact_store \<Rightarrow> string \<Rightarrow> path" where
  "artifact_file E A key = e_resolve E (artifacts_root A @ split_on CHR ''/'' key)"

definition held :: "'s art_env \<Rightarrow> artifact_store \<Rightarrow> ('s \<Rightarrow> (string \<times> string) \<rightharpoonup> file_content) \<Rightarrow> string \<Rightarrow> 's art_world \<Rightarrow> file_content option" where
  "held E A view key w = (if as_backend A = ''s3'' then view (aw_s3 w) (as_bucket A, key) else aw_files w (artifact_file E A key))"

text \<open>Below the root of the artifacts there are no symbolic links, its own path is a resolved one, temporary files are no
  artifacts, and the encoder's pieces make up the text.\<close>

definition env_ok :: "'s art_env \<Rightarrow> artifact_store \<Rightarrow> bool" where
  "env_ok E A = (
     (\<forall>parts. (\<forall>c \<in> set parts. component_ok c) \<longrightarrow>
        e_resolve E (artifacts_root A @ parts) = e_resolve E (artifacts_root A) @ parts \<and>
        e_resolve E (e_resolve E (artifacts_root A) @ parts) = e_resolve E (artifacts_root A) @ parts) \<and>
     (\<forall>c \<in> set (e_resolve E (artifacts_root A)). component_ok c) \<and>
     (\<forall>t d v stage. e_temp E \<noteq> e_resolve E (artifacts_root A) @ artifact_path t d v stage) \<and>
     (\<forall>t. concat (e_cut E t) = t))"

lemma artifact_file_path:
  assumes "env_ok E A" "artifact_key identity stage = Inr key"
  shows "artifact_file E A key = e_resolve E (artifacts_root A) @ split_on CHR ''/'' key" "artifact_file E A key \<noteq> e_temp E"
    "e_resolve E (artifact_file E A key) = artifact_file E A key" "\<forall>c \<in> set (artifact_file E A key). component_ok c"
proof -
  have c: "\<forall>c \<in> set (split_on CHR ''/'' key). component_ok c" by (rule key_components(2)[OF assms(2)])
  have "e_resolve E (artifacts_root A @ split_on CHR ''/'' key) = e_resolve E (artifacts_root A) @ split_on CHR ''/'' key \<and>
      e_resolve E (e_resolve E (artifacts_root A) @ split_on CHR ''/'' key) = e_resolve E (artifacts_root A) @ split_on CHR ''/'' key"
    using assms(1) c unfolding env_ok_def by blast
  then show f: "artifact_file E A key = e_resolve E (artifacts_root A) @ split_on CHR ''/'' key"
    and "e_resolve E (artifact_file E A key) = artifact_file E A key" by (simp_all add: artifact_file_def)
  obtain t d v where "split_on CHR ''/'' key = artifact_path t d v stage" using key_components(1)[OF assms(2)] by blast
  then show "artifact_file E A key \<noteq> e_temp E" using assms(1) unfolding f env_ok_def by metis
  show "\<forall>c \<in> set (artifact_file E A key). component_ok c" using assms(1) c unfolding f env_ok_def by auto
qed

text \<open>Different keys are different places.\<close>

lemma artifact_file_inj:
  assumes "env_ok E A" "artifact_key i s = Inr key" "artifact_key i' s' = Inr key'" "artifact_file E A key = artifact_file E A key'"
  shows "key = key'"
  using assms(4) artifact_file_path(1)[OF assms(1,2)] artifact_file_path(1)[OF assms(1,3)]
    key_components(4)[OF assms(2)] key_components(4)[OF assms(3)] by simp

text \<open>Steps that touch the temporary file only.\<close>

definition temp_only :: "'s art_env \<Rightarrow> ('s art_world, 'a) st \<Rightarrow> bool" where
  "temp_only E m = (\<forall>w w' r. m w = (w', r) \<longrightarrow> aw_s3 w' = aw_s3 w \<and> (\<forall>p. p \<noteq> e_temp E \<longrightarrow> aw_files w' p = aw_files w p))"

lemma temp_onlyD: "temp_only E m \<Longrightarrow> m w = (w', r) \<Longrightarrow> aw_s3 w' = aw_s3 w \<and> (p \<noteq> e_temp E \<longrightarrow> aw_files w' p = aw_files w p)"
  unfolding temp_only_def by blast

lemma temp_only_pure: "temp_only E (os_step E k)" "temp_only E (retS x)" "temp_only E (failS e)" "temp_only E (liftS q)"
  by (auto simp: temp_only_def os_step_def split: option.splits)

lemma temp_only_set: "temp_only E (set_file (e_temp E) c)"
  by (auto simp: temp_only_def set_file_def)

lemma temp_only_bind: "temp_only E m \<Longrightarrow> (\<And>x. temp_only E (f x)) \<Longrightarrow> temp_only E (bindS m f)"
  unfolding temp_only_def by (intro allI impI, erule bindS_cases) (blast, metis)

lemma temp_only_remove: "temp_only E (remove_temp E (e_temp E))"
proof -
  have "temp_only E (bindS (os_step E RemoveTemp) (\<lambda>_. set_file (e_temp E) None))" by (intro temp_only_bind temp_only_pure temp_only_set)
  then show ?thesis unfolding temp_only_def remove_temp_def by (auto split: if_splits)
qed

lemmas temp_only_intros = temp_only_bind temp_only_pure temp_only_set temp_only_remove

lemma temp_only_write: "temp_only E (write_temp E A payload)"
  unfolding write_temp_def Let_def by (auto intro!: temp_only_intros)

lemma temp_only_held: "temp_only E m \<Longrightarrow> m w = (w', r) \<Longrightarrow> env_ok E A \<Longrightarrow> artifact_key i s = Inr key \<Longrightarrow> held E A view key w' = held E A view key w"
  using temp_onlyD[of E m w w' r "artifact_file E A key"] artifact_file_path(2)[of E A i s key] by (simp add: held_def)

text \<open>A text that fits the limits.\<close>

definition fits :: "'s art_env \<Rightarrow> artifact_store \<Rightarrow> string \<Rightarrow> bool" where
  "fits E A t = (int (utf8_len t) \<le> as_max A \<and> e_size E (Gzip t) \<le> as_max A)"

lemma json_dumps_nonempty: "plain_json v \<Longrightarrow> json_dumps a fl v \<noteq> []"
  by (rule json_dumps_start[of v a fl]) auto

lemma write_temp_done:
  assumes "env_ok E A" "plain_json payload" "write_temp E A payload w = (w', Inr ())"
  shows "aw_files w' (e_temp E) = Some (Gzip (json_dumps False (e_repr E) payload)) \<and> fits E A (json_dumps False (e_repr E) payload)"
proof -
  let ?t = "json_dumps False (e_repr E) payload"
  have c: "concat (e_cut E ?t) = ?t" using assms(1) by (simp add: env_ok_def)
  then have "concat (e_cut E ?t) \<noteq> []" using json_dumps_nonempty[OF assms(2)] by simp
  note b = bounded_write_whole[OF this, of "as_max A", unfolded c]
  show ?thesis using assms(3) b unfolding write_temp_def Let_def
    by (auto simp: os_step_def set_file_def fits_def split: option.splits if_splits)
qed

lemma publish_effect:
  assumes "env_ok E A" "s3_laws (e_s3 E) (e_size E) view" "artifact_key i st = Inr key" "artifact_key i' st' = Inr key'"
    and "publish_temp E A key w = (w', r)" "aw_files w (e_temp E) = Some c"
  shows "held E A view key' w' = held E A view key' w \<or> (key' = key \<and> held E A view key' w' = Some c)"
    "r = Inr () \<Longrightarrow> held E A view key w' = Some c"
proof -
  have "(held E A view key' w' = held E A view key' w \<or> (key' = key \<and> held E A view key' w' = Some c)) \<and>
    (r = Inr () \<longrightarrow> held E A view key w' = Some c)"
  proof (cases "as_backend A = ''s3''")
    case True
    then obtain s' where u: "s3_upload (e_s3 E) (as_bucket A) key c (aw_s3 w) = (s', r)" "w' = w\<lparr>aw_s3 := s'\<rparr>"
      using assms(5,6) by (auto simp: publish_temp_def on_s3_def split: prod.splits)
    show ?thesis using s3_lawsD(1)[OF assms(2) u(1)] True u(2) by (cases "key' = key") (auto simp: held_def)
  next
    case False
    note f = artifact_file_path(2)[OF assms(1,3)] artifact_file_path(2)[OF assms(1,4)]
    show ?thesis
    proof (cases "e_fault E ReplaceTarget")
      case None
      then have "w' = w\<lparr>aw_files := (aw_files w)(artifact_file E A key := Some c, e_temp E := None)\<rparr>" "r = Inr ()"
        using assms(5,6) False by (auto simp: publish_temp_def os_step_def set_file_def bindS_def retS_def artifact_file_def)
      then show ?thesis using f False artifact_file_inj[OF assms(1,3,4)] by (auto simp: held_def)
    next
      case (Some e)
      then have "w' = w" "r = Inl e" using assms(5,6) False by (auto simp: publish_temp_def os_step_def bindS_def failS_def)
      then show ?thesis by simp
    qed
  qed
  then show "held E A view key' w' = held E A view key' w \<or> (key' = key \<and> held E A view key' w' = Some c)"
    "r = Inr () \<Longrightarrow> held E A view key w' = Some c" by blast+
qed

lemma finallyS_cases:
  assumes "finallyS m g w = (w', r)"
  obtains w1 r1 r2 where "m w = (w1, r1)" "g w1 = (w', r2)" "r = (case r2 of Inl e \<Rightarrow> Inl e | Inr _ \<Rightarrow> r1)"
  using assms by (cases "m w"; cases "g (fst (m w))"; cases "snd (g (fst (m w)))") (auto simp: finallyS_def)

definition put_body :: "'s art_env \<Rightarrow> artifact_store \<Rightarrow> identity \<Rightarrow> string \<Rightarrow> pyval \<Rightarrow> string \<Rightarrow> ('s art_world, string) st" where
  "put_body E A i st payload key =
     bindS (write_temp E A payload) (\<lambda>_. bindS (publish_temp E A key) (\<lambda>_. liftS (reference E A i st)))"

lemma put_body_effect:
  assumes "env_ok E A" "s3_laws (e_s3 E) (e_size E) view" "artifact_key i st = Inr key" "artifact_key i' st' = Inr key'" "plain_json x"
    and "put_body E A i st x key w = (w', r)"
  shows "held E A view key' w' = held E A view key' w \<or>
      (key' = key \<and> held E A view key' w' = Some (Gzip (json_dumps False (e_repr E) x)) \<and> fits E A (json_dumps False (e_repr E) x))"
    "r = Inr ref \<Longrightarrow> held E A view key w' = Some (Gzip (json_dumps False (e_repr E) x)) \<and> fits E A (json_dumps False (e_repr E) x) \<and>
      reference E A i st = Inr ref"
proof -
  let ?T = "json_dumps False (e_repr E) x"
  from assms(6)[unfolded put_body_def]
  have "(held E A view key' w' = held E A view key' w \<or> (key' = key \<and> held E A view key' w' = Some (Gzip ?T) \<and> fits E A ?T)) \<and>
    (r = Inr ref \<longrightarrow> held E A view key w' = Some (Gzip ?T) \<and> fits E A ?T \<and> reference E A i st = Inr ref)"
  proof (cases rule: bindS_cases)
    case (raised e)
    then show ?thesis using temp_only_held[OF temp_only_write _ assms(1,4)] by fastforce
  next
    case (bound w1 u)
    have t: "aw_files w1 (e_temp E) = Some (Gzip ?T)" "fits E A ?T" using write_temp_done[OF assms(1,5)] bound(1) by auto
    have h: "held E A view key' w1 = held E A view key' w" by (rule temp_only_held[OF temp_only_write bound(1) assms(1,4)])
    from bound(2) show ?thesis
    proof (cases rule: bindS_cases)
      case (raised e)
      then show ?thesis using publish_effect(1)[OF assms(1-4) raised(1) t(1)] h t(2) by auto
    next
      case (bound w2 v)
      have "w2 = w'" "reference E A i st = r" using bound(2) by auto
      then show ?thesis using publish_effect[OF assms(1-4) bound(1) t(1)] h t(2) by auto
    qed
  qed
  then show "held E A view key' w' = held E A view key' w \<or> (key' = key \<and> held E A view key' w' = Some (Gzip ?T) \<and> fits E A ?T)"
    "r = Inr ref \<Longrightarrow> held E A view key w' = Some (Gzip ?T) \<and> fits E A ?T \<and> reference E A i st = Inr ref" by blast+
qed

lemma remove_temp_gone: "e_fault E RemoveTemp = None \<Longrightarrow> remove_temp E p w = (w', r) \<Longrightarrow> aw_files w' p = None"
  by (auto simp: remove_temp_def os_step_def set_file_def bindS_def retS_def split: if_splits)

text \<open>The temporary file aside, what writing an artifact does.\<close>

lemma put_json_effect:
  assumes "env_ok E A" "s3_laws (e_s3 E) (e_size E) view" "artifact_key i' st' = Inr key'" "plain_json x"
    and "put_json E A i st x w = (w', r)"
  shows "held E A view key' w' = held E A view key' w \<or>
      (artifact_key i st = Inr key' \<and> held E A view key' w' = Some (Gzip (json_dumps False (e_repr E) x)) \<and> fits E A (json_dumps False (e_repr E) x))"
    "r = Inr ref \<Longrightarrow> \<exists>key. artifact_key i st = Inr key \<and> held E A view key w' = Some (Gzip (json_dumps False (e_repr E) x)) \<and>
      fits E A (json_dumps False (e_repr E) x) \<and> reference E A i st = Inr ref"
    "e_fault E RemoveTemp = None \<Longrightarrow> aw_files w (e_temp E) = None \<Longrightarrow> aw_files w' (e_temp E) = None"
proof -
  let ?T = "json_dumps False (e_repr E) x"
  define C where "C = ((held E A view key' w' = held E A view key' w \<or>
      (artifact_key i st = Inr key' \<and> held E A view key' w' = Some (Gzip ?T) \<and> fits E A ?T)) \<and>
    (r = Inr ref \<longrightarrow> (\<exists>key. artifact_key i st = Inr key \<and> held E A view key w' = Some (Gzip ?T) \<and> fits E A ?T \<and> reference E A i st = Inr ref)) \<and>
    (e_fault E RemoveTemp = None \<longrightarrow> aw_files w (e_temp E) = None \<longrightarrow> aw_files w' (e_temp E) = None))"
  have same: C if "w' = w" "\<exists>e. r = Inl e" using that by (auto simp: C_def)
  have C
  proof (cases "artifact_key i st")
    case (Inl e)
    then show ?thesis using assms(5) by (intro same) (auto simp: put_json_def bindS_liftS)
  next
    case key: (Inr key)
    show ?thesis
    proof (cases "e_fault E MakeDirs = None \<and> e_fault E MakeTemp = None")
      case False
      then show ?thesis using assms(5) key by (intro same) (auto simp: put_json_def liftS_def os_step_def bindS_def failS_def retS_def split: option.splits)
    next
      case True
      let ?w = "w\<lparr>aw_files := (aw_files w)(e_temp E := Some Broken)\<rparr>"
      have "finallyS (put_body E A i st x key) (remove_temp E (e_temp E)) ?w = (w', r)"
        using assms(5) key True unfolding put_json_def put_body_def
        by (simp add: bindS_liftS os_step_def) (simp add: bindS_def set_file_def)
      then obtain w1 r1 r2 where b: "put_body E A i st x key ?w = (w1, r1)" "remove_temp E (e_temp E) w1 = (w', r2)"
          "r = (case r2 of Inl e \<Rightarrow> Inl e | Inr _ \<Rightarrow> r1)" by (rule finallyS_cases)
      note eff = put_body_effect[OF assms(1,2) key assms(3,4) b(1)]
      have h0: "held E A view key' ?w = held E A view key' w" using artifact_file_path(2)[OF assms(1,3)] by (simp add: held_def)
      have h1: "held E A view key' w' = held E A view key' w1" by (rule temp_only_held[OF temp_only_remove b(2) assms(1,3)])
      have h2: "held E A view key w' = held E A view key w1" by (rule temp_only_held[OF temp_only_remove b(2) assms(1) key])
      have "r = Inr ref \<Longrightarrow> r1 = Inr ref" using b(3) by (auto split: sum.splits)
      then show ?thesis using eff h0 h1 h2 key remove_temp_gone[OF _ b(2)] unfolding C_def by auto
    qed
  qed
  then show "held E A view key' w' = held E A view key' w \<or> (artifact_key i st = Inr key' \<and> held E A view key' w' = Some (Gzip ?T) \<and> fits E A ?T)"
    "r = Inr ref \<Longrightarrow> \<exists>key. artifact_key i st = Inr key \<and> held E A view key w' = Some (Gzip ?T) \<and> fits E A ?T \<and> reference E A i st = Inr ref"
    "e_fault E RemoveTemp = None \<Longrightarrow> aw_files w (e_temp E) = None \<Longrightarrow> aw_files w' (e_temp E) = None"
    unfolding C_def by blast+
qed

section \<open>What reading yields\<close>

lemma read_source_world: "read_source E A p w = (w', r) \<Longrightarrow> w' = w"
  by (auto simp: read_source_def bindS_def os_step_def retS_def failS_def liftS_def
      split: option.splits if_splits sum.splits file_content.splits json_result.splits)

definition os_failure :: "'s art_env \<Rightarrow> exn \<Rightarrow> bool" where
  "os_failure E e = (\<exists>k. e_fault E k = Some e)"

lemma read_written:
  assumes "aw_files w p = Some (Gzip (json_dumps False (e_repr E) x))" "fits E A (json_dumps False (e_repr E) x)"
    and "plain_json x" "json_nesting x \<le> e_depth E" "read_source E A p w = (w', r)"
  shows "r = Inr x \<or> (\<exists>e. r = Inl e \<and> os_failure E e)"
proof -
  let ?T = "json_dumps False (e_repr E) x"
  have t: "universal_newlines ?T = ?T" by (rule universal_newlines_plain, rule json_no_return[OF assms(3)])
  have b: "bounded_read (as_max A) ?T = Inr ?T" using assms(2) by (intro bounded_read_fits) (simp add: fits_def)
  have s: "\<not> e_size E (Gzip ?T) > as_max A" using assms(2) by (simp add: fits_def)
  have l: "json_loads (e_float E) (e_depth E) ?T = JValue x" by (rule json_roundtrip[OF assms(3,4)])
  show ?thesis using assms(1,5) t b s l
    by (auto simp: read_source_def bindS_def os_step_def retS_def failS_def liftS_def os_failure_def split: option.splits)
qed

lemma read_source_bounded:
  assumes "read_source E A p w = (w', Inr v)"
  shows "\<exists>t. aw_files w p = Some (Gzip t) \<and> e_size E (Gzip t) \<le> as_max A \<and> int (utf8_len (universal_newlines t)) \<le> as_max A \<and>
    json_loads (e_float E) (e_depth E) (universal_newlines t) = JValue v"
  using assms bounded_read_Inr
  by (fastforce simp: read_source_def bindS_def os_step_def retS_def failS_def liftS_def
      split: option.splits if_splits sum.splits file_content.splits json_result.splits)

text \<open>Downloading.\<close>

definition s3_failure :: "'s art_env \<Rightarrow> exn \<Rightarrow> bool" where
  "s3_failure E e = ((\<exists>b k s s'. s3_head (e_s3 E) b k s = (s', Inl e)) \<or> (\<exists>b k s s'. s3_download (e_s3 E) b k s = (s', Inl e)))"

lemma download_effect:
  assumes "s3_laws (e_s3 E) (e_size E) view" "download_s3 E A key w = (w', r)"
  shows "view (aw_s3 w') = view (aw_s3 w)" "p \<noteq> e_temp E \<Longrightarrow> aw_files w' p = aw_files w p"
    "r = Inr () \<Longrightarrow> \<exists>c. aw_files w' (e_temp E) = Some c \<and> view (aw_s3 w) (as_bucket A, key) = Some c"
    "r = Inl e \<Longrightarrow> os_failure E e \<or> s3_failure E e \<or>
      (e = ArtifactSizeExceeded \<and> (\<forall>c. view (aw_s3 w) (as_bucket A, key) = Some c \<longrightarrow> e_size E c > as_max A))"
proof -
  define C where "C = (view (aw_s3 w') = view (aw_s3 w) \<and> (\<forall>p. p \<noteq> e_temp E \<longrightarrow> aw_files w' p = aw_files w p) \<and>
    (r = Inr () \<longrightarrow> (\<exists>c. aw_files w' (e_temp E) = Some c \<and> view (aw_s3 w) (as_bucket A, key) = Some c)) \<and>
    (\<forall>e. r = Inl e \<longrightarrow> os_failure E e \<or> s3_failure E e \<or>
      (e = ArtifactSizeExceeded \<and> (\<forall>c. view (aw_s3 w) (as_bucket A, key) = Some c \<longrightarrow> e_size E c > as_max A))))"
  obtain s1 n where h: "s3_head (e_s3 E) (as_bucket A) key (aw_s3 w) = (s1, n)" by (rule prod.exhaust)
  note hl = s3_lawsD(2)[OF assms(1) h]
  have C
  proof (cases n)
    case (Inl e)
    then show ?thesis using assms(2) h hl by (auto simp: download_s3_def on_s3_def bindS_def C_def s3_failure_def)
  next
    case n: (Inr k)
    show ?thesis
    proof (cases "k > as_max A \<or> e_fault E MakeTemp \<noteq> None")
      case True
      then show ?thesis using assms(2) h hl n
        by (auto simp: download_s3_def on_s3_def bindS_def C_def os_step_def failS_def os_failure_def split: if_splits)
    next
      case False
      let ?w = "w\<lparr>aw_s3 := s1, aw_files := (aw_files w)(e_temp E := Some Broken)\<rparr>"
      obtain s2 c where d: "s3_download (e_s3 E) (as_bucket A) key s1 = (s2, c)" by (rule prod.exhaust)
      note dl = s3_lawsD(3)[OF assms(1) d]
      show ?thesis
      proof (cases c)
        case (Inr x)
        then show ?thesis using assms(2) h hl n d dl False
          by (auto simp: download_s3_def on_s3_def bindS_def C_def os_step_def set_file_def retS_def split: if_splits)
      next
        case (Inl e)
        then have "bindS (remove_temp E (e_temp E)) (\<lambda>_. failS e) (?w\<lparr>aw_s3 := s2\<rparr>) = (w', r)"
          using assms(2) h n d False by (auto simp: download_s3_def on_s3_def bindS_def os_step_def set_file_def retS_def split: if_splits)
        then show ?thesis using hl dl d Inl
          by (cases "e_fault E RemoveTemp")
            (auto simp: C_def remove_temp_def os_step_def set_file_def bindS_def retS_def failS_def os_failure_def s3_failure_def)
      qed
    qed
  qed
  then show "view (aw_s3 w') = view (aw_s3 w)" "p \<noteq> e_temp E \<Longrightarrow> aw_files w' p = aw_files w p"
    "r = Inr () \<Longrightarrow> \<exists>c. aw_files w' (e_temp E) = Some c \<and> view (aw_s3 w) (as_bucket A, key) = Some c"
    "r = Inl e \<Longrightarrow> os_failure E e \<or> s3_failure E e \<or>
      (e = ArtifactSizeExceeded \<and> (\<forall>c. view (aw_s3 w) (as_bucket A, key) = Some c \<longrightarrow> e_size E c > as_max A))"
    unfolding C_def by blast+
qed

text \<open>The two ways of a read, with the world they leave.\<close>

lemma get_json_cases:
  assumes "get_json E A ref w = (w', r)"
  obtains (refused) e where "w' = w" "r = Inl e"
  | (local) u where "urlsplit (e_ip6 E) ref = Inr u" "u_scheme u = ''file''"
      "prefix (e_resolve E (artifacts_root A)) (e_resolve E (text_path (unquote (e_other E) (u_path u))))"
      "read_source E A (e_resolve E (text_path (unquote (e_other E) (u_path u)))) w = (w', r)"
  | (object) u key where "urlsplit (e_ip6 E) ref = Inr u" "u_scheme u = ''s3''" "u_netloc u = as_bucket A"
      "key = unquote (e_other E) (dropWhile (\<lambda>c. c = CHR ''/'') (u_path u))" "safe_key key"
      "bindS (download_s3 E A key) (\<lambda>_. finallyS (read_source E A (e_temp E)) (remove_temp E (e_temp E))) w = (w', r)"
proof (cases "urlsplit (e_ip6 E) ref")
  case (Inl e)
  then show ?thesis using assms refused by (auto simp: get_json_def bindS_def liftS_def)
next
  case (Inr u)
  show ?thesis
  proof (cases "u_scheme u = ''s3''")
    case True
    then show ?thesis using assms Inr refused object
      by (auto simp: get_json_def bindS_liftS Let_def failS_def split: if_splits)
  next
    case False
    then show ?thesis using assms Inr refused local
      by (auto simp: get_json_def bindS_liftS Let_def failS_def split: if_splits)
  qed
qed

lemma get_json_keeps:
  assumes "env_ok E A" "s3_laws (e_s3 E) (e_size E) view" "artifact_key i st = Inr key" "get_json E A ref w = (w', r)"
  shows "held E A view key w' = held E A view key w"
  using assms(4)
proof (cases rule: get_json_cases)
  case (local u)
  then show ?thesis using read_source_world by blast
next
  case (object u k)
  note f = artifact_file_path(2)[OF assms(1,3)]
  have d: "held E A view key w1 = held E A view key w" if "download_s3 E A k w = (w1, q)" for w1 q
    using download_effect(1,2)[OF assms(2) that] f by (simp add: held_def)
  from object(6) show ?thesis
  proof (cases rule: bindS_cases)
    case (raised e)
    then show ?thesis by (auto dest: d)
  next
    case (bound w1 x)
    from bound(2) obtain w2 r1 r2 where "read_source E A (e_temp E) w1 = (w2, r1)" "remove_temp E (e_temp E) w2 = (w', r2)"
      by (rule finallyS_cases)
    then show ?thesis using d[OF bound(1)] read_source_world temp_only_held[OF temp_only_remove _ assms(1,3)] by metis
  qed
qed simp

lemma delete_effect:
  assumes "env_ok E A" "s3_laws (e_s3 E) (e_size E) view" "artifact_key i' st' = Inr key'" "delete_artifact E A i st w = (w', r)"
  shows "held E A view key' w' = held E A view key' w \<or> artifact_key i st = Inr key'"
proof (cases "artifact_key i st")
  case (Inl e)
  then show ?thesis using assms(4) by (auto simp: delete_artifact_def bindS_liftS)
next
  case (Inr key)
  show ?thesis
  proof (cases "as_backend A = ''s3''")
    case True
    then obtain s' where "s3_delete (e_s3 E) (as_bucket A) key (aw_s3 w) = (s', r)" "w' = w\<lparr>aw_s3 := s'\<rparr>"
      using assms(4) Inr by (auto simp: delete_artifact_def bindS_liftS on_s3_def split: prod.splits)
    then show ?thesis using s3_lawsD(4)[OF assms(2)] True Inr by (fastforce simp: held_def)
  next
    case False
    then have "w' = w \<or> w' = w\<lparr>aw_files := (aw_files w)(artifact_file E A key := None)\<rparr>"
      using assms(4) Inr by (auto simp: delete_artifact_def liftS_def bindS_def os_step_def set_file_def retS_def failS_def artifact_file_def split: option.splits)
    then show ?thesis using artifact_file_inj[OF assms(1) Inr assms(3)] False Inr by (auto simp: held_def)
  qed
qed

section \<open>References\<close>

text \<open>A bucket name that can be written into a reference.\<close>

definition bucket_ok :: "'s art_env \<Rightarrow> artifact_store \<Rightarrow> bool" where
  "bucket_ok E A = ((\<forall>c \<in> set (as_bucket A). net_char c \<and> c \<notin> {CHR 0x09, CHR 0x0A, CHR 0x0D}) \<and> brackets_ok (e_ip6 E) (as_bucket A))"

lemma quoted_path:
  assumes "c \<in> set (quote ''/'' s)"
  shows "c \<notin> {CHR 0x09, CHR 0x0A, CHR 0x0D, CHR ''?'', CHR ''#''}"
  using quote_chars[OF assms] by (auto simp: always_safe_def is_ascii_letter_def is_ascii_digit_def code_def)

lemma unquote_quote_slash: "unquote other (quote ''/'' s) = s"
  by (rule unquote_quote) (simp_all add: ascii_def code_def)

lemma quote_slash: "quote ''/'' (CHR ''/'' # s) = CHR ''/'' # quote ''/'' s"
  by (simp add: quote_def utf8_def utf8_char_def ascii_def code_def quote_byte_def)

lemma split_s3:
  assumes "bucket_ok E A"
  shows "urlsplit (e_ip6 E) (''s3://'' @ as_bucket A @ ''/'' @ quote ''/'' key) =
    Inr \<lparr>u_scheme = ''s3'', u_netloc = as_bucket A, u_path = CHR ''/'' # quote ''/'' key, u_query = [], u_fragment = []\<rparr>"
proof -
  have "urlsplit (e_ip6 E) (urlunsplit ''s3'' (as_bucket A) (CHR ''/'' # quote ''/'' key)) =
    Inr \<lparr>u_scheme = ''s3'', u_netloc = as_bucket A, u_path = CHR ''/'' # quote ''/'' key, u_query = [], u_fragment = []\<rparr>"
    using assms quoted_path[of _ key] unfolding bucket_ok_def
    by (intro urlsplit_written) (auto simp: scheme_char_def is_ascii_letter_def is_ascii_digit_def code_def lower_def lower_char_def)
  then show ?thesis by (simp add: urlunsplit_def)
qed

lemma split_file:
  "urlsplit ip6 (''file://'' @ quote ''/'' (path_text f)) =
    Inr \<lparr>u_scheme = ''file'', u_netloc = [], u_path = quote ''/'' (path_text f), u_query = [], u_fragment = []\<rparr>"
proof -
  have p: "quote ''/'' (path_text f) = CHR ''/'' # quote ''/'' (join_with ''/'' f)" by (simp add: path_text_def quote_slash)
  have "urlsplit ip6 (urlunsplit ''file'' [] (CHR ''/'' # quote ''/'' (join_with ''/'' f))) =
    Inr \<lparr>u_scheme = ''file'', u_netloc = [], u_path = CHR ''/'' # quote ''/'' (join_with ''/'' f), u_query = [], u_fragment = []\<rparr>"
    using quoted_path[of _ "join_with ''/'' f"]
    by (intro urlsplit_written) (auto simp: scheme_char_def is_ascii_letter_def is_ascii_digit_def code_def lower_def lower_char_def brackets_ok_def)
  then show ?thesis unfolding p by (simp add: urlunsplit_def)
qed

lemma text_path_text:
  assumes "\<forall>c \<in> set f. component_ok c" "f \<noteq> []"
  shows "text_path (path_text f) = f"
proof -
  have "split_on CHR ''/'' (join_with ''/'' f) = f" using assms by (intro split_join) (auto simp: component_ok_def)
  moreover have "filter (\<lambda>c. c \<noteq> [] \<and> c \<noteq> ''.'') f = f" using assms(1) by (intro filter_True) (auto simp: component_ok_def)
  ultimately show ?thesis by (simp add: text_path_def path_text_def)
qed

lemma key_safe:
  assumes "artifact_key identity stage = Inr key"
  shows "safe_key key" "dropWhile (\<lambda>c. c = CHR ''/'') (CHR ''/'' # quote ''/'' key) = quote ''/'' key"
proof -
  show "safe_key key" using key_components(2,3)[OF assms] by (auto simp: safe_key_def component_ok_def)
  obtain k where k: "key = CHR ''t'' # k" using key_components(3)[OF assms] by (cases key) (auto simp: starts_with_def)
  have "quote ''/'' key = CHR ''t'' # quote ''/'' k"
    unfolding k by (simp add: quote_def utf8_def utf8_char_def ascii_def code_def quote_byte_def always_safe_def is_ascii_letter_def)
  then show "dropWhile (\<lambda>c. c = CHR ''/'') (CHR ''/'' # quote ''/'' key) = quote ''/'' key" by simp
qed

section \<open>The guarantees of the store\<close>

lemma get_written:
  assumes "env_ok E A" "s3_laws (e_s3 E) (e_size E) view" "bucket_ok E A" "artifact_key i st = Inr key" "reference E A i st = Inr ref"
    and "held E A view key w = Some (Gzip (json_dumps False (e_repr E) x))" "fits E A (json_dumps False (e_repr E) x)"
    and "plain_json x" "json_nesting x \<le> e_depth E" "get_json E A ref w = (w', r)"
  shows "r = Inr x \<or> (\<exists>e. r = Inl e \<and> (os_failure E e \<or> s3_failure E e))"
proof (cases "as_backend A = ''s3''")
  case False
  let ?f = "artifact_file E A key"
  have f: "e_resolve E ?f = ?f" "\<forall>c \<in> set ?f. component_ok c" "prefix (e_resolve E (artifacts_root A)) ?f"
    using artifact_file_path[OF assms(1,4)] by auto
  have ne: "?f \<noteq> []" using artifact_file_path(1)[OF assms(1,4)] split_on_nonempty by simp
  have "ref = ''file://'' @ quote ''/'' (path_text ?f)" using assms(4,5) False by (simp add: reference_def artifact_file_def)
  then have u: "urlsplit (e_ip6 E) ref =
      Inr \<lparr>u_scheme = ''file'', u_netloc = [], u_path = quote ''/'' (path_text ?f), u_query = [], u_fragment = []\<rparr>"
    by (simp only: split_file)
  then have rs: "read_source E A ?f w = (w', r)"
    using assms(10) f text_path_text[OF f(2) ne] by (simp add: get_json_def bindS_liftS unquote_quote_slash)
  have "aw_files w ?f = Some (Gzip (json_dumps False (e_repr E) x))" using assms(6) False by (simp add: held_def)
  from read_written[OF this assms(7-9) rs] show ?thesis by blast
next
  case True
  let ?T = "json_dumps False (e_repr E) x"
  have "ref = ''s3://'' @ as_bucket A @ ''/'' @ quote ''/'' key" using assms(4,5) True by (simp add: reference_def)
  then have u: "urlsplit (e_ip6 E) ref =
      Inr \<lparr>u_scheme = ''s3'', u_netloc = as_bucket A, u_path = CHR ''/'' # quote ''/'' key, u_query = [], u_fragment = []\<rparr>"
    by (simp only: split_s3[OF assms(3)])
  have g: "bindS (download_s3 E A key) (\<lambda>_. finallyS (read_source E A (e_temp E)) (remove_temp E (e_temp E))) w = (w', r)"
    using assms(10) key_safe[OF assms(4)] by (simp add: get_json_def bindS_liftS unquote_quote_slash u del: dropWhile.simps)
  have o: "view (aw_s3 w) (as_bucket A, key) = Some (Gzip ?T)" using assms(6) True by (simp add: held_def)
  from g show ?thesis
  proof (cases rule: bindS_cases)
    case (raised e)
    then show ?thesis using download_effect(4)[OF assms(2) raised(1) refl] o assms(7) by (auto simp: fits_def)
  next
    case (bound w1 u)
    have t: "aw_files w1 (e_temp E) = Some (Gzip ?T)" using download_effect(3)[OF assms(2) bound(1)] o by simp
    from bound(2) obtain w2 r1 r2 where s: "read_source E A (e_temp E) w1 = (w2, r1)" "remove_temp E (e_temp E) w2 = (w', r2)"
        "r = (case r2 of Inl e \<Rightarrow> Inl e | Inr _ \<Rightarrow> r1)" by (rule finallyS_cases)
    have "os_failure E e" if "r2 = Inl e" for e
      using s(2) that by (auto simp: remove_temp_def os_step_def set_file_def bindS_def retS_def failS_def os_failure_def split: if_splits option.splits)
    then show ?thesis using read_written[OF t assms(7-9) s(1)] s(3) by (cases r2) auto
  qed
qed

text \<open>Operations of other activities, before the artifact is read.\<close>

datatype artifact_op =
    PutArtifact identity string pyval
  | GetArtifact string
  | DeleteArtifact identity string

fun run_artifact_op :: "'s art_env \<Rightarrow> artifact_store \<Rightarrow> artifact_op \<Rightarrow> 's art_world \<Rightarrow> 's art_world" where
  "run_artifact_op E A (PutArtifact i st x) w = fst (put_json E A i st x w)"
| "run_artifact_op E A (GetArtifact ref) w = fst (get_json E A ref w)"
| "run_artifact_op E A (DeleteArtifact i st) w = fst (delete_artifact E A i st w)"

fun elsewhere :: "string \<Rightarrow> artifact_op \<Rightarrow> bool" where
  "elsewhere key (PutArtifact i st x) = (plain_json x \<and> artifact_key i st \<noteq> Inr key)"
| "elsewhere key (GetArtifact ref) = True"
| "elsewhere key (DeleteArtifact i st) = (artifact_key i st \<noteq> Inr key)"

lemma elsewhere_keeps:
  assumes "env_ok E A" "s3_laws (e_s3 E) (e_size E) view" "artifact_key i st = Inr key" "elsewhere key op"
  shows "held E A view key (run_artifact_op E A op w) = held E A view key w"
proof (cases op)
  case (PutArtifact i' st' x)
  then show ?thesis using put_json_effect(1)[OF assms(1-3) _ prod.collapse[symmetric]] assms(4) by fastforce
next
  case (GetArtifact ref)
  then show ?thesis using get_json_keeps[OF assms(1-3) prod.collapse[symmetric]] by simp
next
  case (DeleteArtifact i' st')
  then show ?thesis using delete_effect[OF assms(1-3) prod.collapse[symmetric]] assms(4) by fastforce
qed

lemma elsewhere_all:
  assumes "env_ok E A" "s3_laws (e_s3 E) (e_size E) view" "artifact_key i st = Inr key" "list_all (elsewhere key) ops"
  shows "held E A view key (fold (run_artifact_op E A) ops w) = held E A view key w"
  using assms(4) elsewhere_keeps[OF assms(1-3)] by (induction ops arbitrary: w) auto

text \<open>C10 (roundtrip): an artifact is read back as it was written, from the local store and from S3, whatever other artifacts,
  also of other tenants and of the other stage of the same document, are written, read and deleted in between, and whatever of
  that fails. The read fails only where the operating system or the object store does.\<close>

theorem artifact_roundtrip:
  assumes "env_ok E A" "s3_laws (e_s3 E) (e_size E) view" "bucket_ok E A" "plain_json x" "json_nesting x \<le> e_depth E"
    and "put_json E A i st x w = (w1, Inr ref)" "artifact_key i st = Inr key" "list_all (elsewhere key) ops"
    and "get_json E A ref (fold (run_artifact_op E A) ops w1) = (w2, r)"
  shows "r = Inr x \<or> (\<exists>e. r = Inl e \<and> (os_failure E e \<or> s3_failure E e))"
proof -
  have "held E A view key w1 = Some (Gzip (json_dumps False (e_repr E) x)) \<and> fits E A (json_dumps False (e_repr E) x) \<and> reference E A i st = Inr ref"
    using put_json_effect(2)[OF assms(1,2,7,4,6) refl] assms(7) by auto
  then show ?thesis using get_written[OF assms(1-3,7) _ _ _ assms(4,5,9)] elsewhere_all[OF assms(1,2,7,8)] by simp
qed

text \<open>(safety): writing an artifact is atomic and confined. Whatever fails, each stored artifact afterwards holds what it held
  before, or it is the one that was written and holds the complete new text within both limits. The temporary file is
  gone unless it cannot be removed.\<close>

lemma artifact_atomic:
  assumes "env_ok E A" "s3_laws (e_s3 E) (e_size E) view" "artifact_key i' st' = Inr key'" "plain_json x"
    and "put_json E A i st x w = (w', r)"
  shows "(held E A view key' w' = held E A view key' w \<or>
      (map_of i' ''tenant_id'' = map_of i ''tenant_id'' \<and> map_of i' ''document_id'' = map_of i ''document_id'' \<and>
       map_of i' ''version_id'' = map_of i ''version_id'' \<and> st' = st \<and>
       held E A view key' w' = Some (Gzip (json_dumps False (e_repr E) x)) \<and> fits E A (json_dumps False (e_repr E) x))) \<and>
    (e_fault E RemoveTemp = None \<and> aw_files w (e_temp E) = None \<longrightarrow> aw_files w' (e_temp E) = None)"
proof -
  have "artifact_key i st = Inr key' \<Longrightarrow> st' = st \<and> map_of i' ''tenant_id'' = map_of i ''tenant_id'' \<and>
      map_of i' ''document_id'' = map_of i ''document_id'' \<and> map_of i' ''version_id'' = map_of i ''version_id''"
    by (rule artifact_key_inj[OF _ assms(3)])
  then show ?thesis using put_json_effect(1,3)[OF assms(1-5)] by blast
qed

text \<open>(bounds): whatever reference an activity is given, what is read comes from a file below the directory of the artifacts or
  from an object of the configured bucket below \<open>tenants/\<close>, without a parent component, and it is a compressed text that fits
  both limits.\<close>

lemma artifact_contained:
  assumes "s3_laws (e_s3 E) (e_size E) view" "get_json E A ref w = (w', Inr v)"
  shows "\<exists>t. ((\<exists>p. prefix (e_resolve E (artifacts_root A)) p \<and> aw_files w p = Some (Gzip t)) \<or>
      (\<exists>key. safe_key key \<and> view (aw_s3 w) (as_bucket A, key) = Some (Gzip t))) \<and>
    e_size E (Gzip t) \<le> as_max A \<and> int (utf8_len (universal_newlines t)) \<le> as_max A \<and>
    json_loads (e_float E) (e_depth E) (universal_newlines t) = JValue v"
  using assms(2)
proof (cases rule: get_json_cases)
  case (local u)
  then show ?thesis using read_source_bounded[OF local(4)] by blast
next
  case (object u key)
  from object(6) show ?thesis
  proof (cases rule: bindS_cases)
    case (bound w1 x)
    from bound(2) obtain w2 r1 r2 where s: "read_source E A (e_temp E) w1 = (w2, r1)" "remove_temp E (e_temp E) w2 = (w', r2)"
        "Inr v = (case r2 of Inl e \<Rightarrow> Inl e | Inr _ \<Rightarrow> r1)"
      by (rule finallyS_cases)
    from s(3) have "r1 = Inr v" by (cases r2) auto
    then show ?thesis using read_source_bounded s(1) download_effect(3)[OF assms(1) bound(1)] object(5) by force
  qed simp
qed simp

section \<open>A store at work\<close>

text \<open>A directory without links, and an object store that cannot be written.\<close>

definition fixed_s3 :: "unit s3_lib" where
  "fixed_s3 = \<lparr>s3_upload = \<lambda>b k c. failS RuntimeError, s3_head = \<lambda>b k. retS 10,
     s3_download = \<lambda>b k. retS Broken, s3_delete = \<lambda>b k. failS RuntimeError\<rparr>"

definition example_env :: "unit art_env" where
  "example_env = \<lparr>e_fault = \<lambda>k. None, e_resolve = \<lambda>p. p, e_temp = [''tmp''], e_size = \<lambda>c. 10, e_cut = \<lambda>t. [t],
     e_repr = \<lambda>f. [], e_float = \<lambda>s. NaN, e_depth = 5, e_ip6 = \<lambda>s. False, e_other = \<lambda>b. [], e_s3 = fixed_s3\<rparr>"

definition example_store :: artifact_store where
  "example_store = \<lparr>as_backend = ''local'', as_bucket = [], as_region = [], as_dir = [''d''], as_max = 100\<rparr>"

definition example_identity :: "string \<Rightarrow> identity" where
  "example_identity t = [(''tenant_id'', t), (''document_id'', ''x''), (''version_id'', ''v'')]"

definition example_page :: pyval where
  "example_page = PList [PDict [(''text'', PStr ''hi'')]]"

lemma example_env_ok: "env_ok example_env example_store" "s3_laws (e_s3 example_env) (e_size example_env) (\<lambda>s k. Some Broken)"
    "bucket_ok example_env example_store" "plain_json example_page" "json_nesting example_page \<le> e_depth example_env"
  by (simp_all add: env_ok_def example_env_def example_store_def artifacts_root_def component_ok_def artifact_path_def s3_laws_def
      fixed_s3_def bucket_ok_def brackets_ok_def example_page_def)

lemma example_key: "artifact_key (example_identity ''t'') ''pages'' = Inr (join_with ''/'' (artifact_path ''t'' ''x'' ''v'' ''pages''))"
  by (simp add: artifact_key_def example_identity_def ARTIFACT_STAGES_def part_ok_def)

lemma example_put:
  obtains w1 ref where "put_json example_env example_store (example_identity ''t'') ''pages'' example_page \<lparr>aw_files = \<lambda>p. None, aw_s3 = ()\<rparr> = (w1, Inr ref)"
proof -
  have n: "utf8_len (json_dumps False (\<lambda>f. []) example_page) \<le> 100"
    by (simp add: example_page_def join_comma_def json_string_def json_char_def utf8_len_def code_def Let_def)
  have "\<exists>w1 ref. put_json example_env example_store (example_identity ''t'') ''pages'' example_page \<lparr>aw_files = \<lambda>p. None, aw_s3 = ()\<rparr> = (w1, Inr ref)"
    using n by (simp add: put_json_def bindS_liftS example_key bindS_def os_step_def example_env_def retS_def set_file_def finallyS_def
        write_temp_def publish_temp_def liftS_def reference_def remove_temp_def example_store_def Let_def)
  then show ?thesis using that by blast
qed

theorem artifact_roundtrip_witness:
  "\<exists>w1 ref. put_json example_env example_store (example_identity ''t'') ''pages'' example_page \<lparr>aw_files = \<lambda>p. None, aw_s3 = ()\<rparr> = (w1, Inr ref) \<and>
     snd (get_json example_env example_store ref
       (fold (run_artifact_op example_env example_store) [PutArtifact (example_identity ''u'') ''pages'' PNone, DeleteArtifact (example_identity ''t'') ''chunks''] w1)) =
     Inr example_page"
proof -
  obtain w1 ref where p: "put_json example_env example_store (example_identity ''t'') ''pages'' example_page \<lparr>aw_files = \<lambda>p. None, aw_s3 = ()\<rparr> = (w1, Inr ref)"
    by (rule example_put)
  let ?ops = "[PutArtifact (example_identity ''u'') ''pages'' PNone, DeleteArtifact (example_identity ''t'') ''chunks'']"
  have e: "list_all (elsewhere (join_with ''/'' (artifact_path ''t'' ''x'' ''v'' ''pages''))) ?ops"
    by (simp add: artifact_key_def example_identity_def ARTIFACT_STAGES_def part_ok_def artifact_path_def)
  have no: "\<not> os_failure example_env e" "\<not> s3_failure example_env e" for e
    by (simp_all add: os_failure_def s3_failure_def example_env_def fixed_s3_def)
  obtain w2 r where g: "get_json example_env example_store ref (fold (run_artifact_op example_env example_store) ?ops w1) = (w2, r)" by (rule prod.exhaust)
  have "r = Inr example_page" using artifact_roundtrip[OF example_env_ok p example_key e g] no by blast
  then show ?thesis using p g by (intro exI[of _ w1] exI[of _ ref]) simp
qed

lemma artifact_atomic_witness:
  "aw_files (fst (put_json example_env example_store (example_identity ''t'') ''pages'' example_page \<lparr>aw_files = \<lambda>p. None, aw_s3 = ()\<rparr>)) [''tmp''] = None"
proof -
  have "e_fault example_env RemoveTemp = None" "e_temp example_env = [''tmp'']" by (simp_all add: example_env_def)
  with artifact_atomic[OF example_env_ok(1,2) example_key example_env_ok(4) prod.collapse[symmetric],
      of "example_identity ''t''" "''pages''" "\<lparr>aw_files = \<lambda>p. None, aw_s3 = ()\<rparr>"] show ?thesis by simp
qed

lemma artifact_contained_witness:
  "\<exists>ref w1 t. snd (get_json example_env example_store ref w1) = Inr example_page \<and> int (utf8_len (universal_newlines t)) \<le> 100 \<and>
     json_loads (e_float example_env) (e_depth example_env) (universal_newlines t) = JValue example_page"
proof -
  obtain w1 ref where p: "put_json example_env example_store (example_identity ''t'') ''pages'' example_page \<lparr>aw_files = \<lambda>p. None, aw_s3 = ()\<rparr> = (w1, Inr ref)"
    by (rule example_put)
  have no: "\<not> os_failure example_env e" "\<not> s3_failure example_env e" for e
    by (simp_all add: os_failure_def s3_failure_def example_env_def fixed_s3_def)
  obtain w2 r where g: "get_json example_env example_store ref w1 = (w2, r)" by (rule prod.exhaust)
  note eff = put_json_effect(2)[OF example_env_ok(1,2) example_key example_env_ok(4) p refl]
  have r: "r = Inr example_page"
    using eff get_written[OF example_env_ok(1-3) example_key _ _ _ example_env_ok(4,5) g] example_key no by auto
  with g have v: "get_json example_env example_store ref w1 = (w2, Inr example_page)" by simp
  have m: "as_max example_store = 100" by (simp add: example_store_def)
  obtain t where "int (utf8_len (universal_newlines t)) \<le> 100"
      "json_loads (e_float example_env) (e_depth example_env) (universal_newlines t) = JValue example_page"
    using artifact_contained[OF example_env_ok(2) v] unfolding m by blast
  then show ?thesis using v by (intro exI[of _ ref] exI[of _ w1] exI[of _ t]) simp
qed

end
