(* ===== verification/Upload.thy ===== *)
theory Upload
  imports Percent State_Res "HOL-Library.Sublist"
begin

text \<open>
  Document upload (\<open>services/ingestion/upload.py\<close>): checking the file name, streaming to local disk or to S3 with a size
  limit, cleaning up, and starting the ingestion workflow. What the client sends, the operating system, the object store and the
  workflow service answer, when the request is cancelled, and the identifiers drawn are arguments. Paths are those of POSIX.
\<close>

section \<open>File names and references\<close>

definition ALLOWED_UPLOAD_EXTENSIONS :: "string list" where
  "ALLOWED_UPLOAD_EXTENSIONS = [''.pdf'', ''.docx'', ''.txt'', ''.png'', ''.jpg'', ''.jpeg'', ''.tiff'']"

definition basename :: "string \<Rightarrow> string" where
  "basename s = after_final CHR ''/'' s"

text \<open>\<open>os.path.splitext(s)[1]\<close> of a name without slashes: leading dots begin no extension.\<close>

definition extension :: "string \<Rightarrow> string" where
  "extension s = (if CHR ''.'' \<in> set s \<and> \<not> list_all (\<lambda>c. c = CHR ''.'') (before_final CHR ''.'' s)
     then CHR ''.'' # after_final CHR ''.'' s else [])"

definition allowed_name :: "string \<Rightarrow> bool" where
  "allowed_name s = (s \<noteq> [] \<and> lower (extension s) \<in> set ALLOWED_UPLOAD_EXTENSIONS)"

definition parse_s3_ref :: "(string \<Rightarrow> bool) \<Rightarrow> (bytes \<Rightarrow> string) \<Rightarrow> string \<Rightarrow> string option \<Rightarrow> (string \<times> string) res" where
  "parse_s3_ref ip6 other ref fallback = bindR (urlsplit ip6 ref) (\<lambda>u.
     let bucket = (if u_scheme u = ''s3'' then u_netloc u else case fallback of None \<Rightarrow> [] | Some b \<Rightarrow> b);
         key = (if u_scheme u = ''s3'' then unquote other (dropWhile (\<lambda>c. c = CHR ''/'') (u_path u)) else ref) in
     if bucket = [] \<or> key = [] \<or> ''..'' \<in> set (split_on CHR ''/'' key) then Inl ValueError else Inr (bucket, key))"

section \<open>The world of an upload\<close>

text \<open>The next chunk: its bytes, or what reading it or writing it to disk raises.\<close>

datatype chunk_event = Bytes bytes | Fails exn

record upload_source =
  us_filename :: "string option"
  us_chunks :: "chunk_event list"

record workflow_start =
  ws_ref :: string
  ws_filename :: string
  ws_tenant :: string
  ws_document :: string
  ws_sha :: string
  ws_attempt :: string
  ws_version :: string
  ws_id :: string

record up_world =
  uw_files :: "string \<rightharpoonup> bytes"
  uw_objects :: "string \<times> string \<rightharpoonup> bytes"
  uw_running :: "((string \<times> string) \<times> bytes) list"
  uw_spools :: nat
  uw_calls :: nat
  uw_started :: "workflow_start list"

text \<open>Whether the request is cancelled while the upload to S3 runs, and once more while that is waited for.\<close>

datatype cancellation = Uncancelled | CancelledOnce | CancelledTwice

datatype storage_kind = LocalUploadStorage string | S3UploadStorage string

text \<open>A request to a service takes effect when it is answered, and may or may not when it fails.\<close>

record up_env =
  ue_open :: "exn option"
  ue_remove :: "exn option"
  ue_spool :: "exn option"
  ue_s3 :: "nat \<Rightarrow> bool \<times> exn option"
  ue_start :: "bool \<times> exn option"
  ue_cancel :: cancellation
  ue_sha256 :: "bytes \<Rightarrow> string"
  ue_uuid5 :: "string \<Rightarrow> string"
  ue_ip6 :: "string \<Rightarrow> bool"
  ue_decode :: "bytes \<Rightarrow> string"

definition raise_if :: "exn option \<Rightarrow> (up_world, unit) st" where
  "raise_if e = (case e of None \<Rightarrow> retS () | Some x \<Rightarrow> failS x)"

definition s3_request :: "up_env \<Rightarrow> (up_world \<Rightarrow> up_world) \<Rightarrow> (up_world, unit) st" where
  "s3_request E f = (\<lambda>w. case ue_s3 E (uw_calls w) of (effect, e) \<Rightarrow>
     (let w1 = w\<lparr>uw_calls := Suc (uw_calls w)\<rparr> in
      (if effect \<or> e = None then f w1 else w1, case e of None \<Rightarrow> Inr () | Some x \<Rightarrow> Inl x)))"

definition upload_object :: "up_env \<Rightarrow> string \<Rightarrow> string \<Rightarrow> bytes \<Rightarrow> (up_world, unit) st" where
  "upload_object E bucket key content = s3_request E (\<lambda>w. w\<lparr>uw_objects := (uw_objects w)((bucket, key) \<mapsto> content)\<rparr>)"

definition delete_object :: "up_env \<Rightarrow> string \<Rightarrow> string \<Rightarrow> (up_world, unit) st" where
  "delete_object E bucket key = s3_request E (\<lambda>w. w\<lparr>uw_objects := (uw_objects w)((bucket, key) := None)\<rparr>)"

section \<open>Storing\<close>

record stored_upload =
  su_ref :: string
  su_size :: nat
  su_sha256 :: string

text \<open>Streaming: what was written, and the end. An empty chunk ends the stream.\<close>

fun transfer :: "int \<Rightarrow> bytes \<Rightarrow> chunk_event list \<Rightarrow> bytes \<times> unit res" where
  "transfer limit written [] = (written, Inr ())"
| "transfer limit written (Fails e # cs) = (written, Inl e)"
| "transfer limit written (Bytes c # cs) =
     (if c = [] then (written, Inr ())
      else if int (length (written @ c)) > limit then (written, Inl (UploadFailure 400))
      else transfer limit (written @ c) cs)"

definition local_destination :: "string \<Rightarrow> string \<Rightarrow> string \<Rightarrow> string \<Rightarrow> string \<Rightarrow> string" where
  "local_destination dir tenant document version filename = dir @ ''/'' @ document @ ''_'' @ version @ ''_'' @ filename"

definition local_save :: "up_env \<Rightarrow> string \<Rightarrow> upload_source \<Rightarrow> int \<Rightarrow> (up_world, stored_upload) st" where
  "local_save E d src limit = bindS (raise_if (ue_open E)) (\<lambda>_. (\<lambda>w.
     case transfer limit [] (us_chunks src) of (content, r) \<Rightarrow>
       (w\<lparr>uw_files := (uw_files w)(d \<mapsto> content)\<rparr>,
        bindR r (\<lambda>_. Inr \<lparr>su_ref = d, su_size = length content, su_sha256 = ue_sha256 E content\<rparr>))))"

definition local_delete :: "up_env \<Rightarrow> string \<Rightarrow> (up_world, unit) st" where
  "local_delete E d = (\<lambda>w. if uw_files w d = None then (w, Inr ())
     else bindS (raise_if (ue_remove E)) (\<lambda>_ w. (w\<lparr>uw_files := (uw_files w)(d := None)\<rparr>, Inr ())) w)"

definition s3_destination :: "string \<Rightarrow> string \<Rightarrow> string \<Rightarrow> string \<Rightarrow> string" where
  "s3_destination tenant document version filename =
     ''tenants/'' @ tenant @ ''/documents/'' @ document @ ''/versions/'' @ version @ ''/'' @ filename"

definition s3_ref :: "string \<Rightarrow> string \<Rightarrow> string" where
  "s3_ref bucket key = ''s3://'' @ bucket @ ''/'' @ quote ''/'' key"

text \<open>The thread of the upload runs on when the request is cancelled. Cancelled once, the request waits for it and removes the
  object; cancelled again it leaves at once, and the thread ends later, with \<open>land_upload\<close>.\<close>

definition run_upload :: "up_env \<Rightarrow> string \<Rightarrow> string \<Rightarrow> bytes \<Rightarrow> (up_world, unit) st" where
  "run_upload E bucket d content = (case ue_cancel E of
       Uncancelled \<Rightarrow> upload_object E bucket d content
     | CancelledOnce \<Rightarrow>
         (\<lambda>w. (fst (bindS (upload_object E bucket d content) (\<lambda>_. delete_object E bucket d) w), Inl CancelledError))
     | CancelledTwice \<Rightarrow> (\<lambda>w. (w\<lparr>uw_running := uw_running w @ [((bucket, d), content)]\<rparr>, Inl CancelledError)))"

definition land_upload :: "up_world \<Rightarrow> up_world" where
  "land_upload w = (case uw_running w of [] \<Rightarrow> w
     | (k, content) # rest \<Rightarrow> w\<lparr>uw_objects := (uw_objects w)(k \<mapsto> content), uw_running := rest\<rparr>)"

text \<open>The spool file is removed in the end; \<open>NamedTemporaryFile\<close> itself may fail.\<close>

definition s3_save :: "up_env \<Rightarrow> string \<Rightarrow> string \<Rightarrow> upload_source \<Rightarrow> int \<Rightarrow> (up_world, stored_upload) st" where
  "s3_save E bucket d src limit = bindS (raise_if (ue_spool E)) (\<lambda>_. (\<lambda>w.
     case transfer limit [] (us_chunks src) of (content, r) \<Rightarrow>
       (case bindS (liftS r) (\<lambda>_. run_upload E bucket d content) (w\<lparr>uw_spools := Suc (uw_spools w)\<rparr>) of
          (w', q) \<Rightarrow> (case ue_remove E of
              Some e \<Rightarrow> (w', Inl e)
            | None \<Rightarrow> (w'\<lparr>uw_spools := uw_spools w' - 1\<rparr>,
                bindR q (\<lambda>_. Inr \<lparr>su_ref = s3_ref bucket d, su_size = length content, su_sha256 = ue_sha256 E content\<rparr>))))))"

definition s3_delete_ref :: "up_env \<Rightarrow> string \<Rightarrow> string \<Rightarrow> (up_world, unit) st" where
  "s3_delete_ref E bucket ref = bindS (liftS (parse_s3_ref (ue_ip6 E) (ue_decode E) ref (Some bucket))) (\<lambda>(b, k). delete_object E b k)"

section \<open>The use case\<close>

record upload_storage =
  st_destination :: "string \<Rightarrow> string \<Rightarrow> string \<Rightarrow> string \<Rightarrow> string"
  st_save :: "string \<Rightarrow> upload_source \<Rightarrow> int \<Rightarrow> (up_world, stored_upload) st"
  st_delete :: "string \<Rightarrow> (up_world, unit) st"

fun storage :: "up_env \<Rightarrow> storage_kind \<Rightarrow> upload_storage" where
  "storage E (LocalUploadStorage dir) =
     \<lparr>st_destination = local_destination dir, st_save = local_save E, st_delete = local_delete E\<rparr>"
| "storage E (S3UploadStorage bucket) =
     \<lparr>st_destination = s3_destination, st_save = s3_save E bucket, st_delete = s3_delete_ref E bucket\<rparr>"

record upload_response =
  ur_doc_id :: string
  ur_workflow_id :: string
  ur_status :: string

definition document_id :: "up_env \<Rightarrow> string \<Rightarrow> string \<Rightarrow> string" where
  "document_id E tenant filename = ue_uuid5 E (''ally-document:'' @ tenant @ '':'' @ filename)"

definition upload_error :: "exn \<Rightarrow> exn" where
  "upload_error e = (case e of CancelledError \<Rightarrow> CancelledError | UploadFailure n \<Rightarrow> UploadFailure n | _ \<Rightarrow> UploadFailure 400)"

definition save_upload :: "upload_storage \<Rightarrow> string \<Rightarrow> upload_source \<Rightarrow> int \<Rightarrow> (up_world, stored_upload) st" where
  "save_upload S d src limit = (\<lambda>w. case st_save S d src limit w of
       (w', Inr x) \<Rightarrow> (w', Inr x)
     | (w', Inl e) \<Rightarrow> bindS (st_delete S d) (\<lambda>_. failS (upload_error e)) w')"

definition start_workflow :: "up_env \<Rightarrow> workflow_start \<Rightarrow> (up_world, unit) st" where
  "start_workflow E a = (\<lambda>w. case ue_start E of (effect, e) \<Rightarrow>
     (if effect \<or> e = None then w\<lparr>uw_started := uw_started w @ [a]\<rparr> else w,
      case e of None \<Rightarrow> Inr () | Some x \<Rightarrow> Inl (if x = CancelledError then x else UploadFailure 503)))"

definition ingest_request :: "up_env \<Rightarrow> string \<Rightarrow> string \<Rightarrow> string \<Rightarrow> string \<Rightarrow> stored_upload \<Rightarrow> workflow_start" where
  "ingest_request E attempt version tenant filename stored = (let doc = document_id E tenant filename in
     \<lparr>ws_ref = su_ref stored, ws_filename = filename, ws_tenant = tenant, ws_document = doc, ws_sha = su_sha256 stored,
      ws_attempt = attempt, ws_version = version, ws_id = ''ingest-'' @ doc @ ''-'' @ version\<rparr>)"

definition upload_execute ::
  "up_env \<Rightarrow> upload_storage \<Rightarrow> bool \<Rightarrow> int \<Rightarrow> string \<Rightarrow> string \<Rightarrow> upload_source \<Rightarrow> string \<Rightarrow> (up_world, upload_response) st" where
  "upload_execute E S online limit attempt version src tenant =
     (let filename = basename (case us_filename src of None \<Rightarrow> [] | Some f \<Rightarrow> f) in
      if \<not> online then failS (UploadFailure 503)
      else if \<not> allowed_name filename then failS (UploadFailure 400)
      else (let doc = document_id E tenant filename in
        bindS (save_upload S (st_destination S tenant doc version filename) src limit) (\<lambda>stored.
        bindS (start_workflow E (ingest_request E attempt version tenant filename stored)) (\<lambda>_.
          retS \<lparr>ur_doc_id = doc, ur_workflow_id = ''ingest-'' @ doc @ ''-'' @ version, ur_status = ''queued''\<rparr>))))"

section \<open>What the storage promises\<close>

lemma transfer_le: "0 \<le> limit \<Longrightarrow> int (length written) \<le> limit \<Longrightarrow> int (length (fst (transfer limit written cs))) \<le> limit"
  by (induction limit written cs rule: transfer.induct) (simp_all del: length_append)

text \<open>What the use case relies on: what is stored at a destination, which destinations there are, and what the references mean.\<close>

locale storing =
  fixes S :: upload_storage and stored_at :: "up_world \<Rightarrow> string \<Rightarrow> bytes option" and dest :: "string \<Rightarrow> bool"
    and sha :: "bytes \<Rightarrow> string" and names :: "string \<Rightarrow> string \<Rightarrow> bool"
  assumes save: "dest d \<Longrightarrow> st_save S d src limit w = (w', Inr x) \<Longrightarrow>
      \<exists>c. transfer limit [] (us_chunks src) = (c, Inr ()) \<and> stored_at w' d = Some c \<and> su_size x = length c \<and> su_sha256 x = sha c \<and> names (su_ref x) d"
    and save_frame: "dest d \<Longrightarrow> st_save S d src limit w = (w', r) \<Longrightarrow>
      uw_started w' = uw_started w \<and> (\<forall>d'. d' \<noteq> d \<longrightarrow> stored_at w' d' = stored_at w d')"
    and delete: "dest d \<Longrightarrow> st_delete S d w = (w', Inr ()) \<Longrightarrow> stored_at w' d = None"
    and delete_frame: "dest d \<Longrightarrow> st_delete S d w = (w', q) \<Longrightarrow>
      uw_started w' = uw_started w \<and> (\<forall>d'. d' \<noteq> d \<longrightarrow> stored_at w' d' = stored_at w d')"
    and delete_raises: "dest d \<Longrightarrow> st_delete S d w = (w', Inl e) \<Longrightarrow> e \<noteq> CancelledError \<and> (\<forall>n. e \<noteq> UploadFailure n)"
    and started: "stored_at (uw_started_update f w) = stored_at w"
begin

lemma save_upload_effect:
  assumes "dest d" "save_upload S d src limit w = (w', r)"
  shows "uw_started w' = uw_started w" "d' \<noteq> d \<Longrightarrow> stored_at w' d' = stored_at w d'"
    and "r = Inr x \<Longrightarrow> st_save S d src limit w = (w', Inr x)"
    and "r = Inl e \<Longrightarrow> e = CancelledError \<or> e = UploadFailure n \<Longrightarrow> stored_at w' d = None"
proof -
  obtain w1 q where s: "st_save S d src limit w = (w1, q)" by (rule prod.exhaust)
  note f = save_frame[OF assms(1) s]
  consider (ok) y where "q = Inr y" "w' = w1" "r = Inr y"
    | (failed) e' x where "q = Inl e'" "bindS (st_delete S d) (\<lambda>_. failS x) w1 = (w', r)"
    using assms(2) s by (cases q) (auto simp: save_upload_def)
  note c = this
  have "(uw_started w' = uw_started w) \<and> (d' \<noteq> d \<longrightarrow> stored_at w' d' = stored_at w d') \<and> (r = Inr x \<longrightarrow> st_save S d src limit w = (w', Inr x)) \<and>
      (r = Inl e \<and> (e = CancelledError \<or> e = UploadFailure n) \<longrightarrow> stored_at w' d = None)"
  proof (cases rule: c)
    case ok
    then show ?thesis using f s by simp
  next
    case (failed e' y)
    obtain w2 p where d: "st_delete S d w1 = (w2, p)" by (rule prod.exhaust)
    have w: "w2 = w'" "(p = Inr () \<and> r = Inl y) \<or> (\<exists>e. p = Inl e \<and> r = Inl e)"
      using failed(2) d by (cases p; auto simp: bindS_def failS_def)+
    show ?thesis using w f delete_frame[OF assms(1) d] delete[OF assms(1), of w1 w2] delete_raises[OF assms(1), of w1 w2] d by fastforce
  qed
  then show "uw_started w' = uw_started w" "d' \<noteq> d \<Longrightarrow> stored_at w' d' = stored_at w d'"
    and "r = Inr x \<Longrightarrow> st_save S d src limit w = (w', Inr x)"
    and "r = Inl e \<Longrightarrow> e = CancelledError \<or> e = UploadFailure n \<Longrightarrow> stored_at w' d = None" by blast+
qed


lemma execute_outcome:
  assumes e: "upload_execute E S online limit attempt version src tenant w = (w', r)" and l: "0 \<le> limit"
    and f: "filename = basename (case us_filename src of None \<Rightarrow> [] | Some f \<Rightarrow> f)"
    and d: "d = st_destination S tenant (document_id E tenant filename) version filename" and dd: "dest d"
  shows "(\<forall>d'. d' \<noteq> d \<longrightarrow> stored_at w' d' = stored_at w d') \<and>
    ((uw_started w' = uw_started w \<and>
      (\<exists>e. r = Inl e \<and> (w' = w \<or> stored_at w' d = None \<or> (e \<noteq> CancelledError \<and> (\<forall>n. e \<noteq> UploadFailure n))))) \<or>
     (\<exists>c x. online \<and> allowed_name filename \<and> transfer limit [] (us_chunks src) = (c, Inr ()) \<and> int (length c) \<le> limit \<and>
        stored_at w' d = Some c \<and> su_size x = length c \<and> su_sha256 x = sha c \<and> names (su_ref x) d \<and>
        (case r of Inr y \<Rightarrow> uw_started w' = uw_started w @ [ingest_request E attempt version tenant filename x] \<and>
               ur_doc_id y = document_id E tenant filename \<and> ur_workflow_id y = ws_id (ingest_request E attempt version tenant filename x)
           | Inl e \<Rightarrow> (e = UploadFailure 503 \<or> e = CancelledError) \<and> snd (ue_start E) \<noteq> None \<and>
               uw_started w' \<in> {uw_started w, uw_started w @ [ingest_request E attempt version tenant filename x]})))"
proof (cases "online \<and> allowed_name filename")
  case False
  then have "w' = w \<and> (\<exists>e. r = Inl e)" using e unfolding upload_execute_def f[symmetric] Let_def
    by (auto split: if_splits)
  then show ?thesis by auto
next
  case True
  have b: "bindS (save_upload S d src limit) (\<lambda>stored. bindS (start_workflow E (ingest_request E attempt version tenant filename stored)) (\<lambda>_.
      retS \<lparr>ur_doc_id = document_id E tenant filename, ur_workflow_id = ''ingest-'' @ document_id E tenant filename @ ''-'' @ version, ur_status = ''queued''\<rparr>)) w = (w', r)"
    using e True unfolding upload_execute_def f[symmetric] Let_def d[symmetric] by simp
  then show ?thesis
  proof (cases rule: bindS_cases)
    case (raised e')
    then show ?thesis using save_upload_effect[OF dd raised(1)] by blast
  next
    case (bound w1 x)
    note s = save_upload_effect[OF dd bound(1)]
    obtain c where c: "transfer limit [] (us_chunks src) = (c, Inr ())" "stored_at w1 d = Some c" "su_size x = length c" "su_sha256 x = sha c" "names (su_ref x) d"
      using save[OF dd s(3)[OF refl]] by blast
    have cl: "int (length c) \<le> limit" using transfer_le[OF l, of "[]" "us_chunks src"] l c(1) by simp
    have fr: "stored_at w' = stored_at w1" "(\<exists>y. r = Inr y \<and> uw_started w' = uw_started w @ [ingest_request E attempt version tenant filename x] \<and>
               ur_doc_id y = document_id E tenant filename \<and> ur_workflow_id y = ws_id (ingest_request E attempt version tenant filename x)) \<or>
        (\<exists>e. r = Inl e \<and> (e = UploadFailure 503 \<or> e = CancelledError) \<and> snd (ue_start E) \<noteq> None \<and>
               uw_started w' \<in> {uw_started w, uw_started w @ [ingest_request E attempt version tenant filename x]})"
      using bound(2) s(1) started
      by (auto simp: bindS_def retS_def start_workflow_def ingest_request_def Let_def split: prod.splits option.splits if_splits)
    have "\<forall>d'. d' \<noteq> d \<longrightarrow> stored_at w' d' = stored_at w d'" using fr(1) s(2) by simp
    moreover have "\<exists>c x. online \<and> allowed_name filename \<and> transfer limit [] (us_chunks src) = (c, Inr ()) \<and> int (length c) \<le> limit \<and>
        stored_at w' d = Some c \<and> su_size x = length c \<and> su_sha256 x = sha c \<and> names (su_ref x) d \<and>
        (case r of Inr y \<Rightarrow> uw_started w' = uw_started w @ [ingest_request E attempt version tenant filename x] \<and>
               ur_doc_id y = document_id E tenant filename \<and> ur_workflow_id y = ws_id (ingest_request E attempt version tenant filename x)
           | Inl e \<Rightarrow> (e = UploadFailure 503 \<or> e = CancelledError) \<and> snd (ue_start E) \<noteq> None \<and>
               uw_started w' \<in> {uw_started w, uw_started w @ [ingest_request E attempt version tenant filename x]})"
      using fr True c cl by (intro exI[of _ c] exI[of _ x]) (elim disjE exE conjE, simp_all)
    ultimately show ?thesis by blast
  qed
qed

end

section \<open>The two storages\<close>

definition held_at :: "storage_kind \<Rightarrow> up_world \<Rightarrow> string \<Rightarrow> bytes option" where
  "held_at k w d = (case k of LocalUploadStorage dir \<Rightarrow> uw_files w d | S3UploadStorage bucket \<Rightarrow> uw_objects w (bucket, d))"

definition destined :: "storage_kind \<Rightarrow> string \<Rightarrow> bool" where
  "destined k d = (case k of LocalUploadStorage dir \<Rightarrow> True | S3UploadStorage bucket \<Rightarrow> prefix ''tenants/'' d)"

text \<open>The name that the ingestion reads the stored bytes under.\<close>

definition refers :: "up_env \<Rightarrow> storage_kind \<Rightarrow> string \<Rightarrow> string \<Rightarrow> bool" where
  "refers E k ref d = (case k of LocalUploadStorage dir \<Rightarrow> ref = d
     | S3UploadStorage bucket \<Rightarrow> ''..'' \<notin> set (split_on CHR ''/'' d) \<longrightarrow> parse_s3_ref (ue_ip6 E) (ue_decode E) ref None = Inr (bucket, d))"

definition bucket_name :: "string \<Rightarrow> bool" where
  "bucket_name b = (b \<noteq> [] \<and> list_all (\<lambda>c. is_ascii_letter c \<or> is_ascii_digit c \<or> c \<in> {CHR ''.'', CHR ''-'', CHR ''_''}) b)"

text \<open>What the operating system and the service raise is their own.\<close>

definition up_env_ok :: "up_env \<Rightarrow> storage_kind \<Rightarrow> bool" where
  "up_env_ok E k = (ue_cancel E \<noteq> CancelledTwice \<and> (case k of LocalUploadStorage dir \<Rightarrow> True | S3UploadStorage bucket \<Rightarrow> bucket_name bucket) \<and>
     (\<forall>e n. e \<in> set_option (ue_remove E) \<union> (\<Union>i. set_option (snd (ue_s3 E i))) \<longrightarrow> e \<noteq> CancelledError \<and> e \<noteq> UploadFailure n))"

lemma parse_written:
  assumes "bucket_name b" "prefix ''tenants/'' d" "''..'' \<notin> set (split_on CHR ''/'' d)"
  shows "parse_s3_ref ip6 other (s3_ref b d) fallback = Inr (b, d)"
proof -
  have q: "always_safe c \<or> c \<in> {CHR ''/'', CHR ''%''}" if "c \<in> set (quote ''/'' d)" for c using quote_chars[OF that] by simp
  have chars: "c \<notin> {CHR 0x09, CHR 0x0A, CHR 0x0D, CHR ''?'', CHR ''#''}" if "c \<in> set (quote ''/'' d)" for c
    using q[OF that] by (auto simp: always_safe_def is_ascii_letter_def is_ascii_digit_def code_def Let_def)
  have "\<forall>c \<in> set b. net_char c \<and> c \<notin> {CHR 0x09, CHR 0x0A, CHR 0x0D} \<and> c \<notin> {CHR ''['', CHR '']''}" using assms(1)
    by (auto simp: bucket_name_def list_all_iff net_char_def is_ascii_letter_def is_ascii_digit_def code_def Let_def)
  then have n: "\<forall>c \<in> set b. net_char c \<and> c \<notin> {CHR 0x09, CHR 0x0A, CHR 0x0D}" "brackets_ok ip6 b"
    by (auto simp: brackets_ok_def)
  have u: "urlsplit ip6 (urlunsplit ''s3'' b (CHR ''/'' # quote ''/'' d)) =
      Inr \<lparr>u_scheme = ''s3'', u_netloc = b, u_path = CHR ''/'' # quote ''/'' d, u_query = [], u_fragment = []\<rparr>"
  proof (rule urlsplit_written[OF _ _ _ _ n refl])
    show "\<forall>c\<in>set (CHR ''/'' # quote ''/'' d). c \<notin> {CHR 0x09, CHR 0x0A, CHR 0x0D, CHR ''?'', CHR ''#''}" using chars by auto
  qed code_simp+
  obtain t where t: "d = CHR ''t'' # t" using assms(2) by (cases d) (auto simp: prefix_def)
  have h: "quote ''/'' d = CHR ''t'' # quote ''/'' t"
    by (simp add: t quote_def utf8_def utf8_char_def ascii_def quote_byte_def always_safe_def is_ascii_letter_def code_def)
  have "unquote other (dropWhile (\<lambda>c. c = CHR ''/'') (CHR ''/'' # quote ''/'' d)) = d"
    using unquote_quote[of "''/''" other d] by (simp add: h ascii_def code_def)
  moreover have "s3_ref b d = urlunsplit ''s3'' b (CHR ''/'' # quote ''/'' d)" by (simp add: s3_ref_def urlunsplit_def)
  ultimately show ?thesis using u assms(1,3) t
    by (simp add: parse_s3_ref_def Let_def bucket_name_def)
qed

lemma parse_destination:
  assumes "prefix ''tenants/'' d" "parse_s3_ref ip6 other d (Some b) = Inr p"
  shows "p = (b, d)"
proof -
  obtain t where t: "d = ''tenants/'' @ t" using assms(1) by (auto simp: prefix_def)
  have c: "url_clean d = ''tenants/'' @ filter (\<lambda>c. c \<notin> {CHR 0x09, CHR 0x0A, CHR 0x0D}) t"
    by (simp add: t url_clean_def code_def)
  have "\<not> list_all scheme_char (before CHR '':'' (url_clean d))"
    by (simp add: c before_def scheme_char_def is_ascii_letter_def is_ascii_digit_def code_def)
  then have "split_scheme (url_clean d) = ([], url_clean d)"
    by (auto simp: split_scheme_def Let_def split: option.splits)
  then have "urlsplit ip6 d = Inr u \<Longrightarrow> u_scheme u = []" for u
    by (auto simp: urlsplit_def Let_def split: prod.splits if_splits)
  then show ?thesis using assms(2) by (auto simp: parse_s3_ref_def Let_def split: sum.splits if_splits)
qed

lemma local_save_effect:
  assumes "local_save E d src limit w = (w', r)"
  shows "uw_started w' = uw_started w" "d' \<noteq> d \<Longrightarrow> uw_files w' d' = uw_files w d'"
    and "r = Inr x \<Longrightarrow> \<exists>c. transfer limit [] (us_chunks src) = (c, Inr ()) \<and> uw_files w' d = Some c \<and>
      su_size x = length c \<and> su_sha256 x = ue_sha256 E c \<and> su_ref x = d"
  using assms by (auto simp: local_save_def bindS_def raise_if_def retS_def failS_def split: option.splits prod.splits)

lemma local_delete_effect:
  assumes "local_delete E d w = (w', r)"
  shows "uw_started w' = uw_started w" "d' \<noteq> d \<Longrightarrow> uw_files w' d' = uw_files w d'" "r = Inr () \<Longrightarrow> uw_files w' d = None"
    and "r = Inl e \<Longrightarrow> ue_remove E = Some e"
  using assms by (auto simp: local_delete_def bindS_def raise_if_def retS_def failS_def split: option.splits if_splits)

lemma upload_object_effect:
  assumes "upload_object E b k c w = (w', r)"
  shows "uw_started w' = uw_started w" "x \<noteq> (b, k) \<Longrightarrow> uw_objects w' x = uw_objects w x" "r = Inr () \<Longrightarrow> uw_objects w' (b, k) = Some c"
  using assms by (auto simp: upload_object_def s3_request_def Let_def split: option.splits prod.splits if_splits)

lemma delete_object_effect:
  assumes "delete_object E b k w = (w', r)"
  shows "uw_started w' = uw_started w" "x \<noteq> (b, k) \<Longrightarrow> uw_objects w' x = uw_objects w x" "r = Inr () \<Longrightarrow> uw_objects w' (b, k) = None"
    and "r = Inl e \<Longrightarrow> \<exists>i. snd (ue_s3 E i) = Some e"
  using assms by (auto simp: delete_object_def s3_request_def Let_def split: option.splits prod.splits if_splits) (metis snd_conv)+

lemma run_upload_effect:
  assumes "run_upload E b k c w = (w', r)"
  shows "uw_started w' = uw_started w" "x \<noteq> (b, k) \<Longrightarrow> uw_objects w' x = uw_objects w x" "r = Inr () \<Longrightarrow> uw_objects w' (b, k) = Some c"
proof -
  have "uw_started w' = uw_started w \<and> (x \<noteq> (b, k) \<longrightarrow> uw_objects w' x = uw_objects w x) \<and> (r = Inr () \<longrightarrow> uw_objects w' (b, k) = Some c)"
  proof (cases "ue_cancel E")
    case Uncancelled
    then show ?thesis using assms upload_object_effect[of E b k c w w' r] by (auto simp: run_upload_def)
  next
    case CancelledOnce
    obtain q where q: "bindS (upload_object E b k c) (\<lambda>_. delete_object E b k) w = (w', q)" "r = Inl CancelledError"
      using assms CancelledOnce by (cases "bindS (upload_object E b k c) (\<lambda>_. delete_object E b k) w") (auto simp: run_upload_def)
    from q(1) show ?thesis
    proof (cases rule: bindS_cases)
      case (raised e)
      then show ?thesis using upload_object_effect[OF raised(1)] q(2) by auto
    next
      case (bound w1 y)
      then show ?thesis using upload_object_effect[OF bound(1)] delete_object_effect[OF bound(2)] q(2) by auto
    qed
  next
    case CancelledTwice
    then show ?thesis using assms by (auto simp: run_upload_def)
  qed
  then show "uw_started w' = uw_started w" "x \<noteq> (b, k) \<Longrightarrow> uw_objects w' x = uw_objects w x" "r = Inr () \<Longrightarrow> uw_objects w' (b, k) = Some c"
    by blast+
qed

lemma s3_save_effect:
  assumes "s3_save E b d src limit w = (w', r)"
  shows "uw_started w' = uw_started w" "x \<noteq> (b, d) \<Longrightarrow> uw_objects w' x = uw_objects w x"
    and "r = Inr y \<Longrightarrow> \<exists>c. transfer limit [] (us_chunks src) = (c, Inr ()) \<and> uw_objects w' (b, d) = Some c \<and>
      su_size y = length c \<and> su_sha256 y = ue_sha256 E c \<and> su_ref y = s3_ref b d"
proof -
  obtain c q where t: "transfer limit [] (us_chunks src) = (c, q)" by (rule prod.exhaust)
  have "(w' = w \<and> (\<exists>e. r = Inl e)) \<or>
      (\<exists>w1 p. bindS (liftS q) (\<lambda>_. run_upload E b d c) (w\<lparr>uw_spools := Suc (uw_spools w)\<rparr>) = (w1, p) \<and>
        uw_started w' = uw_started w1 \<and> uw_objects w' = uw_objects w1 \<and>
        (r = Inr y \<longrightarrow> p = Inr () \<and> su_size y = length c \<and> su_sha256 y = ue_sha256 E c \<and> su_ref y = s3_ref b d))"
    using assms unfolding s3_save_def
  proof (cases rule: bindS_cases)
    case (raised e)
    then show ?thesis by (auto simp: raise_if_def split: option.splits)
  next
    case (bound w1 u)
    then have "w1 = w" by (auto simp: raise_if_def split: option.splits)
    then show ?thesis using bound(2) t
      by (cases "bindS (liftS q) (\<lambda>_. run_upload E b d c) (w\<lparr>uw_spools := Suc (uw_spools w)\<rparr>)") (auto split: option.splits)
  qed
  then have "uw_started w' = uw_started w \<and> (x \<noteq> (b, d) \<longrightarrow> uw_objects w' x = uw_objects w x) \<and>
    (r = Inr y \<longrightarrow> (\<exists>c. transfer limit [] (us_chunks src) = (c, Inr ()) \<and> uw_objects w' (b, d) = Some c \<and>
      su_size y = length c \<and> su_sha256 y = ue_sha256 E c \<and> su_ref y = s3_ref b d))"
  proof (elim disjE exE conjE)
    fix w1 p
    assume h: "bindS (liftS q) (\<lambda>_. run_upload E b d c) (w\<lparr>uw_spools := Suc (uw_spools w)\<rparr>) = (w1, p)"
      and m: "uw_started w' = uw_started w1" "uw_objects w' = uw_objects w1"
        "r = Inr y \<longrightarrow> p = Inr () \<and> su_size y = length c \<and> su_sha256 y = ue_sha256 E c \<and> su_ref y = s3_ref b d"
    from h show ?thesis
    proof (cases rule: bindS_cases)
      case (raised e)
      then show ?thesis using m by auto
    next
      case (bound w2 u)
      then show ?thesis using m t run_upload_effect[OF bound(2)] by auto
    qed
  qed auto
  then show "uw_started w' = uw_started w" "x \<noteq> (b, d) \<Longrightarrow> uw_objects w' x = uw_objects w x"
    and "r = Inr y \<Longrightarrow> \<exists>c. transfer limit [] (us_chunks src) = (c, Inr ()) \<and> uw_objects w' (b, d) = Some c \<and>
      su_size y = length c \<and> su_sha256 y = ue_sha256 E c \<and> su_ref y = s3_ref b d" by blast+
qed

lemma s3_delete_effect:
  assumes "prefix ''tenants/'' d" "s3_delete_ref E b d w = (w', r)"
  shows "uw_started w' = uw_started w" "x \<noteq> (b, d) \<Longrightarrow> uw_objects w' x = uw_objects w x" "r = Inr () \<Longrightarrow> uw_objects w' (b, d) = None"
    and "r = Inl e \<Longrightarrow> e = ValueError \<or> (\<exists>i. snd (ue_s3 E i) = Some e)"
proof -
  have p: "parse_s3_ref (ue_ip6 E) (ue_decode E) d (Some b) = Inr p \<Longrightarrow> p = (b, d)" for p by (rule parse_destination[OF assms(1)])
  have v: "parse_s3_ref (ue_ip6 E) (ue_decode E) d (Some b) = Inl e \<Longrightarrow> e = ValueError" for e
    by (auto simp: parse_s3_ref_def urlsplit_def Let_def split: if_splits prod.splits)
  have "uw_started w' = uw_started w \<and> (x \<noteq> (b, d) \<longrightarrow> uw_objects w' x = uw_objects w x) \<and>
    (r = Inr () \<longrightarrow> uw_objects w' (b, d) = None) \<and> (r = Inl e \<longrightarrow> e = ValueError \<or> (\<exists>i. snd (ue_s3 E i) = Some e))"
    using assms(2) unfolding s3_delete_ref_def
  proof (cases rule: bindS_cases)
    case (raised e')
    then show ?thesis using v by auto
  next
    case (bound w1 u)
    then have "delete_object E b d w = (w', r)" using p by auto
    then show ?thesis using delete_object_effect[of E b d w w' r] by blast
  qed
  then show "uw_started w' = uw_started w" "x \<noteq> (b, d) \<Longrightarrow> uw_objects w' x = uw_objects w x" "r = Inr () \<Longrightarrow> uw_objects w' (b, d) = None"
    and "r = Inl e \<Longrightarrow> e = ValueError \<or> (\<exists>i. snd (ue_s3 E i) = Some e)" by blast+
qed

interpretation uploads: storing "storage E k" "held_at k" "\<lambda>d. up_env_ok E k \<and> destined k d" "ue_sha256 E" "refers E k"
  for E k
proof
  fix d src limit w w' x
  assume d: "up_env_ok E k \<and> destined k d" and s: "st_save (storage E k) d src limit w = (w', Inr x)"
  show "\<exists>c. transfer limit [] (us_chunks src) = (c, Inr ()) \<and> held_at k w' d = Some c \<and> su_size x = length c \<and>
      su_sha256 x = ue_sha256 E c \<and> refers E k (su_ref x) d"
  proof (cases k)
    case (LocalUploadStorage dir)
    then show ?thesis using s local_save_effect(3)[of E d src limit w w' "Inr x" x] by (auto simp: held_at_def refers_def)
  next
    case (S3UploadStorage b)
    then have "bucket_name b" "prefix ''tenants/'' d" using d by (auto simp: up_env_ok_def destined_def)
    then show ?thesis using s S3UploadStorage s3_save_effect(3)[of E b d src limit w w' "Inr x" x] parse_written[of b d]
      by (auto simp: held_at_def refers_def)
  qed
next
  fix d src limit w w' r
  assume "st_save (storage E k) d src limit w = (w', r)"
  then show "uw_started w' = uw_started w \<and> (\<forall>d'. d' \<noteq> d \<longrightarrow> held_at k w' d' = held_at k w d')"
    using local_save_effect(1,2)[of E d src limit w w' r] s3_save_effect(1,2)[of E _ d src limit w w' r]
    by (cases k) (auto simp: held_at_def)
next
  fix d w w'
  assume d: "up_env_ok E k \<and> destined k d" and s: "st_delete (storage E k) d w = (w', Inr ())"
  then show "held_at k w' d = None"
    using local_delete_effect(3)[of E d w w' "Inr ()"] s3_delete_effect(3)[of d E _ w w' "Inr ()"]
    by (cases k) (auto simp: held_at_def destined_def)
next
  fix d w w' q
  assume d: "up_env_ok E k \<and> destined k d" and s: "st_delete (storage E k) d w = (w', q)"
  then show "uw_started w' = uw_started w \<and> (\<forall>d'. d' \<noteq> d \<longrightarrow> held_at k w' d' = held_at k w d')"
    using local_delete_effect(1,2)[of E d w w' q] s3_delete_effect(1,2)[of d E _ w w' q]
    by (cases k) (auto simp: held_at_def destined_def)
next
  fix d w w' e
  assume d: "up_env_ok E k \<and> destined k d" and s: "st_delete (storage E k) d w = (w', Inl e)"
  then show "e \<noteq> CancelledError \<and> (\<forall>n. e \<noteq> UploadFailure n)"
    using local_delete_effect(4)[of E d w w' "Inl e" e] s3_delete_effect(4)[of d E _ w w' "Inl e" e]
    by (cases k) (auto simp: up_env_ok_def destined_def)
next
  fix f w
  show "held_at k (uw_started_update f w) = held_at k w" by (cases k) (auto simp: held_at_def)
qed

section \<open>What an upload does\<close>

lemma basename_no_slash: "CHR ''/'' \<notin> set (basename s)"
  by (auto simp: basename_def after_final_def dest: set_takeWhileD)

lemma destined_destination: "destined k (st_destination (storage E k) tenant doc version filename)"
  by (cases k) (simp_all add: destined_def s3_destination_def)

lemma execute_facts:
  assumes "up_env_ok E k" "0 \<le> limit" "filename = basename (case us_filename src of None \<Rightarrow> [] | Some f \<Rightarrow> f)"
    and "d = st_destination (storage E k) tenant (document_id E tenant filename) version filename"
    and "upload_execute E (storage E k) online limit attempt version src tenant w = (w', r)"
  shows "(\<forall>d'. d' \<noteq> d \<longrightarrow> held_at k w' d' = held_at k w d') \<and>
    ((uw_started w' = uw_started w \<and>
      (\<exists>e. r = Inl e \<and> (w' = w \<or> held_at k w' d = None \<or> (e \<noteq> CancelledError \<and> (\<forall>n. e \<noteq> UploadFailure n))))) \<or>
     (\<exists>c x. online \<and> lower (extension filename) \<in> set ALLOWED_UPLOAD_EXTENSIONS \<and> CHR ''/'' \<notin> set filename \<and>
        transfer limit [] (us_chunks src) = (c, Inr ()) \<and> int (length c) \<le> limit \<and>
        held_at k w' d = Some c \<and> su_size x = length c \<and> su_sha256 x = ue_sha256 E c \<and> refers E k (su_ref x) d \<and>
        (case r of Inr y \<Rightarrow> uw_started w' = uw_started w @ [ingest_request E attempt version tenant filename x] \<and>
               ur_doc_id y = document_id E tenant filename \<and> ur_workflow_id y = ws_id (ingest_request E attempt version tenant filename x)
           | Inl e \<Rightarrow> (e = UploadFailure 503 \<or> e = CancelledError) \<and> snd (ue_start E) \<noteq> None \<and>
               uw_started w' \<in> {uw_started w, uw_started w @ [ingest_request E attempt version tenant filename x]})))"
proof -
  have "up_env_ok E k \<and> destined k d" using assms(1) destined_destination unfolding assms(4) by blast
  note o = uploads.execute_outcome[OF assms(5,2,3,4) this]
  have "allowed_name filename \<Longrightarrow> lower (extension filename) \<in> set ALLOWED_UPLOAD_EXTENSIONS" "CHR ''/'' \<notin> set filename"
    unfolding assms(3) using basename_no_slash by (auto simp: allowed_name_def)
  then show ?thesis using o by blast
qed


text \<open>A second cancellation while the object is being written: the request fails, nothing is there to delete, and the object
  appears afterwards. No ingestion knows of it.\<close>

definition hasty_env :: up_env where
  "hasty_env = \<lparr>ue_open = None, ue_remove = None, ue_spool = None, ue_s3 = \<lambda>i. (True, None), ue_start = (True, None),
     ue_cancel = CancelledTwice, ue_sha256 = \<lambda>b. ''h'', ue_uuid5 = \<lambda>s. ''d'', ue_ip6 = \<lambda>s. False, ue_decode = id\<rparr>"

definition empty_world :: up_world where
  "empty_world = \<lparr>uw_files = \<lambda>d. None, uw_objects = \<lambda>d. None, uw_running = [], uw_spools = 0, uw_calls = 0, uw_started = []\<rparr>"

definition example_source :: upload_source where
  "example_source = \<lparr>us_filename = Some ''x/a.PDF'', us_chunks = [Bytes ''ab'', Bytes ''c'']\<rparr>"

lemma cancelled_twice_orphan:
  "let (w, r) = upload_execute hasty_env (storage hasty_env (S3UploadStorage ''b'')) True 5 ''x'' ''v'' example_source ''t'' empty_world;
       d = s3_destination ''t'' ''d'' ''v'' ''a.PDF'' in
     r = Inl CancelledError \<and> held_at (S3UploadStorage ''b'') w d = None \<and> uw_started w = [] \<and>
     held_at (S3UploadStorage ''b'') (land_upload w) d = Some ''abc''"
  by code_simp


end
