(* ===== verification/Task_Drain.thy ===== *)
theory Task_Drain
  imports Ally_Prelude
begin

text \<open>
  Work that outlives the request that waits for it (\<open>services/runtime/task_drain.py\<close>). Tasks are numbered. A task that has
  ended leaves the set when the event loop runs its callback, which was registered before any other, so that whoever gathers
  the task is woken afterwards.
\<close>

section \<open>State and operations\<close>

datatype closer = Idle | Gathering "nat set" | Closed

record drain =
  dr_tasks :: "nat set"
  dr_live :: "nat set"
  dr_started :: "nat set"
  dr_waiters :: "nat set"
  dr_closing :: bool
  dr_closers :: "nat \<Rightarrow> closer"

definition fresh_drain :: drain where
  "fresh_drain = \<lparr>dr_tasks = {}, dr_live = {}, dr_started = {}, dr_waiters = {}, dr_closing = False, dr_closers = \<lambda>c. Idle\<rparr>"

text \<open>\<open>WorkAdmissionClosed\<close> is a \<open>RuntimeError\<close>.\<close>

definition start_work :: "nat \<Rightarrow> drain \<Rightarrow> drain \<times> nat res" where
  "start_work t w = (if dr_closing w then (w, Inl RuntimeError)
     else (w\<lparr>dr_tasks := insert t (dr_tasks w), dr_live := insert t (dr_live w), dr_started := insert t (dr_started w)\<rparr>, Inr t))"

definition run_work :: "nat \<Rightarrow> drain \<Rightarrow> drain \<times> nat res" where
  "run_work t w = (case start_work t w of (w', Inl e) \<Rightarrow> (w', Inl e)
     | (w', Inr x) \<Rightarrow> (w'\<lparr>dr_waiters := insert t (dr_waiters w')\<rparr>, Inr x))"

definition discard_work :: "nat \<Rightarrow> drain \<Rightarrow> drain" where
  "discard_work t w = w\<lparr>dr_tasks := dr_tasks w - {t}\<rparr>"

text \<open>The head of the loop of \<open>close\<close>.\<close>

definition close_loop :: "nat \<Rightarrow> drain \<Rightarrow> drain" where
  "close_loop c w = w\<lparr>dr_closers := (dr_closers w)(c := if dr_tasks w = {} then Closed else Gathering (dr_tasks w))\<rparr>"

definition close_work :: "nat \<Rightarrow> drain \<Rightarrow> drain" where
  "close_work c w = close_loop c (w\<lparr>dr_closing := True\<rparr>)"

section \<open>Steps\<close>

text \<open>Requests start work and wait for it, or hold the task; a cancelled request leaves, its task stays. Tasks end. Owners close,
  are woken when what they gathered has ended, or are cancelled themselves, which asks the tasks to end.\<close>

inductive drain_step :: "drain \<Rightarrow> drain \<Rightarrow> bool" where
  run: "t \<notin> dr_started w \<Longrightarrow> run_work t w = (w', r) \<Longrightarrow> drain_step w w'"
| start: "t \<notin> dr_started w \<Longrightarrow> start_work t w = (w', r) \<Longrightarrow> drain_step w w'"
| leave: "drain_step w (w\<lparr>dr_waiters := dr_waiters w - {t}\<rparr>)"
| finish: "t \<in> dr_live w \<Longrightarrow> drain_step w (w\<lparr>dr_live := dr_live w - {t}\<rparr>)"
| discard: "t \<in> dr_tasks w \<Longrightarrow> t \<notin> dr_live w \<Longrightarrow> drain_step w (discard_work t w)"
| close: "dr_closers w c = Idle \<Longrightarrow> drain_step w (close_work c w)"
| wake: "dr_closers w c = Gathering T \<Longrightarrow> T \<inter> dr_live w = {} \<Longrightarrow> T \<inter> dr_tasks w = {} \<Longrightarrow> drain_step w (close_loop c w)"
| abandon: "dr_closers w c = Gathering T \<Longrightarrow> drain_step w (w\<lparr>dr_closers := (dr_closers w)(c := Idle)\<rparr>)"

inductive_cases drain_stepE: "drain_step w w'"

inductive drain_reach :: "drain \<Rightarrow> bool" where
  init: "drain_reach fresh_drain"
| step: "drain_reach w \<Longrightarrow> drain_step w w' \<Longrightarrow> drain_reach w'"

section \<open>The invariant\<close>

text \<open>What still runs is tracked. Whoever has closed found nothing, and nothing was admitted since.\<close>

definition drain_inv :: "drain \<Rightarrow> bool" where
  "drain_inv w = (dr_live w \<subseteq> dr_tasks w \<and> dr_tasks w \<subseteq> dr_started w \<and> finite (dr_started w) \<and>
     (\<forall>c. (case dr_closers w c of Idle \<Rightarrow> True
        | Gathering T \<Rightarrow> dr_closing w \<and> dr_tasks w \<subseteq> T \<and> T \<subseteq> dr_started w
        | Closed \<Rightarrow> dr_closing w \<and> dr_tasks w = {})))"

lemma drain_inv_step: "drain_inv w \<Longrightarrow> drain_step w w' \<Longrightarrow> drain_inv w'"
  by (erule drain_stepE; auto simp: drain_inv_def start_work_def run_work_def discard_work_def close_work_def close_loop_def
      split: if_splits closer.splits; blast)

lemma drain_reach_inv: "drain_reach w \<Longrightarrow> drain_inv w"
  by (induction rule: drain_reach.induct) (auto simp: drain_inv_step, simp add: drain_inv_def fresh_drain_def)

lemma closed_stays: "drain_step\<^sup>*\<^sup>* w w' \<Longrightarrow> drain_inv w \<Longrightarrow> dr_closing w \<Longrightarrow>
    drain_inv w' \<and> dr_closing w' \<and> dr_started w' = dr_started w \<and> dr_tasks w' \<subseteq> dr_tasks w"
proof (induction rule: rtranclp_induct)
  case (step y z)
  then have i: "drain_inv y" "dr_closing y" "dr_started y = dr_started w" "dr_tasks y \<subseteq> dr_tasks w" by auto
  from step(2) have "dr_closing z \<and> dr_started z = dr_started y \<and> dr_tasks z \<subseteq> dr_tasks y" using i(2)
    by (cases rule: drain_step.cases) (auto simp: start_work_def run_work_def discard_work_def close_work_def close_loop_def)
  with i drain_inv_step[OF i(1) step(2)] show ?case by auto
qed simp

text \<open>C34 (safety): a closed owner is drained for good. When \<open>close\<close> has returned, no task is tracked or runs, in this and in
  every later state, no other is ever admitted, and to start one raises.\<close>

theorem drained_for_good:
  assumes "drain_reach w" "dr_closers w c = Closed" "drain_step\<^sup>*\<^sup>* w w'"
  shows "dr_tasks w' = {} \<and> dr_live w' = {} \<and> dr_started w' = dr_started w \<and> start_work t w' = (w', Inl RuntimeError)"
proof -
  have i: "drain_inv w" by (rule drain_reach_inv[OF assms(1)])
  then have c: "dr_closing w" "dr_tasks w = {}" using assms(2) unfolding drain_inv_def by (auto split: closer.splits)
  show ?thesis using closed_stays[OF assms(3) i c(1)] c by (auto simp: drain_inv_def start_work_def)
qed

section \<open>Closing ends\<close>

text \<open>The tasks end and are discarded in some order.\<close>

lemma drain_tasks:
  assumes "finite F" "F \<subseteq> dr_tasks w"
  shows "\<exists>w'. drain_step\<^sup>*\<^sup>* w w' \<and> dr_tasks w' = dr_tasks w - F \<and> dr_live w' = dr_live w - F \<and> dr_closers w' = dr_closers w \<and>
    dr_closing w' = dr_closing w \<and> dr_started w' = dr_started w"
  using assms
proof (induction F arbitrary: w)
  case empty
  then show ?case by auto
next
  case (insert t F)
  let ?a = "w\<lparr>dr_live := dr_live w - {t}\<rparr>"
  have a: "drain_step\<^sup>*\<^sup>* w ?a"
  proof (cases "t \<in> dr_live w")
    case True
    then show ?thesis by (intro r_into_rtranclp drain_step.finish)
  next
    case False
    then have "?a = w" by (cases w) simp
    then show ?thesis by simp
  qed
  have b: "drain_step ?a (discard_work t ?a)" using insert(4) by (intro drain_step.discard) auto
  have "F \<subseteq> dr_tasks (discard_work t ?a)" using insert(2,4) by (auto simp: discard_work_def)
  from insert(3)[OF this] obtain w' where w': "drain_step\<^sup>*\<^sup>* (discard_work t ?a) w'" "dr_tasks w' = dr_tasks (discard_work t ?a) - F"
      "dr_live w' = dr_live (discard_work t ?a) - F" "dr_closers w' = dr_closers (discard_work t ?a)"
      "dr_closing w' = dr_closing (discard_work t ?a)" "dr_started w' = dr_started (discard_work t ?a)" by blast
  have "drain_step\<^sup>*\<^sup>* w w'" using a b w'(1) by (meson r_into_rtranclp rtranclp_trans)
  then show ?case using w'(2-) by (intro exI[of _ w']) (auto simp: discard_work_def)
qed

text \<open>(liveness): closing ends. From every reachable state in which an owner gathers, the end of the tasks alone leads to one
  in which that owner is woken; and whenever it is woken its loop is over, there is no second round.\<close>

lemma closing_ends:
  assumes "drain_reach w" "dr_closers w c = Gathering T"
  shows "(\<exists>w'. drain_step\<^sup>*\<^sup>* w w' \<and> dr_closers w' c = Closed) \<and>
    (T \<inter> dr_live w = {} \<and> T \<inter> dr_tasks w = {} \<longrightarrow> dr_closers (close_loop c w) c = Closed)"
proof -
  have i: "dr_tasks w \<subseteq> T" "dr_live w \<subseteq> dr_tasks w" "finite (dr_tasks w)" using drain_reach_inv[OF assms(1)] assms(2) unfolding drain_inv_def
    by (auto intro: finite_subset dest!: spec[of _ c])
  obtain w' where w': "drain_step\<^sup>*\<^sup>* w w'" "dr_tasks w' = {}" "dr_live w' = {}" "dr_closers w' = dr_closers w"
    using drain_tasks[OF i(3) subset_refl] i(2) by auto
  then have "drain_step w' (close_loop c w')" using assms(2) by (intro drain_step.wake[of _ _ T]) auto
  with w'(1) have "drain_step\<^sup>*\<^sup>* w (close_loop c w')" by (rule rtranclp.rtrancl_into_rtrancl)
  moreover have "dr_closers (close_loop c w') c = Closed" using w'(2) by (simp add: close_loop_def)
  moreover have "dr_closers (close_loop c w) c = Closed" if "T \<inter> dr_live w = {} \<and> T \<inter> dr_tasks w = {}"
    using that i(1) by (auto simp: close_loop_def)
  ultimately show ?thesis by blast
qed

text \<open>One task is started and its request leaves, the owner closes, and the task ends.\<close>

definition busy_drain :: drain where
  "busy_drain = close_work 0 (fst (run_work 7 fresh_drain))"

lemma busy_reach: "drain_reach busy_drain" "dr_closers busy_drain 0 = Gathering {7}"
proof -
  have "drain_step fresh_drain (fst (run_work 7 fresh_drain))"
    by (rule drain_step.run[of 7 _ _ "snd (run_work 7 fresh_drain)"]) (simp_all add: fresh_drain_def)
  then have r: "drain_reach (fst (run_work 7 fresh_drain))" using drain_reach.init drain_reach.step by blast
  have "drain_step (fst (run_work 7 fresh_drain)) busy_drain" unfolding busy_drain_def
    by (rule drain_step.close) (simp add: run_work_def start_work_def fresh_drain_def)
  with r show "drain_reach busy_drain" by (rule drain_reach.step)
  show "dr_closers busy_drain 0 = Gathering {7}"
    by (simp add: busy_drain_def close_work_def close_loop_def run_work_def start_work_def fresh_drain_def)
qed

lemma closing_ends_witness: "\<exists>w'. drain_step\<^sup>*\<^sup>* busy_drain w' \<and> dr_closers w' 0 = Closed"
  using closing_ends[OF busy_reach] by blast

theorem drained_for_good_witness:
  "\<exists>w. dr_closers w 0 = Closed \<and> start_work 8 w = (w, Inl RuntimeError)"
proof -
  have s: "drain_step fresh_drain (close_work 0 fresh_drain)" by (rule drain_step.close) (simp add: fresh_drain_def)
  have c: "dr_closers (close_work 0 fresh_drain) 0 = Closed" by (simp add: close_work_def close_loop_def fresh_drain_def)
  have "start_work 8 (close_work 0 fresh_drain) = (close_work 0 fresh_drain, Inl RuntimeError)"
    using drained_for_good[OF drain_reach.step[OF drain_reach.init s] c rtranclp.rtrancl_refl] by blast
  with c show ?thesis by blast
qed

end
