(* ===== verification/Api_App.thy ===== *)
theory Api_App
  imports Runtime_Settings Upload Task_Drain
begin

text \<open>
  The application (\<open>services/api/main.py\<close>): its resources over its lifetime, the optional services, the health
  checks and the upload endpoint. What is awaited, created or closed is an event that may raise; the schedule of these
  failures is an argument.
\<close>

section \<open>Resources\<close>

datatype resource = VectorStore | HistoryStore | SocketSecurity | CompanionBridge

text \<open>What happens while the application starts, serves and stops.\<close>

datatype life_event =
    ConfigureInference
  | MakeUploadDir
  | Create resource
  | CreateOther string
  | ConnectTemporal
  | WarmReranker
  | BuildUploads
  | Serve
  | Close resource
  | DrainRetrieval

text \<open>The failure, if any, of the event at each position of the trace.\<close>

type_synonym faults = "nat \<Rightarrow> exn option"
type_synonym trace = "life_event list"

definition happen :: "faults \<Rightarrow> life_event \<Rightarrow> (trace, unit) st" where
  "happen F a = (\<lambda>t. (t @ [a], case F (length t) of None \<Rightarrow> Inr () | Some e \<Rightarrow> Inl e))"

text \<open>An event whose exceptions are logged; a cancellation is none of them.\<close>

definition happen_logged :: "faults \<Rightarrow> life_event \<Rightarrow> (trace, bool) st" where
  "happen_logged F a = (\<lambda>t. case happen F a t of
       (t', Inl e) \<Rightarrow> if e = CancelledError then (t', Inl e) else (t', Inr False)
     | (t', Inr _) \<Rightarrow> (t', Inr True))"

datatype instr = Do life_event | Push resource

text \<open>The body of the exit stack up to the optional services, in the order of the code.\<close>

definition startup :: "instr list" where
  "startup = [
     Do (Create VectorStore), Push VectorStore, Do (CreateOther ''retrieval_models''),
     Do (Create HistoryStore), Push HistoryStore,
     Do (Create SocketSecurity), Push SocketSecurity,
     Do (CreateOther ''device_registry''), Do (CreateOther ''pairing_admission''),
     Do (Create CompanionBridge), Push CompanionBridge,
     Do (CreateOther ''tool_registry''), Do (CreateOther ''llm_gateway''), Do (CreateOther ''agent_graph''),
     Do (CreateOther ''retrieval_work''), Do (CreateOther ''chat_use_case'')]"

text \<open>Until something raises; the stack grows at its head.\<close>

fun run_startup :: "faults \<Rightarrow> instr list \<Rightarrow> resource list \<Rightarrow> trace \<Rightarrow> trace \<times> resource list \<times> unit res" where
  "run_startup F [] stack t = (t, stack, Inr ())"
| "run_startup F (Push c # is) stack t = run_startup F is (c # stack) t"
| "run_startup F (Do a # is) stack t = (case happen F a t of
      (t', Inl e) \<Rightarrow> (t', stack, Inl e) | (t', Inr _) \<Rightarrow> run_startup F is stack t')"

text \<open>Leaving the exit stack: every callback runs, the last exception wins.\<close>

fun unwind :: "faults \<Rightarrow> resource list \<Rightarrow> unit res \<Rightarrow> (trace, unit) st" where
  "unwind F [] r t = (t, r)"
| "unwind F (c # cs) r t = (case happen F (Close c) t of
      (t', Inl e) \<Rightarrow> unwind F cs (Inl e) t' | (t', Inr _) \<Rightarrow> unwind F cs r t')"

definition start_optional_services :: "faults \<Rightarrow> (trace, bool) st" where
  "start_optional_services F = bindS (happen_logged F ConnectTemporal) (\<lambda>online.
     bindS (happen_logged F WarmReranker) (\<lambda>_. bindS (happen F BuildUploads) (\<lambda>_. retS online)))"

text \<open>Serving, and what its \<open>finally\<close> closes first.\<close>

definition serve :: "faults \<Rightarrow> (trace, unit) st" where
  "serve F = (\<lambda>t. case happen F Serve t of (t1, r) \<Rightarrow>
     (case bindS (happen F (Close SocketSecurity)) (\<lambda>_. bindS (happen F (Close CompanionBridge)) (\<lambda>_. happen F DrainRetrieval)) t1 of
        (t2, Inl e) \<Rightarrow> (t2, Inl e) | (t2, Inr _) \<Rightarrow> (t2, r)))"

definition lifespan :: "faults \<Rightarrow> (trace, unit) st" where
  "lifespan F = bindS (happen F ConfigureInference) (\<lambda>_. bindS (happen F MakeUploadDir) (\<lambda>_. (\<lambda>t.
     case run_startup F startup [] t of (t1, stack, r) \<Rightarrow>
       (case bindS (liftS r) (\<lambda>_. bindS (start_optional_services F) (\<lambda>_. serve F)) t1 of (t2, q) \<Rightarrow> unwind F stack q t2))))"

section \<open>What the trace of a lifetime looks like\<close>

lemma happen_trace [simp]: "fst (happen F a t) = t @ [a]"
  by (simp add: happen_def)

lemma unwind_trace: "fst (unwind F cs r t) = t @ map Close cs"
  by (induction F cs r t rule: unwind.induct) (auto simp: happen_def split: option.splits)

text \<open>What a prefix of the instructions has created and pushed.\<close>

fun events_of :: "instr list \<Rightarrow> life_event list" where
  "events_of [] = []"
| "events_of (Do a # is) = a # events_of is"
| "events_of (Push c # is) = events_of is"

fun pushed :: "instr list \<Rightarrow> resource list" where
  "pushed [] = []"
| "pushed (Do a # is) = pushed is"
| "pushed (Push c # is) = c # pushed is"

lemma pushed_append: "pushed (is @ js) = pushed is @ pushed js"
  by (induction "is" rule: pushed.induct) simp_all

lemma run_startup_stack:
  "run_startup F is stack t = (t', stack', r) \<Longrightarrow> \<exists>cs. stack' = rev cs @ stack \<and> prefix cs (pushed is) \<and> (r = Inr () \<longrightarrow> cs = pushed is)"
proof (induction F "is" stack t rule: run_startup.induct)
  case (2 F c "is" stack t)
  then obtain cs where "stack' = rev cs @ c # stack" "prefix cs (pushed is)" "r = Inr () \<longrightarrow> cs = pushed is" by auto
  then show ?case by (intro exI[of _ "c # cs"]) simp
next
  case (3 F a "is" stack t)
  then show ?case by (cases "F (length t)") (auto simp: happen_def)
qed simp

text \<open>Every creation is followed by the registration of its clean-up.\<close>

fun paired :: "instr list \<Rightarrow> bool" where
  "paired [] = True"
| "paired (Push c # is) = paired is"
| "paired (Do a # is) = ((case a of Create c \<Rightarrow> is \<noteq> [] \<and> hd is = Push c | _ \<Rightarrow> True) \<and> paired is)"

lemma run_startup_created:
  assumes "run_startup F is stack t = (t', stack', r)" "paired is"
  shows "\<exists>es. t' = t @ es \<and> set es \<subseteq> set (events_of is) \<and>
    (\<forall>i < length es. \<forall>c. es ! i = Create c \<and> F (length t + i) = None \<longrightarrow> c \<in> set stack')"
  using assms
proof (induction F "is" stack t rule: run_startup.induct)
  case (3 F a "is" stack t)
  show ?case
  proof (cases "F (length t)")
    case None
    then have h: "happen F a t = (t @ [a], Inr ())" by (simp add: happen_def)
    have run: "run_startup F is stack (t @ [a]) = (t', stack', r)" using 3(2) h by simp
    obtain es where es: "t' = (t @ [a]) @ es" "set es \<subseteq> set (events_of is)"
        "\<forall>i < length es. \<forall>c. es ! i = Create c \<and> F (length (t @ [a]) + i) = None \<longrightarrow> c \<in> set stack'"
      using 3(1)[OF h[symmetric] refl run] 3(3) by auto
    have new: "c \<in> set stack'" if ac: "a = Create c" for c
    proof -
      obtain js where "is = Push c # js" using 3(3) ac by (cases "is") auto
      then show ?thesis using run_startup_stack[of F js "c # stack" "t @ [a]" t' stack' r] run by auto
    qed
    show ?thesis using es new by (intro exI[of _ "a # es"]) (auto simp: nth_Cons split: nat.splits)
  next
    case (Some e)
    then have "t' = t @ [a]" using 3(2) by (simp add: happen_def)
    then show ?thesis using Some by (intro exI[of _ "[a]"]) auto
  qed
qed auto

lemma startup_paired: "paired startup" "pushed startup = [VectorStore, HistoryStore, SocketSecurity, CompanionBridge]"
  by (simp_all add: startup_def)

text \<open>After the startup.\<close>

definition optional_events :: "life_event list" where
  "optional_events = [ConnectTemporal, WarmReranker, BuildUploads]"

lemma optional_trace:
  assumes "start_optional_services F t = (t', r)"
  shows "\<exists>es. t' = t @ es \<and> prefix es optional_events \<and> (isl r \<or> es = optional_events)"
  using assms
  by (auto simp: start_optional_services_def happen_logged_def happen_def optional_events_def bindS_def retS_def
      split: option.splits if_splits)

lemma serve_trace:
  assumes "serve F t = (t', r)"
  shows "\<exists>k. t' = t @ Serve # take k [Close SocketSecurity, Close CompanionBridge, DrainRetrieval] \<and> 1 \<le> k \<and> k \<le> 3 \<and>
    (F (length t + 1) = None \<and> F (length t + 2) = None \<longrightarrow> k = 3)"
proof (cases "F (length t + 1)")
  case None
  show ?thesis
  proof (cases "F (length t + 2)")
    case None
    with \<open>F (length t + 1) = None\<close> show ?thesis using assms
      by (intro exI[of _ 3]) (auto simp: serve_def happen_def bindS_def eval_nat_numeral split: option.splits)
  next
    case (Some e)
    with \<open>F (length t + 1) = None\<close> show ?thesis using assms
      by (intro exI[of _ 2]) (auto simp: serve_def happen_def bindS_def eval_nat_numeral split: option.splits)
  qed
next
  case (Some e)
  then show ?thesis using assms
    by (intro exI[of _ 1]) (auto simp: serve_def happen_def bindS_def eval_nat_numeral split: option.splits)
qed

text \<open>The whole: what was created, then the optional services and serving, then the callbacks of the stack.\<close>

lemma lifespan_trace:
  assumes "lifespan F [] = (t, r)" "F 0 = None" "F 1 = None"
  obtains es mid cs where "t = ConfigureInference # MakeUploadDir # es @ mid @ map Close (rev cs)" "prefix cs (pushed startup)"
    "set es \<subseteq> set (events_of startup)"
    "\<And>i c. i < length es \<Longrightarrow> es ! i = Create c \<Longrightarrow> F (Suc (Suc i)) = None \<Longrightarrow> c \<in> set cs"
    "prefix mid optional_events \<or> (cs = pushed startup \<and> (\<exists>k. mid = optional_events @ Serve # take k [Close SocketSecurity, Close CompanionBridge, DrainRetrieval] \<and>
       1 \<le> k \<and> k \<le> 3 \<and> (F (length es + 6) = None \<and> F (length es + 7) = None \<longrightarrow> k = 3)))"
proof -
  let ?h = "[ConfigureInference, MakeUploadDir]"
  obtain t1 stack q where run: "run_startup F startup [] ?h = (t1, stack, q)" by (metis prod_cases3)
  obtain t2 p where mid: "bindS (liftS q) (\<lambda>_. bindS (start_optional_services F) (\<lambda>_. serve F)) t1 = (t2, p)" by (rule prod.exhaust)
  have h: "happen F ConfigureInference [] = ([ConfigureInference], Inr ())" "happen F MakeUploadDir [ConfigureInference] = (?h, Inr ())"
    using assms(2,3) by (simp_all add: happen_def)
  have t: "t = t2 @ map Close stack" using assms(1) run mid unwind_trace[of F stack p t2]
    by (simp add: lifespan_def bindS_def[of "happen F ConfigureInference"] bindS_def[of "happen F MakeUploadDir"] h)
  obtain cs where cs: "stack = rev cs" "prefix cs (pushed startup)" "q = Inr () \<longrightarrow> cs = pushed startup"
    using run_startup_stack[OF run] by auto
  obtain es where es: "t1 = ?h @ es" "set es \<subseteq> set (events_of startup)"
      "\<forall>i < length es. \<forall>c. es ! i = Create c \<and> F (length ?h + i) = None \<longrightarrow> c \<in> set stack"
    using run_startup_created[OF run startup_paired(1)] by blast
  have "\<exists>m. t2 = t1 @ m \<and> (prefix m optional_events \<or> (q = Inr () \<and> (\<exists>k. m = optional_events @ Serve # take k [Close SocketSecurity, Close CompanionBridge, DrainRetrieval] \<and>
       1 \<le> k \<and> k \<le> 3 \<and> (F (length t1 + 4) = None \<and> F (length t1 + 5) = None \<longrightarrow> k = 3))))"
    using mid
  proof (cases rule: bindS_cases)
    case (bound w x)
    then have w: "w = t1" "q = Inr ()" by auto
    from bound(2) show ?thesis
    proof (cases rule: bindS_cases)
      case (raised e)
      then show ?thesis using optional_trace[OF raised(1)] w by auto
    next
      case (bound w1 x1)
      then have "w1 = t1 @ optional_events" using optional_trace[OF bound(1)] w by auto
      moreover have "length optional_events = 3" by (simp add: optional_events_def)
      ultimately have l: "w1 = t1 @ optional_events" "length w1 + 1 = length t1 + 4" "length w1 + 2 = length t1 + 5" by simp_all
      obtain k where "t2 = w1 @ Serve # take k [Close SocketSecurity, Close CompanionBridge, DrainRetrieval]" "1 \<le> k" "k \<le> 3"
        "F (length w1 + 1) = None \<and> F (length w1 + 2) = None \<longrightarrow> k = 3" using serve_trace[OF bound(2)] by blast
      then show ?thesis using w(2) l(1) unfolding l(2,3)
        by (intro exI[of _ "optional_events @ Serve # take k [Close SocketSecurity, Close CompanionBridge, DrainRetrieval]"] conjI disjI2 exI[of _ k]) simp_all
    qed
  qed auto
  then obtain m where m: "t2 = t1 @ m" "prefix m optional_events \<or> (q = Inr () \<and> (\<exists>k. m = optional_events @ Serve # take k [Close SocketSecurity, Close CompanionBridge, DrainRetrieval] \<and>
       1 \<le> k \<and> k \<le> 3 \<and> (F (length t1 + 4) = None \<and> F (length t1 + 5) = None \<longrightarrow> k = 3)))" by blast
  show thesis
  proof (rule that[of es m cs])
    show "t = ConfigureInference # MakeUploadDir # es @ m @ map Close (rev cs)" using t m(1) es(1) cs(1) by simp
    show "\<And>i c. i < length es \<Longrightarrow> es ! i = Create c \<Longrightarrow> F (Suc (Suc i)) = None \<Longrightarrow> c \<in> set cs"
      using es(3) cs(1) by auto
    have "length t1 + 4 = length es + 6" "length t1 + 5 = length es + 7" using es(1) by simp_all
    then show "prefix m optional_events \<or> (cs = pushed startup \<and> (\<exists>k. m = optional_events @ Serve # take k [Close SocketSecurity, Close CompanionBridge, DrainRetrieval] \<and>
       1 \<le> k \<and> k \<le> 3 \<and> (F (length es + 6) = None \<and> F (length es + 7) = None \<longrightarrow> k = 3)))"
      using m(2) cs(3) by metis
  qed (use cs(2) es(2) in auto)
qed

text \<open>C33 (safety): whatever fails in the lifetime of the application, every store, socket guard and bridge that was created is
  closed afterwards, in the reverse order of creation, and the stores are closed last. If the application served, new sockets
  were refused first; unless closing the sockets or the bridge raises, the retrieval work was drained before the stores were closed.\<close>

theorem lifespan_closes:
  assumes "lifespan F [] = (t, r)"
  shows "\<exists>pre cs. t = pre @ map Close (rev cs) \<and> prefix cs [VectorStore, HistoryStore, SocketSecurity, CompanionBridge] \<and>
    (\<forall>i < length t. \<forall>c. t ! i = Create c \<and> F i = None \<longrightarrow> i < length pre \<and> c \<in> set cs) \<and>
    (Serve \<in> set t \<longrightarrow> cs = [VectorStore, HistoryStore, SocketSecurity, CompanionBridge] \<and>
      (\<exists>p k. pre = p @ Serve # take k [Close SocketSecurity, Close CompanionBridge, DrainRetrieval] \<and> 1 \<le> k \<and>
         (F (length p + 1) = None \<and> F (length p + 2) = None \<longrightarrow> DrainRetrieval \<in> set pre)))"
proof (cases "F 0 = None \<and> F 1 = None")
  case False
  then have t: "t = [ConfigureInference] \<or> t = [ConfigureInference, MakeUploadDir]" using assms
    by (auto simp: lifespan_def happen_def bindS_def split: option.splits)
  then have "\<not> t ! i = Create c" if "i < length t" for i c using that by (auto simp: less_Suc_eq)
  then show ?thesis using t by (intro exI[of _ t] exI[of _ "[]"]) auto
next
  case True
  then obtain es mid cs where d: "t = ConfigureInference # MakeUploadDir # es @ mid @ map Close (rev cs)" "prefix cs (pushed startup)"
    "set es \<subseteq> set (events_of startup)"
    "\<And>i c. i < length es \<Longrightarrow> es ! i = Create c \<Longrightarrow> F (Suc (Suc i)) = None \<Longrightarrow> c \<in> set cs"
    "prefix mid optional_events \<or> (cs = pushed startup \<and> (\<exists>k. mid = optional_events @ Serve # take k [Close SocketSecurity, Close CompanionBridge, DrainRetrieval] \<and>
       1 \<le> k \<and> k \<le> 3 \<and> (F (length es + 6) = None \<and> F (length es + 7) = None \<longrightarrow> k = 3)))"
    using lifespan_trace[OF assms] by metis
  let ?pre = "ConfigureInference # MakeUploadDir # es @ mid"
  have mid: "Create c \<notin> set mid" for c
    using d(5) by (auto simp: optional_events_def take_Cons' prefix_Cons split: if_splits dest!: set_mono_prefix)
  have created: "i < length ?pre \<and> c \<in> set cs" if i: "i < length t" "t ! i = Create c" "F i = None" for i c
  proof -
    consider "i = 0" | "i = 1" | j where "i = Suc (Suc j)" "j < length es"
      | j where "i = Suc (Suc (length es + j))" "j < length mid"
      | j where "i = Suc (Suc (length es + length mid + j))" "j < length (map Close (rev cs))"
    proof -
      assume a: "i = 0 \<Longrightarrow> thesis" "i = 1 \<Longrightarrow> thesis" "\<And>j. i = Suc (Suc j) \<Longrightarrow> j < length es \<Longrightarrow> thesis"
        "\<And>j. i = Suc (Suc (length es + j)) \<Longrightarrow> j < length mid \<Longrightarrow> thesis"
        "\<And>j. i = Suc (Suc (length es + length mid + j)) \<Longrightarrow> j < length (map Close (rev cs)) \<Longrightarrow> thesis"
      have l: "i < Suc (Suc (length es + length mid + length (map Close (rev cs))))" using i(1) d(1) by simp
      show thesis using a(1,2) a(3)[of "i - 2"] a(4)[of "i - 2 - length es"] a(5)[of "i - 2 - length es - length mid"] l by linarith
    qed
    then show ?thesis
    proof cases
      case 3
      then show ?thesis using i d(1) d(4)[of j c] by (simp add: nth_append)
    next
      case 4
      then have "Create c \<in> set mid" using i(2) d(1) by (simp add: nth_append) (metis nth_mem)
      then show ?thesis using mid by simp
    next
      case 5
      then have "Create c = map Close (rev cs) ! j" using i(2) d(1) by (simp add: nth_append)
      then show ?thesis using 5(2) by (simp add: rev_nth)
    qed (use i(2) d(1) in simp_all)
  qed
  have "Serve \<notin> set es" using d(3) by (auto simp: startup_def)
  moreover have "Serve \<notin> set (map Close (rev cs))" by auto
  moreover have "Serve \<notin> set mid" if "prefix mid optional_events" using set_mono_prefix[OF that] by (auto simp: optional_events_def)
  ultimately have served: "cs = pushed startup \<and> (\<exists>p k. ?pre = p @ Serve # take k [Close SocketSecurity, Close CompanionBridge, DrainRetrieval] \<and> 1 \<le> k \<and>
         (F (length p + 1) = None \<and> F (length p + 2) = None \<longrightarrow> DrainRetrieval \<in> set ?pre))" if sv: "Serve \<in> set t"
  proof -
    obtain k where k: "cs = pushed startup" "mid = optional_events @ Serve # take k [Close SocketSecurity, Close CompanionBridge, DrainRetrieval]"
      "1 \<le> k" "F (length es + 6) = None \<and> F (length es + 7) = None \<longrightarrow> k = 3"
      using d(5) sv \<open>Serve \<notin> set es\<close> \<open>prefix mid optional_events \<Longrightarrow> Serve \<notin> set mid\<close> unfolding d(1) by auto
    let ?p = "ConfigureInference # MakeUploadDir # es @ optional_events"
    have l: "length ?p + 1 = length es + 6" "length ?p + 2 = length es + 7" by (simp_all add: optional_events_def)
    have "DrainRetrieval \<in> set ?pre" if "F (length ?p + 1) = None \<and> F (length ?p + 2) = None"
      using k(2) k(4)[folded l] that by simp
    then show ?thesis using k(1-3) by (intro conjI exI[of _ ?p] exI[of _ k] impI) simp_all
  qed
  have "\<forall>i < length t. \<forall>c. t ! i = Create c \<and> F i = None \<longrightarrow> i < length ?pre \<and> c \<in> set cs" using created by blast
  moreover have "t = ?pre @ map Close (rev cs)" using d(1) by simp
  ultimately show ?thesis using d(2) served unfolding startup_paired(2) by blast
qed

text \<open>If closing the sockets raises, the retrieval work is not waited for, and the stores are closed under it.\<close>

definition undrained :: trace where
  "undrained = [ConfigureInference, MakeUploadDir] @ events_of startup @ optional_events @ [Serve, Close SocketSecurity] @
     map Close [CompanionBridge, SocketSecurity, HistoryStore, VectorStore]"

lemma undrained_close: "lifespan (\<lambda>i. if i = 18 then Some RuntimeError else None) [] = (undrained, Inl RuntimeError)"
  by code_simp

theorem lifespan_closes_witness:
  "DrainRetrieval \<in> set (fst (lifespan (\<lambda>i. None) [])) \<and> last (fst (lifespan (\<lambda>i. None) [])) = Close VectorStore"
proof -
  obtain t r where t: "lifespan (\<lambda>i. None) [] = (t, r)" by (rule prod.exhaust)
  have s: "Serve \<in> set (fst (lifespan (\<lambda>i. None) []))" by code_simp
  show ?thesis using lifespan_closes[OF t] s unfolding t by auto
qed

section \<open>Endpoints\<close>

text \<open>Whether the workflow service is known, and what asking it raises.\<close>

definition health_dependencies :: "bool \<Rightarrow> exn option \<Rightarrow> string res" where
  "health_dependencies online probe = (if \<not> online then Inr ''unavailable''
     else (case probe of None \<Rightarrow> Inr ''ok'' | Some e \<Rightarrow> if e = CancelledError then Inl e else Inr ''unavailable''))"

definition upload_storage_of :: "settings \<Rightarrow> storage_kind" where
  "upload_storage_of S = (if text_of S ''ingestion_storage_backend'' = ''s3''
     then S3UploadStorage (text_of S ''ingestion_s3_bucket'') else LocalUploadStorage (text_of S ''upload_dir''))"

definition upload_document ::
  "up_env \<Rightarrow> settings \<Rightarrow> bool \<Rightarrow> string \<Rightarrow> string \<Rightarrow> string res \<Rightarrow> upload_source \<Rightarrow> (up_world, upload_response) st" where
  "upload_document E S online attempt version tenant src = bindS (liftS tenant) (\<lambda>tenant. (\<lambda>w.
     case upload_execute E (storage E (upload_storage_of S)) online (int_of_field S ''max_upload_bytes'') attempt version src tenant w of
       (w', Inl (UploadFailure n)) \<Rightarrow> (w', Inl (HTTPException n))
     | (w', r) \<Rightarrow> (w', r)))"

lemma ingestion_tenant: "get_ingestion_tenant resolve raw = Inr tenant \<longleftrightarrow>
    (\<exists>p. resolve raw = Inr (Some p) \<and> ''documents:ingest'' \<in> scopes p \<and> tenant = tenant_id p)"
  by (auto simp: get_ingestion_tenant_def get_current_principal_def authenticate_key_def require_def guardR_def
      split: sum.splits option.splits if_splits)

lemma upload_limit: "load_application V values = Inr S \<Longrightarrow> 1 \<le> int_of_field S ''max_upload_bytes'' \<and> int_of_field S ''max_upload_bytes'' \<le> 1024 * 1024 * 1024"
  by (rule load_application_facts(1)) (simp_all add: application_fields_def)


definition example_resolver :: "string option \<Rightarrow> principal option res" where
  "example_resolver k = Inr (Some \<lparr>tenant_id = ''t'', credential_id = ''c'', scopes = {''documents:ingest''}\<rparr>)"

lemma example_upload:
  assumes "text_of S ''ingestion_s3_bucket'' = ''docs''" "int_of_field S ''max_upload_bytes'' = 52428800" "text_of S ''ingestion_storage_backend'' = ''s3''"
  shows "length (uw_started (fst (upload_document (hasty_env\<lparr>ue_cancel := Uncancelled\<rparr>) S True ''x'' ''v'' (get_ingestion_tenant example_resolver None)
      example_source empty_world))) = 1"
proof -
  have t: "get_ingestion_tenant example_resolver None = Inr ''t''" by (simp add: ingestion_tenant example_resolver_def)
  have k: "upload_storage_of S = S3UploadStorage ''docs''" by (simp add: upload_storage_of_def assms)
  obtain w q where u: "upload_execute (hasty_env\<lparr>ue_cancel := Uncancelled\<rparr>) (storage (hasty_env\<lparr>ue_cancel := Uncancelled\<rparr>) (S3UploadStorage ''docs'')) True 52428800 ''x'' ''v''
      example_source ''t'' empty_world = (w, q)" by (rule prod.exhaust)
  have "length (uw_started (fst (upload_execute (hasty_env\<lparr>ue_cancel := Uncancelled\<rparr>) (storage (hasty_env\<lparr>ue_cancel := Uncancelled\<rparr>) (S3UploadStorage ''docs'')) True
      52428800 ''x'' ''v'' example_source ''t'' empty_world))) = 1" by code_simp
  then have "length (uw_started w) = 1" unfolding u by simp
  then show ?thesis by (auto simp: upload_document_def bindS_liftS t k assms(2) u simp del: storage.simps split: sum.splits exn.splits)
qed


end
