(* ===== verification/Ingestion_Activities.thy ===== *)
theory Ingestion_Activities
  imports Artifacts Ingestion_Props Lexical_Index
begin

text \<open>
  The activities that hand pages and chunks to each other (\<open>workflows/activities.py\<close>): storing and loading an artifact under an
  identity, chunking, persisting and indexing. Values are those of Python; the world has the artifacts, the tables, the vector
  database and the files of the lexical index.
\<close>

section \<open>The world\<close>

record ('s, 'v) step_world =
  sw_art :: "'s art_world"
  sw_db :: db
  sw_vec :: 'v
  sw_index :: index_files

definition on_art :: "('s art_world, 'a) st \<Rightarrow> (('s, 'v) step_world, 'a) st" where
  "on_art m = (\<lambda>w. case m (sw_art w) of (a, r) \<Rightarrow> (w\<lparr>sw_art := a\<rparr>, r))"

text \<open>A transaction is committed when it does not raise.\<close>

definition on_db :: "(db \<Rightarrow> db res) \<Rightarrow> (('s, 'v) step_world, unit) st" where
  "on_db f = (\<lambda>w. case f (sw_db w) of Inl e \<Rightarrow> (w, Inl e) | Inr s \<Rightarrow> (w\<lparr>sw_db := s\<rparr>, Inr ()))"

definition on_vec :: "('v, 'a) st \<Rightarrow> (('s, 'v) step_world, 'a) st" where
  "on_vec m = (\<lambda>w. case m (sw_vec w) of (v, r) \<Rightarrow> (w\<lparr>sw_vec := v\<rparr>, r))"

definition on_index :: "(db \<Rightarrow> (index_files, 'a) st) \<Rightarrow> (('s, 'v) step_world, 'a) st" where
  "on_index m = (\<lambda>w. case m (sw_db w) (sw_index w) of (f, r) \<Rightarrow> (w\<lparr>sw_index := f\<rparr>, r))"

section \<open>Artifacts of a workflow\<close>

definition store_artifact :: "'s art_env \<Rightarrow> artifact_store \<Rightarrow> identity \<Rightarrow> string \<Rightarrow> pyval list \<Rightarrow> ('s art_world, pyval) st" where
  "store_artifact E A i stage payload = bindS (put_json E A i stage (PList payload)) (\<lambda>ref.
     retS (PDict [(''storage_ref'', PStr ref), (''stage'', PStr stage), (''item_count'', PInt (int (length payload)))]))"

text \<open>Python's equality of a length with a value of JSON.\<close>

definition equals_int :: "int \<Rightarrow> pyval \<Rightarrow> bool" where
  "equals_int n v = (case v of PInt m \<Rightarrow> m = n | PBool b \<Rightarrow> (if b then 1 else 0) = n | PFloat (Fin x) \<Rightarrow> x = of_int n | _ \<Rightarrow> False)"

definition is_dict :: "pyval \<Rightarrow> bool" where
  "is_dict v = (case v of PDict d \<Rightarrow> True | _ \<Rightarrow> False)"

definition load_artifact :: "'s art_env \<Rightarrow> artifact_store \<Rightarrow> dict \<Rightarrow> identity \<Rightarrow> string \<Rightarrow> ('s art_world, pyval list) st" where
  "load_artifact E A descriptor i stage =
     (if dget descriptor ''stage'' \<noteq> PStr stage then failS ValueError
      else (case dget descriptor ''storage_ref'' of
          PStr ref \<Rightarrow> bindS (liftS (reference E A i stage)) (\<lambda>expected.
            if ref \<noteq> expected then failS ValueError
            else bindS (get_json E A ref) (\<lambda>payload. case payload of
                PList xs \<Rightarrow> if \<not> equals_int (int (length xs)) (dget descriptor ''item_count'') then failS ValueError
                  else if \<not> list_all is_dict xs then failS ValueError else retS xs
              | _ \<Rightarrow> failS ValueError))
        | _ \<Rightarrow> failS ValueError))"

text \<open>What an activity works on: with an identity the artifact of that identity, without one a list in its arguments.\<close>

definition activity_input ::
  "'s art_env \<Rightarrow> artifact_store \<Rightarrow> pyval \<Rightarrow> identity option \<Rightarrow> string \<Rightarrow> ('s art_world, pyval list) st" where
  "activity_input E A v identity stage = (case identity of
       Some i \<Rightarrow> (case v of PDict d \<Rightarrow> load_artifact E A d i stage | _ \<Rightarrow> failS ValueError)
     | None \<Rightarrow> (case v of PDict d \<Rightarrow> failS ValueError | PList xs \<Rightarrow> retS xs | _ \<Rightarrow> failS TypeError))"

text \<open>Extraction ends in storing its pages when there is an identity.\<close>

definition page_value :: "page \<Rightarrow> pyval" where
  "page_value p = PDict [(''page_number'', PInt (page_number p)), (''text'', PStr (page_text p)), (''category'', PStr ''Text'')]"

definition extraction_result ::
  "'s art_env \<Rightarrow> artifact_store \<Rightarrow> identity option \<Rightarrow> page list \<Rightarrow> ('s art_world, pyval) st" where
  "extraction_result E A identity pages = (case identity of
       Some i \<Rightarrow> store_artifact E A i ''pages'' (map page_value pages) | None \<Rightarrow> retS (PList (map page_value pages)))"

section \<open>Chunking\<close>

definition chunk_texts :: "int \<Rightarrow> int \<Rightarrow> string \<Rightarrow> string list" where
  "chunk_texts m ov t = filter (\<lambda>c. c \<noteq> []) (map strip (pack_sentences (split_into_sentences t) m ov))"

text \<open>A page without a number raises only when it has a chunk.\<close>

definition chunk_page_value :: "int \<Rightarrow> int \<Rightarrow> pyval \<Rightarrow> pyval list res" where
  "chunk_page_value m ov v = (case v of
       PDict d \<Rightarrow> bindR (dstring d ''text'') (\<lambda>t. mapR (\<lambda>c. bindR (dkey d ''page_number'') (\<lambda>n.
         Inr (PDict [(''text'', PStr c), (''page_number'', n)]))) (chunk_texts m ov t))
     | _ \<Rightarrow> Inl TypeError)"

definition chunk_page_values :: "int \<Rightarrow> int \<Rightarrow> pyval list \<Rightarrow> pyval list res" where
  "chunk_page_values m ov vs = bindR (mapR (chunk_page_value m ov) vs) (\<lambda>xss. Inr (concat xss))"

definition chunk_pages :: "'s art_env \<Rightarrow> artifact_store \<Rightarrow> pyval \<Rightarrow> int \<Rightarrow> int \<Rightarrow> identity option \<Rightarrow> ('s art_world, pyval) st" where
  "chunk_pages E A pages m ov identity =
     bindS (activity_input E A pages identity ''pages'') (\<lambda>ps.
     bindS (liftS (chunk_page_values m ov ps)) (\<lambda>chunks.
     case identity of Some i \<Rightarrow> store_artifact E A i ''chunks'' chunks | None \<Rightarrow> retS (PList chunks)))"

section \<open>Persisting and indexing\<close>

text \<open>The columns take an integer and a text; values of other types, which no activity writes, are refused here.\<close>

definition chunk_of_value :: "pyval \<Rightarrow> text_chunk res" where
  "chunk_of_value v = (case v of
       PDict d \<Rightarrow> bindR (dkey d ''page_number'') (\<lambda>n. bindR (dkey d ''text'') (\<lambda>t.
         case (n, t) of (PInt k, PStr s) \<Rightarrow> Inr \<lparr>chunk_text = s, chunk_page = k\<rparr> | _ \<Rightarrow> Inl DatabaseError))
     | _ \<Rightarrow> Inl TypeError)"

definition required_part :: "identity \<Rightarrow> string \<Rightarrow> string res" where
  "required_part i k = (case map_of i k of None \<Rightarrow> Inl KeyError | Some v \<Rightarrow> Inr v)"

definition identity_pair :: "identity option \<Rightarrow> (string \<times> string) option res" where
  "identity_pair identity = (case identity of None \<Rightarrow> Inr None
     | Some i \<Rightarrow> bindR (required_part i ''document_id'') (\<lambda>d. bindR (required_part i ''version_id'') (\<lambda>v. Inr (Some (d, v)))))"

definition persist_chunks ::
  "'s art_env \<Rightarrow> artifact_store \<Rightarrow> pyval \<Rightarrow> string \<Rightarrow> string \<Rightarrow> identity option \<Rightarrow> (('s, 'v) step_world, bool) st" where
  "persist_chunks E A chunks filename tenant identity =
     bindS (on_art (activity_input E A chunks identity ''chunks'')) (\<lambda>xs.
     bindS (liftS (identity_pair identity)) (\<lambda>ids.
     bindS (liftS (mapR chunk_of_value xs)) (\<lambda>cs.
     bindS (on_db (persist_chunks_sync cs filename tenant ids)) (\<lambda>_. retS True))))"

text \<open>The services an indexing uses: embedding, the vector database and its client, the ranking of the lexical index, and the clock.\<close>

record 'v index_env =
  ie_uuid5 :: "string \<Rightarrow> string"
  ie_embed :: "string list \<Rightarrow> rat list list res"
  ie_vectors :: "'v vector_db"
  ie_client :: client_args
  ie_okapi :: okapi
  ie_interval :: rat
  ie_now :: rat
  ie_mtime :: nat

definition retrieval_chunk :: "(string \<Rightarrow> string) \<Rightarrow> string \<Rightarrow> string \<Rightarrow> (string \<times> string) option \<Rightarrow> int \<Rightarrow> text_chunk \<Rightarrow> chunk" where
  "retrieval_chunk uuid5 tenant filename ids idx c =
     \<lparr>ch_id = make_chunk_id uuid5 tenant filename (chunk_page c) idx (map_option snd ids),
      ch_text = chunk_text c, ch_filename = filename, ch_page = chunk_page c, ch_index = idx, ch_tenant = tenant,
      ch_document = map_option fst ids, ch_version = map_option snd ids\<rparr>"

definition embed_and_index ::
  "'s art_env \<Rightarrow> artifact_store \<Rightarrow> 'v index_env \<Rightarrow> pyval \<Rightarrow> string \<Rightarrow> string \<Rightarrow> identity option \<Rightarrow> (('s, 'v) step_world, bool) st" where
  "embed_and_index E A V chunks filename tenant identity =
     bindS (on_art (activity_input E A chunks identity ''chunks'')) (\<lambda>xs.
     bindS (if identity = None then on_vec (delete_by_filename (ie_vectors V) (ie_client V) tenant filename) else retS ()) (\<lambda>_.
     bindS (liftS (identity_pair identity)) (\<lambda>ids.
     bindS (liftS (mapR chunk_of_value xs)) (\<lambda>cs.
     bindS (on_vec (index_chunks (ie_embed V) (ie_vectors V) (ie_client V)
         (map2 (retrieval_chunk (ie_uuid5 V) tenant filename ids) [0..int (length cs) - 1] cs))) (\<lambda>_.
     bindS (on_index (rebuild_index_from_postgres (ie_okapi V) (ie_uuid5 V) (ie_interval V) False (ie_now V) (ie_mtime V))) (\<lambda>_.
       retS True))))))"

section \<open>Pages and chunks as values\<close>

definition chunk_value :: "text_chunk \<Rightarrow> pyval" where
  "chunk_value c = PDict [(''text'', PStr (chunk_text c)), (''page_number'', PInt (chunk_page c))]"

lemma mapR_pure: "(\<And>x. x \<in> set xs \<Longrightarrow> f x = Inr (g x)) \<Longrightarrow> mapR f xs = Inr (map g xs)"
  by (induction xs) simp_all

lemma chunk_page_value_page:
  "chunk_page_value m ov (page_value p) = Inr (map chunk_value (chunk_page_sync m ov p))"
proof -
  have "mapR (\<lambda>c. bindR (dkey [(''page_number'', PInt (page_number p)), (''text'', PStr (page_text p)), (''category'', PStr ''Text'')] ''page_number'')
      (\<lambda>n. Inr (PDict [(''text'', PStr c), (''page_number'', n)]))) cs =
    Inr (map (\<lambda>c. PDict [(''text'', PStr c), (''page_number'', PInt (page_number p))]) cs)" for cs
    by (rule mapR_pure) (simp add: dkey_def)
  then show ?thesis
    by (simp add: chunk_page_value_def page_value_def dstring_def dkey_def chunk_texts_def chunk_page_sync_def chunk_value_def nonblank_def comp_def)
qed

text \<open>The activity on values is the chunking of pages.\<close>

lemma chunk_page_values_pages:
  "chunk_page_values m ov (map page_value ps) = Inr (map chunk_value (chunk_pages_sync ps m ov))"
proof -
  have "mapR (chunk_page_value m ov) (map page_value ps) = Inr (map (\<lambda>p. map chunk_value (chunk_page_sync m ov p)) ps)"
    by (induction ps) (simp_all add: chunk_page_value_page)
  then show ?thesis by (simp add: chunk_page_values_def chunk_pages_sync_def map_concat comp_def)
qed

lemma chunks_of_values: "mapR chunk_of_value (map chunk_value cs) = Inr cs"
proof -
  have "mapR chunk_of_value (map chunk_value cs) = Inr (map id cs)"
    by (induction cs) (simp_all add: chunk_of_value_def chunk_value_def dkey_def)
  then show ?thesis by simp
qed

text \<open>A page number that the decoder of JSON takes.\<close>

definition page_ok :: "page \<Rightarrow> bool" where
  "page_ok p = (length (nat_digits (nat \<bar>page_number p\<bar>)) \<le> 4300)"

lemma plain_pages: "list_all page_ok ps \<Longrightarrow> plain_json (PList (map page_value ps))"
  by (auto simp: list_all_iff page_ok_def page_value_def)

lemma plain_chunks: "list_all page_ok ps \<Longrightarrow> plain_json (PList (map chunk_value (chunk_pages_sync ps m ov)))"
  by (auto simp: list_all_iff page_ok_def chunk_value_def chunk_pages_sync_def chunk_page_sync_def)

lemma nesting_values: "json_nesting (PList (map page_value ps)) \<le> 2" "json_nesting (PList (map chunk_value cs)) \<le> 2"
proof -
  have "fold max xs 0 \<le> (1::nat)" if "\<forall>x \<in> set xs. x \<le> 1" for xs
    using that by (induction xs rule: rev_induct) auto
  then show "json_nesting (PList (map page_value ps)) \<le> 2" "json_nesting (PList (map chunk_value cs)) \<le> 2"
    by (auto simp: page_value_def chunk_value_def comp_def)
qed

section \<open>Handing over\<close>

lemma load_artifact_cases:
  assumes "load_artifact E A d i stage w = (w', Inr xs)"
  shows "\<exists>ref. reference E A i stage = Inr ref \<and> get_json E A ref w = (w', Inr (PList xs)) \<and> list_all is_dict xs"
proof (cases "dget d ''storage_ref''")
  case (PStr ref)
  then obtain v where v: "reference E A i stage = Inr ref" "get_json E A ref w = (w', Inr v)"
    and x: "(case v of PList xs \<Rightarrow> if \<not> equals_int (int (length xs)) (dget d ''item_count'') then failS ValueError
                  else if \<not> list_all is_dict xs then failS ValueError else retS xs
              | _ \<Rightarrow> failS ValueError) w' = (w', Inr xs)"
    using assms unfolding load_artifact_def by (auto split: if_splits) (auto split: pyval.splits if_splits)
  then show ?thesis by (cases v) (auto split: if_splits)
qed (use assms in \<open>auto simp: load_artifact_def failS_def split: if_splits\<close>)

text \<open>What was stored under an identity is what a later activity with this identity loads.\<close>

lemma stored_then_loaded:
  assumes "env_ok E A" "s3_laws (e_s3 E) (e_size E) view" "bucket_ok E A" "artifact_key i stage = Inr key" "2 \<le> e_depth E"
    and "plain_json (PList xs)" "json_nesting (PList xs) \<le> 2" "store_artifact E A i stage xs w = (w1, Inr desc)"
    and "list_all (elsewhere key) ops" "load_artifact E A d i stage (fold (run_artifact_op E A) ops w1) = (w2, Inr ys)"
  shows "ys = xs"
proof -
  obtain ref where p: "put_json E A i stage (PList xs) w = (w1, Inr ref)" using assms(8) by (auto simp: store_artifact_def)
  obtain ref' where l: "reference E A i stage = Inr ref'" "get_json E A ref' (fold (run_artifact_op E A) ops w1) = (w2, Inr (PList ys))"
    using load_artifact_cases[OF assms(10)] by blast
  have h: "held E A view key w1 = Some (Gzip (json_dumps False (e_repr E) (PList xs))) \<and>
      fits E A (json_dumps False (e_repr E) (PList xs)) \<and> reference E A i stage = Inr ref"
    using put_json_effect(2)[OF assms(1,2,4,6) p refl] assms(4) by auto
  have "Inr (PList ys) = Inr (PList xs) \<or> (\<exists>e. (Inr (PList ys) :: pyval res) = Inl e \<and> (os_failure E e \<or> s3_failure E e))"
    using get_written[OF assms(1-4) l(1) _ _ assms(6) _ l(2)] h elsewhere_all[OF assms(1,2,4,9)] assms(5,7) by simp
  then show ?thesis by simp
qed

lemma store_artifact_descriptor:
  "store_artifact E A i stage xs w = (w1, Inr desc) \<Longrightarrow> \<exists>d. desc = PDict d"
  by (auto simp: store_artifact_def)

lemma on_art_iff: "on_art m w = (w', r) \<longleftrightarrow> (\<exists>a. m (sw_art w) = (a, r) \<and> w' = w\<lparr>sw_art := a\<rparr>)"
  by (auto simp: on_art_def split: prod.splits)

lemma on_vec_iff: "on_vec m w = (w', r) \<longleftrightarrow> (\<exists>v. m (sw_vec w) = (v, r) \<and> w' = w\<lparr>sw_vec := v\<rparr>)"
  by (auto simp: on_vec_def split: prod.splits)

lemma on_index_iff: "on_index m w = (w', r) \<longleftrightarrow> (\<exists>f. m (sw_db w) (sw_index w) = (f, r) \<and> w' = w\<lparr>sw_index := f\<rparr>)"
  by (auto simp: on_index_def split: prod.splits)

lemma on_db_iff: "on_db f w = (w', Inr u) \<longleftrightarrow> (\<exists>s. f (sw_db w) = Inr s \<and> w' = w\<lparr>sw_db := s\<rparr>)"
  by (auto simp: on_db_def split: sum.splits)

text \<open>C4 (functional): from the extracted pages to the rows of a version. If the pages were stored under an identity, the chunking
  activity ran on the reference, and persisting ran on its reference, while in between activities wrote, read and
  deleted other artifacts in any order, then the rows of the version are the chunks of exactly these pages, in order and
  numbered from 0, and the rows of every other version are unchanged.\<close>

theorem pages_become_rows:
  assumes "env_ok E A" "s3_laws (e_s3 E) (e_size E) view" "bucket_ok E A" "2 \<le> e_depth E" "list_all page_ok pages"
    and "artifact_key i ''pages'' = Inr kp" "artifact_key i ''chunks'' = Inr kc" "map_of i ''version_id'' = Some ver" "map_of i ''document_id'' = Some doc"
    and "extraction_result E A (Some i) pages a = (a1, Inr pref)"
    and "list_all (elsewhere kp) ops1" "chunk_pages E A pref m ov (Some i) (fold (run_artifact_op E A) ops1 a1) = (a2, Inr cref)"
    and "list_all (elsewhere kc) ops2" "sw_art w = fold (run_artifact_op E A) ops2 a2" "db_inv (sw_db w)"
    and "persist_chunks E A cref filename tenant (Some i) w = (w', Inr b)"
  shows "filter (\<lambda>r. c_version r = ver) (vchunks (sw_db w')) =
      map2 (vchunk_of tenant doc ver filename) [0..int (length (chunk_pages_sync pages m ov)) - 1] (chunk_pages_sync pages m ov) \<and>
    filter (\<lambda>r. c_version r \<noteq> ver) (vchunks (sw_db w')) = filter (\<lambda>r. c_version r \<noteq> ver) (vchunks (sw_db w))"
proof -
  have x: "store_artifact E A i ''pages'' (map page_value pages) a = (a1, Inr pref)" using assms(10) by (simp add: extraction_result_def)
  obtain d where d: "pref = PDict d" using store_artifact_descriptor[OF x] by blast
  obtain a1' ps cs where c: "load_artifact E A d i ''pages'' (fold (run_artifact_op E A) ops1 a1) = (a1', Inr ps)"
      "chunk_page_values m ov ps = Inr cs" "store_artifact E A i ''chunks'' cs a1' = (a2, Inr cref)"
    using assms(12) by (auto simp: chunk_pages_def activity_input_def d)
  have "ps = map page_value pages"
    by (rule stored_then_loaded[OF assms(1-3,6,4) plain_pages[OF assms(5)] nesting_values(1) x assms(11) c(1)])
  then have cs: "cs = map chunk_value (chunk_pages_sync pages m ov)" using c(2) by (simp add: chunk_page_values_pages)
  obtain e where e: "cref = PDict e" using store_artifact_descriptor[OF c(3)] by blast
  obtain a3 ys ts s where p: "load_artifact E A e i ''chunks'' (fold (run_artifact_op E A) ops2 a2) = (a3, Inr ys)"
      "mapR chunk_of_value ys = Inr ts" "persist_chunks_sync ts filename tenant (Some (doc, ver)) (sw_db w) = Inr s" "sw_db w' = s"
    using assms(16) by (auto simp: persist_chunks_def activity_input_def e on_art_iff on_db_iff identity_pair_def required_part_def assms(8,9,14))
  have "ys = cs" unfolding cs
    by (rule stored_then_loaded[OF assms(1-3,7,4) plain_chunks[OF assms(5)] nesting_values(2) c(3)[unfolded cs] assms(13) p(1)])
  then have "ts = chunk_pages_sync pages m ov" using p(2) by (simp add: cs chunks_of_values)
  then show ?thesis using persist_exact[OF assms(15) p(3)] p(4) by simp
qed

section \<open>A document on its way\<close>

definition way_identity :: identity where
  "way_identity = [(''tenant_id'', ''t''), (''document_id'', ''d''), (''version_id'', ''v'')]"

definition way_pages :: "page list" where
  "way_pages = [\<lparr>page_number = 1, page_text = ''Hi''\<rparr>]"

definition way_start :: "unit art_world" where
  "way_start = \<lparr>aw_files = \<lambda>p. None, aw_s3 = ()\<rparr>"

definition way_world :: "unit art_world \<Rightarrow> (unit, unit) step_world" where
  "way_world a = \<lparr>sw_art = a, sw_db = demo_db, sw_vec = (), sw_index = \<lparr>f_index = None, f_rebuilt = None, f_dirty = False\<rparr>\<rparr>"

lemma way_runs:
  "case extraction_result example_env example_store (Some way_identity) way_pages way_start of (a1, Inl e) \<Rightarrow> False | (a1, Inr p) \<Rightarrow>
     (case chunk_pages example_env example_store p 50 0 (Some way_identity) a1 of (a2, Inl e) \<Rightarrow> False | (a2, Inr c) \<Rightarrow>
        (case persist_chunks example_env example_store c ''f'' ''t'' (Some way_identity) (way_world a2) of (w, Inl e) \<Rightarrow> False | (w, Inr b) \<Rightarrow> b))"
  by code_simp

lemma run_case: "(case m of (a, Inl e) \<Rightarrow> False | (a, Inr x) \<Rightarrow> P a x) \<Longrightarrow> \<exists>a x. m = (a, Inr x) \<and> P a x"
  by (cases m; cases "snd m") auto

theorem pages_become_rows_witness:
  "\<exists>w. map c_text (filter (\<lambda>r. c_version r = ''v'') (vchunks (sw_db (w :: (unit, unit) step_world)))) = [''Hi'']"
proof -
  obtain a1 p where x: "extraction_result example_env example_store (Some way_identity) way_pages way_start = (a1, Inr p)"
    and rest: "case chunk_pages example_env example_store p 50 0 (Some way_identity) a1 of (a2, Inl e) \<Rightarrow> False | (a2, Inr c) \<Rightarrow>
        (case persist_chunks example_env example_store c ''f'' ''t'' (Some way_identity) (way_world a2) of (w, Inl e) \<Rightarrow> False | (w, Inr b) \<Rightarrow> b)"
    using run_case[OF way_runs] by (elim exE conjE) (rule that)
  obtain a2 c where c: "chunk_pages example_env example_store p 50 0 (Some way_identity) a1 = (a2, Inr c)"
    and rest2: "case persist_chunks example_env example_store c ''f'' ''t'' (Some way_identity) (way_world a2) of (w, Inl e) \<Rightarrow> False | (w, Inr b) \<Rightarrow> b"
    using run_case[OF rest] by (elim exE conjE) (rule that)
  obtain w b where w: "persist_chunks example_env example_store c ''f'' ''t'' (Some way_identity) (way_world a2) = (w, Inr b)"
    using run_case[OF rest2] by (elim exE conjE) (rule that)
  let ?k = "\<lambda>s. join_with ''/'' (artifact_path ''t'' ''d'' ''v'' s)"
  have k: "artifact_key way_identity ''pages'' = Inr (?k ''pages'')" "artifact_key way_identity ''chunks'' = Inr (?k ''chunks'')"
    by (simp_all add: artifact_key_def way_identity_def ARTIFACT_STAGES_def part_ok_def)
  have m: "map_of way_identity ''version_id'' = Some ''v''" "map_of way_identity ''document_id'' = Some ''d''" by (simp_all add: way_identity_def)
  have d: "2 \<le> e_depth example_env" "list_all page_ok way_pages" "db_inv (sw_db (way_world a2))"
    using demo_db_inv by (simp_all add: example_env_def way_pages_def page_ok_def way_world_def nat_digits.simps)
  have e: "list_all (elsewhere (?k ''pages'')) []" "list_all (elsewhere (?k ''chunks'')) []" by simp_all
  have f: "chunk_pages example_env example_store p 50 0 (Some way_identity) (fold (run_artifact_op example_env example_store) [] a1) = (a2, Inr c)"
    "sw_art (way_world a2) = fold (run_artifact_op example_env example_store) [] a2"
    using c by (simp_all add: way_world_def)
  have "filter (\<lambda>r. c_version r = ''v'') (vchunks (sw_db w)) =
      map2 (vchunk_of ''t'' ''d'' ''v'' ''f'') [0..int (length (chunk_pages_sync way_pages 50 0)) - 1] (chunk_pages_sync way_pages 50 0)"
    using pages_become_rows[OF example_env_ok(1-3) d(1,2) k m x e(1) f(1) e(2) f(2) d(3) w] by (rule conjunct1)
  moreover have "map c_text (map2 (vchunk_of ''t'' ''d'' ''v'' ''f'') [0..int (length (chunk_pages_sync way_pages 50 0)) - 1] (chunk_pages_sync way_pages 50 0)) = [''Hi'']"
    by code_simp
  ultimately show ?thesis by (intro exI[of _ w]) simp
qed

section \<open>Indexing a staged version\<close>

text \<open>An upsert replaces the points of its identifiers.\<close>

definition upsert_law :: "'v vector_db \<Rightarrow> ('v \<Rightarrow> string \<Rightarrow> (string \<times> dict) list) \<Rightarrow> bool" where
  "upsert_law db view = (\<forall>s s' c ps. vd_upsert db c ps s = (s', Inr ()) \<longrightarrow>
     set (view s' c) \<subseteq> {p \<in> set (view s c). fst p \<notin> fst ` set ps} \<union> (\<lambda>(i, v, d). (i, d)) ` set ps \<and>
     {p \<in> set (view s c). fst p \<notin> fst ` set ps} \<subseteq> set (view s' c))"

text \<open>Preparing the collection keeps what it holds.\<close>

definition prepare_law :: "'v vector_db \<Rightarrow> ('v \<Rightarrow> string \<Rightarrow> (string \<times> dict) list) \<Rightarrow> bool" where
  "prepare_law db view = (\<forall>s s' c r. ensure_collection db c s = (s', r) \<longrightarrow> set (view s' c) = set (view s c))"

lemma index_staged:
  assumes "upsert_law db view" "prepare_law db view" "\<forall>c \<in> set cs. \<exists>d v. ch_document c = Some d \<and> ch_version c = Some v"
    and "index_chunks embedder db a cs s = (s', Inr ())"
  shows "Vector_Store.visible tenant (view s' (collection_name a)) = {p \<in> Vector_Store.visible tenant (view s (collection_name a)). fst p \<notin> ch_id ` set cs}"
proof (cases "cs = []")
  case True
  then have "s' = s" using assms(4) by (simp add: index_chunks_def)
  then show ?thesis using True by simp
next
  case False
  let ?c = "collection_name a"
  obtain vectors where v: "length vectors = length cs"
    "using_client a (\<lambda>name. bindS (ensure_collection db name) (\<lambda>_.
          vd_upsert db name (map2 (\<lambda>c v. (ch_id c, v, chunk_payload c)) cs vectors))) s = (s', Inr ())"
    using assms(4) False unfolding index_chunks_def by (auto split: if_splits)
  let ?ps = "map2 (\<lambda>c v. (ch_id c, v, chunk_payload c)) cs vectors"
  obtain s1 where s1: "ensure_collection db ?c s = (s1, Inr ())" "vd_upsert db ?c ?ps s1 = (s', Inr ())"
    using using_client_Inr[OF v(2)] by auto
  have i: "fst ` set ?ps = ch_id ` set cs"
  proof -
    have "map fst ?ps = map ch_id cs" using v(1) by (induction cs vectors rule: list_induct2') auto
    from arg_cong[OF this, of set] show ?thesis unfolding set_map .
  qed
  define N where "N = (\<lambda>(i, v, d). (i, d)) ` set ?ps"
  have n: "\<not> cond_holds (snd p) VISIBLE" if p: "p \<in> N" for p
  proof -
    obtain c where c: "c \<in> set cs" "snd p = chunk_payload c" using p unfolding N_def by (auto dest!: set_zip_leftD)
    obtain d v where "ch_document c = Some d" "ch_version c = Some v" using assms(3) c(1) by blast
    then show ?thesis unfolding c(2) by (simp add: chunk_payload_def VISIBLE_def dget_def)
  qed
  have u: "set (view s' ?c) \<subseteq> {p \<in> set (view s ?c). fst p \<notin> ch_id ` set cs} \<union> N"
    "{p \<in> set (view s ?c). fst p \<notin> ch_id ` set cs} \<subseteq> set (view s' ?c)"
    using assms(1)[unfolded upsert_law_def, rule_format, OF s1(2)] assms(2)[unfolded prepare_law_def, rule_format, OF s1(1)]
    unfolding i N_def by blast+
  show ?thesis unfolding Vector_Store.visible_def using u n by blast
qed


text \<open>A collection that keeps one point for each identifier.\<close>

definition keyed_db :: "(string \<times> dict) list vector_db" where
  "keyed_db = list_db\<lparr>vd_upsert := \<lambda>c ps s. (filter (\<lambda>p. fst p \<notin> fst ` set ps) s @ map (\<lambda>(i, v, d). (i, d)) ps, Inr ())\<rparr>"

lemma keyed_db_laws: "upsert_law keyed_db (\<lambda>s c. s)" "prepare_law keyed_db (\<lambda>s c. s)"
proof -
  show "upsert_law keyed_db (\<lambda>s c. s)" unfolding upsert_law_def by (auto simp: keyed_db_def list_db_def)
  have "ensure_collection keyed_db c s = (s', r) \<Longrightarrow> s' = s" for s s' c r
    by (auto simp: ensure_collection_def keyed_db_def list_db_def bindS_def readS_def retS_def failS_def split: if_splits)
  then show "prepare_law keyed_db (\<lambda>s c. s)" unfolding prepare_law_def by blast
qed

definition way_index :: "(string \<times> dict) list index_env" where
  "way_index = \<lparr>ie_uuid5 = \<lambda>s. s, ie_embed = \<lambda>ts. Inr (map (\<lambda>t. replicate VECTOR_SIZE 0) ts), ie_vectors = keyed_db, ie_client = in_list,
     ie_okapi = \<lambda>d. Inr (\<lambda>q. map (\<lambda>x. 0) d), ie_interval = 60, ie_now = 0, ie_mtime = 0\<rparr>"

definition way_chunk :: text_chunk where "way_chunk = \<lparr>chunk_text = ''Hi'', chunk_page = 1\<rparr>"

text \<open>A run of the indexing of a version that outlasts its activity, and ends after another attempt activated the version, hides it.\<close>

lemma late_index_hides:
  "let i = make_chunk_id (ie_uuid5 way_index) ''t'' ''f'' 1 0 (Some ''v'');
       d = chunk_payload (retrieval_chunk (ie_uuid5 way_index) ''t'' ''f'' (Some (''d'', ''v'')) 0 way_chunk);
       active = [(i, dset ''is_active'' (PBool True) d)]
   in Vector_Store.visible ''t'' active \<noteq> {} \<and>
      (\<forall>s'. index_chunks (ie_embed way_index) keyed_db in_list [retrieval_chunk (ie_uuid5 way_index) ''t'' ''f'' (Some (''d'', ''v'')) 0 way_chunk] active = (s', Inr ()) \<longrightarrow>
         Vector_Store.visible ''t'' s' = {})"
proof -
  let ?c = "retrieval_chunk (ie_uuid5 way_index) ''t'' ''f'' (Some (''d'', ''v'')) 0 way_chunk"
  let ?i = "make_chunk_id (ie_uuid5 way_index) ''t'' ''f'' 1 0 (Some ''v'')"
  let ?active = "[(?i, dset ''is_active'' (PBool True) (chunk_payload ?c))]"
  have id: "ch_id ?c = ?i" by (simp add: retrieval_chunk_def way_chunk_def)
  have v: "of_tenant ''t'' (dset ''is_active'' (PBool True) (chunk_payload ?c))" "cond_holds (dset ''is_active'' (PBool True) (chunk_payload ?c)) VISIBLE"
    by (simp_all add: of_tenant_def chunk_payload_def retrieval_chunk_def dset_def VISIBLE_def)
  have "\<forall>x \<in> set [?c]. \<exists>d v. ch_document x = Some d \<and> ch_version x = Some v" by (simp add: retrieval_chunk_def)
  from index_staged[OF keyed_db_laws this, of "ie_embed way_index" in_list ?active _ "''t''"] id
  show ?thesis using v unfolding Let_def by (auto simp: Vector_Store.visible_def)
qed

definition way_indexed :: "unit art_world \<Rightarrow> (unit, (string \<times> dict) list) step_world" where
  "way_indexed a = \<lparr>sw_art = a, sw_db = demo_db, sw_vec = two_versions, sw_index = \<lparr>f_index = None, f_rebuilt = None, f_dirty = False\<rparr>\<rparr>"

lemma way_indexes:
  "case store_artifact example_env example_store way_identity ''chunks'' [chunk_value way_chunk] way_start of (a, Inl e) \<Rightarrow> False | (a, Inr c) \<Rightarrow>
     (case embed_and_index example_env example_store way_index c ''f'' ''t'' (Some way_identity) (way_indexed a) of (w, Inl e) \<Rightarrow> False | (w, Inr b) \<Rightarrow> b)"
  by code_simp


end
