(* ===== verification/Ocr.thy ===== *)
theory Ocr
  imports Ingestion_Props Ranking Upload
begin

text \<open>
  Where the pages come from (\<open>workflows/activities.py\<close>): the local copy of a stored document, the choice between extraction
  and OCR, and Amazon Textract with its job, which outlives a retry of the activity. The readers of documents, the object
  store and Textract are arguments, with a fault for every request.
\<close>

section \<open>The local copy\<close>

text \<open>How the download of an object ends for the activity: an interval passes and the heartbeat may raise, the thread ends, or the
  activity is cancelled, by its timeout at last. A cancelled activity leaves the download to its thread.\<close>

datatype beat = Quiet "exn option" | ThreadEnds "exn option" | Cancels

datatype download = Downloaded | DownloadRaises exn | DownloadCancelled

fun run_sync_with_heartbeat :: "beat list \<Rightarrow> download" where
  "run_sync_with_heartbeat [] = DownloadCancelled"
| "run_sync_with_heartbeat (Cancels # bs) = DownloadCancelled"
| "run_sync_with_heartbeat (ThreadEnds e # bs) = (case e of None \<Rightarrow> Downloaded | Some x \<Rightarrow> DownloadRaises x)"
| "run_sync_with_heartbeat (Quiet e # bs) =
     (if e = None \<or> e = Some RuntimeError then run_sync_with_heartbeat bs else DownloadRaises (the e))"

record copy_env =
  ce_temp :: string
  ce_make :: "exn option"
  ce_beats :: "beat list"
  ce_unlink :: "exn option"
  ce_ip6 :: "string \<Rightarrow> bool"
  ce_decode :: "bytes \<Rightarrow> string"
  ce_url2path :: "string \<Rightarrow> string"

text \<open>The temporary files, those a thread still writes, and what has been opened.\<close>

record copy_world =
  cw_files :: "string set"
  cw_tracked :: "string set"
  cw_opened :: "string list"

definition unlink_temp :: "copy_env \<Rightarrow> (copy_world, unit) st" where
  "unlink_temp E = (\<lambda>w. case ce_unlink E of None \<Rightarrow> (w\<lparr>cw_files := cw_files w - {ce_temp E}\<rparr>, Inr ()) | Some e \<Rightarrow> (w, Inl e))"

definition materialized_source :: "copy_env \<Rightarrow> string \<Rightarrow> (string \<Rightarrow> (copy_world, 'a) st) \<Rightarrow> (copy_world, 'a) st" where
  "materialized_source E ref body = bindS (liftS (urlsplit (ce_ip6 E) ref)) (\<lambda>u.
     if u_scheme u \<noteq> ''s3'' then body (if u_scheme u = ''file'' then ce_url2path E (u_path u) else ref)
     else (let key = unquote (ce_decode E) (dropWhile (\<lambda>c. c = CHR ''/'') (u_path u)) in
       if u_netloc u = [] \<or> key = [] \<or> ''..'' \<in> set (split_on CHR ''/'' key) then failS ValueError
       else (case ce_make E of Some e \<Rightarrow> failS e
         | None \<Rightarrow> (\<lambda>w. let w1 = w\<lparr>cw_files := insert (ce_temp E) (cw_files w)\<rparr> in
             (case run_sync_with_heartbeat (ce_beats E) of
                DownloadCancelled \<Rightarrow> (w1\<lparr>cw_tracked := insert (ce_temp E) (cw_tracked w1)\<rparr>, Inl CancelledError)
              | DownloadRaises e \<Rightarrow> bindS (unlink_temp E) (\<lambda>_. failS e) w1
              | Downloaded \<Rightarrow> (case body (ce_temp E) w1 of (w2, r) \<Rightarrow> bindS (unlink_temp E) (\<lambda>_. liftS r) w2))))))"

text \<open>The thread ends: its callback removes the file, and only logs when it cannot.\<close>

definition download_ends :: "copy_env \<Rightarrow> copy_world \<Rightarrow> copy_world" where
  "download_ends E w = (if ce_temp E \<in> cw_tracked w
     then (fst (unlink_temp E w))\<lparr>cw_tracked := cw_tracked w - {ce_temp E}\<rparr> else w)"

definition open_source :: "'a res \<Rightarrow> string \<Rightarrow> (copy_world, 'a) st" where
  "open_source r p = (\<lambda>w. (w\<lparr>cw_opened := cw_opened w @ [p]\<rparr>, r))"

section \<open>Which reader\<close>

text \<open>The pages of a PDF, each with its text if it has any, or what reading it raises; the reader itself may raise.\<close>

type_synonym pdf = "string option res list res"

definition extension_of :: "string \<Rightarrow> string" where
  "extension_of filename = lower (extension (basename filename))"

definition pdf_has_text_layer :: "pdf \<Rightarrow> bool" where
  "pdf_has_text_layer pdf = (case bindR pdf (\<lambda>ps. mapR (\<lambda>p. bindR p (\<lambda>t. Inr (case t of None \<Rightarrow> [] | Some s \<Rightarrow> s))) (take 3 ps)) of
       Inl e \<Rightarrow> False | Inr ts \<Rightarrow> length (strip (concat ts)) > 20)"

definition detect_document_type :: "pdf \<Rightarrow> string \<Rightarrow> string" where
  "detect_document_type pdf filename = (let ext = extension_of filename in
     if ext \<in> {''.png'', ''.jpg'', ''.jpeg'', ''.tiff''} then ''scanned''
     else if ext = ''.pdf'' then (if pdf_has_text_layer pdf then ''native'' else ''scanned'') else ''native'')"

section \<open>Native documents\<close>

datatype partition = Elements "element list" | NotInstalled exn | PartitionRaises exn

text \<open>The pages of a PDF that have text, by their position.\<close>

definition extract_pdf :: "pdf \<Rightarrow> page list res" where
  "extract_pdf pdf = bindR pdf (\<lambda>ps. bindR (mapR (\<lambda>(n, p). bindR p (\<lambda>t. Inr \<lparr>page_number = n,
       page_text = strip (case t of None \<Rightarrow> [] | Some s \<Rightarrow> s)\<rparr>)) (zip [1..int (length ps)] ps)) (\<lambda>pages.
     Inr (filter (\<lambda>p. page_text p \<noteq> []) pages)))"

definition extract_with_unstructured :: "partition \<Rightarrow> pdf \<Rightarrow> string \<Rightarrow> page list res" where
  "extract_with_unstructured part pdf path = (case part of
       Elements es \<Rightarrow> Inr (elements_to_pages es)
     | PartitionRaises e \<Rightarrow> Inl e
     | NotInstalled e \<Rightarrow> if extension_of path \<noteq> ''.pdf'' then Inl e else extract_pdf pdf)"

section \<open>Textract\<close>

text \<open>Requests are numbered; one that fails may have taken effect. A start returns the job of its token while Textract remembers
  the token, and a new job otherwise. The replies to the polls and the pages of the result come in order; when they run out the
  activity is cancelled, as its timeout does.\<close>

datatype job_status = InProgress | Succeeded | Failed

record ocr_env =
  oe_bucket :: string
  oe_fault :: "nat \<Rightarrow> bool \<times> exn option"
  oe_remembers :: "string \<Rightarrow> bool"
  oe_job :: "nat \<Rightarrow> string"
  oe_random :: string
  oe_polls :: "job_status list"
  oe_pages :: "(block list \<times> string option) list"
  oe_now :: int

record ocr_world =
  ow_db :: db
  ow_inputs :: "string list"
  ow_jobs :: "(string option \<times> string) list"
  ow_calls :: nat

definition ocr_request :: "ocr_env \<Rightarrow> (ocr_world \<Rightarrow> ocr_world) \<Rightarrow> (ocr_world, unit) st" where
  "ocr_request E f = (\<lambda>w. case oe_fault E (ow_calls w) of (effect, e) \<Rightarrow>
     (let w1 = w\<lparr>ow_calls := Suc (ow_calls w)\<rparr> in
      (if effect \<or> e = None then f w1 else w1, case e of None \<Rightarrow> Inr () | Some x \<Rightarrow> Inl x)))"

text \<open>A transaction that the tables refuse changes nothing; when the connection is lost it may have been committed.\<close>

definition ocr_tx :: "ocr_env \<Rightarrow> (db \<Rightarrow> db res) \<Rightarrow> (ocr_world, unit) st" where
  "ocr_tx E f = bindS (\<lambda>w. (w, map_sum id (\<lambda>s. ()) (f (ow_db w)))) (\<lambda>_.
     ocr_request E (\<lambda>w. case f (ow_db w) of Inl e \<Rightarrow> w | Inr s \<Rightarrow> w\<lparr>ow_db := s\<rparr>))"

definition known_job :: "ocr_env \<Rightarrow> string option \<Rightarrow> ocr_world \<Rightarrow> string option" where
  "known_job E token w = (case token of None \<Rightarrow> None
     | Some t \<Rightarrow> if oe_remembers E t then map_of (ow_jobs w) (Some t) else None)"

definition start_document_analysis :: "ocr_env \<Rightarrow> string option \<Rightarrow> (ocr_world, string) st" where
  "start_document_analysis E token = (\<lambda>w. case known_job E token w of
       Some j \<Rightarrow> bindS (ocr_request E id) (\<lambda>_. retS j) w
     | None \<Rightarrow> (let j = oe_job E (length (ow_jobs w)) in
         bindS (ocr_request E (\<lambda>w. w\<lparr>ow_jobs := (token, j) # ow_jobs w\<rparr>)) (\<lambda>_. retS j) w))"

definition given :: "string option \<Rightarrow> bool" where
  "given x = (x \<noteq> None \<and> x \<noteq> Some [])"

definition set_status :: "ocr_env \<Rightarrow> string option \<Rightarrow> string \<Rightarrow> string \<Rightarrow> (ocr_world, unit) st" where
  "set_status E version job status = (if given version
     then ocr_tx E (set_textract_job_status_sync (the version) job status (oe_now E)) else retS ())"

fun poll_job :: "ocr_env \<Rightarrow> string option \<Rightarrow> string \<Rightarrow> job_status list \<Rightarrow> (ocr_world, unit) st" where
  "poll_job E version job [] = failS CancelledError"
| "poll_job E version job (r # rs) = bindS (ocr_request E id) (\<lambda>_. case r of
       Succeeded \<Rightarrow> set_status E version job ''succeeded''
     | Failed \<Rightarrow> bindS (set_status E version job ''failed'') (\<lambda>_. failS RuntimeError)
     | InProgress \<Rightarrow> bindS (set_status E version job ''in_progress'') (\<lambda>_. poll_job E version job rs))"

text \<open>Until a page of the result names no next one.\<close>

fun collect_blocks :: "ocr_env \<Rightarrow> (block list \<times> string option) list \<Rightarrow> block list \<Rightarrow> (ocr_world, block list) st" where
  "collect_blocks E [] blocks = failS CancelledError"
| "collect_blocks E ((bs, token) # rs) blocks = bindS (ocr_request E id) (\<lambda>_.
     if given token then collect_blocks E rs (blocks @ bs) else retS (blocks @ bs))"

definition textract_job :: "ocr_env \<Rightarrow> string option \<Rightarrow> string option \<Rightarrow> (ocr_world, string) st" where
  "textract_job E token version =
     bindS (if given version \<and> given token
         then bindS (ocr_request E id) (\<lambda>_ w. (w, Inr (get_textract_job_sync (the version) (ow_db w)))) else retS None) (\<lambda>known.
       case known of Some j \<Rightarrow> retS j
       | None \<Rightarrow> bindS (start_document_analysis E token) (\<lambda>j.
           bindS (if given version \<and> given token
               then ocr_tx E (save_textract_job_sync (the version) (the token) j ''started'') else retS ()) (\<lambda>_. retS j)))"

definition run_async_textract :: "ocr_env \<Rightarrow> string \<Rightarrow> string option \<Rightarrow> string option \<Rightarrow> (ocr_world, block list) st" where
  "run_async_textract E path token version =
     (if oe_bucket E = [] then failS RuntimeError
      else (let key = ''textract-input/'' @ (if given token then the token else oe_random E) @ extension (basename path) in
        bindS (ocr_request E (\<lambda>w. w\<lparr>ow_inputs := key # ow_inputs w\<rparr>)) (\<lambda>_.
        bindS (textract_job E token version) (\<lambda>job.
        bindS (poll_job E version job (oe_polls E)) (\<lambda>_. collect_blocks E (oe_pages E) [])))))"

text \<open>A picture is read in one request.\<close>

definition run_sync_textract :: "ocr_env \<Rightarrow> block list option \<Rightarrow> (ocr_world, block list) st" where
  "run_sync_textract E blocks = bindS (ocr_request E id) (\<lambda>_. retS (case blocks of None \<Rightarrow> [] | Some bs \<Rightarrow> bs))"

definition extract_with_textract ::
  "ocr_env \<Rightarrow> block list option \<Rightarrow> string \<Rightarrow> string option \<Rightarrow> string option \<Rightarrow> (ocr_world, page list) st" where
  "extract_with_textract E picture path token version =
     bindS (if extension_of path \<in> {''.png'', ''.jpg'', ''.jpeg''} then run_sync_textract E picture
       else run_async_textract E path token version) (\<lambda>blocks. retS (blocks_to_pages blocks))"

text \<open>The copy of an object has a name without extension: a picture that is kept in the object store takes the way of the documents
  of many pages, and a PDF is not read by the second reader.\<close>

lemma copy_without_extension:
  assumes "CHR ''.'' \<notin> set (basename p)"
  shows "extract_with_textract E picture p token version =
      bindS (run_async_textract E p token version) (\<lambda>blocks. retS (blocks_to_pages blocks)) \<and>
    extract_with_unstructured (NotInstalled e) pdf p = Inl e"
proof -
  have "extension_of p = []" using assms by (simp add: extension_of_def extension_def lower_def)
  then show ?thesis by (simp add: extract_with_textract_def extract_with_unstructured_def)
qed

section \<open>The local copy goes away\<close>

text \<open>(safety): a document is worked on from its own copy, which never stays behind. When the activity ends, in whatever way, the
  temporary file is gone, or its download still runs and its end removes it, unless the file cannot be removed; a reader only sees the
  complete copy, or the local path of an upload that is not in the object store.\<close>

lemma copy_released:
  assumes "materialized_source E ref (open_source q) w = (w', r)" "ce_temp E \<notin> cw_files w" "ce_unlink E = None"
  shows "(ce_temp E \<notin> cw_files w' \<or> (ce_temp E \<in> cw_tracked w' \<and> r = Inl CancelledError \<and> ce_temp E \<notin> cw_files (download_ends E w'))) \<and>
    cw_files w' \<subseteq> insert (ce_temp E) (cw_files w) \<and>
    (cw_opened w' = cw_opened w \<or>
     (\<exists>u. urlsplit (ce_ip6 E) ref = Inr u \<and> u_scheme u \<noteq> ''s3'' \<and> (u_scheme u = ''file'' \<and> cw_opened w' = cw_opened w @ [ce_url2path E (u_path u)] \<or>
        u_scheme u \<noteq> ''file'' \<and> cw_opened w' = cw_opened w @ [ref])) \<or>
     (run_sync_with_heartbeat (ce_beats E) = Downloaded \<and> cw_opened w' = cw_opened w @ [ce_temp E]))"
  using assms
  by (auto simp: materialized_source_def bindS_liftS open_source_def unlink_temp_def download_ends_def Let_def failS_def bindS_def liftS_def
      split: sum.splits option.splits download.splits if_splits)

definition copy_example :: copy_env where
  "copy_example = \<lparr>ce_temp = ''/tmp/x'', ce_make = None, ce_beats = [Quiet None, Cancels], ce_unlink = None, ce_ip6 = \<lambda>s. False,
     ce_decode = id, ce_url2path = id\<rparr>"

lemma copy_released_witness:
  "let w = fst (materialized_source copy_example ''s3://b/k'' (open_source (Inr ())) \<lparr>cw_files = {}, cw_tracked = {}, cw_opened = []\<rparr>) in
     ''/tmp/x'' \<notin> cw_files (download_ends copy_example w)"
proof -
  let ?w = "\<lparr>cw_files = {}, cw_tracked = {}, cw_opened = []\<rparr>"
  obtain w r where m: "materialized_source copy_example ''s3://b/k'' (open_source (Inr ())) ?w = (w, r)" by (rule prod.exhaust)
  have t: "ce_temp copy_example = ''/tmp/x''" "ce_unlink copy_example = None" by (simp_all add: copy_example_def)
  have "''/tmp/x'' \<notin> cw_files w \<or> ''/tmp/x'' \<notin> cw_files (download_ends copy_example w)"
    using copy_released[OF m] t by auto
  then show ?thesis using m t(1) by (auto simp: download_ends_def unlink_temp_def t)
qed

section \<open>One job for a version\<close>

lemma ocr_request_effect:
  assumes "ocr_request E f w = (w', r)"
  shows "w' = f (w\<lparr>ow_calls := Suc (ow_calls w)\<rparr>) \<or> (w' = w\<lparr>ow_calls := Suc (ow_calls w)\<rparr> \<and> (\<exists>e. r = Inl e))"
  using assms by (auto simp: ocr_request_def Let_def split: prod.splits option.splits if_splits)

lemma ocr_request_id [simp]: "ocr_request E id w = (w', r) \<Longrightarrow> ow_jobs w' = ow_jobs w \<and> ow_db w' = ow_db w"
  using ocr_request_effect[of E id w w' r] by auto

text \<open>The saved job of a version: it stays when the status is written, and writing a job saves that one.\<close>

lemma save_job_saved:
  "save_textract_job_sync ver token job status s = Inr t \<Longrightarrow> get_textract_job_sync ver t = Some job"
  by (auto simp: save_textract_job_sync_def get_textract_job_sync_def find_append split: if_splits option.splits)

lemma set_status_saved:
  assumes "set_textract_job_status_sync ver job status now s = Inr t"
  shows "get_textract_job_sync v t = get_textract_job_sync v s"
proof -
  have u: "map_option j_job (find (\<lambda>j. j_version j = v) (upd_where p g js)) = map_option j_job (find (\<lambda>j. j_version j = v) js)"
    if "\<And>j. j_version (g j) = j_version j \<and> j_job (g j) = j_job j" for p g js
    using that by (induction js) (auto simp: upd_where_def)
  show ?thesis using assms unfolding set_textract_job_status_sync_def get_textract_job_sync_def
    by (auto split: if_splits simp: u)
qed

lemma set_status_keeps:
  assumes "set_status E version job status w = (w', r)"
  shows "ow_jobs w' = ow_jobs w \<and> get_textract_job_sync v (ow_db w') = get_textract_job_sync v (ow_db w)"
  using assms unfolding set_status_def ocr_tx_def
  by (auto split: if_splits sum.splits dest!: ocr_request_effect simp: set_status_saved bindS_def)

lemma poll_keeps:
  "poll_job E version job rs w = (w', r) \<Longrightarrow> ow_jobs w' = ow_jobs w \<and> get_textract_job_sync v (ow_db w') = get_textract_job_sync v (ow_db w)"
proof (induction rs arbitrary: w)
  case (Cons x rs)
  from Cons.prems[unfolded poll_job.simps] show ?case
  proof (cases rule: bindS_cases)
    case (bound w1 u)
    note w1 = ocr_request_id[OF bound(1)]
    show ?thesis
    proof (cases x)
      case Succeeded
      then show ?thesis using bound(2) w1 set_status_keeps[of E version job "''succeeded''" w1 w' r v] by simp
    next
      case InProgress
      with bound(2) have "bindS (set_status E version job ''in_progress'') (\<lambda>_. poll_job E version job rs) w1 = (w', r)" by simp
      then show ?thesis
      proof (cases rule: bindS_cases)
        case (raised e)
        then show ?thesis using w1 set_status_keeps[OF raised(1), of v] by simp
      next
        case (bound w2 u2)
        then show ?thesis using w1 set_status_keeps[OF bound(1), of v] Cons.IH[OF bound(2)] by simp
      qed
    next
      case Failed
      with bound(2) have "bindS (set_status E version job ''failed'') (\<lambda>_. failS RuntimeError) w1 = (w', r)" by simp
      then show ?thesis using w1 by (cases rule: bindS_cases) (auto dest: set_status_keeps[of E version job _ w1 _ _ v])
    qed
  qed (use ocr_request_id in auto)
qed simp

lemma collect_keeps: "collect_blocks E rs acc w = (w', r) \<Longrightarrow> ow_jobs w' = ow_jobs w \<and> ow_db w' = ow_db w"
proof (induction rs arbitrary: acc w)
  case (Cons x rs)
  obtain bs token where x: "x = (bs, token)" by (cases x)
  from Cons.prems[unfolded x collect_blocks.simps] show ?case
    by (cases rule: bindS_cases) (use ocr_request_id Cons.IH in \<open>auto split: if_splits\<close>)
qed simp

text \<open>All pages of the result, in order, up to the first that names no next one.\<close>

lemma collect_all:
  "collect_blocks E rs acc w = (w', Inr blocks) \<Longrightarrow> \<exists>n < length rs. blocks = acc @ concat (map fst (take (Suc n) rs)) \<and>
    \<not> given (snd (rs ! n)) \<and> (\<forall>k < n. given (snd (rs ! k)))"
proof (induction rs arbitrary: acc w)
  case (Cons x rs)
  obtain bs token where x: "x = (bs, token)" by (cases x)
  obtain w1 where w1: "(if given token then collect_blocks E rs (acc @ bs) else retS (acc @ bs)) w1 = (w', Inr blocks)"
    using Cons.prems unfolding x collect_blocks.simps by auto
  show ?case
  proof (cases "given token")
    case True
    then obtain n where "n < length rs" "blocks = (acc @ bs) @ concat (map fst (take (Suc n) rs))" "\<not> given (snd (rs ! n))" "\<forall>k < n. given (snd (rs ! k))"
      using Cons.IH[of "acc @ bs" w1] w1 by auto
    then show ?thesis using True x by (intro exI[of _ "Suc n"]) (auto simp: nth_Cons split: nat.splits)
  next
    case False
    then show ?thesis using w1 x by (intro exI[of _ 0]) auto
  qed
qed simp

text \<open>Getting the job: a saved one is taken, and without one at most one is started.\<close>

lemma textract_job_effect:
  assumes "textract_job E token (Some v) w = (w', r)" "given (Some v)" "given token"
  shows "(get_textract_job_sync v (ow_db w) = Some j \<longrightarrow> ow_jobs w' = ow_jobs w \<and> ow_db w' = ow_db w \<and> (\<forall>x. r = Inr x \<longrightarrow> x = j)) \<and>
    length (ow_jobs w') \<le> Suc (length (ow_jobs w)) \<and>
    (\<forall>x. r = Inr x \<longrightarrow> get_textract_job_sync v (ow_db w') = Some x)"
proof -
  have b: "bindS (bindS (ocr_request E id) (\<lambda>_ w. (w, Inr (get_textract_job_sync v (ow_db w))))) (\<lambda>known.
       case known of Some j \<Rightarrow> retS j
       | None \<Rightarrow> bindS (start_document_analysis E token) (\<lambda>j.
           bindS (ocr_tx E (save_textract_job_sync v (the token) j ''started'')) (\<lambda>_. retS j))) w = (w', r)"
    using assms(1) unfolding textract_job_def if_P[OF conjI[OF assms(2,3)]] option.sel .
  then show ?thesis
  proof (cases rule: bindS_cases)
    case (raised e)
    then show ?thesis by (auto simp: bindS_Inl dest: ocr_request_id)
  next
    case (bound w1 known)
    then have w1: "ow_jobs w1 = ow_jobs w" "ow_db w1 = ow_db w" "known = get_textract_job_sync v (ow_db w)"
      using ocr_request_id[of E w] by auto
    show ?thesis
    proof (cases known)
      case (Some j')
      then show ?thesis using bound(2) w1 by auto
    next
      case None
      with bound(2) have "bindS (start_document_analysis E token) (\<lambda>j.
           bindS (ocr_tx E (save_textract_job_sync v (the token) j ''started'')) (\<lambda>_. retS j)) w1 = (w', r)" by simp
      moreover have st: "length (ow_jobs w2) \<le> Suc (length (ow_jobs w1)) \<and> ow_db w2 = ow_db w1"
        if "start_document_analysis E token w1 = (w2, q)" for w2 q
        using that unfolding start_document_analysis_def
        by (auto simp: Let_def bindS_def split: option.splits prod.splits sum.splits dest!: ocr_request_effect)
      ultimately show ?thesis
      proof (cases rule: bindS_cases)
        case (raised e)
        then show ?thesis using st[OF raised(1)] w1 None by auto
      next
        case (bound w2 j2)
        note s2 = st[OF bound(1)]
        have tx: "ow_jobs w3 = ow_jobs w2 \<and> (q = Inr () \<longrightarrow> get_textract_job_sync v (ow_db w3) = Some j2)"
          if "ocr_tx E (save_textract_job_sync v (the token) j2 ''started'') w2 = (w3, q)" for w3 q
          using that unfolding ocr_tx_def
          by (auto split: sum.splits dest!: ocr_request_effect simp: save_job_saved bindS_def)
        from bound(2) show ?thesis
          by (cases rule: bindS_cases) (use s2 tx w1 None in auto)
      qed
    qed
  qed
qed

lemma run_async_effect:
  assumes "run_async_textract E path token (Some v) w = (w', r)" "given (Some v)" "given token"
  shows "(get_textract_job_sync v (ow_db w) = Some j \<longrightarrow> ow_jobs w' = ow_jobs w \<and> get_textract_job_sync v (ow_db w') = Some j) \<and>
    length (ow_jobs w') \<le> Suc (length (ow_jobs w)) \<and>
    (\<forall>blocks. r = Inr blocks \<longrightarrow> get_textract_job_sync v (ow_db w') \<noteq> None \<and>
       (\<exists>n < length (oe_pages E). blocks = concat (map fst (take (Suc n) (oe_pages E))) \<and> \<not> given (snd (oe_pages E ! n)) \<and>
          (\<forall>k < n. given (snd (oe_pages E ! k)))))"
proof (cases "oe_bucket E = []")
  case True
  then show ?thesis using assms(1) by (auto simp: run_async_textract_def)
next
  case False
  obtain key where "bindS (ocr_request E (\<lambda>w. w\<lparr>ow_inputs := key # ow_inputs w\<rparr>)) (\<lambda>_.
        bindS (textract_job E token (Some v)) (\<lambda>job.
        bindS (poll_job E (Some v) job (oe_polls E)) (\<lambda>_. collect_blocks E (oe_pages E) []))) w = (w', r)"
    using assms(1) False by (auto simp: run_async_textract_def Let_def)
  then show ?thesis
  proof (cases rule: bindS_cases)
    case (raised e)
    then show ?thesis by (auto dest!: ocr_request_effect)
  next
    case (bound w1 u)
    then have w1: "ow_jobs w1 = ow_jobs w" "ow_db w1 = ow_db w" by (auto dest!: ocr_request_effect)
    from bound(2) show ?thesis
    proof (cases rule: bindS_cases)
      case (raised e)
      then show ?thesis using textract_job_effect[OF raised(1) assms(2,3), of j] w1 by auto
    next
      case (bound w2 job)
      note t = textract_job_effect[OF bound(1) assms(2,3), of j]
      from bound(2) show ?thesis
      proof (cases rule: bindS_cases)
        case (raised e)
        then show ?thesis using t w1 poll_keeps[OF raised(1), of v] by auto
      next
        case (bound w3 u3)
        note p = poll_keeps[OF bound(1), of v] and c = collect_keeps[OF bound(2)]
        have "\<exists>n < length (oe_pages E). blocks = concat (map fst (take (Suc n) (oe_pages E))) \<and> \<not> given (snd (oe_pages E ! n)) \<and>
          (\<forall>k < n. given (snd (oe_pages E ! k)))" if "r = Inr blocks" for blocks
          using collect_all[of E "oe_pages E" "[]" w3 w' blocks] bound(2) that by simp
        then show ?thesis using t w1 p c by auto
      qed
    qed
  qed
qed

text \<open>The attempts of an activity, and how many of them ended with no job saved.\<close>

fun attempts :: "string \<Rightarrow> string \<Rightarrow> string \<Rightarrow> ocr_env list \<Rightarrow> ocr_world \<Rightarrow> ocr_world \<times> nat" where
  "attempts path t v [] w = (w, 0)"
| "attempts path t v (E # Es) w = (let w1 = fst (run_async_textract E path (Some t) (Some v) w);
      (w2, n) = attempts path t v Es w1 in (w2, if get_textract_job_sync v (ow_db w1) = None then Suc n else n))"

lemma attempts_saved:
  "attempts path t v Es w = (w', n) \<Longrightarrow> t \<noteq> [] \<Longrightarrow> v \<noteq> [] \<Longrightarrow> get_textract_job_sync v (ow_db w) = Some j \<Longrightarrow>
     ow_jobs w' = ow_jobs w \<and> get_textract_job_sync v (ow_db w') = Some j \<and> n = 0"
proof (induction Es arbitrary: w w' n)
  case (Cons E Es)
  let ?w = "fst (run_async_textract E path (Some t) (Some v) w)"
  have e: "ow_jobs ?w = ow_jobs w" "get_textract_job_sync v (ow_db ?w) = Some j"
    using run_async_effect[where E=E and path=path and w=w and j=j and v=v and token="Some t", OF prod.collapse[symmetric]] Cons.prems
    by (auto simp: given_def)
  obtain w2 m where r: "attempts path t v Es ?w = (w2, m)" by (rule prod.exhaust)
  show ?case using Cons.IH[OF r Cons.prems(2,3) e(2)] Cons.prems(1) r e by (simp add: Let_def split: if_splits)
qed simp

text \<open>C17 (safety): OCR is paid for once. However an activity is interrupted and retried, and whatever the requests do, Textract
  starts at most one job for each attempt that ends with no job saved, and one more; once the job is saved none is started; and an
  attempt that returns has saved its job and returns the blocks of all pages of the result in order.\<close>

theorem textract_once:
  assumes "t \<noteq> []" "v \<noteq> []"
  shows "(case attempts path t v Es w of (w', n) \<Rightarrow>
      length (ow_jobs w') \<le> length (ow_jobs w) + n + 1 \<and>
      (get_textract_job_sync v (ow_db w) \<noteq> None \<longrightarrow> ow_jobs w' = ow_jobs w)) \<and>
    (\<forall>w' blocks. run_async_textract E path (Some t) (Some v) w = (w', Inr blocks) \<longrightarrow> get_textract_job_sync v (ow_db w') \<noteq> None \<and>
       (\<exists>n < length (oe_pages E). blocks = concat (map fst (take (Suc n) (oe_pages E))) \<and> \<not> given (snd (oe_pages E ! n)) \<and>
          (\<forall>k < n. given (snd (oe_pages E ! k)))))"
proof -
  have g: "given (Some v)" "given (Some t)" using assms by (simp_all add: given_def)
  have le: "length (ow_jobs (fst (attempts path t v Es w))) \<le> length (ow_jobs w) + snd (attempts path t v Es w) + 1" for w
  proof (induction Es arbitrary: w)
    case (Cons E Es)
    let ?w = "fst (run_async_textract E path (Some t) (Some v) w)"
    obtain w2 m where r: "attempts path t v Es ?w = (w2, m)" by (rule prod.exhaust)
    have e: "length (ow_jobs ?w) \<le> Suc (length (ow_jobs w))"
      using run_async_effect[where E=E and path=path and w=w, OF prod.collapse[symmetric] g] by blast
    show ?case
    proof (cases "get_textract_job_sync v (ow_db ?w)")
      case None
      then show ?thesis using Cons.IH[of ?w] e r by (simp add: Let_def)
    next
      case (Some j)
      then show ?thesis using attempts_saved[OF r assms Some] e r by (simp add: Let_def)
    qed
  qed simp
  have "ow_jobs (fst (attempts path t v Es w)) = ow_jobs w" if "get_textract_job_sync v (ow_db w) \<noteq> None"
    using attempts_saved[OF prod.collapse[symmetric] assms] that by auto
  then have "case attempts path t v Es w of (w', n) \<Rightarrow> length (ow_jobs w') \<le> length (ow_jobs w) + n + 1 \<and>
      (get_textract_job_sync v (ow_db w) \<noteq> None \<longrightarrow> ow_jobs w' = ow_jobs w)"
    using le[of w] by (simp add: case_prod_beta)
  then show ?thesis using run_async_effect[OF _ g] by blast
qed

text \<open>The first attempt is cancelled while it waits, the second one reads the result of the same job.\<close>

definition ocr_example :: "job_status list \<Rightarrow> ocr_env" where
  "ocr_example polls = \<lparr>oe_bucket = ''b'', oe_fault = \<lambda>n. (True, None), oe_remembers = \<lambda>t. False, oe_job = \<lambda>n. replicate (Suc n) CHR ''j'',
     oe_random = ''r'', oe_polls = polls, oe_pages = [([], Some ''n''), ([], None)], oe_now = 5\<rparr>"

definition ocr_start :: ocr_world where
  "ocr_start = \<lparr>ow_db = demo_db, ow_inputs = [], ow_jobs = [], ow_calls = 0\<rparr>"

theorem textract_once_witness:
  "length (ow_jobs (fst (attempts ''a.pdf'' ''t'' ''v'' [ocr_example [InProgress], ocr_example [Succeeded]] ocr_start))) \<le> 1"
proof -
  let ?r = "attempts ''a.pdf'' ''t'' ''v'' [ocr_example [InProgress], ocr_example [Succeeded]] ocr_start"
  have n: "snd ?r = 0" "ow_jobs ocr_start = []" by code_simp+
  have "length (ow_jobs (fst ?r)) \<le> length (ow_jobs ocr_start) + snd ?r + 1"
    using textract_once[where t="''t''" and v="''v''" and path="''a.pdf''" and Es="[ocr_example [InProgress], ocr_example [Succeeded]]" and w=ocr_start]
    by (simp add: case_prod_beta)
  then show ?thesis unfolding n by simp
qed

end
