(* ===== verification/Pc_Session.thy ===== *)
theory Pc_Session
  imports Ws_Security Pc_Bridge
begin

text \<open>
  The session of a companion (\<open>services/api/websocket/pc_agent.py\<close>): the handshake, the binding of the device, the registration at the
  bridge and the relay of results, cut at its awaits and interleaved with the sessions of other companions, the commands of the
  bridge, the threads that verify devices, shutdown and operations on the authentication tables. A session is only cut
  short by an exception; then its \<open>finally\<close> clause runs. Sockets are numbers.
\<close>

section \<open>Where a session stands\<close>

datatype pc_phase =
    Handshaking
  | Binding pyval pyval
  | Registering paired_device nat
  | Greeting paired_device
  | Relaying paired_device
  | Handing paired_device nat

datatype pc_end = PcClosed int | PcReturned | PcRaised exn

record pc_sys =
  ps_bridge :: bsys
  ps_live :: "(nat \<times> principal \<times> pc_phase) list"
  ps_opened :: "(nat \<times> principal) list"
  ps_ended :: "(nat \<times> pc_end) list"

definition pc_init :: "adb \<Rightarrow> pc_sys" where
  "pc_init d = \<lparr>ps_bridge = bridge_init d, ps_live = [], ps_opened = [], ps_ended = []\<rparr>"

definition pc_move :: "nat \<Rightarrow> principal \<Rightarrow> pc_phase \<Rightarrow> pc_sys \<Rightarrow> pc_sys" where
  "pc_move ws p ph s = s\<lparr>ps_live := AList.update ws (p, ph) (ps_live s)\<rparr>"

text \<open>Leaving before the registration, and leaving through the \<open>finally\<close> clause.\<close>

definition pc_stop :: "nat \<Rightarrow> pc_end \<Rightarrow> pc_sys \<Rightarrow> pc_sys" where
  "pc_stop ws r s = s\<lparr>ps_live := AList.delete ws (ps_live s), ps_ended := ps_ended s @ [(ws, r)]\<rparr>"

definition pc_leave :: "nat \<Rightarrow> principal \<Rightarrow> pc_end \<Rightarrow> pc_sys \<Rightarrow> pc_sys" where
  "pc_leave ws p r s = pc_stop ws r (s\<lparr>ps_bridge := unregister (tenant_id p) ws (ps_bridge s)\<rparr>)"

text \<open>The \<open>except WebSocketDisconnect\<close> clause; other exceptions reach the security session, which closes the socket.\<close>

definition pc_ending :: "exn \<Rightarrow> pc_end" where
  "pc_ending e = (case e of WebSocketDisconnect c \<Rightarrow> PcReturned | _ \<Rightarrow> PcRaised e)"

section \<open>Its steps\<close>

text \<open>The first message; \<open>None\<close> is the timeout of ten seconds.\<close>

definition pc_handshake :: "(string \<Rightarrow> json_result) \<Rightarrow> ws_settings \<Rightarrow> nat \<Rightarrow> principal \<Rightarrow> ws_frame option \<Rightarrow> pc_sys \<Rightarrow> pc_sys" where
  "pc_handshake loads S ws p f s = (case f of
       None \<Rightarrow> pc_stop ws (PcClosed 1003) s
     | Some x \<Rightarrow> (case receive_json loads S x of
           Inl e \<Rightarrow> pc_stop ws (PcRaised e) s
         | Inr d \<Rightarrow> if dget d ''type'' \<noteq> PStr ''handshake'' then pc_stop ws (PcClosed 1003) s
             else pc_move ws p (Binding (dget_or d ''capabilities'' (PDict [])) (dget d ''device_id'')) s))"

text \<open>\<open>DeviceRegistry.bind\<close> of whatever the message holds; \<open>ok\<close> is whether the tables can be reached, which a refusal
  before the query does not need.\<close>

definition bind_value :: "bool \<Rightarrow> principal \<Rightarrow> pyval \<Rightarrow> adb \<Rightarrow> paired_device res" where
  "bind_value ok p v d = (case v of
       PStr x \<Rightarrow> if ok \<or> scopes p \<noteq> set DEVICE_SCOPES \<or> uuid_str x = None then bind_device p x d else Inl DatabaseError
     | _ \<Rightarrow> Inl AuthorizationDenied)"

definition refused_registration :: "exn \<Rightarrow> pc_end" where
  "refused_registration e = (case e of ValueError \<Rightarrow> PcClosed 1003 | PCAgentError m \<Rightarrow> PcClosed 1013 | _ \<Rightarrow> PcRaised e)"

definition pc_bind :: "bool \<Rightarrow> nat \<Rightarrow> principal \<Rightarrow> pyval \<Rightarrow> pyval \<Rightarrow> pc_sys \<Rightarrow> pc_sys" where
  "pc_bind ok ws p caps v s = (case bind_value ok p v (adb_of (ps_bridge s)) of
       Inl e \<Rightarrow> pc_stop ws (PcClosed (if e = AuthorizationDenied then 1008 else 1013)) s
     | Inr d \<Rightarrow> (case register_start (tenant_id p) ws caps (Some d) (ps_bridge s) of
           Inl e \<Rightarrow> pc_leave ws p (refused_registration e) s
         | Inr b \<Rightarrow> pc_move ws p (Registering d (length (regs (ps_bridge s)))) (s\<lparr>ps_bridge := b\<rparr>)))"

definition pc_registered :: "nat \<Rightarrow> principal \<Rightarrow> paired_device \<Rightarrow> nat \<Rightarrow> pc_sys \<Rightarrow> pc_sys" where
  "pc_registered ws p d i s = (let b = ps_bridge s in case rg_phase (regs b ! i) of
       RegVerified v \<Rightarrow> (case register_finish (regs b ! i) v b of (b1, r) \<Rightarrow>
         (let s1 = s\<lparr>ps_bridge := b1\<lparr>regs := (regs b1)[i := (regs b1 ! i)\<lparr>rg_phase := RegDone r\<rparr>]\<rparr>\<rparr> in
          case r of Inl e \<Rightarrow> pc_leave ws p (refused_registration e) s1 | Inr u \<Rightarrow> pc_move ws p (Greeting d) s1))
     | _ \<Rightarrow> s)"

definition pc_greet :: "nat \<Rightarrow> principal \<Rightarrow> paired_device \<Rightarrow> unit res option \<Rightarrow> pc_sys \<Rightarrow> pc_sys" where
  "pc_greet ws p d r s = (case send_json r of Inl e \<Rightarrow> pc_leave ws p (pc_ending e) s | Inr u \<Rightarrow> pc_move ws p (Relaying d) s)"

text \<open>One message of the loop: a result goes to the bridge, which may have to verify the device first.\<close>

definition pc_message :: "(string \<Rightarrow> json_result) \<Rightarrow> ws_settings \<Rightarrow> nat \<Rightarrow> principal \<Rightarrow> paired_device \<Rightarrow> ws_frame \<Rightarrow> pc_sys \<Rightarrow> pc_sys" where
  "pc_message loads S ws p d f s = (case receive_json loads S f of
       Inl e \<Rightarrow> pc_leave ws p (pc_ending e) s
     | Inr m \<Rightarrow> if dget m ''type'' \<noteq> PStr ''result'' then s
         else (let b = ps_bridge s; b1 = result_start (tenant_id p) m ws b; s1 = s\<lparr>ps_bridge := b1\<rparr> in
           if length (replies b) < length (replies b1) then pc_move ws p (Handing d (length (replies b))) s1 else s1))"

definition pc_handed :: "nat \<Rightarrow> principal \<Rightarrow> paired_device \<Rightarrow> nat \<Rightarrow> pc_sys \<Rightarrow> pc_sys" where
  "pc_handed ws p d j s = (let b = ps_bridge s in case rs_phase (replies b ! j) of
       ResVerified v \<Rightarrow> pc_move ws p (Relaying d) (s\<lparr>ps_bridge :=
         (result_finish (replies b ! j) v b)\<lparr>replies := (replies b)[j := (replies b ! j)\<lparr>rs_phase := ResDone\<rparr>]\<rparr>\<rparr>)
     | _ \<Rightarrow> s)"

section \<open>Schedules\<close>

text \<open>The events of the bridge that are not the session's own.\<close>

fun elsewhere_event :: "bevent \<Rightarrow> bool" where
  "elsewhere_event (RegStart t ws c d) = False"
| "elsewhere_event (RegFinish i) = False"
| "elsewhere_event (Unregister t ws) = False"
| "elsewhere_event (ResStart t m ws) = False"
| "elsewhere_event (ResFinish j) = False"
| "elsewhere_event _ = True"

datatype pc_event =
    PcOpen nat principal
  | PcFrame nat "ws_frame option"
  | PcBind nat bool
  | PcRegistered nat
  | PcGreet nat "unit res option"
  | PcHanded nat
  | PcCancel nat
  | PcBridge bevent

definition unentered :: "pc_phase \<Rightarrow> bool" where
  "unentered ph = (case ph of Handshaking \<Rightarrow> True | Binding c v \<Rightarrow> True | _ \<Rightarrow> False)"

fun pc_step :: "nat \<Rightarrow> ticket_settings \<Rightarrow> (string \<Rightarrow> string) \<Rightarrow> (string \<Rightarrow> json_result) \<Rightarrow> ws_settings \<Rightarrow> pc_event \<Rightarrow> pc_sys \<Rightarrow> pc_sys" where
  "pc_step M T h loads S (PcOpen ws p) s = (if ws \<in> fst ` set (ps_opened s) then s
     else s\<lparr>ps_live := AList.update ws (p, Handshaking) (ps_live s), ps_opened := ps_opened s @ [(ws, p)]\<rparr>)"
| "pc_step M T h loads S (PcFrame ws f) s = (case map_of (ps_live s) ws of
       Some (p, Handshaking) \<Rightarrow> pc_handshake loads S ws p f s
     | Some (p, Relaying d) \<Rightarrow> (case f of None \<Rightarrow> s | Some x \<Rightarrow> pc_message loads S ws p d x s)
     | _ \<Rightarrow> s)"
| "pc_step M T h loads S (PcBind ws ok) s = (case map_of (ps_live s) ws of
       Some (p, Binding caps v) \<Rightarrow> pc_bind ok ws p caps v s | _ \<Rightarrow> s)"
| "pc_step M T h loads S (PcRegistered ws) s = (case map_of (ps_live s) ws of
       Some (p, Registering d i) \<Rightarrow> pc_registered ws p d i s | _ \<Rightarrow> s)"
| "pc_step M T h loads S (PcGreet ws r) s = (case map_of (ps_live s) ws of
       Some (p, Greeting d) \<Rightarrow> pc_greet ws p d r s | _ \<Rightarrow> s)"
| "pc_step M T h loads S (PcHanded ws) s = (case map_of (ps_live s) ws of
       Some (p, Handing d j) \<Rightarrow> pc_handed ws p d j s | _ \<Rightarrow> s)"
| "pc_step M T h loads S (PcCancel ws) s = (case map_of (ps_live s) ws of
       None \<Rightarrow> s
     | Some (p, ph) \<Rightarrow> if unentered ph then pc_stop ws (PcRaised CancelledError) s else pc_leave ws p (PcRaised CancelledError) s)"
| "pc_step M T h loads S (PcBridge ev) s = (if elsewhere_event ev then s\<lparr>ps_bridge := bstep M T h ev (ps_bridge s)\<rparr> else s)"

definition pc_run ::
  "nat \<Rightarrow> ticket_settings \<Rightarrow> (string \<Rightarrow> string) \<Rightarrow> (string \<Rightarrow> json_result) \<Rightarrow> ws_settings \<Rightarrow> pc_event list \<Rightarrow> pc_sys \<Rightarrow> pc_sys" where
  "pc_run M T h loads S evs s = fold (pc_step M T h loads S) evs s"

section \<open>Connections have sessions\<close>

text \<open>What a step of the bridge does to the identities of its connections and registrations.\<close>

definition conn_ids :: "bsys \<Rightarrow> (nat \<times> paired_device) list" where
  "conn_ids b = map (\<lambda>c. (bc_ws c, bc_device c)) (conns b)"

definition reg_ids :: "bsys \<Rightarrow> (string \<times> nat \<times> paired_device) list" where
  "reg_ids b = map (\<lambda>r. (rg_tenant r, rg_ws r, rg_device r)) (regs b)"

lemma conn_ids_simps [simp]:
  "conn_ids (b\<lparr>adb_of := a\<rparr>) = conn_ids b" "conn_ids (b\<lparr>calls := cs\<rparr>) = conn_ids b" "conn_ids (b\<lparr>regs := rs\<rparr>) = conn_ids b"
  "conn_ids (b\<lparr>replies := ps\<rparr>) = conn_ids b" "conn_ids (b\<lparr>wire := ws\<rparr>) = conn_ids b" "conn_ids (b\<lparr>registry := g\<rparr>) = conn_ids b"
  "conn_ids (b\<lparr>received := v\<rparr>) = conn_ids b"
  by (simp_all add: conn_ids_def)

lemma reg_ids_simps [simp]:
  "reg_ids (b\<lparr>adb_of := a\<rparr>) = reg_ids b" "reg_ids (b\<lparr>calls := cs\<rparr>) = reg_ids b" "reg_ids (b\<lparr>conns := rs\<rparr>) = reg_ids b"
  "reg_ids (b\<lparr>replies := ps\<rparr>) = reg_ids b" "reg_ids (b\<lparr>wire := ws\<rparr>) = reg_ids b" "reg_ids (b\<lparr>registry := g\<rparr>) = reg_ids b"
  "reg_ids (b\<lparr>received := v\<rparr>) = reg_ids b"
  by (simp_all add: reg_ids_def)

lemma map_upd_same: "f y = f (xs ! i) \<Longrightarrow> map f (xs[i := y]) = map f xs"
  by (cases "i < length xs") (simp_all add: map_update list_update_same_conv list_update_beyond)

lemma pop_pending_ids [simp]:
  "conn_ids (pop_pending c r b) = conn_ids b" "reg_ids (pop_pending c r b) = reg_ids b" "registry (pop_pending c r b) = registry b"
  "received (pop_pending c r b) = received b"
  by (simp_all add: pop_pending_def conn_ids_def reg_ids_def map_upd_same)

lemma finish_call_ids [simp]:
  "conn_ids (finish_call k r b) = conn_ids b" "reg_ids (finish_call k r b) = reg_ids b" "registry (finish_call k r b) = registry b"
  "received (finish_call k r b) = received b"
  by (simp_all add: finish_call_def Let_def)

text \<open>What the bridge does for others leaves connections alone, or empties the registry.\<close>

definition quiet :: "bsys \<Rightarrow> bsys \<Rightarrow> bool" where
  "quiet b u = (conn_ids u = conn_ids b \<and> reg_ids u = reg_ids b \<and> received u = received b \<and> (registry u = registry b \<or> registry u = []))"

lemma fail_pending_ids [simp]:
  "conn_ids (fail_pending c e b) = conn_ids b" "reg_ids (fail_pending c e b) = reg_ids b"
  by (simp_all add: fail_pending_def)

lemma fold_fail_ids [simp]:
  "conn_ids (fold (\<lambda>c. fail_pending c e) cs b) = conn_ids b" "reg_ids (fold (\<lambda>c. fail_pending c e) cs b) = reg_ids b"
  "received (fold (\<lambda>c. fail_pending c e) cs b) = received b"
  by (induction cs arbitrary: b) (simp_all add: fail_pending_def)

lemma quiet_elsewhere: "elsewhere_event ev \<Longrightarrow> quiet b (bstep M T h ev b)"
proof (cases ev)
  case (SendStart t cap act params timeout req)
  have "quiet b u" if "send_start M t cap act params timeout req b = Inr u" for u
    using that by (auto simp: quiet_def send_start_def conn_ids_def reg_ids_def map_upd_same split: if_splits option.splits)
  then show ?thesis using SendStart by (auto simp: quiet_def split: sum.splits)
next
  case (RegVerify i ok)
  then show ?thesis by (auto simp: quiet_def reg_ids_def map_upd_same)
next
  case CloseBridge
  then show ?thesis by (auto simp: quiet_def close_bridge_def Let_def conn_ids_def reg_ids_def simp flip: fold_fail_ids)
next
  case (SendNow k)
  then show ?thesis by (auto simp: quiet_def send_now_def Let_def Pc_Bridge.set_phase_def split: call_phase.splits)
next
  case (SendResult k)
  then show ?thesis by (auto simp: quiet_def await_result_def split: fut.splits)
qed (auto simp: quiet_def Pc_Bridge.set_phase_def)

text \<open>The device a session has registered.\<close>

fun serves :: "pc_phase \<Rightarrow> paired_device option" where
  "serves (Greeting d) = Some d"
| "serves (Relaying d) = Some d"
| "serves (Handing d j) = Some d"
| "serves _ = None"

fun bound_device :: "pc_phase \<Rightarrow> paired_device option" where
  "bound_device (Registering d i) = Some d"
| "bound_device ph = serves ph"

definition served :: "pc_sys \<Rightarrow> bool" where
  "served s = (\<forall>t c. map_of (registry (ps_bridge s)) t = Some c \<longrightarrow> c < length (conn_ids (ps_bridge s)) \<and>
     (\<exists>p ph. map_of (ps_live s) (fst (conn_ids (ps_bridge s) ! c)) = Some (p, ph) \<and> tenant_id p = t \<and>
        serves ph = Some (snd (conn_ids (ps_bridge s) ! c))))"

definition session_ok :: "pc_sys \<Rightarrow> nat \<Rightarrow> principal \<Rightarrow> pc_phase \<Rightarrow> bool" where
  "session_ok s ws p ph = ((ws, p) \<in> set (ps_opened s) \<and>
     (\<forall>d. bound_device ph = Some d \<longrightarrow> pd_tenant d = tenant_id p \<and> pd_cred d = credential_id p \<and> scopes p = set DEVICE_SCOPES) \<and>
     (\<forall>d i. ph = Registering d i \<longrightarrow> i < length (reg_ids (ps_bridge s)) \<and> reg_ids (ps_bridge s) ! i = (tenant_id p, ws, d)))"

definition sessions_ok :: "pc_sys \<Rightarrow> bool" where
  "sessions_ok s = (\<forall>ws p ph. map_of (ps_live s) ws = Some (p, ph) \<longrightarrow> session_ok s ws p ph)"

definition results_ok :: "pc_sys \<Rightarrow> bool" where
  "results_ok s = (\<forall>t ws m. (t, ws, m) \<in> set (received (ps_bridge s)) \<longrightarrow>
     dget m ''type'' = PStr ''result'' \<and> (\<exists>p. (ws, p) \<in> set (ps_opened s) \<and> tenant_id p = t \<and> scopes p = set DEVICE_SCOPES))"

definition ended_ok :: "pc_sys \<Rightarrow> bool" where
  "ended_ok s = (distinct (map fst (ps_opened s)) \<and>
     (\<forall>ws \<in> fst ` set (ps_ended s). ws \<in> fst ` set (ps_opened s) \<and> map_of (ps_live s) ws = None))"

definition pc_inv :: "pc_sys \<Rightarrow> bool" where
  "pc_inv s = (served s \<and> sessions_ok s \<and> results_ok s \<and> ended_ok s)"

lemma pc_invD:
  assumes "pc_inv s"
  shows "served s" "sessions_ok s" "results_ok s" "ended_ok s"
  using assms by (simp_all add: pc_inv_def)

lemma servedD:
  assumes "served s" "map_of (registry (ps_bridge s)) t = Some c"
  obtains p ph where "c < length (conn_ids (ps_bridge s))" "map_of (ps_live s) (fst (conn_ids (ps_bridge s) ! c)) = Some (p, ph)"
    "tenant_id p = t" "serves ph = Some (snd (conn_ids (ps_bridge s) ! c))"
  using assms unfolding served_def by blast

text \<open>A socket that no connection uses.\<close>

definition unused :: "nat \<Rightarrow> pc_sys \<Rightarrow> bool" where
  "unused ws s = (\<forall>t c. map_of (registry (ps_bridge s)) t = Some c \<longrightarrow> fst (conn_ids (ps_bridge s) ! c) \<noteq> ws)"

lemma unused_unserving: "served s \<Longrightarrow> map_of (ps_live s) ws = Some (p, ph) \<Longrightarrow> serves ph = None \<Longrightarrow> unused ws s"
  unfolding unused_def by (metis option.distinct(1) option.inject prod.inject servedD)

lemma unused_dead: "served s \<Longrightarrow> map_of (ps_live s) ws = None \<Longrightarrow> unused ws s"
  unfolding unused_def by (metis option.distinct(1) servedD)

lemma pc_inv_move:
  assumes "pc_inv s" "map_of (ps_live s) ws = Some (p, ph)" "session_ok s ws p ph'" "serves ph \<noteq> None \<Longrightarrow> serves ph' = serves ph"
  shows "pc_inv (pc_move ws p ph' s)"
proof -
  let ?u = "pc_move ws p ph' s"
  note inv = pc_invD[OF assms(1)]
  have sel: "ps_bridge ?u = ps_bridge s" "ps_opened ?u = ps_opened s" "ps_ended ?u = ps_ended s"
    "map_of (ps_live ?u) = (map_of (ps_live s))(ws \<mapsto> (p, ph'))"
    by (simp_all add: pc_move_def update_conv')
  have "served ?u" unfolding served_def sel
  proof (intro allI impI)
    fix t c assume t: "map_of (registry (ps_bridge s)) t = Some c"
    obtain q qh where q: "c < length (conn_ids (ps_bridge s))" "map_of (ps_live s) (fst (conn_ids (ps_bridge s) ! c)) = Some (q, qh)"
      "tenant_id q = t" "serves qh = Some (snd (conn_ids (ps_bridge s) ! c))" using servedD[OF inv(1) t] .
    show "c < length (conn_ids (ps_bridge s)) \<and> (\<exists>q qh. ((map_of (ps_live s))(ws \<mapsto> (p, ph'))) (fst (conn_ids (ps_bridge s) ! c)) = Some (q, qh) \<and>
        tenant_id q = t \<and> serves qh = Some (snd (conn_ids (ps_bridge s) ! c)))"
      using q assms(2,4) by (cases "fst (conn_ids (ps_bridge s) ! c) = ws") auto
  qed
  moreover have "sessions_ok ?u" using inv(2) assms(3) unfolding sessions_ok_def session_ok_def sel by auto
  moreover have "results_ok ?u" "ended_ok ?u" using inv(3,4) assms(2) unfolding results_ok_def ended_ok_def sel by auto
  ultimately show ?thesis by (simp add: pc_inv_def)
qed

lemma pc_inv_quiet:
  assumes "pc_inv s" "quiet (ps_bridge s) b"
  shows "pc_inv (s\<lparr>ps_bridge := b\<rparr>)"
  using assms unfolding pc_inv_def quiet_def
  by (auto simp: served_def sessions_ok_def session_ok_def results_ok_def ended_ok_def)

lemma pc_inv_stop:
  assumes "pc_inv s" "map_of (ps_live s) ws = Some (p, ph)" "unused ws s"
  shows "pc_inv (pc_stop ws r s)"
proof -
  let ?u = "pc_stop ws r s"
  note inv = pc_invD[OF assms(1)]
  have sel: "ps_bridge ?u = ps_bridge s" "ps_opened ?u = ps_opened s" "ps_ended ?u = ps_ended s @ [(ws, r)]"
    "map_of (ps_live ?u) = (map_of (ps_live s))(ws := None)"
    by (simp_all add: pc_stop_def delete_conv')
  have "served ?u" using inv(1) assms(3) unfolding served_def unused_def sel by auto
  moreover have "sessions_ok ?u" using inv(2) unfolding sessions_ok_def session_ok_def sel by auto
  moreover have "(ws, p) \<in> set (ps_opened s)" using inv(2) assms(2) unfolding sessions_ok_def session_ok_def by blast
  then have "ended_ok ?u" using inv(4) unfolding ended_ok_def sel by (auto simp: rev_image_eqI)
  moreover have "results_ok ?u" using inv(3) unfolding results_ok_def sel .
  ultimately show ?thesis by (simp add: pc_inv_def)
qed

lemma unregister_ids [simp]:
  "conn_ids (unregister t ws b) = conn_ids b" "reg_ids (unregister t ws b) = reg_ids b" "received (unregister t ws b) = received b"
  by (auto simp: unregister_def split: option.splits)

lemma conn_ids_nth: "c < length (conns b) \<Longrightarrow> conn_ids b ! c = (bc_ws (conns b ! c), bc_device (conns b ! c))" "length (conn_ids b) = length (conns b)"
  by (simp_all add: conn_ids_def)

lemma unregister_registry:
  assumes "map_of (registry (unregister t ws b)) t' = Some c" "\<And>c. map_of (registry b) t = Some c \<Longrightarrow> c < length (conns b)"
  shows "map_of (registry b) t' = Some c \<and> (t' = t \<longrightarrow> fst (conn_ids b ! c) \<noteq> ws)"
  using assms by (auto simp: unregister_def delete_conv' conn_ids_nth split: option.splits if_splits)

lemma pc_inv_leave:
  assumes "pc_inv s" "map_of (ps_live s) ws = Some (p, ph)"
  shows "pc_inv (pc_leave ws p r s)"
proof -
  let ?b = "unregister (tenant_id p) ws (ps_bridge s)"
  let ?s = "s\<lparr>ps_bridge := ?b\<rparr>"
  note inv = pc_invD[OF assms(1)]
  have sub: "map_of (registry (ps_bridge s)) t = Some c \<and> (t = tenant_id p \<longrightarrow> fst (conn_ids (ps_bridge s) ! c) \<noteq> ws)"
    if "map_of (registry ?b) t = Some c" for t c
    by (rule unregister_registry[OF that]) (metis servedD[OF inv(1)] conn_ids_nth(2))
  have "served ?s" using inv(1) sub unfolding served_def by fastforce
  then have "pc_inv ?s" using inv unfolding pc_inv_def sessions_ok_def session_ok_def results_ok_def ended_ok_def by simp
  moreover have "fst (conn_ids (ps_bridge s) ! c) \<noteq> ws" if "map_of (registry ?b) t = Some c" for t c
  proof
    assume w: "fst (conn_ids (ps_bridge s) ! c) = ws"
    note t = sub[OF that]
    show False by (rule servedD[OF inv(1) conjunct1[OF t]]) (use assms(2) w t in auto)
  qed
  then have "unused ws ?s" unfolding unused_def by simp
  ultimately show ?thesis unfolding pc_leave_def using pc_inv_stop assms(2) by simp
qed

lemma install_ids:
  "conn_ids (install t ws caps d b) = conn_ids b @ [(ws, d)]" "reg_ids (install t ws caps d b) = reg_ids b"
  "received (install t ws caps d b) = received b" "map_of (registry (install t ws caps d b)) = (map_of (registry b))(t \<mapsto> length (conns b))"
proof -
  have f: "conns (fail_pending c e b) = conns b" "received (fail_pending c e b) = received b" "regs (fail_pending c e b) = regs b" for c e
    by (simp_all add: fail_pending_def)
  show "conn_ids (install t ws caps d b) = conn_ids b @ [(ws, d)]" "reg_ids (install t ws caps d b) = reg_ids b"
    "received (install t ws caps d b) = received b" "map_of (registry (install t ws caps d b)) = (map_of (registry b))(t \<mapsto> length (conns b))"
    by (auto simp: install_def Let_def conn_ids_def reg_ids_def f update_conv' fail_pending_def split: option.splits)
qed

lemma pc_inv_install:
  assumes "pc_inv s" "map_of (ps_live s) ws = Some (p, Registering d i)" "conn_ids b = conn_ids (ps_bridge s) @ [(ws, d)]"
    "reg_ids b = reg_ids (ps_bridge s)" "received b = received (ps_bridge s)"
    "map_of (registry b) = (map_of (registry (ps_bridge s)))(tenant_id p \<mapsto> length (conn_ids (ps_bridge s)))"
  shows "pc_inv (pc_move ws p (Greeting d) (s\<lparr>ps_bridge := b\<rparr>))"
proof -
  let ?u = "pc_move ws p (Greeting d) (s\<lparr>ps_bridge := b\<rparr>)"
  note inv = pc_invD[OF assms(1)]
  have sel: "ps_bridge ?u = b" "ps_opened ?u = ps_opened s" "ps_ended ?u = ps_ended s"
    "map_of (ps_live ?u) = (map_of (ps_live s))(ws \<mapsto> (p, Greeting d))"
    by (simp_all add: pc_move_def update_conv')
  have free: "unused ws s" by (rule unused_unserving[OF inv(1) assms(2)]) simp
  have "served ?u" unfolding served_def sel
  proof (intro allI impI)
    fix t c assume t: "map_of (registry b) t = Some c"
    show "c < length (conn_ids b) \<and> (\<exists>q qh. ((map_of (ps_live s))(ws \<mapsto> (p, Greeting d))) (fst (conn_ids b ! c)) = Some (q, qh) \<and>
        tenant_id q = t \<and> serves qh = Some (snd (conn_ids b ! c)))"
    proof (cases "t = tenant_id p")
      case True
      then show ?thesis using t assms(3,6) by (auto simp: nth_append)
    next
      case False
      then have o: "map_of (registry (ps_bridge s)) t = Some c" using t assms(6) by simp
      obtain q qh where q: "c < length (conn_ids (ps_bridge s))" "map_of (ps_live s) (fst (conn_ids (ps_bridge s) ! c)) = Some (q, qh)"
        "tenant_id q = t" "serves qh = Some (snd (conn_ids (ps_bridge s) ! c))" using servedD[OF inv(1) o] .
      moreover have "fst (conn_ids (ps_bridge s) ! c) \<noteq> ws" using free o by (simp add: unused_def)
      ultimately show ?thesis using assms(3) by (simp add: nth_append)
    qed
  qed
  moreover have "session_ok s ws p (Registering d i)" using inv(2) assms(2) unfolding sessions_ok_def by blast
  then have "sessions_ok ?u" using inv(2) assms(3,4) unfolding sessions_ok_def session_ok_def sel by auto
  moreover have "results_ok ?u" "ended_ok ?u" using inv(3,4) assms(2,5) unfolding results_ok_def ended_ok_def sel by auto
  ultimately show ?thesis by (simp add: pc_inv_def)
qed

lemma pc_inv_regs:
  assumes "pc_inv s" "conn_ids b = conn_ids (ps_bridge s)" "reg_ids b = reg_ids (ps_bridge s) @ xs" "received b = received (ps_bridge s)"
    "registry b = registry (ps_bridge s)"
  shows "pc_inv (s\<lparr>ps_bridge := b\<rparr>)"
proof -
  note inv = pc_invD[OF assms(1)]
  have "session_ok (s\<lparr>ps_bridge := b\<rparr>) ws p ph" if "session_ok s ws p ph" for ws p ph
    using that assms(3) unfolding session_ok_def by (auto simp: nth_append)
  then have "sessions_ok (s\<lparr>ps_bridge := b\<rparr>)" using inv(2) unfolding sessions_ok_def by simp
  then show ?thesis using inv assms unfolding pc_inv_def served_def results_ok_def ended_ok_def by simp
qed

lemma pc_inv_receive:
  assumes "pc_inv s" "conn_ids b = conn_ids (ps_bridge s)" "reg_ids b = reg_ids (ps_bridge s)"
    "received b = received (ps_bridge s) @ [(tenant_id p, ws, m)]" "registry b = registry (ps_bridge s)"
    "dget m ''type'' = PStr ''result''" "(ws, p) \<in> set (ps_opened s)" "scopes p = set DEVICE_SCOPES"
  shows "pc_inv (s\<lparr>ps_bridge := b\<rparr>)"
  using assms unfolding pc_inv_def
  by (auto simp: served_def sessions_ok_def session_ok_def results_ok_def ended_ok_def)

lemma result_start_ids [simp]:
  "conn_ids (result_start t m ws b) = conn_ids b" "reg_ids (result_start t m ws b) = reg_ids b" "registry (result_start t m ws b) = registry b"
  "received (result_start t m ws b) = received b @ [(t, ws, m)]"
  by (auto simp: result_start_def Let_def conn_ids_def reg_ids_def split: option.splits pyval.splits)

lemma result_finish_quiet: "quiet b (result_finish r v b\<lparr>replies := rs\<rparr>)"
  by (auto simp: quiet_def result_finish_def Let_def set_fut_def)

lemma bind_valueD:
  assumes "bind_value ok p v a = Inr d"
  shows "pd_tenant d = tenant_id p \<and> pd_cred d = credential_id p \<and> scopes p = set DEVICE_SCOPES"
  using assms by (auto simp: bind_value_def bind_device_def Let_def split: pyval.splits if_splits option.splits)

lemma pc_inv_bind:
  assumes "pc_inv s" "map_of (ps_live s) ws = Some (p, Binding caps v)"
  shows "pc_inv (pc_bind ok ws p caps v s)"
proof -
  note inv = pc_invD[OF assms(1)]
  have free: "unused ws s" by (rule unused_unserving[OF inv(1) assms(2)]) simp
  have o: "(ws, p) \<in> set (ps_opened s)" using inv(2) assms(2) unfolding sessions_ok_def session_ok_def by blast
  show ?thesis
  proof (cases "bind_value ok p v (adb_of (ps_bridge s))")
    case (Inl e)
    then show ?thesis using pc_inv_stop[OF assms free] by (simp add: pc_bind_def)
  next
    case (Inr d)
    show ?thesis
    proof (cases "register_start (tenant_id p) ws caps (Some d) (ps_bridge s)")
      case (Inl e)
      then show ?thesis using Inr pc_inv_leave[OF assms] by (simp add: pc_bind_def)
    next
      case r: (Inr b)
      let ?s = "s\<lparr>ps_bridge := b\<rparr>"
      have b: "conn_ids b = conn_ids (ps_bridge s)" "reg_ids b = reg_ids (ps_bridge s) @ [(tenant_id p, ws, d)]" "received b = received (ps_bridge s)"
        "registry b = registry (ps_bridge s)" "length (regs (ps_bridge s)) = length (reg_ids (ps_bridge s))"
        using r by (auto simp: register_start_def conn_ids_def reg_ids_def split: if_splits)
      have "pc_inv ?s" by (rule pc_inv_regs[OF assms(1) b(1-4)])
      moreover have "session_ok ?s ws p (Registering d (length (regs (ps_bridge s))))"
        using bind_valueD[OF Inr] o b by (simp add: session_ok_def)
      ultimately show ?thesis using Inr r pc_inv_move[of ?s ws p "Binding caps v"] assms(2) by (simp add: pc_bind_def)
    qed
  qed
qed

lemma pc_inv_registered:
  assumes "pc_inv s" "map_of (ps_live s) ws = Some (p, Registering d i)"
  shows "pc_inv (pc_registered ws p d i s)"
proof (cases "rg_phase (regs (ps_bridge s) ! i)")
  case (RegVerified v)
  note inv = pc_invD[OF assms(1)]
  define b where "b = ps_bridge s"
  have i: "i < length (regs b)" "rg_tenant (regs b ! i) = tenant_id p" "rg_ws (regs b ! i) = ws" "rg_device (regs b ! i) = d"
    using inv(2) assms(2) unfolding sessions_ok_def session_ok_def b_def by (force simp: reg_ids_def)+
  obtain b1 r where f: "register_finish (regs b ! i) v b = (b1, r)" by (cases "register_finish (regs b ! i) v b")
  define b2 where "b2 = b1\<lparr>regs := (regs b1)[i := (regs b1 ! i)\<lparr>rg_phase := RegDone r\<rparr>]\<rparr>"
  have rg: "regs b1 = regs b" using f by (auto simp: register_finish_def install_def Let_def fail_pending_def split: if_splits option.splits)
  have b2: "reg_ids b2 = reg_ids b1" unfolding b2_def rg by (simp add: reg_ids_def map_upd_same rg)
  have step: "pc_registered ws p d i s = (case r of Inl e \<Rightarrow> pc_leave ws p (refused_registration e) (s\<lparr>ps_bridge := b2\<rparr>)
      | Inr u \<Rightarrow> pc_move ws p (Greeting d) (s\<lparr>ps_bridge := b2\<rparr>))"
    using RegVerified[folded b_def] f unfolding pc_registered_def Let_def b2_def b_def[symmetric] by simp
  show ?thesis
  proof (cases r)
    case (Inl e)
    then have "b1 = b" using f by (auto simp: register_finish_def split: if_splits option.splits)
    then have "quiet (ps_bridge s) b2" using b2 unfolding quiet_def b_def[symmetric] by (simp add: b2_def)
    then show ?thesis using pc_inv_leave[OF pc_inv_quiet[OF assms(1)]] assms(2) step Inl by simp
  next
    case (Inr u)
    then obtain caps where c: "b1 = install (tenant_id p) ws caps d b" using f i by (auto simp: register_finish_def split: if_splits option.splits)
    have l: "length (conns b) = length (conn_ids b)" by (simp add: conn_ids_def)
    have "pc_inv (pc_move ws p (Greeting d) (s\<lparr>ps_bridge := b2\<rparr>))"
      by (rule pc_inv_install[OF assms]) (use b2 l in \<open>simp_all add: b2_def c install_ids b_def\<close>)
    then show ?thesis using step Inr by simp
  qed
qed (use assms(1) in \<open>simp_all add: pc_registered_def\<close>)

lemma pc_inv_handshake:
  assumes "pc_inv s" "map_of (ps_live s) ws = Some (p, Handshaking)"
  shows "pc_inv (pc_handshake loads S ws p f s)"
proof -
  note inv = pc_invD[OF assms(1)]
  have "unused ws s" by (rule unused_unserving[OF inv(1) assms(2)]) simp
  note stop = pc_inv_stop[OF assms this]
  have "session_ok s ws p (Binding c v)" for c v using inv(2) assms(2) unfolding sessions_ok_def session_ok_def by auto
  then show ?thesis using stop pc_inv_move[OF assms] by (auto simp: pc_handshake_def split: option.splits sum.splits)
qed

text \<open>Between two phases that serve the same device.\<close>

lemma session_ok_serving: "session_ok s ws p ph \<Longrightarrow> serves ph = Some d \<Longrightarrow> bound_device ph' = Some d \<Longrightarrow> (\<forall>d i. ph' \<noteq> Registering d i) \<Longrightarrow>
    session_ok s ws p ph'"
  unfolding session_ok_def by (cases ph) auto

lemma pc_inv_serving:
  assumes "pc_inv s" "map_of (ps_live s) ws = Some (p, ph)" "serves ph = Some d" "serves ph' = Some d"
  shows "pc_inv (pc_move ws p ph' s)"
proof -
  have b: "bound_device ph' = Some d" "\<forall>d i. ph' \<noteq> Registering d i" using assms(4) by (cases ph'; simp)+
  have "session_ok s ws p ph" using pc_invD(2)[OF assms(1)] assms(2) unfolding sessions_ok_def by blast
  from pc_inv_move[OF assms(1,2) session_ok_serving[OF this assms(3) b]] assms(3,4) show ?thesis by simp
qed

lemma pc_inv_message:
  assumes "pc_inv s" "map_of (ps_live s) ws = Some (p, Relaying d)"
  shows "pc_inv (pc_message loads S ws p d f s)"
proof (cases "receive_json loads S f")
  case (Inl e)
  then show ?thesis using pc_inv_leave[OF assms] by (simp add: pc_message_def)
next
  case (Inr m)
  show ?thesis
  proof (cases "dget m ''type'' = PStr ''result''")
    case True
    let ?b = "result_start (tenant_id p) m ws (ps_bridge s)"
    let ?s = "s\<lparr>ps_bridge := ?b\<rparr>"
    have o: "(ws, p) \<in> set (ps_opened s)" "scopes p = set DEVICE_SCOPES"
      using pc_invD(2)[OF assms(1)] assms(2) unfolding sessions_ok_def session_ok_def by fastforce+
    have i: "pc_inv ?s" by (rule pc_inv_receive[OF assms(1) _ _ _ _ True o]) simp_all
    have "pc_inv (pc_move ws p (Handing d j) ?s)" for j by (rule pc_inv_serving[OF i, of ws p "Relaying d" d]) (use assms(2) in simp_all)
    then show ?thesis using Inr True i by (simp add: pc_message_def Let_def)
  qed (use Inr assms(1) in \<open>simp add: pc_message_def\<close>)
qed

lemma pc_inv_handed:
  assumes "pc_inv s" "map_of (ps_live s) ws = Some (p, Handing d j)"
  shows "pc_inv (pc_handed ws p d j s)"
proof (cases "rs_phase (replies (ps_bridge s) ! j)")
  case (ResVerified v)
  show ?thesis unfolding pc_handed_def Let_def ResVerified res_phase.case
    by (rule pc_inv_serving[where ph = "Handing d j" and d = d, OF pc_inv_quiet[OF assms(1) result_finish_quiet]])
      (use assms(2) in simp_all)
qed (use assms(1) in \<open>simp_all add: pc_handed_def\<close>)

lemma pc_inv_greet:
  assumes "pc_inv s" "map_of (ps_live s) ws = Some (p, Greeting d)"
  shows "pc_inv (pc_greet ws p d r s)"
  using pc_inv_leave[OF assms] pc_inv_serving[OF assms, of d "Relaying d"] by (simp add: pc_greet_def split: sum.splits)

lemma pc_inv_cancel:
  assumes "pc_inv s" "map_of (ps_live s) ws = Some (p, ph)" "unentered ph"
  shows "pc_inv (pc_stop ws r s)"
  using pc_inv_stop[OF assms(1,2) unused_unserving[OF pc_invD(1)[OF assms(1)] assms(2)]] assms(3)
  by (cases ph) (auto simp: unentered_def)

lemmas pc_inv_steps = pc_inv_bind pc_inv_registered pc_inv_handshake pc_inv_message pc_inv_handed pc_inv_greet pc_inv_cancel pc_inv_leave
  pc_inv_quiet[OF _ quiet_elsewhere]

lemma pc_step_inv: "pc_inv s \<Longrightarrow> pc_inv (pc_step M T h loads S ev s)"
proof (cases ev)
  case (PcOpen ws p)
  assume inv: "pc_inv s"
  note i = pc_invD[OF inv]
  show ?thesis
  proof (cases "ws \<in> fst ` set (ps_opened s)")
    case False
    have n: "map_of (ps_live s) ws = None" using i(2) False unfolding sessions_ok_def session_ok_def by (metis fst_conv image_eqI not_None_eq prod.collapse)
    let ?u = "s\<lparr>ps_live := AList.update ws (p, Handshaking) (ps_live s), ps_opened := ps_opened s @ [(ws, p)]\<rparr>"
    have "served ?u" using i(1) unused_dead[OF i(1) n] unfolding served_def unused_def by (fastforce simp: update_conv')
    moreover have "sessions_ok ?u" using i(2) unfolding sessions_ok_def session_ok_def by (auto simp: update_conv')
    moreover have "results_ok ?u" using i(3) unfolding results_ok_def by fastforce
    moreover have "ended_ok ?u" using i(4) False unfolding ended_ok_def by (auto simp: update_conv')
    ultimately show ?thesis using False PcOpen by (simp add: pc_inv_def)
  qed (use inv PcOpen in simp)
qed (auto split: option.splits pc_phase.splits intro: pc_inv_steps)

lemma pc_run_inv: "pc_inv (pc_run M T h loads S evs (pc_init d))"
proof -
  have "pc_inv s \<Longrightarrow> pc_inv (pc_run M T h loads S evs s)" for s
    by (induction evs arbitrary: s) (simp_all add: pc_run_def pc_step_inv)
  moreover have "pc_inv (pc_init d)"
    by (simp add: pc_inv_def served_def sessions_ok_def results_ok_def ended_ok_def pc_init_def bridge_init_def)
  ultimately show ?thesis .
qed

text \<open>C13 (invariant): a companion that can be commanded is a live session. Under every interleaving of sessions, commands, cancellation,
  shutdown and operations on the authentication tables: every connection of the bridge is that of a live session
  past its registration, on the same socket, of a principal of this tenant with exactly the companion's scope, and its device was
  bound to the credential of this principal; a session that ended, in whatever way, has no connection; and the bridge only
  gets results that were messages of type \<open>result\<close> of a session of their tenant with that scope.\<close>

theorem companion_sessions:
  fixes M T h loads S evs d
  defines "s \<equiv> pc_run M T h loads S evs (pc_init d)"
  defines "b \<equiv> ps_bridge s"
  shows "(map_of (registry b) t = Some c \<longrightarrow> c < length (conns b) \<and>
      (\<exists>p ph. map_of (ps_live s) (bc_ws (conns b ! c)) = Some (p, ph) \<and> (bc_ws (conns b ! c), p) \<in> set (ps_opened s) \<and> tenant_id p = t \<and>
         serves ph = Some (bc_device (conns b ! c)) \<and> scopes p = set DEVICE_SCOPES \<and>
         pd_tenant (bc_device (conns b ! c)) = t \<and> pd_cred (bc_device (conns b ! c)) = credential_id p) \<and>
      bc_ws (conns b ! c) \<notin> fst ` set (ps_ended s)) \<and>
    ((t, ws, m) \<in> set (received b) \<longrightarrow> dget m ''type'' = PStr ''result'' \<and>
      (\<exists>p. (ws, p) \<in> set (ps_opened s) \<and> tenant_id p = t \<and> scopes p = set DEVICE_SCOPES)) \<and>
    distinct (map fst (ps_opened s))"
proof -
  have i: "pc_inv s" unfolding s_def by (rule pc_run_inv)
  note inv = pc_invD[OF i]
  have "c < length (conns b) \<and>
      (\<exists>p ph. map_of (ps_live s) (bc_ws (conns b ! c)) = Some (p, ph) \<and> (bc_ws (conns b ! c), p) \<in> set (ps_opened s) \<and> tenant_id p = t \<and>
         serves ph = Some (bc_device (conns b ! c)) \<and> scopes p = set DEVICE_SCOPES \<and>
         pd_tenant (bc_device (conns b ! c)) = t \<and> pd_cred (bc_device (conns b ! c)) = credential_id p) \<and>
      bc_ws (conns b ! c) \<notin> fst ` set (ps_ended s)" if r: "map_of (registry b) t = Some c"
  proof -
    obtain p ph where p: "c < length (conn_ids b)" "map_of (ps_live s) (fst (conn_ids b ! c)) = Some (p, ph)" "tenant_id p = t"
      "serves ph = Some (snd (conn_ids b ! c))" using servedD[OF inv(1) r[unfolded b_def]] unfolding b_def .
    have c: "c < length (conns b)" using p(1) by (simp add: conn_ids_def)
    have "bound_device ph = serves ph" using p(4) by (cases ph) auto
    then show ?thesis using p inv(2,4) c unfolding conn_ids_nth(1)[OF c] fst_conv snd_conv sessions_ok_def session_ok_def ended_ok_def by force
  qed
  moreover have "dget m ''type'' = PStr ''result'' \<and> (\<exists>p. (ws, p) \<in> set (ps_opened s) \<and> tenant_id p = t \<and> scopes p = set DEVICE_SCOPES)"
    if "(t, ws, m) \<in> set (received b)" using inv(3) that unfolding results_ok_def b_def by blast
  moreover have "distinct (map fst (ps_opened s))" using inv(4) unfolding ended_ok_def by blast
  ultimately show ?thesis by blast
qed

text \<open>A companion connects, is registered and greeted.\<close>

definition pc_example_who :: principal where
  "pc_example_who = \<lparr>tenant_id = ''t'', credential_id = ''c1'', scopes = set DEVICE_SCOPES\<rparr>"

definition pc_example_events :: "pc_event list" where
  "pc_example_events = [PcOpen 7 pc_example_who,
     PcFrame 7 (Some (TextFrame ''hi'')), PcBind 7 True, PcBridge (RegVerify 0 True), PcRegistered 7, PcGreet 7 (Some (Inr ()))]"

definition pc_example_loads :: "string \<Rightarrow> json_result" where
  "pc_example_loads x = JValue (PDict [(''type'', PStr ''handshake''), (''device_id'', PStr (replicate 32 (CHR ''0''))),
     (''capabilities'', PDict [(''open_apps'', PBool True)])])"

definition zero_uuid :: string where
  "zero_uuid = hyphenate (hex32 0)"

definition pc_example_db :: adb where
  "pc_example_db = demo_adb\<lparr>devices := [\<lparr>dv_id = zero_uuid, dv_tenant = ''t'', dv_cred = ''c1'', dv_revoked = None\<rparr>]\<rparr>"

definition pc_example_device :: paired_device where
  "pc_example_device = \<lparr>pd_tenant = ''t'', pd_cred = ''c1'', pd_device = zero_uuid\<rparr>"

lemma zero_uuid_str: "uuid_str (replicate 32 (CHR ''0'')) = Some zero_uuid"
  by (simp add: uuid_str_def int16_def strip_chars_def strip_def lstrip_def rstrip_def py_space_def code_def hexval_def numeral_eq_Suc
      starts_with_def Let_def zero_uuid_def)

lemma pc_example_active: "require_active pc_example_device pc_example_db = Inr ()"
  by (simp add: require_active_def guardR_def pc_example_device_def pc_example_db_def demo_adb_def)

lemma pc_example_bind:
  "bind_value True \<lparr>tenant_id = ''t'', credential_id = ''c1'', scopes = set DEVICE_SCOPES\<rparr> (PStr (replicate 32 (CHR ''0''))) pc_example_db = Inr pc_example_device"
  using pc_example_active by (simp add: bind_value_def bind_device_def Let_def zero_uuid_str flip: pc_example_device_def)

text \<open>The state after its binding, and after its registration.\<close>

definition pc_example_bound :: pc_sys where
  "pc_example_bound = \<lparr>ps_bridge = (bridge_init pc_example_db)\<lparr>regs := [\<lparr>rg_tenant = ''t'', rg_ws = 7,
       rg_caps = PDict [(''open_apps'', PBool True)], rg_device = pc_example_device, rg_phase = RegChecking\<rparr>]\<rparr>,
     ps_live = [(7, pc_example_who, Registering pc_example_device 0)], ps_opened = [(7, pc_example_who)], ps_ended = []\<rparr>"

lemma pc_example_first:
  "pc_run M T h pc_example_loads demo_ws [PcOpen 7 pc_example_who, PcFrame 7 (Some (TextFrame ''hi'')), PcBind 7 True] (pc_init pc_example_db) =
     pc_example_bound"
proof -
  let ?ls = "[(''type'', PStr ''handshake''), (''device_id'', PStr (replicate 32 (CHR ''0''))), (''capabilities'', PDict [(''open_apps'', PBool True)])]"
  have f: "receive_json pc_example_loads demo_ws (TextFrame ''hi'') = Inr ?ls"
    by (simp add: receive_json_def receive_text_def pc_example_loads_def demo_ws_def utf8_len_def code_def)
  have v: "dget ?ls ''type'' = PStr ''handshake''" "dget ?ls ''device_id'' = PStr (replicate 32 (CHR ''0''))"
    "dget_or ?ls ''capabilities'' (PDict []) = PDict [(''open_apps'', PBool True)]" by (simp_all add: dget_def dget_or_def)
  have t: "tenant_id pc_example_who = ''t''" "pd_tenant pc_example_device = ''t''" by (simp_all add: pc_example_who_def pc_example_device_def)
  show ?thesis unfolding pc_run_def fold_simps pc_step.simps
    by (simp add: pc_init_def bridge_init_def pc_handshake_def f v pc_move_def pc_bind_def pc_example_bind[folded pc_example_who_def]
        register_start_def t pc_example_bound_def)
qed

lemma pc_example_run:
  "let s = pc_run M T h pc_example_loads demo_ws pc_example_events (pc_init pc_example_db) in
     map_of (registry (ps_bridge s)) ''t'' = Some 0 \<and> bc_ws (conns (ps_bridge s) ! 0) = 7"
proof -
  have e: "pc_run M T h pc_example_loads demo_ws pc_example_events s =
      pc_step M T h pc_example_loads demo_ws (PcGreet 7 (Some (Inr ()))) (pc_step M T h pc_example_loads demo_ws (PcRegistered 7)
        (pc_step M T h pc_example_loads demo_ws (PcBridge (RegVerify 0 True))
          (pc_run M T h pc_example_loads demo_ws [PcOpen 7 pc_example_who, PcFrame 7 (Some (TextFrame ''hi'')), PcBind 7 True] s)))" for s
    by (simp add: pc_run_def pc_example_events_def del: pc_step.simps)
  define caps :: dict where "caps = [(''open_apps'', PBool True)]"
  have c: "valid_capabilities (PDict caps) = Some caps" by (simp add: valid_capabilities_def KNOWN_CAPABILITIES_def caps_def)
  show ?thesis unfolding e pc_example_first
    by (simp add: pc_example_bound_def verify_device_def pc_example_active bridge_init_def pc_registered_def register_finish_def install_def
        Let_def c pc_move_def pc_greet_def send_json_def flip: caps_def)
qed

theorem companion_sessions_witness:
  "let s = pc_run 4 demo_S id pc_example_loads demo_ws pc_example_events (pc_init pc_example_db) in
     map_of (registry (ps_bridge s)) ''t'' = Some 0 \<and> 7 \<notin> fst ` set (ps_ended s) \<and>
     (\<exists>p ph. map_of (ps_live s) 7 = Some (p, ph) \<and> scopes p = set DEVICE_SCOPES)"
  using conjunct1[OF companion_sessions[of 4 demo_S id pc_example_loads demo_ws pc_example_events pc_example_db "''t''" 0]]
    pc_example_run[of 4 demo_S id] unfolding Let_def by auto

end
