(* ===== verification/Http_Auth.thy ===== *)
theory Http_Auth
  imports Pc_Session
begin

text \<open>
  The HTTP endpoints that hand out credentials: tickets for WebSockets (\<open>services/api/routes/authentication.py\<close>) and the
  redemption of a pairing token by a companion (\<open>services/api/routes/devices.py\<close>), with their admission, their bounded body and the
  status of every failure. How pydantic reads JSON is an argument. Reaching the tables may fail before a transaction, and its
  confirmation may be lost after it.
\<close>

section \<open>Reaching the tables\<close>

datatype db_reach = Unreached | Unconfirmed | Confirmed

definition reach :: "db_reach \<Rightarrow> (adb \<Rightarrow> adb \<times> 'a res) \<Rightarrow> adb \<Rightarrow> adb \<times> 'a res" where
  "reach q f d = (case q of
       Unreached \<Rightarrow> (d, Inl DatabaseError)
     | Confirmed \<Rightarrow> f d
     | Unconfirmed \<Rightarrow> (case f d of (d', Inl e) \<Rightarrow> (d', Inl e) | (d', Inr x) \<Rightarrow> (d', Inl DatabaseError)))"

section \<open>Tickets\<close>

record ticket_response =
  tr_ticket :: string
  tr_expires_in :: int
  tr_audience :: string

definition ticket_failure :: "exn \<Rightarrow> exn" where
  "ticket_failure e = (case e of
       AuthorizationDenied \<Rightarrow> HTTPException 403
     | CapacityExceeded \<Rightarrow> HTTPException 429
     | DatabaseError \<Rightarrow> HTTPException 503
     | ValueError \<Rightarrow> HTTPException 503
     | _ \<Rightarrow> e)"

text \<open>The caller and the body are checked by the framework first; an audience outside of the literal type is its 422.\<close>

definition issue_websocket_ticket ::
  "ticket_settings \<Rightarrow> bool \<Rightarrow> (string \<Rightarrow> string) \<Rightarrow> db_reach \<Rightarrow> string \<Rightarrow> principal res \<Rightarrow> string \<Rightarrow> string \<Rightarrow> int \<Rightarrow> adb \<Rightarrow>
     adb \<times> ticket_response res" where
  "issue_websocket_ticket T tls h q scheme caller audience tok now d = (case caller of
       Inl e \<Rightarrow> (d, Inl e)
     | Inr p \<Rightarrow>
         if audience \<notin> {''chat'', ''pc-agent''} then (d, Inl (HTTPException 422))
         else if tls \<and> scheme \<noteq> ''https'' then (d, Inl (HTTPException 400))
         else (case bindR (AUDIENCE_SCOPE audience) (\<lambda>sc. require p [sc]) of
             Inl e \<Rightarrow> (d, Inl (ticket_failure e))
           | Inr u \<Rightarrow> (case reach q (\<lambda>d. case issue_ticket T h p audience tok now d of Inl e \<Rightarrow> (d, Inl e) | Inr t \<Rightarrow> (t, Inr ())) d of
               (t, Inl e) \<Rightarrow> (t, Inl (ticket_failure e))
             | (t, Inr v) \<Rightarrow> (t, Inr \<lparr>tr_ticket = tok, tr_expires_in = ticket_ttl T, tr_audience = audience\<rparr>))))"

section \<open>Pairing\<close>

text \<open>The body arrives in chunks, or reading it raises; its time runs out as a \<open>TimeoutError\<close>.\<close>

datatype body_event = BodyChunk string | BodyRaises exn

fun read_body :: "string \<Rightarrow> body_event list \<Rightarrow> string res" where
  "read_body body [] = Inr body"
| "read_body body (BodyChunk c # r) = (if length body + length c > 1024 then Inl (HTTPException 413) else read_body (body @ c) r)"
| "read_body body (BodyRaises e # r) = Inl (if e = TimeoutError then HTTPException 408 else e)"

text \<open>\<open>PairingRequest\<close>: exactly one field, a string of bounded length.\<close>

definition pairing_request :: "(string \<Rightarrow> pyval option) \<Rightarrow> string \<Rightarrow> string res" where
  "pairing_request parse body = (case parse body of
       Some (PDict d) \<Rightarrow> if set (map fst d) \<noteq> {''token''} then Inl (HTTPException 422)
         else (case dget d ''token'' of
             PStr t \<Rightarrow> if 32 \<le> length t \<and> length t \<le> 128 then Inr t else Inl (HTTPException 422)
           | _ \<Rightarrow> Inl (HTTPException 422))
     | _ \<Rightarrow> Inl (HTTPException 422))"

definition pairing_failure :: "exn \<Rightarrow> exn" where
  "pairing_failure e = (case e of
       AdmissionDenied \<Rightarrow> HTTPException 429
     | AuthorizationDenied \<Rightarrow> HTTPException 403
     | DatabaseError \<Rightarrow> HTTPException 503
     | _ \<Rightarrow> e)"

record pairing_env =
  pe_limits :: limits
  pe_tls :: bool
  pe_hash :: "string \<Rightarrow> string"
  pe_parse :: "string \<Rightarrow> pyval option"
  pe_reach :: db_reach
  pe_device :: string
  pe_cred :: string
  pe_key :: string
  pe_clock :: rat
  pe_now :: int

record pairing_call =
  pc_scheme :: string
  pc_origin :: "string option"
  pc_client :: "string option"
  pc_body :: "body_event list"

definition redeem_body :: "pairing_env \<Rightarrow> body_event list \<Rightarrow> adb \<Rightarrow> adb \<times> (string \<times> string) res" where
  "redeem_body E body d = (case bindR (read_body [] body) (pairing_request (pe_parse E)) of
       Inl e \<Rightarrow> (d, Inl e)
     | Inr tok \<Rightarrow> reach (pe_reach E) (redeem (pe_hash E) tok (pe_device E) (pe_cred E) (pe_key E) (pe_now E)) d)"

definition redeem_device :: "pairing_env \<Rightarrow> pairing_call \<Rightarrow> admission \<times> adb \<Rightarrow> (admission \<times> adb) \<times> (string \<times> string) res" where
  "redeem_device E r w = (case w of (a, d) \<Rightarrow>
     if pe_tls E \<and> pc_scheme r \<noteq> ''https'' then ((a, d), Inl (HTTPException 400))
     else if pc_origin r \<noteq> None then ((a, d), Inl (HTTPException 403))
     else (case admit_enter (pe_limits E) (case pc_client r of None \<Rightarrow> ''unknown'' | Some x \<Rightarrow> x) (pe_clock E) a of
         (a1, Inl e) \<Rightarrow> ((a1, d), Inl (pairing_failure e))
       | (a1, Inr u) \<Rightarrow> (case redeem_body E (pc_body r) d of
             (d1, Inl e) \<Rightarrow> ((admit_exit a1, d1), Inl (pairing_failure e))
           | (d1, Inr x) \<Rightarrow> ((admit_exit a1, d1), Inr x))))"

section \<open>A ticket opens its socket\<close>

lemma reach_cases:
  assumes "reach q f d = (d', r)"
  obtains "d' = d" "r = Inl DatabaseError" | "f d = (d', r)" | x where "q = Unconfirmed" "f d = (d', Inr x)" "r = Inl DatabaseError"
proof (cases q)
  case Unreached
  then show ?thesis using assms that(1) by (simp add: reach_def)
next
  case Confirmed
  then show ?thesis using assms that(2) by (simp add: reach_def)
next
  case Unconfirmed
  obtain t v where f: "f d = (t, v)" by (rule prod.exhaust)
  show ?thesis
  proof (cases v)
    case (Inl e)
    then show ?thesis using assms that(2) f Unconfirmed by (simp add: reach_def)
  next
    case (Inr x)
    then show ?thesis using assms that(3)[OF Unconfirmed] f Unconfirmed by (simp add: reach_def)
  qed
qed

lemma issue_ticket_cases:
  assumes "AUDIENCE_SCOPE aud = Inr sc" "sc \<in> scopes p"
  obtains "find (active_key (credential_id p) (tenant_id p)) (api_keys d) = None" "issue_ticket T h p aud tok now d = Inl AuthorizationDenied"
  | k e where "find (active_key (credential_id p) (tenant_id p)) (api_keys d) = Some k" "key_principal k = Inl e" "issue_ticket T h p aud tok now d = Inl e"
  | k pr where "find (active_key (credential_id p) (tenant_id p)) (api_keys d) = Some k" "key_principal k = Inr pr" "sc \<notin> scopes pr"
      "issue_ticket T h p aud tok now d = Inl AuthorizationDenied"
  | k pr where "find (active_key (credential_id p) (tenant_id p)) (api_keys d) = Some k" "key_principal k = Inr pr" "sc \<in> scopes pr"
      "issue_ticket T h p aud tok now d \<in> {Inl CapacityExceeded, Inl DatabaseError} \<or> is_ok (issue_ticket T h p aud tok now d)"
proof -
  have rq: "require q [sc] = (if sc \<in> scopes q then Inr () else Inl AuthorizationDenied)" for q by (simp add: require_def guardR_def)
  show ?thesis
  proof (cases "find (active_key (credential_id p) (tenant_id p)) (api_keys d)")
    case None
    then show ?thesis using that(1) assms rq by (simp add: issue_ticket_def)
  next
    case (Some k)
    show ?thesis
    proof (cases "key_principal k")
      case (Inl e)
      then show ?thesis using that(2)[OF Some] assms rq Some by (simp add: issue_ticket_def)
    next
      case (Inr pr)
      show ?thesis
      proof (cases "sc \<in> scopes pr")
        case True
        then show ?thesis using that(4)[OF Some Inr] assms rq Some Inr by (simp add: issue_ticket_def Let_def)
      next
        case False
        then show ?thesis using that(3)[OF Some Inr] assms rq Some Inr by (simp add: issue_ticket_def)
      qed
    qed
  qed
qed

lemma issue_errors:
  assumes "issue_ticket T h p aud tok now d = Inl e" "AUDIENCE_SCOPE aud = Inr sc" "sc \<in> scopes p"
  shows "e \<in> {AuthorizationDenied, CapacityExceeded, DatabaseError, ValueError}"
proof (cases rule: issue_ticket_cases[OF assms(2,3), of d T h tok now])
  case (2 k x)
  then have "x = ValueError" by (auto simp: key_principal_def mk_principal_def split: if_splits dest: validate_scopes_Inl)
  then show ?thesis using 2 assms(1) by simp
qed (use assms(1) in auto)

lemma issued_consumed:
  assumes "issue_ticket T h p aud tok now d = Inr d'" "32 \<le> length tok" "length tok \<le> 128"
  shows "(now' < now + ticket_ttl T \<longrightarrow> (\<exists>d2 p' sc. consume_ticket h tok aud now' d' = (d2, Inr (Some p')) \<and> tenant_id p' = tenant_id p \<and>
      credential_id p' = credential_id p \<and> AUDIENCE_SCOPE aud = Inr sc \<and> sc \<in> scopes p')) \<and>
    (aud' \<noteq> aud \<or> now + ticket_ttl T \<le> now' \<longrightarrow> snd (consume_ticket h tok aud' now' d') = Inr None)"
proof -
  obtain sc where sc: "AUDIENCE_SCOPE aud = Inr sc" "sc \<in> scopes p" using assms(1) by (auto simp: issue_ticket_def)
  obtain k pr where k: "AUDIENCE_SCOPE aud = Inr sc" "find (active_key (credential_id p) (tenant_id p)) (api_keys d) = Some k"
      "key_principal k = Inr pr" "sc \<in> scopes pr"
    by (cases rule: issue_ticket_cases[OF sc, of d T h tok now]) (use assms(1) sc in auto)
  obtain ts where t: "\<forall>t \<in> set ts. wt_hash t \<noteq> h tok"
    "d' = d\<lparr>tickets := ts @ [\<lparr>wt_hash = h tok, wt_cred = credential_id p, wt_tenant = tenant_id p, wt_audience = aud, wt_expires = now + ticket_ttl T\<rparr>]\<rparr>"
    by (rule issue_cases[OF assms(1)])
  note ak = find_SomeD[OF k(2)]
  have none: "find (redeemable d' (h tok) a n) ts = None" for a n using t(1) by (auto simp: find_None_iff redeemable_def)
  have app: "find P (ts @ [x]) = (case find P ts of Some y \<Rightarrow> Some y | None \<Rightarrow> if P x then Some x else None)" for P and x :: ticket_row
    by (induction ts) auto
  let ?t = "\<lparr>wt_hash = h tok, wt_cred = credential_id p, wt_tenant = tenant_id p, wt_audience = aud, wt_expires = now + ticket_ttl T\<rparr>"
  have keys: "api_keys d' = api_keys d" "tickets d' = ts @ [?t]" using t(2) by simp_all
  have pr: "tenant_id pr = tenant_id p" "credential_id pr = credential_id p"
    using k(3) ak unfolding key_principal_def mk_principal_Inr active_key_def by auto
  have "\<exists>d2 p' sc. consume_ticket h tok aud now' d' = (d2, Inr (Some p')) \<and> tenant_id p' = tenant_id p \<and>
      credential_id p' = credential_id p \<and> AUDIENCE_SCOPE aud = Inr sc \<and> sc \<in> scopes p'" if "now' < now + ticket_ttl T"
  proof -
    have "redeemable d' (h tok) aud now' ?t" using that ak by (auto simp: redeemable_def keys)
    then have f: "find (redeemable d' (h tok) aud now') (tickets d') = Some ?t" by (simp add: keys app none)
    show ?thesis unfolding consume_ticket_def f using assms(2,3) k pr by (auto simp: keys)
  qed
  moreover have "snd (consume_ticket h tok aud' now' d') = Inr None" if "aud' \<noteq> aud \<or> now + ticket_ttl T \<le> now'"
  proof -
    have "\<not> redeemable d' (h tok) aud' now' ?t" using that by (auto simp: redeemable_def)
    then have f: "find (redeemable d' (h tok) aud' now') (tickets d') = None" by (simp add: keys app none)
    show ?thesis unfolding consume_ticket_def f by simp
  qed
  ultimately show ?thesis by blast
qed

text \<open>C25 (functional): a ticket opens its socket. A ticket is only given to an authenticated caller with the scope of the audience, over
  TLS where the settings require it; the WebSocket of this audience then accepts it until it expires, as
  the tenant and credential of the caller with that scope, and no other audience accepts it. Every failure is a fixed status or
  that of the caller's authentication, and leaves the tables as they were unless the confirmation of the transaction was lost.\<close>

theorem ticket_opens_socket:
  assumes "issue_websocket_ticket T tls h q scheme caller aud tok now d = (d', r)" "32 \<le> length tok" "length tok \<le> 128"
  shows "(case r of
      Inr x \<Rightarrow> \<exists>p sc. caller = Inr p \<and> (tls \<longrightarrow> scheme = ''https'') \<and> x = \<lparr>tr_ticket = tok, tr_expires_in = ticket_ttl T, tr_audience = aud\<rparr> \<and>
        AUDIENCE_SCOPE aud = Inr sc \<and> sc \<in> scopes p \<and>
        (now' < now + tr_expires_in x \<longrightarrow> (\<exists>d2 p'. consume_ticket h (tr_ticket x) aud now' d' = (d2, Inr (Some p')) \<and>
           tenant_id p' = tenant_id p \<and> credential_id p' = credential_id p \<and> sc \<in> scopes p')) \<and>
        (aud' \<noteq> aud \<or> now + tr_expires_in x \<le> now' \<longrightarrow> snd (consume_ticket h (tr_ticket x) aud' now' d') = Inr None)
    | Inl e \<Rightarrow> (e \<in> HTTPException ` {400, 403, 422, 429, 503} \<or> caller = Inl e) \<and> (d' = d \<or> q = Unconfirmed))"
proof (cases caller)
  case (Inl e)
  then show ?thesis using assms(1) by (auto simp: issue_websocket_ticket_def)
next
  case (Inr p)
  show ?thesis
  proof (cases "aud \<in> {''chat'', ''pc-agent''} \<and> (tls \<longrightarrow> scheme = ''https'')")
    case False
    then show ?thesis using assms(1) Inr by (auto simp: issue_websocket_ticket_def split: if_splits)
  next
    case True
    then obtain sc where sc: "AUDIENCE_SCOPE aud = Inr sc" by (auto simp: AUDIENCE_SCOPE_def)
    show ?thesis
    proof (cases "sc \<in> scopes p")
      case False
      then have "require p [sc] = Inl AuthorizationDenied" by (simp add: require_def guardR_def)
      then show ?thesis using assms(1) Inr True sc by (auto simp: issue_websocket_ticket_def ticket_failure_def)
    next
      case in_scope: True
      then have rq: "require p [sc] = Inr ()" by simp
      let ?f = "\<lambda>d. case issue_ticket T h p aud tok now d of Inl e \<Rightarrow> (d, Inl e) | Inr t \<Rightarrow> (t, Inr ())"
      obtain v where v: "reach q ?f d = (d', v)"
        "r = (case v of Inl e \<Rightarrow> Inl (ticket_failure e) | Inr u \<Rightarrow> Inr \<lparr>tr_ticket = tok, tr_expires_in = ticket_ttl T, tr_audience = aud\<rparr>)"
        using assms(1) Inr True rq sc unfolding issue_websocket_ticket_def
        by (cases "reach q ?f d") (auto simp del: require_Inr split: sum.splits if_splits)
      show ?thesis
      proof (cases rule: reach_cases[OF v(1)])
        case 1
        then show ?thesis using v(2) by (simp add: ticket_failure_def)
      next
        case 2
        show ?thesis
        proof (cases "issue_ticket T h p aud tok now d")
          case (Inl e)
          then show ?thesis using 2 v(2) issue_errors[OF Inl sc in_scope] by (auto simp: ticket_failure_def)
        next
          case i: (Inr t)
          then have "d' = t" "r = Inr \<lparr>tr_ticket = tok, tr_expires_in = ticket_ttl T, tr_audience = aud\<rparr>" using 2 v(2) by auto
          then show ?thesis using issued_consumed[OF i assms(2,3), of now' aud'] Inr True sc in_scope by auto
        qed
      next
        case (3 x)
        then show ?thesis using v(2) by (simp add: ticket_failure_def)
      qed
    qed
  qed
qed

theorem ticket_opens_socket_witness:
  "\<exists>d' x d2 p. issue_websocket_ticket demo_S True id Confirmed ''https'' (Inr \<lparr>tenant_id = ''t'', credential_id = ''c'', scopes = {''chat:use''}\<rparr>)
      ''chat'' (replicate 40 CHR ''x'') 5 (run_all (run_auth demo_S id) [ACreate ''acme'' None ''t'' ''c'' ''secret''] empty_adb) = (d', Inr x) \<and>
    consume_ticket id (tr_ticket x) ''chat'' 6 d' = (d2, Inr (Some p)) \<and> tenant_id p = ''t''"
proof -
  let ?r = "issue_websocket_ticket demo_S True id Confirmed ''https'' (Inr \<lparr>tenant_id = ''t'', credential_id = ''c'', scopes = {''chat:use''}\<rparr>)
      ''chat'' (replicate 40 CHR ''x'') 5 (run_all (run_auth demo_S id) [ACreate ''acme'' None ''t'' ''c'' ''secret''] empty_adb)"
  have "is_ok (snd ?r)" by code_simp
  then obtain d' x where r: "?r = (d', Inr x)" by (metis is_ok_iff prod.collapse)
  have "ticket_ttl demo_S = 30" by (simp add: demo_S_def)
  with ticket_opens_socket[OF r, of 6 "''chat''"] have "\<exists>d2 p. consume_ticket id (tr_ticket x) ''chat'' 6 d' = (d2, Inr (Some p)) \<and> tenant_id p = ''t''"
    by auto
  with r show ?thesis by blast
qed

section \<open>A pairing pairs\<close>

lemma read_body_Inr: "read_body b es = Inr c \<Longrightarrow> length b \<le> 1024 \<Longrightarrow> length c \<le> 1024 \<and> (\<forall>e. BodyRaises e \<notin> set es)"
  by (induction b es rule: read_body.induct) (auto split: if_splits)

lemma read_body_Inl: "read_body b es = Inl e \<Longrightarrow> e \<in> {HTTPException 413, HTTPException 408} \<or> BodyRaises e \<in> set es"
  by (induction b es rule: read_body.induct) (auto split: if_splits)

lemma pairing_request_Inl: "pairing_request parse body = Inl e \<Longrightarrow> e = HTTPException 422"
  by (auto simp: pairing_request_def split: option.splits pyval.splits if_splits)

lemma redeem_Inl: "redeem h tok dev cred key now d = (d', Inl e) \<Longrightarrow> d' = d \<and> e \<in> {AuthorizationDenied, DatabaseError}"
  by (auto simp: redeem_def redeem_tx_def Let_def insert_key_def insert_device_def split: sum.splits option.splits if_splits)

text \<open>No two tenants have a token of the same digest.\<close>

definition pairing_hashes :: "adb \<Rightarrow> bool" where
  "pairing_hashes s = distinct (map p_hash (pairings s))"

lemma distinct_del: "distinct (map f xs) \<Longrightarrow> distinct (map f (del_where P xs))"
  by (auto simp: del_where_def distinct_map intro: inj_on_subset)

lemma put_pairing_hashes:
  assumes "put_pairing r ps = Inr qs" "distinct (map p_hash ps)" "distinct (map p_tenant ps)"
  shows "distinct (map p_hash qs)"
proof -
  have o: "\<forall>p \<in> set ps. p_tenant p \<noteq> p_tenant r \<longrightarrow> p_hash p \<noteq> p_hash r" using assms(1) by (auto simp: put_pairing_def split: if_splits)
  have u: "distinct (map p_hash (upd_where (\<lambda>p. p_tenant p = p_tenant r) (\<lambda>p. r) ps))"
    using o assms(2,3)
  proof (induction ps)
    case (Cons x ps)
    have m: "y \<in> set (upd_where (\<lambda>p. p_tenant p = p_tenant r) (\<lambda>p. r) ps) \<Longrightarrow> y = r \<and> (\<exists>z \<in> set ps. p_tenant z = p_tenant r) \<or> y \<in> set ps \<and> p_tenant y \<noteq> p_tenant r" for y
      unfolding upd_where_def by (auto split: if_splits)
    have ih: "distinct (map p_hash (upd_where (\<lambda>p. p_tenant p = p_tenant r) (\<lambda>p. r) ps))" using Cons by simp
    have "p_hash (if p_tenant x = p_tenant r then r else x) \<notin> p_hash ` set (upd_where (\<lambda>p. p_tenant p = p_tenant r) (\<lambda>p. r) ps)"
    proof (cases "p_tenant x = p_tenant r")
      case True
      then have "p_tenant r \<notin> p_tenant ` set ps" using Cons.prems(3) by simp
      then have n: "\<forall>z \<in> set ps. p_tenant z \<noteq> p_tenant r" by (metis imageI)
      show ?thesis
      proof
        assume "p_hash (if p_tenant x = p_tenant r then r else x) \<in> p_hash ` set (upd_where (\<lambda>p. p_tenant p = p_tenant r) (\<lambda>p. r) ps)"
        then obtain y where "y \<in> set (upd_where (\<lambda>p. p_tenant p = p_tenant r) (\<lambda>p. r) ps)" "p_hash y = p_hash r" using True by auto
        then show False using m n Cons.prems(1) by (metis list.set_intros(2))
      qed
    next
      case False
      show ?thesis
      proof
        assume "p_hash (if p_tenant x = p_tenant r then r else x) \<in> p_hash ` set (upd_where (\<lambda>p. p_tenant p = p_tenant r) (\<lambda>p. r) ps)"
        then obtain y where y: "y \<in> set (upd_where (\<lambda>p. p_tenant p = p_tenant r) (\<lambda>p. r) ps)" "p_hash y = p_hash x" using False by auto
        have "p_hash x \<noteq> p_hash r" using Cons.prems(1) False by simp
        moreover have "p_hash x \<notin> p_hash ` set ps" using Cons.prems(2) by simp
        ultimately show False using m[OF y(1)] y(2) by (metis image_eqI)
      qed
    qed
    moreover have "upd_where (\<lambda>p. p_tenant p = p_tenant r) (\<lambda>p. r) (x # ps) =
        (if p_tenant x = p_tenant r then r else x) # upd_where (\<lambda>p. p_tenant p = p_tenant r) (\<lambda>p. r) ps" by (simp add: upd_where_def)
    ultimately show ?case using ih by (simp only: list.map distinct.simps set_map) blast
  qed (simp add: upd_where_def)
  show ?thesis
  proof (cases "\<exists>p \<in> set ps. p_tenant p = p_tenant r")
    case True
    then show ?thesis using assms(1) u by (simp add: put_pairing_def split: if_splits)
  next
    case False
    then have "p_hash r \<notin> p_hash ` set ps" using o by (metis imageE)
    moreover have "qs = ps @ [r]" using assms(1) False by (auto simp: put_pairing_def split: if_splits)
    ultimately show ?thesis using assms(2) by simp
  qed
qed

lemma pairing_hashes_step:
  assumes "run_auth T h op s = Inr t" "pairing_hashes s" "auth_inv T s"
  shows "pairing_hashes t"
proof (cases op)
  case (AIssuePairing tenant tok now)
  obtain tid ps where pp: "put_pairing \<lparr>p_tenant = tid, p_hash = h tok, p_expires = now + PAIRING_TTL_SECONDS\<rparr>
      (del_where (\<lambda>p. p_expires p \<le> now) (pairings s)) = Inr ps" "t = s\<lparr>pairings := ps\<rparr>"
    using assms(1) AIssuePairing by (auto simp: issue_pairing_def Let_def split: option.splits if_splits)
  have "distinct (map p_hash ps)" by (rule put_pairing_hashes[OF pp(1) distinct_del distinct_del])
    (use assms(2,3) in \<open>simp_all add: pairing_hashes_def auth_inv_def pairings_inv_def\<close>)
  then show ?thesis using pp(2) by (simp add: pairing_hashes_def)
next
  case (ARedeem tok dev cred ktok now)
  then have "redeem_tx h tok dev cred ktok now s = Inr t" using assms(1) by simp
  then show ?thesis
    by (rule redeem_cases) (use assms(2) in \<open>auto simp: pairing_hashes_def insert_key_Inr insert_device_Inr revoke_devices_def Let_def distinct_del\<close>)
next
  case (ACreate name ss tid cred tok)
  obtain r where "create_tenant_with_key h name ss tid cred tok s = (t, Inr r)" using assms(1) ACreate by (auto split: prod.splits sum.splits)
  then show ?thesis by (rule create_cases) (use assms(2) in \<open>auto simp: pairing_hashes_def insert_key_Inr\<close>)
next
  case (AIssue p a tok now)
  then have "issue_ticket T h p a tok now s = Inr t" using assms(1) by simp
  then show ?thesis by (rule issue_cases) (use assms(2) in \<open>simp add: pairing_hashes_def\<close>)
next
  case (AConsume tok a now)
  then show ?thesis using assms(1,2) by (cases rule: consume_cases[of h tok a now s]) (auto simp: pairing_hashes_def)
qed (use assms in \<open>auto simp: pairing_hashes_def revoke_api_key_def revoke_tenant_devices_def revoke_devices_def Let_def distinct_del
    split: option.splits if_splits\<close>)

lemma pairing_hashes_run: "pairing_hashes (run_all (run_auth T h) ops empty_adb)"
proof -
  have e: "pairing_hashes empty_adb" by (simp add: pairing_hashes_def empty_adb_def)
  show ?thesis by (rule adb.stable_run_all[where Q = pairing_hashes, OF pairing_hashes_step auth_inv_empty e])
qed

lemma redeem_facts:
  assumes "redeem h tok dev cred key now d = (d', Inr x)" "d = run_all (run_auth T h) ops empty_adb" "length key \<le> 251"
    "strip cred \<noteq> []" "uuid_str dev = Some dev" "\<forall>p \<in> set (pairings d). strip (p_tenant p) \<noteq> []"
  shows "x = (dev, API_KEY_PREFIX @ key) \<and> (\<exists>q pr. q \<in> set (pairings d) \<and> p_hash q = h tok \<and> now < p_expires q \<and>
      resolve_principal h (Some (API_KEY_PREFIX @ key)) d' = Inr (Some pr) \<and> tenant_id pr = p_tenant q \<and> scopes pr = set DEVICE_SCOPES \<and>
      bind_value True pr (PStr dev) d' = Inr \<lparr>pd_tenant = p_tenant q, pd_cred = cred, pd_device = dev\<rparr> \<and>
      (\<forall>dev2 cred2 key2 n. snd (redeem h tok dev2 cred2 key2 n d') = Inl AuthorizationDenied) \<and>
      (\<forall>old. pd_tenant old = p_tenant q \<and> require_active old d = Inr () \<longrightarrow> require_active old d' = Inl AuthorizationDenied))"
proof -
  have inv: "auth_inv T d" "pairing_hashes d" unfolding assms(2) by (rule auth_run_inv, rule pairing_hashes_run)
  have tx: "redeem_tx h tok dev cred key now d = Inr d'" and x: "x = (dev, API_KEY_PREFIX @ key)"
    using assms(1) by (auto simp: redeem_def generate_api_key_def split: sum.splits)
  obtain p s1 s2 where p: "p \<in> set (pairings d)" "p_hash p = h tok"
    and s1: "s1 = revoke_devices (p_tenant p) now (d\<lparr>pairings := del_where
       (\<lambda>q. p_tenant q = p_tenant p \<and> p_hash q = h tok \<and> p_expires q > now) (pairings d)\<rparr>)"
    and s2: "insert_key \<lparr>k_id = cred, k_tenant = p_tenant p, k_hash = snd (generate_api_key h key), k_scopes = DEVICE_SCOPES, k_revoked = None\<rparr> s1 = Inr s2"
      "insert_device \<lparr>dv_id = dev, dv_tenant = p_tenant p, dv_cred = cred, dv_revoked = None\<rparr> s2 = Inr d'"
    using tx by (rule redeem_cases)
  have uniq: "q = p" if "q \<in> set (pairings d)" "p_hash q = h tok" for q
    using inv(2) that p unfolding pairing_hashes_def by (metis distinct_map_eq)
  have ex: "now < p_expires p"
  proof (rule ccontr)
    assume "\<not> now < p_expires p"
    then have "\<forall>q \<in> set (pairings d). \<not> (p_tenant q = p_tenant p \<and> p_hash q = h tok \<and> p_expires q > now)" using uniq by metis
    then have "count_where (\<lambda>q. p_tenant q = p_tenant p \<and> p_hash q = h tok \<and> p_expires q > now) (pairings d) = 0"
      by (simp add: count_where_def filter_empty_conv)
    moreover obtain p' where p': "find (\<lambda>p. p_hash p = h tok) (pairings d) = Some p'" using find_ex[OF p(1), of "\<lambda>p. p_hash p = h tok"] p(2) by blast
    moreover have "p' = p" by (rule uniq) (use find_SomeD[OF p'] in blast)+
    ultimately show False using tx by (simp add: redeem_tx_def split: if_splits)
  qed
  let ?k = "\<lparr>k_id = cred, k_tenant = p_tenant p, k_hash = h (API_KEY_PREFIX @ key), k_scopes = DEVICE_SCOPES, k_revoked = None\<rparr>"
  let ?pr = "\<lparr>tenant_id = p_tenant p, credential_id = cred, scopes = set DEVICE_SCOPES\<rparr>"
  let ?pd = "\<lparr>pd_tenant = p_tenant p, pd_cred = cred, pd_device = dev\<rparr>"
  have keys: "api_keys d' = api_keys s1 @ [?k]" "\<forall>q \<in> set (api_keys s1). k_hash q \<noteq> h (API_KEY_PREFIX @ key)"
    and devs: "devices d' = devices s1 @ [\<lparr>dv_id = dev, dv_tenant = p_tenant p, dv_cred = cred, dv_revoked = None\<rparr>]"
    and pairs: "pairings d' = del_where (\<lambda>q. p_tenant q = p_tenant p \<and> p_hash q = h tok \<and> p_expires q > now) (pairings d)"
    using s2 s1 by (auto simp: insert_key_Inr insert_device_Inr generate_api_key_def revoke_devices_def Let_def)
  have "find (\<lambda>k. k_hash k = h (API_KEY_PREFIX @ key) \<and> k_revoked k = None) (api_keys d') = Some ?k"
  proof -
    have "find P (xs @ [y]) = Some y" if "\<forall>x \<in> set xs. \<not> P x" "P y" for P xs and y :: key_row
      using that by (induction xs) auto
    then show ?thesis using keys by simp
  qed
  moreover have "key_principal ?k = Inr ?pr"
    using assms(4,6) p(1) by (simp add: key_principal_def mk_principal_def DEVICE_SCOPES_def KNOWN_SCOPES_def)
  ultimately have rp: "resolve_principal h (Some (API_KEY_PREFIX @ key)) d' = Inr (Some ?pr)"
    using assms(3) by (simp add: resolve_principal_def API_KEY_PREFIX_def)
  have "require_active ?pd d' = Inr ()" by (simp add: require_active_def guardR_def keys(1) devs)
  then have bd: "bind_value True ?pr (PStr dev) d' = Inr ?pd" using assms(5) by (simp add: bind_value_def bind_device_def)
  have "find (\<lambda>p. p_hash p = h tok) (pairings d') = None"
  proof -
    have "p_hash q \<noteq> h tok" if "q \<in> set (pairings d')" for q
      using that uniq[of q] ex p(2) unfolding pairs set_del_where by blast
    then show ?thesis by (simp add: find_None_iff)
  qed
  then have again: "snd (redeem h tok dev2 cred2 key2 n d') = Inl AuthorizationDenied" for dev2 cred2 key2 n
    by (simp add: redeem_def redeem_tx_def)
  have old: "require_active old d' = Inl AuthorizationDenied" if "pd_tenant old = p_tenant p" "require_active old d = Inr ()" for old
  proof -
    have "\<exists>e \<in> set (devices d'). dv_id e = dev \<and> dv_tenant e = pd_tenant old" using devs that(1) by simp
    from redeem_replaces_device[OF inv(1) assms(1) that(2) this, of "[]"] show ?thesis by simp
  qed
  have "\<forall>dev2 cred2 key2 n. snd (redeem h tok dev2 cred2 key2 n d') = Inl AuthorizationDenied"
    "\<forall>old. pd_tenant old = p_tenant p \<and> require_active old d = Inr () \<longrightarrow> require_active old d' = Inl AuthorizationDenied"
    using again old by blast+
  then show ?thesis by (intro conjI x exI[of _ p] exI[of _ ?pr] p ex rp bd) simp_all
qed

lemma admit_cases:
  assumes "admit_enter L host now a = (a', r)" "window_ok L n (attempts a)"
  shows "(r = Inr () \<and> inflight a' = Suc (inflight a)) \<or> (r = Inl AdmissionDenied \<and> inflight a' = inflight a)"
proof -
  obtain w where "expire now (attempts a) = Inr w" using expire_total[OF assms(2)] by blast
  then show ?thesis using assms(1) by (auto simp: admit_enter_def Let_def split: if_splits)
qed

lemma redeem_body_Inl:
  assumes "redeem_body E body d = (d', Inl e)"
  shows "(pairing_failure e \<in> HTTPException ` {403, 408, 413, 422, 503} \<or> BodyRaises e \<in> set body) \<and> (d' = d \<or> pe_reach E = Unconfirmed)"
proof (cases "bindR (read_body [] body) (pairing_request (pe_parse E))")
  case f: (Inl e')
  from assms[unfolded redeem_body_def f] have e: "e' = e" "d' = d" by simp_all
  have "e \<in> {HTTPException 413, HTTPException 408, HTTPException 422} \<or> BodyRaises e \<in> set body"
  proof (cases "read_body [] body")
    case (Inl x)
    then show ?thesis using read_body_Inl[OF Inl] f e by auto
  next
    case (Inr c)
    then show ?thesis using f e pairing_request_Inl[of "pe_parse E" c e] by auto
  qed
  then show ?thesis using e by (auto simp: pairing_failure_def)
next
  case (Inr tok)
  from assms[unfolded redeem_body_def Inr]
  have r: "reach (pe_reach E) (redeem (pe_hash E) tok (pe_device E) (pe_cred E) (pe_key E) (pe_now E)) d = (d', Inl e)" by simp
  show ?thesis
  proof (cases rule: reach_cases[OF r])
    case 2
    then show ?thesis using redeem_Inl[OF 2] by (auto simp: pairing_failure_def)
  qed (simp_all add: pairing_failure_def)
qed

lemma redeem_body_Inr:
  assumes "redeem_body E body d = (d', Inr x)"
  obtains tok c where "read_body [] body = Inr c" "length c \<le> 1024" "pairing_request (pe_parse E) c = Inr tok"
    "redeem (pe_hash E) tok (pe_device E) (pe_cred E) (pe_key E) (pe_now E) d = (d', Inr x)"
proof (cases "bindR (read_body [] body) (pairing_request (pe_parse E))")
  case (Inr tok)
  then obtain c where c: "read_body [] body = Inr c" "pairing_request (pe_parse E) c = Inr tok" by auto
  have r: "reach (pe_reach E) (redeem (pe_hash E) tok (pe_device E) (pe_cred E) (pe_key E) (pe_now E)) d = (d', Inr x)"
    using assms[unfolded redeem_body_def Inr] by simp
  show ?thesis by (cases rule: reach_cases[OF r]) (use that c read_body_Inr[OF c(1)] in auto)
next
  case (Inl e)
  from assms[unfolded redeem_body_def Inl] show ?thesis by simp
qed

text \<open>C24 (functional): redeeming a pairing token over HTTP pairs the companion. A credential is only given for an unexpired token of a
  tenant, from a native client and over TLS where required, with a body of at most 1 KiB. The key then authenticates
  as this tenant with exactly the companion's scope and binds the new device; the token is used up, and the device that the
  tenant had before is refused. Every failure is a fixed status or what reading the request raised, and leaves the tables as
  they were unless the confirmation of the transaction was lost. The slot of the admission is given back in every case.\<close>

theorem pairing_endpoint:
  assumes "redeem_device E r (a, d) = ((a', d'), x)" "d = run_all (run_auth T (pe_hash E)) ops empty_adb" "window_ok (pe_limits E) n (attempts a)"
    "length (pe_key E) \<le> 251" "strip (pe_cred E) \<noteq> []" "uuid_str (pe_device E) = Some (pe_device E)" "\<forall>p \<in> set (pairings d). strip (p_tenant p) \<noteq> []"
  shows "inflight a' = inflight a \<and> (case x of
      Inr (dev, key) \<Rightarrow> (pe_tls E \<longrightarrow> pc_scheme r = ''https'') \<and> pc_origin r = None \<and> dev = pe_device E \<and> key = API_KEY_PREFIX @ pe_key E \<and>
        (\<exists>c tok q pr. read_body [] (pc_body r) = Inr c \<and> length c \<le> 1024 \<and> pairing_request (pe_parse E) c = Inr tok \<and>
           q \<in> set (pairings d) \<and> p_hash q = pe_hash E tok \<and> pe_now E < p_expires q \<and>
           resolve_principal (pe_hash E) (Some key) d' = Inr (Some pr) \<and> tenant_id pr = p_tenant q \<and> scopes pr = set DEVICE_SCOPES \<and>
           bind_value True pr (PStr dev) d' = Inr \<lparr>pd_tenant = p_tenant q, pd_cred = pe_cred E, pd_device = dev\<rparr> \<and>
           (\<forall>dev2 cred2 key2 m. snd (redeem (pe_hash E) tok dev2 cred2 key2 m d') = Inl AuthorizationDenied) \<and>
           (\<forall>old. pd_tenant old = p_tenant q \<and> require_active old d = Inr () \<longrightarrow> require_active old d' = Inl AuthorizationDenied))
    | Inl e \<Rightarrow> (e \<in> HTTPException ` {400, 403, 408, 413, 422, 429, 503} \<or> (\<exists>e'. BodyRaises e' \<in> set (pc_body r) \<and> e = pairing_failure e')) \<and>
        (d' = d \<or> pe_reach E = Unconfirmed))"
proof (cases "(pe_tls E \<and> pc_scheme r \<noteq> ''https'') \<or> pc_origin r \<noteq> None")
  case True
  then show ?thesis using assms(1) by (auto simp: redeem_device_def split: if_splits)
next
  case False
  obtain a1 u where a: "admit_enter (pe_limits E) (case pc_client r of None \<Rightarrow> ''unknown'' | Some x \<Rightarrow> x) (pe_clock E) a = (a1, u)" by (rule prod.exhaust)
  consider (denied) "u = Inl AdmissionDenied" "inflight a1 = inflight a" | (admitted) "u = Inr ()" "inflight a1 = Suc (inflight a)"
    using admit_cases[OF a assms(3)] by blast
  then show ?thesis
  proof cases
    case denied
    then show ?thesis using assms(1) False a by (auto simp: redeem_device_def pairing_failure_def)
  next
    case admitted
    obtain d1 y where b: "redeem_body E (pc_body r) d = (d1, y)" by (rule prod.exhaust)
    have o: "a' = admit_exit a1" "d' = d1" "x = (case y of Inl e \<Rightarrow> Inl (pairing_failure e) | Inr z \<Rightarrow> Inr z)"
      using assms(1) False a admitted b by (auto simp: redeem_device_def split: sum.splits)
    have i: "inflight a' = inflight a" using o(1) admitted(2) by (simp add: admit_exit_def)
    show ?thesis
    proof (cases y)
      case (Inl e)
      then have "x = Inl (pairing_failure e)" using o(3) by simp
      then show ?thesis using i redeem_body_Inl[OF b[unfolded Inl]] o(2) by auto
    next
      case (Inr z)
      obtain tok c where t: "read_body [] (pc_body r) = Inr c" "length c \<le> 1024" "pairing_request (pe_parse E) c = Inr tok"
        "redeem (pe_hash E) tok (pe_device E) (pe_cred E) (pe_key E) (pe_now E) d = (d', Inr z)"
        using redeem_body_Inr[OF b[unfolded Inr]] o(2) by blast
      note f = redeem_facts[OF t(4) assms(2,4,5,6,7)]
      have "x = Inr (pe_device E, API_KEY_PREFIX @ pe_key E)" using o(3) Inr conjunct1[OF f] by simp
      then show ?thesis using i False t(1-3) conjunct2[OF f] by auto
    qed
  qed
qed

text \<open>A companion redeems the token of its tenant.\<close>

definition pairing_example :: pairing_env where
  "pairing_example = \<lparr>pe_limits = demo_limits, pe_tls = True, pe_hash = id, pe_parse = (\<lambda>b. Some (PDict [(''token'', PStr (replicate 40 CHR ''y''))])),
     pe_reach = Confirmed, pe_device = zero_uuid, pe_cred = ''c2'', pe_key = ''k2'', pe_clock = 0, pe_now = 9\<rparr>"

definition pairing_example_call :: pairing_call where
  "pairing_example_call = \<lparr>pc_scheme = ''https'', pc_origin = None, pc_client = None, pc_body = [BodyChunk ''b'']\<rparr>"

definition pairing_ops :: "auth_op list" where
  "pairing_ops = [ACreate ''acme'' None zero_uuid ''c'' ''s'', AIssuePairing (replicate 32 (CHR ''0'')) (replicate 40 CHR ''y'') 5]"

definition pairing_db :: adb where
  "pairing_db = run_all (run_auth demo_S id) pairing_ops empty_adb"

lemma zero_uuid_text: "zero_uuid = ''00000000-0000-0000-0000-000000000000''"
proof -
  have "char_of (48 :: nat) = CHR ''0''" by code_simp
  then have "hex32 0 = replicate 32 (CHR ''0'')" by (simp add: hex32_def hex_char_of_def map_replicate_const)
  then show ?thesis by (simp add: zero_uuid_def hyphenate_def numeral_eq_Suc)
qed

lemma zero_uuid_canonical: "uuid_str zero_uuid = Some zero_uuid" "strip zero_uuid \<noteq> []"
proof -
  have "remove_all ''urn:'' zero_uuid = zero_uuid" "remove_all ''uuid:'' zero_uuid = zero_uuid"
    by (simp_all add: zero_uuid_text starts_with_def)
  then show "uuid_str zero_uuid = Some zero_uuid"
    by (simp add: uuid_str_def int16_def strip_chars_def strip_def lstrip_def rstrip_def py_space_def code_def hexval_def zero_uuid_text Let_def)
      (simp add: zero_uuid_def flip: zero_uuid_text)
  show "strip zero_uuid \<noteq> []" by (simp add: zero_uuid_text strip_def lstrip_def rstrip_def py_space_def code_def)
qed

lemma pairing_db_eq:
  "pairings pairing_db = [\<lparr>p_tenant = zero_uuid, p_hash = replicate 40 CHR ''y'', p_expires = 125\<rparr>]"
  "devices pairing_db = []" "map k_id (api_keys pairing_db) = [''c'']" "map k_hash (api_keys pairing_db) = [''ally_s'']"
proof -
  let ?k = "\<lparr>k_id = ''c'', k_tenant = zero_uuid, k_hash = ''ally_s'', k_scopes = sorted_list_of_set DEFAULT_SCOPES, k_revoked = None\<rparr>"
  let ?s = "empty_adb\<lparr>tenants := [\<lparr>tn_id = zero_uuid, tn_name = ''acme''\<rparr>], api_keys := [?k]\<rparr>"
  have sc: "validate_scopes (ScopeColl (sorted_list_of_set DEFAULT_SCOPES)) = Inr DEFAULT_SCOPES" "set (sorted_list_of_set DEFAULT_SCOPES) \<subseteq> KNOWN_SCOPES"
    by (auto simp: DEFAULT_SCOPES_def KNOWN_SCOPES_def)
  have "run_auth demo_S id (ACreate ''acme'' None zero_uuid ''c'' ''s'') empty_adb = Inr ?s"
    using sc by (simp add: create_tenant_with_key_def upsert_tenant_def insert_key_def generate_api_key_def API_KEY_PREFIX_def empty_adb_def)
  moreover have "run_auth demo_S id (AIssuePairing (replicate 32 (CHR ''0'')) (replicate 40 CHR ''y'') 5) ?s =
      Inr (?s\<lparr>pairings := [\<lparr>p_tenant = zero_uuid, p_hash = replicate 40 CHR ''y'', p_expires = 125\<rparr>]\<rparr>)"
    by (simp add: issue_pairing_def zero_uuid_str put_pairing_def PAIRING_TTL_SECONDS_def MAX_PENDING_PAIRINGS_def Let_def empty_adb_def del_where_def)
  ultimately have e: "pairing_db = ?s\<lparr>pairings := [\<lparr>p_tenant = zero_uuid, p_hash = replicate 40 CHR ''y'', p_expires = 125\<rparr>]\<rparr>"
    by (simp add: pairing_db_def pairing_ops_def commit_def del: run_auth.simps)
  show "pairings pairing_db = [\<lparr>p_tenant = zero_uuid, p_hash = replicate 40 CHR ''y'', p_expires = 125\<rparr>]"
    "devices pairing_db = []" "map k_id (api_keys pairing_db) = [''c'']" "map k_hash (api_keys pairing_db) = [''ally_s'']"
    unfolding e by (simp_all add: empty_adb_def)
qed

lemma pairing_example_ok: "is_ok (snd (redeem_device pairing_example pairing_example_call (\<lparr>attempts = [], inflight = 0\<rparr>, pairing_db)))"
proof -
  have k: "\<forall>q \<in> set (api_keys pairing_db). k_id q \<noteq> ''c2'' \<and> k_hash q \<noteq> ''ally_k2''" using pairing_db_eq(3,4) by auto
  have "is_ok (redeem_tx id (replicate 40 CHR ''y'') zero_uuid ''c2'' ''k2'' 9 pairing_db)"
    using k by (simp add: redeem_tx_def pairing_db_eq count_where_def Let_def revoke_devices_def insert_key_def insert_device_def
        generate_api_key_def API_KEY_PREFIX_def DEVICE_SCOPES_def KNOWN_SCOPES_def upd_where_def)
  then obtain t where "redeem_tx id (replicate 40 CHR ''y'') zero_uuid ''c2'' ''k2'' 9 pairing_db = Inr t" by (auto simp: is_ok_iff)
  moreover have "pairing_request (pe_parse pairing_example) ''b'' = Inr (replicate 40 CHR ''y'')"
    by (simp add: pairing_request_def pairing_example_def dget_def)
  ultimately show ?thesis
    by (simp add: redeem_device_def pairing_example_call_def admit_enter_def demo_limits_def redeem_body_def reach_def redeem_def pairing_example_def Let_def)
qed

theorem pairing_endpoint_witness:
  "\<exists>w dev key pr. redeem_device pairing_example pairing_example_call (\<lparr>attempts = [], inflight = 0\<rparr>, pairing_db) = (w, Inr (dev, key)) \<and>
     resolve_principal id (Some key) (snd w) = Inr (Some pr) \<and> tenant_id pr = zero_uuid \<and> scopes pr = set DEVICE_SCOPES"
proof -
  obtain a' d' x where r: "redeem_device pairing_example pairing_example_call (\<lparr>attempts = [], inflight = 0\<rparr>, pairing_db) = ((a', d'), x)"
    by (metis prod.collapse)
  then obtain dev key where x: "x = Inr (dev, key)" using pairing_example_ok by (metis is_ok_iff snd_conv prod.collapse)
  have d: "pairing_db = run_all (run_auth demo_S (pe_hash pairing_example)) pairing_ops empty_adb" by (simp add: pairing_db_def pairing_example_def)
  have w: "window_ok (pe_limits pairing_example) 0 (attempts \<lparr>attempts = [], inflight = 0\<rparr>)"
    by (simp add: window_ok_def pairing_example_def demo_limits_def)
  have "strip ''c2'' \<noteq> []" by (simp add: strip_def lstrip_def rstrip_def py_space_def code_def)
  then have "length (pe_key pairing_example) \<le> 251" "strip (pe_cred pairing_example) \<noteq> []" "uuid_str (pe_device pairing_example) = Some (pe_device pairing_example)"
    "\<forall>p \<in> set (pairings pairing_db). strip (p_tenant p) \<noteq> []"
    by (simp_all add: pairing_example_def zero_uuid_canonical pairing_db_eq)
  from pairing_endpoint[OF r d w this] x pairing_db_eq(1) obtain pr where
    "resolve_principal (pe_hash pairing_example) (Some key) d' = Inr (Some pr)" "tenant_id pr = zero_uuid" "scopes pr = set DEVICE_SCOPES" by auto
  moreover have "pe_hash pairing_example = id" by (simp add: pairing_example_def)
  ultimately show ?thesis using r x by auto
qed

end
