(* ===== verification/Operations.thy ===== *)
theory Operations
  imports Ingestion_Workflow Lexical_Index Auth_Inv Api_App
begin

text \<open>
  How the system is operated: the maintenance workflows (\<open>workflows/ingestion_workflow.py\<close>) with their retries and the commands
  that start them (\<open>scripts/ingestion_admin.py\<close>), the worker process (\<open>workflows/worker.py\<close>), the flusher of the lexical index
  (\<open>services/retrieval/bm25_rebuild_worker.py\<close>), and the commands of the operator for credentials
  (\<open>services/auth/provision_tenant.py\<close>, \<open>pair_device.py\<close>).
\<close>

section \<open>Maintenance workflows\<close>

text \<open>The attempts of an activity: each runs on the state that the previous one left, and the policy bounds their number. When no more
  attempts come the workflow is cancelled.\<close>

fun with_retry :: "nat \<Rightarrow> ('s, 'a) st list \<Rightarrow> ('s, 'a) st" where
  "with_retry n [] = failS CancelledError"
| "with_retry 0 (m # ms) = failS (ActivityError False)"
| "with_retry (Suc n) (m # ms) = (\<lambda>s. case m s of
     (s', Inr x) \<Rightarrow> (s', Inr x)
   | (s', Inl e) \<Rightarrow> if n = 0 then (s', Inl (ActivityError False)) else with_retry n ms s')"

text \<open>What the outside does to an attempt: whether it runs at all, how the indexes answer, and whether its end is reported.\<close>

record 'x attempt =
  at_runs :: bool
  at_reconcile :: "rec_call \<Rightarrow> 'x \<Rightarrow> 'x \<times> bool"
  at_rebuild :: "'x \<Rightarrow> 'x \<times> bool"
  at_delete :: "(string \<times> string \<times> string) \<times> string \<Rightarrow> 'x \<Rightarrow> 'x"
  at_now :: int
  at_reported :: bool

definition attempt_of :: "'x attempt \<Rightarrow> (db \<times> 'x, 'a) st \<Rightarrow> (db \<times> 'x, 'a) st" where
  "attempt_of A m = (\<lambda>s. if \<not> at_runs A then (s, Inl TimeoutError)
     else (case m s of (s', r) \<Rightarrow> (s', if at_reported A then r else Inl TimeoutError)))"

definition reconcile_workflow :: "'x attempt list \<Rightarrow> (db \<times> 'x, nat) st" where
  "reconcile_workflow As = with_retry 3 (map (\<lambda>A. attempt_of A (reconcile_ingestion_indexes_sync (at_reconcile A) (at_rebuild A) (at_now A))) As)"

definition tombstone_workflow :: "string \<Rightarrow> string \<Rightarrow> string \<Rightarrow> 'x attempt list \<Rightarrow> (db \<times> 'x, bool) st" where
  "tombstone_workflow doc tenant reason As =
     with_retry 5 (map (\<lambda>A. attempt_of A (tombstone_ingestion_document (at_reconcile A) (at_rebuild A) doc tenant reason)) As)"

definition janitor_workflow :: "int \<Rightarrow> string list \<Rightarrow> 'x attempt list \<Rightarrow> (db \<times> 'x, nat) st" where
  "janitor_workflow limit running As = with_retry 3 (map (\<lambda>A. attempt_of A (\<lambda>(s, x).
     case janitor_ingestion_artifacts (at_delete A) limit running s x of (x', n) \<Rightarrow> ((s, x'), Inr n))) As)"

section \<open>The operator's commands\<close>

datatype admin_command =
    AdminReconcile
  | AdminJanitor int
  | AdminTombstone string string string string

text \<open>What the argument parser lets through.\<close>

fun admin_accepts :: "admin_command \<Rightarrow> bool" where
  "admin_accepts AdminReconcile = True"
| "admin_accepts (AdminJanitor days) = (1 \<le> days \<and> days \<le> 3650)"
| "admin_accepts (AdminTombstone tenant doc reason confirmation) = (confirmation = doc)"

text \<open>The workflow a command starts, with its identifier and arguments; \<open>running\<close> are the workflows that run, times are seconds.\<close>

datatype admin_start =
    StartReconcile string
  | StartJanitor string int "string list"
  | StartTombstone string string string string

definition active_ingestions :: "string list \<Rightarrow> string list" where
  "active_ingestions running = filter (\<lambda>w. starts_with w ''ingest-'') running"

fun admin_run :: "string \<Rightarrow> int \<Rightarrow> string list \<Rightarrow> admin_command \<Rightarrow> admin_start" where
  "admin_run uuid now running AdminReconcile = StartReconcile (''reconcile-ingestion-'' @ uuid)"
| "admin_run uuid now running (AdminJanitor days) =
     StartJanitor (''ingestion-artifact-janitor-'' @ uuid) (now - days * 86400) (active_ingestions running)"
| "admin_run uuid now running (AdminTombstone tenant doc reason confirmation) =
     StartTombstone (''tombstone-ingestion-'' @ doc @ ''-'' @ uuid) doc tenant reason"

definition admin_main :: "string \<Rightarrow> int \<Rightarrow> string list \<Rightarrow> admin_command \<Rightarrow> admin_start option" where
  "admin_main uuid now running c = (if admin_accepts c then Some (admin_run uuid now running c) else None)"

text \<open>What the worker executes for it.\<close>

fun execute_start :: "'x attempt list \<Rightarrow> admin_start \<Rightarrow> (db \<times> 'x, unit) st" where
  "execute_start As (StartReconcile w) = bindS (reconcile_workflow As) (\<lambda>_. retS ())"
| "execute_start As (StartJanitor w limit running) = bindS (janitor_workflow limit running As) (\<lambda>_. retS ())"
| "execute_start As (StartTombstone w doc tenant reason) = bindS (tombstone_workflow doc tenant reason As) (\<lambda>_. retS ())"

section \<open>The flusher\<close>

text \<open>The loop over the polls, each with its clock and the database it finds; an error ends it.\<close>

fun run_loop :: "okapi \<Rightarrow> (string \<Rightarrow> string) \<Rightarrow> (rat \<times> nat \<times> db) list \<Rightarrow> (index_files, unit) st" where
  "run_loop okapi uuid5 [] = retS ()"
| "run_loop okapi uuid5 ((now, mtime, s) # polls) = bindS (run_once okapi uuid5 now mtime s) (\<lambda>_. run_loop okapi uuid5 polls)"

definition flusher_main :: "bool \<Rightarrow> okapi \<Rightarrow> (string \<Rightarrow> string) \<Rightarrow> (rat \<times> nat \<times> db) list \<Rightarrow> (index_files, unit) st" where
  "flusher_main once okapi uuid5 polls = run_loop okapi uuid5 (if once then take 1 polls else polls)"

section \<open>Credentials\<close>

datatype provision_command = ProvisionCreate string "string list option" | ProvisionRevoke string

text \<open>The scopes are choices of the parser; \<open>None\<close> is its refusal. Identifiers, token and clock come from outside.\<close>

fun provision_op :: "string \<Rightarrow> string \<Rightarrow> string \<Rightarrow> int \<Rightarrow> provision_command \<Rightarrow> auth_op option" where
  "provision_op tenant cred tok now (ProvisionCreate name granted) = (case granted of
       None \<Rightarrow> Some (ACreate name (Some (ScopeColl (sorted_list_of_set DEFAULT_SCOPES))) tenant cred tok)
     | Some ss \<Rightarrow> if list_all (\<lambda>s. s \<in> KNOWN_SCOPES) ss then Some (ACreate name (Some (ScopeColl ss)) tenant cred tok) else None)"
| "provision_op tenant cred tok now (ProvisionRevoke key) = Some (ARevokeKey key now)"

definition pair_op :: "string \<Rightarrow> string \<Rightarrow> string \<Rightarrow> int \<Rightarrow> auth_op option" where
  "pair_op command tenant tok now = (if command = ''issue'' then Some (AIssuePairing tenant tok now)
     else if command = ''revoke'' then Some (ARevokeDevices tenant now) else None)"

section \<open>The worker process\<close>

datatype worker_event =
    WConfigure
  | WConnect
  | WMakeStore
  | WSetTracker
  | WSetStore
  | WRun
  | WDrain
  | WClearTracker
  | WClearStore
  | WCloseStore

text \<open>Each event may raise, by its position in the trace.\<close>

definition wevent :: "(nat \<Rightarrow> exn option) \<Rightarrow> worker_event \<Rightarrow> (worker_event list, unit) st" where
  "wevent F a = (\<lambda>t. (t @ [a], case F (length t) of None \<Rightarrow> Inr () | Some e \<Rightarrow> Inl e))"

fun wevents :: "(nat \<Rightarrow> exn option) \<Rightarrow> worker_event list \<Rightarrow> (worker_event list, unit) st" where
  "wevents F [] = retS ()"
| "wevents F (a # as) = bindS (wevent F a) (\<lambda>_. wevents F as)"

definition worker_main :: "(nat \<Rightarrow> exn option) \<Rightarrow> (worker_event list, unit) st" where
  "worker_main F = bindS (wevents F [WConfigure, WConnect, WMakeStore, WSetTracker, WSetStore]) (\<lambda>_. (\<lambda>t.
     case wevent F WRun t of (t1, r) \<Rightarrow>
       (case wevents F [WDrain, WClearTracker, WClearStore, WCloseStore] t1 of (t2, Inl e) \<Rightarrow> (t2, Inl e) | (t2, Inr u) \<Rightarrow> (t2, r))))"

text \<open>The activities it registers, by name, and those that its workflows execute.\<close>

definition worker_activities :: "string list" where
  "worker_activities = [''register_ingestion'', ''update_ingestion_stage'', ''finish_ingestion_attempt'', ''activate_ingestion_version'',
     ''tombstone_ingestion_document'', ''reconcile_ingestion_indexes'', ''cleanup_ingestion_artifacts'', ''janitor_ingestion_artifacts'',
     ''detect_document_type'', ''extract_with_unstructured'', ''extract_with_textract'', ''chunk_pages'', ''persist_chunks'', ''embed_and_index'']"

fun activity_name :: "act \<Rightarrow> string" where
  "activity_name RegisterIngestion = ''register_ingestion''"
| "activity_name UpdateStage = ''update_ingestion_stage''"
| "activity_name FinishAttempt = ''finish_ingestion_attempt''"
| "activity_name DetectType = ''detect_document_type''"
| "activity_name ExtractTextract = ''extract_with_textract''"
| "activity_name ExtractUnstructured = ''extract_with_unstructured''"
| "activity_name ChunkPages = ''chunk_pages''"
| "activity_name PersistChunks = ''persist_chunks''"
| "activity_name EmbedIndex = ''embed_and_index''"
| "activity_name ActivateVersion = ''activate_ingestion_version''"
| "activity_name CleanupArtifacts = ''cleanup_ingestion_artifacts''"

lemma activities_registered: "activity_name a \<in> set worker_activities"
  by (cases a) (simp_all add: worker_activities_def)

section \<open>What operating the system can do\<close>

lemma attempt_of_cases:
  assumes "attempt_of A m s = (s', r)"
  obtains "s' = s" "\<not> is_ok r" | r' where "m s = (s', r')" "is_ok r \<longrightarrow> r = r'"
  using assms by (cases "m s") (auto simp: attempt_of_def is_ok_iff split: if_splits)

lemma with_retry_facts:
  assumes "\<forall>m \<in> set ms. \<forall>s. I s \<longrightarrow> I (fst (m s))" "I s" "with_retry n ms s = (s', r)"
  shows "I s' \<and> (\<forall>v. r = Inr v \<longrightarrow> (\<exists>m \<in> set ms. \<exists>s0. I s0 \<and> m s0 = (s', Inr v)))"
  using assms
proof (induction ms arbitrary: n s)
  case Nil
  then show ?case by (auto simp: failS_def)
next
  case (Cons m ms)
  obtain s1 q where m: "m s = (s1, q)" by fastforce
  have I1: "I s1" using Cons.prems(1,2) m by (metis fst_conv list.set_intros(1))
  show ?case
  proof (cases n)
    case 0
    then show ?thesis using Cons.prems(2,3) by (auto simp: failS_def)
  next
    case (Suc k)
    show ?thesis
    proof (cases "is_ok q \<or> k = 0")
      case True
      then show ?thesis using Cons.prems(2,3) m I1 Suc by (auto simp: is_ok_iff split: sum.splits)
    next
      case False
      then have w: "with_retry k ms s1 = (s', r)" using Cons.prems(3) m Suc by (cases q) (simp_all add: is_ok_iff)
      have "\<forall>m \<in> set ms. \<forall>s. I s \<longrightarrow> I (fst (m s))" using Cons.prems(1) by simp
      from Cons.IH[OF this I1 w] show ?thesis by auto
    qed
  qed
qed

text \<open>A law of the activity is a law of its workflow.\<close>

lemma retried:
  assumes "\<forall>A \<in> set As. \<forall>s. I s \<longrightarrow> I (fst (f A s))" "I s"
    and "with_retry n (map (\<lambda>A. attempt_of A (f A)) As) s = (s', r)"
  shows "I s' \<and> (\<forall>v. r = Inr v \<longrightarrow> (\<exists>A \<in> set As. \<exists>s0. I s0 \<and> f A s0 = (s', Inr v)))"
proof -
  have keep: "I (fst (attempt_of A (f A) q))" if "A \<in> set As" "I q" for A q
    using assms(1)[rule_format, of A q] that by (cases q) (simp add: attempt_of_def case_prod_beta)
  have "\<forall>m \<in> set (map (\<lambda>A. attempt_of A (f A)) As). \<forall>s. I s \<longrightarrow> I (fst (m s))" using keep by auto
  from with_retry_facts[OF this assms(2,3)]
  have all: "I s' \<and> (\<forall>v. r = Inr v \<longrightarrow> (\<exists>A \<in> set As. \<exists>s0. I s0 \<and> attempt_of A (f A) s0 = (s', Inr v)))" by simp
  have "f A s0 = (s', Inr v)" if "attempt_of A (f A) s0 = (s', Inr v)" for A s0 v
    using that by (auto elim: attempt_of_cases simp: is_ok_iff)
  then show ?thesis using all by blast
qed

lemma tombstone_activity:
  assumes "tombstone_ingestion_document reconcile rebuild doc tenant reason (s, x) = ((t, y), r)" "db_inv s"
  shows "db_inv t \<and> map (\<lambda>d. (d_id d, d_tenant d)) (docs t) = map (\<lambda>d. (d_id d, d_tenant d)) (docs s) \<and>
    (abs_db t = abs_db s \<or> abs_db t = (abs_db s)(doc := Deleted) \<and> (doc, tenant) \<in> (\<lambda>d. (d_id d, d_tenant d)) ` set (docs s)) \<and>
    (\<forall>v. r = Inr v \<longrightarrow> abs_db t doc = Deleted \<and> (\<exists>c x0 x1. rc_tenant c = tenant \<and> rc_doc c = doc \<and> rc_active c = None \<and> rc_deleted c \<and>
       reconcile c x0 = (x1, True) \<and> rebuild x1 = (y, True)))"
proof (cases "tombstone_tx doc tenant (safe_reason reason) s")
  case (Inl e)
  then show ?thesis using assms by (auto simp: tombstone_ingestion_document_def tombstone_document_sync_def)
next
  case (Inr s')
  then have t: "t = s'" using assms(1)
    by (auto simp: tombstone_ingestion_document_def tombstone_document_sync_def Let_def split: prod.splits if_splits)
  have abs: "abs_db s' = (abs_db s)(doc := Deleted)" by (rule sim_tombstone[OF assms(2) Inr])
  have own: "(doc, tenant) \<in> (\<lambda>d. (d_id d, d_tenant d)) ` set (docs s)" and
    keys: "map (\<lambda>d. (d_id d, d_tenant d)) (docs s') = map (\<lambda>d. (d_id d, d_tenant d)) (docs s)"
    using Inr by (cases rule: tombstone_cases; auto dest!: find_SomeD simp: doc_key_def image_iff upd_where_def)+
  have "\<exists>c x0 x1. rc_tenant c = tenant \<and> rc_doc c = doc \<and> rc_active c = None \<and> rc_deleted c \<and>
       reconcile c x0 = (x1, True) \<and> rebuild x1 = (y, True)" if "r = Inr v" for v
  proof -
    let ?f = "case find (doc_key doc tenant) (docs s) of None \<Rightarrow> [] | Some d \<Rightarrow> d_filename d"
    let ?c = "\<lparr>rc_tenant = tenant, rc_doc = doc, rc_active = None, rc_filename = ?f, rc_deleted = True, rc_delete_legacy = False\<rparr>"
    obtain x1 ok1 where c: "reconcile ?c x = (x1, ok1)" by fastforce
    obtain x2 ok2 where b: "rebuild x1 = (x2, ok2)" by fastforce
    have "ok1" "ok2" "x2 = y" using assms(1) Inr c b that
      by (auto simp: tombstone_ingestion_document_def tombstone_document_sync_def Let_def split: if_splits)
    then show ?thesis using c b by (intro exI[of _ ?c]) auto
  qed
  then show ?thesis using tombstone_inv[OF assms(2) Inr] abs own keys t by simp
qed

lemma reconcile_activity:
  assumes "reconcile_ingestion_indexes_sync reconcile rebuild now (s, x) = ((t, y), r)" "db_inv s"
  shows "db_inv t \<and> abs_db t = abs_db s"
proof -
  have "t = s \<or> t = repair_tx now s"
    using assms(1) by (auto simp: reconcile_ingestion_indexes_sync_def split: prod.splits if_splits)
  moreover have "abs_db (repair_tx now s) = abs_db s" by (rule abs_db_docs) (simp add: repair_tx_def)
  ultimately show ?thesis using repair_inv[OF assms(2)] assms(2) by auto
qed

text \<open>The artifacts that the janitor may delete: of a failed version that is not published, whose attempt ended before the limit under
  a workflow that does not run any more.\<close>

definition expendable :: "db \<Rightarrow> int \<Rightarrow> string list \<Rightarrow> string \<times> string \<times> string \<Rightarrow> bool" where
  "expendable s limit running k = (case k of (tenant, doc, ver) \<Rightarrow> abs_db s doc \<noteq> Live (Some ver) \<and>
     (\<exists>v \<in> set (vers s). ver_key ver doc tenant v \<and> v_status v = VFailed \<and>
       (\<exists>a \<in> set (atts s). a_id a = v_attempt v \<and> \<not> att_open a \<and>
         (starts_with (a_workflow a) ''ingest-'' \<longrightarrow> a_workflow a \<notin> set running) \<and> (\<exists>x < limit. a_finished a = Some x))))"

lemma expired_expendable:
  assumes "db_inv s" "k \<in> set (expired_artifact_identities_sync limit (active_ingestions running) s)"
  shows "expendable s limit running k"
proof -
  obtain tenant doc ver where k: "k = (tenant, doc, ver)" by (cases k)
  show ?thesis using janitor_safe[OF assms(1) assms(2)[unfolded k]]
    unfolding k expendable_def active_ingestions_def by auto
qed

lemma fold_keeps: "(\<And>k x. k \<in> set ks \<Longrightarrow> P x \<Longrightarrow> P (f k x)) \<Longrightarrow> P x \<Longrightarrow> P (fold f ks x)"
  by (induction ks arbitrary: x) simp_all

lemma janitor_activity:
  assumes "janitor_ingestion_artifacts del limit (active_ingestions running) s x = (y, n)" "db_inv s" "P x"
    and "\<And>k stage x. expendable s limit running k \<Longrightarrow> stage \<in> set artifact_stages \<Longrightarrow> P x \<Longrightarrow> P (del (k, stage) x)"
  shows "P y"
proof -
  have y: "y = fold del (List.product (expired_artifact_identities_sync limit (active_ingestions running) s) artifact_stages) x"
    using assms(1) by (simp add: janitor_ingestion_artifacts_def Let_def)
  show ?thesis unfolding y using assms(3)
    by (rule fold_keeps[rotated]) (auto intro: assms(4) expired_expendable[OF assms(2)])
qed

text \<open>What a command of the operator may leave behind.\<close>

fun operated :: "db \<Rightarrow> int \<Rightarrow> 'x attempt list \<Rightarrow> admin_command \<Rightarrow> db \<Rightarrow> 'x \<Rightarrow> bool \<Rightarrow> bool" where
  "operated s now As AdminReconcile t y ok = (abs_db t = abs_db s)"
| "operated s now As (AdminJanitor days) t y ok = (t = s \<and> 1 \<le> days \<and> days \<le> 3650)"
| "operated s now As (AdminTombstone tenant doc reason confirmation) t y ok =
     (confirmation = doc \<and>
      (abs_db t = abs_db s \<or> abs_db t = (abs_db s)(doc := Deleted) \<and> (\<exists>d \<in> set (docs s). doc_key doc tenant d)) \<and>
      (ok \<longrightarrow> abs_db t doc = Deleted \<and> (\<exists>A \<in> set As. \<exists>c x0 x1. rc_tenant c = tenant \<and> rc_doc c = doc \<and> rc_active c = None \<and>
         rc_deleted c \<and> at_reconcile A c x0 = (x1, True) \<and> at_rebuild A x1 = (y, True))))"

lemma run_reconcile:
  assumes "db_inv s" "reconcile_workflow As (s, x) = ((t, y), r)"
  shows "db_inv t \<and> abs_db t = abs_db s"
proof -
  let ?I = "\<lambda>(q :: db \<times> 'a). db_inv (fst q) \<and> abs_db (fst q) = abs_db s"
  have keep: "?I (fst (reconcile_ingestion_indexes_sync (at_reconcile A) (at_rebuild A) (at_now A) q))" if "?I q" for A q
  proof -
    obtain q1 q2 t1 t2 r1 where q: "q = (q1, q2)" and
      run: "reconcile_ingestion_indexes_sync (at_reconcile A) (at_rebuild A) (at_now A) (q1, q2) = ((t1, t2), r1)"
      by (metis surj_pair)
    show ?thesis using reconcile_activity[OF run] that unfolding q run by simp
  qed
  have "\<forall>A \<in> set As. \<forall>q. ?I q \<longrightarrow> ?I (fst (reconcile_ingestion_indexes_sync (at_reconcile A) (at_rebuild A) (at_now A) q))"
    using keep by blast
  from retried[where I = ?I, OF this _ assms(2)[unfolded reconcile_workflow_def]] show ?thesis using assms(1) by simp
qed

lemma run_tombstone:
  assumes "db_inv s" "tombstone_workflow doc tenant reason As (s, x) = ((t, y), r)"
  shows "db_inv t \<and> operated s now As (AdminTombstone tenant doc reason doc) t y (is_ok r)"
proof -
  let ?keys = "\<lambda>q :: db. map (\<lambda>d. (d_id d, d_tenant d)) (docs q)"
  let ?I = "\<lambda>(q :: db \<times> 'a). db_inv (fst q) \<and> ?keys (fst q) = ?keys s \<and> (abs_db (fst q) = abs_db s \<or>
    abs_db (fst q) = (abs_db s)(doc := Deleted) \<and> (doc, tenant) \<in> set (?keys s))"
  have keep: "?I (fst (tombstone_ingestion_document (at_reconcile A) (at_rebuild A) doc tenant reason q))" if "?I q" for A q
  proof -
    obtain q1 q2 t1 t2 r1 where q: "q = (q1, q2)" and
      run: "tombstone_ingestion_document (at_reconcile A) (at_rebuild A) doc tenant reason (q1, q2) = ((t1, t2), r1)"
      by (metis surj_pair)
    have I: "db_inv q1" "?keys q1 = ?keys s" "abs_db q1 = abs_db s \<or> abs_db q1 = (abs_db s)(doc := Deleted) \<and> (doc, tenant) \<in> set (?keys s)"
      using that q by simp_all
    have own: "(\<lambda>d. (d_id d, d_tenant d)) ` set (docs q1) = set (?keys s)" using I(2) by (metis set_map)
    from tombstone_activity[OF run I(1)] show ?thesis unfolding q run own using I(2,3) by auto
  qed
  have all: "?I (t, y) \<and> (\<forall>v. r = Inr v \<longrightarrow> (\<exists>A \<in> set As. \<exists>s0. ?I s0 \<and>
      tombstone_ingestion_document (at_reconcile A) (at_rebuild A) doc tenant reason s0 = ((t, y), Inr v)))"
  proof (rule retried[where I = ?I, OF _ _ assms(2)[unfolded tombstone_workflow_def]])
    show "\<forall>A \<in> set As. \<forall>q. ?I q \<longrightarrow>
        ?I (fst (tombstone_ingestion_document (at_reconcile A) (at_rebuild A) doc tenant reason q))" using keep by blast
  qed (simp add: assms(1))
  have ok: "abs_db t doc = Deleted \<and> (\<exists>A \<in> set As. \<exists>c x0 x1. rc_tenant c = tenant \<and> rc_doc c = doc \<and> rc_active c = None \<and>
      rc_deleted c \<and> at_reconcile A c x0 = (x1, True) \<and> at_rebuild A x1 = (y, True))" if r: "r = Inr v" for v
  proof -
    obtain A q where q: "A \<in> set As" "?I q"
      "tombstone_ingestion_document (at_reconcile A) (at_rebuild A) doc tenant reason q = ((t, y), Inr v)"
      using all r by blast
    obtain s0 x0 where s0: "q = (s0, x0)" by fastforce
    have A: "A \<in> set As" "db_inv s0"
      "tombstone_ingestion_document (at_reconcile A) (at_rebuild A) doc tenant reason (s0, x0) = ((t, y), Inr v)"
      using q unfolding s0 by simp_all
    show ?thesis using tombstone_activity[OF A(3,2)] A(1) by blast
  qed
  have "\<exists>d \<in> set (docs s). doc_key doc tenant d" if "(doc, tenant) \<in> set (?keys s)"
    using that by (auto simp: doc_key_def)
  then show ?thesis using all ok by (auto simp: is_ok_iff)
qed

lemma run_janitor:
  assumes "db_inv s" "janitor_workflow limit (active_ingestions running) As (s, x) = ((t, y), r)" "P x"
    and "\<And>A k stage x. A \<in> set As \<Longrightarrow> expendable s limit running k \<Longrightarrow> stage \<in> set artifact_stages \<Longrightarrow> P x \<Longrightarrow> P (at_delete A (k, stage) x)"
  shows "t = s \<and> P y"
proof -
  let ?I = "\<lambda>(q :: db \<times> 'a). fst q = s \<and> P (snd q)"
  let ?f = "\<lambda>A (s, x). case janitor_ingestion_artifacts (at_delete A) limit (active_ingestions running) s x of (x', n) \<Rightarrow> ((s, x'), Inr n)"
  have keep: "?I (fst (?f A q))" if A: "A \<in> set As" and I: "?I q" for A q
  proof -
    obtain q2 where q: "q = (s, q2)" "P q2" using I by (cases q) auto
    obtain x' n where run: "janitor_ingestion_artifacts (at_delete A) limit (active_ingestions running) s q2 = (x', n)" by fastforce
    have "P x'" by (rule janitor_activity[where P = P, OF run assms(1) q(2)]) (rule assms(4)[OF A])
    then show ?thesis using q(1) run by simp
  qed
  have "\<forall>A \<in> set As. \<forall>q. ?I q \<longrightarrow> ?I (fst (?f A q))" using keep by blast
  from retried[where I = ?I, OF this _ assms(2)[unfolded janitor_workflow_def]] show ?thesis using assms(3) by simp
qed

text \<open>C14 The commands of the operator are safe. A command that the parser refuses starts nothing. Reconciliation publishes the same
  versions as before. The janitor leaves the database alone and deletes nothing but the page and chunk artifacts of failed
  unpublished versions whose attempt ended at least a day ago under no ingestion workflow that still runs: any law of the store that
  such deletions keep is kept. A tombstone concerns the one document that was confirmed, and only if it is the tenant's; a tombstone
  that is reported as completed has deleted it, withdrawn it from the vector index and rebuilt the lexical index. So it goes however
  often the activity is attempted, however the indexes answer and whatever is reported of an attempt.\<close>

theorem operator_actions:
  assumes "db_inv s" "admin_main uuid now running c = Some w" "execute_start As w (s, x) = ((t, y), r)"
  shows "db_inv t \<and> operated s now As c t y (is_ok r) \<and>
    (\<forall>days P. c = AdminJanitor days \<longrightarrow> P x \<longrightarrow>
       (\<forall>A \<in> set As. \<forall>k stage x. expendable s (now - 86400) running k \<longrightarrow> stage \<in> set artifact_stages \<longrightarrow> P x \<longrightarrow> P (at_delete A (k, stage) x)) \<longrightarrow> P y)"
proof -
  have c: "admin_accepts c" and w: "w = admin_run uuid now running c"
    using assms(2) by (simp_all add: admin_main_def split: if_splits)
  show ?thesis
  proof (cases c)
    case AdminReconcile
    then obtain q where "reconcile_workflow As (s, x) = ((t, y), q)"
      using assms(3) w by (auto elim!: bindS_cases simp: retS_def)
    from run_reconcile[OF assms(1) this] show ?thesis using AdminReconcile by simp
  next
    case (AdminTombstone tenant doc reason confirmation)
    then obtain q where run: "tombstone_workflow doc tenant reason As (s, x) = ((t, y), q)" and "is_ok q = is_ok r"
      using assms(3) w by (auto elim!: bindS_cases simp: retS_def is_ok_iff)
    with run_tombstone[OF assms(1) run, of now] show ?thesis using AdminTombstone c by simp
  next
    case (AdminJanitor days)
    let ?limit = "now - days * 86400"
    have days: "1 \<le> days" "days \<le> 3650" using c AdminJanitor by simp_all
    obtain q where run: "janitor_workflow ?limit (active_ingestions running) As (s, x) = ((t, y), q)"
      using assms(3) w AdminJanitor by (auto elim!: bindS_cases simp: retS_def)
    have "expendable s (now - 86400) running k" if "expendable s ?limit running k" for k
      using that days(1) unfolding expendable_def by (auto split: prod.splits) (smt (verit))+
    then have "t = s \<and> P y" if "P x" "\<forall>A \<in> set As. \<forall>k stage x. expendable s (now - 86400) running k \<longrightarrow>
        stage \<in> set artifact_stages \<longrightarrow> P x \<longrightarrow> P (at_delete A (k, stage) x)" for P
      using run_janitor[where P = P, OF assms(1) run that(1)] that(2) by blast
    from this[of "\<lambda>_. True"] this show ?thesis using AdminJanitor days assms(1) by auto
  qed
qed

text \<open>An attempt whose indexes answer and whose store keeps the deletions in a list.\<close>

definition answering :: "bool \<Rightarrow> ((string \<times> string \<times> string) \<times> string) list attempt" where
  "answering reported = \<lparr>at_runs = True, at_reconcile = (\<lambda>c x. (x, True)), at_rebuild = (\<lambda>x. (x, True)), at_delete = (\<lambda>k x. x @ [k]),
     at_now = 3, at_reported = reported\<rparr>"

definition failed_db :: db where
  "failed_db = run_all run_op [OpRegister demo_ident, OpStage ''d'' ''a'' ''t'' ''detecting'' 1,
      OpFinish ''d'' ''a'' ''v'' ''t'' ''failed'' None 7] empty_db"

theorem operator_actions_witness:
  "(\<exists>t y. execute_start [answering False, answering True] (StartTombstone ''w'' ''d'' ''t'' ''asked'') (failed_db, []) = ((t, y), Inr ()) \<and>
      db_inv t \<and> abs_db t ''d'' = Deleted) \<and>
   (\<exists>t y. execute_start [answering True] (StartJanitor ''ingestion-artifact-janitor-u'' (100000 - 86400) []) (failed_db, []) = ((t, y), Inr ()) \<and>
      y \<noteq> [] \<and> t = failed_db \<and> (\<forall>(k, stage) \<in> set y. expendable failed_db (100000 - 86400) [''other''] k))"
proof (intro conjI)
  have inv: "db_inv failed_db" unfolding failed_db_def by (rule ingestion_invariant_aux)
  let ?As = "[answering False, answering True]" and ?w = "StartTombstone ''tombstone-ingestion-d-u'' ''d'' ''t'' ''asked''"
  have "is_ok (snd (execute_start ?As ?w (failed_db, [])))" by code_simp
  then obtain t y where r: "execute_start ?As ?w (failed_db, []) = ((t, y), Inr ())"
    by (cases "execute_start ?As ?w (failed_db, [])") (auto simp: is_ok_iff)
  have a: "admin_main ''u'' 100000 [''other''] (AdminTombstone ''t'' ''d'' ''asked'' ''d'') = Some ?w" by (simp add: admin_main_def)
  show "\<exists>t y. execute_start ?As (StartTombstone ''w'' ''d'' ''t'' ''asked'') (failed_db, []) = ((t, y), Inr ()) \<and> db_inv t \<and> abs_db t ''d'' = Deleted"
    using operator_actions[OF inv a r] r by (intro exI[of _ t] exI[of _ y]) simp
next
  have inv: "db_inv failed_db" unfolding failed_db_def by (rule ingestion_invariant_aux)
  let ?w = "StartJanitor ''ingestion-artifact-janitor-u'' (100000 - 86400) []"
  let ?r = "execute_start [answering True] ?w (failed_db, [])"
  have "is_ok (snd ?r) \<and> snd (fst ?r) \<noteq> []" by code_simp
  then obtain t y where r: "?r = ((t, y), Inr ())" and y: "y \<noteq> []" by (cases ?r) (auto simp: is_ok_iff)
  have a: "admin_main ''u'' 100000 [''other''] (AdminJanitor 1) = Some ?w"
    by (simp add: admin_main_def active_ingestions_def starts_with_def)
  show "\<exists>t y. ?r = ((t, y), Inr ()) \<and> y \<noteq> [] \<and> t = failed_db \<and>
      (\<forall>(k, stage) \<in> set y. expendable failed_db (100000 - 86400) [''other''] k)"
  proof (intro exI[of _ t] exI[of _ y] conjI)
    let ?P = "\<lambda>y. \<forall>(k, stage) \<in> set y. expendable failed_db (100000 - 86400) [''other''] k"
    note f = operator_actions[OF inv a r]
    from f show "t = failed_db" by simp
    have keep: "\<forall>A \<in> set [answering True]. \<forall>k stage x. expendable failed_db (100000 - 86400) [''other''] k \<longrightarrow>
        stage \<in> set artifact_stages \<longrightarrow> ?P x \<longrightarrow> ?P (at_delete A (k, stage) x)"
      by (simp add: answering_def)
    have "?P []" by simp
    from f[THEN conjunct2, THEN conjunct2, rule_format, of 1 ?P, OF refl this] keep show "?P y" by blast
  qed (fact r, fact y)
qed

section \<open>The order in which the worker stops\<close>

text \<open>The worker waits for its background work before it closes the vector store, also when serving fails; and when that wait fails the
  store stays open.\<close>

lemma wevents_started: "wevents F as t = (t', Inr u) \<Longrightarrow> t' = t @ as"
proof (induction "as" arbitrary: t)
  case (Cons a "as")
  then have "wevents F as (t @ [a]) = (t', Inr u)" by (simp add: wevent_def bindS_def split: option.splits)
  from Cons.IH[OF this] show ?case by simp
qed (simp add: retS_def)

lemma wevents_set: "wevents F as t = (t', r) \<Longrightarrow> set t' \<subseteq> set t \<union> set as"
  by (induction "as" arbitrary: t) (fastforce simp: retS_def wevent_def bindS_def split: option.splits)+

lemma worker_stops:
  assumes "worker_main F [] = (t, r)" "WRun \<in> set t"
  shows "take 7 t = [WConfigure, WConnect, WMakeStore, WSetTracker, WSetStore, WRun, WDrain] \<and>
    (WCloseStore \<in> set t \<longleftrightarrow> F 6 = None \<and> F 7 = None \<and> F 8 = None) \<and> (r = Inr () \<longrightarrow> F 5 = None \<and> WCloseStore \<in> set t)"
proof -
  let ?up = "[WConfigure, WConnect, WMakeStore, WSetTracker, WSetStore]"
  obtain t0 q where up: "wevents F ?up [] = (t0, q)" by fastforce
  show ?thesis
  proof (cases q)
    case (Inl e)
    then have "t = t0" using assms(1) unfolding worker_main_def bindS_def[of "wevents F ?up"] up by simp
    then show ?thesis using wevents_set[OF up] assms(2) by auto
  next
    case (Inr u)
    then have t0: "t0 = ?up" using wevents_started[of F ?up "[]"] up by simp
    have "(t, r) = (case wevent F WRun ?up of (t1, r) \<Rightarrow>
       (case wevents F [WDrain, WClearTracker, WClearStore, WCloseStore] t1 of (t2, Inl e) \<Rightarrow> (t2, Inl e) | (t2, Inr u) \<Rightarrow> (t2, r)))"
      using assms(1) unfolding worker_main_def bindS_def[of "wevents F ?up"] up Inr t0 by simp
    then show ?thesis by (auto simp: wevent_def bindS_def retS_def numeral_eq_Suc split: option.splits)
  qed
qed

end
